(* ===== verification/Prelude.thy ===== *)
theory Prelude
  imports Main "HOL-Library.Word" "HOL-Library.Signed_Division"
begin

text \<open>
  What every component shares: the C counting loops as combinators with one invariant rule
  each, the C integer operations the engine relies on (division and remainder that truncate
  towards zero, the two's complement value of a 64-bit \<open>BPLONG\<close>), and lemmas on list updates.

  A counted loop \<open>for (i = a; i < n; i++) body\<close> is \<open>for_loop a n body\<close>; a loop with a second
  condition, \<open>for (; i < n && b; i++) body\<close>, is \<open>for_while\<close>, which also returns the final
  index; a loop that counts down, \<open>for (i = n-1; i >= 0; i--) body\<close>, is \<open>for_down\<close>.
  Proofs about a loop name its invariant and use the rule of the combinator; none inducts on
  the loop itself.
\<close>

unbundle bit_operations_syntax

named_theorems loop_simps "unfolding rules of loops on closed arguments"
named_theorems c_arith "C integer operations"

section \<open>Counting loops\<close>

function for_loop :: "nat \<Rightarrow> nat \<Rightarrow> (nat \<Rightarrow> 's \<Rightarrow> 's) \<Rightarrow> 's \<Rightarrow> 's" where
  "for_loop i n f s = (if i < n then for_loop (Suc i) n f (f i s) else s)"
  by pat_completeness auto
termination by (relation "measure (\<lambda>(i, n, f, s). n - i)") auto

declare for_loop.simps [simp del]

function for_while :: "nat \<Rightarrow> nat \<Rightarrow> ('s \<Rightarrow> bool) \<Rightarrow> (nat \<Rightarrow> 's \<Rightarrow> 's) \<Rightarrow> 's \<Rightarrow> nat \<times> 's" where
  "for_while i n b f s = (if i < n \<and> b s then for_while (Suc i) n b f (f i s) else (i, s))"
  by pat_completeness auto
termination by (relation "measure (\<lambda>(i, n, b, f, s). n - i)") auto

declare for_while.simps [simp del]

fun for_down :: "nat \<Rightarrow> (nat \<Rightarrow> 's \<Rightarrow> 's) \<Rightarrow> 's \<Rightarrow> 's" where
  "for_down 0 f s = s"
| "for_down (Suc n) f s = for_down n f (f n s)"

lemma for_loop_done [simp]: "n \<le> i \<Longrightarrow> for_loop i n f s = s"
  by (simp add: for_loop.simps [of i n])

lemma for_loop_step: "i < n \<Longrightarrow> for_loop i n f s = for_loop (Suc i) n f (f i s)"
  by (simp add: for_loop.simps [of i n])

lemma for_while_stop: "\<not> (i < n \<and> b s) \<Longrightarrow> for_while i n b f s = (i, s)"
  by (subst for_while.simps) (simp only: if_False)

lemma for_while_step: "i < n \<Longrightarrow> b s \<Longrightarrow> for_while i n b f s = for_while (Suc i) n b f (f i s)"
  by (simp add: for_while.simps [of i n])

lemma for_down_numeral [loop_simps]:
  "for_down (numeral k) f s = for_down (pred_numeral k) f (f (pred_numeral k) s)"
  by (simp add: numeral_eq_Suc)

lemma for_loop_rule:
  assumes "P i s" and "i \<le> n"
    and "\<And>k t. i \<le> k \<Longrightarrow> k < n \<Longrightarrow> P k t \<Longrightarrow> P (Suc k) (f k t)"
  shows "P n (for_loop i n f s)"
  using assms
proof (induction i n f s rule: for_loop.induct)
  case (1 i n f s)
  show ?case
  proof (cases "i < n")
    case True
    then have "P n (for_loop (Suc i) n f (f i s))"
      using 1 by (intro "1.IH") auto
    with True show ?thesis by (simp add: for_loop_step)
  next
    case False
    with "1.prems" show ?thesis by simp
  qed
qed

text \<open>A loop over partial steps that all succeed.\<close>

lemma for_loop_option:
  assumes "P i s" and "\<And>k t. i \<le> k \<Longrightarrow> k < n \<Longrightarrow> P k t \<Longrightarrow> f k (Some t) = Some (g k t) \<and> P (Suc k) (g k t)"
  shows "for_loop i n f (Some s) = Some (for_loop i n g s)"
  using assms
proof (induction i n g s rule: for_loop.induct)
  case (1 i n g s)
  show ?case
  proof (cases "i < n")
    case True
    have "for_loop (Suc i) n f (Some (g i s)) = Some (for_loop (Suc i) n g (g i s))"
      using True "1.prems" by (intro "1.IH") auto
    then show ?thesis using True "1.prems" by (simp add: for_loop_step)
  qed simp
qed

lemma for_while_rule:
  assumes "P i s" and "i \<le> n"
    and "\<And>k t. i \<le> k \<Longrightarrow> k < n \<Longrightarrow> b t \<Longrightarrow> P k t \<Longrightarrow> P (Suc k) (f k t)"
    and "for_while i n b f s = (j, s')"
  shows "P j s' \<and> i \<le> j \<and> j \<le> n \<and> (j = n \<or> \<not> b s')"
  using assms
proof (induction i n b f s rule: for_while.induct)
  case (1 i n b f s)
  show ?case
  proof (cases "i < n \<and> b s")
    case True
    then have "P j s' \<and> Suc i \<le> j \<and> j \<le> n \<and> (j = n \<or> \<not> b s')"
      using 1 by (intro "1.IH") (auto simp: for_while_step)
    then show ?thesis by auto
  next
    case False
    with "1.prems" show ?thesis by (auto simp: for_while_stop)
  qed
qed

lemma for_while_extend:
  "for_while i n b f s = (j, s') \<Longrightarrow> \<not> b s' \<Longrightarrow> n \<le> n' \<Longrightarrow> for_while i n' b f s = (j, s')"
proof (induction i n b f s rule: for_while.induct)
  case (1 i n b f s)
  show ?case
  proof (cases "i < n \<and> b s")
    case True
    with "1.prems" have "for_while (Suc i) n' b f (f i s) = (j, s')"
      by (intro "1.IH") (auto simp: for_while_step)
    with True "1.prems" show ?thesis by (simp add: for_while_step)
  next
    case False
    with "1.prems" have "\<not> b s" "(j, s') = (i, s)" by (auto simp: for_while_stop)
    then show ?thesis by (simp add: for_while_stop)
  qed
qed

lemma for_down_rule:
  assumes "P n s" and "\<And>k t. k < n \<Longrightarrow> P (Suc k) t \<Longrightarrow> P k (f k t)"
  shows "P 0 (for_down n f s)"
  using assms
proof (induction n arbitrary: s)
  case 0
  then show ?case by simp
next
  case (Suc n)
  have "P n (f n s)" using Suc.prems by auto
  then show ?case using Suc.prems(2) by (auto intro!: Suc.IH)
qed

section \<open>C integers\<close>

text \<open>
  \<open>BPLONG\<close> is \<open>long long int\<close> (64 bits, two's complement). A result that may leave the range
  goes through \<open>to_long\<close>; elsewhere the operands are bounded so that it cannot.
  \<open>/\<close> and \<open>%\<close> truncate towards zero: \<open>sdiv\<close> and \<open>smod\<close> of HOL-Library.
\<close>

definition to_long :: "int \<Rightarrow> int" where
  "to_long v = signed_take_bit 63 v"

lemma to_long_id [c_arith]: "- (2 ^ 63) \<le> v \<Longrightarrow> v < 2 ^ 63 \<Longrightarrow> to_long v = v"
  unfolding to_long_def by (rule signed_take_bit_int_eq_self) auto

lemma to_long_range: "- (2 ^ 63) \<le> to_long v \<and> to_long v < 2 ^ 63"
  using signed_take_bit_int_greater_eq_minus_exp [of 63 v] signed_take_bit_int_less_exp [of 63 v]
  by (simp add: to_long_def)

lemma sdiv_nonneg [c_arith]: "0 \<le> a \<Longrightarrow> 0 \<le> b \<Longrightarrow> a sdiv b = a div (b::int)"
  by (auto simp: signed_divide_int_def sgn_if)

lemma smod_nonneg [c_arith]: "0 \<le> a \<Longrightarrow> 0 \<le> b \<Longrightarrow> a smod b = a mod (b::int)"
  by (cases "a = 0") (auto simp: signed_modulo_int_def sgn_if)

lemma int_div_less: "0 < b \<Longrightarrow> a < c * b \<Longrightarrow> a div b < (c :: int)"
proof (rule ccontr)
  assume b: "0 < b" and a: "a < c * b" and n: "\<not> a div b < c"
  then have "c * b \<le> a div b * b" by (intro mult_right_mono) auto
  also have "\<dots> \<le> a" using b by (simp add: div_mult_mod_eq minus_mod_eq_div_mult [symmetric])
  finally show False using a by simp
qed

lemma or_eq_plus_shift:
  assumes "0 \<le> a" "a < 2 ^ s"
  shows "a OR push_bit s b = a + push_bit s (b::int)"
proof -
  have "a = take_bit s a" using assms by (simp add: take_bit_int_eq_self)
  then have "a AND push_bit s b = take_bit s a AND push_bit s b" by simp
  also have "\<dots> = 0" by (auto simp: bit_eq_iff bit_simps)
  finally show ?thesis by (simp add: disjunctive_add_eq_or)
qed

section \<open>Lists updated by index\<close>

lemma nth_update_other [simp]: "i \<noteq> j \<Longrightarrow> xs[i := v] ! j = xs ! j"
  by simp

lemma all_less_Suc: "(\<forall>k < Suc n. P k) \<longleftrightarrow> P n \<and> (\<forall>k < n. P k)"
  using less_Suc_eq by auto

end
