(* ===== verification/Ubig.thy ===== *)
theory Ubig
  imports Prelude
begin

text \<open>
  Unsigned big integers, \<open>emu/bigint.c\<close>: an array of base-\<open>2^28\<close> digits, lowest digit first,
  with a size. An array is a list of its cells and a routine that fills a caller's array takes
  the array's old contents and returns the new ones, so that the lemmas also say how many cells
  the caller has to provide. Digits stay below \<open>2^28\<close> and every intermediate sum below \<open>2^57\<close>
  in absolute value, so no \<open>BPLONG\<close> wraps and the cells are \<open>int\<close>.

  \<open>ubig_val n x\<close> is the number that the first \<open>n\<close> digits of \<open>x\<close> denote; each operation's lemma
  relates the values of the arrays before and after.
\<close>

definition BP_BIGINT_BASE :: int where
  "BP_BIGINT_BASE = 268435456"

abbreviation MASK_LOW28 :: int where
  "MASK_LOW28 \<equiv> 268435455"

type_synonym ubigint = "int list"

section \<open>The routines\<close>

definition bigint_compute_carry_val :: "int \<Rightarrow> int \<times> int" where
  "bigint_compute_carry_val x =
     (if x \<ge> BP_BIGINT_BASE then (x - BP_BIGINT_BASE, 1) else (x, 0))"

definition bigint_compute_borrow_val :: "int \<Rightarrow> int \<times> int" where
  "bigint_compute_borrow_val x = (if x < 0 then (x + BP_BIGINT_BASE, 1) else (x, 0))"

text \<open>Decrease the size while the leading digit is zero.\<close>

fun zap_leading_zeros :: "nat \<Rightarrow> ubigint \<Rightarrow> nat" where
  "zap_leading_zeros 0 x = 0"
| "zap_leading_zeros (Suc n) x = (if x ! n = 0 then zap_leading_zeros n x else Suc n)"

text \<open>The value as a \<open>BPLONG\<close>; overflow is not checked.\<close>

definition bp_ubig_to_int :: "nat \<Rightarrow> ubigint \<Rightarrow> int" where
  "bp_ubig_to_int n x =
     for_down (n - 1) (\<lambda>i res. to_long (res * BP_BIGINT_BASE + x ! i)) (x ! (n - 1))"

text \<open>\<open>y = y + 1\<close>, in place.\<close>

definition bp_inc_ubig :: "nat \<Rightarrow> ubigint \<Rightarrow> nat \<times> ubigint" where
  "bp_inc_ubig ysize y =
     (let (v, carry) = bigint_compute_carry_val (y ! 0 + 1);
          (i, y, carry) = for_while 1 ysize (\<lambda>(y, carry). carry = 1)
             (\<lambda>i (y, carry). let (v, carry) = bigint_compute_carry_val (y ! i + 1)
                              in (y[i := v], carry)) (y[0 := v], carry)
      in if carry = 1 then (ysize + 1, y[ysize := 1]) else (ysize, y))"

text \<open>\<open>z = x + y\<close>; the shorter operand is added into the longer one.\<close>

definition bp_add_ubig_ubig ::
  "nat \<Rightarrow> ubigint \<Rightarrow> nat \<Rightarrow> ubigint \<Rightarrow> ubigint \<Rightarrow> nat \<times> ubigint" where
  "bp_add_ubig_ubig xsize0 x0 ysize0 y0 z =
     (let (xsize, x, ysize, y) =
            (if xsize0 > ysize0 then (ysize0, y0, xsize0, x0) else (xsize0, x0, ysize0, y0));
          (z, carry) = for_loop 0 xsize
             (\<lambda>i (z, carry). let sum = x ! i + y ! i + carry;
                                 (v, carry) = bigint_compute_carry_val sum
                              in (z[i := v], carry)) (z, 0);
          (i, z, carry) = for_while xsize ysize (\<lambda>(z, carry). carry = 1)
             (\<lambda>i (z, carry). let (v, carry) = bigint_compute_carry_val (y ! i + 1)
                              in (z[i := v], carry)) (z, carry)
      in if carry = 1 then (ysize + 1, z[ysize := 1])
         else (ysize, for_loop i ysize (\<lambda>i z. z[i := y ! i]) z))"

text \<open>\<open>y = y - 1\<close>, in place.\<close>

definition bp_dec_ubig :: "nat \<Rightarrow> ubigint \<Rightarrow> nat \<times> ubigint" where
  "bp_dec_ubig ysize y =
     (let (v, borrow) = bigint_compute_borrow_val (y ! 0 - 1);
          (i, y, borrow) = for_while 1 ysize (\<lambda>(y, borrow). borrow = 1)
             (\<lambda>i (y, borrow). let (v, borrow) = bigint_compute_borrow_val (y ! i - 1)
                               in (y[i := v], borrow)) (y[0 := v], borrow)
      in (zap_leading_zeros ysize y, y))"

text \<open>
  \<open>z = y - x\<close>, for \<open>y \<ge> x\<close>. The caller may pass \<open>z\<close> for \<open>x\<close>: cell \<open>i\<close> of \<open>x\<close> is read before
  cell \<open>i\<close> of \<open>z\<close> is written, and no cell below is read again.
\<close>

definition bp_sub_ubig_ubig ::
  "nat \<Rightarrow> ubigint \<Rightarrow> nat \<Rightarrow> ubigint \<Rightarrow> ubigint \<Rightarrow> nat \<times> ubigint" where
  "bp_sub_ubig_ubig ysize y xsize x z =
     (let (z, borrow) = for_loop 0 xsize
             (\<lambda>i (z, borrow). let temp = y ! i - x ! i - borrow;
                                  (v, borrow) = bigint_compute_borrow_val temp
                               in (z[i := v], borrow)) (z, 0);
          (i, z, borrow) = for_while xsize ysize (\<lambda>(z, borrow). borrow = 1)
             (\<lambda>i (z, borrow). let (v, borrow) = bigint_compute_borrow_val (y ! i - 1)
                               in (z[i := v], borrow)) (z, borrow);
          z = for_loop i ysize (\<lambda>i z. z[i := y ! i]) z
      in (zap_leading_zeros ysize z, z))"

text \<open>Digit \<open>i\<close> of \<open>x << y\<close>, for \<open>y \<le> 27\<close> and \<open>i \<le> xsize\<close>.\<close>

definition get_shifted_digit :: "nat \<Rightarrow> ubigint \<Rightarrow> nat \<Rightarrow> nat \<Rightarrow> int" where
  "get_shifted_digit xsize x i y =
     (let part1 = (if i = 0 \<or> y = 0 then 0 else drop_bit (28 - y) (x ! (i - 1)));
          part2 = (if i = xsize then 0 else push_bit y (x ! i) AND MASK_LOW28)
      in part1 OR part2)"

text \<open>
  \<open>z = x * y\<close>: for each 1-bit \<open>i2\<close> of each digit \<open>i\<close> of \<open>x\<close>, add \<open>y << (i blocks and i2 bits)\<close>.
  The loop that ripples the last carry has no bound. So here an access of a cell that \<open>z\<close> does not have
  is an outcome of its own, \<open>None\<close>; \<open>z\<close> may be longer than the array, and then has the cells that
  follow it in memory.
\<close>

definition put_cell :: "nat \<Rightarrow> int \<Rightarrow> ubigint \<Rightarrow> ubigint option" where
  "put_cell i v z = (if i < length z then Some (z[i := v]) else None)"

function ripple_carry :: "nat \<Rightarrow> int \<Rightarrow> ubigint \<Rightarrow> ubigint option" where
  "ripple_carry k carry z =
     (if carry = 1
      then if k < length z
           then let (v, carry) = bigint_compute_carry_val (z ! k + 1)
                in ripple_carry (k + 1) carry (z[k := v])
           else None
      else Some z)"
  by pat_completeness auto
termination by (relation "measure (\<lambda>(k, carry, z). length z - k)") auto

declare ripple_carry.simps [simp del]

definition mul_add_shifted :: "nat \<Rightarrow> ubigint \<Rightarrow> nat \<Rightarrow> nat \<Rightarrow> ubigint \<Rightarrow> ubigint option" where
  "mul_add_shifted ysize y i i2 z =
     Option.bind
       (for_loop 0 (ysize + 1)
          (\<lambda>j s. Option.bind s (\<lambda>(z, carry).
             if i + j < length z
             then let temp = z ! (i + j) + get_shifted_digit ysize y j i2 + carry;
                      (v, carry) = bigint_compute_carry_val temp
                  in Some (z[i + j := v], carry)
             else None)) (Some (z, 0)))
       (\<lambda>(z, carry). ripple_carry (i + ysize + 1) carry z)"

definition bp_mul_ubig_ubig ::
  "nat \<Rightarrow> ubigint \<Rightarrow> nat \<Rightarrow> ubigint \<Rightarrow> ubigint \<Rightarrow> (nat \<times> ubigint) option" where
  "bp_mul_ubig_ubig xsize x ysize y z =
     (let zsize = xsize + ysize;
          z = for_loop 0 zsize (\<lambda>i z. Option.bind z (put_cell i 0)) (Some z);
          z = for_loop 0 xsize (\<lambda>i z. for_loop 0 28
                (\<lambda>i2 z. if x ! i AND push_bit i2 1 = 0 then z
                         else Option.bind z (mul_add_shifted ysize y i i2)) z) z
      in Option.bind z (\<lambda>z.
           if 0 < zsize \<and> zsize \<le> length z
           then Some (if z ! (zsize - 1) = 0 then zsize - 1 else zsize, z)
           else None))"

text \<open>
  \<open>x = y * q + r\<close> for \<open>x \<ge> y\<close> and \<open>ysize \<ge> 1\<close>: copy \<open>x\<close> to \<open>r\<close>; for each shift of \<open>y\<close> by \<open>i\<close>
  blocks and \<open>i2\<close> bits, downwards, subtract the shifted \<open>y\<close> from \<open>r\<close> into \<open>subtractBuf\<close>; if the
  difference is not negative, set bit \<open>i2\<close> of \<open>q[i]\<close> and copy the difference back.
\<close>

definition div_try_subtract ::
  "nat \<Rightarrow> nat \<Rightarrow> ubigint \<Rightarrow> nat \<Rightarrow> nat \<Rightarrow> ubigint \<times> ubigint \<times> ubigint
     \<Rightarrow> ubigint \<times> ubigint \<times> ubigint" where
  "div_try_subtract xsize ysize y i i2 qrb = (case qrb of (q, r, subtractBuf) \<Rightarrow>
     let (subtractBuf, borrow) = for_loop 0 (ysize + 1)
             (\<lambda>j (b, borrow). let temp = r ! (i + j) - get_shifted_digit ysize y j i2 - borrow;
                                  (v, borrow) = bigint_compute_borrow_val temp
                               in (b[i + j := v], borrow)) (subtractBuf, 0);
         (k, subtractBuf, borrow) = for_while (i + ysize + 1) xsize (\<lambda>(b, borrow). borrow = 1)
             (\<lambda>k (b, borrow). let (v, borrow) = bigint_compute_borrow_val (r ! k - 1)
                               in (b[k := v], borrow)) (subtractBuf, borrow)
      in if borrow = 0
         then (q[i := q ! i OR push_bit i2 1],
               for_down (k - i) (\<lambda>m r. r[i + m := subtractBuf ! (i + m)]) r, subtractBuf)
         else (q, r, subtractBuf))"

definition bp_div_ubig_ubig ::
  "nat \<Rightarrow> ubigint \<Rightarrow> nat \<Rightarrow> ubigint \<Rightarrow> ubigint \<Rightarrow> ubigint \<Rightarrow> ubigint
     \<Rightarrow> nat \<times> ubigint \<times> nat \<times> ubigint" where
  "bp_div_ubig_ubig xsize x ysize y q r subtractBuf =
     (let qsize = xsize - ysize + 1;
          r = for_loop 0 xsize (\<lambda>i r. r[i := x ! i]) r;
          rsize = xsize + 1;
          r = r[xsize := 0];
          q = for_loop 0 qsize (\<lambda>i q. q[i := 0]) q;
          (q, r, subtractBuf) = for_down qsize (\<lambda>i (q, r, b).
              for_down 28 (div_try_subtract xsize ysize y i) (q[i := 0], r, b)) (q, r, subtractBuf);
          qsize = (if q ! (qsize - 1) = 0 then qsize - 1 else qsize)
      in (qsize, q, zap_leading_zeros rsize r, r))"

text \<open>Compare two magnitudes of the same length.\<close>

fun bp_compare_mag_mag :: "nat \<Rightarrow> ubigint \<Rightarrow> ubigint \<Rightarrow> int" where
  "bp_compare_mag_mag 0 x y = 0"
| "bp_compare_mag_mag (Suc i) x y =
     (if x ! i > y ! i then 1 else if y ! i > x ! i then - 1 else bp_compare_mag_mag i x y)"

text \<open>Copy \<open>x\<close> to \<open>y\<close>, padding with zeros up to \<open>ysize\<close>.\<close>

definition bp_copy_ubig :: "nat \<Rightarrow> ubigint \<Rightarrow> nat \<Rightarrow> ubigint \<Rightarrow> ubigint" where
  "bp_copy_ubig xsize x ysize y =
     (let y = for_loop 0 xsize (\<lambda>i y. y[i := x ! i]) y
      in for_loop xsize ysize (\<lambda>i y. y[i := 0]) y)"

section \<open>Values and well-formed digit arrays\<close>

lemma base_eq_exp: "BP_BIGINT_BASE = 2 ^ 28"
  by (simp add: BP_BIGINT_BASE_def)

lemma base_pos [simp]: "0 < BP_BIGINT_BASE" "0 \<le> BP_BIGINT_BASE" "1 < BP_BIGINT_BASE"
    "1 \<le> BP_BIGINT_BASE" "BP_BIGINT_BASE \<noteq> 0"
  by (simp_all add: BP_BIGINT_BASE_def)

lemma base_power_le_iff [simp]: "BP_BIGINT_BASE ^ m \<le> BP_BIGINT_BASE ^ n \<longleftrightarrow> m \<le> n"
  by (simp add: power_increasing_iff)

definition ubig_val :: "nat \<Rightarrow> ubigint \<Rightarrow> int" where
  "ubig_val n x = (\<Sum>k<n. x ! k * BP_BIGINT_BASE ^ k)"

definition digits_ok :: "nat \<Rightarrow> ubigint \<Rightarrow> bool" where
  "digits_ok n x \<longleftrightarrow> n \<le> length x \<and> (\<forall>k<n. 0 \<le> x ! k \<and> x ! k < BP_BIGINT_BASE)"

definition normal_ubig :: "nat \<Rightarrow> ubigint \<Rightarrow> bool" where
  "normal_ubig n x \<longleftrightarrow> digits_ok n x \<and> (0 < n \<longrightarrow> x ! (n - 1) \<noteq> 0)"

lemma ubig_val_0 [simp]: "ubig_val 0 x = 0"
  by (simp add: ubig_val_def)

lemma ubig_val_Suc: "ubig_val (Suc n) x = ubig_val n x + x ! n * BP_BIGINT_BASE ^ n"
  by (simp add: ubig_val_def)

lemma ubig_val_cong: "(\<And>k. k < n \<Longrightarrow> x ! k = y ! k) \<Longrightarrow> ubig_val n x = ubig_val n y"
  by (simp add: ubig_val_def)

lemma ubig_val_update_ge [simp]: "n \<le> i \<Longrightarrow> ubig_val n (x[i := v]) = ubig_val n x"
  by (rule ubig_val_cong) simp

lemma ubig_val_update_last [simp]:
  "i < length x \<Longrightarrow> ubig_val (Suc i) (x[i := v]) = ubig_val i x + v * BP_BIGINT_BASE ^ i"
  by (simp add: ubig_val_Suc)

lemma ubig_val_update:
  "i < n \<Longrightarrow> n \<le> length x \<Longrightarrow>
   ubig_val n (x[i := v]) = ubig_val n x + (v - x ! i) * BP_BIGINT_BASE ^ i"
proof (induction n)
  case 0
  then show ?case by simp
next
  case (Suc n)
  show ?case
  proof (cases "i = n")
    case True
    with Suc.prems show ?thesis by (simp add: ubig_val_Suc algebra_simps)
  next
    case False
    with Suc show ?thesis by (simp add: ubig_val_Suc algebra_simps)
  qed
qed

lemma digits_ok_le: "digits_ok n x \<Longrightarrow> m \<le> n \<Longrightarrow> digits_ok m x"
  by (auto simp: digits_ok_def)

lemma digits_ok_length: "digits_ok n x \<Longrightarrow> n \<le> length x"
  by (simp add: digits_ok_def)

lemma digits_okD: "digits_ok n x \<Longrightarrow> k < n \<Longrightarrow> 0 \<le> x ! k \<and> x ! k < BP_BIGINT_BASE"
  by (simp add: digits_ok_def)

lemma digits_ok_update:
  "digits_ok n x \<Longrightarrow> 0 \<le> v \<Longrightarrow> v < BP_BIGINT_BASE \<Longrightarrow> digits_ok n (x[i := v])"
  by (cases "i < length x") (auto simp: digits_ok_def nth_list_update)

lemma digits_ok_snoc:
  "digits_ok i x \<Longrightarrow> i < length x \<Longrightarrow> 0 \<le> v \<Longrightarrow> v < BP_BIGINT_BASE \<Longrightarrow> digits_ok (Suc i) (x[i := v])"
  by (auto simp: digits_ok_def less_Suc_eq)

lemma digits_ok_0 [simp]: "digits_ok 0 x"
  by (simp add: digits_ok_def)

lemma ubig_val_bounds:
  "digits_ok n x \<Longrightarrow> 0 \<le> ubig_val n x \<and> ubig_val n x < BP_BIGINT_BASE ^ n"
proof (induction n)
  case 0
  then show ?case by simp
next
  case (Suc n)
  from Suc.prems have d: "digits_ok n x" by (rule digits_ok_le) simp
  have b: "0 \<le> x ! n" "x ! n \<le> BP_BIGINT_BASE - 1"
    using digits_okD [OF Suc.prems, of n] by auto
  have "0 \<le> x ! n * BP_BIGINT_BASE ^ n" using b by simp
  moreover have "x ! n * BP_BIGINT_BASE ^ n \<le> (BP_BIGINT_BASE - 1) * BP_BIGINT_BASE ^ n"
    using b by (intro mult_right_mono) auto
  moreover have "(BP_BIGINT_BASE - 1) * BP_BIGINT_BASE ^ n = BP_BIGINT_BASE ^ Suc n - BP_BIGINT_BASE ^ n"
    by (simp add: algebra_simps)
  ultimately show ?case using Suc.IH [OF d] unfolding ubig_val_Suc by linarith
qed

lemmas ubig_val_nonneg = ubig_val_bounds [THEN conjunct1]
lemmas ubig_val_less = ubig_val_bounds [THEN conjunct2]

lemma ubig_val_ge_top:
  assumes "digits_ok n x" "0 < n" "x ! (n - 1) \<noteq> 0"
  shows "BP_BIGINT_BASE ^ (n - 1) \<le> ubig_val n x"
proof -
  obtain m where n: "n = Suc m" using assms(2) by (cases n) auto
  have "1 \<le> x ! m" using digits_okD [OF assms(1), of m] assms(3) n by auto
  then have "1 * BP_BIGINT_BASE ^ m \<le> x ! m * BP_BIGINT_BASE ^ m"
    by (intro mult_right_mono) auto
  moreover have "0 \<le> ubig_val m x"
    using assms(1) n by (intro ubig_val_nonneg digits_ok_le [OF assms(1)]) simp
  ultimately show ?thesis unfolding n ubig_val_Suc diff_Suc_1 by linarith
qed

lemma ubig_val_top_zero: "0 < n \<Longrightarrow> x ! (n - 1) = 0 \<Longrightarrow> ubig_val n x = ubig_val (n - 1) x"
  by (cases n) (auto simp: ubig_val_Suc)

lemma normal_ubigI:
  assumes "digits_ok n x" and "0 < n \<Longrightarrow> BP_BIGINT_BASE ^ (n - 1) \<le> ubig_val n x"
  shows "normal_ubig n x"
proof -
  have "x ! (n - 1) \<noteq> 0" if n: "0 < n"
  proof
    assume "x ! (n - 1) = 0"
    then have "ubig_val n x < BP_BIGINT_BASE ^ (n - 1)"
      using n assms(1) ubig_val_top_zero [of n x] ubig_val_less [of "n - 1" x]
        digits_ok_le [of n x "n - 1"] by simp
    with assms(2) n show False by simp
  qed
  with assms(1) show ?thesis by (simp add: normal_ubig_def)
qed

lemma normal_ubigD:
  assumes "normal_ubig n x"
  shows "digits_ok n x" and "0 < n \<Longrightarrow> BP_BIGINT_BASE ^ (n - 1) \<le> ubig_val n x"
    and "ubig_val n x < BP_BIGINT_BASE ^ n" and "0 \<le> ubig_val n x"
  using assms ubig_val_ge_top ubig_val_bounds by (auto simp: normal_ubig_def)

lemma normal_ubig_zero:
  assumes "normal_ubig n x"
  shows "ubig_val n x = 0 \<longleftrightarrow> n = 0"
proof -
  have "0 < BP_BIGINT_BASE ^ (n - 1)" by (rule zero_less_power) simp
  then have "n \<noteq> 0 \<Longrightarrow> 0 < ubig_val n x" using normal_ubigD(2) [OF assms] by linarith
  then show ?thesis by (cases "n = 0") auto
qed

lemma normal_ubig_size_le:
  assumes "normal_ubig n x" "ubig_val n x < BP_BIGINT_BASE ^ m"
  shows "n \<le> m"
proof (rule ccontr)
  assume "\<not> n \<le> m"
  then have "m \<le> n - 1" "0 < n" by auto
  then have "BP_BIGINT_BASE ^ m \<le> BP_BIGINT_BASE ^ (n - 1)" by simp
  with normal_ubigD(2) [OF assms(1) \<open>0 < n\<close>] assms(2) show False by linarith
qed

lemma zap_leading_zeros_le: "zap_leading_zeros n x \<le> n"
  by (induction n) auto

lemma zap_leading_zeros_normal:
  "digits_ok n x \<Longrightarrow> normal_ubig (zap_leading_zeros n x) x"
  using digits_ok_le [of n x] by (induction n) (auto simp: normal_ubig_def dest: digits_ok_le [of _ _ "_ - 1"])

lemma zap_leading_zeros_val [simp]: "ubig_val (zap_leading_zeros n x) x = ubig_val n x"
  by (induction n) (auto simp: ubig_val_Suc)

section \<open>Carries and borrows\<close>

lemma compute_carry:
  assumes "bigint_compute_carry_val s = (v, c)" "0 \<le> s" "s < 2 * BP_BIGINT_BASE"
  shows "s = v + c * BP_BIGINT_BASE" "0 \<le> v" "v < BP_BIGINT_BASE" "c = 0 \<or> c = 1"
  using assms by (auto simp: bigint_compute_carry_val_def split: if_splits)

lemma compute_borrow:
  assumes "bigint_compute_borrow_val s = (v, b)" "- BP_BIGINT_BASE \<le> s" "s < BP_BIGINT_BASE"
  shows "s = v - b * BP_BIGINT_BASE" "0 \<le> v" "v < BP_BIGINT_BASE" "b = 0 \<or> b = 1"
  using assms by (auto simp: bigint_compute_borrow_val_def split: if_splits)

text \<open>
  The state of a loop that has written the digits below \<open>i\<close>: they are digits, and with the
  carry (or borrow) that goes into position \<open>i\<close> they make up the number \<open>s\<close>.
\<close>

definition carry_inv :: "nat \<Rightarrow> (nat \<Rightarrow> int) \<Rightarrow> nat \<Rightarrow> ubigint \<times> int \<Rightarrow> bool" where
  "carry_inv len s i zc \<longleftrightarrow> (case zc of (z, c) \<Rightarrow>
     length z = len \<and> digits_ok i z \<and> (c = 0 \<or> c = 1) \<and>
     ubig_val i z + c * BP_BIGINT_BASE ^ i = s i)"

definition borrow_inv :: "nat \<Rightarrow> (nat \<Rightarrow> int) \<Rightarrow> nat \<Rightarrow> ubigint \<times> int \<Rightarrow> bool" where
  "borrow_inv len s i zb \<longleftrightarrow> (case zb of (z, b) \<Rightarrow>
     length z = len \<and> digits_ok i z \<and> (b = 0 \<or> b = 1) \<and>
     ubig_val i z - b * BP_BIGINT_BASE ^ i = s i)"

lemma carry_inv_step:
  assumes "carry_inv len s i (z, c)" "i < len" "0 \<le> d" "d \<le> 2 * BP_BIGINT_BASE - 2"
    and "s (Suc i) = s i + d * BP_BIGINT_BASE ^ i"
    and "bigint_compute_carry_val (d + c) = (v, c')"
  shows "carry_inv len s (Suc i) (z[i := v], c')"
proof -
  have c: "c = 0 \<or> c = 1" using assms(1) by (simp add: carry_inv_def)
  then have r: "0 \<le> d + c" "d + c < 2 * BP_BIGINT_BASE" using assms(3,4) by auto
  note v = compute_carry [OF assms(6) r]
  have s: "s (Suc i) = ubig_val i z + (d + c) * BP_BIGINT_BASE ^ i"
    using assms(1,5) by (simp add: carry_inv_def algebra_simps)
  have "ubig_val (Suc i) (z[i := v]) + c' * BP_BIGINT_BASE ^ Suc i = s (Suc i)"
    using assms(1,2) unfolding s v(1) by (simp add: carry_inv_def algebra_simps)
  then show ?thesis
    using assms(1,2) v(2-) by (simp add: carry_inv_def digits_ok_snoc)
qed

lemma borrow_inv_step:
  assumes "borrow_inv len s i (z, b)" "i < len" "1 - BP_BIGINT_BASE \<le> d" "d < BP_BIGINT_BASE"
    and "s (Suc i) = s i + d * BP_BIGINT_BASE ^ i"
    and "bigint_compute_borrow_val (d - b) = (v, b')"
  shows "borrow_inv len s (Suc i) (z[i := v], b')"
proof -
  have b: "b = 0 \<or> b = 1" using assms(1) by (simp add: borrow_inv_def)
  then have r: "- BP_BIGINT_BASE \<le> d - b" "d - b < BP_BIGINT_BASE" using assms(3,4) by auto
  note v = compute_borrow [OF assms(6) r]
  have s: "s (Suc i) = ubig_val i z + (d - b) * BP_BIGINT_BASE ^ i"
    using assms(1,5) by (simp add: borrow_inv_def algebra_simps)
  have "ubig_val (Suc i) (z[i := v]) - b' * BP_BIGINT_BASE ^ Suc i = s (Suc i)"
    using assms(1,2) unfolding s v(1) by (simp add: borrow_inv_def algebra_simps)
  then show ?thesis
    using assms(1,2) v(2-) by (simp add: borrow_inv_def digits_ok_snoc)
qed

text \<open>The loop that copies the digits from \<open>i\<close> on.\<close>

lemma copy_loop:
  assumes "i \<le> n" "n \<le> length z"
  shows "length (for_loop i n (\<lambda>i z. z[i := y ! i]) z) = length z"
    and "k < n \<Longrightarrow> for_loop i n (\<lambda>i z. z[i := y ! i]) z ! k = (if i \<le> k then y ! k else z ! k)"
    and "n \<le> k \<Longrightarrow> for_loop i n (\<lambda>i z. z[i := y ! i]) z ! k = z ! k"
proof -
  let ?P = "\<lambda>j t. length t = length z \<and>
    (\<forall>k. t ! k = (if i \<le> k \<and> k < j then y ! k else z ! k))"
  have "?P n (for_loop i n (\<lambda>i z. z[i := y ! i]) z)"
    by (rule for_loop_rule [where P = ?P]) (use assms in \<open>auto simp: nth_list_update less_Suc_eq\<close>)
  then show "length (for_loop i n (\<lambda>i z. z[i := y ! i]) z) = length z"
    and "k < n \<Longrightarrow> for_loop i n (\<lambda>i z. z[i := y ! i]) z ! k = (if i \<le> k then y ! k else z ! k)"
    and "n \<le> k \<Longrightarrow> for_loop i n (\<lambda>i z. z[i := y ! i]) z ! k = z ! k"
    by auto
qed

lemma copy_loop_val:
  assumes "i \<le> n" "n \<le> length z" "digits_ok i z" "digits_ok n y"
  defines "z' \<equiv> for_loop i n (\<lambda>i z. z[i := y ! i]) z"
  shows "digits_ok n z'" and "ubig_val n z' = ubig_val i z + (ubig_val n y - ubig_val i y)"
proof -
  let ?P = "\<lambda>j t. length t = length z \<and> digits_ok j t \<and>
    ubig_val j t = ubig_val i z + (ubig_val j y - ubig_val i y)"
  have "?P n (for_loop i n (\<lambda>i z. z[i := y ! i]) z)"
    by (rule for_loop_rule [where P = ?P])
      (use assms(1-4) digits_okD [OF assms(4)] in \<open>auto simp: ubig_val_Suc digits_ok_snoc\<close>)
  then show "digits_ok n z'" and "ubig_val n z' = ubig_val i z + (ubig_val n y - ubig_val i y)"
    by (simp_all add: z'_def)
qed

section \<open>Addition and subtraction\<close>

lemma carry_ripple:
  assumes "carry_inv len (\<lambda>j. a + ubig_val j y) i (z, c)" "i \<le> n" "n \<le> len" "digits_ok n y"
    and "for_while i n (\<lambda>(z, carry). carry = 1)
           (\<lambda>i (z, carry). let (v, carry) = bigint_compute_carry_val (y ! i + 1)
                            in (z[i := v], carry)) (z, c) = (j, z', c')"
  shows "carry_inv len (\<lambda>j. a + ubig_val j y) j (z', c')" "i \<le> j" "j \<le> n" "j = n \<or> c' = 0"
proof -
  let ?P = "\<lambda>j t. carry_inv len (\<lambda>j. a + ubig_val j y) j t"
  have step: "?P (Suc k) ((\<lambda>(z, carry). let (v, carry) = bigint_compute_carry_val (y ! k + 1)
       in (z[k := v], carry)) t)" if "k < n" "(\<lambda>(z, carry). carry = 1) t" "?P k t" for k t
  proof -
    obtain z c where t: "t = (z, c)" by (cases t)
    obtain v c' where v: "bigint_compute_carry_val (y ! k + c) = (v, c')" by fastforce
    from that have c: "c = 1" by (simp add: t)
    have "?P (Suc k) (z[k := v], c')"
      using that assms(3) digits_okD [OF assms(4), of k]
      by (intro carry_inv_step [OF _ _ _ _ _ v]) (auto simp: t ubig_val_Suc)
    with v show ?thesis by (simp add: t c)
  qed
  have "?P j (z', c') \<and> i \<le> j \<and> j \<le> n \<and> (j = n \<or> \<not> (\<lambda>(z, carry). carry = 1) (z', c'))"
    by (rule for_while_rule [where P = ?P, OF assms(1,2) step assms(5)])
  then show "carry_inv len (\<lambda>j. a + ubig_val j y) j (z', c')" "i \<le> j" "j \<le> n" "j = n \<or> c' = 0"
    by (auto simp: carry_inv_def)
qed

lemma borrow_ripple:
  assumes "borrow_inv len (\<lambda>j. ubig_val j y - a) i (z, b)" "i \<le> n" "n \<le> len" "digits_ok n y"
    and "for_while i n (\<lambda>(z, borrow). borrow = 1)
           (\<lambda>i (z, borrow). let (v, borrow) = bigint_compute_borrow_val (y ! i - 1)
                             in (z[i := v], borrow)) (z, b) = (j, z', b')"
  shows "borrow_inv len (\<lambda>j. ubig_val j y - a) j (z', b')" "i \<le> j" "j \<le> n" "j = n \<or> b' = 0"
proof -
  let ?P = "\<lambda>j t. borrow_inv len (\<lambda>j. ubig_val j y - a) j t"
  have step: "?P (Suc k) ((\<lambda>(z, borrow). let (v, borrow) = bigint_compute_borrow_val (y ! k - 1)
       in (z[k := v], borrow)) t)" if "k < n" "(\<lambda>(z, borrow). borrow = 1) t" "?P k t" for k t
  proof -
    obtain z b where t: "t = (z, b)" by (cases t)
    obtain v b' where v: "bigint_compute_borrow_val (y ! k - b) = (v, b')" by fastforce
    from that have b: "b = 1" by (simp add: t)
    have "?P (Suc k) (z[k := v], b')"
      using that assms(3) digits_okD [OF assms(4), of k]
      by (intro borrow_inv_step [OF _ _ _ _ _ v]) (auto simp: t ubig_val_Suc)
    with v show ?thesis by (simp add: t b)
  qed
  have "?P j (z', b') \<and> i \<le> j \<and> j \<le> n \<and> (j = n \<or> \<not> (\<lambda>(z, borrow). borrow = 1) (z', b'))"
    by (rule for_while_rule [where P = ?P, OF assms(1,2) step assms(5)])
  then show "borrow_inv len (\<lambda>j. ubig_val j y - a) j (z', b')" "i \<le> j" "j \<le> n" "j = n \<or> b' = 0"
    by (auto simp: borrow_inv_def)
qed

lemma add_loop_inv:
  assumes "digits_ok n x" "digits_ok n y" "n \<le> length z"
    and "for_loop 0 n (\<lambda>i (z, carry). let sum = x ! i + y ! i + carry;
            (v, carry) = bigint_compute_carry_val sum in (z[i := v], carry)) (z, 0) = zc"
  shows "carry_inv (length z) (\<lambda>i. ubig_val i x + ubig_val i y) n zc"
proof -
  let ?P = "\<lambda>i t. carry_inv (length z) (\<lambda>i. ubig_val i x + ubig_val i y) i t"
  have "?P n (for_loop 0 n (\<lambda>i (z, carry). let sum = x ! i + y ! i + carry;
            (v, carry) = bigint_compute_carry_val sum in (z[i := v], carry)) (z, 0))"
  proof (rule for_loop_rule [where P = ?P])
    fix k and t :: "ubigint \<times> int" assume k: "k < n" "?P k t"
    obtain z1 c where t: "t = (z1, c)" by (cases t)
    obtain v c' where v: "bigint_compute_carry_val ((x ! k + y ! k) + c) = (v, c')" by fastforce
    have "?P (Suc k) (z1[k := v], c')"
      using k assms(3) digits_okD [OF assms(1), of k] digits_okD [OF assms(2), of k]
      by (intro carry_inv_step [OF _ _ _ _ _ v]) (auto simp: t ubig_val_Suc algebra_simps)
    with v show "?P (Suc k) ((\<lambda>(z, carry). let sum = x ! k + y ! k + carry;
            (v, carry) = bigint_compute_carry_val sum in (z[k := v], carry)) t)"
      by (simp add: t)
  qed (auto simp: carry_inv_def)
  then show ?thesis unfolding assms(4) .
qed

lemma sub_loop_inv:
  assumes "digits_ok n x" "digits_ok n y" "n \<le> length z"
    and "for_loop 0 n (\<lambda>i (z, borrow). let temp = y ! i - x ! i - borrow;
            (v, borrow) = bigint_compute_borrow_val temp in (z[i := v], borrow)) (z, 0) = zb"
  shows "borrow_inv (length z) (\<lambda>i. ubig_val i y - ubig_val i x) n zb"
proof -
  let ?P = "\<lambda>i t. borrow_inv (length z) (\<lambda>i. ubig_val i y - ubig_val i x) i t"
  have "?P n (for_loop 0 n (\<lambda>i (z, borrow). let temp = y ! i - x ! i - borrow;
            (v, borrow) = bigint_compute_borrow_val temp in (z[i := v], borrow)) (z, 0))"
  proof (rule for_loop_rule [where P = ?P])
    fix k and t :: "ubigint \<times> int" assume k: "k < n" "?P k t"
    obtain z1 b where t: "t = (z1, b)" by (cases t)
    obtain v b' where v: "bigint_compute_borrow_val ((y ! k - x ! k) - b) = (v, b')" by fastforce
    have "?P (Suc k) (z1[k := v], b')"
      using k assms(3) digits_okD [OF assms(1), of k] digits_okD [OF assms(2), of k]
      by (intro borrow_inv_step [OF _ _ _ _ _ v]) (auto simp: t ubig_val_Suc algebra_simps)
    with v show "?P (Suc k) ((\<lambda>(z, borrow). let temp = y ! k - x ! k - borrow;
            (v, borrow) = bigint_compute_borrow_val temp in (z[k := v], borrow)) t)"
      by (simp add: t)
  qed (auto simp: borrow_inv_def)
  then show ?thesis unfolding assms(4) .
qed

lemma bp_add_ubig_swap:
  "ysize < xsize \<Longrightarrow> bp_add_ubig_ubig xsize x ysize y z = bp_add_ubig_ubig ysize y xsize x z"
  by (simp add: bp_add_ubig_ubig_def)

lemma add_correct_le:
  assumes dx: "digits_ok m x" and dy: "digits_ok n y" and mn: "m \<le> n" "n < length z"
    and res: "bp_add_ubig_ubig m x n y z = (zsize, z')"
  shows "digits_ok zsize z' \<and> ubig_val zsize z' = ubig_val m x + ubig_val n y
     \<and> (zsize = n \<or> zsize = Suc n \<and> BP_BIGINT_BASE ^ n \<le> ubig_val zsize z') \<and> length z' = length z"
proof -
  have dy': "digits_ok m y" using digits_ok_le [OF dy mn(1)] .
  obtain z1 c1 where l1: "for_loop 0 m (\<lambda>i (z, carry). let sum = x ! i + y ! i + carry;
      (v, carry) = bigint_compute_carry_val sum in (z[i := v], carry)) (z, 0) = (z1, c1)"
    by fastforce
  obtain i z2 c2 where l2: "for_while m n (\<lambda>(z, carry). carry = 1)
      (\<lambda>i (z, carry). let (v, carry) = bigint_compute_carry_val (y ! i + 1)
                       in (z[i := v], carry)) (z1, c1) = (i, z2, c2)"
    by (rule prod_cases3)
  have i1: "carry_inv (length z) (\<lambda>j. ubig_val m x + ubig_val j y) m (z1, c1)"
    using add_loop_inv [OF dx dy' _ l1] mn by (simp add: carry_inv_def)
  have "n \<le> length z" using mn by simp
  note i2 = carry_ripple [OF i1 mn(1) this dy l2]
  show ?thesis
  proof (cases "c2 = 1")
    case True
    with i2(4) have "i = n" by simp
    with i2(1) True have v: "digits_ok n z2" "length z2 = length z"
        "ubig_val n z2 + BP_BIGINT_BASE ^ n = ubig_val m x + ubig_val n y"
      by (auto simp: carry_inv_def)
    from res True l1 l2 mn have r: "zsize = Suc n" "z' = z2[n := 1]"
      by (auto simp: bp_add_ubig_ubig_def)
    have "0 \<le> ubig_val n z2" by (rule ubig_val_nonneg [OF v(1)])
    with v mn r show ?thesis by (auto intro!: digits_ok_snoc)
  next
    case False
    with i2(1) have c: "c2 = 0" "length z2 = length z" "digits_ok i z2"
        "ubig_val i z2 = ubig_val m x + ubig_val i y"
      by (auto simp: carry_inv_def)
    from res c(1) l1 l2 mn have r: "zsize = n" "z' = for_loop i n (\<lambda>i z. z[i := y ! i]) z2"
      by (auto simp: bp_add_ubig_ubig_def)
    from mn c have n: "n \<le> length z2" by simp
    show ?thesis
      using copy_loop_val [OF i2(3) n c(3) dy] copy_loop(1) [OF i2(3) n, of y] c
      by (simp add: r)
  qed
qed

lemma bp_add_ubig_ubig_correct:
  assumes "digits_ok xsize x" "digits_ok ysize y" "max xsize ysize < length z"
    and "bp_add_ubig_ubig xsize x ysize y z = (zsize, z')"
  shows "digits_ok zsize z' \<and> ubig_val zsize z' = ubig_val xsize x + ubig_val ysize y
     \<and> (zsize = max xsize ysize \<or>
         zsize = Suc (max xsize ysize) \<and> BP_BIGINT_BASE ^ max xsize ysize \<le> ubig_val zsize z')
     \<and> length z' = length z"
proof (cases "xsize \<le> ysize")
  case True
  then have m: "max xsize ysize = ysize" by simp
  from add_correct_le [OF assms(1,2) True _ assms(4)] assms(3) show ?thesis unfolding m by blast
next
  case False
  then have m: "max xsize ysize = xsize" and le: "ysize \<le> xsize" by simp_all
  have "bp_add_ubig_ubig ysize y xsize x z = (zsize, z')"
    using False assms(4) bp_add_ubig_swap [of ysize xsize x y z] by simp
  from add_correct_le [OF assms(2,1) le _ this] assms(3) show ?thesis
    unfolding m add.commute [of "ubig_val xsize x"] by blast
qed

lemma bp_sub_ubig_ubig_correct:
  assumes dy: "digits_ok n y" and dx: "digits_ok m x" and mn: "m \<le> n" "n \<le> length z"
    and ge: "ubig_val m x \<le> ubig_val n y"
    and res: "bp_sub_ubig_ubig n y m x z = (zsize, z')"
  shows "normal_ubig zsize z' \<and> ubig_val zsize z' = ubig_val n y - ubig_val m x
     \<and> zsize \<le> n \<and> length z' = length z"
proof -
  have dy': "digits_ok m y" using digits_ok_le [OF dy mn(1)] .
  obtain z1 b1 where l1: "for_loop 0 m (\<lambda>i (z, borrow). let temp = y ! i - x ! i - borrow;
      (v, borrow) = bigint_compute_borrow_val temp in (z[i := v], borrow)) (z, 0) = (z1, b1)"
    by fastforce
  obtain i z2 b2 where l2: "for_while m n (\<lambda>(z, borrow). borrow = 1)
      (\<lambda>i (z, borrow). let (v, borrow) = bigint_compute_borrow_val (y ! i - 1)
                        in (z[i := v], borrow)) (z1, b1) = (i, z2, b2)"
    by (rule prod_cases3)
  have "borrow_inv (length z) (\<lambda>j. ubig_val j y - ubig_val m x) m (z1, b1)"
    using sub_loop_inv [OF dx dy' _ l1] mn by (simp add: borrow_inv_def)
  note i2 = borrow_ripple [OF this mn(1,2) dy l2]
  have b2: "b2 = 0"
  proof (rule ccontr)
    assume "b2 \<noteq> 0"
    with i2 have "i = n" "ubig_val n z2 - BP_BIGINT_BASE ^ n = ubig_val n y - ubig_val m x"
        "digits_ok n z2"
      by (auto simp: borrow_inv_def)
    with ge ubig_val_less [of n z2] show False by linarith
  qed
  with i2(1) have c: "length z2 = length z" "digits_ok i z2"
      "ubig_val i z2 = ubig_val i y - ubig_val m x"
    by (auto simp: borrow_inv_def)
  define z3 where "z3 = for_loop i n (\<lambda>i z. z[i := y ! i]) z2"
  from res l1 l2 have r: "zsize = zap_leading_zeros n z3" "z' = z3"
    by (auto simp: bp_sub_ubig_ubig_def Let_def z3_def)
  from mn c have n: "n \<le> length z2" by simp
  have "digits_ok n z3" "ubig_val n z3 = ubig_val n y - ubig_val m x" "length z3 = length z"
    using copy_loop_val [OF i2(3) n c(2) dy] copy_loop(1) [OF i2(3) n, of y] c
    by (simp_all add: z3_def)
  then show ?thesis
    by (simp add: r zap_leading_zeros_normal zap_leading_zeros_le)
qed

lemma carry_inv_first:
  assumes "bigint_compute_carry_val (y ! 0 + 1) = (v, c)" "0 < n" "digits_ok n y" "n \<le> length y"
  shows "carry_inv (length y) (\<lambda>j. 1 + ubig_val j y) 1 (y[0 := v], c)"
proof -
  have y0: "0 \<le> y ! 0" "y ! 0 < BP_BIGINT_BASE" using digits_okD [OF assms(3,2)] by auto
  have b: "(2::int) \<le> BP_BIGINT_BASE" by (simp add: BP_BIGINT_BASE_def)
  have "carry_inv (length y) (\<lambda>j. if j = 0 then 0 else 1 + ubig_val j y) (Suc 0) (y[0 := v], c)"
    using assms y0 b by (intro carry_inv_step [where c = 0 and d = "y ! 0 + 1"])
      (auto simp: carry_inv_def ubig_val_Suc)
  then show ?thesis by (simp add: carry_inv_def)
qed

text \<open>
  \<open>bp_inc_ubig\<close> and \<open>bp_dec_ubig\<close> work in place: the array read at index \<open>i\<close> is the one being
  written, whose cells from \<open>i\<close> on are still those of the operand.
\<close>

definition unchanged_from :: "nat \<Rightarrow> ubigint \<Rightarrow> ubigint \<Rightarrow> bool" where
  "unchanged_from i y z \<longleftrightarrow> length z = length y \<and> (\<forall>k\<ge>i. z ! k = y ! k)"

lemma unchanged_from_update:
  "unchanged_from i y z \<Longrightarrow> unchanged_from (Suc i) y (z[i := v])"
  by (simp add: unchanged_from_def nth_list_update)

lemma for_while_cong_inv:
  assumes "P i s" "i \<le> n"
    and "\<And>k t. i \<le> k \<Longrightarrow> k < n \<Longrightarrow> b t \<Longrightarrow> P k t \<Longrightarrow> f k t = g k t \<and> P (Suc k) (g k t)"
  shows "for_while i n b f s = for_while i n b g s"
  using assms
proof (induction i n b f s rule: for_while.induct)
  case (1 i n b f s)
  show ?case
  proof (cases "i < n \<and> b s")
    case True
    with "1.prems" have e: "f i s = g i s" "P (Suc i) (g i s)" by auto
    with True "1.prems" have "for_while (Suc i) n b f (f i s) = for_while (Suc i) n b g (f i s)"
      by (intro "1.IH") auto
    with True e show ?thesis by (simp add: for_while_step)
  next
    case False
    then show ?thesis by (simp add: for_while_stop)
  qed
qed

lemma inc_loop_reads_operand:
  assumes "unchanged_from i y z" "i \<le> n"
  shows "for_while i n (\<lambda>(z, carry). carry = 1)
           (\<lambda>i (z, carry). let (v, carry) = bigint_compute_carry_val (z ! i + 1)
                            in (z[i := v], carry)) (z, c)
       = for_while i n (\<lambda>(z, carry). carry = 1)
           (\<lambda>i (z, carry). let (v, carry) = bigint_compute_carry_val (y ! i + 1)
                            in (z[i := v], carry)) (z, c)"
  by (rule for_while_cong_inv [where P = "\<lambda>k t. unchanged_from k y (fst t)"])
    (use assms in \<open>auto simp: unchanged_from_update unchanged_from_def [of _ _ z for z]
       nth_list_update split: prod.splits\<close>)

lemma dec_loop_reads_operand:
  assumes "unchanged_from i y z" "i \<le> n"
  shows "for_while i n (\<lambda>(z, borrow). borrow = 1)
           (\<lambda>i (z, borrow). let (v, borrow) = bigint_compute_borrow_val (z ! i - 1)
                             in (z[i := v], borrow)) (z, b)
       = for_while i n (\<lambda>(z, borrow). borrow = 1)
           (\<lambda>i (z, borrow). let (v, borrow) = bigint_compute_borrow_val (y ! i - 1)
                             in (z[i := v], borrow)) (z, b)"
  by (rule for_while_cong_inv [where P = "\<lambda>k t. unchanged_from k y (fst t)"])
    (use assms in \<open>auto simp: unchanged_from_update unchanged_from_def [of _ _ z for z]
       nth_list_update split: prod.splits\<close>)

lemma carry_loop_unchanged:
  assumes "unchanged_from i y z" "i \<le> n"
    and "for_while i n (\<lambda>(z, carry). carry = 1) (\<lambda>i (z, carry). let (v, carry) = d i
           in (z[i := v], carry)) (z, c) = (j, z', c')"
  shows "unchanged_from j y z'"
proof -
  have "unchanged_from j y (fst (z', c')) \<and> i \<le> j \<and> j \<le> n
      \<and> (j = n \<or> \<not> (\<lambda>(z, carry). carry = 1) (z', c'))"
    by (rule for_while_rule [where P = "\<lambda>k t. unchanged_from k y (fst t)", OF _ assms(2) _ assms(3)])
      (use assms(1) in \<open>auto simp: unchanged_from_update split: prod.splits\<close>)
  then show ?thesis by simp
qed

lemma ubig_val_tail_eq:
  assumes "i \<le> n" "\<And>k. i \<le> k \<Longrightarrow> k < n \<Longrightarrow> z ! k = y ! k"
  shows "ubig_val n z = ubig_val i z + (ubig_val n y - ubig_val i y)"
  using assms by (induction n rule: dec_induct) (auto simp: ubig_val_Suc)

lemma unchanged_tail_val:
  assumes "unchanged_from i y z" "digits_ok i z" "digits_ok n y" "i \<le> n"
  shows "digits_ok n z" and "ubig_val n z = ubig_val i z + (ubig_val n y - ubig_val i y)"
proof -
  have e: "z ! k = y ! k" if "i \<le> k" for k
    using assms(1) that by (simp add: unchanged_from_def)
  have "0 \<le> z ! k \<and> z ! k < BP_BIGINT_BASE" if "k < n" for k
    using digits_okD [OF assms(2), of k] digits_okD [OF assms(3) that] e [of k]
    by (cases "k < i") auto
  then show "digits_ok n z" using assms(1,3) by (simp add: digits_ok_def unchanged_from_def)
  show "ubig_val n z = ubig_val i z + (ubig_val n y - ubig_val i y)"
    by (rule ubig_val_tail_eq [OF assms(4) e])
qed

lemma bp_inc_ubig_correct:
  assumes dy: "digits_ok n y" and n: "0 < n" "n < length y"
    and res: "bp_inc_ubig n y = (zsize, z)"
  shows "digits_ok zsize z \<and> ubig_val zsize z = ubig_val n y + 1 \<and> (zsize = n \<or> zsize = Suc n)
     \<and> (zsize = Suc n \<longrightarrow> BP_BIGINT_BASE ^ n \<le> ubig_val zsize z) \<and> length z = length y"
proof -
  obtain v c where v: "bigint_compute_carry_val (y ! 0 + 1) = (v, c)" by fastforce
  have i1: "carry_inv (length y) (\<lambda>j. 1 + ubig_val j y) 1 (y[0 := v], c)"
    using carry_inv_first [OF v n(1) dy] n by simp
  have u1: "unchanged_from 1 y (y[0 := v])" by (simp add: unchanged_from_def)
  obtain i z2 c2 where l2: "for_while 1 n (\<lambda>(z, carry). carry = 1)
      (\<lambda>i (z, carry). let (v, carry) = bigint_compute_carry_val (y ! i + 1)
                       in (z[i := v], carry)) (y[0 := v], c) = (i, z2, c2)"
    by (rule prod_cases3)
  have n1: "1 \<le> n" "n \<le> length y" using n by auto
  note i2 = carry_ripple [OF i1 n1 dy l2]
  note u2 = carry_loop_unchanged [OF u1 n1(1) l2]
  have r: "(zsize, z) = (if c2 = 1 then (n + 1, z2[n := 1]) else (n, z2))"
    using res l2 inc_loop_reads_operand [OF u1 n1(1), of c] by (simp add: bp_inc_ubig_def v)
  show ?thesis
  proof (cases "c2 = 1")
    case True
    with i2(4) have "i = n" by simp
    with i2(1) True have w: "digits_ok n z2" "length z2 = length y"
        "ubig_val n z2 + BP_BIGINT_BASE ^ n = 1 + ubig_val n y"
      by (auto simp: carry_inv_def)
    have "0 \<le> ubig_val n z2" by (rule ubig_val_nonneg [OF w(1)])
    with w n r True show ?thesis by (auto intro!: digits_ok_snoc simp: base_eq_exp [symmetric])
  next
    case False
    with i2(1) have w: "digits_ok i z2" "length z2 = length y" "ubig_val i z2 = 1 + ubig_val i y"
      by (auto simp: carry_inv_def)
    with r False unchanged_tail_val [OF u2 w(1) dy i2(3)] show ?thesis by auto
  qed
qed

lemma borrow_inv_first:
  assumes "bigint_compute_borrow_val (y ! 0 - 1) = (v, b)" "0 < n" "digits_ok n y" "n \<le> length y"
  shows "borrow_inv (length y) (\<lambda>j. ubig_val j y - 1) 1 (y[0 := v], b)"
proof -
  have y0: "0 \<le> y ! 0" "y ! 0 < BP_BIGINT_BASE" using digits_okD [OF assms(3,2)] by auto
  have p: "(2::int) \<le> BP_BIGINT_BASE" by (simp add: BP_BIGINT_BASE_def)
  have "borrow_inv (length y) (\<lambda>j. if j = 0 then 0 else ubig_val j y - 1) (Suc 0) (y[0 := v], b)"
    using assms y0 p by (intro borrow_inv_step [where b = 0 and d = "y ! 0 - 1"])
      (auto simp: borrow_inv_def ubig_val_Suc)
  then show ?thesis by (simp add: borrow_inv_def)
qed

lemma bp_dec_ubig_correct:
  assumes dy: "digits_ok n y" and pos: "0 < ubig_val n y" and res: "bp_dec_ubig n y = (zsize, z)"
  shows "normal_ubig zsize z \<and> ubig_val zsize z = ubig_val n y - 1 \<and> zsize \<le> n
     \<and> length z = length y"
proof -
  have n1: "1 \<le> n" using pos by (cases n) auto
  have n2: "n \<le> length y" using dy by (rule digits_ok_length)
  have n0: "0 < n" using n1 by simp
  obtain v b where v: "bigint_compute_borrow_val (y ! 0 - 1) = (v, b)" by fastforce
  note i1 = borrow_inv_first [OF v n0 dy n2]
  have u1: "unchanged_from 1 y (y[0 := v])" by (simp add: unchanged_from_def)
  obtain i z2 b2 where l2: "for_while 1 n (\<lambda>(z, borrow). borrow = 1)
      (\<lambda>i (z, borrow). let (v, borrow) = bigint_compute_borrow_val (y ! i - 1)
                        in (z[i := v], borrow)) (y[0 := v], b) = (i, z2, b2)"
    by (rule prod_cases3)
  note i2 = borrow_ripple [OF i1 n1 n2 dy l2]
  note u2 = carry_loop_unchanged [OF u1 n1 l2]
  have b2: "b2 = 0"
  proof (rule ccontr)
    assume "b2 \<noteq> 0"
    with i2 have "i = n" "ubig_val n z2 - BP_BIGINT_BASE ^ n = ubig_val n y - 1" "digits_ok n z2"
      by (auto simp: borrow_inv_def)
    with pos ubig_val_less [of n z2] show False by linarith
  qed
  with i2(1) have w: "digits_ok i z2" "length z2 = length y" "ubig_val i z2 = ubig_val i y - 1"
    by (auto simp: borrow_inv_def)
  have r: "(zsize, z) = (zap_leading_zeros n z2, z2)"
    using res l2 dec_loop_reads_operand [OF u1 n1, of b] by (auto simp: bp_dec_ubig_def v)
  with unchanged_tail_val [OF u2 w(1) dy i2(3)] w show ?thesis
    by (simp add: zap_leading_zeros_normal zap_leading_zeros_le)
qed

section \<open>Comparison and copying\<close>

lemma compare_mag_val:
  "digits_ok n x \<Longrightarrow> digits_ok n y \<Longrightarrow>
   bp_compare_mag_mag n x y = sgn (ubig_val n x - ubig_val n y)"
proof (induction n)
  case 0
  then show ?case by simp
next
  case (Suc n)
  have d: "digits_ok n x" "digits_ok n y" using Suc.prems by (auto elim: digits_ok_le)
  note bx = ubig_val_bounds [OF d(1)] and vy = ubig_val_bounds [OF d(2)]
  have gt: "b * BP_BIGINT_BASE ^ n + BP_BIGINT_BASE ^ n \<le> a * BP_BIGINT_BASE ^ n" if "b < a"
    for a b :: int
    using mult_right_mono [of "b + 1" a "BP_BIGINT_BASE ^ n"] that by (simp add: algebra_simps)
  consider "x ! n > y ! n" | "y ! n > x ! n" | "x ! n = y ! n" by linarith
  then show ?case
  proof cases
    case 1
    then have "0 < ubig_val (Suc n) x - ubig_val (Suc n) y"
      using gt [OF 1] bx vy unfolding ubig_val_Suc by linarith
    with 1 show ?thesis by simp
  next
    case 2
    then have "ubig_val (Suc n) x - ubig_val (Suc n) y < 0"
      using gt [OF 2] bx vy unfolding ubig_val_Suc by linarith
    with 2 show ?thesis by simp
  next
    case 3
    with Suc.IH [OF d] show ?thesis by (simp add: ubig_val_Suc)
  qed
qed

lemma bp_copy_ubig_val:
  assumes "digits_ok m x" "m \<le> n" "n \<le> length y"
  shows "digits_ok n (bp_copy_ubig m x n y)" "ubig_val n (bp_copy_ubig m x n y) = ubig_val m x"
    "length (bp_copy_ubig m x n y) = length y"
    "k < n \<Longrightarrow> bp_copy_ubig m x n y ! k = (if k < m then x ! k else 0)"
proof -
  let ?y1 = "for_loop 0 m (\<lambda>i y. y[i := x ! i]) y"
  let ?P = "\<lambda>j t. length t = length y \<and> digits_ok j t \<and> ubig_val j t = ubig_val m x \<and>
     (\<forall>k<j. t ! k = (if k < m then x ! k else 0))"
  have "?P m ?y1"
    using copy_loop_val [of 0 m y x] copy_loop [where i = 0 and n = m and z = y and y = x] assms by simp
  then have "?P n (for_loop m n (\<lambda>i y. y[i := 0]) ?y1)"
    by (rule for_loop_rule [where P = ?P])
      (use assms in \<open>auto simp: digits_ok_snoc less_Suc_eq nth_list_update\<close>)
  then show "digits_ok n (bp_copy_ubig m x n y)" "ubig_val n (bp_copy_ubig m x n y) = ubig_val m x"
    "length (bp_copy_ubig m x n y) = length y"
    "k < n \<Longrightarrow> bp_copy_ubig m x n y ! k = (if k < m then x ! k else 0)"
    by (auto simp: bp_copy_ubig_def)
qed

section \<open>Shifted digits\<close>

lemma gsd_eq:
  assumes d: "digits_ok n y" and j: "j \<le> n" and s: "s \<le> 27"
  shows "get_shifted_digit n y j s =
     (if j = 0 then 0 else (y ! (j - 1) * 2 ^ s) div BP_BIGINT_BASE)
   + (if j = n then 0 else (y ! j * 2 ^ s) mod BP_BIGINT_BASE)" (is "_ = ?hi + ?lo")
    and "0 \<le> (if j = 0 then 0 else (y ! (j - 1) * 2 ^ s) div BP_BIGINT_BASE)"
    and "(if j = 0 then 0 else (y ! (j - 1) * 2 ^ s) div BP_BIGINT_BASE) < 2 ^ s"
proof -
  have B: "BP_BIGINT_BASE = 2 ^ (28 - s) * 2 ^ s"
    using s by (simp add: base_eq_exp flip: power_add)
  have hi: "(if j = 0 \<or> s = 0 then 0 else drop_bit (28 - s) (y ! (j - 1))) = ?hi"
  proof (cases "j = 0 \<or> s = 0")
    case True
    then show ?thesis using digits_okD [OF d, of "j - 1"] j by auto
  next
    case False
    then show ?thesis by (simp add: drop_bit_eq_div B)
  qed
  have "y ! (j - 1) * 2 ^ s < 2 ^ s * BP_BIGINT_BASE" "0 \<le> y ! (j - 1)" if "j \<noteq> 0"
    using digits_okD [OF d, of "j - 1"] j that by (simp_all add: mult.commute)
  then show hib: "0 \<le> ?hi" "?hi < 2 ^ s"
    by (auto simp: pos_imp_zdiv_nonneg_iff int_div_less)
  have "push_bit s v AND MASK_LOW28 = push_bit s (take_bit (28 - s) v)"
      "push_bit s v AND MASK_LOW28 = (v * 2 ^ s) mod BP_BIGINT_BASE" for v :: int
  proof -
    have "push_bit s v AND MASK_LOW28 = take_bit 28 (push_bit s v)"
      by (simp add: take_bit_eq_mask mask_numeral)
    then show "push_bit s v AND MASK_LOW28 = push_bit s (take_bit (28 - s) v)"
        "push_bit s v AND MASK_LOW28 = (v * 2 ^ s) mod BP_BIGINT_BASE"
      by (simp_all add: take_bit_push_bit, simp add: push_bit_take_bit base_eq_exp take_bit_eq_mod push_bit_eq_mult s)
  qed
  note lo = this
  have "get_shifted_digit n y j s = ?hi OR (if j = n then 0 else push_bit s (take_bit (28 - s) (y ! j)))"
    unfolding get_shifted_digit_def Let_def hi lo(1) ..
  also have "\<dots> = ?hi + ?lo"
    using or_eq_plus_shift [OF hib] lo [of "y ! j"] by simp
  finally show "get_shifted_digit n y j s = ?hi + ?lo" .
qed
lemma gsd_bounds:
  assumes "digits_ok n y" "j \<le> n" "s \<le> 27"
  shows "0 \<le> get_shifted_digit n y j s" "get_shifted_digit n y j s < BP_BIGINT_BASE"
proof -
  let ?hi = "if j = 0 then 0 else (y ! (j - 1) * 2 ^ s) div BP_BIGINT_BASE"
  let ?lo = "if j = n then 0 else (y ! j * 2 ^ s) mod BP_BIGINT_BASE"
  have p: "(2::int) ^ s dvd BP_BIGINT_BASE"
    unfolding base_eq_exp using assms(3) by (intro le_imp_power_dvd) simp
  then have "2 ^ s dvd BP_BIGINT_BASE - ?lo"
    by (auto intro!: dvd_diff dvd_mod)
  moreover have "0 < BP_BIGINT_BASE - ?lo" by auto
  ultimately have "2 ^ s \<le> BP_BIGINT_BASE - ?lo" by (rule zdvd_imp_le)
  moreover have "0 \<le> ?lo" by auto
  ultimately show "0 \<le> get_shifted_digit n y j s" "get_shifted_digit n y j s < BP_BIGINT_BASE"
    using gsd_eq [OF assms] by linarith+
qed

definition shifted_val :: "nat \<Rightarrow> ubigint \<Rightarrow> nat \<Rightarrow> nat \<Rightarrow> int" where
  "shifted_val n y s m = (\<Sum>k<m. get_shifted_digit n y k s * BP_BIGINT_BASE ^ k)"

lemma shifted_val_0 [simp]: "shifted_val n y s 0 = 0"
  by (simp add: shifted_val_def)

lemma shifted_val_Suc:
  "shifted_val n y s (Suc m) = shifted_val n y s m + get_shifted_digit n y m s * BP_BIGINT_BASE ^ m"
  by (simp add: shifted_val_def)

lemma shifted_val_partial:
  assumes d: "digits_ok n y" and s: "s \<le> 27" and m: "m \<le> n"
  shows "shifted_val n y s m
      + (if m = 0 then 0 else (y ! (m - 1) * 2 ^ s) div BP_BIGINT_BASE * BP_BIGINT_BASE ^ m)
    = ubig_val m y * 2 ^ s"
  using m
proof (induction m)
  case 0
  then show ?case by simp
next
  case (Suc m)
  let ?hi = "if m = 0 then 0 else (y ! (m - 1) * 2 ^ s) div BP_BIGINT_BASE"
  let ?v = "y ! m * 2 ^ s"
  have g: "get_shifted_digit n y m s = ?hi + ?v mod BP_BIGINT_BASE"
    using gsd_eq(1) [OF d _ s, of m] Suc.prems by simp
  define q where "q = ?v div BP_BIGINT_BASE"
  define r where "r = ?v mod BP_BIGINT_BASE"
  have v: "?v = q * BP_BIGINT_BASE + r" by (simp add: q_def r_def)
  have "shifted_val n y s (Suc m) + q * BP_BIGINT_BASE ^ Suc m
      = (shifted_val n y s m + ?hi * BP_BIGINT_BASE ^ m) + (q * BP_BIGINT_BASE + r) * BP_BIGINT_BASE ^ m"
    unfolding shifted_val_Suc g r_def [symmetric] by (simp add: algebra_simps)
  also have "\<dots> = ubig_val m y * 2 ^ s + ?v * BP_BIGINT_BASE ^ m"
    using Suc by (simp add: v split: if_splits)
  also have "\<dots> = ubig_val (Suc m) y * 2 ^ s"
    by (simp add: ubig_val_Suc algebra_simps)
  finally show ?case by (simp add: q_def)
qed

lemma shifted_val_full:
  assumes d: "digits_ok n y" and s: "s \<le> 27"
  shows "shifted_val n y s (Suc n) = ubig_val n y * 2 ^ s"
proof -
  have "get_shifted_digit n y n s =
      (if n = 0 then 0 else (y ! (n - 1) * 2 ^ s) div BP_BIGINT_BASE)"
    using gsd_eq(1) [OF d _ s, of n] by simp
  with shifted_val_partial [OF d s order_refl] show ?thesis
    by (simp add: shifted_val_Suc split: if_splits)
qed

section \<open>Multiplication\<close>

lemma mul_add_first_loop:
  assumes dz: "digits_ok (Suc (i + n)) z" and dy: "digits_ok n y" and s: "s \<le> 27"
    and res: "for_loop 0 (n + 1)
             (\<lambda>j (z, carry). let temp = z ! (i + j) + get_shifted_digit n y j s + carry;
                                 (v, carry) = bigint_compute_carry_val temp
                              in (z[i + j := v], carry)) (z, 0) = (z1, c1)"
  shows "carry_inv (length z) (\<lambda>k. ubig_val n y * 2 ^ s * BP_BIGINT_BASE ^ i + ubig_val k z)
           (i + n + 1) (z1, c1)"
    and "unchanged_from (i + n + 1) z z1"
proof -
  let ?s = "\<lambda>k. shifted_val n y s (k - i) * BP_BIGINT_BASE ^ i + ubig_val k z"
  let ?P = "\<lambda>j t. carry_inv (length z) ?s (i + j) t \<and> unchanged_from (i + j) z (fst t)"
  have len: "Suc (i + n) \<le> length z" by (rule digits_ok_length [OF dz])
  have "?P (n + 1) (for_loop 0 (n + 1)
             (\<lambda>j (z, carry). let temp = z ! (i + j) + get_shifted_digit n y j s + carry;
                                 (v, carry) = bigint_compute_carry_val temp
                              in (z[i + j := v], carry)) (z, 0))"
  proof (rule for_loop_rule [where P = ?P])
    show "?P 0 (z, 0)"
      using digits_ok_le [OF dz, of i] by (simp add: carry_inv_def unchanged_from_def)
  next
    fix j and t :: "ubigint \<times> int" assume j: "j < n + 1" and P: "?P j t"
    obtain z1 c where t: "t = (z1, c)" by (cases t)
    let ?d = "z ! (i + j) + get_shifted_digit n y j s"
    obtain v c' where v: "bigint_compute_carry_val (?d + c) = (v, c')" by fastforce
    have z1: "z1 ! (i + j) = z ! (i + j)" using P by (simp add: t unchanged_from_def)
    have "carry_inv (length z) ?s (Suc (i + j)) (z1[i + j := v], c')"
    proof (rule carry_inv_step [OF _ _ _ _ _ v])
      show "carry_inv (length z) ?s (i + j) (z1, c)" using P by (simp add: t)
      show "i + j < length z" using j len by simp
      show "0 \<le> ?d" "?d \<le> 2 * BP_BIGINT_BASE - 2"
        using digits_okD [OF dz, of "i + j"] gsd_bounds [OF dy _ s, of j] j by auto
      show "?s (Suc (i + j)) = ?s (i + j) + ?d * BP_BIGINT_BASE ^ (i + j)"
        by (simp add: Suc_diff_le ubig_val_Suc shifted_val_Suc algebra_simps power_add)
    qed
    with P v show "?P (Suc j) ((\<lambda>(z, carry). let temp = z ! (i + j) + get_shifted_digit n y j s + carry;
             (v, carry) = bigint_compute_carry_val temp in (z[i + j := v], carry)) t)"
      by (simp add: t z1 unchanged_from_update)
  qed simp
  then have "carry_inv (length z) ?s (i + n + 1) (z1, c1)" "unchanged_from (i + n + 1) z z1"
    unfolding res by (simp_all add: add.assoc)
  then show "carry_inv (length z) (\<lambda>k. ubig_val n y * 2 ^ s * BP_BIGINT_BASE ^ i + ubig_val k z)
           (i + n + 1) (z1, c1)" and "unchanged_from (i + n + 1) z z1"
    using shifted_val_full [OF dy s] by (simp_all add: carry_inv_def)
qed

lemma ripple_carry_done: "c \<noteq> 1 \<Longrightarrow> ripple_carry k c z = Some z"
  by (simp add: ripple_carry.simps [of k])

lemma ripple_for_while:
  "for_while k n (\<lambda>(z, carry). carry = 1)
     (\<lambda>k (z, carry). let (v, carry) = bigint_compute_carry_val (z ! k + 1)
                      in (z[k := v], carry)) (z, c) = (j, z', c') \<Longrightarrow>
   c' \<noteq> 1 \<Longrightarrow> n \<le> length z \<Longrightarrow> ripple_carry k c z = Some z'"
proof (induction k c z rule: ripple_carry.induct)
  case (1 k c z)
  show ?case
  proof (cases "k < n \<and> c = 1")
    case True
    obtain v c1 where v: "bigint_compute_carry_val (z ! k + 1) = (v, c1)" by fastforce
    have "ripple_carry (k + 1) c1 (z[k := v]) = Some z'"
      by (rule "1.IH" [OF _ _ v [symmetric]]) (use True v "1.prems" in \<open>simp_all add: for_while_step\<close>)
    then show ?thesis using True v "1.prems"(3) by (simp add: ripple_carry.simps [of k])
  next
    case False
    then show ?thesis using "1.prems" ripple_carry_done by (auto simp: for_while_stop)
  qed
qed

lemma mul_add_shifted_val:
  assumes dz: "digits_ok N z" and dy: "digits_ok n y" and s: "s \<le> 27" and N: "i + n < N"
    and bound: "ubig_val N z + ubig_val n y * 2 ^ s * BP_BIGINT_BASE ^ i < BP_BIGINT_BASE ^ N"
  shows "\<exists>z'. mul_add_shifted n y i s z = Some z' \<and> digits_ok N z' \<and>
     ubig_val N z' = ubig_val N z + ubig_val n y * 2 ^ s * BP_BIGINT_BASE ^ i \<and> unchanged_from N z z'"
proof -
  let ?a = "ubig_val n y * 2 ^ s * BP_BIGINT_BASE ^ i"
  obtain z1 c1 where l1: "for_loop 0 (n + 1)
             (\<lambda>j (z, carry). let temp = z ! (i + j) + get_shifted_digit n y j s + carry;
                                 (v, carry) = bigint_compute_carry_val temp
                              in (z[i + j := v], carry)) (z, 0) = (z1, c1)" by fastforce
  have len: "N \<le> length z" by (rule digits_ok_length [OF dz])
  have dz1: "digits_ok (Suc (i + n)) z" using digits_ok_le [OF dz] N by simp
  note i1 = mul_add_first_loop [OF dz1 dy s l1]
  have iN: "i + n + 1 \<le> N" using N by simp
  obtain k z2 c2 where l2: "for_while (i + n + 1) N (\<lambda>(z, carry). carry = 1)
             (\<lambda>k (z, carry). let (v, carry) = bigint_compute_carry_val (z ! k + 1)
                              in (z[k := v], carry)) (z1, c1) = (k, z2, c2)"
    by (rule prod_cases3)
  note l2' = l2 [unfolded inc_loop_reads_operand [OF i1(2) iN]]
  note i2 = carry_ripple [OF i1(1) iN len dz l2']
  note u2 = carry_loop_unchanged [OF i1(2) iN l2']
  have c2: "c2 = 0"
  proof (rule ccontr)
    assume "c2 \<noteq> 0"
    with i2 have "k = N" "c2 = 1" "digits_ok N z2" "ubig_val N z2 + BP_BIGINT_BASE ^ N = ?a + ubig_val N z"
      by (auto simp: carry_inv_def)
    with bound ubig_val_nonneg [of N z2] show False by linarith
  qed
  have "for_loop 0 (n + 1)
          (\<lambda>j t. Option.bind t (\<lambda>(z, carry).
             if i + j < length z
             then let temp = z ! (i + j) + get_shifted_digit n y j s + carry;
                      (v, carry) = bigint_compute_carry_val temp
                  in Some (z[i + j := v], carry)
             else None)) (Some (z, 0)) = Some (z1, c1)"
    unfolding l1 [symmetric]
    by (rule for_loop_option [where P = "\<lambda>k t. length (fst t) = length z"])
      (use N len in \<open>auto simp: Let_def split: prod.splits\<close>)
  moreover have "ripple_carry (i + n + 1) c1 z1 = Some z2"
    by (rule ripple_for_while [OF l2]) (use c2 len i1(1) in \<open>simp_all add: carry_inv_def\<close>)
  ultimately have r: "mul_add_shifted n y i s z = Some z2" by (simp add: mul_add_shifted_def)
  from i2(1) c2 have w: "digits_ok k z2" "length z2 = length z" "ubig_val k z2 = ?a + ubig_val k z"
    by (auto simp: carry_inv_def)
  have "unchanged_from N z z2" using u2 i2(3) by (simp add: unchanged_from_def)
  with unchanged_tail_val [OF u2 w(1) dz i2(3)] w r show ?thesis by simp
qed

lemma mul_digit_val:
  assumes dx: "digits_ok m x" and dy: "digits_ok n y" and i: "i < m" and N: "N = m + n"
    and dz: "digits_ok N z" and v: "ubig_val N z = ubig_val n y * ubig_val i x"
  shows "\<exists>z'. for_loop 0 28 (\<lambda>i2 z. if x ! i AND push_bit i2 1 = 0 then z
            else Option.bind z (mul_add_shifted n y i i2)) (Some z) = Some z' \<and>
    digits_ok N z' \<and> ubig_val N z' = ubig_val n y * ubig_val (Suc i) x \<and> unchanged_from N z z'"
    (is "\<exists>z'. ?l = Some z' \<and> _")
proof -
  let ?P = "\<lambda>s r. \<exists>t. r = Some t \<and> digits_ok N t \<and> unchanged_from N z t \<and>
     ubig_val N t = ubig_val n y * (ubig_val i x + take_bit s (x ! i) * BP_BIGINT_BASE ^ i)"
  have xi: "0 \<le> x ! i" "x ! i < 2 ^ 28" using digits_okD [OF dx i] by (auto simp: base_eq_exp)
  have yb: "0 \<le> ubig_val n y" "ubig_val n y < BP_BIGINT_BASE ^ n"
    using ubig_val_bounds [OF dy] by auto
  have max: "ubig_val n y * ubig_val (Suc i) x < BP_BIGINT_BASE ^ N"
  proof -
    have d: "digits_ok (Suc i) x" using digits_ok_le [OF dx] i by simp
    have "BP_BIGINT_BASE ^ Suc i \<le> BP_BIGINT_BASE ^ m" using i by (simp del: power_Suc)
    with ubig_val_bounds [OF d] have "0 \<le> ubig_val (Suc i) x" "ubig_val (Suc i) x < BP_BIGINT_BASE ^ m"
      by linarith+
    with yb have "ubig_val n y * ubig_val (Suc i) x < BP_BIGINT_BASE ^ n * BP_BIGINT_BASE ^ m"
      by (intro mult_strict_mono') auto
    then show ?thesis by (simp add: N power_add mult.commute)
  qed
  have "?P 28 ?l"
  proof (rule for_loop_rule [where P = ?P])
    show "?P 0 (Some z)" using dz v by (simp add: unchanged_from_def)
  next
    fix s r assume s: "s < 28" and "?P s r"
    then obtain t where r: "r = Some t" and P: "digits_ok N t" "unchanged_from N z t"
      "ubig_val N t = ubig_val n y * (ubig_val i x + take_bit s (x ! i) * BP_BIGINT_BASE ^ i)" by blast
    have tb: "take_bit (Suc s) (x ! i) = take_bit s (x ! i) + (if bit (x ! i) s then 2 ^ s else 0)"
      by (simp add: take_bit_Suc_from_most)
    have test: "x ! i AND 2 ^ s = 0 \<longleftrightarrow> \<not> bit (x ! i) s"
      by (simp add: and_exp_eq_0_iff_not_bit)
    show "?P (Suc s) (if x ! i AND push_bit s 1 = 0 then r else Option.bind r (mul_add_shifted n y i s))"
    proof (cases "bit (x ! i) s")
      case False
      with P r show ?thesis by (simp add: test tb)
    next
      case True
      have le: "take_bit (Suc s) (x ! i) \<le> x ! i" using xi by (simp add: take_bit_int_less_eq_self_iff)
      have "ubig_val n y * (ubig_val i x + take_bit (Suc s) (x ! i) * BP_BIGINT_BASE ^ i)
          \<le> ubig_val n y * ubig_val (Suc i) x"
        unfolding ubig_val_Suc using le yb by (intro mult_left_mono add_left_mono mult_right_mono) auto
      moreover have e: "ubig_val N t + ubig_val n y * 2 ^ s * BP_BIGINT_BASE ^ i
          = ubig_val n y * (ubig_val i x + take_bit (Suc s) (x ! i) * BP_BIGINT_BASE ^ i)"
        using P True by (simp add: tb algebra_simps)
      ultimately have b: "ubig_val N t + ubig_val n y * 2 ^ s * BP_BIGINT_BASE ^ i < BP_BIGINT_BASE ^ N"
        using max by linarith
      have "s \<le> 27" "i + n < N" using s i N by auto
      from mul_add_shifted_val [OF P(1) dy this b]
      obtain z' where "mul_add_shifted n y i s t = Some z'" "digits_ok N z'" "unchanged_from N t z'"
        "ubig_val N z' = ubig_val n y * (ubig_val i x + take_bit (Suc s) (x ! i) * BP_BIGINT_BASE ^ i)"
        unfolding e by blast
      then show ?thesis using P(2) True r by (auto simp: test unchanged_from_def)
    qed
  qed simp
  moreover have "take_bit 28 (x ! i) = x ! i" using xi by (simp add: take_bit_int_eq_self)
  ultimately show ?thesis by (auto simp: ubig_val_Suc)
qed

lemma bp_mul_ubig_ubig_correct:
  assumes nx: "normal_ubig m x" and ny: "normal_ubig n y" and pos: "0 < m" "0 < n"
    and len: "m + n \<le> length z"
  shows "\<exists>zsize z'. bp_mul_ubig_ubig m x n y z = Some (zsize, z') \<and>
     normal_ubig zsize z' \<and> ubig_val zsize z' = ubig_val m x * ubig_val n y
     \<and> zsize \<le> m + n \<and> unchanged_from (m + n) z z'"
proof -
  let ?N = "m + n"
  have dx: "digits_ok m x" and dy: "digits_ok n y"
    using nx ny by (auto simp: normal_ubig_def)
  let ?P = "\<lambda>k r. \<exists>t. r = Some t \<and> unchanged_from ?N z t \<and> digits_ok k t \<and> ubig_val k t = 0"
  have "?P ?N (for_loop 0 ?N (\<lambda>i z. Option.bind z (put_cell i 0)) (Some z))"
    by (rule for_loop_rule [where P = ?P])
      (use len in \<open>auto simp: digits_ok_snoc put_cell_def unchanged_from_def\<close>)
  then obtain z0 where z0: "for_loop 0 ?N (\<lambda>i z. Option.bind z (put_cell i 0)) (Some z) = Some z0"
    "unchanged_from ?N z z0" "digits_ok ?N z0" "ubig_val ?N z0 = 0" by blast
  let ?Q = "\<lambda>k r. \<exists>t. r = Some t \<and> unchanged_from ?N z t \<and> digits_ok ?N t \<and> ubig_val ?N t = ubig_val n y * ubig_val k x"
  have "?Q m (for_loop 0 m (\<lambda>i z. for_loop 0 28
                (\<lambda>i2 z. if x ! i AND push_bit i2 1 = 0 then z
                         else Option.bind z (mul_add_shifted n y i i2)) z) (Some z0))"
  proof (rule for_loop_rule [where P = ?Q])
    fix k r assume k: "k < m" and "?Q k r"
    then obtain t where t: "r = Some t" "unchanged_from ?N z t" "digits_ok ?N t" "ubig_val ?N t = ubig_val n y * ubig_val k x"
      by blast
    from mul_digit_val [OF dx dy k refl t(3,4)] t(1,2)
    show "?Q (Suc k) (for_loop 0 28 (\<lambda>i2 z. if x ! k AND push_bit i2 1 = 0 then z
        else Option.bind z (mul_add_shifted n y k i2)) r)"
      by (auto simp: unchanged_from_def)
  qed (use z0 in auto)
  then obtain z1 where l: "for_loop 0 m (\<lambda>i z. for_loop 0 28
                (\<lambda>i2 z. if x ! i AND push_bit i2 1 = 0 then z
                         else Option.bind z (mul_add_shifted n y i i2)) z) (Some z0) = Some z1"
    and z1: "unchanged_from ?N z z1" "digits_ok ?N z1" "ubig_val ?N z1 = ubig_val m x * ubig_val n y"
    by (auto simp: mult.commute)
  have len1: "?N \<le> length z1" using z1(1) len by (simp add: unchanged_from_def)
  define zsize where "zsize = (if z1 ! (?N - 1) = 0 then ?N - 1 else ?N)"
  define z' where "z' = z1"
  note r = zsize_def z'_def
  have res: "bp_mul_ubig_ubig m x n y z = Some (zsize, z')"
    using z0(1) l len1 pos by (simp add: bp_mul_ubig_ubig_def r)
  have low: "BP_BIGINT_BASE ^ (?N - 2) \<le> ubig_val ?N z1"
  proof -
    have "BP_BIGINT_BASE ^ (m - 1) * BP_BIGINT_BASE ^ (n - 1) \<le> ubig_val m x * ubig_val n y"
      using normal_ubigD(2) [OF nx pos(1)] normal_ubigD(2) [OF ny pos(2)] normal_ubigD(4) [OF nx]
      by (intro mult_mono) auto
    moreover have "m - 1 + (n - 1) = ?N - 2" using pos by simp
    ultimately show ?thesis by (simp add: z1 flip: power_add)
  qed
  have val: "ubig_val zsize z' = ubig_val ?N z1"
    using ubig_val_top_zero [of ?N z1] pos by (simp add: r)
  have "normal_ubig zsize z'"
  proof (cases "z1 ! (?N - 1) = 0")
    case True
    then have z: "zsize = ?N - 1" by (simp add: r)
    show ?thesis
    proof (rule normal_ubigI)
      show "digits_ok zsize z'" using digits_ok_le [OF z1(2)] by (simp add: z r)
      show "BP_BIGINT_BASE ^ (zsize - 1) \<le> ubig_val zsize z'" using low unfolding val by (simp add: z numeral_2_eq_2)
    qed
  next
    case False
    then show ?thesis using z1(2) by (simp add: normal_ubig_def r)
  qed
  with val z1 res show ?thesis by (auto simp: r)
qed

section \<open>Division\<close>

lemma ubig_val_split:
  assumes "i \<le> n" "n \<le> length x"
  shows "ubig_val n x = ubig_val i x + BP_BIGINT_BASE ^ i * ubig_val (n - i) (drop i x)"
  using assms
proof (induction n rule: dec_induct)
  case base
  then show ?case by simp
next
  case (step n)
  then show ?case by (simp add: ubig_val_Suc Suc_diff_le power_add [symmetric] algebra_simps)
qed

lemma ubig_val_zero_above:
  assumes "digits_ok n x" "ubig_val n x < BP_BIGINT_BASE ^ m" "m \<le> k" "k < n"
  shows "x ! k = 0"
proof (rule ccontr)
  assume nz: "x ! k \<noteq> 0"
  have d: "digits_ok (Suc k) x" using digits_ok_le [OF assms(1)] assms(4) by simp
  from ubig_val_ge_top [OF d] nz have "BP_BIGINT_BASE ^ k \<le> ubig_val (Suc k) x" by simp
  moreover have "ubig_val (Suc k) x \<le> ubig_val n x"
    using assms(1,4) ubig_val_split [of "Suc k" n x] digits_ok_length [OF assms(1)]
      ubig_val_nonneg [of "n - Suc k" "drop (Suc k) x"]
    by (auto simp: digits_ok_def)
  moreover have "BP_BIGINT_BASE ^ m \<le> BP_BIGINT_BASE ^ k" using assms(3) by simp
  ultimately show False using assms(2) by linarith
qed

lemma div_first_loop:
  assumes dr: "digits_ok (Suc n) (drop i r)" and dy: "digits_ok n y" and s: "s \<le> 27"
    and len: "Suc (i + n) \<le> length b"
    and res: "for_loop 0 (n + 1)
             (\<lambda>j (b, borrow). let temp = r ! (i + j) - get_shifted_digit n y j s - borrow;
                                  (v, borrow) = bigint_compute_borrow_val temp
                               in (b[i + j := v], borrow)) (b, 0) = (b1, bo)"
  shows "borrow_inv (length b - i) (\<lambda>k. ubig_val k (drop i r) - shifted_val n y s k) (n + 1) (drop i b1, bo)"
    and "length b1 = length b"
proof -
  let ?s = "\<lambda>k. ubig_val k (drop i r) - shifted_val n y s k"
  let ?P = "\<lambda>j t. borrow_inv (length b - i) ?s j (drop i (fst t), snd t) \<and> length (fst t) = length b"
  have lr: "i + j < length r" if "j < n + 1" for j
    using digits_ok_length [OF dr] that by simp
  have "?P (n + 1) (for_loop 0 (n + 1)
             (\<lambda>j (b, borrow). let temp = r ! (i + j) - get_shifted_digit n y j s - borrow;
                                  (v, borrow) = bigint_compute_borrow_val temp
                               in (b[i + j := v], borrow)) (b, 0))"
  proof (rule for_loop_rule [where P = ?P])
    show "?P 0 (b, 0)" by (simp add: borrow_inv_def)
  next
    fix j and t :: "ubigint \<times> int" assume j: "j < n + 1" and P: "?P j t"
    obtain c bo where t: "t = (c, bo)" by (cases t)
    let ?d = "r ! (i + j) - get_shifted_digit n y j s"
    obtain v bo' where v: "bigint_compute_borrow_val (?d - bo) = (v, bo')" by fastforce
    have rj: "drop i r ! j = r ! (i + j)" using lr [OF j] by simp
    have "borrow_inv (length b - i) ?s (Suc j) ((drop i c)[j := v], bo')"
    proof (rule borrow_inv_step [OF _ _ _ _ _ v])
      show "borrow_inv (length b - i) ?s j (drop i c, bo)" using P by (simp add: t)
      show "j < length b - i" using j len by simp
      show "1 - BP_BIGINT_BASE \<le> ?d" "?d < BP_BIGINT_BASE"
        using digits_okD [OF dr, of j] gsd_bounds [OF dy _ s, of j] j unfolding rj by auto
      show "?s (Suc j) = ?s j + ?d * BP_BIGINT_BASE ^ j"
        by (simp add: ubig_val_Suc shifted_val_Suc rj algebra_simps)
    qed
    with P v show "?P (Suc j) ((\<lambda>(b, borrow). let temp = r ! (i + j) - get_shifted_digit n y j s - borrow;
             (v, borrow) = bigint_compute_borrow_val temp in (b[i + j := v], borrow)) t)"
      by (simp add: t drop_update_swap)
  qed simp
  then show "borrow_inv (length b - i) ?s (n + 1) (drop i b1, bo)" and "length b1 = length b"
    unfolding res by simp_all
qed

lemma copy_back_loop:
  assumes "i + m \<le> length r"
  shows "length (for_down m (\<lambda>m r. r[i + m := b ! (i + m)]) r) = length r"
    and "for_down m (\<lambda>m r. r[i + m := b ! (i + m)]) r ! k
       = (if i \<le> k \<and> k < i + m then b ! k else r ! k)"
proof -
  let ?P = "\<lambda>j t. length t = length r \<and>
     (\<forall>k. t ! k = (if i + j \<le> k \<and> k < i + m then b ! k else r ! k))"
  have "?P 0 (for_down m (\<lambda>m r. r[i + m := b ! (i + m)]) r)"
    by (rule for_down_rule [where P = ?P]) (use assms in \<open>auto simp: nth_list_update le_Suc_eq\<close>)
  then show "length (for_down m (\<lambda>m r. r[i + m := b ! (i + m)]) r) = length r"
    and "for_down m (\<lambda>m r. r[i + m := b ! (i + m)]) r ! k
       = (if i \<le> k \<and> k < i + m then b ! k else r ! k)"
    by auto
qed

lemma div_try_subtract_correct:
  assumes dr: "digits_ok (Suc m) r" and dy: "digits_ok n y" and s: "s \<le> 27"
    and i: "i + n \<le> m" and lb: "Suc m \<le> length b"
    and R: "ubig_val (Suc m) r < ubig_val n y * 2 ^ Suc s * BP_BIGINT_BASE ^ i"
    and res: "div_try_subtract m n y i s (q, r, b) = (q', r', b')"
  defines "D \<equiv> ubig_val n y * 2 ^ s * BP_BIGINT_BASE ^ i"
  shows "digits_ok (Suc m) r' \<and> length r' = length r \<and> length b' = length b"
    and "D \<le> ubig_val (Suc m) r \<Longrightarrow>
           q' = q[i := q ! i OR push_bit s 1] \<and> ubig_val (Suc m) r' = ubig_val (Suc m) r - D"
    and "ubig_val (Suc m) r < D \<Longrightarrow> q' = q \<and> r' = r"
proof -
  let ?N = "Suc m" and ?h = "drop i r"
  have len: "?N \<le> length r" by (rule digits_ok_length [OF dr])
  have dh: "digits_ok (?N - i) ?h" using dr i by (auto simp: digits_ok_def)
  have dl: "digits_ok i r" using digits_ok_le [OF dr] i by simp
  have split: "ubig_val ?N r = ubig_val i r + BP_BIGINT_BASE ^ i * ubig_val (?N - i) ?h"
    using ubig_val_split [of i ?N r] len i by simp
  have Y: "ubig_val n y * 2 ^ Suc s < BP_BIGINT_BASE ^ Suc n"
  proof -
    have "(2::int) ^ Suc s \<le> BP_BIGINT_BASE" unfolding base_eq_exp by (rule power_increasing) (use s in auto)
    then have "ubig_val n y * 2 ^ Suc s \<le> ubig_val n y * BP_BIGINT_BASE"
      using ubig_val_nonneg [OF dy] by (rule mult_left_mono)
    also have "\<dots> < BP_BIGINT_BASE ^ n * BP_BIGINT_BASE"
      using ubig_val_less [OF dy] by (intro mult_strict_right_mono) auto
    finally show ?thesis by (simp add: mult.commute)
  qed
  have hb: "ubig_val (?N - i) ?h < BP_BIGINT_BASE ^ Suc n"
  proof -
    have "BP_BIGINT_BASE ^ i * ubig_val (?N - i) ?h < BP_BIGINT_BASE ^ i * (ubig_val n y * 2 ^ Suc s)"
      using R split ubig_val_nonneg [OF dl] unfolding mult.commute [of _ "BP_BIGINT_BASE ^ i"] by linarith
    then have "ubig_val (?N - i) ?h < ubig_val n y * 2 ^ Suc s" by (rule mult_left_less_imp_less) simp
    with Y show ?thesis by linarith
  qed
  have zero: "r ! k = 0" if "i + n + 1 \<le> k" "k < ?N" for k
    using ubig_val_zero_above [OF dh hb, of "k - i"] that i len by simp
  have h: "ubig_val (?N - i) ?h = ubig_val (Suc n) ?h"
    using ubig_val_tail_eq [of "Suc n" "?N - i" ?h "replicate (length ?h) 0"] zero i len
    by (simp add: ubig_val_def)
  obtain b1 bo where l1: "for_loop 0 (n + 1)
             (\<lambda>j (b, borrow). let temp = r ! (i + j) - get_shifted_digit n y j s - borrow;
                                  (v, borrow) = bigint_compute_borrow_val temp
                               in (b[i + j := v], borrow)) (b, 0) = (b1, bo)" by fastforce
  have dh1: "digits_ok (Suc n) ?h" using digits_ok_le [OF dh] i by simp
  have lb1: "Suc (i + n) \<le> length b" using lb i by simp
  note f = div_first_loop [OF dh1 dy s lb1 l1]
  have bo: "bo = 0 \<or> bo = 1" and db: "digits_ok (Suc n) (drop i b1)"
    and bv: "ubig_val (Suc n) (drop i b1) - bo * BP_BIGINT_BASE ^ Suc n
        = ubig_val (Suc n) ?h - ubig_val n y * 2 ^ s"
    using f(1) shifted_val_full [OF dy s] by (auto simp: borrow_inv_def)
  obtain k b2 bo2 where l2: "for_while (i + n + 1) m (\<lambda>(b, borrow). borrow = 1)
             (\<lambda>k (b, borrow). let (v, borrow) = bigint_compute_borrow_val (r ! k - 1)
                               in (b[k := v], borrow)) (b1, bo) = (k, b2, bo2)"
    by (rule prod_cases3)
  have D: "D \<le> ubig_val ?N r \<longleftrightarrow> bo = 0"
  proof
    assume "bo = 0"
    with bv ubig_val_nonneg [OF db] have "ubig_val n y * 2 ^ s \<le> ubig_val (Suc n) ?h" by simp
    then have "BP_BIGINT_BASE ^ i * (ubig_val n y * 2 ^ s) \<le> BP_BIGINT_BASE ^ i * ubig_val (Suc n) ?h"
      by (rule mult_left_mono) simp
    with ubig_val_nonneg [OF dl] show "D \<le> ubig_val ?N r"
      unfolding D_def split h mult.commute [of _ "BP_BIGINT_BASE ^ i"] by linarith
  next
    assume le: "D \<le> ubig_val ?N r"
    show "bo = 0"
    proof (rule ccontr)
      assume "bo \<noteq> 0"
      with bo bv ubig_val_less [OF db] have "ubig_val (Suc n) ?h + 1 \<le> ubig_val n y * 2 ^ s" by simp
      then have "BP_BIGINT_BASE ^ i * (ubig_val (Suc n) ?h + 1) \<le> BP_BIGINT_BASE ^ i * (ubig_val n y * 2 ^ s)"
        by (rule mult_left_mono) simp
      with le ubig_val_less [OF dl] show False unfolding D_def split h by (simp add: algebra_simps)
    qed
  qed
  have A: "q' = q[i := q ! i OR push_bit s 1] \<and> ubig_val ?N r' = ubig_val ?N r - D
      \<and> digits_ok ?N r' \<and> length r' = length r \<and> length b' = length b" if "bo = 0"
  proof -
    define r1 where "r1 = for_down (Suc n) (\<lambda>m r. r[i + m := b1 ! (i + m)]) r"
    have "(k, b2, bo2) = (i + n + 1, b1, bo)"
      using l2 that by (simp add: for_while_stop)
    with l2 res l1 that have r: "q' = q[i := q ! i OR push_bit s 1]" "r' = r1" "b' = b1"
      by (auto simp: div_try_subtract_def Let_def r1_def)
    have inl: "i + Suc n \<le> length r" using len i by simp
    note c = copy_back_loop [OF inl, of b1, folded r1_def]
    have low: "ubig_val i r1 = ubig_val i r" by (rule ubig_val_cong) (simp add: c)
    have "ubig_val (?N - i) (drop i r1) = ubig_val (Suc n) (drop i r1)"
      using ubig_val_tail_eq [of "Suc n" "?N - i" "drop i r1" "replicate (length r) 0"] zero i len c
      by (simp add: ubig_val_def)
    also have "\<dots> = ubig_val (Suc n) (drop i b1)"
      using inl lb1 f(2) by (intro ubig_val_cong) (simp add: c)
    finally have "ubig_val ?N r1 = ubig_val i r + BP_BIGINT_BASE ^ i * (ubig_val (Suc n) ?h - ubig_val n y * 2 ^ s)"
      using ubig_val_split [of i ?N r1] low c len i bv that by simp
    then have "ubig_val ?N r1 = ubig_val ?N r - D"
      unfolding split h D_def by (simp add: algebra_simps)
    moreover have "digits_ok ?N r1"
    proof -
      have "0 \<le> r1 ! j \<and> r1 ! j < BP_BIGINT_BASE" if "j < ?N" for j
        using digits_okD [OF dr that] digits_okD [OF db, of "j - i"] that lb1 f(2) by (auto simp: c)
      then show ?thesis using len c by (simp add: digits_ok_def)
    qed
    ultimately show ?thesis using r c f(2) by simp
  qed
  have B: "q' = q \<and> r' = r \<and> length b' = length b" if "bo = 1"
  proof -
    have "(snd (b2, bo2) = 1 \<and> length (fst (b2, bo2)) = length b) \<and> i + n + 1 \<le> k \<and> k \<le> max m (i + n + 1)
        \<and> (k = max m (i + n + 1) \<or> \<not> (\<lambda>(b, borrow). borrow = 1) (b2, bo2))"
    proof (rule for_while_rule [where P = "\<lambda>k t. snd t = 1 \<and> length (fst t) = length b"])
      show "for_while (i + n + 1) (max m (i + n + 1)) (\<lambda>(b, borrow). borrow = 1)
             (\<lambda>k (b, borrow). let (v, borrow) = bigint_compute_borrow_val (r ! k - 1)
                               in (b[k := v], borrow)) (b1, bo) = (k, b2, bo2)"
        using l2 by (cases "i + n + 1 \<le> m") (auto simp: max_def for_while_stop)
    next
      fix k' and t :: "ubigint \<times> int"
      assume k': "i + n + 1 \<le> k'" "k' < max m (i + n + 1)"
        and t: "snd t = 1 \<and> length (fst t) = length b"
      then have "r ! k' = 0" by (intro zero) auto
      with t show "snd ((\<lambda>(b, borrow). let (v, borrow) = bigint_compute_borrow_val (r ! k' - 1)
                               in (b[k' := v], borrow)) t) = 1 \<and>
          length (fst ((\<lambda>(b, borrow). let (v, borrow) = bigint_compute_borrow_val (r ! k' - 1)
                               in (b[k' := v], borrow)) t)) = length b"
        by (cases t) (simp add: bigint_compute_borrow_val_def)
    qed (use that f(2) in auto)
    with l2 res l1 show ?thesis by (auto simp: div_try_subtract_def Let_def)
  qed
  show "digits_ok ?N r' \<and> length r' = length r \<and> length b' = length b"
    using A B bo dr by auto
  show "D \<le> ubig_val ?N r \<Longrightarrow>
           q' = q[i := q ! i OR push_bit s 1] \<and> ubig_val ?N r' = ubig_val ?N r - D"
    using A D by simp
  show "ubig_val ?N r < D \<Longrightarrow> q' = q \<and> r' = r"
    using B D bo by auto
qed

text \<open>The value of the quotient under construction grows with each bit that is set.\<close>

lemma or_new_bit:
  assumes "2 ^ Suc s dvd (a::int)"
  shows "a OR push_bit s 1 = a + 2 ^ s"
proof -
  obtain b where a: "a = push_bit (Suc s) b" using assms by (auto simp: push_bit_eq_mult)
  have "2 ^ s OR push_bit (Suc s) b = 2 ^ s + push_bit (Suc s) b"
    by (rule or_eq_plus_shift) simp_all
  then show ?thesis by (simp add: a or.commute add.commute)
qed

definition div_inv :: "int \<Rightarrow> nat \<Rightarrow> nat \<Rightarrow> nat \<Rightarrow> ubigint \<Rightarrow> nat \<Rightarrow> nat \<Rightarrow> nat \<Rightarrow> nat
    \<Rightarrow> ubigint \<times> ubigint \<times> ubigint \<Rightarrow> bool" where
  "div_inv X m n qsize y ql rl bl i qrb \<longleftrightarrow> (case qrb of (q, r, b) \<Rightarrow>
     length q = ql \<and> length r = rl \<and> length b = bl \<and>
     digits_ok (Suc m) r \<and> digits_ok qsize q \<and> (\<forall>k<i. k < qsize \<longrightarrow> q ! k = 0) \<and>
     X = ubig_val (Suc m) r + ubig_val n y * ubig_val qsize q \<and>
     ubig_val (Suc m) r < ubig_val n y * BP_BIGINT_BASE ^ i)"

lemma div_block:
  assumes dy: "digits_ok n y" and i: "i + n \<le> m" "i < qsize" and bl: "Suc m \<le> bl" and ql: "qsize \<le> ql"
    and P: "div_inv X m n qsize y ql rl bl (Suc i) (q, r, b)"
  shows "div_inv X m n qsize y ql rl bl i
           (for_down 28 (div_try_subtract m n y i) (q[i := 0], r, b))"
proof -
  let ?Y = "ubig_val n y"
  let ?Q = "\<lambda>s t. case t of (q, r, b) \<Rightarrow> length q = ql \<and> length r = rl \<and> length (b :: ubigint) = bl \<and>
     digits_ok (Suc m) r \<and> digits_ok qsize q \<and> (\<forall>k<i. q ! k = 0) \<and>
     X = ubig_val (Suc m) r + ?Y * ubig_val qsize q \<and>
     ubig_val (Suc m) r < ?Y * 2 ^ s * BP_BIGINT_BASE ^ i \<and> 2 ^ s dvd q ! i"
  have "q ! i = 0" using P i by (auto simp: div_inv_def)
  then have q0: "q[i := 0] = q" using list_update_id [of q i] by simp
  have "?Q 0 (for_down 28 (div_try_subtract m n y i) (q[i := 0], r, b))"
  proof (rule for_down_rule [where P = ?Q])
    show "?Q 28 (q[i := 0], r, b)"
      using P i unfolding q0 by (auto simp: div_inv_def BP_BIGINT_BASE_def [symmetric] mult.assoc)
  next
    fix s t assume s: "s < (28::nat)" and Q: "?Q (Suc s) t"
    obtain q r b where t: "t = (q, r, b)" by (cases t)
    obtain q' r' b' where res: "div_try_subtract m n y i s (q, r, b) = (q', r', b')"
      by (rule prod_cases3)
    have s27: "s \<le> 27" using s by simp
    have dr: "digits_ok (Suc m) r" and lb: "Suc m \<le> length b" and dq: "digits_ok qsize q"
      and R: "ubig_val (Suc m) r < ?Y * 2 ^ Suc s * BP_BIGINT_BASE ^ i"
      and dvd: "2 ^ Suc s dvd q ! i" and lq: "length q = ql" "length r = rl" "length b = bl"
      and X: "X = ubig_val (Suc m) r + ?Y * ubig_val qsize q" and zq: "\<forall>k<i. q ! k = 0"
      using Q bl by (auto simp: t)
    note c = div_try_subtract_correct [OF dr dy s27 i(1) lb R res]
    let ?D = "?Y * 2 ^ s * BP_BIGINT_BASE ^ i"
    show "?Q s (div_try_subtract m n y i s t)"
    proof (cases "?D \<le> ubig_val (Suc m) r")
      case True
      with c have q': "q' = q[i := q ! i + 2 ^ s]" and r': "ubig_val (Suc m) r' = ubig_val (Suc m) r - ?D"
        using or_new_bit [OF dvd] by auto
      have qi: "0 \<le> q ! i" "q ! i < BP_BIGINT_BASE" using digits_okD [OF dq i(2)] by auto
      have "2 ^ Suc s dvd BP_BIGINT_BASE - q ! i"
        using dvd s unfolding base_eq_exp by (intro dvd_diff le_imp_power_dvd) auto
      then have "2 ^ Suc s \<le> BP_BIGINT_BASE - q ! i" using qi by (intro zdvd_imp_le) auto
      then have up: "q ! i + 2 ^ s < BP_BIGINT_BASE" by (simp, smt (verit) zero_less_power)
      have "2 ^ s dvd q ! i" by (rule dvd_trans [OF _ dvd]) (simp add: le_imp_power_dvd)
      moreover have "ubig_val qsize q' = ubig_val qsize q + 2 ^ s * BP_BIGINT_BASE ^ i"
        using i(2) ql lq by (simp add: q' ubig_val_update)
      ultimately show ?thesis
        using c(1) r' q' i ql lq R zq up qi dq X
        by (simp add: t res digits_ok_update algebra_simps)
    next
      case False
      with c have "q' = q" "r' = r" by auto
      moreover have "2 ^ s dvd q ! i" by (rule dvd_trans [OF _ dvd]) (simp add: le_imp_power_dvd)
      ultimately show ?thesis using c(1) False dr dq X zq lq by (simp add: t res)
    qed
  qed
  then show ?thesis by (auto simp: div_inv_def split: prod.splits)
qed

lemma bp_div_ubig_ubig_correct:
  assumes dx: "digits_ok m x" and ny: "normal_ubig n y" and n: "0 < n" "n \<le> m"
    and lens: "m - n + 1 \<le> length q" "m + 1 \<le> length r" "m + 1 \<le> length b"
    and res: "bp_div_ubig_ubig m x n y q r b = (qsize, q', rsize, r')"
  shows "digits_ok qsize q' \<and> ubig_val qsize q' = ubig_val m x div ubig_val n y
     \<and> normal_ubig rsize r' \<and> ubig_val rsize r' = ubig_val m x mod ubig_val n y
     \<and> (qsize = m - n + 1 \<or> qsize = m - n) \<and> (qsize = m - n + 1 \<longrightarrow> q' ! (m - n) \<noteq> 0)
     \<and> length q' = length q \<and> length r' = length r \<and> rsize \<le> m + 1"
proof -
  let ?K = "m - n + 1" and ?Y = "ubig_val n y" and ?X = "ubig_val m x"
  have dy: "digits_ok n y" using ny by (simp add: normal_ubig_def)
  define r0 where "r0 = (for_loop 0 m (\<lambda>i r. r[i := x ! i]) r)[m := 0]"
  define q0 where "q0 = for_loop 0 ?K (\<lambda>i q. q[i := 0]) q"
  have r0: "length r0 = length r" "digits_ok (Suc m) r0" "ubig_val (Suc m) r0 = ?X"
    using copy_loop_val [of 0 m r x] copy_loop(1) [of 0 m r x] dx lens
    by (auto simp: r0_def digits_ok_snoc)
  have "length q0 = length q \<and> digits_ok ?K q0 \<and> ubig_val ?K q0 = 0 \<and> (\<forall>k<?K. q0 ! k = 0)"
    unfolding q0_def
    by (rule for_loop_rule [where P = "\<lambda>k t. length t = length q \<and> digits_ok k t \<and> ubig_val k t = 0 \<and> (\<forall>j<k. t ! j = 0)"])
      (use lens in \<open>auto simp: digits_ok_snoc less_Suc_eq nth_list_update\<close>)
  note q0 = this
  have "?X < ?Y * BP_BIGINT_BASE ^ ?K"
  proof -
    have "BP_BIGINT_BASE ^ (n - 1) * BP_BIGINT_BASE ^ ?K \<le> ?Y * BP_BIGINT_BASE ^ ?K"
      using normal_ubigD(2) [OF ny n(1)] by (rule mult_right_mono) simp
    moreover have "n - 1 + ?K = m" using n by simp
    ultimately show ?thesis using ubig_val_less [OF dx] by (simp add: power_add [symmetric] del: power_Suc)
  qed
  then have I0: "div_inv ?X m n ?K y (length q) (length r) (length b) ?K (q0, r0, b)"
    using q0 r0 by (simp add: div_inv_def)
  obtain q1 r1 b1 where l: "for_down ?K (\<lambda>i (q, r, b).
      for_down 28 (div_try_subtract m n y i) (q[i := 0], r, b)) (q0, r0, b) = (q1, r1, b1)"
    by (rule prod_cases3)
  have "div_inv ?X m n ?K y (length q) (length r) (length b) 0 (for_down ?K (\<lambda>i (q, r, b).
      for_down 28 (div_try_subtract m n y i) (q[i := 0], r, b)) (q0, r0, b))"
    by (rule for_down_rule [where P = "div_inv ?X m n ?K y (length q) (length r) (length b)"])
      (use I0 div_block [OF dy] lens n in \<open>auto split: prod.splits\<close>)
  then have I: "length q1 = length q" "length r1 = length r" "digits_ok (Suc m) r1" "digits_ok ?K q1"
      "?X = ubig_val (Suc m) r1 + ?Y * ubig_val ?K q1" "ubig_val (Suc m) r1 < ?Y"
    unfolding l by (auto simp: div_inv_def)
  have "?X div ?Y = ubig_val ?K q1 \<and> ?X mod ?Y = ubig_val (Suc m) r1"
    using I(5,6) ubig_val_nonneg [OF I(3)]
    by (intro conjI) (auto simp: int_div_pos_eq int_mod_pos_eq algebra_simps)
  note dm = this
  have qr: "qsize = (if q1 ! (?K - 1) = 0 then ?K - 1 else ?K)" "q' = q1"
      "rsize = zap_leading_zeros (Suc m) r1" "r' = r1"
    using res l by (auto simp: bp_div_ubig_ubig_def Let_def r0_def q0_def)
  have "ubig_val qsize q1 = ubig_val ?K q1"
    using ubig_val_top_zero [of ?K q1] by (simp add: qr)
  moreover have "digits_ok qsize q1" using digits_ok_le [OF I(4), of qsize] by (simp add: qr)
  moreover have "zap_leading_zeros (Suc m) r1 \<le> m + 1" using zap_leading_zeros_le [of "Suc m" r1] by simp
  ultimately show ?thesis
    using dm qr I zap_leading_zeros_normal [OF I(3)] zap_leading_zeros_val [of "Suc m" r1]
    by (simp del: zap_leading_zeros.simps)
qed

section \<open>What the long routines guarantee\<close>

text \<open>C1. Shift-and-add multiplication: into an array with a cell for every digit of both
  factors, whatever it held before, \<open>bp_mul_ubig_ubig\<close> writes the product of two normal numbers.
  The result is normal again. No access is outside of \<open>z\<close>, and when \<open>z\<close> goes on behind the
  array the cells there keep their contents: the loop that ripples the last carry, which has no
  bound in the code, ends before the end of the array.\<close>

theorem ubig_multiplication:
  assumes "normal_ubig xsize x" "normal_ubig ysize y" "0 < xsize" "0 < ysize"
    and "xsize + ysize \<le> length z"
  shows "\<exists>zsize z'. bp_mul_ubig_ubig xsize x ysize y z = Some (zsize, z')
    \<and> normal_ubig zsize z' \<and> ubig_val zsize z' = ubig_val xsize x * ubig_val ysize y
    \<and> zsize \<le> xsize + ysize \<and> length z' = length z
    \<and> drop (xsize + ysize) z' = drop (xsize + ysize) z"
proof -
  have "drop (xsize + ysize) z' = drop (xsize + ysize) z" if "unchanged_from (xsize + ysize) z z'" for z'
    using that by (intro nth_equalityI) (auto simp: unchanged_from_def)
  then show ?thesis
    using bp_mul_ubig_ubig_correct [OF assms] unfolding unchanged_from_def by blast
qed

theorem ubig_multiplication_witness:
  "bp_mul_ubig_ubig 2 [268435455, 268435455] 1 [3] [7, 7, 7, 9] = Some (3, [268435453, 268435455, 2, 9])
   \<and> normal_ubig 3 [268435453, 268435455, 2, 9]
   \<and> bp_mul_ubig_ubig 2 [268435455, 268435455] 1 [3] [7, 7] = None"
proof -
  have e: "bp_mul_ubig_ubig 2 [268435455, 268435455] 1 [3] [7, 7, 7, 9]
      = Some (3, [268435453, 268435455, 2, 9])" by code_simp
  have f: "bp_mul_ubig_ubig 2 [268435455, 268435455] 1 [3] [7, 7] = None" by code_simp
  have d: "normal_ubig 2 [268435455, 268435455]" "normal_ubig 1 [3]" by code_simp+
  from e f ubig_multiplication [OF d, of "[7, 7, 7, 9]"] show ?thesis by simp
qed

text \<open>C2. Long division: for a normal divisor that is not longer than the dividend,
  \<open>bp_div_ubig_ubig\<close> leaves the quotient in \<open>q\<close> and the remainder in \<open>r\<close>. The subtractions into
  the scratch buffer that turn out negative leave no trace; the remainder has no leading zero,
  the quotient at most drops its top digit.\<close>

theorem ubig_long_division:
  assumes "digits_ok xsize x" "normal_ubig ysize y" "0 < ysize" "ysize \<le> xsize"
    and "xsize - ysize + 1 \<le> length q" "xsize + 1 \<le> length r" "xsize + 1 \<le> length buf"
    and "bp_div_ubig_ubig xsize x ysize y q r buf = (qsize, q', rsize, r')"
  shows "ubig_val qsize q' = ubig_val xsize x div ubig_val ysize y
    \<and> ubig_val rsize r' = ubig_val xsize x mod ubig_val ysize y
    \<and> digits_ok qsize q' \<and> normal_ubig rsize r' \<and> length q' = length q \<and> length r' = length r"
  using bp_div_ubig_ubig_correct [OF assms] by simp

theorem ubig_long_division_witness:
  "bp_div_ubig_ubig 2 [5, 7] 1 [10] [0, 0] [1, 1, 1] [9, 9, 9]
     = (1, [187904819, 0], 1, [7, 0, 0])
   \<and> ubig_val 1 [187904819, 0] = ubig_val 2 [5, 7] div ubig_val 1 [10]"
proof -
  have e: "bp_div_ubig_ubig 2 [5, 7] 1 [10] [0, 0] [1, 1, 1] [9, 9, 9]
     = (1, [187904819, 0], 1, [7, 0, 0])" by code_simp
  have d: "digits_ok 2 [5, 7]" "normal_ubig 1 [10]" by code_simp+
  from e ubig_long_division [OF d _ _ _ _ _ e] show ?thesis by simp
qed

end
