(* ===== verification/Ubig_Bits.thy ===== *)
theory Ubig_Bits
  imports Ubig
begin

text \<open>
  The bit operations on magnitudes, \<open>emu/bigint.c\<close>: digitwise and, or, xor, shifts, and the
  two's complement that represents a negative operand of a bitwise operation. The two's
  complement of a magnitude of \<open>n\<close> digits keeps \<open>n\<close> digits and sets bit 28 of the top one, the
  "imaginary sign bit", so that the array denotes \<open>2 * B^n - X\<close> for the number \<open>-X\<close>; \<open>twos n x\<close>
  reads such an array back as a signed number.
\<close>

section \<open>The routines\<close>

definition bp_and_ubig_ubig ::
  "nat \<Rightarrow> ubigint \<Rightarrow> nat \<Rightarrow> ubigint \<Rightarrow> ubigint \<Rightarrow> nat \<times> ubigint" where
  "bp_and_ubig_ubig xsize x ysize y z =
     (let zsize = (if xsize \<ge> ysize then ysize else xsize);
          z = for_loop 0 zsize (\<lambda>i z. z[i := x ! i AND y ! i]) z
      in (zap_leading_zeros zsize z, z))"

definition bp_or_ubig_ubig ::
  "nat \<Rightarrow> ubigint \<Rightarrow> nat \<Rightarrow> ubigint \<Rightarrow> ubigint \<Rightarrow> nat \<times> ubigint" where
  "bp_or_ubig_ubig xsize0 x0 ysize0 y0 z =
     (let (xsize, x, ysize, y) =
            (if xsize0 > ysize0 then (ysize0, y0, xsize0, x0) else (xsize0, x0, ysize0, y0));
          z = for_loop 0 xsize (\<lambda>i z. z[i := x ! i OR y ! i]) z;
          z = for_loop xsize ysize (\<lambda>i z. z[i := y ! i]) z
      in (ysize, z))"

definition bp_xor_ubig_ubig ::
  "nat \<Rightarrow> ubigint \<Rightarrow> nat \<Rightarrow> ubigint \<Rightarrow> ubigint \<Rightarrow> nat \<times> ubigint" where
  "bp_xor_ubig_ubig xsize0 x0 ysize0 y0 z =
     (let (xsize, x, ysize, y) =
            (if xsize0 > ysize0 then (ysize0, y0, xsize0, x0) else (xsize0, x0, ysize0, y0));
          z = for_loop 0 xsize (\<lambda>i z. z[i := x ! i XOR y ! i]) z;
          z = for_loop xsize ysize (\<lambda>i z. z[i := y ! i]) z
      in (zap_leading_zeros ysize z, z))"

text \<open>\<open>z = x << y\<close> for \<open>y > 0\<close>.\<close>

definition bp_shiftl_ubig_int :: "nat \<Rightarrow> ubigint \<Rightarrow> nat \<Rightarrow> ubigint \<Rightarrow> nat \<times> ubigint" where
  "bp_shiftl_ubig_int xsize x y z =
     (let shiftBlocks = y div 28;
          shiftBits = y mod 28;
          zsize = xsize + shiftBlocks + 1;
          z = for_loop 0 shiftBlocks (\<lambda>i z. z[i := 0]) z;
          z = for_loop 0 (xsize + 1)
                (\<lambda>j z. z[shiftBlocks + j := get_shifted_digit xsize x j shiftBits]) z
      in (if z ! (zsize - 1) = 0 then zsize - 1 else zsize, z))"

text \<open>\<open>z = x >> y\<close> for \<open>y > 0\<close>, as a left shift within the blocks.\<close>

definition bp_shiftr_ubig_int :: "nat \<Rightarrow> ubigint \<Rightarrow> nat \<Rightarrow> ubigint \<Rightarrow> nat \<times> ubigint" where
  "bp_shiftr_ubig_int xsize x y z =
     (let rightShiftBlocks = (y + 27) div 28;
          leftShiftBits = 28 * rightShiftBlocks - y
      in if rightShiftBlocks \<ge> xsize + 1 then (0, z)
         else let zsize = xsize + 1 - rightShiftBlocks;
                  z = for_loop rightShiftBlocks (xsize + 1)
                        (\<lambda>j z. z[j - rightShiftBlocks := get_shifted_digit xsize x j leftShiftBits]) z
              in (if z ! (zsize - 1) = 0 then zsize - 1 else zsize, z))"

text \<open>\<open>x = ~x\<close>, in place.\<close>

definition bp_onescomplement_ubig :: "nat \<Rightarrow> ubigint \<Rightarrow> nat \<times> ubigint" where
  "bp_onescomplement_ubig xsize x =
     (let x = for_loop 0 xsize (\<lambda>i x. x[i := NOT (x ! i) AND MASK_LOW28]) x
      in (zap_leading_zeros xsize x, x))"

text \<open>\<open>x = ~x + 1\<close>, in place, with the imaginary sign bit set.\<close>

definition bp_twoscomplement_ubig :: "nat \<Rightarrow> ubigint \<Rightarrow> ubigint" where
  "bp_twoscomplement_ubig xsize x =
     (let x = for_loop 0 xsize (\<lambda>i x. x[i := NOT (x ! i) AND MASK_LOW28]) x;
          (i, x, carry) = for_while 0 xsize (\<lambda>(x, carry). carry = 1)
             (\<lambda>i (x, carry). let (v, carry) = bigint_compute_carry_val (x ! i + carry)
                              in (x[i := v], carry)) (x, 1)
      in x[xsize - 1 := x ! (xsize - 1) OR BP_BIGINT_BASE])"

definition bp_twoscomplement_magnitude :: "nat \<Rightarrow> ubigint \<Rightarrow> nat \<times> ubigint" where
  "bp_twoscomplement_magnitude zsize z =
     (let (zsize, z) = bp_dec_ubig zsize z;
          (zsize, z) = bp_onescomplement_ubig zsize z
      in (zap_leading_zeros zsize z, z))"

text \<open>
  \<open>z = x >> y\<close> for a two's complement \<open>x\<close> and \<open>y > 0\<close>: the imaginary sign bit stays, the
  digits it passes are filled with ones.
\<close>

definition bp_shiftr_twoscomplement_int :: "nat \<Rightarrow> ubigint \<Rightarrow> nat \<Rightarrow> ubigint \<Rightarrow> nat \<times> ubigint" where
  "bp_shiftr_twoscomplement_int xsize x y z =
     (let rightShiftBlocks = (y + 27) div 28;
          leftShiftBits = 28 * rightShiftBlocks - y;
          zsize = xsize;
          (first, z) =
            (if rightShiftBlocks \<le> xsize
             then let z = for_loop rightShiftBlocks (xsize + 1)
                        (\<lambda>j z. z[j - rightShiftBlocks := get_shifted_digit xsize x j leftShiftBits]) z;
                      i = xsize - rightShiftBlocks
                  in (i + 1, z[i := z ! i OR
                        push_bit leftShiftBits (drop_bit leftShiftBits MASK_LOW28)])
             else (0, z));
          z = for_loop first zsize (\<lambda>j z. z[j := MASK_LOW28]) z
      in (zsize, z[zsize - 1 := z ! (zsize - 1) OR BP_BIGINT_BASE]))"

section \<open>Loops that fill an array\<close>

lemma fill_loop:
  assumes "a \<le> n" "n - a + c \<le> length z" "\<And>j t. a \<le> j \<Longrightarrow> j < n \<Longrightarrow> length t = length z \<Longrightarrow>
     (\<forall>k \<ge> j - a + c. t ! k = z ! k) \<Longrightarrow> f j t = t[j - a + c := g j]"
  shows "length (for_loop a n f z) = length z"
    and "c \<le> k \<Longrightarrow> k < n - a + c \<Longrightarrow> for_loop a n f z ! k = g (k - c + a)"
    and "k < c \<or> n - a + c \<le> k \<Longrightarrow> for_loop a n f z ! k = z ! k"
proof -
  let ?P = "\<lambda>j t. length t = length z \<and>
    (\<forall>k. t ! k = (if c \<le> k \<and> k < j - a + c then g (k - c + a) else z ! k))"
  have "?P n (for_loop a n f z)"
    by (rule for_loop_rule [where P = ?P])
      (use assms in \<open>auto simp: nth_list_update less_Suc_eq Suc_diff_le\<close>)
  then show "length (for_loop a n f z) = length z"
    and "c \<le> k \<Longrightarrow> k < n - a + c \<Longrightarrow> for_loop a n f z ! k = g (k - c + a)"
    and "k < c \<or> n - a + c \<le> k \<Longrightarrow> for_loop a n f z ! k = z ! k"
    by auto
qed


section \<open>Bitwise operators, digit by digit\<close>

text \<open>
  What and, or and xor share: an operator on integers that works bit by bit and maps zero bits
  to a zero bit. Such an operator distributes over the digits of a number, keeps them in range
  and commutes with the truncation to any width, signed or not.
\<close>

locale bit_operator =
  fixes iop :: "int \<Rightarrow> int \<Rightarrow> int" and f :: "bool \<Rightarrow> bool \<Rightarrow> bool"
  assumes bit_iop: "bit (iop a b) i \<longleftrightarrow> f (bit a i) (bit b i)"
    and f_zero: "\<not> f False False"
begin

lemma take_bit_iop: "take_bit k (iop a b) = iop (take_bit k a) (take_bit k b)"
  by (rule bit_eqI, rename_tac i, case_tac "i < k") (auto simp: bit_take_bit_iff bit_iop f_zero)

lemma signed_take_bit_iop:
  "signed_take_bit k (iop a b) = iop (signed_take_bit k a) (signed_take_bit k b)"
  by (rule bit_eqI) (auto simp: bit_signed_take_bit_iff bit_iop)

lemma iop_range:
  assumes "0 \<le> a" "a < 2 ^ k" "0 \<le> b" "b < 2 ^ k"
  shows "0 \<le> iop a b \<and> iop a b < 2 ^ k"
proof -
  have "iop a b = take_bit k (iop a b)"
    using assms by (simp add: take_bit_iop take_bit_int_eq_self)
  moreover have "0 \<le> take_bit k (iop a b)" "take_bit k (iop a b) < 2 ^ k" by simp_all
  ultimately show ?thesis by metis
qed

lemma iop_zero [simp]: "iop 0 0 = 0"
  by (rule bit_eqI) (simp add: bit_iop f_zero)

lemma iop_split:
  assumes "0 \<le> a" "a < 2 ^ k" "0 \<le> a'" "a' < 2 ^ k"
  shows "iop (a + push_bit k b) (a' + push_bit k b') = iop a a' + push_bit k (iop b b')"
proof -
  have e: "c + push_bit k d = take_bit k c OR push_bit k d" if "0 \<le> c" "c < 2 ^ k" for c d :: int
    using or_eq_plus_shift [OF that, of d] that by (simp add: take_bit_int_eq_self)
  have "iop (take_bit k a OR push_bit k b) (take_bit k a' OR push_bit k b')
      = take_bit k (iop a a') OR push_bit k (iop b b')"
    by (rule bit_eqI, rename_tac i, case_tac "i < k") (simp_all add: bit_simps bit_iop f_zero)
  with iop_range [OF assms] show ?thesis by (simp add: e assms)
qed

lemma iop_signed_range:
  assumes "- (2 ^ k) \<le> a" "a < 2 ^ k" "- (2 ^ k) \<le> b" "b < 2 ^ k"
  shows "- (2 ^ k) \<le> iop a b \<and> iop a b < 2 ^ k"
proof -
  have "iop a b = signed_take_bit k (iop a b)"
    using assms by (simp add: signed_take_bit_iop signed_take_bit_int_eq_self)
  then show ?thesis
    using signed_take_bit_int_greater_eq_minus_exp [of k "iop a b"]
      signed_take_bit_int_less_exp [of k "iop a b"] by simp
qed

lemma iop_digits:
  assumes "digits_ok n x" "digits_ok n y" "\<And>k. k < n \<Longrightarrow> z ! k = iop (x ! k) (y ! k)" "n \<le> length z"
  shows "digits_ok n z \<and> ubig_val n z = iop (ubig_val n x) (ubig_val n y)"
  using assms
proof (induction n)
  case 0
  then show ?case by simp
next
  case (Suc n)
  have d: "digits_ok n x" "digits_ok n y" using Suc.prems by (auto elim: digits_ok_le)
  have r: "0 \<le> x ! n" "x ! n < 2 ^ 28" "0 \<le> y ! n" "y ! n < 2 ^ 28"
    using digits_okD [OF Suc.prems(1), of n] digits_okD [OF Suc.prems(2), of n]
    by (auto simp: BP_BIGINT_BASE_def)
  have IH: "digits_ok n z" "ubig_val n z = iop (ubig_val n x) (ubig_val n y)"
    using Suc.IH [OF d] Suc.prems by auto
  have p: "a * BP_BIGINT_BASE ^ n = push_bit (28 * n) a" for a :: int
    by (simp add: base_eq_exp push_bit_eq_mult power_mult)
  have b: "0 \<le> ubig_val n x" "ubig_val n x < 2 ^ (28 * n)" "0 \<le> ubig_val n y" "ubig_val n y < 2 ^ (28 * n)"
    using ubig_val_bounds [OF d(1)] ubig_val_bounds [OF d(2)] by (auto simp: base_eq_exp power_mult)
  have "ubig_val (Suc n) z = iop (ubig_val (Suc n) x) (ubig_val (Suc n) y)"
    using iop_split [OF b, of "x ! n" "y ! n"] IH(2) Suc.prems(3) [of n] by (simp add: ubig_val_Suc p)
  moreover have "digits_ok (Suc n) z"
    using IH(1) iop_range [OF r] Suc.prems(3) [of n] Suc.prems(4)
    by (auto simp: digits_ok_def less_Suc_eq BP_BIGINT_BASE_def)
  ultimately show ?case by simp
qed

end

interpretation and_op: bit_operator "(AND)" "(\<and>)"
  by unfold_locales (auto simp: bit_and_iff)

interpretation or_op: bit_operator "(OR)" "(\<or>)"
  by unfold_locales (auto simp: bit_or_iff)

interpretation xor_op: bit_operator "(XOR)" "(\<noteq>)"
  by unfold_locales (auto simp: bit_xor_iff)


section \<open>Arrays with an imaginary sign bit\<close>

definition twos_digits :: "nat \<Rightarrow> ubigint \<Rightarrow> bool" where
  "twos_digits n x \<longleftrightarrow> 0 < n \<and> n \<le> length x \<and> digits_ok (n - 1) x \<and>
     0 \<le> x ! (n - 1) \<and> x ! (n - 1) < 2 * BP_BIGINT_BASE"

definition twos_val :: "nat \<Rightarrow> ubigint \<Rightarrow> int" where
  "twos_val n x =
     (if BP_BIGINT_BASE \<le> x ! (n - 1) then ubig_val n x - 2 * BP_BIGINT_BASE ^ n else ubig_val n x)"

lemma twos_digitsE:
  assumes "twos_digits n x"
  obtains m where "n = Suc m" "digits_ok m x" "0 \<le> x ! m" "x ! m < 2 * BP_BIGINT_BASE" "m < length x"
proof -
  obtain m where "n = Suc m" using assms by (cases n) (auto simp: twos_digits_def)
  with assms that show ?thesis by (auto simp: twos_digits_def)
qed

lemma digits_ok_twos: "digits_ok n x \<Longrightarrow> 0 < n \<Longrightarrow> twos_digits n x \<and> twos_val n x = ubig_val n x"
  using digits_okD [of n x "n - 1"] digits_ok_le [of n x "n - 1"] digits_ok_length [of n x]
  by (auto simp: twos_digits_def twos_val_def)

lemma twos_bounds:
  assumes "twos_digits n x"
  shows "0 \<le> ubig_val n x" "ubig_val n x < 2 * BP_BIGINT_BASE ^ n"
    "BP_BIGINT_BASE \<le> x ! (n - 1) \<longleftrightarrow> BP_BIGINT_BASE ^ n \<le> ubig_val n x"
proof -
  from assms obtain m where n: "n = Suc m" and d: "digits_ok m x" and t: "0 \<le> x ! m"
      "x ! m < 2 * BP_BIGINT_BASE" by (rule twos_digitsE)
  let ?P = "BP_BIGINT_BASE ^ m"
  note b = ubig_val_bounds [OF d]
  have v: "ubig_val n x = ubig_val m x + x ! m * ?P" by (simp add: n ubig_val_Suc)
  have Bn: "BP_BIGINT_BASE ^ n = BP_BIGINT_BASE * ?P" by (simp add: n)
  have up: "x ! m * ?P + ?P \<le> c * ?P" if "x ! m < c" for c
    using mult_right_mono [of "x ! m + 1" c ?P] that by (simp add: algebra_simps)
  have lo: "c * ?P \<le> x ! m * ?P" if "c \<le> x ! m" for c
    using that by (rule mult_right_mono) simp
  show "0 \<le> ubig_val n x" using b lo [of 0] t unfolding v by simp
  show "ubig_val n x < 2 * BP_BIGINT_BASE ^ n"
    using b up [OF t(2)] unfolding v Bn by simp
  show "BP_BIGINT_BASE \<le> x ! (n - 1) \<longleftrightarrow> BP_BIGINT_BASE ^ n \<le> ubig_val n x"
  proof (cases "BP_BIGINT_BASE \<le> x ! m")
    case True
    with lo [OF True] b have "BP_BIGINT_BASE ^ n \<le> ubig_val n x" unfolding v Bn by linarith
    with True show ?thesis by (simp add: n)
  next
    case False
    then have "\<not> BP_BIGINT_BASE ^ n \<le> ubig_val n x"
      using up [of BP_BIGINT_BASE] b unfolding v Bn by linarith
    with False show ?thesis by (simp add: n)
  qed
qed

lemma signed_take_bit_half:
  assumes "0 \<le> v" "v < 2 * 2 ^ k"
  shows "signed_take_bit k v = (if 2 ^ k \<le> v then v - 2 * 2 ^ k else (v :: int))"
proof (cases "2 ^ k \<le> v")
  case True
  then have "signed_take_bit k (v - 2 ^ Suc k) = v - 2 ^ Suc k"
    using assms by (intro signed_take_bit_int_eq_self) auto
  moreover have "signed_take_bit k (v - 2 ^ Suc k) = signed_take_bit k v"
  proof (rule iffD2 [OF signed_take_bit_eq_iff_take_bit_eq])
    have "(v - 2 ^ Suc k) mod 2 ^ Suc k = v mod 2 ^ Suc k"
      using mod_add_self2 [of "v - 2 ^ Suc k" "2 ^ Suc k"] by simp
    then show "take_bit (Suc k) (v - 2 ^ Suc k) = take_bit (Suc k) v"
      by (simp only: take_bit_eq_mod)
  qed
  ultimately show ?thesis using True by simp
next
  case False
  then have "- (2 ^ k) \<le> v" using assms by (smt (verit) zero_le_power)
  with False show ?thesis using assms by (simp add: signed_take_bit_int_eq_self)
qed

lemma twos_val_signed:
  assumes "twos_digits n x"
  shows "twos_val n x = signed_take_bit (28 * n) (ubig_val n x)"
proof -
  have e: "BP_BIGINT_BASE ^ n = 2 ^ (28 * n)" by (simp add: base_eq_exp power_mult)
  show ?thesis
    using twos_bounds [OF assms] signed_take_bit_half [of "ubig_val n x" "28 * n"]
    by (simp add: twos_val_def e)
qed

lemma twos_val_range:
  assumes "twos_digits n x"
  shows "- (BP_BIGINT_BASE ^ n) \<le> twos_val n x \<and> twos_val n x < BP_BIGINT_BASE ^ n"
  using twos_bounds [OF assms] by (simp add: twos_val_def)

text \<open>
  A digitwise routine: the routine writes the operator's value of every digit and returns a size
  from which on the result is zero. Its result denotes the operator's value of the two numbers.
\<close>

locale digit_routine = bit_operator +
  fixes uop :: "nat \<Rightarrow> ubigint \<Rightarrow> nat \<Rightarrow> ubigint \<Rightarrow> ubigint \<Rightarrow> nat \<times> ubigint"
  assumes uop_digits: "n \<le> length z \<Longrightarrow> uop n x n y z = (zsize, z') \<Longrightarrow>
       length z' = length z \<and> (\<forall>k<n. z' ! k = iop (x ! k) (y ! k)) \<and>
       zsize \<le> n \<and> (\<forall>k. zsize \<le> k \<and> k < n \<longrightarrow> z' ! k = 0)"
    and uop_top: "n \<le> length z \<Longrightarrow> uop n x n y z = (zsize, z') \<Longrightarrow>
       x ! (n - 1) \<noteq> 0 \<or> y ! (n - 1) \<noteq> 0 \<Longrightarrow> 0 < zsize \<Longrightarrow> z' ! (zsize - 1) \<noteq> 0"
begin

lemma uop_twos:
  assumes x: "twos_digits n x" and y: "twos_digits n y" and n: "n \<le> length z"
    and res: "uop n x n y z = (zsize, z')"
  shows "twos_digits n z' \<and> twos_val n z' = iop (twos_val n x) (twos_val n y)"
proof -
  obtain m where m: "n = Suc m" and dx: "digits_ok m x" "0 \<le> x ! m" "x ! m < 2 ^ 29"
    using x by (auto elim!: twos_digitsE simp: BP_BIGINT_BASE_def)
  have dy: "digits_ok m y" "0 \<le> y ! m" "y ! m < 2 ^ 29"
    using y m by (auto elim!: twos_digitsE simp: BP_BIGINT_BASE_def)
  note u = uop_digits [OF n res]
  have low: "digits_ok m z' \<and> ubig_val m z' = iop (ubig_val m x) (ubig_val m y)"
    by (rule iop_digits [OF dx(1) dy(1)]) (use u n m in auto)
  have b: "0 \<le> ubig_val m x" "ubig_val m x < 2 ^ (28 * m)" "0 \<le> ubig_val m y" "ubig_val m y < 2 ^ (28 * m)"
    using ubig_val_bounds [OF dx(1)] ubig_val_bounds [OF dy(1)] by (auto simp: base_eq_exp power_mult)
  have p: "a * BP_BIGINT_BASE ^ m = push_bit (28 * m) a" for a :: int
    by (simp add: base_eq_exp push_bit_eq_mult power_mult)
  have v: "ubig_val n z' = iop (ubig_val n x) (ubig_val n y)"
    using iop_split [OF b, of "x ! m" "y ! m"] low u m by (simp add: ubig_val_Suc p)
  have t: "twos_digits n z'"
    using low u n m iop_range [OF dx(2,3) dy(2,3)] by (simp add: twos_digits_def BP_BIGINT_BASE_def)
  then show ?thesis by (simp add: twos_val_signed x y v signed_take_bit_iop)
qed

end

lemma zap_leading_zeros_above: "zap_leading_zeros n x \<le> k \<Longrightarrow> k < n \<Longrightarrow> x ! k = 0"
  by (induction n) (auto simp: less_Suc_eq split: if_splits)

lemma zap_leading_zeros_top: "0 < zap_leading_zeros n x \<Longrightarrow> x ! (zap_leading_zeros n x - Suc 0) \<noteq> 0"
  by (induction n) auto

lemma fill_loop_from_0:
  assumes "n \<le> length z"
  shows "length (for_loop 0 n (\<lambda>i z. z[i := g i]) z) = length z"
    "k < n \<Longrightarrow> for_loop 0 n (\<lambda>i z. z[i := g i]) z ! k = g k"
  using fill_loop [of 0 n 0 z "\<lambda>i z. z[i := g i]" g] assms by auto

lemma fill_loop_zap:
  "zap_leading_zeros n (for_loop 0 n (\<lambda>i z. z[i := g i]) z) \<le> k \<Longrightarrow> k < n \<Longrightarrow> n \<le> length z \<Longrightarrow>
   g k = 0"
  using zap_leading_zeros_above fill_loop_from_0(2) [of n z k g] by metis

interpretation and_routine: digit_routine "(AND)" "(\<and>)" bp_and_ubig_ubig
  by unfold_locales
    (auto simp: bp_and_ubig_ubig_def Let_def fill_loop_from_0 zap_leading_zeros_le zap_leading_zeros_top
       dest: fill_loop_zap)

interpretation or_routine: digit_routine "(OR)" "(\<or>)" bp_or_ubig_ubig
  by unfold_locales (auto simp: bp_or_ubig_ubig_def fill_loop_from_0 or_eq_0_iff)

interpretation xor_routine: digit_routine "(XOR)" "(\<noteq>)" bp_xor_ubig_ubig
  by unfold_locales
    (auto simp: bp_xor_ubig_ubig_def Let_def fill_loop_from_0 zap_leading_zeros_le zap_leading_zeros_top
       dest: fill_loop_zap)


section \<open>Two's complement\<close>

lemma not_digit: "NOT d AND MASK_LOW28 = (- d - 1) mod BP_BIGINT_BASE"
proof -
  have "NOT d AND MASK_LOW28 = take_bit 28 (NOT d)"
    by (simp add: take_bit_eq_mask mask_numeral and.commute)
  then show ?thesis by (simp add: take_bit_eq_mod base_eq_exp not_int_def)
qed

lemma not_digit_low: "0 \<le> d \<Longrightarrow> d < BP_BIGINT_BASE \<Longrightarrow> NOT d AND MASK_LOW28 = BP_BIGINT_BASE - 1 - d"
  unfolding not_digit by (rule int_mod_pos_eq [where q = "-1"]) auto

lemma not_digit_sign:
  "BP_BIGINT_BASE \<le> d \<Longrightarrow> d < 2 * BP_BIGINT_BASE \<Longrightarrow>
   NOT d AND MASK_LOW28 = 2 * BP_BIGINT_BASE - 1 - d"
  unfolding not_digit by (rule int_mod_pos_eq [where q = "-2"]) auto

lemma not_loop:
  assumes "n \<le> length x"
  defines "x' \<equiv> for_loop 0 n (\<lambda>i x. x[i := NOT (x ! i) AND MASK_LOW28]) x"
  shows "length x' = length x" "k < n \<Longrightarrow> x' ! k = NOT (x ! k) AND MASK_LOW28"
  unfolding x'_def
  using fill_loop [of 0 n 0 x "\<lambda>i x. x[i := NOT (x ! i) AND MASK_LOW28]"
      "\<lambda>j. NOT (x ! j) AND MASK_LOW28"] assms(1) by auto

lemma complement_digits:
  assumes "digits_ok n x" "n \<le> length x'" "\<And>k. k < n \<Longrightarrow> x' ! k = NOT (x ! k) AND MASK_LOW28"
  shows "digits_ok n x' \<and> ubig_val n x' = BP_BIGINT_BASE ^ n - 1 - ubig_val n x"
  using assms
proof (induction n)
  case 0
  then show ?case by simp
next
  case (Suc n)
  have "digits_ok n x" using Suc.prems(1) by (rule digits_ok_le) simp
  then have IH: "digits_ok n x'" "ubig_val n x' = BP_BIGINT_BASE ^ n - 1 - ubig_val n x"
    using Suc by auto
  have d: "0 \<le> x ! n" "x ! n < BP_BIGINT_BASE" using digits_okD [OF Suc.prems(1), of n] by auto
  have n: "x' ! n = BP_BIGINT_BASE - 1 - x ! n"
    using Suc.prems(3) [of n] not_digit_low [OF d] by simp
  have "digits_ok (Suc n) x'"
    using IH(1) Suc.prems(2) d n by (auto simp: digits_ok_def less_Suc_eq)
  moreover have "ubig_val (Suc n) x' = BP_BIGINT_BASE ^ Suc n - 1 - ubig_val (Suc n) x"
    unfolding ubig_val_Suc IH(2) n by (simp add: algebra_simps)
  ultimately show ?case by simp
qed

lemma onescomplement_twos:
  assumes x: "twos_digits n x" and neg: "BP_BIGINT_BASE \<le> x ! (n - 1)"
    and res: "bp_onescomplement_ubig n x = (zsize, z)"
  shows "normal_ubig zsize z \<and> ubig_val zsize z = 2 * BP_BIGINT_BASE ^ n - 1 - ubig_val n x
     \<and> length z = length x \<and> zsize \<le> n"
proof -
  obtain m where n: "n = Suc m" and d: "digits_ok m x" and t: "x ! m < 2 * BP_BIGINT_BASE" "m < length x"
    using x by (rule twos_digitsE)
  define x' where "x' = for_loop 0 n (\<lambda>i x. x[i := NOT (x ! i) AND MASK_LOW28]) x"
  have x': "length x' = length x" "\<And>k. k < n \<Longrightarrow> x' ! k = NOT (x ! k) AND MASK_LOW28"
    using not_loop [of n x] t n by (auto simp: x'_def)
  have low: "digits_ok m x'" "ubig_val m x' = BP_BIGINT_BASE ^ m - 1 - ubig_val m x"
    using complement_digits [OF d, of x'] x' t n by auto
  have top: "x' ! m = 2 * BP_BIGINT_BASE - 1 - x ! m"
    using x'(2) [of m] not_digit_sign [of "x ! m"] neg t n by simp
  have "digits_ok n x'"
    using low(1) top neg t n x'(1) by (auto simp: digits_ok_def less_Suc_eq)
  moreover have "ubig_val n x' = 2 * BP_BIGINT_BASE ^ n - 1 - ubig_val n x"
    unfolding n ubig_val_Suc low(2) top by (simp add: algebra_simps)
  moreover have "zsize = zap_leading_zeros n x'" "z = x'"
    using res by (auto simp: bp_onescomplement_ubig_def x'_def Let_def)
  ultimately show ?thesis
    using x'(1) by (simp add: zap_leading_zeros_normal zap_leading_zeros_le)
qed

lemma onescomplement_plain:
  assumes d: "digits_ok n x" and res: "bp_onescomplement_ubig n x = (zsize, z)"
  shows "normal_ubig zsize z \<and> ubig_val zsize z = BP_BIGINT_BASE ^ n - 1 - ubig_val n x
     \<and> length z = length x \<and> zsize \<le> n"
proof -
  define x' where "x' = for_loop 0 n (\<lambda>i x. x[i := NOT (x ! i) AND MASK_LOW28]) x"
  have x': "length x' = length x" "\<And>k. k < n \<Longrightarrow> x' ! k = NOT (x ! k) AND MASK_LOW28"
    using not_loop [of n x] digits_ok_length [OF d] by (auto simp: x'_def)
  have "digits_ok n x' \<and> ubig_val n x' = BP_BIGINT_BASE ^ n - 1 - ubig_val n x"
    by (rule complement_digits [OF d]) (use x' digits_ok_length [OF d] in auto)
  moreover have "zsize = zap_leading_zeros n x'" "z = x'"
    using res by (auto simp: bp_onescomplement_ubig_def x'_def Let_def)
  ultimately show ?thesis
    using x'(1) by (simp add: zap_leading_zeros_normal zap_leading_zeros_le)
qed

lemma twoscomplement_ubig_correct:
  assumes d: "digits_ok n x" and pos: "0 < ubig_val n x"
  defines "z \<equiv> bp_twoscomplement_ubig n x"
  shows "twos_digits n z \<and> twos_val n z = - ubig_val n x \<and> BP_BIGINT_BASE \<le> z ! (n - 1)
     \<and> length z = length x"
proof -
  have n0: "0 < n" using pos by (cases n) auto
  then obtain m where n: "n = Suc m" by (cases n) auto
  have len: "n \<le> length x" using d by (rule digits_ok_length)
  define x' where "x' = for_loop 0 n (\<lambda>i x. x[i := NOT (x ! i) AND MASK_LOW28]) x"
  have x': "length x' = length x" "\<And>k. k < n \<Longrightarrow> x' ! k = NOT (x ! k) AND MASK_LOW28"
    using not_loop [of n x] len by (auto simp: x'_def)
  have c: "digits_ok n x'" "ubig_val n x' = BP_BIGINT_BASE ^ n - 1 - ubig_val n x"
    using complement_digits [OF d, of x'] x' len by auto
  let ?f = "\<lambda>i (x, carry). let (v, carry) = bigint_compute_carry_val (x ! i + carry)
                              in (x[i := v], carry)"
  let ?g = "\<lambda>i (x, carry). let (v, carry) = bigint_compute_carry_val (x ! i + 1)
                              in (x[i := v], carry)"
  obtain i x2 c2 where l: "for_while 0 n (\<lambda>(x, carry). carry = 1) ?f (x', 1) = (i, x2, c2)"
    by (rule prod_cases3)
  have fg: "for_while 0 n (\<lambda>(x, carry). carry = 1) ?f (x', 1)
      = for_while 0 n (\<lambda>(x, carry). carry = 1) ?g (x', 1)"
    by (rule for_while_cong_inv [where P = "\<lambda>_ _. True"]) auto
  have c0: "carry_inv (length x') (\<lambda>j. 1 + ubig_val j x') 0 (x', 1)" by (simp add: carry_inv_def)
  have lx: "n \<le> length x'" using len x' by simp
  have u0: "unchanged_from 0 x' x'" by (simp add: unchanged_from_def)
  have l': "for_while 0 n (\<lambda>(z, carry). carry = 1) (\<lambda>i (z, carry).
      let (v, carry) = bigint_compute_carry_val (x' ! i + 1) in (z[i := v], carry)) (x', 1) = (i, x2, c2)"
    using l inc_loop_reads_operand [OF u0, of n 1] unfolding fg by simp
  note ci = carry_ripple [OF c0 _ lx c(1) l']
  note u2 = carry_loop_unchanged [OF u0 _ l']
  have "c2 \<noteq> 1"
  proof
    assume "c2 = 1"
    with ci have "i = n" "ubig_val n x2 + BP_BIGINT_BASE ^ n = 1 + ubig_val n x'" "digits_ok n x2"
      by (auto simp: carry_inv_def)
    with c(2) pos ubig_val_nonneg [of n x2] show False by linarith
  qed
  with ci have w: "digits_ok i x2" "length x2 = length x'" "ubig_val i x2 = 1 + ubig_val i x'" "i \<le> n"
    by (auto simp: carry_inv_def)
  have x2: "digits_ok n x2" "ubig_val n x2 = BP_BIGINT_BASE ^ n - ubig_val n x"
    using unchanged_tail_val [OF u2 w(1) c(1) w(4)] w(3) c(2) by auto
  have b: "0 \<le> x2 ! m" "x2 ! m < BP_BIGINT_BASE" using digits_okD [OF x2(1), of m] n by auto
  have "x2 ! m OR BP_BIGINT_BASE = x2 ! m + BP_BIGINT_BASE"
    using or_eq_plus_shift [of "x2 ! m" 28 1] b by (simp add: BP_BIGINT_BASE_def push_bit_eq_mult)
  then have z: "z = x2[m := x2 ! m + BP_BIGINT_BASE]"
    using l by (simp add: z_def bp_twoscomplement_ubig_def x'_def [symmetric]) (simp add: n)
  have lm: "m < length x2" using digits_ok_length [OF x2(1)] n by simp
  have "ubig_val n z = 2 * BP_BIGINT_BASE ^ n - ubig_val n x"
    using x2(2) lm by (simp add: z n ubig_val_Suc algebra_simps)
  moreover have "twos_digits n z \<and> BP_BIGINT_BASE \<le> z ! (n - 1)"
    using digits_ok_le [OF x2(1), of m] b lm by (auto simp: twos_digits_def z n digits_ok_def)
  ultimately show ?thesis using w(2) x'(1) by (simp add: twos_val_def) (simp add: z)
qed


text \<open>Where a decrement stops: the lowest non-zero digit.\<close>

definition dec_at :: "nat \<Rightarrow> ubigint \<Rightarrow> nat \<Rightarrow> ubigint \<Rightarrow> bool" where
  "dec_at i x n z \<longleftrightarrow> i < n \<and> (\<forall>k<i. x ! k = 0 \<and> z ! k = BP_BIGINT_BASE - 1) \<and> 0 < x ! i \<and>
     z ! i = x ! i - 1 \<and> (\<forall>k>i. z ! k = x ! k)"

lemma dec_at_exists:
  assumes len: "n \<le> length x" and nn: "\<And>k. k < n \<Longrightarrow> 0 \<le> x ! k" and pos: "0 < ubig_val n x"
    and res: "bp_dec_ubig n x = (s, z)"
  shows "(\<exists>i. dec_at i x n z) \<and> s = zap_leading_zeros n z \<and> length z = length x"
proof -
  have n: "1 \<le> n" using pos by (cases n) auto
  let ?P = "\<lambda>k (z, b). length z = length x \<and> (b = 1 \<longrightarrow>
      (\<forall>j<k. x ! j = 0 \<and> z ! j = BP_BIGINT_BASE - 1) \<and> (\<forall>j\<ge>k. z ! j = x ! j)) \<and>
      (b \<noteq> 1 \<longrightarrow> (\<exists>i. dec_at i x n z))"
  obtain v b where v: "bigint_compute_borrow_val (x ! 0 - 1) = (v, b)" by fastforce
  obtain i z2 b2 where l: "for_while 1 n (\<lambda>(y, borrow). borrow = 1)
             (\<lambda>i (y, borrow). let (v, borrow) = bigint_compute_borrow_val (y ! i - 1)
                               in (y[i := v], borrow)) (x[0 := v], b) = (i, z2, b2)"
    by (rule prod_cases3)
  have x0: "0 \<le> x ! 0" using nn n by simp
  have l0: "0 < length x" using n len by linarith
  have "?P 1 (x[0 := v], b)"
    using v x0 n l0
    by (auto simp: bigint_compute_borrow_val_def dec_at_def nth_list_update split: if_splits
        intro!: exI [of _ 0])
  moreover have step: "?P (Suc k) ((\<lambda>(y, borrow). let (v, borrow) = bigint_compute_borrow_val (y ! k - 1)
       in (y[k := v], borrow)) t)" if k: "1 \<le> k" "k < n" "(\<lambda>(y, borrow). borrow = 1) t" "?P k t" for k t
  proof -
    obtain y where t: "t = (y, 1)" using k(3) by (cases t) auto
    have y: "length y = length x" "\<forall>j<k. x ! j = 0 \<and> y ! j = BP_BIGINT_BASE - 1" "\<forall>j\<ge>k. y ! j = x ! j"
      using k(4) by (auto simp: t)
    have yk: "y ! k = x ! k" "0 \<le> x ! k" using y nn k by auto
    show ?thesis
    proof (cases "x ! k = 0")
      case True
      then show ?thesis
        using y yk k len by (auto simp: t bigint_compute_borrow_val_def nth_list_update less_Suc_eq)
    next
      case False
      have "dec_at k x n (y[k := x ! k - 1])"
        using y yk k len False by (auto simp: dec_at_def nth_list_update)
      then show ?thesis
        using y yk False by (auto simp: t bigint_compute_borrow_val_def)
    qed
  qed
  ultimately have "?P i (z2, b2) \<and> 1 \<le> i \<and> i \<le> n \<and> (i = n \<or> \<not> (\<lambda>(y, borrow). borrow = 1) (z2, b2))"
    using n by (intro for_while_rule [where P = ?P, OF _ _ step l]) auto
  moreover have "\<not> (\<forall>j<n. x ! j = 0)"
  proof
    assume "\<forall>j<n. x ! j = 0"
    then have "ubig_val n x = 0" by (simp add: ubig_val_def)
    with pos show False by simp
  qed
  ultimately have "length z2 = length x" "\<exists>i. dec_at i x n z2" by auto
  moreover have "s = zap_leading_zeros n z2" "z = z2"
    using res l v by (auto simp: bp_dec_ubig_def)
  ultimately show ?thesis by simp
qed

lemma dec_at_val:
  assumes "dec_at i x n z"
  shows "ubig_val n z = ubig_val n x - 1"
proof -
  from assms have i: "i < n" "\<And>k. k < i \<Longrightarrow> x ! k = 0 \<and> z ! k = BP_BIGINT_BASE - 1" "z ! i = x ! i - 1"
      "\<And>k. Suc i \<le> k \<Longrightarrow> k < n \<Longrightarrow> z ! k = x ! k"
    by (auto simp: dec_at_def)
  have "k \<le> i \<Longrightarrow> ubig_val k x = 0 \<and> ubig_val k z = BP_BIGINT_BASE ^ k - 1" for k
    by (induction k) (auto simp: ubig_val_Suc i(2) algebra_simps)
  from this [of i] have "ubig_val (Suc i) z = ubig_val (Suc i) x - 1"
    by (simp add: ubig_val_Suc i(3) algebra_simps)
  with ubig_val_tail_eq [of "Suc i" n z x] i(1,4) show ?thesis by simp
qed

lemma dec_at_digit: "dec_at i x n z \<Longrightarrow> 0 \<le> x ! k \<Longrightarrow> 0 \<le> z ! k \<and> (z ! k < BP_BIGINT_BASE \<or> z ! k \<le> x ! k)"
  by (cases k i rule: linorder_cases) (auto simp: dec_at_def)

text \<open>The magnitude of a negative number, from its two's complement.\<close>

lemma twoscomplement_magnitude_correct:
  assumes x: "twos_digits n x" and neg: "BP_BIGINT_BASE \<le> x ! (n - 1)"
    and res: "bp_twoscomplement_magnitude n x = (zsize, z)"
  shows "normal_ubig zsize z \<and> zsize \<le> n \<and> length z = length x \<and>
    ubig_val zsize z = (if twos_val n x = - (BP_BIGINT_BASE ^ n) then 0 else - twos_val n x)"
proof -
  obtain m where n: "n = Suc m" and d: "digits_ok m x" "0 \<le> x ! m" "x ! m < 2 * BP_BIGINT_BASE" "m < length x"
    using x by (rule twos_digitsE)
  have nn: "0 \<le> x ! k" if "k < n" for k
    using d digits_okD [OF d(1), of k] that by (auto simp: n less_Suc_eq)
  have V: "BP_BIGINT_BASE ^ n \<le> ubig_val n x" using twos_bounds(3) [OF x] neg by simp
  have P: "0 < BP_BIGINT_BASE ^ n" by (rule zero_less_power) simp
  obtain s y where dec: "bp_dec_ubig n x = (s, y)" by fastforce
  have "n \<le> length x" "0 < ubig_val n x" using d(4) n V P by linarith+
  from dec_at_exists [OF this(1) nn this(2) dec] obtain i where i: "dec_at i x n y"
      and s: "s = zap_leading_zeros n y" "length y = length x" by blast
  note vy = dec_at_val [OF i]
  have low: "digits_ok m y"
    using d(4) s(2) digits_okD [OF d(1)] dec_at_digit [OF i] by (fastforce simp: digits_ok_def)
  have top: "0 \<le> y ! m" "y ! m < 2 * BP_BIGINT_BASE"
    using dec_at_digit [OF i, of m] d by auto
  have y: "twos_digits n y" using low top d(4) s(2) by (simp add: twos_digits_def n)
  obtain t w where ones: "bp_onescomplement_ubig s y = (t, w)" by fastforce
  have r: "zsize = zap_leading_zeros t w" "z = w"
    using res by (auto simp: bp_twoscomplement_magnitude_def dec ones)
  have ytop: "s = n" if "y ! m \<noteq> 0" using that by (simp add: s n)
  show ?thesis
  proof (cases "ubig_val n x = BP_BIGINT_BASE ^ n")
    case True
    then have vy': "ubig_val n y = BP_BIGINT_BASE ^ n - 1" using vy by simp
    then have "\<not> BP_BIGINT_BASE \<le> y ! (n - 1)" using twos_bounds(3) [OF y] by simp
    then have dn: "digits_ok n y" using low top s(2) d(4) by (auto simp: digits_ok_def n less_Suc_eq)
    have "y ! m \<noteq> 0"
    proof
      assume "y ! m = 0"
      then have "ubig_val n y < BP_BIGINT_BASE ^ m" using ubig_val_less [OF low] by (simp add: n ubig_val_Suc)
      moreover have "2 * BP_BIGINT_BASE ^ m \<le> BP_BIGINT_BASE * BP_BIGINT_BASE ^ m"
        by (rule mult_right_mono) (simp_all add: BP_BIGINT_BASE_def)
      moreover have "1 \<le> BP_BIGINT_BASE ^ m" by (rule one_le_power) simp
      ultimately show False using vy' unfolding n power_Suc by linarith
    qed
    then have "s = n" by (rule ytop)
    with onescomplement_plain [OF dn] ones vy' have w: "normal_ubig t w" "ubig_val t w = 0"
        "length w = length y" "t \<le> n" by auto
    then have "t = 0" using normal_ubig_zero by blast
    then show ?thesis using True w s(2) neg by (simp add: r twos_val_def)
  next
    case False
    then have "BP_BIGINT_BASE ^ n \<le> ubig_val n y" using vy V by simp
    then have ny: "BP_BIGINT_BASE \<le> y ! (n - 1)" using twos_bounds(3) [OF y] by simp
    then have "y ! m \<noteq> 0" using base_pos(1) unfolding n diff_Suc_1 by linarith
    then have "s = n" by (rule ytop)
    with onescomplement_twos [OF y ny] ones vy have w: "normal_ubig t w"
        "ubig_val t w = 2 * BP_BIGINT_BASE ^ n - ubig_val n x" "length w = length y" "t \<le> n" by auto
    have "digits_ok t w" using w(1) by (simp add: normal_ubig_def)
    then have "normal_ubig zsize z" "zsize \<le> t" "ubig_val zsize z = ubig_val t w"
      by (auto simp: r zap_leading_zeros_normal zap_leading_zeros_le)
    with w s(2) neg False show ?thesis by (simp add: twos_val_def r)
  qed
qed


section \<open>Shifts\<close>

definition shifted_digits :: "nat \<Rightarrow> ubigint \<Rightarrow> nat \<Rightarrow> ubigint" where
  "shifted_digits n x s = map (\<lambda>j. get_shifted_digit n x j s) [0..<Suc n]"

lemma shifted_digits:
  assumes "digits_ok n x" "s \<le> 27"
  shows "digits_ok (Suc n) (shifted_digits n x s)"
    "ubig_val (Suc n) (shifted_digits n x s) = ubig_val n x * 2 ^ s"
    "length (shifted_digits n x s) = Suc n"
    "k \<le> n \<Longrightarrow> shifted_digits n x s ! k = get_shifted_digit n x k s"
proof -
  show 1: "length (shifted_digits n x s) = Suc n"
    by (simp add: shifted_digits_def)
  show 2: "k \<le> n \<Longrightarrow> shifted_digits n x s ! k = get_shifted_digit n x k s" for k
    unfolding shifted_digits_def by (subst nth_map) (auto simp del: upt_Suc)
  show "digits_ok (Suc n) (shifted_digits n x s)"
    using gsd_bounds [OF assms(1) _ assms(2)] 1 2 by (auto simp: digits_ok_def less_Suc_eq_le)
  have "ubig_val (Suc n) (shifted_digits n x s) = shifted_val n x s (Suc n)"
    unfolding ubig_val_def shifted_val_def by (rule sum.cong) (auto simp: 2 less_Suc_eq_le)
  then show "ubig_val (Suc n) (shifted_digits n x s) = ubig_val n x * 2 ^ s"
    using shifted_val_full [OF assms] by simp
qed

lemma shifted_digits_top:
  assumes "normal_ubig n x" "0 < n" "s \<le> 27" "shifted_digits n x s ! n = 0"
  shows "shifted_digits n x s ! (n - 1) \<noteq> 0"
proof
  assume z: "shifted_digits n x s ! (n - 1) = 0"
  have dx: "digits_ok n x" using assms(1) by (simp add: normal_ubig_def)
  note S = shifted_digits [OF dx assms(3)]
  have "ubig_val (Suc n) (shifted_digits n x s) = ubig_val (n - 1) (shifted_digits n x s)"
    using ubig_val_top_zero [of "Suc n" "shifted_digits n x s"] assms(4)
      ubig_val_top_zero [OF assms(2), of "shifted_digits n x s"] z by simp
  also have "\<dots> < BP_BIGINT_BASE ^ (n - 1)"
    by (rule ubig_val_less) (rule digits_ok_le [OF S(1)], simp)
  finally have "ubig_val n x * 2 ^ s < BP_BIGINT_BASE ^ (n - 1)" by (simp add: S(2))
  moreover have "ubig_val n x * 1 \<le> ubig_val n x * 2 ^ s"
    using ubig_val_nonneg [OF dx] by (intro mult_left_mono) auto
  ultimately show False using normal_ubigD(2) [OF assms(1,2)] by linarith
qed

lemma base_power_shift: "BP_BIGINT_BASE ^ k = 2 ^ (28 * k)"
  by (simp add: base_eq_exp power_mult)

lemma bp_shiftl_ubig_int_correct:
  assumes nx: "normal_ubig n x" and n: "0 < n" and len: "n + y div 28 + 1 \<le> length z"
    and res: "bp_shiftl_ubig_int n x y z = (zsize, z')"
  shows "normal_ubig zsize z' \<and> ubig_val zsize z' = ubig_val n x * 2 ^ y \<and> length z' = length z
     \<and> zsize \<le> n + y div 28 + 1"
proof -
  let ?b = "y div 28" and ?s = "y mod 28"
  let ?S = "shifted_digits n x ?s"
  have dx: "digits_ok n x" using nx by (simp add: normal_ubig_def)
  have s: "?s \<le> 27" by simp
  note S = shifted_digits [OF dx s]
  define z1 where "z1 = for_loop 0 ?b (\<lambda>i z. z[i := 0]) z"
  define z2 where "z2 = for_loop 0 (n + 1) (\<lambda>j z. z[?b + j := get_shifted_digit n x j ?s]) z1"
  have z1: "length z1 = length z" "\<And>k. k < ?b \<Longrightarrow> z1 ! k = 0"
    using fill_loop_from_0 [where g = "\<lambda>_. 0" and n = ?b and z = z] len by (auto simp: z1_def)
  have f: "length z2 = length z1" "\<And>k. ?b \<le> k \<Longrightarrow> k < n + 1 + ?b \<Longrightarrow> z2 ! k = ?S ! (k - ?b)"
      "\<And>k. k < ?b \<Longrightarrow> z2 ! k = z1 ! k"
    unfolding z2_def
    using fill_loop [of 0 "n + 1" ?b z1 "\<lambda>j z. z[?b + j := get_shifted_digit n x j ?s]"
        "\<lambda>j. get_shifted_digit n x j ?s"] len z1(1) S(4)
    by (auto simp: add.commute)
  let ?K = "n + ?b + 1"
  have "ubig_val ?b z2 = 0" using f(3) z1(2) by (simp add: ubig_val_def)
  moreover have "ubig_val (Suc n) (drop ?b z2) = ubig_val (Suc n) ?S"
    using f len z1 by (intro ubig_val_cong) auto
  ultimately have "ubig_val ?K z2 = BP_BIGINT_BASE ^ ?b * (ubig_val n x * 2 ^ ?s)"
    using ubig_val_split [of ?b ?K z2] len f(1) z1(1) S(2) by simp
  also have "\<dots> = ubig_val n x * (2 ^ (28 * ?b + ?s))"
    by (simp only: base_power_shift power_add mult.assoc mult.left_commute)
  finally have val: "ubig_val ?K z2 = ubig_val n x * 2 ^ y" by simp
  have dz: "digits_ok ?K z2"
    unfolding digits_ok_def
  proof (intro conjI allI impI)
    show "?K \<le> length z2" using len f(1) z1(1) by simp
    fix k assume "k < ?K"
    then show "0 \<le> z2 ! k" "z2 ! k < BP_BIGINT_BASE"
      using f z1(2) digits_okD [OF S(1), of "k - ?b"] by (cases "k < ?b"; auto)+
  qed
  have top: "z2 ! (?K - 1) = ?S ! n" "z2 ! (?K - 2) = ?S ! (n - 1)" using f n by auto
  have r: "zsize = (if z2 ! (?K - 1) = 0 then ?K - 1 else ?K)" "z' = z2"
    using res by (auto simp: bp_shiftl_ubig_int_def Let_def z1_def z2_def)
  have "ubig_val zsize z2 = ubig_val ?K z2" using ubig_val_top_zero [of ?K z2] by (simp add: r)
  moreover have "normal_ubig zsize z2"
    using digits_ok_le [OF dz, of zsize] shifted_digits_top [OF nx n s] top n
    by (auto simp: normal_ubig_def r numeral_2_eq_2)
  ultimately show ?thesis using val f(1) z1(1) by (auto simp: r)
qed


text \<open>
  A right shift by \<open>y\<close> is a left shift by \<open>s\<close> bits followed by dropping \<open>b\<close> digits, with
  \<open>28 * b = y + s\<close>.
\<close>

lemma shift_split:
  fixes y :: nat
  defines "b \<equiv> (y + 27) div 28"
  shows "28 * b = y + (28 * b - y)" "28 * b - y \<le> 27" "0 < y \<Longrightarrow> 0 < b"
  unfolding b_def by linarith+

lemma drop_digits_div:
  assumes "digits_ok n x" "b \<le> n"
  shows "ubig_val (n - b) (drop b x) = ubig_val n x div BP_BIGINT_BASE ^ b"
proof -
  have "0 \<le> ubig_val b x" "ubig_val b x < BP_BIGINT_BASE ^ b"
    using ubig_val_bounds [OF digits_ok_le [OF assms]] by auto
  then show ?thesis
    using ubig_val_split [OF assms(2) digits_ok_length [OF assms(1)]] by simp
qed

lemma shifted_drop_val:
  assumes d: "digits_ok n x" and b: "b = (y + 27) div 28" "b \<le> n"
  shows "ubig_val (Suc n - b) (drop b (shifted_digits n x (28 * b - y))) = ubig_val n x div 2 ^ y"
proof -
  let ?s = "28 * b - y"
  have sb: "28 * b = y + ?s" "?s \<le> 27" using shift_split [of y] b by auto
  note S = shifted_digits [OF d sb(2)]
  have "ubig_val (Suc n - b) (drop b (shifted_digits n x ?s)) = (ubig_val n x * 2 ^ ?s) div BP_BIGINT_BASE ^ b"
    using drop_digits_div [OF S(1), of b] S(2) b(2) by simp
  also have "BP_BIGINT_BASE ^ b = 2 ^ y * 2 ^ ?s"
    unfolding base_power_shift by (subst (1) sb(1)) (rule power_add)
  finally show ?thesis by simp
qed

lemma shift_loop:
  fixes x z :: ubigint
  assumes "b \<le> n" "n + 1 - b \<le> length z" "s = 28 * b - y"
  defines "z' \<equiv> for_loop b (n + 1) (\<lambda>j z. z[j - b := get_shifted_digit n x j s]) z"
  shows "length z' = length z" "k \<le> n - b \<Longrightarrow> z' ! k = get_shifted_digit n x (k + b) s"
  unfolding z'_def
  using fill_loop [of b "n + 1" 0 z "\<lambda>j z. z[j - b := get_shifted_digit n x j s]"
      "\<lambda>j. get_shifted_digit n x j s"] assms(1,2) by auto

lemma bp_shiftr_ubig_int_correct:
  assumes nx: "normal_ubig n x" and n: "0 < n" and y: "0 < y" and len: "n \<le> length z"
    and res: "bp_shiftr_ubig_int n x y z = (zsize, z')"
  shows "normal_ubig zsize z' \<and> ubig_val zsize z' = ubig_val n x div 2 ^ y \<and> length z' = length z
     \<and> zsize \<le> n"
proof -
  define b where "b = (y + 27) div 28"
  let ?s = "28 * b - y"
  have sb: "28 * b = y + ?s" "?s \<le> 27" "0 < b" using shift_split [of y] y by (auto simp: b_def)
  have dx: "digits_ok n x" using nx by (simp add: normal_ubig_def)
  show ?thesis
  proof (cases "n + 1 \<le> b")
    case True
    then have r: "zsize = 0" "z' = z" using res by (auto simp: bp_shiftr_ubig_int_def Let_def b_def)
    have "28 * n \<le> y" using True sb by linarith
    then have "(2::int) ^ (28 * n) \<le> 2 ^ y" by (rule power_increasing) simp
    then have "ubig_val n x < 2 ^ y" using ubig_val_less [OF dx] unfolding base_power_shift by linarith
    then have "ubig_val n x div 2 ^ y = 0" using ubig_val_nonneg [OF dx] by simp
    then show ?thesis using r by (simp add: normal_ubig_def)
  next
    case False
    then have b: "b \<le> n" by simp
    note S = shifted_digits [OF dx sb(2)]
    define z1 where "z1 = for_loop b (n + 1) (\<lambda>j z. z[j - b := get_shifted_digit n x j ?s]) z"
    have "n + 1 - b \<le> length z" using len sb(3) b by linarith
    note f = shift_loop [where x = x and y = y, OF b this refl, folded z1_def]
    let ?K = "n + 1 - b"
    have at: "z1 ! k = shifted_digits n x ?s ! (k + b)" if "k < ?K" for k
      using f(2) [of k] S(4) [of "k + b"] that b by simp
    have "ubig_val ?K z1 = ubig_val ?K (drop b (shifted_digits n x ?s))"
      using at S(3) b by (intro ubig_val_cong) (simp add: add.commute)
    then have val: "ubig_val ?K z1 = ubig_val n x div 2 ^ y"
      using shifted_drop_val [OF dx b_def b] by simp
    have dz: "digits_ok ?K z1"
      using at digits_okD [OF S(1)] f(1) \<open>n + 1 - b \<le> length z\<close> by (auto simp: digits_ok_def)
    have r: "zsize = (if z1 ! (?K - 1) = 0 then ?K - 1 else ?K)" "z' = z1"
      using res False by (auto simp: bp_shiftr_ubig_int_def Let_def z1_def b_def)
    have K: "0 < ?K" using b by simp
    have "ubig_val zsize z1 = ubig_val ?K z1" using ubig_val_top_zero [OF K] by (simp add: r)
    moreover have "normal_ubig zsize z1"
    proof -
      have "z1 ! (?K - 2) \<noteq> 0" if "z1 ! (?K - 1) = 0" "0 < ?K - 1"
        using shifted_digits_top [OF nx n sb(2)] at [of "?K - 1"] at [of "?K - 2"] that b
        by (simp add: numeral_2_eq_2)
      then show ?thesis
        using digits_ok_le [OF dz, of zsize] K by (auto simp: normal_ubig_def r numeral_2_eq_2)
    qed
    ultimately show ?thesis using val f(1) sb(3) by (auto simp: r)
  qed
qed


text \<open>
  The digit with the sign bit: the bits that the shift moves in from the sign are ones.
\<close>

lemma sign_digit_shift:
  assumes "0 \<le> d" "d < BP_BIGINT_BASE" "s \<le> 27"
  shows "(if s = 0 then 0 else drop_bit (28 - s) (d + BP_BIGINT_BASE))
           OR push_bit s (drop_bit s MASK_LOW28)
       = (d * 2 ^ s) div BP_BIGINT_BASE + BP_BIGINT_BASE - 2 ^ s"
proof -
  have B: "BP_BIGINT_BASE = 2 ^ (28 - s) * 2 ^ s"
    using assms(3) by (simp add: base_eq_exp flip: power_add)
  have "d * 2 ^ s < 2 ^ s * BP_BIGINT_BASE" using assms(2) by (simp add: mult.commute)
  then have hi: "0 \<le> (d * 2 ^ s) div BP_BIGINT_BASE" "(d * 2 ^ s) div BP_BIGINT_BASE < 2 ^ s"
    using assms(1) by (auto simp: pos_imp_zdiv_nonneg_iff int_div_less)
  have "drop_bit s MASK_LOW28 = drop_bit s (mask 28 :: int)" by (simp add: mask_numeral)
  also have "\<dots> = mask (28 - s)" by (rule bit_eqI) (auto simp: bit_simps)
  finally have m: "drop_bit s MASK_LOW28 = (mask (28 - s) :: int)" .
  then have ones: "push_bit s (drop_bit s MASK_LOW28) = BP_BIGINT_BASE - 2 ^ s"
    by (simp add: m mask_eq_exp_minus_1 push_bit_eq_mult B algebra_simps)
  have e: "(d * 2 ^ s) div BP_BIGINT_BASE = drop_bit (28 - s) d"
    by (simp add: drop_bit_eq_div B)
  have "(if s = 0 then 0 else drop_bit (28 - s) (d + BP_BIGINT_BASE)) OR push_bit s (mask (28 - s))
      = drop_bit (28 - s) d OR push_bit s (mask (28 - s))"
  proof (cases "s = 0")
    case True
    have "d div 2 ^ 28 = 0" using assms by (simp add: base_eq_exp)
    with True show ?thesis by (simp add: drop_bit_eq_div)
  next
    case False
    have "d + BP_BIGINT_BASE = d OR BP_BIGINT_BASE"
      using or_eq_plus_shift [of d 28 1] assms by (simp add: base_eq_exp)
    moreover have "drop_bit (28 - s) BP_BIGINT_BASE = push_bit s 1"
      by (simp add: drop_bit_eq_div B push_bit_eq_mult)
    ultimately have "drop_bit (28 - s) (d + BP_BIGINT_BASE) = drop_bit (28 - s) d OR push_bit s 1"
      by (metis drop_bit_or)
    moreover have "push_bit s 1 OR push_bit s (mask (28 - s)) = (push_bit s (mask (28 - s)) :: int)"
    proof -
      have "1 OR mask (28 - s) = (mask (28 - s) :: int)"
        by (rule bit_eqI) (use assms(3) in \<open>auto simp: bit_or_iff bit_1_iff bit_mask_iff\<close>)
      then show ?thesis by (simp only: push_bit_or [symmetric])
    qed
    ultimately show ?thesis using False by (simp add: or.assoc)
  qed
  also have "\<dots> = (d * 2 ^ s) div BP_BIGINT_BASE + push_bit s (mask (28 - s))"
    using or_eq_plus_shift [OF hi, of "mask (28 - s)"] by (simp add: e)
  finally show ?thesis using ones by (simp add: m)
qed

lemma gsd_sign_low:
  assumes "j < n" "0 < n" "n \<le> length x" "digits_ok (n - 1) x" "BP_BIGINT_BASE \<le> x ! (n - 1)" "s \<le> 27"
  shows "get_shifted_digit n x j s = get_shifted_digit n (x[n - 1 := x ! (n - 1) - BP_BIGINT_BASE]) j s"
proof -
  have "push_bit s a AND MASK_LOW28 = push_bit s (a - BP_BIGINT_BASE) AND MASK_LOW28" for a :: int
  proof -
    have m: "c AND MASK_LOW28 = take_bit 28 c" for c :: int
      by (simp add: take_bit_eq_mask mask_numeral)
    have "push_bit s a = push_bit s (a - BP_BIGINT_BASE) + 2 ^ s * 2 ^ 28"
      by (simp add: push_bit_eq_mult base_eq_exp algebra_simps)
    then show ?thesis unfolding m take_bit_eq_mod by simp
  qed
  with assms show ?thesis by (auto simp: get_shifted_digit_def nth_list_update Let_def)
qed


lemma ones_loop_val:
  assumes "p \<le> n" "n \<le> length z" "digits_ok p z"
  defines "z' \<equiv> for_loop p n (\<lambda>j z. z[j := MASK_LOW28]) z"
  shows "digits_ok n z' \<and> ubig_val n z' = ubig_val p z + BP_BIGINT_BASE ^ n - BP_BIGINT_BASE ^ p
     \<and> length z' = length z"
proof -
  have m: "MASK_LOW28 = BP_BIGINT_BASE - 1" by (simp add: BP_BIGINT_BASE_def)
  let ?P = "\<lambda>j t. length t = length z \<and> digits_ok j t \<and>
    ubig_val j t = ubig_val p z + BP_BIGINT_BASE ^ j - BP_BIGINT_BASE ^ p"
  have "?P n (for_loop p n (\<lambda>j z. z[j := BP_BIGINT_BASE - 1]) z)"
    by (rule for_loop_rule [where P = ?P])
      (use assms(1-3) in \<open>auto simp: digits_ok_snoc algebra_simps\<close>)
  then show ?thesis unfolding z'_def m by simp
qed

lemma set_sign_bit:
  assumes "digits_ok n z" "0 < n"
  defines "z' \<equiv> z[n - 1 := z ! (n - 1) OR BP_BIGINT_BASE]"
  shows "twos_digits n z' \<and> BP_BIGINT_BASE \<le> z' ! (n - 1) \<and>
     twos_val n z' = ubig_val n z - BP_BIGINT_BASE ^ n \<and> length z' = length z"
proof -
  obtain m where n: "n = Suc m" using assms(2) by (cases n) auto
  have b: "0 \<le> z ! m" "z ! m < BP_BIGINT_BASE" "m < length z"
    using digits_okD [OF assms(1), of m] digits_ok_length [OF assms(1)] n by auto
  have "z ! m OR BP_BIGINT_BASE = z ! m + BP_BIGINT_BASE"
    using or_eq_plus_shift [of "z ! m" 28 1] b by (simp add: BP_BIGINT_BASE_def push_bit_eq_mult)
  then have z': "z' = z[m := z ! m + BP_BIGINT_BASE]" by (simp add: z'_def n)
  have "digits_ok m z'" using digits_ok_le [OF assms(1), of m] n by (auto simp: z' digits_ok_def)
  moreover have "ubig_val n z' = ubig_val n z + BP_BIGINT_BASE ^ n"
    using b(3) by (simp add: z' n ubig_val_Suc algebra_simps)
  ultimately show ?thesis using b by (simp add: twos_digits_def twos_val_def z' n)
qed

lemma bp_shiftr_twoscomplement_int_correct:
  assumes x: "twos_digits n x" and neg: "BP_BIGINT_BASE \<le> x ! (n - 1)" and y: "0 < y"
    and len: "n \<le> length z" and res: "bp_shiftr_twoscomplement_int n x y z = (zsize, z')"
  shows "zsize = n \<and> twos_digits n z' \<and> BP_BIGINT_BASE \<le> z' ! (n - 1) \<and>
     twos_val n z' = twos_val n x div 2 ^ y \<and> length z' = length z"
proof -
  define b where "b = (y + 27) div 28"
  let ?s = "28 * b - y"
  have sb: "28 * b = y + ?s" "?s \<le> 27" "0 < b" using shift_split [of y] y by (auto simp: b_def)
  obtain m where n: "n = Suc m" and d: "digits_ok m x" "x ! m < 2 * BP_BIGINT_BASE" "m < length x"
    using x by (rule twos_digitsE)
  have n0: "0 < n" by (simp add: n)
  define x0 where "x0 = x[m := x ! m - BP_BIGINT_BASE]"
  have x0: "digits_ok n x0" "ubig_val n x0 = twos_val n x + BP_BIGINT_BASE ^ n"
    using d neg by (auto simp: x0_def n twos_val_def ubig_val_Suc algebra_simps intro!: digits_ok_snoc)
  show ?thesis
  proof (cases "b \<le> n")
    case False
    have "28 * n \<le> y" using False sb by linarith
    then have "(2::int) ^ (28 * n) \<le> 2 ^ y" by (rule power_increasing) simp
    then have "0 \<le> twos_val n x + 2 ^ y" "twos_val n x + 2 ^ y < 2 ^ y"
      using twos_val_range [OF x] ubig_val_less [OF x0(1)] x0(2) unfolding base_power_shift
      by linarith+
    then have "twos_val n x div 2 ^ y = - 1"
      by (intro int_div_pos_eq [where r = "twos_val n x + 2 ^ y"]) simp_all
    moreover define z1 where "z1 = for_loop 0 n (\<lambda>j z. z[j := MASK_LOW28]) z"
    have z1: "digits_ok n z1" "ubig_val n z1 = BP_BIGINT_BASE ^ n - 1" "length z1 = length z"
      using ones_loop_val [of 0 n z] len by (auto simp: z1_def)
    moreover have "zsize = n" "z' = z1[n - 1 := z1 ! (n - 1) OR BP_BIGINT_BASE]"
      using res False by (auto simp: bp_shiftr_twoscomplement_int_def Let_def z1_def b_def)
    ultimately show ?thesis using set_sign_bit [OF z1(1) n0] by simp
  next
    case True
    note S = shifted_digits [OF x0(1) sb(2)]
    let ?S = "shifted_digits n x0 ?s"
    define p where "p = n - b"
    have p: "p + b = n" "p < n" using True sb(3) n0 by (auto simp: p_def)
    define z1 where "z1 = for_loop b (n + 1) (\<lambda>j z. z[j - b := get_shifted_digit n x j ?s]) z"
    have "n + 1 - b \<le> length z" using len sb(3) True by linarith
    note f = shift_loop [where x = x and y = y, OF True this refl, folded z1_def]
    have low: "z1 ! k = ?S ! (k + b)" if "k < p" for k
      using f(2) [of k] S(4) [of "k + b"] that p gsd_sign_low [of "k + b" n x ?s] d neg sb(2)
      by (simp add: n x0_def)
    have x0m: "0 \<le> x0 ! m" "x0 ! m < BP_BIGINT_BASE" "x ! m = x0 ! m + BP_BIGINT_BASE"
      using digits_okD [OF x0(1), of m] d by (auto simp: n x0_def)
    define t where "t = z1 ! p OR push_bit ?s (drop_bit ?s MASK_LOW28)"
    have g: "?S ! n = (x0 ! m * 2 ^ ?s) div BP_BIGINT_BASE" "?S ! n < 2 ^ ?s" "0 \<le> ?S ! n"
      using gsd_eq [OF x0(1) order_refl sb(2)] S(4) [of n] by (auto simp: n)
    have "z1 ! p = (if ?s = 0 then 0 else drop_bit (28 - ?s) (x0 ! m + BP_BIGINT_BASE))"
      using f(2) [of p] p by (simp add: p_def [symmetric] get_shifted_digit_def n x0m(3))
    then have t: "t = ?S ! n + BP_BIGINT_BASE - 2 ^ ?s"
      using sign_digit_shift [OF x0m(1,2) sb(2)] g(1) by (simp add: t_def)
    have s28: "(2::int) ^ ?s \<le> BP_BIGINT_BASE" unfolding base_eq_exp using sb(2) by (intro power_increasing) auto
    define z2 where "z2 = z1[p := t]"
    have lz: "length z2 = length z" "p < length z" using f(1) p len by (auto simp: z2_def)
    have d2: "digits_ok (Suc p) z2"
      using low f(1) lz digits_okD [OF S(1)] p g s28 by (auto simp: z2_def digits_ok_def less_Suc_eq t)
    have "ubig_val p z2 = ubig_val p (drop b ?S)"
      using low S(3) p by (intro ubig_val_cong) (auto simp: z2_def add.commute)
    then have "ubig_val (Suc p) z2 = ubig_val (Suc p) (drop b ?S) + (BP_BIGINT_BASE - 2 ^ ?s) * BP_BIGINT_BASE ^ p"
      using lz S(3) p f(1) by (simp add: ubig_val_Suc z2_def t add.commute algebra_simps)
    also have "ubig_val (Suc p) (drop b ?S) = ubig_val n x0 div 2 ^ y"
      using shifted_drop_val [OF x0(1) b_def True] True by (simp add: p_def Suc_diff_le)
    finally have v2: "ubig_val (Suc p) z2 = ubig_val n x0 div 2 ^ y + (BP_BIGINT_BASE - 2 ^ ?s) * BP_BIGINT_BASE ^ p" .
    have ys: "28 * n = y + (?s + 28 * p)" using sb(1) p by linarith
    have e: "BP_BIGINT_BASE ^ n = 2 ^ y * (2 ^ ?s * BP_BIGINT_BASE ^ p)"
      unfolding base_power_shift by (subst ys) (simp only: power_add)
    define z3 where "z3 = for_loop (Suc p) n (\<lambda>j z. z[j := MASK_LOW28]) z2"
    have z3: "digits_ok n z3" "length z3 = length z"
        "ubig_val n z3 = ubig_val n x0 div 2 ^ y - 2 ^ ?s * BP_BIGINT_BASE ^ p + BP_BIGINT_BASE ^ n"
      using ones_loop_val [of "Suc p" n z2] p d2 lz len v2 by (auto simp: z3_def algebra_simps)
    have r: "zsize = n" "z' = z3[n - 1 := z3 ! (n - 1) OR BP_BIGINT_BASE]"
      using res True
      by (auto simp: bp_shiftr_twoscomplement_int_def Let_def b_def p_def z1_def t_def z2_def z3_def)
    have "twos_val n x div 2 ^ y = ubig_val n x0 div 2 ^ y - 2 ^ ?s * BP_BIGINT_BASE ^ p"
    proof -
      have "twos_val n x = ubig_val n x0 + (- (2 ^ ?s * BP_BIGINT_BASE ^ p)) * 2 ^ y"
        using x0(2) e by simp
      moreover have "(ubig_val n x0 + (- (2 ^ ?s * BP_BIGINT_BASE ^ p)) * 2 ^ y) div 2 ^ y
          = - (2 ^ ?s * BP_BIGINT_BASE ^ p) + ubig_val n x0 div 2 ^ y"
        by (rule div_mult_self1) simp
      ultimately show ?thesis by (simp only: uminus_add_conv_diff)
    qed
    with set_sign_bit [OF z3(1) n0] z3 r show ?thesis by simp
  qed
qed

end
