(* ===== verification/Bigint.thy ===== *)
theory Bigint
  imports Ubig_Bits
begin

text \<open>
  Signed big integers, \<open>emu/bigint.c\<close>. A big integer is the structure
  \<open>$bigint(SignSize, DLst)\<close>: the sign of \<open>SignSize\<close> is the sign of the number, its magnitude the
  number of digits, and \<open>DLst\<close> the list of digits, lowest first (the order in which
  \<open>BP_MAKE_BIGINT_FROM_UBIG\<close> conses them). A result that fits in one word, which on a 64-bit
  build is one of at most two digits, is returned as a primitive integer: \<open>bpnum\<close> is either.

  An operation copies its operands from the heap into arrays on the local stack. The cells of
  these arrays hold whatever the stack held; the model fills them with 0, and the lemmas of
  \<open>Ubig\<close> hold for any contents. That the stack has room is assumed (\<open>LOCAL_OVERFLOW_CHECK\<close>),
  with one exception, \<open>bp_mod_bigint_bigint\<close>, which may write past the area it has reserved.

  \<open>big_val\<close> is the integer a big integer denotes and \<open>num_ok\<close> says that a number is in the form
  the engine expects: a primitive integer in the one-word range or a big integer of at least
  three digits.
\<close>

datatype bp_error =
    OUT_OF_MEMORY
  | STACK_OVERRUN   \<comment> \<open>not an exception of the engine: a write past the local stack\<close>

record bigint =
  sign_size :: int
  digit_list :: "int list"

datatype bpnum = MAKEINT int | MAKEBIG bigint

definition BP_MAXINT_1W :: int where "BP_MAXINT_1W = 72057594037927935"
definition BP_MININT_1W :: int where "BP_MININT_1W = - 72057594037927935"

abbreviation BP_ZERO :: bpnum where "BP_ZERO \<equiv> MAKEINT 0"
abbreviation BP_MONE :: bpnum where "BP_MONE \<equiv> MAKEINT (- 1)"

section \<open>Structures and arrays\<close>

definition bp_decompose_bigint :: "bigint \<Rightarrow> int \<times> nat \<times> int list" where
  "bp_decompose_bigint op =
     (let dsize = sign_size op
      in if dsize < 0 then (- 1, nat (- dsize), digit_list op) else (1, nat dsize, digit_list op))"

definition bp_make_bigint_from_dlst :: "int \<Rightarrow> nat \<Rightarrow> int list \<Rightarrow> bigint" where
  "bp_make_bigint_from_dlst sign dsize DLst = \<lparr>sign_size = sign * int dsize, digit_list = DLst\<rparr>"

text \<open>Fresh cells of the local stack.\<close>

definition stack_cells :: "nat \<Rightarrow> ubigint" where
  "stack_cells n = replicate n 0"

text \<open>Copy the digits to the start of an array of \<open>n\<close> cells.\<close>

definition bp_make_ubig_from_dlst :: "int list \<Rightarrow> nat \<Rightarrow> ubigint" where
  "bp_make_ubig_from_dlst DLst n =
     for_loop 0 (length DLst) (\<lambda>i x. x[i := DLst ! i]) (stack_cells n)"

definition bp_make_bigint_from_ubig :: "int \<Rightarrow> nat \<Rightarrow> ubigint \<Rightarrow> bigint" where
  "bp_make_bigint_from_ubig sign dsize x =
     bp_make_bigint_from_dlst sign dsize (for_down dsize (\<lambda>i DLst. x ! i # DLst) [])"

text \<open>The end of every routine: one or two digits make a primitive integer.\<close>

definition bp_num_from_ubig :: "int \<Rightarrow> nat \<times> ubigint \<Rightarrow> bpnum" where
  "bp_num_from_ubig sign sz = (case sz of (dsize, z) \<Rightarrow>
     if dsize = 1 then MAKEINT (sign * z ! 0)
     else if dsize = 2 then MAKEINT (sign * (z ! 1 * BP_BIGINT_BASE + z ! 0))
     else MAKEBIG (bp_make_bigint_from_ubig sign dsize z))"

section \<open>Conversions\<close>

function int_to_digits :: "int \<Rightarrow> int list" where
  "int_to_digits a =
     (if a = 0 then [] else (a smod BP_BIGINT_BASE) # int_to_digits (a sdiv BP_BIGINT_BASE))"
  by pat_completeness auto

lemma abs_sdiv_base: "a \<noteq> 0 \<Longrightarrow> \<bar>a sdiv BP_BIGINT_BASE\<bar> < \<bar>a\<bar>"
proof -
  assume a: "a \<noteq> 0"
  have "\<bar>a sdiv BP_BIGINT_BASE\<bar> = \<bar>a\<bar> div BP_BIGINT_BASE"
    using a by (auto simp: signed_divide_int_def abs_mult sgn_if pos_imp_zdiv_nonneg_iff)
  also have "\<dots> < \<bar>a\<bar>"
    using a by (intro int_div_less_self) (auto simp: BP_BIGINT_BASE_def)
  finally show ?thesis .
qed

termination int_to_digits
  by (relation "measure (\<lambda>a. nat \<bar>a\<bar>)") (use abs_sdiv_base in auto)

declare int_to_digits.simps [simp del]

definition bp_int_to_bigint :: "int \<Rightarrow> bigint" where
  "bp_int_to_bigint a =
     (let (sign, a) = (if a < 0 then (- 1, - a) else (1, a));
          x = int_to_digits a
      in bp_make_bigint_from_ubig sign (length x) x)"

definition bp_bigint_to_int :: "bigint \<Rightarrow> int" where
  "bp_bigint_to_int op =
     (let (sign, dsize, DLst) = bp_decompose_bigint op;
          x = bp_make_ubig_from_dlst DLst (dsize + 1)
      in bp_ubig_to_int dsize x)"

definition bp_bigint_to_native_long :: "bigint \<Rightarrow> int" where
  "bp_bigint_to_native_long op =
     (let (sign, dsize, DLst) = bp_decompose_bigint op
      in if sign \<noteq> 1 \<or> dsize \<noteq> 3 then 0
         else let x = bp_make_ubig_from_dlst DLst (dsize + 1)
              in if x ! 2 \<ge> 128 then 0 else bp_ubig_to_int dsize x)"

definition bp_abs_bigint :: "bigint \<Rightarrow> bigint" where
  "bp_abs_bigint op =
     (let (sign, dsize, DLst) = bp_decompose_bigint op
      in if sign > 0 then op else bp_make_bigint_from_dlst 1 dsize DLst)"

definition bp_neg_bigint :: "bigint \<Rightarrow> bigint" where
  "bp_neg_bigint op =
     (let (sign, dsize, DLst) = bp_decompose_bigint op
      in bp_make_bigint_from_dlst (- sign) dsize DLst)"

definition bp_sign_bigint :: "bigint \<Rightarrow> int" where
  "bp_sign_bigint op = (let (sign, dsize, DLst) = bp_decompose_bigint op in sign)"

text \<open>Two 28-bit halves into one word.\<close>

definition b_BUILD_56B_INT_ccf :: "int \<Rightarrow> int \<Rightarrow> bpnum" where
  "b_BUILD_56B_INT_ccf w1 w0 = MAKEINT (push_bit 28 w1 OR w0)"


section \<open>Addition, subtraction, multiplication\<close>

definition bp_add_bigint_bigint :: "bigint \<Rightarrow> bigint \<Rightarrow> bpnum" where
  "bp_add_bigint_bigint op1 op2 =
     (let (xsign, xsize, xDLst) = bp_decompose_bigint op1;
          (ysign, ysize, yDLst) = bp_decompose_bigint op2;
          max_size = (if xsize > ysize then xsize else ysize);
          z = stack_cells (max_size + 1);
          x = bp_make_ubig_from_dlst xDLst (xsize + 1);
          y = bp_make_ubig_from_dlst yDLst (ysize + 1)
      in if xsign > 0 \<and> ysign > 0 then
           bp_num_from_ubig 1 (bp_add_ubig_ubig xsize x ysize y z)
         else if xsign < 0 \<and> ysign < 0 then
           bp_num_from_ubig (- 1) (bp_add_ubig_ubig xsize x ysize y z)
         else if xsize > ysize then
           bp_num_from_ubig xsign (bp_sub_ubig_ubig xsize x ysize y z)
         else if xsize < ysize then
           bp_num_from_ubig ysign (bp_sub_ubig_ubig ysize y xsize x z)
         else let comp_res = bp_compare_mag_mag xsize x y
           in if comp_res = 0 then BP_ZERO
              else if comp_res > 0 then bp_num_from_ubig xsign (bp_sub_ubig_ubig xsize x ysize y z)
              else bp_num_from_ubig ysign (bp_sub_ubig_ubig ysize y xsize x z))"

definition bp_sub_bigint_bigint :: "bigint \<Rightarrow> bigint \<Rightarrow> bpnum" where
  "bp_sub_bigint_bigint op1 op2 =
     (let (xsign, xsize, xDLst) = bp_decompose_bigint op1;
          (ysign, ysize, yDLst) = bp_decompose_bigint op2;
          max_size = (if xsize > ysize then xsize else ysize);
          z = stack_cells (max_size + 1);
          x = bp_make_ubig_from_dlst xDLst (xsize + 1);
          y = bp_make_ubig_from_dlst yDLst (ysize + 1)
      in if xsign > 0 \<and> ysign < 0 then
           bp_num_from_ubig 1 (bp_add_ubig_ubig xsize x ysize y z)
         else if xsign < 0 \<and> ysign > 0 then
           bp_num_from_ubig (- 1) (bp_add_ubig_ubig xsize x ysize y z)
         else if xsize > ysize then
           bp_num_from_ubig xsign (bp_sub_ubig_ubig xsize x ysize y z)
         else if xsize < ysize then
           bp_num_from_ubig (- 1 * ysign) (bp_sub_ubig_ubig ysize y xsize x z)
         else let comp_res = bp_compare_mag_mag xsize x y
           in if comp_res = 0 then BP_ZERO
              else if comp_res > 0 then bp_num_from_ubig xsign (bp_sub_ubig_ubig xsize x ysize y z)
              else bp_num_from_ubig (- 1 * ysign) (bp_sub_ubig_ubig ysize y xsize x z))"

text \<open>
  An access outside of the area \<open>z\<close> would be undefined in C, as \<open>the None\<close> is here; \<open>mul_num\<close> below shows that
  there is none.
\<close>

definition bp_mul_bigint_bigint :: "bigint \<Rightarrow> bigint \<Rightarrow> bpnum" where
  "bp_mul_bigint_bigint op1 op2 =
     (let (xsign, xsize, xDLst) = bp_decompose_bigint op1;
          (ysign, ysize, yDLst) = bp_decompose_bigint op2;
          z = stack_cells (xsize + ysize + 1);
          x = bp_make_ubig_from_dlst xDLst (xsize + 1);
          y = bp_make_ubig_from_dlst yDLst (ysize + 1);
          zsign = (if xsign > 0 then if ysign > 0 then 1 else - 1
                   else if ysign > 0 then - 1 else 1)
      in bp_num_from_ubig zsign (the (bp_mul_ubig_ubig xsize x ysize y z)))"

section \<open>Division and remainder, rounding towards minus infinity\<close>

definition bp_div_bigint_bigint :: "bigint \<Rightarrow> bigint \<Rightarrow> bpnum" where
  "bp_div_bigint_bigint op1 op2 =
     (let (xsign, xsize, xDLst) = bp_decompose_bigint op1;
          (ysign, ysize, yDLst) = bp_decompose_bigint op2;
          q = stack_cells (xsize + 1);
          r = stack_cells (xsize + 1);
          x = bp_make_ubig_from_dlst xDLst (xsize + 1);
          y = bp_make_ubig_from_dlst yDLst (ysize + 1);
          tempBuff = stack_cells (xsize + 1)
      in if xsize = 0 then BP_ZERO
         else let qsign = (if xsign = ysign then 1 else - 1);
                  (xsize, x) = (if qsign = - 1 then bp_dec_ubig xsize x else (xsize, x))
           in if xsize < ysize \<or> (xsize = ysize \<and> bp_compare_mag_mag xsize x y < 0)
              then (if qsign = 1 then BP_ZERO else BP_MONE)
              else let (qsize, q, rsize, r) = bp_div_ubig_ubig xsize x ysize y q r tempBuff;
                       (qsize, q) = (if qsign = - 1 then bp_inc_ubig qsize q else (qsize, q))
                in bp_num_from_ubig qsign (qsize, q))"

text \<open>
  The arrays are laid out downwards from the top of the local stack: \<open>q\<close>, \<open>r\<close>, \<open>x\<close> (of
  \<open>xsize + 1\<close> cells each, for the size \<open>op1\<close> has), then \<open>y\<close>. When \<open>x\<close> is smaller than \<open>y\<close> it
  is the remainder as it is, in place, and if the signs differ \<open>y - r\<close> is written over it: from
  \<open>x\<close> there are \<open>3 * (xsize + 1)\<close> cells up to the top of the stack, and \<open>y\<close> may have more digits.
\<close>

definition bp_mod_bigint_bigint :: "bigint \<Rightarrow> bigint \<Rightarrow> bp_error + bpnum" where
  "bp_mod_bigint_bigint op1 op2 =
     (let (xsign, xsize0, xDLst) = bp_decompose_bigint op1;
          (ysign, ysize, yDLst) = bp_decompose_bigint op2;
          q = stack_cells (xsize0 + 1);
          r = stack_cells (xsize0 + 1);
          x = bp_make_ubig_from_dlst xDLst (xsize0 + 1);
          y = bp_make_ubig_from_dlst yDLst (ysize + 1);
          tempBuff = stack_cells (xsize0 + 1)
      in if xsize0 = 0 then Inr BP_ZERO
         else let qsign = (if xsign = ysign then 1 else - 1 :: int);
                  (xsize, x) = (if qsign = - 1 then bp_dec_ubig xsize0 x else (xsize0, x));
                  small = (xsize < ysize \<or> (xsize = ysize \<and> bp_compare_mag_mag xsize x y < 0));
                  (rsize, r) =
                    (if small then (xsize, x @ r @ q)
                     else case bp_div_ubig_ubig xsize x ysize y q r tempBuff of
                            (qsize, q, rsize, r) \<Rightarrow> (rsize, r @ q))
           in if qsign = - 1 \<and> length r < ysize then Inl STACK_OVERRUN
              else let (rsize, r) =
                     (if qsign = - 1
                      then let (rsize, r) = bp_sub_ubig_ubig ysize y rsize r r
                           in bp_dec_ubig rsize r
                      else (rsize, r))
                in if rsize = 0 then Inr BP_ZERO
                   else Inr (bp_num_from_ubig ysign (rsize, r)))"

section \<open>Comparison\<close>

definition bp_compare_bigint_bigint :: "bigint \<Rightarrow> bigint \<Rightarrow> int" where
  "bp_compare_bigint_bigint op1 op2 =
     (let (xsign, xsize, xDLst) = bp_decompose_bigint op1;
          (ysign, ysize, yDLst) = bp_decompose_bigint op2
      in if xsign > 0 \<and> ysign < 0 then 1
         else if xsign < 0 \<and> ysign > 0 then - 1
         else let x = bp_make_ubig_from_dlst xDLst (xsize + 1);
                  y = bp_make_ubig_from_dlst yDLst (ysize + 1)
           in if xsize > ysize then (if xsign = 1 then 1 else - 1)
              else if xsize < ysize then (if ysign = 1 then - 1 else 1)
              else xsign * bp_compare_mag_mag xsize x y)"


section \<open>What a number denotes\<close>

definition big_val :: "bigint \<Rightarrow> int" where
  "big_val op = (if sign_size op < 0 then - 1 else 1) *
     ubig_val (nat \<bar>sign_size op\<bar>) (digit_list op)"

definition wf_bigint :: "bigint \<Rightarrow> bool" where
  "wf_bigint op \<longleftrightarrow> normal_ubig (nat \<bar>sign_size op\<bar>) (digit_list op) \<and>
     length (digit_list op) = nat \<bar>sign_size op\<bar>"

definition num_val :: "bpnum \<Rightarrow> int" where
  "num_val v = (case v of MAKEINT i \<Rightarrow> i | MAKEBIG b \<Rightarrow> big_val b)"

definition num_ok :: "bpnum \<Rightarrow> bool" where
  "num_ok v = (case v of MAKEINT i \<Rightarrow> BP_MININT_1W \<le> i \<and> i \<le> BP_MAXINT_1W
     | MAKEBIG b \<Rightarrow> wf_bigint b \<and> 3 \<le> \<bar>sign_size b\<bar>)"

lemma num_val_simps [simp]: "num_val (MAKEINT i) = i" "num_val (MAKEBIG b) = big_val b"
  by (simp_all add: num_val_def)

lemma num_ok_simps [simp]:
  "num_ok (MAKEINT i) \<longleftrightarrow> BP_MININT_1W \<le> i \<and> i \<le> BP_MAXINT_1W"
  "num_ok (MAKEBIG b) \<longleftrightarrow> wf_bigint b \<and> 3 \<le> \<bar>sign_size b\<bar>"
  by (simp_all add: num_ok_def)

lemma maxint_eq: "BP_MAXINT_1W = BP_BIGINT_BASE ^ 2 - 1" "BP_MININT_1W = - (BP_BIGINT_BASE ^ 2 - 1)"
  by (simp_all add: BP_MAXINT_1W_def BP_MININT_1W_def BP_BIGINT_BASE_def)

lemma ubig_cong:
  assumes "\<And>k. k < n \<Longrightarrow> x ! k = y ! k" "n \<le> length x" "n \<le> length y"
  shows "ubig_val n x = ubig_val n y" "digits_ok n x \<longleftrightarrow> digits_ok n y"
    "normal_ubig n x \<longleftrightarrow> normal_ubig n y"
  using assms ubig_val_cong [of n x y] by (auto simp: digits_ok_def normal_ubig_def)

lemma bp_decompose_bigint_sound:
  assumes "wf_bigint op" "bp_decompose_bigint op = (sign, n, DLst)"
  shows "sign = 1 \<or> sign = - 1" "normal_ubig n DLst" "length DLst = n"
    "big_val op = sign * ubig_val n DLst" "sign = - 1 \<Longrightarrow> 0 < n" "sign_size op = sign * int n"
  using assms by (auto simp: bp_decompose_bigint_def wf_bigint_def big_val_def Let_def split: if_splits)

lemma length_stack_cells [simp]: "length (stack_cells n) = n"
  by (simp add: stack_cells_def)

lemma make_ubig_sound:
  assumes "normal_ubig n DLst" "length DLst = n" "n \<le> m"
  shows "normal_ubig n (bp_make_ubig_from_dlst DLst m)" "digits_ok n (bp_make_ubig_from_dlst DLst m)"
    "ubig_val n (bp_make_ubig_from_dlst DLst m) = ubig_val n DLst"
    "length (bp_make_ubig_from_dlst DLst m) = m"
    "k < n \<Longrightarrow> bp_make_ubig_from_dlst DLst m ! k = DLst ! k"
proof -
  let ?x = "bp_make_ubig_from_dlst DLst m"
  have e: "length ?x = m" "\<And>k. k < n \<Longrightarrow> ?x ! k = DLst ! k"
    using fill_loop_from_0 [where n = "length DLst" and z = "stack_cells m" and g = "\<lambda>i. DLst ! i"] assms
    by (auto simp: bp_make_ubig_from_dlst_def)
  from ubig_cong [of n ?x DLst] e assms
  show "normal_ubig n ?x" "ubig_val n ?x = ubig_val n DLst" "digits_ok n ?x"
    by (auto simp: normal_ubig_def)
  show "length ?x = m" "k < n \<Longrightarrow> ?x ! k = DLst ! k" using e by auto
qed

lemma for_down_cons: "n \<le> length x \<Longrightarrow> for_down n (\<lambda>i DLst. x ! i # DLst) ds = take n x @ ds"
  by (induction n arbitrary: ds) (auto simp: take_Suc_conv_app_nth)

lemma make_bigint_sound:
  assumes "normal_ubig n z" "sign = 1 \<or> sign = - 1"
  shows "wf_bigint (bp_make_bigint_from_ubig sign n z)"
    "big_val (bp_make_bigint_from_ubig sign n z) = sign * ubig_val n z"
    "sign_size (bp_make_bigint_from_ubig sign n z) = sign * int n"
proof -
  have len: "n \<le> length z" using assms(1) by (simp add: normal_ubig_def digits_ok_def)
  note c = ubig_cong [of n "take n z" z]
  have e: "bp_make_bigint_from_ubig sign n z = \<lparr>sign_size = sign * int n, digit_list = take n z\<rparr>"
    using len by (simp add: bp_make_bigint_from_ubig_def bp_make_bigint_from_dlst_def for_down_cons)
  have s: "nat \<bar>sign * int n\<bar> = n" using assms(2) by auto
  show "wf_bigint (bp_make_bigint_from_ubig sign n z)"
    using c assms(1) len by (simp add: wf_bigint_def e s)
  show "big_val (bp_make_bigint_from_ubig sign n z) = sign * ubig_val n z"
  proof (cases "n = 0")
    case True
    then show ?thesis unfolding e big_val_def by simp
  next
    case False
    then show ?thesis using c len assms(2) by (auto simp: big_val_def e)
  qed
  show "sign_size (bp_make_bigint_from_ubig sign n z) = sign * int n" by (simp add: e)
qed

lemma num_from_ubig_sound:
  assumes "normal_ubig n z" "0 < n" "sign = 1 \<or> sign = - 1"
  shows "num_ok (bp_num_from_ubig sign (n, z))"
    "num_val (bp_num_from_ubig sign (n, z)) = sign * ubig_val n z"
proof -
  note b = normal_ubigD(3,4) [OF assms(1)]
  have P: "ubig_val n z < BP_BIGINT_BASE ^ 2" if "n \<le> 2"
    by (rule less_le_trans [OF b(1)]) (rule power_increasing [OF that], simp)
  consider "n = 1" | "n = 2" | "3 \<le> n" using assms(2) by linarith
  then have "num_ok (bp_num_from_ubig sign (n, z)) \<and>
      num_val (bp_num_from_ubig sign (n, z)) = sign * ubig_val n z"
  proof cases
    case 1
    then have "ubig_val n z = z ! 0" by (simp add: ubig_val_def)
    then show ?thesis using 1 b(2) P assms(3) by (auto simp: bp_num_from_ubig_def maxint_eq)
  next
    case 2
    then have "ubig_val n z = z ! 1 * BP_BIGINT_BASE + z ! 0"
      by (simp add: numeral_2_eq_2 ubig_val_Suc)
    then show ?thesis using 2 b(2) P assms(3) by (auto simp: bp_num_from_ubig_def maxint_eq)
  next
    case 3
    then show ?thesis
      using make_bigint_sound [OF assms(1,3)] assms(3) by (auto simp: bp_num_from_ubig_def)
  qed
  then show "num_ok (bp_num_from_ubig sign (n, z))"
    "num_val (bp_num_from_ubig sign (n, z)) = sign * ubig_val n z" by auto
qed


text \<open>\<open>num_is v i\<close>: \<open>v\<close> is the engine's form of the integer \<open>i\<close>.\<close>

definition num_is :: "bpnum \<Rightarrow> int \<Rightarrow> bool" where
  "num_is v i \<longleftrightarrow> num_ok v \<and> num_val v = i"

lemma num_is_int [simp]: "num_is (MAKEINT i) j \<longleftrightarrow> i = j \<and> BP_MININT_1W \<le> i \<and> i \<le> BP_MAXINT_1W"
  by (auto simp: num_is_def)

lemma num_is_zero: "num_is BP_ZERO 0" "num_is BP_MONE (- 1)"
  by (simp_all add: BP_MININT_1W_def BP_MAXINT_1W_def)

lemma num_from_ubig_is:
  assumes "normal_ubig n z" "0 < ubig_val n z" "sign = 1 \<or> sign = - 1" "i = sign * ubig_val n z"
  shows "num_is (bp_num_from_ubig sign (n, z)) i"
proof -
  have "0 < n" using assms(2) by (cases n) auto
  from num_from_ubig_sound [OF assms(1) this assms(3)] assms(4) show ?thesis by (simp add: num_is_def)
qed

text \<open>An operand as the routines see it: its sign, its size and its digits in an array.\<close>

lemma operandE:
  assumes "wf_bigint op"
  obtains sign n DLst where "bp_decompose_bigint op = (sign, n, DLst)" "sign = 1 \<or> sign = - 1"
    "normal_ubig n (bp_make_ubig_from_dlst DLst (n + 1))"
    "digits_ok n (bp_make_ubig_from_dlst DLst (n + 1))"
    "length (bp_make_ubig_from_dlst DLst (n + 1)) = n + 1"
    "big_val op = sign * ubig_val n (bp_make_ubig_from_dlst DLst (n + 1))"
    "sign = - 1 \<Longrightarrow> 0 < n" "sign_size op = sign * int n"
    "0 \<le> ubig_val n (bp_make_ubig_from_dlst DLst (n + 1))"
    "normal_ubig n DLst" "length DLst = n"
proof -
  obtain sign n DLst where d: "bp_decompose_bigint op = (sign, n, DLst)" by (rule prod_cases3)
  note s = bp_decompose_bigint_sound [OF assms d]
  note m = make_ubig_sound [OF s(2,3), of "n + 1"]
  from that [OF d] s m normal_ubigD(4) [of n "bp_make_ubig_from_dlst DLst (n + 1)"] show ?thesis
    by simp
qed

lemma normal_val_less:
  assumes "normal_ubig n y" "digits_ok m x" "m < n"
  shows "ubig_val m x < ubig_val n y"
proof -
  have "ubig_val m x < BP_BIGINT_BASE ^ m" by (rule ubig_val_less [OF assms(2)])
  also have "\<dots> \<le> BP_BIGINT_BASE ^ (n - 1)" using assms(3) by simp
  also have "\<dots> \<le> ubig_val n y" using normal_ubigD(2) [OF assms(1)] assms(3) by simp
  finally show ?thesis .
qed

lemma add_num:
  assumes nx: "normal_ubig m x" and ny: "normal_ubig n y" and len: "max m n < length z"
    and s: "sign = 1 \<or> sign = - 1" and pos: "0 < max m n" and i: "i = sign * (ubig_val m x + ubig_val n y)"
  shows "num_is (bp_num_from_ubig sign (bp_add_ubig_ubig m x n y z)) i"
proof -
  obtain zsize z' where r: "bp_add_ubig_ubig m x n y z = (zsize, z')" by fastforce
  note d = normal_ubigD(1) [OF nx] normal_ubigD(1) [OF ny]
  note c = bp_add_ubig_ubig_correct [OF d len r]
  note b = normal_ubigD(4) [OF nx] normal_ubigD(4) [OF ny]
  have big: "BP_BIGINT_BASE ^ (max m n - 1) \<le> ubig_val m x + ubig_val n y"
  proof (cases "m \<le> n")
    case True
    then have "BP_BIGINT_BASE ^ (max m n - 1) \<le> ubig_val n y"
      using normal_ubigD(2) [OF ny] pos by (simp add: max_def)
    with b show ?thesis by linarith
  next
    case False
    then have "BP_BIGINT_BASE ^ (max m n - 1) \<le> ubig_val m x"
      using normal_ubigD(2) [OF nx] pos by (simp add: max_def)
    with b show ?thesis by linarith
  qed
  have "normal_ubig zsize z'"
    using c big by (intro normal_ubigI) (auto simp: diff_Suc)
  moreover have "0 < ubig_val m x + ubig_val n y"
    by (rule less_le_trans [OF _ big]) (rule zero_less_power, simp)
  ultimately show ?thesis using c i s unfolding r by (intro num_from_ubig_is) auto
qed

lemma sub_num:
  assumes "digits_ok n y" "digits_ok m x" "m \<le> n" "n \<le> length z" "ubig_val m x < ubig_val n y"
    and "sign = 1 \<or> sign = - 1" "i = sign * (ubig_val n y - ubig_val m x)"
  shows "num_is (bp_num_from_ubig sign (bp_sub_ubig_ubig n y m x z)) i"
proof -
  obtain zsize z' where r: "bp_sub_ubig_ubig n y m x z = (zsize, z')" by fastforce
  from bp_sub_ubig_ubig_correct [OF assms(1-4) less_imp_le [OF assms(5)] r] assms(5-7)
  show ?thesis unfolding r by (intro num_from_ubig_is) auto
qed

lemma mul_num:
  assumes "normal_ubig m x" "normal_ubig n y" "0 < m" "0 < n" "m + n \<le> length z"
    and "sign = 1 \<or> sign = - 1" "i = sign * (ubig_val m x * ubig_val n y)"
  shows "num_is (bp_num_from_ubig sign (the (bp_mul_ubig_ubig m x n y z))) i"
proof -
  from bp_mul_ubig_ubig_correct [OF assms(1-5)]
  obtain zsize z' where r: "bp_mul_ubig_ubig m x n y z = Some (zsize, z')"
    and c: "normal_ubig zsize z'" "ubig_val zsize z' = ubig_val m x * ubig_val n y" by blast
  have "0 < ubig_val m x" "0 < ubig_val n y"
    using assms(1-4) normal_ubig_zero [of m x] normal_ubig_zero [of n y]
      normal_ubigD(4) [OF assms(1)] normal_ubigD(4) [OF assms(2)] by linarith+
  then have "0 < ubig_val m x * ubig_val n y" by (rule mult_pos_pos)
  with c assms(6,7) show ?thesis unfolding r option.sel by (intro num_from_ubig_is) auto
qed


section \<open>The operations compute the integer operations\<close>

text \<open>Addition of signed magnitudes; subtraction is the same with the sign of \<open>y\<close> turned.\<close>

lemma signed_add_num:
  assumes nx: "normal_ubig m x" and ny: "normal_ubig n y" and s: "xs = 1 \<or> xs = - 1" "ys = 1 \<or> ys = - 1"
    and pos: "0 < max m n" and len: "length z = max m n + 1"
  shows "num_is
     (if 0 < xs \<and> 0 < ys then bp_num_from_ubig 1 (bp_add_ubig_ubig m x n y z)
      else if xs < 0 \<and> ys < 0 then bp_num_from_ubig (- 1) (bp_add_ubig_ubig m x n y z)
      else if n < m then bp_num_from_ubig xs (bp_sub_ubig_ubig m x n y z)
      else if m < n then bp_num_from_ubig ys (bp_sub_ubig_ubig n y m x z)
      else if bp_compare_mag_mag m x y = 0 then BP_ZERO
      else if 0 < bp_compare_mag_mag m x y then bp_num_from_ubig xs (bp_sub_ubig_ubig m x n y z)
      else bp_num_from_ubig ys (bp_sub_ubig_ubig n y m x z))
     (xs * ubig_val m x + ys * ubig_val n y)" (is "num_is ?v ?i")
proof -
  note d = normal_ubigD(1) [OF nx] normal_ubigD(1) [OF ny]
  have len': "max m n < length z" "m \<le> length z" "n \<le> length z" using len by auto
  consider "xs = ys" | "xs = - ys" "m \<noteq> n" | "xs = - ys" "m = n" using s by (cases "m = n") auto
  then show ?thesis
  proof cases
    case 1
    then have v: "?v = bp_num_from_ubig xs (bp_add_ubig_ubig m x n y z)" using s by auto
    show ?thesis unfolding v by (rule add_num [OF nx ny len'(1) s(1) pos]) (simp add: 1 distrib_left)
  next
    case 2
    show ?thesis
    proof (cases "n < m")
      case True
      have v: "?v = bp_num_from_ubig xs (bp_sub_ubig_ubig m x n y z)" using s 2 True by auto
      show ?thesis
        unfolding v by (rule sub_num [OF d _ _ normal_val_less [OF nx d(2)] s(1)])
          (use True 2 len' in \<open>auto simp: algebra_simps\<close>)
    next
      case False
      then have l: "m < n" using 2 by simp
      have v: "?v = bp_num_from_ubig ys (bp_sub_ubig_ubig n y m x z)" using s 2 l by auto
      show ?thesis
        unfolding v by (rule sub_num [OF d(2,1) _ _ normal_val_less [OF ny d(1)] s(2)])
          (use l 2 len' in \<open>auto simp: algebra_simps\<close>)
    qed
  next
    case 3
    have c: "bp_compare_mag_mag m x y = sgn (ubig_val m x - ubig_val m y)"
      using compare_mag_val d 3 by blast
    consider "ubig_val m x = ubig_val m y" | "ubig_val m y < ubig_val m x" | "ubig_val m x < ubig_val m y"
      by linarith
    then show ?thesis
    proof cases
      case 1
      then show ?thesis using s 3 c num_is_zero by auto
    next
      case 2
      then have v: "?v = bp_num_from_ubig xs (bp_sub_ubig_ubig m x n y z)" using s 3 c by auto
      show ?thesis unfolding v
        by (rule sub_num [OF d _ _ _ s(1)]) (use 2 3 len' in \<open>auto simp: algebra_simps\<close>)
    next
      case less: 3
      then have v: "?v = bp_num_from_ubig ys (bp_sub_ubig_ubig n y m x z)" using s 3 c by auto
      show ?thesis unfolding v
        by (rule sub_num [OF d(2,1) _ _ _ s(2)]) (use less 3 len' in \<open>auto simp: algebra_simps\<close>)
    qed
  qed
qed

lemma bp_add_bigint_is:
  assumes w: "wf_bigint op1" "wf_bigint op2" and nz: "sign_size op1 \<noteq> 0 \<or> sign_size op2 \<noteq> 0"
  shows "num_is (bp_add_bigint_bigint op1 op2) (big_val op1 + big_val op2)"
proof -
  obtain xs m xD where x: "bp_decompose_bigint op1 = (xs, m, xD)" "xs = 1 \<or> xs = - 1"
    "normal_ubig m (bp_make_ubig_from_dlst xD (m + 1))"
    "big_val op1 = xs * ubig_val m (bp_make_ubig_from_dlst xD (m + 1))" "sign_size op1 = xs * int m"
    using w(1) by (rule operandE)
  obtain ys n yD where y: "bp_decompose_bigint op2 = (ys, n, yD)" "ys = 1 \<or> ys = - 1"
    "normal_ubig n (bp_make_ubig_from_dlst yD (n + 1))"
    "big_val op2 = ys * ubig_val n (bp_make_ubig_from_dlst yD (n + 1))" "sign_size op2 = ys * int n"
    using w(2) by (rule operandE)
  have "0 < max m n" using nz x(5) y(5) by auto
  moreover have "length (stack_cells ((if n < m then m else n) + 1)) = max m n + 1" by simp
  ultimately show ?thesis
    unfolding bp_add_bigint_bigint_def x(1) y(1) Let_def prod.case x(4) y(4)
    by (rule signed_add_num [OF x(3) y(3) x(2) y(2)])
qed

lemma bp_sub_bigint_is:
  assumes w: "wf_bigint op1" "wf_bigint op2" and nz: "sign_size op1 \<noteq> 0 \<or> sign_size op2 \<noteq> 0"
  shows "num_is (bp_sub_bigint_bigint op1 op2) (big_val op1 - big_val op2)"
proof -
  obtain xs m xD where x: "bp_decompose_bigint op1 = (xs, m, xD)" "xs = 1 \<or> xs = - 1"
    "normal_ubig m (bp_make_ubig_from_dlst xD (m + 1))"
    "big_val op1 = xs * ubig_val m (bp_make_ubig_from_dlst xD (m + 1))" "sign_size op1 = xs * int m"
    using w(1) by (rule operandE)
  obtain ys n yD where y: "bp_decompose_bigint op2 = (ys, n, yD)" "ys = 1 \<or> ys = - 1"
    "normal_ubig n (bp_make_ubig_from_dlst yD (n + 1))"
    "big_val op2 = ys * ubig_val n (bp_make_ubig_from_dlst yD (n + 1))" "sign_size op2 = ys * int n"
    using w(2) by (rule operandE)
  have ys': "- ys = 1 \<or> - ys = - 1" "ys < 0 \<longleftrightarrow> 0 < - ys" "0 < ys \<longleftrightarrow> - ys < 0" "- 1 * ys = - ys" using y(2) by auto
  have "0 < max m n" using nz x(5) y(5) by auto
  moreover have "length (stack_cells ((if n < m then m else n) + 1)) = max m n + 1" by simp
  ultimately show ?thesis
    unfolding bp_sub_bigint_bigint_def x(1) y(1) Let_def prod.case x(4) y(4) ys'(2-4)
      diff_conv_add_uminus minus_mult_left
    by (rule signed_add_num [OF x(3) y(3) x(2) ys'(1)])
qed


lemma bp_mul_bigint_is:
  assumes w: "wf_bigint op1" "wf_bigint op2" and nz: "sign_size op1 \<noteq> 0" "sign_size op2 \<noteq> 0"
  shows "num_is (bp_mul_bigint_bigint op1 op2) (big_val op1 * big_val op2)"
proof -
  obtain xs m xD where x: "bp_decompose_bigint op1 = (xs, m, xD)" "xs = 1 \<or> xs = - 1"
    "normal_ubig m (bp_make_ubig_from_dlst xD (m + 1))"
    "big_val op1 = xs * ubig_val m (bp_make_ubig_from_dlst xD (m + 1))" "sign_size op1 = xs * int m"
    using w(1) by (rule operandE)
  obtain ys n yD where y: "bp_decompose_bigint op2 = (ys, n, yD)" "ys = 1 \<or> ys = - 1"
    "normal_ubig n (bp_make_ubig_from_dlst yD (n + 1))"
    "big_val op2 = ys * ubig_val n (bp_make_ubig_from_dlst yD (n + 1))" "sign_size op2 = ys * int n"
    using w(2) by (rule operandE)
  have s: "(if 0 < xs then if 0 < ys then 1 else - 1 else if 0 < ys then - 1 else 1) = xs * ys"
    using x(2) y(2) by auto
  show ?thesis
    unfolding bp_mul_bigint_bigint_def x(1) y(1) Let_def prod.case s
    by (rule mul_num [OF x(3) y(3)]) (use x y nz in auto)
qed

lemma bp_compare_bigint_sgn:
  assumes w: "wf_bigint op1" "wf_bigint op2"
  shows "bp_compare_bigint_bigint op1 op2 = sgn (big_val op1 - big_val op2)"
proof -
  obtain xs m xD where x: "bp_decompose_bigint op1 = (xs, m, xD)" "xs = 1 \<or> xs = - 1"
    "normal_ubig m (bp_make_ubig_from_dlst xD (m + 1))"
    "big_val op1 = xs * ubig_val m (bp_make_ubig_from_dlst xD (m + 1))" "xs = - 1 \<Longrightarrow> 0 < m"
    using w(1) by (rule operandE) blast
  obtain ys n yD where y: "bp_decompose_bigint op2 = (ys, n, yD)" "ys = 1 \<or> ys = - 1"
    "normal_ubig n (bp_make_ubig_from_dlst yD (n + 1))"
    "big_val op2 = ys * ubig_val n (bp_make_ubig_from_dlst yD (n + 1))" "ys = - 1 \<Longrightarrow> 0 < n"
    using w(2) by (rule operandE) blast
  let ?x = "bp_make_ubig_from_dlst xD (m + 1)" and ?y = "bp_make_ubig_from_dlst yD (n + 1)"
  note dx = normal_ubigD(1) [OF x(3)] and dy = normal_ubigD(1) [OF y(3)]
  note b = ubig_val_nonneg [OF dx] ubig_val_nonneg [OF dy]
  have px: "0 < ubig_val m ?x" if "0 < m" using normal_ubig_zero [OF x(3)] b that by linarith
  have py: "0 < ubig_val n ?y" if "0 < n" using normal_ubig_zero [OF y(3)] b that by linarith
  note cmp = bp_compare_bigint_bigint_def x(1) y(1) x(4) y(4)
  show ?thesis
  proof (cases "xs = ys")
    case False
    then show ?thesis using x(2,5) y(2,5) px py b by (auto simp: cmp)
  next
    case True
    consider "n < m" | "m < n" | "m = n" by linarith
    then show ?thesis
    proof cases
      case 1
      then show ?thesis using normal_val_less [OF x(3) dy 1] True y(2) by (auto simp: cmp)
    next
      case 2
      then show ?thesis using normal_val_less [OF y(3) dx 2] True y(2) by (auto simp: cmp)
    next
      case 3
      then show ?thesis using compare_mag_val [of n ?x ?y] dx dy True y(2) by (auto simp: cmp sgn_if)
    qed
  qed
qed

lemma wf_bigint_neg:
  assumes "wf_bigint op"
  shows "wf_bigint (bp_neg_bigint op)" "big_val (bp_neg_bigint op) = - big_val op"
    "sign_size (bp_neg_bigint op) = - sign_size op"
proof -
  have e: "bp_neg_bigint op = \<lparr>sign_size = - sign_size op, digit_list = digit_list op\<rparr>"
    by (auto simp: bp_neg_bigint_def bp_decompose_bigint_def bp_make_bigint_from_dlst_def Let_def)
  show "wf_bigint (bp_neg_bigint op)" "big_val (bp_neg_bigint op) = - big_val op"
    "sign_size (bp_neg_bigint op) = - sign_size op"
    using assms by (auto simp: e wf_bigint_def big_val_def)
qed

lemma wf_bigint_abs:
  assumes "wf_bigint op"
  shows "wf_bigint (bp_abs_bigint op)" "big_val (bp_abs_bigint op) = \<bar>big_val op\<bar>"
    "sign_size (bp_abs_bigint op) = \<bar>sign_size op\<bar>"
proof -
  have e: "bp_abs_bigint op = (if sign_size op < 0
      then \<lparr>sign_size = - sign_size op, digit_list = digit_list op\<rparr> else op)"
    by (auto simp: bp_abs_bigint_def bp_decompose_bigint_def bp_make_bigint_from_dlst_def Let_def)
  have "0 \<le> ubig_val (nat \<bar>sign_size op\<bar>) (digit_list op)"
    using assms by (auto simp: wf_bigint_def intro: normal_ubigD(4))
  then show "wf_bigint (bp_abs_bigint op)" "big_val (bp_abs_bigint op) = \<bar>big_val op\<bar>"
    "sign_size (bp_abs_bigint op) = \<bar>sign_size op\<bar>"
    using assms by (auto simp: e wf_bigint_def big_val_def)
qed

lemma big_val_sign:
  assumes "wf_bigint op"
  shows "bp_sign_bigint op = (if big_val op < 0 then - 1 else 1)" "big_val op = 0 \<longleftrightarrow> sign_size op = 0"
proof -
  have n: "normal_ubig (nat \<bar>sign_size op\<bar>) (digit_list op)" using assms by (simp add: wf_bigint_def)
  note b = normal_ubigD(4) [OF n] normal_ubig_zero [OF n]
  show "bp_sign_bigint op = (if big_val op < 0 then - 1 else 1)" "big_val op = 0 \<longleftrightarrow> sign_size op = 0"
    using b by (auto simp: bp_sign_bigint_def bp_decompose_bigint_def big_val_def Let_def)
qed


text \<open>The dividend is taken in its dividing form: the magnitude, or one less if the signs differ.\<close>

lemma small_iff:
  assumes "normal_ubig m x" "normal_ubig n y"
  shows "m < n \<or> (m = n \<and> bp_compare_mag_mag m x y < 0) \<longleftrightarrow> ubig_val m x < ubig_val n y"
proof -
  note d = normal_ubigD(1) [OF assms(1)] normal_ubigD(1) [OF assms(2)]
  consider "m < n" | "n < m" | "m = n" by linarith
  then show ?thesis
  proof cases
    case 1
    then show ?thesis using normal_val_less [OF assms(2) d(1) 1] by simp
  next
    case 2
    then show ?thesis using normal_val_less [OF assms(1) d(2) 2] by simp
  next
    case 3
    then show ?thesis using compare_mag_val [of n x y] d by (auto simp: sgn_if)
  qed
qed

lemma div_ubig_normal:
  assumes nx: "normal_ubig m x" and ny: "normal_ubig n y" and n: "0 < n"
    and ge: "ubig_val n y \<le> ubig_val m x"
    and lens: "m < length q" "m < length r" "m < length b"
    and res: "bp_div_ubig_ubig m x n y q r b = (qsize, q', rsize, r')"
  shows "normal_ubig qsize q' \<and> ubig_val qsize q' = ubig_val m x div ubig_val n y \<and> 0 < qsize
     \<and> qsize \<le> m \<and> length q' = length q \<and> normal_ubig rsize r'
     \<and> ubig_val rsize r' = ubig_val m x mod ubig_val n y \<and> length r' = length r"
proof -
  have X: "ubig_val m x < BP_BIGINT_BASE ^ m" by (rule normal_ubigD(3) [OF nx])
  have nm: "n \<le> m" by (rule normal_ubig_size_le [OF ny le_less_trans [OF ge X]])
  have ls: "m - n + 1 \<le> length q" "m + 1 \<le> length r" "m + 1 \<le> length b" using lens nm n by auto
  note c = bp_div_ubig_ubig_correct [OF normal_ubigD(1) [OF nx] ny n nm ls res]
  have Y: "0 < ubig_val n y" using normal_ubig_zero [OF ny] normal_ubigD(4) [OF ny] n by linarith
  then have q1: "0 < ubig_val qsize q'" using c ge by (simp add: pos_imp_zdiv_pos_iff)
  then have q0: "0 < qsize" by (cases qsize) auto
  have "normal_ubig qsize q'"
  proof (cases "qsize = m - n + 1")
    case True
    then show ?thesis using c by (simp add: normal_ubig_def)
  next
    case False
    then have qs: "qsize = m - n" using c by simp
    have "BP_BIGINT_BASE ^ (qsize - 1) * ubig_val n y \<le> BP_BIGINT_BASE ^ (qsize - 1) * BP_BIGINT_BASE ^ n"
      using normal_ubigD(3) [OF ny] by (intro mult_left_mono) auto
    also have "\<dots> = BP_BIGINT_BASE ^ (m - 1)"
      using qs q0 nm by (simp flip: power_add)
    also have "\<dots> \<le> ubig_val m x" using normal_ubigD(2) [OF nx] n nm by simp
    finally have "(BP_BIGINT_BASE ^ (qsize - 1) * ubig_val n y) div ubig_val n y \<le> ubig_val m x div ubig_val n y"
      using Y by (rule zdiv_mono1)
    then have "BP_BIGINT_BASE ^ (qsize - 1) \<le> ubig_val m x div ubig_val n y"
      using Y by simp
    then show ?thesis using c by (intro normal_ubigI) simp_all
  qed
  then show ?thesis using c q0 nm n by auto
qed

lemma inc_ubig_normal:
  assumes "normal_ubig n y" "0 < n" "n < length y" "bp_inc_ubig n y = (zsize, z)"
  shows "normal_ubig zsize z \<and> ubig_val zsize z = ubig_val n y + 1 \<and> length z = length y"
proof -
  note c = bp_inc_ubig_correct [OF normal_ubigD(1) [OF assms(1)] assms(2-4)]
  have "normal_ubig zsize z"
    using c normal_ubigD(2) [OF assms(1,2)] by (intro normal_ubigI) auto
  with c show ?thesis by simp
qed

lemma div_opposite:
  assumes "0 < (X::int)" "0 < Y"
  shows "(- X) div Y = - ((X - 1) div Y + 1)" "X div (- Y) = - ((X - 1) div Y + 1)"
    "(- X) mod Y = Y - (X - 1) mod Y - 1" "X mod (- Y) = - (Y - (X - 1) mod Y - 1)"
proof -
  define q r where qr: "q = (X - 1) div Y" "r = (X - 1) mod Y"
  have X: "X = Y * q + r + 1" using mult_div_mod_eq [of Y "X - 1"] by (simp add: qr)
  have r: "0 \<le> r" "r < Y" using assms(2) by (simp_all add: qr)
  have e: "- X = Y * (- (q + 1)) + (Y - r - 1)" by (simp add: X algebra_simps)
  have r': "0 \<le> Y - r - 1" "Y - r - 1 < Y" using r by auto
  show 1: "(- X) div Y = - ((X - 1) div Y + 1)"
    unfolding qr(1) [symmetric] by (rule int_div_pos_eq [OF e r'])
  show 2: "(- X) mod Y = Y - (X - 1) mod Y - 1"
    unfolding qr(2) [symmetric] by (rule int_mod_pos_eq [OF e r'])
  show "X div (- Y) = - ((X - 1) div Y + 1)" using 1 by (simp only: div_minus_right)
  show "X mod (- Y) = - (Y - (X - 1) mod Y - 1)" using 2 by (simp only: mod_minus_right)
qed

lemma signed_div_mod:
  assumes "xs = 1 \<or> xs = - 1" "ys = 1 \<or> ys = - 1" "0 < (X::int)" "0 < Y"
  shows "(xs * X) div (ys * Y) = (if xs = ys then X div Y else - ((X - 1) div Y + 1))"
    "(xs * X) mod (ys * Y) = ys * (if xs = ys then X mod Y else Y - (X - 1) mod Y - 1)"
  using assms(1,2) div_opposite [OF assms(3,4)] by (elim disjE; simp)+

lemma bp_div_bigint_is:
  assumes w: "wf_bigint op1" "wf_bigint op2" and nz: "sign_size op2 \<noteq> 0"
  shows "num_is (bp_div_bigint_bigint op1 op2) (big_val op1 div big_val op2)"
proof -
  obtain xs m xD where x: "bp_decompose_bigint op1 = (xs, m, xD)" "xs = 1 \<or> xs = - 1"
    "normal_ubig m (bp_make_ubig_from_dlst xD (m + 1))" "length (bp_make_ubig_from_dlst xD (m + 1)) = m + 1"
    "big_val op1 = xs * ubig_val m (bp_make_ubig_from_dlst xD (m + 1))" "xs = - 1 \<Longrightarrow> 0 < m"
    using w(1) by (rule operandE) blast
  obtain ys n yD where y: "bp_decompose_bigint op2 = (ys, n, yD)" "ys = 1 \<or> ys = - 1"
    "normal_ubig n (bp_make_ubig_from_dlst yD (n + 1))"
    "big_val op2 = ys * ubig_val n (bp_make_ubig_from_dlst yD (n + 1))" "sign_size op2 = ys * int n"
    using w(2) by (rule operandE) blast
  let ?x = "bp_make_ubig_from_dlst xD (m + 1)" and ?y = "bp_make_ubig_from_dlst yD (n + 1)"
  let ?X = "ubig_val m ?x" and ?Y = "ubig_val n ?y"
  let ?qs = "if xs = ys then 1 else - 1 :: int"
  have n: "0 < n" using nz y(5) by auto
  have Y: "0 < ?Y" using normal_ubig_zero [OF y(3)] normal_ubigD(4) [OF y(3)] n by linarith
  show ?thesis
  proof (cases "m = 0")
    case True
    then show ?thesis using num_is_zero by (simp add: bp_div_bigint_bigint_def x(1,5) y(1))
  next
    case False
    have X: "0 < ?X" using normal_ubig_zero [OF x(3)] normal_ubigD(4) [OF x(3)] False by linarith
    obtain m1 x1 where p: "(if ?qs = - 1 then bp_dec_ubig m ?x else (m, ?x)) = (m1, x1)" by fastforce
    have x1: "normal_ubig m1 x1" "ubig_val m1 x1 = (if ?qs = - 1 then ?X - 1 else ?X)" "m1 \<le> m"
      using p x(3) bp_dec_ubig_correct [OF normal_ubigD(1) [OF x(3)] X] by (auto split: if_splits)
    have goal: "big_val op1 div big_val op2
        = (if ?qs = - 1 then - (ubig_val m1 x1 div ?Y + 1) else ubig_val m1 x1 div ?Y)"
      unfolding x(5) y(4) signed_div_mod(1) [OF x(2) y(2) X Y] x1(2) by simp
    note small = small_iff [OF x1(1) y(3)]
    show ?thesis
    proof (cases "ubig_val m1 x1 < ?Y")
      case True
      then have "ubig_val m1 x1 div ?Y = 0" using normal_ubigD(4) [OF x1(1)] by simp
      then have "num_is (if ?qs = 1 then BP_ZERO else BP_MONE) (big_val op1 div big_val op2)"
        using goal num_is_zero by auto
      moreover have "bp_div_bigint_bigint op1 op2 = (if ?qs = 1 then BP_ZERO else BP_MONE)"
        unfolding bp_div_bigint_bigint_def x(1) y(1) Let_def prod.case p small
        using False True by simp
      ultimately show ?thesis by simp
    next
      case ge: False
      let ?c = "stack_cells (m + 1)"
      obtain qsize q rsize r where d: "bp_div_ubig_ubig m1 x1 n ?y ?c ?c ?c = (qsize, q, rsize, r)"
        by (rule prod_cases4)
      have lens: "m1 < length ?c" "?Y \<le> ubig_val m1 x1" using x1(3) ge by auto
      have c: "normal_ubig qsize q" "ubig_val qsize q = ubig_val m1 x1 div ?Y" "0 < qsize"
          "qsize \<le> m1" "length q = length ?c"
        using div_ubig_normal [OF x1(1) y(3) n lens(2) lens(1) lens(1) lens(1) d] by blast+
      obtain qsize2 q2 where q2: "(if ?qs = - 1 then bp_inc_ubig qsize q else (qsize, q)) = (qsize2, q2)"
        by fastforce
      have ql: "qsize < length q" using c(4,5) x1(3) by simp
      have q1: "0 < ubig_val qsize q" using normal_ubig_zero [OF c(1)] normal_ubigD(4) [OF c(1)] c(3) by linarith
      have r: "normal_ubig qsize2 q2" "ubig_val qsize2 q2 = (if ?qs = - 1 then ubig_val qsize q + 1 else ubig_val qsize q)"
        using q2 c(1) inc_ubig_normal [OF c(1,3) ql] by (cases "?qs = - 1"; simp)+
      then have "num_is (bp_num_from_ubig ?qs (qsize2, q2)) (big_val op1 div big_val op2)"
        using q1 goal c(2) by (intro num_from_ubig_is) (simp_all split: if_splits)
      moreover have "bp_div_bigint_bigint op1 op2 = bp_num_from_ubig ?qs (qsize2, q2)"
        unfolding bp_div_bigint_bigint_def x(1) y(1) Let_def prod.case p small
        using False ge d q2 by simp
      ultimately show ?thesis by simp
    qed
  qed
qed


lemma mod_adjust:
  assumes ny: "normal_ubig n y" and nr: "normal_ubig m r" and lt: "ubig_val m r < ubig_val n y"
    and len: "n \<le> length r"
    and res: "(let (rsize, r) = bp_sub_ubig_ubig n y m r r in bp_dec_ubig rsize r) = (s, z)"
  shows "normal_ubig s z \<and> ubig_val s z = ubig_val n y - ubig_val m r - 1"
proof -
  have mn: "m \<le> n" by (rule normal_ubig_size_le [OF nr less_trans [OF lt normal_ubigD(3) [OF ny]]])
  obtain s1 z1 where r: "bp_sub_ubig_ubig n y m r r = (s1, z1)" by fastforce
  note c = bp_sub_ubig_ubig_correct [OF normal_ubigD(1) [OF ny] normal_ubigD(1) [OF nr] mn len less_imp_le [OF lt] r]
  have d: "digits_ok s1 z1" "0 < ubig_val s1 z1" using c lt by (auto simp: normal_ubig_def)
  have "bp_dec_ubig s1 z1 = (s, z)" using res r by simp
  from bp_dec_ubig_correct [OF d this] c show ?thesis by simp
qed

lemma num_or_zero_is:
  assumes "normal_ubig n z" "sign = 1 \<or> sign = - 1" "i = sign * ubig_val n z"
  shows "\<exists>v. (if n = 0 then Inr BP_ZERO else Inr (bp_num_from_ubig sign (n, z))) = Inr v \<and> num_is v i"
proof (cases "n = 0")
  case True
  then show ?thesis using assms num_is_zero by simp
next
  case False
  then have "0 < ubig_val n z" using normal_ubig_zero [OF assms(1)] normal_ubigD(4) [OF assms(1)] by linarith
  then show ?thesis using num_from_ubig_is [OF assms(1) _ assms(2,3)] False by simp
qed

lemma normal_append: "normal_ubig n x \<Longrightarrow> normal_ubig n (x @ ys) \<and> ubig_val n (x @ ys) = ubig_val n x"
proof -
  assume n: "normal_ubig n x"
  then have "n \<le> length x" by (simp add: normal_ubig_def digits_ok_def)
  with ubig_cong [of n x "x @ ys"] n show ?thesis by (simp add: nth_append)
qed

lemma bp_mod_bigint_is:
  assumes w: "wf_bigint op1" "wf_bigint op2" and nz: "sign_size op2 \<noteq> 0"
    and room: "(sign_size op1 < 0) = (sign_size op2 < 0) \<or> \<bar>sign_size op2\<bar> \<le> 3 * (\<bar>sign_size op1\<bar> + 1)"
  shows "\<exists>v. bp_mod_bigint_bigint op1 op2 = Inr v \<and> num_is v (big_val op1 mod big_val op2)"
proof -
  obtain xs m xD where x: "bp_decompose_bigint op1 = (xs, m, xD)" "xs = 1 \<or> xs = - 1"
    "normal_ubig m (bp_make_ubig_from_dlst xD (m + 1))" "length (bp_make_ubig_from_dlst xD (m + 1)) = m + 1"
    "big_val op1 = xs * ubig_val m (bp_make_ubig_from_dlst xD (m + 1))" "sign_size op1 = xs * int m"
    "xs = - 1 \<Longrightarrow> 0 < m"
    using w(1) by (rule operandE) blast
  obtain ys n yD where y: "bp_decompose_bigint op2 = (ys, n, yD)" "ys = 1 \<or> ys = - 1"
    "normal_ubig n (bp_make_ubig_from_dlst yD (n + 1))"
    "big_val op2 = ys * ubig_val n (bp_make_ubig_from_dlst yD (n + 1))" "sign_size op2 = ys * int n"
    using w(2) by (rule operandE) blast
  let ?x = "bp_make_ubig_from_dlst xD (m + 1)" and ?y = "bp_make_ubig_from_dlst yD (n + 1)"
  let ?X = "ubig_val m ?x" and ?Y = "ubig_val n ?y" and ?c = "stack_cells (m + 1)"
  let ?qs = "if xs = ys then 1 else - 1 :: int"
  have n: "0 < n" using nz y(5) by auto
  have Y: "0 < ?Y" using normal_ubig_zero [OF y(3)] normal_ubigD(4) [OF y(3)] n by linarith
  show ?thesis
  proof (cases "m = 0")
    case True
    then show ?thesis using num_is_zero by (simp add: bp_mod_bigint_bigint_def x(1,5) y(1))
  next
    case False
    have X: "0 < ?X" using normal_ubig_zero [OF x(3)] normal_ubigD(4) [OF x(3)] False by linarith
    have room': "n \<le> 3 * (m + 1)" if "xs \<noteq> ys"
      using room that x(2,6) y(2,5) False n by auto
    obtain m1 x1 where p: "(if ?qs = - 1 then bp_dec_ubig m ?x else (m, ?x)) = (m1, x1)" by fastforce
    have x1: "normal_ubig m1 x1" "ubig_val m1 x1 = (if ?qs = - 1 then ?X - 1 else ?X)" "m1 \<le> m"
        "length x1 = m + 1"
      using p x(3,4) bp_dec_ubig_correct [OF normal_ubigD(1) [OF x(3)] X] by (auto split: if_splits)
    have goal: "big_val op1 mod big_val op2
        = ys * (if ?qs = - 1 then ?Y - ubig_val m1 x1 mod ?Y - 1 else ubig_val m1 x1 mod ?Y)"
      unfolding x(5) y(4) signed_div_mod(2) [OF x(2) y(2) X Y] x1(2) by simp
    note small = small_iff [OF x1(1) y(3)]
    obtain rs r where r: "(if ubig_val m1 x1 < ?Y then (m1, x1 @ ?c @ ?c)
         else case bp_div_ubig_ubig m1 x1 n ?y ?c ?c ?c of
                (qsize, q, rsize, r) \<Rightarrow> (rsize, r @ q)) = (rs, r)" by fastforce
    have rr: "normal_ubig rs r \<and> ubig_val rs r = ubig_val m1 x1 mod ?Y \<and> (xs \<noteq> ys \<longrightarrow> n \<le> length r)"
    proof (cases "ubig_val m1 x1 < ?Y")
      case True
      then have "rs = m1" "r = x1 @ ?c @ ?c" using r by auto
      moreover have "ubig_val m1 x1 mod ?Y = ubig_val m1 x1"
        using True normal_ubigD(4) [OF x1(1)] by simp
      moreover have "xs \<noteq> ys \<longrightarrow> n \<le> length (x1 @ ?c @ ?c)" using room' x1(4) by auto
      ultimately show ?thesis using normal_append [OF x1(1)] by simp
    next
      case ge: False
      obtain qsize q' rsize r' where d: "bp_div_ubig_ubig m1 x1 n ?y ?c ?c ?c = (qsize, q', rsize, r')"
        by (rule prod_cases4)
      have lens: "m1 < length ?c" "?Y \<le> ubig_val m1 x1" using x1(3) ge by auto
      have c: "normal_ubig rsize r'" "ubig_val rsize r' = ubig_val m1 x1 mod ?Y" "length r' = length ?c"
        using div_ubig_normal [OF x1(1) y(3) n lens(2) lens(1) lens(1) lens(1) d] by blast+
      have "rs = rsize" "r = r' @ q'" using r ge d by auto
      moreover have "n \<le> m1"
        by (rule normal_ubig_size_le [OF y(3) le_less_trans [OF lens(2) normal_ubigD(3) [OF x1(1)]]])
      ultimately show ?thesis using c x1(3) normal_append [OF c(1)] by simp
    qed
    have eq: "bp_mod_bigint_bigint op1 op2 =
        (if ?qs = - 1 \<and> length r < n then Inl STACK_OVERRUN
         else let (rsize, r) = (if ?qs = - 1 then let (rsize, r) = bp_sub_ubig_ubig n ?y rs r r
                                in bp_dec_ubig rsize r else (rs, r))
           in if rsize = 0 then Inr BP_ZERO else Inr (bp_num_from_ubig ys (rsize, r)))"
      unfolding bp_mod_bigint_bigint_def x(1) y(1) Let_def prod.case p small r
      using False by simp
    have lt: "ubig_val m1 x1 mod ?Y < ?Y" using Y by simp
    show ?thesis
    proof (cases "xs = ys")
      case True
      then have "bp_mod_bigint_bigint op1 op2
          = (if rs = 0 then Inr BP_ZERO else Inr (bp_num_from_ubig ys (rs, r)))"
        unfolding eq by simp
      then show ?thesis using num_or_zero_is [of rs r ys] rr y(2) goal True by simp
    next
      case diff: False
      obtain s z where a: "(let (rsize, r) = bp_sub_ubig_ubig n ?y rs r r in bp_dec_ubig rsize r) = (s, z)"
        by fastforce
      have sz: "normal_ubig s z" "ubig_val s z = ?Y - ubig_val rs r - 1"
        using mod_adjust [OF y(3) _ _ _ a] rr lt diff by auto
      have "bp_mod_bigint_bigint op1 op2
          = (if s = 0 then Inr BP_ZERO else Inr (bp_num_from_ubig ys (s, z)))"
        unfolding eq a using diff rr by simp
      then show ?thesis using num_or_zero_is [OF sz(1) y(2)] sz(2) rr goal diff by simp
    qed
  qed
qed


section \<open>Conversions\<close>

lemma ubig_val_Cons: "ubig_val (Suc n) (d # ds) = d + BP_BIGINT_BASE * ubig_val n ds"
  by (induction n) (simp_all add: ubig_val_Suc algebra_simps)

lemma int_to_digits_0 [simp]: "int_to_digits 0 = []"
  by (simp add: int_to_digits.simps)

lemma int_to_digits_normal:
  "0 \<le> a \<Longrightarrow> normal_ubig (length (int_to_digits a)) (int_to_digits a)
     \<and> ubig_val (length (int_to_digits a)) (int_to_digits a) = a"
proof (induction a rule: int_to_digits.induct)
  case (1 a)
  show ?case
  proof (cases "a = 0")
    case True
    then show ?thesis by (simp add: normal_ubig_def)
  next
    case False
    let ?q = "a div BP_BIGINT_BASE" and ?r = "a mod BP_BIGINT_BASE"
    have e: "int_to_digits a = ?r # int_to_digits ?q"
      using False "1.prems" by (simp add: int_to_digits.simps [of a] smod_nonneg sdiv_nonneg)
    have q: "0 \<le> ?q" using "1.prems" by (simp add: pos_imp_zdiv_nonneg_iff)
    then have IH: "normal_ubig (length (int_to_digits ?q)) (int_to_digits ?q)"
        "ubig_val (length (int_to_digits ?q)) (int_to_digits ?q) = ?q"
      using "1.IH" False "1.prems" by (auto simp: sdiv_nonneg)
    have v: "ubig_val (length (int_to_digits a)) (int_to_digits a) = a"
      by (simp add: e ubig_val_Cons IH(2))
    have "int_to_digits ?q = [] \<longrightarrow> ?r \<noteq> 0" using IH(2) v False by (auto simp: e ubig_val_def)
    moreover have "0 \<le> ?r \<and> ?r < BP_BIGINT_BASE" by simp
    ultimately have "normal_ubig (length (int_to_digits a)) (int_to_digits a)"
      using IH(1) by (auto simp: e normal_ubig_def digits_ok_def nth_Cons split: nat.splits)
    with v show ?thesis by simp
  qed
qed

lemma bp_int_to_bigint_sound:
  "wf_bigint (bp_int_to_bigint a)" "big_val (bp_int_to_bigint a) = a"
  "sign_size (bp_int_to_bigint a) = 0 \<longleftrightarrow> a = 0"
proof -
  let ?a = "\<bar>a\<bar>" and ?s = "if a < 0 then - 1 else 1 :: int"
  have e: "bp_int_to_bigint a = bp_make_bigint_from_ubig ?s (length (int_to_digits ?a)) (int_to_digits ?a)"
    by (simp add: bp_int_to_bigint_def Let_def)
  have n: "normal_ubig (length (int_to_digits ?a)) (int_to_digits ?a)"
    "ubig_val (length (int_to_digits ?a)) (int_to_digits ?a) = ?a"
    using int_to_digits_normal [of ?a] by auto
  note m = make_bigint_sound [OF n(1), of ?s]
  show w: "wf_bigint (bp_int_to_bigint a)" and v: "big_val (bp_int_to_bigint a) = a"
    using m n(2) by (auto simp: e)
  show "sign_size (bp_int_to_bigint a) = 0 \<longleftrightarrow> a = 0"
    using big_val_sign(2) [OF w] v by simp
qed

text \<open>A magnitude below \<open>2^63\<close> is converted exactly.\<close>

lemma bp_ubig_to_int_val:
  assumes d: "digits_ok n x" and n: "0 < n" and b: "ubig_val n x < 2 ^ 63"
  shows "bp_ubig_to_int n x = ubig_val n x"
proof -
  let ?P = "\<lambda>k res. ubig_val n x = ubig_val k x + res * BP_BIGINT_BASE ^ k \<and> 0 \<le> res"
  obtain m where m: "n = Suc m" using n by (cases n) auto
  have bound: "0 \<le> res \<Longrightarrow> ubig_val n x = ubig_val k x + res * BP_BIGINT_BASE ^ k \<Longrightarrow> k \<le> n \<Longrightarrow> res < 2 ^ 63"
    for k res
  proof -
    assume r: "0 \<le> res" "ubig_val n x = ubig_val k x + res * BP_BIGINT_BASE ^ k" "k \<le> n"
    have "res * 1 \<le> res * BP_BIGINT_BASE ^ k" using r(1) by (intro mult_left_mono one_le_power) auto
    then show ?thesis using r b ubig_val_nonneg [OF digits_ok_le [OF d r(3)]] by linarith
  qed
  have "?P 0 (for_down m (\<lambda>i res. to_long (res * BP_BIGINT_BASE + x ! i)) (x ! m))"
  proof (rule for_down_rule [where P = ?P])
    show "?P m (x ! m)" using digits_okD [OF d, of m] m by (simp add: ubig_val_Suc)
  next
    fix k res assume k: "k < m" and P: "?P (Suc k) res"
    have "0 \<le> x ! k" using digits_okD [OF d, of k] k m by simp
    then have nn: "0 \<le> res * BP_BIGINT_BASE + x ! k" using P by simp
    have e: "ubig_val n x = ubig_val k x + (res * BP_BIGINT_BASE + x ! k) * BP_BIGINT_BASE ^ k"
      using P by (simp add: ubig_val_Suc algebra_simps)
    have "res * BP_BIGINT_BASE + x ! k < 2 ^ 63" by (rule bound [OF nn e]) (use k m in simp)
    then have "to_long (res * BP_BIGINT_BASE + x ! k) = res * BP_BIGINT_BASE + x ! k"
      using nn by (intro to_long_id) auto
    with e nn show "?P k (to_long (res * BP_BIGINT_BASE + x ! k))" by simp
  qed
  then show ?thesis by (simp add: bp_ubig_to_int_def m)
qed

lemma bp_bigint_to_int_mag:
  assumes "wf_bigint op" "sign_size op \<noteq> 0" "\<bar>big_val op\<bar> < 2 ^ 63"
  shows "bp_bigint_to_int op = \<bar>big_val op\<bar>"
proof -
  obtain s n D where x: "bp_decompose_bigint op = (s, n, D)" "s = 1 \<or> s = - 1"
    "digits_ok n (bp_make_ubig_from_dlst D (n + 1))"
    "big_val op = s * ubig_val n (bp_make_ubig_from_dlst D (n + 1))" "sign_size op = s * int n"
    using assms(1) by (rule operandE) blast
  have "\<bar>big_val op\<bar> = ubig_val n (bp_make_ubig_from_dlst D (n + 1))"
    using x(2,4) ubig_val_nonneg [OF x(3)] by auto
  moreover have "0 < n" using assms(2) x(5) by auto
  ultimately show ?thesis
    using bp_ubig_to_int_val [OF x(3)] assms(3) by (simp add: bp_bigint_to_int_def x(1))
qed

lemma bp_bigint_to_native_long_val:
  assumes "wf_bigint op"
  shows "bp_bigint_to_native_long op =
    (if 2 ^ 56 \<le> big_val op \<and> big_val op < 2 ^ 63 then big_val op else 0)"
proof -
  obtain s n D where x: "bp_decompose_bigint op = (s, n, D)" "s = 1 \<or> s = - 1"
    "normal_ubig n (bp_make_ubig_from_dlst D (n + 1))"
    "big_val op = s * ubig_val n (bp_make_ubig_from_dlst D (n + 1))"
    using assms by (rule operandE) blast
  let ?x = "bp_make_ubig_from_dlst D (n + 1)"
  note d = normal_ubigD(1) [OF x(3)]
  have P: "BP_BIGINT_BASE ^ 2 = 2 ^ 56" "BP_BIGINT_BASE ^ 3 = 2 ^ 84" by (simp_all add: BP_BIGINT_BASE_def)
  show ?thesis
  proof (cases "s = 1 \<and> n = 3")
    case True
    have low: "0 \<le> ubig_val 2 ?x" "ubig_val 2 ?x < 2 ^ 56"
      using ubig_val_bounds [OF digits_ok_le [OF d, of 2]] True by (auto simp: P)
    have v: "ubig_val n ?x = ubig_val 2 ?x + ?x ! 2 * 2 ^ 56"
    proof -
      have "n = Suc 2" using True by simp
      then show ?thesis using P(1) by (simp only: ubig_val_Suc)
    qed
    have ge: "2 ^ 56 \<le> ubig_val n ?x" using normal_ubigD(2) [OF x(3)] True by (simp add: P)
    show ?thesis
    proof (cases "128 \<le> ?x ! 2")
      case big: True
      then have "\<not> ubig_val n ?x < 2 ^ 63" using v low by simp
      then show ?thesis using big True x(1,4) by (simp add: bp_bigint_to_native_long_def)
    next
      case False
      then have "ubig_val n ?x < 2 ^ 63" using v low by simp
      then show ?thesis
        using False True x(1,4) bp_ubig_to_int_val [OF d] ge by (simp add: bp_bigint_to_native_long_def)
    qed
  next
    case False
    have "\<not> (2 ^ 56 \<le> big_val op \<and> big_val op < 2 ^ 63)"
    proof
      assume r: "2 ^ 56 \<le> big_val op \<and> big_val op < 2 ^ 63"
      then have s: "s = 1" using x(2,4) ubig_val_nonneg [OF d] by auto
      have "n \<le> 3" by (rule normal_ubig_size_le [OF x(3)]) (use r s x(4) in \<open>simp add: P\<close>)
      moreover have "\<not> n \<le> 2"
      proof
        assume "n \<le> 2"
        then have "BP_BIGINT_BASE ^ n \<le> BP_BIGINT_BASE ^ 2" by (rule power_increasing) simp
        then show False using normal_ubigD(3) [OF x(3)] r s x(4) unfolding P by simp
      qed
      ultimately show False using False s by simp
    qed
    then show ?thesis using False by (auto simp: bp_bigint_to_native_long_def x(1))
  qed
qed

text \<open>The case that \<open>bp_mod_bigint_is\<close> excludes.\<close>

lemma bp_mod_bigint_overrun:
  assumes w: "wf_bigint op1" "wf_bigint op2" and nz: "sign_size op1 \<noteq> 0"
    and diff: "(sign_size op1 < 0) \<noteq> (sign_size op2 < 0)"
    and big: "3 * (\<bar>sign_size op1\<bar> + 1) < \<bar>sign_size op2\<bar>"
  shows "bp_mod_bigint_bigint op1 op2 = Inl STACK_OVERRUN"
proof -
  obtain xs m xD where x: "bp_decompose_bigint op1 = (xs, m, xD)" "xs = 1 \<or> xs = - 1"
    "normal_ubig m (bp_make_ubig_from_dlst xD (m + 1))" "length (bp_make_ubig_from_dlst xD (m + 1)) = m + 1"
    "sign_size op1 = xs * int m"
    using w(1) by (rule operandE) blast
  obtain ys n yD where y: "bp_decompose_bigint op2 = (ys, n, yD)" "ys = 1 \<or> ys = - 1"
    "sign_size op2 = ys * int n"
    using w(2) by (rule operandE) blast
  let ?x = "bp_make_ubig_from_dlst xD (m + 1)"
  have m: "0 < m" and mn: "3 * (m + 1) < n" and s: "xs \<noteq> ys"
    using nz big diff x(2,5) y(2,3) by (auto simp: abs_mult)
  have X: "0 < ubig_val m ?x" using normal_ubig_zero [OF x(3)] normal_ubigD(4) [OF x(3)] m by linarith
  obtain m1 x1 where p: "bp_dec_ubig m ?x = (m1, x1)" by fastforce
  have x1: "m1 \<le> m" "length x1 = m + 1"
    using bp_dec_ubig_correct [OF normal_ubigD(1) [OF x(3)] X p] x(4) by auto
  show ?thesis
    using m mn s x1 p by (simp add: bp_mod_bigint_bigint_def x(1) y(1) Let_def)
qed

section \<open>Exactness of the arithmetic\<close>

text \<open>Addition, subtraction and multiplication of big integers are exact for operands of any
  size and sign, and the result is in the engine's form: one word if it fits, otherwise a big
  integer without leading zeros of at least three digits.\<close>

theorem bigint_ring_exact:
  assumes "wf_bigint op1" "wf_bigint op2" "sign_size op1 \<noteq> 0" "sign_size op2 \<noteq> 0"
  shows "num_is (bp_add_bigint_bigint op1 op2) (big_val op1 + big_val op2)
    \<and> num_is (bp_sub_bigint_bigint op1 op2) (big_val op1 - big_val op2)
    \<and> num_is (bp_mul_bigint_bigint op1 op2) (big_val op1 * big_val op2)"
  using bp_add_bigint_is bp_sub_bigint_is bp_mul_bigint_is assms by blast

theorem bigint_ring_exact_witness:
  "bp_add_bigint_bigint \<lparr>sign_size = 3, digit_list = [0, 0, 1]\<rparr> \<lparr>sign_size = - 1, digit_list = [1]\<rparr>
     = MAKEINT 72057594037927935
   \<and> num_is (bp_add_bigint_bigint \<lparr>sign_size = 3, digit_list = [0, 0, 1]\<rparr>
       \<lparr>sign_size = - 1, digit_list = [1]\<rparr>) 72057594037927935"
proof -
  let ?a = "\<lparr>sign_size = 3, digit_list = [0, 0, 1]\<rparr>" and ?b = "\<lparr>sign_size = - 1, digit_list = [1]\<rparr>"
  have w: "wf_bigint ?a" "wf_bigint ?b" by code_simp+
  have e: "bp_add_bigint_bigint ?a ?b = MAKEINT 72057594037927935" by code_simp
  have v: "big_val ?a + big_val ?b = 72057594037927935" by code_simp
  from bigint_ring_exact [OF w] e v show ?thesis by simp
qed

text \<open>Division of big integers rounds towards minus infinity, for every combination of signs:
  the correction of the magnitude by one before and after the long division is the right one.\<close>

theorem bigint_div_floor:
  assumes "wf_bigint op1" "wf_bigint op2" "sign_size op2 \<noteq> 0"
  shows "num_is (bp_div_bigint_bigint op1 op2) (big_val op1 div big_val op2)"
  by (rule bp_div_bigint_is [OF assms])

theorem bigint_div_floor_witness:
  "bp_div_bigint_bigint \<lparr>sign_size = - 1, digit_list = [7]\<rparr> \<lparr>sign_size = 1, digit_list = [2]\<rparr> = MAKEINT (- 4)
   \<and> num_is (bp_div_bigint_bigint \<lparr>sign_size = - 1, digit_list = [7]\<rparr> \<lparr>sign_size = 1, digit_list = [2]\<rparr>) (- 4)"
proof -
  let ?a = "\<lparr>sign_size = - 1, digit_list = [7]\<rparr>" and ?b = "\<lparr>sign_size = 1, digit_list = [2]\<rparr>"
  have w: "wf_bigint ?a" "wf_bigint ?b" by code_simp+
  have e: "bp_div_bigint_bigint ?a ?b = MAKEINT (- 4)" by code_simp
  have v: "big_val ?a div big_val ?b = - 4" by code_simp
  from bigint_div_floor [OF w] e v show ?thesis by simp
qed

text \<open>C3. The remainder has the sign of the divisor and belongs to the quotient that rounds towards
  minus infinity, provided the divisor's digits fit in the stack area from the dividend's array
  to the top, or the signs agree.\<close>

theorem bigint_mod_floor:
  assumes "wf_bigint op1" "wf_bigint op2" "sign_size op2 \<noteq> 0"
    and "(sign_size op1 < 0) = (sign_size op2 < 0) \<or> \<bar>sign_size op2\<bar> \<le> 3 * (\<bar>sign_size op1\<bar> + 1)"
  shows "\<exists>v. bp_mod_bigint_bigint op1 op2 = Inr v \<and> num_is v (big_val op1 mod big_val op2)"
  by (rule bp_mod_bigint_is [OF assms])

theorem bigint_mod_floor_witness:
  "bp_mod_bigint_bigint \<lparr>sign_size = - 1, digit_list = [1]\<rparr> \<lparr>sign_size = 3, digit_list = [0, 0, 1]\<rparr>
     = Inr (MAKEINT 72057594037927935)"
proof -
  let ?a = "\<lparr>sign_size = - 1, digit_list = [1]\<rparr>" and ?b = "\<lparr>sign_size = 3, digit_list = [0, 0, 1]\<rparr>"
  have w: "wf_bigint ?a" "wf_bigint ?b" by code_simp+
  have e: "bp_mod_bigint_bigint ?a ?b = Inr (MAKEINT 72057594037927935)" by code_simp
  from bigint_mod_floor [OF w] e show ?thesis by simp
qed

text \<open>C4. The other side of C3: a nonzero dividend whose sign differs from the divisor's, with so
  few digits that the divisor does not fit into the area, makes \<open>bp_mod_bigint_bigint\<close> write past
  the top of the local stack.\<close>

theorem bigint_mod_overrun:
  assumes "wf_bigint op1" "wf_bigint op2" "sign_size op1 \<noteq> 0"
    and "(sign_size op1 < 0) \<noteq> (sign_size op2 < 0)" "3 * (\<bar>sign_size op1\<bar> + 1) < \<bar>sign_size op2\<bar>"
  shows "bp_mod_bigint_bigint op1 op2 = Inl STACK_OVERRUN"
  by (rule bp_mod_bigint_overrun [OF assms])

theorem bigint_mod_overrun_witness:
  "bp_mod_bigint_bigint \<lparr>sign_size = - 1, digit_list = [1]\<rparr>
     \<lparr>sign_size = 7, digit_list = [0, 0, 0, 0, 0, 0, 1]\<rparr> = Inl STACK_OVERRUN"
proof -
  have w: "wf_bigint \<lparr>sign_size = - 1, digit_list = [1]\<rparr>"
    "wf_bigint \<lparr>sign_size = 7, digit_list = [0, 0, 0, 0, 0, 0, 1]\<rparr>" by code_simp+
  from bigint_mod_overrun [OF w] show ?thesis by simp
qed

text \<open>Comparison of big integers is the order of the integers they denote.\<close>

theorem bigint_compare_order:
  assumes "wf_bigint op1" "wf_bigint op2"
  shows "bp_compare_bigint_bigint op1 op2 = sgn (big_val op1 - big_val op2)"
  by (rule bp_compare_bigint_sgn [OF assms])

theorem bigint_compare_order_witness:
  "bp_compare_bigint_bigint \<lparr>sign_size = - 2, digit_list = [5, 1]\<rparr> \<lparr>sign_size = - 2, digit_list = [4, 1]\<rparr> = - 1"
proof -
  have w: "wf_bigint \<lparr>sign_size = - 2, digit_list = [5, 1]\<rparr>" "wf_bigint \<lparr>sign_size = - 2, digit_list = [4, 1]\<rparr>"
    by code_simp+
  have v: "big_val \<lparr>sign_size = - 2, digit_list = [5, 1]\<rparr> - big_val \<lparr>sign_size = - 2, digit_list = [4, 1]\<rparr> = - 1"
    by code_simp
  from bigint_compare_order [OF w] v show ?thesis by simp
qed

text \<open>Converting an integer to a big integer and back: \<open>bp_int_to_bigint\<close> denotes its argument,
  \<open>bp_bigint_to_native_long\<close> returns it for an argument between \<open>2^56\<close> and \<open>2^63\<close> and 0 for any
  other, and \<open>bp_bigint_to_int\<close> returns the magnitude (the sign is dropped).\<close>

lemma int_bigint_roundtrip:
  assumes "- (2 ^ 63) < a" "a < 2 ^ 63"
  shows "big_val (bp_int_to_bigint a) = a
    \<and> bp_bigint_to_native_long (bp_int_to_bigint a) = (if 2 ^ 56 \<le> a then a else 0)
    \<and> (a \<noteq> 0 \<longrightarrow> bp_bigint_to_int (bp_int_to_bigint a) = \<bar>a\<bar>)"
  using bp_int_to_bigint_sound [of a] bp_bigint_to_native_long_val [of "bp_int_to_bigint a"]
    bp_bigint_to_int_mag [of "bp_int_to_bigint a"] assms by auto

text \<open>\<open>b_BUILD_56B_INT_ccf\<close> combines two halves by a disjunction. The result is
  \<open>w1 * 2^28 + w0\<close> when \<open>w0\<close> is not negative; for a negative \<open>w0\<close>, which the comment allows, the
  upper half is lost.\<close>

lemma build_56b_int:
  assumes "- (2 ^ 28) < w0" "w0 < 2 ^ 28"
  shows "num_val (b_BUILD_56B_INT_ccf w1 w0) = (if 0 \<le> w0 then w1 * 2 ^ 28 + w0 else w0)"
proof (cases "0 \<le> w0")
  case True
  with assms(2) show ?thesis
    using or_eq_plus_shift [of w0 28 w1] by (simp add: b_BUILD_56B_INT_ccf_def or.commute push_bit_eq_mult)
next
  case False
  then have "signed_take_bit 28 w0 = w0" using assms by (intro signed_take_bit_int_eq_self) auto
  moreover have "push_bit 28 w1 OR signed_take_bit 28 w0 = signed_take_bit 28 w0" if "bit w0 28"
    by (rule bit_eqI, rename_tac i, case_tac "i < 28") (use that in \<open>auto simp: bit_simps min_def\<close>)
  moreover have "bit w0 28"
  proof -
    have "w0 div 2 ^ 28 = - 1"
      using False assms by (intro int_div_pos_eq [where r = "w0 + 2 ^ 28"]) auto
    then show ?thesis by (simp only: bit_iff_odd) simp
  qed
  ultimately show ?thesis using False by (simp add: b_BUILD_56B_INT_ccf_def)
qed

lemma build_56b_int_values:
  "num_val (b_BUILD_56B_INT_ccf 3 5) = 805306373 \<and> num_val (b_BUILD_56B_INT_ccf 1 (- 1)) = - 1"
  using build_56b_int [of 5 3] build_56b_int [of "- 1" 1] by simp

end
