(* ===== verification/Bigint_Bits.thy ===== *)
theory Bigint_Bits
  imports Bigint
begin

text \<open>
  The bitwise operations and shifts of signed big integers, \<open>emu/bigint.c\<close>. A negative operand
  is put in two's complement, the digitwise routine applied, and a result with the imaginary
  sign bit is converted back. \<open>bp_and_bigint_bigint\<close>, \<open>bp_or_bigint_bigint\<close> and
  \<open>bp_xor_bigint_bigint\<close> are the same text around a different digitwise routine, which is an
  argument here; what they compute is proved once, in the locale \<open>digit_routine\<close>.
\<close>

section \<open>The operations\<close>

definition bp_bitwise_bigint_bigint ::
  "(nat \<Rightarrow> ubigint \<Rightarrow> nat \<Rightarrow> ubigint \<Rightarrow> ubigint \<Rightarrow> nat \<times> ubigint)
     \<Rightarrow> bigint \<Rightarrow> bigint \<Rightarrow> bpnum" where
  "bp_bitwise_bigint_bigint uop op1 op2 =
     (let (xsign, xsize, xDLst) = bp_decompose_bigint op1;
          (ysign, ysize, yDLst) = bp_decompose_bigint op2;
          dsize = (if xsize > ysize then xsize else ysize);
          x = bp_make_ubig_from_dlst xDLst (xsize + 1);
          y = bp_make_ubig_from_dlst yDLst (ysize + 1);
          x1 = (if xsize < dsize then bp_copy_ubig xsize x dsize (stack_cells (dsize + 1)) else x);
          y1 = (if ysize < dsize then bp_copy_ubig ysize y dsize (stack_cells (dsize + 1)) else y);
          x1 = (if xsign < 0 then bp_twoscomplement_ubig dsize x1 else x1);
          y1 = (if ysign < 0 then bp_twoscomplement_ubig dsize y1 else y1);
          (zsize, z) = uop dsize x1 dsize y1 (stack_cells (dsize + 1))
      in if zsize = 0 then BP_ZERO
         else if zsize = 1 then MAKEINT (z ! 0)
         else if z ! (zsize - 1) \<ge> BP_BIGINT_BASE then
           let (zsize, z) = bp_twoscomplement_magnitude zsize z
           in if zsize = 0 then BP_ZERO else bp_num_from_ubig (- 1) (zsize, z)
         else bp_num_from_ubig 1 (zsize, z))"

definition bp_and_bigint_bigint :: "bigint \<Rightarrow> bigint \<Rightarrow> bpnum" where
  "bp_and_bigint_bigint = bp_bitwise_bigint_bigint bp_and_ubig_ubig"

definition bp_or_bigint_bigint :: "bigint \<Rightarrow> bigint \<Rightarrow> bpnum" where
  "bp_or_bigint_bigint = bp_bitwise_bigint_bigint bp_or_ubig_ubig"

definition bp_xor_bigint_bigint :: "bigint \<Rightarrow> bigint \<Rightarrow> bpnum" where
  "bp_xor_bigint_bigint = bp_bitwise_bigint_bigint bp_xor_ubig_ubig"

text \<open>
  The two shifts call each other with the amount negated; the recursion is one step deep, so it
  is written out. \<open>shiftl_pos\<close> and \<open>shiftr_pos\<close> are the bodies after the test of the sign.
\<close>

definition shiftl_pos :: "bigint \<Rightarrow> int \<Rightarrow> bp_error + bpnum" where
  "shiftl_pos op1 op2 =
     (if op2 = 0 then Inr (MAKEBIG op1)
      else if op2 > BP_MAXINT_1W div 10 then Inl OUT_OF_MEMORY
      else let (xsign, xsize, xDLst) = bp_decompose_bigint op1;
               x = bp_make_ubig_from_dlst xDLst (xsize + 1);
               z = stack_cells (xsize + 10 + nat op2 + 1);
               (zsize, z) = bp_shiftl_ubig_int xsize x (nat op2) z
        in if zsize = 0 then Inr BP_ZERO else Inr (bp_num_from_ubig xsign (zsize, z)))"

definition shiftr_pos :: "bigint \<Rightarrow> int \<Rightarrow> bp_error + bpnum" where
  "shiftr_pos op1 op2 =
     (if op2 = 0 then Inr (MAKEBIG op1)
      else let (xsign, xsize, xDLst) = bp_decompose_bigint op1;
               x = bp_make_ubig_from_dlst xDLst (xsize + 1);
               z = stack_cells (xsize + 1)
        in if xsign > 0 then
             let (zsize, z) = bp_shiftr_ubig_int xsize x (nat op2) z
             in if zsize = 0 then Inr BP_ZERO else Inr (bp_num_from_ubig 1 (zsize, z))
           else
             let x = bp_twoscomplement_ubig xsize x;
                 (zsize, z) = bp_shiftr_twoscomplement_int xsize x (nat op2) z;
                 (zsize, z) = bp_twoscomplement_magnitude zsize z
             in if zsize = 0 then Inr BP_ZERO else Inr (bp_num_from_ubig (- 1) (zsize, z)))"

definition bp_shiftl_bigint_int :: "bigint \<Rightarrow> int \<Rightarrow> bp_error + bpnum" where
  "bp_shiftl_bigint_int op1 op2 = (if op2 < 0 then shiftr_pos op1 (- op2) else shiftl_pos op1 op2)"

definition bp_shiftr_bigint_int :: "bigint \<Rightarrow> int \<Rightarrow> bp_error + bpnum" where
  "bp_shiftr_bigint_int op1 op2 = (if op2 < 0 then shiftl_pos op1 (- op2) else shiftr_pos op1 op2)"

section \<open>Bitwise operations compute the integer operations\<close>

lemma twos_operand:
  assumes x: "normal_ubig m x" "m < length x" and s: "xs = 1 \<or> xs = - 1" "xs = - 1 \<Longrightarrow> 0 < m"
    and n: "m \<le> n" "0 < n"
  defines "x1 \<equiv> if m < n then bp_copy_ubig m x n (stack_cells (n + 1)) else x"
  defines "x2 \<equiv> if xs < 0 then bp_twoscomplement_ubig n x1 else x1"
  shows "twos_digits n x2 \<and> twos_val n x2 = xs * ubig_val m x \<and> (m = n \<longrightarrow> x2 ! (n - 1) \<noteq> 0)"
proof -
  have d: "digits_ok m x" using x(1) by (rule normal_ubigD)
  have "digits_ok n x1 \<and> ubig_val n x1 = ubig_val m x"
    using bp_copy_ubig_val [OF d n(1), of "stack_cells (n + 1)"] d n(1) by (auto simp: x1_def)
  then have x1: "digits_ok n x1" "ubig_val n x1 = ubig_val m x" by auto
  show ?thesis
  proof (cases "xs < 0")
    case True
    then have "0 < ubig_val n x1"
      using s normal_ubig_zero [OF x(1)] normal_ubigD(4) [OF x(1)] x1(2) by auto
    from twoscomplement_ubig_correct [OF x1(1) this] True s(1) x1(2) base_pos(1)
    show ?thesis by (auto simp: x2_def simp del: base_pos)
  next
    case False
    then have "xs = 1" using s by auto
    moreover have "m = n \<longrightarrow> x1 ! (n - 1) \<noteq> 0" using x(1) n by (auto simp: x1_def normal_ubig_def)
    ultimately show ?thesis using digits_ok_twos [OF x1(1) n(2)] x1(2) by (simp add: x2_def)
  qed
qed

lemma twos_digits_plain:
  assumes "twos_digits n z" "\<not> BP_BIGINT_BASE \<le> z ! (n - 1)"
  shows "digits_ok n z"
  using assms(1)
proof (rule twos_digitsE)
  fix m assume "n = Suc m" "digits_ok m z" "0 \<le> z ! m" "m < length z"
  then show ?thesis using assms(2) by (auto simp: digits_ok_def less_Suc_eq)
qed

lemma ubig_val_zeros:
  "m \<le> n \<Longrightarrow> (\<And>i. m \<le> i \<Longrightarrow> i < n \<Longrightarrow> z ! i = 0) \<Longrightarrow> ubig_val n z = ubig_val m z"
  by (induction n rule: dec_induct) (auto simp: ubig_val_Suc)

lemma num_or_zero_val:
  assumes "normal_ubig n z" "sign = 1 \<or> sign = - 1" "i = sign * ubig_val n z"
  shows "num_is (if n = 0 then BP_ZERO else bp_num_from_ubig sign (n, z)) i"
  using num_or_zero_is [OF assms] by (auto split: if_splits)


context digit_routine
begin

text \<open>
  The operation on two big integers, the longer of at least two digits. One result cannot be
  represented in the two's complement of that length: \<open>- B^n\<close>; the code then returns 0.
\<close>

lemma bitwise_value:
  assumes w: "wf_bigint op1" "wf_bigint op2"
    and n: "dsize = max (nat \<bar>sign_size op1\<bar>) (nat \<bar>sign_size op2\<bar>)" "2 \<le> dsize"
  shows "num_is (bp_bitwise_bigint_bigint uop op1 op2)
     (if iop (big_val op1) (big_val op2) = - (BP_BIGINT_BASE ^ dsize) then 0
      else iop (big_val op1) (big_val op2))"
proof -
  obtain xs m xD where x: "bp_decompose_bigint op1 = (xs, m, xD)" "xs = 1 \<or> xs = - 1"
    "normal_ubig m (bp_make_ubig_from_dlst xD (m + 1))" "length (bp_make_ubig_from_dlst xD (m + 1)) = m + 1"
    "big_val op1 = xs * ubig_val m (bp_make_ubig_from_dlst xD (m + 1))" "sign_size op1 = xs * int m"
    "xs = - 1 \<Longrightarrow> 0 < m"
    using w(1) by (rule operandE) blast
  obtain ys k yD where y: "bp_decompose_bigint op2 = (ys, k, yD)" "ys = 1 \<or> ys = - 1"
    "normal_ubig k (bp_make_ubig_from_dlst yD (k + 1))" "length (bp_make_ubig_from_dlst yD (k + 1)) = k + 1"
    "big_val op2 = ys * ubig_val k (bp_make_ubig_from_dlst yD (k + 1))" "sign_size op2 = ys * int k"
    "ys = - 1 \<Longrightarrow> 0 < k"
    using w(2) by (rule operandE) blast
  have "nat \<bar>sign_size op1\<bar> = m" "nat \<bar>sign_size op2\<bar> = k" using x(2,6) y(2,6) by auto
  then have dn: "(if k < m then m else k) = dsize" and le: "m \<le> dsize" "k \<le> dsize" "0 < dsize"
    and longest: "m = dsize \<or> k = dsize" using n by (auto simp: max_def)
  let ?x = "bp_make_ubig_from_dlst xD (m + 1)" and ?y = "bp_make_ubig_from_dlst yD (k + 1)"
  define x1 where "x1 = (if m < dsize then bp_copy_ubig m ?x dsize (stack_cells (dsize + 1)) else ?x)"
  define y1 where "y1 = (if k < dsize then bp_copy_ubig k ?y dsize (stack_cells (dsize + 1)) else ?y)"
  define x2 where "x2 = (if xs < 0 then bp_twoscomplement_ubig dsize x1 else x1)"
  define y2 where "y2 = (if ys < 0 then bp_twoscomplement_ubig dsize y1 else y1)"
  have "m < length ?x" "k < length ?y" using x(4) y(4) by auto
  note X = twos_operand [OF x(3) this(1) x(2,7) le(1,3), folded x1_def x2_def]
    and Y = twos_operand [OF y(3) this(2) y(2,7) le(2,3), folded y1_def y2_def]
  let ?c = "stack_cells (dsize + 1)" and ?r = "iop (big_val op1) (big_val op2)"
  obtain zsize z where u: "uop dsize x2 dsize y2 ?c = (zsize, z)" by fastforce
  have lc: "dsize \<le> length ?c" by simp
  have tz: "twos_digits dsize z" "twos_val dsize z = ?r"
    using uop_twos [OF _ _ lc u] X Y x(5) y(5) by auto
  have uz: "zsize \<le> dsize" "\<And>i. zsize \<le> i \<Longrightarrow> i < dsize \<Longrightarrow> z ! i = 0" "0 < zsize \<Longrightarrow> z ! (zsize - 1) \<noteq> 0"
    using uop_digits [OF lc u] uop_top [OF lc u] X Y longest by blast+
  have eq: "bp_bitwise_bigint_bigint uop op1 op2 =
      (if zsize = 0 then BP_ZERO else if zsize = 1 then MAKEINT (z ! 0)
         else if z ! (zsize - 1) \<ge> BP_BIGINT_BASE then
           let (zsize, z) = bp_twoscomplement_magnitude zsize z
           in if zsize = 0 then BP_ZERO else bp_num_from_ubig (- 1) (zsize, z)
         else bp_num_from_ubig 1 (zsize, z))"
    unfolding bp_bitwise_bigint_bigint_def x(1) y(1) Let_def prod.case dn
    unfolding x1_def [symmetric] y1_def [symmetric]
    unfolding x2_def [symmetric] y2_def [symmetric] u by simp
  have P: "0 < BP_BIGINT_BASE ^ dsize" by (rule zero_less_power) simp
  show ?thesis
  proof (cases "BP_BIGINT_BASE \<le> z ! (dsize - 1)")
    case True
    then have "z ! (dsize - 1) \<noteq> 0" using base_pos(1) by linarith
    then have "\<not> zsize \<le> dsize - 1" using uz(2) [of "dsize - 1"] le(3) by auto
    then have zs: "zsize = dsize" using uz(1) by linarith
    obtain s t where mg: "bp_twoscomplement_magnitude dsize z = (s, t)" by fastforce
    note c = twoscomplement_magnitude_correct [OF tz(1) True mg]
    have e: "bp_bitwise_bigint_bigint uop op1 op2
        = (if s = 0 then BP_ZERO else bp_num_from_ubig (- 1) (s, t))"
      unfolding eq zs mg using n(2) True by simp
    have "normal_ubig s t" "(if ?r = - (BP_BIGINT_BASE ^ dsize) then 0 else ?r) = - 1 * ubig_val s t"
      using c tz(2) by auto
    then show ?thesis unfolding e by (intro num_or_zero_val) simp_all
  next
    case False
    have dz: "digits_ok dsize z"
      by (rule twos_digits_plain [OF tz(1) False])
    have v: "ubig_val dsize z = ?r" using tz(2) False by (simp add: twos_val_def)
    have nz: "normal_ubig zsize z"
      using digits_ok_le [OF dz uz(1)] uz(3) by (simp add: normal_ubig_def)
    have "ubig_val dsize z = ubig_val zsize z"
      by (rule ubig_val_zeros [OF uz(1,2)])
    then have vz: "ubig_val zsize z = ?r" using v by simp
    have "?r \<noteq> - (BP_BIGINT_BASE ^ dsize)" using normal_ubigD(4) [OF nz] vz P by linarith
    moreover have "bp_bitwise_bigint_bigint uop op1 op2
        = (if zsize = 0 then BP_ZERO else bp_num_from_ubig 1 (zsize, z))"
    proof (cases "zsize = 0")
      case False
      then have "z ! (zsize - 1) < BP_BIGINT_BASE" using digits_okD [OF normal_ubigD(1) [OF nz], of "zsize - 1"] by simp
      then show ?thesis unfolding eq by (auto simp: bp_num_from_ubig_def)
    qed (simp add: eq)
    ultimately show ?thesis using num_or_zero_val [OF nz, of 1 ?r] vz by simp
  qed
qed

end


text \<open>A disjunction is never \<open>- B^n\<close>: its low bits would have to be zero in both operands.\<close>

lemma or_not_power:
  assumes "\<bar>a\<bar> < 2 ^ k" "\<bar>b\<bar> < 2 ^ k"
  shows "a OR b \<noteq> - (2 ^ k :: int)"
proof
  assume e: "a OR b = - (2 ^ k)"
  have "take_bit k (a OR b) = 0" by (simp add: e take_bit_eq_mod)
  then have "take_bit k a = 0" "take_bit k b = 0" by (simp_all add: take_bit_or or_eq_0_iff)
  then have "2 ^ k dvd a" "2 ^ k dvd b" by (simp_all add: take_bit_eq_0_iff)
  then have "a = 0" "b = 0"
    using assms dvd_imp_le_int [of a "2 ^ k"] dvd_imp_le_int [of b "2 ^ k"] by force+
  with e show False by simp
qed

lemma big_val_less:
  assumes "wf_bigint op" "nat \<bar>sign_size op\<bar> \<le> n"
  shows "\<bar>big_val op\<bar> < BP_BIGINT_BASE ^ n"
proof -
  have w: "normal_ubig (nat \<bar>sign_size op\<bar>) (digit_list op)" using assms(1) by (simp add: wf_bigint_def)
  have "\<bar>big_val op\<bar> = ubig_val (nat \<bar>sign_size op\<bar>) (digit_list op)"
    using normal_ubigD(4) [OF w] by (simp add: big_val_def abs_mult)
  also have "\<dots> < BP_BIGINT_BASE ^ nat \<bar>sign_size op\<bar>" by (rule normal_ubigD(3) [OF w])
  also have "\<dots> \<le> BP_BIGINT_BASE ^ n" using assms(2) by simp
  finally show ?thesis .
qed

lemma bp_or_bigint_is:
  assumes "wf_bigint op1" "wf_bigint op2" "2 \<le> max \<bar>sign_size op1\<bar> \<bar>sign_size op2\<bar>"
  shows "num_is (bp_or_bigint_bigint op1 op2) (big_val op1 OR big_val op2)"
proof -
  let ?n = "max (nat \<bar>sign_size op1\<bar>) (nat \<bar>sign_size op2\<bar>)"
  have n: "2 \<le> ?n" using assms(3) by auto
  have "\<bar>big_val op1\<bar> < BP_BIGINT_BASE ^ ?n" "\<bar>big_val op2\<bar> < BP_BIGINT_BASE ^ ?n"
    by (rule big_val_less, use assms in simp, simp)+
  then have "big_val op1 OR big_val op2 \<noteq> - (BP_BIGINT_BASE ^ ?n)"
    unfolding base_power_shift by (rule or_not_power)
  then show ?thesis
    using or_routine.bitwise_value [OF assms(1,2) refl n] by (simp add: bp_or_bigint_bigint_def)
qed

lemma bp_and_bigint_is:
  assumes "wf_bigint op1" "wf_bigint op2" "n = max (nat \<bar>sign_size op1\<bar>) (nat \<bar>sign_size op2\<bar>)" "2 \<le> n"
  shows "num_is (bp_and_bigint_bigint op1 op2)
     (if big_val op1 AND big_val op2 = - (BP_BIGINT_BASE ^ n) then 0 else big_val op1 AND big_val op2)"
  using and_routine.bitwise_value [OF assms] by (simp add: bp_and_bigint_bigint_def)

lemma bp_xor_bigint_is:
  assumes "wf_bigint op1" "wf_bigint op2" "n = max (nat \<bar>sign_size op1\<bar>) (nat \<bar>sign_size op2\<bar>)" "2 \<le> n"
  shows "num_is (bp_xor_bigint_bigint op1 op2)
     (if big_val op1 XOR big_val op2 = - (BP_BIGINT_BASE ^ n) then 0 else big_val op1 XOR big_val op2)"
  using xor_routine.bitwise_value [OF assms] by (simp add: bp_xor_bigint_bigint_def)

lemma neg_le_div:
  assumes "a < 0" "0 < (b::int)"
  shows "a \<le> a div b"
proof -
  have "a * b \<le> a * 1" using assms by (intro mult_left_mono_neg) auto
  then have "(a * b) div b \<le> a div b" using assms(2) by (intro zdiv_mono1) auto
  then show ?thesis using assms(2) by simp
qed

section \<open>Shifts multiply and divide by powers of two\<close>

lemma shiftl_pos_is:
  assumes w: "wf_bigint op" "sign_size op \<noteq> 0" and s: "0 < s" "s \<le> BP_MAXINT_1W div 10"
  shows "\<exists>v. shiftl_pos op s = Inr v \<and> num_is v (big_val op * 2 ^ nat s)"
proof -
  obtain xs m xD where x: "bp_decompose_bigint op = (xs, m, xD)" "xs = 1 \<or> xs = - 1"
    "normal_ubig m (bp_make_ubig_from_dlst xD (m + 1))"
    "big_val op = xs * ubig_val m (bp_make_ubig_from_dlst xD (m + 1))" "sign_size op = xs * int m"
    using w(1) by (rule operandE) blast
  have m: "0 < m" using w(2) x(5) by auto
  let ?c = "stack_cells (m + 10 + nat s + 1)"
  obtain zsize z where r: "bp_shiftl_ubig_int m (bp_make_ubig_from_dlst xD (m + 1)) (nat s) ?c = (zsize, z)"
    by fastforce
  have "m + nat s div 28 + 1 \<le> length ?c" by simp
  note c = bp_shiftl_ubig_int_correct [OF x(3) m this r]
  have e: "shiftl_pos op s = (if zsize = 0 then Inr BP_ZERO else Inr (bp_num_from_ubig xs (zsize, z)))"
    unfolding shiftl_pos_def x(1) Let_def prod.case r using s by simp
  have "big_val op * 2 ^ nat s = xs * ubig_val zsize z" using c x(4) by simp
  moreover have "normal_ubig zsize z" using c by blast
  ultimately show ?thesis unfolding e by (intro num_or_zero_is x(2))
qed

lemma shiftl_pos_memory: "BP_MAXINT_1W div 10 < s \<Longrightarrow> shiftl_pos op s = Inl OUT_OF_MEMORY"
  by (auto simp: shiftl_pos_def BP_MAXINT_1W_def)

lemma shiftr_pos_is:
  assumes w: "wf_bigint op" "sign_size op \<noteq> 0" and s: "0 < s"
  shows "\<exists>v. shiftr_pos op s = Inr v \<and> num_is v (big_val op div 2 ^ nat s)"
proof -
  obtain xs m xD where x: "bp_decompose_bigint op = (xs, m, xD)" "xs = 1 \<or> xs = - 1"
    "normal_ubig m (bp_make_ubig_from_dlst xD (m + 1))"
    "big_val op = xs * ubig_val m (bp_make_ubig_from_dlst xD (m + 1))" "sign_size op = xs * int m"
    using w(1) by (rule operandE) blast
  let ?x = "bp_make_ubig_from_dlst xD (m + 1)" and ?c = "stack_cells (m + 1)"
  have m: "0 < m" using w(2) x(5) by auto
  have s': "0 < nat s" "m \<le> length ?c" using s by simp_all
  show ?thesis
  proof (cases "xs = 1")
    case True
    obtain zsize z where r: "bp_shiftr_ubig_int m ?x (nat s) ?c = (zsize, z)" by fastforce
    note c = bp_shiftr_ubig_int_correct [OF x(3) m s' r]
    have "shiftr_pos op s = (if zsize = 0 then Inr BP_ZERO else Inr (bp_num_from_ubig 1 (zsize, z)))"
      unfolding shiftr_pos_def x(1) Let_def prod.case r using s True by simp
    with num_or_zero_is [of zsize z 1] c x(4) True show ?thesis by simp
  next
    case False
    then have neg: "xs = - 1" using x(2) by simp
    have pos: "0 < ubig_val m ?x"
      using normal_ubig_zero [OF x(3)] normal_ubigD(4) [OF x(3)] m by linarith
    define t where "t = bp_twoscomplement_ubig m ?x"
    note T = twoscomplement_ubig_correct [OF normal_ubigD(1) [OF x(3)] pos, folded t_def]
    obtain k z where sh: "bp_shiftr_twoscomplement_int m t (nat s) ?c = (k, z)" by fastforce
    note S = bp_shiftr_twoscomplement_int_correct [OF _ _ s' sh]
    have Z: "k = m" "twos_digits m z" "BP_BIGINT_BASE \<le> z ! (m - 1)" "twos_val m z = big_val op div 2 ^ nat s"
      using S T x(4) neg by auto
    obtain zs w where mg: "bp_twoscomplement_magnitude m z = (zs, w)" by fastforce
    note M = twoscomplement_magnitude_correct [OF Z(2,3) mg]
    have "ubig_val m ?x < BP_BIGINT_BASE ^ m" by (rule normal_ubigD(3) [OF x(3)])
    then have lo: "- (BP_BIGINT_BASE ^ m) < big_val op" using x(4) neg by simp
    have "big_val op \<le> big_val op div 2 ^ nat s"
      by (rule neg_le_div) (use x(4) neg pos in simp_all)
    then have ne: "twos_val m z \<noteq> - (BP_BIGINT_BASE ^ m)" using lo Z(4) by linarith
    have "shiftr_pos op s = (if zs = 0 then Inr BP_ZERO else Inr (bp_num_from_ubig (- 1) (zs, w)))"
      unfolding shiftr_pos_def x(1) Let_def prod.case t_def [symmetric] sh
      using s False neg mg Z(1) by simp
    with num_or_zero_is [of zs w "- 1"] M ne Z(4) show ?thesis by simp
  qed
qed

section \<open>Exactness of the bit operations\<close>

text \<open>And, or and exclusive or of big integers of any sign are the operations on the infinite
  two's complement: a disjunction always, the other two whenever the result is not \<open>- B^n\<close>,
  for operands of at most \<open>n\<close> digits.\<close>

theorem bigint_bitwise_exact:
  assumes "wf_bigint op1" "wf_bigint op2" "n = max (nat \<bar>sign_size op1\<bar>) (nat \<bar>sign_size op2\<bar>)" "2 \<le> n"
  shows "num_is (bp_or_bigint_bigint op1 op2) (big_val op1 OR big_val op2)
    \<and> (big_val op1 AND big_val op2 \<noteq> - (BP_BIGINT_BASE ^ n) \<longrightarrow>
         num_is (bp_and_bigint_bigint op1 op2) (big_val op1 AND big_val op2))
    \<and> (big_val op1 XOR big_val op2 \<noteq> - (BP_BIGINT_BASE ^ n) \<longrightarrow>
         num_is (bp_xor_bigint_bigint op1 op2) (big_val op1 XOR big_val op2))"
proof -
  have n: "2 \<le> max \<bar>sign_size op1\<bar> \<bar>sign_size op2\<bar>" using assms(3,4) by linarith
  show ?thesis
    using bp_or_bigint_is [OF assms(1,2) n] bp_and_bigint_is [OF assms] bp_xor_bigint_is [OF assms]
    by (intro conjI impI; simp only: if_False simp_thms)
qed

theorem bigint_bitwise_exact_witness:
  "bp_and_bigint_bigint \<lparr>sign_size = - 3, digit_list = [1, 0, 1]\<rparr> \<lparr>sign_size = 3, digit_list = [6, 0, 1]\<rparr>
     = MAKEINT 6
   \<and> num_is (bp_or_bigint_bigint \<lparr>sign_size = - 3, digit_list = [1, 0, 1]\<rparr>
       \<lparr>sign_size = 3, digit_list = [6, 0, 1]\<rparr>) (- 1)"
proof -
  let ?a = "\<lparr>sign_size = - 3, digit_list = [1, 0, 1]\<rparr>" and ?b = "\<lparr>sign_size = 3, digit_list = [6, 0, 1]\<rparr>"
  have w: "wf_bigint ?a" "wf_bigint ?b" by code_simp+
  have v: "big_val ?a OR big_val ?b = - 1" by code_simp
  have e: "bp_and_bigint_bigint ?a ?b = MAKEINT 6" by code_simp
  from bigint_bitwise_exact [OF w refl] v e show ?thesis by simp
qed

text \<open>The excluded result: when the conjunction or the exclusive or of two big integers of at
  most \<open>n\<close> digits is \<open>- B^n\<close>, the routines return 0.\<close>

theorem bigint_bitwise_lost_power:
  assumes "wf_bigint op1" "wf_bigint op2" "n = max (nat \<bar>sign_size op1\<bar>) (nat \<bar>sign_size op2\<bar>)" "2 \<le> n"
  shows "(big_val op1 AND big_val op2 = - (BP_BIGINT_BASE ^ n) \<longrightarrow> num_val (bp_and_bigint_bigint op1 op2) = 0)
    \<and> (big_val op1 XOR big_val op2 = - (BP_BIGINT_BASE ^ n) \<longrightarrow> num_val (bp_xor_bigint_bigint op1 op2) = 0)"
  using bp_and_bigint_is [OF assms] bp_xor_bigint_is [OF assms] by (intro conjI impI; simp only: num_is_def if_True simp_thms)

theorem bigint_bitwise_lost_power_witness:
  "big_val \<lparr>sign_size = - 3, digit_list = [268435455, 268435455, 268435455]\<rparr>
     AND big_val \<lparr>sign_size = - 3, digit_list = [268435454, 268435455, 268435455]\<rparr> = - (BP_BIGINT_BASE ^ 3)
   \<and> num_val (bp_and_bigint_bigint \<lparr>sign_size = - 3, digit_list = [268435455, 268435455, 268435455]\<rparr>
       \<lparr>sign_size = - 3, digit_list = [268435454, 268435455, 268435455]\<rparr>) = 0"
proof -
  let ?a = "\<lparr>sign_size = - 3, digit_list = [268435455, 268435455, 268435455]\<rparr>"
  let ?b = "\<lparr>sign_size = - 3, digit_list = [268435454, 268435455, 268435455]\<rparr>"
  have w: "wf_bigint ?a" "wf_bigint ?b" by code_simp+
  have v: "big_val ?a AND big_val ?b = - (BP_BIGINT_BASE ^ 3)" by code_simp
  from bigint_bitwise_lost_power [OF w refl] v show ?thesis by simp
qed

text \<open>Shifts of a nonzero big integer: to the left a multiplication by a power of two, with
  \<open>OUT_OF_MEMORY\<close> beyond a tenth of the one-word range; to the right a division rounding towards
  minus infinity, of negative numbers too. A negative amount shifts the other way.\<close>

theorem bigint_shifts:
  assumes "wf_bigint op" "sign_size op \<noteq> 0" "s \<noteq> 0"
  shows "(if s < 0 then \<exists>v. bp_shiftl_bigint_int op s = Inr v \<and> num_is v (big_val op div 2 ^ nat (- s))
      else if s \<le> BP_MAXINT_1W div 10 then \<exists>v. bp_shiftl_bigint_int op s = Inr v \<and> num_is v (big_val op * 2 ^ nat s)
      else bp_shiftl_bigint_int op s = Inl OUT_OF_MEMORY)
    \<and> bp_shiftr_bigint_int op s = bp_shiftl_bigint_int op (- s)"
  using assms shiftl_pos_is [OF assms(1,2)] shiftr_pos_is [OF assms(1,2)] shiftl_pos_memory
  by (auto simp: bp_shiftl_bigint_int_def bp_shiftr_bigint_int_def)

theorem bigint_shifts_witness:
  "(\<exists>v. bp_shiftr_bigint_int \<lparr>sign_size = - 3, digit_list = [5, 0, 1]\<rparr> 57 = Inr v \<and> num_is v (- 1))
   \<and> bp_shiftl_bigint_int \<lparr>sign_size = - 3, digit_list = [5, 0, 1]\<rparr> BP_MAXINT_1W = Inl OUT_OF_MEMORY"
proof -
  let ?a = "\<lparr>sign_size = - 3, digit_list = [5, 0, 1]\<rparr>"
  have w: "wf_bigint ?a" by code_simp
  have v: "big_val ?a div 144115188075855872 = - 1" by code_simp
  from bigint_shifts [OF w, of "- 57"] bigint_shifts [OF w, of 57] bigint_shifts [OF w, of BP_MAXINT_1W]
  show ?thesis by (simp add: v BP_MAXINT_1W_def)
qed

end
