(* ===== verification/Bigint_Div.thy ===== *)
theory Bigint_Div
  imports Bigint_Bits
begin

text \<open>
  The operations built on the division of big integers, \<open>emu/bigint.c\<close>: division rounding up
  and down (\<open>/>\<close> and \<open>/<\<close>), greatest common divisor, power. Euclid's loop is a
  \<open>partial_function\<close>: that it ends is part of what is proved about it.
\<close>

section \<open>The operations\<close>

text \<open>A primitive intermediate result becomes a big integer again.\<close>

definition bp_as_bigint :: "bpnum \<Rightarrow> bigint" where
  "bp_as_bigint v = (case v of MAKEINT i \<Rightarrow> bp_int_to_bigint i | MAKEBIG b \<Rightarrow> b)"

definition bp_neg_num :: "bpnum \<Rightarrow> bpnum" where
  "bp_neg_num v = (case v of MAKEINT i \<Rightarrow> MAKEINT (- i) | MAKEBIG b \<Rightarrow> MAKEBIG (bp_neg_bigint b))"

definition bp_updiv_bigint_bigint :: "bigint \<Rightarrow> bigint \<Rightarrow> bp_error + bpnum" where
  "bp_updiv_bigint_bigint op1 op2 =
     (let (op1, op2) = (if bp_sign_bigint op2 < 0 then (bp_neg_bigint op1, bp_neg_bigint op2)
                        else (op1, op2));
          sign = bp_sign_bigint op1;
          op1 = bp_abs_bigint op1;
          tmp = bp_div_bigint_bigint op1 op2
      in if sign > 0 then
           case bp_mod_bigint_bigint op1 op2 of
             Inl e \<Rightarrow> Inl e
           | Inr rem \<Rightarrow>
               if rem \<noteq> BP_ZERO then
                 (case tmp of
                    MAKEINT i \<Rightarrow> Inr (if i + 1 \<le> BP_MAXINT_1W then MAKEINT (i + 1)
                                     else MAKEBIG (bp_int_to_bigint (i + 1)))
                  | MAKEBIG b \<Rightarrow> Inr (bp_add_bigint_bigint b (bp_int_to_bigint 1)))
               else Inr tmp
         else Inr (bp_neg_num tmp))"

definition bp_lowdiv_bigint_bigint :: "bigint \<Rightarrow> bigint \<Rightarrow> bp_error + bpnum" where
  "bp_lowdiv_bigint_bigint op1 op2 =
     (let (op1, op2) = (if bp_sign_bigint op2 < 0 then (bp_neg_bigint op1, bp_neg_bigint op2)
                        else (op1, op2));
          sign = bp_sign_bigint op1;
          op1 = bp_abs_bigint op1;
          tmp = bp_div_bigint_bigint op1 op2
      in if sign < 0 then
           case bp_mod_bigint_bigint op1 op2 of
             Inl e \<Rightarrow> Inl e
           | Inr rem \<Rightarrow>
               if rem \<noteq> BP_ZERO then
                 (case tmp of
                    MAKEINT i \<Rightarrow> Inr (MAKEINT (- i - 1))
                  | MAKEBIG b \<Rightarrow> Inr (bp_sub_bigint_bigint (bp_neg_bigint b) (bp_int_to_bigint 1)))
               else Inr tmp
         else Inr tmp)"

partial_function (option) gcd_loop :: "bigint \<Rightarrow> bigint \<Rightarrow> (bp_error + bpnum) option" where
  "gcd_loop i1 i2 =
     (case bp_mod_bigint_bigint i2 i1 of
        Inl e \<Rightarrow> Some (Inl e)
      | Inr temp \<Rightarrow>
          if temp = BP_ZERO then Some (Inr (bp_add_bigint_bigint i1 (bp_int_to_bigint 0)))
          else gcd_loop (bp_as_bigint temp) i1)"

definition bp_gcd_bigint_bigint :: "bigint \<Rightarrow> bigint \<Rightarrow> (bp_error + bpnum) option" where
  "bp_gcd_bigint_bigint i1 i2 =
     (let i1 = (if bp_sign_bigint i1 < 0 then bp_neg_bigint i1 else i1);
          i2 = (if bp_sign_bigint i2 < 0 then bp_neg_bigint i2 else i2);
          (i1, i2) = (if bp_compare_bigint_bigint i1 i2 > 0 then (i2, i1) else (i1, i2))
      in gcd_loop i1 i2)"

text \<open>Square and multiply.\<close>

function pow_loop :: "bpnum \<Rightarrow> bigint \<Rightarrow> nat \<Rightarrow> bpnum" where
  "pow_loop result base ex =
     (let result = MAKEBIG (bp_as_bigint result);
          result = (if ex AND 1 \<noteq> 0 then bp_mul_bigint_bigint (bp_as_bigint result) base else result);
          ex = drop_bit 1 ex
      in if ex = 0 then result
         else pow_loop result (bp_as_bigint (bp_mul_bigint_bigint base base)) ex)"
  by pat_completeness auto
termination
  by (relation "measure (\<lambda>(result, base, ex). ex)") (auto simp: drop_bit_eq_div)

declare pow_loop.simps [simp del]

definition bp_pow_bigint_int :: "bigint \<Rightarrow> nat \<Rightarrow> bpnum" where
  "bp_pow_bigint_int base ex = pow_loop (MAKEBIG (bp_int_to_bigint 1)) base ex"

section \<open>Signs and conversions of intermediate results\<close>

lemma bp_as_bigint_sound:
  assumes "num_is v i"
  shows "wf_bigint (bp_as_bigint v)" "big_val (bp_as_bigint v) = i"
    "sign_size (bp_as_bigint v) = 0 \<longleftrightarrow> i = 0"
proof -
  show w: "wf_bigint (bp_as_bigint v)" and e: "big_val (bp_as_bigint v) = i"
    using assms bp_int_to_bigint_sound by (auto simp: bp_as_bigint_def num_is_def split: bpnum.splits)
  show "sign_size (bp_as_bigint v) = 0 \<longleftrightarrow> i = 0" using big_val_sign(2) [OF w] e by simp
qed

lemma num_is_BP_ZERO_iff: "num_is v i \<Longrightarrow> v = BP_ZERO \<longleftrightarrow> i = 0"
proof (cases v)
  case (MAKEBIG b)
  assume "num_is v i"
  then show ?thesis using big_val_sign(2) [of b] MAKEBIG by (auto simp: num_is_def)
qed auto

lemma bp_neg_num_is: "num_is v i \<Longrightarrow> num_is (bp_neg_num v) (- i)"
  using wf_bigint_neg
  by (auto simp: bp_neg_num_def num_is_def BP_MAXINT_1W_def BP_MININT_1W_def split: bpnum.splits)

lemma big_val_sign_size: "wf_bigint op \<Longrightarrow> sign_size op < 0 \<longleftrightarrow> big_val op < 0"
proof -
  assume w: "wf_bigint op"
  then have "normal_ubig (nat \<bar>sign_size op\<bar>) (digit_list op)" by (simp add: wf_bigint_def)
  from normal_ubig_zero [OF this] normal_ubigD(4) [OF this] show ?thesis by (auto simp: big_val_def)
qed

text \<open>Remainders of numbers of the same sign never run past the stack.\<close>

lemma mod_same_sign:
  assumes "wf_bigint a" "wf_bigint b" "big_val b \<noteq> 0" "(big_val a < 0) = (big_val b < 0)"
  obtains v where "bp_mod_bigint_bigint a b = Inr v" "num_is v (big_val a mod big_val b)"
  using bp_mod_bigint_is [OF assms(1,2)] big_val_sign(2) [OF assms(2)] assms
    big_val_sign_size [OF assms(1)] big_val_sign_size [OF assms(2)] by auto


section \<open>Division rounding up and down\<close>

lemma add_one_is:
  assumes "num_is v i" "0 \<le> i"
  shows "num_is (case v of
            MAKEINT i \<Rightarrow> if i + 1 \<le> BP_MAXINT_1W then MAKEINT (i + 1) else MAKEBIG (bp_int_to_bigint (i + 1))
          | MAKEBIG b \<Rightarrow> bp_add_bigint_bigint b (bp_int_to_bigint 1)) (i + 1)"
proof (cases v)
  case (MAKEINT j)
  note s = bp_int_to_bigint_sound [of "BP_MAXINT_1W + 1"]
  have "3 \<le> \<bar>sign_size (bp_int_to_bigint (BP_MAXINT_1W + 1))\<bar>"
    by (simp add: bp_int_to_bigint_def bp_make_bigint_from_ubig_def bp_make_bigint_from_dlst_def
        int_to_digits.simps BP_MAXINT_1W_def BP_BIGINT_BASE_def Let_def)
  with assms MAKEINT s show ?thesis
    by (cases "j = BP_MAXINT_1W") (auto simp: num_is_def BP_MININT_1W_def)
next
  case (MAKEBIG b)
  with assms bp_add_bigint_is [of b "bp_int_to_bigint 1"] bp_int_to_bigint_sound [of 1]
  show ?thesis by (auto simp: num_is_def)
qed

text \<open>Both start by making the divisor positive.\<close>

lemma positive_divisor:
  assumes "wf_bigint op1" "wf_bigint op2" "big_val op2 \<noteq> 0"
    and "(a, b) = (if bp_sign_bigint op2 < 0 then (bp_neg_bigint op1, bp_neg_bigint op2) else (op1, op2))"
  shows "wf_bigint a" "wf_bigint b" "0 < big_val b" "big_val a div big_val b = big_val op1 div big_val op2"
    "- (- big_val a div big_val b) = - (- big_val op1 div big_val op2)"
    "big_val b dvd big_val a \<longleftrightarrow> big_val op2 dvd big_val op1"
    "big_val a < 0 \<longleftrightarrow> big_val op1 \<noteq> 0 \<and> (big_val op1 < 0) \<noteq> (big_val op2 < 0)"
  using assms wf_bigint_neg big_val_sign(1) [OF assms(2)] by (auto simp: div_minus_right split: if_splits)

lemma bp_updiv_bigint_is:
  assumes w: "wf_bigint op1" "wf_bigint op2" and nz: "big_val op2 \<noteq> 0"
  shows "\<exists>v. bp_updiv_bigint_bigint op1 op2 = Inr v \<and> num_is v (- ((- big_val op1) div big_val op2))"
proof -
  obtain a b where ab: "(a, b) = (if bp_sign_bigint op2 < 0 then (bp_neg_bigint op1, bp_neg_bigint op2)
      else (op1, op2))" by (cases "bp_sign_bigint op2 < 0") auto
  note p = positive_divisor [OF w nz ab]
  let ?a = "bp_abs_bigint a"
  note A = wf_bigint_abs [OF p(1)]
  have bz: "sign_size b \<noteq> 0" using big_val_sign(2) [OF p(2)] p(3) by simp
  note d = bp_div_bigint_is [OF A(1) p(2) bz]
  obtain rem where rem: "bp_mod_bigint_bigint ?a b = Inr rem" "num_is rem (big_val ?a mod big_val b)"
    by (rule mod_same_sign [OF A(1) p(2)]) (use p(3) A(2) in auto)
  have eq: "bp_updiv_bigint_bigint op1 op2 =
     (if bp_sign_bigint a > 0 then
        if rem \<noteq> BP_ZERO then Inr (case bp_div_bigint_bigint ?a b of
            MAKEINT i \<Rightarrow> if i + 1 \<le> BP_MAXINT_1W then MAKEINT (i + 1) else MAKEBIG (bp_int_to_bigint (i + 1))
          | MAKEBIG b \<Rightarrow> bp_add_bigint_bigint b (bp_int_to_bigint 1))
        else Inr (bp_div_bigint_bigint ?a b)
      else Inr (bp_neg_num (bp_div_bigint_bigint ?a b)))"
    unfolding bp_updiv_bigint_bigint_def ab [symmetric] Let_def prod.case rem(1)
    by (simp split: bpnum.splits)
  have goal: "- ((- big_val op1) div big_val op2) = - ((- big_val a) div big_val b)" using p(5) by simp
  show ?thesis
  proof (cases "big_val a < 0")
    case True
    then show ?thesis using bp_neg_num_is [OF d] A(2) big_val_sign(1) [OF p(1)] unfolding eq goal by simp
  next
    case False
    then have a: "big_val ?a = big_val a" "0 \<le> big_val a" using A(2) by auto
    have up: "- ((- big_val a) div big_val b)
        = (if big_val a mod big_val b = 0 then big_val a div big_val b else big_val a div big_val b + 1)"
      by (simp add: zdiv_zminus1_eq_if p(3) less_imp_neq [OF p(3), symmetric])
    have "0 \<le> big_val a div big_val b" using a p(3) by (simp add: pos_imp_zdiv_nonneg_iff)
    from add_one_is [OF d [unfolded a] this] d a
    show ?thesis
      using num_is_BP_ZERO_iff [OF rem(2)] False big_val_sign(1) [OF p(1)] unfolding eq goal up by auto
  qed
qed

text \<open>
  Rounding down: exact unless the quotient is an exact negative number, whose sign is lost.
\<close>

lemma bp_lowdiv_bigint_is:
  assumes w: "wf_bigint op1" "wf_bigint op2" and nz: "big_val op2 \<noteq> 0"
  shows "\<exists>v. bp_lowdiv_bigint_bigint op1 op2 = Inr v \<and>
    (if big_val op2 dvd big_val op1 then num_is v \<bar>big_val op1 div big_val op2\<bar>
     else num_val v = big_val op1 div big_val op2)"
proof -
  obtain a b where ab: "(a, b) = (if bp_sign_bigint op2 < 0 then (bp_neg_bigint op1, bp_neg_bigint op2)
      else (op1, op2))" by (cases "bp_sign_bigint op2 < 0") auto
  note p = positive_divisor [OF w nz ab]
  let ?a = "bp_abs_bigint a"
  note A = wf_bigint_abs [OF p(1)]
  have bz: "sign_size b \<noteq> 0" using big_val_sign(2) [OF p(2)] p(3) by simp
  note d = bp_div_bigint_is [OF A(1) p(2) bz]
  obtain rem where rem: "bp_mod_bigint_bigint ?a b = Inr rem" "num_is rem (big_val ?a mod big_val b)"
    by (rule mod_same_sign [OF A(1) p(2)]) (use p(3) A(2) in auto)
  let ?q = "bp_div_bigint_bigint ?a b"
  have eq: "bp_lowdiv_bigint_bigint op1 op2 =
     (if bp_sign_bigint a < 0 \<and> rem \<noteq> BP_ZERO then Inr (case ?q of
            MAKEINT i \<Rightarrow> MAKEINT (- i - 1)
          | MAKEBIG b \<Rightarrow> bp_sub_bigint_bigint (bp_neg_bigint b) (bp_int_to_bigint 1))
      else Inr ?q)"
    unfolding bp_lowdiv_bigint_bigint_def ab [symmetric] Let_def prod.case rem(1)
    by (simp split: bpnum.splits)
  have rz: "rem = BP_ZERO \<longleftrightarrow> big_val b dvd big_val a"
    using num_is_BP_ZERO_iff [OF rem(2)] A(2) by (simp add: dvd_eq_mod_eq_0 [symmetric])
  have sg: "bp_sign_bigint a < 0 \<longleftrightarrow> big_val a < 0" using big_val_sign(1) [OF p(1)] by simp
  show ?thesis
  proof (cases "big_val b dvd big_val a")
    case True
    then have "big_val ?a div big_val b = \<bar>big_val a div big_val b\<bar>"
      using A(2) p(3) by (auto simp: abs_div)
    then show ?thesis using d True p(4,6) rz unfolding eq by simp
  next
    case False
    have nd: "big_val a mod big_val b \<noteq> 0" using False by (simp add: dvd_eq_mod_eq_0)
    show ?thesis
    proof (cases "big_val a < 0")
      case True
      have q: "big_val a div big_val b = - (big_val ?a div big_val b) - 1"
        using zdiv_zminus1_eq_if [of "big_val b" "- big_val a"] True A(2) p(3) False
        by (simp add: dvd_eq_mod_eq_0 [symmetric])
      have "num_val (case ?q of MAKEINT i \<Rightarrow> MAKEINT (- i - 1)
          | MAKEBIG b \<Rightarrow> bp_sub_bigint_bigint (bp_neg_bigint b) (bp_int_to_bigint 1)) = big_val a div big_val b"
        using d q bp_sub_bigint_is [of "bp_neg_bigint c" "bp_int_to_bigint 1" for c]
          bp_int_to_bigint_sound [of 1] wf_bigint_neg
        by (cases ?q) (auto simp: num_is_def)
      then show ?thesis using False True p(4,6) rz sg unfolding eq by simp
    next
      case nn: False
      then show ?thesis using d False p(4,6) A(2) sg unfolding eq by (simp add: num_is_def)
    qed
  qed
qed


section \<open>Greatest common divisor\<close>

lemma gcd_loop_is:
  assumes "wf_bigint i1" "wf_bigint i2" "0 < big_val i1" "0 \<le> big_val i2"
  shows "\<exists>v. gcd_loop i1 i2 = Some (Inr v) \<and> num_is v (gcd (big_val i1) (big_val i2))"
  using assms
proof (induction "nat (big_val i1)" arbitrary: i1 i2 rule: less_induct)
  case less
  let ?m = "big_val i2 mod big_val i1"
  obtain t where t: "bp_mod_bigint_bigint i2 i1 = Inr t" "num_is t ?m"
    by (rule mod_same_sign [OF less.prems(2,1)]) (use less.prems in auto)
  have g: "gcd ?m (big_val i1) = gcd (big_val i1) (big_val i2)"
    by (metis gcd.commute gcd_red_int)
  show ?case
  proof (cases "?m = 0")
    case True
    have "num_is (bp_add_bigint_bigint i1 (bp_int_to_bigint 0)) (big_val i1 + big_val (bp_int_to_bigint 0))"
      using less.prems big_val_sign(2) [OF less.prems(1)] bp_int_to_bigint_sound [of 0]
      by (intro bp_add_bigint_is) auto
    moreover have "gcd (big_val i1) (big_val i2) = big_val i1"
      using True g less.prems(3) by simp
    moreover have "gcd_loop i1 i2 = Some (Inr (bp_add_bigint_bigint i1 (bp_int_to_bigint 0)))"
      using t num_is_BP_ZERO_iff [OF t(2)] True by (subst gcd_loop.simps) simp
    ultimately show ?thesis using bp_int_to_bigint_sound [of 0] by simp
  next
    case False
    have m: "0 < ?m" "?m < big_val i1"
      using False less.prems(3) pos_mod_sign [of "big_val i1" "big_val i2"]
        pos_mod_bound [of "big_val i1" "big_val i2"] by linarith+
    note s = bp_as_bigint_sound [OF t(2)]
    have "\<exists>v. gcd_loop (bp_as_bigint t) i1 = Some (Inr v)
        \<and> num_is v (gcd (big_val (bp_as_bigint t)) (big_val i1))"
      by (rule less.hyps) (use s m less.prems in auto)
    moreover have "gcd_loop i1 i2 = gcd_loop (bp_as_bigint t) i1"
      using t num_is_BP_ZERO_iff [OF t(2)] False by (subst gcd_loop.simps) simp
    ultimately show ?thesis using s(2) g by simp
  qed
qed

lemma bp_gcd_bigint_is:
  assumes w: "wf_bigint i1" "wf_bigint i2" and nz: "big_val i1 \<noteq> 0" "big_val i2 \<noteq> 0"
  shows "\<exists>v. bp_gcd_bigint_bigint i1 i2 = Some (Inr v) \<and> num_is v (gcd (big_val i1) (big_val i2))"
proof -
  define a where "a = (if bp_sign_bigint i1 < 0 then bp_neg_bigint i1 else i1)"
  define b where "b = (if bp_sign_bigint i2 < 0 then bp_neg_bigint i2 else i2)"
  have a: "wf_bigint a" "big_val a = \<bar>big_val i1\<bar>" and b: "wf_bigint b" "big_val b = \<bar>big_val i2\<bar>"
    using w wf_bigint_neg big_val_sign(1) [OF w(1)] big_val_sign(1) [OF w(2)] by (auto simp: a_def b_def)
  have eq: "bp_gcd_bigint_bigint i1 i2
      = (if bp_compare_bigint_bigint a b > 0 then gcd_loop b a else gcd_loop a b)"
    by (simp add: bp_gcd_bigint_bigint_def Let_def a_def b_def)
  show ?thesis
    unfolding eq using gcd_loop_is [OF a(1) b(1)] gcd_loop_is [OF b(1) a(1)] a(2) b(2) nz
    by (auto simp: gcd.commute)
qed

section \<open>Power\<close>

lemma pow_loop_is:
  assumes "0 < ex" "wf_bigint (bp_as_bigint result)" "big_val (bp_as_bigint result) = r" "r \<noteq> 0"
    and "wf_bigint base" "big_val base = b" "b \<noteq> 0"
  shows "num_is (pow_loop result base ex) (r * b ^ ex)"
  using assms
proof (induction result base ex arbitrary: r b rule: pow_loop.induct)
  case (1 result base ex)
  let ?r0 = "bp_as_bigint result"
  let ?res = "if ex AND 1 \<noteq> 0 then bp_mul_bigint_bigint ?r0 base else MAKEBIG ?r0"
  let ?sq = "bp_as_bigint (bp_mul_bigint_bigint base base)"
  have big [simp]: "bp_as_bigint (MAKEBIG c) = c" for c by (simp add: bp_as_bigint_def)
  have nz: "sign_size ?r0 \<noteq> 0" "sign_size base \<noteq> 0"
    using big_val_sign(2) "1.prems" by auto
  have mul: "num_is (bp_mul_bigint_bigint ?r0 base) (r * b)"
    using bp_mul_bigint_is [OF "1.prems"(2,5) nz] "1.prems"(3,6) by simp
  have sq: "num_is (bp_mul_bigint_bigint base base) (b * b)"
    using bp_mul_bigint_is [OF "1.prems"(5,5) nz(2,2)] "1.prems"(6) by simp
  have odd: "ex AND 1 \<noteq> 0 \<longleftrightarrow> odd ex" by (simp add: and_one_eq odd_iff_mod_2_eq_one)
  show ?case
  proof (cases "drop_bit 1 ex = 0")
    case True
    then have ex: "ex = 1" using "1.prems"(1) by (simp add: drop_bit_eq_div)
    then show ?thesis using mul by (subst pow_loop.simps) (simp add: drop_bit_eq_div)
  next
    case False
    have eq: "pow_loop result base ex = pow_loop ?res ?sq (drop_bit 1 ex)"
      using False by (subst pow_loop.simps) (simp add: Let_def del: drop_bit_Suc)
    let ?r' = "if odd ex then r * b else r"
    have "num_is (pow_loop ?res ?sq (drop_bit 1 ex)) (?r' * (b * b) ^ drop_bit 1 ex)"
    proof (rule "1.IH" [OF refl, unfolded big, OF refl refl False])
      show "0 < drop_bit 1 ex" using False by simp
      show "wf_bigint (bp_as_bigint ?res)" "big_val (bp_as_bigint ?res) = ?r'"
        using bp_as_bigint_sound [OF mul] "1.prems" odd by auto
      show "wf_bigint ?sq" "big_val ?sq = b * b" using bp_as_bigint_sound [OF sq] by auto
    qed (use "1.prems" in auto)
    also have "?r' * (b * b) ^ drop_bit 1 ex = r * b ^ ex"
    proof -
      define h where "h = drop_bit 1 ex"
      have "ex = (if odd ex then Suc (2 * h) else 2 * h)"
        by (auto simp: h_def drop_bit_eq_div)
      then have "b ^ ex = (if odd ex then b else 1) * (b * b) ^ h"
        by (auto simp: power_mult power2_eq_square split: if_splits)
      then show ?thesis by (simp add: h_def)
    qed
    finally show ?thesis unfolding eq .
  qed
qed

lemma bp_pow_bigint_is:
  assumes "wf_bigint base" "big_val base \<noteq> 0" "0 < ex"
  shows "num_is (bp_pow_bigint_int base ex) (big_val base ^ ex)"
  using pow_loop_is [OF assms(3), of "MAKEBIG (bp_int_to_bigint 1)" 1 base "big_val base"] assms
    bp_int_to_bigint_sound [of 1]
  by (simp add: bp_pow_bigint_int_def bp_as_bigint_def)

section \<open>What the compound operations compute\<close>

text \<open>C5. Euclid's loop on big integers ends, without running past the stack, and returns the
  greatest common divisor.\<close>

theorem bigint_gcd:
  assumes "wf_bigint i1" "wf_bigint i2" "big_val i1 \<noteq> 0" "big_val i2 \<noteq> 0"
  shows "\<exists>v. bp_gcd_bigint_bigint i1 i2 = Some (Inr v) \<and> num_is v (gcd (big_val i1) (big_val i2))"
  by (rule bp_gcd_bigint_is [OF assms])

theorem bigint_gcd_witness:
  "\<exists>v. bp_gcd_bigint_bigint \<lparr>sign_size = - 1, digit_list = [12]\<rparr> \<lparr>sign_size = 1, digit_list = [18]\<rparr>
     = Some (Inr v) \<and> num_is v 6"
proof -
  let ?a = "\<lparr>sign_size = - 1, digit_list = [12]\<rparr>" and ?b = "\<lparr>sign_size = 1, digit_list = [18]\<rparr>"
  have w: "wf_bigint ?a" "wf_bigint ?b" by code_simp+
  have v: "big_val ?a = - 12" "big_val ?b = 18" by code_simp+
  have g: "gcd 12 18 = (6 :: int)" by code_simp
  from bigint_gcd [OF w] show ?thesis by (simp add: v g)
qed

text \<open>Square and multiply computes the power, for a nonzero base of either sign.\<close>

theorem bigint_pow:
  assumes "wf_bigint base" "big_val base \<noteq> 0" "0 < ex"
  shows "num_is (bp_pow_bigint_int base ex) (big_val base ^ ex)"
  by (rule bp_pow_bigint_is [OF assms])

theorem bigint_pow_witness:
  "num_is (bp_pow_bigint_int \<lparr>sign_size = - 1, digit_list = [3]\<rparr> 5) (- 243)"
proof -
  have w: "wf_bigint \<lparr>sign_size = - 1, digit_list = [3]\<rparr>" by code_simp
  have v: "big_val \<lparr>sign_size = - 1, digit_list = [3]\<rparr> = - 3" by code_simp
  from bigint_pow [OF w, of 5] show ?thesis by (simp add: v)
qed

end
