(* ===== verification/Bigint_Write.thy ===== *)
theory Bigint_Write
  imports Bigint_Div
begin

text \<open>
  Writing a big integer in decimal into a buffer, \<open>bp_write_bigint_to_str\<close> of \<open>emu/bigint.c\<close>.
  The text is written backwards from the end of the buffer: eight digits per division by
  \<open>10^8\<close>, then the leading block by \<open>sprintf\<close>, then the sign. The result is the index of the first
  character. The loop is a \<open>partial_function\<close>; \<open>dec_val\<close> reads a decimal text back.
\<close>

section \<open>The operation\<close>

definition dec_char :: "int \<Rightarrow> char" where
  "dec_char d = char_of (nat d + 48)"

text \<open>What \<open>sprintf("%d")\<close> writes for a number that is not negative.\<close>

function dec_string :: "int \<Rightarrow> string" where
  "dec_string v = (if v < 10 then [dec_char v] else dec_string (v div 10) @ [dec_char (v mod 10)])"
  by pat_completeness auto
termination by (relation "measure nat") auto

declare dec_string.simps [simp del]

definition write_8_digits :: "nat \<Rightarrow> string \<Rightarrow> int \<Rightarrow> nat \<times> string" where
  "write_8_digits i buf remainder =
     (case for_loop 0 8 (\<lambda>j (i, buf, remainder).
         (i - 1, buf[i := dec_char (remainder smod 10)], remainder sdiv 10)) (i, buf, remainder) of
        (i, buf, remainder) \<Rightarrow> (i, buf))"

partial_function (option) write_blocks ::
  "nat \<Rightarrow> nat \<Rightarrow> string \<Rightarrow> nat \<Rightarrow> ubigint \<Rightarrow> (bp_error + nat \<times> string \<times> ubigint) option" where
  "write_blocks cells i buf dsize x =
     (let y = [100000000];
          (qsize, q, rsize, r) =
            bp_div_ubig_ubig dsize x 1 y (stack_cells cells) (stack_cells cells) (stack_cells cells);
          remainder = r ! 0
      in if i \<le> 8 then Some (Inl OUT_OF_MEMORY)
         else let (i, buf) = write_8_digits i buf remainder;
                  x = for_loop 0 qsize (\<lambda>j x. x[j := q ! j]) x;
                  dsize = qsize
           in if dsize > 1 then write_blocks cells i buf dsize x
              else Some (Inr (i, buf, x)))"

definition bp_write_bigint_to_str ::
  "bigint \<Rightarrow> string \<Rightarrow> nat \<Rightarrow> (bp_error + nat \<times> string) option" where
  "bp_write_bigint_to_str op buf buf_size =
     (let (sign, dsize, dLst) = bp_decompose_bigint op;
          x = bp_make_ubig_from_dlst dLst (dsize + 1);
          i = buf_size - 1;
          buf = buf[i := CHR 0x00];
          i = i - 1
      in case write_blocks (dsize + 1) i buf dsize x of
           None \<Rightarrow> None
         | Some (Inl e) \<Rightarrow> Some (Inl e)
         | Some (Inr (i, buf, x)) \<Rightarrow>
             let loc_buf = dec_string (x ! 0);
                 j = length loc_buf
             in if i \<le> j then Some (Inl OUT_OF_MEMORY)
                else let (i, buf) = for_down j (\<lambda>j (i, buf). (i - 1, buf[i := loc_buf ! j])) (i, buf)
                  in if sign < 0 then Some (Inr (i, buf[i := CHR ''-'']))
                     else Some (Inr (i + 1, buf)))"

section \<open>Reading decimal text\<close>

definition is_dec :: "char \<Rightarrow> bool" where
  "is_dec c \<longleftrightarrow> 48 \<le> (of_char c :: nat) \<and> (of_char c :: nat) \<le> 57"

fun dec_val :: "string \<Rightarrow> int" where
  "dec_val [] = 0"
| "dec_val (c # cs) = (int (of_char c) - 48) * 10 ^ length cs + dec_val cs"

lemma of_char_dec_char: "0 \<le> d \<Longrightarrow> d < 10 \<Longrightarrow> of_char (dec_char d) = (nat d + 48 :: nat)"
  by (simp add: dec_char_def)

lemma dec_char:
  assumes "0 \<le> d" "d < 10"
  shows "is_dec (dec_char d)" "int (of_char (dec_char d)) - 48 = d"
proof -
  note n = of_char_dec_char [OF assms]
  show "is_dec (dec_char d)" using assms by (simp add: is_dec_def n)
  show "int (of_char (dec_char d)) - 48 = d" using assms by (simp add: n)
qed

lemma dec_val_append: "dec_val (xs @ ys) = dec_val xs * 10 ^ length ys + dec_val ys"
  by (induction xs) (simp_all add: algebra_simps power_add)

lemma dec_val_nonneg: "\<forall>c\<in>set xs. is_dec c \<Longrightarrow> 0 \<le> dec_val xs"
  by (induction xs) (auto simp: is_dec_def)

lemma dec_string:
  "0 \<le> v \<Longrightarrow> dec_val (dec_string v) = v \<and> (\<forall>c\<in>set (dec_string v). is_dec c) \<and> dec_string v \<noteq> []
     \<and> (0 < v \<longrightarrow> hd (dec_string v) \<noteq> CHR ''0'')"
proof (induction v rule: dec_string.induct)
  case (1 v)
  show ?case
  proof (cases "v < 10")
    case True
    with "1.prems" show ?thesis
      using dec_char [of v] of_char_dec_char [of v] by (auto simp: dec_string.simps [of v])
  next
    case False
    with "1.prems" show ?thesis
      using "1.IH" dec_char [of "v mod 10"]
      by (auto simp: dec_string.simps [of v] dec_val_append pos_imp_zdiv_pos_iff)
  qed
qed


lemma dec_string_length: "0 \<le> v \<Longrightarrow> v < 10 ^ k \<Longrightarrow> 0 < k \<Longrightarrow> length (dec_string v) \<le> k"
proof (induction v arbitrary: k rule: dec_string.induct)
  case (1 v)
  show ?case
  proof (cases "v < 10")
    case True
    with "1.prems" show ?thesis by (simp add: dec_string.simps [of v])
  next
    case False
    have k: "1 < k"
    proof (rule ccontr)
      assume "\<not> 1 < k"
      then have "k = 1" using "1.prems"(3) by simp
      with False "1.prems"(2) show False by simp
    qed
    then obtain m where m: "k = Suc m" "0 < m" by (cases k) auto
    have "v div 10 < 10 ^ m" using "1.prems"(2) m by (intro int_div_less) (auto simp: mult.commute)
    then have "length (dec_string (v div 10)) \<le> m"
      using False "1.prems"(1) m by (intro "1.IH") (auto simp: pos_imp_zdiv_nonneg_iff)
    then show ?thesis using False m by (simp add: dec_string.simps [of v])
  qed
qed

section \<open>The blocks\<close>

lemma drop_update: "i < length xs \<Longrightarrow> drop i (xs[i := c]) = c # drop (Suc i) xs"
  using Cons_nth_drop_Suc [of i "xs[i := c]"] by simp

lemma write_8_digits_text:
  assumes i: "9 \<le> i" "i < length buf" and T: "drop (Suc i) buf = T" and R: "0 \<le> R" "R < 10 ^ 8"
    and res: "write_8_digits i buf R = (i', buf')"
  shows "i' = i - 8 \<and> length buf' = length buf \<and>
    (\<exists>D. length D = 8 \<and> dec_val D = R \<and> (\<forall>c\<in>set D. is_dec c) \<and> drop (Suc i') buf' = D @ T)"
proof -
  let ?f = "\<lambda>j (i, buf, remainder).
         (i - 1, buf[i := dec_char (remainder smod 10)], remainder sdiv 10)"
  let ?P = "\<lambda>j (k, b, rem). k = i - j \<and> length b = length buf \<and> 0 \<le> rem \<and> rem * 10 ^ j \<le> R \<and>
    (\<exists>D. length D = j \<and> (\<forall>c\<in>set D. is_dec c) \<and> rem * 10 ^ j + dec_val D = R \<and> drop (Suc k) b = D @ T)"
  have "?P 8 (for_loop 0 8 ?f (i, buf, R))"
  proof (rule for_loop_rule [where P = ?P])
    show "?P 0 (i, buf, R)" using i T R by simp
  next
    fix j t assume j: "j < (8::nat)" and P: "?P j t"
    obtain k b rem where t: "t = (k, b, rem)" by (rule prod_cases3)
    from P t obtain D where D: "length D = j" "\<forall>c\<in>set D. is_dec c" "rem * 10 ^ j + dec_val D = R"
        "drop (Suc k) b = D @ T" and k: "k = i - j" "length b = length buf" "0 \<le> rem" by auto
    have kk: "0 < k" "k < length b" "Suc (k - 1) = k" using i j k by auto
    let ?c = "dec_char (rem mod 10)"
    have c: "is_dec ?c" "int (of_char ?c) - 48 = rem mod 10" using dec_char [of "rem mod 10"] by auto
    have "drop (Suc (k - 1)) (b[k := ?c]) = (?c # D) @ T"
      using drop_update [OF kk(2), of ?c] D(4) kk(3) by simp
    moreover have v: "rem div 10 * 10 ^ Suc j + dec_val (?c # D) = R"
    proof -
      have "rem = 10 * (rem div 10) + rem mod 10" by simp
      then have "rem * 10 ^ j = rem div 10 * 10 ^ Suc j + rem mod 10 * 10 ^ j"
        by (metis (no_types, lifting) distrib_right mult.assoc mult.commute power_Suc)
      then show ?thesis using D(1,3) c(2) by simp
    qed
    moreover have "0 \<le> dec_val (?c # D)"
      by (rule dec_val_nonneg) (use D(2) c(1) in simp)
    moreover have e: "k - Suc 0 = i - Suc j" using k(1) by simp
    ultimately have "?P (Suc j) (i - Suc j, b[k := ?c], rem div 10)"
      using D(1,2) c(1) k by (auto simp: pos_imp_zdiv_nonneg_iff intro!: exI [of _ "?c # D"])
    then show "?P (Suc j) (?f j t)" using k(3) e by (simp add: t smod_nonneg sdiv_nonneg)
  qed simp
  moreover obtain rem where "for_loop 0 8 ?f (i, buf, R) = (i', buf', rem)"
    using res by (auto simp: write_8_digits_def split: prod.splits)
  ultimately have "?P 8 (i', buf', rem)" by (simp only:)
  moreover from this R have "rem = 0" by auto
  ultimately show ?thesis by auto
qed

lemma div_remainder_cell:
  assumes "bp_div_ubig_ubig m x n y q r b = (qsize, q', rsize, r')" "rsize = 0"
  shows "r' ! 0 = 0"
proof -
  have "rsize = zap_leading_zeros (m + 1) r'"
    using assms(1) by (auto simp: bp_div_ubig_ubig_def Let_def split: prod.splits)
  then show ?thesis using assms(2) zap_leading_zeros_above [of "m + 1" r' 0] by simp
qed


lemma div_1e8:
  assumes nx: "normal_ubig n x" and n: "2 \<le> n" "n < cells"
    and res: "bp_div_ubig_ubig n x 1 [100000000] (stack_cells cells) (stack_cells cells) (stack_cells cells)
      = (qsize, q, rsize, r)"
  shows "normal_ubig qsize q" "ubig_val qsize q = ubig_val n x div 10 ^ 8" "0 < qsize" "qsize \<le> n"
    "r ! 0 = ubig_val n x mod 10 ^ 8"
proof -
  have ny: "normal_ubig 1 [100000000]" "ubig_val 1 [100000000] = 10 ^ 8"
    by (simp_all add: normal_ubig_def digits_ok_def ubig_val_def BP_BIGINT_BASE_def)
  have "BP_BIGINT_BASE ^ 1 \<le> BP_BIGINT_BASE ^ (n - 1)" using n(1) by (intro power_increasing) auto
  also have "\<dots> \<le> ubig_val n x" using normal_ubigD(2) [OF nx] n(1) by simp
  finally have ge: "ubig_val 1 [100000000] \<le> ubig_val n x" unfolding ny(2) by (simp add: BP_BIGINT_BASE_def)
  have l: "n < length (stack_cells cells)" using n(2) by simp
  have c: "normal_ubig qsize q" "ubig_val qsize q = ubig_val n x div ubig_val 1 [100000000]"
      "0 < qsize" "qsize \<le> n" "normal_ubig rsize r"
      "ubig_val rsize r = ubig_val n x mod ubig_val 1 [100000000]"
    using div_ubig_normal [OF nx ny(1) _ ge l l l res] by auto
  then show "normal_ubig qsize q" "ubig_val qsize q = ubig_val n x div 10 ^ 8" "0 < qsize" "qsize \<le> n"
    unfolding ny(2) by blast+
  have "ubig_val rsize r < 10 ^ 8" unfolding c(6) ny(2) by simp
  then have "ubig_val rsize r < BP_BIGINT_BASE ^ 1" by (simp add: BP_BIGINT_BASE_def)
  then have "rsize \<le> 1" by (rule normal_ubig_size_le [OF c(5)])
  then consider "rsize = 0" | "rsize = 1" by linarith
  then show "r ! 0 = ubig_val n x mod 10 ^ 8"
  proof cases
    case 1
    then show ?thesis using c(6) ny(2) div_remainder_cell [OF res 1] by simp
  next
    case 2
    then show ?thesis using c(6) ny(2) by (simp add: ubig_val_def)
  qed
qed

text \<open>
  The loop ends, and what it has written after the leading block are the lower digits. With
  more than \<open>8 * k + 9\<close> cells for a number below \<open>10^(8 * k)\<close> it does not run out of room.
\<close>

definition blocks_ok ::
  "int \<Rightarrow> nat \<Rightarrow> string \<Rightarrow> string \<Rightarrow> bp_error + nat \<times> string \<times> ubigint \<Rightarrow> bool" where
  "blocks_ok V len T buf res \<longleftrightarrow> (case res of
     Inl e \<Rightarrow> e = OUT_OF_MEMORY
   | Inr (i, buf', x) \<Rightarrow> i < len \<and> length buf' = len \<and> 0 < x ! 0 \<and> x ! 0 < BP_BIGINT_BASE \<and>
       (\<exists>D. (\<forall>c\<in>set D. is_dec c) \<and> drop (Suc i) buf' = D @ T \<and> x ! 0 * 10 ^ length D + dec_val D = V))"

lemma write_blocks_text:
  assumes "normal_ubig n x" "2 \<le> n" "n < cells" "i < length buf" "drop (Suc i) buf = T"
  shows "\<exists>res. write_blocks cells i buf n x = Some res \<and> blocks_ok (ubig_val n x) (length buf) T buf res \<and>
    (\<forall>k. ubig_val n x < 10 ^ (8 * k) \<and> 8 * k + 9 < i \<longrightarrow> (\<exists>i' r. res = Inr (i', r) \<and> 17 < i' + 8))"
  using assms
proof (induction "nat (ubig_val n x)" arbitrary: n x i buf T rule: less_induct)
  case less
  let ?c = "stack_cells cells" and ?V = "ubig_val n x"
  obtain qsize q rsize r where d: "bp_div_ubig_ubig n x 1 [100000000] ?c ?c ?c = (qsize, q, rsize, r)"
    by (rule prod_cases4)
  note D = div_1e8 [OF less.prems(1-3) d]
  show ?case
  proof (cases "i \<le> 8")
    case True
    then have "write_blocks cells i buf n x = Some (Inl OUT_OF_MEMORY)"
      using d by (subst write_blocks.simps) simp
    then show ?thesis using True by (simp add: blocks_ok_def)
  next
    case False
    obtain i1 b1 where w8: "write_8_digits i buf (r ! 0) = (i1, b1)" by fastforce
    have R: "0 \<le> r ! 0" "r ! 0 < 10 ^ 8" unfolding D(5) by simp_all
    have "9 \<le> i" using False by simp
    from write_8_digits_text [OF this less.prems(4,5) R w8] obtain E where
      E: "i1 = i - 8" "length b1 = length buf" "length E = 8" "dec_val E = r ! 0" "\<forall>c\<in>set E. is_dec c"
        "drop (Suc i1) b1 = E @ T" by auto
    define x1 where "x1 = for_loop 0 qsize (\<lambda>j x. x[j := q ! j]) x"
    have lq: "qsize \<le> length x" using D(4) normal_ubigD(1) [OF less.prems(1)] by (simp add: digits_ok_def)
    have "length x1 = length x" "\<And>k. k < qsize \<Longrightarrow> x1 ! k = q ! k"
      using fill_loop_from_0 [where n = qsize and z = x and g = "\<lambda>j. q ! j"] lq by (auto simp: x1_def)
    then have x1: "normal_ubig qsize x1" "ubig_val qsize x1 = ?V div 10 ^ 8"
      using ubig_cong [of qsize x1 q] lq D(1,2) normal_ubigD(1) [OF D(1)] by (auto simp: digits_ok_def)
    have V: "?V = (?V div 10 ^ 8) * 10 ^ 8 + r ! 0" unfolding D(5) by simp
    have Vp: "0 < ?V div 10 ^ 8"
      using normal_ubig_zero [OF D(1)] normal_ubigD(4) [OF D(1)] D(2,3) by linarith
    have eq: "write_blocks cells i buf n x
        = (if qsize > 1 then write_blocks cells i1 b1 qsize x1 else Some (Inr (i1, b1, x1)))"
      using d False w8 by (subst write_blocks.simps) (simp add: Let_def x1_def)
    have small: "?V div 10 ^ 8 < 10 ^ (8 * (k - 1)) \<and> 0 < k" if "?V < 10 ^ (8 * k)" for k
    proof -
      have k: "0 < k"
      proof (rule ccontr)
        assume "\<not> 0 < k"
        then have "?V < 1" using that by simp
        then have "?V div 10 ^ 8 \<le> 0" using normal_ubigD(4) [OF less.prems(1)] by simp
        then show False using Vp by simp
      qed
      then have "8 * k = 8 * (k - 1) + 8" by linarith
      then have "(10::int) ^ (8 * k) = 10 ^ (8 * (k - 1)) * 10 ^ 8" by (metis power_add)
      then show ?thesis using that k by (simp add: int_div_less)
    qed
    show ?thesis
    proof (cases "qsize > 1")
      case True
      have "\<exists>res. write_blocks cells i1 b1 qsize x1 = Some res \<and>
          blocks_ok (ubig_val qsize x1) (length b1) (E @ T) b1 res \<and>
          (\<forall>k. ubig_val qsize x1 < 10 ^ (8 * k) \<and> 8 * k + 9 < i1 \<longrightarrow>
             (\<exists>i' r. res = Inr (i', r) \<and> 17 < i' + 8))"
      proof (rule less.hyps)
        show "nat (ubig_val qsize x1) < nat ?V"
          using x1(2) Vp R V by simp
        show "i1 < length b1" using E(1,2) less.prems(4) by simp
      qed (use x1 True D(4) less.prems(3) E in auto)
      then obtain res where res: "write_blocks cells i1 b1 qsize x1 = Some res"
          "blocks_ok (?V div 10 ^ 8) (length buf) (E @ T) b1 res"
          "\<And>k. ?V div 10 ^ 8 < 10 ^ (8 * k) \<Longrightarrow> 8 * k + 9 < i1 \<Longrightarrow> \<exists>i' r. res = Inr (i', r) \<and> 17 < i' + 8"
        unfolding x1(2) E(2) by auto
      have "blocks_ok ?V (length buf) T buf res"
      proof (cases res)
        case (Inl e)
        then show ?thesis using res(2) by (simp add: blocks_ok_def)
      next
        case (Inr t)
        obtain i2 b2 x2 where t: "t = (i2, b2, x2)" by (rule prod_cases3)
        from res(2) obtain F where F: "\<forall>c\<in>set F. is_dec c" "drop (Suc i2) b2 = F @ E @ T"
            "x2 ! 0 * 10 ^ length F + dec_val F = ?V div 10 ^ 8"
          and B: "i2 < length buf" "length b2 = length buf" "0 < x2 ! 0" "x2 ! 0 < BP_BIGINT_BASE"
          by (auto simp: blocks_ok_def Inr t)
        have "x2 ! 0 * 10 ^ length (F @ E) + dec_val (F @ E)
            = (x2 ! 0 * 10 ^ length F + dec_val F) * 10 ^ 8 + r ! 0"
          by (simp add: dec_val_append E(3,4) power_add algebra_simps)
        also have "\<dots> = ?V" using V F(3) by simp
        finally have "x2 ! 0 * 10 ^ length (F @ E) + dec_val (F @ E) = ?V" .
        moreover have "\<forall>c\<in>set (F @ E). is_dec c" "drop (Suc i2) b2 = (F @ E) @ T" using F E(5) by auto
        ultimately show ?thesis using B by (auto simp: blocks_ok_def Inr t simp del: append_assoc)
      qed
      moreover have "\<exists>i' r. res = Inr (i', r) \<and> 17 < i' + 8" if "?V < 10 ^ (8 * k)" "8 * k + 9 < i" for k
        using res(3) [of "k - 1"] small [OF that(1)] that(2) E(1) by auto
      ultimately show ?thesis using res(1) True unfolding eq by auto
    next
      case stop: False
      then have q1: "qsize = 1" using D(3) by simp
      then have x0: "x1 ! 0 = ?V div 10 ^ 8" "x1 ! 0 < BP_BIGINT_BASE"
        using x1 digits_okD [OF normal_ubigD(1) [OF x1(1)], of 0] by (auto simp: ubig_val_def)
      have "blocks_ok ?V (length buf) T buf (Inr (i1, b1, x1))"
        using E x0 Vp V less.prems(4) by (auto simp: blocks_ok_def)
      moreover have "17 < i1 + 8" if "?V < 10 ^ (8 * k)" "8 * k + 9 < i" for k
        using small [OF that(1)] that(2) E(1) by auto
      ultimately show ?thesis using stop unfolding eq by auto
    qed
  qed
qed


section \<open>The text\<close>

lemma copy_text_back:
  assumes "length s \<le> i" "i < length buf" "drop (Suc i) buf = T"
    and "for_down (length s) (\<lambda>j (i, buf). (i - 1, buf[i := s ! j])) (i, buf) = (i', buf')"
  shows "i' = i - length s \<and> length buf' = length buf \<and>
    (length s < i \<or> s = [] \<longrightarrow> drop (Suc i') buf' = s @ T)"
proof -
  let ?P = "\<lambda>j (k, b). k = i - (length s - j) \<and> length b = length buf \<and>
    (length s < i \<or> s = [] \<longrightarrow> drop (Suc k) b = drop j s @ T)"
  have "?P 0 (for_down (length s) (\<lambda>j (i, buf). (i - 1, buf[i := s ! j])) (i, buf))"
  proof (rule for_down_rule [where P = ?P])
    show "?P (length s) (i, buf)" using assms(3) by simp
  next
    fix j t assume j: "j < length s" and P: "?P (Suc j) t"
    obtain k b where t: "t = (k, b)" by (cases t)
    have k: "k = i - (length s - Suc j)" "length b = length buf"
      and d: "length s < i \<Longrightarrow> drop (Suc k) b = drop (Suc j) s @ T" using P by (auto simp: t)
    have kl: "k < length b" using k assms(2) by simp
    have e: "k - 1 = i - (length s - j)" using k(1) j assms(1) by simp
    have "drop (Suc (i - (length s - j))) (b[k := s ! j]) = drop j s @ T" if "length s < i"
    proof -
      have "Suc (i - (length s - j)) = k" using k(1) j that by linarith
      then show ?thesis
        using drop_update [OF kl, of "s ! j"] d [OF that] Cons_nth_drop_Suc [OF j] by simp
    qed
    moreover have "s \<noteq> []" using j by auto
    ultimately show "?P j ((\<lambda>(i, buf). (i - 1, buf[i := s ! j])) t)"
      using e k(2) by (simp add: t)
  qed
  then have "?P 0 (i', buf')" unfolding assms(4) .
  then show ?thesis by auto
qed

text \<open>The text in front of the terminating NUL is the decimal form of \<open>v\<close>.\<close>

definition dec_text :: "int \<Rightarrow> string \<Rightarrow> bool" where
  "dec_text v s \<longleftrightarrow> (\<exists>D. s = (if v < 0 then ''-'' else []) @ D \<and> dec_val D = \<bar>v\<bar> \<and>
     (\<forall>c\<in>set D. is_dec c) \<and> D \<noteq> [] \<and> hd D \<noteq> CHR ''0'')"

lemma bp_write_bigint_to_str_text:
  assumes w: "wf_bigint op" and n2: "2 \<le> \<bar>sign_size op\<bar>" and B: "length buf = buf_size" "2 \<le> buf_size"
  shows "\<exists>res. bp_write_bigint_to_str op buf buf_size = Some res \<and>
    (case res of Inl e \<Rightarrow> e = OUT_OF_MEMORY
      | Inr (i, buf') \<Rightarrow> length buf' = buf_size \<and>
          (\<exists>s. drop i buf' = s @ [CHR 0x00] \<and> dec_text (big_val op) s)) \<and>
    (\<forall>k. \<bar>big_val op\<bar> < 10 ^ (8 * k) \<and> 8 * k + 11 < buf_size \<longrightarrow> \<not> isl res)"
proof -
  obtain sg n D where x: "bp_decompose_bigint op = (sg, n, D)" "sg = 1 \<or> sg = - 1"
    "normal_ubig n (bp_make_ubig_from_dlst D (n + 1))"
    "big_val op = sg * ubig_val n (bp_make_ubig_from_dlst D (n + 1))" "sign_size op = sg * int n"
    using w by (rule operandE) blast
  let ?x = "bp_make_ubig_from_dlst D (n + 1)" and ?i = "buf_size - 2"
  let ?b = "buf[buf_size - 1 := CHR 0x00]"
  have n: "2 \<le> n" using n2 x(2,5) by auto
  have V: "\<bar>big_val op\<bar> = ubig_val n ?x" using x(2,4) normal_ubigD(4) [OF x(3)] by auto
  have neg: "big_val op < 0 \<longleftrightarrow> sg < 0"
    using x(2,4) normal_ubigD(4) [OF x(3)] normal_ubig_zero [OF x(3)] n by auto
  have si: "Suc ?i = buf_size - 1" using B by simp
  have i: "?i < length ?b" "drop (Suc ?i) ?b = [CHR 0x00]"
    using drop_update [of "buf_size - 1" buf "CHR 0x00"] B unfolding si by simp_all
  obtain res where res: "write_blocks (n + 1) ?i ?b n ?x = Some res"
      "blocks_ok (ubig_val n ?x) (length ?b) [CHR 0x00] ?b res"
      "\<And>k. ubig_val n ?x < 10 ^ (8 * k) \<Longrightarrow> 8 * k + 9 < ?i \<Longrightarrow> \<exists>i' r. res = Inr (i', r) \<and> 17 < i' + 8"
    using write_blocks_text [OF x(3) n _ i, of "n + 1"] by auto
  have i2: "buf_size - 1 - 1 = ?i" by simp
  have room: "8 * k + 9 < ?i" if "8 * k + 11 < buf_size" for k :: nat using that by linarith
  have eq: "bp_write_bigint_to_str op buf buf_size = (case res of
      Inl e \<Rightarrow> Some (Inl e)
    | Inr (i, buf, x) \<Rightarrow>
        if i \<le> length (dec_string (x ! 0)) then Some (Inl OUT_OF_MEMORY)
        else case for_down (length (dec_string (x ! 0)))
               (\<lambda>j (i, buf). (i - 1, buf[i := dec_string (x ! 0) ! j])) (i, buf) of
          (i, buf) \<Rightarrow> if sg < 0 then Some (Inr (i, buf[i := CHR ''-''])) else Some (Inr (i + 1, buf)))"
    unfolding bp_write_bigint_to_str_def x(1) Let_def prod.case i2 res(1)
    by (simp split: sum.splits)
  show ?thesis
  proof (cases res)
    case (Inl e)
    have "\<not> (ubig_val n ?x < 10 ^ (8 * k) \<and> 8 * k + 11 < buf_size)" for k
      using res(3) [of k] room [of k] Inl by auto
    then show ?thesis using Inl res(2) V unfolding eq by (auto simp: blocks_ok_def)
  next
    case (Inr t)
    obtain i1 b1 x1 where t: "t = (i1, b1, x1)" by (rule prod_cases3)
    let ?s = "dec_string (x1 ! 0)"
    from res(2) obtain F where F: "\<forall>c\<in>set F. is_dec c" "drop (Suc i1) b1 = F @ [CHR 0x00]"
        "x1 ! 0 * 10 ^ length F + dec_val F = ubig_val n ?x"
      and b: "i1 < length ?b" "length b1 = length ?b" "0 < x1 ! 0" "x1 ! 0 < BP_BIGINT_BASE"
      by (auto simp: blocks_ok_def Inr t)
    note S = dec_string [of "x1 ! 0"]
    show ?thesis
    proof (cases "i1 \<le> length ?s")
      case True
      have "length ?s \<le> 9"
        by (rule dec_string_length) (use b in \<open>simp_all add: BP_BIGINT_BASE_def\<close>)
      then have "\<not> (ubig_val n ?x < 10 ^ (8 * k) \<and> 8 * k + 11 < buf_size)" for k
        using res(3) [of k] room [of k] True Inr t by auto
      then show ?thesis using True V unfolding eq Inr t by auto
    next
      case False
      obtain i2 b2 where c: "for_down (length ?s) (\<lambda>j (i, buf). (i - 1, buf[i := ?s ! j])) (i1, b1) = (i2, b2)"
        by fastforce
      have l: "length ?s \<le> i1" "i1 < length b1" using False b by simp_all
      note T = copy_text_back [OF l F(2) c]
      have T': "i2 = i1 - length ?s" "length b2 = buf_size" "drop (Suc i2) b2 = (?s @ F) @ [CHR 0x00]"
        using T False b(2) B by auto
      have "dec_val (?s @ F) = \<bar>big_val op\<bar>" using S b(3) F(3) V by (simp add: dec_val_append)
      moreover have "\<forall>c\<in>set (?s @ F). is_dec c" "?s @ F \<noteq> []" "hd (?s @ F) \<noteq> CHR ''0''" using S b(3) F(1) by auto
      ultimately have D: "dec_text (big_val op) ((if big_val op < 0 then ''-'' else []) @ ?s @ F)"
        unfolding dec_text_def by blast
      have i2: "i2 < length b2" using T'(1,2) b(1) B by simp
      show ?thesis
      proof (cases "sg < 0")
        case True
        have "drop i2 (b2[i2 := CHR ''-'']) = (''-'' @ ?s @ F) @ [CHR 0x00]"
          using drop_update [OF i2, of "CHR ''-''"] T'(3) by simp
        then show ?thesis using c False True D neg T'(2) unfolding eq Inr t by (auto intro!: exI)
      next
        case nn: False
        then show ?thesis using c False D neg T' unfolding eq Inr t by (auto intro!: exI)
      qed
    qed
  qed
qed

text \<open>C6. Writing a big integer in decimal: the loop ends; it either reports \<open>OUT_OF_MEMORY\<close> or leaves
  at the end of the buffer, before a NUL, a text with the right sign, without leading zeros, whose
  digits denote the magnitude; and \<open>8 * k + 12\<close> cells suffice for a number below \<open>10^(8 * k)\<close>.\<close>

theorem bigint_to_decimal:
  assumes "wf_bigint op" "2 \<le> \<bar>sign_size op\<bar>" "length buf = buf_size" "2 \<le> buf_size"
  shows "\<exists>res. bp_write_bigint_to_str op buf buf_size = Some res \<and>
    (case res of Inl e \<Rightarrow> e = OUT_OF_MEMORY
      | Inr (i, buf') \<Rightarrow> length buf' = buf_size \<and>
          (\<exists>s. drop i buf' = s @ [CHR 0x00] \<and> dec_text (big_val op) s)) \<and>
    (\<forall>k. \<bar>big_val op\<bar> < 10 ^ (8 * k) \<and> 8 * k + 11 < buf_size \<longrightarrow> \<not> isl res)"
  by (rule bp_write_bigint_to_str_text [OF assms])

theorem bigint_to_decimal_witness:
  "\<exists>i buf s. bp_write_bigint_to_str \<lparr>sign_size = - 3, digit_list = [1, 0, 1]\<rparr>
       (replicate 40 (CHR ''x'')) 40 = Some (Inr (i, buf))
     \<and> drop i buf = s @ [CHR 0x00] \<and> dec_text (- 72057594037927937) s"
proof -
  let ?a = "\<lparr>sign_size = - 3, digit_list = [1, 0, 1]\<rparr>" and ?b = "replicate 40 (CHR ''x'')"
  have w: "wf_bigint ?a" by code_simp
  have v: "big_val ?a = - 72057594037927937" by code_simp
  obtain res where r: "bp_write_bigint_to_str ?a ?b 40 = Some res"
      "case res of Inl e \<Rightarrow> e = OUT_OF_MEMORY
        | Inr (i, buf') \<Rightarrow> length buf' = 40 \<and> (\<exists>s. drop i buf' = s @ [CHR 0x00] \<and> dec_text (big_val ?a) s)"
      "\<And>k. \<bar>big_val ?a\<bar> < 10 ^ (8 * k) \<Longrightarrow> 8 * k + 11 < 40 \<Longrightarrow> \<not> isl res"
    using bigint_to_decimal [OF w, of ?b 40] by auto
  have "\<not> isl res" using r(3) [of 3] by (simp add: v)
  then obtain i buf where "res = Inr (i, buf)" by (cases res) auto
  with r v show ?thesis by auto
qed

end
