(* ===== verification/Terms.thy ===== *)
theory Terms
  imports Prelude
begin

text \<open>
  Term words, \<open>emu/term.h\<close> and \<open>emu/float1.c\<close> on a 64-bit build: the low two bits and the top bit
  of a word are its tag. An integer is kept in bits 2 to 62, an address in the remaining bits; a
  \<open>BPLONG\<close> is signed, so \<open>>>\<close> on it copies the sign. A float is a structure of three integers
  that hold the 64 bits of the double.
\<close>

type_synonym bpword = "64 word"

section \<open>Tags\<close>

definition REF :: bpword where "REF = 0x0"
definition LST :: bpword where "LST = 0x3"
definition STR_TAG :: bpword where "STR_TAG = 0x1"
definition ATM :: bpword where "ATM = 0x2"
definition SUSP :: bpword where "SUSP = 0x8000000000000001"
definition TAG_MASK :: bpword where "TAG_MASK = 0x8000000000000003"
definition INT_TAG :: bpword where "INT_TAG = 0x8000000000000002"
definition VAL_MASK0 :: bpword where "VAL_MASK0 = 0x7ffffffffffffffc"

definition TAG :: "bpword \<Rightarrow> bpword" where "TAG op = op AND 0x3"

definition ISREF :: "bpword \<Rightarrow> bool" where "ISREF op \<longleftrightarrow> TAG op = 0"
definition ISLIST :: "bpword \<Rightarrow> bool" where "ISLIST op \<longleftrightarrow> op AND TAG_MASK = LST"
definition ISSTRUCT :: "bpword \<Rightarrow> bool" where "ISSTRUCT op \<longleftrightarrow> TAG_MASK AND op = STR_TAG"
definition IS_SUSP_VAR :: "bpword \<Rightarrow> bool" where "IS_SUSP_VAR op \<longleftrightarrow> op AND TAG_MASK = SUSP"
definition ISINT :: "bpword \<Rightarrow> bool" where "ISINT op \<longleftrightarrow> op AND TAG_MASK = INT_TAG"
definition ISATOM :: "bpword \<Rightarrow> bool" where "ISATOM op \<longleftrightarrow> op AND TAG_MASK = ATM"
definition IsNumberedVar :: "bpword \<Rightarrow> bool" where "IsNumberedVar op \<longleftrightarrow> op AND TAG_MASK = TAG_MASK"

definition ADDTAG :: "bpword \<Rightarrow> bpword \<Rightarrow> bpword" where "ADDTAG op tag = op OR tag"
definition UNTAGGED_ADDR :: "bpword \<Rightarrow> bpword" where "UNTAGGED_ADDR op = op AND VAL_MASK0"

definition MAKE_INT :: "bpword \<Rightarrow> bpword" where "MAKE_INT op = push_bit 2 op OR INT_TAG"
definition INTVAL :: "bpword \<Rightarrow> bpword" where "INTVAL op = signed_drop_bit 3 (push_bit 1 op)"
definition NumberVar :: "bpword \<Rightarrow> bpword" where "NumberVar num = push_bit 2 num OR TAG_MASK"

lemmas tag_defs = REF_def LST_def STR_TAG_def ATM_def SUSP_def TAG_MASK_def INT_TAG_def VAL_MASK0_def TAG_def
  ISREF_def ISLIST_def ISSTRUCT_def IS_SUSP_VAR_def ISINT_def ISATOM_def IsNumberedVar_def ADDTAG_def
  UNTAGGED_ADDR_def MAKE_INT_def INTVAL_def NumberVar_def

section \<open>The bits of the masks\<close>

lemma bits_by_cases:
  fixes w :: bpword
  assumes "\<forall>i \<in> set [0..<64]. bit w i = P i" "\<And>i. P i \<Longrightarrow> i < 64"
  shows "bit w i = P i"
proof (cases "i < 64")
  case True
  then show ?thesis using assms(1) by simp
next
  case False
  then have "\<not> bit w i" using bit_imp_le_length [of w i] by auto
  with False assms(2) show ?thesis by auto
qed

lemma bit_masks:
  "bit (0x8000000000000003 :: bpword) i = (i = 63 \<or> i = 0 \<or> i = 1)"
  "bit (0x8000000000000002 :: bpword) i = (i = 63 \<or> i = 1)"
  "bit (0x8000000000000001 :: bpword) i = (i = 63 \<or> i = 0)"
  "bit (0x7ffffffffffffffc :: bpword) i = (2 \<le> i \<and> i \<le> 62)"
  "bit (3 :: bpword) i = (i = 0 \<or> i = 1)"
  "bit (2 :: bpword) i = (i = 1)"
  by (rule bits_by_cases, code_simp, fastforce)+

declare bit_numeral_word_iff [simp del]

text \<open>What a tag test asks of bits 63, 1 and 0.\<close>

lemma tag_test:
  fixes op t :: bpword
  assumes "\<And>i. bit t i \<Longrightarrow> i = 63 \<or> i = 0 \<or> i = 1"
  shows "op AND TAG_MASK = t \<longleftrightarrow> (bit op 63 = bit t 63 \<and> bit op 0 = bit t 0 \<and> bit op 1 = bit t 1)"
proof
  assume e: "op AND TAG_MASK = t"
  have "bit t i = (bit op i \<and> (i = 63 \<or> i = 0 \<or> i = 1))" for i
    unfolding e [symmetric] by (simp add: bit_and_iff TAG_MASK_def bit_masks)
  then show "bit op 63 = bit t 63 \<and> bit op 0 = bit t 0 \<and> bit op 1 = bit t 1" by auto
next
  assume b: "bit op 63 = bit t 63 \<and> bit op 0 = bit t 0 \<and> bit op 1 = bit t 1"
  show "op AND TAG_MASK = t"
    by (rule bit_word_eqI) (use assms b in \<open>auto simp: bit_and_iff TAG_MASK_def bit_masks\<close>)
qed

lemma tag_bits:
  "ISREF op \<longleftrightarrow> \<not> bit op 1 \<and> \<not> bit op 0"
  "ISLIST op \<longleftrightarrow> \<not> bit op 63 \<and> bit op 1 \<and> bit op 0"
  "ISSTRUCT op \<longleftrightarrow> \<not> bit op 63 \<and> \<not> bit op 1 \<and> bit op 0"
  "ISATOM op \<longleftrightarrow> \<not> bit op 63 \<and> bit op 1 \<and> \<not> bit op 0"
  "IS_SUSP_VAR op \<longleftrightarrow> bit op 63 \<and> \<not> bit op 1 \<and> bit op 0"
  "ISINT op \<longleftrightarrow> bit op 63 \<and> bit op 1 \<and> \<not> bit op 0"
  "IsNumberedVar op \<longleftrightarrow> bit op 63 \<and> bit op 1 \<and> bit op 0"
proof -
  have "TAG op = 0 \<longleftrightarrow> \<not> bit op 1 \<and> \<not> bit op 0"
  proof -
    have "possible_bit TYPE(64 word) 0" "possible_bit TYPE(64 word) 1" by simp_all
    then show ?thesis
      unfolding TAG_def bit_eq_iff [of "op AND 0x3"] bit_and_iff bit_masks bit_0_eq bot_apply bot_bool_def
      by metis
  qed
  then show "ISREF op \<longleftrightarrow> \<not> bit op 1 \<and> \<not> bit op 0" by (simp add: ISREF_def)
  show "ISLIST op \<longleftrightarrow> \<not> bit op 63 \<and> bit op 1 \<and> bit op 0"
    unfolding ISLIST_def LST_def by (subst tag_test) (auto simp: bit_masks)
  show "ISSTRUCT op \<longleftrightarrow> \<not> bit op 63 \<and> \<not> bit op 1 \<and> bit op 0"
    unfolding ISSTRUCT_def STR_TAG_def and.commute [of TAG_MASK] by (subst tag_test) (auto simp: bit_1_iff)
  show "ISATOM op \<longleftrightarrow> \<not> bit op 63 \<and> bit op 1 \<and> \<not> bit op 0"
    unfolding ISATOM_def ATM_def by (subst tag_test) (auto simp: bit_masks)
  show "IS_SUSP_VAR op \<longleftrightarrow> bit op 63 \<and> \<not> bit op 1 \<and> bit op 0"
    unfolding IS_SUSP_VAR_def SUSP_def by (subst tag_test) (auto simp: bit_masks)
  show "ISINT op \<longleftrightarrow> bit op 63 \<and> bit op 1 \<and> \<not> bit op 0"
    unfolding ISINT_def INT_TAG_def by (subst tag_test) (auto simp: bit_masks)
  show "IsNumberedVar op \<longleftrightarrow> bit op 63 \<and> bit op 1 \<and> bit op 0"
    unfolding IsNumberedVar_def by (subst tag_test) (auto simp: TAG_MASK_def bit_masks)
qed

section \<open>Integers\<close>

lemma bit_MAKE_INT: "bit (MAKE_INT op) i \<longleftrightarrow> i = 63 \<or> i = 1 \<or> 2 \<le> i \<and> i < 64 \<and> bit op (i - 2)"
  unfolding MAKE_INT_def INT_TAG_def bit_or_iff bit_masks bit_push_bit_iff by auto

lemma bit_INTVAL: "bit (INTVAL op) i \<longleftrightarrow> i < 64 \<and> bit op (if i < 60 then i + 2 else 62)"
proof (cases "i = 60")
  case True
  then show ?thesis unfolding INTVAL_def bit_signed_drop_bit_iff bit_push_bit_iff by auto
next
  case False
  then show ?thesis unfolding INTVAL_def bit_signed_drop_bit_iff bit_push_bit_iff by auto
qed

lemma ISINT_MAKE_INT: "ISINT (MAKE_INT v)"
  by (simp add: tag_bits bit_MAKE_INT)

lemma sint_INTVAL_MAKE_INT: "sint (INTVAL (MAKE_INT v)) = signed_take_bit 60 (sint v)"
proof (rule bit_eqI)
  fix i :: nat
  have *: "bit (sint w) i = bit w (min 63 i)" for w :: bpword
    using bit_imp_le_length [of w i] by (cases "i = 63") (auto simp add: bit_sint_iff min_def)
  show "bit (sint (INTVAL (MAKE_INT v))) i = bit (signed_take_bit 60 (sint v)) i"
    unfolding * bit_signed_take_bit_iff bit_INTVAL bit_MAKE_INT
    by (auto simp: min_def bit_sint_iff)
qed

text \<open>
  \<open>MAKEINT\<close> and \<open>INTVAL\<close>. A word made by \<open>MAKEINT\<close> passes the integer test, and reading it
  back gives the low 61 bits of the operand with the sign copied, so every integer from
  \<open>-2^60\<close> to \<open>2^60 - 1\<close>, in particular every integer of the one-word range, is read back exactly.
\<close>

theorem make_int_roundtrip:
  "ISINT (MAKE_INT v) \<and> sint (INTVAL (MAKE_INT v)) = signed_take_bit 60 (sint v) \<and>
   (INTVAL (MAKE_INT v) = v) = (sint v \<in> {- (2 ^ 60) ..< 2 ^ 60})"
proof -
  have "INTVAL (MAKE_INT v) = v \<longleftrightarrow> sint (INTVAL (MAKE_INT v)) = sint v" by (metis signed_word_eqI)
  also have "\<dots> \<longleftrightarrow> signed_take_bit 60 (sint v) = sint v" by (simp only: sint_INTVAL_MAKE_INT)
  also have "\<dots> \<longleftrightarrow> sint v \<in> {- (2 ^ 60) ..< 2 ^ 60}"
    by (simp add: signed_take_bit_int_eq_self_iff)
  finally show ?thesis by (intro conjI ISINT_MAKE_INT sint_INTVAL_MAKE_INT)
qed

text \<open>
  the tests are exhaustive and exclusive: every word is a reference, a list cell, a
  structure, a suspension variable, an integer, an atom or a numbered variable, and only one of
  them.
\<close>

theorem tag_classes:
  "\<exists>!k. k < 7 \<and> [ISREF op, ISLIST op, ISSTRUCT op, IS_SUSP_VAR op, ISINT op, ISATOM op, IsNumberedVar op] ! k"
proof -
  have "\<exists>!k. k \<in> {0, 1, 2, 3, 4, 5, 6 :: nat} \<and>
    [ISREF op, ISLIST op, ISSTRUCT op, IS_SUSP_VAR op, ISINT op, ISATOM op, IsNumberedVar op] ! k"
    unfolding tag_bits by (cases "bit op 63"; cases "bit op 0"; cases "bit op 1"; force)
  moreover have "k < 7 \<longleftrightarrow> k \<in> {0, 1, 2, 3, 4, 5, 6 :: nat}" for k :: nat by auto
  ultimately show ?thesis by (simp only:)
qed

section \<open>Addresses\<close>

definition is_addr :: "bpword \<Rightarrow> bool" where "is_addr a \<longleftrightarrow> a AND VAL_MASK0 = a"

lemma is_addr_bits: "is_addr a \<longleftrightarrow> \<not> bit a 63 \<and> \<not> bit a 1 \<and> \<not> bit a 0"
proof
  assume "is_addr a"
  then have "bit a i \<Longrightarrow> bit (a AND VAL_MASK0) i" for i by (simp add: is_addr_def)
  then have *: "bit a i \<Longrightarrow> 2 \<le> i \<and> i \<le> 62" for i
    by (simp only: bit_and_iff VAL_MASK0_def bit_masks)
  show "\<not> bit a 63 \<and> \<not> bit a 1 \<and> \<not> bit a 0"
    using * [of 63] * [of 1] * [of 0] by fastforce
next
  assume a: "\<not> bit a 63 \<and> \<not> bit a 1 \<and> \<not> bit a 0"
  have "bit a i \<Longrightarrow> 2 \<le> i \<and> i \<le> 62" for i
  proof -
    assume b: "bit a i"
    then have "i < 64" using bit_imp_le_length [of a i] by simp
    moreover have "i \<noteq> 63" "i \<noteq> 1" "i \<noteq> 0" using a b by metis+
    ultimately show ?thesis by linarith
  qed
  then show "is_addr a"
    unfolding is_addr_def by (intro bit_word_eqI) (auto simp: bit_and_iff VAL_MASK0_def bit_masks)
qed

lemma UNTAGGED_ADDTAG:
  assumes "is_addr a" "\<And>i. bit t i \<Longrightarrow> i = 63 \<or> i = 0 \<or> i = 1"
  shows "UNTAGGED_ADDR (ADDTAG a t) = a"
proof -
  have "t AND VAL_MASK0 = 0"
    by (rule bit_word_eqI) (use assms(2) in \<open>fastforce simp: bit_and_iff VAL_MASK0_def bit_masks\<close>)
  with assms(1) show ?thesis
    by (simp add: UNTAGGED_ADDR_def ADDTAG_def is_addr_def bit.conj_disj_distrib2)
qed

section \<open>Heap cells and floats\<close>

text \<open>
  The heap is a memory from addresses to words with its top; a cell takes 8 bytes. A double is the
  pair of its two 32-bit halves in memory order, which the code reads and writes through a pointer.
\<close>

record heap =
  mem :: "bpword \<Rightarrow> bpword"
  heap_top :: bpword

definition NEW_HEAP_NODE :: "bpword \<Rightarrow> heap \<Rightarrow> heap" where
  "NEW_HEAP_NODE x h = h\<lparr>mem := (mem h)(heap_top h := x), heap_top := heap_top h + 8\<rparr>"

definition encodefloat1 :: "bpword \<Rightarrow> 32 word \<times> 32 word \<Rightarrow> heap \<Rightarrow> bpword \<times> heap" where
  "encodefloat1 float_psc op h =
    (let temp = ADDTAG (heap_top h) STR_TAG;
         h = NEW_HEAP_NODE float_psc h;
         w1 = fst op; w2 = snd op;
         h = NEW_HEAP_NODE (MAKE_INT (ucast (drop_bit 22 w1))) h;
         h = NEW_HEAP_NODE (MAKE_INT (ucast (push_bit 5 (w1 AND 0x3fffff) OR drop_bit 27 w2))) h;
         h = NEW_HEAP_NODE (MAKE_INT (ucast (w2 AND 0x7ffffff))) h
     in (temp, h))"

definition floatval :: "heap \<Rightarrow> bpword \<Rightarrow> 32 word \<times> 32 word" where
  "floatval h op =
    (let op = UNTAGGED_ADDR op;
         w1 = ucast (INTVAL (mem h (op + 8)));
         w2 = ucast (INTVAL (mem h (op + 16)));
         w3 = ucast (INTVAL (mem h (op + 24)))
     in (push_bit 22 w1 OR drop_bit 5 w2, push_bit 27 w2 OR w3))"

definition ISFLOAT :: "bpword \<Rightarrow> heap \<Rightarrow> bpword \<Rightarrow> bool" where
  "ISFLOAT float_psc h op \<longleftrightarrow> ISSTRUCT op \<and> mem h (UNTAGGED_ADDR op) = float_psc"

lemma INTVAL_MAKE_INT_ucast: "ucast (INTVAL (MAKE_INT (ucast (w :: 32 word)))) = w"
  by (rule bit_word_eqI) (auto simp: bit_INTVAL bit_MAKE_INT bit_unsigned_iff dest: bit_imp_le_length)

lemma float_halves:
  fixes w1 w2 :: "32 word"
  shows "push_bit 22 (drop_bit 22 w1) OR drop_bit 5 (push_bit 5 (w1 AND 0x3fffff) OR drop_bit 27 w2) = w1"
    and "push_bit 27 (push_bit 5 (w1 AND 0x3fffff) OR drop_bit 27 w2) OR (w2 AND 0x7ffffff) = w2"
proof -
  have m: "(0x3fffff :: 32 word) = mask 22" "(0x7ffffff :: 32 word) = mask 27"
    by (simp_all add: mask_eq_exp_minus_1)
  show "push_bit 22 (drop_bit 22 w1) OR drop_bit 5 (push_bit 5 (w1 AND 0x3fffff) OR drop_bit 27 w2) = w1"
    unfolding m
  proof (rule bit_word_eqI)
    fix n :: nat
    assume "n < LENGTH(32)"
    then show "bit (push_bit 22 (drop_bit 22 w1) OR drop_bit 5 (push_bit 5 (w1 AND mask 22) OR drop_bit 27 w2)) n = bit w1 n"
      by (cases "22 \<le> n") (auto simp: bit_simps dest: bit_imp_le_length)
  qed
  show "push_bit 27 (push_bit 5 (w1 AND 0x3fffff) OR drop_bit 27 w2) OR (w2 AND 0x7ffffff) = w2"
    unfolding m by (rule bit_word_eqI) (auto simp: bit_simps dest: bit_imp_le_length)
qed

lemma addr_offsets: "(a :: bpword) + 8 \<noteq> a" "a + 16 \<noteq> a" "a + 24 \<noteq> a" "a + 16 \<noteq> a + 8" "a + 24 \<noteq> a + 8" "a + 24 \<noteq> a + 16"
  by simp_all

text \<open>
  C7: a double written to the heap by \<open>encodefloat1\<close> is a float structure at the old top, the
  cells below the top keep their contents, and \<open>floatval\<close> reads all its 64 bits back.
\<close>

theorem float_roundtrip:
  assumes "is_addr (heap_top h)" and "encodefloat1 float_psc d h = (t, h')"
  shows "ISFLOAT float_psc h' t \<and> floatval h' t = d \<and> heap_top h' = heap_top h + 32 \<and>
    (\<forall>a. a - heap_top h \<notin> {0, 8, 16, 24} \<longrightarrow> mem h' a = mem h a)"
proof -
  have "t = ADDTAG (heap_top h) STR_TAG" using assms(2) by (auto simp: encodefloat1_def Let_def)
  moreover have "UNTAGGED_ADDR (ADDTAG (heap_top h) STR_TAG) = heap_top h"
    by (rule UNTAGGED_ADDTAG [OF assms(1)]) (auto simp: STR_TAG_def bit_1_iff)
  moreover have "ISSTRUCT (ADDTAG (heap_top h) STR_TAG)"
    using assms(1) unfolding is_addr_bits by (auto simp: STR_TAG_def bit_1_iff ADDTAG_def tag_bits bit_or_iff)
  ultimately have t: "UNTAGGED_ADDR t = heap_top h" "ISSTRUCT t" by simp_all
  have m: "mem h' = (mem h)(heap_top h := float_psc, heap_top h + 8 := MAKE_INT (ucast (drop_bit 22 (fst d))),
      heap_top h + 16 := MAKE_INT (ucast (push_bit 5 (fst d AND 0x3fffff) OR drop_bit 27 (snd d))),
      heap_top h + 24 := MAKE_INT (ucast (snd d AND 0x7ffffff)))"
    "heap_top h' = heap_top h + 32"
    using assms(2) by (auto simp: encodefloat1_def Let_def NEW_HEAP_NODE_def)
  have cells: "mem h' (heap_top h + 8) = MAKE_INT (ucast (drop_bit 22 (fst d)))"
    "mem h' (heap_top h + 16) = MAKE_INT (ucast (push_bit 5 (fst d AND 0x3fffff) OR drop_bit 27 (snd d)))"
    "mem h' (heap_top h + 24) = MAKE_INT (ucast (snd d AND 0x7ffffff))"
    unfolding m by simp_all
  have "floatval h' t = d"
    unfolding floatval_def t Let_def cells INTVAL_MAKE_INT_ucast float_halves by simp
  moreover have "a - heap_top h \<notin> {0, 8, 16, 24} \<longrightarrow> mem h' a = mem h a" for a
    unfolding m by auto
  ultimately show ?thesis using t m by (simp add: ISFLOAT_def)
qed

theorem float_roundtrip_witness:
  "let h = \<lparr>mem = (\<lambda>_. 0), heap_top = 0x1000\<rparr>; r = encodefloat1 0x500 (0x9abcdef0, 0x40091eb8) h
   in ISFLOAT 0x500 (snd r) (fst r) \<and> floatval (snd r) (fst r) = (0x9abcdef0, 0x40091eb8)"
proof -
  let ?h = "\<lparr>mem = (\<lambda>_. 0), heap_top = 0x1000\<rparr>"
  have "is_addr (heap_top ?h)" unfolding is_addr_def VAL_MASK0_def by simp
  from float_roundtrip [OF this, of "0x500" "(0x9abcdef0, 0x40091eb8)"] show ?thesis
    by (simp add: Let_def split_beta)
qed

end
