(* ===== verification/Double.thy ===== *)
theory Double
  imports Prelude "HOL-Library.Log_Nat"
begin

text \<open>
  The C type \<open>double\<close> as the arithmetic uses it: a finite value is the rational it denotes, and
  every operation rounds the exact result to 53 bits, ties to even, with gradual underflow below
  \<open>2^-1022\<close> and overflow to an infinity from \<open>2^1024\<close> on. The two zeros are one value, so nothing
  here says which sign a zero result has.
\<close>

datatype double = Fin rat | Infty bool | NaN

section \<open>Rounding\<close>

definition round_even :: "rat \<Rightarrow> int" where
  "round_even q = (let f = \<lfloor>q\<rfloor>; r = q - of_int f in
     if r < 1 / 2 then f else if r > 1 / 2 then f + 1 else if even f then f else f + 1)"

definition exponent :: "rat \<Rightarrow> int" where
  "exponent x = (let (n, d) = quotient_of \<bar>x\<bar>;
       k = int (floorlog 2 (nat n)) - int (floorlog 2 (nat d))
     in if 2 powi k \<le> \<bar>x\<bar> then k else k - 1)"

definition ulp :: "rat \<Rightarrow> rat" where
  "ulp x = 2 powi max (exponent x - 52) (- 1074)"

definition rnd :: "rat \<Rightarrow> double" where
  "rnd x = (if x = 0 then Fin 0
     else let y = of_int (round_even (x / ulp x)) * ulp x
          in if \<bar>y\<bar> \<ge> 2 ^ 1024 then Infty (x < 0) else Fin y)"

section \<open>Operations\<close>

definition of_int_d :: "int \<Rightarrow> double" where "of_int_d i = rnd (of_int i)"

fun dneg :: "double \<Rightarrow> double" where
  "dneg (Fin a) = Fin (- a)"
| "dneg (Infty s) = Infty (\<not> s)"
| "dneg NaN = NaN"

fun dadd :: "double \<Rightarrow> double \<Rightarrow> double" where
  "dadd (Fin a) (Fin b) = rnd (a + b)"
| "dadd (Infty s) (Fin b) = Infty s"
| "dadd (Fin a) (Infty t) = Infty t"
| "dadd (Infty s) (Infty t) = (if s = t then Infty s else NaN)"
| "dadd NaN y = NaN"
| "dadd x NaN = NaN"

definition dsub :: "double \<Rightarrow> double \<Rightarrow> double" where "dsub x y = dadd x (dneg y)"

fun dmul :: "double \<Rightarrow> double \<Rightarrow> double" where
  "dmul (Fin a) (Fin b) = rnd (a * b)"
| "dmul (Infty s) (Fin b) = (if b = 0 then NaN else Infty (s \<noteq> (b < 0)))"
| "dmul (Fin a) (Infty t) = (if a = 0 then NaN else Infty (t \<noteq> (a < 0)))"
| "dmul (Infty s) (Infty t) = Infty (s \<noteq> t)"
| "dmul NaN y = NaN"
| "dmul x NaN = NaN"

fun ddiv :: "double \<Rightarrow> double \<Rightarrow> double" where
  "ddiv (Fin a) (Fin b) = (if b = 0 then (if a = 0 then NaN else Infty (a < 0)) else rnd (a / b))"
| "ddiv (Infty s) (Fin b) = Infty (s \<noteq> (b < 0))"
| "ddiv (Fin a) (Infty t) = Fin 0"
| "ddiv (Infty s) (Infty t) = NaN"
| "ddiv NaN y = NaN"
| "ddiv x NaN = NaN"

fun dle :: "double \<Rightarrow> double \<Rightarrow> bool" where
  "dle (Fin a) (Fin b) \<longleftrightarrow> a \<le> b"
| "dle (Infty s) (Fin b) \<longleftrightarrow> s"
| "dle (Fin a) (Infty t) \<longleftrightarrow> \<not> t"
| "dle (Infty s) (Infty t) \<longleftrightarrow> s \<or> \<not> t"
| "dle NaN y \<longleftrightarrow> False"
| "dle x NaN \<longleftrightarrow> False"

fun dlt :: "double \<Rightarrow> double \<Rightarrow> bool" where
  "dlt (Fin a) (Fin b) \<longleftrightarrow> a < b"
| "dlt (Infty s) (Fin b) \<longleftrightarrow> s"
| "dlt (Fin a) (Infty t) \<longleftrightarrow> \<not> t"
| "dlt (Infty s) (Infty t) \<longleftrightarrow> s \<and> \<not> t"
| "dlt NaN y \<longleftrightarrow> False"
| "dlt x NaN \<longleftrightarrow> False"

definition deq :: "double \<Rightarrow> double \<Rightarrow> bool" where "deq x y \<longleftrightarrow> x = y \<and> x \<noteq> NaN"

definition rat_trunc :: "rat \<Rightarrow> int" where
  "rat_trunc x = (if x < 0 then - \<lfloor>- x\<rfloor> else \<lfloor>x\<rfloor>)"

text \<open>The two results of \<open>modf\<close>, \<open>roundl\<close>, and the cast to \<open>BPLONG\<close> of a value in its range.\<close>

fun modf_int :: "double \<Rightarrow> double" where
  "modf_int (Fin a) = Fin (of_int (rat_trunc a))"
| "modf_int x = x"

fun modf_frac :: "double \<Rightarrow> double" where
  "modf_frac (Fin a) = Fin (a - of_int (rat_trunc a))"
| "modf_frac (Infty s) = Fin 0"
| "modf_frac NaN = NaN"

fun dround :: "double \<Rightarrow> double" where
  "dround (Fin a) = rnd (of_int (if a < 0 then - \<lfloor>- a + 1 / 2\<rfloor> else \<lfloor>a + 1 / 2\<rfloor>))"
| "dround x = x"

fun d_to_int :: "double \<Rightarrow> int" where
  "d_to_int (Fin a) = rat_trunc a"
| "d_to_int (Infty s) = (if s then - (2 ^ 63) else 2 ^ 63 - 1)"
| "d_to_int NaN = 0"

section \<open>What rounding keeps\<close>

lemma power_int_less: "(2 :: rat) powi a < 2 powi b \<longleftrightarrow> a < b"
  by (metis linorder_not_le one_le_numeral one_less_numeral_iff power_int_increasing power_int_strict_increasing semiring_norm(76))

lemma round_even_close: "\<bar>of_int (round_even q) - q\<bar> \<le> 1 / 2"
proof -
  have "of_int \<lfloor>q\<rfloor> \<le> q" "q < of_int \<lfloor>q\<rfloor> + 1" by linarith+
  then show ?thesis unfolding round_even_def Let_def by (auto simp: abs_le_iff)
qed

lemma round_even_int [simp]: "round_even (of_int n) = n"
  by (simp add: round_even_def)

lemma exponent_bounds:
  assumes "x \<noteq> 0"
  shows "2 powi exponent x \<le> \<bar>x\<bar> \<and> \<bar>x\<bar> < 2 powi (exponent x + 1)"
proof -
  obtain n d where q: "quotient_of \<bar>x\<bar> = (n, d)" by (cases "quotient_of \<bar>x\<bar>")
  have d: "0 < d" using quotient_of_denom_pos [OF q] .
  have x: "\<bar>x\<bar> = of_int n / of_int d" using quotient_of_div [OF q] .
  have "0 < \<bar>x\<bar>" using assms by simp
  then have n: "0 < n" using x d by (simp add: zero_less_divide_iff)
  define a where "a = floorlog 2 (nat n)"
  define b where "b = floorlog 2 (nat d)"
  have pos: "0 < a" "0 < b" using n d unfolding a_def b_def by (auto simp: floorlog_def)
  have ln: "2 ^ (a - 1) \<le> nat n" "nat n < 2 ^ a"
    using floorlog_bounds [of "nat n" 2] n unfolding a_def by auto
  have ld: "2 ^ (b - 1) \<le> nat d" "nat d < 2 ^ b"
    using floorlog_bounds [of "nat d" 2] d unfolding b_def by auto
  have zn: "2 ^ (a - 1) \<le> n" "n < 2 ^ a" using ln n order_less_imp_le [OF n] by (simp_all add: nat_le_iff le_nat_iff nat_less_iff)
  have zd: "2 ^ (b - 1) \<le> d" "d < 2 ^ b" using ld d by (simp_all add: nat_le_iff le_nat_iff nat_less_iff)
  have rn: "(2 :: rat) ^ (a - 1) \<le> of_int n" "of_int n < (2 :: rat) ^ a"
    using zn by (metis of_int_le_iff of_int_numeral of_int_power, metis of_int_less_iff of_int_numeral of_int_power)
  have rd: "(2 :: rat) ^ (b - 1) \<le> of_int d" "of_int d < (2 :: rat) ^ b"
    using zd by (metis of_int_le_iff of_int_numeral of_int_power, metis of_int_less_iff of_int_numeral of_int_power)
  let ?k = "int a - int b"
  have p: "(2 :: rat) powi (int a - int b) = 2 ^ a / 2 ^ b"
    by (simp add: power_int_diff)
  have pa: "(2 :: rat) ^ a = 2 * 2 ^ (a - 1)" "(2 :: rat) ^ b = 2 * 2 ^ (b - 1)"
    using pos by (simp_all flip: power_Suc)
  have dp: "(0 :: rat) < of_int d" using d by simp
  have "\<bar>x\<bar> < 2 ^ a / 2 ^ (b - 1)"
    unfolding x using rn(2) rd(1) dp n by (intro frac_less) auto
  then have up: "\<bar>x\<bar> < 2 powi (?k + 1)"
    by (simp add: power_int_add p pa(2))
  have "2 ^ (a - 1) / 2 ^ b \<le> \<bar>x\<bar>"
    unfolding x using rn(1) rd(2) dp n by (intro frac_le) auto
  then have lo: "2 powi (?k - 1) \<le> \<bar>x\<bar>"
    by (simp add: power_int_diff p pa(1))
  have "exponent x = (if 2 powi ?k \<le> \<bar>x\<bar> then ?k else ?k - 1)"
    unfolding exponent_def q by (simp add: a_def b_def)
  then show ?thesis using up lo by auto
qed

lemma ulp_pos: "0 < ulp x" by (simp add: ulp_def)

text \<open>A value with at most 53 significant bits is kept.\<close>

lemma rnd_representable:
  assumes "\<bar>m\<bar> < 2 ^ 53" "x = of_int m * 2 powi s" "- 1074 \<le> s" "s \<le> 971"
  shows "rnd x = Fin x"
proof (cases "m = 0")
  case True
  then show ?thesis using assms by (simp add: rnd_def)
next
  case False
  have x0: "x \<noteq> 0" using False assms(2) by simp
  have "\<bar>x\<bar> = of_int \<bar>m\<bar> * 2 powi s" using assms(2) by (simp add: abs_mult)
  moreover have "of_int \<bar>m\<bar> < (2 :: rat) ^ 53"
    using assms(1) by (metis of_int_less_iff of_int_numeral of_int_power)
  ultimately have b: "\<bar>x\<bar> < 2 ^ 53 * 2 powi s"
    using zero_less_power_int [of "2 :: rat" s] by simp
  have "(2 :: rat) powi exponent x < 2 powi (53 + s)"
    using exponent_bounds [OF x0] b by (simp add: power_int_add)
  then have e: "exponent x < 53 + s" by (simp only: power_int_less)
  define t where "t = max (exponent x - 52) (- 1074)"
  have t: "t \<le> s" using e assms(3) unfolding t_def by auto
  have "x / ulp x = of_int m * 2 powi (s - t)"
    unfolding ulp_def t_def [symmetric] using assms(2) by (simp add: power_int_diff)
  also have "\<dots> = of_int (m * 2 ^ nat (s - t))"
    using t by (simp add: power_int_def)
  finally have q: "x / ulp x = of_int (m * 2 ^ nat (s - t))" .
  have y: "of_int (round_even (x / ulp x)) * ulp x = x"
    using q ulp_pos [of x] by (metis less_irrefl nonzero_eq_divide_eq round_even_int)
  have "(2 :: rat) ^ 53 * 2 powi s \<le> 2 ^ 53 * 2 powi 971" using assms(4) by (intro mult_left_mono power_int_increasing) auto
  also have "\<dots> = 2 ^ 1024" by (simp flip: power_add)
  finally have "\<bar>x\<bar> < 2 ^ 1024" using b by linarith
  then show ?thesis using x0 y by (simp add: rnd_def Let_def)
qed

lemma rnd_int: "\<bar>n\<bar> < 2 ^ 53 \<Longrightarrow> rnd (of_int n) = Fin (of_int n)"
  by (rule rnd_representable [of n _ 0]) auto

lemma of_int_d_exact: "\<bar>n\<bar> < 2 ^ 53 \<Longrightarrow> of_int_d n = Fin (of_int n)"
  by (simp add: of_int_d_def rnd_int)

text \<open>In the normal range the relative error is at most \<open>2^-53\<close>.\<close>

lemma rnd_close:
  assumes "1 / 2 ^ 100 \<le> \<bar>x\<bar>" "\<bar>x\<bar> \<le> 2 ^ 1000"
  shows "\<exists>y. rnd x = Fin y \<and> \<bar>y - x\<bar> \<le> \<bar>x\<bar> / 2 ^ 53"
proof -
  have "(0 :: rat) < 1 / 2 ^ 100" by simp
  then have x0: "x \<noteq> 0" using assms(1) by auto
  note e = exponent_bounds [OF x0]
  have "(2 :: rat) powi (- 100) \<le> \<bar>x\<bar>" using assms(1) by (simp add: power_int_minus inverse_eq_divide)
  then have "(2 :: rat) powi (- 100) < 2 powi (exponent x + 1)" using e by linarith
  then have "- 100 < exponent x + 1" by (simp only: power_int_less)
  then have "max (exponent x - 52) (- 1074) = exponent x - 52" by auto
  then have u: "ulp x = 2 powi exponent x / 2 ^ 52"
    by (simp add: ulp_def power_int_diff)
  define y where "y = of_int (round_even (x / ulp x)) * ulp x"
  have "y - x = (of_int (round_even (x / ulp x)) - x / ulp x) * ulp x"
    using ulp_pos [of x] by (simp add: y_def left_diff_distrib)
  then have "\<bar>y - x\<bar> \<le> 1 / 2 * ulp x"
    using round_even_close [of "x / ulp x"] ulp_pos [of x]
    by (metis abs_mult abs_of_pos mult_right_mono order_less_imp_le)
  also have "\<dots> \<le> \<bar>x\<bar> / 2 ^ 53"
    unfolding u using e by (simp add: field_simps)
  finally have c: "\<bar>y - x\<bar> \<le> \<bar>x\<bar> / 2 ^ 53" .
  then have "\<bar>y\<bar> \<le> \<bar>x\<bar> + \<bar>x\<bar> / 2 ^ 53" by linarith
  also have "\<dots> \<le> 2 ^ 1000 + 2 ^ 1000 / 2 ^ 53" using assms(2) by (intro add_mono divide_right_mono) auto
  also have "\<dots> < 2 ^ 1024" by simp
  finally have "rnd x = Fin y" using x0 by (simp add: rnd_def y_def Let_def)
  with c show ?thesis by blast
qed

text \<open>The cast to an integer followed by the correction for negative values is the floor.\<close>

lemma trunc_floor: "(if x < of_int (rat_trunc x) then rat_trunc x - 1 else rat_trunc x) = \<lfloor>x\<rfloor>"
proof (cases "x < 0")
  case True
  then have r: "rat_trunc x = - \<lfloor>- x\<rfloor>" by (simp add: rat_trunc_def)
  show ?thesis unfolding r of_int_minus by (simp split: if_split) linarith
next
  case False
  then have r: "rat_trunc x = \<lfloor>x\<rfloor>" by (simp add: rat_trunc_def)
  show ?thesis unfolding r using of_int_floor_le [of x] by (simp add: not_less)
qed

text \<open>A rounded quotient of two 28-bit integers still has the floor of the exact quotient.\<close>

lemma quotient_floor:
  assumes "\<bar>a\<bar> < 2 ^ 28" "\<bar>b\<bar> < 2 ^ 28" "b \<noteq> 0"
  shows "\<exists>f. ddiv (of_int_d a) (of_int_d b) = Fin f \<and> \<lfloor>f\<rfloor> = a div b \<and> \<bar>f\<bar> \<le> 2 ^ 28"
proof -
  define q where "q = (of_int a / of_int b :: rat)"
  have d: "ddiv (of_int_d a) (of_int_d b) = rnd q"
    using assms by (simp add: of_int_d_exact q_def)
  have fl: "\<lfloor>q\<rfloor> = a div b" by (simp add: q_def floor_divide_of_int_eq)
  have B: "1 \<le> \<bar>of_int b :: rat\<bar>" "\<bar>of_int b :: rat\<bar> < 2 ^ 28"
    using assms(2,3) by (simp_all flip: of_int_abs)
  have A: "\<bar>of_int a :: rat\<bar> < 2 ^ 28" using assms(1) by (simp flip: of_int_abs)
  have qa: "\<bar>q\<bar> = \<bar>of_int a\<bar> / \<bar>of_int b\<bar>" by (simp add: q_def abs_divide)
  have Q: "\<bar>q\<bar> < 2 ^ 28"
  proof -
    have "\<bar>q\<bar> \<le> \<bar>of_int a\<bar>" unfolding qa using B(1) divide_left_mono [of 1 "\<bar>of_int b\<bar> :: rat" "\<bar>of_int a\<bar>"] by simp
    then show ?thesis using A by linarith
  qed
  show ?thesis
  proof (cases "b dvd a")
    case True
    then have q: "q = of_int (a div b)" using assms(3) by (auto simp: q_def)
    have "\<bar>a div b\<bar> < 2 ^ 28" using Q unfolding q by (simp flip: of_int_abs)
    then have "rnd q = Fin q" unfolding q by (intro rnd_int) simp
    then show ?thesis using d fl Q by auto
  next
    case False
    then have "a \<noteq> 0" by auto
    then have A1: "1 \<le> \<bar>of_int a :: rat\<bar>" by (simp flip: of_int_abs)
    have "1 / 2 ^ 28 \<le> \<bar>of_int a :: rat\<bar> / \<bar>of_int b\<bar>"
      using A1 B by (intro frac_le) auto
    moreover have "(1 :: rat) / 2 ^ 100 \<le> 1 / 2 ^ 28" by simp
    ultimately have "1 / 2 ^ 100 \<le> \<bar>q\<bar>" unfolding qa by (rule order_trans [rotated])
    moreover have "\<bar>q\<bar> \<le> 2 ^ 1000"
      using order.strict_implies_order [OF Q] by (rule order_trans) (rule power_increasing; simp)
    ultimately obtain y where y: "rnd q = Fin y" "\<bar>y - q\<bar> \<le> \<bar>q\<bar> / 2 ^ 53"
      using rnd_close by blast
    have "\<bar>of_int a :: rat\<bar> / 2 ^ 53 < 1" using A by simp
    then have "\<bar>of_int a :: rat\<bar> / 2 ^ 53 / \<bar>of_int b\<bar> < 1 / \<bar>of_int b\<bar>"
      using B(1) by (intro divide_strict_right_mono) auto
    then have "\<bar>q\<bar> / 2 ^ 53 < 1 / \<bar>of_int b\<bar>"
      unfolding qa by (simp only: divide_divide_eq_left mult.commute)
    then have err: "\<bar>y - q\<bar> < 1 / \<bar>of_int b\<bar>" using y(2) by linarith
    define n where "n = a div b"
    have m: "a = b * n + a mod b" "a mod b \<noteq> 0"
      using False by (simp_all add: n_def dvd_eq_mod_eq_0)
    have qn: "q - of_int n = of_int (a mod b) / of_int b"
      using assms(3) arg_cong [OF m(1), of "of_int :: int \<Rightarrow> rat"] by (simp add: q_def field_simps)
    have lo: "1 / \<bar>of_int b\<bar> \<le> q - of_int n"
    proof -
      have "1 / \<bar>of_int b\<bar> \<le> \<bar>of_int (a mod b)\<bar> / \<bar>of_int b :: rat\<bar>"
        using m(2) B(1) by (intro divide_right_mono) (simp_all flip: of_int_abs)
      also have "\<dots> = \<bar>q - of_int n\<bar>" using qn by (simp add: abs_divide)
      also have "\<dots> = q - of_int n" using fl by (simp add: n_def) linarith
      finally show ?thesis .
    qed
    have hi: "1 / \<bar>of_int b\<bar> \<le> of_int n + 1 - q"
    proof -
      have "of_int n + 1 - q = (of_int b - of_int (a mod b)) / of_int b"
        using qn assms(3) by (simp add: field_simps)
      also have "\<dots> = of_int \<bar>b - a mod b\<bar> / \<bar>of_int b\<bar>"
      proof (cases "0 < b")
        case True
        then have "\<bar>b - a mod b\<bar> = b - a mod b" "\<bar>of_int b :: rat\<bar> = of_int b"
          using pos_mod_bound [of b a] True by linarith+
        then show ?thesis by simp
      next
        case f: False
        then have "\<bar>b - a mod b\<bar> = a mod b - b" "\<bar>of_int b :: rat\<bar> = - of_int b"
          using neg_mod_bound [of b a] assms(3) by linarith+
        then show ?thesis by (simp add: divide_minus_right minus_divide_left)
      qed
      finally have *: "of_int n + 1 - q = of_int \<bar>b - a mod b\<bar> / \<bar>of_int b\<bar>" .
      have "b \<noteq> a mod b" using assms(3) by (metis mod_mod_trivial mod_self m(2))
      then have "(1 :: rat) \<le> of_int \<bar>b - a mod b\<bar>" by (simp flip: of_int_abs)
      then show ?thesis unfolding * using B(1) by (intro divide_right_mono) auto
    qed
    have "\<lfloor>y\<rfloor> = n" unfolding floor_eq_iff using lo hi err by linarith
    moreover have "\<bar>y\<bar> \<le> 2 ^ 28"
    proof -
      have "- (2 ^ 28) \<le> n" "n + 1 \<le> 2 ^ 28"
      proof -
        have "\<lfloor>q\<rfloor> < 2 ^ 28" "- (2 ^ 28) \<le> \<lfloor>q\<rfloor>" using Q by (simp_all add: floor_less_iff le_floor_iff)
        then show "- (2 ^ 28) \<le> n" "n + 1 \<le> 2 ^ 28" using fl by (simp_all add: n_def)
      qed
      then have "of_int (- (2 ^ 28)) \<le> (of_int n :: rat)" "of_int (n + 1) \<le> (of_int (2 ^ 28) :: rat)"
        by (simp_all only: of_int_le_iff)
      then have "- (2 ^ 28) \<le> (of_int n :: rat)" "of_int n + 1 \<le> (2 ^ 28 :: rat)" by simp_all
      moreover have "of_int n \<le> y" "y \<le> of_int n + 1" using lo hi err by linarith+
      ultimately show ?thesis by linarith
    qed
    ultimately show ?thesis using d y by (auto simp: n_def)
  qed
qed

lemma rnd_large:
  assumes "2 ^ 52 \<le> \<bar>x\<bar>" "\<bar>x\<bar> \<le> 2 ^ 1000"
  shows "\<exists>y. rnd x = Fin y \<and> 2 ^ 51 \<le> \<bar>y\<bar> \<and> \<bar>y\<bar> \<le> 2 * \<bar>x\<bar>"
proof -
  have "1 / 2 ^ 100 \<le> (2 :: rat) ^ 52" by simp
  from order_trans [OF this assms(1)] obtain y where y: "rnd x = Fin y" "\<bar>y - x\<bar> \<le> \<bar>x\<bar> / 2 ^ 53"
    using rnd_close [OF _ assms(2)] by blast
  have "\<bar>x\<bar> / 2 ^ 53 \<le> \<bar>x\<bar> / 2" by (intro divide_left_mono) auto
  then have "\<bar>x\<bar> / 2 \<le> \<bar>y\<bar>" "\<bar>y\<bar> \<le> 2 * \<bar>x\<bar>" using y(2) by linarith+
  then show ?thesis using y(1) assms(1) by auto
qed

text \<open>The exponent is determined by its bounds, so a value can be rounded by hand.\<close>

lemma exponent_eqI:
  assumes "2 powi e \<le> \<bar>x\<bar>" "\<bar>x\<bar> < 2 powi (e + 1)"
  shows "exponent x = e"
proof -
  have "(0 :: rat) < 2 powi e" by simp
  then have "x \<noteq> 0" using assms(1) by (metis abs_zero linorder_not_le)
  then have "(2 :: rat) powi e < 2 powi (exponent x + 1)" "(2 :: rat) powi exponent x < 2 powi (e + 1)"
    using exponent_bounds [of x] assms by linarith+
  then show ?thesis by (simp add: power_int_less)
qed

lemma of_int_d_maxint: "of_int_d (2 ^ 56 - 1) = Fin (2 ^ 56)" "of_int_d (- (2 ^ 56 - 1)) = Fin (- (2 ^ 56))"
proof -
  have e: "exponent 72057594037927935 = 55" "exponent (- 72057594037927935) = 55"
    by (rule exponent_eqI; simp)+
  have f: "\<lfloor>72057594037927935 / 8 :: rat\<rfloor> = 9007199254740991" "\<lfloor>- (72057594037927935 / 8) :: rat\<rfloor> = - 9007199254740992"
    by (rule floor_unique; simp)+
  show "of_int_d (2 ^ 56 - 1) = Fin (2 ^ 56)" "of_int_d (- (2 ^ 56 - 1)) = Fin (- (2 ^ 56))"
    by (simp_all add: of_int_d_def rnd_def ulp_def e f round_even_def Let_def)
qed

end
