(* ===== verification/Arith.thy ===== *)
theory Arith
  imports Bigint_Div Bigint_Bits Double
begin

text \<open>
  Arithmetic on numbers, the first two thirds of \<open>emu/arith.c\<close>: what each operation does once its
  operands are numbers. A number is a primitive integer or a big integer (\<open>bpnum\<close>) or a double.
  The functions of the file first evaluate an operand that is not a number; since a number
  evaluates to itself, that step is the one of theory \<open>Eval\<close>, and the definitions here start
  after it. The C library's \<open>pow\<close> is an argument, with the flag whether it has set \<open>errno\<close>.
\<close>

datatype number = Num bpnum | Flt double

text \<open>Terms as the evaluator sees them; a dereferenced variable, free or suspended, is
  \<open>Unbound\<close>, and an atom is a structure with no arguments.\<close>

datatype bpterm =
    Unbound
  | Number number
  | Lst bpterm bpterm
  | Struct string "bpterm list"

datatype expected = et_INTEGER | et_NUMBER | et_EVALUABLE | et_LIST

datatype arith_error =
    BP bp_error
  | ZERO_DIVISOR
  | TYPE_ERROR expected bpterm
  | DOMAIN_ERROR expected bpterm
  | FLOAT_OVERFLOW bpterm
  | INSTANTIATION_ERROR
  | DIVIDE_BY_ZERO
  | INTEGER_EXPECTED
  | UNDEFINED   \<comment> \<open>not an exception of the engine: C leaves the result undefined here: a division
      by zero, also one of big integers, which reads outside the divisor's digits, or a shift by
      64 bits or more\<close>

type_synonym 'a result = "arith_error + 'a"

definition int_error :: "number \<Rightarrow> 'a result" where
  "int_error v = Inl (TYPE_ERROR et_INTEGER (Number v))"

definition of_bp :: "bp_error + bpnum \<Rightarrow> number result" where
  "of_bp r = (case r of Inl e \<Rightarrow> Inl (BP e) | Inr v \<Rightarrow> Inr (Num v))"

abbreviation NInt :: "int \<Rightarrow> number" where "NInt i \<equiv> Num (MAKEINT i)"
abbreviation NBig :: "bigint \<Rightarrow> number" where "NBig b \<equiv> Num (MAKEBIG b)"

section \<open>Ranges and conversions\<close>

definition BP_IN_1W_INT_RANGE :: "int \<Rightarrow> bool" where
  "BP_IN_1W_INT_RANGE i \<longleftrightarrow> BP_MININT_1W \<le> i \<and> i \<le> BP_MAXINT_1W"

definition BP_IN_28B_INT_RANGE :: "int \<Rightarrow> bool" where
  "BP_IN_28B_INT_RANGE i \<longleftrightarrow> - 268435456 < i \<and> i < 268435456"

definition BP_IN_TINYINT_RANGE :: "int \<Rightarrow> bool" where
  "BP_IN_TINYINT_RANGE i \<longleftrightarrow> - 65536 < i \<and> i < 65536"

definition in_1w_double :: "double \<Rightarrow> bool" where
  "in_1w_double f \<longleftrightarrow> dle (of_int_d BP_MININT_1W) f \<and> dle f (of_int_d BP_MAXINT_1W)"

definition in_28b_double :: "double \<Rightarrow> bool" where
  "in_28b_double f \<longleftrightarrow> dlt (of_int_d (- 268435456)) f \<and> dlt f (of_int_d 268435456)"

definition MAKE_INT_OR_BIGINT :: "int \<Rightarrow> bpnum" where
  "MAKE_INT_OR_BIGINT i = (if BP_IN_1W_INT_RANGE i then MAKEINT i else MAKEBIG (bp_int_to_bigint i))"

definition bp_ubig_to_double :: "nat \<Rightarrow> ubigint \<Rightarrow> double" where
  "bp_ubig_to_double dsize x =
     for_down (dsize - 1) (\<lambda>i d. dadd (dmul d (of_int_d BP_BIGINT_BASE)) (of_int_d (x ! i)))
       (of_int_d (x ! (dsize - 1)))"

definition bp_bigint_to_double :: "bigint \<Rightarrow> double" where
  "bp_bigint_to_double op =
     (let (sign, dsize, DLst) = bp_decompose_bigint op;
          x = bp_make_ubig_from_dlst DLst (dsize + 1);
          d = bp_ubig_to_double dsize x
      in if sign < 0 then dneg d else d)"

text \<open>The digits of \<open>bp_double_to_bigint\<close>, written to an area of 100 cells.\<close>

fun double_digits :: "nat \<Rightarrow> double \<Rightarrow> bp_error + int list" where
  "double_digits cells a =
     (if dle (of_int_d BP_BIGINT_BASE) a then
        (case cells of 0 \<Rightarrow> Inl STACK_OVERRUN
         | Suc c \<Rightarrow>
             let f = modf_int (ddiv a (of_int_d BP_BIGINT_BASE));
                 xi = d_to_int (dsub a (dmul f (of_int_d BP_BIGINT_BASE)))
             in (case double_digits c f of Inl e \<Rightarrow> Inl e | Inr x \<Rightarrow> Inr (xi # x)))
      else let op = d_to_int a
        in if op = 0 then Inr [] else if cells = 0 then Inl STACK_OVERRUN else Inr [op])"

declare double_digits.simps [simp del]

definition bp_double_to_bigint :: "double \<Rightarrow> bp_error + bigint" where
  "bp_double_to_bigint a =
     (let (sign, a) = (if dlt a (Fin 0) then (- 1, dneg a) else (1, a));
          a = modf_int a
      in case double_digits 100 a of Inl e \<Rightarrow> Inl e
         | Inr x \<Rightarrow> Inr (bp_make_bigint_from_ubig sign (length x) x))"

definition DBL_MAX :: double where
  "DBL_MAX = Fin ((2 ^ 53 - 1) * 2 ^ 971)"

definition TEST_NAN :: "double \<Rightarrow> number \<Rightarrow> 'a result \<Rightarrow> 'a result" where
  "TEST_NAN f op k =
     (if deq f f \<and> dle f DBL_MAX \<and> dle (dneg DBL_MAX) f then k else Inl (FLOAT_OVERFLOW (Number op)))"

definition BP_DOUBLE_VAL :: "number \<Rightarrow> double result" where
  "BP_DOUBLE_VAL op = (case op of
       NInt i \<Rightarrow> Inr (of_int_d i)
     | Flt f \<Rightarrow> Inr f
     | NBig b \<Rightarrow> (let f = bp_bigint_to_double b in TEST_NAN f op (Inr f)))"

section \<open>Addition, subtraction, multiplication\<close>

fun bp_math_add :: "number \<Rightarrow> number \<Rightarrow> number" where
  "bp_math_add (NInt a) (NInt b) = Num (MAKE_INT_OR_BIGINT (a + b))"
| "bp_math_add (NInt a) (Flt g) = Flt (dadd (of_int_d a) g)"
| "bp_math_add (NInt a) (NBig y) = Num (bp_add_bigint_bigint (bp_int_to_bigint a) y)"
| "bp_math_add (Flt f) (NInt b) = Flt (dadd f (of_int_d b))"
| "bp_math_add (Flt f) (Flt g) = Flt (dadd f g)"
| "bp_math_add (Flt f) (NBig y) = Flt (dadd f (bp_bigint_to_double y))"
| "bp_math_add (NBig x) (NInt b) = Num (bp_add_bigint_bigint x (bp_int_to_bigint b))"
| "bp_math_add (NBig x) (Flt g) = Flt (dadd (bp_bigint_to_double x) g)"
| "bp_math_add (NBig x) (NBig y) = Num (bp_add_bigint_bigint x y)"

fun bp_math_sub :: "number \<Rightarrow> number \<Rightarrow> number" where
  "bp_math_sub (NInt a) (NInt b) = Num (MAKE_INT_OR_BIGINT (a - b))"
| "bp_math_sub (NInt a) (Flt g) = Flt (dsub (of_int_d a) g)"
| "bp_math_sub (NInt a) (NBig y) = Num (bp_sub_bigint_bigint (bp_int_to_bigint a) y)"
| "bp_math_sub (Flt f) (NInt b) = Flt (dsub f (of_int_d b))"
| "bp_math_sub (Flt f) (Flt g) = Flt (dsub f g)"
| "bp_math_sub (Flt f) (NBig y) = Flt (dsub f (bp_bigint_to_double y))"
| "bp_math_sub (NBig x) (NInt b) = Num (bp_sub_bigint_bigint x (bp_int_to_bigint b))"
| "bp_math_sub (NBig x) (Flt g) = Flt (dsub (bp_bigint_to_double x) g)"
| "bp_math_sub (NBig x) (NBig y) = Num (bp_sub_bigint_bigint x y)"

fun bp_math_mul :: "number \<Rightarrow> number \<Rightarrow> number" where
  "bp_math_mul (NInt a) (NInt b) =
     (if BP_IN_28B_INT_RANGE a \<and> BP_IN_28B_INT_RANGE b then NInt (a * b)
      else if a = 0 \<or> b = 0 then Num BP_ZERO
      else Num (bp_mul_bigint_bigint (bp_int_to_bigint a) (bp_int_to_bigint b)))"
| "bp_math_mul (NInt a) (Flt g) = Flt (dmul (of_int_d a) g)"
| "bp_math_mul (NInt a) (NBig y) =
     (if a = 0 then Num BP_ZERO else Num (bp_mul_bigint_bigint (bp_int_to_bigint a) y))"
| "bp_math_mul (Flt f) (NInt b) = Flt (dmul f (of_int_d b))"
| "bp_math_mul (Flt f) (Flt g) = Flt (dmul f g)"
| "bp_math_mul (Flt f) (NBig y) = Flt (dmul f (bp_bigint_to_double y))"
| "bp_math_mul (NBig x) (NInt b) =
     (if b = 0 then Num BP_ZERO else Num (bp_mul_bigint_bigint x (bp_int_to_bigint b)))"
| "bp_math_mul (NBig x) (Flt g) = Flt (dmul (bp_bigint_to_double x) g)"
| "bp_math_mul (NBig x) (NBig y) = Num (bp_mul_bigint_bigint x y)"

section \<open>Division\<close>

definition UP_DIV :: "int \<Rightarrow> int \<Rightarrow> int" where
  "UP_DIV x a = (if 0 \<le> x then (let v = x sdiv a in if v * a \<noteq> x then v + 1 else v) else x sdiv a)"

definition LOW_DIV :: "int \<Rightarrow> int \<Rightarrow> int" where
  "LOW_DIV x a = (if 0 \<le> x then x sdiv a else (let v = x sdiv a in if v * a \<noteq> x then v - 1 else v))"

fun bp_math_divge :: "number \<Rightarrow> number \<Rightarrow> number result" where
  "bp_math_divge (NInt a) (NInt b) =
     (let (a, b) = (if b < 0 then (- a, - b) else (a, b))
      in if b = 0 then Inl UNDEFINED else Inr (NInt (UP_DIV a b)))"
| "bp_math_divge (NInt a) (NBig y) = of_bp (bp_updiv_bigint_bigint (bp_int_to_bigint a) y)"
| "bp_math_divge (NInt a) (Flt g) = int_error (Flt g)"
| "bp_math_divge (NBig x) (NInt b) =
     (if b = 0 then Inl UNDEFINED else of_bp (bp_updiv_bigint_bigint x (bp_int_to_bigint b)))"
| "bp_math_divge (NBig x) (NBig y) = of_bp (bp_updiv_bigint_bigint x y)"
| "bp_math_divge (NBig x) (Flt g) = int_error (Flt g)"
| "bp_math_divge (Flt f) y = int_error (Flt f)"

fun bp_math_divle :: "number \<Rightarrow> number \<Rightarrow> number result" where
  "bp_math_divle (NInt a) (NInt b) =
     (let (a, b) = (if b < 0 then (- a, - b) else (a, b))
      in if b = 0 then Inl UNDEFINED else Inr (NInt (LOW_DIV a b)))"
| "bp_math_divle (NInt a) (NBig y) = of_bp (bp_lowdiv_bigint_bigint (bp_int_to_bigint a) y)"
| "bp_math_divle (NInt a) (Flt g) = int_error (Flt g)"
| "bp_math_divle (NBig x) (NInt b) =
     (if b = 0 then Inl UNDEFINED else of_bp (bp_lowdiv_bigint_bigint x (bp_int_to_bigint b)))"
| "bp_math_divle (NBig x) (NBig y) = of_bp (bp_lowdiv_bigint_bigint x y)"
| "bp_math_divle (NBig x) (Flt g) = int_error (Flt g)"
| "bp_math_divle (Flt f) y = int_error (Flt f)"

fun bp_math_div :: "number \<Rightarrow> number \<Rightarrow> number result" where
  "bp_math_div (NInt a) (NInt b) =
     (if b = 0 then Inl ZERO_DIVISOR else Inr (Flt (ddiv (of_int_d a) (of_int_d b))))"
| "bp_math_div (NInt a) (Flt g) =
     (if deq g (Fin 0) then Inl ZERO_DIVISOR else Inr (Flt (ddiv (of_int_d a) g)))"
| "bp_math_div (NInt a) (NBig y) = Inr (Flt (ddiv (of_int_d a) (bp_bigint_to_double y)))"
| "bp_math_div (Flt f) (NInt b) =
     (if b = 0 then Inl ZERO_DIVISOR else Inr (Flt (ddiv f (of_int_d b))))"
| "bp_math_div (Flt f) (Flt g) =
     (if deq g (Fin 0) then Inl ZERO_DIVISOR else Inr (Flt (ddiv f g)))"
| "bp_math_div (Flt f) (NBig y) = Inr (Flt (ddiv f (bp_bigint_to_double y)))"
| "bp_math_div (NBig x) (NInt b) =
     (if b = 0 then Inl ZERO_DIVISOR else Inr (Flt (ddiv (bp_bigint_to_double x) (of_int_d b))))"
| "bp_math_div (NBig x) (Flt g) =
     (if deq g (Fin 0) then Inl ZERO_DIVISOR else Inr (Flt (ddiv (bp_bigint_to_double x) g)))"
| "bp_math_div (NBig x) (NBig y) = Inr (Flt (ddiv (bp_bigint_to_double x) (bp_bigint_to_double y)))"

fun bp_math_idiv :: "number \<Rightarrow> number \<Rightarrow> number result" where
  "bp_math_idiv (NInt a) (NInt b) =
     (if b = 0 then Inl ZERO_DIVISOR else Inr (NInt (a sdiv b)))"
| "bp_math_idiv (NInt a) (NBig y) = Inr (Num BP_ZERO)"
| "bp_math_idiv (NInt a) (Flt g) = int_error (Flt g)"
| "bp_math_idiv (NBig x) (NInt b) =
     (if b = 0 then Inl ZERO_DIVISOR
      else let sign = bp_sign_bigint x;
               x = bp_abs_bigint x;
               (sign, b) = (if b < 0 then (- sign, - b) else (sign, b));
               q = bp_div_bigint_bigint x (bp_int_to_bigint b)
           in Inr (Num (if sign = 1 then q else bp_neg_num q)))"
| "bp_math_idiv (NBig x) (NBig y) =
     (let sign = bp_sign_bigint x * bp_sign_bigint y;
          q = bp_div_bigint_bigint (bp_abs_bigint x) (bp_abs_bigint y)
      in Inr (Num (if sign = 1 then q else bp_neg_num q)))"
| "bp_math_idiv (NBig x) (Flt g) = int_error (Flt g)"
| "bp_math_idiv (Flt f) y = int_error (Flt f)"

text \<open>The floor of the quotient of two 28-bit integers, computed with doubles.\<close>

definition double_floor_div :: "int \<Rightarrow> int \<Rightarrow> int" where
  "double_floor_div a b =
     (let f = ddiv (of_int_d a) (of_int_d b);
          m = d_to_int f
      in if dlt f (of_int_d m) then m - 1 else m)"

fun bp_math_idiv_div :: "number \<Rightarrow> number \<Rightarrow> number result" where
  "bp_math_idiv_div (NInt a) (NInt b) =
     (if b = 0 then Inl ZERO_DIVISOR
      else if 0 < a \<and> 0 < b then Inr (NInt (a sdiv b))
      else if BP_IN_28B_INT_RANGE a \<and> BP_IN_28B_INT_RANGE b then Inr (NInt (double_floor_div a b))
      else Inr (Num (bp_div_bigint_bigint (bp_int_to_bigint a) (bp_int_to_bigint b))))"
| "bp_math_idiv_div (NInt a) (NBig y) = Inr (Num (bp_div_bigint_bigint (bp_int_to_bigint a) y))"
| "bp_math_idiv_div (NInt a) (Flt g) = int_error (Flt g)"
| "bp_math_idiv_div (NBig x) (NInt b) =
     (if b = 0 then Inl ZERO_DIVISOR
      else Inr (Num (bp_div_bigint_bigint x (bp_int_to_bigint b))))"
| "bp_math_idiv_div (NBig x) (NBig y) = Inr (Num (bp_div_bigint_bigint x y))"
| "bp_math_idiv_div (NBig x) (Flt g) = int_error (Flt g)"
| "bp_math_idiv_div (Flt f) y = int_error (Flt f)"

fun bp_math_mod :: "number \<Rightarrow> number \<Rightarrow> number result" where
  "bp_math_mod (NInt a) (NInt b) =
     (if b = 0 then Inl ZERO_DIVISOR
      else if 0 < a \<and> 0 < b then Inr (NInt (a smod b))
      else if BP_IN_28B_INT_RANGE a \<and> BP_IN_28B_INT_RANGE b
        then Inr (NInt (a - double_floor_div a b * b))
      else of_bp (bp_mod_bigint_bigint (bp_int_to_bigint a) (bp_int_to_bigint b)))"
| "bp_math_mod (NInt a) (NBig y) = of_bp (bp_mod_bigint_bigint (bp_int_to_bigint a) y)"
| "bp_math_mod (NInt a) (Flt g) = int_error (Flt g)"
| "bp_math_mod (NBig x) (NInt b) =
     (if b = 0 then Inl ZERO_DIVISOR
      else let i = bp_bigint_to_native_long x
           in if i \<noteq> 0 then Inr (NInt (i smod b))
              else of_bp (bp_mod_bigint_bigint x (bp_int_to_bigint b)))"
| "bp_math_mod (NBig x) (NBig y) = of_bp (bp_mod_bigint_bigint x y)"
| "bp_math_mod (NBig x) (Flt g) = int_error (Flt g)"
| "bp_math_mod (Flt f) y = int_error (Flt f)"

text \<open>\<open>neg_if\<close> is the tail of \<open>bp_math_rem\<close>: the sign of the dividend goes back on the remainder.\<close>

definition neg_if :: "bool \<Rightarrow> bp_error + bpnum \<Rightarrow> number result" where
  "neg_if b r = (case r of Inl e \<Rightarrow> Inl (BP e) | Inr v \<Rightarrow> Inr (Num (if b then bp_neg_num v else v)))"

fun bp_math_rem :: "number \<Rightarrow> number \<Rightarrow> number result" where
  "bp_math_rem (NInt a) (NInt b) =
     (if b = 0 then Inl ZERO_DIVISOR else Inr (NInt (a smod b)))"
| "bp_math_rem (NInt a) (NBig y) =
     (let (sign, a) = (if a < 0 then (- 1, - a) else (1, a))
      in neg_if (\<not> sign > (0 :: int)) (bp_mod_bigint_bigint (bp_int_to_bigint a) (bp_abs_bigint y)))"
| "bp_math_rem (NInt a) (Flt g) = int_error (NInt a)"
| "bp_math_rem (NBig x) (NInt b) =
     (if b = 0 then Inl ZERO_DIVISOR
      else let b = (if b < 0 then - b else b);
               sign = bp_sign_bigint x;
               x = (if sign < 0 then bp_neg_bigint x else x)
           in neg_if (sign = - 1) (bp_mod_bigint_bigint x (bp_int_to_bigint b)))"
| "bp_math_rem (NBig x) (NBig y) =
     neg_if (bp_sign_bigint x = - 1) (bp_mod_bigint_bigint (bp_abs_bigint x) (bp_abs_bigint y))"
| "bp_math_rem (NBig x) (Flt g) = int_error (Flt g)"
| "bp_math_rem (Flt f) y = int_error (Flt f)"

section \<open>Bitwise operations\<close>

fun bp_bitwise_and :: "number \<Rightarrow> number \<Rightarrow> number result" where
  "bp_bitwise_and (NInt a) (NInt b) = Inr (Num (MAKE_INT_OR_BIGINT (a AND b)))"
| "bp_bitwise_and (NInt a) (NBig y) = Inr (Num (bp_and_bigint_bigint (bp_int_to_bigint a) y))"
| "bp_bitwise_and (NInt a) (Flt g) = int_error (Flt g)"
| "bp_bitwise_and (NBig x) (NInt b) = Inr (Num (bp_and_bigint_bigint x (bp_int_to_bigint b)))"
| "bp_bitwise_and (NBig x) (NBig y) = Inr (Num (bp_and_bigint_bigint x y))"
| "bp_bitwise_and (NBig x) (Flt g) = int_error (Flt g)"
| "bp_bitwise_and (Flt f) y = int_error (Flt f)"

fun bp_bitwise_or :: "number \<Rightarrow> number \<Rightarrow> number result" where
  "bp_bitwise_or (NInt a) (NInt b) = Inr (Num (MAKE_INT_OR_BIGINT (a OR b)))"
| "bp_bitwise_or (NInt a) (NBig y) = Inr (Num (bp_or_bigint_bigint (bp_int_to_bigint a) y))"
| "bp_bitwise_or (NInt a) (Flt g) = int_error (Flt g)"
| "bp_bitwise_or (NBig x) (NInt b) = Inr (Num (bp_or_bigint_bigint x (bp_int_to_bigint b)))"
| "bp_bitwise_or (NBig x) (NBig y) = Inr (Num (bp_or_bigint_bigint x y))"
| "bp_bitwise_or (NBig x) (Flt g) = int_error (Flt g)"
| "bp_bitwise_or (Flt f) y = int_error (Flt f)"

fun bp_bitwise_xor :: "number \<Rightarrow> number \<Rightarrow> number result" where
  "bp_bitwise_xor (NInt a) (NInt b) = Inr (Num (MAKE_INT_OR_BIGINT (b XOR a)))"
| "bp_bitwise_xor (NInt a) (NBig y) = Inr (Num (bp_xor_bigint_bigint (bp_int_to_bigint a) y))"
| "bp_bitwise_xor (NInt a) (Flt g) = int_error (Flt g)"
| "bp_bitwise_xor (NBig x) (NInt b) = Inr (Num (bp_xor_bigint_bigint x (bp_int_to_bigint b)))"
| "bp_bitwise_xor (NBig x) (NBig y) = Inr (Num (bp_xor_bigint_bigint x y))"
| "bp_bitwise_xor (NBig x) (Flt g) = int_error (Flt g)"
| "bp_bitwise_xor (Flt f) y = int_error (Flt f)"

fun bp_bitwise_complement :: "number \<Rightarrow> number result" where
  "bp_bitwise_complement (NInt a) = Inr (Num (MAKE_INT_OR_BIGINT (NOT a)))"
| "bp_bitwise_complement (NBig x) =
     Inr (Num (if bp_sign_bigint x > 0
               then bp_neg_num (bp_add_bigint_bigint x (bp_int_to_bigint 1))
               else bp_sub_bigint_bigint (bp_neg_bigint x) (bp_int_to_bigint 1)))"
| "bp_bitwise_complement (Flt f) = int_error (Flt f)"

text \<open>The parts of the two shifts after a negative amount has been passed on and an amount of 0 returned.\<close>

definition shiftl_from :: "number \<Rightarrow> int \<Rightarrow> number result" where
  "shiftl_from op1 op2 = (case op1 of
       NInt a \<Rightarrow>
         (if a = 0 then Inr (Num BP_ZERO)
          else if BP_IN_TINYINT_RANGE a \<and> op2 \<le> 11 then Inr (NInt (push_bit (nat op2) a))
          else of_bp (bp_shiftl_bigint_int (bp_int_to_bigint a) op2))
     | NBig x \<Rightarrow> of_bp (bp_shiftl_bigint_int x op2)
     | Flt f \<Rightarrow> int_error (Flt f))"

definition shiftr_from :: "number \<Rightarrow> int \<Rightarrow> number result" where
  "shiftr_from op1 op2 = (case op1 of
       NInt a \<Rightarrow>
         (if BP_IN_28B_INT_RANGE a
          then if op2 < 64 then Inr (NInt (drop_bit (nat op2) a)) else Inl UNDEFINED
          else of_bp (bp_shiftr_bigint_int (bp_int_to_bigint a) op2))
     | NBig x \<Rightarrow> of_bp (bp_shiftr_bigint_int x op2)
     | Flt f \<Rightarrow> int_error (Flt f))"

definition bp_bitwise_shiftl :: "number \<Rightarrow> number \<Rightarrow> number result" where
  "bp_bitwise_shiftl op1 op2 = (case op2 of
       NInt b \<Rightarrow> (if b < 0 then shiftr_from op1 (- b) else if b = 0 then Inr op1 else shiftl_from op1 b)
     | NBig y \<Rightarrow> (if op1 = Num BP_ZERO then Inr (Num BP_ZERO) else Inl (BP OUT_OF_MEMORY))
     | Flt g \<Rightarrow> int_error (Flt g))"

definition bp_bitwise_shiftr :: "number \<Rightarrow> number \<Rightarrow> number result" where
  "bp_bitwise_shiftr op1 op2 = (case op2 of
       NInt b \<Rightarrow> (if b = 0 then Inr op1 else if b < 0 then shiftl_from op1 (- b) else shiftr_from op1 b)
     | NBig y \<Rightarrow> Inr (Num BP_ZERO)
     | Flt g \<Rightarrow> int_error (Flt g))"

section \<open>Sign, extrema, absolute value, comparison\<close>

fun bp_math_sign :: "number \<Rightarrow> number" where
  "bp_math_sign (NInt a) = Num (if 0 < a then MAKEINT 1 else if a = 0 then BP_ZERO else BP_MONE)"
| "bp_math_sign (Flt f) =
     Num (if dlt (Fin 0) f then MAKEINT 1 else if deq f (Fin 0) then BP_ZERO else BP_MONE)"
| "bp_math_sign (NBig x) = Num (if bp_sign_bigint x > 0 then MAKEINT 1 else BP_MONE)"

text \<open>The test of \<open>bp_math_max\<close> and \<open>bp_math_min\<close>: the first operand is the larger one.\<close>

fun max_picks_first :: "number \<Rightarrow> number \<Rightarrow> bool" where
  "max_picks_first (NInt a) (NInt b) \<longleftrightarrow> a > b"
| "max_picks_first (NInt a) (Flt g) \<longleftrightarrow> dlt g (of_int_d a)"
| "max_picks_first (NInt a) (NBig y) \<longleftrightarrow> bp_sign_bigint y < 0"
| "max_picks_first (Flt f) (NInt b) \<longleftrightarrow> dlt (of_int_d b) f"
| "max_picks_first (Flt f) (Flt g) \<longleftrightarrow> dlt g f"
| "max_picks_first (Flt f) (NBig y) \<longleftrightarrow> dlt (bp_bigint_to_double y) f"
| "max_picks_first (NBig x) (NInt b) \<longleftrightarrow> bp_sign_bigint x > 0"
| "max_picks_first (NBig x) (Flt g) \<longleftrightarrow> dlt g (bp_bigint_to_double x)"
| "max_picks_first (NBig x) (NBig y) \<longleftrightarrow> bp_compare_bigint_bigint x y \<ge> 0"

definition bp_math_max :: "number \<Rightarrow> number \<Rightarrow> number" where
  "bp_math_max op1 op2 = (if max_picks_first op1 op2 then op1 else op2)"

definition bp_math_min :: "number \<Rightarrow> number \<Rightarrow> number" where
  "bp_math_min op1 op2 = (if max_picks_first op1 op2 then op2 else op1)"

fun bp_float_abs :: "number \<Rightarrow> number" where
  "bp_float_abs (NInt i) = (if i < 0 then NInt (- i) else NInt i)"
| "bp_float_abs (Flt f) = (if dlt f (Fin 0) then Flt (dneg f) else Flt f)"
| "bp_float_abs (NBig x) = (if bp_sign_bigint x < 0 then NBig (bp_neg_bigint x) else NBig x)"

definition EPSILON :: double where "EPSILON = rnd (1 / 10 ^ 8)"

definition prettymuch_equal :: "double \<Rightarrow> double \<Rightarrow> bool" where
  "prettymuch_equal op1 op2 =
     (if dle op1 (dneg EPSILON) \<and> dle EPSILON op2 \<or> dle op2 (dneg EPSILON) \<and> dle EPSILON op1 then False
      else let op1 = (if dlt op1 (Fin 0) then dneg op1 else op1);
               op2 = (if dlt op2 (Fin 0) then dneg op2 else op2);
               diff = dsub op1 op2;
               diff = (if dlt diff (Fin 0) then dneg diff else diff);
               min = (if dlt op1 op2 then op1 else op2)
           in if deq min (Fin 0) then deq op1 op2 else dlt (ddiv diff min) EPSILON)"

fun equal_to :: "number \<Rightarrow> number \<Rightarrow> bool" where
  "equal_to (NInt a) (NInt b) \<longleftrightarrow> a = b"
| "equal_to (NInt a) (Flt g) \<longleftrightarrow> prettymuch_equal (of_int_d a) g"
| "equal_to (NInt a) (NBig y) \<longleftrightarrow> False"
| "equal_to (Flt f) (NInt b) \<longleftrightarrow> prettymuch_equal f (of_int_d b)"
| "equal_to (Flt f) (Flt g) \<longleftrightarrow> prettymuch_equal f g"
| "equal_to (Flt f) (NBig y) \<longleftrightarrow> prettymuch_equal f (bp_bigint_to_double y)"
| "equal_to (NBig x) (NInt b) \<longleftrightarrow> False"
| "equal_to (NBig x) (Flt g) \<longleftrightarrow> prettymuch_equal (bp_bigint_to_double x) g"
| "equal_to (NBig x) (NBig y) \<longleftrightarrow> bp_compare_bigint_bigint x y = 0"

fun greater_than :: "number \<Rightarrow> number \<Rightarrow> bool" where
  "greater_than (NInt a) (NInt b) \<longleftrightarrow> a > b"
| "greater_than (NInt a) (Flt g) \<longleftrightarrow> dlt g (of_int_d a)"
| "greater_than (NInt a) (NBig y) \<longleftrightarrow> bp_sign_bigint y = - 1"
| "greater_than (Flt f) (NInt b) \<longleftrightarrow> dlt (of_int_d b) f"
| "greater_than (Flt f) (Flt g) \<longleftrightarrow> dlt g f"
| "greater_than (Flt f) (NBig y) \<longleftrightarrow> dlt (bp_bigint_to_double y) f"
| "greater_than (NBig x) (NInt b) \<longleftrightarrow> bp_sign_bigint x = 1"
| "greater_than (NBig x) (Flt g) \<longleftrightarrow> dlt g (bp_bigint_to_double x)"
| "greater_than (NBig x) (NBig y) \<longleftrightarrow> bp_compare_bigint_bigint x y = 1"

fun greater_equal :: "number \<Rightarrow> number \<Rightarrow> bool" where
  "greater_equal (NInt a) (NInt b) \<longleftrightarrow> a \<ge> b"
| "greater_equal (NInt a) (Flt g) \<longleftrightarrow> dle g (of_int_d a)"
| "greater_equal (NInt a) (NBig y) \<longleftrightarrow> bp_sign_bigint y = - 1"
| "greater_equal (Flt f) (NInt b) \<longleftrightarrow> dle (of_int_d b) f"
| "greater_equal (Flt f) (Flt g) \<longleftrightarrow> dle g f"
| "greater_equal (Flt f) (NBig y) \<longleftrightarrow> dle (bp_bigint_to_double y) f"
| "greater_equal (NBig x) (NInt b) \<longleftrightarrow> bp_sign_bigint x = 1"
| "greater_equal (NBig x) (Flt g) \<longleftrightarrow> dle g (bp_bigint_to_double x)"
| "greater_equal (NBig x) (NBig y) \<longleftrightarrow> bp_compare_bigint_bigint x y \<ge> 0"

section \<open>Greatest common divisor and powers\<close>

function gcd_int_loop :: "int \<Rightarrow> int \<Rightarrow> int" where
  "gcd_int_loop i1 i2 = (if i1 \<noteq> 0 then gcd_int_loop (i2 smod i1) i1 else i2)"
  by pat_completeness auto
termination
  by (relation "measure (\<lambda>(i1, i2). nat \<bar>i1\<bar>)") (auto simp: signed_modulo_int_def abs_mult abs_sgn_eq)

definition bp_gcd_int_int :: "int \<Rightarrow> int \<Rightarrow> int" where
  "bp_gcd_int_int i1 i2 =
     (let i1 = (if i1 < 0 then - i1 else i1);
          i2 = (if i2 < 0 then - i2 else i2);
          (i1, i2) = (if i1 > i2 then (i2, i1) else (i1, i2))
      in gcd_int_loop i1 i2)"

fun bp_math_gcd :: "number \<Rightarrow> number \<Rightarrow> number result option" where
  "bp_math_gcd (NInt a) (NInt b) = Some (Inr (NInt (bp_gcd_int_int a b)))"
| "bp_math_gcd (NInt a) (NBig y) = map_option of_bp (bp_gcd_bigint_bigint (bp_int_to_bigint a) y)"
| "bp_math_gcd (NInt a) (Flt g) = Some (int_error (Flt g))"
| "bp_math_gcd (NBig x) (NInt b) = map_option of_bp (bp_gcd_bigint_bigint x (bp_int_to_bigint b))"
| "bp_math_gcd (NBig x) (NBig y) = map_option of_bp (bp_gcd_bigint_bigint x y)"
| "bp_math_gcd (NBig x) (Flt g) = Some (int_error (Flt g))"
| "bp_math_gcd (Flt f) y = Some (int_error (Flt f))"

text \<open>
  The loop of \<open>bp_pow_int_int\<close>. It keeps \<open>result\<close> and \<open>base\<close> below \<open>2^28\<close>, multiplies them as
  doubles, and gives up (\<open>BP_ERROR\<close>, here \<open>None\<close>) when a product leaves that range.
\<close>

function pow_int_loop :: "int \<Rightarrow> int \<Rightarrow> nat \<Rightarrow> int option" where
  "pow_int_loop result base ex =
     (let tmp = dmul (of_int_d result) (of_int_d base)
      in if odd ex \<and> \<not> in_28b_double tmp then None
         else let result = (if odd ex then d_to_int tmp else result);
                  ex = ex div 2
              in if ex = 0 then Some result
                 else let tmp = dmul (of_int_d base) (of_int_d base)
                      in if \<not> in_28b_double tmp then None
                         else pow_int_loop result (d_to_int tmp) ex)"
  by pat_completeness auto
termination by (relation "measure (\<lambda>(r, b, ex). ex)") auto

declare pow_int_loop.simps [simp del]

definition bp_pow_int_int :: "int \<Rightarrow> nat \<Rightarrow> bpnum option" where
  "bp_pow_int_int base ex =
     (if base = 0 then Some (if ex = 0 then MAKEINT 1 else BP_ZERO)
      else let (sign, base) =
               (if base < 0 then (if even ex then 1 else - 1, - base) else (1 :: int, base))
           in if base = 1 then Some (if sign = 1 then MAKEINT 1 else BP_MONE)
              else case pow_int_loop 1 base ex of None \<Rightarrow> None
                | Some result \<Rightarrow> Some (if sign = 1 then MAKEINT result else MAKEINT (- result)))"

definition double_pow :: "(double \<Rightarrow> double \<Rightarrow> double \<times> bool) \<Rightarrow> double \<Rightarrow> double \<Rightarrow> number result" where
  "double_pow c_pow f1 f2 =
     (let (res, errno) = c_pow f1 f2
      in if errno then Inl (DOMAIN_ERROR et_NUMBER (Struct ''**'' [Number (Flt f1), Number (Flt f2)]))
         else Inr (Flt res))"

fun bp_math_pow :: "(double \<Rightarrow> double \<Rightarrow> double \<times> bool) \<Rightarrow> number \<Rightarrow> number \<Rightarrow> number result" where
  "bp_math_pow c_pow (NInt a) (NInt b) =
     (if 0 \<le> b then
        (case bp_pow_int_int a (nat b) of Some v \<Rightarrow> Inr (Num v)
         | None \<Rightarrow> Inr (Num (bp_pow_bigint_int (bp_int_to_bigint a) (nat b))))
      else double_pow c_pow (of_int_d a) (of_int_d b))"
| "bp_math_pow c_pow (NInt a) (Flt g) = double_pow c_pow (of_int_d a) g"
| "bp_math_pow c_pow (NInt a) (NBig y) =
     (if bp_sign_bigint y > 0 then
        (if a = 0 then Inr (Num BP_ZERO)
         else if a = 1 then Inr (NInt 1)
         else if a = - 1 then
           Inr (if bp_and_bigint_bigint y (bp_int_to_bigint 1) = BP_ZERO then NInt 1 else Num BP_MONE)
         else Inl (BP OUT_OF_MEMORY))
      else double_pow c_pow (of_int_d a) (bp_bigint_to_double y))"
| "bp_math_pow c_pow (Flt f) y =
     (case BP_DOUBLE_VAL y of Inl e \<Rightarrow> Inl e | Inr g \<Rightarrow> double_pow c_pow f g)"
| "bp_math_pow c_pow (NBig x) (NInt b) =
     (if 0 < b then Inr (Num (bp_pow_bigint_int x (nat b)))
      else double_pow c_pow (bp_bigint_to_double x) (of_int_d b))"
| "bp_math_pow c_pow (NBig x) (Flt g) = double_pow c_pow (bp_bigint_to_double x) g"
| "bp_math_pow c_pow (NBig x) (NBig y) =
     (if bp_sign_bigint y > 0 then Inl (BP OUT_OF_MEMORY)
      else double_pow c_pow (bp_bigint_to_double x) (bp_bigint_to_double y))"

section \<open>Rounding to an integer\<close>

text \<open>The common tail: an integral double becomes a primitive integer or a big integer.\<close>

definition double_to_num :: "double \<Rightarrow> number result" where
  "double_to_num f =
     (if in_1w_double f then Inr (NInt (d_to_int f))
      else case bp_double_to_bigint f of Inl e \<Rightarrow> Inl (BP e) | Inr b \<Rightarrow> Inr (NBig b))"

fun bp_math_integer :: "number \<Rightarrow> number result" where
  "bp_math_integer (Num v) = Inr (Num v)"
| "bp_math_integer (Flt f) = TEST_NAN f (Flt f) (double_to_num (modf_int f))"

fun bp_float_floor :: "number \<Rightarrow> number result" where
  "bp_float_floor (Num v) = Inr (Num v)"
| "bp_float_floor (Flt f) = TEST_NAN f (Flt f)
     (let intf = modf_int f;
          intf = (if dlt f intf then dsub intf (of_int_d 1) else intf)
      in double_to_num intf)"

fun bp_float_ceiling :: "number \<Rightarrow> number result" where
  "bp_float_ceiling (Num v) = Inr (Num v)"
| "bp_float_ceiling (Flt f) = TEST_NAN f (Flt f)
     (let intf = modf_int f;
          intf = (if dlt intf f then dadd intf (of_int_d 1) else intf)
      in double_to_num intf)"

fun bp_float_truncate :: "number \<Rightarrow> number result" where
  "bp_float_truncate (Num v) = Inr (Num v)"
| "bp_float_truncate (Flt f) = TEST_NAN f (Flt f) (double_to_num (modf_int f))"

text \<open>On 64-bit builds \<open>round\<close> has no \<open>TEST_NAN\<close>; the cast of a NaN to an integer is undefined in C.\<close>

fun bp_float_round :: "number \<Rightarrow> number result" where
  "bp_float_round (Num v) = Inr (Num v)"
| "bp_float_round (Flt f) = (if f = NaN then Inl UNDEFINED else double_to_num (dround f))"

definition double_result :: "(double \<Rightarrow> double) \<Rightarrow> number \<Rightarrow> number result" where
  "double_result k op1 = (case BP_DOUBLE_VAL op1 of Inl e \<Rightarrow> Inl e | Inr f \<Rightarrow> Inr (Flt (k f)))"

definition bp_float_float :: "number \<Rightarrow> number result" where "bp_float_float = double_result (\<lambda>f. f)"
definition bp_math_fract_part :: "number \<Rightarrow> number result" where "bp_math_fract_part = double_result modf_frac"
definition bp_math_int_part :: "number \<Rightarrow> number result" where "bp_math_int_part = double_result modf_int"

end
