(* ===== verification/Arith_Exact.thy ===== *)
theory Arith_Exact
  imports Arith
begin

text \<open>
  The integer operations of theory \<open>Arith\<close> are exact. \<open>bp_as_bigint\<close> puts every integer operand in
  one form, so each operation has two cases: two primitive integers, or big integers. The locale
  \<open>exact_op\<close> is what a fold over a list needs of an operation; its interpretations discharge it
  for addition, subtraction, multiplication, maximum and minimum.
\<close>

section \<open>Operands and results\<close>

lemma maxint_power: "BP_MAXINT_1W = 2 ^ 56 - 1" "BP_MININT_1W = - (2 ^ 56 - 1)"
  by (simp_all add: BP_MAXINT_1W_def BP_MININT_1W_def)

lemma base_square: "BP_BIGINT_BASE ^ 2 = 2 ^ 56"
  by (simp add: BP_BIGINT_BASE_def)

lemma num_ok_int: "num_ok (MAKEINT a) \<longleftrightarrow> \<bar>a\<bar> < 2 ^ 56"
  unfolding num_ok_simps maxint_power by linarith

lemma num_ok_big:
  assumes "num_ok (MAKEBIG b)"
  shows "wf_bigint b" "3 \<le> \<bar>sign_size b\<bar>" "sign_size b \<noteq> 0" "2 ^ 56 \<le> \<bar>big_val b\<bar>"
proof -
  show w: "wf_bigint b" "3 \<le> \<bar>sign_size b\<bar>" using assms by simp_all
  then show "sign_size b \<noteq> 0" by auto
  have n: "normal_ubig (nat \<bar>sign_size b\<bar>) (digit_list b)" using w(1) by (simp add: wf_bigint_def)
  have "BP_BIGINT_BASE ^ 2 \<le> BP_BIGINT_BASE ^ (nat \<bar>sign_size b\<bar> - 1)"
    using w(2) by (intro power_increasing) (auto simp: BP_BIGINT_BASE_def)
  also have "\<dots> \<le> ubig_val (nat \<bar>sign_size b\<bar>) (digit_list b)"
    using normal_ubigD(2) [OF n] w(2) by simp
  also have "\<dots> = \<bar>big_val b\<bar>" using normal_ubigD(4) [OF n] by (simp add: big_val_def abs_mult)
  finally show "2 ^ 56 \<le> \<bar>big_val b\<bar>" by (simp only: base_square)
qed

lemma num_ok_bigI:
  assumes "wf_bigint b" "2 ^ 56 \<le> \<bar>big_val b\<bar>"
  shows "num_ok (MAKEBIG b)"
proof -
  have "\<not> nat \<bar>sign_size b\<bar> \<le> 2"
    using big_val_less [OF assms(1), of 2] assms(2) unfolding base_square by linarith
  with assms(1) show ?thesis by simp
qed

lemma make_int_or_bigint_is: "num_is (MAKE_INT_OR_BIGINT i) i"
proof (cases "BP_IN_1W_INT_RANGE i")
  case True
  then show ?thesis by (simp add: MAKE_INT_OR_BIGINT_def BP_IN_1W_INT_RANGE_def)
next
  case False
  then have "2 ^ 56 \<le> \<bar>i\<bar>" unfolding BP_IN_1W_INT_RANGE_def maxint_power by linarith
  then have "num_ok (MAKEBIG (bp_int_to_bigint i))"
    by (intro num_ok_bigI) (simp_all only: bp_int_to_bigint_sound)
  with False show ?thesis by (simp add: MAKE_INT_OR_BIGINT_def num_is_def bp_int_to_bigint_sound)
qed

text \<open>An operand taken as a big integer.\<close>

lemma as_bigint:
  assumes "num_ok v"
  shows "wf_bigint (bp_as_bigint v)" "big_val (bp_as_bigint v) = num_val v"
    "sign_size (bp_as_bigint v) = 0 \<longleftrightarrow> num_val v = 0"
proof -
  show w: "wf_bigint (bp_as_bigint v)" and v: "big_val (bp_as_bigint v) = num_val v"
    using assms by (cases v; simp add: bp_as_bigint_def bp_int_to_bigint_sound)+
  show "sign_size (bp_as_bigint v) = 0 \<longleftrightarrow> num_val v = 0" using big_val_sign(2) [OF w] v by simp
qed

lemma as_bigint_simps: "bp_as_bigint (MAKEINT i) = bp_int_to_bigint i" "bp_as_bigint (MAKEBIG b) = b"
  by (simp_all add: bp_as_bigint_def)

text \<open>The two kinds of operand pairs: two primitive integers, or at least one big integer.\<close>

definition both_int :: "bpnum \<Rightarrow> bpnum \<Rightarrow> bool" where
  "both_int u v \<longleftrightarrow> (\<exists>a b. u = MAKEINT a \<and> v = MAKEINT b)"

lemma both_int_simps [simp]:
  "both_int (MAKEINT a) (MAKEINT b)" "\<not> both_int (MAKEBIG x) v" "\<not> both_int u (MAKEBIG y)"
  by (simp_all add: both_int_def)

lemma not_both_int:
  assumes "\<not> both_int u v" "num_ok u" "num_ok v"
  shows "2 ^ 56 \<le> \<bar>num_val u\<bar> \<or> 2 ^ 56 \<le> \<bar>num_val v\<bar>"
  using assms num_ok_big(4) by (cases u; cases v) auto

lemma num_is_neg: "num_is v i \<Longrightarrow> num_is (bp_neg_num v) (- i)"
  by (cases v) (auto simp: num_is_def bp_neg_num_def num_ok_int wf_bigint_neg maxint_power)

lemma num_is_val: "num_is v i \<Longrightarrow> num_val v = i" and num_is_ok: "num_is v i \<Longrightarrow> num_ok v"
  by (simp_all add: num_is_def)

lemma num_val_inj:
  assumes "num_ok u" "num_ok v" "num_val u = num_val v"
  shows "both_int u v \<or> (\<exists>x y. u = MAKEBIG x \<and> v = MAKEBIG y)"
  using assms num_ok_big(4) [of _] by (cases u; cases v) (fastforce simp: num_ok_int simp del: num_ok_simps)+

lemma num_zero: "num_ok u \<Longrightarrow> num_val u = 0 \<Longrightarrow> u = BP_ZERO"
  using num_ok_big(4) by (cases u) fastforce+

section \<open>Addition, subtraction, multiplication\<close>

lemma add_big: "\<not> both_int u v \<Longrightarrow>
    bp_math_add (Num u) (Num v) = Num (bp_add_bigint_bigint (bp_as_bigint u) (bp_as_bigint v))"
  by (cases u; cases v) (simp_all add: as_bigint_simps)

lemma sub_big: "\<not> both_int u v \<Longrightarrow>
    bp_math_sub (Num u) (Num v) = Num (bp_sub_bigint_bigint (bp_as_bigint u) (bp_as_bigint v))"
  by (cases u; cases v) (simp_all add: as_bigint_simps)

lemma mul_big: "num_val u \<noteq> 0 \<Longrightarrow> num_val v \<noteq> 0 \<Longrightarrow> \<not> both_int u v \<Longrightarrow>
    bp_math_mul (Num u) (Num v) = Num (bp_mul_bigint_bigint (bp_as_bigint u) (bp_as_bigint v))"
  by (cases u; cases v) (simp_all add: as_bigint_simps)

lemma add_is:
  assumes "num_ok u" "num_ok v"
  shows "\<exists>w. bp_math_add (Num u) (Num v) = Num w \<and> num_is w (num_val u + num_val v)"
proof (cases "both_int u v")
  case True
  then show ?thesis using make_int_or_bigint_is by (auto simp: both_int_def)
next
  case False
  have "sign_size (bp_as_bigint u) \<noteq> 0 \<or> sign_size (bp_as_bigint v) \<noteq> 0"
    using not_both_int [OF False assms] as_bigint(3) [OF assms(1)] as_bigint(3) [OF assms(2)] by auto
  from bp_add_bigint_is [OF as_bigint(1) [OF assms(1)] as_bigint(1) [OF assms(2)] this]
  show ?thesis by (simp add: add_big [OF False] as_bigint(2) assms)
qed

lemma sub_is:
  assumes "num_ok u" "num_ok v"
  shows "\<exists>w. bp_math_sub (Num u) (Num v) = Num w \<and> num_is w (num_val u - num_val v)"
proof (cases "both_int u v")
  case True
  then show ?thesis using make_int_or_bigint_is by (auto simp: both_int_def)
next
  case False
  have "sign_size (bp_as_bigint u) \<noteq> 0 \<or> sign_size (bp_as_bigint v) \<noteq> 0"
    using not_both_int [OF False assms] as_bigint(3) [OF assms(1)] as_bigint(3) [OF assms(2)] by auto
  from bp_sub_bigint_is [OF as_bigint(1) [OF assms(1)] as_bigint(1) [OF assms(2)] this]
  show ?thesis by (simp add: sub_big [OF False] as_bigint(2) assms)
qed

lemma int_mul_range: "BP_IN_28B_INT_RANGE a \<Longrightarrow> BP_IN_28B_INT_RANGE b \<Longrightarrow> \<bar>a * b\<bar> < 2 ^ 56"
proof -
  assume "BP_IN_28B_INT_RANGE a" "BP_IN_28B_INT_RANGE b"
  then have "\<bar>a\<bar> \<le> 2 ^ 28 - 1" "\<bar>b\<bar> \<le> 2 ^ 28 - 1" by (auto simp: BP_IN_28B_INT_RANGE_def)
  then have "\<bar>a\<bar> * \<bar>b\<bar> \<le> (2 ^ 28 - 1) * (2 ^ 28 - 1)" by (intro mult_mono) auto
  then show ?thesis by (simp add: abs_mult)
qed

lemma mul_is:
  assumes "num_ok u" "num_ok v"
  shows "\<exists>w. bp_math_mul (Num u) (Num v) = Num w \<and> num_is w (num_val u * num_val v)"
proof (cases "num_val u = 0 \<or> num_val v = 0")
  case True
  then have "u = BP_ZERO \<or> v = BP_ZERO" using num_zero assms by blast
  then have "bp_math_mul (Num u) (Num v) = Num BP_ZERO"
    by (elim disjE) (cases u; cases v; simp add: BP_IN_28B_INT_RANGE_def)+
  with True num_is_zero(1) show ?thesis by (auto simp del: num_is_int)
next
  case False
  then have nz: "sign_size (bp_as_bigint u) \<noteq> 0" "sign_size (bp_as_bigint v) \<noteq> 0"
    using as_bigint(3) assms by auto
  note m = bp_mul_bigint_is [OF as_bigint(1) [OF assms(1)] as_bigint(1) [OF assms(2)] nz]
  show ?thesis
  proof (cases "both_int u v")
    case True
    then obtain a b where ab: "u = MAKEINT a" "v = MAKEINT b" by (auto simp: both_int_def)
    show ?thesis
    proof (cases "BP_IN_28B_INT_RANGE a \<and> BP_IN_28B_INT_RANGE b")
      case t: True
      then have "num_ok (MAKEINT (a * b))" unfolding num_ok_int by (intro int_mul_range) auto
      with t ab show ?thesis by (simp add: num_is_def del: num_ok_simps)
    next
      case f: False
      with m False ab show ?thesis
        by (auto simp: as_bigint_simps bp_int_to_bigint_sound)
    qed
  next
    case f: False
    from m show ?thesis using False by (simp add: mul_big f as_bigint(2) assms)
  qed
qed

section \<open>The interface of a fold\<close>

locale exact_op =
  fixes opn :: "number \<Rightarrow> number \<Rightarrow> number" and g :: "int \<Rightarrow> int \<Rightarrow> int"
  assumes exact: "num_ok u \<Longrightarrow> num_ok v \<Longrightarrow> \<exists>w. opn (Num u) (Num v) = Num w \<and> num_is w (g (num_val u) (num_val v))"
begin

lemma fold_exact:
  assumes "num_ok u" "\<forall>v \<in> set vs. num_ok v"
  shows "\<exists>w. foldl opn (Num u) (map Num vs) = Num w \<and> num_is w (foldl g (num_val u) (map num_val vs))"
  using assms
proof (induction vs arbitrary: u)
  case Nil
  then show ?case by (simp add: num_is_def)
next
  case (Cons v vs)
  then obtain w where w: "opn (Num u) (Num v) = Num w" "num_is w (g (num_val u) (num_val v))"
    using exact [of u v] by auto
  with Cons.IH [of w] Cons.prems show ?case by (auto simp: num_is_def)
qed

end

interpretation add_op: exact_op bp_math_add "(+)" by unfold_locales (rule add_is)
interpretation sub_op: exact_op bp_math_sub "(-)" by unfold_locales (rule sub_is)
interpretation mul_op: exact_op bp_math_mul "(*)" by unfold_locales (rule mul_is)

text \<open>
  C8: addition, subtraction and multiplication of any two integers, primitive or big, give the
  exact result in canonical form: primitive exactly when it is in the one-word range.
\<close>

theorem arith_ring_exact:
  assumes "num_ok u" "num_ok v"
  shows "(\<exists>w. bp_math_add (Num u) (Num v) = Num w \<and> num_is w (num_val u + num_val v)) \<and>
    (\<exists>w. bp_math_sub (Num u) (Num v) = Num w \<and> num_is w (num_val u - num_val v)) \<and>
    (\<exists>w. bp_math_mul (Num u) (Num v) = Num w \<and> num_is w (num_val u * num_val v))"
  by (intro conjI add_op.exact sub_op.exact mul_op.exact assms)

theorem arith_ring_exact_witness:
  "\<exists>w. bp_math_add (NInt BP_MAXINT_1W) (NInt 1) = Num w \<and> num_is w (2 ^ 56)"
  using arith_ring_exact [of "MAKEINT BP_MAXINT_1W" "MAKEINT 1"] by (simp add: BP_MAXINT_1W_def BP_MININT_1W_def)

section \<open>Division\<close>

lemma range28: "BP_IN_28B_INT_RANGE a \<longleftrightarrow> \<bar>a\<bar> < 2 ^ 28"
  by (auto simp: BP_IN_28B_INT_RANGE_def abs_less_iff)

lemma double_floor_div_eq:
  assumes "BP_IN_28B_INT_RANGE a" "BP_IN_28B_INT_RANGE b" "b \<noteq> 0"
  shows "double_floor_div a b = a div b"
proof -
  obtain f where f: "ddiv (of_int_d a) (of_int_d b) = Fin f" "\<lfloor>f\<rfloor> = a div b" "\<bar>f\<bar> \<le> 2 ^ 28"
    using quotient_floor [of a b] assms by (auto simp: range28)
  have "\<bar>rat_trunc f\<bar> \<le> 2 ^ 28"
  proof -
    have "- (2 ^ 28) \<le> \<lfloor>f\<rfloor>" "\<lfloor>f\<rfloor> \<le> 2 ^ 28" "- (2 ^ 28) \<le> \<lfloor>- f\<rfloor>" "\<lfloor>- f\<rfloor> \<le> 2 ^ 28"
      using f(3) by (simp_all add: le_floor_iff floor_le_iff abs_le_iff)
    then show ?thesis unfolding rat_trunc_def by (cases "f < 0"; simp only: if_True if_False; linarith)
  qed
  then have "of_int_d (rat_trunc f) = Fin (of_int (rat_trunc f))" by (intro of_int_d_exact) auto
  then show ?thesis
    unfolding double_floor_div_def f(1) Let_def d_to_int.simps f(2) [symmetric] trunc_floor [symmetric]
    by simp
qed

lemma sdiv_bound: "\<bar>a sdiv b\<bar> \<le> \<bar>a :: int\<bar>"
proof -
  have "\<bar>a\<bar> div \<bar>b\<bar> \<le> \<bar>a\<bar>" using zdiv_mono2 [of "\<bar>a\<bar>" 1 "\<bar>b\<bar>"] by (cases "b = 0") simp_all
  moreover have "0 \<le> \<bar>a\<bar> div \<bar>b\<bar>" by (cases "b = 0") (simp_all add: pos_imp_zdiv_nonneg_iff)
  ultimately show ?thesis by (simp add: signed_divide_int_def abs_mult abs_sgn_eq)
qed

lemma smod_bound: "b \<noteq> 0 \<Longrightarrow> \<bar>a smod b\<bar> < \<bar>b :: int\<bar>"
  by (simp add: signed_modulo_int_def abs_mult abs_sgn_eq)

lemma sdiv_small: "\<bar>a\<bar> < \<bar>b\<bar> \<Longrightarrow> a sdiv b = (0 :: int)"
  by (simp add: signed_divide_int_def)

lemma idiv_big_tail:
  assumes w: "wf_bigint x" "wf_bigint y" and nz: "big_val x \<noteq> 0" "big_val y \<noteq> 0"
    and s: "s = (if (big_val x < 0) = (big_val y < 0) then 1 else - 1 :: int)"
    and y': "wf_bigint y'" "big_val y' = \<bar>big_val y\<bar>"
  shows "num_is (let q = bp_div_bigint_bigint (bp_abs_bigint x) y' in if s = 1 then q else bp_neg_num q)
    (big_val x sdiv big_val y)"
proof -
  have "sign_size y' \<noteq> 0" using big_val_sign(2) [OF y'(1)] y'(2) nz(2) by simp
  from bp_div_bigint_is [OF wf_bigint_abs(1) [OF w(1)] y'(1) this]
  have q: "num_is (bp_div_bigint_bigint (bp_abs_bigint x) y') (\<bar>big_val x\<bar> div \<bar>big_val y\<bar>)"
    by (simp add: wf_bigint_abs(2) [OF w(1)] y'(2))
  show ?thesis
  proof (cases "s = 1")
    case True
    then have "big_val x sdiv big_val y = \<bar>big_val x\<bar> div \<bar>big_val y\<bar>"
      using s nz by (auto simp: signed_divide_int_def sgn_if split: if_splits)
    with q True show ?thesis by simp
  next
    case False
    then have "big_val x sdiv big_val y = - (\<bar>big_val x\<bar> div \<bar>big_val y\<bar>)"
      using s nz by (auto simp: signed_divide_int_def sgn_if split: if_splits)
    with num_is_neg [OF q] False show ?thesis by simp
  qed
qed

lemma idiv_is:
  assumes "num_ok u" "num_ok v" "num_val v \<noteq> 0"
  shows "\<exists>w. bp_math_idiv (Num u) (Num v) = Inr (Num w) \<and> num_is w (num_val u sdiv num_val v)"
proof (cases u)
  case u: (MAKEINT a)
  show ?thesis
  proof (cases v)
    case (MAKEINT b)
    have "\<bar>a sdiv b\<bar> < 2 ^ 56" using sdiv_bound [of a b] assms(1) unfolding u num_ok_int by linarith
    then have "num_ok (MAKEINT (a sdiv b))" by (simp only: num_ok_int)
    with u MAKEINT assms(3) show ?thesis by (simp add: num_is_def del: num_ok_simps)
  next
    case (MAKEBIG y)
    have "\<bar>a\<bar> < \<bar>big_val y\<bar>" using num_ok_big(4) [of y] assms(1,2) unfolding u MAKEBIG num_ok_int by linarith
    then show ?thesis using u MAKEBIG num_is_zero(1) by (simp add: sdiv_small del: num_is_int)
  qed
next
  case u: (MAKEBIG x)
  note x = num_ok_big [OF assms(1) [unfolded u]]
  then have x0: "big_val x \<noteq> 0" by auto
  show ?thesis
  proof (cases v)
    case v: (MAKEINT b)
    let ?y = "bp_int_to_bigint b"
    have y: "wf_bigint ?y" "big_val ?y = b" by (simp_all only: bp_int_to_bigint_sound)
    have *: "bp_math_idiv (Num u) (Num v) = Inr (Num
        (let q = bp_div_bigint_bigint (bp_abs_bigint x) (bp_int_to_bigint \<bar>b\<bar>)
         in if (if (big_val x < 0) = (b < 0) then 1 else - 1 :: int) = 1 then q else bp_neg_num q))"
      using assms(3) u v big_val_sign(1) [OF x(1)] by (auto simp: Let_def abs_if)
    have "num_is (let q = bp_div_bigint_bigint (bp_abs_bigint x) (bp_int_to_bigint \<bar>b\<bar>)
         in if (if (big_val x < 0) = (b < 0) then 1 else - 1 :: int) = 1 then q else bp_neg_num q)
       (big_val x sdiv big_val ?y)"
      by (rule idiv_big_tail [OF x(1) y(1) x0]) (use assms(3) v in \<open>simp_all add: bp_int_to_bigint_sound\<close>)
    then show ?thesis unfolding * using u v y(2) by simp
  next
    case v: (MAKEBIG y)
    note y = num_ok_big [OF assms(2) [unfolded v]]
    then have y0: "big_val y \<noteq> 0" by auto
    have *: "bp_math_idiv (Num u) (Num v) = Inr (Num
        (let q = bp_div_bigint_bigint (bp_abs_bigint x) (bp_abs_bigint y)
         in if bp_sign_bigint x * bp_sign_bigint y = 1 then q else bp_neg_num q))"
      using u v by (simp add: Let_def)
    have "num_is (let q = bp_div_bigint_bigint (bp_abs_bigint x) (bp_abs_bigint y)
         in if bp_sign_bigint x * bp_sign_bigint y = 1 then q else bp_neg_num q) (big_val x sdiv big_val y)"
      by (rule idiv_big_tail [OF x(1) y(1) x0 y0]) (auto simp: big_val_sign(1) x(1) y(1) wf_bigint_abs)
    then show ?thesis unfolding * using u v by simp
  qed
qed

lemma div_bound: "b \<noteq> 0 \<Longrightarrow> \<bar>a div b\<bar> \<le> \<bar>a :: int\<bar>"
proof -
  have pos: "\<bar>a div c\<bar> \<le> \<bar>a\<bar>" if "0 < c" for a c :: int
    using that zdiv_mono2 [of a 1 c] zdiv_mono2_neg [of a 1 c] pos_imp_zdiv_nonneg_iff [of c a]
    by (cases "0 \<le> a") auto
  assume "b \<noteq> 0"
  then show ?thesis using pos [of b a] pos [of "- b" "- a"] by (cases "0 < b") auto
qed

lemma idiv_div_is:
  assumes "num_ok u" "num_ok v" "num_val v \<noteq> 0"
  shows "\<exists>w. bp_math_idiv_div (Num u) (Num v) = Inr (Num w) \<and> num_is w (num_val u div num_val v)"
proof -
  have nz: "sign_size (bp_as_bigint v) \<noteq> 0" using as_bigint(3) assms by simp
  have big: "num_is (bp_div_bigint_bigint (bp_as_bigint u) (bp_as_bigint v)) (num_val u div num_val v)"
    using bp_div_bigint_is [OF as_bigint(1) [OF assms(1)] as_bigint(1) [OF assms(2)] nz]
    by (simp add: as_bigint(2) assms)
  show ?thesis
  proof (cases "both_int u v")
    case True
    then obtain a b where ab: "u = MAKEINT a" "v = MAKEINT b" by (auto simp: both_int_def)
    have "\<bar>a div b\<bar> < 2 ^ 56"
      using div_bound [of b a] assms unfolding ab num_ok_int num_val_simps by linarith
    then have "num_is (MAKEINT (a div b)) (a div b)" by (simp add: num_is_def num_ok_int del: num_ok_simps num_is_int)
    then show ?thesis using assms(3) big
      by (auto simp: ab as_bigint_simps double_floor_div_eq sdiv_nonneg simp del: num_is_int)
  next
    case False
    then show ?thesis using big assms(3) by (cases u; cases v) (auto simp: as_bigint_simps simp del: num_is_int)
  qed
qed

text \<open>Where the remainder of two big integers stays inside the area its computation reserves.\<close>

definition mod_fits :: "bpnum \<Rightarrow> bpnum \<Rightarrow> bool" where
  "mod_fits u v \<longleftrightarrow> (num_val u < 0) = (num_val v < 0) \<or>
     \<bar>sign_size (bp_as_bigint v)\<bar> \<le> 3 * (\<bar>sign_size (bp_as_bigint u)\<bar> + 1)"

lemma size_sign: "wf_bigint b \<Longrightarrow> sign_size b < 0 \<longleftrightarrow> big_val b < 0"
  using big_val_sign [of b] by (auto simp: bp_sign_bigint_def bp_decompose_bigint_def Let_def split: if_splits)

lemma int_size: "num_ok (MAKEINT a) \<Longrightarrow> \<bar>sign_size (bp_int_to_bigint a)\<bar> \<le> 2"
proof (rule ccontr)
  assume a: "num_ok (MAKEINT a)" "\<not> \<bar>sign_size (bp_int_to_bigint a)\<bar> \<le> 2"
  then have "num_ok (MAKEBIG (bp_int_to_bigint a))" by (simp add: bp_int_to_bigint_sound)
  from num_ok_big(4) [OF this] a(1) show False unfolding num_ok_int bp_int_to_bigint_sound by linarith
qed

lemma mod_fits_int: "num_ok (MAKEINT b) \<Longrightarrow> mod_fits u (MAKEINT b)"
  using int_size [of b] by (auto simp: mod_fits_def as_bigint_simps)

lemma big_mod_is:
  assumes "num_ok u" "num_ok v" "num_val v \<noteq> 0" "mod_fits u v"
  shows "\<exists>w. bp_mod_bigint_bigint (bp_as_bigint u) (bp_as_bigint v) = Inr w \<and> num_is w (num_val u mod num_val v)"
proof -
  have nz: "sign_size (bp_as_bigint v) \<noteq> 0" using as_bigint(3) assms by simp
  have fits: "(sign_size (bp_as_bigint u) < 0) = (sign_size (bp_as_bigint v) < 0) \<or>
      \<bar>sign_size (bp_as_bigint v)\<bar> \<le> 3 * (\<bar>sign_size (bp_as_bigint u)\<bar> + 1)"
    using assms(4) unfolding mod_fits_def
    by (simp add: size_sign as_bigint(1,2) assms(1,2))
  show ?thesis
    using bp_mod_bigint_is [OF as_bigint(1) [OF assms(1)] as_bigint(1) [OF assms(2)] nz fits]
    by (simp add: as_bigint(2) assms)
qed

text \<open>\<open>mod_shortcut\<close> says when \<open>bp_math_mod\<close> takes the remainder of a big integer with the C operator.\<close>

definition mod_shortcut :: "bpnum \<Rightarrow> bpnum \<Rightarrow> bool" where
  "mod_shortcut u v \<longleftrightarrow> \<not> both_int u v \<and> (\<exists>b. v = MAKEINT b) \<and> 2 ^ 56 \<le> num_val u \<and> num_val u < 2 ^ 63"

lemma mod_bound: "b \<noteq> 0 \<Longrightarrow> \<bar>a mod b\<bar> < \<bar>b :: int\<bar>"
  using pos_mod_bound [of b a] pos_mod_sign [of b a] neg_mod_bound [of b a] neg_mod_sign [of b a]
  by (cases "0 < b") auto

lemma num_is_intI: "\<bar>i\<bar> < 2 ^ 56 \<Longrightarrow> num_is (MAKEINT i) i"
  by (simp add: num_is_def num_ok_int del: num_ok_simps num_is_int)

lemma mod_is:
  assumes "num_ok u" "num_ok v" "num_val v \<noteq> 0" "mod_fits u v"
  shows "\<exists>w. bp_math_mod (Num u) (Num v) = Inr (Num w) \<and>
    num_is w (if mod_shortcut u v then num_val u smod num_val v else num_val u mod num_val v)"
proof -
  obtain w where w: "bp_mod_bigint_bigint (bp_as_bigint u) (bp_as_bigint v) = Inr w"
    "num_is w (num_val u mod num_val v)" using big_mod_is [OF assms] by blast
  show ?thesis
  proof (cases v)
    case v: (MAKEINT b)
    then have b: "b \<noteq> 0" "\<bar>b\<bar> < 2 ^ 56"
      using assms(2,3) by (auto simp: num_ok_int simp del: num_ok_simps)
    show ?thesis
    proof (cases u)
      case u: (MAKEINT a)
      have "num_is (MAKEINT (a mod b)) (a mod b)"
        using mod_bound [OF b(1), of a] b(2) by (intro num_is_intI) linarith
      moreover have "a - a div b * b = a mod b" by (simp add: minus_div_mult_eq_mod)
      ultimately show ?thesis using w b(1)
        by (auto simp: u v as_bigint_simps double_floor_div_eq smod_nonneg of_bp_def mod_shortcut_def simp del: num_is_int)
    next
      case u: (MAKEBIG x)
      have "num_is (MAKEINT (big_val x smod b)) (big_val x smod b)"
        using smod_bound [OF b(1), of "big_val x"] b(2) by (intro num_is_intI) linarith
      then show ?thesis
        using w b(1) bp_bigint_to_native_long_val [OF num_ok_big(1) [OF assms(1) [unfolded u]]]
        by (auto simp: u v as_bigint_simps of_bp_def mod_shortcut_def simp del: num_is_int)
    qed
  next
    case (MAKEBIG y)
    then show ?thesis using w by (cases u) (auto simp: as_bigint_simps of_bp_def mod_shortcut_def simp del: num_is_int)
  qed
qed

lemma smod_abs: "a smod b = (if a < 0 then - (\<bar>a\<bar> mod \<bar>b\<bar>) else \<bar>a\<bar> mod \<bar>b :: int\<bar>)"
  by (auto simp: signed_modulo_int_def sgn_if)

lemma rem_big_tail:
  assumes "wf_bigint x" "big_val x = \<bar>a\<bar>" "wf_bigint y" "big_val y = \<bar>b\<bar>" "b \<noteq> 0"
  shows "\<exists>w. neg_if (a < 0) (bp_mod_bigint_bigint x y) = Inr (Num w) \<and> num_is w (a smod b)"
proof -
  have "sign_size y \<noteq> 0" using big_val_sign(2) [OF assms(3)] assms(4,5) by simp
  moreover have "(sign_size x < 0) = (sign_size y < 0)" using assms(2,4) by (simp add: size_sign assms(1,3))
  ultimately obtain w where "bp_mod_bigint_bigint x y = Inr w" "num_is w (\<bar>a\<bar> mod \<bar>b\<bar>)"
    using bp_mod_bigint_is [OF assms(1,3)] assms(2,4) by auto
  then show ?thesis using num_is_neg by (auto simp: neg_if_def smod_abs)
qed

lemma rem_is:
  assumes "num_ok u" "num_ok v" "num_val v \<noteq> 0"
  shows "\<exists>w. bp_math_rem (Num u) (Num v) = Inr (Num w) \<and> num_is w (num_val u smod num_val v)"
proof (cases u)
  case u: (MAKEINT a)
  show ?thesis
  proof (cases v)
    case v: (MAKEINT b)
    then have "\<bar>a smod b\<bar> < 2 ^ 56"
      using smod_bound [of b a] assms(2,3) unfolding v num_ok_int num_val_simps by linarith
    then show ?thesis using u v assms(3) num_is_intI by (simp del: num_is_int)
  next
    case v: (MAKEBIG y)
    note y = num_ok_big(1) [OF assms(2) [unfolded v]]
    have "\<exists>w. neg_if (a < 0) (bp_mod_bigint_bigint (bp_int_to_bigint \<bar>a\<bar>) (bp_abs_bigint y)) = Inr (Num w) \<and>
        num_is w (a smod big_val y)"
      by (rule rem_big_tail) (use y assms(3) v in \<open>simp_all add: bp_int_to_bigint_sound wf_bigint_abs\<close>)
    then show ?thesis using u v by (cases "a < 0") auto
  qed
next
  case u: (MAKEBIG x)
  note x = num_ok_big(1) [OF assms(1) [unfolded u]]
  show ?thesis
  proof (cases v)
    case v: (MAKEINT b)
    let ?x = "if bp_sign_bigint x < 0 then bp_neg_bigint x else x"
    have "wf_bigint ?x" "big_val ?x = \<bar>big_val x\<bar>"
      using x by (simp_all add: big_val_sign(1) wf_bigint_neg)
    then have "\<exists>w. neg_if (big_val x < 0) (bp_mod_bigint_bigint ?x (bp_int_to_bigint \<bar>b\<bar>)) = Inr (Num w) \<and>
        num_is w (big_val x smod b)"
      by (rule rem_big_tail) (use assms(3) v in \<open>simp_all add: bp_int_to_bigint_sound\<close>)
    then show ?thesis using u v assms(3) x by (auto simp: big_val_sign(1) abs_if Let_def split: if_splits)
  next
    case v: (MAKEBIG y)
    note y = num_ok_big(1) [OF assms(2) [unfolded v]]
    have "\<exists>w. neg_if (big_val x < 0) (bp_mod_bigint_bigint (bp_abs_bigint x) (bp_abs_bigint y)) = Inr (Num w) \<and>
        num_is w (big_val x smod big_val y)"
      by (rule rem_big_tail) (use x y assms(3) v in \<open>simp_all add: wf_bigint_abs\<close>)
    then show ?thesis using u v x by (cases "big_val x < 0") (simp_all add: big_val_sign(1))
  qed
qed

text \<open>
  C9: \<open>div\<close> rounds the quotient down, for any two integers with a divisor other than 0. \<open>mod\<close> is the
  remainder with the sign of the divisor under two conditions: the operands have the same sign, or the
  divisor has at most \<open>3 * (n + 1)\<close> digits for a dividend of \<open>n\<close> (\<open>mod_fits\<close>; beyond that the remainder
  overruns the local stack, C4), and not both the divisor is a negative primitive and
  the dividend a big integer below \<open>2^63\<close>, where the code takes the truncated remainder (C10). The
  detour over doubles for 28-bit operands, with one of them not positive, loses nothing. A primitive
  divisor 0 is an error.
\<close>

theorem arith_floor_division:
  assumes "num_ok u" "num_ok v" "num_val v \<noteq> 0"
  shows "(\<exists>w. bp_math_idiv_div (Num u) (Num v) = Inr (Num w) \<and> num_is w (num_val u div num_val v)) \<and>
    (mod_fits u v \<and> \<not> (mod_shortcut u v \<and> num_val v < 0) \<longrightarrow>
      (\<exists>w. bp_math_mod (Num u) (Num v) = Inr (Num w) \<and> num_is w (num_val u mod num_val v))) \<and>
    bp_math_idiv_div (Num u) (NInt 0) = Inl ZERO_DIVISOR \<and> bp_math_mod (Num u) (NInt 0) = Inl ZERO_DIVISOR"
proof -
  have m: "num_val u smod num_val v = num_val u mod num_val v" if "mod_shortcut u v" "\<not> num_val v < 0"
    using that assms(3) by (auto simp: mod_shortcut_def smod_nonneg)
  have "\<exists>w. bp_math_mod (Num u) (Num v) = Inr (Num w) \<and> num_is w (num_val u mod num_val v)"
    if "mod_fits u v" "\<not> (mod_shortcut u v \<and> num_val v < 0)"
    using mod_is [OF assms that(1)] m that(2) by (cases "mod_shortcut u v") auto
  moreover have "bp_math_idiv_div (Num u) (NInt 0) = Inl ZERO_DIVISOR" "bp_math_mod (Num u) (NInt 0) = Inl ZERO_DIVISOR"
    by (cases u; simp)+
  ultimately show ?thesis using idiv_div_is [OF assms] by blast
qed

theorem arith_floor_division_witness:
  "(\<exists>w. bp_math_idiv_div (NInt (- 7)) (NInt 2) = Inr (Num w) \<and> num_is w (- 4)) \<and>
   (\<exists>w. bp_math_mod (NInt (- 7)) (NInt 2) = Inr (Num w) \<and> num_is w 1)"
proof -
  have "num_ok (MAKEINT (- 7))" "num_ok (MAKEINT 2)" by (simp_all add: BP_MININT_1W_def BP_MAXINT_1W_def)
  from arith_floor_division [OF this] mod_fits_int [OF this(2)] show ?thesis
    by (simp add: mod_shortcut_def)
qed

text \<open>
  C10: for a big integer from \<open>2^56\<close> to \<open>2^63 - 1\<close> and a negative primitive divisor, \<open>mod\<close>
  returns the remainder of the truncated division. It differs from the remainder that goes with
  \<open>div\<close>, and has the sign of the dividend, whenever the division is not exact.
\<close>

theorem arith_mod_shortcut:
  assumes "num_ok (MAKEBIG x)" "num_ok (MAKEINT b)" "b < 0" "2 ^ 56 \<le> big_val x" "big_val x < 2 ^ 63"
  shows "\<exists>r. bp_math_mod (NBig x) (NInt b) = Inr (NInt r) \<and> 0 \<le> r \<and>
    r = (if b dvd big_val x then 0 else big_val x mod b - b)"
proof -
  have b: "b \<noteq> 0" using assms(3) by simp
  have e: "bp_math_mod (NBig x) (NInt b) = Inr (NInt (big_val x smod b))"
    using bp_bigint_to_native_long_val [OF num_ok_big(1) [OF assms(1)]] assms b by simp
  have r: "big_val x smod b = big_val x mod (- b)" using assms(3,4) by (simp add: smod_abs)
  have "big_val x mod (- b) = (if b dvd big_val x then 0 else big_val x mod b - b)"
    using zmod_zminus2_eq_if [of "big_val x" b] by (simp add: dvd_eq_mod_eq_0)
  moreover have "0 \<le> big_val x mod (- b)" using assms(3) by simp
  ultimately show ?thesis using e r by simp
qed

theorem arith_mod_shortcut_witness:
  "\<exists>r. bp_math_mod (NBig \<lparr>sign_size = 3, digit_list = [0, 0, 1]\<rparr>) (NInt (- 3)) = Inr (NInt r) \<and> r = 1 \<and>
    (2 ^ 56) mod (- 3) = (- 2 :: int)"
proof -
  let ?x = "\<lparr>sign_size = 3, digit_list = [0, 0, 1]\<rparr>"
  have "wf_bigint ?x" "big_val ?x = 2 ^ 56" by code_simp+
  then show ?thesis using arith_mod_shortcut [of ?x "- 3"] by (simp add: BP_MININT_1W_def BP_MAXINT_1W_def)
qed

text \<open>
  C11: \<open>//\<close> truncates the quotient towards zero and \<open>rem\<close> is its remainder, with the sign of the
  dividend, for any two integers with a divisor other than 0; together they give the dividend back.
\<close>

theorem arith_trunc_division:
  assumes "num_ok u" "num_ok v" "num_val v \<noteq> 0"
  shows "\<exists>q r. bp_math_idiv (Num u) (Num v) = Inr (Num q) \<and> bp_math_rem (Num u) (Num v) = Inr (Num r) \<and>
    num_ok q \<and> num_ok r \<and> num_val u = num_val q * num_val v + num_val r \<and>
    \<bar>num_val r\<bar> < \<bar>num_val v\<bar> \<and> (num_val u \<ge> 0 \<longrightarrow> num_val r \<ge> 0) \<and> (num_val u \<le> 0 \<longrightarrow> num_val r \<le> 0)"
proof -
  obtain q r where qr: "bp_math_idiv (Num u) (Num v) = Inr (Num q)" "num_is q (num_val u sdiv num_val v)"
    "bp_math_rem (Num u) (Num v) = Inr (Num r)" "num_is r (num_val u smod num_val v)"
    using idiv_is [OF assms] rem_is [OF assms] by blast
  have "num_val u = num_val u sdiv num_val v * num_val v + num_val u smod num_val v"
    by (simp only: sdiv_mult_smod_eq)
  moreover have "num_val u \<ge> 0 \<longrightarrow> num_val u smod num_val v \<ge> 0" "num_val u \<le> 0 \<longrightarrow> num_val u smod num_val v \<le> 0"
    using assms(3) by (auto simp: smod_abs)
  ultimately show ?thesis using qr smod_bound [OF assms(3), of "num_val u"]
    by (intro exI [of _ q] exI [of _ r]) (simp add: num_is_def)
qed

theorem arith_trunc_division_witness:
  "\<exists>q r. bp_math_idiv (NInt (- 7)) (NInt 2) = Inr (Num q) \<and> bp_math_rem (NInt (- 7)) (NInt 2) = Inr (Num r) \<and>
    - 7 = num_val q * 2 + num_val r \<and> num_val r \<le> 0"
  using arith_trunc_division [of "MAKEINT (- 7)" "MAKEINT 2"] by (auto simp: BP_MININT_1W_def BP_MAXINT_1W_def)

end
