(* ===== verification/Arith_More.thy ===== *)
theory Arith_More
  imports Arith_Exact
begin

text \<open>
  The rest of the integer arithmetic: the divisions \<open>/>\<close> and \<open>/<\<close>, bitwise operations and shifts,
  comparison and extrema, the greatest common divisor, and powers.
\<close>

section \<open>Division rounded up and down\<close>

lemma UP_DIV_eq: "0 < a \<Longrightarrow> UP_DIV x a = - ((- x) div a)"
proof -
  assume a: "0 < a"
  show ?thesis
  proof (cases "0 \<le> x")
    case True
    then have "x sdiv a = x div a" using a by (simp add: sdiv_nonneg)
    moreover have "x div a * a = x \<longleftrightarrow> a dvd x" by (metis dvd_div_mult_self dvd_triv_right)
    moreover have "- ((- x) div a) = (if a dvd x then x div a else x div a + 1)"
      using zdiv_zminus1_eq_if [of a x] a by (auto simp: dvd_eq_mod_eq_0)
    ultimately show ?thesis using True by (simp add: UP_DIV_def Let_def)
  next
    case False
    then show ?thesis using a by (simp add: UP_DIV_def signed_divide_int_def)
  qed
qed

lemma LOW_DIV_eq: "0 < a \<Longrightarrow> LOW_DIV x a = x div a"
proof -
  assume a: "0 < a"
  show ?thesis
  proof (cases "0 \<le> x")
    case True
    then show ?thesis using a by (simp add: LOW_DIV_def sdiv_nonneg)
  next
    case False
    have s: "x sdiv a = - ((- x) div a)" using False a by (simp add: signed_divide_int_def)
    have "- ((- x) div a) * a = x \<longleftrightarrow> a dvd x"
      by (metis dvd_div_mult_self dvd_minus_iff dvd_triv_right minus_equation_iff mult_minus_left)
    then show ?thesis using False a zdiv_zminus1_eq_if [of a x]
      by (auto simp: LOW_DIV_def s Let_def dvd_eq_mod_eq_0)
  qed
qed

lemma divge_is:
  assumes "num_ok u" "num_ok v" "num_val v \<noteq> 0"
  shows "\<exists>w. bp_math_divge (Num u) (Num v) = Inr (Num w) \<and> num_is w (- ((- num_val u) div num_val v))"
proof -
  obtain w where w: "bp_updiv_bigint_bigint (bp_as_bigint u) (bp_as_bigint v) = Inr w"
    "num_is w (- ((- num_val u) div num_val v))"
    using bp_updiv_bigint_is [of "bp_as_bigint u" "bp_as_bigint v"] assms by (auto simp: as_bigint)
  show ?thesis
  proof (cases "both_int u v")
    case True
    then obtain a b where ab: "u = MAKEINT a" "v = MAKEINT b" by (auto simp: both_int_def)
    have b: "b \<noteq> 0" using ab assms(3) by simp
    have "(let (x, y) = (if b < 0 then (- a, - b) else (a, b)) in UP_DIV x y) = - ((- a) div b)"
      using b by (simp add: UP_DIV_eq div_minus_right)
    moreover have "num_is (MAKEINT (- ((- a) div b))) (- ((- a) div b))"
      using div_bound [OF b, of "- a"] assms(1) unfolding ab num_ok_int by (intro num_is_intI) linarith
    ultimately show ?thesis using b by (auto simp: ab Let_def split: if_splits simp del: num_is_int)
  next
    case False
    then show ?thesis using w assms(3)
      by (cases u; cases v) (auto simp: as_bigint_simps of_bp_def simp del: num_is_int)
  qed
qed

lemma divle_is:
  assumes "num_ok u" "num_ok v" "num_val v \<noteq> 0"
  shows "\<exists>w. bp_math_divle (Num u) (Num v) = Inr (Num w) \<and>
    num_val w = (if \<not> both_int u v \<and> num_val v dvd num_val u then \<bar>num_val u div num_val v\<bar>
                 else num_val u div num_val v)"
proof -
  obtain w where w: "bp_lowdiv_bigint_bigint (bp_as_bigint u) (bp_as_bigint v) = Inr w"
    "num_val w = (if num_val v dvd num_val u then \<bar>num_val u div num_val v\<bar> else num_val u div num_val v)"
    using bp_lowdiv_bigint_is [of "bp_as_bigint u" "bp_as_bigint v"] assms
    by (auto simp: as_bigint num_is_def split: if_splits)
  show ?thesis
  proof (cases "both_int u v")
    case True
    then obtain a b where ab: "u = MAKEINT a" "v = MAKEINT b" by (auto simp: both_int_def)
    have "b \<noteq> 0" using ab assms(3) by simp
    then have "(let (x, y) = (if b < 0 then (- a, - b) else (a, b)) in LOW_DIV x y) = a div b"
      by (simp add: LOW_DIV_eq div_minus_right)
    then show ?thesis using \<open>b \<noteq> 0\<close> by (auto simp: ab Let_def split: if_splits)
  next
    case False
    then show ?thesis using w assms(3) by (cases u; cases v) (auto simp: as_bigint_simps of_bp_def)
  qed
qed

text \<open>
  C12: \<open>/>\<close> rounds the quotient up, exactly and in canonical form; \<open>/<\<close> rounds it down, except that
  an exact quotient comes out without its sign when an operand is a big integer. Neither tests its
  divisor, so a zero divisor is left to C.
\<close>

theorem arith_directed_division:
  assumes "num_ok u" "num_ok v" "num_val v \<noteq> 0"
  shows "(\<exists>w. bp_math_divge (Num u) (Num v) = Inr (Num w) \<and> num_is w (- ((- num_val u) div num_val v))) \<and>
    (\<exists>w. bp_math_divle (Num u) (Num v) = Inr (Num w) \<and>
      num_val w = (if \<not> both_int u v \<and> num_val v dvd num_val u then \<bar>num_val u div num_val v\<bar>
                   else num_val u div num_val v)) \<and>
    bp_math_divge (Num u) (NInt 0) = Inl UNDEFINED \<and> bp_math_divle (Num u) (NInt 0) = Inl UNDEFINED"
proof -
  have "bp_math_divge (Num u) (NInt 0) = Inl UNDEFINED" "bp_math_divle (Num u) (NInt 0) = Inl UNDEFINED"
    by (cases u; simp)+
  then show ?thesis using divge_is [OF assms] divle_is [OF assms] by blast
qed

theorem arith_directed_division_witness:
  "(\<exists>w. bp_math_divge (NBig \<lparr>sign_size = - 3, digit_list = [0, 0, 1]\<rparr>) (NInt 5) = Inr (Num w) \<and>
      num_is w (- 14411518807585587)) \<and>
   (\<exists>w. bp_math_divle (NBig \<lparr>sign_size = - 3, digit_list = [0, 0, 1]\<rparr>) (NInt 2) = Inr (Num w) \<and>
      num_val w = 2 ^ 55)"
proof -
  let ?x = "\<lparr>sign_size = - 3, digit_list = [0, 0, 1]\<rparr>"
  have v: "wf_bigint ?x" "big_val ?x = - (2 ^ 56)" by code_simp+
  then show ?thesis
    using arith_directed_division [of "MAKEBIG ?x" "MAKEINT 5"] arith_directed_division [of "MAKEBIG ?x" "MAKEINT 2"]
    by (simp add: BP_MININT_1W_def BP_MAXINT_1W_def)
qed

section \<open>Bitwise operations\<close>

definition op_digits :: "bpnum \<Rightarrow> bpnum \<Rightarrow> nat" where
  "op_digits u v = max (nat \<bar>sign_size (bp_as_bigint u)\<bar>) (nat \<bar>sign_size (bp_as_bigint v)\<bar>)"

lemma op_digits_ge: "\<not> both_int u v \<Longrightarrow> num_ok u \<Longrightarrow> num_ok v \<Longrightarrow> 2 \<le> op_digits u v"
  by (cases u; cases v) (auto simp: op_digits_def as_bigint_simps)

text \<open>A result of \<open>-B^n\<close>, with \<open>n\<close> the digits of the longer operand, is lost.\<close>

definition lost_power :: "bpnum \<Rightarrow> bpnum \<Rightarrow> int \<Rightarrow> bool" where
  "lost_power u v r \<longleftrightarrow> \<not> both_int u v \<and> r = - (BP_BIGINT_BASE ^ op_digits u v)"

lemma bitwise_and_is:
  assumes "num_ok u" "num_ok v"
  shows "\<exists>w. bp_bitwise_and (Num u) (Num v) = Inr (Num w) \<and>
    num_is w (if lost_power u v (num_val u AND num_val v) then 0 else num_val u AND num_val v)"
proof (cases "both_int u v")
  case True
  then show ?thesis using make_int_or_bigint_is by (auto simp: both_int_def lost_power_def)
next
  case False
  have "bp_bitwise_and (Num u) (Num v) = Inr (Num (bp_and_bigint_bigint (bp_as_bigint u) (bp_as_bigint v)))"
    using False by (cases u; cases v) (simp_all add: as_bigint_simps)
  with bp_and_bigint_is [OF as_bigint(1) [OF assms(1)] as_bigint(1) [OF assms(2)] op_digits_def op_digits_ge] False assms
  show ?thesis by (auto simp: as_bigint(2) lost_power_def split: if_splits)
qed

lemma bitwise_or_is:
  assumes "num_ok u" "num_ok v"
  shows "\<exists>w. bp_bitwise_or (Num u) (Num v) = Inr (Num w) \<and> num_is w (num_val u OR num_val v)"
proof (cases "both_int u v")
  case True
  then show ?thesis using make_int_or_bigint_is by (auto simp: both_int_def)
next
  case False
  have "bp_bitwise_or (Num u) (Num v) = Inr (Num (bp_or_bigint_bigint (bp_as_bigint u) (bp_as_bigint v)))"
    using False by (cases u; cases v) (simp_all add: as_bigint_simps)
  moreover have "2 \<le> max \<bar>sign_size (bp_as_bigint u)\<bar> \<bar>sign_size (bp_as_bigint v)\<bar>"
    using op_digits_ge [OF False assms] by (auto simp: op_digits_def)
  ultimately show ?thesis
    using bp_or_bigint_is [OF as_bigint(1) [OF assms(1)] as_bigint(1) [OF assms(2)]] assms
    by (simp add: as_bigint(2))
qed

lemma bitwise_xor_is:
  assumes "num_ok u" "num_ok v"
  shows "\<exists>w. bp_bitwise_xor (Num u) (Num v) = Inr (Num w) \<and>
    num_is w (if lost_power u v (num_val u XOR num_val v) then 0 else num_val u XOR num_val v)"
proof (cases "both_int u v")
  case True
  then show ?thesis using make_int_or_bigint_is by (auto simp: both_int_def lost_power_def xor.commute)
next
  case False
  have "bp_bitwise_xor (Num u) (Num v) = Inr (Num (bp_xor_bigint_bigint (bp_as_bigint u) (bp_as_bigint v)))"
    using False by (cases u; cases v) (simp_all add: as_bigint_simps)
  with bp_xor_bigint_is [OF as_bigint(1) [OF assms(1)] as_bigint(1) [OF assms(2)] op_digits_def op_digits_ge] False assms
  show ?thesis by (auto simp: as_bigint(2) lost_power_def split: if_splits)
qed

lemma bitwise_complement_is:
  assumes "num_ok u"
  shows "\<exists>w. bp_bitwise_complement (Num u) = Inr (Num w) \<and> num_is w (- num_val u - 1)"
proof (cases u)
  case (MAKEINT a)
  then show ?thesis using make_int_or_bigint_is [of "NOT a"] by (simp add: not_int_def)
next
  case u: (MAKEBIG x)
  note x = num_ok_big [OF assms [unfolded u]]
  show ?thesis
  proof (cases "big_val x < 0")
    case True
    have "num_is (bp_sub_bigint_bigint (bp_neg_bigint x) (bp_int_to_bigint 1)) (- big_val x - 1)"
      using bp_sub_bigint_is [of "bp_neg_bigint x" "bp_int_to_bigint 1"] x
      by (simp add: wf_bigint_neg bp_int_to_bigint_sound)
    then show ?thesis using True x u by (auto simp: big_val_sign(1))
  next
    case False
    have "num_is (bp_add_bigint_bigint x (bp_int_to_bigint 1)) (big_val x + 1)"
      using bp_add_bigint_is [of x "bp_int_to_bigint 1"] x by (simp add: bp_int_to_bigint_sound)
    from num_is_neg [OF this] show ?thesis using False x u by (auto simp: big_val_sign(1))
  qed
qed

text \<open>
  C13: the bitwise operations of any two integers are those of infinite two's complement, and
  complement is \<open>-v - 1\<close>, in canonical form. Only a conjunction or exclusive or that is \<open>-B^n\<close>, with
  an operand a big integer and \<open>n\<close> the digits of the longer operand, comes out as 0.
\<close>

theorem arith_bitwise:
  assumes "num_ok u" "num_ok v"
  shows "(\<exists>w. bp_bitwise_or (Num u) (Num v) = Inr (Num w) \<and> num_is w (num_val u OR num_val v)) \<and>
    (\<exists>w. bp_bitwise_and (Num u) (Num v) = Inr (Num w) \<and>
      num_is w (if lost_power u v (num_val u AND num_val v) then 0 else num_val u AND num_val v)) \<and>
    (\<exists>w. bp_bitwise_xor (Num u) (Num v) = Inr (Num w) \<and>
      num_is w (if lost_power u v (num_val u XOR num_val v) then 0 else num_val u XOR num_val v)) \<and>
    (\<exists>w. bp_bitwise_complement (Num u) = Inr (Num w) \<and> num_is w (NOT (num_val u)))"
  using bitwise_or_is [OF assms] bitwise_and_is [OF assms] bitwise_xor_is [OF assms]
    bitwise_complement_is [OF assms(1)] by (simp add: not_int_def)

theorem arith_bitwise_witness:
  "\<exists>w. bp_bitwise_and (NInt (- 72057594037927935)) (NInt (- 2)) = Inr (Num w) \<and> num_is w (- (2 ^ 56))"
proof -
  have "num_ok (MAKEINT (- 72057594037927935))" "num_ok (MAKEINT (- 2))"
    by (simp_all add: BP_MININT_1W_def BP_MAXINT_1W_def)
  from arith_bitwise [OF this] show ?thesis by (simp add: lost_power_def)
qed

section \<open>Shifts\<close>

lemma shiftl_from_is:
  assumes "num_ok u" "0 < b" "num_ok (MAKEINT b)"
  shows "if num_val u \<noteq> 0 \<and> BP_MAXINT_1W div 10 < b then shiftl_from (Num u) b = Inl (BP OUT_OF_MEMORY)
    else \<exists>w. shiftl_from (Num u) b = Inr (Num w) \<and> num_is w (num_val u * 2 ^ nat b)"
proof (cases "num_val u = 0")
  case True
  then have "u = BP_ZERO" using num_zero assms(1) by blast
  then show ?thesis using num_is_zero(1) by (simp add: shiftl_from_def del: num_is_int)
next
  case nz: False
  have size: "sign_size (bp_as_bigint u) \<noteq> 0" using nz as_bigint(3) assms(1) by simp
  have big: "if BP_MAXINT_1W div 10 < b then shiftl_pos (bp_as_bigint u) b = Inl OUT_OF_MEMORY
      else \<exists>w. shiftl_pos (bp_as_bigint u) b = Inr w \<and> num_is w (num_val u * 2 ^ nat b)"
    using shiftl_pos_memory [of b "bp_as_bigint u"] shiftl_pos_is [OF as_bigint(1) [OF assms(1)] size assms(2)]
    by (simp add: as_bigint(2) assms(1))
  show ?thesis
  proof (cases u)
    case (MAKEBIG x)
    then show ?thesis using big nz assms(2)
      by (auto simp: shiftl_from_def as_bigint_simps bp_shiftl_bigint_int_def of_bp_def split: if_splits)
  next
    case u: (MAKEINT a)
    show ?thesis
    proof (cases "BP_IN_TINYINT_RANGE a \<and> b \<le> 11")
      case True
      have "(2 :: int) ^ nat b \<le> 2 ^ 11" using True assms(2) by (intro power_increasing) auto
      moreover have "\<bar>a\<bar> \<le> 2 ^ 16" using True by (auto simp: BP_IN_TINYINT_RANGE_def)
      ultimately have "\<bar>a\<bar> * 2 ^ nat b \<le> 2 ^ 16 * 2 ^ 11" by (intro mult_mono) auto
      then have "num_is (MAKEINT (a * 2 ^ nat b)) (a * 2 ^ nat b)"
        by (intro num_is_intI) (simp add: abs_mult)
      moreover have "\<not> BP_MAXINT_1W div 10 < b" using True by (simp add: BP_MAXINT_1W_def)
      ultimately show ?thesis using True u nz
        by (simp add: shiftl_from_def push_bit_eq_mult del: num_is_int)
    next
      case False
      then show ?thesis using big nz u assms(2)
        by (auto simp: shiftl_from_def as_bigint_simps bp_shiftl_bigint_int_def of_bp_def split: if_splits)
    qed
  qed
qed

lemma shiftr_from_is:
  assumes "num_ok u" "0 < b"
  shows "if \<bar>num_val u\<bar> < 2 ^ 28 \<and> 64 \<le> b then shiftr_from (Num u) b = Inl UNDEFINED
    else \<exists>w. shiftr_from (Num u) b = Inr (Num w) \<and> num_is w (num_val u div 2 ^ nat b)"
proof (cases "\<bar>num_val u\<bar> < 2 ^ 28")
  case True
  then obtain a where u: "u = MAKEINT a" using num_ok_big(4) assms(1) by (cases u) fastforce+
  have "\<bar>a div 2 ^ nat b\<bar> \<le> \<bar>a\<bar>" by (rule div_bound) simp
  then have "num_is (MAKEINT (a div 2 ^ nat b)) (a div 2 ^ nat b)"
    using True u by (intro num_is_intI) simp
  then show ?thesis using True u
    by (auto simp: shiftr_from_def range28 drop_bit_eq_div simp del: num_is_int)
next
  case False
  then have "sign_size (bp_as_bigint u) \<noteq> 0" using as_bigint(3) [OF assms(1)] by auto
  from shiftr_pos_is [OF as_bigint(1) [OF assms(1)] this assms(2)]
  obtain w where "shiftr_pos (bp_as_bigint u) b = Inr w" "num_is w (num_val u div 2 ^ nat b)"
    by (auto simp: as_bigint(2) assms(1))
  then show ?thesis using False assms(2)
    by (cases u) (auto simp: shiftr_from_def range28 as_bigint_simps bp_shiftr_bigint_int_def of_bp_def)
qed

lemma num_ok_neg_int: "num_ok (MAKEINT b) \<Longrightarrow> num_ok (MAKEINT (- b))"
  by (simp add: num_ok_int del: num_ok_simps)

text \<open>What a shift by \<open>s\<close> places to the left, to the right when \<open>s\<close> is negative, has to return.\<close>

definition shift_spec :: "bpnum \<Rightarrow> int \<Rightarrow> number result \<Rightarrow> bool" where
  "shift_spec u s r \<longleftrightarrow>
     (if num_val u \<noteq> 0 \<and> BP_MAXINT_1W div 10 < s then r = Inl (BP OUT_OF_MEMORY)
      else if \<bar>num_val u\<bar> < 2 ^ 28 \<and> s \<le> - 64 then r = Inl UNDEFINED
      else \<exists>w. r = Inr (Num w) \<and>
        num_is w (if s < 0 then num_val u div 2 ^ nat (- s) else num_val u * 2 ^ nat s))"

text \<open>
  C14: \<open><<\<close> multiplies by a power of two and \<open>>>\<close> divides by it rounding down, a negative amount
  turning the one into the other, for any integer and any primitive amount. A result of more than
  about \<open>BP_MAXINT_1W / 10\<close> bits is refused, and a 28-bit integer shifted right by 64 places or
  more is left to C. With a big amount \<open><<\<close> refuses any integer but 0 and \<open>>>\<close> returns 0, whatever
  the signs of the integer and of the amount.
\<close>

theorem arith_shifts:
  assumes "num_ok u" "num_ok (MAKEINT b)"
  shows "shift_spec u b (bp_bitwise_shiftl (Num u) (NInt b)) \<and>
    shift_spec u (- b) (bp_bitwise_shiftr (Num u) (NInt b)) \<and>
    bp_bitwise_shiftr (Num u) (NBig y) = Inr (NInt 0) \<and>
    bp_bitwise_shiftl (Num u) (NBig y) = (if num_val u = 0 then Inr (NInt 0) else Inl (BP OUT_OF_MEMORY))"
proof -
  have pos: "shift_spec u s (shiftl_from (Num u) s)" if "0 < s" "num_ok (MAKEINT s)" for s
    using shiftl_from_is [OF assms(1) that] that(1) by (auto simp: shift_spec_def split: if_splits)
  have neg: "shift_spec u (- s) (shiftr_from (Num u) s)" if "0 < s" for s
    using shiftr_from_is [OF assms(1) that] that(1)
    by (auto simp: shift_spec_def BP_MAXINT_1W_def split: if_splits)
  have zero: "shift_spec u 0 (Inr (Num u))"
    using assms(1) by (auto simp: shift_spec_def num_is_def BP_MAXINT_1W_def)
  consider "b = 0" | "0 < b" | "0 < - b" by linarith
  then have "shift_spec u b (bp_bitwise_shiftl (Num u) (NInt b)) \<and> shift_spec u (- b) (bp_bitwise_shiftr (Num u) (NInt b))"
  proof cases
    case 1
    then show ?thesis using zero by (simp add: bp_bitwise_shiftl_def bp_bitwise_shiftr_def)
  next
    case 2
    then show ?thesis using pos [OF 2 assms(2)] neg [OF 2]
      by (simp add: bp_bitwise_shiftl_def bp_bitwise_shiftr_def)
  next
    case 3
    then show ?thesis using pos [OF 3 num_ok_neg_int [OF assms(2)]] neg [OF 3]
      by (simp add: bp_bitwise_shiftl_def bp_bitwise_shiftr_def)
  qed
  moreover have "Num u = Num BP_ZERO \<longleftrightarrow> num_val u = 0" using num_zero [OF assms(1)] by auto
  ultimately show ?thesis by (auto simp: bp_bitwise_shiftl_def bp_bitwise_shiftr_def)
qed

theorem arith_shifts_witness:
  "shift_spec (MAKEINT 3) 60 (bp_bitwise_shiftl (NInt 3) (NInt 60)) \<and>
   bp_bitwise_shiftr (NInt (- 5)) (NBig \<lparr>sign_size = 3, digit_list = [0, 0, 1]\<rparr>) = Inr (NInt 0)"
proof -
  have "num_ok (MAKEINT 3)" "num_ok (MAKEINT (- 5))" "num_ok (MAKEINT 60)" by (simp_all add: BP_MININT_1W_def BP_MAXINT_1W_def)
  then show ?thesis using arith_shifts [of "MAKEINT 3" 60] arith_shifts [of "MAKEINT (- 5)" 60] by simp
qed

section \<open>Order\<close>

lemma compare_vals:
  assumes "num_ok u" "num_ok v"
  shows "greater_than (Num u) (Num v) \<longleftrightarrow> num_val u > num_val v"
    "greater_equal (Num u) (Num v) \<longleftrightarrow> num_val u \<ge> num_val v"
    "equal_to (Num u) (Num v) \<longleftrightarrow> num_val u = num_val v"
    "max_picks_first (Num u) (Num v) \<longleftrightarrow> num_val u > num_val v \<or> num_val u = num_val v \<and> \<not> both_int u v"
proof -
  show "greater_than (Num u) (Num v) \<longleftrightarrow> num_val u > num_val v"
    "greater_equal (Num u) (Num v) \<longleftrightarrow> num_val u \<ge> num_val v"
    "equal_to (Num u) (Num v) \<longleftrightarrow> num_val u = num_val v"
    "max_picks_first (Num u) (Num v) \<longleftrightarrow> num_val u > num_val v \<or> num_val u = num_val v \<and> \<not> both_int u v"
    using assms num_ok_big(1,4)
    by (cases u; cases v; fastforce simp: num_ok_int big_val_sign(1) bp_compare_bigint_sgn sgn_if
        simp del: num_ok_simps split: if_splits)+
qed

lemma max_is:
  assumes "num_ok u" "num_ok v"
  shows "\<exists>w. bp_math_max (Num u) (Num v) = Num w \<and> num_is w (max (num_val u) (num_val v))"
  using assms by (auto simp: bp_math_max_def compare_vals num_is_def max_def)

lemma min_is:
  assumes "num_ok u" "num_ok v"
  shows "\<exists>w. bp_math_min (Num u) (Num v) = Num w \<and> num_is w (min (num_val u) (num_val v))"
  using assms by (auto simp: bp_math_min_def compare_vals num_is_def min_def)

interpretation max_op: exact_op bp_math_max max by unfold_locales (rule max_is)
interpretation min_op: exact_op bp_math_min min by unfold_locales (rule min_is)

lemma sign_is: "num_ok u \<Longrightarrow> bp_math_sign (Num u) = NInt (sgn (num_val u))"
  using num_ok_big(1,4) by (cases u) (fastforce simp: sgn_if big_val_sign(1))+

lemma abs_is:
  assumes "num_ok u"
  shows "\<exists>w. bp_float_abs (Num u) = Num w \<and> num_is w \<bar>num_val u\<bar>"
  using assms
  by (cases u) (auto simp: big_val_sign(1) num_is_def wf_bigint_neg BP_MININT_1W_def BP_MAXINT_1W_def)

text \<open>
  comparison, maximum, minimum, sign and absolute value of any two integers, primitive or
  big, are those of their values, and equality is equality of values.
\<close>

theorem arith_order:
  assumes "num_ok u" "num_ok v"
  shows "(greater_than (Num u) (Num v) \<longleftrightarrow> num_val u > num_val v) \<and>
    (greater_equal (Num u) (Num v) \<longleftrightarrow> num_val u \<ge> num_val v) \<and>
    (equal_to (Num u) (Num v) \<longleftrightarrow> num_val u = num_val v) \<and>
    (\<exists>w. bp_math_max (Num u) (Num v) = Num w \<and> num_is w (max (num_val u) (num_val v))) \<and>
    (\<exists>w. bp_math_min (Num u) (Num v) = Num w \<and> num_is w (min (num_val u) (num_val v))) \<and>
    bp_math_sign (Num u) = NInt (sgn (num_val u)) \<and>
    (\<exists>w. bp_float_abs (Num u) = Num w \<and> num_is w \<bar>num_val u\<bar>)"
  by (intro conjI compare_vals(1-3) max_op.exact min_op.exact sign_is abs_is assms)

theorem arith_order_witness:
  "greater_than (NInt (- 5)) (NBig \<lparr>sign_size = - 3, digit_list = [0, 0, 1]\<rparr>) \<and>
   \<not> equal_to (NInt (- 5)) (NBig \<lparr>sign_size = - 3, digit_list = [0, 0, 1]\<rparr>)"
proof -
  let ?x = "\<lparr>sign_size = - 3, digit_list = [0, 0, 1]\<rparr>"
  have v: "wf_bigint ?x" "big_val ?x = - (2 ^ 56)" by code_simp+
  then show ?thesis using arith_order [of "MAKEINT (- 5)" "MAKEBIG ?x"]
    by (simp add: BP_MININT_1W_def BP_MAXINT_1W_def)
qed

section \<open>Greatest common divisor\<close>

lemma gcd_int_loop_is: "0 \<le> i1 \<Longrightarrow> 0 \<le> i2 \<Longrightarrow> gcd_int_loop i1 i2 = gcd i1 i2"
proof (induction i1 i2 rule: gcd_int_loop.induct)
  case (1 i1 i2)
  then show ?case
    by (subst gcd_int_loop.simps) (simp add: smod_nonneg gcd_red_int [symmetric] gcd.commute del: gcd_int_loop.simps)
qed

lemma gcd_int_int_is: "bp_gcd_int_int a b = gcd a b"
  by (simp add: bp_gcd_int_int_def gcd_int_loop_is gcd.commute Let_def del: gcd_int_loop.simps)

lemma gcd_bound: "\<bar>a\<bar> < n \<Longrightarrow> \<bar>b\<bar> < n \<Longrightarrow> \<bar>gcd a b\<bar> < (n :: int)"
proof (cases "a = 0")
  case False
  assume "\<bar>a\<bar> < n"
  moreover have "gcd a b \<le> \<bar>a\<bar>" using dvd_imp_le_int [OF False, of "gcd a b"] by simp
  ultimately show ?thesis by simp
qed simp

text \<open>
  \<open>gcd\<close> of two primitive integers, 0 included, and of two nonzero integers of which one is big,
  returns the greatest common divisor. With 0 and a big integer the code divides by a big integer
  without digits, which reads outside its array, so nothing is said about that case.
\<close>

lemma gcd_is:
  assumes "num_ok u" "num_ok v" "both_int u v \<or> num_val u \<noteq> 0 \<and> num_val v \<noteq> 0"
  shows "\<exists>w. bp_math_gcd (Num u) (Num v) = Some (Inr (Num w)) \<and> num_is w (gcd (num_val u) (num_val v))"
proof (cases "both_int u v")
  case True
  then obtain a b where ab: "u = MAKEINT a" "v = MAKEINT b" by (auto simp: both_int_def)
  have "num_is (MAKEINT (gcd a b)) (gcd a b)"
    using assms(1,2) unfolding ab num_ok_int by (intro num_is_intI gcd_bound)
  then show ?thesis by (simp add: ab gcd_int_int_is del: num_is_int)
next
  case False
  then have nz: "big_val (bp_as_bigint u) \<noteq> 0" "big_val (bp_as_bigint v) \<noteq> 0"
    using assms by (simp_all add: as_bigint(2))
  obtain w where "bp_gcd_bigint_bigint (bp_as_bigint u) (bp_as_bigint v) = Some (Inr w)"
    "num_is w (gcd (num_val u) (num_val v))"
    using bp_gcd_bigint_is [OF as_bigint(1) [OF assms(1)] as_bigint(1) [OF assms(2)] nz]
    by (auto simp: as_bigint(2) assms(1,2))
  then show ?thesis using False by (cases u; cases v) (auto simp: as_bigint_simps of_bp_def)
qed

section \<open>Powers\<close>

text \<open>A product of doubles that passes the 28-bit test is the exact product.\<close>

lemma of_int_d_cases:
  assumes "1 \<le> x" "x < 2 ^ 57"
  shows "\<exists>x'. of_int_d x = Fin x' \<and> 1 \<le> x' \<and> x' \<le> 2 ^ 58 \<and>
    (if x < 2 ^ 53 then x' = of_int x else 2 ^ 52 \<le> x')"
proof (cases "x < 2 ^ 53")
  case True
  then have "of_int_d x = Fin (of_int x)" using assms by (intro of_int_d_exact) auto
  moreover have "(of_int x :: rat) < of_int (2 ^ 53)" using True by (simp only: of_int_less_iff)
  ultimately show ?thesis using True assms by auto
next
  case False
  have r: "(of_int (2 ^ 53) :: rat) \<le> of_int x" "(of_int x :: rat) \<le> of_int (2 ^ 57)"
    using False assms(2) by (simp_all only: of_int_le_iff not_less order.strict_implies_order)
  have "1 / 2 ^ 100 \<le> \<bar>of_int x :: rat\<bar>"
  proof (rule order_trans)
    show "1 / 2 ^ 100 \<le> (1 :: rat)" by simp
    show "1 \<le> \<bar>of_int x :: rat\<bar>" using assms(1) by simp
  qed
  moreover have "\<bar>of_int x :: rat\<bar> \<le> 2 ^ 1000"
  proof (rule order_trans)
    show "\<bar>of_int x :: rat\<bar> \<le> 2 ^ 57" using r by simp
    show "(2 :: rat) ^ 57 \<le> 2 ^ 1000" by (rule power_increasing) simp_all
  qed
  ultimately obtain y where y: "rnd (of_int x) = Fin y" "\<bar>y - of_int x\<bar> \<le> \<bar>of_int x\<bar> / 2 ^ 53"
    using rnd_close by blast
  have "\<bar>of_int x :: rat\<bar> / 2 ^ 53 \<le> of_int x / 2" using r(1) by simp
  then have "of_int x / 2 \<le> y" "y \<le> 3 / 2 * of_int x" using y(2) by linarith+
  then have "2 ^ 52 \<le> y" "y \<le> 2 ^ 58" using r by simp_all
  then show ?thesis using y(1) False by (auto simp: of_int_d_def)
qed

lemma dmul_28b:
  assumes "1 \<le> x" "x < 2 ^ 57" "1 \<le> y" "y < 2 ^ 57" "in_28b_double (dmul (of_int_d x) (of_int_d y))"
  shows "d_to_int (dmul (of_int_d x) (of_int_d y)) = x * y \<and> x * y < 2 ^ 28"
proof -
  obtain x' y' where x: "of_int_d x = Fin x'" "1 \<le> x'" "x' \<le> 2 ^ 58" "if x < 2 ^ 53 then x' = of_int x else 2 ^ 52 \<le> x'"
    and y: "of_int_d y = Fin y'" "1 \<le> y'" "y' \<le> 2 ^ 58" "if y < 2 ^ 53 then y' = of_int y else 2 ^ 52 \<le> y'"
    using of_int_d_cases assms by metis
  have m: "dmul (of_int_d x) (of_int_d y) = rnd (x' * y')" using x y by simp
  have big: "\<not> 2 ^ 52 \<le> x' * y'"
  proof
    assume g: "2 ^ 52 \<le> x' * y'"
    have "x' * y' \<le> 2 ^ 58 * 2 ^ 58" using x y by (intro mult_mono) auto
    also have "\<dots> \<le> (2 :: rat) ^ 1000"
      unfolding power_add [symmetric] by (rule power_increasing) simp_all
    finally have "\<bar>x' * y'\<bar> \<le> 2 ^ 1000" using x(2) y(2) by (simp add: abs_mult)
    moreover have "2 ^ 52 \<le> \<bar>x' * y'\<bar>" using g by linarith
    ultimately obtain z where z: "rnd (x' * y') = Fin z" "2 ^ 51 \<le> \<bar>z\<bar>"
      using rnd_large by blast
    have "of_int_d 268435456 = Fin 268435456" "of_int_d (- 268435456) = Fin (- 268435456)"
      by (subst of_int_d_exact; simp)+
    then have "\<bar>z\<bar> < 2 ^ 28" using assms(5) unfolding m z(1) in_28b_double_def by (simp add: abs_less_iff)
    then show False using z(2) by simp
  qed
  have "x' \<le> x' * y'" "y' \<le> x' * y'" using x(2) y(2) by (simp_all add: mult_le_cancel_left1 mult_le_cancel_right1)
  then have xy: "x' = of_int x" "y' = of_int y" using big x(4) y(4) by (auto split: if_splits)
  have "\<not> of_int (2 ^ 52) \<le> (of_int (x * y) :: rat)" using big xy by simp
  then have p: "x * y < 2 ^ 52" by (simp only: of_int_le_iff not_le)
  moreover have "0 \<le> x * y" using assms by simp
  ultimately have "\<bar>x * y\<bar> < 2 ^ 53" by simp
  from rnd_int [OF this] have e: "dmul (of_int_d x) (of_int_d y) = Fin (of_int (x * y))" using m xy by simp
  have "of_int_d 268435456 = Fin (of_int 268435456)"
    by (rule of_int_d_exact) simp
  then have "(of_int (x * y) :: rat) < of_int 268435456"
    using assms(5) unfolding e in_28b_double_def by simp
  then have "x * y < 268435456" by (simp only: of_int_less_iff)
  moreover have "rat_trunc (of_int (x * y)) = x * y" by (simp add: rat_trunc_def flip: of_int_minus of_int_mult)
  ultimately show ?thesis by (simp only: e d_to_int.simps) simp
qed

lemma pow_int_loop_is:
  assumes "pow_int_loop r b e = Some v" "1 \<le> r" "r < 2 ^ 28" "1 \<le> b" "b < 2 ^ 57"
  shows "v = r * b ^ e \<and> 1 \<le> v \<and> v < 2 ^ 28"
  using assms
proof (induction r b e rule: pow_int_loop.induct)
  case (1 r b e)
  let ?t = "dmul (of_int_d r) (of_int_d b)"
  define r' where "r' = (if odd e then d_to_int ?t else r)"
  have odd_ok: "odd e \<Longrightarrow> in_28b_double ?t"
    using "1.prems"(1) by (subst (asm) pow_int_loop.simps) (auto simp: Let_def split: if_splits)
  have r': "r' = (if odd e then r * b else r)" "r' < 2 ^ 28" "1 \<le> r'"
  proof -
    have "d_to_int ?t = r * b \<and> r * b < 2 ^ 28" if "odd e"
      by (rule dmul_28b) (use "1.prems" odd_ok [OF that] in simp_all)
    moreover have "0 < r * b" using "1.prems"(2,4) by (intro mult_pos_pos) auto
    ultimately show "r' = (if odd e then r * b else r)" "r' < 2 ^ 28" "1 \<le> r'"
      using "1.prems"(2,3) by (auto simp: r'_def)
  qed
  show ?case
  proof (cases "e div 2 = 0")
    case True
    then have "v = r'" "e = 0 \<or> e = 1"
      using "1.prems"(1) odd_ok by (subst (asm) pow_int_loop.simps, auto simp: Let_def r'_def split: if_splits)
    then show ?thesis using r' by auto
  next
    case False
    let ?s = "dmul (of_int_d b) (of_int_d b)"
    have s: "in_28b_double ?s" "pow_int_loop r' (d_to_int ?s) (e div 2) = Some v"
      using "1.prems"(1) False odd_ok
      by (subst (asm) pow_int_loop.simps, auto simp: Let_def r'_def split: if_splits)+
    have b2: "d_to_int ?s = b * b" "b * b < 2 ^ 28"
      using dmul_28b [OF "1.prems"(4,5) "1.prems"(4,5) s(1)] by simp_all
    have "0 < b * b" using "1.prems"(4) by (intro mult_pos_pos) auto
    then have b3: "1 \<le> d_to_int ?s" "d_to_int ?s < 2 ^ 57" using b2 by simp_all
    have "v = r' * (b * b) ^ (e div 2) \<and> 1 \<le> v \<and> v < 2 ^ 28"
      using "1.IH" [OF refl _ r'_def refl False refl] odd_ok s r' b2 b3 by auto
    moreover have "r' * (b * b) ^ (e div 2) = r * b ^ e"
    proof -
      have "e = (if odd e then Suc (2 * (e div 2)) else 2 * (e div 2))" by simp
      then have "b ^ e = (if odd e then b * (b * b) ^ (e div 2) else (b * b) ^ (e div 2))"
        by (metis power_Suc power_mult power2_eq_square)
      then show ?thesis using r'(1) by simp
    qed
    ultimately show ?thesis by simp
  qed
qed

lemma pow_int_int_is:
  assumes "bp_pow_int_int a e = Some w" "num_ok (MAKEINT a)"
  shows "num_is w (a ^ e)"
proof (cases "a = 0")
  case True
  then show ?thesis using assms(1) num_is_intI [of 0] num_is_intI [of 1]
    by (auto simp: bp_pow_int_int_def zero_power split: if_splits simp del: num_is_int)
next
  case False
  define s :: int where "s = (if a < 0 then (if even e then 1 else - 1) else 1)"
  have a: "a ^ e = s * \<bar>a\<bar> ^ e" by (auto simp: s_def abs_if)
  have s: "s = 1 \<or> s = - 1" by (simp add: s_def)
  have e: "bp_pow_int_int a e = (if \<bar>a\<bar> = 1 then Some (if s = 1 then MAKEINT 1 else BP_MONE)
      else case pow_int_loop 1 \<bar>a\<bar> e of None \<Rightarrow> None
         | Some result \<Rightarrow> Some (if s = 1 then MAKEINT result else MAKEINT (- result)))"
    using False by (auto simp: bp_pow_int_int_def s_def abs_if Let_def split: option.split)
  show ?thesis
  proof (cases "\<bar>a\<bar> = 1")
    case True
    then show ?thesis using assms(1) s num_is_intI [of 1] num_is_intI [of "- 1"]
      unfolding e a by (auto simp del: num_is_int)
  next
    case f: False
    then obtain v where v: "pow_int_loop 1 \<bar>a\<bar> e = Some v" "w = MAKEINT (s * v)"
      using assms(1) s unfolding e by (auto split: option.splits)
    have "\<bar>a\<bar> < 2 ^ 57" using assms(2) unfolding num_ok_int by simp
    moreover have "1 \<le> \<bar>a\<bar>" using False by simp
    ultimately have "v = \<bar>a\<bar> ^ e \<and> 1 \<le> v \<and> v < 2 ^ 28"
      using pow_int_loop_is [OF v(1)] by simp
    then show ?thesis using v(2) s unfolding a by (auto intro!: num_is_intI simp del: num_is_int)
  qed
qed

lemma pow_is:
  assumes "num_ok u" "0 < b \<or> b = 0 \<and> (\<exists>a. u = MAKEINT a)"
  shows "\<exists>w. bp_math_pow c_pow (Num u) (NInt b) = Inr (Num w) \<and> num_is w (num_val u ^ nat b)"
proof (cases u)
  case u: (MAKEINT a)
  show ?thesis
  proof (cases "bp_pow_int_int a (nat b)")
    case (Some w)
    then show ?thesis using pow_int_int_is [OF Some] assms u by auto
  next
    case None
    then have "a \<noteq> 0" by (auto simp: bp_pow_int_int_def)
    moreover have "nat b \<noteq> 0"
      using None by (auto simp: bp_pow_int_int_def Let_def pow_int_loop.simps [of _ _ 0] split: if_splits)
    ultimately show ?thesis
      using bp_pow_bigint_is [of "bp_int_to_bigint a" "nat b"] None u assms by (auto simp: bp_int_to_bigint_sound)
  qed
next
  case (MAKEBIG x)
  then show ?thesis
    using bp_pow_bigint_is [of x "nat b"] num_ok_big(1,4) [of x] assms by fastforce
qed

text \<open>
  C15: a power with a positive primitive exponent, or of a primitive base to the power 0, is
  exact for any base, whether the 28-bit loop over doubles succeeds or gives up for big integers.
  With a positive big exponent only the bases 0, 1 and -1 have a result, which follows the
  parity of the exponent. The power 0 of a big integer falls through to the C library: with a
  \<open>pow\<close> that returns 1 for it, as the C standard says, the result is the float 1.0.
\<close>

theorem arith_pow:
  assumes "num_ok u" "num_ok (MAKEINT a)" "num_ok (MAKEBIG y)" "0 < big_val y"
    and c_standard: "\<And>f. c_pow f (Fin 0) = (Fin 1, False)"
  shows "(0 < b \<or> b = 0 \<and> (\<exists>i. u = MAKEINT i) \<longrightarrow>
      (\<exists>w. bp_math_pow c_pow (Num u) (NInt b) = Inr (Num w) \<and> num_is w (num_val u ^ nat b))) \<and>
    bp_math_pow c_pow (NInt a) (NBig y) =
      (if a = 0 then Inr (NInt 0) else if \<bar>a\<bar> = 1 then Inr (NInt (if even (big_val y) then 1 else a))
       else Inl (BP OUT_OF_MEMORY)) \<and>
    bp_math_pow c_pow (NBig y) (NInt 0) = Inr (Flt (Fin 1))"
proof -
  note y = num_ok_big(1-2) [OF assms(3)]
  have sg: "bp_sign_bigint y = 1" using assms(4) y by (simp add: big_val_sign(1))
  have "num_is (bp_and_bigint_bigint y (bp_int_to_bigint 1)) (big_val y AND 1)"
  proof -
    have "num_ok (MAKEINT 1)" by (simp add: BP_MININT_1W_def BP_MAXINT_1W_def)
    note and1 = bitwise_and_is [OF assms(3) this]
    show ?thesis
    proof -
      have "0 \<le> big_val y AND 1" using assms(4) by simp
      moreover have "0 < BP_BIGINT_BASE ^ op_digits (MAKEBIG y) (MAKEINT 1)" by (simp add: BP_BIGINT_BASE_def)
      ultimately have "big_val y AND 1 \<noteq> - (BP_BIGINT_BASE ^ op_digits (MAKEBIG y) (MAKEINT 1))" by linarith
      then have "\<not> lost_power (MAKEBIG y) (MAKEINT 1) (big_val y AND 1)" unfolding lost_power_def by blast
      with and1 show ?thesis by (simp del: and_one_eq)
    qed
  qed
  then have "bp_and_bigint_bigint y (bp_int_to_bigint 1) = BP_ZERO \<longleftrightarrow> even (big_val y)"
    using num_zero [of "bp_and_bigint_bigint y (bp_int_to_bigint 1)"]
    by (auto simp: num_is_def and_one_eq even_iff_mod_2_eq_zero)
  then have "bp_math_pow c_pow (NInt a) (NBig y) =
      (if a = 0 then Inr (NInt 0) else if \<bar>a\<bar> = 1 then Inr (NInt (if even (big_val y) then 1 else a))
       else Inl (BP OUT_OF_MEMORY))"
    using sg by (auto simp: abs_if split: if_splits)
  moreover have "bp_math_pow c_pow (NBig y) (NInt 0) = Inr (Flt (Fin 1))"
    using c_standard by (simp add: double_pow_def of_int_d_def rnd_def)
  ultimately show ?thesis using pow_is [OF assms(1)] by blast
qed

theorem arith_pow_witness:
  "\<exists>w. bp_math_pow (\<lambda>f g. (Fin 1, False)) (NInt (- 3)) (NInt 3) = Inr (Num w) \<and> num_is w (- 27)"
proof -
  let ?y = "\<lparr>sign_size = 3, digit_list = [0, 0, 1]\<rparr>"
  have y: "wf_bigint ?y" "big_val ?y = 2 ^ 56" by code_simp+
  show ?thesis
    using arith_pow [of "MAKEINT (- 3)" "- 3" ?y "\<lambda>f g. (Fin 1, False)" 3] y
    by (simp add: BP_MININT_1W_def BP_MAXINT_1W_def)
qed

end
