(* ===== verification/Arith_Round.thy ===== *)
theory Arith_Round
  imports Arith_More
begin

text \<open>
  From doubles to integers: \<open>bp_double_to_bigint\<close> and the rounding operations on top of it. A double
  with a fraction or not, of any finite size, is rounded exactly; the two values \<open>2^56\<close> and
  \<open>-2^56\<close> come out as primitive integers outside the one-word range, because the range test is
  done on doubles; and \<open>round\<close> of an infinity runs past the digits' area.
\<close>

section \<open>The digits of an integral double\<close>

text \<open>The values of the type \<open>double\<close>: at most 53 significant bits and an exponent in range.\<close>

definition representable :: "rat \<Rightarrow> bool" where
  "representable x \<longleftrightarrow> (\<exists>m s. \<bar>m\<bar> < 2 ^ 53 \<and> - 1074 \<le> s \<and> s \<le> 971 \<and> x = of_int m * 2 powi s)"

lemma rnd_repr: "representable x \<Longrightarrow> rnd x = Fin x"
  unfolding representable_def by (metis rnd_representable)

definition int_repr :: "int \<Rightarrow> bool" where
  "int_repr n \<longleftrightarrow> (\<exists>m k. \<bar>m\<bar> < 2 ^ 53 \<and> k \<le> (971 :: nat) \<and> n = m * 2 ^ k)"

lemma int_reprI: "\<bar>n\<bar> < 2 ^ 53 \<Longrightarrow> int_repr n"
  unfolding int_repr_def by (intro exI [of _ n] exI [of _ 0]) simp

lemma int_repr_rat: "int_repr n \<Longrightarrow> representable (of_int n)"
proof -
  assume "int_repr n"
  then obtain m k where mk: "\<bar>m\<bar> < 2 ^ 53" "k \<le> (971 :: nat)" "n = m * 2 ^ k" by (auto simp: int_repr_def)
  have "of_int n = of_int m * (2 :: rat) powi int k" using mk(3) by simp
  with mk(1,2) show ?thesis unfolding representable_def by (intro exI [of _ m] exI [of _ "int k"]) auto
qed

lemma representable_int:
  assumes "representable (of_int n)"
  shows "int_repr n"
proof -
  obtain m s where ms: "\<bar>m\<bar> < 2 ^ 53" "s \<le> 971" "of_int n = of_int m * (2 :: rat) powi s"
    using assms by (auto simp: representable_def)
  show ?thesis
  proof (cases "0 \<le> s")
    case True
    then have "of_int n = (of_int (m * 2 ^ nat s) :: rat)" using ms(3) by (simp add: power_int_def)
    then have "n = m * 2 ^ nat s" by (simp only: of_int_eq_iff)
    then show ?thesis using ms(1,2) True unfolding int_repr_def by (intro exI [of _ m] exI [of _ "nat s"]) auto
  next
    case False
    have "(2 :: rat) powi s \<le> 2 powi 0" using False by (intro power_int_increasing) auto
    then have "\<bar>of_int m :: rat\<bar> * 2 powi s \<le> \<bar>of_int m\<bar> * 1" by (intro mult_left_mono) auto
    then have "\<bar>of_int n :: rat\<bar> \<le> \<bar>of_int m\<bar>" using ms(3) by (simp add: abs_mult)
    then have "\<bar>n\<bar> \<le> \<bar>m\<bar>" by (simp flip: of_int_abs)
    then show ?thesis using ms(1) by (intro int_reprI) simp
  qed
qed

lemma rnd_int_repr: "int_repr n \<Longrightarrow> rnd (of_int n) = Fin (of_int n)"
  by (intro rnd_repr int_repr_rat)

lemma base_pow: "BP_BIGINT_BASE = 2 ^ 28" by (simp add: BP_BIGINT_BASE_def)

lemma of_int_d_base: "of_int_d BP_BIGINT_BASE = Fin (2 ^ 28)"
  by (simp add: base_pow of_int_d_exact)

lemma int_repr_div:
  assumes "int_repr n" "0 \<le> n"
  shows "int_repr (n div 2 ^ 28)" "int_repr (n div 2 ^ 28 * 2 ^ 28)"
proof -
  obtain m k where mk: "\<bar>m\<bar> < 2 ^ 53" "k \<le> (971 :: nat)" "n = m * 2 ^ k" using assms(1) by (auto simp: int_repr_def)
  have "int_repr (n div 2 ^ 28) \<and> int_repr (n div 2 ^ 28 * 2 ^ 28)"
  proof (cases "28 \<le> k")
    case True
    then have "(2 :: int) ^ k = 2 ^ (k - 28) * 2 ^ 28" by (subst power_add [symmetric]) simp
    then have "n = m * 2 ^ (k - 28) * 2 ^ 28" using mk(3) by (simp only: mult.assoc)
    then have "n div 2 ^ 28 = m * 2 ^ (k - 28)" "n div 2 ^ 28 * 2 ^ 28 = n" by simp_all
    moreover have "int_repr (m * 2 ^ (k - 28))"
      unfolding int_repr_def using mk by (intro exI [of _ m] exI [of _ "k - 28"]) auto
    ultimately show ?thesis using assms(1) by simp
  next
    case False
    have "0 \<le> m" using assms(2) mk(3) by (simp add: zero_le_mult_iff)
    have "n div 2 ^ 28 \<le> m"
    proof -
      have "(2 :: int) ^ k \<le> 2 ^ 28" using False by (intro power_increasing) auto
      then have "m * 2 ^ k \<le> m * 2 ^ 28" using \<open>0 \<le> m\<close> by (intro mult_left_mono)
      then have "n div 2 ^ 28 \<le> m * 2 ^ 28 div 2 ^ 28" unfolding mk(3) by (intro zdiv_mono1) auto
      then show ?thesis by simp
    qed
    moreover have "0 \<le> n div 2 ^ 28" using assms(2) by (simp add: pos_imp_zdiv_nonneg_iff)
    ultimately have b: "\<bar>n div 2 ^ 28\<bar> < 2 ^ 53" using mk(1) by simp
    then have "int_repr (n div 2 ^ 28)" by (rule int_reprI)
    moreover have "int_repr (n div 2 ^ 28 * 2 ^ 28)"
      unfolding int_repr_def using b by (intro exI [of _ "n div 2 ^ 28"] exI [of _ 28]) auto
    ultimately show ?thesis by simp
  qed
  then show "int_repr (n div 2 ^ 28)" "int_repr (n div 2 ^ 28 * 2 ^ 28)" by simp_all
qed

lemma representable_shift:
  assumes "int_repr n"
  shows "representable (of_int n / 2 ^ 28)"
proof -
  obtain m k where mk: "\<bar>m\<bar> < 2 ^ 53" "k \<le> (971 :: nat)" "n = m * 2 ^ k" using assms by (auto simp: int_repr_def)
  have "of_int n / 2 ^ 28 = of_int m * (2 :: rat) powi (int k - 28)"
    using mk(3) by (simp add: power_int_diff)
  with mk(1,2) show ?thesis unfolding representable_def by (intro exI [of _ m] exI [of _ "int k - 28"]) auto
qed

lemma double_digits_eq:
  assumes "int_repr n" "0 \<le> n" "n < BP_BIGINT_BASE ^ c" "0 < c"
  shows "double_digits c (Fin (of_int n)) = Inr (int_to_digits n)"
  using assms
proof (induction c arbitrary: n)
  case 0
  then show ?case by simp
next
  case (Suc c)
  have dle: "dle (of_int_d BP_BIGINT_BASE) (Fin (of_int n)) \<longleftrightarrow> 2 ^ 28 \<le> n"
  proof -
    have "(2 ^ 28 :: rat) \<le> of_int n \<longleftrightarrow> of_int (2 ^ 28) \<le> (of_int n :: rat)" by simp
    then show ?thesis unfolding of_int_d_base dle.simps by (simp only: of_int_le_iff)
  qed
  have tr: "rat_trunc (of_int i) = i" for i by (simp add: rat_trunc_def flip: of_int_minus)
  show ?case
  proof (cases "2 ^ 28 \<le> n")
    case True
    let ?f = "n div 2 ^ 28"
    have q: "ddiv (Fin (of_int n)) (of_int_d BP_BIGINT_BASE) = Fin (of_int n / 2 ^ 28)"
      using rnd_repr [OF representable_shift [OF Suc.prems(1)]] by (simp add: of_int_d_base)
    have "\<lfloor>of_int n / 2 ^ 28 :: rat\<rfloor> = ?f"
      using floor_divide_of_int_eq [of n "2 ^ 28", where 'a = rat] by simp
    then have f: "modf_int (Fin (of_int n / 2 ^ 28)) = Fin (of_int ?f)"
      using Suc.prems(2) by (simp add: rat_trunc_def divide_less_0_iff)
    have m: "dmul (Fin (of_int ?f)) (of_int_d BP_BIGINT_BASE) = Fin (of_int (?f * 2 ^ 28))"
      using rnd_int_repr [OF int_repr_div(2) [OF Suc.prems(1,2)]] by (simp add: of_int_d_base)
    have "of_int n - of_int (?f * 2 ^ 28) = (of_int (n mod 2 ^ 28) :: rat)"
      unfolding of_int_diff [symmetric] minus_div_mult_eq_mod ..
    moreover have "rnd (of_int (n mod 2 ^ 28)) = Fin (of_int (n mod 2 ^ 28))"
      by (rule rnd_int) (simp add: abs_less_iff)
    ultimately have s: "dsub (Fin (of_int n)) (Fin (of_int (?f * 2 ^ 28))) = Fin (of_int (n mod 2 ^ 28))"
      unfolding dsub_def dneg.simps dadd.simps by (simp only: add_uminus_conv_diff)
    have "n < 2 ^ 28 * BP_BIGINT_BASE ^ c" using Suc.prems(3) by (simp add: base_pow)
    then have lt: "?f < BP_BIGINT_BASE ^ c"
      by (intro int_div_less) (simp_all add: mult.commute)
    have pos: "0 < ?f" using True by (simp add: pos_imp_zdiv_pos_iff)
    then have c: "0 < c" using lt by (cases c) auto
    have IH: "double_digits c (Fin (of_int ?f)) = Inr (int_to_digits ?f)"
      by (rule Suc.IH) (use int_repr_div(1) [OF Suc.prems(1,2)] pos lt c in auto)
    have "int_to_digits n = n mod 2 ^ 28 # int_to_digits ?f"
      using True by (subst int_to_digits.simps) (simp add: base_pow smod_nonneg sdiv_nonneg)
    then show ?thesis
      by (subst double_digits.simps)
        (simp only: dle True if_True Let_def nat.case q f m s IH sum.case d_to_int.simps tr)
  next
    case False
    have "int_to_digits n = (if n = 0 then [] else [n])"
      using False Suc.prems(2) by (subst int_to_digits.simps) (simp add: base_pow smod_nonneg sdiv_nonneg int_to_digits.simps)
    then show ?thesis using False by (subst double_digits.simps) (simp add: dle tr Let_def)
  qed
qed

section \<open>Rounding operations\<close>

lemma in_1w_double_Fin: "in_1w_double (Fin x) \<longleftrightarrow> \<bar>x\<bar> \<le> 2 ^ 56"
proof -
  have "of_int_d BP_MAXINT_1W = Fin (2 ^ 56)" "of_int_d BP_MININT_1W = Fin (- (2 ^ 56))"
    unfolding maxint_power by (rule of_int_d_maxint)+
  then show ?thesis by (auto simp: in_1w_double_def abs_le_iff)
qed

lemma rat_trunc_int [simp]: "rat_trunc (of_int i) = i"
  by (simp add: rat_trunc_def flip: of_int_minus)

lemma int_repr_less: "int_repr n \<Longrightarrow> \<bar>n\<bar> < BP_BIGINT_BASE ^ 100"
proof -
  assume "int_repr n"
  then obtain m k where mk: "\<bar>m\<bar> < 2 ^ 53" "k \<le> (971 :: nat)" "n = m * 2 ^ k" by (auto simp: int_repr_def)
  have "\<bar>n\<bar> = \<bar>m\<bar> * 2 ^ k" using mk(3) by (simp add: abs_mult)
  also have "\<dots> \<le> 2 ^ 53 * 2 ^ 971" using mk(1,2) by (intro mult_mono power_increasing) auto
  also have "\<dots> < (2 ^ 28) ^ 100" unfolding power_add [symmetric] power_mult [symmetric]
    by (rule power_strict_increasing) simp_all
  finally show ?thesis by (simp only: base_pow)
qed

lemma int_repr_minus: "int_repr n \<Longrightarrow> int_repr (- n)"
  unfolding int_repr_def by (metis abs_minus_cancel mult_minus_left)

lemma double_to_bigint_eq:
  assumes "int_repr n"
  shows "bp_double_to_bigint (Fin (of_int n)) = Inr (bp_int_to_bigint n)"
proof -
  have d: "double_digits 100 (Fin (of_int \<bar>n\<bar>)) = Inr (int_to_digits \<bar>n\<bar>)"
    using double_digits_eq [of "\<bar>n\<bar>" 100] int_repr_less [OF assms] assms int_repr_minus [OF assms]
    by (auto simp: abs_if split: if_splits)
  show ?thesis
  proof (cases "n < 0")
    case True
    then show ?thesis using d
      by (simp add: bp_double_to_bigint_def bp_int_to_bigint_def Let_def flip: of_int_minus)
  next
    case False
    then show ?thesis using d by (simp add: bp_double_to_bigint_def bp_int_to_bigint_def Let_def)
  qed
qed

definition rounded_to :: "number result \<Rightarrow> int \<Rightarrow> bool" where
  "rounded_to r n \<longleftrightarrow> (if \<bar>n\<bar> = 2 ^ 56 then r = Inr (NInt n) else \<exists>w. r = Inr (Num w) \<and> num_is w n)"

lemma double_to_num_is:
  assumes "int_repr n"
  shows "rounded_to (double_to_num (Fin (of_int n))) n"
proof -
  have "in_1w_double (Fin (of_int n)) \<longleftrightarrow> \<bar>n\<bar> \<le> 2 ^ 56"
  proof -
    have "of_int \<bar>n\<bar> \<le> (of_int (2 ^ 56) :: rat) \<longleftrightarrow> \<bar>n\<bar> \<le> 2 ^ 56" by (simp only: of_int_le_iff)
    then show ?thesis unfolding in_1w_double_Fin by simp
  qed
  moreover have "num_is (MAKEBIG (bp_int_to_bigint n)) n" if "\<not> \<bar>n\<bar> \<le> 2 ^ 56"
    using that num_ok_bigI [of "bp_int_to_bigint n"]
    by (simp add: num_is_def bp_int_to_bigint_sound del: num_ok_simps)
  ultimately show ?thesis
    by (auto simp: rounded_to_def double_to_num_def double_to_bigint_eq [OF assms] intro!: num_is_intI
        simp del: num_is_int)
qed

text \<open>Truncation, floor and ceiling of a representable value are representable.\<close>

lemma representable_cases:
  assumes "representable x"
  shows "(\<exists>n. x = of_int n \<and> int_repr n) \<or> \<bar>x\<bar> < 2 ^ 52"
proof -
  obtain m s where ms: "\<bar>m\<bar> < 2 ^ 53" "s \<le> 971" "x = of_int m * (2 :: rat) powi s"
    using assms by (auto simp: representable_def)
  show ?thesis
  proof (cases "0 \<le> s")
    case True
    then have "x = of_int (m * 2 ^ nat s)" using ms(3) by (simp add: power_int_def)
    then show ?thesis using assms representable_int by blast
  next
    case False
    have p: "(2 :: rat) powi s \<le> 2 powi (- 1)" using False by (intro power_int_increasing) auto
    have "\<bar>x\<bar> = of_int \<bar>m\<bar> * 2 powi s" using ms(3) by (simp add: abs_mult)
    also have "\<dots> \<le> of_int \<bar>m\<bar> * 2 powi (- 1)" using p by (intro mult_left_mono) auto
    also have "\<dots> < 2 ^ 52"
    proof -
      have "of_int \<bar>m\<bar> < (of_int (2 ^ 53) :: rat)" using ms(1) by (simp only: of_int_less_iff)
      then show ?thesis by simp
    qed
    finally show ?thesis ..
  qed
qed

lemma trunc_repr:
  assumes "representable x"
  shows "int_repr (rat_trunc x)" "int_repr \<lfloor>x\<rfloor>" "int_repr \<lceil>x\<rceil>"
    "x \<noteq> of_int (rat_trunc x) \<Longrightarrow> \<bar>rat_trunc x\<bar> \<le> 2 ^ 52"
proof -
  have small: "\<bar>rat_trunc x\<bar> \<le> 2 ^ 52" "\<bar>\<lfloor>x\<rfloor>\<bar> \<le> 2 ^ 52" "\<bar>\<lceil>x\<rceil>\<bar> \<le> 2 ^ 52" if "\<bar>x\<bar> < 2 ^ 52"
  proof -
    have f: "- (2 ^ 52) \<le> \<lfloor>x\<rfloor>" "\<lfloor>x\<rfloor> \<le> 2 ^ 52" "- (2 ^ 52) \<le> \<lceil>x\<rceil>" "\<lceil>x\<rceil> \<le> 2 ^ 52"
      using that by (simp_all add: le_floor_iff floor_le_iff le_ceiling_iff ceiling_le_iff abs_less_iff)
    moreover have "rat_trunc x = \<lfloor>x\<rfloor> \<or> rat_trunc x = \<lceil>x\<rceil>" by (simp add: rat_trunc_def ceiling_def)
    ultimately show "\<bar>rat_trunc x\<bar> \<le> 2 ^ 52" "\<bar>\<lfloor>x\<rfloor>\<bar> \<le> 2 ^ 52" "\<bar>\<lceil>x\<rceil>\<bar> \<le> 2 ^ 52"
      by (elim disjE; linarith)+
  qed
  have "int_repr (rat_trunc x) \<and> int_repr \<lfloor>x\<rfloor> \<and> int_repr \<lceil>x\<rceil> \<and>
      (x \<noteq> of_int (rat_trunc x) \<longrightarrow> \<bar>rat_trunc x\<bar> \<le> 2 ^ 52)"
    using representable_cases [OF assms]
  proof
    assume "\<exists>n. x = of_int n \<and> int_repr n"
    then show ?thesis by auto
  next
    assume "\<bar>x\<bar> < 2 ^ 52"
    note s = small [OF this]
    have "\<bar>n\<bar> \<le> 2 ^ 52 \<Longrightarrow> int_repr n" for n by (rule int_reprI) simp
    then show ?thesis using s by blast
  qed
  then show "int_repr (rat_trunc x)" "int_repr \<lfloor>x\<rfloor>" "int_repr \<lceil>x\<rceil>"
    "x \<noteq> of_int (rat_trunc x) \<Longrightarrow> \<bar>rat_trunc x\<bar> \<le> 2 ^ 52" by blast+
qed

lemma test_nan_repr:
  assumes "representable x"
  shows "TEST_NAN (Fin x) op k = k"
proof -
  obtain m s where ms: "\<bar>m\<bar> < 2 ^ 53" "s \<le> 971" "x = of_int m * (2 :: rat) powi s"
    using assms by (auto simp: representable_def)
  have "\<bar>x\<bar> = of_int \<bar>m\<bar> * 2 powi s" using ms(3) by (simp add: abs_mult)
  also have "\<dots> \<le> of_int (2 ^ 53 - 1) * 2 powi 971"
    using ms by (intro mult_mono power_int_increasing) (auto simp only: of_int_le_iff, auto)
  finally have "\<bar>x\<bar> \<le> (2 ^ 53 - 1) * 2 ^ 971" by simp
  then show ?thesis by (simp add: TEST_NAN_def deq_def DBL_MAX_def abs_le_iff)
qed

lemma step_exact:
  assumes "\<bar>n\<bar> \<le> 2 ^ 52"
  shows "dsub (Fin (of_int n)) (of_int_d 1) = Fin (of_int (n - 1))"
    "dadd (Fin (of_int n)) (of_int_d 1) = Fin (of_int (n + 1))"
proof -
  have one: "of_int_d 1 = Fin 1" by (simp add: of_int_d_exact)
  have "rnd (of_int (n - 1)) = Fin (of_int (n - 1))" "rnd (of_int (n + 1)) = Fin (of_int (n + 1))"
    using assms by (intro rnd_int; simp)+
  then show "dsub (Fin (of_int n)) (of_int_d 1) = Fin (of_int (n - 1))"
    "dadd (Fin (of_int n)) (of_int_d 1) = Fin (of_int (n + 1))"
    unfolding one by (simp_all add: dsub_def)
qed

lemma trunc_ceiling: "(if of_int (rat_trunc x) < x then rat_trunc x + 1 else rat_trunc x) = \<lceil>x\<rceil>"
  using trunc_floor [of "- x"] by (auto simp: rat_trunc_def ceiling_def split: if_splits)

lemma floor_is:
  assumes "representable x"
  shows "rounded_to (bp_float_floor (Flt (Fin x))) \<lfloor>x\<rfloor>"
proof -
  have "(if dlt (Fin x) (Fin (of_int (rat_trunc x))) then dsub (Fin (of_int (rat_trunc x))) (of_int_d 1)
      else Fin (of_int (rat_trunc x))) = Fin (of_int \<lfloor>x\<rfloor>)"
    unfolding trunc_floor [of x, symmetric]
    using step_exact(1) [OF trunc_repr(4) [OF assms]] by (auto simp del: of_int_diff)
  then show ?thesis
    using double_to_num_is [OF trunc_repr(2) [OF assms]] by (simp add: test_nan_repr [OF assms] Let_def)
qed

lemma ceiling_is:
  assumes "representable x"
  shows "rounded_to (bp_float_ceiling (Flt (Fin x))) \<lceil>x\<rceil>"
proof -
  have "(if dlt (Fin (of_int (rat_trunc x))) (Fin x) then dadd (Fin (of_int (rat_trunc x))) (of_int_d 1)
      else Fin (of_int (rat_trunc x))) = Fin (of_int \<lceil>x\<rceil>)"
    unfolding trunc_ceiling [of x, symmetric]
    using step_exact(2) [OF trunc_repr(4) [OF assms]] by (auto simp del: of_int_add)
  then show ?thesis
    using double_to_num_is [OF trunc_repr(3) [OF assms]] by (simp add: test_nan_repr [OF assms] Let_def)
qed

definition nearest :: "rat \<Rightarrow> int" where
  "nearest x = (if x < 0 then - \<lfloor>- x + 1 / 2\<rfloor> else \<lfloor>x + 1 / 2\<rfloor>)"

lemma nearest_repr: "representable x \<Longrightarrow> int_repr (nearest x)"
proof -
  assume "representable x"
  from representable_cases [OF this] show ?thesis
  proof
    assume "\<exists>n. x = of_int n \<and> int_repr n"
    then obtain n where n: "x = of_int n" "int_repr n" by blast
    have "\<lfloor>of_int i + 1 / 2 :: rat\<rfloor> = i" for i by linarith
    then have "nearest x = n" unfolding nearest_def n by (simp flip: of_int_minus)
    then show ?thesis using n by simp
  next
    assume "\<bar>x\<bar> < 2 ^ 52"
    then have "- (2 ^ 52) \<le> \<lfloor>x + 1 / 2\<rfloor>" "\<lfloor>x + 1 / 2\<rfloor> \<le> 2 ^ 52" "- (2 ^ 52) \<le> \<lfloor>- x + 1 / 2\<rfloor>" "\<lfloor>- x + 1 / 2\<rfloor> \<le> 2 ^ 52"
      by (simp_all add: le_floor_iff floor_le_iff abs_less_iff)
    then have "\<bar>nearest x\<bar> \<le> 2 ^ 52" unfolding nearest_def by (cases "x < 0"; simp only: if_True if_False; linarith)
    then show ?thesis by (intro int_reprI) simp
  qed
qed

lemma round_is:
  assumes "representable x"
  shows "rounded_to (bp_float_round (Flt (Fin x))) (nearest x)"
  using double_to_num_is [OF nearest_repr [OF assms]] rnd_int_repr [OF nearest_repr [OF assms]]
  by (simp add: nearest_def [symmetric])

text \<open>
  C16: \<open>floor\<close>, \<open>ceiling\<close>, \<open>truncate\<close>, \<open>integer\<close> and \<open>round\<close> of any finite double are the exact
  integers, primitive or big and in canonical form, except that \<open>2^56\<close> and \<open>-2^56\<close> come out as
  primitive integers. \<open>round\<close> goes to the nearest integer, halves away from zero.
\<close>

theorem float_to_integer:
  assumes "representable x"
  shows "rounded_to (bp_float_floor (Flt (Fin x))) \<lfloor>x\<rfloor> \<and>
    rounded_to (bp_float_ceiling (Flt (Fin x))) \<lceil>x\<rceil> \<and>
    rounded_to (bp_float_truncate (Flt (Fin x))) (rat_trunc x) \<and>
    rounded_to (bp_math_integer (Flt (Fin x))) (rat_trunc x) \<and>
    rounded_to (bp_float_round (Flt (Fin x))) (nearest x)"
  using floor_is [OF assms] ceiling_is [OF assms] round_is [OF assms] double_to_num_is [OF trunc_repr(1) [OF assms]]
  by (simp add: test_nan_repr [OF assms])

lemma representable_half: "representable (- (7 / 2))"
  unfolding representable_def by (intro exI [of _ "- 7"] exI [of _ "- 1"]) simp

theorem float_to_integer_witness:
  "rounded_to (bp_float_floor (Flt (Fin (- (7 / 2))))) (- 4) \<and>
   rounded_to (bp_float_round (Flt (Fin (- (7 / 2))))) (- 4)"
proof -
  have "\<lfloor>- (7 / 2) :: rat\<rfloor> = - 4" by (rule floor_unique) simp_all
  then show ?thesis using float_to_integer [OF representable_half] by (simp add: nearest_def)
qed

lemma double_digits_infinity: "double_digits c (Infty False) = Inl STACK_OVERRUN"
  by (induction c) (subst double_digits.simps, simp add: of_int_d_base Let_def)+

text \<open>
  C17: the edges. \<open>2.0**56\<close> is truncated to a primitive integer that is not in canonical form: it
  is not equal to the big integer of the same value, although the comparison of canonical integers
  is that of their values. \<open>round\<close> of an infinity overruns the area of the digits, where the other
  rounding operations report an overflow.
\<close>

theorem float_to_integer_edges:
  "bp_float_truncate (Flt (Fin (2 ^ 56))) = Inr (NInt (2 ^ 56)) \<and> \<not> num_ok (MAKEINT (2 ^ 56)) \<and>
   \<not> equal_to (NInt (2 ^ 56)) (NBig (bp_int_to_bigint (2 ^ 56))) \<and>
   bp_float_round (Flt (Infty False)) = Inl (BP STACK_OVERRUN) \<and>
   bp_float_floor (Flt (Infty False)) = Inl (FLOAT_OVERFLOW (Number (Flt (Infty False))))"
proof -
  have r: "int_repr (2 ^ 56)" unfolding int_repr_def by (intro exI [of _ 1] exI [of _ 56]) simp
  have "bp_float_truncate (Flt (Fin (2 ^ 56))) = Inr (NInt (2 ^ 56))"
    using double_to_num_is [OF r] test_nan_repr [OF int_repr_rat [OF r]] rat_trunc_int [of "2 ^ 56"]
    by (simp add: rounded_to_def)
  moreover have "\<not> num_ok (MAKEINT (2 ^ 56))" by (simp add: num_ok_int del: num_ok_simps)
  moreover have "bp_float_round (Flt (Infty False)) = Inl (BP STACK_OVERRUN)"
  proof -
    have "\<not> in_1w_double (Infty False)" "bp_double_to_bigint (Infty False) = Inl STACK_OVERRUN"
      using of_int_d_maxint by (simp_all add: in_1w_double_def maxint_power bp_double_to_bigint_def double_digits_infinity)
    then show ?thesis by (simp add: double_to_num_def)
  qed
  moreover have "bp_float_floor (Flt (Infty False)) = Inl (FLOAT_OVERFLOW (Number (Flt (Infty False))))"
    by (simp add: TEST_NAN_def DBL_MAX_def)
  ultimately show ?thesis by simp
qed

end
