(* ===== verification/Eval.thy ===== *)
theory Eval
  imports Arith_Round
begin

text \<open>
  Evaluation of arithmetic expressions, \<open>eval_arith\<close> of \<open>emu/arith.c\<close> compiled for Picat, with the
  folds over lists and arrays and \<open>c_MUL_MOD_cccf\<close>. The functions of the C library are a record of
  arguments; \<open>c_rand\<close> is what \<open>rand\<close> returns, after \<open>srand\<close> when it has an argument, and \<open>c_cputime\<close>
  the answer of the clock, so two calls within one expression see the same answer.

  In the code the evaluator and the operations call each other: an operation evaluates an operand
  that is not a number. Here an operation takes the evaluated operands, \<open>apply2\<close>, in the order the
  code evaluates them, the first error being the result.
\<close>

record libm =
  c_exp :: "double \<Rightarrow> double"
  c_log :: "double \<Rightarrow> double"
  c_log10 :: "double \<Rightarrow> double"
  c_sin :: "double \<Rightarrow> double"
  c_cos :: "double \<Rightarrow> double"
  c_tan :: "double \<Rightarrow> double"
  c_asin :: "double \<Rightarrow> double"
  c_acos :: "double \<Rightarrow> double"
  c_atan :: "double \<Rightarrow> double"
  c_sqrt :: "double \<Rightarrow> double"
  c_atan2 :: "double \<Rightarrow> double \<Rightarrow> double"
  c_pow :: "double \<Rightarrow> double \<Rightarrow> double \<times> bool"
  c_rand :: "int option \<Rightarrow> int"
  c_cputime :: number

section \<open>Functions on doubles\<close>

definition domain_result :: "(double \<Rightarrow> bool) \<Rightarrow> (double \<Rightarrow> double) \<Rightarrow> number \<Rightarrow> number result" where
  "domain_result bad k op1 = (case BP_DOUBLE_VAL op1 of Inl e \<Rightarrow> Inl e
     | Inr f \<Rightarrow> if bad f then Inl (DOMAIN_ERROR et_NUMBER (Number op1)) else Inr (Flt (k f)))"

definition bp_float_log :: "libm \<Rightarrow> number \<Rightarrow> number result" where
  "bp_float_log lm = domain_result (\<lambda>f. dle f (Fin 0)) (c_log lm)"

definition bp_float_log2 :: "libm \<Rightarrow> number \<Rightarrow> number \<Rightarrow> number result" where
  "bp_float_log2 lm op1 op2 =
     (case BP_DOUBLE_VAL op1 of Inl e \<Rightarrow> Inl e
      | Inr f1 \<Rightarrow> (case BP_DOUBLE_VAL op2 of Inl e \<Rightarrow> Inl e
          | Inr f2 \<Rightarrow> if dle f1 (Fin 0) \<or> dle f2 (Fin 0)
                   then Inl (DOMAIN_ERROR et_NUMBER (Struct ''log2'' [Number op1, Number op2]))
                   else Inr (Flt (ddiv (c_log10 lm f2) (c_log10 lm f1)))))"

definition bp_float_sqrt :: "libm \<Rightarrow> number \<Rightarrow> number result" where
  "bp_float_sqrt lm = domain_result (\<lambda>f. \<not> dle (Fin 0) f) (c_sqrt lm)"

definition bp_float_exp :: "libm \<Rightarrow> number \<Rightarrow> number result" where "bp_float_exp lm = double_result (c_exp lm)"
definition bp_float_sin :: "libm \<Rightarrow> number \<Rightarrow> number result" where "bp_float_sin lm = double_result (c_sin lm)"
definition bp_float_cos :: "libm \<Rightarrow> number \<Rightarrow> number result" where "bp_float_cos lm = double_result (c_cos lm)"
definition bp_float_tan :: "libm \<Rightarrow> number \<Rightarrow> number result" where "bp_float_tan lm = double_result (c_tan lm)"
definition bp_float_atan :: "libm \<Rightarrow> number \<Rightarrow> number result" where "bp_float_atan lm = double_result (c_atan lm)"

definition bp_float_atan2 :: "libm \<Rightarrow> number \<Rightarrow> number \<Rightarrow> number result" where
  "bp_float_atan2 lm op1 op2 =
     (case BP_DOUBLE_VAL op1 of Inl e \<Rightarrow> Inl e
      | Inr f1 \<Rightarrow> (case BP_DOUBLE_VAL op2 of Inl e \<Rightarrow> Inl e | Inr f2 \<Rightarrow> Inr (Flt (c_atan2 lm f1 f2))))"

definition bp_float_asin :: "libm \<Rightarrow> number \<Rightarrow> number result" where
  "bp_float_asin lm = domain_result (\<lambda>f. dlt (Fin 1) f \<or> dlt f (Fin (- 1))) (c_asin lm)"

definition bp_float_acos :: "libm \<Rightarrow> number \<Rightarrow> number result" where
  "bp_float_acos lm = domain_result (\<lambda>f. dlt (Fin 1) f \<or> dlt f (Fin (- 1))) (c_acos lm)"

definition bp_math_random1 :: "libm \<Rightarrow> number \<Rightarrow> number result" where
  "bp_math_random1 lm op1 =
     Inr (NInt (c_rand lm (Some (case op1 of NInt i \<Rightarrow> i | Flt f \<Rightarrow> d_to_int f | NBig b \<Rightarrow> bp_bigint_to_int b))))"

section \<open>Evaluated operands\<close>

type_synonym eval = "number result option"

definition apply1 :: "(number \<Rightarrow> eval) \<Rightarrow> eval \<Rightarrow> eval" where
  "apply1 k r = (case r of None \<Rightarrow> None | Some (Inl e) \<Rightarrow> Some (Inl e) | Some (Inr a) \<Rightarrow> k a)"

definition apply2 :: "(number \<Rightarrow> number \<Rightarrow> eval) \<Rightarrow> eval \<Rightarrow> eval \<Rightarrow> eval" where
  "apply2 k r1 r2 = apply1 (\<lambda>a. apply1 (k a) r2) r1"

text \<open>
  What the evaluator needs of an argument: the term, its value, the values of its elements when it
  is a list, with its proper ending, and of its components when it is an array.
\<close>

record argument =
  term_of :: bpterm
  val_of :: eval
  elems_of :: "eval list"
  proper :: bool
  array_of :: "eval list option"

definition list_error :: "argument \<Rightarrow> eval" where
  "list_error a = Some (Inl (TYPE_ERROR et_LIST (term_of a)))"

text \<open>The folds of \<open>bp_math_sum1\<close> and \<open>bp_math_prod1\<close>; an array is folded from its last component.\<close>

fun fold_elems :: "(number \<Rightarrow> number \<Rightarrow> number) \<Rightarrow> eval \<Rightarrow> eval list \<Rightarrow> eval" where
  "fold_elems f acc [] = acc"
| "fold_elems f acc (x # xs) = fold_elems f (apply2 (\<lambda>a b. Some (Inr (f a b))) acc x) xs"

definition fold_arg :: "(number \<Rightarrow> number \<Rightarrow> number) \<Rightarrow> number \<Rightarrow> argument \<Rightarrow> eval" where
  "fold_arg f start a = (case array_of a of
       Some cs \<Rightarrow> fold_elems f (Some (Inr start)) (rev cs)
     | None \<Rightarrow> apply1 (\<lambda>v. if proper a then Some (Inr v) else list_error a)
                 (fold_elems f (Some (Inr start)) (elems_of a)))"

definition bp_math_sum1 :: "argument \<Rightarrow> eval" where "bp_math_sum1 = fold_arg bp_math_add (Num BP_ZERO)"
definition bp_math_prod1 :: "argument \<Rightarrow> eval" where "bp_math_prod1 = fold_arg bp_math_mul (NInt 1)"

definition extremum :: "(number \<Rightarrow> number \<Rightarrow> number) \<Rightarrow> argument \<Rightarrow> eval" where
  "extremum f a = (case elems_of a of [] \<Rightarrow> list_error a
     | x # xs \<Rightarrow> apply1 (\<lambda>v. if proper a then Some (Inr v) else list_error a) (fold_elems f x xs))"

definition bp_math_max1 :: "argument \<Rightarrow> eval" where "bp_math_max1 = extremum bp_math_max"
definition bp_math_min1 :: "argument \<Rightarrow> eval" where "bp_math_min1 = extremum bp_math_min"

section \<open>The symbols\<close>

text \<open>The C \<open>switch\<close> is on the first character of the name; each case then compares the symbol.\<close>

definition not_evaluable :: "string \<Rightarrow> bpterm \<Rightarrow> eval" where
  "not_evaluable f ex = Some (Inl (TYPE_ERROR
     (if f \<noteq> [] \<and> hd f \<in> set (CHR 0x5C # ''~^+-*/d<>acgefilmprstx'') then et_EVALUABLE else et_NUMBER) ex))"

definition pi_constant :: double where "pi_constant = rnd (3141592653589793 / 10 ^ 15)"
definition e_constant :: double where "e_constant = rnd (27182818284590455 / 10 ^ 16)"

definition eval_symbol0 :: "libm \<Rightarrow> string \<Rightarrow> bpterm \<Rightarrow> eval" where
  "eval_symbol0 lm f ex =
    (if f = ''cputime'' then Some (Inr (c_cputime lm))
     else if f = ''e'' then Some (Inr (Flt e_constant))
     else if f = ''epsilon'' then Some (Inr (Flt EPSILON))
     else if f = ''maxint'' then Some (Inr (NInt BP_MAXINT_1W))
     else if f = ''minint'' then Some (Inr (NInt BP_MININT_1W))
     else if f = ''pi'' then Some (Inr (Flt pi_constant))
     else if f = ''random'' then Some (Inr (NInt (c_rand lm None)))
     else not_evaluable f ex)"

definition total :: "(number \<Rightarrow> number) \<Rightarrow> number \<Rightarrow> eval" where "total k = (\<lambda>a. Some (Inr (k a)))"
definition total2 :: "(number \<Rightarrow> number \<Rightarrow> number) \<Rightarrow> number \<Rightarrow> number \<Rightarrow> eval" where
  "total2 k = (\<lambda>a b. Some (Inr (k a b)))"
definition fallible :: "(number \<Rightarrow> number result) \<Rightarrow> number \<Rightarrow> eval" where "fallible k = (\<lambda>a. Some (k a))"
definition fallible2 :: "(number \<Rightarrow> number \<Rightarrow> number result) \<Rightarrow> number \<Rightarrow> number \<Rightarrow> eval" where
  "fallible2 k = (\<lambda>a b. Some (k a b))"

definition eval_symbol1 :: "libm \<Rightarrow> string \<Rightarrow> argument \<Rightarrow> bpterm \<Rightarrow> eval" where
  "eval_symbol1 lm f a ex =
    (if f = ''~'' then apply1 (fallible bp_bitwise_complement) (val_of a)
     else if f = ''+'' then val_of a
     else if f = ''-'' then apply1 (total (bp_math_sub (Num BP_ZERO))) (val_of a)
     else if f = [CHR 0x5C] then apply1 (fallible bp_bitwise_complement) (val_of a)
     else if f = ''abs'' then apply1 (total bp_float_abs) (val_of a)
     else if f = ''atan'' then apply1 (fallible (bp_float_atan lm)) (val_of a)
     else if f = ''asin'' then apply1 (fallible (bp_float_asin lm)) (val_of a)
     else if f = ''acos'' then apply1 (fallible (bp_float_acos lm)) (val_of a)
     else if f = ''cos'' then apply1 (fallible (bp_float_cos lm)) (val_of a)
     else if f = ''ceiling'' then apply1 (fallible bp_float_ceiling) (val_of a)
     else if f = ''exp'' then apply1 (fallible (bp_float_exp lm)) (val_of a)
     else if f = ''float'' then apply1 (fallible bp_float_float) (val_of a)
     else if f = ''floor'' then apply1 (fallible bp_float_floor) (val_of a)
     else if f = ''float_fractional_part'' then apply1 (fallible bp_math_fract_part) (val_of a)
     else if f = ''float_integer_part'' then apply1 (fallible bp_math_int_part) (val_of a)
     else if f = ''integer'' then apply1 (fallible bp_math_integer) (val_of a)
     else if f = ''log'' then apply1 (fallible (bp_float_log lm)) (val_of a)
     else if f = ''max'' then bp_math_max1 a
     else if f = ''min'' then bp_math_min1 a
     else if f = ''round'' then apply1 (fallible bp_float_round) (val_of a)
     else if f = ''random'' then apply1 (fallible (bp_math_random1 lm)) (val_of a)
     else if f = ''sin'' then apply1 (fallible (bp_float_sin lm)) (val_of a)
     else if f = ''sqrt'' then apply1 (fallible (bp_float_sqrt lm)) (val_of a)
     else if f = ''sign'' then apply1 (total bp_math_sign) (val_of a)
     else if f = ''sum'' then bp_math_sum1 a
     else if f = ''tan'' then apply1 (fallible (bp_float_tan lm)) (val_of a)
     else if f = ''truncate'' then apply1 (fallible bp_float_truncate) (val_of a)
     else not_evaluable f ex)"

definition eval_symbol2 :: "libm \<Rightarrow> string \<Rightarrow> eval \<Rightarrow> eval \<Rightarrow> bpterm \<Rightarrow> eval" where
  "eval_symbol2 lm f x y ex =
    (if f = ''^'' then apply2 (fallible2 bp_bitwise_or) x y
     else if f = ''+'' then apply2 (total2 bp_math_add) x y
     else if f = ''-'' then apply2 (total2 bp_math_sub) x y
     else if f = ''**'' then apply2 (fallible2 (bp_math_pow (c_pow lm))) x y
     else if f = ''*'' then apply2 (total2 bp_math_mul) x y
     else if f = ''//'' then apply2 (fallible2 bp_math_idiv) x y
     else if f = [CHR ''/'', CHR 0x5C] then apply2 (fallible2 bp_bitwise_and) x y
     else if f = ''/'' then apply2 (fallible2 bp_math_div) x y
     else if f = ''/>'' then apply2 (fallible2 bp_math_divge) x y
     else if f = ''/<'' then apply2 (fallible2 bp_math_divle) x y
     else if f = ''div'' then apply2 (fallible2 bp_math_idiv_div) x y
     else if f = ''<<'' then apply2 (fallible2 bp_bitwise_shiftl) x y
     else if f = ''>>'' then apply2 (fallible2 bp_bitwise_shiftr) x y
     else if f = [CHR 0x5C, CHR ''/''] then apply2 (fallible2 bp_bitwise_or) x y
     else if f = ''atan2'' then apply2 (fallible2 (bp_float_atan2 lm)) x y
     else if f = ''gcd'' then apply2 bp_math_gcd x y
     else if f = ''log'' then apply2 (fallible2 (bp_float_log2 lm)) x y
     else if f = ''mod'' then apply2 (fallible2 bp_math_mod) x y
     else if f = ''max'' then apply2 (total2 bp_math_max) x y
     else if f = ''min'' then apply2 (total2 bp_math_min) x y
     else if f = ''rem'' then apply2 (fallible2 bp_math_rem) x y
     else if f = ''xor'' then apply2 (fallible2 bp_bitwise_xor) x y
     else not_evaluable f ex)"

definition eval_symbol :: "libm \<Rightarrow> string \<Rightarrow> argument list \<Rightarrow> bpterm \<Rightarrow> eval" where
  "eval_symbol lm f args ex = (case args of
       [] \<Rightarrow> eval_symbol0 lm f ex
     | [a] \<Rightarrow> eval_symbol1 lm f a ex
     | [a, b] \<Rightarrow> eval_symbol2 lm f (val_of a) (val_of b) ex
     | _ \<Rightarrow> not_evaluable f ex)"

section \<open>The evaluator\<close>

fun eval_arith :: "libm \<Rightarrow> bpterm \<Rightarrow> eval"
  and eval_elems :: "libm \<Rightarrow> bpterm \<Rightarrow> eval list \<times> bool"
  and eval_array :: "libm \<Rightarrow> bpterm \<Rightarrow> eval list option" where
  "eval_arith lm Unbound = Some (Inl INSTANTIATION_ERROR)"
| "eval_arith lm (Number v) = Some (Inr v)"
| "eval_arith lm (Lst h t) = Some (Inl (TYPE_ERROR et_EVALUABLE (Lst h t)))"
| "eval_arith lm (Struct f args) = eval_symbol lm f
     (map (\<lambda>a. let (es, p) = eval_elems lm a
               in \<lparr>term_of = a, val_of = eval_arith lm a, elems_of = es, proper = p, array_of = eval_array lm a\<rparr>) args)
     (Struct f args)"
| "eval_elems lm (Lst h t) = (let (es, p) = eval_elems lm t in (eval_arith lm h # es, p))"
| "eval_elems lm (Struct f args) = ([], f = ''[]'' \<and> args = [])"
| "eval_elems lm Unbound = ([], False)"
| "eval_elems lm (Number v) = ([], False)"
| "eval_array lm (Struct f args) = (if f = ''{}'' then Some (map (eval_arith lm) args) else None)"
| "eval_array lm (Lst h t) = None"
| "eval_array lm Unbound = None"
| "eval_array lm (Number v) = None"

section \<open>Integer expressions\<close>

text \<open>
  The value of an integer expression, independently of representation, operand order and errors:
  the operations on integers, and the aggregates over lists. \<open>None\<close> where an operation is not
  one of these or the result is not an integer.
\<close>

definition int_op1 :: "string \<Rightarrow> int \<Rightarrow> int option" where
  "int_op1 f x =
    (if f = ''+'' then Some x
     else if f = ''-'' then Some (- x)
     else if f = ''~'' \<or> f = [CHR 0x5C] then Some (NOT x)
     else if f = ''abs'' then Some \<bar>x\<bar>
     else if f = ''sign'' then Some (sgn x)
     else if f \<in> {''floor'', ''ceiling'', ''round'', ''truncate'', ''integer''} then Some x
     else None)"

definition int_op2 :: "string \<Rightarrow> int \<Rightarrow> int \<Rightarrow> int option" where
  "int_op2 f x y =
    (if f = ''+'' then Some (x + y)
     else if f = ''-'' then Some (x - y)
     else if f = ''*'' then Some (x * y)
     else if f = ''**'' then
       (if 0 < y \<and> y < 2 ^ 56 \<or> y = 0 \<and> \<bar>x\<bar> < 2 ^ 56 then Some (x ^ nat y) else None)
     else if f = ''//'' then (if y = 0 then None else Some (x sdiv y))
     else if f = ''rem'' then (if y = 0 then None else Some (x smod y))
     else if f = ''div'' then (if y = 0 then None else Some (x div y))
     else if f = ''/>'' then (if y = 0 then None else Some (- ((- x) div y)))
     else if f = [CHR 0x5C, CHR ''/''] then Some (x OR y)
     else if f = [CHR ''/'', CHR 0x5C] then (if 0 \<le> x AND y \<or> \<bar>x\<bar> < 2 ^ 56 \<and> \<bar>y\<bar> < 2 ^ 56 then Some (x AND y) else None)
     else if f = ''xor'' then (if 0 \<le> x XOR y \<or> \<bar>x\<bar> < 2 ^ 56 \<and> \<bar>y\<bar> < 2 ^ 56 then Some (x XOR y) else None)
     else if f = ''max'' then Some (max x y)
     else if f = ''min'' then Some (min x y)
     else if f = ''gcd'' then (if x = 0 \<or> y = 0 then None else Some (gcd x y))
     else None)"

definition int_fold :: "string \<Rightarrow> int list \<Rightarrow> int option" where
  "int_fold f xs =
    (if f = ''sum'' then Some (foldl (+) 0 xs)
     else if f = ''max'' \<and> xs \<noteq> [] then Some (foldl max (hd xs) (tl xs))
     else if f = ''min'' \<and> xs \<noteq> [] then Some (foldl min (hd xs) (tl xs))
     else None)"

fun int_val :: "bpterm \<Rightarrow> int option" and int_elems :: "bpterm \<Rightarrow> int list option" where
  "int_val (Number (Num v)) = (if num_ok v then Some (num_val v) else None)"
| "int_val (Number (Flt f)) = None"
| "int_val Unbound = None"
| "int_val (Lst h t) = None"
| "int_val (Struct f args) = (case args of
      [a] \<Rightarrow> (case int_val a of Some x \<Rightarrow> int_op1 f x | None \<Rightarrow> Option.bind (int_elems a) (int_fold f))
    | [a, b] \<Rightarrow> Option.bind (int_val a) (\<lambda>x. Option.bind (int_val b) (int_op2 f x))
    | _ \<Rightarrow> None)"
| "int_elems (Lst h t) = Option.bind (int_val h) (\<lambda>x. map_option ((#) x) (int_elems t))"
| "int_elems (Struct f args) = (if f = ''[]'' \<and> args = [] then Some [] else None)"
| "int_elems Unbound = None"
| "int_elems (Number v) = None"

text \<open>\<open>eval_is r i\<close>: the evaluation returns the integer \<open>i\<close> in canonical form.\<close>

definition eval_is :: "eval \<Rightarrow> int \<Rightarrow> bool" where
  "eval_is r i \<longleftrightarrow> (\<exists>w. r = Some (Inr (Num w)) \<and> num_is w i)"

lemma eval_isE:
  assumes "eval_is r i"
  obtains w where "r = Some (Inr (Num w))" "num_ok w" "num_val w = i"
  using assms by (auto simp: eval_is_def num_is_def)

lemma apply_simps [simp]:
  "apply1 k (Some (Inr a)) = k a" "apply2 h (Some (Inr a)) (Some (Inr b)) = h a b"
  "total g a = Some (Inr (g a))" "total2 g2 a b = Some (Inr (g2 a b))"
  "fallible q a = Some (q a)" "fallible2 q2 a b = Some (q2 a b)"
  by (simp_all add: apply1_def apply2_def total_def total2_def fallible_def fallible2_def)

lemma small_is_int: "num_ok v \<Longrightarrow> \<bar>num_val v\<bar> < 2 ^ 56 \<Longrightarrow> v = MAKEINT (num_val v)"
  using num_ok_big(4) by (cases v) fastforce+

lemma eval_symbol1_simps:
  "eval_symbol1 lm ''+'' a ex = val_of a"
  "eval_symbol1 lm ''-'' a ex = apply1 (total (bp_math_sub (Num BP_ZERO))) (val_of a)"
  "eval_symbol1 lm ''~'' a ex = apply1 (fallible bp_bitwise_complement) (val_of a)"
  "eval_symbol1 lm [CHR 0x5C] a ex = apply1 (fallible bp_bitwise_complement) (val_of a)"
  "eval_symbol1 lm ''abs'' a ex = apply1 (total bp_float_abs) (val_of a)"
  "eval_symbol1 lm ''sign'' a ex = apply1 (total bp_math_sign) (val_of a)"
  "eval_symbol1 lm ''floor'' a ex = apply1 (fallible bp_float_floor) (val_of a)"
  "eval_symbol1 lm ''ceiling'' a ex = apply1 (fallible bp_float_ceiling) (val_of a)"
  "eval_symbol1 lm ''round'' a ex = apply1 (fallible bp_float_round) (val_of a)"
  "eval_symbol1 lm ''truncate'' a ex = apply1 (fallible bp_float_truncate) (val_of a)"
  "eval_symbol1 lm ''integer'' a ex = apply1 (fallible bp_math_integer) (val_of a)"
  "eval_symbol1 lm ''sum'' a ex = bp_math_sum1 a"
  "eval_symbol1 lm ''max'' a ex = bp_math_max1 a"
  "eval_symbol1 lm ''min'' a ex = bp_math_min1 a"
  by (simp_all add: eval_symbol1_def)

lemma eval_symbol2_simps:
  "eval_symbol2 lm ''^'' x y ex = apply2 (fallible2 bp_bitwise_or) x y"
  "eval_symbol2 lm ''+'' x y ex = apply2 (total2 bp_math_add) x y"
  "eval_symbol2 lm ''-'' x y ex = apply2 (total2 bp_math_sub) x y"
  "eval_symbol2 lm ''**'' x y ex = apply2 (fallible2 (bp_math_pow (c_pow lm))) x y"
  "eval_symbol2 lm ''*'' x y ex = apply2 (total2 bp_math_mul) x y"
  "eval_symbol2 lm ''//'' x y ex = apply2 (fallible2 bp_math_idiv) x y"
  "eval_symbol2 lm ''/>'' x y ex = apply2 (fallible2 bp_math_divge) x y"
  "eval_symbol2 lm ''div'' x y ex = apply2 (fallible2 bp_math_idiv_div) x y"
  "eval_symbol2 lm [CHR 0x5C, CHR ''/''] x y ex = apply2 (fallible2 bp_bitwise_or) x y"
  "eval_symbol2 lm [CHR ''/'', CHR 0x5C] x y ex = apply2 (fallible2 bp_bitwise_and) x y"
  "eval_symbol2 lm ''xor'' x y ex = apply2 (fallible2 bp_bitwise_xor) x y"
  "eval_symbol2 lm ''gcd'' x y ex = apply2 bp_math_gcd x y"
  "eval_symbol2 lm ''max'' x y ex = apply2 (total2 bp_math_max) x y"
  "eval_symbol2 lm ''min'' x y ex = apply2 (total2 bp_math_min) x y"
  "eval_symbol2 lm ''rem'' x y ex = apply2 (fallible2 bp_math_rem) x y"
  by (simp_all add: eval_symbol2_def)

lemma eval_isI: "\<exists>w. r = Inr (Num w) \<and> num_is w i \<Longrightarrow> eval_is (Some r) i"
  by (auto simp: eval_is_def)

lemma eval_isI_total: "\<exists>w. r = Num w \<and> num_is w i \<Longrightarrow> eval_is (Some (Inr r)) i"
  by (auto simp: eval_is_def)

lemma eval_op1:
  assumes "int_op1 f x = Some i" "val_of a = Some (Inr (Num w))" "num_ok w" "num_val w = x"
  shows "eval_is (eval_symbol1 lm f a ex) i"
proof -
  note w = assms(3)
  have self: "eval_is (Some (Inr (Num w))) x" using assms(3,4) by (simp add: eval_is_def num_is_def)
  have neg: "eval_is (Some (Inr (bp_math_sub (Num BP_ZERO) (Num w)))) (- x)"
    using sub_is [of BP_ZERO w] w assms(4) by (intro eval_isI_total) (simp add: BP_MININT_1W_def BP_MAXINT_1W_def)
  have sg: "eval_is (Some (Inr (bp_math_sign (Num w)))) (sgn x)"
    unfolding sign_is [OF w] assms(4) eval_is_def using num_is_intI [of "sgn x"] by (auto simp: sgn_if)
  have not: "eval_is (Some (bp_bitwise_complement (Num w))) (NOT x)"
    using bitwise_complement_is [OF w] assms(4) by (intro eval_isI) (simp add: not_int_def)
  have ab: "eval_is (Some (Inr (bp_float_abs (Num w)))) \<bar>x\<bar>"
    using abs_is [OF w] assms(4) by (intro eval_isI_total) simp
  consider "f = ''+''" "i = x" | "f = ''-''" "i = - x" | "f = ''~''" "i = NOT x" | "f = [CHR 0x5C]" "i = NOT x"
    | "f = ''abs''" "i = \<bar>x\<bar>" | "f = ''sign''" "i = sgn x"
    | "f \<in> {''floor'', ''ceiling'', ''round'', ''truncate'', ''integer''}" "i = x"
    using assms(1) by (auto simp: int_op1_def split: if_splits)
  then show ?thesis
    by cases (use self neg sg not ab in \<open>auto simp only: eval_symbol1_simps assms(2) apply_simps
      bp_float_floor.simps bp_float_ceiling.simps bp_float_round.simps bp_float_truncate.simps bp_math_integer.simps
      insert_iff empty_iff\<close>)
qed

lemma eval_op2:
  assumes "int_op2 f x y = Some i" "num_ok u" "num_val u = x" "num_ok v" "num_val v = y"
  shows "eval_is (eval_symbol2 lm f (Some (Inr (Num u))) (Some (Inr (Num v))) ex) i"
proof -
  note uv = assms(2,4) and vals = assms(3,5)
  note ring = add_is [OF uv, unfolded vals] sub_is [OF uv, unfolded vals] mul_is [OF uv, unfolded vals]
    max_is [OF uv, unfolded vals] min_is [OF uv, unfolded vals]
  note ring = ring [THEN eval_isI_total]
  note or' = bitwise_or_is [OF uv, unfolded vals, THEN eval_isI]
  note and' = bitwise_and_is [OF uv, unfolded vals]
  note xor' = bitwise_xor_is [OF uv, unfolded vals]
  have and': "eval_is (Some (bp_bitwise_and (Num u) (Num v))) (x AND y)" if "\<not> lost_power u v (x AND y)"
    using and' that by (intro eval_isI) simp
  have xor': "eval_is (Some (bp_bitwise_xor (Num u) (Num v))) (x XOR y)" if "\<not> lost_power u v (x XOR y)"
    using xor' that by (intro eval_isI) simp
  have not_lost: "\<not> lost_power u v i" if "0 \<le> i \<or> \<bar>x\<bar> < 2 ^ 56 \<and> \<bar>y\<bar> < 2 ^ 56" for i
    using that
  proof
    assume "0 \<le> i"
    moreover have "0 < BP_BIGINT_BASE ^ op_digits u v" by (rule zero_less_power) simp
    ultimately show ?thesis unfolding lost_power_def by linarith
  next
    assume "\<bar>x\<bar> < 2 ^ 56 \<and> \<bar>y\<bar> < 2 ^ 56"
    then have "u = MAKEINT x" "v = MAKEINT y"
      using small_is_int [OF uv(1)] small_is_int [OF uv(2)] vals by simp_all
    then show ?thesis by (simp add: lost_power_def both_int_def)
  qed
  have nz: "y \<noteq> 0 \<Longrightarrow> num_val v \<noteq> 0" by (simp add: vals)
  note divs = idiv_is [OF uv nz, unfolded vals, THEN eval_isI] rem_is [OF uv nz, unfolded vals, THEN eval_isI]
    idiv_div_is [OF uv nz, unfolded vals, THEN eval_isI] divge_is [OF uv nz, unfolded vals, THEN eval_isI]
  define P where "P \<longleftrightarrow> 0 < y \<and> y < 2 ^ 56 \<or> y = 0 \<and> \<bar>x\<bar> < 2 ^ 56"
  have pow: "eval_is (Some (bp_math_pow (c_pow lm) (Num u) (Num v))) (x ^ nat y)" if P
  proof (rule eval_isI)
    have v: "v = MAKEINT y" using small_is_int [OF uv(2)] that by (auto simp: vals P_def)
    have "0 < y \<or> y = 0 \<and> (\<exists>a. u = MAKEINT a)" using that small_is_int [OF uv(1)] by (auto simp: vals P_def)
    from pow_is [OF uv(1) this] show "\<exists>w. bp_math_pow (c_pow lm) (Num u) (Num v) = Inr (Num w) \<and> num_is w (x ^ nat y)"
      unfolding v vals .
  qed
  have gcd': "eval_is (bp_math_gcd (Num u) (Num v)) (gcd x y)" if "x \<noteq> 0" "y \<noteq> 0"
    using gcd_is [OF uv] that vals by (auto simp: eval_is_def)
  have "f = ''+'' \<and> i = x + y \<or> f = ''-'' \<and> i = x - y \<or> f = ''*'' \<and> i = x * y \<or>
      f = ''**'' \<and> i = x ^ nat y \<and> P \<or>
      f = ''//'' \<and> i = x sdiv y \<and> y \<noteq> 0 \<or> f = ''rem'' \<and> i = x smod y \<and> y \<noteq> 0 \<or>
      f = ''div'' \<and> i = x div y \<and> y \<noteq> 0 \<or> f = ''/>'' \<and> i = - ((- x) div y) \<and> y \<noteq> 0 \<or>
      f = [CHR 0x5C, CHR ''/''] \<and> i = x OR y \<or>
      f = [CHR ''/'', CHR 0x5C] \<and> i = x AND y \<and> \<not> lost_power u v (x AND y) \<or>
      f = ''xor'' \<and> i = x XOR y \<and> \<not> lost_power u v (x XOR y) \<or>
      f = ''max'' \<and> i = max x y \<or> f = ''min'' \<and> i = min x y \<or> f = ''gcd'' \<and> i = gcd x y \<and> x \<noteq> 0 \<and> y \<noteq> 0"
    using assms(1) not_lost [of "x AND y"] not_lost [of "x XOR y"]
    by (cases "y = 0"; simp add: int_op2_def P_def split: if_split_asm; blast)
  then show ?thesis
    by (elim disjE conjE) (simp_all only: eval_symbol2_simps apply_simps ring or' and' xor' divs pow gcd' not_False_eq_True simp_thms)
qed

text \<open>A fold over evaluated elements is the fold over the numbers, by the interface of the operation.\<close>

lemma fold_elems_vals:
  "fold_elems f (Some (Inr a)) (map (\<lambda>v. Some (Inr v)) vs) = Some (Inr (foldl f a vs))"
  by (induction vs arbitrary: a) simp_all

lemma elems_numbers:
  assumes "list_all2 eval_is es xs"
  shows "\<exists>vs. es = map (\<lambda>v. Some (Inr (Num v))) vs \<and> (\<forall>v \<in> set vs. num_ok v) \<and> map num_val vs = xs"
  using assms
proof (induction rule: list_all2_induct)
  case Nil
  then show ?case by simp
next
  case (Cons e es x xs)
  then obtain v vs where "e = Some (Inr (Num v))" "num_ok v" "num_val v = x"
    "es = map (\<lambda>v. Some (Inr (Num v))) vs" "\<forall>v \<in> set vs. num_ok v" "map num_val vs = xs"
    by (auto simp: eval_is_def num_is_def)
  then show ?case by (intro exI [of _ "v # vs"]) simp
qed

lemma num_ok_zero: "num_ok BP_ZERO" by (simp add: BP_MININT_1W_def BP_MAXINT_1W_def)

lemma eval_sum:
  assumes "list_all2 eval_is (elems_of a) xs" "proper a" "array_of a = None"
  shows "eval_is (bp_math_sum1 a) (foldl (+) 0 xs)"
proof -
  obtain vs where vs: "elems_of a = map (\<lambda>v. Some (Inr (Num v))) vs" "\<forall>v \<in> set vs. num_ok v" "map num_val vs = xs"
    using elems_numbers [OF assms(1)] by blast
  have m: "elems_of a = map (\<lambda>v. Some (Inr v)) (map Num vs)" using vs(1) by simp
  show ?thesis
    using add_op.fold_exact [OF num_ok_zero vs(2)] vs(3) assms(2,3)
    by (auto simp: bp_math_sum1_def fold_arg_def m fold_elems_vals eval_is_def simp del: map_map)
qed

lemma eval_extremum:
  assumes "list_all2 eval_is (elems_of a) xs" "proper a" "xs \<noteq> []"
  shows "eval_is (bp_math_max1 a) (foldl max (hd xs) (tl xs))" "eval_is (bp_math_min1 a) (foldl min (hd xs) (tl xs))"
proof -
  obtain vs where vs: "elems_of a = map (\<lambda>v. Some (Inr (Num v))) vs" "\<forall>v \<in> set vs. num_ok v" "map num_val vs = xs"
    using elems_numbers [OF assms(1)] by blast
  then obtain v vs' where v: "vs = v # vs'" using assms(3) by (cases vs) auto
  have m: "elems_of a = Some (Inr (Num v)) # map (\<lambda>v. Some (Inr v)) (map Num vs')" using vs(1) v by simp
  have ok: "num_ok v" "\<forall>v \<in> set vs'. num_ok v" and x: "hd xs = num_val v" "tl xs = map num_val vs'"
    using vs v by auto
  show "eval_is (bp_math_max1 a) (foldl max (hd xs) (tl xs))" "eval_is (bp_math_min1 a) (foldl min (hd xs) (tl xs))"
    using max_op.fold_exact [OF ok] min_op.fold_exact [OF ok] x assms(2)
    by (auto simp: bp_math_max1_def bp_math_min1_def extremum_def m fold_elems_vals eval_is_def simp del: map_map)
qed

lemma int_elems_array: "int_elems t = Some xs \<Longrightarrow> eval_array lm t = None"
  by (cases t) (auto split: if_splits)

lemma eval_int_val:
  "int_val t = Some i \<Longrightarrow> eval_is (eval_arith lm t) i"
  "int_elems t = Some xs \<Longrightarrow> list_all2 eval_is (fst (eval_elems lm t)) xs \<and> snd (eval_elems lm t)"
proof (induction t and t arbitrary: i and xs rule: int_val_int_elems.induct)
  case (1 v)
  then show ?case by (auto simp: eval_is_def num_is_def split: if_splits)
next
  case (5 f args)
  let ?arg = "\<lambda>a. let (es, p) = eval_elems lm a
     in \<lparr>term_of = a, val_of = eval_arith lm a, elems_of = es, proper = p, array_of = eval_array lm a\<rparr>"
  from "5.prems" consider (un) a where "args = [a]" | (bin) a b where "args = [a, b]"
    by (auto split: list.splits)
  then show ?case
  proof cases
    case un
    have e: "eval_arith lm (Struct f args) = eval_symbol1 lm f (?arg a) (Struct f args)"
      by (simp add: un eval_symbol_def)
    show ?thesis
    proof (cases "int_val a")
      case (Some x)
      then have "eval_is (eval_arith lm a) x" using "5.IH"(1) [OF un refl] by blast
      then obtain w where w: "eval_arith lm a = Some (Inr (Num w))" "num_ok w" "num_val w = x" by (rule eval_isE)
      have "int_op1 f x = Some i" using "5.prems" un Some by simp
      then show ?thesis unfolding e by (rule eval_op1 [OF _ _ w(2,3)]) (simp_all add: w(1) Let_def split: prod.split)
    next
      case None
      then obtain xs where xs: "int_elems a = Some xs" "int_fold f xs = Some i"
        using "5.prems" un by (auto simp: bind_eq_Some_conv)
      have el: "list_all2 eval_is (elems_of (?arg a)) xs" "proper (?arg a)" "array_of (?arg a) = None"
        using "5.IH"(2) [OF un refl None] xs(1) int_elems_array [OF xs(1)] by (auto simp: Let_def split: prod.split)
      from xs(2) consider "f = ''sum''" "i = foldl (+) 0 xs" | "f = ''max''" "xs \<noteq> []" "i = foldl max (hd xs) (tl xs)"
        | "f = ''min''" "xs \<noteq> []" "i = foldl min (hd xs) (tl xs)"
        by (auto simp: int_fold_def split: if_splits)
      then show ?thesis unfolding e
        by cases (simp_all only: eval_symbol1_simps eval_sum [OF el] eval_extremum [OF el(1,2)] not_False_eq_True)
    qed
  next
    case bin
    have e: "eval_arith lm (Struct f args) = eval_symbol2 lm f (eval_arith lm a) (eval_arith lm b) (Struct f args)"
      by (simp add: bin eval_symbol_def Let_def split: prod.split)
    obtain x y where xy: "int_val a = Some x" "int_val b = Some y" "int_op2 f x y = Some i"
      using "5.prems" bin by (auto simp: bind_eq_Some_conv)
    have "eval_is (eval_arith lm a) x" "eval_is (eval_arith lm b) y"
      using "5.IH"(3) [OF bin refl refl] "5.IH"(4) [OF bin refl refl] xy by blast+
    then obtain u v where uv: "eval_arith lm a = Some (Inr (Num u))" "num_ok u" "num_val u = x"
      "eval_arith lm b = Some (Inr (Num v))" "num_ok v" "num_val v = y"
      by (metis eval_isE)
    show ?thesis unfolding e uv(1,4) by (rule eval_op2 [OF xy(3) uv(2,3,5,6)])
  qed
next
  case (6 h t)
  then show ?case by (auto simp: bind_eq_Some_conv Let_def split: prod.splits)
next
  case (7 f args)
  then show ?case by (auto split: if_splits)
qed (simp_all)


abbreviation num_term :: "int \<Rightarrow> bpterm" where "num_term i \<equiv> Number (NInt i)"


text \<open>
  The documentation of the language (\<open>doc/data_types.tex\<close>, \<open>doc/syntax_grammar.tex\<close>) has \<open>^\<close> as bitwise exclusive
  or, and so does the built-in \<open>b_XOR_ccf\<close> behind \<open>^\<close> in \<open>lib/basic.pi\<close>. The evaluator makes it bitwise or.
\<close>

lemma caret_is_or:
  assumes "int_val t = Some x" "int_val u = Some y"
  shows "\<exists>w. eval_arith lm (Struct ''^'' [t, u]) = Some (Inr (Num w)) \<and> num_is w (x OR y)"
proof -
  have "int_val (Struct [CHR 0x5C, CHR ''/''] [t, u]) = Some (x OR y)" using assms by (simp add: int_op2_def)
  from eval_int_val(1) [OF this, of lm] show ?thesis
    by (simp add: eval_symbol_def eval_symbol2_simps eval_is_def Let_def split: prod.splits)
qed

section \<open>Modular multiplication\<close>

definition mul_mod_int :: "int \<Rightarrow> int \<Rightarrow> int \<Rightarrow> number result" where
  "mul_mod_int x y z =
    (if z = 0 then Inl DIVIDE_BY_ZERO
     else let y = (if 0 < z \<and> z \<le> y then y smod z else y);
              x = (if 0 < z \<and> z \<le> x then x smod z else x)
          in if x = 0 \<or> y = 0 then Inr (Num BP_ZERO)
             else if BP_IN_28B_INT_RANGE x \<and> BP_IN_28B_INT_RANGE y then Inr (NInt (x * y smod z))
             else of_bp (bp_mod_bigint_bigint
                    (bp_as_bigint (bp_mul_bigint_bigint (bp_int_to_bigint x) (bp_int_to_bigint y)))
                    (bp_int_to_bigint z)))"

definition big_operand :: "bpterm \<Rightarrow> bigint result" where
  "big_operand t = (case t of Number (NInt i) \<Rightarrow> Inr (bp_int_to_bigint i) | Number (NBig b) \<Rightarrow> Inr b
     | _ \<Rightarrow> Inl INTEGER_EXPECTED)"

definition reduce_operand :: "bigint \<Rightarrow> bigint \<Rightarrow> bigint result" where
  "reduce_operand x z = (if bp_compare_bigint_bigint x z \<ge> 0
     then case bp_mod_bigint_bigint x z of Inl e \<Rightarrow> Inl (BP e) | Inr v \<Rightarrow> Inr (bp_as_bigint v)
     else Inr x)"

definition mul_mod_big :: "bigint \<Rightarrow> bigint \<Rightarrow> bigint \<Rightarrow> number result" where
  "mul_mod_big x y z =
     (case reduce_operand x z of Inl e \<Rightarrow> Inl e
      | Inr x \<Rightarrow> (case reduce_operand y z of Inl e \<Rightarrow> Inl e
          | Inr y \<Rightarrow> of_bp (bp_mod_bigint_bigint (bp_as_bigint (bp_mul_bigint_bigint x y)) z)))"

definition c_MUL_MOD_cccf :: "bpterm \<Rightarrow> bpterm \<Rightarrow> bpterm \<Rightarrow> number result" where
  "c_MUL_MOD_cccf x y z = (case (x, y, z) of
       (Number (NInt i), Number (NInt j), Number (NInt k)) \<Rightarrow> mul_mod_int i j k
     | _ \<Rightarrow> (case big_operand x of Inl e \<Rightarrow> Inl e
         | Inr bx \<Rightarrow> (case big_operand y of Inl e \<Rightarrow> Inl e
             | Inr by \<Rightarrow> if z = Number (NInt 0) then Inl DIVIDE_BY_ZERO
                 else (case big_operand z of Inl e \<Rightarrow> Inl e | Inr bz \<Rightarrow> mul_mod_big bx by bz))))"

lemma pos_mod_is:
  assumes "wf_bigint x" "wf_bigint z" "0 \<le> big_val x" "0 < big_val z"
  shows "\<exists>v. bp_mod_bigint_bigint x z = Inr v \<and> num_is v (big_val x mod big_val z)"
  by (rule bp_mod_bigint_is) (use assms in \<open>auto simp: size_sign big_val_sign(2) [symmetric]\<close>)

lemma mul_mod_tail:
  assumes w: "wf_bigint x" "wf_bigint y" "wf_bigint z" and p: "0 < big_val x" "0 < big_val y" "0 < big_val z"
  shows "\<exists>v. of_bp (bp_mod_bigint_bigint (bp_as_bigint (bp_mul_bigint_bigint x y)) z) = Inr (Num v) \<and>
    num_is v (big_val x * big_val y mod big_val z)"
proof -
  have "num_is (bp_mul_bigint_bigint x y) (big_val x * big_val y)"
    by (rule bp_mul_bigint_is [OF w(1,2)]) (use p w in \<open>auto simp: big_val_sign(2) [symmetric]\<close>)
  then have m: "wf_bigint (bp_as_bigint (bp_mul_bigint_bigint x y))"
    "big_val (bp_as_bigint (bp_mul_bigint_bigint x y)) = big_val x * big_val y"
    by (auto simp: as_bigint num_is_def)
  have "0 \<le> big_val x * big_val y" using p by simp
  from pos_mod_is [OF m(1) w(3)] m(2) p(3) this show ?thesis by (auto simp: of_bp_def)
qed

lemma mul_mod_int_is:
  assumes "num_ok (MAKEINT x)" "num_ok (MAKEINT y)" "num_ok (MAKEINT z)" "0 \<le> x" "0 \<le> y" "0 < z"
  shows "\<exists>w. mul_mod_int x y z = Inr (Num w) \<and> num_is w (x * y mod z)"
proof -
  have r: "(if 0 < z \<and> z \<le> i then i smod z else i) = i mod z" if "0 \<le> i" for i
    using that assms(6) by (auto simp: smod_nonneg)
  let ?x = "x mod z" and ?y = "y mod z"
  have p: "0 \<le> ?x" "0 \<le> ?y" using assms(6) by simp_all
  have e: "mul_mod_int x y z = (if ?x = 0 \<or> ?y = 0 then Inr (Num BP_ZERO)
     else if BP_IN_28B_INT_RANGE ?x \<and> BP_IN_28B_INT_RANGE ?y then Inr (NInt (?x * ?y smod z))
     else of_bp (bp_mod_bigint_bigint
            (bp_as_bigint (bp_mul_bigint_bigint (bp_int_to_bigint ?x) (bp_int_to_bigint ?y))) (bp_int_to_bigint z)))"
    using assms(6) unfolding mul_mod_int_def Let_def r [OF assms(4)] r [OF assms(5)] by simp
  have xy: "x * y mod z = ?x * ?y mod z" by (simp add: mod_mult_eq)
  consider "?x = 0 \<or> ?y = 0" | "?x \<noteq> 0" "?y \<noteq> 0" by blast
  then show ?thesis
  proof cases
    case 1
    then have "x * y mod z = 0" unfolding xy by auto
    then show ?thesis using 1 num_is_zero(1) by (auto simp: e simp del: num_is_int)
  next
    case 2
    have "\<bar>?x * ?y mod z\<bar> < 2 ^ 56" using mod_bound [of z "?x * ?y"] assms(3,6) unfolding num_ok_int by linarith
    then have "num_is (MAKEINT (?x * ?y mod z)) (?x * ?y mod z)" by (rule num_is_intI)
    moreover have "?x * ?y smod z = ?x * ?y mod z" using p assms(6) by (intro smod_nonneg) auto
    moreover have "\<exists>v. of_bp (bp_mod_bigint_bigint
            (bp_as_bigint (bp_mul_bigint_bigint (bp_int_to_bigint ?x) (bp_int_to_bigint ?y))) (bp_int_to_bigint z)) = Inr (Num v) \<and>
        num_is v (?x * ?y mod z)"
      using mul_mod_tail [of "bp_int_to_bigint ?x" "bp_int_to_bigint ?y" "bp_int_to_bigint z"] p 2 assms(6)
      by (simp add: bp_int_to_bigint_sound)
    ultimately show ?thesis using 2 unfolding e xy by (auto simp del: num_is_int)
  qed
qed

lemma reduce_is:
  assumes "wf_bigint x" "wf_bigint z" "0 \<le> big_val x" "0 < big_val z"
  shows "\<exists>b. reduce_operand x z = Inr b \<and> wf_bigint b \<and> big_val b = big_val x mod big_val z"
proof (cases "big_val z \<le> big_val x")
  case True
  then have "bp_compare_bigint_bigint x z \<ge> 0" using bp_compare_bigint_sgn [OF assms(1,2)] by (simp add: sgn_if)
  then show ?thesis using pos_mod_is [OF assms] by (auto simp: reduce_operand_def as_bigint num_is_def)
next
  case False
  then have "\<not> bp_compare_bigint_bigint x z \<ge> 0" using bp_compare_bigint_sgn [OF assms(1,2)] by (simp add: sgn_if)
  then show ?thesis using False assms by (auto simp: reduce_operand_def)
qed

lemma mul_mod_big_is:
  assumes "wf_bigint x" "wf_bigint y" "wf_bigint z" "0 \<le> big_val x" "0 \<le> big_val y" "0 < big_val z"
    "\<not> big_val z dvd big_val x" "\<not> big_val z dvd big_val y"
  shows "\<exists>w. mul_mod_big x y z = Inr (Num w) \<and> num_is w (big_val x * big_val y mod big_val z)"
proof -
  obtain b where b: "reduce_operand x z = Inr b" "wf_bigint b" "big_val b = big_val x mod big_val z"
    using reduce_is [OF assms(1,3,4,6)] by blast
  obtain c where c: "reduce_operand y z = Inr c" "wf_bigint c" "big_val c = big_val y mod big_val z"
    using reduce_is [OF assms(2,3,5,6)] by blast
  have "0 < big_val b" "0 < big_val c"
    using assms(6-8) b(3) c(3) by (simp_all add: dvd_eq_mod_eq_0 order_less_le)
  from mul_mod_tail [OF b(2) c(2) assms(3) this assms(6)] show ?thesis
    by (simp add: mul_mod_big_def b(1) c(1) b(3) c(3) mod_mult_eq)
qed

text \<open>
  C19: \<open>X*Y mod Z\<close> for non-negative \<open>X\<close> and \<open>Y\<close> and positive \<open>Z\<close>: the exact canonical residue when
  the three are primitive, and when one is big and neither residue is 0. A zero operand next to a
  big one is multiplied as an array without digits, and its product keeps leading zeros: the
  result of \<open>0 * 2^112 mod 2^140\<close> is a big integer of four digits 0.
\<close>

theorem mul_mod_exact:
  assumes "num_ok u" "num_ok v" "num_ok z" "0 \<le> num_val u" "0 \<le> num_val v" "0 < num_val z"
    and "both_int u v \<and> both_int v z \<or> \<not> num_val z dvd num_val u \<and> \<not> num_val z dvd num_val v"
  shows "\<exists>w. c_MUL_MOD_cccf (Number (Num u)) (Number (Num v)) (Number (Num z)) = Inr (Num w) \<and>
    num_is w (num_val u * num_val v mod num_val z)"
proof (cases "both_int u v \<and> both_int v z")
  case True
  then obtain a b c where "u = MAKEINT a" "v = MAKEINT b" "z = MAKEINT c" by (auto simp: both_int_def)
  then show ?thesis using mul_mod_int_is [of a b c] assms by (simp add: c_MUL_MOD_cccf_def)
next
  case False
  have o: "big_operand (Number (Num n)) = Inr (bp_as_bigint n)" for n
    by (cases n) (simp_all add: big_operand_def bp_as_bigint_def)
  have "c_MUL_MOD_cccf (Number (Num u)) (Number (Num v)) (Number (Num z)) =
      mul_mod_big (bp_as_bigint u) (bp_as_bigint v) (bp_as_bigint z)"
    using False assms(6) by (cases u; cases v; cases z) (auto simp: c_MUL_MOD_cccf_def o)
  then show ?thesis
    using mul_mod_big_is [of "bp_as_bigint u" "bp_as_bigint v" "bp_as_bigint z"] assms False
    by (simp add: as_bigint)
qed

theorem mul_mod_exact_witness:
  "(\<exists>w. c_MUL_MOD_cccf (num_term 4000000000) (num_term 4000000000) (num_term 7) = Inr (Num w) \<and> num_is w 2) \<and>
   c_MUL_MOD_cccf (num_term 0) (Number (NBig \<lparr>sign_size = 5, digit_list = [0, 0, 0, 0, 1]\<rparr>))
     (Number (NBig \<lparr>sign_size = 6, digit_list = [0, 0, 0, 0, 0, 1]\<rparr>))
   = Inr (NBig \<lparr>sign_size = 4, digit_list = [0, 0, 0, 0]\<rparr>)"
proof -
  have "\<exists>w. c_MUL_MOD_cccf (num_term 4000000000) (num_term 4000000000) (num_term 7) = Inr (Num w) \<and> num_is w 2"
    using mul_mod_exact [of "MAKEINT 4000000000" "MAKEINT 4000000000" "MAKEINT 7"]
    by (simp add: BP_MININT_1W_def BP_MAXINT_1W_def)
  moreover have "c_MUL_MOD_cccf (num_term 0) (Number (NBig \<lparr>sign_size = 5, digit_list = [0, 0, 0, 0, 1]\<rparr>))
     (Number (NBig \<lparr>sign_size = 6, digit_list = [0, 0, 0, 0, 0, 1]\<rparr>))
   = Inr (NBig \<lparr>sign_size = 4, digit_list = [0, 0, 0, 0]\<rparr>)"
    by code_simp
  ultimately show ?thesis ..
qed

end
