(* ===== verification/Bitvec.thy ===== *)
theory Bitvec
  imports Prelude
begin

text \<open>
  Bit vectors of finite domains (the macros at the end of \<open>emu/term.h\<close> and \<open>domain_next_bv\<close>,
  \<open>domain_prev_bv\<close>, \<open>dm_true_bv_nbt\<close> of \<open>emu/domain.c\<close>). A vector is a block of the heap: the
  value of its first bit, the value of its last bit and 64-bit words. A read outside of the block
  and a shift by 64 or more, both undefined in C, are the errors \<open>BV_OUT_OF_BOUNDS\<close> and
  \<open>BV_SCAN_DIVERGES\<close>; values and offsets are unbounded integers, which is exact because domains
  lie in the 57-bit integers of the engine.
\<close>

section \<open>Outcomes\<close>

datatype fd_error =
    EVENT_QUEUE_OVERFLOWED      \<comment> \<open>\<open>quit("Event queue overflowed")\<close>\<close>
  | EVENT_ARRAY_OVERRUN         \<comment> \<open>a write behind the event arrays\<close>
  | HEAP_OVERFLOW               \<comment> \<open>\<open>myquit(STACK_OVERFLOW, "ib")\<close>\<close>
  | BV_OUT_OF_BOUNDS            \<comment> \<open>a read outside of the block of a bit vector\<close>
  | BV_SCAN_DIVERGES            \<comment> \<open>a scan of a word without a bit to find\<close>
  | COUNTER_OVERFLOW            \<comment> \<open>a signed 32-bit loop counter overflows\<close>

type_synonym 'a fd = "fd_error + 'a"

definition fd_bind :: "'a fd \<Rightarrow> ('a \<Rightarrow> 'b fd) \<Rightarrow> 'b fd" where
  "fd_bind r f = (case r of Inl e \<Rightarrow> Inl e | Inr x \<Rightarrow> f x)"

lemma fd_bind_simps [simp]:
  "fd_bind (Inl e) f = Inl e" "fd_bind (Inr x) f = f x"
  by (simp_all add: fd_bind_def)

lemma fd_bind_Inr: "fd_bind r f = Inr y \<longleftrightarrow> (\<exists>x. r = Inr x \<and> f x = Inr y)"
  by (cases r) auto

lemma fd_bind_cong [fundef_cong]:
  "r = r' \<Longrightarrow> (\<And>x. r' = Inr x \<Longrightarrow> f x = f' x) \<Longrightarrow> fd_bind r f = fd_bind r' f'"
  by (cases r') auto

lemma fd_bindE:
  assumes "fd_bind r f = Inr y"
  obtains x where "r = Inr x" "f x = Inr y"
  using assms by (auto simp: fd_bind_Inr)

section \<open>The block\<close>

type_synonym bpulong = "64 word"

record bit_vector =
  bv_addr :: int
  BV_low_val :: int
  BV_up_val :: int
  bv_words :: "bpulong list"

definition MASK_FF :: bpulong where "MASK_FF = 0xffffffffffffffff"

definition WORD_NUMBER :: "int \<Rightarrow> int" where
  "WORD_NUMBER val = (if val \<ge> 0 then val sdiv 64 else (- (- val + 64 - 1)) sdiv 64)"

definition word_at :: "bit_vector \<Rightarrow> nat \<Rightarrow> bpulong fd" where
  "word_at bv i = (if i < length (bv_words bv) then Inr (bv_words bv ! i) else Inl BV_OUT_OF_BOUNDS)"

definition WORD_OFFSET :: "bit_vector \<Rightarrow> int \<Rightarrow> (bpulong \<times> nat \<times> nat) fd" where
  "WORD_OFFSET bv elm =
     (let offset = elm - BV_low_val bv
      in if offset < 0 then Inl BV_OUT_OF_BOUNDS
         else let w_ptr = nat offset div 64; offset = nat offset mod 64
              in fd_bind (word_at bv w_ptr) (\<lambda>w. Inr (w, w_ptr, offset)))"

section \<open>The next element\<close>

fun skip_zero_words :: "bpulong list \<Rightarrow> int \<Rightarrow> (int \<times> bpulong) fd" where
  "skip_zero_words [] from = Inl BV_OUT_OF_BOUNDS"
| "skip_zero_words (w # ws) from = (if w = 0 then skip_zero_words ws (from + 64) else Inr (from, w))"

definition NEXT_IN_WORD :: "bit_vector \<Rightarrow> int \<Rightarrow> bpulong \<Rightarrow> nat \<Rightarrow> nat \<Rightarrow> (int \<times> bpulong \<times> nat) fd" where
  "NEXT_IN_WORD bv from w w_ptr offset =
     (let mask = push_bit offset MASK_FF
      in if w AND mask = 0
         then fd_bind (skip_zero_words (drop (w_ptr + 1) (bv_words bv)) (from + 64 - int offset))
                (\<lambda>(from, w). Inr (from, w, 0))
         else Inr (from, w, offset))"

function skip_bytes :: "bpulong \<Rightarrow> int \<Rightarrow> nat \<Rightarrow> (int \<times> nat) fd" where
  "skip_bytes w elm offset =
     (if 64 \<le> offset then Inl BV_SCAN_DIVERGES
      else if w AND push_bit offset 0xff = 0 then skip_bytes w (elm + 8) (offset + 8)
      else Inr (elm, offset))"
  by pat_completeness auto
termination by (relation "measure (\<lambda>(w, elm, offset). 64 - offset)") auto

function skip_bits :: "bpulong \<Rightarrow> int \<Rightarrow> nat \<Rightarrow> int fd" where
  "skip_bits w elm offset =
     (if 64 \<le> offset then Inl BV_SCAN_DIVERGES
      else if w AND push_bit offset 1 = 0 then skip_bits w (elm + 1) (offset + 1)
      else Inr elm)"
  by pat_completeness auto
termination by (relation "measure (\<lambda>(w, elm, offset). 64 - offset)") auto

declare skip_bytes.simps [simp del] skip_bits.simps [simp del]

definition NEXT_IN_ELM :: "int \<Rightarrow> bpulong \<Rightarrow> nat \<Rightarrow> int fd" where
  "NEXT_IN_ELM elm w offset =
     fd_bind (skip_bytes w elm offset) (\<lambda>(elm, offset). skip_bits w elm offset)"

definition domain_next_bv :: "bit_vector \<Rightarrow> int \<Rightarrow> int fd" where
  "domain_next_bv bv elm =
     fd_bind (WORD_OFFSET bv elm) (\<lambda>(w, w_ptr, offset).
     fd_bind (NEXT_IN_WORD bv elm w w_ptr offset) (\<lambda>(elm, w, offset).
     NEXT_IN_ELM elm w offset))"

section \<open>The previous element\<close>

fun PREV_IN_WORD :: "bit_vector \<Rightarrow> nat \<Rightarrow> int \<Rightarrow> bpulong \<Rightarrow> nat \<Rightarrow> (int \<times> bpulong \<times> nat) fd" where
  "PREV_IN_WORD bv w_ptr elm w offset =
     (let mask = drop_bit (63 - offset) MASK_FF
      in if w AND mask = 0
         then (case w_ptr of 0 \<Rightarrow> Inl BV_OUT_OF_BOUNDS
               | Suc w_ptr \<Rightarrow> fd_bind (word_at bv w_ptr)
                    (\<lambda>w. PREV_IN_WORD bv w_ptr (elm - int offset - 1) w 63))
         else Inr (elm, w, offset))"

fun PREV_IN_ELM :: "int \<Rightarrow> bpulong \<Rightarrow> nat \<Rightarrow> int fd" where
  "PREV_IN_ELM elm w offset =
     (if w AND push_bit offset 1 = 0
      then (case offset of 0 \<Rightarrow> Inl BV_SCAN_DIVERGES | Suc offset \<Rightarrow> PREV_IN_ELM (elm - 1) w offset)
      else Inr elm)"

declare PREV_IN_WORD.simps [simp del] PREV_IN_ELM.simps [simp del]

definition domain_prev_bv :: "bit_vector \<Rightarrow> int \<Rightarrow> int fd" where
  "domain_prev_bv bv elm =
     fd_bind (WORD_OFFSET bv elm) (\<lambda>(w, w_ptr, offset).
     fd_bind (PREV_IN_WORD bv w_ptr elm w offset) (\<lambda>(elm, w, offset).
     PREV_IN_ELM elm w offset))"

section \<open>Membership\<close>

definition dm_true_bv_nbt :: "bit_vector \<Rightarrow> int \<Rightarrow> bool fd" where
  "dm_true_bv_nbt bv elm =
     fd_bind (WORD_OFFSET bv elm) (\<lambda>(w, w_ptr, offset).
       let mask = push_bit offset 1 in Inr (w AND mask \<noteq> 0))"

text \<open>The set a vector stands for, and the shape of its block.\<close>

definition bv_member :: "bit_vector \<Rightarrow> int \<Rightarrow> bool" where
  "bv_member bv e \<longleftrightarrow> (let n = nat (e - BV_low_val bv) in
     BV_low_val bv \<le> e \<and> n div 64 < length (bv_words bv) \<and> bit (bv_words bv ! (n div 64)) (n mod 64))"

definition none_in :: "bit_vector \<Rightarrow> int \<Rightarrow> int \<Rightarrow> bool" where
  "none_in bv a b \<longleftrightarrow> (\<forall>x. a \<le> x \<and> x < b \<longrightarrow> \<not> bv_member bv x)"

definition wf_bv :: "bit_vector \<Rightarrow> bool" where
  "wf_bv bv \<longleftrightarrow> BV_up_val bv = BV_low_val bv + 64 * int (length (bv_words bv)) - 1"

section \<open>Masks\<close>

lemma MASK_FF_all: "MASK_FF = - 1"
  by (simp add: MASK_FF_def)

lemma bit_MASK_FF [simp]: "bit MASK_FF n \<longleftrightarrow> n < 64"
  by (simp add: MASK_FF_all bit_minus_1_iff)

declare bit_numeral_word_iff [simp del]

lemma bit_byte [simp]: "bit (255 :: bpulong) n \<longleftrightarrow> n < 8"
proof -
  have "(255 :: bpulong) = mask 8" by (simp add: mask_eq_exp_minus_1)
  then show ?thesis by (simp only: bit_mask_iff) auto
qed

lemma and_eq_0_bits: "w AND m = 0 \<longleftrightarrow> (\<forall>n < 64. bit m n \<longrightarrow> \<not> bit w n)" for w m :: bpulong
  by (auto simp: bit_eq_iff bit_and_iff)

lemma from_mask: "w AND push_bit k MASK_FF = 0 \<longleftrightarrow> (\<forall>n. k \<le> n \<and> n < 64 \<longrightarrow> \<not> bit w n)"
  by (auto simp: and_eq_0_bits bit_push_bit_iff)

lemma byte_mask: "w AND push_bit k (255 :: bpulong) = 0 \<longleftrightarrow> (\<forall>n. k \<le> n \<and> n < k + 8 \<and> n < 64 \<longrightarrow> \<not> bit w n)"
  by (auto simp: and_eq_0_bits bit_push_bit_iff)

lemma one_mask: "k < 64 \<Longrightarrow> w AND push_bit k (1 :: bpulong) = 0 \<longleftrightarrow> \<not> bit w k"
  by (auto simp: and_eq_0_bits bit_push_bit_iff bit_1_iff simp del: push_bit_of_1)

lemma first_mask: "w AND 1 = 0 \<longleftrightarrow> \<not> bit w 0" for w :: bpulong
  using one_mask [of 0 w] by simp

lemma upto_mask: "k < 64 \<Longrightarrow> w AND drop_bit (63 - k) MASK_FF = 0 \<longleftrightarrow> (\<forall>n \<le> k. \<not> bit w n)"
  by (auto simp: and_eq_0_bits bit_drop_bit_eq)

section \<open>Positions\<close>

lemma bv_member_at:
  "i < length (bv_words bv) \<Longrightarrow> k < 64 \<Longrightarrow>
     bv_member bv (BV_low_val bv + 64 * int i + int k) \<longleftrightarrow> bit (bv_words bv ! i) k"
proof -
  assume "i < length (bv_words bv)" "k < 64"
  moreover have "nat (64 * int i + int k) = 64 * i + k" by linarith
  ultimately show ?thesis by (simp add: bv_member_def add.assoc)
qed

lemma bv_position:
  assumes "bv_member bv e"
  obtains i k where "i < length (bv_words bv)" "k < 64" "e = BV_low_val bv + 64 * int i + int k"
    "bit (bv_words bv ! i) k"
proof -
  define n where "n = nat (e - BV_low_val bv)"
  have n: "n div 64 < length (bv_words bv)" "bit (bv_words bv ! (n div 64)) (n mod 64)" "e = BV_low_val bv + int n"
    using assms by (auto simp: bv_member_def n_def Let_def)
  have "int n = 64 * int (n div 64) + int (n mod 64)"
    using div_mult_mod_eq [of n 64] by linarith
  with n show ?thesis by (intro that [of "n div 64" "n mod 64"]) auto
qed

lemma WORD_OFFSET_Inr:
  "WORD_OFFSET bv elm = Inr (w, i, k) \<longleftrightarrow>
     i < length (bv_words bv) \<and> k < 64 \<and> w = bv_words bv ! i \<and> elm = BV_low_val bv + 64 * int i + int k"
  (is "?L = ?R")
proof
  assume ?L
  then have *: "BV_low_val bv \<le> elm" "i = nat (elm - BV_low_val bv) div 64"
    "k = nat (elm - BV_low_val bv) mod 64" "i < length (bv_words bv)" "w = bv_words bv ! i"
    by (auto simp: WORD_OFFSET_def word_at_def Let_def split: if_splits)
  then have "64 * i + k = nat (elm - BV_low_val bv)" by simp
  then have "64 * int i + int k = elm - BV_low_val bv" using *(1) by linarith
  with * show ?R by simp
next
  assume R: ?R
  then have "nat (elm - BV_low_val bv) = 64 * i + k" by linarith
  with R show ?L by (simp add: WORD_OFFSET_def word_at_def Let_def)
qed

lemma WORD_OFFSET_ok:
  assumes "BV_low_val bv \<le> elm" "elm < BV_low_val bv + 64 * int (length (bv_words bv))"
  obtains i k where "WORD_OFFSET bv elm = Inr (bv_words bv ! i, i, k)"
proof -
  define n where "n = nat (elm - BV_low_val bv)"
  have "n < 64 * length (bv_words bv)" using assms unfolding n_def by linarith
  then have "n div 64 < length (bv_words bv)" by (simp add: less_mult_imp_div_less mult.commute)
  then have "WORD_OFFSET bv elm = Inr (bv_words bv ! (n div 64), n div 64, n mod 64)"
    using assms(1) by (simp add: WORD_OFFSET_def word_at_def n_def [symmetric] Let_def)
  then show ?thesis by (rule that)
qed

lemma dm_true_bv_nbt_eq:
  "dm_true_bv_nbt bv e = Inr b \<Longrightarrow> b = bv_member bv e"
  by (auto simp: dm_true_bv_nbt_def fd_bind_Inr WORD_OFFSET_Inr one_mask bv_member_at Let_def simp del: push_bit_of_1)

lemma dm_true_bv_nbt_ok:
  assumes "BV_low_val bv \<le> e" "e < BV_low_val bv + 64 * int (length (bv_words bv))"
  shows "dm_true_bv_nbt bv e = Inr (bv_member bv e)"
proof -
  obtain i k where ik: "WORD_OFFSET bv e = Inr (bv_words bv ! i, i, k)"
    using WORD_OFFSET_ok [OF assms] .
  then obtain b where "dm_true_bv_nbt bv e = Inr b"
    by (simp add: dm_true_bv_nbt_def)
  with dm_true_bv_nbt_eq show ?thesis by simp
qed

lemma bv_member_range:
  "bv_member bv e \<Longrightarrow> BV_low_val bv \<le> e \<and> e < BV_low_val bv + 64 * int (length (bv_words bv))"
  by (erule bv_position) auto

section \<open>The next element is the least one\<close>

lemma none_in_join: "none_in bv a b \<Longrightarrow> none_in bv b c \<Longrightarrow> none_in bv a c"
  by (auto simp: none_in_def) (meson not_le)

lemma none_in_empty [simp]: "b \<le> a \<Longrightarrow> none_in bv a b"
  by (auto simp: none_in_def)

lemma none_in_word:
  assumes "i < length (bv_words bv)" "j \<le> 64" "\<And>n. k \<le> n \<Longrightarrow> n < j \<Longrightarrow> \<not> bit (bv_words bv ! i) n"
  shows "none_in bv (BV_low_val bv + 64 * int i + int k) (BV_low_val bv + 64 * int i + int j)"
  unfolding none_in_def
proof (intro allI impI)
  fix x assume x: "BV_low_val bv + 64 * int i + int k \<le> x \<and> x < BV_low_val bv + 64 * int i + int j"
  define n where "n = nat (x - BV_low_val bv - 64 * int i)"
  have "x = BV_low_val bv + 64 * int i + int n" "k \<le> n" "n < j" using x by (auto simp: n_def)
  with assms show "\<not> bv_member bv x" by (simp add: bv_member_at)
qed

lemma skip_zero_words_next:
  "skip_zero_words (drop i (bv_words bv)) (BV_low_val bv + 64 * int i) = Inr (from', w) \<Longrightarrow>
     \<exists>j < length (bv_words bv). i \<le> j \<and> from' = BV_low_val bv + 64 * int j \<and> w = bv_words bv ! j \<and> w \<noteq> 0
       \<and> none_in bv (BV_low_val bv + 64 * int i) from'"
proof (induction "length (bv_words bv) - i" arbitrary: i)
  case 0
  then show ?case by simp
next
  case (Suc n)
  then have i: "i < length (bv_words bv)" by simp
  then have d: "drop i (bv_words bv) = bv_words bv ! i # drop (Suc i) (bv_words bv)"
    by (simp add: Cons_nth_drop_Suc)
  show ?case
  proof (cases "bv_words bv ! i = 0")
    case True
    have "skip_zero_words (drop (Suc i) (bv_words bv)) (BV_low_val bv + 64 * int (Suc i)) = Inr (from', w)"
      using Suc.prems True by (simp add: d algebra_simps)
    moreover have "n = length (bv_words bv) - Suc i" using Suc.hyps(2) by simp
    ultimately obtain j where "j < length (bv_words bv)" "Suc i \<le> j" "from' = BV_low_val bv + 64 * int j"
      "w = bv_words bv ! j" "w \<noteq> 0" "none_in bv (BV_low_val bv + 64 * int (Suc i)) from'"
      using Suc.hyps(1) by blast
    moreover have "none_in bv (BV_low_val bv + 64 * int i) (BV_low_val bv + 64 * int (Suc i))"
      using none_in_word [OF i, of 64 0] True by (simp add: algebra_simps)
    ultimately show ?thesis using none_in_join Suc_leD by blast
  next
    case False
    with Suc.prems i show ?thesis by (auto simp: d)
  qed
qed

lemma skip_bytes_next:
  assumes "skip_bytes w elm k = Inr (elm', k')"
  shows "k \<le> k' \<and> k' < 64 \<and> elm' - elm = int k' - int k \<and> (\<forall>n. k \<le> n \<and> n < k' \<longrightarrow> \<not> bit w n)
     \<and> (\<exists>n. k' \<le> n \<and> n < 64 \<and> bit w n)"
  using assms
proof (induction w elm k rule: skip_bytes.induct)
  case (1 w elm k)
  show ?case
  proof (cases "k < 64 \<and> w AND push_bit k 255 = 0")
    case True
    with "1.prems" have "skip_bytes w (elm + 8) (k + 8) = Inr (elm', k')"
      by (subst (asm) skip_bytes.simps) simp
    with True have "k + 8 \<le> k' \<and> k' < 64 \<and> elm' - (elm + 8) = int k' - int (k + 8) \<and>
      (\<forall>n. k + 8 \<le> n \<and> n < k' \<longrightarrow> \<not> bit w n) \<and> (\<exists>n. k' \<le> n \<and> n < 64 \<and> bit w n)"
      by (intro "1.IH") simp_all
    moreover have "\<not> bit w n" if "k \<le> n" "n < k + 8" "n < 64" for n using True that by (simp add: byte_mask)
    ultimately show ?thesis by (auto simp: not_less) (metis le_less_trans less_imp_le not_le)
  next
    case False
    with "1.prems" show ?thesis by (subst (asm) skip_bytes.simps) (auto simp: byte_mask split: if_splits)
  qed
qed

lemma skip_bits_next:
  assumes "skip_bits w elm k = Inr elm'"
  shows "\<exists>k'. k \<le> k' \<and> k' < 64 \<and> elm' - elm = int k' - int k \<and> bit w k' \<and> (\<forall>n. k \<le> n \<and> n < k' \<longrightarrow> \<not> bit w n)"
  using assms
proof (induction w elm k rule: skip_bits.induct)
  case (1 w elm k)
  show ?case
  proof (cases "k < 64 \<and> \<not> bit w k")
    case True
    then have m: "\<not> 64 \<le> k" "w AND push_bit k 1 = 0" using one_mask [of k w] by auto
    with "1.prems" have "skip_bits w (elm + 1) (k + 1) = Inr elm'"
      by (subst (asm) skip_bits.simps) (simp del: push_bit_of_1)
    from "1.IH" [OF m this] obtain k' where "k + 1 \<le> k'" "k' < 64" "elm' - (elm + 1) = int k' - int (k + 1)" "bit w k'"
      "\<forall>n. k + 1 \<le> n \<and> n < k' \<longrightarrow> \<not> bit w n" by blast
    moreover from this True have "\<forall>n. k \<le> n \<and> n < k' \<longrightarrow> \<not> bit w n"
      by (metis Suc_eq_plus1 le_neq_implies_less Suc_leI)
    ultimately show ?thesis by (intro exI [of _ k']) auto
  next
    case False
    with "1.prems" have "k < 64" "bit w k" "elm' = elm"
      by (subst (asm) skip_bits.simps, force simp: one_mask simp del: push_bit_of_1 split: if_splits)+
    then show ?thesis by (intro exI [of _ k]) auto
  qed
qed

lemma NEXT_IN_ELM_next:
  assumes "NEXT_IN_ELM elm w k = Inr elm'"
  shows "\<exists>k'. k \<le> k' \<and> k' < 64 \<and> elm' = elm + int k' - int k \<and> bit w k' \<and> (\<forall>n. k \<le> n \<and> n < k' \<longrightarrow> \<not> bit w n)"
proof -
  obtain e1 k1 where 1: "skip_bytes w elm k = Inr (e1, k1)" and 2: "skip_bits w e1 k1 = Inr elm'"
    using assms by (auto simp: NEXT_IN_ELM_def fd_bind_Inr)
  obtain k' where "k1 \<le> k'" "k' < 64" "elm' - e1 = int k' - int k1" "bit w k'" "\<forall>n. k1 \<le> n \<and> n < k' \<longrightarrow> \<not> bit w n"
    using skip_bits_next [OF 2] by blast
  with skip_bytes_next [OF 1] show ?thesis
    by (intro exI [of _ k']) (auto, metis not_le)
qed

lemma NEXT_IN_WORD_next:
  assumes "NEXT_IN_WORD bv (BV_low_val bv + 64 * int i + int k) (bv_words bv ! i) i k = Inr (e, w, k')"
    "i < length (bv_words bv)" "k < 64"
  shows "\<exists>j < length (bv_words bv). k' < 64 \<and> w = bv_words bv ! j \<and> e = BV_low_val bv + 64 * int j + int k'
     \<and> none_in bv (BV_low_val bv + 64 * int i + int k) e \<and> BV_low_val bv + 64 * int i + int k \<le> e"
proof (cases "bv_words bv ! i AND push_bit k MASK_FF = 0")
  case False
  with assms show ?thesis by (intro exI [of _ i]) (auto simp: NEXT_IN_WORD_def)
next
  case True
  have s: "BV_low_val bv + 64 * int i + int k + 64 - int k = BV_low_val bv + 64 * int (Suc i)" by simp
  from True assms(1) have "k' = 0"
    and "skip_zero_words (drop (Suc i) (bv_words bv)) (BV_low_val bv + 64 * int (Suc i)) = Inr (e, w)"
    unfolding NEXT_IN_WORD_def s by (auto simp: fd_bind_Inr)
  moreover have "none_in bv (BV_low_val bv + 64 * int i + int k) (BV_low_val bv + 64 * int i + int 64)"
    using True by (intro none_in_word assms(2)) (auto simp: from_mask)
  then have "none_in bv (BV_low_val bv + 64 * int i + int k) (BV_low_val bv + 64 * int (Suc i))"
    by (simp add: algebra_simps)
  ultimately obtain j where "j < length (bv_words bv)" "Suc i \<le> j" "e = BV_low_val bv + 64 * int j" "w = bv_words bv ! j"
    "none_in bv (BV_low_val bv + 64 * int i + int k) e"
    using skip_zero_words_next none_in_join by blast
  with \<open>k' = 0\<close> assms(3) show ?thesis by (intro exI [of _ j]) auto
qed

lemma domain_next_bv_least:
  assumes "domain_next_bv bv a = Inr e"
  shows "a \<le> e \<and> bv_member bv e \<and> none_in bv a e"
proof -
  obtain i k e1 w k1 where i: "i < length (bv_words bv)" "k < 64" and a: "a = BV_low_val bv + 64 * int i + int k"
    and n: "NEXT_IN_WORD bv a (bv_words bv ! i) i k = Inr (e1, w, k1)" and e: "NEXT_IN_ELM e1 w k1 = Inr e"
    using assms by (auto simp: domain_next_bv_def fd_bind_Inr WORD_OFFSET_Inr)
  obtain j where j: "j < length (bv_words bv)" "k1 < 64" "w = bv_words bv ! j" "e1 = BV_low_val bv + 64 * int j + int k1"
    "none_in bv a e1" "a \<le> e1"
    using NEXT_IN_WORD_next [OF n [unfolded a] i] unfolding a by blast
  obtain k' where k: "k1 \<le> k'" "k' < 64" "e = e1 + int k' - int k1" "bit w k'" "\<forall>n. k1 \<le> n \<and> n < k' \<longrightarrow> \<not> bit w n"
    using NEXT_IN_ELM_next [OF e] by blast
  have e': "e = BV_low_val bv + 64 * int j + int k'" using j(4) k(3) by simp
  have "none_in bv e1 e" unfolding e' j(4) using j k by (intro none_in_word) auto
  with j(5) have "none_in bv a e" by (rule none_in_join)
  moreover have "bv_member bv e" unfolding e' using j(1,3) k(2,4) by (simp add: bv_member_at)
  ultimately show ?thesis using j(6) k(1,3) by simp
qed

lemma skip_bytes_ok: "bit w n \<Longrightarrow> k \<le> n \<Longrightarrow> n < 64 \<Longrightarrow> \<exists>x. skip_bytes w elm k = Inr x"
proof (induction w elm k rule: skip_bytes.induct)
  case (1 w elm k)
  show ?case
  proof (cases "w AND push_bit k 255 = 0")
    case True
    then have "k + 8 \<le> n" using "1.prems" by (auto simp: byte_mask not_le)
    with "1.IH" True "1.prems" show ?thesis by (subst skip_bytes.simps) auto
  next
    case False
    with "1.prems" show ?thesis by (subst skip_bytes.simps) auto
  qed
qed

lemma skip_bits_ok: "bit w n \<Longrightarrow> k \<le> n \<Longrightarrow> n < 64 \<Longrightarrow> \<exists>x. skip_bits w elm k = Inr x"
proof (induction w elm k rule: skip_bits.induct)
  case (1 w elm k)
  show ?case
  proof (cases "w AND push_bit k 1 = 0")
    case True
    then have "k \<noteq> n" using "1.prems" by (auto simp: one_mask simp del: push_bit_of_1)
    with "1.IH" True "1.prems" show ?thesis by (subst skip_bits.simps) (simp del: push_bit_of_1)
  next
    case False
    with "1.prems" show ?thesis by (subst skip_bits.simps) (simp del: push_bit_of_1)
  qed
qed

lemma NEXT_IN_ELM_ok: "bit w n \<Longrightarrow> k \<le> n \<Longrightarrow> n < 64 \<Longrightarrow> \<exists>x. NEXT_IN_ELM elm w k = Inr x"
proof -
  assume "bit w n" "k \<le> n" "n < 64"
  then obtain e1 k1 where 1: "skip_bytes w elm k = Inr (e1, k1)" using skip_bytes_ok by fastforce
  then obtain m where "bit w m" "k1 \<le> m" "m < 64" using skip_bytes_next [OF 1] by blast
  with 1 skip_bits_ok show ?thesis by (fastforce simp: NEXT_IN_ELM_def)
qed

lemma skip_zero_words_ok: "\<exists>w \<in> set ws. w \<noteq> 0 \<Longrightarrow> \<exists>x. skip_zero_words ws from = Inr x"
  by (induction ws arbitrary: "from") auto

lemma skip_zero_words_nonzero: "skip_zero_words ws from = Inr (from', w) \<Longrightarrow> w \<noteq> 0"
  by (induction ws arbitrary: "from") (auto split: if_splits)

lemma bit_nonzero: "w \<noteq> 0 \<Longrightarrow> \<exists>n < 64. bit w n" for w :: bpulong
  by (auto simp: bit_eq_iff)

lemma domain_next_bv_ok:
  assumes "bv_member bv e" "a \<le> e" "BV_low_val bv \<le> a"
  shows "\<exists>x. domain_next_bv bv a = Inr x"
proof -
  have "a < BV_low_val bv + 64 * int (length (bv_words bv))" using bv_member_range [OF assms(1)] assms(2) by simp
  with assms(3) obtain i k where o: "WORD_OFFSET bv a = Inr (bv_words bv ! i, i, k)" by (rule WORD_OFFSET_ok)
  then have i: "i < length (bv_words bv)" "k < 64" "a = BV_low_val bv + 64 * int i + int k" by (auto simp: WORD_OFFSET_Inr)
  obtain j n where j: "j < length (bv_words bv)" "n < 64" "e = BV_low_val bv + 64 * int j + int n" "bit (bv_words bv ! j) n"
    using assms(1) by (rule bv_position)
  show ?thesis
  proof (cases "bv_words bv ! i AND push_bit k MASK_FF = 0")
    case False
    then obtain m where "k \<le> m" "m < 64" "bit (bv_words bv ! i) m" by (auto simp: from_mask)
    with o False NEXT_IN_ELM_ok [of "bv_words bv ! i" m k a] show ?thesis
      by (auto simp: domain_next_bv_def NEXT_IN_WORD_def)
  next
    case True
    with j i assms(2) have "i < j" by (cases i j rule: linorder_cases) (auto simp: from_mask)
    moreover have "bv_words bv ! j \<noteq> 0" using j(4) by auto
    ultimately have "\<exists>w \<in> set (drop (i + 1) (bv_words bv)). w \<noteq> 0" using j(1)
      by (intro bexI [of _ "bv_words bv ! j"]) (auto simp: in_set_conv_nth intro!: exI [of _ "j - Suc i"])
    then obtain e' w where z: "skip_zero_words (drop (i + 1) (bv_words bv)) (a + 64 - int k) = Inr (e', w)"
      using skip_zero_words_ok by fastforce
    then obtain m where "m < 64" "bit w m" using skip_zero_words_nonzero bit_nonzero by blast
    with o True z NEXT_IN_ELM_ok [of w m 0 e'] show ?thesis
      by (auto simp: domain_next_bv_def NEXT_IN_WORD_def)
  qed
qed

section \<open>The previous element is the greatest one\<close>

lemma PREV_IN_ELM_hit: "k < 64 \<Longrightarrow> bit w k \<Longrightarrow> PREV_IN_ELM elm w k = Inr elm"
  by (subst PREV_IN_ELM.simps) (simp only: one_mask not_True_eq_False if_False)

lemma PREV_IN_ELM_step:
  "Suc k < 64 \<Longrightarrow> \<not> bit w (Suc k) \<Longrightarrow> PREV_IN_ELM elm w (Suc k) = PREV_IN_ELM (elm - 1) w k"
  by (subst PREV_IN_ELM.simps) (simp only: one_mask not_False_eq_True if_True nat.case)

lemma PREV_IN_ELM_none: "\<not> bit w 0 \<Longrightarrow> PREV_IN_ELM elm w 0 = Inl BV_SCAN_DIVERGES"
  by (subst PREV_IN_ELM.simps) (simp add: first_mask)

lemma PREV_IN_ELM_prev:
  "PREV_IN_ELM elm w k = Inr e \<Longrightarrow> k < 64 \<Longrightarrow>
     \<exists>k' \<le> k. e = elm - int k + int k' \<and> bit w k' \<and> (\<forall>n. k' < n \<and> n \<le> k \<longrightarrow> \<not> bit w n)"
proof (induction k arbitrary: elm)
  case 0
  then show ?case by (cases "bit w 0") (auto simp: PREV_IN_ELM_hit PREV_IN_ELM_none)
next
  case (Suc k)
  show ?case
  proof (cases "bit w (Suc k)")
    case True
    with Suc.prems show ?thesis by (intro exI [of _ "Suc k"]) (auto simp: PREV_IN_ELM_hit)
  next
    case False
    with Suc.prems have "PREV_IN_ELM (elm - 1) w k = Inr e" by (simp add: PREV_IN_ELM_step)
    with Suc.IH Suc.prems obtain k' where "k' \<le> k" "e = elm - 1 - int k + int k'" "bit w k'"
      "\<forall>n. k' < n \<and> n \<le> k \<longrightarrow> \<not> bit w n" by (metis Suc_lessD)
    with False show ?thesis by (intro exI [of _ k']) (auto simp: le_Suc_eq)
  qed
qed

lemma PREV_IN_ELM_ok: "bit w n \<Longrightarrow> n \<le> k \<Longrightarrow> k < 64 \<Longrightarrow> \<exists>e. PREV_IN_ELM elm w k = Inr e"
proof (induction k arbitrary: elm)
  case 0
  then show ?case by (simp add: PREV_IN_ELM_hit)
next
  case (Suc k)
  then show ?case
    by (cases "bit w (Suc k)") (auto simp: PREV_IN_ELM_hit PREV_IN_ELM_step le_Suc_eq)
qed

lemma PREV_IN_WORD_prev:
  assumes "PREV_IN_WORD bv i (BV_low_val bv + 64 * int i + int k) (bv_words bv ! i) k = Inr (e, w, k')"
    "i < length (bv_words bv)" "k < 64"
  shows "\<exists>j < length (bv_words bv). k' < 64 \<and> w = bv_words bv ! j \<and> e = BV_low_val bv + 64 * int j + int k'
     \<and> none_in bv (e + 1) (BV_low_val bv + 64 * int i + int k + 1) \<and> e \<le> BV_low_val bv + 64 * int i + int k
     \<and> (\<exists>n \<le> k'. bit w n)"
  using assms
proof (induction i arbitrary: k)
  case 0
  then show ?case
    by (subst (asm) PREV_IN_WORD.simps) (auto simp: upto_mask Let_def split: if_splits)
next
  case (Suc i)
  let ?w = "bv_words bv ! Suc i" and ?e = "BV_low_val bv + 64 * int (Suc i) + int k"
  show ?case
  proof (cases "?w AND drop_bit (63 - k) MASK_FF = 0")
    case False
    with Suc.prems show ?thesis
      by (subst (asm) PREV_IN_WORD.simps) (auto simp: upto_mask intro!: exI [of _ "Suc i"])
  next
    case True
    have s: "?e - int k - 1 = BV_low_val bv + 64 * int i + int 63" by simp
    have "PREV_IN_WORD bv i (BV_low_val bv + 64 * int i + int 63) (bv_words bv ! i) 63 = Inr (e, w, k')"
      using Suc.prems True unfolding s [symmetric]
      by (subst (asm) PREV_IN_WORD.simps) (simp add: word_at_def)
    from Suc.IH [OF this Suc_lessD [OF Suc.prems(2)]] obtain j where j: "j < length (bv_words bv)" "k' < 64" "w = bv_words bv ! j"
      "e = BV_low_val bv + 64 * int j + int k'" "none_in bv (e + 1) (BV_low_val bv + 64 * int i + int 63 + 1)"
      "e \<le> BV_low_val bv + 64 * int i + int 63" and b: "\<exists>n \<le> k'. bit w n"
      by fastforce
    have "none_in bv (BV_low_val bv + 64 * int (Suc i) + int 0) (BV_low_val bv + 64 * int (Suc i) + int (Suc k))"
      using True Suc.prems by (intro none_in_word) (auto simp: upto_mask)
    moreover have "BV_low_val bv + 64 * int (Suc i) + int 0 = BV_low_val bv + 64 * int i + int 63 + 1"
      "BV_low_val bv + 64 * int (Suc i) + int (Suc k) = ?e + 1" by simp_all
    ultimately have "none_in bv (BV_low_val bv + 64 * int i + int 63 + 1) (?e + 1)" by (simp only:)
    with j(5) have "none_in bv (e + 1) (?e + 1)" by (rule none_in_join)
    with j b show ?thesis by (intro exI [of _ j]) auto
  qed
qed

lemma domain_prev_bv_greatest:
  assumes "domain_prev_bv bv a = Inr e"
  shows "e \<le> a \<and> bv_member bv e \<and> none_in bv (e + 1) (a + 1)"
proof -
  obtain i k e1 w k1 where i: "i < length (bv_words bv)" "k < 64" and a: "a = BV_low_val bv + 64 * int i + int k"
    and n: "PREV_IN_WORD bv i a (bv_words bv ! i) k = Inr (e1, w, k1)" and e: "PREV_IN_ELM e1 w k1 = Inr e"
    using assms by (auto simp: domain_prev_bv_def fd_bind_Inr WORD_OFFSET_Inr)
  obtain j where j: "j < length (bv_words bv)" "k1 < 64" "w = bv_words bv ! j" "e1 = BV_low_val bv + 64 * int j + int k1"
    "none_in bv (e1 + 1) (a + 1)" "e1 \<le> a"
    using PREV_IN_WORD_prev [OF n [unfolded a] i] unfolding a by blast
  obtain k' where k: "k' \<le> k1" "e = e1 - int k1 + int k'" "bit w k'" "\<forall>n. k' < n \<and> n \<le> k1 \<longrightarrow> \<not> bit w n"
    using PREV_IN_ELM_prev [OF e j(2)] by blast
  have e': "e = BV_low_val bv + 64 * int j + int k'" using j(4) k(2) by simp
  have "none_in bv (BV_low_val bv + 64 * int j + int (Suc k')) (BV_low_val bv + 64 * int j + int (Suc k1))"
    using j k by (intro none_in_word) auto
  moreover have "BV_low_val bv + 64 * int j + int (Suc k') = e + 1" "BV_low_val bv + 64 * int j + int (Suc k1) = e1 + 1"
    using e' j(4) by simp_all
  ultimately have "none_in bv (e + 1) (e1 + 1)" by (simp only:)
  from this j(5) have "none_in bv (e + 1) (a + 1)" by (rule none_in_join)
  moreover have "bv_member bv e" unfolding e' using j(1-3) k(1,3) by (simp add: bv_member_at)
  ultimately show ?thesis using j(6) k(1,2) by simp
qed

lemma PREV_IN_WORD_ok:
  "i < length (bv_words bv) \<Longrightarrow> k < 64 \<Longrightarrow> bv_member bv e \<Longrightarrow> e \<le> BV_low_val bv + 64 * int i + int k \<Longrightarrow>
     \<exists>x. PREV_IN_WORD bv i a (bv_words bv ! i) k = Inr x"
proof (induction i arbitrary: k a)
  case (0 k)
  from 0(3) obtain j n where "n < 64" "e = BV_low_val bv + 64 * int j + int n" "bit (bv_words bv ! j) n" by (rule bv_position)
  moreover from this 0(2,4) have "j = 0" by simp
  ultimately have "n \<le> k" "bit (bv_words bv ! 0) n" using 0(4) by auto
  with 0 show ?case by (subst PREV_IN_WORD.simps) (auto simp: upto_mask)
next
  case (Suc i k)
  show ?case
  proof (cases "bv_words bv ! Suc i AND drop_bit (63 - k) MASK_FF = 0")
    case False
    then show ?thesis by (subst PREV_IN_WORD.simps) simp
  next
    case True
    obtain j n where j: "j < length (bv_words bv)" "n < 64" "e = BV_low_val bv + 64 * int j + int n" "bit (bv_words bv ! j) n"
      using Suc.prems(3) by (rule bv_position)
    with Suc.prems True have "j < Suc i" by (cases j "Suc i" rule: linorder_cases) (auto simp: upto_mask)
    then have "e \<le> BV_low_val bv + 64 * int i + int 63" using j by simp
    then have "\<exists>x. PREV_IN_WORD bv i (a - int k - 1) (bv_words bv ! i) 63 = Inr x"
      by (intro Suc.IH [OF Suc_lessD [OF Suc.prems(1)] _ Suc.prems(3)]) simp_all
    then obtain x where "PREV_IN_WORD bv i (a - int k - 1) (bv_words bv ! i) 63 = Inr x" ..
    with True Suc.prems(1) show ?thesis by (subst PREV_IN_WORD.simps, cases x) (simp add: word_at_def)
  qed
qed

lemma domain_prev_bv_ok:
  assumes "bv_member bv e" "e \<le> a" "a < BV_low_val bv + 64 * int (length (bv_words bv))"
  shows "\<exists>x. domain_prev_bv bv a = Inr x"
proof -
  have "BV_low_val bv \<le> a" using bv_member_range [OF assms(1)] assms(2) by simp
  from this assms(3) obtain i k where o: "WORD_OFFSET bv a = Inr (bv_words bv ! i, i, k)" by (rule WORD_OFFSET_ok)
  then have i: "i < length (bv_words bv)" "k < 64" "a = BV_low_val bv + 64 * int i + int k" by (auto simp: WORD_OFFSET_Inr)
  obtain e1 w k1 where 1: "PREV_IN_WORD bv i a (bv_words bv ! i) k = Inr (e1, w, k1)"
    using PREV_IN_WORD_ok [OF i(1,2) assms(1)] assms(2) i(3) by (metis prod_cases3)
  then obtain n where "n \<le> k1" "k1 < 64" "bit w n" using PREV_IN_WORD_prev [OF _ i(1,2)] unfolding i(3) by blast
  with o 1 PREV_IN_ELM_ok show ?thesis by (simp add: domain_prev_bv_def)
qed

section \<open>Clearing bits\<close>

definition clear_bit :: "bit_vector \<Rightarrow> nat \<Rightarrow> nat \<Rightarrow> bit_vector" where
  "clear_bit bv w_ptr offset = bv\<lparr>bv_words := (bv_words bv)[w_ptr := bv_words bv ! w_ptr AND NOT (push_bit offset 1)]\<rparr>"

lemma bit_clear [simp]: "k < 64 \<Longrightarrow> bit (w AND NOT (push_bit k (1 :: bpulong))) n \<longleftrightarrow> bit w n \<and> n \<noteq> k"
  by (auto simp: bit_and_iff bit_not_iff bit_push_bit_iff bit_1_iff simp del: push_bit_of_1
      dest: bit_imp_le_length)

lemma clear_bit_member:
  assumes "WORD_OFFSET bv e = Inr (w, i, k)"
  shows "bv_member (clear_bit bv i k) x \<longleftrightarrow> bv_member bv x \<and> x \<noteq> e"
proof -
  have i: "i < length (bv_words bv)" "k < 64" "e = BV_low_val bv + 64 * int i + int k"
    using assms by (auto simp: WORD_OFFSET_Inr)
  show ?thesis
  proof (cases "BV_low_val bv \<le> x \<and> nat (x - BV_low_val bv) div 64 < length (bv_words bv)")
    case False
    then show ?thesis by (auto simp: bv_member_def clear_bit_def Let_def)
  next
    case True
    define j n where "j = nat (x - BV_low_val bv) div 64" and "n = nat (x - BV_low_val bv) mod 64"
    have "64 * j + n = nat (x - BV_low_val bv)" by (simp add: j_def n_def)
    then have "int (64 * j + n) = x - BV_low_val bv" using True by simp
    then have x: "x = BV_low_val bv + 64 * int j + int n" by simp
    have jn: "j < length (bv_words bv)" "n < 64" using True by (auto simp: j_def n_def)
    have c: "BV_low_val (clear_bit bv i k) = BV_low_val bv" "length (bv_words (clear_bit bv i k)) = length (bv_words bv)"
      by (simp_all add: clear_bit_def)
    have "bv_member (clear_bit bv i k) x \<longleftrightarrow> bit (bv_words (clear_bit bv i k) ! j) n"
      using bv_member_at [of j "clear_bit bv i k" n] jn unfolding c x by blast
    also have "\<dots> \<longleftrightarrow> bit (bv_words bv ! j) n \<and> \<not> (j = i \<and> n = k)"
      using i jn by (simp add: clear_bit_def nth_list_update del: push_bit_of_1)
    also have "(j = i \<and> n = k) \<longleftrightarrow> x = e"
      unfolding x i(3) using jn(2) i(2) by (cases j i rule: linorder_cases) auto
    also have "bit (bv_words bv ! j) n \<longleftrightarrow> bv_member bv x" unfolding x using jn by (simp add: bv_member_at)
    finally show ?thesis .
  qed
qed

lemma WORD_NUMBER_floor: "WORD_NUMBER v = v div 64"
proof (cases "v \<ge> 0")
  case True
  then show ?thesis by (simp add: WORD_NUMBER_def c_arith)
next
  case False
  then have "(- (- v + 64 - 1)) sdiv 64 = - ((- v + 63) div 64)"
    by (simp add: signed_divide_int_def sgn_if)
  also have "\<dots> = v div 64" using False by linarith
  finally show ?thesis using False by (simp add: WORD_NUMBER_def)
qed

text \<open>A fresh vector for the values \<open>from\<close> to \<open>to\<close>: whole words of ones.\<close>

definition full_bv :: "int \<Rightarrow> int \<Rightarrow> int \<Rightarrow> bit_vector" where
  "full_bv a from to = \<lparr>bv_addr = a, BV_low_val = WORD_NUMBER from * 64, BV_up_val = (WORD_NUMBER to + 1) * 64 - 1,
     bv_words = replicate (nat (WORD_NUMBER to - WORD_NUMBER from + 1)) MASK_FF\<rparr>"

lemma word_index_less: "0 \<le> d \<Longrightarrow> 0 \<le> n \<Longrightarrow> nat d div 64 < nat n \<longleftrightarrow> d < n * 64"
proof -
  assume "0 \<le> d" "0 \<le> n"
  then have "nat d div 64 < nat n \<longleftrightarrow> nat (d div 64) < nat n" by (simp add: nat_div_distrib)
  also have "\<dots> \<longleftrightarrow> d div 64 < n" using \<open>0 \<le> d\<close> by (simp add: zless_nat_conj zless_nat_eq_int_zless)
  finally show ?thesis by linarith
qed

lemma full_bv_member:
  assumes "from \<le> to"
  shows "bv_member (full_bv a from to) x \<longleftrightarrow> from div 64 * 64 \<le> x \<and> x < (to div 64 + 1) * 64"
proof -
  have n: "0 \<le> to div 64 - from div 64 + 1" using zdiv_mono1 [OF assms, of 64] by simp
  have "nat (x - from div 64 * 64) div 64 < nat (to div 64 - from div 64 + 1) \<longleftrightarrow> x < (to div 64 + 1) * 64"
    if "from div 64 * 64 \<le> x"
    using word_index_less [OF _ n, of "x - from div 64 * 64"] that by (simp add: algebra_simps)
  then show ?thesis by (auto simp: bv_member_def full_bv_def WORD_NUMBER_floor Let_def)
qed

lemma full_bv_wf: "from \<le> to \<Longrightarrow> wf_bv (full_bv a from to)"
  using zdiv_mono1 [of "from" to 64] by (simp add: wf_bv_def full_bv_def WORD_NUMBER_floor)

end
