(* ===== verification/Trigger.thy ===== *)
theory Trigger
  imports Bitvec Terms
begin

text \<open>
  The part of the abstract machine a finite-domain primitive works on: the heap limits, the
  trail (\<open>PUSHTRAIL_H_*\<close>, \<open>POPTRAIL\<close>, \<open>UNDO_TRAILING\<close> of \<open>emu/bapi.h\<close>) and the queue of raised
  events (\<open>INSERT_TRIGGER_*\<close> of \<open>emu/term.h\<close>), with the block of a domain variable
  (\<open>DV_*\<close> of \<open>emu/term.h\<close>) and the macros that update its cells (\<open>emu/event.h\<close>).

  The ten cells of a variable are the fields of a record; a pointer to a bit vector is the vector
  itself. A cell is older than the current choice point when its address is below \<open>hbreg\<close>, and
  then its old value goes to the trail. The event arrays are functions on indices; a write at
  \<open>MAXTRIGGERS\<close> or above is the error \<open>EVENT_ARRAY_OVERRUN\<close>.
\<close>

section \<open>Variables\<close>

datatype dom_type = UN_DOMAIN | IT_DOMAIN | BV_DOMAIN bit_vector

record dvar =
  dv_ptr :: int
  DV_var :: "int option"        \<comment> \<open>\<open>None\<close>: a suspension variable; \<open>Some i\<close>: instantiated to \<open>i\<close>\<close>
  DV_type :: dom_type
  DV_ins_cs :: "int list"       \<comment> \<open>agents on a list of constraints, \<open>nil_sym\<close> when none\<close>
  DV_size :: int
  DV_first :: int
  DV_last :: int
  DV_minmax_cs :: "int list"
  DV_dom_cs :: "int list"
  DV_outer_dom_cs :: "int list"

abbreviation nil_sym :: "int list" where "nil_sym \<equiv> []"

definition A_DV_type :: "dvar \<Rightarrow> int" where "A_DV_type v = dv_ptr v + 1"
definition A_DV_ins_cs :: "dvar \<Rightarrow> int" where "A_DV_ins_cs v = dv_ptr v + 2"
definition A_DV_size :: "dvar \<Rightarrow> int" where "A_DV_size v = dv_ptr v + 4"
definition A_DV_first :: "dvar \<Rightarrow> int" where "A_DV_first v = dv_ptr v + 5"
definition A_DV_last :: "dvar \<Rightarrow> int" where "A_DV_last v = dv_ptr v + 6"
definition A_DV_minmax_cs :: "dvar \<Rightarrow> int" where "A_DV_minmax_cs v = dv_ptr v + 7"
definition A_DV_dom_cs :: "dvar \<Rightarrow> int" where "A_DV_dom_cs v = dv_ptr v + 8"
definition A_DV_outer_dom_cs :: "dvar \<Rightarrow> int" where "A_DV_outer_dom_cs v = dv_ptr v + 9"

definition IS_IT_DOMAIN :: "dvar \<Rightarrow> bool" where "IS_IT_DOMAIN v \<longleftrightarrow> DV_type v = IT_DOMAIN"
definition IS_UN_DOMAIN :: "dvar \<Rightarrow> bool" where "IS_UN_DOMAIN v \<longleftrightarrow> DV_type v = UN_DOMAIN"
definition IS_BV_DOMAIN :: "dvar \<Rightarrow> bool" where
  "IS_BV_DOMAIN v \<longleftrightarrow> DV_type v \<noteq> IT_DOMAIN \<and> DV_type v \<noteq> UN_DOMAIN"

text \<open>Following the bit-vector pointer of a variable that has none is a wild read.\<close>

definition DV_bit_vector_ptr :: "dvar \<Rightarrow> bit_vector fd" where
  "DV_bit_vector_ptr v = (case DV_type v of BV_DOMAIN bv \<Rightarrow> Inr bv | _ \<Rightarrow> Inl BV_OUT_OF_BOUNDS)"

section \<open>The machine\<close>

datatype trail_tag = TRAIL_VAR | TRAIL_VAL_ATOMIC | TRAIL_VAL_NONATOMIC | TRAIL_BIT_VECTOR

datatype cell = Var_cell "int option" | Type_cell dom_type | Num_cell int | Word_cell bpulong

record machine =
  heap_top :: int
  local_top :: int
  hbreg :: int
  trail :: "(trail_tag \<times> int \<times> cell) list"      \<comment> \<open>the newest entry first\<close>
  toam_signal_vec :: bpulong
  trigger_no :: nat
  triggeredCs :: "nat \<Rightarrow> int"
  event_flag :: "nat \<Rightarrow> nat"
  event_object :: "nat \<Rightarrow> int"
  triggering_frame :: "nat \<Rightarrow> int"

definition MAXTRIGGERS :: nat where "MAXTRIGGERS = 150000"
definition SMALL_MARGIN :: int where "SMALL_MARGIN = 1250"
definition LARGE_MARGIN :: int where "LARGE_MARGIN = 125000"
definition TRIGGER_ON :: bpulong where "TRIGGER_ON = 0x1"
definition EVENT_DVAR_INS :: nat where "EVENT_DVAR_INS = 1"
definition EVENT_DVAR_MINMAX :: nat where "EVENT_DVAR_MINMAX = 2"
definition EVENT_DVAR_DOM :: nat where "EVENT_DVAR_DOM = 4"
definition EVENT_DVAR_OUTER_DOM :: nat where "EVENT_DVAR_OUTER_DOM = 5"
definition NULL_FRAME :: int where "NULL_FRAME = 0"

section \<open>Raising events\<close>

text \<open>
  The body all \<open>INSERT_TRIGGER\<close> macros share; an array the macro does not write keeps its stale
  entry.
\<close>

definition insert_trigger :: "nat \<Rightarrow> int \<Rightarrow> int option \<Rightarrow> int option \<Rightarrow> machine \<Rightarrow> machine fd" where
  "insert_trigger flag cs elm fp m =
     (let n = trigger_no m + 1
      in if MAXTRIGGERS \<le> n then Inl EVENT_ARRAY_OVERRUN
         else Inr (m\<lparr>toam_signal_vec := toam_signal_vec m OR TRIGGER_ON,
                trigger_no := n,
                triggeredCs := (triggeredCs m)(n := cs),
                event_flag := (event_flag m)(n := flag),
                event_object := (case elm of None \<Rightarrow> event_object m | Some e \<Rightarrow> (event_object m)(n := e)),
                triggering_frame := (case fp of None \<Rightarrow> triggering_frame m | Some f \<Rightarrow> (triggering_frame m)(n := f))\<rparr>))"

definition INSERT_TRIGGER_dvar_ins :: "dvar \<Rightarrow> machine \<Rightarrow> machine fd" where
  "INSERT_TRIGGER_dvar_ins v m =
     (if DV_ins_cs v \<noteq> nil_sym
      then if trigger_no m \<ge> MAXTRIGGERS then Inl EVENT_QUEUE_OVERFLOWED
           else insert_trigger EVENT_DVAR_INS (A_DV_ins_cs v) None (Some NULL_FRAME) m
      else Inr m)"

definition INSERT_TRIGGER_minmax :: "dvar \<Rightarrow> machine \<Rightarrow> machine fd" where
  "INSERT_TRIGGER_minmax v m =
     (if DV_minmax_cs v \<noteq> nil_sym
      then if trigger_no m \<ge> MAXTRIGGERS then Inl EVENT_QUEUE_OVERFLOWED
           else insert_trigger EVENT_DVAR_MINMAX (A_DV_minmax_cs v) None (Some NULL_FRAME) m
      else Inr m)"

definition INSERT_TRIGGER_minmax_checkseed :: "dvar \<Rightarrow> int \<Rightarrow> machine \<Rightarrow> machine fd" where
  "INSERT_TRIGGER_minmax_checkseed v fp m =
     (if DV_minmax_cs v \<noteq> nil_sym
      then if trigger_no m \<ge> MAXTRIGGERS then Inl EVENT_QUEUE_OVERFLOWED
           else insert_trigger EVENT_DVAR_MINMAX (A_DV_minmax_cs v) None (Some fp) m
      else Inr m)"

definition INSERT_TRIGGER_dom :: "dvar \<Rightarrow> int \<Rightarrow> machine \<Rightarrow> machine fd" where
  "INSERT_TRIGGER_dom v elm m =
     (if DV_dom_cs v \<noteq> nil_sym
      then if trigger_no m \<ge> MAXTRIGGERS then Inr m
           else insert_trigger EVENT_DVAR_DOM (A_DV_dom_cs v) (Some elm) None m
      else Inr m)"

definition INSERT_TRIGGER_outer_dom0 :: "dvar \<Rightarrow> int \<Rightarrow> machine \<Rightarrow> machine fd" where
  "INSERT_TRIGGER_outer_dom0 v elm m =
     (if trigger_no m \<ge> MAXTRIGGERS then Inr m
      else insert_trigger EVENT_DVAR_OUTER_DOM (A_DV_outer_dom_cs v) (Some elm) None m)"

definition INSERT_TRIGGER_outer_dom :: "dvar \<Rightarrow> int \<Rightarrow> machine \<Rightarrow> machine fd" where
  "INSERT_TRIGGER_outer_dom v elm m =
     (if DV_outer_dom_cs v \<noteq> nil_sym then INSERT_TRIGGER_outer_dom0 v elm m else Inr m)"

section \<open>Trailed updates\<close>

definition PUSHTRAILC :: "trail_tag \<Rightarrow> int \<Rightarrow> cell \<Rightarrow> machine \<Rightarrow> machine" where
  "PUSHTRAILC tag a old m = m\<lparr>trail := (tag, a, old) # trail m\<rparr>"

definition PUSHTRAIL_H :: "trail_tag \<Rightarrow> int \<Rightarrow> cell \<Rightarrow> machine \<Rightarrow> machine" where
  "PUSHTRAIL_H tag a old m = (if a < hbreg m then PUSHTRAILC tag a old m else m)"

type_synonym 'a dv_op = "('a \<times> dvar \<times> machine) fd"

definition ASSIGN_DVAR :: "dvar \<Rightarrow> int \<Rightarrow> machine \<Rightarrow> (dvar \<times> machine) fd" where
  "ASSIGN_DVAR v val m =
     (let m = PUSHTRAIL_H TRAIL_VAL_NONATOMIC (dv_ptr v) (Var_cell (DV_var v)) m;
          v = v\<lparr>DV_var := Some val\<rparr>
      in fd_bind (INSERT_TRIGGER_dvar_ins v m) (\<lambda>m. Inr (v, m)))"

definition UPDATE_FIRST_LAST_SIZE ::
  "dvar \<Rightarrow> int \<Rightarrow> int \<Rightarrow> int \<Rightarrow> int \<Rightarrow> int \<Rightarrow> machine \<Rightarrow> (dvar \<times> machine) fd" where
  "UPDATE_FIRST_LAST_SIZE v old_first new_first old_last new_last new_size m =
     (let m = (if dv_ptr v < hbreg m
               then PUSHTRAILC TRAIL_VAL_ATOMIC (A_DV_size v) (Num_cell (DV_size v))
                      (PUSHTRAILC TRAIL_VAL_ATOMIC (A_DV_last v) (Num_cell old_last)
                        (PUSHTRAILC TRAIL_VAL_ATOMIC (A_DV_first v) (Num_cell old_first) m))
               else m);
          v = v\<lparr>DV_size := new_size, DV_first := new_first, DV_last := new_last\<rparr>
      in fd_bind (INSERT_TRIGGER_minmax v m) (\<lambda>m. Inr (v, m)))"

definition UPDATE_FIRST_SIZE :: "dvar \<Rightarrow> int \<Rightarrow> int \<Rightarrow> int \<Rightarrow> machine \<Rightarrow> (dvar \<times> machine) fd" where
  "UPDATE_FIRST_SIZE v old_first new_first new_size m =
     (let m = (if dv_ptr v < hbreg m
               then PUSHTRAILC TRAIL_VAL_ATOMIC (A_DV_size v) (Num_cell (DV_size v))
                      (PUSHTRAILC TRAIL_VAL_ATOMIC (A_DV_first v) (Num_cell old_first) m)
               else m);
          v = v\<lparr>DV_size := new_size, DV_first := new_first\<rparr>
      in fd_bind (INSERT_TRIGGER_minmax v m) (\<lambda>m. Inr (v, m)))"

definition UPDATE_LAST_SIZE :: "dvar \<Rightarrow> int \<Rightarrow> int \<Rightarrow> int \<Rightarrow> machine \<Rightarrow> (dvar \<times> machine) fd" where
  "UPDATE_LAST_SIZE v old_last new_last new_size m =
     (let m = (if dv_ptr v < hbreg m
               then PUSHTRAILC TRAIL_VAL_ATOMIC (A_DV_size v) (Num_cell (DV_size v))
                      (PUSHTRAILC TRAIL_VAL_ATOMIC (A_DV_last v) (Num_cell old_last) m)
               else m);
          v = v\<lparr>DV_size := new_size, DV_last := new_last\<rparr>
      in fd_bind (INSERT_TRIGGER_minmax v m) (\<lambda>m. Inr (v, m)))"

definition UPDATE_SIZE :: "dvar \<Rightarrow> int \<Rightarrow> int \<Rightarrow> machine \<Rightarrow> dvar \<times> machine" where
  "UPDATE_SIZE v old_size new_size m =
     (let m = (if dv_ptr v < hbreg m
               then PUSHTRAILC TRAIL_VAL_ATOMIC (A_DV_size v) (Num_cell old_size) m else m)
      in (v\<lparr>DV_size := new_size\<rparr>, m))"

section \<open>Undoing\<close>

text \<open>
  \<open>POPTRAIL\<close> writes the old value back at the trailed address. On the cells of one variable and
  the words of its vector; entries of other blocks leave it alone.
\<close>

definition POPTRAIL :: "trail_tag \<times> int \<times> cell \<Rightarrow> dvar \<Rightarrow> dvar" where
  "POPTRAIL entry v = (case entry of (tag, a, old) \<Rightarrow>
     (case old of
        Var_cell x \<Rightarrow> if a = dv_ptr v then v\<lparr>DV_var := x\<rparr> else v
      | Type_cell t \<Rightarrow> if a = A_DV_type v then v\<lparr>DV_type := t\<rparr> else v
      | Num_cell n \<Rightarrow> if a = A_DV_size v then v\<lparr>DV_size := n\<rparr>
                      else if a = A_DV_first v then v\<lparr>DV_first := n\<rparr>
                      else if a = A_DV_last v then v\<lparr>DV_last := n\<rparr> else v
      | Word_cell w \<Rightarrow> (case DV_type v of
            BV_DOMAIN bv \<Rightarrow>
              (let i = a - (bv_addr bv + 2)
               in if 0 \<le> i \<and> i < int (length (bv_words bv))
                  then v\<lparr>DV_type := BV_DOMAIN (bv\<lparr>bv_words := (bv_words bv)[nat i := w]\<rparr>)\<rparr> else v)
          | _ \<Rightarrow> v)))"

definition UNDO_TRAILING :: "(trail_tag \<times> int \<times> cell) list \<Rightarrow> dvar \<Rightarrow> dvar" where
  "UNDO_TRAILING entries v = fold POPTRAIL entries v"

end
