(* ===== verification/Domain.thy ===== *)
theory Domain
  imports Trigger
begin

text \<open>
  Domains of integer variables, \<open>emu/domain.c\<close> with the region macros of \<open>emu/clpfd.h\<close> and
  \<open>domain_region_*\<close> of \<open>emu/clpfd_libs.c\<close>. Every operation takes and returns the variable and
  the machine; a return code \<open>BP_TRUE\<close> or \<open>BP_FALSE\<close> is a boolean, and \<open>quit\<close> or an access the
  C language leaves undefined is an error value. A counted loop is a fold over the list of its
  counter's values.
\<close>

fun fd_fold :: "('x \<Rightarrow> 's \<Rightarrow> 's fd) \<Rightarrow> 'x list \<Rightarrow> 's \<Rightarrow> 's fd" where
  "fd_fold f [] s = Inr s"
| "fd_fold f (x # xs) s = fd_bind (f x s) (fd_fold f xs)"

section \<open>Reading a domain\<close>

definition dv_next_bv :: "dvar \<Rightarrow> int \<Rightarrow> int fd" where
  "dv_next_bv v elm = fd_bind (DV_bit_vector_ptr v) (\<lambda>bv. domain_next_bv bv elm)"

definition dv_prev_bv :: "dvar \<Rightarrow> int \<Rightarrow> int fd" where
  "dv_prev_bv v elm = fd_bind (DV_bit_vector_ptr v) (\<lambda>bv. domain_prev_bv bv elm)"

definition dm_true :: "dvar \<Rightarrow> int \<Rightarrow> bool fd" where
  "dm_true v elm =
     (if elm \<le> DV_first v then Inr (elm = DV_first v)
      else if elm \<ge> DV_last v then Inr (elm = DV_last v)
      else if IS_IT_DOMAIN v then Inr True
      else fd_bind (DV_bit_vector_ptr v) (\<lambda>bv. dm_true_bv_nbt bv elm))"

definition dm_true_bv :: "dvar \<Rightarrow> int \<Rightarrow> bool fd" where
  "dm_true_bv v elm =
     (if elm \<le> DV_first v then Inr (elm = DV_first v)
      else if elm \<ge> DV_last v then Inr (elm = DV_last v)
      else fd_bind (DV_bit_vector_ptr v) (\<lambda>bv. dm_true_bv_nbt bv elm))"

text \<open>One step of the scan the counting loops share: the mask moves left and into the next word.\<close>

definition next_mask :: "bit_vector \<Rightarrow> bpulong \<Rightarrow> nat \<Rightarrow> bpulong \<Rightarrow> (bpulong \<times> nat \<times> bpulong) fd" where
  "next_mask bv w w_ptr msk =
     (let msk = push_bit 1 msk
      in if msk = 0 then fd_bind (word_at bv (w_ptr + 1)) (\<lambda>w. Inr (w, w_ptr + 1, 1))
         else Inr (w, w_ptr, msk))"

definition count_domain_elms :: "dvar \<Rightarrow> int \<Rightarrow> int \<Rightarrow> int fd" where
  "count_domain_elms v from to =
     fd_bind (DV_bit_vector_ptr v) (\<lambda>bv.
     fd_bind (WORD_OFFSET bv from) (\<lambda>(w, w_ptr, offset).
     fd_bind (fd_fold (\<lambda>from (count, w, w_ptr, msk).
         let count = (if w AND msk \<noteq> 0 then count + 1 else count)
         in fd_bind (next_mask bv w w_ptr msk) (\<lambda>wpm. Inr (count, wpm)))
       [from..to] (0, w, w_ptr, push_bit offset 1)) (\<lambda>(count, wpm).
     Inr count)))"

definition exclude_domain_elms :: "dvar \<Rightarrow> int \<Rightarrow> int \<Rightarrow> machine \<Rightarrow> (int \<times> machine) fd" where
  "exclude_domain_elms v from to m =
     fd_bind (DV_bit_vector_ptr v) (\<lambda>bv.
     fd_bind (WORD_OFFSET bv from) (\<lambda>(w, w_ptr, offset).
     fd_bind (fd_fold (\<lambda>from ((count, m), w, w_ptr, msk).
         fd_bind (if w AND msk \<noteq> 0
                  then fd_bind (INSERT_TRIGGER_outer_dom0 v from m) (\<lambda>m. Inr (count + 1, m))
                  else Inr (count, m)) (\<lambda>cm.
         fd_bind (next_mask bv w w_ptr msk) (\<lambda>wpm. Inr (cm, wpm))))
       [from..to] ((0, m), w, w_ptr, push_bit offset 1)) (\<lambda>(cm, wpm).
     Inr cm)))"

definition CALL_COUNT_DOMAIN_ELMS :: "dvar \<Rightarrow> int \<Rightarrow> int \<Rightarrow> int fd" where
  "CALL_COUNT_DOMAIN_ELMS v from to = (if from > to then Inr 0 else count_domain_elms v from to)"

definition CALL_EXCLUDE_DOMAIN_ELMS :: "dvar \<Rightarrow> int \<Rightarrow> int \<Rightarrow> machine \<Rightarrow> (int \<times> machine) fd" where
  "CALL_EXCLUDE_DOMAIN_ELMS v from to m = (if from > to then Inr (0, m) else exclude_domain_elms v from to m)"

section \<open>From an interval to a bit vector\<close>

definition it_to_bv :: "dvar \<Rightarrow> machine \<Rightarrow> (dvar \<times> machine) fd" where
  "it_to_bv v m =
     (let m = PUSHTRAIL_H TRAIL_BIT_VECTOR (A_DV_type v) (Type_cell (DV_type v)) m;
          bv = full_bv (heap_top m) (DV_first v) (DV_last v);
          size = WORD_NUMBER (DV_last v) - WORD_NUMBER (DV_first v) + 1;
          m = m\<lparr>heap_top := heap_top m + 2\<rparr>
      in if local_top m - heap_top m - size \<le> SMALL_MARGIN then Inl HEAP_OVERFLOW
         else Inr (v\<lparr>DV_type := BV_DOMAIN bv\<rparr>, m\<lparr>heap_top := heap_top m + size\<rparr>))"

definition it_to_bv_with_hole :: "dvar \<Rightarrow> int \<Rightarrow> machine \<Rightarrow> (dvar \<times> machine) fd" where
  "it_to_bv_with_hole v elm m =
     (let m = PUSHTRAIL_H TRAIL_BIT_VECTOR (A_DV_type v) (Type_cell (DV_type v)) m;
          bv = full_bv (heap_top m) (DV_first v) (DV_last v);
          size = WORD_NUMBER (DV_last v) - WORD_NUMBER (DV_first v) + 1;
          m = m\<lparr>heap_top := heap_top m + 2\<rparr>
      in if local_top m - heap_top m - size \<le> SMALL_MARGIN then Inl HEAP_OVERFLOW
         else fd_bind (WORD_OFFSET bv elm) (\<lambda>(w, w_ptr, offset).
           let m = m\<lparr>heap_top := heap_top m + size\<rparr>;
               bv = bv\<lparr>bv_words := (bv_words bv)[w_ptr := NOT (push_bit offset 1)]\<rparr>;
               v = v\<lparr>DV_type := BV_DOMAIN bv\<rparr>
           in fd_bind (INSERT_TRIGGER_dom v elm m) (\<lambda>m.
              Inr (UPDATE_SIZE v (DV_size v) (DV_size v - 1) m))))"

definition it_to_bv_with_interval_holes :: "dvar \<Rightarrow> int \<Rightarrow> int \<Rightarrow> machine \<Rightarrow> (dvar \<times> machine) fd" where
  "it_to_bv_with_interval_holes v interval_start interval_end m =
     (let m = PUSHTRAIL_H TRAIL_BIT_VECTOR (A_DV_type v) (Type_cell (DV_type v)) m;
          bv = full_bv (heap_top m) (DV_first v) (DV_last v);
          size = WORD_NUMBER (DV_last v) - WORD_NUMBER (DV_first v) + 1;
          m = m\<lparr>heap_top := heap_top m + 2\<rparr>
      in if local_top m - heap_top m - size \<le> LARGE_MARGIN then Inl HEAP_OVERFLOW
         else fd_bind (WORD_OFFSET bv interval_start) (\<lambda>(w, w_ptr, offset).
           let m = m\<lparr>heap_top := heap_top m + size\<rparr>
           in fd_bind (fd_fold (\<lambda>i (bv, w, w_ptr, offset, m).
                let w = w AND NOT (push_bit offset 1)
                in fd_bind (INSERT_TRIGGER_dom v i m) (\<lambda>m.
                   let offset = offset + 1
                   in if offset = 64
                      then let bv = bv\<lparr>bv_words := (bv_words bv)[w_ptr := w]\<rparr>
                           in fd_bind (word_at bv (w_ptr + 1)) (\<lambda>w. Inr (bv, w, w_ptr + 1, 0, m))
                      else Inr (bv, w, w_ptr, offset, m)))
                [interval_start..interval_end] (bv, w, w_ptr, offset, m)) (\<lambda>(bv, w, w_ptr, offset, m).
              let bv = bv\<lparr>bv_words := (bv_words bv)[w_ptr := w]\<rparr>;
                  v = v\<lparr>DV_type := BV_DOMAIN bv\<rparr>
              in Inr (UPDATE_SIZE v (DV_size v) (DV_size v - (interval_end - interval_start + 1)) m))))"

section \<open>Excluding an element\<close>

definition exclude_inner_elm_bv :: "dvar \<Rightarrow> int \<Rightarrow> machine \<Rightarrow> (dvar \<times> machine) fd" where
  "exclude_inner_elm_bv v elm m =
     fd_bind (DV_bit_vector_ptr v) (\<lambda>bv.
     fd_bind (WORD_OFFSET bv elm) (\<lambda>(w, w_ptr, offset).
       let msk = push_bit offset 1;
           w1 = w AND NOT msk
       in if w = w1 then Inr (v, m)
          else let m = PUSHTRAIL_H TRAIL_VAL_ATOMIC (bv_addr bv + 2 + int w_ptr) (Word_cell w) m;
                   bv = bv\<lparr>bv_words := (bv_words bv)[w_ptr := w1]\<rparr>;
                   v = v\<lparr>DV_type := BV_DOMAIN bv\<rparr>
               in fd_bind (INSERT_TRIGGER_dom v elm m) (\<lambda>m.
                  Inr (UPDATE_SIZE v (DV_size v) (DV_size v - 1) m))))"

definition domain_set_false_noint :: "dvar \<Rightarrow> int \<Rightarrow> machine \<Rightarrow> (dvar \<times> machine) fd" where
  "domain_set_false_noint v elm m =
     (if elm > DV_first v \<and> elm < DV_last v
      then if IS_IT_DOMAIN v then it_to_bv_with_hole v elm m else exclude_inner_elm_bv v elm m
      else if elm = DV_first v
      then if DV_size v = 2 then ASSIGN_DVAR v (DV_last v) m
           else fd_bind (INSERT_TRIGGER_outer_dom v elm m) (\<lambda>m.
                fd_bind (if IS_IT_DOMAIN v then Inr (elm + 1) else dv_next_bv v (elm + 1)) (\<lambda>elm.
                UPDATE_FIRST_SIZE v (DV_first v) elm (DV_size v - 1) m))
      else if elm = DV_last v
      then if DV_size v = 2 then ASSIGN_DVAR v (DV_first v) m
           else fd_bind (INSERT_TRIGGER_outer_dom v elm m) (\<lambda>m.
                fd_bind (if IS_IT_DOMAIN v then Inr (elm - 1) else dv_prev_bv v (elm - 1)) (\<lambda>elm.
                UPDATE_LAST_SIZE v (DV_last v) elm (DV_size v - 1) m))
      else Inr (v, m))"

definition domain_set_false_aux :: "dvar \<Rightarrow> int \<Rightarrow> machine \<Rightarrow> bool dv_op" where
  "domain_set_false_aux v elm m = (case DV_var v of
       Some i \<Rightarrow> Inr (i \<noteq> elm, v, m)
     | None \<Rightarrow> fd_bind (domain_set_false_noint v elm m) (\<lambda>vm. Inr (True, vm)))"

text \<open>As \<open>domain_set_false_aux\<close>, for a variable known to have a bit vector.\<close>

definition domain_set_false_bv :: "dvar \<Rightarrow> int \<Rightarrow> machine \<Rightarrow> bool dv_op" where
  "domain_set_false_bv v elm m = (case DV_var v of
       Some i \<Rightarrow> Inr (i \<noteq> elm, v, m)
     | None \<Rightarrow> fd_bind (if elm > DV_first v \<and> elm < DV_last v then exclude_inner_elm_bv v elm m
                        else domain_set_false_noint v elm m) (\<lambda>vm. Inr (True, vm)))"

definition domain_exclude_first_bv :: "dvar \<Rightarrow> machine \<Rightarrow> (dvar \<times> machine) fd" where
  "domain_exclude_first_bv v m =
     (if DV_size v = 2 then ASSIGN_DVAR v (DV_last v) m
      else fd_bind (INSERT_TRIGGER_outer_dom v (DV_first v) m) (\<lambda>m.
           fd_bind (dv_next_bv v (DV_first v + 1)) (\<lambda>elm.
           UPDATE_FIRST_SIZE v (DV_first v) elm (DV_size v - 1) m)))"

definition domain_exclude_last_bv :: "dvar \<Rightarrow> machine \<Rightarrow> (dvar \<times> machine) fd" where
  "domain_exclude_last_bv v m =
     (if DV_size v = 2 then ASSIGN_DVAR v (DV_first v) m
      else fd_bind (INSERT_TRIGGER_outer_dom v (DV_last v) m) (\<lambda>m.
           fd_bind (dv_prev_bv v (DV_last v - 1)) (\<lambda>elm.
           UPDATE_LAST_SIZE v (DV_last v) elm (DV_size v - 1) m)))"

section \<open>Restricting to a region\<close>

text \<open>
  The macros exist twice: without a seed they post \<open>INSERT_TRIGGER_minmax\<close>, with one
  \<open>INSERT_TRIGGER_minmax_checkseed\<close> on the frame of the running propagator. \<open>first\<close> and \<open>last\<close>
  are the local copies \<open>dv_ptr_first\<close> and \<open>dv_ptr_last\<close> the macros read and leave updated. The
  events of the removed elements are posted by loops on an \<open>int\<close>: 32 bits, signed.
\<close>

definition int32 :: "int \<Rightarrow> int" where "int32 x = signed_take_bit 31 x"

definition INT_MAX :: int where "INT_MAX = 2 ^ 31 - 1"

definition post_outer_range :: "dvar \<Rightarrow> int \<Rightarrow> int \<Rightarrow> machine \<Rightarrow> machine fd" where
  "post_outer_range v lo hi m =
     (let k = int32 lo
      in fd_bind (fd_fold (INSERT_TRIGGER_outer_dom0 v) [k..min hi INT_MAX] m) (\<lambda>m.
         if k \<le> hi \<and> INT_MAX \<le> hi then Inl COUNTER_OVERFLOW else Inr m))"

definition post_bound :: "int option \<Rightarrow> dvar \<Rightarrow> machine \<Rightarrow> machine fd" where
  "post_bound seed v m = (case seed of None \<Rightarrow> INSERT_TRIGGER_minmax v m
     | Some fp \<Rightarrow> INSERT_TRIGGER_minmax_checkseed v fp m)"

type_synonym region = "(bool \<times> dvar \<times> int \<times> int \<times> machine) fd"

definition CALL_DOMAIN_REGION_MIN_MAX ::
  "int option \<Rightarrow> dvar \<Rightarrow> int \<Rightarrow> int \<Rightarrow> int \<Rightarrow> int \<Rightarrow> machine \<Rightarrow> region" where
  "CALL_DOMAIN_REGION_MIN_MAX seed v frst lst mn mx m =
     (if mn = mx
      then fd_bind (if IS_BV_DOMAIN v then dm_true v mn else Inr True) (\<lambda>ok.
           if \<not> ok then Inr (False, v, frst, lst, m)
           else fd_bind (ASSIGN_DVAR v mn m) (\<lambda>(v, m). Inr (True, v, mn, mx, m)))
      else if IS_IT_DOMAIN v
      then fd_bind (if DV_outer_dom_cs v \<noteq> nil_sym
                    then fd_bind (post_outer_range v frst (mn - 1) m) (post_outer_range v (mx + 1) lst)
                    else Inr m) (\<lambda>m.
           fd_bind (UPDATE_FIRST_LAST_SIZE v frst mn lst mx (mx - mn + 1) m) (\<lambda>(v, m).
           fd_bind (post_bound seed v m) (\<lambda>m. Inr (True, v, mn, mx, m))))
      else fd_bind
        (if DV_outer_dom_cs v \<noteq> nil_sym
         then fd_bind (CALL_EXCLUDE_DOMAIN_ELMS v (frst + 1) (mn - 1) m) (\<lambda>(n1, m).
              fd_bind (CALL_EXCLUDE_DOMAIN_ELMS v (mx + 1) (lst - 1) m) (\<lambda>(n2, m).
              let sz = DV_size v - (n1 + n2) - 2
              in if sz > 1
                 then fd_bind (INSERT_TRIGGER_outer_dom0 v frst m) (\<lambda>m.
                      fd_bind (INSERT_TRIGGER_outer_dom0 v lst m) (\<lambda>m. Inr (sz, m)))
                 else Inr (sz, m)))
         else fd_bind (CALL_COUNT_DOMAIN_ELMS v (frst + 1) (mn - 1)) (\<lambda>n1.
              fd_bind (CALL_COUNT_DOMAIN_ELMS v (mx + 1) (lst - 1)) (\<lambda>n2.
              Inr (DV_size v - (n1 + n2) - 2, m)))) (\<lambda>(sz, m).
        if sz = 0 then Inr (False, v, frst, lst, m)
        else fd_bind (dv_next_bv v mn) (\<lambda>mn.
          if sz = 1 then fd_bind (ASSIGN_DVAR v mn m) (\<lambda>(v, m). Inr (True, v, mn, mn, m))
          else fd_bind (dv_prev_bv v mx) (\<lambda>mx.
               fd_bind (UPDATE_FIRST_LAST_SIZE v frst mn lst mx sz m) (\<lambda>(v, m).
               fd_bind (post_bound seed v m) (\<lambda>m. Inr (True, v, mn, mx, m)))))))"

definition CALL_DOMAIN_REGION_MIN ::
  "int option \<Rightarrow> dvar \<Rightarrow> int \<Rightarrow> int \<Rightarrow> int \<Rightarrow> machine \<Rightarrow> region" where
  "CALL_DOMAIN_REGION_MIN seed v frst lst mn m =
     (if mn \<ge> lst
      then if mn > lst then Inr (False, v, frst, lst, m)
           else fd_bind (ASSIGN_DVAR v mn m) (\<lambda>(v, m). Inr (True, v, mn, lst, m))
      else if IS_IT_DOMAIN v
      then fd_bind (if DV_outer_dom_cs v \<noteq> nil_sym then post_outer_range v frst (mn - 1) m else Inr m) (\<lambda>m.
           fd_bind (UPDATE_FIRST_SIZE v frst mn (lst - mn + 1) m) (\<lambda>(v, m).
           fd_bind (post_bound seed v m) (\<lambda>m. Inr (True, v, mn, lst, m))))
      else fd_bind
        (if DV_outer_dom_cs v \<noteq> nil_sym
         then fd_bind (CALL_EXCLUDE_DOMAIN_ELMS v (frst + 1) (mn - 1) m) (\<lambda>(n, m).
              let sz = DV_size v - n - 1
              in if sz > 1 then fd_bind (INSERT_TRIGGER_outer_dom0 v frst m) (\<lambda>m. Inr (sz, m))
                 else Inr (sz, m))
         else fd_bind (CALL_COUNT_DOMAIN_ELMS v (frst + 1) (mn - 1)) (\<lambda>n. Inr (DV_size v - n - 1, m)))
        (\<lambda>(sz, m).
        if sz = 1 then fd_bind (ASSIGN_DVAR v lst m) (\<lambda>(v, m). Inr (True, v, lst, lst, m))
        else fd_bind (dv_next_bv v mn) (\<lambda>mn.
             fd_bind (UPDATE_FIRST_SIZE v frst mn sz m) (\<lambda>(v, m).
             fd_bind (post_bound seed v m) (\<lambda>m. Inr (True, v, mn, lst, m))))))"

definition CALL_DOMAIN_REGION_MAX ::
  "int option \<Rightarrow> dvar \<Rightarrow> int \<Rightarrow> int \<Rightarrow> int \<Rightarrow> machine \<Rightarrow> region" where
  "CALL_DOMAIN_REGION_MAX seed v frst lst mx m =
     (if mx \<le> frst
      then if mx < frst then Inr (False, v, frst, lst, m)
           else fd_bind (ASSIGN_DVAR v mx m) (\<lambda>(v, m). Inr (True, v, frst, mx, m))
      else if IS_IT_DOMAIN v
      then fd_bind (if DV_outer_dom_cs v \<noteq> nil_sym then post_outer_range v (mx + 1) lst m else Inr m) (\<lambda>m.
           fd_bind (UPDATE_LAST_SIZE v lst mx (mx - frst + 1) m) (\<lambda>(v, m).
           fd_bind (post_bound seed v m) (\<lambda>m. Inr (True, v, frst, mx, m))))
      else fd_bind
        (if DV_outer_dom_cs v \<noteq> nil_sym
         then fd_bind (CALL_EXCLUDE_DOMAIN_ELMS v (mx + 1) (lst - 1) m) (\<lambda>(n, m).
              let sz = DV_size v - n - 1
              in if sz > 1 then fd_bind (INSERT_TRIGGER_outer_dom0 v lst m) (\<lambda>m. Inr (sz, m))
                 else Inr (sz, m))
         else fd_bind (CALL_COUNT_DOMAIN_ELMS v (mx + 1) (lst - 1)) (\<lambda>n. Inr (DV_size v - n - 1, m)))
        (\<lambda>(sz, m).
        if sz = 1 then fd_bind (ASSIGN_DVAR v frst m) (\<lambda>(v, m). Inr (True, v, frst, frst, m))
        else fd_bind (dv_prev_bv v mx) (\<lambda>mx.
             fd_bind (UPDATE_LAST_SIZE v lst mx sz m) (\<lambda>(v, m).
             fd_bind (post_bound seed v m) (\<lambda>m. Inr (True, v, frst, mx, m))))))"

definition CALL_DOMAIN_REGION ::
  "int option \<Rightarrow> dvar \<Rightarrow> int \<Rightarrow> int \<Rightarrow> int \<Rightarrow> int \<Rightarrow> machine \<Rightarrow> region" where
  "CALL_DOMAIN_REGION seed v frst lst mn mx m =
     (if mn > mx then Inr (False, v, frst, lst, m)
      else if mn > frst
      then if mx < lst then CALL_DOMAIN_REGION_MIN_MAX seed v frst lst mn mx m
           else CALL_DOMAIN_REGION_MIN seed v frst lst mn m
      else if mx < lst then CALL_DOMAIN_REGION_MAX seed v frst lst mx m
      else Inr (True, v, frst, lst, m))"

definition domain_region_noint :: "dvar \<Rightarrow> int \<Rightarrow> int \<Rightarrow> machine \<Rightarrow> bool dv_op" where
  "domain_region_noint v from to m =
     fd_bind (CALL_DOMAIN_REGION None v (DV_first v) (DV_last v) from to m)
       (\<lambda>(b, v, frst, lst, m). Inr (b, v, m))"

definition domain_region_aux :: "dvar \<Rightarrow> int \<Rightarrow> int \<Rightarrow> machine \<Rightarrow> bool dv_op" where
  "domain_region_aux v from to m = (case DV_var v of
       Some val \<Rightarrow> Inr (\<not> (val < from \<or> val > to), v, m)
     | None \<Rightarrow> domain_region_noint v from to m)"

section \<open>Excluding an interval\<close>

definition exclude_inner_interval_bv :: "dvar \<Rightarrow> int \<Rightarrow> int \<Rightarrow> machine \<Rightarrow> (dvar \<times> machine) fd" where
  "exclude_inner_interval_bv v from to m =
     fd_bind (DV_bit_vector_ptr v) (\<lambda>bv.
     fd_bind (WORD_OFFSET bv from) (\<lambda>(w, w_ptr, offset).
     fd_bind (fd_fold (\<lambda>from (bv, w, w_ptr, offset, last_trailed, count, m).
         fd_bind
           (if w AND push_bit offset 1 \<noteq> 0
            then let (last_trailed, m) =
                       (if last_trailed \<noteq> Some w_ptr
                        then (Some w_ptr, PUSHTRAIL_H TRAIL_VAL_ATOMIC (bv_addr bv + 2 + int w_ptr) (Word_cell w) m)
                        else (last_trailed, m));
                     w = w AND NOT (push_bit offset 1);
                     bv = bv\<lparr>bv_words := (bv_words bv)[w_ptr := w]\<rparr>
                 in fd_bind (INSERT_TRIGGER_dom v from m) (\<lambda>m. Inr (bv, w, last_trailed, count - 1, m))
            else Inr (bv, w, last_trailed, count, m)) (\<lambda>(bv, w, last_trailed, count, m).
         if offset + 1 = 64
         then fd_bind (word_at bv (w_ptr + 1)) (\<lambda>w. Inr (bv, w, w_ptr + 1, 0, last_trailed, count, m))
         else Inr (bv, w, w_ptr, offset + 1, last_trailed, count, m)))
       [from..to] (bv, w, w_ptr, offset, None, DV_size v, m))
       (\<lambda>(bv, w, w_ptr, offset, last_trailed, count, m).
       let v = v\<lparr>DV_type := BV_DOMAIN bv\<rparr>
       in Inr (if last_trailed \<noteq> None then UPDATE_SIZE v (DV_size v) count m else (v, m)))))"

definition domain_exclude_interval_noint :: "dvar \<Rightarrow> int \<Rightarrow> int \<Rightarrow> machine \<Rightarrow> bool dv_op" where
  "domain_exclude_interval_noint v from to m =
     (if from \<le> DV_first v then domain_region_noint v (to + 1) (DV_last v) m
      else if to \<ge> DV_last v then domain_region_noint v (DV_first v) (from - 1) m
      else fd_bind (if IS_IT_DOMAIN v then it_to_bv_with_interval_holes v from to m
                    else exclude_inner_interval_bv v from to m) (\<lambda>vm. Inr (True, vm)))"

definition domain_exclude_interval_aux :: "dvar \<Rightarrow> int \<Rightarrow> int \<Rightarrow> machine \<Rightarrow> bool dv_op" where
  "domain_exclude_interval_aux v from to m = (case DV_var v of
       Some val \<Rightarrow> Inr (\<not> (val \<ge> from \<and> val \<le> to), v, m)
     | None \<Rightarrow> domain_exclude_interval_noint v from to m)"

end
