(* ===== verification/Domain_Sets.thy ===== *)
theory Domain_Sets
  imports Domain
begin

text \<open>
  The set of values a domain variable stands for, its invariant, and what the primitives of
  \<open>Domain\<close> do to that set. \<open>fd_safe r Q\<close> says that \<open>r\<close> is a result satisfying \<open>Q\<close> or one of the
  errors of a full resource; it excludes a read outside of a bit vector and a scan that finds
  nothing.
\<close>

definition resource :: "fd_error \<Rightarrow> bool" where
  "resource e \<longleftrightarrow> e \<in> {EVENT_QUEUE_OVERFLOWED, EVENT_ARRAY_OVERRUN, HEAP_OVERFLOW, COUNTER_OVERFLOW}"

lemma resource_simps [simp]:
  "resource EVENT_QUEUE_OVERFLOWED" "resource EVENT_ARRAY_OVERRUN" "resource HEAP_OVERFLOW" "resource COUNTER_OVERFLOW"
  "\<not> resource BV_OUT_OF_BOUNDS" "\<not> resource BV_SCAN_DIVERGES"
  by (simp_all add: resource_def)

definition fd_safe :: "'a fd \<Rightarrow> ('a \<Rightarrow> bool) \<Rightarrow> bool" where
  "fd_safe r Q \<longleftrightarrow> (case r of Inl e \<Rightarrow> resource e | Inr x \<Rightarrow> Q x)"

named_theorems safe_intros "rules that reduce safety of an operation to safety of its parts"

lemma fd_safe_simps [simp]: "fd_safe (Inr x) Q \<longleftrightarrow> Q x" "fd_safe (Inl e) Q \<longleftrightarrow> resource e"
  by (simp_all add: fd_safe_def)

lemma fd_safe_bind [safe_intros]:
  "fd_safe r P \<Longrightarrow> (\<And>x. P x \<Longrightarrow> fd_safe (f x) Q) \<Longrightarrow> fd_safe (fd_bind r f) Q"
  by (cases r) auto

lemma fd_safe_mono: "fd_safe r P \<Longrightarrow> (\<And>x. P x \<Longrightarrow> Q x) \<Longrightarrow> fd_safe r Q"
  by (cases r) auto

lemma fd_safe_if [safe_intros]:
  "(b \<Longrightarrow> fd_safe r Q) \<Longrightarrow> (\<not> b \<Longrightarrow> fd_safe s Q) \<Longrightarrow> fd_safe (if b then r else s) Q"
  by simp

lemma safe_state: "fd_safe r (\<lambda>(v', m'). v' = u) \<Longrightarrow> (\<And>m'. Q (u, m')) \<Longrightarrow> fd_safe r Q"
  by (cases r) auto

lemma fd_safeD: "fd_safe r Q \<Longrightarrow> r = Inr x \<Longrightarrow> Q x"
  by simp

lemma fd_fold_safe:
  assumes "P a s"
    and step: "\<And>i s. a \<le> i \<Longrightarrow> i \<le> b \<Longrightarrow> P i s \<Longrightarrow> fd_safe (f i s) (P (i + 1))"
    and "a \<le> b + 1"
  shows "fd_safe (fd_fold f [a..b] s) (P (b + 1))"
  using assms
proof (induction "nat (b + 1 - a)" arbitrary: a s)
  case 0
  then show ?case by simp
next
  case (Suc n)
  then have ab: "a \<le> b" and n: "n = nat (b + 1 - (a + 1))" by auto
  have "fd_safe (fd_fold f [a + 1..b] t) (P (b + 1))" if "P (a + 1) t" for t
    using Suc.hyps(1) [OF n that] Suc.prems(2) ab by simp
  moreover have "fd_safe (f a s) (P (a + 1))" using Suc.prems ab by simp
  ultimately show ?case by (simp add: upto_rec1 [OF ab] fd_safe_bind)
qed

section \<open>The set and the invariant\<close>

definition dom_type_set :: "dom_type \<Rightarrow> int set" where
  "dom_type_set t = (case t of BV_DOMAIN bv \<Rightarrow> {e. bv_member bv e} | _ \<Rightarrow> UNIV)"

definition dom_set :: "dvar \<Rightarrow> int set" where
  "dom_set v = (case DV_var v of Some i \<Rightarrow> {i} | None \<Rightarrow> {DV_first v..DV_last v} \<inter> dom_type_set (DV_type v))"

definition wf_dvar :: "dvar \<Rightarrow> bool" where
  "wf_dvar v \<longleftrightarrow> (DV_var v = None \<longrightarrow>
     DV_type v \<noteq> UN_DOMAIN \<and> DV_first v < DV_last v \<and> DV_first v \<in> dom_set v \<and> DV_last v \<in> dom_set v \<and>
     DV_size v = int (card (dom_set v)))"

lemma dom_set_simps [simp]:
  "DV_var v = Some i \<Longrightarrow> dom_set v = {i}"
  "DV_var v = None \<Longrightarrow> DV_type v = IT_DOMAIN \<Longrightarrow> dom_set v = {DV_first v..DV_last v}"
  "DV_var v = None \<Longrightarrow> DV_type v = BV_DOMAIN bv \<Longrightarrow> dom_set v = {e. DV_first v \<le> e \<and> e \<le> DV_last v \<and> bv_member bv e}"
  by (auto simp: dom_set_def dom_type_set_def)

lemma finite_dom_set [simp]: "finite (dom_set v)"
  by (simp add: dom_set_def split: option.split)

lemma wf_dvar_bound [simp]: "DV_var v = Some i \<Longrightarrow> wf_dvar v"
  by (simp add: wf_dvar_def)

lemma wf_dvarD:
  assumes "wf_dvar v" "DV_var v = None"
  shows "DV_first v < DV_last v" "DV_first v \<in> dom_set v" "DV_last v \<in> dom_set v" "DV_size v = int (card (dom_set v))"
    "DV_type v \<noteq> UN_DOMAIN" "dom_set v \<subseteq> {DV_first v..DV_last v}"
  using assms by (auto simp: wf_dvar_def dom_set_def)

lemma wf_dvar_cases:
  assumes "wf_dvar v" "DV_var v = None"
  obtains (interval) "DV_type v = IT_DOMAIN" "IS_IT_DOMAIN v" "\<not> IS_BV_DOMAIN v"
  | (vector) bv where "DV_type v = BV_DOMAIN bv" "\<not> IS_IT_DOMAIN v" "IS_BV_DOMAIN v" "DV_bit_vector_ptr v = Inr bv"
      "bv_member bv (DV_first v)" "bv_member bv (DV_last v)"
proof (cases "DV_type v")
  case UN_DOMAIN
  with assms show ?thesis by (simp add: wf_dvar_def)
next
  case IT_DOMAIN
  then show ?thesis by (intro interval) (simp_all add: IS_IT_DOMAIN_def IS_BV_DOMAIN_def)
next
  case (BV_DOMAIN bv)
  with wf_dvarD(2,3) [OF assms] assms(2) show ?thesis
    by (intro vector [of bv]) (simp_all add: IS_IT_DOMAIN_def IS_BV_DOMAIN_def DV_bit_vector_ptr_def)
qed

text \<open>Between two members a scan stays inside the block.\<close>

lemma bv_between:
  assumes "bv_member bv a" "bv_member bv b" "a \<le> x" "x \<le> b"
  shows "BV_low_val bv \<le> x" "x < BV_low_val bv + 64 * int (length (bv_words bv))"
  using bv_member_range [OF assms(1)] bv_member_range [OF assms(2)] assms(3,4) by simp_all

lemma dm_true_mem:
  assumes "wf_dvar v" "DV_var v = None"
  shows "dm_true v e = Inr (e \<in> dom_set v)"
  using assms
proof (cases rule: wf_dvar_cases)
  case interval
  with assms wf_dvarD(1) [OF assms] show ?thesis by (auto simp: dm_true_def)
next
  case (vector bv)
  have "dm_true_bv_nbt bv e = Inr (bv_member bv e)" if "DV_first v < e" "e < DV_last v"
    using that bv_between [OF vector(5,6), of e] by (intro dm_true_bv_nbt_ok) simp_all
  with vector assms wf_dvarD(1) [OF assms] show ?thesis by (auto simp: dm_true_def)
qed

lemma dv_next_mem:
  assumes "wf_dvar v" "DV_var v = None" "\<not> IS_IT_DOMAIN v" "DV_first v \<le> a" "a \<le> DV_last v"
  obtains e where "dv_next_bv v a = Inr e" "e \<in> dom_set v" "a \<le> e" "\<forall>x \<in> dom_set v. a \<le> x \<longrightarrow> e \<le> x"
proof -
  from assms(1,2) obtain bv where bv: "DV_type v = BV_DOMAIN bv" "DV_bit_vector_ptr v = Inr bv"
    "bv_member bv (DV_first v)" "bv_member bv (DV_last v)"
    by (cases rule: wf_dvar_cases) (use assms(3) in auto)
  obtain e where e: "domain_next_bv bv a = Inr e"
    using domain_next_bv_ok [OF bv(4) assms(5)] bv_between [OF bv(3,4) assms(4,5)] by blast
  note l = domain_next_bv_least [OF e]
  have least: "e \<le> x" if "bv_member bv x" "a \<le> x" for x using l that by (meson none_in_def not_le)
  from l least [OF bv(4) assms(5)] assms(4) bv assms(2) e show ?thesis
    by (intro that [of e]) (simp_all add: dv_next_bv_def least)
qed

lemma dv_prev_mem:
  assumes "wf_dvar v" "DV_var v = None" "\<not> IS_IT_DOMAIN v" "DV_first v \<le> a" "a \<le> DV_last v"
  obtains e where "dv_prev_bv v a = Inr e" "e \<in> dom_set v" "e \<le> a" "\<forall>x \<in> dom_set v. x \<le> a \<longrightarrow> x \<le> e"
proof -
  from assms(1,2) obtain bv where bv: "DV_type v = BV_DOMAIN bv" "DV_bit_vector_ptr v = Inr bv"
    "bv_member bv (DV_first v)" "bv_member bv (DV_last v)"
    by (cases rule: wf_dvar_cases) (use assms(3) in auto)
  obtain e where e: "domain_prev_bv bv a = Inr e"
    using domain_prev_bv_ok [OF bv(3) assms(4)] bv_between [OF bv(3,4) assms(4,5)] by blast
  note l = domain_prev_bv_greatest [OF e]
  have greatest: "x \<le> e" if "bv_member bv x" "x \<le> a" for x
    using l that by (meson none_in_def not_le zless_add1_eq zless_imp_add1_zle le_less_trans less_add_one)
  from l greatest [OF bv(3) assms(4)] assms(5) bv assms(2) e show ?thesis
    by (intro that [of e]) (simp_all add: dv_prev_bv_def greatest)
qed

section \<open>Events and updates\<close>

lemma insert_trigger_safe [simp]: "fd_safe (insert_trigger fl cs e fp m) (\<lambda>_. True)"
  by (simp add: insert_trigger_def Let_def)

lemma INSERT_safe [simp]:
  "fd_safe (INSERT_TRIGGER_dvar_ins v m) (\<lambda>_. True)"
  "fd_safe (INSERT_TRIGGER_minmax v m) (\<lambda>_. True)"
  "fd_safe (INSERT_TRIGGER_minmax_checkseed v fp m) (\<lambda>_. True)"
  "fd_safe (INSERT_TRIGGER_dom v e m) (\<lambda>_. True)"
  "fd_safe (INSERT_TRIGGER_outer_dom0 v e m) (\<lambda>_. True)"
  "fd_safe (INSERT_TRIGGER_outer_dom v e m) (\<lambda>_. True)"
  "fd_safe (post_bound seed v m) (\<lambda>_. True)"
  by (simp_all add: INSERT_TRIGGER_dvar_ins_def INSERT_TRIGGER_minmax_def INSERT_TRIGGER_minmax_checkseed_def
      INSERT_TRIGGER_dom_def INSERT_TRIGGER_outer_dom0_def INSERT_TRIGGER_outer_dom_def post_bound_def
      split: option.split)

text \<open>Posting an event does not touch the variable, so a continuation need not know the machine.\<close>

lemma safe_then: "fd_safe r (\<lambda>_. True) \<Longrightarrow> (\<And>m. fd_safe (f m) Q) \<Longrightarrow> fd_safe (fd_bind r f) Q"
  by (cases r) auto

lemma ASSIGN_DVAR_safe: "fd_safe (ASSIGN_DVAR v c m) (\<lambda>(v', m'). v' = v\<lparr>DV_var := Some c\<rparr>)"
  by (auto simp: ASSIGN_DVAR_def Let_def intro!: safe_then)

lemma UPDATE_safe:
  "fd_safe (UPDATE_FIRST_LAST_SIZE v f0 f l0 l n m) (\<lambda>(v', m'). v' = v\<lparr>DV_size := n, DV_first := f, DV_last := l\<rparr>)"
  "fd_safe (UPDATE_FIRST_SIZE v f0 f n m) (\<lambda>(v', m'). v' = v\<lparr>DV_size := n, DV_first := f, DV_last := DV_last v\<rparr>)"
  "fd_safe (UPDATE_LAST_SIZE v l0 l n m) (\<lambda>(v', m'). v' = v\<lparr>DV_size := n, DV_first := DV_first v, DV_last := l\<rparr>)"
  by (auto simp: UPDATE_FIRST_LAST_SIZE_def UPDATE_FIRST_SIZE_def UPDATE_LAST_SIZE_def Let_def intro!: safe_then)

lemma UPDATE_SIZE_case [simp]:
  "(case UPDATE_SIZE v n0 n m of (v', m') \<Rightarrow> P v') \<longleftrightarrow> P (v\<lparr>DV_size := n\<rparr>)"
  by (simp add: UPDATE_SIZE_def)

text \<open>Narrowing the bounds to members.\<close>

lemma narrow:
  assumes "wf_dvar v" "DV_var v = None" "f \<in> dom_set v" "l \<in> dom_set v" "f < l"
    "dom_set v \<inter> {f..l} = D" "n = int (card D)"
  shows "wf_dvar (v\<lparr>DV_size := n, DV_first := f, DV_last := l\<rparr>)"
    "dom_set (v\<lparr>DV_size := n, DV_first := f, DV_last := l\<rparr>) = D"
proof -
  let ?v = "v\<lparr>DV_size := n, DV_first := f, DV_last := l\<rparr>"
  have v: "dom_set v = {DV_first v..DV_last v} \<inter> dom_type_set (DV_type v)" using assms(2) by (simp add: dom_set_def)
  then have "{f..l} \<subseteq> {DV_first v..DV_last v}" using assms(3,4) by auto
  then have "dom_set v \<inter> {f..l} = {f..l} \<inter> dom_type_set (DV_type v)" unfolding v by blast
  then show D: "dom_set ?v = D" using assms(2,6) by (simp add: dom_set_def)
  have "f \<in> D" "l \<in> D" using assms(3-6) by auto
  then show "wf_dvar ?v" using assms(5,7) D wf_dvarD(5) [OF assms(1,2)] by (simp add: wf_dvar_def)
qed

lemma card_two_members:
  assumes "wf_dvar v" "DV_var v = None" "DV_size v = 2"
  shows "dom_set v = {DV_first v, DV_last v}"
proof -
  have "card (dom_set v) = card {DV_first v, DV_last v}" using wf_dvarD(1,4) [OF assms(1,2)] assms(3) by simp
  moreover have "{DV_first v, DV_last v} \<subseteq> dom_set v" using wf_dvarD(2,3) [OF assms(1,2)] by simp
  ultimately show ?thesis by (metis card_subset_eq finite_dom_set)
qed

lemma size_at_least_two:
  assumes "wf_dvar v" "DV_var v = None"
  shows "2 \<le> DV_size v"
proof -
  have "card {DV_first v, DV_last v} \<le> card (dom_set v)"
    using wf_dvarD(2,3) [OF assms] by (intro card_mono) auto
  with wf_dvarD(1,4) [OF assms] show ?thesis by simp
qed

section \<open>Excluding an element\<close>

lemma clear_bit_full:
  assumes "WORD_OFFSET (full_bv a f l) e = Inr (w, i, k)"
  shows "(full_bv a f l)\<lparr>bv_words := (bv_words (full_bv a f l))[i := NOT (push_bit k 1)]\<rparr> = clear_bit (full_bv a f l) i k"
proof -
  have "bv_words (full_bv a f l) ! i = MASK_FF"
    using assms by (simp add: WORD_OFFSET_Inr full_bv_def)
  then show ?thesis by (simp add: clear_bit_def MASK_FF_all del: push_bit_of_1)
qed

lemma exclude_member_wf:
  assumes "wf_dvar v" "DV_var v = None" "DV_first v < e" "e < DV_last v" "e \<in> dom_set v"
    "v' = v\<lparr>DV_type := BV_DOMAIN bv, DV_size := DV_size v - 1\<rparr>"
    "\<And>x. DV_first v \<le> x \<Longrightarrow> x \<le> DV_last v \<Longrightarrow> bv_member bv x \<longleftrightarrow> x \<in> dom_set v \<and> x \<noteq> e"
  shows "wf_dvar v' \<and> dom_set v' = dom_set v - {e}"
proof -
  have D: "dom_set v' = dom_set v - {e}"
    using assms(2,6,7) wf_dvarD(6) [OF assms(1,2)] by auto
  moreover have "int (card (dom_set v - {e})) = DV_size v - 1"
    using assms(5) wf_dvarD(4) [OF assms(1,2)] size_at_least_two [OF assms(1,2)] by (simp add: card_Diff_singleton)
  ultimately show ?thesis
    using assms(2-4,6) wf_dvarD(1-3) [OF assms(1,2)] by (simp add: wf_dvar_def)
qed

lemma it_to_bv_with_hole_safe:
  assumes "wf_dvar v" "DV_var v = None" "IS_IT_DOMAIN v" "DV_first v < e" "e < DV_last v"
  shows "fd_safe (it_to_bv_with_hole v e m) (\<lambda>(v', m'). wf_dvar v' \<and> dom_set v' = dom_set v - {e})"
proof -
  have t: "DV_type v = IT_DOMAIN" using assms(3) by (simp add: IS_IT_DOMAIN_def)
  have fl: "DV_first v \<le> DV_last v" using assms by simp
  let ?bv = "full_bv (heap_top (PUSHTRAIL_H TRAIL_BIT_VECTOR (A_DV_type v) (Type_cell (DV_type v)) m)) (DV_first v) (DV_last v)"
  have mem: "bv_member ?bv x" if "DV_first v \<le> x" "x \<le> DV_last v" for x
    using that by (simp add: full_bv_member [OF fl]) linarith
  obtain i k where o: "WORD_OFFSET ?bv e = Inr (bv_words ?bv ! i, i, k)"
    using bv_member_range [OF mem, of e] assms(4,5) WORD_OFFSET_ok [of ?bv e] by auto
  let ?v = "v\<lparr>DV_type := BV_DOMAIN (clear_bit ?bv i k), DV_size := DV_size v - 1\<rparr>"
  have "wf_dvar ?v \<and> dom_set ?v = dom_set v - {e}"
    using clear_bit_member [OF o] mem assms(2,4,5) t
    by (intro exclude_member_wf [OF assms(1,2,4,5)]) auto
  then have "fd_safe (fd_bind (INSERT_TRIGGER_dom (v\<lparr>DV_type := BV_DOMAIN (clear_bit ?bv i k)\<rparr>) e m') (\<lambda>m. Inr (UPDATE_SIZE
      (v\<lparr>DV_type := BV_DOMAIN (clear_bit ?bv i k)\<rparr>) (DV_size (v\<lparr>DV_type := BV_DOMAIN (clear_bit ?bv i k)\<rparr>))
      (DV_size (v\<lparr>DV_type := BV_DOMAIN (clear_bit ?bv i k)\<rparr>) - 1) m)))
      (\<lambda>(v', m'). wf_dvar v' \<and> dom_set v' = dom_set v - {e})" for m'
    by (intro safe_then) simp_all
  then show ?thesis
    unfolding it_to_bv_with_hole_def Let_def o fd_bind_simps prod.case clear_bit_full [OF o]
    by (intro fd_safe_if) (simp only: fd_safe_simps resource_simps, simp only:)
qed

lemma clear_same: "k < 64 \<Longrightarrow> w = w AND NOT (push_bit k (1 :: bpulong)) \<longleftrightarrow> \<not> bit w k"
proof
  assume "k < 64" "w = w AND NOT (push_bit k 1)"
  then show "\<not> bit w k" using bit_clear [of k w k] by metis
next
  assume "k < 64" "\<not> bit w k"
  then show "w = w AND NOT (push_bit k 1)" by (intro bit_word_eqI) (auto simp del: push_bit_of_1)
qed

lemma exclude_inner_elm_bv_safe:
  assumes "wf_dvar v" "DV_var v = None" "\<not> IS_IT_DOMAIN v" "DV_first v < e" "e < DV_last v"
  shows "fd_safe (exclude_inner_elm_bv v e m) (\<lambda>(v', m'). wf_dvar v' \<and> dom_set v' = dom_set v - {e})"
proof -
  from assms(1,2) obtain bv where bv: "DV_type v = BV_DOMAIN bv" "DV_bit_vector_ptr v = Inr bv"
    "bv_member bv (DV_first v)" "bv_member bv (DV_last v)"
    by (cases rule: wf_dvar_cases) (use assms(3) in auto)
  have "BV_low_val bv \<le> e" "e < BV_low_val bv + 64 * int (length (bv_words bv))"
    using bv_between [OF bv(3,4)] assms(4,5) by auto
  then obtain i k where o: "WORD_OFFSET bv e = Inr (bv_words bv ! i, i, k)" by (rule WORD_OFFSET_ok)
  then have ik: "i < length (bv_words bv)" "k < 64" "e = BV_low_val bv + 64 * int i + int k" by (auto simp: WORD_OFFSET_Inr)
  have same: "bv_words bv ! i = bv_words bv ! i AND NOT (push_bit k 1) \<longleftrightarrow> \<not> bv_member bv e"
    unfolding ik(3) using ik(1,2) by (simp only: clear_same bv_member_at)
  show ?thesis
  proof (cases "bv_member bv e")
    case False
    with bv have "e \<notin> dom_set v" using assms(2) by simp
    with False assms(1) bv o same show ?thesis by (simp add: exclude_inner_elm_bv_def Let_def del: push_bit_of_1)
  next
    case True
    let ?v = "v\<lparr>DV_type := BV_DOMAIN (clear_bit bv i k), DV_size := DV_size v - 1\<rparr>"
    have "wf_dvar ?v \<and> dom_set ?v = dom_set v - {e}"
      using clear_bit_member [OF o] assms(2,4,5) bv True
      by (intro exclude_member_wf [OF assms(1,2,4,5)]) auto
    then have "fd_safe (fd_bind (INSERT_TRIGGER_dom (v\<lparr>DV_type := BV_DOMAIN (clear_bit bv i k)\<rparr>) e m') (\<lambda>m. Inr (UPDATE_SIZE
        (v\<lparr>DV_type := BV_DOMAIN (clear_bit bv i k)\<rparr>) (DV_size (v\<lparr>DV_type := BV_DOMAIN (clear_bit bv i k)\<rparr>))
        (DV_size (v\<lparr>DV_type := BV_DOMAIN (clear_bit bv i k)\<rparr>) - 1) m)))
        (\<lambda>(v', m'). wf_dvar v' \<and> dom_set v' = dom_set v - {e})" for m'
      by (intro safe_then) simp_all
    with same True show ?thesis
      unfolding exclude_inner_elm_bv_def Let_def bv(2) o fd_bind_simps prod.case clear_bit_def [symmetric]
      by (simp only: if_False not_True_eq_False)
  qed
qed

text \<open>Excluding a bound: the variable is bound when two elements are left.\<close>

lemma third_member:
  assumes "wf_dvar v" "DV_var v = None" "DV_size v \<noteq> 2" "a \<in> dom_set v" "b \<in> dom_set v"
  obtains c where "c \<in> dom_set v" "c \<noteq> a" "c \<noteq> b"
proof -
  have "3 \<le> int (card (dom_set v))" using size_at_least_two [OF assms(1,2)] assms(3) wf_dvarD(4) [OF assms(1,2)] by simp
  moreover have "card {a, b} \<le> 2" by (simp add: card_insert_if)
  ultimately have "\<not> dom_set v \<subseteq> {a, b}" using card_mono [of "{a, b}" "dom_set v"] by (auto simp del: card.insert)
  then show ?thesis using that by blast
qed

lemma exclude_first_narrow:
  assumes "wf_dvar v" "DV_var v = None" "DV_size v \<noteq> 2"
    "f \<in> dom_set v" "DV_first v < f" "\<And>x. x \<in> dom_set v \<Longrightarrow> DV_first v < x \<Longrightarrow> f \<le> x"
  shows "wf_dvar (v\<lparr>DV_size := DV_size v - 1, DV_first := f, DV_last := DV_last v\<rparr>)"
    "dom_set (v\<lparr>DV_size := DV_size v - 1, DV_first := f, DV_last := DV_last v\<rparr>) = dom_set v - {DV_first v}"
proof -
  note w = wf_dvarD [OF assms(1,2)]
  obtain c where "c \<in> dom_set v" "c \<noteq> DV_first v" "c \<noteq> DV_last v" using third_member [OF assms(1-3) w(2,3)] .
  then have "f < DV_last v" using assms(6) [of c] w(6) by force
  moreover have "dom_set v \<inter> {f..DV_last v} = dom_set v - {DV_first v}"
    using assms(5,6) w(6) by force
  moreover have "DV_size v - 1 = int (card (dom_set v - {DV_first v}))"
    using w(2,4) size_at_least_two [OF assms(1,2)] by (simp add: card_Diff_singleton)
  ultimately show "wf_dvar (v\<lparr>DV_size := DV_size v - 1, DV_first := f, DV_last := DV_last v\<rparr>)"
    "dom_set (v\<lparr>DV_size := DV_size v - 1, DV_first := f, DV_last := DV_last v\<rparr>) = dom_set v - {DV_first v}"
    using narrow [OF assms(1,2,4) w(3)] by blast+
qed

lemma exclude_last_narrow:
  assumes "wf_dvar v" "DV_var v = None" "DV_size v \<noteq> 2"
    "l \<in> dom_set v" "l < DV_last v" "\<And>x. x \<in> dom_set v \<Longrightarrow> x < DV_last v \<Longrightarrow> x \<le> l"
  shows "wf_dvar (v\<lparr>DV_size := DV_size v - 1, DV_first := DV_first v, DV_last := l\<rparr>)"
    "dom_set (v\<lparr>DV_size := DV_size v - 1, DV_first := DV_first v, DV_last := l\<rparr>) = dom_set v - {DV_last v}"
proof -
  note w = wf_dvarD [OF assms(1,2)]
  obtain c where "c \<in> dom_set v" "c \<noteq> DV_first v" "c \<noteq> DV_last v" using third_member [OF assms(1-3) w(2,3)] .
  then have "DV_first v < l" using assms(6) [of c] w(6) by force
  moreover have "dom_set v \<inter> {DV_first v..l} = dom_set v - {DV_last v}"
    using assms(5,6) w(6) by force
  moreover have "DV_size v - 1 = int (card (dom_set v - {DV_last v}))"
    using w(3,4) size_at_least_two [OF assms(1,2)] by (simp add: card_Diff_singleton)
  ultimately show "wf_dvar (v\<lparr>DV_size := DV_size v - 1, DV_first := DV_first v, DV_last := l\<rparr>)"
    "dom_set (v\<lparr>DV_size := DV_size v - 1, DV_first := DV_first v, DV_last := l\<rparr>) = dom_set v - {DV_last v}"
    using narrow [OF assms(1,2) w(2) assms(4)] by blast+
qed

text \<open>The neighbour of a bound, in an interval or in a vector.\<close>

lemma next_of_first:
  assumes "wf_dvar v" "DV_var v = None"
  shows "fd_safe (if IS_IT_DOMAIN v then Inr (DV_first v + 1) else dv_next_bv v (DV_first v + 1))
    (\<lambda>f. f \<in> dom_set v \<and> DV_first v < f \<and> (\<forall>x \<in> dom_set v. DV_first v < x \<longrightarrow> f \<le> x))"
proof (cases "IS_IT_DOMAIN v")
  case True
  with assms wf_dvarD(1) [OF assms] show ?thesis by (simp add: IS_IT_DOMAIN_def)
next
  case False
  obtain e where e: "dv_next_bv v (DV_first v + 1) = Inr e" "e \<in> dom_set v" "DV_first v + 1 \<le> e"
      "\<forall>x \<in> dom_set v. DV_first v + 1 \<le> x \<longrightarrow> e \<le> x"
    by (rule dv_next_mem [OF assms False, of "DV_first v + 1"]) (use wf_dvarD(1) [OF assms] in simp_all)
  then show ?thesis using False by simp
qed

lemma prev_of_last:
  assumes "wf_dvar v" "DV_var v = None"
  shows "fd_safe (if IS_IT_DOMAIN v then Inr (DV_last v - 1) else dv_prev_bv v (DV_last v - 1))
    (\<lambda>l. l \<in> dom_set v \<and> l < DV_last v \<and> (\<forall>x \<in> dom_set v. x < DV_last v \<longrightarrow> x \<le> l))"
proof (cases "IS_IT_DOMAIN v")
  case True
  with assms wf_dvarD(1) [OF assms] show ?thesis by (simp add: IS_IT_DOMAIN_def)
next
  case False
  obtain e where e: "dv_prev_bv v (DV_last v - 1) = Inr e" "e \<in> dom_set v" "e \<le> DV_last v - 1"
      "\<forall>x \<in> dom_set v. x \<le> DV_last v - 1 \<longrightarrow> x \<le> e"
    by (rule dv_prev_mem [OF assms False, of "DV_last v - 1"]) (use wf_dvarD(1) [OF assms] in simp_all)
  then show ?thesis using False by simp
qed

definition excluded :: "dvar \<Rightarrow> int set \<Rightarrow> dvar \<times> machine \<Rightarrow> bool" where
  "excluded v S = (\<lambda>(v', m'). wf_dvar v' \<and> dom_set v' = dom_set v - S)"

lemma domain_set_false_noint_safe:
  assumes "wf_dvar v" "DV_var v = None"
  shows "fd_safe (domain_set_false_noint v e m) (excluded v {e})"
proof -
  note w = wf_dvarD [OF assms]
  have first: "fd_safe (if DV_size v = 2 then ASSIGN_DVAR v (DV_last v) m
      else fd_bind (INSERT_TRIGGER_outer_dom v (DV_first v) m) (\<lambda>m.
           fd_bind (if IS_IT_DOMAIN v then Inr (DV_first v + 1) else dv_next_bv v (DV_first v + 1)) (\<lambda>elm.
           UPDATE_FIRST_SIZE v (DV_first v) elm (DV_size v - 1) m))) (excluded v {DV_first v})"
  proof (rule fd_safe_if, goal_cases two more)
    case two
    then show ?case
      using card_two_members [OF assms] w(1)
      by (intro safe_state [OF ASSIGN_DVAR_safe]) (auto simp: excluded_def)
  next
    case more
    have "fd_safe (UPDATE_FIRST_SIZE v (DV_first v) f (DV_size v - 1) m') (excluded v {DV_first v})"
      if "f \<in> dom_set v \<and> DV_first v < f \<and> (\<forall>x \<in> dom_set v. DV_first v < x \<longrightarrow> f \<le> x)" for f m'
      using exclude_first_narrow [OF assms more, of f] that
      by (intro safe_state [OF UPDATE_safe(2)]) (simp add: excluded_def del: dom_set_simps)
    then show ?case by (intro safe_then [OF INSERT_safe(6)] fd_safe_bind [OF next_of_first [OF assms]]) blast
  qed
  have last: "fd_safe (if DV_size v = 2 then ASSIGN_DVAR v (DV_first v) m
      else fd_bind (INSERT_TRIGGER_outer_dom v (DV_last v) m) (\<lambda>m.
           fd_bind (if IS_IT_DOMAIN v then Inr (DV_last v - 1) else dv_prev_bv v (DV_last v - 1)) (\<lambda>elm.
           UPDATE_LAST_SIZE v (DV_last v) elm (DV_size v - 1) m))) (excluded v {DV_last v})"
  proof (rule fd_safe_if, goal_cases two more)
    case two
    then show ?case
      using card_two_members [OF assms] w(1)
      by (intro safe_state [OF ASSIGN_DVAR_safe]) (auto simp: excluded_def)
  next
    case more
    have "fd_safe (UPDATE_LAST_SIZE v (DV_last v) l (DV_size v - 1) m') (excluded v {DV_last v})"
      if "l \<in> dom_set v \<and> l < DV_last v \<and> (\<forall>x \<in> dom_set v. x < DV_last v \<longrightarrow> x \<le> l)" for l m'
      using exclude_last_narrow [OF assms more, of l] that
      by (intro safe_state [OF UPDATE_safe(3)]) (simp add: excluded_def del: dom_set_simps)
    then show ?case by (intro safe_then [OF INSERT_safe(6)] fd_safe_bind [OF prev_of_last [OF assms]]) blast
  qed
  have out: "excluded v {e} (v, m)" if "e < DV_first v \<or> DV_last v < e" using that w(6) assms(1) by (auto simp: excluded_def)
  show ?thesis
    unfolding domain_set_false_noint_def
    using first last out it_to_bv_with_hole_safe [OF assms] exclude_inner_elm_bv_safe [OF assms]
    by (intro fd_safe_if) (auto simp: excluded_def)
qed

definition excluded_code :: "dvar \<Rightarrow> int set \<Rightarrow> bool \<times> dvar \<times> machine \<Rightarrow> bool" where
  "excluded_code v S = (\<lambda>(b, v', m'). wf_dvar v' \<and> (b \<longleftrightarrow> \<not> dom_set v \<subseteq> S) \<and> (b \<longrightarrow> dom_set v' = dom_set v - S))"

lemma not_single:
  assumes "wf_dvar v" "DV_var v = None" shows "\<not> dom_set v \<subseteq> {e}"
  using wf_dvarD(1-3) [OF assms] by (metis less_irrefl singletonD subsetD)

lemma excluded_code_True:
  "excluded v S vm \<Longrightarrow> \<not> dom_set v \<subseteq> S \<Longrightarrow> excluded_code v S (True, vm)"
  by (auto simp: excluded_def excluded_code_def)

lemma domain_set_false_aux_safe:
  assumes "wf_dvar v"
  shows "fd_safe (domain_set_false_aux v e m) (excluded_code v {e})"
proof (cases "DV_var v")
  case None
  have "fd_safe (fd_bind (domain_set_false_noint v e m) (\<lambda>vm. Inr (True, vm))) (excluded_code v {e})"
    using not_single [OF assms None]
    by (intro fd_safe_bind [OF domain_set_false_noint_safe [OF assms None]]) (simp add: excluded_code_True)
  with None show ?thesis by (simp add: domain_set_false_aux_def)
next
  case (Some i)
  then show ?thesis by (auto simp: domain_set_false_aux_def excluded_code_def)
qed

section \<open>Counting\<close>

lemma push_one_word [simp]: "push_bit n (1 :: bpulong) = 0 \<longleftrightarrow> 64 \<le> n"
proof (cases "n < 64")
  case True
  then show ?thesis using one_mask [of n "- 1"] by (simp add: bit_minus_1_iff del: push_bit_of_1)
next
  case False
  then have "push_bit n (1 :: bpulong) = 0"
    by (intro bit_word_eqI) (simp add: bit_push_bit_iff del: push_bit_of_1)
  with False show ?thesis by simp
qed

lemma next_mask_step:
  assumes "WORD_OFFSET bv i = Inr (w, p, k)" "i + 1 < BV_low_val bv + 64 * int (length (bv_words bv))"
  shows "\<exists>w' p' k'. next_mask bv w p (push_bit k 1) = Inr (w', p', push_bit k' 1) \<and> WORD_OFFSET bv (i + 1) = Inr (w', p', k')"
proof -
  have i: "p < length (bv_words bv)" "k < 64" "w = bv_words bv ! p" "i = BV_low_val bv + 64 * int p + int k"
    using assms(1) by (auto simp: WORD_OFFSET_Inr)
  have m: "push_bit 1 (push_bit k (1 :: bpulong)) = push_bit (k + 1) 1" by (simp only: push_bit_push_bit add.commute)
  show ?thesis
  proof (cases "k + 1 < 64")
    case True
    with i show ?thesis
      by (intro exI [of _ w] exI [of _ p] exI [of _ "k + 1"])
        (simp add: next_mask_def m WORD_OFFSET_Inr Let_def del: push_bit_of_1 push_bit_Suc)
  next
    case False
    with i assms(2) have "p + 1 < length (bv_words bv)" by linarith
    with False i show ?thesis
      by (intro exI [of _ "bv_words bv ! (p + 1)"] exI [of _ "p + 1"] exI [of _ 0])
        (simp add: next_mask_def m WORD_OFFSET_Inr Let_def word_at_def del: push_bit_of_1 push_bit_Suc)
  qed
qed

definition members_below :: "bit_vector \<Rightarrow> int \<Rightarrow> int \<Rightarrow> int set" where
  "members_below bv a i = {x \<in> {a..<i}. bv_member bv x}"

text \<open>What the counting loops maintain: the position of the scan and the count so far.\<close>

definition scanned :: "bit_vector \<Rightarrow> int \<Rightarrow> int \<Rightarrow> int \<times> bpulong \<times> nat \<times> bpulong \<Rightarrow> bool" where
  "scanned bv a i = (\<lambda>(n, w, p, msk). n = int (card (members_below bv a i)) \<and>
     (\<exists>k. msk = push_bit k 1 \<and> WORD_OFFSET bv i = Inr (w, p, k)))"

lemma card_scan_step:
  "a \<le> i \<Longrightarrow> int (card (members_below bv a (i + 1))) =
     (if bv_member bv i then int (card (members_below bv a i)) + 1 else int (card (members_below bv a i)))"
proof -
  assume "a \<le> i"
  then have "members_below bv a (i + 1) =
      (if bv_member bv i then insert i (members_below bv a i) else members_below bv a i)"
    by (auto simp: members_below_def less_le)
  moreover have "finite (members_below bv a i)" by (rule finite_subset [of _ "{a..<i}"]) (auto simp: members_below_def)
  moreover have "i \<notin> members_below bv a i" by (simp add: members_below_def)
  ultimately show ?thesis by simp
qed

lemma scanned_bit: "scanned bv a i (n, w, p, msk) \<Longrightarrow> w AND msk \<noteq> 0 \<longleftrightarrow> bv_member bv i"
  by (auto simp: scanned_def WORD_OFFSET_Inr one_mask bv_member_at simp del: push_bit_of_1)

lemma scanned_step:
  assumes "scanned bv a i (n, w, p, msk)" "a \<le> i" "i + 1 < BV_low_val bv + 64 * int (length (bv_words bv))"
  shows "fd_safe (next_mask bv w p msk)
    (\<lambda>wpm. scanned bv a (i + 1) (if bv_member bv i then n + 1 else n, wpm))"
proof -
  obtain k where k: "msk = push_bit k 1" "WORD_OFFSET bv i = Inr (w, p, k)" and n: "n = int (card (members_below bv a i))"
    using assms(1) by (auto simp: scanned_def)
  obtain w' p' k' where "next_mask bv w p (push_bit k 1) = Inr (w', p', push_bit k' 1)" "WORD_OFFSET bv (i + 1) = Inr (w', p', k')"
    using next_mask_step [OF k(2) assms(3)] by blast
  with k(1) n show ?thesis by (auto simp: scanned_def card_scan_step [OF assms(2)] simp del: push_bit_of_1)
qed

lemma scan_start:
  assumes "WORD_OFFSET bv a = Inr (w, p, k)" shows "scanned bv a a (0, w, p, push_bit k 1)"
  using assms by (auto simp: scanned_def members_below_def simp del: push_bit_of_1)

lemma count_domain_elms_mem:
  assumes "wf_dvar v" "DV_var v = None" "\<not> IS_IT_DOMAIN v" "DV_first v \<le> a" "a \<le> b" "b < DV_last v"
  shows "fd_safe (count_domain_elms v a b) (\<lambda>n. n = int (card (dom_set v \<inter> {a..b})))"
    and "fd_safe (exclude_domain_elms v a b m) (\<lambda>(n, m'). n = int (card (dom_set v \<inter> {a..b})))"
proof -
  from assms(1,2) obtain bv where bv: "DV_type v = BV_DOMAIN bv" "DV_bit_vector_ptr v = Inr bv"
    "bv_member bv (DV_first v)" "bv_member bv (DV_last v)"
    by (cases rule: wf_dvar_cases) (use assms(3) in auto)
  note range = bv_between [OF bv(3,4)]
  obtain p k where o: "WORD_OFFSET bv a = Inr (bv_words bv ! p, p, k)"
    by (rule WORD_OFFSET_ok [OF range [of a]]) (use assms(4-6) in auto)
  have scan_all: "members_below bv a (b + 1) = dom_set v \<inter> {a..b}" using bv(1) assms(2,4,6) by (auto simp: members_below_def)
  have last: "i + 1 < BV_low_val bv + 64 * int (length (bv_words bv))" if "a \<le> i" "i \<le> b" for i
    using range(2) [of "i + 1"] that assms(4,6) by simp
  have "fd_safe (fd_fold (\<lambda>from (count, w, w_ptr, msk).
         let count = (if w AND msk \<noteq> 0 then count + 1 else count)
         in fd_bind (next_mask bv w w_ptr msk) (\<lambda>wpm. Inr (count, wpm)))
       [a..b] (0, bv_words bv ! p, p, push_bit k 1)) (scanned bv a (b + 1))"
  proof (rule fd_fold_safe)
    show "scanned bv a a (0, bv_words bv ! p, p, push_bit k 1)" by (rule scan_start [OF o])
  next
    fix i s assume i: "a \<le> i" "i \<le> b" and s: "scanned bv a i s"
    obtain n w q msk where [simp]: "s = (n, w, q, msk)" by (cases s)
    show "fd_safe (case s of (count, w, w_ptr, msk) \<Rightarrow>
         let count = (if w AND msk \<noteq> 0 then count + 1 else count)
         in fd_bind (next_mask bv w w_ptr msk) (\<lambda>wpm. Inr (count, wpm))) (scanned bv a (i + 1))"
      using scanned_bit [of bv a i n w q msk] s
      by (simp add: Let_def fd_safe_bind [OF scanned_step [OF _ i(1) last [OF i]]])
  qed (use assms(5) in simp)
  then show "fd_safe (count_domain_elms v a b) (\<lambda>n. n = int (card (dom_set v \<inter> {a..b})))"
    unfolding count_domain_elms_def bv(2) o fd_bind_simps prod.case
    by (rule fd_safe_bind) (auto simp: scanned_def scan_all)
  define P where "P = (\<lambda>i ((n, m :: machine), w, q, msk). scanned bv a i (n, w, q, msk))"
  have "fd_safe (fd_fold (\<lambda>from ((count, m), w, w_ptr, msk).
         fd_bind (if w AND msk \<noteq> 0
                  then fd_bind (INSERT_TRIGGER_outer_dom0 v from m) (\<lambda>m. Inr (count + 1, m))
                  else Inr (count, m)) (\<lambda>cm.
         fd_bind (next_mask bv w w_ptr msk) (\<lambda>wpm. Inr (cm, wpm))))
       [a..b] ((0, m), bv_words bv ! p, p, push_bit k 1)) (P (b + 1))"
  proof (rule fd_fold_safe)
    show "P a ((0, m), bv_words bv ! p, p, push_bit k 1)" using scan_start [OF o] by (simp add: P_def del: push_bit_of_1)
  next
    fix i s assume i: "a \<le> i" "i \<le> b" and s: "P i s"
    obtain n m0 w q msk where [simp]: "s = ((n, m0), w, q, msk)" by (cases s) auto
    have sc: "scanned bv a i (n, w, q, msk)" using s by (simp add: P_def)
    have "fd_safe (if w AND msk \<noteq> 0 then fd_bind (INSERT_TRIGGER_outer_dom0 v i m0) (\<lambda>m. Inr (n + 1, m)) else Inr (n, m0))
        (\<lambda>(c, m'). c = (if bv_member bv i then n + 1 else n))"
      using scanned_bit [OF sc] by (auto intro: safe_then)
    then show "fd_safe ((\<lambda>((count, m), w, w_ptr, msk).
         fd_bind (if w AND msk \<noteq> 0
                  then fd_bind (INSERT_TRIGGER_outer_dom0 v i m) (\<lambda>m. Inr (count + 1, m))
                  else Inr (count, m)) (\<lambda>cm.
         fd_bind (next_mask bv w w_ptr msk) (\<lambda>wpm. Inr (cm, wpm)))) s) (P (i + 1))"
      unfolding \<open>s = _\<close> prod.case
      by (rule fd_safe_bind, intro fd_safe_bind [OF scanned_step [OF sc i(1) last [OF i]]]) (auto simp: P_def)
  qed (use assms(5) in simp)
  then show "fd_safe (exclude_domain_elms v a b m) (\<lambda>(n, m'). n = int (card (dom_set v \<inter> {a..b})))"
    unfolding exclude_domain_elms_def bv(2) o fd_bind_simps prod.case
    by (rule fd_safe_bind) (auto simp: P_def scanned_def scan_all)
qed

end
