(* ===== verification/Domain_Region.thy ===== *)
theory Domain_Region
  imports Domain_Sets
begin

text \<open>
  Restricting a domain to a region and excluding an interval: both give the set operation, report
  failure exactly when nothing is left, and keep the local copies of the bounds equal to the
  bounds of the result.
\<close>

section \<open>Counting by intervals\<close>

lemma card_split:
  fixes a b c :: int
  assumes "finite S" "a \<le> b" "b \<le> c + 1"
  shows "card (S \<inter> {a..c}) = card (S \<inter> {a..b - 1}) + card (S \<inter> {b..c})"
proof -
  have "S \<inter> {a..c} = (S \<inter> {a..b - 1}) \<union> (S \<inter> {b..c})" using assms by auto
  moreover have "(S \<inter> {a..b - 1}) \<inter> (S \<inter> {b..c}) = {}" by auto
  ultimately show ?thesis using assms(1) by (simp add: card_Un_disjoint)
qed

lemma card_at [simp]: "x \<in> S \<Longrightarrow> card (S \<inter> {x..x}) = 1" for x :: int
  by simp

lemma size_from:
  assumes "wf_dvar v" "DV_var v = None" "DV_first v < mn" "mn \<le> DV_last v"
  shows "DV_size v - int (card (dom_set v \<inter> {DV_first v + 1..mn - 1})) - 1 = int (card (dom_set v \<inter> {mn..DV_last v}))"
proof -
  note w = wf_dvarD [OF assms(1,2)]
  have "dom_set v \<inter> {DV_first v..DV_last v} = dom_set v" using w(6) by blast
  then have "DV_size v = int (card (dom_set v \<inter> {DV_first v..DV_last v}))" using w(4) by simp
  also have "card (dom_set v \<inter> {DV_first v..DV_last v}) =
      card (dom_set v \<inter> {DV_first v..mn - 1}) + card (dom_set v \<inter> {mn..DV_last v})"
    using assms by (intro card_split) auto
  also have "card (dom_set v \<inter> {DV_first v..mn - 1}) = 1 + card (dom_set v \<inter> {DV_first v + 1..mn - 1})"
    using card_split [of "dom_set v" "DV_first v" "DV_first v + 1" "mn - 1"] assms w(2) by simp
  finally show ?thesis by simp
qed

lemma size_upto:
  assumes "wf_dvar v" "DV_var v = None" "mx < DV_last v" "DV_first v \<le> mx"
  shows "DV_size v - int (card (dom_set v \<inter> {mx + 1..DV_last v - 1})) - 1 = int (card (dom_set v \<inter> {DV_first v..mx}))"
proof -
  note w = wf_dvarD [OF assms(1,2)]
  have "dom_set v \<inter> {DV_first v..DV_last v} = dom_set v" using w(6) by blast
  then have "DV_size v = int (card (dom_set v \<inter> {DV_first v..DV_last v}))" using w(4) by simp
  also have "card (dom_set v \<inter> {DV_first v..DV_last v}) =
      card (dom_set v \<inter> {DV_first v..mx}) + card (dom_set v \<inter> {mx + 1..DV_last v})"
    using card_split [of "dom_set v" "DV_first v" "mx + 1" "DV_last v"] assms by simp
  also have "card (dom_set v \<inter> {mx + 1..DV_last v}) = card (dom_set v \<inter> {mx + 1..DV_last v - 1}) + 1"
    using card_split [of "dom_set v" "mx + 1" "DV_last v" "DV_last v"] assms w(3) by simp
  finally show ?thesis by simp
qed

lemma size_between:
  assumes "wf_dvar v" "DV_var v = None" "DV_first v < mn" "mn \<le> mx" "mx < DV_last v"
  shows "DV_size v - (int (card (dom_set v \<inter> {DV_first v + 1..mn - 1})) + int (card (dom_set v \<inter> {mx + 1..DV_last v - 1}))) - 2
    = int (card (dom_set v \<inter> {mn..mx}))"
proof -
  have "card (dom_set v \<inter> {DV_first v..mx}) = card (dom_set v \<inter> {DV_first v..mn - 1}) + card (dom_set v \<inter> {mn..mx})"
    using assms by (intro card_split) auto
  moreover have "card (dom_set v \<inter> {DV_first v..mn - 1}) = 1 + card (dom_set v \<inter> {DV_first v + 1..mn - 1})"
    using card_split [of "dom_set v" "DV_first v" "DV_first v + 1" "mn - 1"] assms wf_dvarD(2) [OF assms(1,2)] by simp
  ultimately show ?thesis using size_upto [OF assms(1,2,5)] assms(3,4) by simp
qed

lemma CALL_COUNT_mem:
  assumes "wf_dvar v" "DV_var v = None" "\<not> IS_IT_DOMAIN v" "DV_first v \<le> a" "b < DV_last v"
  shows "fd_safe (CALL_COUNT_DOMAIN_ELMS v a b) (\<lambda>n. n = int (card (dom_set v \<inter> {a..b})))"
    "fd_safe (CALL_EXCLUDE_DOMAIN_ELMS v a b m) (\<lambda>(n, m'). n = int (card (dom_set v \<inter> {a..b})))"
  using count_domain_elms_mem [OF assms(1-4) _ assms(5)]
  by (auto simp: CALL_COUNT_DOMAIN_ELMS_def CALL_EXCLUDE_DOMAIN_ELMS_def)

lemma post_outer_range_safe: "fd_safe (post_outer_range v lo hi m) (\<lambda>_. True)"
proof -
  have f: "fd_safe (fd_fold (INSERT_TRIGGER_outer_dom0 v) xs m) (\<lambda>_. True)" for xs
    by (induction xs arbitrary: m) (auto intro: safe_then)
  then show ?thesis by (auto simp: post_outer_range_def Let_def intro!: safe_then [OF f])
qed

section \<open>The region\<close>

definition region_post :: "dvar \<Rightarrow> int \<Rightarrow> int \<Rightarrow> bool \<times> dvar \<times> int \<times> int \<times> machine \<Rightarrow> bool" where
  "region_post v mn mx = (\<lambda>(b, v', f, l, m'). let D = dom_set v \<inter> {mn..mx} in
     wf_dvar v' \<and> (b \<longleftrightarrow> D \<noteq> {}) \<and> (\<not> b \<longrightarrow> v' = v) \<and>
     (b \<longrightarrow> dom_set v' = D \<and> f \<in> D \<and> l \<in> D \<and> D \<subseteq> {f..l}))"

lemma region_assign:
  assumes "wf_dvar v" "dom_set v \<inter> {mn..mx} = {c}"
  shows "fd_safe (fd_bind (ASSIGN_DVAR v c m) (\<lambda>(v, m). Inr (True, v, c, c, m))) (region_post v mn mx)"
  by (rule fd_safe_bind [OF ASSIGN_DVAR_safe]) (auto simp: region_post_def assms(2) Let_def)

lemma region_fail:
  assumes "wf_dvar v" "dom_set v \<inter> {mn..mx} = {}"
  shows "region_post v mn mx (False, v, f, l, m)"
  using assms by (simp add: region_post_def Let_def)

lemma region_narrow:
  assumes "wf_dvar v" "DV_var v = None" "f \<in> dom_set v" "l \<in> dom_set v" "f < l"
    "dom_set v \<inter> {mn..mx} = D" "dom_set v \<inter> {f..l} = D" "n = int (card D)"
    "fd_safe u (\<lambda>(v', m'). v' = v\<lparr>DV_size := n, DV_first := f, DV_last := l\<rparr>)"
  shows "fd_safe (fd_bind u (\<lambda>(v, m). fd_bind (post_bound seed v m) (\<lambda>m. Inr (True, v, f, l, m)))) (region_post v mn mx)"
proof -
  have "f \<in> D" "l \<in> D" "D \<subseteq> {f..l}" using assms(3-5,7) by auto
  then have "region_post v mn mx (True, v\<lparr>DV_size := n, DV_first := f, DV_last := l\<rparr>, f, l, m)" for m
    using narrow [OF assms(1-5,7,8)] by (auto simp: region_post_def Let_def assms(6))
  then show ?thesis by (intro fd_safe_bind [OF assms(9)]) (auto intro!: safe_then)
qed

lemma more_than_one:
  assumes "finite D" "int (card D) \<noteq> 1" "f \<in> D" "l \<in> D" "D \<subseteq> {f..l :: int}"
  shows "f < l"
proof (rule ccontr)
  assume "\<not> f < l"
  then have "D = {f}" using assms(3-5) by auto
  with assms(2) show False by simp
qed

text \<open>
  The count of the remaining elements, after their events when an agent watches removed elements,
  and the two outcomes it leads to.
\<close>

lemma sized_MIN:
  assumes "wf_dvar v" "DV_var v = None" "\<not> IS_IT_DOMAIN v" "DV_first v < mn" "mn \<le> DV_last v"
  shows "fd_safe (if DV_outer_dom_cs v \<noteq> nil_sym
         then fd_bind (CALL_EXCLUDE_DOMAIN_ELMS v (DV_first v + 1) (mn - 1) m) (\<lambda>(n, m).
              let sz = DV_size v - n - 1
              in if sz > 1 then fd_bind (INSERT_TRIGGER_outer_dom0 v (DV_first v) m) (\<lambda>m. Inr (sz, m))
                 else Inr (sz, m))
         else fd_bind (CALL_COUNT_DOMAIN_ELMS v (DV_first v + 1) (mn - 1)) (\<lambda>n. Inr (DV_size v - n - 1, m)))
    (\<lambda>(sz, m'). sz = int (card (dom_set v \<inter> {mn..DV_last v})))"
proof -
  have "DV_first v \<le> DV_first v + 1" "mn - 1 < DV_last v" using assms by auto
  note count = CALL_COUNT_mem [OF assms(1-3) this]
  show ?thesis
    unfolding size_from [OF assms(1,2,4,5), symmetric]
    by (intro fd_safe_if fd_safe_bind [OF count(1)] fd_safe_bind [OF count(2)])
      (auto simp: Let_def intro!: safe_then)
qed

lemma sized_MAX:
  assumes "wf_dvar v" "DV_var v = None" "\<not> IS_IT_DOMAIN v" "mx < DV_last v" "DV_first v \<le> mx"
  shows "fd_safe (if DV_outer_dom_cs v \<noteq> nil_sym
         then fd_bind (CALL_EXCLUDE_DOMAIN_ELMS v (mx + 1) (DV_last v - 1) m) (\<lambda>(n, m).
              let sz = DV_size v - n - 1
              in if sz > 1 then fd_bind (INSERT_TRIGGER_outer_dom0 v (DV_last v) m) (\<lambda>m. Inr (sz, m))
                 else Inr (sz, m))
         else fd_bind (CALL_COUNT_DOMAIN_ELMS v (mx + 1) (DV_last v - 1)) (\<lambda>n. Inr (DV_size v - n - 1, m)))
    (\<lambda>(sz, m'). sz = int (card (dom_set v \<inter> {DV_first v..mx})))"
proof -
  have "DV_first v \<le> mx + 1" "DV_last v - 1 < DV_last v" using assms by auto
  note count = CALL_COUNT_mem [OF assms(1-3) this]
  show ?thesis
    unfolding size_upto [OF assms(1,2,4,5), symmetric]
    by (intro fd_safe_if fd_safe_bind [OF count(1)] fd_safe_bind [OF count(2)])
      (auto simp: Let_def intro!: safe_then)
qed

lemma sized_MIN_MAX:
  assumes "wf_dvar v" "DV_var v = None" "\<not> IS_IT_DOMAIN v" "DV_first v < mn" "mn \<le> mx" "mx < DV_last v"
  shows "fd_safe (if DV_outer_dom_cs v \<noteq> nil_sym
         then fd_bind (CALL_EXCLUDE_DOMAIN_ELMS v (DV_first v + 1) (mn - 1) m) (\<lambda>(n1, m).
              fd_bind (CALL_EXCLUDE_DOMAIN_ELMS v (mx + 1) (DV_last v - 1) m) (\<lambda>(n2, m).
              let sz = DV_size v - (n1 + n2) - 2
              in if sz > 1
                 then fd_bind (INSERT_TRIGGER_outer_dom0 v (DV_first v) m) (\<lambda>m.
                      fd_bind (INSERT_TRIGGER_outer_dom0 v (DV_last v) m) (\<lambda>m. Inr (sz, m)))
                 else Inr (sz, m)))
         else fd_bind (CALL_COUNT_DOMAIN_ELMS v (DV_first v + 1) (mn - 1)) (\<lambda>n1.
              fd_bind (CALL_COUNT_DOMAIN_ELMS v (mx + 1) (DV_last v - 1)) (\<lambda>n2.
              Inr (DV_size v - (n1 + n2) - 2, m))))
    (\<lambda>(sz, m'). sz = int (card (dom_set v \<inter> {mn..mx})))"
proof -
  have l: "DV_first v \<le> DV_first v + 1" "mn - 1 < DV_last v" using assms by auto
  have u: "DV_first v \<le> mx + 1" "DV_last v - 1 < DV_last v" using assms by auto
  note low = CALL_COUNT_mem [OF assms(1-3) l] and up = CALL_COUNT_mem [OF assms(1-3) u]
  have ex: "fd_safe (fd_bind (CALL_EXCLUDE_DOMAIN_ELMS v (mx + 1) (DV_last v - 1) m') (\<lambda>(n2, m).
              let sz = DV_size v - (n1 + n2) - 2
              in if sz > 1
                 then fd_bind (INSERT_TRIGGER_outer_dom0 v (DV_first v) m) (\<lambda>m.
                      fd_bind (INSERT_TRIGGER_outer_dom0 v (DV_last v) m) (\<lambda>m. Inr (sz, m)))
                 else Inr (sz, m)))
      (\<lambda>(sz, m'). sz = DV_size v - (n1 + int (card (dom_set v \<inter> {mx + 1..DV_last v - 1}))) - 2)" for n1 m'
    by (intro fd_safe_bind [OF up(2)]) (auto simp: Let_def intro!: safe_then)
  show ?thesis
    unfolding size_between [OF assms(1,2,4-6), symmetric]
    by (intro fd_safe_if fd_safe_bind [OF low(1)] fd_safe_bind [OF up(1)] fd_safe_bind [OF low(2)])
      (use ex in \<open>auto intro: fd_safe_mono\<close>)
qed

lemma region_sized:
  assumes v: "wf_dvar v" "DV_var v = None"
    and "fd_safe r (\<lambda>(sz, m'). sz = int (card (dom_set v \<inter> {mn..mx})))"
    and "\<And>m'. fd_safe (f (int (card (dom_set v \<inter> {mn..mx}))) m') Q"
  shows "fd_safe (fd_bind r (\<lambda>(sz, m). f sz m)) Q"
  using assms(3,4) by (cases r) auto

lemma MIN_safe:
  assumes v: "wf_dvar v" "DV_var v = None" and mn: "DV_first v < mn" "DV_last v \<le> mx" "mn \<le> mx"
  shows "fd_safe (CALL_DOMAIN_REGION_MIN seed v (DV_first v) (DV_last v) mn m) (region_post v mn mx)"
proof -
  note w = wf_dvarD [OF v]
  let ?D = "dom_set v \<inter> {mn..mx}"
  have D: "dom_set v \<inter> {mn..DV_last v} = ?D" using w(6) mn by auto
  consider (empty) "mn > DV_last v" | (single) "mn = DV_last v" | (it) "mn < DV_last v" "IS_IT_DOMAIN v"
    | (bv) "mn < DV_last v" "\<not> IS_IT_DOMAIN v" by fastforce
  then show ?thesis
  proof cases
    case empty
    then have "?D = {}" using w(6) by auto
    with empty v(1) show ?thesis by (simp add: CALL_DOMAIN_REGION_MIN_def region_fail)
  next
    case single
    then have "?D = {DV_last v}" using w(3,6) mn by auto
    with single v(1) region_assign [of v mn mx "DV_last v" m] show ?thesis
      by (simp add: CALL_DOMAIN_REGION_MIN_def)
  next
    case it
    then have d: "dom_set v = {DV_first v..DV_last v}" using v(2) by (simp add: IS_IT_DOMAIN_def)
    then have D': "?D = {mn..DV_last v}" using mn by auto
    have "fd_safe (fd_bind (UPDATE_FIRST_SIZE v (DV_first v) mn (DV_last v - mn + 1) m') (\<lambda>(v', m).
        fd_bind (post_bound seed v' m) (\<lambda>m. Inr (True, v', mn, DV_last v, m)))) (region_post v mn mx)" for m'
      by (rule region_narrow [OF v _ w(3) it(1) D' _ _ UPDATE_safe(2)]) (use it mn d in auto)
    then have "fd_safe (fd_bind (if DV_outer_dom_cs v \<noteq> nil_sym then post_outer_range v (DV_first v) (mn - 1) m else Inr m) (\<lambda>m.
        fd_bind (UPDATE_FIRST_SIZE v (DV_first v) mn (DV_last v - mn + 1) m) (\<lambda>(v', m).
        fd_bind (post_bound seed v' m) (\<lambda>m. Inr (True, v', mn, DV_last v, m)))))
        (region_post v mn mx)"
      by (rule safe_then [rotated]) (simp add: post_outer_range_safe)
    with it show ?thesis by (simp add: CALL_DOMAIN_REGION_MIN_def)
  next
    case bv
    have "fd_safe (if int (card ?D) = 1 then fd_bind (ASSIGN_DVAR v (DV_last v) m') (\<lambda>(v', m). Inr (True, v', DV_last v, DV_last v, m))
        else fd_bind (dv_next_bv v mn) (\<lambda>mn.
             fd_bind (UPDATE_FIRST_SIZE v (DV_first v) mn (int (card ?D)) m') (\<lambda>(v', m).
             fd_bind (post_bound seed v' m) (\<lambda>m. Inr (True, v', mn, DV_last v, m))))) (region_post v mn mx)" for m'
    proof (rule fd_safe_if)
      assume "int (card ?D) = 1"
      moreover have "DV_last v \<in> ?D" using bv w(3) mn by simp
      ultimately have "?D = {DV_last v}" by (metis card_1_singletonE of_nat_eq_1_iff singletonD)
      then show "fd_safe (fd_bind (ASSIGN_DVAR v (DV_last v) m') (\<lambda>(v', m). Inr (True, v', DV_last v, DV_last v, m))) (region_post v mn mx)"
        by (rule region_assign [OF v(1)])
    next
      assume more: "int (card ?D) \<noteq> 1"
      obtain f where f: "dv_next_bv v mn = Inr f" "f \<in> dom_set v" "mn \<le> f" "\<forall>x \<in> dom_set v. mn \<le> x \<longrightarrow> f \<le> x"
        by (rule dv_next_mem [OF v bv(2), of mn]) (use bv mn in auto)
      have m: "f \<in> ?D" "DV_last v \<in> ?D" "?D \<subseteq> {f..DV_last v}" using f w(3,6) bv mn by auto
      have "f < DV_last v" using m more by (intro more_than_one [of ?D]) auto
      moreover have "dom_set v \<inter> {f..DV_last v} = ?D" using m f(3) w(6) mn by auto
      ultimately have "fd_safe (fd_bind (UPDATE_FIRST_SIZE v (DV_first v) f (int (card ?D)) m') (\<lambda>(v', m).
             fd_bind (post_bound seed v' m) (\<lambda>m. Inr (True, v', f, DV_last v, m)))) (region_post v mn mx)"
        by (intro region_narrow [OF v f(2) w(3) _ refl _ refl UPDATE_safe(2)])
      with f(1) show "fd_safe (fd_bind (dv_next_bv v mn) (\<lambda>mn.
             fd_bind (UPDATE_FIRST_SIZE v (DV_first v) mn (int (card ?D)) m') (\<lambda>(v', m).
             fd_bind (post_bound seed v' m) (\<lambda>m. Inr (True, v', mn, DV_last v, m))))) (region_post v mn mx)" by simp
    qed
    then have "fd_safe (fd_bind r (\<lambda>(sz, m').
        if sz = 1 then fd_bind (ASSIGN_DVAR v (DV_last v) m') (\<lambda>(v', m). Inr (True, v', DV_last v, DV_last v, m))
        else fd_bind (dv_next_bv v mn) (\<lambda>mn.
             fd_bind (UPDATE_FIRST_SIZE v (DV_first v) mn sz m') (\<lambda>(v', m).
             fd_bind (post_bound seed v' m) (\<lambda>m. Inr (True, v', mn, DV_last v, m)))))) (region_post v mn mx)"
      if "fd_safe r (\<lambda>(sz, m'). sz = int (card ?D))" for r :: "(int \<times> machine) fd" by (rule region_sized [OF v that])
    with bv sized_MIN [OF v bv(2) mn(1), of m] show ?thesis
      unfolding CALL_DOMAIN_REGION_MIN_def D by simp
  qed
qed

lemma MAX_safe:
  assumes v: "wf_dvar v" "DV_var v = None" and mx: "mn \<le> DV_first v" "mx < DV_last v" "mn \<le> mx"
  shows "fd_safe (CALL_DOMAIN_REGION_MAX seed v (DV_first v) (DV_last v) mx m) (region_post v mn mx)"
proof -
  note w = wf_dvarD [OF v]
  let ?D = "dom_set v \<inter> {mn..mx}"
  have D: "dom_set v \<inter> {DV_first v..mx} = ?D" using w(6) mx by auto
  consider (empty) "mx < DV_first v" | (single) "mx = DV_first v" | (it) "DV_first v < mx" "IS_IT_DOMAIN v"
    | (bv) "DV_first v < mx" "\<not> IS_IT_DOMAIN v" by fastforce
  then show ?thesis
  proof cases
    case empty
    then have "?D = {}" using w(6) by auto
    with empty v(1) show ?thesis by (simp add: CALL_DOMAIN_REGION_MAX_def region_fail)
  next
    case single
    then have "?D = {DV_first v}" using w(2,6) mx by auto
    with single v(1) region_assign [of v mn mx "DV_first v" m] show ?thesis
      by (simp add: CALL_DOMAIN_REGION_MAX_def)
  next
    case it
    then have d: "dom_set v = {DV_first v..DV_last v}" using v(2) by (simp add: IS_IT_DOMAIN_def)
    then have D': "?D = {DV_first v..mx}" using mx by auto
    have "fd_safe (fd_bind (UPDATE_LAST_SIZE v (DV_last v) mx (mx - DV_first v + 1) m') (\<lambda>(v', m).
        fd_bind (post_bound seed v' m) (\<lambda>m. Inr (True, v', DV_first v, mx, m)))) (region_post v mn mx)" for m'
      by (rule region_narrow [OF v w(2) _ it(1) D' _ _ UPDATE_safe(3)]) (use it mx d in auto)
    then have "fd_safe (fd_bind (if DV_outer_dom_cs v \<noteq> nil_sym then post_outer_range v (mx + 1) (DV_last v) m else Inr m) (\<lambda>m.
        fd_bind (UPDATE_LAST_SIZE v (DV_last v) mx (mx - DV_first v + 1) m) (\<lambda>(v', m).
        fd_bind (post_bound seed v' m) (\<lambda>m. Inr (True, v', DV_first v, mx, m)))))
        (region_post v mn mx)"
      by (rule safe_then [rotated]) (simp add: post_outer_range_safe)
    with it show ?thesis by (simp add: CALL_DOMAIN_REGION_MAX_def)
  next
    case bv
    have "fd_safe (if int (card ?D) = 1 then fd_bind (ASSIGN_DVAR v (DV_first v) m') (\<lambda>(v', m). Inr (True, v', DV_first v, DV_first v, m))
        else fd_bind (dv_prev_bv v mx) (\<lambda>mx.
             fd_bind (UPDATE_LAST_SIZE v (DV_last v) mx (int (card ?D)) m') (\<lambda>(v', m).
             fd_bind (post_bound seed v' m) (\<lambda>m. Inr (True, v', DV_first v, mx, m))))) (region_post v mn mx)" for m'
    proof (rule fd_safe_if)
      assume "int (card ?D) = 1"
      moreover have "DV_first v \<in> ?D" using bv w(2) mx by simp
      ultimately have "?D = {DV_first v}" by (metis card_1_singletonE of_nat_eq_1_iff singletonD)
      then show "fd_safe (fd_bind (ASSIGN_DVAR v (DV_first v) m') (\<lambda>(v', m). Inr (True, v', DV_first v, DV_first v, m))) (region_post v mn mx)"
        by (rule region_assign [OF v(1)])
    next
      assume more: "int (card ?D) \<noteq> 1"
      obtain l where l: "dv_prev_bv v mx = Inr l" "l \<in> dom_set v" "l \<le> mx" "\<forall>x \<in> dom_set v. x \<le> mx \<longrightarrow> x \<le> l"
        by (rule dv_prev_mem [OF v bv(2), of mx]) (use bv mx in auto)
      have m: "l \<in> ?D" "DV_first v \<in> ?D" "?D \<subseteq> {DV_first v..l}" using l w(2,6) bv mx by auto
      have "DV_first v < l" using m more by (intro more_than_one [of ?D]) auto
      moreover have "dom_set v \<inter> {DV_first v..l} = ?D" using m l(3) w(6) mx by auto
      ultimately have "fd_safe (fd_bind (UPDATE_LAST_SIZE v (DV_last v) l (int (card ?D)) m') (\<lambda>(v', m).
             fd_bind (post_bound seed v' m) (\<lambda>m. Inr (True, v', DV_first v, l, m)))) (region_post v mn mx)"
        by (intro region_narrow [OF v w(2) l(2) _ refl _ refl UPDATE_safe(3)])
      with l(1) show "fd_safe (fd_bind (dv_prev_bv v mx) (\<lambda>mx.
             fd_bind (UPDATE_LAST_SIZE v (DV_last v) mx (int (card ?D)) m') (\<lambda>(v', m).
             fd_bind (post_bound seed v' m) (\<lambda>m. Inr (True, v', DV_first v, mx, m))))) (region_post v mn mx)" by simp
    qed
    then have "fd_safe (fd_bind r (\<lambda>(sz, m').
        if sz = 1 then fd_bind (ASSIGN_DVAR v (DV_first v) m') (\<lambda>(v', m). Inr (True, v', DV_first v, DV_first v, m))
        else fd_bind (dv_prev_bv v mx) (\<lambda>mx.
             fd_bind (UPDATE_LAST_SIZE v (DV_last v) mx sz m') (\<lambda>(v', m).
             fd_bind (post_bound seed v' m) (\<lambda>m. Inr (True, v', DV_first v, mx, m)))))) (region_post v mn mx)"
      if "fd_safe r (\<lambda>(sz, m'). sz = int (card ?D))" for r :: "(int \<times> machine) fd" by (rule region_sized [OF v that])
    with bv sized_MAX [OF v bv(2) mx(2), of m] show ?thesis
      unfolding CALL_DOMAIN_REGION_MAX_def D by simp
  qed
qed

lemma MIN_MAX_safe:
  assumes v: "wf_dvar v" "DV_var v = None" and b: "DV_first v < mn" "mn \<le> mx" "mx < DV_last v"
  shows "fd_safe (CALL_DOMAIN_REGION_MIN_MAX seed v (DV_first v) (DV_last v) mn mx m) (region_post v mn mx)"
proof -
  note w = wf_dvarD [OF v]
  let ?D = "dom_set v \<inter> {mn..mx}"
  consider (single) "mn = mx" | (it) "mn < mx" "IS_IT_DOMAIN v" | (bv) "mn < mx" "\<not> IS_IT_DOMAIN v" using b(2) by fastforce
  then show ?thesis
  proof cases
    case single
    have t: "(if IS_BV_DOMAIN v then dm_true v mn else Inr True) = Inr (mn \<in> dom_set v)"
      using v by (cases rule: wf_dvar_cases) (use v b single in \<open>auto simp: dm_true_mem\<close>)
    show ?thesis
    proof (cases "mn \<in> dom_set v")
      case True
      then have "?D = {mn}" using single by auto
      with True single region_assign [OF v(1), of mn mx mn m] show ?thesis
        unfolding CALL_DOMAIN_REGION_MIN_MAX_def t by simp
    next
      case False
      then have "?D = {}" using single by auto
      with False single v(1) show ?thesis
        unfolding CALL_DOMAIN_REGION_MIN_MAX_def t by (simp add: region_fail)
    qed
  next
    case it
    then have d: "dom_set v = {DV_first v..DV_last v}" using v(2) by (simp add: IS_IT_DOMAIN_def)
    then have D': "?D = {mn..mx}" using b by auto
    have "fd_safe (fd_bind (UPDATE_FIRST_LAST_SIZE v (DV_first v) mn (DV_last v) mx (mx - mn + 1) m') (\<lambda>(v', m).
        fd_bind (post_bound seed v' m) (\<lambda>m. Inr (True, v', mn, mx, m)))) (region_post v mn mx)" for m'
      by (rule region_narrow [OF v _ _ it(1) D' _ _ UPDATE_safe(1)]) (use it b d in auto)
    then have "fd_safe (fd_bind (if DV_outer_dom_cs v \<noteq> nil_sym
        then fd_bind (post_outer_range v (DV_first v) (mn - 1) m) (post_outer_range v (mx + 1) (DV_last v)) else Inr m) (\<lambda>m.
        fd_bind (UPDATE_FIRST_LAST_SIZE v (DV_first v) mn (DV_last v) mx (mx - mn + 1) m) (\<lambda>(v', m).
        fd_bind (post_bound seed v' m) (\<lambda>m. Inr (True, v', mn, mx, m))))) (region_post v mn mx)"
      by (rule safe_then [rotated]) (simp add: post_outer_range_safe safe_then)
    with it show ?thesis by (simp add: CALL_DOMAIN_REGION_MIN_MAX_def)
  next
    case bv
    have "fd_safe (if int (card ?D) = 0 then Inr (False, v, DV_first v, DV_last v, m')
        else fd_bind (dv_next_bv v mn) (\<lambda>mn.
          if int (card ?D) = 1 then fd_bind (ASSIGN_DVAR v mn m') (\<lambda>(v', m). Inr (True, v', mn, mn, m))
          else fd_bind (dv_prev_bv v mx) (\<lambda>mx.
               fd_bind (UPDATE_FIRST_LAST_SIZE v (DV_first v) mn (DV_last v) mx (int (card ?D)) m') (\<lambda>(v', m).
               fd_bind (post_bound seed v' m) (\<lambda>m. Inr (True, v', mn, mx, m)))))) (region_post v mn mx)" for m'
    proof (rule fd_safe_if)
      assume "int (card ?D) = 0"
      then show "fd_safe (Inr (False, v, DV_first v, DV_last v, m')) (region_post v mn mx)"
        using v(1) by (simp add: region_fail)
    next
      assume "int (card ?D) \<noteq> 0"
      then obtain x where x: "x \<in> ?D" by fastforce
      obtain f where f: "dv_next_bv v mn = Inr f" "f \<in> dom_set v" "mn \<le> f" "\<forall>x \<in> dom_set v. mn \<le> x \<longrightarrow> f \<le> x"
        by (rule dv_next_mem [OF v bv(2), of mn]) (use b in auto)
      obtain l where l: "dv_prev_bv v mx = Inr l" "l \<in> dom_set v" "l \<le> mx" "\<forall>x \<in> dom_set v. x \<le> mx \<longrightarrow> x \<le> l"
        by (rule dv_prev_mem [OF v bv(2), of mx]) (use b in auto)
      have m: "f \<in> ?D" "l \<in> ?D" "?D \<subseteq> {f..l}" using f l x by force+
      have "fd_safe (if int (card ?D) = 1 then fd_bind (ASSIGN_DVAR v f m') (\<lambda>(v', m). Inr (True, v', f, f, m))
          else fd_bind (UPDATE_FIRST_LAST_SIZE v (DV_first v) f (DV_last v) l (int (card ?D)) m') (\<lambda>(v', m).
               fd_bind (post_bound seed v' m) (\<lambda>m. Inr (True, v', f, l, m)))) (region_post v mn mx)"
      proof (rule fd_safe_if)
        assume "int (card ?D) = 1"
        then have "?D = {f}" using m(1) by (metis card_1_singletonE of_nat_eq_1_iff singletonD)
        then show "fd_safe (fd_bind (ASSIGN_DVAR v f m') (\<lambda>(v', m). Inr (True, v', f, f, m))) (region_post v mn mx)"
          by (rule region_assign [OF v(1)])
      next
        assume more: "int (card ?D) \<noteq> 1"
        have "f < l" using m more by (intro more_than_one [of ?D]) auto
        moreover have "dom_set v \<inter> {f..l} = ?D" using m f(3) l(3) by auto
        ultimately show "fd_safe (fd_bind (UPDATE_FIRST_LAST_SIZE v (DV_first v) f (DV_last v) l (int (card ?D)) m') (\<lambda>(v', m).
               fd_bind (post_bound seed v' m) (\<lambda>m. Inr (True, v', f, l, m)))) (region_post v mn mx)"
          by (intro region_narrow [OF v f(2) l(2) _ refl _ refl UPDATE_safe(1)])
      qed
      then show "fd_safe (fd_bind (dv_next_bv v mn) (\<lambda>mn.
          if int (card ?D) = 1 then fd_bind (ASSIGN_DVAR v mn m') (\<lambda>(v', m). Inr (True, v', mn, mn, m))
          else fd_bind (dv_prev_bv v mx) (\<lambda>mx.
               fd_bind (UPDATE_FIRST_LAST_SIZE v (DV_first v) mn (DV_last v) mx (int (card ?D)) m') (\<lambda>(v', m).
               fd_bind (post_bound seed v' m) (\<lambda>m. Inr (True, v', mn, mx, m)))))) (region_post v mn mx)"
        unfolding f(1) l(1) fd_bind_simps .
    qed
    then have "fd_safe (fd_bind r (\<lambda>(sz, m').
        if sz = 0 then Inr (False, v, DV_first v, DV_last v, m')
        else fd_bind (dv_next_bv v mn) (\<lambda>mn.
          if sz = 1 then fd_bind (ASSIGN_DVAR v mn m') (\<lambda>(v', m). Inr (True, v', mn, mn, m))
          else fd_bind (dv_prev_bv v mx) (\<lambda>mx.
               fd_bind (UPDATE_FIRST_LAST_SIZE v (DV_first v) mn (DV_last v) mx sz m') (\<lambda>(v', m).
               fd_bind (post_bound seed v' m) (\<lambda>m. Inr (True, v', mn, mx, m))))))) (region_post v mn mx)"
      if "fd_safe r (\<lambda>(sz, m'). sz = int (card ?D))" for r :: "(int \<times> machine) fd" by (rule region_sized [OF v that])
    with bv sized_MIN_MAX [OF v bv(2) b, of m] show ?thesis
      unfolding CALL_DOMAIN_REGION_MIN_MAX_def by simp
  qed
qed

lemma CALL_DOMAIN_REGION_safe:
  assumes "wf_dvar v" "DV_var v = None"
  shows "fd_safe (CALL_DOMAIN_REGION seed v (DV_first v) (DV_last v) mn mx m) (region_post v mn mx)"
proof -
  note w = wf_dvarD [OF assms]
  have "region_post v mn mx (False, v, DV_first v, DV_last v, m)" if "mx < mn"
    using that assms(1) by (intro region_fail) auto
  moreover have "region_post v mn mx (True, v, DV_first v, DV_last v, m)" if "mn \<le> DV_first v" "DV_last v \<le> mx"
  proof -
    have "dom_set v \<inter> {mn..mx} = dom_set v" using that w(6) by auto
    with w assms(1) show ?thesis by (auto simp: region_post_def Let_def)
  qed
  ultimately show ?thesis
    unfolding CALL_DOMAIN_REGION_def
    using MIN_MAX_safe [OF assms] MIN_safe [OF assms] MAX_safe [OF assms]
    by (intro fd_safe_if) auto
qed

section \<open>Excluding an interval\<close>

lemma exclude_set_wf:
  assumes "wf_dvar v" "DV_var v = None" "DV_first v < a" "b < DV_last v"
    "v' = v\<lparr>DV_type := BV_DOMAIN bv, DV_size := DV_size v - int (card (dom_set v \<inter> {a..b}))\<rparr>"
    "\<And>x. DV_first v \<le> x \<Longrightarrow> x \<le> DV_last v \<Longrightarrow> bv_member bv x \<longleftrightarrow> x \<in> dom_set v \<and> x \<notin> {a..b}"
  shows "wf_dvar v' \<and> dom_set v' = dom_set v - {a..b}"
proof -
  note w = wf_dvarD [OF assms(1,2)]
  have D: "dom_set v' = dom_set v - {a..b}" using assms(2,5,6) w(6) by auto
  have "card (dom_set v - {a..b}) = card (dom_set v) - card (dom_set v \<inter> {a..b})" by (simp add: card_Diff_subset_Int)
  moreover have "card (dom_set v \<inter> {a..b}) \<le> card (dom_set v)" by (intro card_mono) auto
  ultimately have "int (card (dom_set v - {a..b})) = DV_size v - int (card (dom_set v \<inter> {a..b}))" using w(4) by simp
  with D show ?thesis using assms(2-5) w(1-3) by (simp add: wf_dvar_def)
qed

definition put :: "bit_vector \<Rightarrow> nat \<Rightarrow> bpulong \<Rightarrow> bit_vector" where
  "put bv p w = bv\<lparr>bv_words := (bv_words bv)[p := w]\<rparr>"

lemma put_fields [simp]:
  "BV_low_val (put bv p w) = BV_low_val bv" "length (bv_words (put bv p w)) = length (bv_words bv)"
  by (simp_all add: put_def)

lemma put_same: "p < length (bv_words bv) \<Longrightarrow> put bv p (bv_words bv ! p) = bv"
  by (simp add: put_def)

lemma put_clear:
  assumes "p < length (bv_words bv)" "k < 64"
  shows "bv_member (put bv p (w AND NOT (push_bit k 1))) x \<longleftrightarrow>
    bv_member (put bv p w) x \<and> x \<noteq> BV_low_val bv + 64 * int p + int k"
proof -
  have "WORD_OFFSET (put bv p w) (BV_low_val bv + 64 * int p + int k) = Inr (w, p, k)"
    using assms by (simp add: WORD_OFFSET_Inr) (simp add: put_def)
  moreover have "clear_bit (put bv p w) p k = put bv p (w AND NOT (push_bit k 1))"
    using assms by (simp add: clear_bit_def put_def del: push_bit_of_1)
  ultimately show ?thesis using clear_bit_member by metis
qed

text \<open>
  The scan that clears the bits \<open>a..b\<close>: \<open>w\<close> is the current word, not yet stored in the block.
\<close>

definition cleared :: "bit_vector \<Rightarrow> int \<Rightarrow> int \<Rightarrow> bit_vector \<times> bpulong \<times> nat \<times> nat \<Rightarrow> bool" where
  "cleared bv0 a i = (\<lambda>(bv, w, p, k).
     p < length (bv_words bv) \<and> k < 64 \<and> i = BV_low_val bv + 64 * int p + int k \<and>
     BV_low_val bv = BV_low_val bv0 \<and> length (bv_words bv) = length (bv_words bv0) \<and>
     (\<forall>x. bv_member (put bv p w) x \<longleftrightarrow> bv_member bv0 x \<and> \<not> (a \<le> x \<and> x < i)))"

lemma cleared_start:
  "WORD_OFFSET bv a = Inr (w, p, k) \<Longrightarrow> cleared bv a a (bv, w, p, k)"
  by (auto simp: cleared_def WORD_OFFSET_Inr put_same)

lemma cleared_step:
  assumes "cleared bv0 a i (bv, w, p, k)" "a \<le> i" "i + 1 < BV_low_val bv0 + 64 * int (length (bv_words bv0))"
    and w': "\<forall>x. bv_member (put bv p w') x \<longleftrightarrow> bv_member (put bv p w) x \<and> x \<noteq> i"
  shows "k + 1 \<noteq> 64 \<Longrightarrow> cleared bv0 a (i + 1) (bv, w', p, k + 1)"
    and "k + 1 = 64 \<Longrightarrow> fd_safe (word_at (put bv p w') (p + 1))
      (\<lambda>w. cleared bv0 a (i + 1) (put bv p w', w, p + 1, 0))"
    and "k + 1 = 64 \<Longrightarrow> put bv p w' = bv \<Longrightarrow> fd_safe (word_at bv (p + 1))
      (\<lambda>w. cleared bv0 a (i + 1) (bv, w, p + 1, 0) \<and> w = bv_words bv ! (p + 1))"
proof -
  have c: "p < length (bv_words bv)" "k < 64" "i = BV_low_val bv + 64 * int p + int k" "BV_low_val bv = BV_low_val bv0"
    "length (bv_words bv) = length (bv_words bv0)"
    and m: "\<And>x. bv_member (put bv p w) x \<longleftrightarrow> bv_member bv0 x \<and> \<not> (a \<le> x \<and> x < i)"
    using assms(1) by (auto simp: cleared_def)
  have m': "bv_member (put bv p w') x \<longleftrightarrow> bv_member bv0 x \<and> \<not> (a \<le> x \<and> x < i + 1)" for x
    using spec [OF w', of x] m [of x] assms(2) by (cases "x = i") auto
  show "cleared bv0 a (i + 1) (bv, w', p, k + 1)" if "k + 1 \<noteq> 64"
    unfolding cleared_def prod.case by (intro conjI allI m') (use that c in simp_all)
  have last: "p + 1 < length (bv_words bv)" if "k + 1 = 64" using that c assms(3) by linarith
  have next_word: "cleared bv0 a (i + 1) (put bv p w', bv_words (put bv p w') ! (p + 1), p + 1, 0)" if "k + 1 = 64"
  proof -
    have "put (put bv p w') (p + 1) (bv_words (put bv p w') ! (p + 1)) = put bv p w'"
      using last [OF that] by (intro put_same) simp
    moreover have "i + 1 = BV_low_val bv + 64 * int (p + 1) + int 0" using that c(3) by simp
    ultimately show ?thesis using last [OF that] c(4,5) m' by (simp add: cleared_def)
  qed
  show "fd_safe (word_at (put bv p w') (p + 1)) (\<lambda>w. cleared bv0 a (i + 1) (put bv p w', w, p + 1, 0))" if "k + 1 = 64"
    using next_word [OF that] last [OF that] by (simp add: word_at_def)
  show "fd_safe (word_at bv (p + 1)) (\<lambda>w. cleared bv0 a (i + 1) (bv, w, p + 1, 0) \<and> w = bv_words bv ! (p + 1))"
    if "k + 1 = 64" "put bv p w' = bv"
    using next_word [OF that(1)] last [OF that(1)] that(2) by (simp add: word_at_def)
qed

lemma cleared_clear:
  assumes "cleared bv0 a i (bv, w, p, k)"
  shows "\<forall>x. bv_member (put bv p (w AND NOT (push_bit k 1))) x \<longleftrightarrow> bv_member (put bv p w) x \<and> x \<noteq> i"
  using assms by (auto simp: cleared_def put_clear simp del: push_bit_of_1)

lemma it_to_bv_with_interval_holes_safe:
  assumes v: "wf_dvar v" "DV_var v = None" "IS_IT_DOMAIN v" and ab: "DV_first v < a" "a \<le> b" "b < DV_last v"
  shows "fd_safe (it_to_bv_with_interval_holes v a b m) (excluded v {a..b})"
proof -
  have d: "dom_set v = {DV_first v..DV_last v}" using v(2,3) by (simp add: IS_IT_DOMAIN_def)
  have fl: "DV_first v \<le> DV_last v" using ab by simp
  let ?bv = "full_bv (heap_top (PUSHTRAIL_H TRAIL_BIT_VECTOR (A_DV_type v) (Type_cell (DV_type v)) m)) (DV_first v) (DV_last v)"
  have mem: "bv_member ?bv x" if "DV_first v \<le> x" "x \<le> DV_last v" for x
    using that by (simp add: full_bv_member [OF fl]) linarith
  have range: "BV_low_val ?bv \<le> x \<and> x < BV_low_val ?bv + 64 * int (length (bv_words ?bv))"
    if "DV_first v \<le> x" "x \<le> DV_last v" for x
    using bv_member_range [OF mem [OF that]] .
  have "BV_low_val ?bv \<le> a" "a < BV_low_val ?bv + 64 * int (length (bv_words ?bv))" using range [of a] ab by simp_all
  then obtain p0 k0 where "WORD_OFFSET ?bv a = Inr (bv_words ?bv ! p0, p0, k0)" by (rule WORD_OFFSET_ok)
  then obtain w0 where o: "WORD_OFFSET ?bv a = Inr (w0, p0, k0)" by blast
  have loop: "fd_safe (fd_fold (\<lambda>i (bv, w, w_ptr, offset, m).
        let w = w AND NOT (push_bit offset 1)
        in fd_bind (INSERT_TRIGGER_dom v i m) (\<lambda>m.
           let offset = offset + 1
           in if offset = 64
              then let bv = bv\<lparr>bv_words := (bv_words bv)[w_ptr := w]\<rparr>
                   in fd_bind (word_at bv (w_ptr + 1)) (\<lambda>w. Inr (bv, w, w_ptr + 1, 0, m))
              else Inr (bv, w, w_ptr, offset, m)))
      [a..b] (?bv, w0, p0, k0, m1)) ((\<lambda>i (bv, w, p, k, m). cleared ?bv a i (bv, w, p, k)) (b + 1))" for m1 :: machine
  proof (rule fd_fold_safe, goal_cases start step le)
    case start
    then show ?case using cleared_start [OF o] by simp
  next
    case (step i s)
    obtain bv w p k m' where s: "s = (bv, w, p, k, m')" by (cases s)
    have c: "cleared ?bv a i (bv, w, p, k)" using step(3) s by simp
    have last: "i + 1 < BV_low_val ?bv + 64 * int (length (bv_words ?bv))" using range [of "i + 1"] step ab by simp
    note next_word = cleared_step [OF c step(1) last cleared_clear [OF c]]
    show ?case
      unfolding s prod.case Let_def put_def [symmetric]
      by (rule safe_then [OF INSERT_safe(4)], rule fd_safe_if, rule fd_safe_bind, erule next_word(2),
          simp, simp only: fd_safe_simps prod.case, erule next_word(1))
  qed (use ab in simp)
  have finish: "excluded v {a..b} (UPDATE_SIZE (v\<lparr>DV_type := BV_DOMAIN (put bv p w)\<rparr>) n (DV_size v - (b - a + 1)) m')"
    if "cleared ?bv a (b + 1) (bv, w, p, k)" for bv w p k n m'
  proof -
    have "dom_set v \<inter> {a..b} = {a..b}" using d ab by auto
    then have n: "int (card (dom_set v \<inter> {a..b})) = b - a + 1" using ab by simp
    have "bv_member (put bv p w) x \<longleftrightarrow> x \<in> dom_set v \<and> x \<notin> {a..b}" if "DV_first v \<le> x" "x \<le> DV_last v" for x
      using \<open>cleared _ _ _ _\<close> mem [OF that] that by (auto simp: cleared_def d)
    from exclude_set_wf [OF v(1,2) ab(1,3) refl this] show ?thesis
      unfolding n by (simp add: excluded_def UPDATE_SIZE_def)
  qed
  have "fd_safe (fd_bind (fd_fold (\<lambda>i (bv, w, w_ptr, offset, m).
        let w = w AND NOT (push_bit offset 1)
        in fd_bind (INSERT_TRIGGER_dom v i m) (\<lambda>m.
           let offset = offset + 1
           in if offset = 64
              then let bv = bv\<lparr>bv_words := (bv_words bv)[w_ptr := w]\<rparr>
                   in fd_bind (word_at bv (w_ptr + 1)) (\<lambda>w. Inr (bv, w, w_ptr + 1, 0, m))
              else Inr (bv, w, w_ptr, offset, m)))
      [a..b] (?bv, w0, p0, k0, m1)) (\<lambda>(bv, w, w_ptr, offset, m).
       Inr (UPDATE_SIZE (v\<lparr>DV_type := BV_DOMAIN (put bv w_ptr w)\<rparr>) (DV_size v) (DV_size v - (b - a + 1)) m)))
     (excluded v {a..b})" for m1 :: machine
    by (rule fd_safe_bind [OF loop]) (auto simp: finish)
  then show ?thesis
    unfolding it_to_bv_with_interval_holes_def Let_def o fd_bind_simps prod.case put_def
    by (intro fd_safe_if) simp_all
qed

lemma fd_bind_assoc: "fd_bind (fd_bind r f) g = fd_bind r (\<lambda>x. fd_bind (f x) g)"
  by (cases r) auto

text \<open>On a variable that has a vector: only members are cleared, trailed and counted.\<close>

definition inner_inv :: "dvar \<Rightarrow> bit_vector \<Rightarrow> int \<Rightarrow> int \<Rightarrow>
    bit_vector \<times> bpulong \<times> nat \<times> nat \<times> nat option \<times> int \<times> machine \<Rightarrow> bool" where
  "inner_inv v bv0 a i = (\<lambda>(bv, w, p, k, last_trailed, count, m).
     cleared bv0 a i (bv, w, p, k) \<and> w = bv_words bv ! p \<and>
     count = DV_size v - int (card (dom_set v \<inter> {a..<i})) \<and> (last_trailed = None \<longrightarrow> dom_set v \<inter> {a..<i} = {}))"

lemma card_inner_step:
  "a \<le> i \<Longrightarrow> int (card (dom_set v \<inter> {a..<i + 1})) =
     (if i \<in> dom_set v then int (card (dom_set v \<inter> {a..<i})) + 1 else int (card (dom_set v \<inter> {a..<i})))"
proof -
  assume "a \<le> i"
  then have "dom_set v \<inter> {a..<i + 1} =
      (if i \<in> dom_set v then insert i (dom_set v \<inter> {a..<i}) else dom_set v \<inter> {a..<i})"
    by (auto simp: less_le)
  then show ?thesis by simp
qed

lemma inner_advance:
  assumes "cleared bv0 a i (bv, w, p, k)" "a \<le> i" "i + 1 < BV_low_val bv0 + 64 * int (length (bv_words bv0))"
    and "\<forall>x. bv_member (put bv p w') x \<longleftrightarrow> bv_member (put bv p w) x \<and> x \<noteq> i"
    and "put bv p w' = bv'" "w' = bv_words bv' ! p"
    and "n = DV_size v - int (card (dom_set v \<inter> {a..<i + 1}))" "t = None \<longrightarrow> dom_set v \<inter> {a..<i + 1} = {}"
  shows "fd_safe (if k + 1 = 64
       then fd_bind (word_at bv' (p + 1)) (\<lambda>w. Inr (bv', w, p + 1, 0, t, n, m))
       else Inr (bv', w', p, k + 1, t, n, m)) (inner_inv v bv0 a (i + 1))"
proof -
  have p: "p < length (bv_words bv)" using assms(1) by (simp add: cleared_def)
  have eq: "put bv' q x = put bv q x \<or> put bv' q x \<noteq> put bv q x" for q x by simp
  have c': "cleared bv0 a i (bv', w, p, k)"
    using assms(1) unfolding assms(5) [symmetric] by (simp add: cleared_def) (simp add: put_def)
  have m': "\<forall>x. bv_member (put bv' p w') x \<longleftrightarrow> bv_member (put bv' p w) x \<and> x \<noteq> i"
    using assms(4) unfolding assms(5) [symmetric] by (simp add: put_def)
  have same: "put bv' p w' = bv'" using p unfolding assms(5) [symmetric] by (simp add: put_def)
  note next_word = cleared_step [OF c' assms(2,3) m']
  show ?thesis
  proof (rule fd_safe_if)
    assume "k + 1 = 64"
    from next_word(3) [OF this same] show "fd_safe (fd_bind (word_at bv' (p + 1)) (\<lambda>w. Inr (bv', w, p + 1, 0, t, n, m)))
        (inner_inv v bv0 a (i + 1))"
      using assms(7,8) by (intro fd_safe_bind) (auto simp: inner_inv_def)
  next
    assume "k + 1 \<noteq> 64"
    from next_word(1) [OF this] show "fd_safe (Inr (bv', w', p, k + 1, t, n, m)) (inner_inv v bv0 a (i + 1))"
      using assms(6-8) by (simp add: inner_inv_def)
  qed
qed

lemma exclude_inner_interval_bv_safe:
  assumes v: "wf_dvar v" "DV_var v = None" "\<not> IS_IT_DOMAIN v" and ab: "DV_first v < a" "a \<le> b" "b < DV_last v"
  shows "fd_safe (exclude_inner_interval_bv v a b m) (excluded v {a..b})"
proof -
  from v(1,2) obtain bv0 where bv0: "DV_type v = BV_DOMAIN bv0" "DV_bit_vector_ptr v = Inr bv0"
    "bv_member bv0 (DV_first v)" "bv_member bv0 (DV_last v)"
    by (cases rule: wf_dvar_cases) (use v(3) in auto)
  have dom: "i \<in> dom_set v \<longleftrightarrow> bv_member bv0 i" if "a \<le> i" "i \<le> b" for i using bv0(1) v(2) ab that by simp
  note range = bv_between [OF bv0(3,4)]
  obtain p0 k0 where o: "WORD_OFFSET bv0 a = Inr (bv_words bv0 ! p0, p0, k0)"
    by (rule WORD_OFFSET_ok [OF range [of a]]) (use ab in auto)
  let ?body = "\<lambda>from (bv, w, w_ptr, offset, last_trailed, count, m).
         fd_bind
           (if w AND push_bit offset 1 \<noteq> 0
            then let (last_trailed, m) =
                       (if last_trailed \<noteq> Some w_ptr
                        then (Some w_ptr, PUSHTRAIL_H TRAIL_VAL_ATOMIC (bv_addr bv + 2 + int w_ptr) (Word_cell w) m)
                        else (last_trailed, m));
                     w = w AND NOT (push_bit offset 1);
                     bv = bv\<lparr>bv_words := (bv_words bv)[w_ptr := w]\<rparr>
                 in fd_bind (INSERT_TRIGGER_dom v from m) (\<lambda>m. Inr (bv, w, last_trailed, count - 1, m))
            else Inr (bv, w, last_trailed, count, m)) (\<lambda>(bv, w, last_trailed, count, m).
         if offset + 1 = 64
         then fd_bind (word_at bv (w_ptr + 1)) (\<lambda>w. Inr (bv, w, w_ptr + 1, 0, last_trailed, count, m))
         else Inr (bv, w, w_ptr, offset + 1, last_trailed, count, m))"
  have loop: "fd_safe (fd_fold ?body [a..b] (bv0, bv_words bv0 ! p0, p0, k0, None, DV_size v, m)) (inner_inv v bv0 a (b + 1))"
  proof (rule fd_fold_safe, goal_cases start step le)
    case start
    then show ?case using cleared_start [OF o] by (simp add: inner_inv_def)
  next
    case (step i s)
    obtain bv w p k t n m where s: "s = (bv, w, p, k, t, n, m)" by (cases s)
    have c: "cleared bv0 a i (bv, w, p, k)" and w: "w = bv_words bv ! p"
      and n: "n = DV_size v - int (card (dom_set v \<inter> {a..<i}))" and t: "t = None \<Longrightarrow> dom_set v \<inter> {a..<i} = {}"
      using step(3) by (auto simp: s inner_inv_def)
    have last: "i + 1 < BV_low_val bv0 + 64 * int (length (bv_words bv0))" using range(2) [of "i + 1"] step ab by simp
    have p: "p < length (bv_words bv)" "k < 64" "i = BV_low_val bv + 64 * int p + int k" using c by (auto simp: cleared_def)
    have put: "put bv p w = bv" using p w by (simp add: put_same)
    have "bv_member bv i = bv_member bv0 i" using c put by (simp add: cleared_def)
    then have bit: "w AND push_bit k 1 \<noteq> 0 \<longleftrightarrow> i \<in> dom_set v"
      using dom [OF step(1,2)] bv_member_at [OF p(1,2)] w p(2) unfolding p(3) [symmetric]
      by (simp add: one_mask del: push_bit_of_1)
    show ?case
    proof (cases "i \<in> dom_set v")
      case True
      let ?w = "w AND NOT (push_bit k 1)"
      have "fd_safe (if k + 1 = 64
         then fd_bind (word_at (put bv p ?w) (p + 1)) (\<lambda>w. Inr (put bv p ?w, w, p + 1, 0, Some p, n - 1, m))
         else Inr (put bv p ?w, ?w, p, k + 1, Some p, n - 1, m)) (inner_inv v bv0 a (i + 1))" for m
        by (rule inner_advance [OF c step(1) last cleared_clear [OF c] refl])
          (use p n True card_inner_step [OF step(1), of v] in \<open>simp_all add: put_def del: push_bit_of_1\<close>)
      then have "fd_safe (fd_bind (fd_bind (INSERT_TRIGGER_dom v i m1) (\<lambda>m. Inr (put bv p ?w, ?w, Some p, n - 1, m)))
          (\<lambda>(bv, w, last_trailed, count, m).
           if k + 1 = 64
           then fd_bind (word_at bv (p + 1)) (\<lambda>w. Inr (bv, w, p + 1, 0, last_trailed, count, m))
           else Inr (bv, w, p, k + 1, last_trailed, count, m))) (inner_inv v bv0 a (i + 1))" for m1
        unfolding fd_bind_assoc fd_bind_simps prod.case by (intro safe_then INSERT_safe(4))
      from this [of "if t \<noteq> Some p then PUSHTRAIL_H TRAIL_VAL_ATOMIC (bv_addr bv + 2 + int p) (Word_cell w) m else m"]
      show ?thesis
        unfolding s prod.case Let_def put_def using bit True
        by (cases "t = Some p") (simp_all only: if_True if_False simp_thms prod.case)
    next
      case False
      then have "\<not> bv_member bv i" using \<open>bv_member bv i = bv_member bv0 i\<close> dom [OF step(1,2)] by simp
      then have "\<forall>x. bv_member (put bv p w) x \<longleftrightarrow> bv_member (put bv p w) x \<and> x \<noteq> i" unfolding put by metis
      moreover have D: "dom_set v \<inter> {a..<i + 1} = dom_set v \<inter> {a..<i}" using False by (auto simp: less_le)
      ultimately have "fd_safe (if k + 1 = 64
         then fd_bind (word_at bv (p + 1)) (\<lambda>w. Inr (bv, w, p + 1, 0, t, n, m))
         else Inr (bv, w, p, k + 1, t, n, m)) (inner_inv v bv0 a (i + 1))"
        using n t w by (intro inner_advance [OF c step(1) last _ put]) auto
      then show ?thesis
        unfolding s prod.case using bit False by (simp only: if_False simp_thms fd_bind_simps prod.case)
    qed
  qed (use ab in simp)
  have fin: "excluded v {a..b} (if t \<noteq> None then UPDATE_SIZE (v\<lparr>DV_type := BV_DOMAIN bv\<rparr>) n0 n m' else (v\<lparr>DV_type := BV_DOMAIN bv\<rparr>, m'))"
    if "inner_inv v bv0 a (b + 1) (bv, w, p, k, t, n, m'')" for bv w p k t n m' m'' n0
  proof -
    have ab1: "{a..<b + 1} = {a..b}" by auto
    have c: "cleared bv0 a (b + 1) (bv, w, p, k)" "w = bv_words bv ! p"
      and n: "n = DV_size v - int (card (dom_set v \<inter> {a..b}))" and t: "t = None \<Longrightarrow> dom_set v \<inter> {a..b} = {}"
      using that by (auto simp: inner_inv_def ab1)
    then have "put bv p w = bv" by (auto simp: cleared_def intro: put_same)
    then have m: "bv_member bv x \<longleftrightarrow> x \<in> dom_set v \<and> x \<notin> {a..b}" if "DV_first v \<le> x" "x \<le> DV_last v" for x
      using c(1) that v(2) bv0(1) by (auto simp: cleared_def)
    let ?v = "v\<lparr>DV_type := BV_DOMAIN bv, DV_size := DV_size v - int (card (dom_set v \<inter> {a..b}))\<rparr>"
    have "wf_dvar ?v \<and> dom_set ?v = dom_set v - {a..b}" by (rule exclude_set_wf [OF v(1,2) ab(1,3) refl m])
    then show ?thesis using n t by (cases t) (auto simp: excluded_def UPDATE_SIZE_def)
  qed
  show ?thesis
    unfolding exclude_inner_interval_bv_def bv0(2) fd_bind_simps o prod.case Let_def
    by (rule fd_safe_bind [OF loop [unfolded Let_def]]) (auto simp: fin simp del: not_None_eq)
qed

section \<open>The operations on a variable\<close>

lemma domain_region_noint_safe:
  assumes "wf_dvar v" "DV_var v = None"
  shows "fd_safe (domain_region_noint v a b m) (excluded_code v (- {a..b}))"
proof -
  have "excluded_code v (- {a..b}) (ok, v', m')" if "region_post v a b (ok, v', f, l, m')" for ok v' f l m'
  proof -
    have "dom_set v - - {a..b} = dom_set v \<inter> {a..b}" by auto
    with that show ?thesis by (auto simp: region_post_def excluded_code_def Let_def)
  qed
  then show ?thesis
    unfolding domain_region_noint_def by (intro fd_safe_bind [OF CALL_DOMAIN_REGION_safe [OF assms]]) auto
qed

lemma domain_region_aux_safe:
  assumes "wf_dvar v"
  shows "fd_safe (domain_region_aux v a b m) (excluded_code v (- {a..b}))"
  using domain_region_noint_safe [OF assms]
  by (cases "DV_var v") (auto simp: domain_region_aux_def excluded_code_def)

lemma excluded_code_cong:
  "excluded_code v S x \<Longrightarrow> dom_set v \<inter> S = dom_set v \<inter> T \<Longrightarrow> excluded_code v T x"
proof -
  assume "excluded_code v S x" and eq: "dom_set v \<inter> S = dom_set v \<inter> T"
  moreover have "dom_set v - S = dom_set v - T" "dom_set v \<subseteq> S \<longleftrightarrow> dom_set v \<subseteq> T" using eq by blast+
  ultimately show ?thesis by (simp add: excluded_code_def)
qed

lemma domain_exclude_interval_noint_safe:
  assumes v: "wf_dvar v" "DV_var v = None" and "a \<le> b"
  shows "fd_safe (domain_exclude_interval_noint v a b m) (excluded_code v {a..b})"
proof -
  note w = wf_dvarD [OF v]
  have low: "fd_safe (domain_region_noint v (b + 1) (DV_last v) m) (excluded_code v {a..b})" if "a \<le> DV_first v"
  proof -
    have "dom_set v \<inter> - {b + 1..DV_last v} = dom_set v \<inter> {a..b}" using that w(6) by auto
    then show ?thesis by (intro fd_safe_mono [OF domain_region_noint_safe [OF v]]) (rule excluded_code_cong)
  qed
  have up: "fd_safe (domain_region_noint v (DV_first v) (a - 1) m) (excluded_code v {a..b})" if "b \<ge> DV_last v"
  proof -
    have "dom_set v \<inter> - {DV_first v..a - 1} = dom_set v \<inter> {a..b}" using that w(6) by auto
    then show ?thesis by (intro fd_safe_mono [OF domain_region_noint_safe [OF v]]) (rule excluded_code_cong)
  qed
  have inner: "fd_safe (if IS_IT_DOMAIN v then it_to_bv_with_interval_holes v a b m else exclude_inner_interval_bv v a b m)
      (excluded v {a..b})" if "DV_first v < a" "b < DV_last v"
    using it_to_bv_with_interval_holes_safe [OF v _ that(1) assms(3) that(2)]
      exclude_inner_interval_bv_safe [OF v _ that(1) assms(3) that(2)]
    by (intro fd_safe_if) simp_all
  have rest: "\<not> dom_set v \<subseteq> {a..b}" if "DV_first v < a" using w(2) that by auto
  show ?thesis
    unfolding domain_exclude_interval_noint_def
    by (intro fd_safe_if low up fd_safe_bind [OF inner]) (simp_all add: excluded_code_True rest)
qed

lemma domain_exclude_interval_aux_safe:
  assumes "wf_dvar v" "a \<le> b"
  shows "fd_safe (domain_exclude_interval_aux v a b m) (excluded_code v {a..b})"
  using domain_exclude_interval_noint_safe [OF assms(1) _ assms(2)]
  by (cases "DV_var v") (auto simp: domain_exclude_interval_aux_def excluded_code_def)

lemma domain_set_false_bv_safe:
  assumes "wf_dvar v" "\<not> IS_IT_DOMAIN v"
  shows "fd_safe (domain_set_false_bv v e m) (excluded_code v {e})"
proof (cases "DV_var v")
  case None
  have "fd_safe (if e > DV_first v \<and> e < DV_last v then exclude_inner_elm_bv v e m else domain_set_false_noint v e m) (excluded v {e})"
    using exclude_inner_elm_bv_safe [OF assms(1) None assms(2), of e m] domain_set_false_noint_safe [OF assms(1) None, of e m]
    by (auto simp: excluded_def)
  then have "fd_safe (fd_bind (if e > DV_first v \<and> e < DV_last v then exclude_inner_elm_bv v e m else domain_set_false_noint v e m)
      (\<lambda>vm. Inr (True, vm))) (excluded_code v {e})"
    by (rule fd_safe_bind) (simp add: excluded_code_True not_single [OF assms(1) None])
  with None show ?thesis by (simp add: domain_set_false_bv_def)
next
  case (Some i)
  then show ?thesis by (auto simp: domain_set_false_bv_def excluded_code_def)
qed

lemma domain_exclude_first_bv_eq:
  "\<not> IS_IT_DOMAIN v \<Longrightarrow> DV_first v < DV_last v \<Longrightarrow> domain_exclude_first_bv v m = domain_set_false_noint v (DV_first v) m"
  by (simp add: domain_exclude_first_bv_def domain_set_false_noint_def)

lemma domain_exclude_last_bv_eq:
  "\<not> IS_IT_DOMAIN v \<Longrightarrow> DV_first v < DV_last v \<Longrightarrow> domain_exclude_last_bv v m = domain_set_false_noint v (DV_last v) m"
  by (simp add: domain_exclude_last_bv_def domain_set_false_noint_def)

end
