(* ===== verification/Domain_Rel.thy ===== *)
theory Domain_Rel
  imports Domain_Region
begin

text \<open>
  Questions about domains: inclusion and disjointness of two variables (\<open>DOMAIN_INCLUDE\<close>,
  \<open>domain_include_bv\<close>, \<open>dm_disjoint\<close> of \<open>emu/domain.c\<close>), with the word-parallel loops they use
  on vectors of one base, and the built-ins that read a domain. They answer what the sets say.
\<close>

section \<open>Inclusion\<close>

text \<open>
  The word loops: \<open>w1\<close> and \<open>w2\<close> are the current words of the two vectors, \<open>i\<close> their index, \<open>n\<close>
  the number of words up to the last one.
\<close>

fun include_words :: "bit_vector \<Rightarrow> bit_vector \<Rightarrow> nat \<Rightarrow> nat \<Rightarrow> bpulong \<Rightarrow> bpulong \<Rightarrow> nat \<Rightarrow> bool fd" where
  "include_words bv1 bv2 last_offset i w1 w2 0 =
     (let msk = drop_bit (64 - last_offset - 1) MASK_FF
      in Inr (NOT (w1 AND msk) AND (w2 AND msk) = 0))"
| "include_words bv1 bv2 last_offset i w1 w2 (Suc n) =
     (if NOT w1 AND w2 \<noteq> 0 then Inr False
      else fd_bind (word_at bv1 (i + 1)) (\<lambda>w1. fd_bind (word_at bv2 (i + 1)) (\<lambda>w2.
           include_words bv1 bv2 last_offset (i + 1) w1 w2 n)))"

function include_interval :: "bit_vector \<Rightarrow> int \<Rightarrow> int \<Rightarrow> bool fd" where
  "include_interval bv1 elm lst =
     (if elm < lst
      then fd_bind (dm_true_bv_nbt bv1 elm) (\<lambda>t. if \<not> t then Inr False else include_interval bv1 (elm + 1) lst)
      else Inr True)"
  by pat_completeness auto
termination by (relation "measure (\<lambda>(bv1, elm, lst). nat (lst - elm))") auto

function include_elements :: "bit_vector \<Rightarrow> dvar \<Rightarrow> int \<Rightarrow> int \<Rightarrow> bool fd" where
  "include_elements bv1 v2 elm lst =
     (if elm < lst
      then fd_bind (dv_next_bv v2 elm) (\<lambda>elm.
           fd_bind (dm_true_bv_nbt bv1 elm) (\<lambda>t. if \<not> t then Inr False else include_elements bv1 v2 (elm + 1) lst))
      else Inr True)"
  by pat_completeness auto
termination
  by (relation "measure (\<lambda>(bv1, v2, elm, lst). nat (lst - elm))")
    (auto simp: dv_next_bv_def fd_bind_Inr dest: domain_next_bv_least)

declare include_interval.simps [simp del] include_elements.simps [simp del]

definition domain_include_bv :: "dvar \<Rightarrow> dvar \<Rightarrow> bool fd" where
  "domain_include_bv v1 v2 =
     fd_bind (DV_bit_vector_ptr v1) (\<lambda>bv1.
     let elm = DV_first v2; lst = DV_last v2
     in case DV_type v2 of
          BV_DOMAIN bv2 \<Rightarrow>
            if BV_low_val bv1 = BV_low_val bv2
            then fd_bind (WORD_OFFSET bv1 elm) (\<lambda>(w1, i, offset).
                 let msk = push_bit offset MASK_FF
                 in fd_bind (word_at bv2 i) (\<lambda>w2.
                    fd_bind (WORD_OFFSET bv2 lst) (\<lambda>(last_w2, last_i, last_offset).
                    include_words bv1 bv2 last_offset i (w1 AND msk) (w2 AND msk) (last_i - i))))
            else fd_bind (dm_true_bv_nbt bv1 elm) (\<lambda>t1. if \<not> t1 then Inr False
                 else fd_bind (dm_true_bv_nbt bv1 lst) (\<lambda>t2. if \<not> t2 then Inr False
                 else include_elements bv1 v2 (elm + 1) lst))
        | IT_DOMAIN \<Rightarrow>
            fd_bind (dm_true_bv_nbt bv1 elm) (\<lambda>t1. if \<not> t1 then Inr False
            else fd_bind (dm_true_bv_nbt bv1 lst) (\<lambda>t2. if \<not> t2 then Inr False
            else include_interval bv1 (elm + 1) lst))
        | UN_DOMAIN \<Rightarrow>
            fd_bind (dm_true_bv_nbt bv1 elm) (\<lambda>t1. if \<not> t1 then Inr False
            else fd_bind (dm_true_bv_nbt bv1 lst) (\<lambda>t2. if \<not> t2 then Inr False
            else include_elements bv1 v2 (elm + 1) lst)))"

definition DOMAIN_INCLUDE :: "dvar \<Rightarrow> dvar \<Rightarrow> bool fd" where
  "DOMAIN_INCLUDE v1 v2 =
     (if DV_size v1 \<ge> DV_size v2 \<and> DV_first v1 \<le> DV_first v2 \<and> DV_last v1 \<ge> DV_last v2
      then if IS_IT_DOMAIN v1 then Inr True else domain_include_bv v1 v2
      else Inr False)"

section \<open>Disjointness\<close>

fun disjoint_words :: "bit_vector \<Rightarrow> bit_vector \<Rightarrow> nat \<Rightarrow> nat \<Rightarrow> bpulong \<Rightarrow> bpulong \<Rightarrow> nat \<Rightarrow> bool fd" where
  "disjoint_words bv1 bv2 last_offset i w1 w2 0 =
     Inr (w1 AND drop_bit (64 - last_offset - 1) MASK_FF AND w2 = 0)"
| "disjoint_words bv1 bv2 last_offset i w1 w2 (Suc n) =
     (if w1 AND w2 \<noteq> 0 then Inr False
      else fd_bind (word_at bv1 (i + 1)) (\<lambda>w1. fd_bind (word_at bv2 (i + 1)) (\<lambda>w2.
           disjoint_words bv1 bv2 last_offset (i + 1) w1 w2 n)))"

function disjoint_elements :: "dvar \<Rightarrow> dvar \<Rightarrow> int \<Rightarrow> int \<Rightarrow> bool fd" where
  "disjoint_elements v1 v2 mn mx =
     fd_bind (dm_true v1 mn) (\<lambda>t1.
     fd_bind (if t1 then dm_true v2 mn else Inr False) (\<lambda>t2.
     if t2 then Inr False
     else if mn \<ge> mx then Inr True
     else fd_bind (if \<not> IS_IT_DOMAIN v2 then dv_next_bv v2 (mn + 1) else Inr (mn + 1)) (\<lambda>mn.
          disjoint_elements v1 v2 mn mx)))"
  by pat_completeness auto
termination
  by (relation "measure (\<lambda>(v1, v2, mn, mx). nat (mx - mn))")
    (auto simp: dv_next_bv_def fd_bind_Inr split: if_splits dest: domain_next_bv_least)

declare disjoint_elements.simps [simp del]

definition dm_disjoint :: "dvar \<Rightarrow> dvar \<Rightarrow> bool fd" where
  "dm_disjoint v1 v2 =
     (if DV_first v1 = DV_first v2 then Inr False
      else if DV_last v1 = DV_last v2 then Inr False
      else let mn = (if DV_first v1 > DV_first v2 then DV_first v1 else DV_first v2);
               mx = (if DV_last v1 < DV_last v2 then DV_last v1 else DV_last v2)
           in if mn = mx then Inr False
              else if mn > mx then Inr True
              else if \<not> IS_IT_DOMAIN v1 \<and> \<not> IS_IT_DOMAIN v2
              then fd_bind (DV_bit_vector_ptr v1) (\<lambda>bv1. fd_bind (DV_bit_vector_ptr v2) (\<lambda>bv2.
                   if BV_low_val bv1 = BV_low_val bv2 \<and> BV_up_val bv1 = BV_up_val bv2
                   then fd_bind (WORD_OFFSET bv1 mn) (\<lambda>(w1, i, offset).
                        fd_bind (WORD_OFFSET bv2 mn) (\<lambda>(w2, i2, offset2).
                        fd_bind (WORD_OFFSET bv1 mx) (\<lambda>(last_w1, last_i, last_offset).
                        disjoint_words bv1 bv2 last_offset i (w1 AND push_bit offset MASK_FF) w2 (last_i - i))))
                   else disjoint_elements v1 v2 mn mx))
              else disjoint_elements v1 v2 mn mx)"

section \<open>Built-ins\<close>

text \<open>
  A dereferenced argument is an integer, a suspension variable or something else; the answer of a
  built-in that binds a free variable carries the value.
\<close>

datatype fd_term = Int_term int | Dvar_term dvar | Other_term
datatype 'a answer = BP_TRUE 'a | BP_FALSE | BP_ERROR      \<comment> \<open>the exception is \<open>illegal_arguments\<close>\<close>

definition answer_of :: "bool \<Rightarrow> unit answer" where
  "answer_of b = (if b then BP_TRUE () else BP_FALSE)"

definition b_DM_NEXT_ccf :: "fd_term \<Rightarrow> int \<Rightarrow> int answer fd" where
  "b_DM_NEXT_ccf t elm = (case t of
       Dvar_term v \<Rightarrow>
         if elm < DV_first v then Inr (BP_TRUE (DV_first v))
         else if elm \<ge> DV_last v then Inr BP_FALSE
         else fd_bind (if IS_IT_DOMAIN v then Inr (elm + 1) else dv_next_bv v (elm + 1)) (\<lambda>e. Inr (BP_TRUE e))
     | _ \<Rightarrow> Inr BP_ERROR)"

text \<open>\<open>b_DM_PREV_ccf\<close> does not test its argument, which must be a suspension variable.\<close>

definition b_DM_PREV_ccf :: "dvar \<Rightarrow> int \<Rightarrow> int answer fd" where
  "b_DM_PREV_ccf v elm =
     (if elm > DV_last v then Inr (BP_TRUE (DV_last v))
      else if elm \<le> DV_first v then Inr BP_FALSE
      else fd_bind (if IS_IT_DOMAIN v then Inr (elm - 1) else dv_prev_bv v (elm - 1)) (\<lambda>e. Inr (BP_TRUE e)))"

definition varorint_dm_true :: "int + dvar \<Rightarrow> int \<Rightarrow> bool fd" where
  "varorint_dm_true x elm = (case x of Inl i \<Rightarrow> Inr (i = elm) | Inr v \<Rightarrow> dm_true v elm)"

definition b_DM_INNER_TRUE_cc :: "dvar \<Rightarrow> fd_term \<Rightarrow> bool fd" where
  "b_DM_INNER_TRUE_cc v e = (case e of
       Int_term elm \<Rightarrow>
         if DV_first v \<noteq> elm \<and> DV_last v \<noteq> elm then dm_true v elm else Inr False
     | _ \<Rightarrow> Inr False)"

definition b_DM_MIN_MAX_cff :: "fd_term \<Rightarrow> (int \<times> int) answer" where
  "b_DM_MIN_MAX_cff t = (case t of
       Dvar_term v \<Rightarrow> if \<not> IS_UN_DOMAIN v then BP_TRUE (DV_first v, DV_last v) else BP_ERROR
     | Int_term i \<Rightarrow> BP_TRUE (i, i)
     | Other_term \<Rightarrow> BP_ERROR)"

definition b_DM_MIN_cf :: "fd_term \<Rightarrow> int answer" where
  "b_DM_MIN_cf t = (case t of
       Dvar_term v \<Rightarrow> if \<not> IS_UN_DOMAIN v then BP_TRUE (DV_first v) else BP_ERROR
     | Int_term i \<Rightarrow> BP_TRUE i
     | Other_term \<Rightarrow> BP_ERROR)"

definition b_DM_MAX_cf :: "fd_term \<Rightarrow> int answer" where
  "b_DM_MAX_cf t = (case t of
       Dvar_term v \<Rightarrow> if \<not> IS_UN_DOMAIN v then BP_TRUE (DV_last v) else BP_ERROR
     | Int_term i \<Rightarrow> BP_TRUE i
     | Other_term \<Rightarrow> BP_ERROR)"

definition b_DM_COUNT_cf :: "fd_term \<Rightarrow> int answer" where
  "b_DM_COUNT_cf t = (case t of
       Dvar_term v \<Rightarrow> BP_TRUE (DV_size v) | Int_term i \<Rightarrow> BP_TRUE 1 | Other_term \<Rightarrow> BP_ERROR)"

definition b_DM_DISJOINT_cc :: "int + dvar \<Rightarrow> int + dvar \<Rightarrow> bool fd" where
  "b_DM_DISJOINT_cc x y = (case (x, y) of
       (Inr v1, Inr v2) \<Rightarrow> dm_disjoint v1 v2
     | (Inr v1, Inl b) \<Rightarrow> fd_bind (dm_true v1 b) (\<lambda>t. Inr (\<not> t))
     | (Inl a, Inr v2) \<Rightarrow> fd_bind (dm_true v2 a) (\<lambda>t. Inr (\<not> t))
     | (Inl a, Inl b) \<Rightarrow> Inr (a \<noteq> b))"

text \<open>
  \<open>b_DM_INCLUDE\<close> compares the words when the first argument is an integer, so that a variable as
  the second one is never included, not even with a domain of that single value.
\<close>

definition b_DM_INCLUDE :: "int + dvar \<Rightarrow> int + dvar \<Rightarrow> bool fd" where
  "b_DM_INCLUDE x y = (case (x, y) of
       (Inr v1, Inr v2) \<Rightarrow> DOMAIN_INCLUDE v1 v2
     | (Inr v1, Inl b) \<Rightarrow> dm_true v1 b
     | (Inl a, Inl b) \<Rightarrow> Inr (a = b)
     | (Inl a, Inr v2) \<Rightarrow> Inr False)"

section \<open>What the word loops decide\<close>

text \<open>
  Both loops look at the bits from position \<open>a\<close>, in word \<open>i\<close>, to position \<open>b\<close>, in word \<open>i + n\<close>;
  \<open>scan_word w ws i j\<close> is the word they see at step \<open>j\<close>.
\<close>

definition scan_word :: "bpulong \<Rightarrow> bpulong list \<Rightarrow> nat \<Rightarrow> nat \<Rightarrow> bpulong" where
  "scan_word w ws i j = (if j = 0 then w else ws ! (i + j))"

lemma scan_word_simps [simp]:
  "scan_word w ws i 0 = w" "scan_word w ws i (Suc j) = scan_word (ws ! Suc i) ws (Suc i) j"
  by (simp_all add: scan_word_def)

lemma bit_upto_mask: "n < 64 \<Longrightarrow> bit (drop_bit (63 - n) MASK_FF) k \<longleftrightarrow> k \<le> n"
  by (auto simp: bit_drop_bit_eq)

definition scan_bits :: "nat \<Rightarrow> nat \<Rightarrow> (nat \<times> nat) set" where
  "scan_bits n lo = {(j, k). j \<le> n \<and> k < 64 \<and> (j = n \<longrightarrow> k \<le> lo)}"

lemma scan_bits_Suc:
  "(\<forall>(j, k) \<in> scan_bits (Suc n) lo. P j k) \<longleftrightarrow> (\<forall>k < 64. P 0 k) \<and> (\<forall>(j, k) \<in> scan_bits n lo. P (Suc j) k)"
proof -
  have "(j, k) \<in> scan_bits (Suc n) lo \<longleftrightarrow> (case j of 0 \<Rightarrow> k < 64 | Suc j \<Rightarrow> (j, k) \<in> scan_bits n lo)" for j k
    by (auto simp: scan_bits_def split: nat.split)
  then have "(\<forall>(j, k) \<in> scan_bits (Suc n) lo. P j k) \<longleftrightarrow>
      (\<forall>j k. (case j of 0 \<Rightarrow> k < 64 | Suc j \<Rightarrow> (j, k) \<in> scan_bits n lo) \<longrightarrow> P j k)" by blast
  also have "\<dots> \<longleftrightarrow> (\<forall>k < 64. P 0 k) \<and> (\<forall>(j, k) \<in> scan_bits n lo. P (Suc j) k)"
    by (auto split: nat.splits)
  finally show ?thesis .
qed

lemma scan_bits_0: "lo < 64 \<Longrightarrow> (\<forall>(j, k) \<in> scan_bits 0 lo. P j k) \<longleftrightarrow> (\<forall>k \<le> lo. P 0 k)"
  by (auto simp: scan_bits_def)

lemma include_words_all:
  assumes "lo < 64" "i + n < length (bv_words bv1)" "i + n < length (bv_words bv2)"
  shows "include_words bv1 bv2 lo i w1 w2 n = Inr (\<forall>(j, k) \<in> scan_bits n lo.
    bit (scan_word w2 (bv_words bv2) i j) k \<longrightarrow> bit (scan_word w1 (bv_words bv1) i j) k)"
  using assms(2,3)
proof (induction n arbitrary: i w1 w2)
  case 0
  have "NOT (w1 AND drop_bit (64 - lo - 1) MASK_FF) AND (w2 AND drop_bit (64 - lo - 1) MASK_FF) = 0 \<longleftrightarrow>
      (\<forall>k \<le> lo. bit w2 k \<longrightarrow> bit w1 k)"
    using assms(1) by (auto simp: and_eq_0_bits bit_upto_mask bit_not_iff bit_and_iff bit_or_iff)
  then show ?case unfolding scan_bits_0 [OF assms(1)] by (simp add: Let_def)
next
  case (Suc n)
  have "NOT w1 AND w2 = 0 \<longleftrightarrow> (\<forall>k < 64. bit w2 k \<longrightarrow> bit w1 k)"
    by (auto simp: and_eq_0_bits bit_not_iff)
  with Suc.IH [of "Suc i"] Suc.prems show ?case
    unfolding scan_bits_Suc by (simp add: word_at_def)
qed

lemma disjoint_words_all:
  assumes "lo < 64" "i + n < length (bv_words bv1)" "i + n < length (bv_words bv2)"
  shows "disjoint_words bv1 bv2 lo i w1 w2 n = Inr (\<forall>(j, k) \<in> scan_bits n lo.
    \<not> (bit (scan_word w2 (bv_words bv2) i j) k \<and> bit (scan_word w1 (bv_words bv1) i j) k))"
  using assms(2,3)
proof (induction n arbitrary: i w1 w2)
  case 0
  have "w1 AND drop_bit (64 - lo - 1) MASK_FF AND w2 = 0 \<longleftrightarrow> (\<forall>k \<le> lo. \<not> (bit w2 k \<and> bit w1 k))"
    using assms(1) by (auto simp: and_eq_0_bits bit_upto_mask bit_and_iff)
  then show ?case unfolding scan_bits_0 [OF assms(1)] by simp
next
  case (Suc n)
  have "w1 AND w2 = 0 \<longleftrightarrow> (\<forall>k < 64. \<not> (bit w2 k \<and> bit w1 k))" by (auto simp: and_eq_0_bits)
  with Suc.IH [of "Suc i"] Suc.prems show ?case
    unfolding scan_bits_Suc by (simp add: word_at_def)
qed

lemma scan_bits_positions:
  fixes a b L :: int
  assumes a: "a = L + 64 * int i + int k0" and b: "b = L + 64 * int (i + n) + int lo" and "k0 < 64" "lo < 64"
    and T: "\<And>j k. j \<le> n \<Longrightarrow> k < 64 \<Longrightarrow> a \<le> L + 64 * int (i + j) + int k \<Longrightarrow> T j k \<longleftrightarrow> M (L + 64 * int (i + j) + int k)"
    and before: "\<And>k. k < k0 \<Longrightarrow> T 0 k"
  shows "(\<forall>(j, k) \<in> scan_bits n lo. T j k) \<longleftrightarrow> (\<forall>x. a \<le> x \<and> x \<le> b \<longrightarrow> M x)"
proof
  assume all: "\<forall>(j, k) \<in> scan_bits n lo. T j k"
  show "\<forall>x. a \<le> x \<and> x \<le> b \<longrightarrow> M x"
  proof (intro allI impI)
    fix x assume x: "a \<le> x \<and> x \<le> b"
    define d where "d = nat (x - (L + 64 * int i))"
    have xd: "x = L + 64 * int i + int d" using x a by (simp add: d_def)
    define j k where "j = d div 64" and "k = d mod 64"
    have d: "d = 64 * j + k" "k < 64" by (simp_all add: j_def k_def)
    then have xj: "x = L + 64 * int (i + j) + int k" using xd by simp
    have "64 * int j + int k \<le> 64 * int n + int lo" using x b xj by simp
    then have "j \<le> n" "j = n \<longrightarrow> k \<le> lo" using d(2) assms(4) by linarith+
    then have "(j, k) \<in> scan_bits n lo" using d(2) by (simp add: scan_bits_def)
    with all have "T j k" by blast
    with T [OF \<open>j \<le> n\<close> d(2)] x show "M x" unfolding xj by blast
  qed
next
  assume all: "\<forall>x. a \<le> x \<and> x \<le> b \<longrightarrow> M x"
  have "T j k" if jk: "j \<le> n" "k < 64" "j = n \<longrightarrow> k \<le> lo" for j k
  proof (cases "a \<le> L + 64 * int (i + j) + int k")
    case True
    moreover have "L + 64 * int (i + j) + int k \<le> b"
      using jk assms(4) unfolding b by (cases "j = n") auto
    ultimately show ?thesis using all T [OF jk(1,2)] by blast
  next
    case False
    then have "j = 0" "k < k0" using a assms(3) by auto
    then show ?thesis using before by simp
  qed
  then show "\<forall>(j, k) \<in> scan_bits n lo. T j k" by (auto simp: scan_bits_def)
qed

text \<open>The setting of both loops: two vectors of one base over the values from \<open>a\<close> to \<open>b\<close>.\<close>

lemma same_base_positions:
  assumes "BV_low_val bv1 = BV_low_val bv2"
    and "bv_member bv1 x1" "x1 \<le> a" "bv_member bv1 y1" "b \<le> y1"
    and "bv_member bv2 x2" "x2 \<le> a" "bv_member bv2 y2" "b \<le> y2" and "a \<le> b"
  obtains i k n lo where
    "WORD_OFFSET bv1 a = Inr (bv_words bv1 ! i, i, k)" "WORD_OFFSET bv2 a = Inr (bv_words bv2 ! i, i, k)"
    "WORD_OFFSET bv1 b = Inr (bv_words bv1 ! (i + n), i + n, lo)" "WORD_OFFSET bv2 b = Inr (bv_words bv2 ! (i + n), i + n, lo)"
    "k < 64" "lo < 64" "i + n < length (bv_words bv1)" "i + n < length (bv_words bv2)"
    "a = BV_low_val bv1 + 64 * int i + int k" "b = BV_low_val bv1 + 64 * int (i + n) + int lo"
proof -
  note r1 = bv_between [OF assms(2,4)] and r2 = bv_between [OF assms(6,8)]
  obtain i k where 1: "WORD_OFFSET bv1 a = Inr (bv_words bv1 ! i, i, k)"
    by (rule WORD_OFFSET_ok [OF r1 [of a]]) (use assms in auto)
  obtain i' lo where 2: "WORD_OFFSET bv1 b = Inr (bv_words bv1 ! i', i', lo)"
    by (rule WORD_OFFSET_ok [OF r1 [of b]]) (use assms in auto)
  from 1 2 have p: "k < 64" "lo < 64" "a = BV_low_val bv1 + 64 * int i + int k" "b = BV_low_val bv1 + 64 * int i' + int lo"
    "i' < length (bv_words bv1)" by (auto simp: WORD_OFFSET_Inr)
  then have "i \<le> i'" using assms(10) by linarith
  then obtain n where n: "i' = i + n" using le_Suc_ex by blast
  have "b < BV_low_val bv2 + 64 * int (length (bv_words bv2))" using r2 [of b] assms by auto
  then have "64 * int (i + n) < 64 * int (length (bv_words bv2))" using p(4) assms(1) unfolding n by simp
  then have l: "i + n < length (bv_words bv2)" by simp
  show ?thesis
    using 1 2 p l assms(1) unfolding n by (intro that [of i k n lo]) (auto simp: WORD_OFFSET_Inr)
qed

lemma include_same_base:
  assumes "BV_low_val bv1 = BV_low_val bv2" "k0 < 64" "lo < 64" "i + n < length (bv_words bv1)" "i + n < length (bv_words bv2)"
    and "a = BV_low_val bv1 + 64 * int i + int k0" "b = BV_low_val bv1 + 64 * int (i + n) + int lo"
  shows "include_words bv1 bv2 lo i (bv_words bv1 ! i AND push_bit k0 MASK_FF) (bv_words bv2 ! i AND push_bit k0 MASK_FF) n
    = Inr (\<forall>x. a \<le> x \<and> x \<le> b \<longrightarrow> bv_member bv2 x \<longrightarrow> bv_member bv1 x)"
proof -
  have m: "bit (scan_word (bv_words bv ! i AND push_bit k0 MASK_FF) (bv_words bv) i j) k \<longleftrightarrow>
      bv_member bv (BV_low_val bv1 + 64 * int (i + j) + int k)"
    if "j \<le> n" "k < 64" "a \<le> BV_low_val bv1 + 64 * int (i + j) + int k" "BV_low_val bv = BV_low_val bv1" "i + n < length (bv_words bv)"
    for bv j k
    using that bv_member_at [of "i + j" bv k] assms(2,6)
    by (cases j) (auto simp: scan_word_def bit_and_iff bit_push_bit_iff)
  show ?thesis
    unfolding include_words_all [OF assms(3-5)]
    by (subst scan_bits_positions [OF assms(6,7,2,3)]) (use m assms in \<open>auto simp: bit_and_iff bit_push_bit_iff\<close>)
qed

lemma disjoint_same_base:
  assumes "BV_low_val bv1 = BV_low_val bv2" "k0 < 64" "lo < 64" "i + n < length (bv_words bv1)" "i + n < length (bv_words bv2)"
    and "a = BV_low_val bv1 + 64 * int i + int k0" "b = BV_low_val bv1 + 64 * int (i + n) + int lo"
  shows "disjoint_words bv1 bv2 lo i (bv_words bv1 ! i AND push_bit k0 MASK_FF) (bv_words bv2 ! i) n
    = Inr (\<forall>x. a \<le> x \<and> x \<le> b \<longrightarrow> \<not> (bv_member bv2 x \<and> bv_member bv1 x))"
proof -
  have m1: "bit (scan_word (bv_words bv1 ! i AND push_bit k0 MASK_FF) (bv_words bv1) i j) k \<longleftrightarrow>
      bv_member bv1 (BV_low_val bv1 + 64 * int (i + j) + int k)"
    if "j \<le> n" "k < 64" "a \<le> BV_low_val bv1 + 64 * int (i + j) + int k" for j k
    using that bv_member_at [of "i + j" bv1 k] assms(2,4,6)
    by (cases j) (auto simp: scan_word_def bit_and_iff bit_push_bit_iff)
  have m2: "bit (scan_word (bv_words bv2 ! i) (bv_words bv2) i j) k \<longleftrightarrow>
      bv_member bv2 (BV_low_val bv1 + 64 * int (i + j) + int k)" if "j \<le> n" "k < 64" for j k
    using that bv_member_at [of "i + j" bv2 k] assms(1,5) by (cases j) (auto simp: scan_word_def)
  show ?thesis
    unfolding disjoint_words_all [OF assms(3-5)]
    by (subst scan_bits_positions [OF assms(6,7,2,3)]) (use m1 m2 assms in \<open>auto simp: bit_and_iff bit_push_bit_iff\<close>)
qed

section \<open>The answers are those of the sets\<close>

lemma all_from: "a < b \<Longrightarrow> (\<forall>x. a \<le> x \<and> x < b \<longrightarrow> P x) \<longleftrightarrow> P a \<and> (\<forall>x. a + 1 \<le> x \<and> x < b \<longrightarrow> P x)" for a b :: int
  by (metis add1_zle_eq order_le_less)

lemma interval_ends: "a \<le> b \<Longrightarrow> {a..b} = insert a (insert b {a + 1..<b})" for a b :: int
  by auto

lemma include_interval_all:
  assumes "\<And>x. a \<le> x \<Longrightarrow> x < b \<Longrightarrow> dm_true_bv_nbt bv1 x = Inr (bv_member bv1 x)"
  shows "include_interval bv1 a b = Inr (\<forall>x. a \<le> x \<and> x < b \<longrightarrow> bv_member bv1 x)"
  using assms
proof (induction bv1 a b rule: include_interval.induct)
  case (1 bv1 a b)
  show ?case
  proof (cases "a < b")
    case False
    then show ?thesis by (subst include_interval.simps) auto
  next
    case True
    then have t: "dm_true_bv_nbt bv1 a = Inr (bv_member bv1 a)" using "1.prems" by simp
    show ?thesis
    proof (cases "bv_member bv1 a")
      case False
      with True t show ?thesis by (subst include_interval.simps) auto
    next
      case mem: True
      have "include_interval bv1 (a + 1) b = Inr (\<forall>x. a + 1 \<le> x \<and> x < b \<longrightarrow> bv_member bv1 x)"
        using "1.IH" [OF True t] mem "1.prems" by simp
      moreover have "(\<forall>x. a \<le> x \<and> x < b \<longrightarrow> bv_member bv1 x) \<longleftrightarrow> (\<forall>x. a + 1 \<le> x \<and> x < b \<longrightarrow> bv_member bv1 x)"
        using mem all_from [OF True] by blast
      ultimately show ?thesis using True t mem by (subst include_interval.simps) simp
    qed
  qed
qed

lemma include_elements_all:
  assumes "wf_dvar v2" "DV_var v2 = None" "\<not> IS_IT_DOMAIN v2" "b = DV_last v2" "DV_first v2 \<le> a"
    and "\<And>x. DV_first v2 \<le> x \<Longrightarrow> x \<le> b \<Longrightarrow> dm_true_bv_nbt bv1 x = Inr (bv_member bv1 x)" "bv_member bv1 b"
  shows "include_elements bv1 v2 a b = Inr (\<forall>x \<in> dom_set v2. a \<le> x \<longrightarrow> bv_member bv1 x)"
  using assms
proof (induction bv1 v2 a b rule: include_elements.induct)
  case (1 bv1 v2 a b)
  note w = wf_dvarD [OF "1.prems"(1,2)]
  show ?case
  proof (cases "a < b")
    case False
    then have "\<forall>x \<in> dom_set v2. a \<le> x \<longrightarrow> x = b" using w(6) "1.prems"(4) by auto
    with False "1.prems"(7) show ?thesis by (subst include_elements.simps) auto
  next
    case True
    obtain e where e: "dv_next_bv v2 a = Inr e" "e \<in> dom_set v2" "a \<le> e" "\<forall>x \<in> dom_set v2. a \<le> x \<longrightarrow> e \<le> x"
      using dv_next_mem [OF "1.prems"(1-3,5), of thesis] True "1.prems"(4) by auto
    have t: "dm_true_bv_nbt bv1 e = Inr (bv_member bv1 e)" using e(2) w(6) "1.prems"(4,6) by auto
    show ?thesis
    proof (cases "bv_member bv1 e")
      case False
      with True e t show ?thesis by (subst include_elements.simps) auto
    next
      case mem: True
      have "include_elements bv1 v2 (e + 1) b = Inr (\<forall>x \<in> dom_set v2. e + 1 \<le> x \<longrightarrow> bv_member bv1 x)"
        using "1.IH" [OF True e(1) t] mem "1.prems" e(3) by simp
      moreover have "(\<forall>x \<in> dom_set v2. a \<le> x \<longrightarrow> bv_member bv1 x) \<longleftrightarrow> (\<forall>x \<in> dom_set v2. e + 1 \<le> x \<longrightarrow> bv_member bv1 x)"
        using mem e(3,4) by (force simp: order_le_less)
      ultimately show ?thesis using True e(1) t mem by (subst include_elements.simps) simp
    qed
  qed
qed

lemma domain_include_bv_sets:
  assumes v1: "wf_dvar v1" "DV_var v1 = None" "\<not> IS_IT_DOMAIN v1" and v2: "wf_dvar v2" "DV_var v2 = None"
    and b: "DV_first v1 \<le> DV_first v2" "DV_last v2 \<le> DV_last v1"
  shows "domain_include_bv v1 v2 = Inr (dom_set v2 \<subseteq> dom_set v1)"
proof -
  from v1(1,2) obtain bv1 where bv1: "DV_type v1 = BV_DOMAIN bv1" "DV_bit_vector_ptr v1 = Inr bv1"
    "bv_member bv1 (DV_first v1)" "bv_member bv1 (DV_last v1)"
    by (cases rule: wf_dvar_cases) (use v1(3) in auto)
  note w2 = wf_dvarD [OF v2]
  have t: "dm_true_bv_nbt bv1 x = Inr (bv_member bv1 x)" if "DV_first v2 \<le> x" "x \<le> DV_last v2" for x
    using bv_between [OF bv1(3,4), of x] b that by (intro dm_true_bv_nbt_ok) auto
  have sub: "dom_set v2 \<subseteq> dom_set v1 \<longleftrightarrow> (\<forall>x \<in> dom_set v2. bv_member bv1 x)"
    using bv1(1) v1(2) b w2(6) by (auto simp: subset_iff)
  from v2 show ?thesis
  proof (cases rule: wf_dvar_cases)
    case interval
    have d: "dom_set v2 = {DV_first v2..DV_last v2}" using interval v2(2) by simp
    have split: "(\<forall>x \<in> dom_set v2. bv_member bv1 x) \<longleftrightarrow> bv_member bv1 (DV_first v2) \<and> bv_member bv1 (DV_last v2) \<and>
        (\<forall>x. DV_first v2 + 1 \<le> x \<and> x < DV_last v2 \<longrightarrow> bv_member bv1 x)"
      unfolding d interval_ends [OF less_imp_le [OF w2(1)]] by auto
    have "include_interval bv1 (DV_first v2 + 1) (DV_last v2) =
        Inr (\<forall>x. DV_first v2 + 1 \<le> x \<and> x < DV_last v2 \<longrightarrow> bv_member bv1 x)"
      by (rule include_interval_all) (simp add: t)
    then show ?thesis using w2(1) unfolding sub split
      by (simp add: domain_include_bv_def bv1(2) interval(1) Let_def t)
  next
    case (vector bv2)
    show ?thesis
    proof (cases "BV_low_val bv1 = BV_low_val bv2")
      case True
      have "DV_first v2 \<le> DV_last v2" using w2(1) by simp
      from same_base_positions [OF True bv1(3) b(1) bv1(4) b(2) vector(5) order_refl vector(6) order_refl this]
      obtain i k n lo where p:
        "WORD_OFFSET bv1 (DV_first v2) = Inr (bv_words bv1 ! i, i, k)"
        "WORD_OFFSET bv2 (DV_last v2) = Inr (bv_words bv2 ! (i + n), i + n, lo)"
        "k < 64" "lo < 64" "i + n < length (bv_words bv1)" "i + n < length (bv_words bv2)"
        "DV_first v2 = BV_low_val bv1 + 64 * int i + int k" "DV_last v2 = BV_low_val bv1 + 64 * int (i + n) + int lo"
        by metis
      have w: "word_at bv2 i = Inr (bv_words bv2 ! i)" using p(6) by (simp add: word_at_def)
      have "(\<forall>x. DV_first v2 \<le> x \<and> x \<le> DV_last v2 \<longrightarrow> bv_member bv2 x \<longrightarrow> bv_member bv1 x) \<longleftrightarrow> (\<forall>x \<in> dom_set v2. bv_member bv1 x)"
        using vector(1) v2(2) by auto
      with include_same_base [OF True p(3-8)] show ?thesis
        unfolding sub by (simp add: domain_include_bv_def bv1(2) vector(1) Let_def True p(1,2) w)
    next
      case False
      have "include_elements bv1 v2 (DV_first v2 + 1) (DV_last v2) =
          Inr (\<forall>x \<in> dom_set v2. DV_first v2 + 1 \<le> x \<longrightarrow> bv_member bv1 x)" if "bv_member bv1 (DV_last v2)"
        by (rule include_elements_all [OF v2 vector(2) refl _ t that]) simp_all
      moreover have "x = DV_first v2 \<or> DV_first v2 + 1 \<le> x" if "x \<in> dom_set v2" for x
        using subsetD [OF w2(6) that] by auto
      then have "(\<forall>x \<in> dom_set v2. bv_member bv1 x) \<longleftrightarrow> bv_member bv1 (DV_first v2) \<and> bv_member bv1 (DV_last v2) \<and>
          (\<forall>x \<in> dom_set v2. DV_first v2 + 1 \<le> x \<longrightarrow> bv_member bv1 x)"
        using w2(2,3) by metis
      ultimately show ?thesis using w2(1) unfolding sub
        by (auto simp: domain_include_bv_def bv1(2) vector(1) Let_def t False)
    qed
  qed
qed

lemma DOMAIN_INCLUDE_sets:
  assumes v1: "wf_dvar v1" "DV_var v1 = None" and v2: "wf_dvar v2" "DV_var v2 = None"
  shows "DOMAIN_INCLUDE v1 v2 = Inr (dom_set v2 \<subseteq> dom_set v1)"
proof -
  note w1 = wf_dvarD [OF v1] and w2 = wf_dvarD [OF v2]
  have "DV_size v2 \<le> DV_size v1 \<and> DV_first v1 \<le> DV_first v2 \<and> DV_last v2 \<le> DV_last v1" if "dom_set v2 \<subseteq> dom_set v1"
    using that w1(4,6) w2(2-4) card_mono [OF finite_dom_set that] by auto
  moreover have "dom_set v2 \<subseteq> dom_set v1" if "IS_IT_DOMAIN v1" "DV_first v1 \<le> DV_first v2" "DV_last v2 \<le> DV_last v1"
    using that v1(2) w2(6) by (auto simp: IS_IT_DOMAIN_def)
  ultimately show ?thesis
    using domain_include_bv_sets [OF v1 _ v2] by (auto simp: DOMAIN_INCLUDE_def)
qed

lemma disjoint_elements_all:
  assumes v1: "wf_dvar v1" "DV_var v1 = None" and v2: "wf_dvar v2" "DV_var v2 = None"
    and "mx = min (DV_last v1) (DV_last v2)" "DV_first v2 \<le> mn"
  shows "disjoint_elements v1 v2 mn mx = Inr (\<forall>x. mn \<le> x \<longrightarrow> \<not> (x \<in> dom_set v1 \<and> x \<in> dom_set v2))"
  using assms
proof (induction v1 v2 mn mx rule: disjoint_elements.induct)
  case (1 v1 v2 mn mx)
  note v1 = "1.prems"(1,2) and v2 = "1.prems"(3,4)
  note w1 = wf_dvarD [OF v1] and w2 = wf_dvarD [OF v2]
  have t: "(if mn \<in> dom_set v1 then dm_true v2 mn else Inr False) = Inr (mn \<in> dom_set v1 \<and> mn \<in> dom_set v2)"
    by (simp add: dm_true_mem [OF v2])
  show ?case
  proof (cases "mn \<in> dom_set v1 \<and> mn \<in> dom_set v2")
    case True
    then show ?thesis by (subst disjoint_elements.simps) (auto simp: dm_true_mem [OF v1] dm_true_mem [OF v2])
  next
    case both: False
    show ?thesis
    proof (cases "mn \<ge> mx")
      case True
      have "\<not> (x \<in> dom_set v1 \<and> x \<in> dom_set v2)" if "mn \<le> x" for x
      proof (cases "x = mn")
        case False
        with that True "1.prems"(5) have "DV_last v1 < x \<or> DV_last v2 < x" by auto
        then show ?thesis using w1(6) w2(6) by auto
      qed (use both in simp)
      with True both show ?thesis
        by (subst disjoint_elements.simps) (auto simp: dm_true_mem [OF v1] t)
    next
      case False
      have "\<exists>e. (if \<not> IS_IT_DOMAIN v2 then dv_next_bv v2 (mn + 1) else Inr (mn + 1)) = Inr e \<and> mn < e \<and>
          (\<forall>x \<in> dom_set v2. mn < x \<longrightarrow> e \<le> x)"
      proof (cases "IS_IT_DOMAIN v2")
        case True
        then show ?thesis by auto
      next
        case nit: False
        obtain e where e: "dv_next_bv v2 (mn + 1) = Inr e" "e \<in> dom_set v2" "mn + 1 \<le> e" "\<forall>x \<in> dom_set v2. mn + 1 \<le> x \<longrightarrow> e \<le> x"
          by (rule dv_next_mem [OF v2 nit, of "mn + 1"]) (use False "1.prems"(5,6) in auto)
        with nit show ?thesis by (intro exI [of _ e]) auto
      qed
      then obtain e where e: "(if \<not> IS_IT_DOMAIN v2 then dv_next_bv v2 (mn + 1) else Inr (mn + 1)) = Inr e" "mn < e"
          "\<forall>x \<in> dom_set v2. mn < x \<longrightarrow> e \<le> x" by blast
      have f: "\<not> (mn \<in> dom_set v1 \<and> mn \<in> dom_set v2)" using both by simp
      have "disjoint_elements v1 v2 e mx = Inr (\<forall>x. e \<le> x \<longrightarrow> \<not> (x \<in> dom_set v1 \<and> x \<in> dom_set v2))"
        using "1.IH" [OF dm_true_mem [OF v1] t f False e(1)] "1.prems" e(2) by simp
      moreover have "(\<forall>x. mn \<le> x \<longrightarrow> \<not> (x \<in> dom_set v1 \<and> x \<in> dom_set v2)) \<longleftrightarrow>
          (\<forall>x. e \<le> x \<longrightarrow> \<not> (x \<in> dom_set v1 \<and> x \<in> dom_set v2))"
        using e(2,3) f by (metis order_le_less order_trans)
      ultimately show ?thesis
        using False by (subst disjoint_elements.simps) (simp only: dm_true_mem [OF v1] fd_bind_simps t f e(1) if_False)
    qed
  qed
qed

lemma dm_disjoint_sets:
  assumes v1: "wf_dvar v1" "DV_var v1 = None" and v2: "wf_dvar v2" "DV_var v2 = None"
  shows "dm_disjoint v1 v2 = Inr (dom_set v1 \<inter> dom_set v2 = {})"
proof -
  note w1 = wf_dvarD [OF v1] and w2 = wf_dvarD [OF v2]
  let ?mn = "if DV_first v1 > DV_first v2 then DV_first v1 else DV_first v2"
  let ?mx = "if DV_last v1 < DV_last v2 then DV_last v1 else DV_last v2"
  have meets: "dom_set v1 \<inter> dom_set v2 \<noteq> {}" if "DV_first v1 = DV_first v2 \<or> DV_last v1 = DV_last v2 \<or> ?mn = ?mx"
    using that w1 w2 by (auto split: if_splits)
  have apart: "dom_set v1 \<inter> dom_set v2 = {}" if "?mn > ?mx" using that w1(6) w2(6) by (fastforce split: if_splits)
  have D: "(\<forall>x. ?mn \<le> x \<longrightarrow> \<not> (x \<in> dom_set v1 \<and> x \<in> dom_set v2)) \<longleftrightarrow> dom_set v1 \<inter> dom_set v2 = {}"
    using w1(6) w2(6) by (fastforce split: if_splits)
  have elements: "disjoint_elements v1 v2 ?mn ?mx = Inr (dom_set v1 \<inter> dom_set v2 = {})"
    unfolding D [symmetric] by (rule disjoint_elements_all [OF v1 v2]) auto
  show ?thesis
  proof (cases "DV_first v1 = DV_first v2 \<or> DV_last v1 = DV_last v2 \<or> ?mn = ?mx \<or> ?mn > ?mx \<or> IS_IT_DOMAIN v1 \<or> IS_IT_DOMAIN v2")
    case True
    then show ?thesis using meets apart elements by (auto simp: dm_disjoint_def Let_def)
  next
    case False
    from v1 obtain bv1 where bv1: "DV_type v1 = BV_DOMAIN bv1" "DV_bit_vector_ptr v1 = Inr bv1"
      "bv_member bv1 (DV_first v1)" "bv_member bv1 (DV_last v1)" by (cases rule: wf_dvar_cases) (use False in auto)
    from v2 obtain bv2 where bv2: "DV_type v2 = BV_DOMAIN bv2" "DV_bit_vector_ptr v2 = Inr bv2"
      "bv_member bv2 (DV_first v2)" "bv_member bv2 (DV_last v2)" by (cases rule: wf_dvar_cases) (use False in auto)
    show ?thesis
    proof (cases "BV_low_val bv1 = BV_low_val bv2 \<and> BV_up_val bv1 = BV_up_val bv2")
      case base: True
      have le: "DV_first v1 \<le> ?mn" "DV_first v2 \<le> ?mn" "?mx \<le> DV_last v1" "?mx \<le> DV_last v2" "?mn \<le> ?mx"
        using False by (auto split: if_splits)
      from same_base_positions [OF conjunct1 [OF base] bv1(3) le(1) bv1(4) le(3) bv2(3) le(2) bv2(4) le(4,5)]
      obtain i k n lo where p:
        "WORD_OFFSET bv1 ?mn = Inr (bv_words bv1 ! i, i, k)" "WORD_OFFSET bv2 ?mn = Inr (bv_words bv2 ! i, i, k)"
        "WORD_OFFSET bv1 ?mx = Inr (bv_words bv1 ! (i + n), i + n, lo)"
        "k < 64" "lo < 64" "i + n < length (bv_words bv1)" "i + n < length (bv_words bv2)"
        "?mn = BV_low_val bv1 + 64 * int i + int k" "?mx = BV_low_val bv1 + 64 * int (i + n) + int lo"
        by metis
      have "x \<in> dom_set v1 \<and> x \<in> dom_set v2 \<longleftrightarrow> ?mn \<le> x \<and> x \<le> ?mx \<and> bv_member bv2 x \<and> bv_member bv1 x" for x
        using bv1(1) bv2(1) v1(2) v2(2) by auto
      then have "(\<forall>x. ?mn \<le> x \<and> x \<le> ?mx \<longrightarrow> \<not> (bv_member bv2 x \<and> bv_member bv1 x)) \<longleftrightarrow> dom_set v1 \<inter> dom_set v2 = {}"
        by blast
      with disjoint_same_base [OF conjunct1 [OF base] p(4-9)] False base bv1 bv2 show ?thesis
        by (simp only: dm_disjoint_def Let_def p(1-3) fd_bind_simps prod.case if_False if_True de_Morgan_disj simp_thms add_diff_cancel_left')
    next
      case nb: False
      with False bv1 bv2 elements show ?thesis
        by (simp only: dm_disjoint_def Let_def fd_bind_simps if_False if_True de_Morgan_disj simp_thms)
    qed
  qed
qed

end
