(* ===== verification/Backtrack.thy ===== *)
theory Backtrack
  imports Domain_Region
begin

text \<open>
  What the trail is for: undoing the entries pushed since the choice point gives back the variable
  the operations of \<open>Domain\<close> started from. A cell is trailed when its address is below \<open>hbreg\<close>, so a
  vector made after the choice point is updated without trailing; the invariant \<open>restores\<close> says that
  its contents do not matter once the type cell is undone. \<open>fd_post r Q\<close> is partial: it says nothing
  of an error.
\<close>

definition fd_post :: "'a fd \<Rightarrow> ('a \<Rightarrow> bool) \<Rightarrow> bool" where
  "fd_post r Q \<longleftrightarrow> (\<forall>x. r = Inr x \<longrightarrow> Q x)"

named_theorems post_intros "partial-correctness rules of the operations"

lemma fd_post_simps [simp]: "fd_post (Inr x) Q \<longleftrightarrow> Q x" "fd_post (Inl e) Q"
  by (simp_all add: fd_post_def)

lemma fd_post_bind: "fd_post r P \<Longrightarrow> (\<And>x. P x \<Longrightarrow> fd_post (f x) Q) \<Longrightarrow> fd_post (fd_bind r f) Q"
  by (cases r) auto

lemma fd_post_any: "(\<And>x. fd_post (f x) Q) \<Longrightarrow> fd_post (fd_bind r f) Q"
  by (cases r) auto

lemma fd_post_if [post_intros]: "(b \<Longrightarrow> fd_post r Q) \<Longrightarrow> (\<not> b \<Longrightarrow> fd_post s Q) \<Longrightarrow> fd_post (if b then r else s) Q"
  by simp

lemma fd_post_mono: "fd_post r P \<Longrightarrow> (\<And>x. P x \<Longrightarrow> Q x) \<Longrightarrow> fd_post r Q"
  by (cases r) auto

lemma fd_postD: "fd_post r Q \<Longrightarrow> r = Inr x \<Longrightarrow> Q x"
  by simp

lemma fd_post_fold: "(\<And>x s. P s \<Longrightarrow> fd_post (f x s) P) \<Longrightarrow> P s \<Longrightarrow> fd_post (fd_fold f xs s) P"
  by (induction xs arbitrary: s) (auto intro: fd_post_bind)

section \<open>The invariant\<close>

text \<open>A vector is entirely younger than the choice point or entirely older.\<close>

definition young :: "int \<Rightarrow> bit_vector \<Rightarrow> bool" where
  "young h bv \<longleftrightarrow> h \<le> bv_addr bv"

definition older :: "int \<Rightarrow> bit_vector \<Rightarrow> bool" where
  "older h bv \<longleftrightarrow> bv_addr bv + 2 + int (length (bv_words bv)) \<le> h"

definition settled :: "int \<Rightarrow> dvar \<Rightarrow> bool" where
  "settled h v \<longleftrightarrow> dv_ptr v + 10 \<le> h \<and> (\<forall>bv. DV_type v = BV_DOMAIN bv \<longrightarrow> young h bv \<or> older h bv)"

definition before_choice_point :: "int \<Rightarrow> dvar \<Rightarrow> bool" where
  "before_choice_point h v \<longleftrightarrow> dv_ptr v + 10 \<le> h \<and> (\<forall>bv. DV_type v = BV_DOMAIN bv \<longrightarrow> older h bv)"

text \<open>The same variable up to the contents of a young vector.\<close>

definition same_old :: "int \<Rightarrow> dvar \<Rightarrow> dvar \<Rightarrow> bool" where
  "same_old h v w \<longleftrightarrow> w = v \<or>
     (\<exists>bv bw. DV_type v = BV_DOMAIN bv \<and> young h bv \<and> young h bw \<and> w = v\<lparr>DV_type := BV_DOMAIN bw\<rparr>)"

lemma same_old_refl [simp]: "same_old h v v"
  by (simp add: same_old_def)

lemma same_old_trans: "same_old h u v \<Longrightarrow> same_old h v w \<Longrightarrow> same_old h u w"
  by (auto simp: same_old_def)

lemma same_old_young:
  "young h bv \<Longrightarrow> young h bw \<Longrightarrow> same_old h (v\<lparr>DV_type := BV_DOMAIN bv\<rparr>) (v\<lparr>DV_type := BV_DOMAIN bw\<rparr>)"
  by (auto simp: same_old_def)

lemma same_old_word:
  assumes "DV_type v = BV_DOMAIN bv" "young h bv" "bv_addr bw = bv_addr bv"
  shows "same_old h v (v\<lparr>DV_type := BV_DOMAIN bw\<rparr>)"
  unfolding same_old_def
  by (intro disjI2 exI [of _ bv] exI [of _ bw]) (use assms in \<open>simp add: young_def\<close>)

text \<open>Undoing a cell other than the type.\<close>

lemma same_old_pop:
  assumes "same_old h v' w" "DV_type v' = DV_type v" "\<And>t. pop (v'\<lparr>DV_type := t\<rparr>) = v\<lparr>DV_type := t\<rparr>"
  shows "same_old h v (pop w)"
proof -
  have id: "u\<lparr>DV_type := DV_type u\<rparr> = u" for u :: dvar by simp
  from assms(1) consider "w = v'" | bv bw where "DV_type v' = BV_DOMAIN bv" "young h bv" "young h bw" "w = v'\<lparr>DV_type := BV_DOMAIN bw\<rparr>"
    by (auto simp: same_old_def)
  then show ?thesis
  proof cases
    case 1
    with assms(3) [of "DV_type v'"] have "pop v' = v\<lparr>DV_type := DV_type v'\<rparr>" by (simp only: id)
    with 1 assms(2) show ?thesis by (simp add: same_old_def)
  next
    case 2
    show ?thesis unfolding same_old_def
      by (intro disjI2 exI [of _ bv] exI [of _ bw]) (use 2 assms(2,3) in simp)
  qed
qed

definition undoes :: "int \<Rightarrow> (trail_tag \<times> int \<times> cell) list \<Rightarrow> dvar \<Rightarrow> dvar \<Rightarrow> bool" where
  "undoes h es v0 v \<longleftrightarrow> (\<forall>w. same_old h v w \<longrightarrow> UNDO_TRAILING es w = v0)"

definition restores :: "int \<Rightarrow> (trail_tag \<times> int \<times> cell) list \<Rightarrow> dvar \<Rightarrow> dvar \<Rightarrow> machine \<Rightarrow> bool" where
  "restores h t0 v0 v m \<longleftrightarrow> hbreg m = h \<and> h \<le> heap_top m \<and> settled h v \<and>
     (\<exists>es. trail m = es @ t0 \<and> undoes h es v0 v)"

lemma restores_start:
  assumes "before_choice_point h v" "hbreg m = h" "h \<le> heap_top m"
  shows "restores h (trail m) v v m"
proof -
  have "w = v" if "same_old h v w" for w
    using that assms(1) by (auto simp: same_old_def before_choice_point_def young_def older_def)
  then have "undoes h [] v v" by (auto simp: undoes_def UNDO_TRAILING_def)
  with assms show ?thesis by (auto simp: restores_def before_choice_point_def settled_def)
qed

lemma restores_undo:
  assumes "restores h t0 v0 v m"
  shows "UNDO_TRAILING (take (length (trail m) - length t0) (trail m)) v = v0"
  using assms by (auto simp: restores_def undoes_def)

section \<open>The steps that keep it\<close>

text \<open>Events and young memory do not concern it; an old cell is trailed before it is written.\<close>

lemma restores_frame:
  assumes "restores h t0 v0 v m" "trail m' = trail m" "hbreg m' = hbreg m" "heap_top m \<le> heap_top m'"
  shows "restores h t0 v0 v m'"
  using assms by (auto simp: restores_def)

lemma restores_push:
  assumes "restores h t0 v0 v m" and "settled h v'"
    and "\<And>w. same_old h v' w \<Longrightarrow> same_old h v (POPTRAIL (tag, a, old) w)"
  shows "restores h t0 v0 v' (PUSHTRAILC tag a old m)"
proof -
  from assms(1) obtain es where "trail m = es @ t0" "undoes h es v0 v" by (auto simp: restores_def)
  moreover from this(2) have "undoes h ((tag, a, old) # es) v0 v'"
    using assms(3) by (simp add: undoes_def UNDO_TRAILING_def)
  ultimately show ?thesis using assms(1,2) by (auto simp: restores_def PUSHTRAILC_def)
qed

lemma restores_young:
  assumes "restores h t0 v0 v m" "same_old h v v'"
  shows "restores h t0 v0 v' m"
proof -
  have "settled h v'" using assms by (auto simp: restores_def settled_def same_old_def)
  moreover have "undoes h es v0 v'" if "undoes h es v0 v" for es
    using that same_old_trans [OF assms(2)] by (simp add: undoes_def)
  ultimately show ?thesis using assms(1) by (auto simp: restores_def)
qed

lemma restores_settled: "restores h t0 v0 v m \<Longrightarrow> settled h v"
  and restores_hbreg: "restores h t0 v0 v m \<Longrightarrow> hbreg m = h"
  by (simp_all add: restores_def)

lemma restores_pop:
  assumes "restores h t0 v0 v m" "DV_type v' = DV_type v" "dv_ptr v' = dv_ptr v"
    and "\<And>t. POPTRAIL (tag, a, old) (v'\<lparr>DV_type := t\<rparr>) = v\<lparr>DV_type := t\<rparr>"
  shows "restores h t0 v0 v' (PUSHTRAILC tag a old m)"
proof (rule restores_push [OF assms(1)])
  show "settled h v'" using restores_settled [OF assms(1)] assms(2,3) by (simp add: settled_def)
qed (rule same_old_pop [OF _ assms(2,4)])

lemma restores_field:
  assumes "restores h t0 v0 v m"
  shows "restores h t0 v0 (v\<lparr>DV_var := x\<rparr>) (PUSHTRAILC tag (dv_ptr v) (Var_cell (DV_var v)) m)"
    and "restores h t0 v0 (v\<lparr>DV_size := n\<rparr>) (PUSHTRAILC tag (A_DV_size v) (Num_cell (DV_size v)) m)"
    and "restores h t0 v0 (v\<lparr>DV_first := n\<rparr>) (PUSHTRAILC tag (A_DV_first v) (Num_cell (DV_first v)) m)"
    and "restores h t0 v0 (v\<lparr>DV_last := n\<rparr>) (PUSHTRAILC tag (A_DV_last v) (Num_cell (DV_last v)) m)"
  by (rule restores_pop [OF assms];
      simp add: POPTRAIL_def A_DV_size_def A_DV_first_def A_DV_last_def)+

lemma restores_new_vector:
  assumes "restores h t0 v0 v m" "DV_type v = IT_DOMAIN" "young h bv"
  shows "restores h t0 v0 (v\<lparr>DV_type := BV_DOMAIN bv\<rparr>) (PUSHTRAIL_H tag (A_DV_type v) (Type_cell (DV_type v)) m)"
proof -
  have a: "A_DV_type v < h" using restores_settled [OF assms(1)] by (simp add: settled_def A_DV_type_def)
  have v: "v\<lparr>DV_type := IT_DOMAIN\<rparr> = v" using assms(2) by (metis dvar.surjective dvar.update_convs(3))
  have "restores h t0 v0 (v\<lparr>DV_type := BV_DOMAIN bv\<rparr>) (PUSHTRAILC tag (A_DV_type v) (Type_cell IT_DOMAIN) m)"
  proof (rule restores_push [OF assms(1)])
    show "settled h (v\<lparr>DV_type := BV_DOMAIN bv\<rparr>)"
      using restores_settled [OF assms(1)] assms(3) by (simp add: settled_def)
    fix w assume "same_old h (v\<lparr>DV_type := BV_DOMAIN bv\<rparr>) w"
    then obtain bw where "w = v\<lparr>DV_type := BV_DOMAIN bw\<rparr>" by (auto simp: same_old_def)
    then have "POPTRAIL (tag, A_DV_type v, Type_cell IT_DOMAIN) w = v\<lparr>DV_type := IT_DOMAIN\<rparr>"
      by (simp add: POPTRAIL_def A_DV_type_def)
    then show "same_old h v (POPTRAIL (tag, A_DV_type v, Type_cell IT_DOMAIN) w)" unfolding v by simp
  qed
  with a show ?thesis unfolding PUSHTRAIL_H_def restores_hbreg [OF assms(1)] assms(2) by simp
qed

text \<open>After the old word has gone to the trail any word may stand at its place.\<close>

definition set_word :: "dvar \<Rightarrow> bit_vector \<Rightarrow> nat \<Rightarrow> bpulong \<Rightarrow> dvar" where
  "set_word v bv p w = v\<lparr>DV_type := BV_DOMAIN (bv\<lparr>bv_words := (bv_words bv)[p := w]\<rparr>)\<rparr>"

lemma restores_word:
  assumes "restores h t0 v0 v m" "DV_type v = BV_DOMAIN bv" "p < length (bv_words bv)"
  shows "restores h t0 v0 (set_word v bv p w)
    (PUSHTRAIL_H tag (bv_addr bv + 2 + int p) (Word_cell (bv_words bv ! p)) m)"
proof (cases "bv_addr bv + 2 + int p < h")
  case True
  with assms restores_settled [OF assms(1)] have o: "older h bv" "\<not> young h bv"
    by (auto simp: settled_def young_def older_def)
  have v: "v\<lparr>DV_type := BV_DOMAIN bv\<rparr> = v" using assms(2) by (metis dvar.surjective dvar.update_convs(3))
  have "restores h t0 v0 (set_word v bv p w) (PUSHTRAILC tag (bv_addr bv + 2 + int p) (Word_cell (bv_words bv ! p)) m)"
  proof (rule restores_push [OF assms(1)])
    show "settled h (set_word v bv p w)"
      using restores_settled [OF assms(1)] o(1) by (simp add: settled_def set_word_def older_def)
  next
    fix u assume "same_old h (set_word v bv p w) u"
    then have u: "u = set_word v bv p w" using o(2) by (auto simp: same_old_def set_word_def young_def)
    have "POPTRAIL (tag, bv_addr bv + 2 + int p, Word_cell (bv_words bv ! p)) u = v"
      using assms(3) v by (simp add: u POPTRAIL_def set_word_def)
    then show "same_old h v (POPTRAIL (tag, bv_addr bv + 2 + int p, Word_cell (bv_words bv ! p)) u)" by simp
  qed
  with True show ?thesis by (simp add: PUSHTRAIL_H_def restores_hbreg [OF assms(1)])
next
  case False
  with assms restores_settled [OF assms(1)] have "young h bv"
    by (auto simp: settled_def young_def older_def)
  then have "restores h t0 v0 (set_word v bv p w) m"
    unfolding set_word_def by (intro restores_young [OF assms(1)] same_old_word) (use assms(2) in simp_all)
  with False show ?thesis by (simp add: PUSHTRAIL_H_def restores_hbreg [OF assms(1)])
qed

section \<open>The operations keep it\<close>

lemma insert_trigger_post:
  "restores h t0 v0 v m \<Longrightarrow> fd_post (insert_trigger fl cs e fp m) (restores h t0 v0 v)"
  by (auto simp: insert_trigger_def Let_def intro: restores_frame)

lemma INSERT_post:
  assumes "restores h t0 v0 v m"
  shows "fd_post (INSERT_TRIGGER_dvar_ins u m) (restores h t0 v0 v)"
    and "fd_post (INSERT_TRIGGER_minmax u m) (restores h t0 v0 v)"
    and "fd_post (INSERT_TRIGGER_minmax_checkseed u fp m) (restores h t0 v0 v)"
    and "fd_post (INSERT_TRIGGER_dom u e m) (restores h t0 v0 v)"
    and "fd_post (INSERT_TRIGGER_outer_dom0 u e m) (restores h t0 v0 v)"
    and "fd_post (INSERT_TRIGGER_outer_dom u e m) (restores h t0 v0 v)"
  using assms
  by (simp_all add: INSERT_TRIGGER_dvar_ins_def INSERT_TRIGGER_minmax_def INSERT_TRIGGER_minmax_checkseed_def
      INSERT_TRIGGER_dom_def INSERT_TRIGGER_outer_dom0_def INSERT_TRIGGER_outer_dom_def insert_trigger_post)

lemma post_bound_post: "restores h t0 v0 v m \<Longrightarrow> fd_post (post_bound seed u m) (restores h t0 v0 v)"
  by (auto simp: post_bound_def INSERT_post split: option.split)

lemma then_same: "fd_post r (restores h t0 v0 v) \<Longrightarrow> fd_post (fd_bind r (\<lambda>m. Inr (v, m))) (\<lambda>(v, m). restores h t0 v0 v m)"
  by (cases r) auto

lemma ASSIGN_DVAR_post:
  assumes "restores h t0 v0 v m"
  shows "fd_post (ASSIGN_DVAR v c m) (\<lambda>(v, m). restores h t0 v0 v m)"
proof -
  have "dv_ptr v < h" using restores_settled [OF assms] by (simp add: settled_def)
  then have "restores h t0 v0 (v\<lparr>DV_var := Some c\<rparr>) (PUSHTRAIL_H TRAIL_VAL_NONATOMIC (dv_ptr v) (Var_cell (DV_var v)) m)"
    using restores_field(1) [OF assms] by (simp add: PUSHTRAIL_H_def restores_hbreg [OF assms])
  then show ?thesis unfolding ASSIGN_DVAR_def Let_def by (intro then_same INSERT_post)
qed

lemma dvar_reorder:
  "v\<lparr>DV_first := f, DV_last := l, DV_size := n\<rparr> = v\<lparr>DV_size := n, DV_first := f, DV_last := l\<rparr>"
  "v\<lparr>DV_first := f, DV_size := n\<rparr> = v\<lparr>DV_size := n, DV_first := f\<rparr>"
  "v\<lparr>DV_last := l, DV_size := n\<rparr> = v\<lparr>DV_size := n, DV_last := l\<rparr>"
  by (cases v; simp)+

lemma UPDATE_post:
  assumes "restores h t0 v0 v m"
  shows "fd_post (UPDATE_FIRST_LAST_SIZE v (DV_first v) f (DV_last v) l n m) (\<lambda>(v, m). restores h t0 v0 v m)"
    and "fd_post (UPDATE_FIRST_SIZE v (DV_first v) f n m) (\<lambda>(v, m). restores h t0 v0 v m)"
    and "fd_post (UPDATE_LAST_SIZE v (DV_last v) l n m) (\<lambda>(v, m). restores h t0 v0 v m)"
    and "restores h t0 v0 (fst (UPDATE_SIZE v (DV_size v) n m)) (snd (UPDATE_SIZE v (DV_size v) n m))"
proof -
  have a: "dv_ptr v < hbreg m"
    using restores_settled [OF assms] restores_hbreg [OF assms] by (simp add: settled_def)
  note f = restores_field(3) [OF assms, of f TRAIL_VAL_ATOMIC]
  note fl = restores_field(4) [OF f, of l TRAIL_VAL_ATOMIC]
  from restores_field(2) [OF fl, of n TRAIL_VAL_ATOMIC] a
  show "fd_post (UPDATE_FIRST_LAST_SIZE v (DV_first v) f (DV_last v) l n m) (\<lambda>(v, m). restores h t0 v0 v m)"
    unfolding UPDATE_FIRST_LAST_SIZE_def Let_def
    by (intro then_same INSERT_post) (simp add: dvar_reorder A_DV_size_def A_DV_last_def A_DV_first_def)
  from restores_field(2) [OF f, of n TRAIL_VAL_ATOMIC] a
  show "fd_post (UPDATE_FIRST_SIZE v (DV_first v) f n m) (\<lambda>(v, m). restores h t0 v0 v m)"
    unfolding UPDATE_FIRST_SIZE_def Let_def
    by (intro then_same INSERT_post) (simp add: dvar_reorder A_DV_size_def A_DV_last_def A_DV_first_def)
  from restores_field(2) [OF restores_field(4) [OF assms, of l TRAIL_VAL_ATOMIC], of n TRAIL_VAL_ATOMIC] a
  show "fd_post (UPDATE_LAST_SIZE v (DV_last v) l n m) (\<lambda>(v, m). restores h t0 v0 v m)"
    unfolding UPDATE_LAST_SIZE_def Let_def
    by (intro then_same INSERT_post) (simp add: dvar_reorder A_DV_size_def A_DV_last_def A_DV_first_def)
  from restores_field(2) [OF assms] a
  show "restores h t0 v0 (fst (UPDATE_SIZE v (DV_size v) n m)) (snd (UPDATE_SIZE v (DV_size v) n m))"
    by (simp add: UPDATE_SIZE_def)
qed

lemma then_size:
  "fd_post r (restores h t0 v0 v) \<Longrightarrow>
     fd_post (fd_bind r (\<lambda>m. Inr (UPDATE_SIZE v (DV_size v) n m))) (\<lambda>(v, m). restores h t0 v0 v m)"
  using UPDATE_post(4) by (cases r) (auto simp: case_prod_beta)

lemma words_of_interval: "f \<le> l \<Longrightarrow> WORD_NUMBER f \<le> WORD_NUMBER l"
  by (simp add: WORD_NUMBER_floor zdiv_mono1)

lemma it_to_bv_with_hole_post:
  assumes "restores h t0 v0 v m" "IS_IT_DOMAIN v" "DV_first v \<le> DV_last v"
  shows "fd_post (it_to_bv_with_hole v e m) (\<lambda>(v, m). restores h t0 v0 v m)"
proof -
  have t: "DV_type v = IT_DOMAIN" using assms(2) by (simp add: IS_IT_DOMAIN_def)
  have "heap_top (PUSHTRAIL_H tag a c m) = heap_top m" for tag a c by (simp add: PUSHTRAIL_H_def PUSHTRAILC_def)
  moreover have "h \<le> heap_top m" using assms(1) by (simp add: restores_def)
  ultimately have y: "young h (bv\<lparr>bv_words := ws\<rparr>)"
    if "bv = full_bv (heap_top (PUSHTRAIL_H tag a c m)) f l" for bv ws tag a c f l
    using that by (simp add: young_def full_bv_def)
  note new = restores_new_vector [OF assms(1) t]
  show ?thesis
    unfolding it_to_bv_with_hole_def Let_def
  proof (intro fd_post_if, simp, intro fd_post_any, clarify, intro then_size INSERT_post)
  qed (rule restores_frame [OF new [OF y]], use words_of_interval [OF assms(3)] in \<open>(simp | linarith)+\<close>)
qed

lemma it_to_bv_with_interval_holes_post:
  assumes "restores h t0 v0 v m" "IS_IT_DOMAIN v" "DV_first v \<le> DV_last v"
  shows "fd_post (it_to_bv_with_interval_holes v a b m) (\<lambda>(v, m). restores h t0 v0 v m)"
proof -
  have t: "DV_type v = IT_DOMAIN" using assms(2) by (simp add: IS_IT_DOMAIN_def)
  let ?m = "PUSHTRAIL_H TRAIL_BIT_VECTOR (A_DV_type v) (Type_cell (DV_type v)) m"
  define m1 where "m1 = ?m\<lparr>heap_top := heap_top ?m + 2\<rparr>"
  define m2 where "m2 = m1\<lparr>heap_top := heap_top m1 + (WORD_NUMBER (DV_last v) - WORD_NUMBER (DV_first v) + 1)\<rparr>"
  define new where "new bv = v\<lparr>DV_type := BV_DOMAIN bv\<rparr>" for bv
  have top: "h \<le> heap_top ?m" using assms(1) by (simp add: restores_def PUSHTRAIL_H_def PUSHTRAILC_def)
  have r: "restores h t0 v0 (new bv) m2" if "bv_addr bv = heap_top ?m" for bv
    by (rule restores_frame [OF restores_new_vector [OF assms(1) t, of bv TRAIL_BIT_VECTOR, folded new_def]])
      (use that top words_of_interval [OF assms(3)] in \<open>(simp add: young_def m1_def m2_def | linarith)+\<close>)
  define P where "P = (\<lambda>(bv :: bit_vector, w :: bpulong, w_ptr :: nat, offset :: nat, m). bv_addr bv = heap_top ?m \<and>
    (\<forall>bv'. bv_addr bv' = heap_top ?m \<longrightarrow> restores h t0 v0 (new bv') m))"
  have P0: "P (full_bv (heap_top ?m) (DV_first v) (DV_last v), w, p, k, m2)" for w p k
    using r by (simp add: P_def full_bv_def)
  have step: "fd_post (fd_bind (INSERT_TRIGGER_dom v i m) (\<lambda>m.
                   if offset + 1 = 64
                      then fd_bind (word_at (bv\<lparr>bv_words := (bv_words bv)[w_ptr := w AND NOT (push_bit offset 1)]\<rparr>) (w_ptr + 1))
                        (\<lambda>w'. Inr (bv\<lparr>bv_words := (bv_words bv)[w_ptr := w AND NOT (push_bit offset 1)]\<rparr>, w', w_ptr + 1, 0, m))
                      else Inr (bv, w AND NOT (push_bit offset 1), w_ptr, offset + 1, m))) P"
    if "P (bv, w, w_ptr, offset, m)" for bv w w_ptr offset m i
  proof (rule fd_post_bind)
    show "fd_post (INSERT_TRIGGER_dom v i m) (\<lambda>m. \<forall>bv'. bv_addr bv' = heap_top ?m \<longrightarrow> restores h t0 v0 (new bv') m)"
      using that unfolding fd_post_def P_def by (auto dest: fd_postD [OF INSERT_post(4)])
  qed (use that in \<open>auto simp: P_def intro: fd_post_any\<close>)
  have fin: "fd_post (Inr (UPDATE_SIZE (new bv) (DV_size (new bv)) n m)) (\<lambda>(v, m). restores h t0 v0 v m)"
    if "bv_addr bv = heap_top ?m" "\<forall>bv'. bv_addr bv' = heap_top ?m \<longrightarrow> restores h t0 v0 (new bv') m" for bv n m
    using UPDATE_post(4) [OF that(2) [rule_format, OF that(1)]] by (simp add: case_prod_beta)
  show ?thesis
    unfolding it_to_bv_with_interval_holes_def Let_def m1_def [symmetric] m2_def [symmetric] new_def [symmetric]
    by (intro fd_post_if, simp, rule fd_post_any, clarify, rule fd_post_bind,
        rule fd_post_fold [where P = P], clarify, rule step, assumption, rule P0)
      (auto simp: P_def intro!: fin)
qed

lemma exclude_inner_elm_bv_post:
  assumes "restores h t0 v0 v m"
  shows "fd_post (exclude_inner_elm_bv v e m) (\<lambda>(v, m). restores h t0 v0 v m)"
proof (cases "DV_type v")
  case (BV_DOMAIN bv)
  then have bv: "DV_bit_vector_ptr v = Inr bv" by (simp add: DV_bit_vector_ptr_def)
  have s: "fd_post (if w = w1 then Inr (v, m) else
      fd_bind (INSERT_TRIGGER_dom u e' (PUSHTRAIL_H TRAIL_VAL_ATOMIC (bv_addr bv + 2 + int p) (Word_cell w) m))
        (\<lambda>m. Inr (UPDATE_SIZE (set_word v bv p w1) (DV_size (set_word v bv p w1)) n m))) (\<lambda>(v, m). restores h t0 v0 v m)"
    if "WORD_OFFSET bv e = Inr (w, p, k)" for w w1 p k n u e'
    using that assms by (intro fd_post_if then_size INSERT_post)
      (auto simp: WORD_OFFSET_Inr intro: restores_word [OF assms BV_DOMAIN])
  show ?thesis
  proof (cases "WORD_OFFSET bv e")
    case (Inr x)
    obtain w p k where x: "x = (w, p, k)" by (cases x)
    show ?thesis
      unfolding exclude_inner_elm_bv_def bv fd_bind_simps Let_def set_word_def [symmetric] Inr x prod.case
      by (rule s [OF Inr [unfolded x]])
  qed (simp add: exclude_inner_elm_bv_def bv)
qed (simp_all add: exclude_inner_elm_bv_def DV_bit_vector_ptr_def)

lemma domain_set_false_noint_post:
  assumes "restores h t0 v0 v m" "DV_first v \<le> DV_last v"
  shows "fd_post (domain_set_false_noint v e m) (\<lambda>(v, m). restores h t0 v0 v m)"
  unfolding domain_set_false_noint_def
  by (intro fd_post_if it_to_bv_with_hole_post exclude_inner_elm_bv_post ASSIGN_DVAR_post assms;
      (rule fd_post_bind [OF INSERT_post(6) [OF assms(1)]], rule fd_post_any, erule UPDATE_post)?)
    (simp_all add: assms)

lemma domain_set_false_aux_post:
  assumes "restores h t0 v0 v m" "DV_var v = None \<Longrightarrow> DV_first v \<le> DV_last v"
  shows "fd_post (domain_set_false_aux v e m) (\<lambda>(b, v, m). restores h t0 v0 v m)"
proof (cases "DV_var v")
  case None
  from domain_set_false_noint_post [OF assms(1) assms(2) [OF this], of e] None
  show ?thesis by (auto simp: domain_set_false_aux_def intro!: fd_post_bind)
qed (simp add: domain_set_false_aux_def assms)

section \<open>Regions and intervals\<close>

lemma post_outer_range_post:
  assumes "restores h t0 v0 v m"
  shows "fd_post (post_outer_range u lo hi m) (restores h t0 v0 v)"
  unfolding post_outer_range_def Let_def
  by (rule fd_post_bind [OF fd_post_fold [where P = "restores h t0 v0 v"]])
    (auto intro: INSERT_post assms)

lemma CALL_EXCLUDE_post:
  assumes "restores h t0 v0 v m"
  shows "fd_post (CALL_EXCLUDE_DOMAIN_ELMS u a b m) (\<lambda>(n, m). restores h t0 v0 v m)"
proof -
  define P where "P = (\<lambda>((count :: int, m), w :: bpulong, w_ptr :: nat, msk :: bpulong). restores h t0 v0 v m)"
  have step: "fd_post (fd_bind (if w AND msk \<noteq> 0
                  then fd_bind (INSERT_TRIGGER_outer_dom0 u from m) (\<lambda>m. Inr (count + 1, m))
                  else Inr (count, m)) (\<lambda>cm.
         fd_bind (next_mask bv w w_ptr msk) (\<lambda>wpm. Inr (cm, wpm)))) P"
    if "restores h t0 v0 v m" for count m w msk w_ptr "from" bv
    by (rule fd_post_bind [where P = "\<lambda>(n, m). restores h t0 v0 v m"], intro fd_post_if fd_post_bind [OF INSERT_post(5) [OF that]])
      (use that in \<open>auto simp: P_def intro: fd_post_any\<close>)
  have "fd_post (exclude_domain_elms u a b m) (\<lambda>(n, m). restores h t0 v0 v m)"
    unfolding exclude_domain_elms_def
    by (rule fd_post_any, rule fd_post_any, clarify, rule fd_post_bind, rule fd_post_fold [where P = P], clarify, rule step)
      (auto simp: P_def assms)
  then show ?thesis using assms by (simp add: CALL_EXCLUDE_DOMAIN_ELMS_def)
qed

text \<open>The tail of every branch of the region macros: the new bounds, then the events.\<close>

lemma region_tail:
  assumes "fd_post r (\<lambda>(v, m). restores h t0 v0 v m)"
  shows "fd_post (fd_bind r (\<lambda>(v, m). fd_bind (post_bound seed v m) (\<lambda>m. Inr (b, v, f, l, m))))
      (\<lambda>(b, v, f, l, m). restores h t0 v0 v m)"
    and "fd_post (fd_bind r (\<lambda>(v, m). Inr (b, v, f, l, m))) (\<lambda>(b, v, f, l, m). restores h t0 v0 v m)"
  using assms by (auto intro!: fd_post_bind [OF assms] fd_post_bind [OF post_bound_post])

lemma sized_post:
  assumes "fd_post r (\<lambda>(n, m). restores h t0 v0 v m)"
  shows "fd_post (fd_bind r (\<lambda>(n, m). if c n then fd_bind (INSERT_TRIGGER_outer_dom0 u e m) (\<lambda>m. Inr (f n, m)) else Inr (f n, m)))
    (\<lambda>(n, m). restores h t0 v0 v m)"
  using assms
  by (auto intro!: fd_post_bind [OF assms] fd_post_if fd_post_bind [OF INSERT_post(5)])

lemma CALL_DOMAIN_REGION_MIN_post:
  assumes "restores h t0 v0 v m"
  shows "fd_post (CALL_DOMAIN_REGION_MIN seed v (DV_first v) (DV_last v) mn m) (\<lambda>(b, v, f, l, m). restores h t0 v0 v m)"
proof -
  have sized: "fd_post (if DV_outer_dom_cs v \<noteq> nil_sym
         then fd_bind (CALL_EXCLUDE_DOMAIN_ELMS v (DV_first v + 1) (mn - 1) m) (\<lambda>(n, m).
              let sz = DV_size v - n - 1
              in if sz > 1 then fd_bind (INSERT_TRIGGER_outer_dom0 v (DV_first v) m) (\<lambda>m. Inr (sz, m))
                 else Inr (sz, m))
         else fd_bind (CALL_COUNT_DOMAIN_ELMS v (DV_first v + 1) (mn - 1)) (\<lambda>n. Inr (DV_size v - n - 1, m)))
       (\<lambda>(n, m). restores h t0 v0 v m)"
    unfolding Let_def
    by (intro fd_post_if sized_post CALL_EXCLUDE_post assms, rule fd_post_any) (simp add: assms)
  have it: "fd_post (if DV_outer_dom_cs v \<noteq> nil_sym then post_outer_range v (DV_first v) (mn - 1) m else Inr m) (restores h t0 v0 v)"
    using post_outer_range_post [OF assms] assms by simp
  show ?thesis
    unfolding CALL_DOMAIN_REGION_MIN_def
    by (intro fd_post_if region_tail ASSIGN_DVAR_post fd_post_bind [OF it] fd_post_bind [OF sized] UPDATE_post;
        (clarify, intro fd_post_if region_tail ASSIGN_DVAR_post fd_post_any UPDATE_post)?)
      (simp_all add: assms)
qed

lemma CALL_DOMAIN_REGION_MAX_post:
  assumes "restores h t0 v0 v m"
  shows "fd_post (CALL_DOMAIN_REGION_MAX seed v (DV_first v) (DV_last v) mx m) (\<lambda>(b, v, f, l, m). restores h t0 v0 v m)"
proof -
  have sized: "fd_post (if DV_outer_dom_cs v \<noteq> nil_sym
         then fd_bind (CALL_EXCLUDE_DOMAIN_ELMS v (mx + 1) (DV_last v - 1) m) (\<lambda>(n, m).
              let sz = DV_size v - n - 1
              in if sz > 1 then fd_bind (INSERT_TRIGGER_outer_dom0 v (DV_last v) m) (\<lambda>m. Inr (sz, m))
                 else Inr (sz, m))
         else fd_bind (CALL_COUNT_DOMAIN_ELMS v (mx + 1) (DV_last v - 1)) (\<lambda>n. Inr (DV_size v - n - 1, m)))
       (\<lambda>(n, m). restores h t0 v0 v m)"
    unfolding Let_def
    by (intro fd_post_if sized_post CALL_EXCLUDE_post assms, rule fd_post_any) (simp add: assms)
  have it: "fd_post (if DV_outer_dom_cs v \<noteq> nil_sym then post_outer_range v (mx + 1) (DV_last v) m else Inr m) (restores h t0 v0 v)"
    using post_outer_range_post [OF assms] assms by simp
  show ?thesis
    unfolding CALL_DOMAIN_REGION_MAX_def
    by (intro fd_post_if region_tail ASSIGN_DVAR_post fd_post_bind [OF it] fd_post_bind [OF sized] UPDATE_post;
        (clarify, intro fd_post_if region_tail ASSIGN_DVAR_post fd_post_any UPDATE_post)?)
      (simp_all add: assms)
qed

lemma CALL_DOMAIN_REGION_MIN_MAX_post:
  assumes "restores h t0 v0 v m"
  shows "fd_post (CALL_DOMAIN_REGION_MIN_MAX seed v (DV_first v) (DV_last v) mn mx m) (\<lambda>(b, v, f, l, m). restores h t0 v0 v m)"
proof -
  have two: "fd_post (fd_bind (INSERT_TRIGGER_outer_dom0 v a m) (\<lambda>m. fd_bind (INSERT_TRIGGER_outer_dom0 v b m) (\<lambda>m. Inr (n :: int, m))))
      (\<lambda>(n, m). restores h t0 v0 v m)" if "restores h t0 v0 v m" for a b m n
    by (rule fd_post_bind [OF INSERT_post(5) [OF that]], rule fd_post_bind [OF INSERT_post(5)], assumption) simp
  have sized: "fd_post (if DV_outer_dom_cs v \<noteq> nil_sym
         then fd_bind (CALL_EXCLUDE_DOMAIN_ELMS v (DV_first v + 1) (mn - 1) m) (\<lambda>(n1, m).
              fd_bind (CALL_EXCLUDE_DOMAIN_ELMS v (mx + 1) (DV_last v - 1) m) (\<lambda>(n2, m).
              let sz = DV_size v - (n1 + n2) - 2
              in if sz > 1
                 then fd_bind (INSERT_TRIGGER_outer_dom0 v (DV_first v) m) (\<lambda>m.
                      fd_bind (INSERT_TRIGGER_outer_dom0 v (DV_last v) m) (\<lambda>m. Inr (sz, m)))
                 else Inr (sz, m)))
         else fd_bind (CALL_COUNT_DOMAIN_ELMS v (DV_first v + 1) (mn - 1)) (\<lambda>n1.
              fd_bind (CALL_COUNT_DOMAIN_ELMS v (mx + 1) (DV_last v - 1)) (\<lambda>n2.
              Inr (DV_size v - (n1 + n2) - 2, m))))
       (\<lambda>(n, m). restores h t0 v0 v m)"
    unfolding Let_def
    by (rule fd_post_if, rule fd_post_bind [OF CALL_EXCLUDE_post [OF assms]], clarify,
        rule fd_post_bind [OF CALL_EXCLUDE_post], assumption, clarify, rule fd_post_if, erule two, simp,
        rule fd_post_any, rule fd_post_any)
      (simp add: assms)
  have it: "fd_post (if DV_outer_dom_cs v \<noteq> nil_sym
      then fd_bind (post_outer_range v (DV_first v) (mn - 1) m) (post_outer_range v (mx + 1) (DV_last v)) else Inr m) (restores h t0 v0 v)"
    by (intro fd_post_if fd_post_bind [OF post_outer_range_post] post_outer_range_post) (simp_all add: assms)
  show ?thesis
    unfolding CALL_DOMAIN_REGION_MIN_MAX_def
    by (rule fd_post_if, rule fd_post_any, intro fd_post_if region_tail ASSIGN_DVAR_post, simp add: assms, rule assms,
        intro fd_post_if region_tail ASSIGN_DVAR_post fd_post_bind [OF it] fd_post_bind [OF sized] UPDATE_post;
        (clarify, intro fd_post_if region_tail ASSIGN_DVAR_post fd_post_any UPDATE_post)?)
      (simp_all add: assms)
qed

lemma CALL_DOMAIN_REGION_post:
  assumes "restores h t0 v0 v m"
  shows "fd_post (CALL_DOMAIN_REGION seed v (DV_first v) (DV_last v) mn mx m) (\<lambda>(b, v, f, l, m). restores h t0 v0 v m)"
  unfolding CALL_DOMAIN_REGION_def
  by (intro fd_post_if CALL_DOMAIN_REGION_MIN_MAX_post CALL_DOMAIN_REGION_MIN_post CALL_DOMAIN_REGION_MAX_post)
    (simp_all add: assms)

lemma domain_region_noint_post:
  assumes "restores h t0 v0 v m"
  shows "fd_post (domain_region_noint v a b m) (\<lambda>(b, v, m). restores h t0 v0 v m)"
  unfolding domain_region_noint_def by (rule fd_post_bind [OF CALL_DOMAIN_REGION_post [OF assms]]) auto

lemma domain_region_aux_post:
  assumes "restores h t0 v0 v m"
  shows "fd_post (domain_region_aux v a b m) (\<lambda>(b, v, m). restores h t0 v0 v m)"
  using domain_region_noint_post [OF assms] assms by (cases "DV_var v") (simp_all add: domain_region_aux_def)

text \<open>
  The interval loop trails a word once, on its first change; after that any contents of the word
  are undone.
\<close>

lemma set_word_twice:
  "set_word (v\<lparr>DV_type := t\<rparr>) (bv\<lparr>bv_words := (bv_words bv)[p := w]\<rparr>) p w' = set_word v bv p w'"
  by (simp add: set_word_def)

definition loop_inv :: "(dvar \<Rightarrow> machine \<Rightarrow> bool) \<Rightarrow> dvar \<Rightarrow>
    bit_vector \<times> bpulong \<times> nat \<times> nat \<times> nat option \<times> int \<times> machine \<Rightarrow> bool" where
  "loop_inv R v = (\<lambda>(bv, w, w_ptr, offset, last_trailed, count, m).
     w_ptr < length (bv_words bv) \<and> w = bv_words bv ! w_ptr \<and> R (v\<lparr>DV_type := BV_DOMAIN bv\<rparr>) m \<and>
     (case last_trailed of None \<Rightarrow> True
      | Some q \<Rightarrow> q \<le> w_ptr \<and> (q = w_ptr \<longrightarrow> (\<forall>x. R (set_word v bv w_ptr x) m))))"

lemma loop_inv_machine:
  "loop_inv R v (bv, w, p, k, t, n, m) \<Longrightarrow> (\<And>u. R u m \<Longrightarrow> R u m') \<Longrightarrow> loop_inv R v (bv, w, p, k, t, n', m')"
  by (auto simp: loop_inv_def split: option.splits)

lemma loop_inv_clear:
  assumes "loop_inv (restores h t0 v0) v (bv, w, p, k, t, n, m)"
    and "bv' = bv\<lparr>bv_words := (bv_words bv)[p := w']\<rparr>"
    and "m' = (if t \<noteq> Some p then PUSHTRAIL_H TRAIL_VAL_ATOMIC (bv_addr bv + 2 + int p) (Word_cell w) m else m)"
  shows "loop_inv (restores h t0 v0) v (bv', w', p, k, Some p, n, m')"
proof -
  from assms(1) have p: "p < length (bv_words bv)" "w = bv_words bv ! p"
    and r: "restores h t0 v0 (v\<lparr>DV_type := BV_DOMAIN bv\<rparr>) m"
    and t: "t = Some p \<Longrightarrow> restores h t0 v0 (set_word v bv p x) m" for x
    by (auto simp: loop_inv_def)
  have all: "restores h t0 v0 (set_word v bv p x) m'" for x
    using t restores_word [OF r _ p(1), of x TRAIL_VAL_ATOMIC] p(2) assms(3) by (auto simp: set_word_def)
  have "set_word v bv' p x = set_word v bv p x" for x by (simp add: assms(2) set_word_def)
  moreover have "v\<lparr>DV_type := BV_DOMAIN bv'\<rparr> = set_word v bv p w'" by (simp add: assms(2) set_word_def)
  ultimately show ?thesis using all p(1) by (simp add: loop_inv_def assms(2))
qed

lemma loop_inv_next:
  assumes "loop_inv R v (bv, w, p, k, t, n, m)"
  shows "fd_post (if k + 1 = 64 then fd_bind (word_at bv (p + 1)) (\<lambda>w. Inr (bv, w, p + 1, 0, t, n, m))
      else Inr (bv, w, p, k + 1, t, n, m)) (loop_inv R v)"
  using assms by (auto simp: loop_inv_def word_at_def split: option.splits)

lemma exclude_inner_interval_bv_post:
  assumes "restores h t0 v0 v m"
  shows "fd_post (exclude_inner_interval_bv v a b m) (\<lambda>(v, m). restores h t0 v0 v m)"
proof (cases "DV_type v")
  case (BV_DOMAIN bv)
  then have bv: "DV_bit_vector_ptr v = Inr bv" by (simp add: DV_bit_vector_ptr_def)
  have v: "v\<lparr>DV_type := BV_DOMAIN bv\<rparr> = v" using BV_DOMAIN by (metis dvar.surjective dvar.update_convs(3))
  let ?P = "loop_inv (restores h t0 v0) v"
  have start: "?P (bv, w, p, k, None, n, m)" if "WORD_OFFSET bv a = Inr (w, p, k)" for w p k n
    using that assms v by (simp add: loop_inv_def WORD_OFFSET_Inr)
  have step: "fd_post (fd_bind
           (if w AND push_bit k 1 \<noteq> 0
            then let (t, m) = (if t \<noteq> Some p
                        then (Some p, PUSHTRAIL_H TRAIL_VAL_ATOMIC (bv_addr bv + 2 + int p) (Word_cell w) m)
                        else (t, m));
                     w = w AND NOT (push_bit k 1);
                     bv = bv\<lparr>bv_words := (bv_words bv)[p := w]\<rparr>
                 in fd_bind (INSERT_TRIGGER_dom v i m) (\<lambda>m. Inr (bv, w, t, n - 1, m))
            else Inr (bv, w, t, n, m)) (\<lambda>(bv, w, t, n, m).
         if k + 1 = 64
         then fd_bind (word_at bv (p + 1)) (\<lambda>w. Inr (bv, w, p + 1, 0, t, n, m))
         else Inr (bv, w, p, k + 1, t, n, m))) ?P"
    if P: "?P (bv, w, p, k, t, n, m)" for bv w p k t n m i
  proof (rule fd_post_bind [where P = "\<lambda>(bv, w, t, n, m). ?P (bv, w, p, k, t, n, m)"])
    define m1 where "m1 = (if t \<noteq> Some p then PUSHTRAIL_H TRAIL_VAL_ATOMIC (bv_addr bv + 2 + int p) (Word_cell w) m else m)"
    have s: "(if t \<noteq> Some p then (Some p, PUSHTRAIL_H TRAIL_VAL_ATOMIC (bv_addr bv + 2 + int p) (Word_cell w) m) else (t, m))
        = (Some p, m1)" by (simp add: m1_def)
    define w1 where "w1 = w AND NOT (push_bit k 1)"
    have "?P (bv\<lparr>bv_words := (bv_words bv)[p := w1]\<rparr>, w1, p, k, Some p, n, m1)"
      by (rule loop_inv_clear [OF P refl m1_def])
    then have "fd_post (fd_bind (INSERT_TRIGGER_dom v i m1) (\<lambda>m. Inr (bv\<lparr>bv_words := (bv_words bv)[p := w1]\<rparr>, w1, Some p, n - 1, m)))
        (\<lambda>(bv, w, t, n, m). ?P (bv, w, p, k, t, n, m))"
      by (cases "INSERT_TRIGGER_dom v i m1")
        (auto elim!: loop_inv_machine dest: fd_postD [OF INSERT_post(4)])
    with P show "fd_post (if w AND push_bit k 1 \<noteq> 0
            then let (t, m) = (if t \<noteq> Some p
                        then (Some p, PUSHTRAIL_H TRAIL_VAL_ATOMIC (bv_addr bv + 2 + int p) (Word_cell w) m)
                        else (t, m));
                     w = w AND NOT (push_bit k 1);
                     bv = bv\<lparr>bv_words := (bv_words bv)[p := w]\<rparr>
                 in fd_bind (INSERT_TRIGGER_dom v i m) (\<lambda>m. Inr (bv, w, t, n - 1, m))
            else Inr (bv, w, t, n, m)) (\<lambda>(bv, w, t, n, m). ?P (bv, w, p, k, t, n, m))"
      unfolding s w1_def Let_def prod.case by (intro fd_post_if) simp_all
  qed (clarify, rule loop_inv_next)
  have fin: "fd_post (Inr (if t \<noteq> None then UPDATE_SIZE (v\<lparr>DV_type := BV_DOMAIN bv'\<rparr>) (DV_size v) n m'
      else (v\<lparr>DV_type := BV_DOMAIN bv'\<rparr>, m'))) (\<lambda>(v, m). restores h t0 v0 v m)"
    if "?P (bv', w, p, k, t, n, m')" for bv' w p k t n m'
  proof -
    from that have r: "restores h t0 v0 (v\<lparr>DV_type := BV_DOMAIN bv'\<rparr>) m'" by (simp add: loop_inv_def)
    from UPDATE_post(4) [OF r, of n] r show ?thesis by (simp add: case_prod_beta)
  qed
  show ?thesis
  proof (cases "WORD_OFFSET bv a")
    case (Inr x)
    obtain w p k where x: "x = (w, p, k)" by (cases x)
    show ?thesis
      unfolding exclude_inner_interval_bv_def bv fd_bind_simps Inr x prod.case
    proof (rule fd_post_bind [OF fd_post_fold [where P = ?P]], goal_cases)
      case (1 i s)
      obtain bv w p k t n m where s: "s = (bv, w, p, k, t, n, m)" by (rule prod_cases7)
      show ?case unfolding s prod.case by (rule step) (use 1 s in simp)
    next
      case 2
      show ?case by (rule start [OF Inr [unfolded x]])
    next
      case (3 s)
      obtain bv' w p k t n m' where s: "s = (bv', w, p, k, t, n, m')" by (rule prod_cases7)
      from fin [OF 3 [unfolded s]] show ?case unfolding s prod.case Let_def by (cases t) simp_all
    qed
  qed (simp add: exclude_inner_interval_bv_def bv)
qed (simp_all add: exclude_inner_interval_bv_def DV_bit_vector_ptr_def)

lemma domain_exclude_interval_noint_post:
  assumes "restores h t0 v0 v m" "DV_first v \<le> DV_last v"
  shows "fd_post (domain_exclude_interval_noint v a b m) (\<lambda>(b, v, m). restores h t0 v0 v m)"
proof -
  have "fd_post (fd_bind (if IS_IT_DOMAIN v then it_to_bv_with_interval_holes v a b m
                    else exclude_inner_interval_bv v a b m) (\<lambda>vm. Inr (True, vm))) (\<lambda>(b, v, m). restores h t0 v0 v m)"
    by (rule fd_post_bind [where P = "\<lambda>(v, m). restores h t0 v0 v m"],
        intro fd_post_if it_to_bv_with_interval_holes_post exclude_inner_interval_bv_post)
      (auto simp: assms)
  then show ?thesis
    unfolding domain_exclude_interval_noint_def
    by (intro fd_post_if domain_region_noint_post assms)
qed

lemma domain_exclude_interval_aux_post:
  assumes "restores h t0 v0 v m" "DV_var v = None \<Longrightarrow> DV_first v \<le> DV_last v"
  shows "fd_post (domain_exclude_interval_aux v a b m) (\<lambda>(b, v, m). restores h t0 v0 v m)"
  using domain_exclude_interval_noint_post [OF assms(1)] assms
  by (cases "DV_var v") (auto simp: domain_exclude_interval_aux_def)

section \<open>Sequences of operations\<close>

text \<open>
  Between two choice points the propagators run any number of the operations on a variable, in any
  order; a failing one is the last (its caller backtracks), which the relation does not require.
\<close>

inductive dom_step :: "dvar \<times> machine \<Rightarrow> dvar \<times> machine \<Rightarrow> bool" where
  set_false: "domain_set_false_aux v e m = Inr (b, v', m') \<Longrightarrow> dom_step (v, m) (v', m')"
| region: "domain_region_aux v a b m = Inr (c, v', m') \<Longrightarrow> dom_step (v, m) (v', m')"
| exclude_interval: "a \<le> b \<Longrightarrow> domain_exclude_interval_aux v a b m = Inr (c, v', m') \<Longrightarrow> dom_step (v, m) (v', m')"

inductive_cases dom_stepE: "dom_step (v, m) vm"

inductive dom_steps :: "dvar \<times> machine \<Rightarrow> dvar \<times> machine \<Rightarrow> bool" for s where
  none: "dom_steps s s"
| more: "dom_steps s t \<Longrightarrow> dom_step t u \<Longrightarrow> dom_steps s u"

lemma dom_step_wf: "dom_step (v, m) (v', m') \<Longrightarrow> wf_dvar v \<Longrightarrow> wf_dvar v'"
  by (erule dom_stepE)
    (use domain_set_false_aux_safe domain_region_aux_safe domain_exclude_interval_aux_safe in
      \<open>fastforce simp: excluded_code_def dest: fd_safeD\<close>)+

lemma dom_step_restores:
  assumes "dom_step (v, m) (v', m')" "wf_dvar v" "restores h t0 v0 v m"
  shows "restores h t0 v0 v' m'"
proof -
  have b: "DV_var v = None \<Longrightarrow> DV_first v \<le> DV_last v" using wf_dvarD(1) [OF assms(2)] by simp
  have p: "fd_post (domain_set_false_aux v e m) (\<lambda>(b, v, m). restores h t0 v0 v m)"
    "fd_post (domain_exclude_interval_aux v e f m) (\<lambda>(b, v, m). restores h t0 v0 v m)" for e f
    by (rule domain_set_false_aux_post [OF assms(3)], erule b)
      (rule domain_exclude_interval_aux_post [OF assms(3)], erule b)
  from assms(1) show ?thesis
    by (rule dom_stepE) (auto dest!: fd_postD [OF p(1)] fd_postD [OF p(2)] fd_postD [OF domain_region_aux_post [OF assms(3)]])
qed

lemma dom_steps_inv:
  assumes "dom_steps (v, m) (v', m')" "wf_dvar v" "before_choice_point (hbreg m) v" "hbreg m \<le> heap_top m"
  shows "wf_dvar v'" "restores (hbreg m) (trail m) v v' m'"
proof -
  have "wf_dvar (fst t) \<and> restores (hbreg m) (trail m) v (fst t) (snd t)" if "dom_steps (v, m) t" for t
    using that
  proof induction
    case none
    then show ?case using restores_start [OF assms(3) refl assms(4)] assms(2) by simp
  next
    case (more t u)
    then show ?case using dom_step_wf dom_step_restores by (metis prod.collapse)
  qed
  from this [OF assms(1)] show "wf_dvar v'" "restores (hbreg m) (trail m) v v' m'" by simp_all
qed

end
