(* ===== verification/Domain_Prop.thy ===== *)
theory Domain_Prop
  imports Domain_Rel Backtrack
begin

text \<open>
  Propagation built from the exclusion primitives (\<open>emu/domain.c\<close>, \<open>emu/clpfd.c\<close>): intersecting
  with another variable or a list of values, removing the elements of another domain, keeping the
  supported values of a binary constraint. All of these loops call one exclusion per iteration and
  stop when it fails, so they are clients of the interface \<open>excluder\<close>, whose laws each primitive of
  \<open>Domain\<close> satisfies. The two variables of an operation are different blocks.
\<close>

section \<open>The interface of the exclusions\<close>

fun exclude_items :: "('i \<Rightarrow> dvar \<Rightarrow> machine \<Rightarrow> bool dv_op) \<Rightarrow> 'i list \<Rightarrow> dvar \<Rightarrow> machine \<Rightarrow> bool dv_op" where
  "exclude_items op [] v m = Inr (True, v, m)"
| "exclude_items op (i # is) v m =
     fd_bind (op i v m) (\<lambda>(b, v, m). if \<not> b then Inr (False, v, m) else exclude_items op is v m)"

lemma dom_set_nonempty: "wf_dvar v \<Longrightarrow> dom_set v \<noteq> {}"
  using wf_dvarD(2) [of v] by (cases "DV_var v") auto

locale excluder =
  fixes op :: "'i \<Rightarrow> dvar \<Rightarrow> machine \<Rightarrow> bool dv_op"
    and rem :: "'i \<Rightarrow> int set"
    and ok :: "'i \<Rightarrow> bool"
  assumes op_excludes: "wf_dvar v \<Longrightarrow> ok i \<Longrightarrow> fd_safe (op i v m) (excluded_code v (rem i))"
begin

lemma items_exclude:
  "wf_dvar v \<Longrightarrow> \<forall>i \<in> set is. ok i \<Longrightarrow>
     fd_safe (exclude_items op is v m) (excluded_code v (\<Union>i \<in> set is. rem i))"
proof (induction "is" arbitrary: v m)
  case Nil
  then show ?case by (auto simp: excluded_code_def dom_set_nonempty)
next
  case (Cons i "is")
  have "fd_safe (if \<not> b then Inr (False, v', m') else exclude_items op is v' m')
      (excluded_code v (\<Union>i \<in> set (i # is). rem i))" if "excluded_code v (rem i) (b, v', m')" for b v' m'
  proof (rule fd_safe_if)
    assume "\<not> b"
    with that show "fd_safe (Inr (False, v', m')) (excluded_code v (\<Union>i \<in> set (i # is). rem i))"
      by (auto simp: excluded_code_def)
  next
    assume "\<not> \<not> b"
    with that have v': "wf_dvar v'" "dom_set v' = dom_set v - rem i" by (auto simp: excluded_code_def)
    with Cons have "fd_safe (exclude_items op is v' m') (excluded_code v' (\<Union>i \<in> set is. rem i))" by simp
    then show "fd_safe (exclude_items op is v' m') (excluded_code v (\<Union>i \<in> set (i # is). rem i))"
      by (rule fd_safe_mono) (use v' in \<open>auto simp: excluded_code_def\<close>)
  qed
  with Cons.prems show ?case by (auto intro!: fd_safe_bind [OF op_excludes])
qed

lemma items_keep: "wf_dvar v \<Longrightarrow> \<forall>i \<in> set is. ok i \<Longrightarrow> exclude_items op is v m = Inr (b, v', m') \<Longrightarrow> wf_dvar v'"
  using items_exclude [of v "is" m] by (auto simp: excluded_code_def)

end

section \<open>Lists of values and intervals\<close>

text \<open>
  An element of a domain list is an integer or an interval \<open>low..up\<close>; \<open>proper\<close> says that the list
  ends in the empty list and not in another term.
\<close>

datatype dom_item = Elm int | Interval int int

definition item_set :: "dom_item \<Rightarrow> int set" where
  "item_set i = (case i of Elm e \<Rightarrow> {e} | Interval low up \<Rightarrow> {low..up})"

definition item_ok :: "dom_item \<Rightarrow> bool" where
  "item_ok i \<longleftrightarrow> (case i of Elm e \<Rightarrow> True | Interval low up \<Rightarrow> low \<le> up)"

definition notin_item :: "dom_item \<Rightarrow> dvar \<Rightarrow> machine \<Rightarrow> bool dv_op" where
  "notin_item i v m = (case i of
       Elm elm \<Rightarrow> domain_set_false_aux v elm m
     | Interval low up \<Rightarrow> domain_exclude_interval_aux v low up m)"

definition check_var_notin_d :: "int \<Rightarrow> dom_item list \<Rightarrow> bool \<Rightarrow> unit answer" where
  "check_var_notin_d x D proper =
     (if \<exists>i \<in> set D. x \<in> item_set i then BP_FALSE else if proper then BP_TRUE () else BP_ERROR)"

definition b_VAR_NOTIN_D_cc :: "int + dvar \<Rightarrow> dom_item list \<Rightarrow> bool \<Rightarrow> machine \<Rightarrow> (unit answer \<times> (int + dvar) \<times> machine) fd" where
  "b_VAR_NOTIN_D_cc x D proper m = (case x of
       Inl i \<Rightarrow> Inr (check_var_notin_d i D proper, Inl i, m)
     | Inr v \<Rightarrow> fd_bind (exclude_items notin_item D v m) (\<lambda>(b, v, m).
         Inr (if \<not> b then BP_FALSE else if proper then BP_TRUE () else BP_ERROR, Inr v, m)))"

fun var_in_d :: "dom_item list \<Rightarrow> int \<Rightarrow> dvar \<Rightarrow> machine \<Rightarrow> bool dv_op" where
  "var_in_d [] mn v m = Inr (True, v, m)"
| "var_in_d (Elm elm # D) mn v m =
     (if mn < elm
      then fd_bind (domain_exclude_interval_aux v mn (elm - 1) m) (\<lambda>(b, v, m).
           if \<not> b then Inr (False, v, m) else var_in_d D (elm + 1) v m)
      else var_in_d D (if mn = elm then elm + 1 else mn) v m)"
| "var_in_d (Interval low up # D) mn v m =
     fd_bind (if mn < low then domain_exclude_interval_aux v mn (low - 1) m else Inr (True, v, m)) (\<lambda>(b, v, m).
     if \<not> b then Inr (False, v, m) else var_in_d D (if mn \<le> up then up + 1 else mn) v m)"

definition check_var_in_d :: "int \<Rightarrow> dom_item list \<Rightarrow> bool" where
  "check_var_in_d x D \<longleftrightarrow> (\<exists>i \<in> set D. x \<in> item_set i)"

definition b_VAR_IN_D_cc :: "int + dvar \<Rightarrow> dom_item list \<Rightarrow> machine \<Rightarrow> (bool \<times> (int + dvar) \<times> machine) fd" where
  "b_VAR_IN_D_cc x D m = (case x of
       Inl i \<Rightarrow> Inr (check_var_in_d i D, Inl i, m)
     | Inr v \<Rightarrow> fd_bind (var_in_d D (DV_first v) v m) (\<lambda>(b, v, m). Inr (b, Inr v, m)))"

definition b_EXCLUDE_NOGOOD_INTERVAL_ccc :: "int + dvar \<Rightarrow> int \<Rightarrow> int \<Rightarrow> machine \<Rightarrow> (bool \<times> (int + dvar) \<times> machine) fd" where
  "b_EXCLUDE_NOGOOD_INTERVAL_ccc x low up m = (case x of
       Inl val \<Rightarrow> Inr (\<not> (val \<ge> low \<and> val \<le> up), Inl val, m)
     | Inr v \<Rightarrow> fd_bind (domain_exclude_interval_noint v low up m) (\<lambda>(b, v, m). Inr (b, Inr v, m)))"

definition varorint_set_false :: "int + dvar \<Rightarrow> int \<Rightarrow> machine \<Rightarrow> (bool \<times> (int + dvar) \<times> machine) fd" where
  "varorint_set_false x elm m = (case x of
       Inl i \<Rightarrow> Inr (i \<noteq> elm, Inl i, m)
     | Inr v \<Rightarrow> fd_bind (domain_set_false_noint v elm m) (\<lambda>(v, m). Inr (True, Inr v, m)))"

definition varorint_domain_region :: "int + dvar \<Rightarrow> int \<Rightarrow> int \<Rightarrow> machine \<Rightarrow> (bool \<times> (int + dvar) \<times> machine) fd" where
  "varorint_domain_region x from to m = (case x of
       Inl i \<Rightarrow> Inr (\<not> (i < from \<or> i > to), Inl i, m)
     | Inr v \<Rightarrow> fd_bind (domain_region_noint v from to m) (\<lambda>(b, v, m). Inr (b, Inr v, m)))"

text \<open>One element from two lists of variables; the lists come back with the updated blocks.\<close>

fun exclude_elm_list :: "int \<Rightarrow> (int + dvar) list \<Rightarrow> machine \<Rightarrow> (bool \<times> (int + dvar) list \<times> machine) fd" where
  "exclude_elm_list elm [] m = Inr (True, [], m)"
| "exclude_elm_list elm (x # xs) m = (case x of
       Inl i \<Rightarrow> if i = elm then Inr (False, x # xs, m)
                else fd_bind (exclude_elm_list elm xs m) (\<lambda>(b, xs, m). Inr (b, x # xs, m))
     | Inr v \<Rightarrow> fd_bind (domain_set_false_noint v elm m) (\<lambda>(v, m).
                fd_bind (exclude_elm_list elm xs m) (\<lambda>(b, xs, m). Inr (b, Inr v # xs, m))))"

definition b_EXCLUDE_ELM_DVARS ::
  "int \<Rightarrow> (int + dvar) list \<Rightarrow> (int + dvar) list \<Rightarrow> machine \<Rightarrow> (bool \<times> (int + dvar) list \<times> (int + dvar) list \<times> machine) fd" where
  "b_EXCLUDE_ELM_DVARS elm xs ys m =
     fd_bind (exclude_elm_list elm xs m) (\<lambda>(b, xs, m). if \<not> b then Inr (False, xs, ys, m)
     else fd_bind (exclude_elm_list elm ys m) (\<lambda>(b, ys, m). Inr (b, xs, ys, m)))"

section \<open>Two variables\<close>

definition unless_member :: "dvar \<Rightarrow> int \<Rightarrow> dvar \<Rightarrow> machine \<Rightarrow> bool dv_op" where
  "unless_member y i x m =
     fd_bind (dm_true y i) (\<lambda>t. if \<not> t then domain_set_false_aux x i m else Inr (True, x, m))"

definition exclude_dom_comp_aux :: "dvar \<Rightarrow> dvar \<Rightarrow> machine \<Rightarrow> bool dv_op" where
  "exclude_dom_comp_aux x y m = exclude_items (unless_member x) [DV_first y..DV_last y] y m"

definition dm_intersect :: "dvar \<Rightarrow> dvar \<Rightarrow> machine \<Rightarrow> bool dv_op" where
  "dm_intersect x y m =
     (if IS_IT_DOMAIN y then domain_region_noint x (DV_first y) (DV_last y) m
      else let frst = (if DV_first y < DV_first x then DV_first x else DV_first y);
               lst = (if DV_last y > DV_last x then DV_last x else DV_last y)
           in if frst > lst then Inr (False, x, m)
              else fd_bind (domain_region_noint x frst lst m) (\<lambda>(b, x, m).
                   if \<not> b then Inr (False, x, m)
                   else exclude_items (unless_member y) [frst..lst] x m))"

definition b_DM_INTERSECT :: "int + dvar \<Rightarrow> int + dvar \<Rightarrow> machine \<Rightarrow> (bool \<times> (int + dvar) \<times> machine) fd" where
  "b_DM_INTERSECT x y m = (case (x, y) of
       (Inl a, Inl b) \<Rightarrow> Inr (a = b, x, m)
     | (Inl a, Inr vy) \<Rightarrow> fd_bind (dm_true vy a) (\<lambda>t. Inr (t, x, m))
     | (Inr vx, Inl b) \<Rightarrow> fd_bind (dm_true vx b) (\<lambda>t.
         if t then fd_bind (ASSIGN_DVAR vx b m) (\<lambda>(vx, m). Inr (True, Inr vx, m)) else Inr (False, x, m))
     | (Inr vx, Inr vy) \<Rightarrow> fd_bind (dm_intersect vx vy m) (\<lambda>(b, vx, m). Inr (b, Inr vx, m)))"

definition b_DM_INTERSECT2 :: "int + dvar \<Rightarrow> int \<Rightarrow> int \<Rightarrow> machine \<Rightarrow> (bool \<times> (int + dvar) \<times> machine) fd" where
  "b_DM_INTERSECT2 x low up m = (case x of
       Inl i \<Rightarrow> Inr (i = low \<or> i = up, x, m)
     | Inr v \<Rightarrow>
         if low = up
         then fd_bind (dm_true v low) (\<lambda>t.
              if t then fd_bind (ASSIGN_DVAR v low m) (\<lambda>(v, m). Inr (True, Inr v, m)) else Inr (False, x, m))
         else fd_bind (dm_true v low) (\<lambda>tl.
              fd_bind (dm_true v up) (\<lambda>tu.
              if tl
              then if tu
                   then fd_bind (domain_region_noint v low up m) (\<lambda>(b, v, m).
                        if low + 1 \<le> up - 1
                        then fd_bind (domain_exclude_interval_aux v (low + 1) (up - 1) m) (\<lambda>(b, v, m). Inr (True, Inr v, m))
                        else Inr (True, Inr v, m))
                   else fd_bind (ASSIGN_DVAR v low m) (\<lambda>(v, m). Inr (True, Inr v, m))
              else if tu then fd_bind (ASSIGN_DVAR v up m) (\<lambda>(v, m). Inr (True, Inr v, m))
              else Inr (False, x, m))))"

text \<open>The results of the exclusions are ignored here.\<close>

definition domain_reduce_to_two :: "dvar \<Rightarrow> int \<Rightarrow> int \<Rightarrow> machine \<Rightarrow> (dvar \<times> machine) fd" where
  "domain_reduce_to_two v val1 val2 m =
     (let (val1, val2) = (if val1 > val2 then (val2, val1) else (val1, val2))
      in fd_bind (fd_fold (\<lambda>t (v, m). fd_bind (domain_set_false_aux v t m) (\<lambda>(b, v, m). Inr (v, m)))
                   [val1 + 1..val2 - 1] (v, m)) (\<lambda>(v, m).
         fd_bind (domain_region_aux v val1 val2 m) (\<lambda>(b, v, m). Inr (v, m))))"

function find_member :: "dvar \<Rightarrow> int \<Rightarrow> int \<Rightarrow> int fd" where
  "find_member x frst lst =
     (if frst \<le> lst
      then fd_bind (dm_true x frst) (\<lambda>t. if \<not> t then find_member x (frst + 1) lst else Inr frst)
      else Inr frst)"
  by pat_completeness auto
termination by (relation "measure (\<lambda>(x, frst, lst). nat (lst + 1 - frst))") auto

function exclude_dom_loop :: "dvar \<Rightarrow> int \<Rightarrow> int \<Rightarrow> dvar \<Rightarrow> machine \<Rightarrow> bool dv_op" where
  "exclude_dom_loop x frst lst y m =
     fd_bind (domain_set_false_aux y frst m) (\<lambda>(b, y, m).
     if \<not> b then Inr (False, y, m)
     else if frst \<ge> lst then Inr (True, y, m)
     else fd_bind (if \<not> IS_IT_DOMAIN x then dv_next_bv x (frst + 1) else Inr (frst + 1)) (\<lambda>frst.
          exclude_dom_loop x frst lst y m))"
  by pat_completeness auto
termination
  by (relation "measure (\<lambda>(x, frst, lst, y, m). nat (lst - frst))")
    (auto simp: dv_next_bv_def fd_bind_Inr split: if_splits dest: domain_next_bv_least)

definition exclude_dom_aux :: "dvar \<Rightarrow> dvar \<Rightarrow> machine \<Rightarrow> bool dv_op" where
  "exclude_dom_aux x y m =
     (if DV_first x > DV_last y \<or> DV_first y > DV_last x then Inr (True, y, m)
      else let frst = (if DV_first x > DV_first y then DV_first x else DV_first y);
               lst = (if DV_last x < DV_last y then DV_last x else DV_last y)
           in fd_bind (find_member x frst lst) (\<lambda>frst.
              if frst > lst then Inr (True, y, m) else exclude_dom_loop x frst lst y m))"

section \<open>Arc consistency of a binary constraint\<close>

text \<open>
  Each \<open>c_*_CON_aux\<close> walks the domain of \<open>x\<close> and removes the values without support in \<open>y\<close>; they
  differ in the test \<open>supp\<close>. The walk ends when \<open>x\<close> is instantiated.
\<close>

function support_loop :: "(int \<Rightarrow> bool fd) \<Rightarrow> int \<Rightarrow> int \<Rightarrow> dvar \<Rightarrow> machine \<Rightarrow> (dvar \<times> machine) fd" where
  "support_loop supp maxX currX x m =
     fd_bind (supp currX) (\<lambda>ok.
     fd_bind (if \<not> ok then fd_bind (domain_set_false_aux x currX m) (\<lambda>(b, x, m). Inr (x, m)) else Inr (x, m)) (\<lambda>(x, m).
     if \<not> ok \<and> DV_var x \<noteq> None then Inr (x, m)
     else if currX \<ge> maxX then Inr (x, m)
     else fd_bind (if IS_IT_DOMAIN x then Inr (currX + 1) else dv_next_bv x (currX + 1)) (\<lambda>currX.
          support_loop supp maxX currX x m)))"
  by pat_completeness auto
termination
  by (relation "measure (\<lambda>(supp, maxX, currX, x, m). nat (maxX - currX))")
    (auto simp: dv_next_bv_def fd_bind_Inr split: if_splits dest: domain_next_bv_least)

declare find_member.simps [simp del] exclude_dom_loop.simps [simp del] support_loop.simps [simp del]

definition c_VV_EQ_C_CON_aux :: "dvar \<Rightarrow> dvar \<Rightarrow> int \<Rightarrow> machine \<Rightarrow> (dvar \<times> machine) fd" where
  "c_VV_EQ_C_CON_aux x y C m = support_loop (\<lambda>currX. dm_true y (C - currX)) (DV_last x) (DV_first x) x m"

definition c_V_EQ_VC_CON_aux :: "dvar \<Rightarrow> dvar \<Rightarrow> int \<Rightarrow> machine \<Rightarrow> (dvar \<times> machine) fd" where
  "c_V_EQ_VC_CON_aux x y C m = support_loop (\<lambda>currX. dm_true y (currX - C)) (DV_last x) (DV_first x) x m"

definition c_UU_EQ_C_CON_aux :: "int \<Rightarrow> dvar \<Rightarrow> int \<Rightarrow> dvar \<Rightarrow> int \<Rightarrow> machine \<Rightarrow> (dvar \<times> machine) fd" where
  "c_UU_EQ_C_CON_aux A x B y C m = support_loop
     (\<lambda>currX. let tmp = C - A * currX; currY = tmp sdiv B
              in if B * currY \<noteq> tmp then Inr False else dm_true y currY) (DV_last x) (DV_first x) x m"

definition c_U_EQ_UC_CON_aux :: "int \<Rightarrow> dvar \<Rightarrow> int \<Rightarrow> dvar \<Rightarrow> int \<Rightarrow> machine \<Rightarrow> (dvar \<times> machine) fd" where
  "c_U_EQ_UC_CON_aux A x B y C m = support_loop
     (\<lambda>currX. let tmp = A * currX - C; currY = tmp sdiv B
              in if tmp \<noteq> B * currY then Inr False else dm_true y currY) (DV_last x) (DV_first x) x m"

definition b_VV_EQ_C_CON_ccc :: "dvar \<Rightarrow> dvar \<Rightarrow> int \<Rightarrow> machine \<Rightarrow> (dvar \<times> dvar \<times> machine) fd" where
  "b_VV_EQ_C_CON_ccc x y C m =
     (if DV_var x \<noteq> None \<or> DV_var y \<noteq> None then Inr (x, y, m)
      else fd_bind (if IS_BV_DOMAIN y then c_VV_EQ_C_CON_aux x y C m else Inr (x, m)) (\<lambda>(x, m).
     if DV_var x \<noteq> None then Inr (x, y, m)
     else fd_bind (if IS_BV_DOMAIN x then c_VV_EQ_C_CON_aux y x C m else Inr (y, m)) (\<lambda>(y, m). Inr (x, y, m))))"

definition b_V_EQ_VC_CON_ccc :: "dvar \<Rightarrow> dvar \<Rightarrow> int \<Rightarrow> machine \<Rightarrow> (dvar \<times> dvar \<times> machine) fd" where
  "b_V_EQ_VC_CON_ccc x y C m =
     (if DV_var x \<noteq> None \<or> DV_var y \<noteq> None then Inr (x, y, m)
      else fd_bind (if IS_BV_DOMAIN y then c_V_EQ_VC_CON_aux x y C m else Inr (x, m)) (\<lambda>(x, m).
     if DV_var x \<noteq> None then Inr (x, y, m)
     else fd_bind (if IS_BV_DOMAIN x then c_V_EQ_VC_CON_aux y x (- C) m else Inr (y, m)) (\<lambda>(y, m). Inr (x, y, m))))"

definition c_UU_EQ_C_CON :: "int \<Rightarrow> dvar \<Rightarrow> int \<Rightarrow> dvar \<Rightarrow> int \<Rightarrow> machine \<Rightarrow> (dvar \<times> dvar \<times> machine) fd" where
  "c_UU_EQ_C_CON A x B y C m =
     (if DV_var x \<noteq> None \<or> DV_var y \<noteq> None then Inr (x, y, m)
      else fd_bind (if IS_BV_DOMAIN y \<or> B \<noteq> 1 then c_UU_EQ_C_CON_aux A x B y C m else Inr (x, m)) (\<lambda>(x, m).
     if DV_var x \<noteq> None then Inr (x, y, m)
     else fd_bind (if IS_BV_DOMAIN x \<or> A \<noteq> 1 then c_UU_EQ_C_CON_aux B y A x C m else Inr (y, m)) (\<lambda>(y, m). Inr (x, y, m))))"

definition c_U_EQ_UC_CON :: "int \<Rightarrow> dvar \<Rightarrow> int \<Rightarrow> dvar \<Rightarrow> int \<Rightarrow> machine \<Rightarrow> (dvar \<times> dvar \<times> machine) fd" where
  "c_U_EQ_UC_CON A x B y C m =
     (if DV_var x \<noteq> None \<or> DV_var y \<noteq> None then Inr (x, y, m)
      else fd_bind (if IS_BV_DOMAIN y \<or> B \<noteq> 1 then c_U_EQ_UC_CON_aux A x B y C m else Inr (x, m)) (\<lambda>(x, m).
     if DV_var x \<noteq> None then Inr (x, y, m)
     else fd_bind (if IS_BV_DOMAIN x \<or> A \<noteq> 1 then c_U_EQ_UC_CON_aux B y A x (- C) m else Inr (y, m)) (\<lambda>(y, m). Inr (x, y, m))))"

section \<open>The primitives are excluders\<close>

interpretation value_ex: excluder "\<lambda>e v m. domain_set_false_aux v e m" "\<lambda>e. {e}" "\<lambda>_. True"
  by unfold_locales (rule domain_set_false_aux_safe)

interpretation interval_ex: excluder "\<lambda>(a, b) v m. domain_exclude_interval_aux v a b m"
    "\<lambda>(a, b). {a..b}" "\<lambda>(a, b). a \<le> b"
  by unfold_locales (auto intro: domain_exclude_interval_aux_safe)

interpretation region_ex: excluder "\<lambda>(a, b) v m. domain_region_aux v a b m" "\<lambda>(a, b). - {a..b}" "\<lambda>_. True"
  by unfold_locales (auto intro: domain_region_aux_safe)

interpretation item_ex: excluder notin_item item_set item_ok
  by unfold_locales
    (auto simp: notin_item_def item_set_def item_ok_def split: dom_item.split
      intro: domain_set_false_aux_safe domain_exclude_interval_aux_safe)

lemma dom_set_bounds: "wf_dvar v \<Longrightarrow> DV_var v = None \<Longrightarrow> e \<in> dom_set v \<Longrightarrow> DV_first v \<le> e \<and> e \<le> DV_last v"
  using wf_dvarD(6) by fastforce

lemma excluded_code_none: "wf_dvar v \<Longrightarrow> S \<inter> dom_set v = {} \<Longrightarrow> excluded_code v S (True, v, m)"
  using dom_set_nonempty [of v] by (auto simp: excluded_code_def)

text \<open>A member of the other domain stays; \<open>y\<close> is not changed by the operation.\<close>

lemma unless_member_safe:
  assumes y: "wf_dvar y" "DV_var y = None" and "wf_dvar x"
  shows "fd_safe (unless_member y i x m) (excluded_code x ({i} - dom_set y))"
proof (cases "i \<in> dom_set y")
  case True
  then have "{i} - dom_set y = {}" by simp
  with True assms show ?thesis
    by (simp add: unless_member_def dm_true_mem [OF y] fd_bind_simps excluded_code_none)
next
  case False
  then have "{i} - dom_set y = {i}" by auto
  with False domain_set_false_aux_safe [OF assms(3)] show ?thesis
    by (simp add: unless_member_def dm_true_mem [OF y] fd_bind_simps)
qed

lemma unless_excluder: "wf_dvar y \<Longrightarrow> DV_var y = None \<Longrightarrow> excluder (unless_member y) (\<lambda>i. {i} - dom_set y) (\<lambda>_. True)"
  by unfold_locales (rule unless_member_safe)

section \<open>What the operations on sets do\<close>

lemma exclude_dom_comp_safe:
  assumes "wf_dvar x" "DV_var x = None" "wf_dvar y" "DV_var y = None"
  shows "fd_safe (exclude_dom_comp_aux x y m) (excluded_code y (- dom_set x))"
proof -
  have "fd_safe (exclude_dom_comp_aux x y m) (excluded_code y (\<Union>i \<in> set [DV_first y..DV_last y]. {i} - dom_set x))"
    unfolding exclude_dom_comp_aux_def
    using excluder.items_exclude [OF unless_excluder [OF assms(1,2)] assms(3)] by blast
  then show ?thesis
    by (rule fd_safe_mono) (erule excluded_code_cong, use wf_dvarD(6) [OF assms(3,4)] in auto)
qed

lemma excluded_code_then:
  assumes "excluded_code v S (True, v', m')" "excluded_code v' T r"
  shows "excluded_code v (S \<union> T) r"
proof -
  obtain b v'' m'' where r: "r = (b, v'', m'')" by (cases r)
  from assms(1) have "dom_set v' = dom_set v - S" by (simp add: excluded_code_def)
  with assms(2) show ?thesis unfolding r by (auto simp: excluded_code_def)
qed

lemma excluded_code_fail: "excluded_code v S (False, v', m') \<Longrightarrow> S \<subseteq> T \<Longrightarrow> excluded_code v T (False, v', m'')"
  by (auto simp: excluded_code_def)

text \<open>One exclusion after another.\<close>

lemma exclude_then:
  assumes r: "fd_safe r (excluded_code v S)"
    and f: "\<And>v' m'. excluded_code v S (True, v', m') \<Longrightarrow> fd_safe (f v' m') (excluded_code v' T)"
  shows "fd_safe (fd_bind r (\<lambda>(b, v, m). if \<not> b then Inr (False, v, m) else f v m)) (excluded_code v (S \<union> T))"
proof (rule fd_safe_bind [OF r], clarify)
  fix b v' m' assume b: "excluded_code v S (b, v', m')"
  show "fd_safe (if \<not> b then Inr (False, v', m') else f v' m') (excluded_code v (S \<union> T))"
  proof (cases b)
    case True
    with b have t: "excluded_code v S (True, v', m')" by simp
    show ?thesis using True fd_safe_mono [OF f [OF t] excluded_code_then [OF t]] by simp
  next
    case False
    with b have "excluded_code v S (False, v', m')" by simp
    then have "excluded_code v (S \<union> T) (False, v', m')" by (rule excluded_code_fail) simp
    with False show ?thesis by simp
  qed
qed

lemma dm_intersect_safe:
  assumes x: "wf_dvar x" "DV_var x = None" and y: "wf_dvar y" "DV_var y = None"
  shows "fd_safe (dm_intersect x y m) (excluded_code x (- dom_set y))"
proof -
  let ?f = "if DV_first y < DV_first x then DV_first x else DV_first y"
  let ?l = "if DV_last y > DV_last x then DV_last x else DV_last y"
  show ?thesis
  proof (cases "IS_IT_DOMAIN y")
    case True
    then have "dom_set y = {DV_first y..DV_last y}" using y(2) by (simp add: IS_IT_DOMAIN_def)
    with True domain_region_noint_safe [OF x] show ?thesis by (simp add: dm_intersect_def)
  next
    case False
    have empty: "excluded_code x (- dom_set y) (False, x, m)" if "?f > ?l"
    proof -
      from that have "dom_set x \<inter> dom_set y = {}" using dom_set_bounds [OF x] dom_set_bounds [OF y] by (fastforce split: if_splits)
      then show ?thesis using x(1) by (auto simp: excluded_code_def)
    qed
    have ul: "fd_safe (exclude_items (unless_member y) [?f..?l] x' m')
        (excluded_code x' (\<Union>i \<in> set [?f..?l]. {i} - dom_set y))" if "wf_dvar x'" for x' m'
      using excluder.items_exclude [OF unless_excluder [OF y] that] by blast
    have "fd_safe (fd_bind (domain_region_noint x ?f ?l m) (\<lambda>(b, x, m). if \<not> b then Inr (False, x, m)
             else exclude_items (unless_member y) [?f..?l] x m))
           (excluded_code x (- {?f..?l} \<union> (\<Union>i \<in> set [?f..?l]. {i} - dom_set y)))"
      by (rule exclude_then [OF domain_region_noint_safe [OF x]], rule ul)
        (simp add: excluded_code_def)
    then have "fd_safe (fd_bind (domain_region_noint x ?f ?l m) (\<lambda>(b, x, m). if \<not> b then Inr (False, x, m)
             else exclude_items (unless_member y) [?f..?l] x m)) (excluded_code x (- dom_set y))"
      by (rule fd_safe_mono) (erule excluded_code_cong, use dom_set_bounds [OF x] dom_set_bounds [OF y] in \<open>auto split: if_splits\<close>)
    with False empty show ?thesis by (simp add: dm_intersect_def Let_def)
  qed
qed

text \<open>The gaps below the greatest element of a sorted list are what \<open>VAR_IN_D\<close> removes.\<close>

definition items_set :: "dom_item list \<Rightarrow> int set" where
  "items_set D = (\<Union>i \<in> set D. item_set i)"

fun items_sorted :: "dom_item list \<Rightarrow> bool" where
  "items_sorted [] \<longleftrightarrow> True"
| "items_sorted (i # D) \<longleftrightarrow> item_ok i \<and> (\<forall>j \<in> set D. \<forall>x \<in> item_set i. \<forall>y \<in> item_set j. x < y) \<and> items_sorted D"

definition gaps :: "int \<Rightarrow> dom_item list \<Rightarrow> int set" where
  "gaps mn D = {x. mn \<le> x \<and> x \<notin> items_set D \<and> (\<exists>y \<in> items_set D. x < y)}"

lemma items_set_Cons: "items_set (i # D) = item_set i \<union> items_set D"
  by (simp add: items_set_def)

lemma gaps_Cons:
  assumes "items_sorted (i # D)" "item_set i = {l..u}" "l \<le> u"
  shows "gaps mn (i # D) = (if mn < l then {mn..l - 1} else {}) \<union> gaps (if mn \<le> u then u + 1 else mn) D"
proof (rule set_eqI)
  fix x
  have up: "u < y" if "y \<in> items_set D" for y
    using assms that by (auto simp: items_set_def)
  consider "x < l" | "l \<le> x" "x \<le> u" | "u < x" by linarith
  then show "x \<in> gaps mn (i # D) \<longleftrightarrow> x \<in> (if mn < l then {mn..l - 1} else {}) \<union> gaps (if mn \<le> u then u + 1 else mn) D"
  proof cases
    case 1
    then have "x \<notin> items_set D" using up [of x] assms(3) by auto
    moreover have "\<exists>y \<in> {l..u} \<union> items_set D. x < y" using 1 assms(3) by (intro bexI [of _ l]) auto
    ultimately show ?thesis using 1 assms(3) by (auto simp: gaps_def items_set_Cons assms(2))
  next
    case 2
    then show ?thesis by (auto simp: gaps_def items_set_Cons assms(2))
  next
    case 3
    then have "(\<exists>y \<in> {l..u} \<union> items_set D. x < y) \<longleftrightarrow> (\<exists>y \<in> items_set D. x < y)" by auto
    with 3 assms(3) show ?thesis by (auto simp: gaps_def items_set_Cons assms(2))
  qed
qed

lemma var_in_d_safe:
  "wf_dvar v \<Longrightarrow> items_sorted D \<Longrightarrow> fd_safe (var_in_d D mn v m) (excluded_code v (gaps mn D))"
proof (induction D arbitrary: mn v m)
  case Nil
  then show ?case by (simp add: gaps_def items_set_def excluded_code_none)
next
  case (Cons i D)
  from Cons.prems(2) have D: "items_sorted D" and ok: "item_ok i" by simp_all
  show ?case
  proof (cases i)
    case (Elm elm)
    have g: "gaps mn (i # D) = (if mn < elm then {mn..elm - 1} else {}) \<union> gaps (if mn \<le> elm then elm + 1 else mn) D"
      using Cons.prems(2) by (intro gaps_Cons) (auto simp: Elm item_set_def)
    show ?thesis
    proof (cases "mn < elm")
      case True
      have "fd_safe (fd_bind (domain_exclude_interval_aux v mn (elm - 1) m) (\<lambda>(b, v, m).
           if \<not> b then Inr (False, v, m) else var_in_d D (elm + 1) v m)) (excluded_code v ({mn..elm - 1} \<union> gaps (elm + 1) D))"
        by (rule exclude_then [OF domain_exclude_interval_aux_safe [OF Cons.prems(1)]])
          (use True in simp, rule Cons.IH [OF _ D], simp add: excluded_code_def)
      with True show ?thesis unfolding g by (simp add: Elm)
    next
      case False
      then have "(if mn = elm then elm + 1 else mn) = (if mn \<le> elm then elm + 1 else mn)" by auto
      with False Cons.IH [OF Cons.prems(1) D] show ?thesis unfolding g by (simp add: Elm)
    qed
  next
    case (Interval low up)
    have g: "gaps mn (i # D) = (if mn < low then {mn..low - 1} else {}) \<union> gaps (if mn \<le> up then up + 1 else mn) D"
      using Cons.prems(2) ok by (intro gaps_Cons) (auto simp: Interval item_set_def item_ok_def)
    have r: "fd_safe (if mn < low then domain_exclude_interval_aux v mn (low - 1) m else Inr (True, v, m))
      (excluded_code v (if mn < low then {mn..low - 1} else {}))"
      using domain_exclude_interval_aux_safe [OF Cons.prems(1)] excluded_code_none [OF Cons.prems(1)] by simp
    show ?thesis
      unfolding g unfolding Interval var_in_d.simps
      by (rule exclude_then [OF r], rule Cons.IH [OF _ D]) (simp add: excluded_code_def)
  qed
qed

text \<open>Removing the members of one domain from another: the walk visits exactly the members.\<close>

lemma find_member_safe:
  assumes x: "wf_dvar x" "DV_var x = None"
  shows "fd_safe (find_member x f l) (\<lambda>e. f \<le> e \<and> (\<forall>i \<in> dom_set x. f \<le> i \<and> i \<le> l \<longrightarrow> e \<le> i) \<and> (e \<le> l \<longrightarrow> e \<in> dom_set x))"
  using x
proof (induction x f l rule: find_member.induct)
  case (1 x f l)
  have "find_member x f l = (if f \<le> l then if f \<in> dom_set x then Inr f else find_member x (f + 1) l else Inr f)"
    by (subst find_member.simps) (simp add: dm_true_mem [OF 1(2,3)] fd_bind_simps)
  moreover have "fd_safe (find_member x (f + 1) l)
      (\<lambda>e. f \<le> e \<and> (\<forall>i \<in> dom_set x. f \<le> i \<and> i \<le> l \<longrightarrow> e \<le> i) \<and> (e \<le> l \<longrightarrow> e \<in> dom_set x))"
    if "f \<le> l" "f \<notin> dom_set x"
  proof (rule fd_safe_mono [OF 1(1) [OF that(1) _ _ 1(2,3)]], goal_cases)
    case (3 e)
    have "e \<le> i" if "i \<in> dom_set x" "f \<le> i" "i \<le> l" for i
    proof -
      from that(1) \<open>f \<notin> dom_set x\<close> have "i \<noteq> f" by metis
      with that 3 show ?thesis by simp
    qed
    with 3 show ?case by simp
  qed (use that dm_true_mem [OF 1(2,3)] in auto)
  ultimately show ?case by auto
qed

lemma exclude_dom_loop_safe:
  assumes x: "wf_dvar x" "DV_var x = None" and "DV_first x \<le> f" "l \<le> DV_last x"
    and "f \<in> dom_set x" "wf_dvar y" "\<forall>e \<in> dom_set x \<inter> dom_set y. e \<le> l"
  shows "fd_safe (exclude_dom_loop x f l y m) (excluded_code y (dom_set x \<inter> {f..}))"
  using assms(3-)
proof (induction "nat (l - f)" arbitrary: f y m rule: less_induct)
  case less
  have split: "excluded_code y (dom_set x \<inter> {f..}) r" if "excluded_code y ({f} \<union> (dom_set x \<inter> {g..})) r"
    "\<forall>e \<in> dom_set x \<inter> dom_set y. f < e \<longrightarrow> g \<le> e" "f < g" for g r
    using that(1) by (rule excluded_code_cong) (use less.prems(3) that(2,3) in force)
  have last: "excluded_code y (dom_set x \<inter> {f..}) r" if "excluded_code y ({f} \<union> {}) r" "f \<ge> l" for r
    using that(1) by (rule excluded_code_cong) (use less.prems(3,5) that(2) in force)
  define nxt where "nxt = (if \<not> IS_IT_DOMAIN x then dv_next_bv x (f + 1) else Inr (f + 1))"
  have nxt: "fd_safe nxt (\<lambda>g. f < g \<and> g \<in> dom_set x \<and> (\<forall>e \<in> dom_set x. f < e \<longrightarrow> g \<le> e))" if "f < l"
  proof (cases "IS_IT_DOMAIN x")
    case True
    with x(2) less.prems(1,2) that show ?thesis by (simp add: nxt_def IS_IT_DOMAIN_def)
  next
    case False
    have fl: "DV_first x \<le> f + 1" "f + 1 \<le> DV_last x" using less.prems(1,2) that by simp_all
    from dv_next_mem [OF x False fl]
    obtain e where "dv_next_bv x (f + 1) = Inr e" "e \<in> dom_set x" "f + 1 \<le> e" "\<forall>i \<in> dom_set x. f + 1 \<le> i \<longrightarrow> e \<le> i" .
    with False show ?thesis by (simp add: nxt_def)
  qed
  have rest: "fd_safe (fd_bind nxt (\<lambda>g. exclude_dom_loop x g l y' m')) (\<lambda>r. excluded_code y (dom_set x \<inter> {f..}) r)"
    if y': "excluded_code y {f} (True, y', m')" and "f < l" for y' m'
  proof (rule fd_safe_bind [OF nxt [OF that(2)]], elim conjE)
    fix g assume g: "f < g" "g \<in> dom_set x" "\<forall>e \<in> dom_set x. f < e \<longrightarrow> g \<le> e"
    have "fd_safe (exclude_dom_loop x g l y' m') (excluded_code y' (dom_set x \<inter> {g..}))"
      by (rule less.hyps) (use g less.prems that in \<open>auto simp: excluded_code_def\<close>)
    then show "fd_safe (exclude_dom_loop x g l y' m') (excluded_code y (dom_set x \<inter> {f..}))"
      by (rule fd_safe_mono) (rule split [OF excluded_code_then [OF y']], use g in auto)
  qed
  show ?case
  proof (cases "f \<ge> l")
    case True
    have "fd_safe (fd_bind (domain_set_false_aux y f m) (\<lambda>(b, y, m). if \<not> b then Inr (False, y, m) else Inr (True, y, m)))
        (excluded_code y ({f} \<union> {}))"
      by (rule exclude_then [OF domain_set_false_aux_safe [OF less.prems(4)]])
        (auto intro: excluded_code_none simp: excluded_code_def dom_set_nonempty)
    then have "fd_safe (fd_bind (domain_set_false_aux y f m) (\<lambda>(b, y, m). if \<not> b then Inr (False, y, m) else Inr (True, y, m)))
        (excluded_code y (dom_set x \<inter> {f..}))"
      by (rule fd_safe_mono) (erule last, rule True)
    then show ?thesis by (subst exclude_dom_loop.simps) (unfold if_P [OF True])
  next
    case False
    have "fd_safe (fd_bind (domain_set_false_aux y f m) (\<lambda>(b, y, m). if \<not> b then Inr (False, y, m)
        else fd_bind nxt (\<lambda>g. exclude_dom_loop x g l y m))) (excluded_code y (dom_set x \<inter> {f..}))"
    proof (rule fd_safe_bind [OF domain_set_false_aux_safe [OF less.prems(4)]], clarify)
      fix b y' m' assume b: "excluded_code y {f} (b, y', m')"
      show "fd_safe (if \<not> b then Inr (False, y', m') else fd_bind nxt (\<lambda>g. exclude_dom_loop x g l y' m'))
        (excluded_code y (dom_set x \<inter> {f..}))"
      proof (cases b)
        case True
        with b False rest [of y' m'] show ?thesis by simp
      next
        case False
        with b less.prems(3) excluded_code_fail [of y "{f}" y' m' "dom_set x \<inter> {f..}" m'] show ?thesis by simp
      qed
    qed
    then show ?thesis by (subst exclude_dom_loop.simps) (unfold if_not_P [OF False] nxt_def)
  qed
qed

lemma exclude_dom_safe:
  assumes x: "wf_dvar x" "DV_var x = None" and y: "wf_dvar y" "DV_var y = None"
  shows "fd_safe (exclude_dom_aux x y m) (excluded_code y (dom_set x))"
proof -
  note bx = dom_set_bounds [OF x] and by' = dom_set_bounds [OF y]
  let ?f = "if DV_first x > DV_first y then DV_first x else DV_first y"
  let ?l = "if DV_last x < DV_last y then DV_last x else DV_last y"
  have disj: "excluded_code y (dom_set x) (True, y, m)" if "\<forall>i \<in> dom_set x. i \<notin> dom_set y"
    using that by (intro excluded_code_none [OF y(1)]) auto
  have "fd_safe (fd_bind (find_member x ?f ?l) (\<lambda>f. if f > ?l then Inr (True, y, m) else exclude_dom_loop x f ?l y m))
      (excluded_code y (dom_set x))"
  proof (rule fd_safe_bind [OF find_member_safe [OF x]], elim conjE)
    fix e assume e: "?f \<le> e" "\<forall>i \<in> dom_set x. ?f \<le> i \<and> i \<le> ?l \<longrightarrow> e \<le> i" "e \<le> ?l \<longrightarrow> e \<in> dom_set x"
    have both: "?f \<le> i \<and> i \<le> ?l" if "i \<in> dom_set x" "i \<in> dom_set y" for i
      using bx [OF that(1)] by' [OF that(2)] by simp
    show "fd_safe (if e > ?l then Inr (True, y, m) else exclude_dom_loop x e ?l y m) (excluded_code y (dom_set x))"
    proof (rule fd_safe_if)
      assume "e > ?l"
      with e(2) both have "\<forall>i \<in> dom_set x. i \<notin> dom_set y" by force
      then show "fd_safe (Inr (True, y, m)) (excluded_code y (dom_set x))" using disj by simp
    next
      assume "\<not> e > ?l"
      with e have "fd_safe (exclude_dom_loop x e ?l y m) (excluded_code y (dom_set x \<inter> {e..}))"
        by (intro exclude_dom_loop_safe [OF x]) (use y(1) both in \<open>auto split: if_splits\<close>)
      then show "fd_safe (exclude_dom_loop x e ?l y m) (excluded_code y (dom_set x))"
        by (rule fd_safe_mono) (erule excluded_code_cong, use e both in force)
    qed
  qed
  moreover have "\<forall>i \<in> dom_set x. i \<notin> dom_set y" if "DV_first x > DV_last y \<or> DV_first y > DV_last x"
    using that bx by' by fastforce
  ultimately show ?thesis using disj by (simp add: exclude_dom_aux_def Let_def)
qed

section \<open>Supported values\<close>

text \<open>
  Moving a bound leaves bits behind; the walk does not meet them, because the bits above the current
  value are values of the variable.
\<close>

definition no_stale :: "dvar \<Rightarrow> dvar \<Rightarrow> bool" where
  "no_stale v v' \<longleftrightarrow> (DV_type v' = IT_DOMAIN \<longrightarrow> DV_type v = IT_DOMAIN) \<and> (\<forall>bv. DV_type v' = BV_DOMAIN bv \<longrightarrow> BV_low_val bv \<le> DV_first v \<and>
     (\<forall>e. DV_first v \<le> e \<and> e \<le> DV_last v \<and> bv_member bv e \<longrightarrow> e \<in> dom_set v))"

lemma no_stale_type:
  assumes "wf_dvar v" "DV_var v = None" "DV_type v' = DV_type v"
  shows "no_stale v v'"
  using assms(1,2)
proof (cases rule: wf_dvar_cases)
  case interval
  with assms(3) show ?thesis by (simp add: no_stale_def IS_IT_DOMAIN_def)
next
  case (vector bv)
  from bv_member_range [OF vector(5)] vector(1) assms(2,3) show ?thesis by (simp add: no_stale_def)
qed

lemma type_kept:
  "fd_post (ASSIGN_DVAR v c m) (\<lambda>(v', m'). DV_type v' = DV_type v)"
  "fd_post (UPDATE_FIRST_SIZE v f0 f n m) (\<lambda>(v', m'). DV_type v' = DV_type v)"
  "fd_post (UPDATE_LAST_SIZE v l0 l n m) (\<lambda>(v', m'). DV_type v' = DV_type v)"
  by (auto simp: ASSIGN_DVAR_def UPDATE_FIRST_SIZE_def UPDATE_LAST_SIZE_def Let_def intro!: fd_post_any)

lemma hole_no_stale:
  assumes "wf_dvar v" "DV_var v = None" "IS_IT_DOMAIN v"
  shows "fd_post (it_to_bv_with_hole v e m) (\<lambda>(v', m'). no_stale v v')"
proof -
  have "DV_first v div 64 * 64 \<le> DV_first v" by simp
  then show ?thesis
    using assms(2,3) unfolding it_to_bv_with_hole_def Let_def
    by (intro fd_post_if, simp, intro fd_post_any, clarify, intro fd_post_any)
      (auto simp: UPDATE_SIZE_def no_stale_def IS_IT_DOMAIN_def full_bv_def WORD_NUMBER_floor)
qed

lemma inner_no_stale:
  assumes "wf_dvar v" "DV_var v = None" "\<not> IS_IT_DOMAIN v"
  shows "fd_post (exclude_inner_elm_bv v e m) (\<lambda>(v', m'). no_stale v v')"
proof -
  from assms(1,2) obtain bv where bv: "DV_type v = BV_DOMAIN bv" "DV_bit_vector_ptr v = Inr bv" "bv_member bv (DV_first v)"
    by (cases rule: wf_dvar_cases) (use assms(3) in auto)
  show ?thesis
  proof (cases "WORD_OFFSET bv e")
    case (Inr x)
    obtain w p k where x: "x = (w, p, k)" by (cases x)
    then have o: "WORD_OFFSET bv e = Inr (w, p, k)" using Inr by simp
    then have w: "bv_words bv ! p = w" by (simp add: WORD_OFFSET_Inr)
    have "no_stale v (v\<lparr>DV_type := BV_DOMAIN (clear_bit bv p k)\<rparr>)"
      using bv_member_range [OF bv(3)] bv(1) assms(2) clear_bit_member [OF o]
      by (simp add: no_stale_def clear_bit_def)
    then have "no_stale v (fst (UPDATE_SIZE (v\<lparr>DV_type := BV_DOMAIN (clear_bit bv p k)\<rparr>) n0 n m'))" for n0 n m'
      by (simp add: UPDATE_SIZE_def no_stale_def)
    then have "fd_post (fd_bind r (\<lambda>m. Inr (UPDATE_SIZE (v\<lparr>DV_type := BV_DOMAIN (clear_bit bv p k)\<rparr>) n0 n m)))
        (\<lambda>(v', m'). no_stale v v')" for r n0 n
      by (intro fd_post_any) (simp add: case_prod_beta)
    then show ?thesis
      using no_stale_type [OF assms(1,2) refl]
      unfolding exclude_inner_elm_bv_def bv(2) fd_bind_simps o prod.case Let_def w [symmetric] clear_bit_def [symmetric]
      by (intro fd_post_if) simp_all
  qed (simp add: exclude_inner_elm_bv_def bv(2))
qed

lemma set_false_no_stale:
  assumes "wf_dvar v" "DV_var v = None"
  shows "fd_post (domain_set_false_noint v e m) (\<lambda>(v', m'). no_stale v v')"
proof -
  have t: "fd_post r (\<lambda>(v', m'). no_stale v v')" if "fd_post r (\<lambda>(v', m'). DV_type v' = DV_type v)" for r :: "(dvar \<times> machine) fd"
    using that by (rule fd_post_mono) (auto intro: no_stale_type [OF assms])
  show ?thesis
    unfolding domain_set_false_noint_def
    by (intro fd_post_if hole_no_stale inner_no_stale assms t [OF type_kept(1)];
        (rule fd_post_any, rule fd_post_any, intro t [OF type_kept(2)] t [OF type_kept(3)])?)
      (simp_all add: no_stale_type [OF assms])
qed

lemma walk_next:
  assumes x: "wf_dvar x" "DV_var x = None" "c \<in> dom_set x" "c < DV_last x"
    and x': "wf_dvar x'" "DV_var x' = None" "no_stale x x'" "dom_set x' \<subseteq> dom_set x" "dom_set x - {c} \<subseteq> dom_set x'"
  shows "DV_last x' = DV_last x"
    and "fd_safe (if IS_IT_DOMAIN x' then Inr (c + 1) else dv_next_bv x' (c + 1))
      (\<lambda>e. e \<in> dom_set x' \<and> c < e \<and> (\<forall>i \<in> dom_set x'. c < i \<longrightarrow> e \<le> i))"
proof -
  note w = wf_dvarD [OF x(1,2)] and w' = wf_dvarD [OF x'(1,2)]
  have l: "DV_last x \<in> dom_set x'" using x'(5) x(4) w(3) by auto
  then show last: "DV_last x' = DV_last x"
    using dom_set_bounds [OF x'(1,2) l] dom_set_bounds [OF x(1,2)] w'(3) x'(4) by force
  have c: "DV_first x \<le> c" using dom_set_bounds [OF x(1,2,3)] by simp
  from x'(1,2) show "fd_safe (if IS_IT_DOMAIN x' then Inr (c + 1) else dv_next_bv x' (c + 1))
      (\<lambda>e. e \<in> dom_set x' \<and> c < e \<and> (\<forall>i \<in> dom_set x'. c < i \<longrightarrow> e \<le> i))"
  proof (cases rule: wf_dvar_cases)
    case interval
    then have "DV_type x = IT_DOMAIN" using x'(3) by (simp add: no_stale_def)
    then have "c + 1 \<in> dom_set x" using x(2,4) c by simp
    then have "c + 1 \<in> dom_set x'" using x'(5) by auto
    with interval show ?thesis by simp
  next
    case (vector bv)
    have lm: "bv_member bv (DV_last x)" using vector(6) last by simp
    have "BV_low_val bv \<le> c + 1" using x'(3) vector(1) c by (auto simp: no_stale_def)
    then obtain e where e: "domain_next_bv bv (c + 1) = Inr e"
      using domain_next_bv_ok [OF lm] x(4) by (metis zless_imp_add1_zle)
    note n = domain_next_bv_least [OF e]
    have le: "e \<le> i" if "c < i" "bv_member bv i" for i
      using n that by (meson none_in_def not_le zless_imp_add1_zle)
    have "e \<le> DV_last x" by (rule le [OF x(4) lm])
    then have "e \<in> dom_set x" using x'(3) vector(1) n c by (auto simp: no_stale_def)
    then have "e \<in> dom_set x'" using x'(5) n by auto
    moreover have "\<forall>i \<in> dom_set x'. c < i \<longrightarrow> e \<le> i" using le vector(1) x'(2) by simp
    ultimately show ?thesis using e n vector(2,4) by (simp add: dv_next_bv_def fd_bind_simps)
  qed
qed

lemma fd_safe_post: "fd_safe r P \<Longrightarrow> fd_post r Q \<Longrightarrow> fd_safe r (\<lambda>x. P x \<and> Q x)"
  by (cases r) auto

text \<open>The walk keeps the supported values, and only those when \<open>x\<close> is not instantiated at the end.\<close>

definition supported :: "dvar \<Rightarrow> int set \<Rightarrow> int \<Rightarrow> dvar \<times> machine \<Rightarrow> bool" where
  "supported x S c = (\<lambda>(x', m'). wf_dvar x' \<and> dom_set x' \<subseteq> dom_set x \<and> dom_set x \<inter> (S \<union> {..<c}) \<subseteq> dom_set x' \<and>
     (DV_var x' = None \<longrightarrow> dom_set x' \<inter> {c..} \<subseteq> S))"

lemma supported_next:
  assumes "supported x' S e r" "dom_set x' \<subseteq> dom_set x" "dom_set x - {c} \<subseteq> dom_set x'" "c < e"
    "\<forall>i \<in> dom_set x'. c < i \<longrightarrow> e \<le> i" "c \<in> dom_set x' \<Longrightarrow> c \<in> S" "c \<in> S \<Longrightarrow> c \<in> dom_set x'"
  shows "supported x S c r"
proof -
  obtain x'' m'' where r: "r = (x'', m'')" by (cases r)
  have s: "dom_set x'' \<subseteq> dom_set x'" "dom_set x' \<inter> (S \<union> {..<e}) \<subseteq> dom_set x''"
    using assms(1) by (auto simp: supported_def r)
  have "i \<in> dom_set x''" if "i \<in> dom_set x" "i \<in> S \<or> i < c" for i
    using that s(2) assms(3,4,7) by (cases "i = c") auto
  moreover have "i \<in> S" if "DV_var x'' = None" "i \<in> dom_set x''" "c \<le> i" for i
  proof (cases "i = c")
    case True
    with that(2) s(1) assms(6) show ?thesis by auto
  next
    case False
    with that s(1) assms(5) have "e \<le> i" by auto
    with that(1,2) assms(1) show ?thesis by (auto simp: supported_def r)
  qed
  ultimately show ?thesis using assms(1,2) s by (auto simp: supported_def r)
qed

lemma support_loop_safe:
  assumes "wf_dvar x" "DV_var x = None" "c \<in> dom_set x" and S: "\<And>i. supp i = Inr (i \<in> S)"
  shows "fd_safe (support_loop supp (DV_last x) c x m) (supported x S c)"
  using assms(1-3)
proof (induction "nat (DV_last x - c)" arbitrary: c x m rule: less_induct)
  case less
  note x = less.prems and c = dom_set_bounds [OF less.prems(1,2,3)]
  have go: "fd_safe (if \<not> ok \<and> DV_var x' \<noteq> None then Inr (x', m') else if c \<ge> DV_last x then Inr (x', m')
      else fd_bind (if IS_IT_DOMAIN x' then Inr (c + 1) else dv_next_bv x' (c + 1)) (\<lambda>e. support_loop supp (DV_last x) e x' m'))
      (supported x S c)"
    if x': "wf_dvar x'" "no_stale x x'" "dom_set x' = dom_set x - (if c \<in> S then {} else {c})" "c \<in> S \<Longrightarrow> x' = x"
      and ok: "ok = (c \<in> S)" for ok x' m'
  proof -
    have stop: "supported x S c (x', m')" if fin: "DV_var x' \<noteq> None \<or> c \<ge> DV_last x"
    proof -
      have "i \<in> S" if "DV_var x' = None" "i \<in> dom_set x'" "c \<le> i" for i
      proof -
        from that x'(3) have "i \<in> dom_set x" by (auto split: if_splits)
        from dom_set_bounds [OF x(1,2) this] that(1,3) fin have "i = c" by simp
        with that(2) x'(3) show ?thesis by (auto split: if_splits)
      qed
      moreover have "dom_set x \<inter> (S \<union> {..<c}) \<subseteq> dom_set x'" unfolding x'(3) by auto
      moreover have "dom_set x' \<subseteq> dom_set x" unfolding x'(3) by auto
      ultimately show ?thesis using x'(1) unfolding supported_def prod.case by blast
    qed
    have "fd_safe (fd_bind (if IS_IT_DOMAIN x' then Inr (c + 1) else dv_next_bv x' (c + 1)) (\<lambda>e. support_loop supp (DV_last x) e x' m'))
        (supported x S c)" if u: "DV_var x' = None" and l: "c < DV_last x"
    proof -
      have sub: "dom_set x' \<subseteq> dom_set x" "dom_set x - {c} \<subseteq> dom_set x'" using x'(3) by auto
      note nx = walk_next [OF x l x'(1) u x'(2) sub]
      show ?thesis
      proof (rule fd_safe_bind [OF nx(2)], elim conjE)
        fix e assume e: "e \<in> dom_set x'" "c < e" "\<forall>i \<in> dom_set x'. c < i \<longrightarrow> e \<le> i"
        have "nat (DV_last x' - e) < nat (DV_last x - c)" using e(2) l nx(1) by simp
        from less.hyps [OF this x'(1) u e(1)]
        have "fd_safe (support_loop supp (DV_last x) e x' m') (supported x' S e)" by (simp add: nx(1))
        then show "fd_safe (support_loop supp (DV_last x) e x' m') (supported x S c)"
          by (rule fd_safe_mono) (erule supported_next [OF _ sub e(2,3)], use x'(3) x(3) in \<open>auto split: if_splits\<close>)
      qed
    qed
    with stop x(2) x'(4) ok show ?thesis by (cases "DV_var x'") auto
  qed
  show ?case
  proof (cases "c \<in> S")
    case True
    have "fd_safe (if \<not> True \<and> DV_var x \<noteq> None then Inr (x, m) else if c \<ge> DV_last x then Inr (x, m)
      else fd_bind (if IS_IT_DOMAIN x then Inr (c + 1) else dv_next_bv x (c + 1)) (\<lambda>e. support_loop supp (DV_last x) e x m))
      (supported x S c)"
      by (rule go) (use True x no_stale_type [OF x(1,2) refl] in simp_all)
    with True show ?thesis
      by (subst support_loop.simps) (simp add: S fd_bind_simps)
  next
    case False
    have r: "fd_safe (fd_bind (domain_set_false_aux x c m) (\<lambda>(b, x, m). Inr (x, m)))
        (\<lambda>(x', m'). wf_dvar x' \<and> dom_set x' = dom_set x - {c} \<and> no_stale x x')"
      using fd_safe_post [OF domain_set_false_noint_safe [OF x(1,2)] set_false_no_stale [OF x(1,2)], of c m] x(2)
      by (cases "domain_set_false_noint x c m") (auto simp: domain_set_false_aux_def fd_bind_simps excluded_def)
    have "fd_safe (fd_bind (fd_bind (domain_set_false_aux x c m) (\<lambda>(b, x, m). Inr (x, m))) (\<lambda>(x', m').
        if \<not> False \<and> DV_var x' \<noteq> None then Inr (x', m') else if c \<ge> DV_last x then Inr (x', m')
        else fd_bind (if IS_IT_DOMAIN x' then Inr (c + 1) else dv_next_bv x' (c + 1)) (\<lambda>e. support_loop supp (DV_last x) e x' m')))
        (supported x S c)"
      by (rule fd_safe_bind [OF r], clarify, rule go) (use False in simp_all)
    with False show ?thesis
      by (subst support_loop.simps) (simp add: S fd_bind_simps)
  qed
qed

section \<open>Both sides of a constraint\<close>

definition filtered :: "dvar \<Rightarrow> int set \<Rightarrow> dvar \<times> machine \<Rightarrow> bool" where
  "filtered x S = (\<lambda>(x', m'). wf_dvar x' \<and> dom_set x' \<subseteq> dom_set x \<and> dom_set x \<inter> S \<subseteq> dom_set x' \<and>
     (DV_var x' = None \<longrightarrow> dom_set x' \<subseteq> S))"

lemma support_filtered:
  assumes x: "wf_dvar x" "DV_var x = None" and S: "\<And>i. supp i = Inr (i \<in> S)"
  shows "fd_safe (support_loop supp (DV_last x) (DV_first x) x m) (filtered x S)"
proof (rule fd_safe_mono [OF support_loop_safe [OF x wf_dvarD(2) [OF x] S]], clarify)
  fix x' m' assume s: "supported x S (DV_first x) (x', m')"
  then have "DV_var x' = None \<longrightarrow> dom_set x' \<subseteq> S"
    using dom_set_bounds [OF x] by (fastforce simp: supported_def)
  with s show "filtered x S (x', m')" by (auto simp: supported_def filtered_def)
qed

lemma exact_quotient: "B \<noteq> 0 \<Longrightarrow> (B * b) sdiv B = b" for b B :: int
  by (cases "B > 0") (simp_all add: signed_divide_int_def sgn_mult abs_mult sgn_mult_abs)

lemma quotient_supports:
  assumes "wf_dvar y" "DV_var y = None" "B \<noteq> 0"
  shows "(if B * (t sdiv B) \<noteq> t then Inr False else dm_true y (t sdiv B)) = Inr (\<exists>b \<in> dom_set y. B * b = t)"
  using assms(3) exact_quotient [OF assms(3)] by (auto simp: dm_true_mem [OF assms(1,2)])

lemma CON_aux_filtered:
  assumes x: "wf_dvar x" "DV_var x = None" and y: "wf_dvar y" "DV_var y = None"
  shows "fd_safe (c_VV_EQ_C_CON_aux x y C m) (filtered x {a. \<exists>b \<in> dom_set y. a + b = C})"
    and "fd_safe (c_V_EQ_VC_CON_aux x y C m) (filtered x {a. \<exists>b \<in> dom_set y. a = b + C})"
    and "B \<noteq> 0 \<Longrightarrow> fd_safe (c_UU_EQ_C_CON_aux A x B y C m) (filtered x {a. \<exists>b \<in> dom_set y. A * a + B * b = C})"
    and "B \<noteq> 0 \<Longrightarrow> fd_safe (c_U_EQ_UC_CON_aux A x B y C m) (filtered x {a. \<exists>b \<in> dom_set y. A * a = B * b + C})"
proof -
  show "fd_safe (c_VV_EQ_C_CON_aux x y C m) (filtered x {a. \<exists>b \<in> dom_set y. a + b = C})"
    unfolding c_VV_EQ_C_CON_aux_def
  proof (rule support_filtered [OF x])
    show "dm_true y (C - i) = Inr (i \<in> {a. \<exists>b \<in> dom_set y. a + b = C})" for i
      by (simp add: dm_true_mem [OF y]) (metis add_diff_cancel_left' diff_add_cancel add.commute)
  qed
  show "fd_safe (c_V_EQ_VC_CON_aux x y C m) (filtered x {a. \<exists>b \<in> dom_set y. a = b + C})"
    unfolding c_V_EQ_VC_CON_aux_def
  proof (rule support_filtered [OF x])
    show "dm_true y (i - C) = Inr (i \<in> {a. \<exists>b \<in> dom_set y. a = b + C})" for i
      by (simp add: dm_true_mem [OF y]) (metis add_diff_cancel diff_add_cancel)
  qed
  assume B: "B \<noteq> 0"
  show "fd_safe (c_UU_EQ_C_CON_aux A x B y C m) (filtered x {a. \<exists>b \<in> dom_set y. A * a + B * b = C})"
    unfolding c_UU_EQ_C_CON_aux_def Let_def
  proof (rule support_filtered [OF x])
    have "A * i + B * b = C \<longleftrightarrow> B * b = C - A * i" for i b by auto
    then show "(if B * ((C - A * i) sdiv B) \<noteq> C - A * i then Inr False else dm_true y ((C - A * i) sdiv B)) =
        Inr (i \<in> {a. \<exists>b \<in> dom_set y. A * a + B * b = C})" for i
      unfolding quotient_supports [OF y B] by simp
  qed
  show "fd_safe (c_U_EQ_UC_CON_aux A x B y C m) (filtered x {a. \<exists>b \<in> dom_set y. A * a = B * b + C})"
    unfolding c_U_EQ_UC_CON_aux_def Let_def
  proof (rule support_filtered [OF x])
    have "A * i = B * b + C \<longleftrightarrow> B * b = A * i - C" for i b by auto
    then show "(if A * i - C \<noteq> B * ((A * i - C) sdiv B) then Inr False else dm_true y ((A * i - C) sdiv B)) =
        Inr (i \<in> {a. \<exists>b \<in> dom_set y. A * a = B * b + C})" for i
      using quotient_supports [OF y B, of "A * i - C"] by (simp add: eq_commute)
  qed
qed

text \<open>
  \<open>propagated R x y p\<close>: no solution of the constraint \<open>R\<close> is lost, nothing is added, and when \<open>p x'\<close> holds and both
  variables are still open every value left has a partner.
\<close>

definition propagated :: "(int \<Rightarrow> int \<Rightarrow> bool) \<Rightarrow> dvar \<Rightarrow> dvar \<Rightarrow> (dvar \<Rightarrow> bool) \<Rightarrow> dvar \<times> dvar \<times> machine \<Rightarrow> bool" where
  "propagated R x y p = (\<lambda>(x', y', m'). wf_dvar x' \<and> wf_dvar y' \<and> dom_set x' \<subseteq> dom_set x \<and> dom_set y' \<subseteq> dom_set y \<and>
     (\<forall>a \<in> dom_set x. \<forall>b \<in> dom_set y. R a b \<longrightarrow> a \<in> dom_set x' \<and> b \<in> dom_set y') \<and>
     (p x' \<and> DV_var x' = None \<and> DV_var y' = None \<longrightarrow>
        (\<forall>a \<in> dom_set x'. \<exists>b \<in> dom_set y'. R a b) \<and> (\<forall>b \<in> dom_set y'. \<exists>a \<in> dom_set x'. R a b)))"

lemma both_sides:
  assumes x: "wf_dvar x" "DV_var x = None" and y: "wf_dvar y"
    and fx: "fd_safe fx (filtered x {a. \<exists>b \<in> dom_set y. R a b})"
    and fy: "\<And>x' m'. wf_dvar x' \<Longrightarrow> DV_var x' = None \<Longrightarrow> fd_safe (fy x' m') (filtered y {b. \<exists>a \<in> dom_set x'. R a b})"
  shows "fd_safe (fd_bind (if p then fx else Inr (x, m)) (\<lambda>(x, m). if DV_var x \<noteq> None then Inr (x, y, m)
      else fd_bind (if q x then fy x m else Inr (y, m)) (\<lambda>(y, m). Inr (x, y, m)))) (propagated R x y (\<lambda>x'. p \<and> q x'))"
proof -
  define X where "X = (\<lambda>(x', m' :: machine). wf_dvar x' \<and> dom_set x' \<subseteq> dom_set x \<and>
    (\<forall>a \<in> dom_set x. \<forall>b \<in> dom_set y. R a b \<longrightarrow> a \<in> dom_set x') \<and>
    (p \<and> DV_var x' = None \<longrightarrow> (\<forall>a \<in> dom_set x'. \<exists>b \<in> dom_set y. R a b)))"
  have "fd_safe fx X" by (rule fd_safe_mono [OF fx]) (auto simp: filtered_def X_def)
  moreover have "\<not> p \<Longrightarrow> X (x, m)" using x by (simp add: X_def)
  ultimately have "fd_safe (if p then fx else Inr (x, m)) X" by simp
  then show ?thesis
  proof (rule fd_safe_bind, clarify)
    fix x' m' assume X: "X (x', m')"
    show "fd_safe (if DV_var x' \<noteq> None then Inr (x', y, m')
        else fd_bind (if q x' then fy x' m' else Inr (y, m')) (\<lambda>(y, m). Inr (x', y, m))) (propagated R x y (\<lambda>x'. p \<and> q x'))"
    proof (rule fd_safe_if)
      assume "DV_var x' \<noteq> None"
      with X y show "fd_safe (Inr (x', y, m')) (propagated R x y (\<lambda>x'. p \<and> q x'))" by (auto simp: X_def propagated_def)
    next
      assume "\<not> DV_var x' \<noteq> None"
      with X have u: "DV_var x' = None" and w: "wf_dvar x'" by (simp_all add: X_def)
      define Y where "Y = (\<lambda>(y', m' :: machine). wf_dvar y' \<and> dom_set y' \<subseteq> dom_set y \<and>
        (\<forall>b \<in> dom_set y. (\<exists>a \<in> dom_set x'. R a b) \<longrightarrow> b \<in> dom_set y') \<and>
        (q x' \<and> DV_var y' = None \<longrightarrow> (\<forall>b \<in> dom_set y'. \<exists>a \<in> dom_set x'. R a b)))"
      have "fd_safe (fy x' m') Y" by (rule fd_safe_mono [OF fy [OF w u]]) (auto simp: filtered_def Y_def)
      moreover have "\<not> q x' \<Longrightarrow> Y (y, m')" using y by (simp add: Y_def)
      ultimately have "fd_safe (if q x' then fy x' m' else Inr (y, m')) Y" by simp
      then show "fd_safe (fd_bind (if q x' then fy x' m' else Inr (y, m')) (\<lambda>(y, m). Inr (x', y, m))) (propagated R x y (\<lambda>x'. p \<and> q x'))"
      proof (rule fd_safe_bind, clarify)
        fix y' m'' assume "Y (y', m'')"
        with X u show "fd_safe (Inr (x', y', m'')) (propagated R x y (\<lambda>x'. p \<and> q x'))"
          unfolding X_def Y_def propagated_def fd_safe_simps prod.case by blast
      qed
    qed
  qed
qed

lemma CON_propagated:
  assumes x: "wf_dvar x" "DV_var x = None" and y: "wf_dvar y" "DV_var y = None"
  shows "fd_safe (b_VV_EQ_C_CON_ccc x y C m) (propagated (\<lambda>a b. a + b = C) x y (\<lambda>x'. IS_BV_DOMAIN y \<and> IS_BV_DOMAIN x'))"
    and "fd_safe (b_V_EQ_VC_CON_ccc x y C m) (propagated (\<lambda>a b. a = b + C) x y (\<lambda>x'. IS_BV_DOMAIN y \<and> IS_BV_DOMAIN x'))"
    and "A \<noteq> 0 \<Longrightarrow> B \<noteq> 0 \<Longrightarrow> fd_safe (c_UU_EQ_C_CON A x B y C m) (propagated (\<lambda>a b. A * a + B * b = C) x y
      (\<lambda>x'. (IS_BV_DOMAIN y \<or> B \<noteq> 1) \<and> (IS_BV_DOMAIN x' \<or> A \<noteq> 1)))"
    and "A \<noteq> 0 \<Longrightarrow> B \<noteq> 0 \<Longrightarrow> fd_safe (c_U_EQ_UC_CON A x B y C m) (propagated (\<lambda>a b. A * a = B * b + C) x y
      (\<lambda>x'. (IS_BV_DOMAIN y \<or> B \<noteq> 1) \<and> (IS_BV_DOMAIN x' \<or> A \<noteq> 1)))"
proof -
  note open_vars = if_not_P [of "DV_var x \<noteq> None \<or> DV_var y \<noteq> None"]
  have u: "\<not> (DV_var x \<noteq> None \<or> DV_var y \<noteq> None)" using x(2) y(2) by simp
  have "fd_safe (c_VV_EQ_C_CON_aux y x' C m') (filtered y {b. \<exists>a \<in> dom_set x'. a + b = C})"
    if "wf_dvar x'" "DV_var x' = None" for x' m'
    using CON_aux_filtered(1) [OF y that, of C m'] by (simp add: add.commute)
  from both_sides [where R = "\<lambda>a b. a + b = C", OF x y(1) CON_aux_filtered(1) [OF x y] this]
  show "fd_safe (b_VV_EQ_C_CON_ccc x y C m) (propagated (\<lambda>a b. a + b = C) x y (\<lambda>x'. IS_BV_DOMAIN y \<and> IS_BV_DOMAIN x'))"
    unfolding b_VV_EQ_C_CON_ccc_def open_vars [OF u] .
  have e: "b = a + - C \<longleftrightarrow> a = b + C" for a b by auto
  have "fd_safe (c_V_EQ_VC_CON_aux y x' (- C) m') (filtered y {b. \<exists>a \<in> dom_set x'. a = b + C})"
    if "wf_dvar x'" "DV_var x' = None" for x' m'
    using CON_aux_filtered(2) [OF y that, of "- C" m'] unfolding e .
  from both_sides [where R = "\<lambda>a b. a = b + C", OF x y(1) CON_aux_filtered(2) [OF x y] this]
  show "fd_safe (b_V_EQ_VC_CON_ccc x y C m) (propagated (\<lambda>a b. a = b + C) x y (\<lambda>x'. IS_BV_DOMAIN y \<and> IS_BV_DOMAIN x'))"
    unfolding b_V_EQ_VC_CON_ccc_def open_vars [OF u] .
  assume A: "A \<noteq> 0" and B: "B \<noteq> 0"
  have "fd_safe (c_UU_EQ_C_CON_aux B y A x' C m') (filtered y {b. \<exists>a \<in> dom_set x'. A * a + B * b = C})"
    if "wf_dvar x'" "DV_var x' = None" for x' m'
    using CON_aux_filtered(3) [OF y that A, of B C m'] by (simp add: add.commute)
  from both_sides [where R = "\<lambda>a b. A * a + B * b = C", OF x y(1) CON_aux_filtered(3) [OF x y B] this]
  show "fd_safe (c_UU_EQ_C_CON A x B y C m) (propagated (\<lambda>a b. A * a + B * b = C) x y
      (\<lambda>x'. (IS_BV_DOMAIN y \<or> B \<noteq> 1) \<and> (IS_BV_DOMAIN x' \<or> A \<noteq> 1)))"
    unfolding c_UU_EQ_C_CON_def open_vars [OF u] .
  have e': "B * b = A * a + - C \<longleftrightarrow> A * a = B * b + C" for a b by auto
  have "fd_safe (c_U_EQ_UC_CON_aux B y A x' (- C) m') (filtered y {b. \<exists>a \<in> dom_set x'. A * a = B * b + C})"
    if "wf_dvar x'" "DV_var x' = None" for x' m'
    using CON_aux_filtered(4) [OF y that A, of B "- C" m'] unfolding e' .
  from both_sides [where R = "\<lambda>a b. A * a = B * b + C", OF x y(1) CON_aux_filtered(4) [OF x y B] this]
  show "fd_safe (c_U_EQ_UC_CON A x B y C m) (propagated (\<lambda>a b. A * a = B * b + C) x y
      (\<lambda>x'. (IS_BV_DOMAIN y \<or> B \<noteq> 1) \<and> (IS_BV_DOMAIN x' \<or> A \<noteq> 1)))"
    unfolding c_U_EQ_UC_CON_def open_vars [OF u] .
qed

end
