(* ===== verification/Finite_Domains.thy ===== *)
theory Finite_Domains
  imports Domain_Prop
begin

text \<open>
  What the finite-domain component promises: the operations on the set of values, the state every
  sequence of them leaves, backtracking, room in the event queue, the questions about domains and
  the propagators built on them.
\<close>

section \<open>An operation returns when there is room\<close>

definition fd_live :: "'a fd \<Rightarrow> ('a \<Rightarrow> bool) \<Rightarrow> bool" where
  "fd_live r Q \<longleftrightarrow> (\<exists>x. r = Inr x \<and> Q x)"

lemma fd_live_simps [simp]: "fd_live (Inr x) Q \<longleftrightarrow> Q x" "\<not> fd_live (Inl e) Q"
  by (simp_all add: fd_live_def)

lemma fd_live_bind: "fd_live r P \<Longrightarrow> (\<And>x. P x \<Longrightarrow> fd_live (f x) Q) \<Longrightarrow> fd_live (fd_bind r f) Q"
  by (cases r) auto

lemma fd_live_if: "(b \<Longrightarrow> fd_live r Q) \<Longrightarrow> (\<not> b \<Longrightarrow> fd_live s Q) \<Longrightarrow> fd_live (if b then r else s) Q"
  by simp

definition queue_grows :: "machine \<Rightarrow> nat \<Rightarrow> machine \<Rightarrow> bool" where
  "queue_grows m n m' \<longleftrightarrow> trigger_no m' \<le> trigger_no m + n"

lemma queue_frame [simp]:
  "queue_grows (PUSHTRAILC tag a c m) n m' \<longleftrightarrow> queue_grows m n m'"
  "queue_grows (PUSHTRAIL_H tag a c m) n m' \<longleftrightarrow> queue_grows m n m'"
  "queue_grows (m\<lparr>heap_top := t\<rparr>) n m' \<longleftrightarrow> queue_grows m n m'"
  "trigger_no (PUSHTRAILC tag a c m) = trigger_no m" "trigger_no (PUSHTRAIL_H tag a c m) = trigger_no m"
  by (simp_all add: queue_grows_def PUSHTRAILC_def PUSHTRAIL_H_def)

lemma insert_trigger_live:
  "trigger_no m + 1 < MAXTRIGGERS \<Longrightarrow> fd_live (insert_trigger fl cs e fp m) (queue_grows m 1)"
  by (simp add: insert_trigger_def Let_def queue_grows_def)

lemma INSERT_live:
  assumes "trigger_no m + 1 < MAXTRIGGERS"
  shows "fd_live (INSERT_TRIGGER_dvar_ins v m) (queue_grows m 1)"
    "fd_live (INSERT_TRIGGER_minmax v m) (queue_grows m 1)"
    "fd_live (INSERT_TRIGGER_dom v e m) (queue_grows m 1)"
    "fd_live (INSERT_TRIGGER_outer_dom v e m) (queue_grows m 1)"
  using assms insert_trigger_live [OF assms]
  by (simp_all add: INSERT_TRIGGER_dvar_ins_def INSERT_TRIGGER_minmax_def INSERT_TRIGGER_dom_def
      INSERT_TRIGGER_outer_dom_def INSERT_TRIGGER_outer_dom0_def queue_grows_def)

lemma live_then:
  "trigger_no m' = trigger_no m \<Longrightarrow> fd_live r (queue_grows m' n) \<Longrightarrow>
     fd_live (fd_bind r (\<lambda>m. Inr (v, m))) (\<lambda>(v, x). queue_grows m n x)"
  by (cases r) (auto simp: queue_grows_def)

lemma UPDATE_live:
  assumes "trigger_no m + 1 < MAXTRIGGERS"
  shows "fd_live (ASSIGN_DVAR v c m) (\<lambda>(v, m'). queue_grows m 1 m')"
    and "fd_live (UPDATE_FIRST_SIZE v f0 f n m) (\<lambda>(v, m'). queue_grows m 1 m')"
    and "fd_live (UPDATE_LAST_SIZE v l0 l n m) (\<lambda>(v, m'). queue_grows m 1 m')"
  unfolding ASSIGN_DVAR_def UPDATE_FIRST_SIZE_def UPDATE_LAST_SIZE_def Let_def
  by (rule live_then [OF _ INSERT_live(1)] live_then [OF _ INSERT_live(2)]; use assms in simp)+

lemma hole_event_live:
  assumes "trigger_no m1 = trigger_no m" "trigger_no m + 1 < MAXTRIGGERS"
  shows "fd_live (fd_bind (INSERT_TRIGGER_dom u e m1) (\<lambda>m. Inr (UPDATE_SIZE u a b m))) (\<lambda>(v', m'). queue_grows m 1 m')"
  by (rule fd_live_bind [OF INSERT_live(3)]) (use assms in \<open>auto simp: queue_grows_def UPDATE_SIZE_def PUSHTRAILC_def\<close>)

definition heap_room :: "dvar \<Rightarrow> machine \<Rightarrow> bool" where
  "heap_room v m \<longleftrightarrow> SMALL_MARGIN < local_top m - (heap_top m + 2) - (WORD_NUMBER (DV_last v) - WORD_NUMBER (DV_first v) + 1)"

lemma it_to_bv_with_hole_live:
  assumes v: "wf_dvar v" "DV_var v = None" "IS_IT_DOMAIN v" "DV_first v < e" "e < DV_last v"
    and "trigger_no m + 1 < MAXTRIGGERS" "heap_room v m"
  shows "fd_live (it_to_bv_with_hole v e m) (\<lambda>(v', m'). queue_grows m 1 m')"
proof -
  let ?m = "PUSHTRAIL_H TRAIL_BIT_VECTOR (A_DV_type v) (Type_cell (DV_type v)) m"
  let ?bv = "full_bv (heap_top ?m) (DV_first v) (DV_last v)"
  have fl: "DV_first v \<le> DV_last v" using v by simp
  have "bv_member ?bv e" using v(4,5) by (simp add: full_bv_member [OF fl]) linarith
  from bv_member_range [OF this] obtain w p k where o: "WORD_OFFSET ?bv e = Inr (w, p, k)"
    using WORD_OFFSET_ok [of ?bv e] by metis
  have room: "\<not> local_top (?m\<lparr>heap_top := heap_top ?m + 2\<rparr>) - heap_top (?m\<lparr>heap_top := heap_top ?m + 2\<rparr>) -
      (WORD_NUMBER (DV_last v) - WORD_NUMBER (DV_first v) + 1) \<le> SMALL_MARGIN"
    using assms(7) by (simp add: heap_room_def PUSHTRAIL_H_def PUSHTRAILC_def)
  show ?thesis
    unfolding it_to_bv_with_hole_def Let_def if_not_P [OF room] o fd_bind_simps prod.case
    by (rule hole_event_live) (use assms(6) in simp_all)
qed

lemma exclude_inner_elm_bv_live:
  assumes v: "wf_dvar v" "DV_var v = None" "\<not> IS_IT_DOMAIN v" "DV_first v < e" "e < DV_last v"
    and "trigger_no m + 1 < MAXTRIGGERS"
  shows "fd_live (exclude_inner_elm_bv v e m) (\<lambda>(v', m'). queue_grows m 1 m')"
proof -
  from v(1,2) obtain bv where bv: "DV_bit_vector_ptr v = Inr bv" "bv_member bv (DV_first v)" "bv_member bv (DV_last v)"
    by (cases rule: wf_dvar_cases) (use v(3) in auto)
  have "BV_low_val bv \<le> e" "e < BV_low_val bv + 64 * int (length (bv_words bv))"
    using bv_between [OF bv(2,3)] v(4,5) by auto
  then obtain w p k where o: "WORD_OFFSET bv e = Inr (w, p, k)" by (metis WORD_OFFSET_ok)
  show ?thesis
    unfolding exclude_inner_elm_bv_def bv(1) o fd_bind_simps prod.case Let_def
    by (intro fd_live_if hole_event_live) (use assms(6) in \<open>simp_all add: queue_grows_def\<close>)
qed

lemma domain_set_false_live:
  assumes v: "wf_dvar v" "DV_var v = None" and m: "trigger_no m + 2 < MAXTRIGGERS" "heap_room v m"
  shows "fd_live (domain_set_false_noint v e m) (\<lambda>(v', m'). queue_grows m 2 m')"
proof -
  note w = wf_dvarD [OF v]
  have one: "fd_live r (\<lambda>(v', m'). queue_grows m 2 m')" if "fd_live r (\<lambda>(v', m'). queue_grows m 1 m')" for r :: "(dvar \<times> machine) fd"
    using that by (cases r) (auto simp: queue_grows_def)
  have m1: "trigger_no m + 1 < MAXTRIGGERS" using m(1) by simp
  have nx: "fd_live (if IS_IT_DOMAIN v then Inr (DV_first v + 1) else dv_next_bv v (DV_first v + 1)) (\<lambda>_. True)"
    using dv_next_mem [OF v, of "DV_first v + 1"] w(1) by (auto simp: fd_live_def)
  have pv: "fd_live (if IS_IT_DOMAIN v then Inr (DV_last v - 1) else dv_prev_bv v (DV_last v - 1)) (\<lambda>_. True)"
    using dv_prev_mem [OF v, of "DV_last v - 1"] w(1) by (auto simp: fd_live_def)
  have two: "fd_live (fd_bind (INSERT_TRIGGER_outer_dom v e m) (\<lambda>m. fd_bind r (\<lambda>a. f a m))) (\<lambda>(v', m'). queue_grows m 2 m')"
    if "fd_live r (\<lambda>_. True)" "\<And>a m'. trigger_no m' + 1 < MAXTRIGGERS \<Longrightarrow> fd_live (f a m') (\<lambda>(v', m''). queue_grows m' 1 m'')"
    for r :: "int fd" and f :: "int \<Rightarrow> machine \<Rightarrow> (dvar \<times> machine) fd"
  proof (rule fd_live_bind [OF INSERT_live(4) [OF m1]], rule fd_live_bind [OF that(1)])
    fix m' a assume g: "queue_grows m 1 m'"
    with m(1) have "trigger_no m' + 1 < MAXTRIGGERS" by (simp add: queue_grows_def)
    from that(2) [OF this, of a] g show "fd_live (f a m') (\<lambda>(v', m'). queue_grows m 2 m')"
      by (cases "f a m'") (auto simp: queue_grows_def)
  qed
  show ?thesis
    unfolding domain_set_false_noint_def
    by (intro fd_live_if one [OF it_to_bv_with_hole_live] one [OF exclude_inner_elm_bv_live] one [OF UPDATE_live(1)] two
        UPDATE_live(2,3) v m1 m(2))
      (use nx pv in \<open>auto simp: queue_grows_def\<close>)
qed

section \<open>A failing operation leaves the variable alone\<close>

definition kept_on_failure :: "dvar \<Rightarrow> bool \<times> dvar \<times> machine \<Rightarrow> bool" where
  "kept_on_failure v = (\<lambda>(b, v', m'). b \<or> v' = v)"

lemma region_kept:
  "fd_post (CALL_DOMAIN_REGION seed v f l mn mx m) (\<lambda>(b, v', f', l', m'). b \<or> v' = v)"
  unfolding CALL_DOMAIN_REGION_def CALL_DOMAIN_REGION_MIN_MAX_def CALL_DOMAIN_REGION_MIN_def CALL_DOMAIN_REGION_MAX_def
    case_prod_beta
  by (intro fd_post_if fd_post_any) simp_all

lemma ops_kept:
  "fd_post (domain_set_false_aux v e m) (kept_on_failure v)"
  "fd_post (domain_region_aux v a b m) (kept_on_failure v)"
  "fd_post (domain_exclude_interval_aux v a b m) (kept_on_failure v)"
proof -
  have r: "fd_post (domain_region_noint v a b m) (kept_on_failure v)" for a b
    unfolding domain_region_noint_def by (rule fd_post_bind [OF region_kept]) (auto simp: kept_on_failure_def)
  show "fd_post (domain_set_false_aux v e m) (kept_on_failure v)"
    by (cases "DV_var v") (auto simp: domain_set_false_aux_def kept_on_failure_def intro!: fd_post_any)
  show "fd_post (domain_region_aux v a b m) (kept_on_failure v)"
    using r by (cases "DV_var v") (auto simp: domain_region_aux_def kept_on_failure_def)
  have "fd_post (domain_exclude_interval_noint v a b m) (kept_on_failure v)"
    unfolding domain_exclude_interval_noint_def
    by (intro fd_post_if r fd_post_any) (auto simp: kept_on_failure_def)
  then show "fd_post (domain_exclude_interval_aux v a b m) (kept_on_failure v)"
    by (cases "DV_var v") (auto simp: domain_exclude_interval_aux_def kept_on_failure_def)
qed

lemma shrinks: "excluded_code v S (b, v', m') \<Longrightarrow> kept_on_failure v (b, v', m') \<Longrightarrow> wf_dvar v' \<and> dom_set v' \<subseteq> dom_set v"
  by (cases b) (auto simp: excluded_code_def kept_on_failure_def)

lemma dom_step_shrinks:
  assumes "dom_step (v, m) (v', m')" "wf_dvar v"
  shows "wf_dvar v' \<and> dom_set v' \<subseteq> dom_set v"
  using assms(1)
proof (rule dom_stepE)
  fix e b v1 m1
  assume r: "(v', m') = (v1, m1)" "domain_set_false_aux v e m = Inr (b, v1, m1)"
  from shrinks [OF fd_safeD [OF domain_set_false_aux_safe [OF assms(2)] r(2)] fd_postD [OF ops_kept(1) r(2)]] r(1)
  show ?thesis by simp
next
  fix a b c v1 m1
  assume r: "(v', m') = (v1, m1)" "domain_region_aux v a b m = Inr (c, v1, m1)"
  from shrinks [OF fd_safeD [OF domain_region_aux_safe [OF assms(2)] r(2)] fd_postD [OF ops_kept(2) r(2)]] r(1)
  show ?thesis by simp
next
  fix a b c v1 m1
  assume r: "(v', m') = (v1, m1)" "a \<le> b" "domain_exclude_interval_aux v a b m = Inr (c, v1, m1)"
  from shrinks [OF fd_safeD [OF domain_exclude_interval_aux_safe [OF assms(2) r(2)] r(3)] fd_postD [OF ops_kept(3) r(3)]] r(1)
  show ?thesis by simp
qed

lemma dom_steps_shrink:
  assumes "dom_steps (v, m) (v', m')" "wf_dvar v"
  shows "wf_dvar v' \<and> dom_set v' \<subseteq> dom_set v"
proof -
  have "wf_dvar (fst t) \<and> dom_set (fst t) \<subseteq> dom_set v" if "dom_steps (v, m) t" for t
    using that
  proof induction
    case none
    then show ?case using assms(2) by simp
  next
    case (more t u)
    then show ?case using dom_step_shrinks [of "fst t" "snd t" "fst u" "snd u"] by auto
  qed
  from this [OF assms(1)] show ?thesis by simp
qed

section \<open>Bounds\<close>

lemma dom_bounds:
  assumes "wf_dvar v" "DV_var v = None"
  shows "Min (dom_set v) = DV_first v" "Max (dom_set v) = DV_last v"
proof -
  note b = dom_set_bounds [OF assms] and w = wf_dvarD [OF assms]
  show "Min (dom_set v) = DV_first v" by (rule Min_eqI) (use b w(2) in auto)
  show "Max (dom_set v) = DV_last v" by (rule Max_eqI) (use b w(3) in auto)
qed

lemma next_is_Min:
  assumes v: "wf_dvar v" "DV_var v = None"
  shows "b_DM_NEXT_ccf (Dvar_term v) e =
    Inr (if \<exists>x \<in> dom_set v. e < x then BP_TRUE (Min {x \<in> dom_set v. e < x}) else BP_FALSE)"
proof -
  note w = wf_dvarD [OF v] and b = dom_set_bounds [OF v]
  have least: "Min {x \<in> dom_set v. e < x} = y" if "y \<in> dom_set v" "e < y" "\<forall>x \<in> dom_set v. e < x \<longrightarrow> y \<le> x" for y
    by (rule Min_eqI) (use that in auto)
  consider (below) "e < DV_first v" | (beyond) "DV_last v \<le> e" | (inside) "DV_first v \<le> e" "e < DV_last v" by linarith
  then show ?thesis
  proof cases
    case below
    with least [OF w(2)] b w(2) show ?thesis by (auto simp: b_DM_NEXT_ccf_def)
  next
    case beyond
    then have "\<not> (\<exists>x \<in> dom_set v. e < x)" using b by force
    moreover have "\<not> e < DV_first v" using beyond w(1) by simp
    ultimately show ?thesis using beyond by (simp add: b_DM_NEXT_ccf_def)
  next
    case inside
    then have ex: "\<exists>x \<in> dom_set v. e < x" using w(3) by auto
    show ?thesis
    proof (cases "IS_IT_DOMAIN v")
      case True
      with v(2) have "dom_set v = {DV_first v..DV_last v}" by (simp add: IS_IT_DOMAIN_def)
      then have "Min {x \<in> dom_set v. e < x} = e + 1" using inside by (intro least) auto
      with True inside ex show ?thesis by (simp add: b_DM_NEXT_ccf_def)
    next
      case False
      have fl: "DV_first v \<le> e + 1" "e + 1 \<le> DV_last v" using inside by simp_all
      from dv_next_mem [OF v False fl] obtain y where y: "dv_next_bv v (e + 1) = Inr y" "y \<in> dom_set v" "e + 1 \<le> y"
        "\<forall>x \<in> dom_set v. e + 1 \<le> x \<longrightarrow> y \<le> x" .
      have "Min {x \<in> dom_set v. e < x} = y" using y by (intro least) auto
      with False inside ex y(1) show ?thesis by (simp add: b_DM_NEXT_ccf_def)
    qed
  qed
qed

lemma prev_is_Max:
  assumes v: "wf_dvar v" "DV_var v = None"
  shows "b_DM_PREV_ccf v e =
    Inr (if \<exists>x \<in> dom_set v. x < e then BP_TRUE (Max {x \<in> dom_set v. x < e}) else BP_FALSE)"
proof -
  note w = wf_dvarD [OF v] and b = dom_set_bounds [OF v]
  have greatest: "Max {x \<in> dom_set v. x < e} = y" if "y \<in> dom_set v" "y < e" "\<forall>x \<in> dom_set v. x < e \<longrightarrow> x \<le> y" for y
    by (rule Max_eqI) (use that in auto)
  consider (beyond) "DV_last v < e" | (below) "e \<le> DV_first v" | (inside) "DV_first v < e" "e \<le> DV_last v" by linarith
  then show ?thesis
  proof cases
    case beyond
    with greatest [OF w(3)] b w(3) show ?thesis by (auto simp: b_DM_PREV_ccf_def)
  next
    case below
    then have "\<not> (\<exists>x \<in> dom_set v. x < e)" using b by force
    moreover have "\<not> e > DV_last v" using below w(1) by simp
    ultimately show ?thesis using below by (simp add: b_DM_PREV_ccf_def)
  next
    case inside
    then have ex: "\<exists>x \<in> dom_set v. x < e" using w(2) by auto
    show ?thesis
    proof (cases "IS_IT_DOMAIN v")
      case True
      with v(2) have "dom_set v = {DV_first v..DV_last v}" by (simp add: IS_IT_DOMAIN_def)
      then have "Max {x \<in> dom_set v. x < e} = e - 1" using inside by (intro greatest) auto
      with True inside ex show ?thesis by (simp add: b_DM_PREV_ccf_def)
    next
      case False
      have fl: "DV_first v \<le> e - 1" "e - 1 \<le> DV_last v" using inside by simp_all
      from dv_prev_mem [OF v False fl] obtain y where y: "dv_prev_bv v (e - 1) = Inr y" "y \<in> dom_set v" "y \<le> e - 1"
        "\<forall>x \<in> dom_set v. x \<le> e - 1 \<longrightarrow> x \<le> y" .
      have "Max {x \<in> dom_set v. x < e} = y" using y by (intro greatest) auto
      with False inside ex y(1) show ?thesis by (simp add: b_DM_PREV_ccf_def)
    qed
  qed
qed

section \<open>A variable and a machine for the witnesses\<close>

definition some_dvar :: "int list \<Rightarrow> int \<Rightarrow> int \<Rightarrow> int \<Rightarrow> dvar" where
  "some_dvar cs p f l = \<lparr>dv_ptr = p, DV_var = None, DV_type = IT_DOMAIN, DV_ins_cs = cs,
     DV_size = l - f + 1, DV_first = f, DV_last = l, DV_minmax_cs = cs, DV_dom_cs = cs, DV_outer_dom_cs = cs\<rparr>"

definition some_machine :: "nat \<Rightarrow> machine" where
  "some_machine n = \<lparr>heap_top = 1000, local_top = 1000000, hbreg = 500, trail = [], toam_signal_vec = 0, trigger_no = n,
     triggeredCs = (\<lambda>_. 0), event_flag = (\<lambda>_. 0), event_object = (\<lambda>_. 0), triggering_frame = (\<lambda>_. 0)\<rparr>"

lemma some_dvar_open [simp]: "DV_var (some_dvar cs p f l) = None"
  by (simp add: some_dvar_def)

lemma some_dvar_set [simp]: "dom_set (some_dvar cs p f l) = {f..l}"
  by (subst dom_set_simps(2)) (simp_all add: some_dvar_def)

lemma some_dvar_wf [simp]: "f < l \<Longrightarrow> wf_dvar (some_dvar cs p f l)"
  unfolding wf_dvar_def by (simp add: some_dvar_def [of cs p f l])

section \<open>The operations on the set\<close>

text \<open>
  The abstract specification: removing a set from a domain either fails, when nothing would be left,
  or gives the difference. A result refines it when it fails exactly then and otherwise leaves a
  well-formed variable with those values.
\<close>

definition spec_remove :: "int set \<Rightarrow> int set \<Rightarrow> int set option" where
  "spec_remove D S = (if D \<subseteq> S then None else Some (D - S))"

definition abs_result :: "bool \<times> dvar \<times> machine \<Rightarrow> int set option" where
  "abs_result = (\<lambda>(b, v', m'). if b then Some (dom_set v') else None)"

definition refines :: "bool dv_op \<Rightarrow> dvar \<Rightarrow> int set \<Rightarrow> bool" where
  "refines r v S \<longleftrightarrow> fd_safe r (\<lambda>x. wf_dvar (fst (snd x)) \<and> abs_result x = spec_remove (dom_set v) S)"

lemma refinesI: "fd_safe r (excluded_code v S) \<Longrightarrow> refines r v S"
  unfolding refines_def by (erule fd_safe_mono) (auto simp: excluded_code_def abs_result_def spec_remove_def)

text \<open>
  C20: excluding a value, restricting to a region and excluding an interval refine the removal of a set of
  values on every well-formed domain variable, interval or bit vector, open or instantiated; the only errors
  are a full event queue, a full heap and the overflow of an \<open>int\<close> counter, never a read outside of a vector.
\<close>

theorem domain_operations_refine:
  assumes "wf_dvar v"
  shows "refines (domain_set_false_aux v e m) v {e} \<and>
    refines (domain_region_aux v a b m) v (- {a..b}) \<and>
    (a \<le> b \<longrightarrow> refines (domain_exclude_interval_aux v a b m) v {a..b})"
  using domain_set_false_aux_safe [OF assms] domain_region_aux_safe [OF assms] domain_exclude_interval_aux_safe [OF assms]
  by (auto intro: refinesI)

lemma domain_operations_refine_witness:
  "refines (domain_exclude_interval_aux (some_dvar [1] 100 1 9) 3 5 (some_machine 0)) (some_dvar [1] 100 1 9) {3..5}"
  using domain_operations_refine [OF some_dvar_wf, of 1 9 "[1]" 100 0 "some_machine 0" 3 5] by simp

text \<open>
  C21: in every state that a sequence of operations reaches from a well-formed variable the values are among
  the first ones, and the cells of an open variable agree with them: at least two values, the bounds
  the least and the greatest, the size their number.
\<close>

theorem domain_states_consistent:
  assumes "dom_steps (v, m) (v', m')" "wf_dvar v"
  shows "dom_set v' \<subseteq> dom_set v \<and> (DV_var v' = None \<longrightarrow>
    DV_first v' = Min (dom_set v') \<and> DV_last v' = Max (dom_set v') \<and>
    DV_size v' = int (card (dom_set v')) \<and> 2 \<le> card (dom_set v'))"
proof -
  from dom_steps_shrink [OF assms] have s: "wf_dvar v'" "dom_set v' \<subseteq> dom_set v" by simp_all
  moreover have "2 \<le> card (dom_set v')" if "DV_var v' = None"
    using size_at_least_two [OF s(1) that] wf_dvarD(4) [OF s(1) that] by simp
  ultimately show ?thesis using dom_bounds [OF s(1)] wf_dvarD(4) [OF s(1)] by simp
qed

text \<open>One step of the witnesses: the least value goes, its cells go to the trail.\<close>

lemma some_step:
  "dom_steps (some_dvar [] 100 1 9, some_machine 0)
     (some_dvar [] 100 2 9, (some_machine 0)\<lparr>trail :=
        [(TRAIL_VAL_ATOMIC, 104, Num_cell 9), (TRAIL_VAL_ATOMIC, 105, Num_cell 1)]\<rparr>)"
proof -
  have "domain_set_false_aux (some_dvar [] 100 1 9) 1 (some_machine 0) =
     Inr (True, some_dvar [] 100 2 9, (some_machine 0)\<lparr>trail :=
        [(TRAIL_VAL_ATOMIC, 104, Num_cell 9), (TRAIL_VAL_ATOMIC, 105, Num_cell 1)]\<rparr>)"
    by (simp add: domain_set_false_aux_def domain_set_false_noint_def some_dvar_def some_machine_def
        INSERT_TRIGGER_outer_dom_def UPDATE_FIRST_SIZE_def IS_IT_DOMAIN_def
        INSERT_TRIGGER_minmax_def PUSHTRAILC_def Let_def A_DV_size_def A_DV_first_def)
  from dom_steps.more [OF dom_steps.none dom_step.set_false [OF this]] show ?thesis .
qed

lemma domain_states_consistent_witness:
  "DV_first (some_dvar [] 100 2 9) = Min {2..9} \<and> DV_last (some_dvar [] 100 2 9) = Max {2..9} \<and>
   DV_size (some_dvar [] 100 2 9) = int (card {2..9 :: int})"
  using domain_states_consistent [OF some_step] by simp

text \<open>
  C22: backtracking. Whatever operations run on a variable that is older than the choice point, undoing the
  entries trailed since then gives back every cell of the variable and every word of its bit vector, in the
  machine of the same choice point.
\<close>

theorem domain_backtracks:
  assumes "dom_steps (v, m) (v', m')" "wf_dvar v" "before_choice_point (hbreg m) v" "hbreg m \<le> heap_top m"
  shows "UNDO_TRAILING (take (length (trail m') - length (trail m)) (trail m')) v' = v \<and> hbreg m' = hbreg m"
  using dom_steps_inv(2) [OF assms] by (simp add: restores_undo restores_hbreg)

lemma domain_backtracks_witness:
  "UNDO_TRAILING [(TRAIL_VAL_ATOMIC, 104, Num_cell 9), (TRAIL_VAL_ATOMIC, 105, Num_cell 1)] (some_dvar [] 100 2 9)
     = some_dvar [] 100 1 9"
proof -
  have "before_choice_point (hbreg (some_machine 0)) (some_dvar [] 100 1 9)"
    by (simp add: before_choice_point_def some_dvar_def some_machine_def)
  from domain_backtracks [OF some_step some_dvar_wf this] show ?thesis by (simp add: some_machine_def)
qed

text \<open>
  C23: excluding a value from an open variable returns, with the value gone and at most two events raised, whenever two
  events fit in the queue and a bit vector for the domain fits on the heap.
\<close>

theorem domain_exclusion_returns:
  assumes "wf_dvar v" "DV_var v = None" "trigger_no m + 2 < MAXTRIGGERS" "heap_room v m"
  shows "\<exists>v' m'. domain_set_false_aux v e m = Inr (True, v', m') \<and> dom_set v' = dom_set v - {e} \<and>
    trigger_no m' \<le> trigger_no m + 2"
proof -
  from domain_set_false_live [OF assms, of e] obtain v' m' where
    r: "domain_set_false_noint v e m = Inr (v', m')" "trigger_no m' \<le> trigger_no m + 2"
    by (auto simp: fd_live_def queue_grows_def)
  from domain_set_false_noint_safe [OF assms(1,2), of e m] r(1) have "dom_set v' = dom_set v - {e}"
    by (simp add: excluded_def)
  with r assms(2) show ?thesis by (simp add: domain_set_false_aux_def)
qed

lemma domain_exclusion_returns_witness:
  "\<exists>v' m'. domain_set_false_aux (some_dvar [1] 100 1 9) 5 (some_machine 0) = Inr (True, v', m') \<and>
     dom_set v' = {1..9} - {5} \<and> trigger_no m' \<le> Suc 1"
  using domain_exclusion_returns [OF some_dvar_wf, of 1 9 "[1]" 100 "some_machine 0" 5]
  by (simp add: MAXTRIGGERS_def heap_room_def numeral_2_eq_2 SMALL_MARGIN_def some_machine_def WORD_NUMBER_floor some_dvar_def [of _ 100 1 9])

text \<open>
  The event queue at its end. With \<open>MAXTRIGGERS\<close> events already there the binding and bound events quit
  and the domain events are dropped; with one less the test passes and the next event is written at index
  \<open>MAXTRIGGERS\<close>, beyond arrays of \<open>MAXTRIGGERS\<close> entries.
\<close>

lemma event_queue_end:
  assumes "DV_ins_cs v \<noteq> nil_sym" "DV_minmax_cs v \<noteq> nil_sym" "DV_dom_cs v \<noteq> nil_sym" "DV_outer_dom_cs v \<noteq> nil_sym"
  shows "(MAXTRIGGERS \<le> trigger_no m \<longrightarrow>
      INSERT_TRIGGER_dvar_ins v m = Inl EVENT_QUEUE_OVERFLOWED \<and> INSERT_TRIGGER_minmax v m = Inl EVENT_QUEUE_OVERFLOWED \<and>
      INSERT_TRIGGER_dom v e m = Inr m \<and> INSERT_TRIGGER_outer_dom v e m = Inr m) \<and>
    (trigger_no m + 1 = MAXTRIGGERS \<longrightarrow>
      INSERT_TRIGGER_dvar_ins v m = Inl EVENT_ARRAY_OVERRUN \<and> INSERT_TRIGGER_minmax v m = Inl EVENT_ARRAY_OVERRUN \<and>
      INSERT_TRIGGER_dom v e m = Inl EVENT_ARRAY_OVERRUN \<and> INSERT_TRIGGER_outer_dom v e m = Inl EVENT_ARRAY_OVERRUN)"
  using assms
  by (auto simp: INSERT_TRIGGER_dvar_ins_def INSERT_TRIGGER_minmax_def INSERT_TRIGGER_dom_def INSERT_TRIGGER_outer_dom_def
      INSERT_TRIGGER_outer_dom0_def insert_trigger_def)

text \<open>
  C25: the built-ins that read a domain answer with the least value above, the greatest value below, the bounds and
  the number of values.
\<close>

theorem domain_reading_builtins:
  assumes "wf_dvar v" "DV_var v = None"
  shows "b_DM_NEXT_ccf (Dvar_term v) e =
      Inr (if \<exists>x \<in> dom_set v. e < x then BP_TRUE (Min {x \<in> dom_set v. e < x}) else BP_FALSE) \<and>
    b_DM_PREV_ccf v e =
      Inr (if \<exists>x \<in> dom_set v. x < e then BP_TRUE (Max {x \<in> dom_set v. x < e}) else BP_FALSE) \<and>
    b_DM_MIN_MAX_cff (Dvar_term v) = BP_TRUE (Min (dom_set v), Max (dom_set v)) \<and>
    b_DM_COUNT_cf (Dvar_term v) = BP_TRUE (int (card (dom_set v)))"
  using next_is_Min [OF assms] prev_is_Max [OF assms] dom_bounds [OF assms] wf_dvarD(4,5) [OF assms]
  by (simp add: b_DM_MIN_MAX_cff_def b_DM_COUNT_cf_def IS_UN_DOMAIN_def)

lemma domain_reading_builtins_witness:
  "b_DM_NEXT_ccf (Dvar_term (some_dvar [] 100 1 9)) 9 = Inr BP_FALSE \<and>
   b_DM_COUNT_cf (Dvar_term (some_dvar [] 100 1 9)) = BP_TRUE 9"
  using domain_reading_builtins [OF some_dvar_wf, of 1 9 "[]" 100 9] by auto

text \<open>
  C26: two open variables. Inclusion and disjointness, word by word on vectors of one base and value by value
  otherwise, decide inclusion and disjointness of the sets; the intersection keeps the common values, and the two
  exclusions remove from the second variable the values of the first or all others, each failing exactly when nothing is left.
\<close>

theorem domain_pairs:
  assumes "wf_dvar x" "DV_var x = None" "wf_dvar y" "DV_var y = None"
  shows "DOMAIN_INCLUDE x y = Inr (dom_set y \<subseteq> dom_set x) \<and>
    dm_disjoint x y = Inr (dom_set x \<inter> dom_set y = {}) \<and>
    refines (dm_intersect x y m) x (- dom_set y) \<and>
    refines (exclude_dom_aux x y m) y (dom_set x) \<and>
    refines (exclude_dom_comp_aux x y m) y (- dom_set x)"
  by (intro conjI DOMAIN_INCLUDE_sets dm_disjoint_sets refinesI dm_intersect_safe exclude_dom_safe exclude_dom_comp_safe assms)

lemma domain_pairs_witness:
  "DOMAIN_INCLUDE (some_dvar [] 100 1 9) (some_dvar [] 200 2 5) = Inr True \<and>
   dm_disjoint (some_dvar [] 100 1 9) (some_dvar [] 200 2 5) = Inr False"
  using domain_pairs [OF some_dvar_wf some_dvar_open some_dvar_wf some_dvar_open, of 1 9 2 5 "[]" 100 "[]" 200] by simp

text \<open>
  C27: the propagators of \<open>x + y = C\<close>, \<open>x = y + C\<close>, \<open>A x + B y = C\<close> and \<open>A x = B y + C\<close> on two different open
  variables remove no value of a solution and add none, read no vector out of its bounds, and when both have bit
  vectors (or, for the last two, coefficients other than 1) and stay open every value left has a partner in the other domain.
\<close>

theorem binary_constraints_propagate:
  assumes "wf_dvar x" "DV_var x = None" "wf_dvar y" "DV_var y = None" "A \<noteq> 0" "B \<noteq> 0"
  shows "fd_safe (b_VV_EQ_C_CON_ccc x y C m) (propagated (\<lambda>a b. a + b = C) x y (\<lambda>x'. IS_BV_DOMAIN y \<and> IS_BV_DOMAIN x')) \<and>
    fd_safe (b_V_EQ_VC_CON_ccc x y C m) (propagated (\<lambda>a b. a = b + C) x y (\<lambda>x'. IS_BV_DOMAIN y \<and> IS_BV_DOMAIN x')) \<and>
    fd_safe (c_UU_EQ_C_CON A x B y C m) (propagated (\<lambda>a b. A * a + B * b = C) x y
      (\<lambda>x'. (IS_BV_DOMAIN y \<or> B \<noteq> 1) \<and> (IS_BV_DOMAIN x' \<or> A \<noteq> 1))) \<and>
    fd_safe (c_U_EQ_UC_CON A x B y C m) (propagated (\<lambda>a b. A * a = B * b + C) x y
      (\<lambda>x'. (IS_BV_DOMAIN y \<or> B \<noteq> 1) \<and> (IS_BV_DOMAIN x' \<or> A \<noteq> 1)))"
  using CON_propagated [OF assms(1-4)] assms(5,6) by simp

lemma binary_constraints_propagate_witness:
  "fd_safe (c_UU_EQ_C_CON 2 (some_dvar [1] 100 1 9) 3 (some_dvar [1] 200 0 4) 12 (some_machine 0))
     (propagated (\<lambda>a b. 2 * a + 3 * b = 12) (some_dvar [1] 100 1 9) (some_dvar [1] 200 0 4) (\<lambda>x'. True))"
  using binary_constraints_propagate [OF some_dvar_wf some_dvar_open some_dvar_wf some_dvar_open,
      of 1 9 0 4 2 3 "[1]" 100 "[1]" 200 12 "some_machine 0"] by simp

end
