(* ===== verification/Qsort.thy ===== *)
theory Qsort
  imports Prelude "HOL-Library.Monad_Syntax" "HOL-Library.Multiset"
begin

text \<open>
  The iterative quicksort of \<open>emu/mic.c\<close> (\<open>qsort_int_array\<close>, \<open>qsort_term_array\<close>). The two functions
  differ in the test \<open>gt\<close> (greater than the pivot) and in the equality \<open>same\<close> that skips copies of
  the pivot. A segment \<open>beg..<end\<close> waits on a stack of \<open>MAX_LEVELS\<close> entries, the larger one below.
  An access outside of the array or of the stack is \<open>None\<close>.
\<close>

definition MAX_LEVELS :: nat where "MAX_LEVELS = 300"

definition arr_get :: "'a list \<Rightarrow> int \<Rightarrow> 'a option" where
  "arr_get arr i = (if 0 \<le> i \<and> i < int (length arr) then Some (arr ! nat i) else None)"

definition arr_put :: "'a list \<Rightarrow> int \<Rightarrow> 'a \<Rightarrow> 'a list option" where
  "arr_put arr i x = (if 0 \<le> i \<and> i < int (length arr) then Some (arr[nat i := x]) else None)"

function scan_right :: "('a \<Rightarrow> 'a \<Rightarrow> bool) \<Rightarrow> 'a \<Rightarrow> 'a list \<Rightarrow> int \<Rightarrow> int \<Rightarrow> int option" where
  "scan_right gt piv arr L R =
     (if L < R
      then do {
        x \<leftarrow> arr_get arr R;
        if gt x piv then scan_right gt piv arr L (R - 1) else Some R
      }
      else Some R)"
  by pat_completeness auto
termination by (relation "measure (\<lambda>(gt, piv, arr, L, R). nat (R - L))") auto

function scan_left :: "('a \<Rightarrow> 'a \<Rightarrow> bool) \<Rightarrow> 'a \<Rightarrow> 'a list \<Rightarrow> int \<Rightarrow> int \<Rightarrow> int option" where
  "scan_left gt piv arr L R =
     (if L < R
      then do {
        x \<leftarrow> arr_get arr L;
        if \<not> gt x piv then scan_left gt piv arr (L + 1) R else Some L
      }
      else Some L)"
  by pat_completeness auto
termination by (relation "measure (\<lambda>(gt, piv, arr, L, R). nat (R - L))") auto

declare scan_right.simps [simp del] scan_left.simps [simp del]

lemma scan_right_range: "scan_right gt piv arr L R = Some R' \<Longrightarrow> R' \<le> R \<and> (L \<le> R \<longrightarrow> L \<le> R')"
proof (induction gt piv arr L R rule: scan_right.induct)
  case (1 gt piv arr L R)
  note unfolded = 1(2) [unfolded scan_right.simps [of gt piv arr L R]]
  show ?case
  proof (cases "L < R")
    case True
    with unfolded obtain x where x: "arr_get arr R = Some x"
      and r: "(if gt x piv then scan_right gt piv arr L (R - 1) else Some R) = Some R'"
      by (auto split: bind_splits)
    show ?thesis using True r 1(1) [OF True x] by (auto split: if_splits)
  qed (use unfolded in auto)
qed

lemma scan_left_range: "scan_left gt piv arr L R = Some L' \<Longrightarrow> L \<le> L' \<and> (L \<le> R \<longrightarrow> L' \<le> R)"
proof (induction gt piv arr L R rule: scan_left.induct)
  case (1 gt piv arr L R)
  note unfolded = 1(2) [unfolded scan_left.simps [of gt piv arr L R]]
  show ?case
  proof (cases "L < R")
    case True
    with unfolded obtain x where x: "arr_get arr L = Some x"
      and r: "(if \<not> gt x piv then scan_left gt piv arr (L + 1) R else Some L) = Some L'"
      by (auto split: bind_splits)
    show ?thesis using True r 1(1) [OF True x] by (auto split: if_splits)
  qed (use unfolded in auto)
qed

function qs_partition :: "('a \<Rightarrow> 'a \<Rightarrow> bool) \<Rightarrow> 'a \<Rightarrow> 'a list \<Rightarrow> int \<Rightarrow> int \<Rightarrow> ('a list \<times> int) option" where
  "qs_partition gt piv arr L R =
     (if L < R
      then do {
        R \<leftarrow> scan_right gt piv arr L R;
        x \<leftarrow> arr_get arr R;
        arr \<leftarrow> arr_put arr L x;
        L \<leftarrow> scan_left gt piv arr (L + 1) R;
        if L < R
        then do {
          y \<leftarrow> arr_get arr L;
          arr \<leftarrow> arr_put arr R y;
          qs_partition gt piv arr L (R - 1)
        }
        else qs_partition gt piv arr L R
      }
      else Some (arr, R))"
  by pat_completeness auto
termination
  by (relation "measure (\<lambda>(gt, piv, arr, L, R). nat (R - L))")
    (auto dest!: scan_right_range scan_left_range)

function skip_same :: "('a \<Rightarrow> 'a \<Rightarrow> bool) \<Rightarrow> 'a \<Rightarrow> 'a list \<Rightarrow> int \<Rightarrow> int \<Rightarrow> int option" where
  "skip_same same piv arr beg L =
     (if L \<ge> beg
      then do {
        x \<leftarrow> arr_get arr L;
        if same x piv then skip_same same piv arr beg (L - 1) else Some L
      }
      else Some L)"
  by pat_completeness auto
termination by (relation "measure (\<lambda>(same, piv, arr, beg, L). nat (L - beg + 1))") auto

declare qs_partition.simps [simp del] skip_same.simps [simp del]

lemma qs_partition_range:
  "qs_partition gt piv arr L R = Some (arr', R') \<Longrightarrow> R' \<le> R \<and> (L \<le> R \<longrightarrow> L \<le> R')"
proof (induction gt piv arr L R rule: qs_partition.induct)
  case (1 gt piv arr L R)
  note unfolded = 1(3) [unfolded qs_partition.simps [of gt piv arr L R]]
  show ?case
  proof (cases "L < R")
    case True
    with unfolded obtain R1 x arr1 L1 where s: "scan_right gt piv arr L R = Some R1"
      and x: "arr_get arr R1 = Some x" and p: "arr_put arr L x = Some arr1"
      and s': "scan_left gt piv arr1 (L + 1) R1 = Some L1"
      and r: "(if L1 < R1 then do { y \<leftarrow> arr_get arr1 L1; arr \<leftarrow> arr_put arr1 R1 y;
                 qs_partition gt piv arr L1 (R1 - 1) } else qs_partition gt piv arr1 L1 R1) = Some (arr', R')"
      by (auto split: bind_splits)
    have range: "R1 \<le> R" "L \<le> R1" "L < L1" "L < R1 \<Longrightarrow> L1 \<le> R1"
      using scan_right_range [OF s] scan_left_range [OF s'] True by auto
    show ?thesis
    proof (cases "L1 < R1")
      case swap: True
      with r obtain y arr2 where y: "arr_get arr1 L1 = Some y" and p2: "arr_put arr1 R1 y = Some arr2"
        and rec: "qs_partition gt piv arr2 L1 (R1 - 1) = Some (arr', R')"
        by (auto split: bind_splits)
      show ?thesis using 1(1) [OF True s x p s' swap y p2 rec] range swap by auto
    next
      case False
      with r have rec: "qs_partition gt piv arr1 L1 R1 = Some (arr', R')" by simp
      have "R' = R1" using rec False by (simp add: qs_partition.simps)
      with range show ?thesis by auto
    qed
  qed (use unfolded in auto)
qed

lemma skip_same_range: "skip_same same piv arr beg L = Some L' \<Longrightarrow> L' \<le> L \<and> (beg - 1 \<le> L \<longrightarrow> beg - 1 \<le> L')"
proof (induction same piv arr beg L rule: skip_same.induct)
  case (1 same piv arr beg L)
  note unfolded = 1(2) [unfolded skip_same.simps [of same piv arr beg L]]
  show ?case
  proof (cases "L \<ge> beg")
    case True
    with unfolded obtain x where x: "arr_get arr L = Some x"
      and r: "(if same x piv then skip_same same piv arr beg (L - 1) else Some L) = Some L'"
      by (auto split: bind_splits)
    show ?thesis using True r 1(1) [OF True x] by (auto split: if_splits)
  qed (use unfolded in auto)
qed

type_synonym segments = "(int \<times> int) list"

fun seg_size :: "int \<times> int \<Rightarrow> nat" where
  "seg_size (b, e) = nat (e - b)"

text \<open>
  One round on the segment \<open>b..<e\<close>: the middle element becomes the pivot, the segment is partitioned
  around it and its copies to the left of the pivot are skipped. The result is the array with the
  final \<open>L\<close> and \<open>R\<close>.
\<close>

definition qs_split :: "('a \<Rightarrow> 'a \<Rightarrow> bool) \<Rightarrow> ('a \<Rightarrow> 'a \<Rightarrow> bool) \<Rightarrow> int \<Rightarrow> int \<Rightarrow> 'a list \<Rightarrow> ('a list \<times> int \<times> int) option" where
  "qs_split gt same b e arr = do {
     piv \<leftarrow> arr_get arr (b + (e - 1 - b) div 2);
     x \<leftarrow> arr_get arr b;
     arr \<leftarrow> arr_put arr (b + (e - 1 - b) div 2) x;
     arr \<leftarrow> arr_put arr b piv;
     (arr, R) \<leftarrow> qs_partition gt piv arr b (e - 1);
     arr \<leftarrow> arr_put arr R piv;
     L \<leftarrow> skip_same same piv arr b (R - 1);
     Some (arr, L, R)
   }"

lemma qs_split_range:
  "qs_split gt same b e arr = Some (arr', L, R) \<Longrightarrow> b < e - 1 \<Longrightarrow> b \<le> R \<and> R < e \<and> b - 1 \<le> L \<and> L < R"
  by (auto simp: qs_split_def split: bind_splits dest!: qs_partition_range skip_same_range)

function qsort_loop :: "('a \<Rightarrow> 'a \<Rightarrow> bool) \<Rightarrow> ('a \<Rightarrow> 'a \<Rightarrow> bool) \<Rightarrow> segments \<Rightarrow> 'a list \<Rightarrow> 'a list option" where
  "qsort_loop gt same [] arr = Some arr"
| "qsort_loop gt same ((b, e) # segs) arr =
     (if b < e - 1
      then do {
        (arr, L, R) \<leftarrow> qs_split gt same b e arr;
        if length segs + 2 > MAX_LEVELS then None
        else if e - (R + 1) > L + 1 - b
        then qsort_loop gt same ((b, L + 1) # (R + 1, e) # segs) arr
        else qsort_loop gt same ((R + 1, e) # (b, L + 1) # segs) arr
      }
      else qsort_loop gt same segs arr)"
  by pat_completeness auto
termination
  by (relation "measure (\<lambda>(gt, same, segs, arr). \<Sum>s\<leftarrow>segs. 2 * seg_size s + 1)")
    (auto dest!: qs_split_range)

declare qsort_loop.simps(2) [simp del]

section \<open>Arrays\<close>

lemma arr_get_Some: "0 \<le> i \<Longrightarrow> i < int (length arr) \<Longrightarrow> arr_get arr i = Some (arr ! nat i)"
  by (simp add: arr_get_def)

lemma arr_put_Some: "0 \<le> i \<Longrightarrow> i < int (length arr) \<Longrightarrow> arr_put arr i x = Some (arr[nat i := x])"
  by (simp add: arr_put_def)

text \<open>\<open>arr'\<close> is \<open>arr\<close> with the cells \<open>b..<e\<close> permuted.\<close>

definition permutes :: "int \<Rightarrow> int \<Rightarrow> 'a list \<Rightarrow> 'a list \<Rightarrow> bool" where
  "permutes b e arr arr' \<longleftrightarrow> mset arr' = mset arr \<and>
     (\<forall>k < length arr. int k < b \<or> e \<le> int k \<longrightarrow> arr' ! k = arr ! k)"

lemma permutes_length: "permutes b e arr arr' \<Longrightarrow> length arr' = length arr"
  unfolding permutes_def by (metis mset_eq_length)

lemma permutes_outside: "permutes b e arr arr' \<Longrightarrow> k < length arr \<Longrightarrow> int k < b \<or> e \<le> int k \<Longrightarrow> arr' ! k = arr ! k"
  by (auto simp: permutes_def)

lemma mset_slices: "mset xs = mset (take a xs) + mset (take n (drop a xs)) + mset (drop n (drop a xs))"
  by (metis add.assoc append_take_drop_id mset_append)

lemma permutes_inside:
  assumes p: "permutes b e arr arr'" and i: "b \<le> int i" "int i < e" "i < length arr"
  shows "\<exists>j < length arr. b \<le> int j \<and> int j < e \<and> arr' ! i = arr ! j"
proof -
  define l n where "l = nat b" and "n = nat e - nat b"
  have len: "length arr' = length arr" using permutes_length [OF p] .
  have "take l arr' = take l arr" "drop n (drop l arr') = drop n (drop l arr)"
    using p i len by (auto simp: permutes_def l_def n_def intro!: nth_equalityI)
  moreover have "mset arr' = mset arr" using p by (simp add: permutes_def)
  ultimately have "mset (take n (drop l arr')) = mset (take n (drop l arr))"
    using mset_slices [of arr l n] mset_slices [of arr' l n] by simp
  hence sets: "set (take n (drop l arr')) = set (take n (drop l arr))" by (metis set_mset_mset)
  have "arr' ! i \<in> set (take n (drop l arr'))"
    unfolding in_set_conv_nth using i len by (intro exI [of _ "i - l"]) (auto simp: l_def n_def)
  hence "arr' ! i \<in> set (take n (drop l arr))" by (simp add: sets)
  then obtain j where "j < length (take n (drop l arr))" "take n (drop l arr) ! j = arr' ! i"
    unfolding in_set_conv_nth by auto
  thus ?thesis using i by (intro exI [of _ "l + j"]) (auto simp: l_def n_def)
qed

lemma permutes_source:
  assumes p: "permutes b e arr arr'" and i: "i < length arr"
  shows "\<exists>j < length arr. arr' ! i = arr ! j \<and> (j = i \<or> b \<le> int j \<and> int j < e \<and> b \<le> int i \<and> int i < e)"
proof (cases "b \<le> int i \<and> int i < e")
  case True
  thus ?thesis using permutes_inside [OF p _ _ i] by blast
next
  case False
  hence "arr' ! i = arr ! i" using permutes_outside [OF p i] by linarith
  thus ?thesis using i by blast
qed

lemma permutes_swap:
  assumes "b \<le> i" "i < e" "b \<le> j" "j < e" "0 \<le> b" "e \<le> int (length arr)"
  shows "permutes b e arr (arr[nat i := arr ! nat j, nat j := arr ! nat i])"
  unfolding permutes_def using assms by (auto simp: mset_swap nth_list_update)

lemma permutes_refl: "permutes b e arr arr"
  by (simp add: permutes_def)

lemma permutes_trans: "permutes b e x y \<Longrightarrow> permutes b e y z \<Longrightarrow> permutes b e x z"
  using permutes_length [of b e x y] by (auto simp: permutes_def)

lemma permutes_mono: "permutes b e x y \<Longrightarrow> b' \<le> b \<Longrightarrow> e \<le> e' \<Longrightarrow> permutes b' e' x y"
  by (auto simp: permutes_def)

section \<open>The partition step\<close>

lemma scan_right_total:
  assumes "0 \<le> L" "L \<le> R" "R < int (length arr)"
  shows "\<exists>R'. scan_right gt piv arr L R = Some R' \<and> L \<le> R' \<and> R' \<le> R \<and>
    (\<forall>k. R' < k \<and> k \<le> R \<longrightarrow> gt (arr ! nat k) piv) \<and> (L < R' \<longrightarrow> \<not> gt (arr ! nat R') piv)"
  using assms
proof (induction "nat (R - L)" arbitrary: R)
  case 0
  thus ?case by (auto simp: scan_right.simps [of _ _ _ L L])
next
  case (Suc n)
  hence "L < R" by linarith
  have get: "arr_get arr R = Some (arr ! nat R)" using Suc.prems by (intro arr_get_Some) auto
  show ?case
  proof (cases "gt (arr ! nat R) piv")
    case True
    have "n = nat (R - 1 - L)" using Suc(2) by arith
    then obtain R' where R': "scan_right gt piv arr L (R - 1) = Some R'" "L \<le> R'" "R' \<le> R - 1"
      "\<forall>k. R' < k \<and> k \<le> R - 1 \<longrightarrow> gt (arr ! nat k) piv" "L < R' \<longrightarrow> \<not> gt (arr ! nat R') piv"
      using Suc(1) [of "R - 1"] Suc(2-) \<open>L < R\<close> by auto
    have "gt (arr ! nat k) piv" if "R' < k" "k \<le> R" for k
      using R'(4) True that by (cases "k = R") auto
    thus ?thesis
      using R' True \<open>L < R\<close> get by (intro exI [of _ R']) (simp add: scan_right.simps [of gt piv arr L R])
  next
    case False
    thus ?thesis
      using \<open>L < R\<close> get by (intro exI [of _ R]) (auto simp: scan_right.simps [of gt piv arr L R])
  qed
qed

lemma scan_left_total:
  assumes "0 \<le> L" "L \<le> R" "R < int (length arr)"
  shows "\<exists>L'. scan_left gt piv arr L R = Some L' \<and> L \<le> L' \<and> L' \<le> R \<and>
    (\<forall>k. L \<le> k \<and> k < L' \<longrightarrow> \<not> gt (arr ! nat k) piv) \<and> (L' < R \<longrightarrow> gt (arr ! nat L') piv)"
  using assms
proof (induction "nat (R - L)" arbitrary: L)
  case 0
  thus ?case by (auto simp: scan_left.simps [of _ _ _ L L])
next
  case (Suc n)
  hence "L < R" by linarith
  have get: "arr_get arr L = Some (arr ! nat L)" using Suc.prems by (intro arr_get_Some) auto
  show ?case
  proof (cases "gt (arr ! nat L) piv")
    case False
    have "n = nat (R - (L + 1))" using Suc(2) by arith
    then obtain L' where L': "scan_left gt piv arr (L + 1) R = Some L'" "L + 1 \<le> L'" "L' \<le> R"
      "\<forall>k. L + 1 \<le> k \<and> k < L' \<longrightarrow> \<not> gt (arr ! nat k) piv" "L' < R \<longrightarrow> gt (arr ! nat L') piv"
      using Suc(1) [of "L + 1"] Suc(2-) \<open>L < R\<close> by auto
    have "\<not> gt (arr ! nat k) piv" if "L \<le> k" "k < L'" for k
      using L'(4) False that by (cases "k = L") auto
    thus ?thesis
      using L' False \<open>L < R\<close> get by (intro exI [of _ L']) (simp add: scan_left.simps [of gt piv arr L R])
  next
    case True
    thus ?thesis
      using \<open>L < R\<close> get by (intro exI [of _ L]) (auto simp: scan_left.simps [of gt piv arr L R])
  qed
qed

text \<open>The hole moves: a cell filled from \<open>j\<close>, and the pivot then put at \<open>j\<close>, is a swap.\<close>

lemma move_hole:
  assumes "b \<le> i" "i < e" "b \<le> j" "j < e" "0 \<le> b" "e \<le> int (length arr)" "i \<noteq> j"
  shows "permutes b e (arr[nat i := piv]) (arr[nat i := arr ! nat j, nat j := piv])"
proof -
  have "nat i \<noteq> nat j" "nat i < length arr" using assms by auto
  hence "arr[nat i := piv, nat i := (arr[nat i := piv]) ! nat j, nat j := (arr[nat i := piv]) ! nat i]
    = arr[nat i := arr ! nat j, nat j := piv]" by simp
  thus ?thesis using permutes_swap [of b i e j "arr[nat i := piv]"] assms by simp
qed

definition partitioned :: "('a \<Rightarrow> 'a \<Rightarrow> bool) \<Rightarrow> 'a \<Rightarrow> 'a list \<Rightarrow> int \<Rightarrow> int \<Rightarrow> 'a list \<Rightarrow> int \<Rightarrow> bool" where
  "partitioned gt piv arr L R arr' R' \<longleftrightarrow> L \<le> R' \<and> R' \<le> R \<and> length arr' = length arr \<and>
     permutes L (R + 1) (arr[nat L := piv]) (arr'[nat R' := piv]) \<and>
     (\<forall>k. L \<le> k \<and> k < R' \<longrightarrow> \<not> gt (arr' ! nat k) piv) \<and>
     (\<forall>k. R' < k \<and> k \<le> R \<longrightarrow> gt (arr' ! nat k) piv)"

lemma partitioned_outside:
  assumes p: "partitioned gt piv arr L R arr' R'" and k: "k < L \<or> R < k" "0 \<le> k" "k < int (length arr)"
    and L: "0 \<le> L"
  shows "arr' ! nat k = arr ! nat k"
proof -
  have b: "L \<le> R'" "R' \<le> R" and m: "permutes L (R + 1) (arr[nat L := piv]) (arr'[nat R' := piv])"
    using p by (auto simp: partitioned_def)
  have "nat k \<noteq> nat L" "nat k \<noteq> nat R'" using b k L by auto
  moreover have "arr'[nat R' := piv] ! nat k = arr[nat L := piv] ! nat k"
    using permutes_outside [OF m, of "nat k"] k by auto
  ultimately show ?thesis by simp
qed

lemma partition_round:
  assumes range: "0 \<le> L" "L < R1" "R1 \<le> R" "R < int (length arr)" "L < L1" "L1 < R1"
    and right: "\<And>k. R1 < k \<Longrightarrow> k \<le> R \<Longrightarrow> gt (arr ! nat k) piv" and R1: "\<not> gt (arr ! nat R1) piv"
    and left: "\<And>k. L < k \<Longrightarrow> k < L1 \<Longrightarrow> \<not> gt (arr ! nat k) piv" and L1: "gt (arr ! nat L1) piv"
    and rest: "partitioned gt piv (arr[nat L := arr ! nat R1, nat R1 := arr ! nat L1]) L1 (R1 - 1) arr' R'"
  shows "partitioned gt piv arr L R arr' R'"
proof -
  define arr1 where "arr1 = arr[nat L := arr ! nat R1]"
  define arr2 where "arr2 = arr1[nat R1 := arr ! nat L1]"
  note p = rest [folded arr1_def, folded arr2_def]
  note out = partitioned_outside [OF p]
  have ne: "nat L \<noteq> nat R1" "nat L1 \<noteq> nat R1" "nat L \<noteq> nat L1" and len: "length arr2 = length arr"
    using range by (auto simp: arr1_def arr2_def)
  have R': "L1 \<le> R'" "R' \<le> R1 - 1" and len': "length arr' = length arr"
    and m: "permutes L1 (R1 - 1 + 1) (arr2[nat L1 := piv]) (arr'[nat R' := piv])"
    using p len by (auto simp: partitioned_def)
  have old: "arr2 ! nat k = arr ! nat k" if "0 \<le> k" "k < int (length arr)" "k \<noteq> L" "k \<noteq> R1" for k
    using that range by (simp add: arr2_def arr1_def)
  have keep: "arr' ! nat k = arr2 ! nat k" if "0 \<le> k" "k < int (length arr)" "k < L1 \<or> R1 - 1 < k" for k
    using out [of k] that len range by auto
  have "permutes L (R + 1) (arr[nat L := piv]) (arr1[nat R1 := piv])"
    unfolding arr1_def using range by (intro move_hole) auto
  moreover have "permutes L (R + 1) (arr1[nat R1 := piv]) (arr1[nat R1 := arr1 ! nat L1, nat L1 := piv])"
    using range by (intro move_hole) (auto simp: arr1_def)
  moreover have "arr1[nat R1 := arr1 ! nat L1, nat L1 := piv] = arr2[nat L1 := piv]"
    using ne by (simp add: arr2_def arr1_def)
  moreover have "permutes L (R + 1) (arr2[nat L1 := piv]) (arr'[nat R' := piv])"
    using permutes_mono [OF m] range by auto
  ultimately have "permutes L (R + 1) (arr[nat L := piv]) (arr'[nat R' := piv])"
    by (metis permutes_trans)
  moreover have "\<not> gt (arr' ! nat k) piv" if k: "L \<le> k" "k < R'" for k
  proof (cases "k < L1")
    case True
    have "arr' ! nat k = arr2 ! nat k" using keep [of k] True k range by auto
    moreover have "\<not> gt (arr2 ! nat k) piv"
    proof (cases "k = L")
      case True
      hence "arr2 ! nat k = arr ! nat R1" using ne range by (simp add: arr2_def arr1_def)
      thus ?thesis using R1 by simp
    next
      case False
      thus ?thesis using left [of k] old [of k] k True range R' by auto
    qed
    ultimately show ?thesis by simp
  qed (use p k in \<open>auto simp: partitioned_def\<close>)
  moreover have "gt (arr' ! nat k) piv" if k: "R' < k" "k \<le> R" for k
  proof (cases "k \<le> R1 - 1")
    case False
    have "arr' ! nat k = arr2 ! nat k" using keep [of k] False k range by auto
    moreover have "gt (arr2 ! nat k) piv"
    proof (cases "k = R1")
      case True
      hence "arr2 ! nat k = arr ! nat L1" using range by (simp add: arr2_def arr1_def)
      thus ?thesis using L1 by simp
    next
      case False
      thus ?thesis using right [of k] old [of k] k \<open>\<not> k \<le> R1 - 1\<close> range by auto
    qed
    ultimately show ?thesis by simp
  qed (use p k in \<open>auto simp: partitioned_def\<close>)
  ultimately show ?thesis using R' range len' by (auto simp: partitioned_def)
qed

lemma partition_stop:
  assumes range: "0 \<le> L" "L \<le> R1" "R1 \<le> R" "R < int (length arr)"
    and right: "\<And>k. R1 < k \<Longrightarrow> k \<le> R \<Longrightarrow> gt (arr ! nat k) piv" and R1: "L < R1 \<Longrightarrow> \<not> gt (arr ! nat R1) piv"
    and left: "\<And>k. L < k \<Longrightarrow> k < R1 \<Longrightarrow> \<not> gt (arr ! nat k) piv"
  shows "partitioned gt piv arr L R (arr[nat L := arr ! nat R1]) R1"
proof -
  have "permutes L (R + 1) (arr[nat L := piv]) (arr[nat L := arr ! nat R1, nat R1 := piv])"
    using move_hole [of L L "R + 1" R1 arr piv] range by (cases "L = R1") (auto simp: permutes_refl)
  moreover have "\<not> gt (arr[nat L := arr ! nat R1] ! nat k) piv" if "L \<le> k" "k < R1" for k
    using R1 left [of k] that range by (cases "k = L") (auto simp: nth_list_update)
  moreover have "gt (arr[nat L := arr ! nat R1] ! nat k) piv" if "R1 < k" "k \<le> R" for k
    using right [of k] that range by (auto simp: nth_list_update)
  ultimately show ?thesis using range by (auto simp: partitioned_def)
qed

lemma qs_partition_total:
  "0 \<le> L \<Longrightarrow> L \<le> R \<Longrightarrow> R < int (length arr) \<Longrightarrow>
   \<exists>arr' R'. qs_partition gt piv arr L R = Some (arr', R') \<and> partitioned gt piv arr L R arr' R'"
proof (induction "nat (R - L)" arbitrary: arr L R rule: less_induct)
  case less
  show ?case
  proof (cases "L < R")
    case False
    hence "L = R" using less.prems by simp
    thus ?thesis
      using less.prems by (auto simp: qs_partition.simps [of _ _ _ R R] partitioned_def permutes_refl)
  next
    case True
    obtain R1 where s: "scan_right gt piv arr L R = Some R1" and R1: "L \<le> R1" "R1 \<le> R"
      and right: "\<And>k. R1 < k \<Longrightarrow> k \<le> R \<Longrightarrow> gt (arr ! nat k) piv" and piv: "L < R1 \<Longrightarrow> \<not> gt (arr ! nat R1) piv"
      using scan_right_total [of L R arr gt piv] less.prems by blast
    define arr1 where "arr1 = arr[nat L := arr ! nat R1]"
    have x: "arr_get arr R1 = Some (arr ! nat R1)" "arr_put arr L (arr ! nat R1) = Some arr1"
      using R1 less.prems by (auto simp: arr_get_def arr_put_def arr1_def)
    show ?thesis
    proof (cases "L < R1")
      case False
      hence "L = R1" using R1 by simp
      hence "scan_left gt piv arr1 (L + 1) R1 = Some (L + 1)" by (simp add: scan_left.simps)
      hence "qs_partition gt piv arr L R = Some (arr1, R1)"
        using True s x \<open>L = R1\<close>
        by (simp add: qs_partition.simps [of gt piv arr R1 R] qs_partition.simps [of _ _ _ "R1 + 1"])
      thus ?thesis unfolding arr1_def
        using partition_stop [of L R1 R arr gt piv] right piv less.prems R1 \<open>L = R1\<close> by auto
    next
      case LR: True
      have bounds: "0 \<le> L + 1" "L + 1 \<le> R1" "R1 < int (length arr1)"
        using less.prems R1 LR by (auto simp: arr1_def)
      obtain L1 where s': "scan_left gt piv arr1 (L + 1) R1 = Some L1" and L1: "L + 1 \<le> L1" "L1 \<le> R1"
        and left: "\<And>k. L + 1 \<le> k \<Longrightarrow> k < L1 \<Longrightarrow> \<not> gt (arr1 ! nat k) piv" and piv': "L1 < R1 \<Longrightarrow> gt (arr1 ! nat L1) piv"
        using scan_left_total [of "L + 1" R1 arr1 gt piv] bounds by blast
      have left': "\<not> gt (arr ! nat k) piv" if "L < k" "k < L1" for k
        using left [of k] that less.prems by (simp add: arr1_def)
      have old: "arr1 ! nat L1 = arr ! nat L1" using L1 less.prems by (simp add: arr1_def)
      show ?thesis
      proof (cases "L1 < R1")
        case False
        hence "L1 = R1" using L1 by simp
        hence "qs_partition gt piv arr L R = Some (arr1, R1)"
          using True s x s' by (simp add: qs_partition.simps [of gt piv arr L R] qs_partition.simps [of _ _ _ R1])
        thus ?thesis unfolding arr1_def
          using partition_stop [of L R1 R arr gt piv] right piv left' less.prems R1 \<open>L1 = R1\<close> by auto
      next
        case swap: True
        define arr2 where "arr2 = arr1[nat R1 := arr ! nat L1]"
        have y: "arr_get arr1 L1 = Some (arr ! nat L1)" "arr_put arr1 R1 (arr ! nat L1) = Some arr2"
          using R1 L1 less.prems old by (auto simp: arr_get_def arr_put_def arr1_def arr2_def)
        obtain arr' R' where rec: "qs_partition gt piv arr2 L1 (R1 - 1) = Some (arr', R')"
          and part: "partitioned gt piv arr2 L1 (R1 - 1) arr' R'"
          using less.hyps [of "R1 - 1" L1 arr2] R1 L1 swap less.prems by (auto simp: arr2_def arr1_def)
        have "qs_partition gt piv arr L R = Some (arr', R')"
          using True s x s' swap y rec by (simp add: qs_partition.simps [of gt piv arr L R])
        moreover have "partitioned gt piv arr L R arr' R'"
          using partition_round [of L R1 R arr L1 gt piv arr' R'] part right piv left' piv' old
            less.prems R1 L1 LR swap by (simp add: arr2_def arr1_def)
        ultimately show ?thesis by blast
      qed
    qed
  qed
qed

section \<open>A round of the sort\<close>

lemma skip_same_total:
  assumes "0 \<le> b" "b - 1 \<le> L" "L < int (length arr)"
  shows "\<exists>L'. skip_same same piv arr b L = Some L' \<and> b - 1 \<le> L' \<and> L' \<le> L \<and>
    (\<forall>k. L' < k \<and> k \<le> L \<longrightarrow> same (arr ! nat k) piv)"
  using assms
proof (induction "nat (L + 1 - b)" arbitrary: L)
  case 0
  thus ?case by (auto simp: skip_same.simps)
next
  case (Suc n)
  hence "b \<le> L" by linarith
  have get: "arr_get arr L = Some (arr ! nat L)" using Suc.prems \<open>b \<le> L\<close> by (intro arr_get_Some) auto
  show ?case
  proof (cases "same (arr ! nat L) piv")
    case True
    have "n = nat (L - 1 + 1 - b)" using Suc(2) by arith
    then obtain L' where L': "skip_same same piv arr b (L - 1) = Some L'" "b - 1 \<le> L'" "L' \<le> L - 1"
      "\<forall>k. L' < k \<and> k \<le> L - 1 \<longrightarrow> same (arr ! nat k) piv"
      using Suc(1) [of "L - 1"] Suc(3-) \<open>b \<le> L\<close> by auto
    have "same (arr ! nat k) piv" if "L' < k" "k \<le> L" for k
      using L'(4) True that by (cases "k = L") auto
    thus ?thesis
      using L' True \<open>b \<le> L\<close> get by (intro exI [of _ L']) (simp add: skip_same.simps [of same piv arr b L])
  next
    case False
    thus ?thesis
      using \<open>b \<le> L\<close> get Suc.prems by (intro exI [of _ L]) (auto simp: skip_same.simps [of same piv arr b L])
  qed
qed

definition split_at :: "('a \<Rightarrow> 'a \<Rightarrow> bool) \<Rightarrow> ('a \<Rightarrow> 'a \<Rightarrow> bool) \<Rightarrow> int \<Rightarrow> int \<Rightarrow> 'a list \<Rightarrow> 'a list \<Rightarrow> int \<Rightarrow> int \<Rightarrow> bool" where
  "split_at gt same b e arr arr' L R \<longleftrightarrow> b \<le> R \<and> R < e \<and> b - 1 \<le> L \<and> L < R \<and> permutes b e arr arr' \<and>
     (\<forall>k. b \<le> k \<and> k < R \<longrightarrow> \<not> gt (arr' ! nat k) (arr' ! nat R)) \<and>
     (\<forall>k. R < k \<and> k < e \<longrightarrow> gt (arr' ! nat k) (arr' ! nat R)) \<and>
     (\<forall>k. L < k \<and> k < R \<longrightarrow> same (arr' ! nat k) (arr' ! nat R))"

lemma qs_split_total:
  assumes b: "0 \<le> b" "b < e - 1" "e \<le> int (length arr)"
  shows "\<exists>arr' L R. qs_split gt same b e arr = Some (arr', L, R) \<and> split_at gt same b e arr arr' L R"
proof -
  define m where "m = b + (e - 1 - b) div 2"
  define piv where "piv = arr ! nat m"
  define arr1 where "arr1 = arr[nat m := arr ! nat b, nat b := piv]"
  have m: "b \<le> m" "m < e" using b by (auto simp: m_def)
  have pre: "arr_get arr m = Some piv" "arr_get arr b = Some (arr ! nat b)"
    "arr_put arr m (arr ! nat b) = Some (arr[nat m := arr ! nat b])"
    "arr_put (arr[nat m := arr ! nat b]) b piv = Some arr1"
    using b m by (auto simp: arr_get_def arr_put_def piv_def arr1_def)
  have len: "length arr1 = length arr" and pivot: "arr1[nat b := piv] = arr1" by (simp_all add: arr1_def)
  have start: "permutes b e arr arr1"
    using permutes_swap [of b m e b arr] b m by (simp add: arr1_def piv_def)
  obtain arr2 R where part: "qs_partition gt piv arr1 b (e - 1) = Some (arr2, R)"
    and p: "partitioned gt piv arr1 b (e - 1) arr2 R"
    using qs_partition_total [of b "e - 1" arr1 gt piv] b len by auto
  define arr3 where "arr3 = arr2[nat R := piv]"
  have R: "b \<le> R" "R < e" and len3: "length arr3 = length arr" "length arr2 = length arr"
    and perm: "permutes b e arr1 arr3"
    and lo: "\<And>k. b \<le> k \<Longrightarrow> k < R \<Longrightarrow> \<not> gt (arr2 ! nat k) piv" and hi: "\<And>k. R < k \<Longrightarrow> k < e \<Longrightarrow> gt (arr2 ! nat k) piv"
    using p len pivot by (auto simp: partitioned_def arr3_def)
  have put: "arr_put arr2 R piv = Some arr3" using R b len3 by (simp add: arr_put_def arr3_def)
  have pivR: "arr3 ! nat R = piv" using R b len3 by (simp add: arr3_def)
  have other: "arr3 ! nat k = arr2 ! nat k" if "k \<noteq> R" "b \<le> k" for k
    using that R b by (simp add: arr3_def nat_eq_iff)
  obtain L where skip: "skip_same same piv arr3 b (R - 1) = Some L" and L: "b - 1 \<le> L" "L \<le> R - 1"
    and eq: "\<And>k. L < k \<Longrightarrow> k \<le> R - 1 \<Longrightarrow> same (arr3 ! nat k) piv"
    using skip_same_total [of b "R - 1" arr3 same piv] R b len3 by auto
  have "qs_split gt same b e arr = Some (arr3, L, R)"
    using pre part put skip by (simp add: qs_split_def m_def)
  moreover have "split_at gt same b e arr arr3 L R"
    unfolding split_at_def pivR
    using R L permutes_trans [OF start perm] lo hi eq other by auto
  ultimately show ?thesis by blast
qed

section \<open>The comparison, as the sort uses it\<close>

locale comparator =
  fixes gt same :: "'a \<Rightarrow> 'a \<Rightarrow> bool" and carrier :: "'a set"
  assumes le_trans: "x \<in> carrier \<Longrightarrow> y \<in> carrier \<Longrightarrow> z \<in> carrier \<Longrightarrow> \<not> gt x y \<Longrightarrow> \<not> gt y z \<Longrightarrow> \<not> gt x z"
    and gt_asym: "x \<in> carrier \<Longrightarrow> y \<in> carrier \<Longrightarrow> gt x y \<Longrightarrow> \<not> gt y x"
    and same_eq: "same x y \<Longrightarrow> x = y"
begin

text \<open>
  The invariant: the waiting segments are disjoint and within the array, and two cells are in order
  unless both lie in one waiting segment.
\<close>

definition pending :: "segments \<Rightarrow> 'a list \<Rightarrow> bool" where
  "pending segs arr \<longleftrightarrow> set arr \<subseteq> carrier \<and>
     (\<forall>(b, e)\<in>set segs. 0 \<le> b \<and> b \<le> e \<and> e \<le> int (length arr)) \<and>
     sorted_wrt (\<lambda>(b, e) (b', e'). e \<le> b' \<or> e' \<le> b) segs \<and>
     (\<forall>i j. i < j \<and> j < length arr \<longrightarrow>
        (\<exists>(b, e)\<in>set segs. b \<le> int i \<and> int j < e) \<or> \<not> gt (arr ! i) (arr ! j))"

lemma pending_start: "set arr \<subseteq> carrier \<Longrightarrow> pending [(0, int (length arr))] arr"
  by (auto simp: pending_def)

lemma pending_end: "pending [] arr \<Longrightarrow> sorted_wrt (\<lambda>x y. \<not> gt x y) arr"
  by (auto simp: pending_def sorted_wrt_iff_nth_less)

lemma pending_pop: "pending ((b, e) # segs) arr \<Longrightarrow> \<not> b < e - 1 \<Longrightarrow> pending segs arr"
  unfolding pending_def by fastforce

lemma pending_swap: "pending (s # t # segs) arr \<Longrightarrow> pending (t # s # segs) arr"
proof -
  assume p: "pending (s # t # segs) arr"
  have "sorted_wrt (\<lambda>(b, e) (b', e'). e \<le> b' \<or> e' \<le> b) (t # s # segs)"
    using p unfolding pending_def by (auto split: prod.splits)
  moreover have "set (t # s # segs) = set (s # t # segs)" by auto
  ultimately show ?thesis using p unfolding pending_def by presburger
qed

lemma le_refl: "x \<in> carrier \<Longrightarrow> \<not> gt x x"
  using gt_asym by blast

lemma split_ordered:
  assumes sp: "split_at gt same b e arr arr' L R" and b: "0 \<le> b" and len: "e \<le> int (length arr')"
    and c: "set arr' \<subseteq> carrier" and ij: "b \<le> int i" "i < j" "int j < e"
    and not1: "\<not> int j < L + 1" and not2: "\<not> R + 1 \<le> int i"
  shows "\<not> gt (arr' ! i) (arr' ! j)"
proof -
  have R: "b \<le> R" "R < e" and lo: "\<And>k. b \<le> k \<Longrightarrow> k < R \<Longrightarrow> \<not> gt (arr' ! nat k) (arr' ! nat R)"
    and hi: "\<And>k. R < k \<Longrightarrow> k < e \<Longrightarrow> gt (arr' ! nat k) (arr' ! nat R)"
    and eq: "\<And>k. L < k \<Longrightarrow> k < R \<Longrightarrow> arr' ! nat k = arr' ! nat R"
    using sp same_eq by (auto simp: split_at_def)
  have inc: "arr' ! i \<in> carrier" "arr' ! j \<in> carrier" "arr' ! nat R \<in> carrier"
    using c ij len R b by (auto simp: subset_iff)
  have i: "\<not> gt (arr' ! i) (arr' ! nat R)"
    using lo [of "int i"] ij not2 le_refl [OF inc(3)] by (cases "int i = R") auto
  have j: "\<not> gt (arr' ! nat R) (arr' ! j)"
  proof (cases "int j" R rule: linorder_cases)
    case less
    thus ?thesis using eq [of "int j"] not1 le_refl [OF inc(3)] by auto
  next
    case equal
    thus ?thesis using le_refl [OF inc(3)] by auto
  next
    case greater
    thus ?thesis using hi [of "int j"] ij gt_asym [OF inc(2,3)] by auto
  qed
  show ?thesis using le_trans [OF inc(1,3,2) i j] .
qed

lemma pending_split:
  assumes p: "pending ((b, e) # segs) arr" and sp: "split_at gt same b e arr arr' L R"
  shows "pending ((b, L + 1) # (R + 1, e) # segs) arr'"
proof -
  have c: "set arr \<subseteq> carrier" and b: "0 \<le> b" "b \<le> e" "e \<le> int (length arr)"
    and rest: "\<And>b' e'. (b', e') \<in> set segs \<Longrightarrow> 0 \<le> b' \<and> b' \<le> e' \<and> e' \<le> int (length arr) \<and> (e \<le> b' \<or> e' \<le> b)"
    and dis: "sorted_wrt (\<lambda>(b, e) (b', e'). e \<le> b' \<or> e' \<le> b) segs"
    and ord: "\<And>i j. i < j \<Longrightarrow> j < length arr \<Longrightarrow> \<not> (b \<le> int i \<and> int j < e) \<Longrightarrow>
        \<not> (\<exists>(b, e)\<in>set segs. b \<le> int i \<and> int j < e) \<Longrightarrow> \<not> gt (arr ! i) (arr ! j)"
    using p unfolding pending_def by fastforce+
  have R: "b \<le> R" "R < e" "b - 1 \<le> L" "L < R" and perm: "permutes b e arr arr'"
    using sp by (auto simp: split_at_def)
  have len: "length arr' = length arr" using permutes_length [OF perm] .
  have c': "set arr' \<subseteq> carrier" using perm c by (metis permutes_def set_mset_mset)
  have "\<not> gt (arr' ! i) (arr' ! j)"
    if ij: "i < j" "j < length arr'" and n1: "\<not> (b \<le> int i \<and> int j < L + 1)"
      and n2: "\<not> (R + 1 \<le> int i \<and> int j < e)" and n3: "\<not> (\<exists>(b, e)\<in>set segs. b \<le> int i \<and> int j < e)" for i j
  proof (cases "b \<le> int i \<and> int j < e")
    case True
    thus ?thesis using split_ordered [OF sp b(1)] b(3) len c' ij n1 n2 by auto
  next
    case False
    obtain i' where i': "i' < length arr" "arr' ! i = arr ! i'"
      "i' = i \<or> b \<le> int i' \<and> int i' < e \<and> b \<le> int i \<and> int i < e"
      using permutes_source [OF perm, of i] ij len by auto
    obtain j' where j': "j' < length arr" "arr' ! j = arr ! j'"
      "j' = j \<or> b \<le> int j' \<and> int j' < e \<and> b \<le> int j \<and> int j < e"
      using permutes_source [OF perm, of j] ij len by auto
    have "i' < j'" "\<not> (b \<le> int i' \<and> int j' < e)" using i'(3) j'(3) ij False by auto
    moreover have "\<not> (\<exists>(b, e)\<in>set segs. b \<le> int i' \<and> int j' < e)"
      using n3 i'(3) j'(3) rest by fastforce
    ultimately show ?thesis using ord [of i' j'] i' j' by auto
  qed
  moreover have "sorted_wrt (\<lambda>(b, e) (b', e'). e \<le> b' \<or> e' \<le> b) ((b, L + 1) # (R + 1, e) # segs)"
    using dis rest R by fastforce
  ultimately show ?thesis unfolding pending_def using c' b rest R len by fastforce
qed

text \<open>
  The stack: the segment at level \<open>k\<close> has at most \<open>n / 2^k\<close> elements, because the smaller half is
  always on top. A segment that is still split has two, so the level stays below \<open>log2 n\<close>.
\<close>

fun halving :: "nat \<Rightarrow> segments \<Rightarrow> bool" where
  "halving n [] = True"
| "halving n (s # segs) = (seg_size s * 2 ^ length segs \<le> n \<and> halving n segs)"

lemma halving_split:
  assumes h: "halving n ((b, e) # segs)" and r: "b - 1 \<le> L" "L < R" "R < e" "b \<le> R"
  shows "e - (R + 1) > L + 1 - b \<Longrightarrow> halving n ((b, L + 1) # (R + 1, e) # segs)"
    and "\<not> e - (R + 1) > L + 1 - b \<Longrightarrow> halving n ((R + 1, e) # (b, L + 1) # segs)"
proof -
  have n: "nat (e - b) * 2 ^ length segs \<le> n" "halving n segs" using h by auto
  have below: "x * 2 ^ length segs \<le> n" if "x \<le> nat (e - b)" for x
    using n(1) mult_le_mono1 [OF that] le_trans by (meson order_trans)
  have top: "x * (2 * 2 ^ length segs) \<le> n" if "2 * x \<le> nat (e - b)" for x
    using below [OF that] by (simp add: mult.assoc mult.left_commute)
  show "halving n ((b, L + 1) # (R + 1, e) # segs)" if "e - (R + 1) > L + 1 - b"
    using that r n(2) by (auto intro!: below top)
  show "halving n ((R + 1, e) # (b, L + 1) # segs)" if "\<not> e - (R + 1) > L + 1 - b"
    using that r n(2) by (auto intro!: below top)
qed

lemma halving_levels:
  assumes h: "halving n ((b, e) # segs)" and s: "b < e - 1" and n: "n < 2 ^ (MAX_LEVELS - 1)"
  shows "\<not> length segs + 2 > MAX_LEVELS"
proof
  assume "length segs + 2 > MAX_LEVELS"
  hence "MAX_LEVELS - 1 \<le> length segs" by simp
  hence "(2::nat) ^ (MAX_LEVELS - 1) \<le> 2 ^ length segs" by (rule power_increasing) simp
  also have "\<dots> \<le> seg_size (b, e) * 2 ^ length segs" using s by simp
  also have "\<dots> \<le> n" using h by simp
  finally show False using n by simp
qed

definition cells :: "segments \<Rightarrow> nat" where
  "cells segs = (\<Sum>s\<leftarrow>segs. 2 * seg_size s + 1)"

lemma qsort_loop_sorts:
  assumes n: "n < 2 ^ (MAX_LEVELS - 1)"
  shows "pending segs arr \<Longrightarrow> halving n segs \<Longrightarrow>
    \<exists>arr'. qsort_loop gt same segs arr = Some arr' \<and> mset arr' = mset arr \<and> sorted_wrt (\<lambda>x y. \<not> gt x y) arr'"
proof (induction "cells segs" arbitrary: segs arr rule: less_induct)
  case less
  show ?case
  proof (cases segs)
    case Nil
    thus ?thesis using less.prems pending_end by simp
  next
    case (Cons s rest)
    obtain b e where s: "s = (b, e)" by fastforce
    have p: "pending ((b, e) # rest) arr" and h: "halving n ((b, e) # rest)"
      using less.prems Cons s by auto
    show ?thesis
    proof (cases "b < e - 1")
      case False
      have "cells rest < cells segs" by (simp add: Cons cells_def)
      thus ?thesis
        using less.hyps [of rest arr] pending_pop [OF p False] h False by (simp add: Cons s qsort_loop.simps(2))
    next
      case True
      have bounds: "0 \<le> b" "e \<le> int (length arr)" using p by (auto simp: pending_def)
      obtain arr' L R where split: "qs_split gt same b e arr = Some (arr', L, R)"
        and sp: "split_at gt same b e arr arr' L R"
        using qs_split_total [OF bounds(1) True bounds(2)] by blast
      have R: "b - 1 \<le> L" "L < R" "R < e" "b \<le> R" and m: "mset arr' = mset arr"
        using sp by (auto simp: split_at_def permutes_def)
      note levels = halving_levels [OF h True n]
      define stack where "stack = (if e - (R + 1) > L + 1 - b then (b, L + 1) # (R + 1, e) # rest
        else (R + 1, e) # (b, L + 1) # rest)"
      have "qsort_loop gt same segs arr = qsort_loop gt same stack arr'"
        using split True levels by (simp add: Cons s qsort_loop.simps(2) stack_def)
      moreover have "pending stack arr'"
        using pending_split [OF p sp] pending_swap by (auto simp: stack_def)
      moreover have "halving n stack" using halving_split [OF h R] by (simp add: stack_def)
      moreover have "Suc (2 * nat (L + 1 - b) + 2 * nat (e - (R + 1))) < 2 * nat (e - b)"
        using R True by linarith
      hence "cells stack < cells segs" by (simp add: Cons s stack_def cells_def)
      ultimately show ?thesis using less.hyps [of stack arr'] m by simp
    qed
  qed
qed

lemma qsort_sorts:
  assumes "set arr \<subseteq> carrier" "length arr < 2 ^ (MAX_LEVELS - 1)"
  shows "\<exists>arr'. qsort_loop gt same [(0, int (length arr))] arr = Some arr' \<and> mset arr' = mset arr
    \<and> sorted_wrt (\<lambda>x y. \<not> gt x y) arr'"
  using qsort_loop_sorts [OF assms(2) pending_start [OF assms(1)]] by simp

end

section \<open>Sorting an array of integers\<close>

text \<open>
  \<open>qsort_int_array\<close>: its indices are \<open>int\<close>s, so the length is truncated to 32 bits when it is stored
  in \<open>end[0]\<close>.
\<close>

definition c_int :: "int \<Rightarrow> int" where
  "c_int x = sint (word_of_int x :: 32 word)"

definition qsort_int_array :: "int list \<Rightarrow> int list option" where
  "qsort_int_array arr = qsort_loop (>) (=) [(0, c_int (int (length arr)))] arr"

interpretation ints: comparator "(>) :: int \<Rightarrow> int \<Rightarrow> bool" "(=)" UNIV
  by unfold_locales auto

lemma c_int_id: "- (2 ^ 31) \<le> x \<Longrightarrow> x < 2 ^ 31 \<Longrightarrow> c_int x = x"
  unfolding c_int_def by (simp add: signed_take_bit_int_eq_self sint_sbintrunc' signed_of_int)

lemma sorted_asc: "sorted_wrt (\<lambda>x y. \<not> (y :: int) < x) arr = sorted arr"
  by (simp add: not_less)

lemma qsort_int_array_sorts:
  assumes "length arr < 2 ^ 31"
  shows "qsort_int_array arr = Some (sort arr)"
proof -
  have "(2::nat) ^ 31 \<le> 2 ^ (MAX_LEVELS - 1)" by (rule power_increasing) (simp_all add: MAX_LEVELS_def)
  then obtain arr' where "qsort_int_array arr = Some arr'" "mset arr' = mset arr" "sorted arr'"
    using ints.qsort_sorts [of arr] assms by (auto simp: qsort_int_array_def c_int_id sorted_asc)
  thus ?thesis using properties_for_sort [of arr' arr] by simp
qed

end
