(* ===== verification/Term_Order.thy ===== *)
theory Term_Order
  imports Arith_Exact
begin

text \<open>
  The standard order of terms: \<open>bp_compare\<close> of \<open>emu/mic.c\<close>. A term is the dereferenced tree below a
  word; a free or suspended variable is its address. Where the code stops early because two words
  are equal, the definitions compare the two equal terms; the results agree except for terms that
  contain a NaN, which is not equal to itself.
\<close>

section \<open>Terms\<close>

datatype pterm =
    PRef nat          \<comment> \<open>a free variable, its address\<close>
  | PSusp nat         \<comment> \<open>a suspended variable, its address\<close>
  | PInt int
  | PAtom string
  | PFloat double
  | PBig bigint
  | PList pterm pterm
  | PStr string "pterm list"

abbreviation nil_sym :: pterm where "nil_sym \<equiv> PAtom ''[]''"
abbreviation array_sym :: string where "array_sym \<equiv> ''{}''"

section \<open>The comparison\<close>

definition BP_COMPARE_VALS :: "int \<Rightarrow> int \<Rightarrow> int" where
  "BP_COMPARE_VALS a b = (if a = b then 0 else if a > b then 1 else - 1)"

definition COMPARE_FLOAT_FLOAT :: "double \<Rightarrow> double \<Rightarrow> int" where
  "COMPARE_FLOAT_FLOAT f1 f2 = (if dlt f1 f2 then - 1 else if deq f1 f2 then 0 else 1)"

text \<open>The sign of \<open>strcmp\<close> on names, which hold no NUL, with characters as unsigned bytes.\<close>

fun strcmp :: "string \<Rightarrow> string \<Rightarrow> int" where
  "strcmp [] [] = 0"
| "strcmp [] (c # t) = - 1"
| "strcmp (c # s) [] = 1"
| "strcmp (c # s) (d # t) =
     (if c = d then strcmp s t else if (of_char c :: nat) < of_char d then - 1 else 1)"

definition compare_bigint_float :: "bigint \<Rightarrow> double \<Rightarrow> int" where
  "compare_bigint_float b f = COMPARE_FLOAT_FLOAT (bp_bigint_to_double b) f"

definition compare_float_unknown :: "double \<Rightarrow> pterm \<Rightarrow> int" where
  "compare_float_unknown f t = (case t of
       PFloat g \<Rightarrow> COMPARE_FLOAT_FLOAT f g
     | PRef a \<Rightarrow> 1
     | PInt i \<Rightarrow> COMPARE_FLOAT_FLOAT f (of_int_d i)
     | PBig b \<Rightarrow> COMPARE_FLOAT_FLOAT f (bp_bigint_to_double b)
     | _ \<Rightarrow> - 1)"

text \<open>
  \<open>compare_args\<close> is the loop over the arguments of two structures, up to the shorter one.
  A big integer is a structure of the symbol \<open>$bigint/2\<close>, and a structure meets it as such.
\<close>

fun bp_compare :: "pterm \<Rightarrow> pterm \<Rightarrow> int" and compare_args :: "pterm list \<Rightarrow> pterm list \<Rightarrow> int" where
  "bp_compare (PRef a) t = (case t of PRef b \<Rightarrow> BP_COMPARE_VALS (int a) (int b) | _ \<Rightarrow> - 1)"
| "bp_compare (PInt i) t = (case t of
       PRef b \<Rightarrow> 1
     | PSusp b \<Rightarrow> 1
     | PInt j \<Rightarrow> BP_COMPARE_VALS i j
     | PFloat g \<Rightarrow> COMPARE_FLOAT_FLOAT (of_int_d i) g
     | PBig b \<Rightarrow> (if bp_sign_bigint b < 0 then 1 else - 1)
     | _ \<Rightarrow> - 1)"
| "bp_compare (PAtom s) t = (case t of
       PAtom r \<Rightarrow> strcmp s r
     | PList h l \<Rightarrow> - 1
     | PStr g ys \<Rightarrow> - 1
     | _ \<Rightarrow> 1)"
| "bp_compare (PList h l) t = (case t of
       PList h' l' \<Rightarrow> (let c = bp_compare h h' in if c \<noteq> 0 then c else bp_compare l l')
     | _ \<Rightarrow> 1)"
| "bp_compare (PFloat f) t = compare_float_unknown f t"
| "bp_compare (PBig b) t = (case t of
       PRef a \<Rightarrow> 1
     | PSusp a \<Rightarrow> 1
     | PInt i \<Rightarrow> (if bp_sign_bigint b < 0 then - 1 else 1)
     | PFloat f \<Rightarrow> compare_bigint_float b f
     | PBig b' \<Rightarrow> bp_compare_bigint_bigint b b'
     | _ \<Rightarrow> - 1)"
| "bp_compare (PStr f xs) t = (case t of
       PList h l \<Rightarrow> - 1
     | PBig b \<Rightarrow> (if length xs \<noteq> 2 then BP_COMPARE_VALS (int (length xs)) 2 else strcmp f ''$bigint'')
     | PStr g ys \<Rightarrow>
         (if length xs \<noteq> length ys
          then (if f = array_sym \<and> g = array_sym
                then (let c = compare_args xs ys
                      in if c \<noteq> 0 then c else if length xs < length ys then - 1 else 1)
                else BP_COMPARE_VALS (int (length xs)) (int (length ys)))
          else (let c = strcmp f g in if c \<noteq> 0 then c else compare_args xs ys))
     | _ \<Rightarrow> 1)"
| "bp_compare (PSusp a) t = (case t of
       PRef b \<Rightarrow> 1
     | PSusp b \<Rightarrow> BP_COMPARE_VALS (int a) (int b)
     | _ \<Rightarrow> - 1)"
| "compare_args (x # xs) (y # ys) = (let c = bp_compare x y in if c \<noteq> 0 then c else compare_args xs ys)"
| "compare_args [] ys = 0"
| "compare_args xs [] = 0"

section \<open>The built-ins over it\<close>

datatype order_sym = less_than_sym | equal_sym | greater_than_sym

definition b_COMPARE_fcc :: "pterm \<Rightarrow> pterm \<Rightarrow> order_sym" where
  "b_COMPARE_fcc t1 t2 =
     (let i = bp_compare t1 t2
      in if i = 0 then equal_sym else if i > 0 then greater_than_sym else less_than_sym)"

section \<open>Where it is an order\<close>

lemma vals_sgn: "BP_COMPARE_VALS a b = sgn (a - b)"
  by (simp add: BP_COMPARE_VALS_def sgn_if)

lemma strcmp_eq [simp]: "strcmp s t = 0 \<longleftrightarrow> s = t"
  by (induction s t rule: strcmp.induct) auto

lemma strcmp_refl [simp]: "strcmp s s = 0"
  by simp

lemma strcmp_pos: "0 < strcmp s t \<longleftrightarrow> strcmp s t = 1"
  by (induction s t rule: strcmp.induct) auto

lemma strcmp_anti: "strcmp t s = - strcmp s t"
  by (induction s t rule: strcmp.induct) (auto simp: order_less_le linorder_not_le of_char_eq_iff)

lemma strcmp_trans: "strcmp s t \<le> 0 \<Longrightarrow> strcmp t u \<le> 0 \<Longrightarrow> strcmp s u \<le> 0"
proof (induction s t arbitrary: u rule: strcmp.induct)
  case (4 c s d t)
  thus ?case by (cases u) (auto split: if_splits simp: of_char_eq_iff)
next
  case (2 c t)
  thus ?case by (cases u) auto
next
  case (3 c s)
  thus ?case by simp
next
  case 1
  thus ?case by (cases u) auto
qed

text \<open>
  The terms on which it is a total order: no floats; numbers in their canonical representation;
  the structures either all arrays (\<open>arrays\<close>) or none of them; and when there are big integers
  (\<open>bigs\<close>), no structure that is below \<open>$bigint/2\<close>.
\<close>

fun plain :: "bool \<Rightarrow> bool \<Rightarrow> pterm \<Rightarrow> bool" where
  "plain bigs arrays (PInt i) \<longleftrightarrow> num_ok (MAKEINT i)"
| "plain bigs arrays (PBig b) \<longleftrightarrow> bigs \<and> num_ok (MAKEBIG b)"
| "plain bigs arrays (PFloat f) \<longleftrightarrow> False"
| "plain bigs arrays (PList h t) \<longleftrightarrow> plain bigs arrays h \<and> plain bigs arrays t"
| "plain bigs arrays (PStr f xs) \<longleftrightarrow> (f = array_sym) = arrays \<and>
     (bigs \<longrightarrow> length xs > 2 \<or> length xs = 2 \<and> strcmp f ''$bigint'' > 0) \<and> (\<forall>x\<in>set xs. plain bigs arrays x)"
| "plain bigs arrays t \<longleftrightarrow> True"

fun rank :: "pterm \<Rightarrow> nat" where
  "rank (PRef a) = 0"
| "rank (PSusp a) = 1"
| "rank (PAtom s) = 3"
| "rank (PStr f xs) = 4"
| "rank (PList h t) = 5"
| "rank t = 2"

fun int_value :: "pterm \<Rightarrow> int" where
  "int_value (PInt i) = i"
| "int_value (PBig b) = big_val b"
| "int_value t = 0"

lemma big_magnitude:
  assumes "num_ok (MAKEBIG b)"
  shows "bp_sign_bigint b < 0 \<Longrightarrow> big_val b < BP_MININT_1W" and "\<not> bp_sign_bigint b < 0 \<Longrightarrow> big_val b > BP_MAXINT_1W"
  using num_ok_big(4) [OF assms] big_val_sign(1) [of b] assms
  by (auto simp: BP_MININT_1W_def BP_MAXINT_1W_def split: if_split_asm)

lemma compare_numbers:
  assumes "plain bigs arrays t" "plain bigs arrays u" "rank t = 2" "rank u = 2"
  shows "bp_compare t u = sgn (int_value t - int_value u)"
proof -
  have "(\<exists>i. t = PInt i \<and> num_ok (MAKEINT i)) \<or> (\<exists>b. t = PBig b \<and> num_ok (MAKEBIG b))"
    using assms(1,3) by (cases t) auto
  moreover have "(\<exists>i. u = PInt i \<and> num_ok (MAKEINT i)) \<or> (\<exists>b. u = PBig b \<and> num_ok (MAKEBIG b))"
    using assms(2,4) by (cases u) auto
  ultimately consider i j where "t = PInt i" "u = PInt j" | i b where "t = PInt i" "u = PBig b" "num_ok (MAKEINT i)" "num_ok (MAKEBIG b)"
    | b i where "t = PBig b" "u = PInt i" "num_ok (MAKEINT i)" "num_ok (MAKEBIG b)"
    | b c where "t = PBig b" "u = PBig c" "num_ok (MAKEBIG b)" "num_ok (MAKEBIG c)" by blast
  thus ?thesis
  proof cases
    case 2
    thus ?thesis using big_magnitude [OF 2(4)] by (auto simp: sgn_if)
  next
    case 3
    thus ?thesis using big_magnitude [OF 3(4)] by (auto simp: sgn_if)
  next
    case 4
    thus ?thesis using bp_compare_bigint_sgn [of b c] by simp
  qed (simp add: vals_sgn)
qed

lemma compare_ranks:
  assumes "plain bigs arrays t" "plain bigs arrays u" "rank t < rank u"
  shows "bp_compare t u = - 1" "bp_compare u t = 1"
proof -
  have "bp_compare t u = - 1 \<and> bp_compare u t = 1"
  proof (cases t)
    case (PStr f xs)
    thus ?thesis using assms by (cases u) auto
  next
    case (PBig b)
    thus ?thesis using assms by (cases u) (auto simp: BP_COMPARE_VALS_def strcmp_pos)
  next
    case (PInt i)
    thus ?thesis using assms by (cases u) simp_all
  qed (use assms in \<open>(cases u; simp)+\<close>)
  thus "bp_compare t u = - 1" "bp_compare u t = 1" by simp_all
qed

lemma plain_rank_cases:
  assumes "plain bigs arrays t"
  obtains a where "t = PRef a" | a where "t = PSusp a" | "rank t = 2" | s where "t = PAtom s"
    | f xs where "t = PStr f xs" | h l where "t = PList h l"
  using assms by (cases t) auto

definition lex_args :: "pterm list \<Rightarrow> pterm list \<Rightarrow> int" where
  "lex_args xs ys = (let c = compare_args xs ys in if c \<noteq> 0 then c else sgn (int (length xs) - int (length ys)))"

lemma lex_args_simps [simp]:
  "lex_args [] ys = (if ys = [] then 0 else - 1)"
  "lex_args (x # xs) [] = 1"
  "lex_args (x # xs) (y # ys) = (if bp_compare x y \<noteq> 0 then bp_compare x y else lex_args xs ys)"
  by (auto simp: lex_args_def Let_def sgn_if)

lemma compare_structures:
  assumes "plain bigs arrays (PStr f xs)" "plain bigs arrays (PStr g ys)"
  shows "bp_compare (PStr f xs) (PStr g ys) =
    (if arrays then lex_args xs ys
     else if length xs \<noteq> length ys then sgn (int (length xs) - int (length ys))
     else if f \<noteq> g then strcmp f g else lex_args xs ys)"
proof (cases arrays)
  case True
  hence "f = array_sym" "g = array_sym" using assms by simp_all
  thus ?thesis using True by (auto simp: lex_args_def Let_def sgn_if)
next
  case False
  hence "f \<noteq> array_sym" using assms by simp
  thus ?thesis using False by (auto simp: lex_args_def Let_def vals_sgn)
qed

text \<open>The three laws.\<close>

lemma lex_args_anti:
  assumes "\<And>x y. x \<in> set xs \<Longrightarrow> y \<in> set ys \<Longrightarrow> bp_compare y x = - bp_compare x y"
  shows "lex_args ys xs = - lex_args xs ys"
  using assms
proof (induction xs ys rule: list_induct2')
  case (4 x xs y ys)
  thus ?case by simp
qed simp_all

lemma compare_anti: "plain bigs arrays t \<Longrightarrow> plain bigs arrays u \<Longrightarrow> bp_compare u t = - bp_compare t u"
proof (induction t arbitrary: u)
  case (PStr f xs)
  show ?case
  proof (cases "rank u = 4")
    case False
    thus ?thesis using compare_ranks [OF PStr(2,3)] compare_ranks [OF PStr(3,2)] by (cases "rank u < 4") auto
  next
    case True
    then obtain g ys where u: "u = PStr g ys" by (cases u) auto
    have "lex_args ys xs = - lex_args xs ys"
      using PStr u by (intro lex_args_anti) auto
    thus ?thesis
      using compare_structures [OF PStr(2) PStr(3) [unfolded u]] compare_structures [OF PStr(3) [unfolded u] PStr(2)]
      by (auto simp: u strcmp_anti [of g] sgn_if simp del: bp_compare.simps)
  qed
next
  case (PInt i)
  consider "rank u < 2" | "rank u = 2" | "2 < rank u" by linarith
  thus ?case
    using compare_numbers [OF PInt] compare_numbers [OF PInt(2,1)] compare_ranks [OF PInt] compare_ranks [OF PInt(2,1)]
    by cases (auto simp: sgn_if)
next
  case (PBig b)
  consider "rank u < 2" | "rank u = 2" | "2 < rank u" by linarith
  thus ?case
    using compare_numbers [OF PBig] compare_numbers [OF PBig(2,1)] compare_ranks [OF PBig] compare_ranks [OF PBig(2,1)]
    by cases (auto simp: sgn_if)
next
  case (PList h t)
  thus ?case by (cases u) (auto simp: Let_def)
next
  case (PAtom s)
  thus ?case by (cases u) (auto simp: strcmp_anti [of s])
qed ((case_tac u; simp add: vals_sgn sgn_if), (case_tac u; simp add: vals_sgn sgn_if), simp)

lemma lex_args_eq:
  assumes "\<And>x y. x \<in> set xs \<Longrightarrow> y \<in> set ys \<Longrightarrow> bp_compare x y = 0 \<Longrightarrow> x = y"
  shows "lex_args xs ys = 0 \<Longrightarrow> xs = ys"
  using assms
proof (induction xs ys rule: list_induct2')
  case (4 x xs y ys)
  thus ?case by (auto split: if_splits)
qed (auto split: if_splits)

lemma ubig_val_inj: "digits_ok n x \<Longrightarrow> digits_ok n y \<Longrightarrow> ubig_val n x = ubig_val n y \<Longrightarrow> k < n \<Longrightarrow> x ! k = y ! k"
proof (induction n)
  case (Suc n)
  note d = digits_ok_le [OF Suc.prems(1), of n] digits_ok_le [OF Suc.prems(2), of n]
  have b: "0 \<le> ubig_val n x" "ubig_val n x < BP_BIGINT_BASE ^ n" "0 \<le> ubig_val n y" "ubig_val n y < BP_BIGINT_BASE ^ n"
    using ubig_val_bounds d by auto
  have e: "ubig_val n x + x ! n * BP_BIGINT_BASE ^ n = ubig_val n y + y ! n * BP_BIGINT_BASE ^ n"
    using Suc.prems(3) by (simp add: ubig_val_Suc)
  have "x ! n = (ubig_val n x + x ! n * BP_BIGINT_BASE ^ n) div BP_BIGINT_BASE ^ n"
    using b by (simp add: div_pos_pos_trivial)
  also have "\<dots> = (ubig_val n y + y ! n * BP_BIGINT_BASE ^ n) div BP_BIGINT_BASE ^ n" by (simp only: e)
  also have "\<dots> = y ! n" using b by (simp add: div_pos_pos_trivial)
  finally have top: "x ! n = y ! n" .
  hence "ubig_val n x = ubig_val n y" using e by simp
  thus ?case using Suc.IH [OF d] Suc.prems(4) top by (cases "k = n") auto
qed simp

lemma big_val_inj:
  assumes w: "wf_bigint a" "wf_bigint b" and eq: "big_val a = big_val b"
  shows "a = b"
proof -
  let ?m = "nat \<bar>sign_size a\<bar>" and ?n = "nat \<bar>sign_size b\<bar>"
  have na: "normal_ubig ?m (digit_list a)" and nb: "normal_ubig ?n (digit_list b)"
    and len: "length (digit_list a) = ?m" "length (digit_list b) = ?n" using w by (auto simp: wf_bigint_def)
  note pos = normal_ubigD(4) [OF na] normal_ubigD(4) [OF nb]
  have sign: "sign_size a < 0 \<longleftrightarrow> sign_size b < 0"
    using eq pos normal_ubig_zero [OF na] normal_ubig_zero [OF nb] by (auto simp: big_val_def split: if_split_asm)
  hence v: "ubig_val ?m (digit_list a) = ubig_val ?n (digit_list b)"
    using eq by (auto simp: big_val_def split: if_split_asm)
  have size: "?m = ?n"
    using normal_val_less [OF na normal_ubigD(1) [OF nb]] normal_val_less [OF nb normal_ubigD(1) [OF na]] v
    by (cases ?m ?n rule: linorder_cases) auto
  have "digit_list a = digit_list b"
    using ubig_val_inj [OF normal_ubigD(1) [OF na]] normal_ubigD(1) [OF nb] v size len
    by (intro nth_equalityI) auto
  moreover have "sign_size a = sign_size b" using size sign by auto
  ultimately show ?thesis by (cases a; cases b) simp
qed

lemma compare_eq: "plain bigs arrays t \<Longrightarrow> plain bigs arrays u \<Longrightarrow> bp_compare t u = 0 \<Longrightarrow> t = u"
proof (induction t arbitrary: u)
  case (PStr f xs)
  have "rank u = 4" using compare_ranks [OF PStr(2,3)] compare_ranks [OF PStr(3,2)] PStr(4)
    by (cases "rank u" "4 :: nat" rule: linorder_cases) auto
  then obtain g ys where u: "u = PStr g ys" by (cases u) auto
  have eq: "xs = ys" if "lex_args xs ys = 0"
    using PStr u that by (intro lex_args_eq [OF _ that]) auto
  show ?case
    using compare_structures [OF PStr(2) PStr(3) [unfolded u]] PStr(2-4) eq
    by (auto simp: u sgn_if simp del: bp_compare.simps split: if_split_asm)
next
  case (PInt i)
  have "rank u = 2" using compare_ranks [OF PInt(1,2)] compare_ranks [OF PInt(2,1)] PInt(3)
    by (cases "rank u" "2 :: nat" rule: linorder_cases) auto
  thus ?case using PInt big_magnitude by (cases u) (auto simp: vals_sgn sgn_if split: if_split_asm)
next
  case (PBig b)
  have "rank u = 2" using compare_ranks [OF PBig(1,2)] compare_ranks [OF PBig(2,1)] PBig(3)
    by (cases "rank u" "2 :: nat" rule: linorder_cases) auto
  moreover have "u = PBig c \<Longrightarrow> b = c" for c
    using PBig compare_numbers [OF PBig(1,2)] big_val_inj [of b c] by (auto simp: sgn_if simp del: bp_compare.simps split: if_split_asm)
  ultimately show ?case using PBig by (cases u) (auto split: if_split_asm)
next
  case (PList h t)
  have "rank u = 5" using compare_ranks [OF PList(3,4)] compare_ranks [OF PList(4,3)] PList(5)
    by (cases "rank u" "5 :: nat" rule: linorder_cases) auto
  then obtain h' t' where u: "u = PList h' t'" by (cases u) auto
  have "bp_compare h h' = 0" "bp_compare t t' = 0" using PList(5) by (auto simp: u Let_def split: if_split_asm)
  thus ?case using PList(1) [of h'] PList(2) [of t'] PList(3,4) u by simp
next
  case (PAtom s)
  thus ?case by (cases u) auto
qed ((case_tac u; simp add: vals_sgn sgn_if split: if_split_asm), (case_tac u; simp add: vals_sgn sgn_if split: if_split_asm), simp)

definition trans_from :: "bool \<Rightarrow> bool \<Rightarrow> pterm \<Rightarrow> bool" where
  "trans_from bigs arrays x \<longleftrightarrow> plain bigs arrays x \<and> (\<forall>y z. plain bigs arrays y \<longrightarrow> plain bigs arrays z \<longrightarrow>
     bp_compare x y \<le> 0 \<longrightarrow> bp_compare y z \<le> 0 \<longrightarrow> bp_compare x z \<le> 0)"

lemma trans_fromD:
  assumes "trans_from bigs arrays x" "plain bigs arrays y" "plain bigs arrays z"
    "bp_compare x y \<le> 0" "bp_compare y z \<le> 0"
  shows "bp_compare x z < 0 \<or> x = y \<and> y = z"
proof (cases "bp_compare x z = 0")
  case True
  have x: "plain bigs arrays x" using assms(1) by (simp add: trans_from_def)
  have "x = z" using compare_eq [OF x assms(3) True] .
  hence "bp_compare x y = 0" using assms(4,5) compare_anti [OF x assms(2)] by simp
  thus ?thesis using compare_eq [OF x assms(2)] \<open>x = z\<close> by simp
next
  case False
  have "bp_compare x z \<le> 0" using assms unfolding trans_from_def by blast
  thus ?thesis using False by simp
qed

lemma lex_args_trans:
  "\<lbrakk> \<forall>x\<in>set xs. trans_from bigs arrays x; \<forall>y\<in>set ys. plain bigs arrays y; \<forall>z\<in>set zs. plain bigs arrays z;
     lex_args xs ys \<le> 0; lex_args ys zs \<le> 0 \<rbrakk> \<Longrightarrow> lex_args xs zs \<le> 0"
proof (induction xs arbitrary: ys zs)
  case Nil
  show ?case by simp
next
  case (Cons x xs)
  obtain y ys' where ys: "ys = y # ys'" using Cons.prems(4) by (cases ys) auto
  obtain z zs' where zs: "zs = z # zs'" using Cons.prems(5) ys by (cases zs) auto
  have le: "bp_compare x y \<le> 0" "bp_compare y z \<le> 0"
    using Cons.prems(4,5) by (auto simp: ys zs split: if_split_asm)
  have pl: "trans_from bigs arrays x" "plain bigs arrays y" "plain bigs arrays z"
    using Cons.prems(1-3) by (auto simp: ys zs)
  consider "bp_compare x z < 0" | "x = y" "y = z" using trans_fromD [OF pl le] by blast
  thus ?case
  proof cases
    case 1
    thus ?thesis by (simp add: zs)
  next
    case 2
    have "bp_compare z z = 0" using compare_anti [OF pl(3) pl(3)] by simp
    hence "lex_args xs ys' \<le> 0" "lex_args ys' zs' \<le> 0" using Cons.prems(4,5) 2 by (auto simp: ys zs)
    hence "lex_args xs zs' \<le> 0" using Cons.IH [of ys' zs'] Cons.prems(1-3) by (simp add: ys zs)
    thus ?thesis using 2 \<open>bp_compare z z = 0\<close> by (simp add: zs)
  qed
qed

lemma rank_mono: "plain bigs arrays t \<Longrightarrow> plain bigs arrays u \<Longrightarrow> bp_compare t u \<le> 0 \<Longrightarrow> rank t \<le> rank u"
  using compare_ranks(2) [of bigs arrays u t] by fastforce

lemma same_rank_trans:
  assumes p: "plain bigs arrays t" "plain bigs arrays u" "plain bigs arrays v"
    and le: "bp_compare t u \<le> 0" "bp_compare u v \<le> 0"
    and same: "rank t = rank u \<Longrightarrow> rank u = rank v \<Longrightarrow> bp_compare t v \<le> 0"
  shows "bp_compare t v \<le> 0"
proof (cases "rank t < rank v")
  case True
  thus ?thesis using compare_ranks(1) [OF p(1,3)] by simp
next
  case False
  thus ?thesis using same rank_mono [OF p(1,2) le(1)] rank_mono [OF p(2,3) le(2)] by simp
qed

lemma trans_fromI:
  assumes "plain bigs arrays t"
    and "\<And>u v. \<lbrakk> plain bigs arrays u; plain bigs arrays v; bp_compare t u \<le> 0; bp_compare u v \<le> 0;
      rank u = rank t; rank v = rank t \<rbrakk> \<Longrightarrow> bp_compare t v \<le> 0"
  shows "trans_from bigs arrays t"
  unfolding trans_from_def
proof (intro conjI allI impI)
  fix u v
  assume uv: "plain bigs arrays u" "plain bigs arrays v" "bp_compare t u \<le> 0" "bp_compare u v \<le> 0"
  show "bp_compare t v \<le> 0" by (rule same_rank_trans [OF assms(1) uv]) (rule assms(2) [OF uv]; simp)
qed (rule assms(1))

lemma compare_trans_from: "plain bigs arrays t \<Longrightarrow> trans_from bigs arrays t"
proof (induction t)
  case (PStr f xs)
  show ?case
  proof (rule trans_fromI [OF PStr(2)])
    fix u v
    assume p: "plain bigs arrays u" "plain bigs arrays v" and le: "bp_compare (PStr f xs) u \<le> 0" "bp_compare u v \<le> 0"
      and r: "rank u = rank (PStr f xs)" "rank v = rank (PStr f xs)"
    obtain g ys where u: "u = PStr g ys" using r by (cases u) auto
    obtain h zs where v: "v = PStr h zs" using r by (cases v) auto
    have xs: "\<forall>x\<in>set xs. trans_from bigs arrays x" using PStr(1,2) by simp
    have ys: "\<forall>y\<in>set ys. plain bigs arrays y" and zs: "\<forall>y\<in>set zs. plain bigs arrays y" using p u v by simp_all
    note c = compare_structures [OF PStr(2) p(1) [unfolded u]] compare_structures [OF PStr(2) p(2) [unfolded v]]
      compare_structures [OF p(1) [unfolded u] p(2) [unfolded v]]
    have tr: "lex_args xs ys \<le> 0 \<Longrightarrow> lex_args ys zs \<le> 0 \<Longrightarrow> lex_args xs zs \<le> 0"
      by (rule lex_args_trans [OF xs ys zs])
    show "bp_compare (PStr f xs) v \<le> 0"
    proof (cases arrays)
      case True
      thus ?thesis using tr le unfolding u v c by simp
    next
      case False
      consider "length xs < length zs" | "length xs = length ys" "length ys = length zs"
        using le False unfolding u v c by (auto simp: sgn_if split: if_split_asm)
      thus ?thesis
      proof cases
        case 1
        thus ?thesis using False unfolding v c by simp
      next
        case 2
        have st: "strcmp f g \<le> 0" "strcmp g h \<le> 0" using le False 2 unfolding u v c by (auto split: if_split_asm)
        show ?thesis
        proof (cases "f = h")
          case False
          thus ?thesis using strcmp_trans [OF st] \<open>\<not> arrays\<close> 2 unfolding v c by simp
        next
          case True
          hence "strcmp f g = 0" using st strcmp_anti [of g f] by simp
          thus ?thesis using le \<open>\<not> arrays\<close> 2 tr True unfolding u v c by simp
        qed
      qed
    qed
  qed
next
  case (PInt i)
  show ?case
    by (rule trans_fromI [OF PInt])
      (use PInt in \<open>auto simp: compare_numbers sgn_if simp del: bp_compare.simps split: if_split_asm\<close>)
next
  case (PBig b)
  show ?case
    by (rule trans_fromI [OF PBig])
      (use PBig in \<open>auto simp: compare_numbers sgn_if simp del: bp_compare.simps split: if_split_asm\<close>)
next
  case (PList h t)
  have ih: "trans_from bigs arrays h" "trans_from bigs arrays t" using PList by auto
  show ?case
  proof (rule trans_fromI [OF PList(3)])
    fix u v
    assume p: "plain bigs arrays u" "plain bigs arrays v" and le: "bp_compare (PList h t) u \<le> 0" "bp_compare u v \<le> 0"
      and r: "rank u = rank (PList h t)" "rank v = rank (PList h t)"
    obtain h' t' where u: "u = PList h' t'" using r by (cases u) auto
    obtain h'' t'' where v: "v = PList h'' t''" using r by (cases v) auto
    have eq: "bp_compare (PList a b) (PList c d) = lex_args [a, b] [c, d]" for a b c d
      by (simp add: Let_def)
    show "bp_compare (PList h t) v \<le> 0"
      unfolding v eq by (rule lex_args_trans [of _ bigs arrays "[h', t']"]) (use ih p le in \<open>auto simp: u v eq\<close>)
  qed
next
  case (PAtom s)
  show ?case
  proof (rule trans_fromI [OF PAtom])
    fix u v
    assume "bp_compare (PAtom s) u \<le> 0" "bp_compare u v \<le> 0" "rank u = rank (PAtom s)" "rank v = rank (PAtom s)"
    thus "bp_compare (PAtom s) v \<le> 0" using strcmp_trans [of s] by (cases u; cases v) auto
  qed
next
  case (PRef a)
  show ?case
  proof (rule trans_fromI [OF PRef])
    fix u v
    assume "bp_compare (PRef a) u \<le> 0" "bp_compare u v \<le> 0" "rank u = rank (PRef a)" "rank v = rank (PRef a)"
    thus "bp_compare (PRef a) v \<le> 0" by (cases u; cases v) (auto simp: vals_sgn sgn_if split: if_split_asm)
  qed
next
  case (PSusp a)
  show ?case
  proof (rule trans_fromI [OF PSusp])
    fix u v
    assume "bp_compare (PSusp a) u \<le> 0" "bp_compare u v \<le> 0" "rank u = rank (PSusp a)" "rank v = rank (PSusp a)"
    thus "bp_compare (PSusp a) v \<le> 0" by (cases u; cases v) (auto simp: vals_sgn sgn_if split: if_split_asm)
  qed
qed simp

lemma compare_trans:
  "plain bigs arrays t \<Longrightarrow> plain bigs arrays u \<Longrightarrow> plain bigs arrays v \<Longrightarrow>
   bp_compare t u \<le> 0 \<Longrightarrow> bp_compare u v \<le> 0 \<Longrightarrow> bp_compare t v \<le> 0"
  using compare_trans_from unfolding trans_from_def by blast

section \<open>The order, as an interface\<close>

definition term_gt :: "pterm \<Rightarrow> pterm \<Rightarrow> bool" where
  "term_gt t u \<longleftrightarrow> bp_compare t u > 0"

text \<open>Where it is not an order: a big integer and a structure of arity one, and a cycle of arrays and structures.\<close>

lemma anomalies:
  "num_ok (MAKEBIG b) \<Longrightarrow> bp_compare (PStr f [t]) (PBig b) = - 1 \<and> bp_compare (PBig b) (PStr f [t]) = - 1"
  "bp_compare (PSusp a) (PFloat d) = - 1 \<and> bp_compare (PFloat d) (PSusp a) = - 1"
  "bp_compare (PStr array_sym [PInt 9]) (PStr ''f'' [PInt 0, PInt 0]) = - 1 \<and>
   bp_compare (PStr ''f'' [PInt 0, PInt 0]) (PStr array_sym [PInt 1, PInt 2, PInt 3]) = - 1 \<and>
   bp_compare (PStr array_sym [PInt 1, PInt 2, PInt 3]) (PStr array_sym [PInt 9]) = - 1"
  by (simp_all add: BP_COMPARE_VALS_def compare_float_unknown_def Let_def)

end
