(* ===== verification/Term_Sort.thy ===== *)
theory Term_Sort
  imports Qsort Term_Order
begin

text \<open>
  The built-ins of \<open>emu/mic.c\<close> that sort a list or insert into a sorted one. The words of a list are
  values of type \<open>'w\<close>, and \<open>val w\<close> is the term below the word \<open>w\<close>; two words may stand for the same
  term. A list is the words of its elements with the term at its end, which is \<open>[]\<close> for a proper
  list. The built-ins end with a unification of their last argument with the list they return here.

  \<open>cells\<close> is the number of free cells between the heap and the local stack. The last third of them,
  from \<open>arr\<close> to \<open>local_top\<close>, receives the elements; the first two thirds receive the result.
\<close>

section \<open>Lists\<close>

type_synonym 'w cons_cells = "'w list \<times> pterm"

datatype 'w list_exception = et_INSTANTIATION_ERROR | et_LIST "'w cons_cells"

definition not_a_list :: "'w cons_cells \<Rightarrow> 'w list_exception" where
  "not_a_list lst = (case snd lst of PRef a \<Rightarrow> et_INSTANTIATION_ERROR | _ \<Rightarrow> et_LIST lst)"

section \<open>Scanning\<close>

datatype 'w scan_status = BP_ASORTED | BP_DSORTED | BP_NOT_SORTED | SCAN_FALSE | SCAN_ERROR "'w list_exception"

definition scan_end :: "bool \<Rightarrow> bool \<Rightarrow> 'w cons_cells \<Rightarrow> 'w scan_status" where
  "scan_end asorted dsorted lst =
     (if snd lst \<noteq> nil_sym then SCAN_ERROR (not_a_list lst)
      else if asorted then BP_ASORTED
      else if dsorted then BP_DSORTED
      else BP_NOT_SORTED)"

text \<open>The loops; \<open>arr\<close> holds the cells written so far.\<close>

fun int_scan :: "('w \<Rightarrow> pterm) \<Rightarrow> nat \<Rightarrow> 'w cons_cells \<Rightarrow> int \<Rightarrow> bool \<Rightarrow> bool \<Rightarrow> int list \<Rightarrow> 'w list \<Rightarrow>
    'w scan_status \<times> int list" where
  "int_scan val cap lst pre asorted dsorted arr [] = (scan_end asorted dsorted lst, arr)"
| "int_scan val cap lst pre asorted dsorted arr (w # ws) = (case val w of
       PInt elm \<Rightarrow>
         (if length arr \<ge> cap then (SCAN_FALSE, arr @ [elm])
          else int_scan val cap lst elm (asorted \<and> \<not> pre > elm) (dsorted \<and> \<not> pre < elm) (arr @ [elm]) ws)
     | _ \<Rightarrow> (SCAN_FALSE, arr))"

definition bp_already_sorted_int_list :: "('w \<Rightarrow> pterm) \<Rightarrow> nat \<Rightarrow> 'w cons_cells \<Rightarrow> 'w scan_status \<times> int list" where
  "bp_already_sorted_int_list val cap lst = (case fst lst of
       [] \<Rightarrow> (scan_end True True lst, [])
     | w # ws \<Rightarrow> (case val w of
           PInt pre \<Rightarrow> int_scan val cap lst pre True True [pre] ws
         | _ \<Rightarrow> (SCAN_FALSE, [])))"

fun term_scan :: "('w \<Rightarrow> pterm) \<Rightarrow> nat \<Rightarrow> 'w cons_cells \<Rightarrow> 'w \<Rightarrow> bool \<Rightarrow> bool \<Rightarrow> 'w list \<Rightarrow> 'w list \<Rightarrow>
    'w scan_status \<times> 'w list" where
  "term_scan val cap lst pre asorted dsorted arr [] = (scan_end asorted dsorted lst, arr)"
| "term_scan val cap lst pre asorted dsorted arr (elm # ws) =
     (let res = bp_compare (val pre) (val elm);
          arr = arr @ [elm]
      in if length arr \<ge> cap then (SCAN_FALSE, arr)
         else term_scan val cap lst elm (asorted \<and> \<not> res > 0) (dsorted \<and> (res > 0 \<or> \<not> res < 0)) arr ws)"

definition bp_already_sorted_term_list :: "('w \<Rightarrow> pterm) \<Rightarrow> nat \<Rightarrow> 'w cons_cells \<Rightarrow> 'w scan_status \<times> 'w list" where
  "bp_already_sorted_term_list val cap lst = (case fst lst of
       [] \<Rightarrow> (scan_end True True lst, [])
     | pre # ws \<Rightarrow> term_scan val cap lst pre True True [pre] ws)"

section \<open>Sorting\<close>

definition qsort_term_array :: "('w \<Rightarrow> pterm) \<Rightarrow> 'w list \<Rightarrow> 'w list option" where
  "qsort_term_array val arr =
     qsort_loop (\<lambda>x piv. bp_compare (val x) (val piv) > 0) (=) [(0, int (length arr))] arr"

fun bp_reverse_list :: "'w list \<Rightarrow> 'w list \<Rightarrow> 'w list" where
  "bp_reverse_list [] rev_lst = rev_lst"
| "bp_reverse_list (elm # lst) rev_lst = bp_reverse_list lst (elm # rev_lst)"

text \<open>
  What the third argument is unified with: the given list itself or a list of words, or a list of
  integers. \<open>STUCK\<close> stands for a sort that leaves its array or its stack; it is never the result.
\<close>

datatype 'w sort_result =
    UNIFY "'w cons_cells"
  | UNIFY_INTS "int list"
  | SORT_FALSE
  | SORT_ERROR "'w list_exception"
  | STUCK

definition b_sort_int_list :: "('w \<Rightarrow> pterm) \<Rightarrow> nat \<Rightarrow> 'w cons_cells \<Rightarrow> 'w sort_result" where
  "b_sort_int_list val cells lst = (case bp_already_sorted_int_list val (cells div 3) lst of
       (BP_ASORTED, arr) \<Rightarrow> UNIFY lst
     | (BP_DSORTED, arr) \<Rightarrow>
         (if cells \<le> 2 * length arr then SORT_FALSE else UNIFY (bp_reverse_list (fst lst) [], nil_sym))
     | (SCAN_ERROR e, arr) \<Rightarrow> SORT_ERROR e
     | (SCAN_FALSE, arr) \<Rightarrow> SORT_FALSE
     | (BP_NOT_SORTED, arr) \<Rightarrow> (case qsort_int_array arr of None \<Rightarrow> STUCK | Some arr \<Rightarrow> UNIFY_INTS arr))"

definition c_sort_term_list :: "('w \<Rightarrow> pterm) \<Rightarrow> nat \<Rightarrow> 'w cons_cells \<Rightarrow> 'w sort_result" where
  "c_sort_term_list val cells lst = (case bp_already_sorted_term_list val (cells div 3) lst of
       (BP_ASORTED, arr) \<Rightarrow> UNIFY lst
     | (BP_DSORTED, arr) \<Rightarrow> UNIFY (bp_reverse_list (fst lst) [], nil_sym)
     | (SCAN_ERROR e, arr) \<Rightarrow> SORT_ERROR e
     | (SCAN_FALSE, arr) \<Rightarrow> SORT_FALSE
     | (BP_NOT_SORTED, arr) \<Rightarrow> (case qsort_term_array val arr of None \<Rightarrow> STUCK | Some arr \<Rightarrow> UNIFY (arr, nil_sym)))"

section \<open>Inserting into a sorted list\<close>

text \<open>
  The loop that copies the elements before the place of \<open>t\<close>: it ends at an element whose comparison
  with \<open>t\<close> is one of \<open>stop\<close>, or at the end. The result is the copied words and the rest.
\<close>

fun copy_until :: "('w \<Rightarrow> pterm) \<Rightarrow> (int \<Rightarrow> bool) \<Rightarrow> 'w \<Rightarrow> 'w list \<Rightarrow> 'w list \<times> 'w list" where
  "copy_until val stop t [] = ([], [])"
| "copy_until val stop t (t1 # lst) =
     (if stop (bp_compare (val t) (val t1)) then ([], t1 # lst)
      else let (copied, rest) = copy_until val stop t lst in (t1 # copied, rest))"

definition insert_before :: "('w \<Rightarrow> pterm) \<Rightarrow> (int \<Rightarrow> bool) \<Rightarrow> 'w cons_cells \<Rightarrow> 'w \<Rightarrow> pterm + 'w cons_cells" where
  "insert_before val stop lst t =
     (let (copied, rest) = copy_until val stop t (fst lst)
      in if rest = [] \<and> snd lst \<noteq> nil_sym then Inl (snd lst) else Inr (copied @ t # rest, snd lst))"

definition insert_no_dup :: "('w \<Rightarrow> pterm) \<Rightarrow> (int \<Rightarrow> bool) \<Rightarrow> 'w cons_cells \<Rightarrow> 'w \<Rightarrow> pterm + 'w cons_cells" where
  "insert_no_dup val stop lst t =
     (let (copied, rest) = copy_until val (\<lambda>res. stop res \<or> res = 0) t (fst lst)
      in case rest of
           t1 # _ \<Rightarrow> (if \<not> stop (bp_compare (val t) (val t1)) then Inr lst else Inr (copied @ t # rest, snd lst))
         | [] \<Rightarrow> (if snd lst \<noteq> nil_sym then Inl (snd lst) else Inr (copied @ [t], snd lst)))"

definition b_INSERT_ORDERED_ccf :: "('w \<Rightarrow> pterm) \<Rightarrow> 'w cons_cells \<Rightarrow> 'w \<Rightarrow> pterm + 'w cons_cells" where
  "b_INSERT_ORDERED_ccf val = insert_before val (\<lambda>res. res \<le> 0)"

definition b_INSERT_ORDERED_DOWN_ccf :: "('w \<Rightarrow> pterm) \<Rightarrow> 'w cons_cells \<Rightarrow> 'w \<Rightarrow> pterm + 'w cons_cells" where
  "b_INSERT_ORDERED_DOWN_ccf val = insert_before val (\<lambda>res. res \<ge> 0)"

definition b_INSERT_STATE_LIST_ccf :: "('w \<Rightarrow> pterm) \<Rightarrow> 'w cons_cells \<Rightarrow> 'w \<Rightarrow> pterm + 'w cons_cells" where
  "b_INSERT_STATE_LIST_ccf val = insert_before val (\<lambda>res. res \<le> 0)"

definition b_INSERT_ORDERED_NO_DUP_ccf :: "('w \<Rightarrow> pterm) \<Rightarrow> 'w cons_cells \<Rightarrow> 'w \<Rightarrow> pterm + 'w cons_cells" where
  "b_INSERT_ORDERED_NO_DUP_ccf val = insert_no_dup val (\<lambda>res. res < 0)"

definition b_INSERT_ORDERED_DOWN_NO_DUP_ccf :: "('w \<Rightarrow> pterm) \<Rightarrow> 'w cons_cells \<Rightarrow> 'w \<Rightarrow> pterm + 'w cons_cells" where
  "b_INSERT_ORDERED_DOWN_NO_DUP_ccf val = insert_no_dup val (\<lambda>res. res > 0)"

section \<open>Scanning, proved\<close>

interpretation term_lists: comparator "\<lambda>x y. bp_compare (val x) (val y) > 0" "(=)" "{w. plain bigs arrays (val w)}"
  for val :: "'w \<Rightarrow> pterm" and bigs arrays
proof
  fix x y z
  assume "x \<in> {w. plain bigs arrays (val w)}" "y \<in> {w. plain bigs arrays (val w)}" "z \<in> {w. plain bigs arrays (val w)}"
    "\<not> bp_compare (val x) (val y) > 0" "\<not> bp_compare (val y) (val z) > 0"
  thus "\<not> bp_compare (val x) (val z) > 0" using compare_trans [of bigs arrays "val x" "val y" "val z"] by simp
next
  fix x y
  assume "x \<in> {w. plain bigs arrays (val w)}" "y \<in> {w. plain bigs arrays (val w)}" "bp_compare (val x) (val y) > 0"
  thus "\<not> bp_compare (val y) (val x) > 0" using compare_anti [of bigs arrays "val x" "val y"] by simp
qed simp

definition sorted_terms :: "('w \<Rightarrow> pterm) \<Rightarrow> 'w list \<Rightarrow> bool" where
  "sorted_terms val = sorted_wrt (\<lambda>x y. \<not> bp_compare (val x) (val y) > 0)"

lemma int_scan_ints:
  assumes "\<forall>w\<in>set ws. \<exists>i. val w = PInt i"
  shows "int_scan val cap lst pre asorted dsorted arr ws =
    (if length arr + length ws > cap \<and> ws \<noteq> []
     then (SCAN_FALSE, arr @ map (\<lambda>w. int_value (val w)) (take (Suc (cap - length arr)) ws))
     else (scan_end (asorted \<and> successively (\<le>) (pre # map (\<lambda>w. int_value (val w)) ws))
             (dsorted \<and> successively (\<ge>) (pre # map (\<lambda>w. int_value (val w)) ws)) lst,
           arr @ map (\<lambda>w. int_value (val w)) ws))"
  using assms
proof (induction ws arbitrary: pre asorted dsorted arr)
  case (Cons w ws)
  then obtain elm where w: "val w = PInt elm" by auto
  show ?case
  proof (cases "cap \<le> length arr")
    case True
    thus ?thesis by (simp add: w)
  next
    case False
    thus ?thesis using Cons by (cases ws) (auto simp: w Suc_diff_Suc not_less not_le conj_assoc)
  qed
qed simp

lemma term_scan_terms:
  "term_scan val cap lst pre asorted dsorted arr ws =
    (if length arr + length ws \<ge> cap \<and> ws \<noteq> []
     then (SCAN_FALSE, arr @ take (max 1 (cap - length arr)) ws)
     else (scan_end (asorted \<and> successively (\<lambda>x y. \<not> bp_compare (val x) (val y) > 0) (pre # ws))
             (dsorted \<and> successively (\<lambda>x y. \<not> bp_compare (val x) (val y) < 0) (pre # ws)) lst,
           arr @ ws))"
proof (induction ws arbitrary: pre asorted dsorted arr)
  case (Cons w ws)
  have step: "0 < r \<or> \<not> r < 0 \<longleftrightarrow> \<not> r < 0" for r :: int by auto
  show ?case
  proof (cases "cap \<le> Suc (length arr)")
    case True
    hence "max 1 (cap - length arr) = 1" by simp
    thus ?thesis using True by (simp add: Let_def)
  next
    case False
    hence "max 1 (cap - length arr) = Suc (max 1 (cap - Suc (length arr)))" by simp
    thus ?thesis using False Cons [of w _ _ "arr @ [w]"] by (cases ws) (auto simp: Let_def step)
  qed
qed simp

lemma scan_status_cases [simp]:
  "snd lst = nil_sym \<Longrightarrow> scan_end asorted dsorted lst =
     (if asorted then BP_ASORTED else if dsorted then BP_DSORTED else BP_NOT_SORTED)"
  "snd lst \<noteq> nil_sym \<Longrightarrow> scan_end asorted dsorted lst = SCAN_ERROR (not_a_list lst)"
  by (simp_all add: scan_end_def)

lemma reverse_list: "bp_reverse_list xs acc = rev xs @ acc"
  by (induction xs arbitrary: acc) simp_all

lemma sorted_terms_successively:
  assumes "\<forall>w\<in>set ws. plain bigs arrays (val w)"
  shows "successively (\<lambda>x y. \<not> bp_compare (val x) (val y) > 0) ws \<longleftrightarrow> sorted_terms val ws"
    and "successively (\<lambda>x y. \<not> bp_compare (val x) (val y) < 0) ws \<longleftrightarrow> sorted_terms val (rev ws)"
proof -
  have neg: "bp_compare (val y) (val x) = - bp_compare (val x) (val y)" if "x \<in> set ws" "y \<in> set ws" for x y
    using compare_anti assms that by blast
  have tr: "\<not> bp_compare (val x) (val z) > 0"
    if "\<not> bp_compare (val x) (val y) > 0" "\<not> bp_compare (val y) (val z) > 0" "x \<in> set ws" "y \<in> set ws" "z \<in> set ws" for x y z
    using compare_trans [of bigs arrays "val x" "val y" "val z"] that assms by auto
  show "successively (\<lambda>x y. \<not> bp_compare (val x) (val y) > 0) ws \<longleftrightarrow> sorted_terms val ws"
    unfolding sorted_terms_def by (rule successively_iff_sorted_wrt_strong) (use tr in blast)
  have "successively (\<lambda>x y. \<not> bp_compare (val x) (val y) < 0) ws \<longleftrightarrow>
      sorted_wrt (\<lambda>x y. \<not> bp_compare (val x) (val y) < 0) ws"
  proof (rule successively_iff_sorted_wrt_strong)
    fix x y z
    assume "x \<in> set ws" "y \<in> set ws" "z \<in> set ws"
      "\<not> bp_compare (val x) (val y) < 0" "\<not> bp_compare (val y) (val z) < 0"
    thus "\<not> bp_compare (val x) (val z) < 0" using tr [of z y x] neg [of x y] neg [of y z] neg [of x z] by simp
  qed
  also have "\<dots> \<longleftrightarrow> sorted_wrt (\<lambda>x y. \<not> bp_compare (val y) (val x) > 0) ws"
  proof -
    have eq: "bp_compare (val x) (val y) < 0 \<longleftrightarrow> bp_compare (val y) (val x) > 0" if "x \<in> set ws" "y \<in> set ws" for x y
      using neg [OF that] by linarith
    show ?thesis by (intro iffI; erule sorted_wrt_mono_rel [rotated]; simp add: eq)
  qed
  finally show "successively (\<lambda>x y. \<not> bp_compare (val x) (val y) < 0) ws \<longleftrightarrow> sorted_terms val (rev ws)"
    by (simp add: sorted_terms_def sorted_wrt_rev)
qed

lemma qsort_terms:
  assumes "\<forall>w\<in>set ws. plain bigs arrays (val w)" "length ws < 2 ^ 31"
  shows "\<exists>arr. qsort_term_array val ws = Some arr \<and> mset arr = mset ws \<and> sorted_terms val arr"
proof -
  have "(2::nat) ^ 31 \<le> 2 ^ (MAX_LEVELS - 1)" by (rule power_increasing) (simp_all add: MAX_LEVELS_def)
  moreover have "set ws \<subseteq> {w. plain bigs arrays (val w)}" using assms(1) by auto
  ultimately show ?thesis
    using term_lists.qsort_sorts [where arr = ws and bigs = bigs and arrays = arrays and val = val] assms(2)
    by (auto simp: qsort_term_array_def sorted_terms_def)
qed

section \<open>The built-ins, proved\<close>

definition int_list_of :: "('w \<Rightarrow> pterm) \<Rightarrow> 'w sort_result \<Rightarrow> int list option" where
  "int_list_of val r = (case r of
       UNIFY (ws, t) \<Rightarrow> (if t = nil_sym then Some (map (\<lambda>w. int_value (val w)) ws) else None)
     | UNIFY_INTS xs \<Rightarrow> Some xs
     | _ \<Rightarrow> None)"

lemma sort_rev: "sorted (rev xs) \<Longrightarrow> sort xs = rev (xs :: int list)"
  using properties_for_sort [of "rev xs" xs] by simp

lemma successively_ints:
  "successively (\<le>) (xs :: int list) = sorted xs" "successively (\<ge>) (xs :: int list) = sorted (rev xs)"
proof -
  show "successively (\<le>) xs = sorted xs"
    by (rule successively_iff_sorted_wrt_strong) auto
  have "successively (\<ge>) xs = sorted_wrt (\<ge>) xs"
    by (rule successively_iff_sorted_wrt_strong) auto
  thus "successively (\<ge>) xs = sorted (rev xs)" by (simp add: sorted_wrt_rev)
qed

lemma sort_int_list:
  assumes ints: "\<forall>w\<in>set ws. \<exists>i. val w = PInt i" and cells: "cells < 2 ^ 31"
  shows "int_list_of val (b_sort_int_list val cells (ws, nil_sym)) =
    (if length ws \<le> 1 \<or> length ws \<le> cells div 3 then Some (sort (map (\<lambda>w. int_value (val w)) ws)) else None)"
proof (cases ws)
  case Nil
  thus ?thesis by (simp add: b_sort_int_list_def bp_already_sorted_int_list_def int_list_of_def)
next
  case (Cons w ws')
  then obtain i where w: "val w = PInt i" using ints by auto
  have ints': "\<forall>w\<in>set ws'. \<exists>i. val w = PInt i" using ints Cons by simp
  let ?is = "map (\<lambda>w. int_value (val w)) ws"
  have iv: "int_value (val w) = i" by (simp add: w)
  have vals: "?is = i # map (\<lambda>w. int_value (val w)) ws'" by (simp add: Cons iv)
  have start: "bp_already_sorted_int_list val (cells div 3) (ws, nil_sym) =
    int_scan val (cells div 3) (ws, nil_sym) i True True [i] ws'"
    by (simp add: bp_already_sorted_int_list_def Cons w)
  have sizes: "length ws = Suc (length ws')" "length ws > 1 \<longleftrightarrow> ws' \<noteq> []" using Cons by auto
  have scan: "bp_already_sorted_int_list val (cells div 3) (ws, nil_sym) =
    (if length ws > cells div 3 \<and> length ws > 1
     then (SCAN_FALSE, [i] @ map (\<lambda>w. int_value (val w)) (take (Suc (cells div 3 - 1)) ws'))
     else (if sorted ?is then BP_ASORTED else if sorted (rev ?is) then BP_DSORTED else BP_NOT_SORTED, ?is))"
    unfolding start using sizes
    by (simp add: int_scan_ints [OF ints'] successively_ints vals [symmetric] del: successively.simps)
  consider "length ws > cells div 3" "length ws > 1" | "length ws \<le> 1" | "length ws \<le> cells div 3" by linarith
  thus ?thesis
  proof cases
    case 1
    thus ?thesis by (simp add: b_sort_int_list_def scan int_list_of_def)
  next
    case 2
    hence one: "ws = [w]" using Cons by simp
    show ?thesis using scan unfolding one by (simp add: b_sort_int_list_def int_list_of_def)
  next
    case 3
    have "\<not> cells \<le> 2 * length ws" "length ws < 2 ^ 31" using 3 Cons cells by (auto simp: div_le_dividend)
    moreover have "map (\<lambda>w. int_value (val w)) (rev ws) = rev ?is" by (simp add: rev_map)
    ultimately show ?thesis
      using 3 qsort_int_array_sorts [of ?is] sort_rev [of ?is]
      by (auto simp: b_sort_int_list_def scan int_list_of_def reverse_list sorted_sort_id)
  qed
qed

lemma sort_term_list:
  assumes plain: "\<forall>w\<in>set ws. plain bigs arrays (val w)" and cells: "cells < 2 ^ 31"
  shows "if length ws \<le> 1 \<or> length ws < cells div 3
    then \<exists>zs. c_sort_term_list val cells (ws, nil_sym) = UNIFY (zs, nil_sym) \<and> mset zs = mset ws \<and> sorted_terms val zs
    else c_sort_term_list val cells (ws, nil_sym) = SORT_FALSE"
proof (cases ws)
  case Nil
  thus ?thesis
    by (simp add: c_sort_term_list_def bp_already_sorted_term_list_def sorted_terms_def)
next
  case (Cons w ws')
  have start: "bp_already_sorted_term_list val (cells div 3) (ws, nil_sym) =
    term_scan val (cells div 3) (ws, nil_sym) w True True [w] ws'"
    by (simp add: bp_already_sorted_term_list_def Cons)
  have sizes: "length ws = Suc (length ws')" "length ws > 1 \<longleftrightarrow> ws' \<noteq> []" using Cons by auto
  have scan: "bp_already_sorted_term_list val (cells div 3) (ws, nil_sym) =
    (if length ws \<ge> cells div 3 \<and> length ws > 1
     then (SCAN_FALSE, [w] @ take (max 1 (cells div 3 - 1)) ws')
     else (if sorted_terms val ws then BP_ASORTED else if sorted_terms val (rev ws) then BP_DSORTED else BP_NOT_SORTED, ws))"
    unfolding start using sizes by (simp add: term_scan_terms sorted_terms_successively [OF plain] Cons [symmetric] del: successively.simps)
  show ?thesis
  proof (cases "length ws \<le> 1 \<or> length ws < cells div 3")
    case False
    thus ?thesis by (simp add: c_sort_term_list_def scan)
  next
    case True
    have "length ws < 2 ^ 31" using True cells by auto
    then obtain arr where "qsort_term_array val ws = Some arr" "mset arr = mset ws" "sorted_terms val arr"
      using qsort_terms [OF plain] by blast
    thus ?thesis using True by (auto simp: c_sort_term_list_def scan reverse_list)
  qed
qed

lemma copy_until_split:
  "copy_until val stop t ws = (copied, rest) \<Longrightarrow> ws = copied @ rest \<and>
     (\<forall>w\<in>set copied. \<not> stop (bp_compare (val t) (val w))) \<and> (rest \<noteq> [] \<longrightarrow> stop (bp_compare (val t) (val (hd rest))))"
  by (induction ws arbitrary: copied) (auto split: if_split_asm prod.splits)

text \<open>Both directions at once: \<open>s\<close> is 1 for an ascending list and \<open>-1\<close> for a descending one.\<close>

definition sorted_dir :: "int \<Rightarrow> ('w \<Rightarrow> pterm) \<Rightarrow> 'w list \<Rightarrow> bool" where
  "sorted_dir s val = sorted_wrt (\<lambda>x y. s * bp_compare (val x) (val y) \<le> 0)"

lemma dir_trans:
  assumes "s = 1 \<or> s = - 1" "plain bigs arrays x" "plain bigs arrays y" "plain bigs arrays z"
    "s * bp_compare x y \<le> 0" "s * bp_compare y z \<le> 0"
  shows "s * bp_compare x z \<le> 0"
  using assms compare_trans [of bigs arrays x y z] compare_trans [of bigs arrays z y x]
    compare_anti [of bigs arrays x y] compare_anti [of bigs arrays y z] compare_anti [of bigs arrays x z] by auto

lemma insert_sorted:
  assumes s: "s = 1 \<or> s = - 1" and plain: "\<forall>w\<in>set (t # copied @ rest). plain bigs arrays (val w)"
    and sorted: "sorted_dir s val (copied @ rest)"
    and before: "\<forall>w\<in>set copied. s * bp_compare (val t) (val w) \<ge> 0"
    and after: "rest \<noteq> [] \<longrightarrow> s * bp_compare (val t) (val (hd rest)) \<le> 0"
  shows "sorted_dir s val (copied @ t # rest)"
proof -
  have "s * bp_compare (val w) (val t) \<le> 0" if "w \<in> set copied" for w
  proof -
    have "bp_compare (val w) (val t) = - bp_compare (val t) (val w)" using compare_anti that plain by auto
    thus ?thesis using before that by simp
  qed
  moreover have "s * bp_compare (val t) (val w) \<le> 0" if w: "w \<in> set rest" for w
  proof -
    obtain r rs where rest: "rest = r # rs" using w by (cases rest) auto
    have "r = w \<or> s * bp_compare (val r) (val w) \<le> 0"
      using sorted w by (auto simp: sorted_dir_def sorted_wrt_append rest)
    thus ?thesis using dir_trans [OF s, of bigs arrays "val t" "val r" "val w"] after plain w by (auto simp: rest)
  qed
  ultimately show ?thesis using sorted by (auto simp: sorted_dir_def sorted_wrt_append)
qed

lemma insert_before_sorted:
  assumes s: "s = 1 \<or> s = - 1" and plain: "\<forall>w\<in>set (t # ws). plain bigs arrays (val w)" and sorted: "sorted_dir s val ws"
  shows "\<exists>zs. insert_before val (\<lambda>res. s * res \<le> 0) (ws, nil_sym) t = Inr (zs, nil_sym) \<and>
    mset zs = add_mset t (mset ws) \<and> sorted_dir s val zs"
proof -
  obtain copied rest where c: "copy_until val (\<lambda>res. s * res \<le> 0) t ws = (copied, rest)" by fastforce
  have split: "ws = copied @ rest" "\<forall>w\<in>set copied. \<not> s * bp_compare (val t) (val w) \<le> 0"
    "rest \<noteq> [] \<longrightarrow> s * bp_compare (val t) (val (hd rest)) \<le> 0"
    using copy_until_split [OF c] by auto
  have "sorted_dir s val (copied @ t # rest)"
    by (rule insert_sorted [OF s _ _ _ split(3)]) (use plain sorted split(1,2) in auto)
  thus ?thesis using c split(1) by (intro exI [of _ "copied @ t # rest"]) (simp add: insert_before_def)
qed

lemma insert_no_dup_sorted:
  assumes s: "s = 1 \<or> s = - 1" and plain: "\<forall>w\<in>set (t # ws). plain bigs arrays (val w)" and sorted: "sorted_dir s val ws"
  shows "if val t \<in> val ` set ws then insert_no_dup val (\<lambda>res. s * res < 0) (ws, nil_sym) t = Inr (ws, nil_sym)
    else \<exists>zs. insert_no_dup val (\<lambda>res. s * res < 0) (ws, nil_sym) t = Inr (zs, nil_sym) \<and>
      mset zs = add_mset t (mset ws) \<and> sorted_dir s val zs"
proof -
  obtain copied rest where c: "copy_until val (\<lambda>res. s * res < 0 \<or> res = 0) t ws = (copied, rest)" by fastforce
  have split: "ws = copied @ rest" "\<forall>w\<in>set copied. \<not> (s * bp_compare (val t) (val w) < 0 \<or> bp_compare (val t) (val w) = 0)"
    "rest \<noteq> [] \<longrightarrow> s * bp_compare (val t) (val (hd rest)) < 0 \<or> bp_compare (val t) (val (hd rest)) = 0"
    using copy_until_split [OF c] by auto
  have ins: "sorted_dir s val (copied @ t # rest)"
    by (rule insert_sorted [OF s, of t copied rest bigs arrays]) (use plain sorted split s in auto)
  have eq: "bp_compare (val t) (val w) = 0 \<longleftrightarrow> val w = val t" if "w \<in> set ws" for w
  proof
    assume "bp_compare (val t) (val w) = 0"
    thus "val w = val t" using compare_eq [of bigs arrays "val t" "val w"] plain that by simp
  next
    assume "val w = val t"
    thus "bp_compare (val t) (val w) = 0" using compare_anti [of bigs arrays "val t" "val t"] plain by simp
  qed
  show ?thesis
  proof (cases "rest \<noteq> [] \<and> val (hd rest) = val t")
    case True
    then obtain t1 rs where rest: "rest = t1 # rs" "val t1 = val t" by (cases rest) auto
    hence "bp_compare (val t) (val t1) = 0" "val t \<in> val ` set ws" using eq [of t1] split(1) by auto
    thus ?thesis using c rest by (simp add: insert_no_dup_def)
  next
    case False
    have "val w \<noteq> val t" if w: "w \<in> set ws" for w
    proof
      assume same: "val w = val t"
      have "w \<notin> set copied" using split(2) eq [OF w] same by blast
      then obtain t1 rs where rest: "rest = t1 # rs" and w': "w \<in> set rest" using w split(1) by (cases rest) auto
      have t1: "t1 \<in> set ws" using split(1) rest by simp
      have "s * bp_compare (val t) (val t1) < 0" using split(3) False eq [OF t1] rest by auto
      moreover have "w = t1 \<or> s * bp_compare (val t1) (val w) \<le> 0"
        using sorted w' by (auto simp: sorted_dir_def sorted_wrt_append rest split(1))
      moreover have "bp_compare (val t1) (val t) = - bp_compare (val t) (val t1)"
        using compare_anti [of bigs arrays "val t" "val t1"] plain t1 by simp
      ultimately show False using same False rest by auto
    qed
    hence "val t \<notin> val ` set ws" by (metis imageE)
    moreover have "insert_no_dup val (\<lambda>res. s * res < 0) (ws, nil_sym) t = Inr (copied @ t # rest, nil_sym)"
    proof (cases rest)
      case Nil
      thus ?thesis using c by (simp add: insert_no_dup_def)
    next
      case (Cons t1 rs)
      have "t1 \<in> set ws" using split(1) Cons by simp
      hence "s * bp_compare (val t) (val t1) < 0" using split(3) False eq [of t1] Cons by auto
      thus ?thesis using c Cons by (simp add: insert_no_dup_def)
    qed
    ultimately show ?thesis using ins split(1) by simp
  qed
qed

lemma insert_directions:
  "b_INSERT_ORDERED_ccf val = insert_before val (\<lambda>res. 1 * res \<le> 0)"
  "b_INSERT_ORDERED_DOWN_ccf val = insert_before val (\<lambda>res. - 1 * res \<le> 0)"
  "b_INSERT_STATE_LIST_ccf val = insert_before val (\<lambda>res. 1 * res \<le> 0)"
  "b_INSERT_ORDERED_NO_DUP_ccf val = insert_no_dup val (\<lambda>res. 1 * res < 0)"
  "b_INSERT_ORDERED_DOWN_NO_DUP_ccf val = insert_no_dup val (\<lambda>res. - 1 * res < 0)"
  by (simp_all add: b_INSERT_ORDERED_ccf_def b_INSERT_ORDERED_DOWN_ccf_def b_INSERT_STATE_LIST_ccf_def
      b_INSERT_ORDERED_NO_DUP_ccf_def b_INSERT_ORDERED_DOWN_NO_DUP_ccf_def)

section \<open>Properties\<close>

lemma sorted_up: "sorted_dir 1 val ws \<longleftrightarrow> sorted_terms val ws"
  by (simp add: sorted_dir_def sorted_terms_def not_less)

lemma scan_cells:
  "length (snd (bp_already_sorted_int_list val cap lst)) \<le> max 2 (Suc cap)"
  "length (snd (bp_already_sorted_term_list val cap lst)) \<le> max 2 cap"
proof -
  have ints: "length (snd (int_scan val cap lst pre as ds arr ws)) \<le> max (Suc (length arr)) (Suc cap)" for pre as ds arr ws
  proof (induction ws arbitrary: pre as ds arr)
    case (Cons w ws)
    show ?case
    proof (cases "cap \<le> length arr")
      case True
      thus ?thesis by (simp split: pterm.split)
    next
      case False
      have "length (snd (int_scan val cap lst elm as ds (arr @ [elm]) ws)) \<le> Suc cap" for elm as ds
        using Cons [of elm as ds "arr @ [elm]"] False by simp
      thus ?thesis using False by (simp split: pterm.split)
    qed
  qed simp
  show "length (snd (bp_already_sorted_int_list val cap lst)) \<le> max 2 (Suc cap)"
  proof (cases "fst lst")
    case (Cons w ws)
    show ?thesis
      using ints [of _ True True "[i]" ws for i] by (simp add: bp_already_sorted_int_list_def Cons numeral_2_eq_2 split: pterm.split)
  qed (simp add: bp_already_sorted_int_list_def)
  show "length (snd (bp_already_sorted_term_list val cap lst)) \<le> max 2 cap"
    by (cases "fst lst") (auto simp: bp_already_sorted_term_list_def term_scan_terms)
qed

lemma scan_overruns:
  assumes "\<forall>w\<in>set ws. \<exists>i. val w = PInt i" "cap < length ws" "2 \<le> length ws"
  shows "length (snd (bp_already_sorted_int_list val cap (ws, tail))) = max 2 (Suc cap)"
proof -
  obtain w ws' where ws: "ws = w # ws'" "ws' \<noteq> []" using assms(3) by (cases ws) (auto simp: Suc_le_length_iff)
  obtain i where w: "val w = PInt i" using assms(1) ws by auto
  show ?thesis
    using int_scan_ints [of ws' val cap "(ws, tail)" i True True "[i]"] assms ws w
    by (simp add: bp_already_sorted_int_list_def)
qed

text \<open>The two orders of a list, and what an insertion into such a list returns.\<close>

definition ascending :: "('w \<Rightarrow> pterm) \<Rightarrow> 'w list \<Rightarrow> bool" where
  "ascending val = sorted_wrt (\<lambda>x y. bp_compare (val x) (val y) \<le> 0)"

definition descending :: "('w \<Rightarrow> pterm) \<Rightarrow> 'w list \<Rightarrow> bool" where
  "descending val = sorted_wrt (\<lambda>x y. bp_compare (val x) (val y) \<ge> 0)"

definition inserted :: "('w list \<Rightarrow> bool) \<Rightarrow> 'w list \<Rightarrow> 'w \<Rightarrow> pterm + 'w cons_cells \<Rightarrow> bool" where
  "inserted ordered ws t r \<longleftrightarrow> (\<exists>zs. r = Inr (zs, nil_sym) \<and> mset zs = add_mset t (mset ws) \<and> ordered zs)"

lemma order_dirs: "sorted_dir 1 val = ascending val" "sorted_dir (- 1) val = descending val" "sorted_terms val = ascending val"
  by (simp_all add: sorted_dir_def sorted_terms_def ascending_def descending_def not_less fun_eq_iff)

lemma insert_at_end:
  assumes "tail \<noteq> nil_sym" "\<forall>w\<in>set ws. \<not> stop (bp_compare (val t) (val w))"
  shows "insert_before val stop (ws, tail) t = Inl tail"
    and "\<forall>w\<in>set ws. bp_compare (val t) (val w) \<noteq> 0 \<Longrightarrow> insert_no_dup val stop (ws, tail) t = Inl tail"
proof -
  have "(\<forall>w\<in>set xs. \<not> stp (bp_compare (val t) (val w))) \<Longrightarrow> copy_until val stp t xs = (xs, [])" for stp xs
    by (induction xs) auto
  thus "insert_before val stop (ws, tail) t = Inl tail"
    and "\<forall>w\<in>set ws. bp_compare (val t) (val w) \<noteq> 0 \<Longrightarrow> insert_no_dup val stop (ws, tail) t = Inl tail"
    using assms by (simp_all add: insert_before_def insert_no_dup_def)
qed

text \<open>
  C28: \<open>bp_compare\<close> is a total order on the terms of \<open>plain\<close> (no floats, structures all arrays or all
  not, and no big integers beside structures that come before \<open>$bigint/2\<close>): comparing the other way
  round changes the sign, only equal terms compare as equal, and the order is transitive. Each condition
  of \<open>plain\<close> is needed: a big integer and a structure with one argument are each less than the other,
  so are a float and a suspended variable, and an array, a structure and a second array form a cycle.
\<close>

theorem standard_order:
  "(\<forall>t u v. plain bigs arrays t \<and> plain bigs arrays u \<and> plain bigs arrays v \<longrightarrow>
     bp_compare u t = - bp_compare t u \<and> (bp_compare t u = 0 \<longleftrightarrow> t = u) \<and>
     (bp_compare t u \<le> 0 \<and> bp_compare u v \<le> 0 \<longrightarrow> bp_compare t v \<le> 0)) \<and>
   (\<forall>f t b. num_ok (MAKEBIG b) \<longrightarrow> bp_compare (PStr f [t]) (PBig b) = - 1 \<and> bp_compare (PBig b) (PStr f [t]) = - 1) \<and>
   bp_compare (PSusp a) (PFloat d) = - 1 \<and> bp_compare (PFloat d) (PSusp a) = - 1 \<and>
   bp_compare (PStr ''{}'' [PInt 9]) (PStr ''f'' [PInt 0, PInt 0]) = - 1 \<and>
   bp_compare (PStr ''f'' [PInt 0, PInt 0]) (PStr ''{}'' [PInt 1, PInt 2, PInt 3]) = - 1 \<and>
   bp_compare (PStr ''{}'' [PInt 1, PInt 2, PInt 3]) (PStr ''{}'' [PInt 9]) = - 1"
proof -
  have refl: "plain bigs arrays t \<Longrightarrow> bp_compare t t = 0" for t
    using compare_anti [of bigs arrays t t] by simp
  show ?thesis
    using compare_anti compare_eq refl compare_trans anomalies(1) anomalies(2) [of a d] anomalies(3) by metis
qed

theorem standard_order_witness:
  "bp_compare (PInt 5) (PAtom ''a'') = - bp_compare (PAtom ''a'') (PInt 5)"
  using standard_order [of False False 0 NaN, THEN conjunct1, rule_format, of "PAtom ''a''" "PInt 5" "PInt 5"]
  by (simp add: BP_MININT_1W_def BP_MAXINT_1W_def)

text \<open>
  C29: the sorting built-ins. A proper list of at most one element, or one that fits the last third of
  the free cells, is sorted: of a list of integers the result is the sorted list; of a list of terms
  (those of \<open>plain\<close>) it is a permutation of the words in the order of \<open>bp_compare\<close>; the quicksort always ends within
  its array and its \<open>MAX_LEVELS\<close> segments. A longer list is refused. The scan of terms stays in its
  area of at least two cells, while the scan of integers writes one cell more before it refuses.
\<close>

theorem sort_builtins:
  assumes "cells < 2 ^ 31"
  shows "((\<forall>w\<in>set ws. \<exists>i. val w = PInt i) \<longrightarrow>
      int_list_of val (b_sort_int_list val cells (ws, PAtom ''[]'')) =
        (if length ws \<le> 1 \<or> length ws \<le> cells div 3 then Some (sort (map (\<lambda>w. int_value (val w)) ws)) else None)) \<and>
    ((\<forall>w\<in>set ws. plain bigs arrays (val w)) \<longrightarrow>
      (if length ws \<le> 1 \<or> length ws < cells div 3
       then \<exists>zs. c_sort_term_list val cells (ws, PAtom ''[]'') = UNIFY (zs, PAtom ''[]'') \<and> mset zs = mset ws \<and>
              ascending val zs
       else c_sort_term_list val cells (ws, PAtom ''[]'') = SORT_FALSE)) \<and>
    length (snd (bp_already_sorted_term_list val (cells div 3) lst)) \<le> max 2 (cells div 3) \<and>
    length (snd (bp_already_sorted_int_list val (cells div 3) lst)) \<le> max 2 (Suc (cells div 3))"
  using sort_int_list [OF _ assms, of ws val] sort_term_list [OF _ assms, of ws bigs arrays val]
    scan_cells [of val "cells div 3" lst]
  unfolding order_dirs by blast

theorem sort_builtins_witness:
  "int_list_of PInt (b_sort_int_list PInt 100 ([3, 1, 2], PAtom ''[]'')) = Some [1, 2, 3]"
proof -
  have "sort (map (\<lambda>w. int_value (PInt w)) [3, 1, 2]) = [1, 2, 3]" by simp
  thus ?thesis using sort_builtins [of 100 "[3, 1, 2]" PInt False False "([], PAtom ''[]'')"] by simp
qed

text \<open>
  C30: inserting a term into a sorted list (ascending, or descending for the \<open>DOWN\<close> versions) gives a
  sorted list with that one word more; the \<open>NO_DUP\<close> versions return the list itself exactly when
  it has a term equal to the new one. A list that does not end in \<open>[]\<close> is a type error when the
  place of the new term is at its end.
\<close>

theorem insert_builtins:
  assumes "\<forall>w\<in>set (t # ws). plain bigs arrays (val w)"
  shows "(ascending val ws \<longrightarrow>
      inserted (ascending val) ws t (b_INSERT_ORDERED_ccf val (ws, PAtom ''[]'') t) \<and>
      inserted (ascending val) ws t (b_INSERT_STATE_LIST_ccf val (ws, PAtom ''[]'') t) \<and>
      (if val t \<in> val ` set ws then b_INSERT_ORDERED_NO_DUP_ccf val (ws, PAtom ''[]'') t = Inr (ws, PAtom ''[]'')
       else inserted (ascending val) ws t (b_INSERT_ORDERED_NO_DUP_ccf val (ws, PAtom ''[]'') t))) \<and>
    (descending val ws \<longrightarrow>
      inserted (descending val) ws t (b_INSERT_ORDERED_DOWN_ccf val (ws, PAtom ''[]'') t) \<and>
      (if val t \<in> val ` set ws then b_INSERT_ORDERED_DOWN_NO_DUP_ccf val (ws, PAtom ''[]'') t = Inr (ws, PAtom ''[]'')
       else inserted (descending val) ws t (b_INSERT_ORDERED_DOWN_NO_DUP_ccf val (ws, PAtom ''[]'') t))) \<and>
    (tail \<noteq> PAtom ''[]'' \<and> (\<forall>w\<in>set ws. bp_compare (val t) (val w) > 0) \<longrightarrow>
      b_INSERT_ORDERED_ccf val (ws, tail) t = Inl tail \<and> b_INSERT_ORDERED_NO_DUP_ccf val (ws, tail) t = Inl tail)"
proof -
  have dirs: "(1 :: int) = 1 \<or> (1 :: int) = - 1" "(- 1 :: int) = 1 \<or> (- 1 :: int) = - 1" by simp_all
  note before = insert_before_sorted [OF dirs(1) assms, unfolded order_dirs, folded insert_directions inserted_def]
    insert_before_sorted [OF dirs(1) assms, unfolded order_dirs, folded insert_directions(3) inserted_def]
    insert_before_sorted [OF dirs(2) assms, unfolded order_dirs, folded insert_directions inserted_def]
  note no_dup = insert_no_dup_sorted [OF dirs(1) assms, unfolded order_dirs, folded insert_directions inserted_def]
    insert_no_dup_sorted [OF dirs(2) assms, unfolded order_dirs, folded insert_directions inserted_def]
  have "b_INSERT_ORDERED_ccf val (ws, tail) t = Inl tail \<and> b_INSERT_ORDERED_NO_DUP_ccf val (ws, tail) t = Inl tail"
    if "tail \<noteq> nil_sym" "\<forall>w\<in>set ws. bp_compare (val t) (val w) > 0"
    unfolding insert_directions using that by (intro conjI insert_at_end) auto
  with before no_dup show ?thesis by blast
qed

theorem insert_builtins_witness:
  "inserted (ascending PInt) [1, 3] 2 (b_INSERT_ORDERED_ccf PInt ([1, 3], PAtom ''[]'') 2)"
  using insert_builtins [of 2 "[1, 3]" False False PInt "PAtom ''[]''"]
  by (simp add: ascending_def BP_COMPARE_VALS_def BP_MININT_1W_def BP_MAXINT_1W_def)

end
