(* ===== verification/Store.thy ===== *)
theory Store
  imports Main
begin

text \<open>
  The term store that unification works on (\<open>emu/term.h\<close>, \<open>emu/bapi.h\<close>): cells of the heap, which
  grows upwards from 0 to \<open>heap_top\<close>, and of the local stack, which grows downwards to \<open>local_top\<close>;
  the choice point registers \<open>hbreg\<close> and \<open>breg\<close>; and the trail. A free variable is a cell that refers
  to itself, a suspended variable a cell with the suspension word of its own address. The trail grows
  without an end; its expansion is not modelled.
\<close>

section \<open>Words and cells\<close>

datatype atomic = Int_atom int | Sym_atom string

datatype tword =
    Ref nat             \<comment> \<open>a reference to a cell\<close>
  | Atm atomic
  | Lst nat             \<comment> \<open>a list: the element at the address, the rest behind it\<close>
  | Str nat             \<comment> \<open>a structure: its symbol at the address, the arguments behind it\<close>
  | Susp nat
  | Sym string nat      \<comment> \<open>a symbol record with its arity, in the first cell of a structure\<close>

record store =
  mem :: "nat \<Rightarrow> tword"
  heap_top :: nat
  local_top :: nat
  hbreg :: nat
  breg :: nat
  trail :: "(nat \<times> tword) list"

definition FOLLOW_assign :: "nat \<Rightarrow> tword \<Rightarrow> store \<Rightarrow> store" where
  "FOLLOW_assign a w S = S\<lparr>mem := (mem S)(a := w)\<rparr>"

definition PUSHTRAIL :: "nat \<Rightarrow> store \<Rightarrow> store" where
  "PUSHTRAIL a S = (if a > breg S \<or> a < hbreg S then S\<lparr>trail := (a, Ref a) # trail S\<rparr> else S)"

definition PUSHTRAIL_s :: "nat \<Rightarrow> store \<Rightarrow> store" where
  "PUSHTRAIL_s a S = (if a > breg S then S\<lparr>trail := (a, Ref a) # trail S\<rparr> else S)"

definition PUSHTRAIL_h :: "nat \<Rightarrow> store \<Rightarrow> store" where
  "PUSHTRAIL_h a S = (if a < hbreg S then S\<lparr>trail := (a, Ref a) # trail S\<rparr> else S)"

definition NEW_HEAP_FREE :: "store \<Rightarrow> store" where
  "NEW_HEAP_FREE S = (FOLLOW_assign (heap_top S) (Ref (heap_top S)) S)\<lparr>heap_top := heap_top S + 1\<rparr>"

text \<open>\<open>UNDO_TRAILING\<close> back to a trail of \<open>n\<close> entries; the newest entry is the head.\<close>

fun undo_entries :: "(nat \<times> tword) list \<Rightarrow> (nat \<Rightarrow> tword) \<Rightarrow> (nat \<Rightarrow> tword)" where
  "undo_entries [] m = m"
| "undo_entries ((a, w) # es) m = undo_entries es (m(a := w))"

definition undo_trailing :: "nat \<Rightarrow> store \<Rightarrow> store" where
  "undo_trailing n S = (let new = take (length (trail S) - n) (trail S)
     in S\<lparr>mem := undo_entries new (mem S), trail := drop (length (trail S) - n) (trail S)\<rparr>)"

text \<open>The loop of \<open>DEREF\<close>, of at most \<open>n\<close> steps.\<close>

fun DEREF :: "nat \<Rightarrow> store \<Rightarrow> tword \<Rightarrow> tword option" where
  "DEREF 0 S w = None"
| "DEREF (Suc n) S w = (case w of
       Ref a \<Rightarrow> (if mem S a = Ref a then Some w else DEREF n S (mem S a))
     | _ \<Rightarrow> Some w)"

section \<open>Well-formed stores\<close>

definition allocated :: "store \<Rightarrow> nat \<Rightarrow> bool" where
  "allocated S a \<longleftrightarrow> a < heap_top S \<or> local_top S \<le> a"

text \<open>A word that stands for a term: what it refers to is allocated, structures lie on the heap.\<close>

definition valid :: "store \<Rightarrow> tword \<Rightarrow> bool" where
  "valid S w = (case w of
       Ref a \<Rightarrow> allocated S a \<and> (\<forall>f n. mem S a \<noteq> Sym f n)
     | Atm c \<Rightarrow> True
     | Lst a \<Rightarrow> a + 1 < heap_top S \<and> (\<forall>i\<le>1. \<forall>f n. mem S (a + i) \<noteq> Sym f n)
     | Str a \<Rightarrow> (case mem S a of
           Sym f n \<Rightarrow> 0 < n \<and> a + n < heap_top S \<and> (\<forall>i\<in>{1..n}. \<forall>g k. mem S (a + i) \<noteq> Sym g k)
         | _ \<Rightarrow> False)
     | Susp a \<Rightarrow> False
     | Sym f n \<Rightarrow> False)"

text \<open>On the heap no word refers to the stack. The stores here have no suspended variables.\<close>

definition heap_word :: "store \<Rightarrow> tword \<Rightarrow> bool" where
  "heap_word S w \<longleftrightarrow> (\<forall>a. w = Ref a \<longrightarrow> a < heap_top S)"

definition wf_store :: "store \<Rightarrow> bool" where
  "wf_store S \<longleftrightarrow> heap_top S \<le> local_top S \<and> hbreg S \<le> heap_top S \<and> local_top S \<le> breg S \<and>
     (\<forall>a. allocated S a \<longrightarrow> valid S (mem S a) \<or> (\<exists>f n. mem S a = Sym f n)) \<and>
     (\<forall>a < heap_top S. heap_word S (mem S a))"

text \<open>Chains of references end.\<close>

definition refs_end :: "store \<Rightarrow> bool" where
  "refs_end S \<longleftrightarrow> (\<exists>r :: nat \<Rightarrow> nat. \<forall>a t. mem S a = Ref t \<longrightarrow> t \<noteq> a \<longrightarrow> r t < r a)"

section \<open>What words denote\<close>

datatype tree = Var_tree nat | Atm_tree atomic | List_tree tree tree | Fun_tree string "tree list"

text \<open>
  A valuation gives every word a finite tree, in agreement with the store: a bound cell has the value
  of its contents. It is free on the unbound variables, so it is a ground instance of the store.
\<close>

definition args :: "store \<Rightarrow> nat \<Rightarrow> nat \<Rightarrow> tword list" where
  "args S a n = map (\<lambda>i. mem S (a + i)) [1..<n + 1]"

definition sat :: "store \<Rightarrow> (tword \<Rightarrow> tree) \<Rightarrow> bool" where
  "sat S V \<longleftrightarrow>
     (\<forall>a. valid S (Ref a) \<longrightarrow> V (Ref a) = V (mem S a)) \<and>
     (\<forall>c. V (Atm c) = Atm_tree c) \<and>
     (\<forall>a. valid S (Lst a) \<longrightarrow> V (Lst a) = List_tree (V (mem S a)) (V (mem S (a + 1)))) \<and>
     (\<forall>a f n. valid S (Str a) \<longrightarrow> mem S a = Sym f n \<longrightarrow> V (Str a) = Fun_tree f (map V (args S a n)))"

fun equal_under :: "(tword \<Rightarrow> tree) \<Rightarrow> (tword \<times> tword) list \<Rightarrow> bool" where
  "equal_under V [] \<longleftrightarrow> True"
| "equal_under V ((u, v) # eqs) \<longleftrightarrow> V u = V v \<and> equal_under V eqs"

lemma equal_under_append [simp]: "equal_under V (e1 @ e2) \<longleftrightarrow> equal_under V e1 \<and> equal_under V e2"
  by (induction V e1 rule: equal_under.induct) auto

text \<open>\<open>S'\<close> is the most general instance of \<open>S\<close> that solves the equations.\<close>

definition solves :: "store \<Rightarrow> (tword \<times> tword) list \<Rightarrow> store \<Rightarrow> bool" where
  "solves S eqs S' \<longleftrightarrow>
     (\<forall>V. sat S' V \<longrightarrow> sat S V \<and> equal_under V eqs) \<and>
     (\<forall>V. sat S V \<longrightarrow> equal_under V eqs \<longrightarrow> (\<exists>V'. sat S' V' \<and> (\<forall>w. valid S w \<longrightarrow> V' w = V w)))"

definition unsolvable :: "store \<Rightarrow> (tword \<times> tword) list \<Rightarrow> bool" where
  "unsolvable S eqs \<longleftrightarrow> \<not> (\<exists>V. sat S V \<and> equal_under V eqs)"

definition valid_eqs :: "store \<Rightarrow> (tword \<times> tword) list \<Rightarrow> bool" where
  "valid_eqs S eqs \<longleftrightarrow> (\<forall>(u, v)\<in>set eqs. valid S u \<and> valid S v)"

section \<open>Extension of a store by bindings\<close>

text \<open>
  Only unbound cells have changed, and the heap may have grown by new variables; the change can be
  undone from the new entries of the trail, for cells that existed at the choice point.
\<close>

definition old_cell :: "store \<Rightarrow> nat \<Rightarrow> bool" where
  "old_cell S a \<longleftrightarrow> a < hbreg S \<or> a > breg S"

definition binds :: "store \<Rightarrow> store \<Rightarrow> bool" where
  "binds S S' \<longleftrightarrow> heap_top S \<le> heap_top S' \<and> local_top S' = local_top S \<and> hbreg S' = hbreg S \<and> breg S' = breg S \<and>
     (\<forall>a. allocated S a \<longrightarrow> mem S' a = mem S a \<or> mem S a = Ref a \<and> (\<forall>f n. mem S' a \<noteq> Sym f n)) \<and>
     (\<exists>new. trail S' = new @ trail S \<and> (\<forall>(a, w)\<in>set new. w = Ref a \<and> old_cell S a \<and> mem S a = Ref a) \<and>
        (\<forall>a. old_cell S a \<and> mem S' a \<noteq> mem S a \<longrightarrow> (a, Ref a) \<in> set new))"

lemma binds_refl: "binds S S"
  by (auto simp: binds_def)

lemma binds_allocated: "binds S S' \<Longrightarrow> allocated S a \<Longrightarrow> allocated S' a"
  by (auto simp: binds_def allocated_def)

lemma old_allocated: "wf_store S \<Longrightarrow> old_cell S a \<Longrightarrow> allocated S a"
  by (auto simp: wf_store_def old_cell_def allocated_def)

lemma binds_cell:
  assumes "binds S S'" "allocated S a"
  shows "mem S' a = mem S a \<or> mem S a = Ref a \<and> (\<forall>f n. mem S' a \<noteq> Sym f n)"
  using assms by (auto simp: binds_def)

lemma binds_not_Sym:
  assumes "binds S S'" "allocated S a" "\<forall>f n. mem S a \<noteq> Sym f n"
  shows "\<forall>f n. mem S' a \<noteq> Sym f n"
  using binds_cell [OF assms(1,2)] assms(3) by metis

lemma binds_valid:
  assumes b: "binds S S'" and v: "valid S w"
  shows "valid S' w"
proof (cases w)
  case (Ref a)
  thus ?thesis using v binds_not_Sym [OF b, of a] binds_allocated [OF b] by (simp add: valid_def)
next
  case (Lst a)
  have "a + 1 < heap_top S'" using v Lst b by (auto simp: valid_def binds_def)
  moreover have "\<forall>f n. mem S' (a + i) \<noteq> Sym f n" if "i \<le> 1" for i
    using v Lst that by (intro binds_not_Sym [OF b]) (auto simp: valid_def allocated_def)
  ultimately show ?thesis using Lst by (simp add: valid_def)
next
  case (Str a)
  then obtain f n where s: "mem S a = Sym f n" "0 < n" "a + n < heap_top S"
    "\<forall>i\<in>{1..n}. \<forall>g k. mem S (a + i) \<noteq> Sym g k" using v by (auto simp: valid_def split: tword.splits)
  have "mem S' a = Sym f n" using binds_cell [OF b, of a] s by (auto simp: allocated_def)
  moreover have "a + n < heap_top S'" using s b by (auto simp: binds_def)
  moreover have "\<forall>g k. mem S' (a + i) \<noteq> Sym g k" if "i \<in> {1..n}" for i
    using s that by (intro binds_not_Sym [OF b]) (auto simp: allocated_def)
  ultimately show ?thesis using Str s by (simp add: valid_def)
qed (use v in \<open>auto simp: valid_def\<close>)

lemma binds_trans:
  assumes wf: "wf_store S" and b: "binds S S1" "binds S1 S2"
  shows "binds S S2"
proof -
  have old: "old_cell S1 a \<longleftrightarrow> old_cell S a" for a using b by (auto simp: binds_def old_cell_def)
  have al: "old_cell S a \<Longrightarrow> allocated S a" for a using old_allocated [OF wf] .
  obtain new1 where n1: "trail S1 = new1 @ trail S" "\<forall>(a, w)\<in>set new1. w = Ref a \<and> old_cell S a \<and> mem S a = Ref a"
    "\<And>a. old_cell S a \<Longrightarrow> mem S1 a \<noteq> mem S a \<Longrightarrow> (a, Ref a) \<in> set new1"
    using b(1) by (auto simp: binds_def)
  obtain new2 where n2: "trail S2 = new2 @ trail S1" "\<forall>(a, w)\<in>set new2. w = Ref a \<and> old_cell S a \<and> mem S1 a = Ref a"
    "\<And>a. old_cell S a \<Longrightarrow> mem S2 a \<noteq> mem S1 a \<Longrightarrow> (a, Ref a) \<in> set new2"
    using b(2) unfolding binds_def old by auto
  have cells: "mem S2 a = mem S a \<or> mem S a = Ref a \<and> (\<forall>f n. mem S2 a \<noteq> Sym f n)" if "allocated S a" for a
    using binds_cell [OF b(1) that] binds_cell [OF b(2) binds_allocated [OF b(1) that]] by metis
  have "mem S a = Ref a" if "old_cell S a" "mem S1 a = Ref a" for a
    using binds_cell [OF b(1) al [OF that(1)]] that(2) by metis
  hence "\<forall>(a, w)\<in>set (new2 @ new1). w = Ref a \<and> old_cell S a \<and> mem S a = Ref a" using n1(2) n2(2) by fastforce
  moreover have "(a, Ref a) \<in> set (new2 @ new1)" if "old_cell S a" "mem S2 a \<noteq> mem S a" for a
    using n1(3) [OF that(1)] n2(3) [OF that(1)] that(2) by (cases "mem S1 a = mem S a") auto
  moreover have "trail S2 = (new2 @ new1) @ trail S" using n1(1) n2(1) by simp
  ultimately have "\<exists>new. trail S2 = new @ trail S \<and> (\<forall>(a, w)\<in>set new. w = Ref a \<and> old_cell S a \<and> mem S a = Ref a) \<and>
      (\<forall>a. old_cell S a \<and> mem S2 a \<noteq> mem S a \<longrightarrow> (a, Ref a) \<in> set new)" by blast
  thus ?thesis unfolding binds_def using b cells by (auto simp: binds_def)
qed

section \<open>Undoing\<close>

lemma undo_entries_at:
  "\<forall>(a, w)\<in>set es. w = Ref a \<Longrightarrow> undo_entries es m a = (if (a, Ref a) \<in> set es then Ref a else m a)"
  by (induction es m rule: undo_entries.induct) (auto split: if_splits)

lemma undo_restores:
  assumes b: "binds S S'" and a: "old_cell S a"
  shows "mem (undo_trailing (length (trail S)) S') a = mem S a" "trail (undo_trailing (length (trail S)) S') = trail S"
proof -
  obtain new where n: "trail S' = new @ trail S" "\<forall>(a, w)\<in>set new. w = Ref a \<and> old_cell S a \<and> mem S a = Ref a"
    "\<And>a. old_cell S a \<Longrightarrow> mem S' a \<noteq> mem S a \<Longrightarrow> (a, Ref a) \<in> set new"
    using b by (auto simp: binds_def)
  have "undo_entries new (mem S') a = (if (a, Ref a) \<in> set new then Ref a else mem S' a)"
    by (rule undo_entries_at) (use n(2) in auto)
  thus "mem (undo_trailing (length (trail S)) S') a = mem S a"
    using n(2) n(3) [OF a] by (auto simp: undo_trailing_def n(1))
  show "trail (undo_trailing (length (trail S)) S') = trail S"
    by (simp add: undo_trailing_def n(1))
qed

section \<open>Valuations and bindings\<close>

lemma satD:
  assumes "sat S V"
  shows "valid S (Ref a) \<Longrightarrow> V (Ref a) = V (mem S a)"
    and "V (Atm c) = Atm_tree c"
    and "valid S (Lst a) \<Longrightarrow> V (Lst a) = List_tree (V (mem S a)) (V (mem S (a + 1)))"
    and "valid S (Str a) \<Longrightarrow> mem S a = Sym f n \<Longrightarrow> V (Str a) = Fun_tree f (map V (args S a n))"
  using assms by (auto simp: sat_def)

lemma sat_back:
  assumes b: "binds S S'" and s: "sat S' V"
  shows "sat S V"
proof -
  have same: "V (mem S' a) = V (mem S a)" if "valid S (Ref a)" for a
  proof -
    have "valid S' (Ref a)" by (rule binds_valid [OF b that])
    thus ?thesis using binds_cell [OF b, of a] satD(1) [OF s, of a] that by (auto simp: valid_def)
  qed
  have cell: "valid S (Ref a) \<Longrightarrow> V (Ref a) = V (mem S a)" for a
    using satD(1) [OF s binds_valid [OF b]] same by simp
  have lists: "V (Lst a) = List_tree (V (mem S a)) (V (mem S (a + 1)))" if v: "valid S (Lst a)" for a
  proof -
    have "valid S (Ref a)" "valid S (Ref (a + 1))" using v by (auto simp: valid_def allocated_def dest: spec [of _ "0 :: nat"] spec [of _ "1 :: nat"])
    thus ?thesis using satD(3) [OF s binds_valid [OF b v]] same by simp
  qed
  have structs: "V (Str a) = Fun_tree f (map V (args S a n))" if v: "valid S (Str a)" and m: "mem S a = Sym f n" for a f n
  proof -
    have "allocated S a" using v m by (auto simp: valid_def allocated_def)
    hence "mem S' a = Sym f n" using binds_cell [OF b, of a] m by auto
    moreover have "map V (args S' a n) = map V (args S a n)"
      using v m by (auto simp: args_def valid_def allocated_def intro!: same)
    ultimately show ?thesis using satD(4) [OF s binds_valid [OF b v]] by simp
  qed
  show ?thesis unfolding sat_def using cell satD(2) [OF s] lists structs by blast
qed

text \<open>A word is assigned to an unbound variable.\<close>

definition bind :: "nat \<Rightarrow> tword \<Rightarrow> store \<Rightarrow> store" where
  "bind a w S = PUSHTRAIL a (FOLLOW_assign a w S)"

lemma bind_simps [simp]:
  "mem (bind a w S) = (mem S)(a := w)" "heap_top (bind a w S) = heap_top S" "local_top (bind a w S) = local_top S"
  "hbreg (bind a w S) = hbreg S" "breg (bind a w S) = breg S"
  "trail (bind a w S) = (if old_cell S a then (a, Ref a) # trail S else trail S)"
  by (auto simp: bind_def PUSHTRAIL_def FOLLOW_assign_def old_cell_def)

lemma bind_binds: "mem S a = Ref a \<Longrightarrow> \<forall>f n. w \<noteq> Sym f n \<Longrightarrow> binds S (bind a w S)"
  by (auto simp: binds_def)

lemma bind_valid:
  assumes a: "mem S a = Ref a" "allocated S a" and w: "\<forall>f n. w \<noteq> Sym f n"
  shows "valid (bind a w S) x = valid S x"
proof -
  have sym: "(mem (bind a w S) c = Sym f n) = (mem S c = Sym f n)" for c f n using a(1) w by auto
  show ?thesis
  proof (cases x)
    case (Str c)
    show ?thesis
    proof (cases "\<exists>f n. mem S c = Sym f n")
      case True
      then obtain f n where m: "mem S c = Sym f n" by blast
      hence m': "mem (bind a w S) c = Sym f n" by (simp only: sym)
      show ?thesis by (simp only: Str valid_def tword.case m m' bind_simps(2) sym)
    next
      case False
      hence "\<not> (\<exists>f n. mem (bind a w S) c = Sym f n)" using sym by blast
      thus ?thesis using False by (auto simp: Str valid_def simp del: bind_simps(1) split: tword.splits)
    qed
  qed (simp_all only: valid_def tword.case sym allocated_def bind_simps(2,3))
qed

lemma bind_sat:
  assumes a: "mem S a = Ref a" "allocated S a" and w: "valid S w"
  shows "sat (bind a w S) V \<longleftrightarrow> sat S V \<and> V (Ref a) = V w"
proof
  have nsym: "\<forall>f n. w \<noteq> Sym f n" using w by (auto simp: valid_def)
  note v = bind_valid [OF a nsym]
  { assume s: "sat (bind a w S) V"
    have "valid S (Ref a)" using a by (simp add: valid_def)
    thus "sat S V \<and> V (Ref a) = V w"
      using sat_back [OF bind_binds [OF a(1) nsym] s] satD(1) [OF s, of a] v by simp }
  { assume s: "sat S V \<and> V (Ref a) = V w"
    have cells: "V (mem (bind a w S) c) = V (mem S c)" for c using s a(1) by simp
    have arg: "map V (args (bind a w S) c n) = map V (args S c n)" for c n
      unfolding args_def map_map by (rule map_cong [OF refl]) (simp only: o_apply cells)
    have syms: "mem (bind a w S) c = Sym f n \<Longrightarrow> mem S c = Sym f n" for c f n
      using nsym by (cases "c = a") auto
    note d = satD [OF s [THEN conjunct1]]
    have refs: "\<forall>c. valid (bind a w S) (Ref c) \<longrightarrow> V (Ref c) = V (mem (bind a w S) c)"
      using d(1) unfolding v cells by blast
    have lists: "\<forall>c. valid (bind a w S) (Lst c) \<longrightarrow>
        V (Lst c) = List_tree (V (mem (bind a w S) c)) (V (mem (bind a w S) (c + 1)))"
      using d(3) unfolding v cells by blast
    have "V (Str c) = Fun_tree f (map V (args (bind a w S) c n))"
      if "valid (bind a w S) (Str c)" "mem (bind a w S) c = Sym f n" for c f n
      using d(4) [OF that(1) [unfolded v] syms [OF that(2)]] unfolding arg .
    thus "sat (bind a w S) V" unfolding sat_def using refs lists d(2) by (intro conjI) simp_all }
qed

lemma bind_wf:
  assumes wf: "wf_store S" and a: "mem S a = Ref a" "allocated S a" and w: "valid S w"
    and h: "a < heap_top S \<Longrightarrow> heap_word S w"
  shows "wf_store (bind a w S)"
proof -
  have nsym: "\<forall>f n. w \<noteq> Sym f n" using w by (auto simp: valid_def)
  have old: "valid S (mem S c) \<or> (\<exists>f n. mem S c = Sym f n)" if "allocated S c" for c
    using wf that by (simp add: wf_store_def)
  have old_heap: "heap_word S (mem S c)" if "c < heap_top S" for c
    using wf that by (simp add: wf_store_def)
  have "valid S (mem (bind a w S) c) \<or> (\<exists>f n. mem (bind a w S) c = Sym f n)" if "allocated S c" for c
  proof (cases "c = a")
    case True
    thus ?thesis using w by simp
  next
    case False
    thus ?thesis using old [OF that] by simp
  qed
  moreover have "heap_word S (mem (bind a w S) c)" if "c < heap_top S" for c
  proof (cases "c = a")
    case True
    thus ?thesis using h that by simp
  next
    case False
    thus ?thesis using old_heap [OF that] by simp
  qed
  moreover have "allocated (bind a w S) c = allocated S c" "heap_word (bind a w S) x = heap_word S x" for c x
    by (simp_all add: allocated_def heap_word_def)
  moreover have "heap_top S \<le> local_top S" "hbreg S \<le> heap_top S" "local_top S \<le> breg S"
    using wf by (simp_all add: wf_store_def)
  ultimately show ?thesis
    unfolding wf_store_def bind_valid [OF a nsym] bind_simps(2-5) by blast
qed

lemma bind_solves:
  assumes a: "mem S a = Ref a" "allocated S a" and w: "valid S w"
  shows "solves S [(Ref a, w)] (bind a w S)"
  unfolding solves_def bind_sat [OF assms] by auto

section \<open>A new variable on the heap\<close>

lemma new_simps [simp]:
  "mem (NEW_HEAP_FREE S) = (mem S)(heap_top S := Ref (heap_top S))" "heap_top (NEW_HEAP_FREE S) = heap_top S + 1"
  "local_top (NEW_HEAP_FREE S) = local_top S" "hbreg (NEW_HEAP_FREE S) = hbreg S" "breg (NEW_HEAP_FREE S) = breg S"
  "trail (NEW_HEAP_FREE S) = trail S"
  by (simp_all add: NEW_HEAP_FREE_def FOLLOW_assign_def)

lemma new_binds:
  assumes wf: "wf_store S" and room: "heap_top S < local_top S"
  shows "binds S (NEW_HEAP_FREE S)"
proof -
  have "\<not> allocated S (heap_top S)" using room by (simp add: allocated_def)
  moreover have "\<not> old_cell S (heap_top S)" using wf room by (auto simp: wf_store_def old_cell_def)
  ultimately show ?thesis by (auto simp: binds_def)
qed

lemma new_allocated: "heap_top S < local_top S \<Longrightarrow> allocated (NEW_HEAP_FREE S) c \<longleftrightarrow> allocated S c \<or> c = heap_top S"
  by (auto simp: allocated_def)

lemma new_wf:
  assumes wf: "wf_store S" and room: "heap_top S < local_top S"
  shows "wf_store (NEW_HEAP_FREE S)"
proof -
  let ?S = "NEW_HEAP_FREE S"
  have "valid ?S (mem ?S c) \<or> (\<exists>f n. mem ?S c = Sym f n)" if "allocated ?S c" for c
  proof (cases "c = heap_top S")
    case True
    thus ?thesis by (simp add: valid_def allocated_def)
  next
    case False
    hence "allocated S c" using that new_allocated [OF room] by simp
    hence "valid S (mem S c) \<or> (\<exists>f n. mem S c = Sym f n)" using wf by (simp add: wf_store_def)
    thus ?thesis using binds_valid [OF new_binds [OF wf room]] False by auto
  qed
  moreover have "heap_word ?S (mem ?S c)" if "c < heap_top ?S" for c
  proof (cases "c = heap_top S")
    case True
    thus ?thesis by (simp add: heap_word_def)
  next
    case False
    hence "heap_word S (mem S c)" using that wf by (simp add: wf_store_def)
    thus ?thesis using False by (auto simp: heap_word_def)
  qed
  moreover have "hbreg S \<le> heap_top S" "local_top S \<le> breg S" using wf by (simp_all add: wf_store_def)
  ultimately show ?thesis using room unfolding wf_store_def by simp
qed

text \<open>Words that refer to the new cell get the value that the cells below them ask for.\<close>

definition extend :: "store \<Rightarrow> (tword \<Rightarrow> tree) \<Rightarrow> tree \<Rightarrow> tword \<Rightarrow> tree" where
  "extend S V t w = (let V0 = V(Ref (heap_top S) := t)
     in if valid S w then V w
        else case w of
            Ref a \<Rightarrow> t
          | Atm c \<Rightarrow> Atm_tree c
          | Lst a \<Rightarrow> List_tree (V0 (mem (NEW_HEAP_FREE S) a)) (V0 (mem (NEW_HEAP_FREE S) (a + 1)))
          | Str a \<Rightarrow> (case mem S a of Sym f n \<Rightarrow> Fun_tree f (map V0 (args (NEW_HEAP_FREE S) a n)) | _ \<Rightarrow> t)
          | _ \<Rightarrow> t)"

lemma extend_old: "valid S w \<Longrightarrow> extend S V t w = V w"
  by (simp add: extend_def)

lemma not_valid_top: "heap_top S < local_top S \<Longrightarrow> \<not> valid S (Ref (heap_top S))"
  by (simp add: valid_def allocated_def)

lemma extend_new: "heap_top S < local_top S \<Longrightarrow> extend S V t (Ref (heap_top S)) = t"
  using not_valid_top by (simp add: extend_def)

lemma extend_cell:
  assumes wf: "wf_store S" and room: "heap_top S < local_top S" and c: "allocated (NEW_HEAP_FREE S) c"
    and nsym: "\<forall>f n. mem (NEW_HEAP_FREE S) c \<noteq> Sym f n"
  shows "extend S V t (mem (NEW_HEAP_FREE S) c) = (V(Ref (heap_top S) := t)) (mem (NEW_HEAP_FREE S) c)"
proof (cases "c = heap_top S")
  case True
  thus ?thesis using extend_new [OF room] by simp
next
  case False
  hence "valid S (mem S c)" using c nsym wf new_allocated [OF room] by (auto simp: wf_store_def)
  moreover have "mem S c \<noteq> Ref (heap_top S)" using calculation not_valid_top [OF room] by auto
  ultimately show ?thesis using False extend_old by simp
qed

lemma extend_sat:
  assumes wf: "wf_store S" and room: "heap_top S < local_top S" and s: "sat S V"
  shows "sat (NEW_HEAP_FREE S) (extend S V t)"
proof -
  let ?S = "NEW_HEAP_FREE S" and ?E = "extend S V t"
  note cell = extend_cell [OF wf room]
  have refs: "?E (Ref c) = ?E (mem ?S c)" if v: "valid ?S (Ref c)" for c
  proof (cases "c = heap_top S")
    case True
    thus ?thesis by simp
  next
    case False
    have al: "allocated S c" and nsym: "\<forall>f n. mem S c \<noteq> Sym f n"
      using v False new_allocated [OF room] by (auto simp: valid_def)
    hence "valid S (Ref c)" "valid S (mem S c)" using wf by (auto simp: wf_store_def valid_def)
    thus ?thesis using extend_old satD(1) [OF s] False by simp
  qed
  have lists: "?E (Lst c) = List_tree (?E (mem ?S c)) (?E (mem ?S (c + 1)))" if v: "valid ?S (Lst c)" for c
  proof -
    have c0: "allocated ?S c" "\<forall>f n. mem ?S c \<noteq> Sym f n" and c1: "allocated ?S (c + 1)" "\<forall>f n. mem ?S (c + 1) \<noteq> Sym f n"
      using v by (auto simp: valid_def allocated_def simp del: new_simps(1) dest: spec [of _ "0 :: nat"] spec [of _ "1 :: nat"])
    show ?thesis
    proof (cases "valid S (Lst c)")
      case False
      thus ?thesis unfolding cell [OF c0] cell [OF c1] by (simp add: extend_def Let_def)
    next
      case True
      have "c \<noteq> heap_top S" "c + 1 \<noteq> heap_top S" using True by (auto simp: valid_def)
      moreover have "valid S (mem S c)" "valid S (mem S (c + 1))"
        using True c0 c1 wf calculation new_allocated [OF room] by (auto simp: wf_store_def)
      ultimately show ?thesis using satD(3) [OF s True] extend_old True by simp
    qed
  qed
  have structs: "?E (Str c) = Fun_tree f (map ?E (args ?S c n))" if v: "valid ?S (Str c)" and m: "mem ?S c = Sym f n" for c f n
  proof -
    have mS: "mem S c = Sym f n" using m by (auto split: if_splits)
    have b: "0 < n" "c + n < heap_top ?S" "\<forall>i\<in>{1..n}. \<forall>g k. mem ?S (c + i) \<noteq> Sym g k"
      using v m by (auto simp: valid_def simp del: new_simps(1))
    have arg: "map ?E (args ?S c n) = map (V(Ref (heap_top S) := t)) (args ?S c n)"
      unfolding args_def map_map
    proof (rule map_cong [OF refl])
      fix i assume "i \<in> set [1..<n + 1]"
      hence "allocated ?S (c + i)" "\<forall>g k. mem ?S (c + i) \<noteq> Sym g k" using b by (auto simp: allocated_def simp del: new_simps(1))
      thus "(?E \<circ> (\<lambda>i. mem ?S (c + i))) i = (V(Ref (heap_top S) := t) \<circ> (\<lambda>i. mem ?S (c + i))) i"
        unfolding o_apply by (rule cell)
    qed
    show ?thesis
    proof (cases "valid S (Str c)")
      case False
      thus ?thesis unfolding arg by (simp add: extend_def mS Let_def)
    next
      case True
      have "map V (args S c n) = map (V(Ref (heap_top S) := t)) (args ?S c n)"
        unfolding args_def map_map
      proof (rule map_cong [OF refl])
        fix i assume "i \<in> set [1..<n + 1]"
        hence i: "c + i < heap_top S" "\<forall>g k. mem S (c + i) \<noteq> Sym g k" using True mS by (auto simp: valid_def)
        hence "valid S (mem S (c + i))" using wf by (auto simp: wf_store_def allocated_def)
        hence "mem S (c + i) \<noteq> Ref (heap_top S)" using not_valid_top [OF room] by auto
        thus "(V \<circ> (\<lambda>i. mem S (c + i))) i = (V(Ref (heap_top S) := t) \<circ> (\<lambda>i. mem ?S (c + i))) i"
          using i(1) by simp
      qed
      thus ?thesis unfolding arg using satD(4) [OF s True mS] extend_old [OF True] by simp
    qed
  qed
  have "?E (Atm a) = Atm_tree a" for a using satD(2) [OF s] by (simp add: extend_def valid_def)
  thus ?thesis unfolding sat_def using refs lists structs by (intro conjI) simp_all
qed

section \<open>Solving equations one after the other\<close>

lemma solvesI:
  assumes "\<And>V. sat S' V \<Longrightarrow> sat S V" "\<And>V. sat S' V \<Longrightarrow> equal_under V eqs"
    "\<And>V. sat S V \<Longrightarrow> equal_under V eqs \<Longrightarrow> \<exists>V'. sat S' V' \<and> (\<forall>w. valid S w \<longrightarrow> V' w = V w)"
  shows "solves S eqs S'"
  using assms by (simp add: solves_def)

lemma solvesD:
  assumes "solves S eqs S'"
  shows "sat S' V \<Longrightarrow> sat S V" "sat S' V \<Longrightarrow> equal_under V eqs"
    "sat S V \<Longrightarrow> equal_under V eqs \<Longrightarrow> \<exists>V'. sat S' V' \<and> (\<forall>w. valid S w \<longrightarrow> V' w = V w)"
  using assms by (simp_all add: solves_def)

lemma solves_nil: "solves S [] S"
  by (auto simp: solves_def)

lemma equal_under_cong: "valid_eqs S eqs \<Longrightarrow> \<forall>w. valid S w \<longrightarrow> V' w = V w \<Longrightarrow> equal_under V' eqs = equal_under V eqs"
  by (induction V eqs rule: equal_under.induct) (auto simp: valid_eqs_def)

lemma solves_append:
  assumes b: "binds S S1" and s1: "solves S e1 S1" and s2: "solves S1 e2 S2" and v: "valid_eqs S e2"
  shows "solves S (e1 @ e2) S2"
proof (rule solvesI)
  fix V assume "sat S2 V"
  hence "sat S1 V" "equal_under V e2" using solvesD [OF s2] by auto
  thus "sat S V" "equal_under V (e1 @ e2)" using solvesD [OF s1] by auto
next
  fix V assume V: "sat S V" "equal_under V (e1 @ e2)"
  then obtain V1 where V1: "sat S1 V1" "\<forall>w. valid S w \<longrightarrow> V1 w = V w" using solvesD(3) [OF s1] by auto
  have "equal_under V1 e2" using V(2) equal_under_cong [OF v V1(2)] by simp
  then obtain V2 where "sat S2 V2" "\<forall>w. valid S1 w \<longrightarrow> V2 w = V1 w" using solvesD(3) [OF s2 V1(1)] by blast
  thus "\<exists>V'. sat S2 V' \<and> (\<forall>w. valid S w \<longrightarrow> V' w = V w)" using V1(2) binds_valid [OF b] by auto
qed

lemma unsolvable_append:
  assumes s1: "solves S e1 S1" and u: "unsolvable S1 e2" and v: "valid_eqs S e2"
  shows "unsolvable S (e1 @ e2)"
  unfolding unsolvable_def
proof
  assume "\<exists>V. sat S V \<and> equal_under V (e1 @ e2)"
  then obtain V where V: "sat S V" "equal_under V e1" "equal_under V e2" by auto
  then obtain V1 where V1: "sat S1 V1" "\<forall>w. valid S w \<longrightarrow> V1 w = V w" using solvesD(3) [OF s1] by blast
  have "equal_under V1 e2" using V(3) equal_under_cong [OF v V1(2)] by simp
  thus False using u V1(1) by (auto simp: unsolvable_def)
qed

lemma unsolvable_left: "unsolvable S e1 \<Longrightarrow> unsolvable S (e1 @ e2)"
  by (auto simp: unsolvable_def)

text \<open>Equations with the same solutions.\<close>

lemma solves_cong:
  assumes "\<And>V. sat S V \<Longrightarrow> equal_under V e \<longleftrightarrow> equal_under V e'"
  shows "solves S e S' = solves S e' S'" and "unsolvable S e = unsolvable S e'"
  using assms unfolding solves_def unsolvable_def by blast+

lemma equal_under_swap: "equal_under V [(v, u)] \<longleftrightarrow> equal_under V [(u, v)]"
  by auto

lemma solves_swap: "solves S [(v, u)] S' \<longleftrightarrow> solves S [(u, v)] S'" "unsolvable S [(v, u)] \<longleftrightarrow> unsolvable S [(u, v)]"
  by (rule solves_cong, rule equal_under_swap)+

section \<open>Chains of references\<close>

lemma deref_mono: "DEREF n S w = Some x \<Longrightarrow> n \<le> m \<Longrightarrow> DEREF m S w = Some x"
proof (induction n S w arbitrary: m rule: DEREF.induct)
  case (2 n S w)
  then obtain k where "m = Suc k" "n \<le> k" by (cases m) auto
  thus ?case using 2 by (auto split: tword.splits if_splits)
qed simp

lemma deref_ends:
  assumes "refs_end S"
  shows "\<exists>n x. DEREF n S w = Some x"
proof -
  obtain r :: "nat \<Rightarrow> nat" where r: "\<And>a t. mem S a = Ref t \<Longrightarrow> t \<noteq> a \<Longrightarrow> r t < r a"
    using assms by (auto simp: refs_end_def)
  have refs: "\<exists>n x. DEREF n S (Ref a) = Some x" for a
  proof (induction "r a" arbitrary: a rule: less_induct)
    case less
    show ?case
    proof (cases "\<exists>t. mem S a = Ref t \<and> t \<noteq> a")
      case True
      then obtain t where t: "mem S a = Ref t" "t \<noteq> a" by blast
      obtain n x where "DEREF n S (Ref t) = Some x" using less [OF r [OF t]] by blast
      hence "DEREF (Suc n) S (Ref a) = Some x" using t by simp
      thus ?thesis by blast
    next
      case False
      hence "DEREF 2 S (Ref a) = (if mem S a = Ref a then Some (Ref a) else Some (mem S a))"
        by (auto simp: numeral_2_eq_2 split: tword.split)
      hence "DEREF 2 S (Ref a) = Some (if mem S a = Ref a then Ref a else mem S a)" by simp
      thus ?thesis by blast
    qed
  qed
  show ?thesis
  proof (cases w)
    case (Ref a)
    thus ?thesis using refs by simp
  qed (auto intro: exI [of _ "Suc 0"])
qed

text \<open>What a dereferenced word is, under the invariants.\<close>

lemma valid_cell:
  assumes "wf_store S" "valid S (Ref a)"
  shows "valid S (mem S a)" "heap_word S (Ref a) \<Longrightarrow> heap_word S (mem S a)"
proof -
  have "allocated S a" "\<forall>f n. mem S a \<noteq> Sym f n" using assms(2) by (auto simp: valid_def)
  thus "valid S (mem S a)" using assms(1) by (auto simp: wf_store_def)
  assume "heap_word S (Ref a)"
  hence "a < heap_top S" by (simp add: heap_word_def)
  thus "heap_word S (mem S a)" using assms(1) by (simp add: wf_store_def)
qed

lemma deref_result:
  assumes wf: "wf_store S"
  shows "DEREF n S w = Some x \<Longrightarrow> valid S w \<Longrightarrow> valid S x \<and> (\<forall>V. sat S V \<longrightarrow> V w = V x) \<and>
    (\<forall>a. x = Ref a \<longrightarrow> mem S a = Ref a \<and> allocated S a) \<and> (heap_word S w \<longrightarrow> heap_word S x)"
proof (induction n arbitrary: w)
  case (Suc n)
  show ?case
  proof (cases "\<exists>a. w = Ref a \<and> mem S a \<noteq> Ref a")
    case True
    then obtain a where a: "w = Ref a" "mem S a \<noteq> Ref a" by blast
    hence step: "DEREF n S (mem S a) = Some x" using Suc.prems(1) by simp
    have v: "valid S (Ref a)" using Suc.prems(2) a by simp
    have ref: "V w = V (mem S a)" if "sat S V" for V unfolding a(1) by (rule satD(1) [OF that v])
    have "V w = V x" if "sat S V" for V using Suc.IH [OF step valid_cell(1) [OF wf v]] ref [OF that] that by simp
    thus ?thesis using Suc.IH [OF step valid_cell(1) [OF wf v]] valid_cell(2) [OF wf v] a by blast
  next
    case False
    hence "x = w" using Suc.prems(1) by (auto split: tword.splits)
    thus ?thesis using Suc.prems(2) False by (auto simp: valid_def)
  qed
qed simp

lemma bind_refs_end:
  assumes e: "refs_end S" and a: "mem S a = Ref a" and w: "\<And>b. w = Ref b \<Longrightarrow> mem S b = Ref b \<and> b \<noteq> a"
  shows "refs_end (bind a w S)"
proof -
  obtain r :: "nat \<Rightarrow> nat" where r: "\<And>x t. mem S x = Ref t \<Longrightarrow> t \<noteq> x \<Longrightarrow> r t < r x"
    using e by (auto simp: refs_end_def)
  define leads where "leads x \<longleftrightarrow> (\<exists>n. DEREF n S (Ref x) = Some (Ref a))" for x
  have step: "leads t = leads x" if "mem S x = Ref t" "t \<noteq> x" for x t
  proof
    assume "leads t"
    then obtain n where "DEREF n S (Ref t) = Some (Ref a)" by (auto simp: leads_def)
    hence "DEREF (Suc n) S (Ref x) = Some (Ref a)" using that by simp
    thus "leads x" unfolding leads_def by blast
  next
    assume "leads x"
    then obtain n where n: "DEREF n S (Ref x) = Some (Ref a)" by (auto simp: leads_def)
    then obtain k where "n = Suc k" by (cases n) auto
    hence "DEREF k S (Ref t) = Some (Ref a)" using n that by simp
    thus "leads t" unfolding leads_def by blast
  qed
  define b where "b = (case w of Ref b \<Rightarrow> b | _ \<Rightarrow> 0)"
  define r' where "r' x = r x + (if leads x then r b + 1 else 0)" for x
  have la: "leads a" using a unfolding leads_def by (intro exI [of _ 1]) simp
  have nl: "\<not> leads b" if "w = Ref b"
  proof
    assume "leads b"
    then obtain n where n: "DEREF n S (Ref b) = Some (Ref a)" by (auto simp: leads_def)
    then obtain k where "n = Suc k" by (cases n) auto
    thus False using n w [OF that] by simp
  qed
  have "r' t < r' x" if "mem (bind a w S) x = Ref t" "t \<noteq> x" for x t
  proof (cases "x = a")
    case True
    hence wb: "w = Ref t" using that by simp
    hence "t = b" by (simp add: b_def)
    thus ?thesis using True la nl wb by (simp add: r'_def)
  next
    case False
    hence m: "mem S x = Ref t" using that by simp
    show ?thesis using r [OF m that(2)] step [OF m that(2)] by (simp add: r'_def)
  qed
  thus ?thesis unfolding refs_end_def by blast
qed

lemma new_refs_end: "refs_end S \<Longrightarrow> refs_end (NEW_HEAP_FREE S)"
  unfolding refs_end_def by auto

end
