(* ===== verification/Unify.thy ===== *)
theory Unify
  imports Store
begin

text \<open>
  Unification (\<open>emu/unify.c\<close>) on stores without suspended variables: \<open>unify\<close>, its variants for known
  operands, the test for identity and the test for unifiability. There is no occurs check, so terms
  may become cyclic and a later unification may run forever; every definition has a bound on its
  recursion and its jumps, and \<open>Out_of_fuel\<close> is the result when it is used up. Where a suspended
  variable would be bound to a value or to another one, control passes to the code for domain
  variables, which is the result \<open>Suspended\<close>.
\<close>

section \<open>The functions\<close>

datatype 'a run = Out_of_fuel | Suspended | Done 'a

text \<open>Two free variables: the one at the higher address refers to the other one, two variables of the
  stack refer to a new variable on the heap.\<close>

definition bind_both :: "nat \<Rightarrow> nat \<Rightarrow> store \<Rightarrow> store" where
  "bind_both a b S =
     (let h = Ref (heap_top S);
          S = FOLLOW_assign a h (PUSHTRAIL_s a S);
          S = FOLLOW_assign b h (PUSHTRAIL_s b S)
      in NEW_HEAP_FREE S)"

definition unify_var_var :: "nat \<Rightarrow> nat \<Rightarrow> store \<Rightarrow> store" where
  "unify_var_var a b S =
     (if a \<noteq> b
      then if a < b
           then if a < heap_top S then bind b (Ref a) S else bind_both a b S
           else if b < heap_top S then bind a (Ref b) S else bind_both a b S
      else S)"

text \<open>\<open>unify_args\<close> is the loop over the arguments \<open>i..arity\<close>, the last of which is a jump.\<close>

function unify :: "nat \<Rightarrow> tword \<Rightarrow> tword \<Rightarrow> store \<Rightarrow> (bool \<times> store) run"
  and unify_args :: "nat \<Rightarrow> nat \<Rightarrow> nat \<Rightarrow> nat \<Rightarrow> nat \<Rightarrow> store \<Rightarrow> (bool \<times> store) run" where
  "unify 0 op1 op2 S = Out_of_fuel"
| "unify (Suc n) op1 op2 S = (case op1 of
       Ref a \<Rightarrow>
         (if mem S a \<noteq> Ref a then unify n (mem S a) op2 S
          else case DEREF n S op2 of
              None \<Rightarrow> Out_of_fuel
            | Some (Ref b) \<Rightarrow> Done (True, unify_var_var a b S)
            | Some (Susp b) \<Rightarrow> Done (True, bind a (Ref b) S)
            | Some op2 \<Rightarrow> Done (True, bind a op2 S))
     | Atm c \<Rightarrow> (case DEREF n S op2 of
           None \<Rightarrow> Out_of_fuel
         | Some (Ref b) \<Rightarrow> Done (True, bind b op1 S)
         | Some (Susp b) \<Rightarrow> Suspended
         | Some op2 \<Rightarrow> Done (op1 = op2, S))
     | Lst a \<Rightarrow> (case DEREF n S op2 of
           None \<Rightarrow> Out_of_fuel
         | Some (Ref b) \<Rightarrow> Done (True, bind b op1 S)
         | Some (Lst b) \<Rightarrow>
             (if a = b then Done (True, S)
              else case unify n (mem S a) (mem S b) S of
                  Done (True, S) \<Rightarrow> unify n (mem S (a + 1)) (mem S (b + 1)) S
                | r \<Rightarrow> r)
         | Some (Susp b) \<Rightarrow> Suspended
         | Some op2 \<Rightarrow> Done (False, S))
     | Str a \<Rightarrow> (case DEREF n S op2 of
           None \<Rightarrow> Out_of_fuel
         | Some (Ref b) \<Rightarrow> Done (True, bind b op1 S)
         | Some (Str b) \<Rightarrow>
             (if a = b then Done (True, S)
              else if mem S a \<noteq> mem S b then Done (False, S)
              else case mem S a of
                  Sym f arity \<Rightarrow> unify_args n a b 1 arity S
                | _ \<Rightarrow> Done (False, S))
         | Some (Susp b) \<Rightarrow> Suspended
         | Some op2 \<Rightarrow> Done (False, S))
     | Susp a \<Rightarrow> (case DEREF n S op2 of
           None \<Rightarrow> Out_of_fuel
         | Some (Ref b) \<Rightarrow> Done (True, bind b (Ref a) S)
         | Some (Susp b) \<Rightarrow> if a = b then Done (True, S) else Suspended
         | Some op2 \<Rightarrow> Suspended)
     | Sym f k \<Rightarrow> Done (False, S))"
| "unify_args n a b i arity S =
     (if i < arity
      then case unify n (mem S (a + i)) (mem S (b + i)) S of
          Done (True, S) \<Rightarrow> unify_args n a b (i + 1) arity S
        | r \<Rightarrow> r
      else unify n (mem S (a + arity)) (mem S (b + arity)) S)"
  by pat_completeness auto
termination
  by (relation "measures [case_sum (\<lambda>(n, op1, op2, S). n) (\<lambda>(n, a, b, i, arity, S). n),
      case_sum (\<lambda>_. 0) (\<lambda>_. 1), case_sum (\<lambda>_. 0) (\<lambda>(n, a, b, i, arity, S). arity - i)]") auto

declare unify_args.simps [simp del]

section \<open>Binding two variables\<close>

text \<open>What one step of unification keeps: a well-formed store, references that end, and a trail from
  which the bindings can be undone.\<close>

definition step_ok :: "store \<Rightarrow> store \<Rightarrow> bool" where
  "step_ok S S' \<longleftrightarrow> wf_store S' \<and> binds S S' \<and> (refs_end S \<longrightarrow> refs_end S')"

lemma step_ok_refl: "wf_store S \<Longrightarrow> step_ok S S"
  by (simp add: step_ok_def binds_refl)

lemma step_ok_trans: "wf_store S \<Longrightarrow> step_ok S S1 \<Longrightarrow> step_ok S1 S2 \<Longrightarrow> step_ok S S2"
  using binds_trans unfolding step_ok_def by blast

text \<open>An unbound variable and a word it is bound to.\<close>

definition unbound :: "store \<Rightarrow> nat \<Rightarrow> bool" where
  "unbound S a \<longleftrightarrow> mem S a = Ref a \<and> allocated S a"

lemma bind_step:
  assumes wf: "wf_store S" and a: "unbound S a" and w: "valid S w" "a < heap_top S \<Longrightarrow> heap_word S w"
    and root: "\<And>b. w = Ref b \<Longrightarrow> unbound S b \<and> b \<noteq> a"
  shows "step_ok S (bind a w S)" "solves S [(Ref a, w)] (bind a w S)"
proof -
  have nsym: "\<forall>f n. w \<noteq> Sym f n" using w(1) by (auto simp: valid_def)
  have a': "mem S a = Ref a" "allocated S a" using a by (auto simp: unbound_def)
  show "step_ok S (bind a w S)"
    using bind_wf [OF wf a' w] bind_binds [OF a'(1) nsym] bind_refs_end [OF _ a'(1)] root
    by (auto simp: step_ok_def unbound_def simp del: bind_simps)
  show "solves S [(Ref a, w)] (bind a w S)" by (rule bind_solves [OF a' w(1)])
qed

lemma bind_both_eq:
  assumes wf: "wf_store S" and a: "\<not> a < heap_top S" "\<not> b < heap_top S" "a \<noteq> heap_top S" "b \<noteq> heap_top S"
  shows "bind_both a b S = bind b (Ref (heap_top S)) (bind a (Ref (heap_top S)) (NEW_HEAP_FREE S))"
proof -
  have old: "\<not> a < hbreg S" "\<not> b < hbreg S" using wf a by (auto simp: wf_store_def)
  have m: "((mem S)(a := h, b := h, t := Ref t)) = ((mem S)(t := Ref t, a := h, b := h))"
    if "t \<noteq> a" "t \<noteq> b" for h t using that by auto
  show ?thesis
    using old a(3,4) m [of "heap_top S" "Ref (heap_top S)"]
    by (simp add: bind_both_def bind_def PUSHTRAIL_s_def PUSHTRAIL_def FOLLOW_assign_def NEW_HEAP_FREE_def Let_def)
qed

lemma bind_both_step:
  assumes wf: "wf_store S" and a: "unbound S a" "\<not> a < heap_top S" and b: "unbound S b" "\<not> b < heap_top S" "a \<noteq> b"
    and room: "heap_top S < local_top S"
  shows "step_ok S (bind_both a b S)" "solves S [(Ref a, Ref b)] (bind_both a b S)"
proof -
  let ?h = "heap_top S" and ?S1 = "NEW_HEAP_FREE S"
  define S2 where "S2 = bind a (Ref ?h) ?S1"
  define S3 where "S3 = bind b (Ref ?h) S2"
  have ne: "a \<noteq> ?h" "b \<noteq> ?h" using a b room by (auto simp: unbound_def allocated_def)
  have eq: "bind_both a b S = S3" unfolding S3_def S2_def by (rule bind_both_eq [OF wf a(2) b(2) ne])
  have s1: "step_ok S ?S1" using new_wf [OF wf room] new_binds [OF wf room] new_refs_end by (simp add: step_ok_def)
  hence wf1: "wf_store ?S1" by (simp add: step_ok_def)
  have u1: "unbound ?S1 a" "unbound ?S1 ?h" "unbound ?S1 b"
    using a b ne new_allocated [OF room] by (auto simp: unbound_def)
  have h1: "valid ?S1 (Ref ?h)" "heap_word ?S1 (Ref ?h)" by (simp_all add: valid_def allocated_def heap_word_def)
  note b2 = bind_step [OF wf1 u1(1) h1(1), folded S2_def]
  have s2: "step_ok ?S1 S2" "solves ?S1 [(Ref a, Ref ?h)] S2" by (rule b2; use h1 u1 ne in simp)+
  hence wf2: "wf_store S2" by (simp add: step_ok_def)
  have u2: "unbound S2 ?h" "unbound S2 b" using u1 ne b(3) by (auto simp: S2_def unbound_def allocated_def)
  have h2: "valid S2 (Ref ?h)" "heap_word S2 (Ref ?h)" using h1 u2 by (auto simp: valid_def unbound_def heap_word_def S2_def)
  note b3 = bind_step [OF wf2 u2(2) h2(1), folded S3_def]
  have s3: "step_ok S2 S3" "solves S2 [(Ref b, Ref ?h)] S3" by (rule b3; use h2 u2 ne in simp)+
  show "step_ok S (bind_both a b S)"
    unfolding eq using step_ok_trans [OF wf step_ok_trans [OF wf s1 s2(1)] s3(1)] .
  show "solves S [(Ref a, Ref b)] (bind_both a b S)"
    unfolding eq
  proof (rule solvesI)
    fix V assume "sat S3 V"
    hence "sat S2 V" "V (Ref b) = V (Ref ?h)" using solvesD [OF s3(2)] by auto
    moreover have "sat ?S1 V" "V (Ref a) = V (Ref ?h)" using solvesD [OF s2(2) ] calculation(1) by auto
    ultimately show "sat S V" "equal_under V [(Ref a, Ref b)]"
      using sat_back [OF new_binds [OF wf room]] by auto
  next
    fix V assume V: "sat S V" "equal_under V [(Ref a, Ref b)]"
    define E where "E = extend S V (V (Ref a))"
    have s: "sat ?S1 E" unfolding E_def by (rule extend_sat [OF wf room V(1)])
    have v: "valid S (Ref a)" "valid S (Ref b)" using a b by (auto simp: unbound_def valid_def)
    have e: "E (Ref a) = E (Ref ?h)" "E (Ref b) = E (Ref ?h)"
      using extend_old [OF v(1)] extend_old [OF v(2)] extend_new [OF room] V(2) by (simp_all add: E_def)
    have "sat S2 E" unfolding S2_def using bind_sat [of ?S1 a "Ref ?h" E] s e(1) h1(1) u1(1) by (simp add: unbound_def)
    hence "sat S3 E" unfolding S3_def using bind_sat [of S2 b "Ref ?h" E] e(2) h2(1) u2(2) by (simp add: unbound_def)
    thus "\<exists>V'. sat S3 V' \<and> (\<forall>w. valid S w \<longrightarrow> V' w = V w)" using extend_old by (auto simp: E_def)
  qed
qed

lemma unify_var_var_step:
  assumes wf: "wf_store S" and a: "unbound S a" and b: "unbound S b"
    and room: "a < heap_top S \<and> b < heap_top S \<or> heap_top S < local_top S"
  shows "step_ok S (unify_var_var a b S)" "solves S [(Ref a, Ref b)] (unify_var_var a b S)"
proof -
  have v: "valid S (Ref a)" "valid S (Ref b)" using a b by (auto simp: unbound_def valid_def)
  have ba: "step_ok S (bind b (Ref a) S)" "solves S [(Ref a, Ref b)] (bind b (Ref a) S)" if "a < b" "a < heap_top S"
  proof -
    note s = bind_step [OF wf b v(1)]
    show "step_ok S (bind b (Ref a) S)" by (rule s; use that a in \<open>simp add: heap_word_def\<close>)
    have "solves S [(Ref b, Ref a)] (bind b (Ref a) S)" by (rule s; use that a in \<open>simp add: heap_word_def\<close>)
    thus "solves S [(Ref a, Ref b)] (bind b (Ref a) S)" by (simp only: solves_swap(1) [of S "Ref b"])
  qed
  have ab: "step_ok S (bind a (Ref b) S)" "solves S [(Ref a, Ref b)] (bind a (Ref b) S)" if "b < a" "b < heap_top S"
    by (rule bind_step [OF wf a v(2)]; use that b in \<open>simp add: heap_word_def\<close>)+
  have both: "step_ok S (bind_both a b S)" "solves S [(Ref a, Ref b)] (bind_both a b S)"
    if "\<not> a < heap_top S" "\<not> b < heap_top S" "a \<noteq> b"
    using bind_both_step [OF wf a that(1) b that(2,3)] room that by auto
  have same: "solves S [(Ref a, Ref a)] S" using solves_cong(1) [of S "[(Ref a, Ref a)]" "[]" S] solves_nil by simp
  show "step_ok S (unify_var_var a b S)"
    using ba(1) ab(1) both(1) step_ok_refl [OF wf] by (auto simp: unify_var_var_def)
  show "solves S [(Ref a, Ref b)] (unify_var_var a b S)"
    using ba(2) ab(2) both(2) same by (auto simp: unify_var_var_def)
qed

section \<open>Unification computes the most general instance\<close>

definition result_ok :: "store \<Rightarrow> (tword \<times> tword) list \<Rightarrow> (bool \<times> store) run \<Rightarrow> bool" where
  "result_ok S eqs r = (case r of
       Out_of_fuel \<Rightarrow> True
     | Suspended \<Rightarrow> False
     | Done (b, S') \<Rightarrow> step_ok S S' \<and> (if b then solves S eqs S' else unsolvable S eqs))"

lemma result_ok_cong:
  assumes "\<And>V. sat S V \<Longrightarrow> equal_under V e \<longleftrightarrow> equal_under V e'"
  shows "result_ok S e r = result_ok S e' r"
proof -
  have "solves S e S' = solves S e' S'" "unsolvable S e = unsolvable S e'" for S'
    by (rule solves_cong; use assms in blast)+
  thus ?thesis by (cases r) (simp_all add: result_ok_def split: prod.split)
qed

lemma result_ok_then:
  assumes wf: "wf_store S" and r: "result_ok S e1 r" and v: "valid_eqs S e2"
    and f: "\<And>S1. r = Done (True, S1) \<Longrightarrow> step_ok S S1 \<Longrightarrow> result_ok S1 e2 (f S1)"
  shows "result_ok S (e1 @ e2) (case r of Done (True, S) \<Rightarrow> f S | r \<Rightarrow> r)"
proof (cases r)
  case (Done d)
  obtain b S1 where d: "d = (b, S1)" by fastforce
  have s1: "step_ok S S1" and e1: "if b then solves S e1 S1 else unsolvable S e1"
    using r by (auto simp: result_ok_def Done d)
  show ?thesis
  proof (cases b)
    case False
    thus ?thesis using s1 e1 unsolvable_left by (simp add: Done d result_ok_def)
  next
    case True
    have ok: "result_ok S1 e2 (f S1)" using f s1 by (simp add: Done d True)
    have b1: "binds S S1" using s1 by (simp add: step_ok_def)
    have "solves S e1 S1" using e1 True by simp
    thus ?thesis
      using ok step_ok_trans [OF wf s1] solves_append [OF b1 _ _ v] unsolvable_append [OF _ _ v]
      by (auto simp: Done d True result_ok_def split: run.splits prod.splits if_splits)
  qed
qed (use r in \<open>auto simp: result_ok_def\<close>)

lemma result_ok_true: "step_ok S S' \<Longrightarrow> solves S e S' \<Longrightarrow> result_ok S e (Done (True, S'))"
  by (simp add: result_ok_def)

lemma result_ok_false: "wf_store S \<Longrightarrow> unsolvable S e \<Longrightarrow> result_ok S e (Done (False, S))"
  by (simp add: result_ok_def step_ok_refl)

lemma result_ok_same:
  assumes "wf_store S" "\<And>V. sat S V \<Longrightarrow> V u = V v"
  shows "result_ok S [(u, v)] (Done (True, S))"
  using assms solves_cong(1) [of S "[(u, v)]" "[]" S] solves_nil step_ok_refl by (simp add: result_ok_def)

lemma result_ok_refl: "wf_store S \<Longrightarrow> result_ok S [(w, w)] (Done (True, S))"
  by (rule result_ok_same) auto

text \<open>Words of different kinds have no common value.\<close>

lemma clash:
  assumes "\<And>V. sat S V \<Longrightarrow> V u \<noteq> V v"
  shows "unsolvable S [(u, v)]"
  using assms by (auto simp: unsolvable_def)

text \<open>What a non-variable word denotes.\<close>

lemma value_Str:
  assumes "sat S V" "valid S (Str a)"
  shows "\<exists>f n. mem S a = Sym f n \<and> 0 < n \<and> V (Str a) = Fun_tree f (map V (args S a n))"
  using assms satD(4) [OF assms] by (auto simp: valid_def split: tword.splits)

lemma kinds_differ:
  assumes s: "sat S V" and v: "valid S u" "valid S v" and k: "\<forall>a. u \<noteq> Ref a" "\<forall>b. v \<noteq> Ref b"
    and d: "(\<exists>c. u = Atm c) \<noteq> (\<exists>c. v = Atm c) \<or> (\<exists>a. u = Lst a) \<noteq> (\<exists>a. v = Lst a)"
  shows "V u \<noteq> V v"
proof -
  have value_of: "(\<exists>c. w = Atm c \<and> V w = Atm_tree c) \<or> (\<exists>a x y. w = Lst a \<and> V w = List_tree x y) \<or> (\<exists>a f ts. w = Str a \<and> V w = Fun_tree f ts)"
    if "valid S w" "\<forall>a. w \<noteq> Ref a" for w
  proof (cases w)
    case (Str a)
    thus ?thesis using value_Str [OF s] that by blast
  qed (use that satD [OF s] in \<open>auto simp: valid_def\<close>)
  show ?thesis using value_of [OF v(1) k(1)] value_of [OF v(2) k(2)] d by fastforce
qed

text \<open>The equations between the arguments \<open>i..n\<close> of two structures.\<close>

definition arg_eqs :: "nat \<Rightarrow> nat \<Rightarrow> nat \<Rightarrow> nat \<Rightarrow> (tword \<times> tword) list" where
  "arg_eqs a b i n = map (\<lambda>j. (Ref (a + j), Ref (b + j))) [i..<n + 1]"

lemma arg_valid:
  assumes "valid S (Str a)" "mem S a = Sym f n" "1 \<le> i" "i \<le> n"
  shows "valid S (Ref (a + i))" "heap_word S (Ref (a + i))"
  using assms by (auto simp: valid_def allocated_def heap_word_def)

lemma equal_under_map: "equal_under V (map (\<lambda>j. (g j, h j)) js) \<longleftrightarrow> (\<forall>j\<in>set js. V (g j) = V (h j))"
  by (induction js) auto

lemma structures_equal:
  assumes s: "sat S V" and v: "valid S (Str a)" "valid S (Str b)" and m: "mem S a = Sym f n" "mem S b = Sym f n"
  shows "V (Str a) = V (Str b) \<longleftrightarrow> equal_under V (arg_eqs a b 1 n)"
proof -
  have "map V (args S c n) = map (\<lambda>i. V (Ref (c + i))) [1..<n + 1]" if "valid S (Str c)" "mem S c = Sym f n" for c
    unfolding args_def map_map
  proof (rule map_cong [OF refl])
    fix i assume "i \<in> set [1..<n + 1]"
    hence "1 \<le> i" "i \<le> n" by auto
    hence "valid S (Ref (c + i))" using arg_valid [OF that] by blast
    thus "(V \<circ> (\<lambda>i. mem S (c + i))) i = V (Ref (c + i))" using satD(1) [OF s] by simp
  qed
  thus ?thesis
    unfolding satD(4) [OF s v(1) m(1)] satD(4) [OF s v(2) m(2)] arg_eqs_def equal_under_map
    using v m by simp
qed

lemma lists_equal:
  assumes s: "sat S V" and v: "valid S (Lst a)" "valid S (Lst b)"
  shows "V (Lst a) = V (Lst b) \<longleftrightarrow> equal_under V ([(Ref a, Ref b)] @ [(Ref (a + 1), Ref (b + 1))])"
proof -
  have "valid S (Ref c) \<and> valid S (Ref (c + 1))" if "valid S (Lst c)" for c
    using that by (auto simp: valid_def allocated_def dest: spec [of _ "0 :: nat"] spec [of _ "1 :: nat"])
  thus ?thesis using satD(3) [OF s v(1)] satD(3) [OF s v(2)] satD(1) [OF s] v by simp
qed

text \<open>Unless both words are on the heap, a cell must be free for a new variable.\<close>

definition room_for :: "store \<Rightarrow> tword \<Rightarrow> tword \<Rightarrow> bool" where
  "room_for S u v \<longleftrightarrow> heap_word S u \<and> heap_word S v \<or> heap_top S < local_top S"

lemma bind_var_ok:
  assumes wf: "wf_store S" and d: "DEREF n S v = Some (Ref b)" and v: "valid S u" "valid S v" and u: "\<forall>a. u \<noteq> Ref a"
  shows "result_ok S [(u, v)] (Done (True, bind b u S))"
proof -
  have r: "unbound S b" "\<And>V. sat S V \<Longrightarrow> V v = V (Ref b)" using deref_result [OF wf d v(2)] by (auto simp: unbound_def)
  note s = bind_step [OF wf r(1) v(1)]
  have "step_ok S (bind b u S)" "solves S [(Ref b, u)] (bind b u S)" by (rule s; use u in \<open>simp add: heap_word_def\<close>)+
  hence "result_ok S [(Ref b, u)] (Done (True, bind b u S))" by (rule result_ok_true)
  thus ?thesis by (rule result_ok_cong [THEN iffD1, rotated]) (auto dest!: r(2))
qed

definition correct_at :: "nat \<Rightarrow> bool" where
  "correct_at n \<longleftrightarrow> (\<forall>S u v. wf_store S \<longrightarrow> valid S u \<longrightarrow> valid S v \<longrightarrow> room_for S u v \<longrightarrow>
     result_ok S [(u, v)] (unify n u v S))"

lemma correct_atD:
  assumes "correct_at n" "wf_store S" "valid S u" "valid S v" "room_for S u v"
  shows "result_ok S [(u, v)] (unify n u v S)"
  using assms by (simp add: correct_at_def)

text \<open>Two cells of the heap: their contents are unified.\<close>

lemma unify_cells:
  assumes c: "correct_at n" and wf: "wf_store S" and v: "valid S (Ref x)" "valid S (Ref y)"
    and h: "heap_word S (Ref x)" "heap_word S (Ref y)"
  shows "result_ok S [(Ref x, Ref y)] (unify n (mem S x) (mem S y) S)"
proof -
  have "result_ok S [(mem S x, mem S y)] (unify n (mem S x) (mem S y) S)"
    by (rule correct_atD [OF c wf]) (use valid_cell [OF wf v(1)] valid_cell [OF wf v(2)] h in \<open>auto simp: room_for_def\<close>)
  moreover have "equal_under V [(mem S x, mem S y)] = equal_under V [(Ref x, Ref y)]" if "sat S V" for V
    unfolding equal_under.simps satD(1) [OF that v(1)] satD(1) [OF that v(2)] by simp
  ultimately show ?thesis using result_ok_cong by blast
qed

lemma step_cell:
  assumes "step_ok S S1" "valid S (Ref x)" "heap_word S (Ref x)"
  shows "valid S1 (Ref x)" "heap_word S1 (Ref x)"
proof -
  have b: "binds S S1" using assms(1) by (simp add: step_ok_def)
  thus "valid S1 (Ref x)" using assms(2) binds_valid by blast
  have "heap_top S \<le> heap_top S1" using b by (simp add: binds_def)
  thus "heap_word S1 (Ref x)" using assms(3) by (simp add: heap_word_def)
qed

lemma unify_args_correct:
  assumes c: "correct_at n"
  shows "\<lbrakk> wf_store S; \<forall>j\<in>{i..arity}. \<forall>x\<in>{a, b}. valid S (Ref (x + j)) \<and> heap_word S (Ref (x + j)); i \<le> arity \<rbrakk>
    \<Longrightarrow> result_ok S (arg_eqs a b i arity) (unify_args n a b i arity S)"
proof (induction "arity - i" arbitrary: i S)
  case 0
  hence "arg_eqs a b i arity = [(Ref (a + arity), Ref (b + arity))]" by (simp add: arg_eqs_def)
  moreover have "result_ok S [(Ref (a + arity), Ref (b + arity))] (unify n (mem S (a + arity)) (mem S (b + arity)) S)"
    by (rule unify_cells [OF c]) (use 0 in auto)
  ultimately show ?case using 0 by (simp add: unify_args.simps [of n a b _ _ S])
next
  case (Suc k)
  have i: "i < arity" using Suc(2) by simp
  have eqs: "arg_eqs a b i arity = [(Ref (a + i), Ref (b + i))] @ arg_eqs a b (i + 1) arity"
    using i by (simp add: arg_eqs_def upt_rec [of i])
  have v: "valid_eqs S (arg_eqs a b (i + 1) arity)" using Suc.prems(2) by (auto simp: valid_eqs_def arg_eqs_def)
  have first: "result_ok S [(Ref (a + i), Ref (b + i))] (unify n (mem S (a + i)) (mem S (b + i)) S)"
    by (rule unify_cells [OF c Suc.prems(1)]) (use Suc.prems(2) i in auto)
  have rest: "result_ok S1 (arg_eqs a b (i + 1) arity) (unify_args n a b (i + 1) arity S1)" if "step_ok S S1" for S1
  proof (rule Suc.hyps(1))
    show "k = arity - (i + 1)" using Suc(2) by simp
    show "wf_store S1" using that by (simp add: step_ok_def)
    show "\<forall>j\<in>{i + 1..arity}. \<forall>x\<in>{a, b}. valid S1 (Ref (x + j)) \<and> heap_word S1 (Ref (x + j))"
      using Suc.prems(2) step_cell [OF that] by auto
    show "i + 1 \<le> arity" using i by simp
  qed
  show ?case
    unfolding eqs unify_args.simps [of n a b i arity S] if_P [OF i]
    by (rule result_ok_then [OF Suc.prems(1) first v rest])
qed

lemma unify_structures:
  assumes c: "correct_at n" and wf: "wf_store S" and v: "valid S (Str a)" "valid S (Str b)"
  shows "result_ok S [(Str a, Str b)] (if a = b then Done (True, S)
    else if mem S a \<noteq> mem S b then Done (False, S)
    else case mem S a of Sym f arity \<Rightarrow> unify_args n a b 1 arity S | _ \<Rightarrow> Done (False, S))"
proof -
  obtain f n' where ma: "mem S a = Sym f n'" "0 < n'" using v(1) by (auto simp: valid_def split: tword.splits)
  obtain g k where mb: "mem S b = Sym g k" using v(2) by (auto simp: valid_def split: tword.splits)
  have len: "V (Str a) \<noteq> V (Str b)" if "sat S V" "Sym f n' \<noteq> Sym g k" for V
    using satD(4) [OF that(1) v(1) ma(1)] satD(4) [OF that(1) v(2) mb] that(2) by (auto simp: args_def dest: map_eq_imp_length_eq)
  have args: "result_ok S [(Str a, Str b)] (unify_args n a b 1 n' S)" if "Sym f n' = Sym g k"
  proof -
    have mb': "mem S b = Sym f n'" using mb that by simp
    have "\<forall>j\<in>{1..n'}. \<forall>x\<in>{a, b}. valid S (Ref (x + j)) \<and> heap_word S (Ref (x + j))"
      using arg_valid [OF v(1) ma(1)] arg_valid [OF v(2) mb'] by auto
    hence "result_ok S (arg_eqs a b 1 n') (unify_args n a b 1 n' S)"
      using unify_args_correct [OF c wf] ma(2) by simp
    thus ?thesis
      by (rule result_ok_cong [THEN iffD1, rotated]) (use structures_equal [OF _ v ma(1) mb'] in simp)
  qed
  show ?thesis
    using result_ok_refl [OF wf, of "Str b"] result_ok_false [OF wf clash, of "Str a" "Str b"] len args
    by (simp add: ma(1) mb)
qed

lemma unify_lists:
  assumes c: "correct_at n" and wf: "wf_store S" and v: "valid S (Lst a)" "valid S (Lst b)"
  shows "result_ok S [(Lst a, Lst b)] (if a = b then Done (True, S)
    else case unify n (mem S a) (mem S b) S of
        Done (True, S) \<Rightarrow> unify n (mem S (a + 1)) (mem S (b + 1)) S
      | r \<Rightarrow> r)"
proof -
  have cell: "valid S (Ref x) \<and> heap_word S (Ref x)" if "x \<in> {a, a + 1, b, b + 1}" for x
    using that v by (auto simp: valid_def allocated_def heap_word_def dest: spec [of _ "0 :: nat"] spec [of _ "1 :: nat"])
  have eqs: "valid_eqs S [(Ref (a + 1), Ref (b + 1))]" using cell by (simp add: valid_eqs_def)
  have first: "result_ok S [(Ref a, Ref b)] (unify n (mem S a) (mem S b) S)"
    by (rule unify_cells [OF c wf]) (use cell in auto)
  have rest: "result_ok S1 [(Ref (a + 1), Ref (b + 1))] (unify n (mem S1 (a + 1)) (mem S1 (b + 1)) S1)" if "step_ok S S1" for S1
    by (rule unify_cells [OF c]) (use cell step_cell [OF that] that in \<open>auto simp: step_ok_def\<close>)
  have "result_ok S ([(Ref a, Ref b)] @ [(Ref (a + 1), Ref (b + 1))]) (case unify n (mem S a) (mem S b) S of
      Done (True, S) \<Rightarrow> unify n (mem S (a + 1)) (mem S (b + 1)) S | r \<Rightarrow> r)"
    by (rule result_ok_then [OF wf first eqs rest])
  hence "result_ok S [(Lst a, Lst b)] (case unify n (mem S a) (mem S b) S of
      Done (True, S) \<Rightarrow> unify n (mem S (a + 1)) (mem S (b + 1)) S | r \<Rightarrow> r)"
    by (rule result_ok_cong [THEN iffD1, rotated]) (use lists_equal [OF _ v] in simp)
  thus ?thesis using result_ok_refl [OF wf, of "Lst b"] by simp
qed

lemma unify_correct: "correct_at n"
proof (induction n)
  case 0
  show ?case by (simp add: correct_at_def result_ok_def)
next
  case (Suc n)
  show ?case
    unfolding correct_at_def
  proof (intro allI impI)
    fix S u v
    assume wf: "wf_store S" and v: "valid S u" "valid S v" and room: "room_for S u v"
    show "result_ok S [(u, v)] (unify (Suc n) u v S)"
    proof (cases "\<exists>a. u = Ref a \<and> mem S a \<noteq> Ref a")
      case True
      then obtain a where a: "u = Ref a" "mem S a \<noteq> Ref a" by blast
      have va: "valid S (Ref a)" using v(1) a by simp
      have "result_ok S [(mem S a, v)] (unify n (mem S a) v S)"
        by (rule correct_atD [OF Suc wf valid_cell(1) [OF wf va] v(2)])
          (use room valid_cell(2) [OF wf va] a in \<open>auto simp: room_for_def\<close>)
      moreover have "equal_under V [(mem S a, v)] = equal_under V [(u, v)]" if "sat S V" for V
        unfolding equal_under.simps a(1) satD(1) [OF that va] by simp
      ultimately have "result_ok S [(u, v)] (unify n (mem S a) v S)" using result_ok_cong by blast
      thus ?thesis using a by simp
    next
      case bound: False
      show ?thesis
      proof (cases "DEREF n S v")
        case None
        thus ?thesis using bound v(1) by (auto simp: result_ok_def valid_def split: tword.split)
      next
        case (Some x)
        note d = deref_result [OF wf Some v(2)]
        have x: "valid S x" "\<And>V. sat S V \<Longrightarrow> V v = V x" using d by auto
        have via_x: "result_ok S [(u, x)] r \<Longrightarrow> result_ok S [(u, v)] r" for r
        proof -
          assume r: "result_ok S [(u, x)] r"
          have "equal_under V [(u, x)] = equal_under V [(u, v)]" if "sat S V" for V
            unfolding equal_under.simps x(2) [OF that] ..
          thus ?thesis using r result_ok_cong by blast
        qed
        have clash_x: "result_ok S [(u, v)] (Done (False, S))"
          if "\<forall>a. u \<noteq> Ref a" "\<forall>b. x \<noteq> Ref b" "(\<exists>c. u = Atm c) \<noteq> (\<exists>c. x = Atm c) \<or> (\<exists>a. u = Lst a) \<noteq> (\<exists>a. x = Lst a)"
          by (rule via_x, rule result_ok_false [OF wf clash]) (rule kinds_differ [OF _ v(1) x(1) that])
        have var: "result_ok S [(u, v)] (Done (True, bind b u S))" if "x = Ref b" "\<forall>a. u \<noteq> Ref a" for b
          by (rule bind_var_ok [OF wf _ v that(2)]) (use Some that in simp)
        show ?thesis
        proof (cases u)
          case (Ref a)
          hence a: "unbound S a" using bound v(1) by (auto simp: unbound_def valid_def)
          show ?thesis
          proof (cases "\<exists>b. x = Ref b")
            case True
            then obtain b where b: "x = Ref b" by blast
            hence ub: "unbound S b" using d by (simp add: unbound_def)
            have "a < heap_top S \<and> b < heap_top S \<or> heap_top S < local_top S"
              using room d b Ref by (auto simp: room_for_def heap_word_def)
            from unify_var_var_step [OF wf a ub this]
            have "result_ok S [(u, x)] (Done (True, unify_var_var a b S))" unfolding Ref b by (rule result_ok_true)
            thus ?thesis using via_x Some b Ref a by (simp add: unbound_def)
          next
            case False
            have "result_ok S [(u, x)] (Done (True, bind a x S))" unfolding Ref
              by (rule result_ok_true; rule bind_step [OF wf a x(1)]; use False in \<open>simp add: heap_word_def\<close>)
            thus ?thesis using via_x Some Ref a x(1) False
              by (auto simp: unbound_def valid_def split: tword.split)
          qed
        next
          case (Atm c)
          show ?thesis
          proof (cases "\<exists>e. x = Atm e")
            case True
            then obtain e where e: "x = Atm e" by blast
            have "V (Atm c) \<noteq> V (Atm e)" if "sat S V" "c \<noteq> e" for V
              using satD(2) [OF that(1), of c] satD(2) [OF that(1), of e] that(2) by simp
            hence "result_ok S [(u, x)] (Done (c = e, S))"
              using result_ok_refl [OF wf, of u] result_ok_false [OF wf clash, of u x] by (cases "c = e") (simp_all add: Atm e)
            thus ?thesis using via_x Some Atm e by simp
          next
            case False
            thus ?thesis using clash_x var Some Atm x(1) by (cases x) (auto simp: valid_def)
          qed
        next
          case (Lst a)
          show ?thesis
          proof (cases "\<exists>b. x = Lst b")
            case True
            then obtain b where b: "x = Lst b" by blast
            show ?thesis using via_x [unfolded Lst b, OF unify_lists [OF Suc wf]] v(1) x(1) Some by (simp add: Lst b)
          next
            case False
            thus ?thesis using clash_x var Some Lst x(1) by (cases x) (auto simp: valid_def)
          qed
        next
          case (Str a)
          show ?thesis
          proof (cases "\<exists>b. x = Str b")
            case True
            then obtain b where b: "x = Str b" by blast
            show ?thesis using via_x [unfolded Str b, OF unify_structures [OF Suc wf]] v(1) x(1) Some by (simp add: Str b)
          next
            case False
            thus ?thesis using clash_x var Some Str x(1) by (cases x) (auto simp: valid_def)
          qed
        qed (use v(1) in \<open>simp_all add: valid_def\<close>)
      qed
    qed
  qed
qed

section \<open>More fuel does not change a result\<close>

lemma unify_Lst_Lst: "DEREF n S v = Some (Lst b) \<Longrightarrow> a \<noteq> b \<Longrightarrow>
  unify (Suc n) (Lst a) v S = (case unify n (mem S a) (mem S b) S of
      Done (True, S) \<Rightarrow> unify n (mem S (a + 1)) (mem S (b + 1)) S
    | r \<Rightarrow> r)"
  by simp

lemma unify_Str_Str: "DEREF n S v = Some (Str b) \<Longrightarrow>
  unify (Suc n) (Str a) v S = (if a = b then Done (True, S)
    else if mem S a \<noteq> mem S b then Done (False, S)
    else case mem S a of Sym f arity \<Rightarrow> unify_args n a b 1 arity S | _ \<Rightarrow> Done (False, S))"
  by simp

definition mono_at :: "nat \<Rightarrow> bool" where
  "mono_at n \<longleftrightarrow> (\<forall>u v S. unify n u v S \<noteq> Out_of_fuel \<longrightarrow> unify (Suc n) u v S = unify n u v S)"

lemma mono_atD: "mono_at n \<Longrightarrow> unify n u v S \<noteq> Out_of_fuel \<Longrightarrow> unify (Suc n) u v S = unify n u v S"
  by (simp add: mono_at_def)

lemma unify_args_mono:
  assumes m: "mono_at n"
  shows "unify_args n a b i arity S \<noteq> Out_of_fuel \<Longrightarrow> unify_args (Suc n) a b i arity S = unify_args n a b i arity S"
proof (induction "arity - i" arbitrary: i S)
  case 0
  thus ?case using mono_atD [OF m] by (simp add: unify_args.simps [of _ a b i arity S] del: unify.simps)
next
  case (Suc k)
  have i: "i < arity" and k: "k = arity - (i + 1)" using Suc(2) by auto
  have "unify n (mem S (a + i)) (mem S (b + i)) S \<noteq> Out_of_fuel"
    using Suc.prems i by (auto simp: unify_args.simps [of _ a b i arity S] simp del: unify.simps)
  note first = mono_atD [OF m this]
  show ?case
    using Suc.prems i Suc.hyps(1) [OF k]
    by (auto simp: unify_args.simps [of _ a b i arity S] first simp del: unify.simps split: run.splits bool.splits)
qed

lemma unify_mono_step: "mono_at n"
proof (induction n)
  case 0
  show ?case by (simp add: mono_at_def)
next
  case (Suc n)
  show ?case
    unfolding mono_at_def
  proof (intro allI impI)
    fix u v S
    assume ne: "unify (Suc n) u v S \<noteq> Out_of_fuel"
    have d: "DEREF (Suc n) S v = DEREF n S v" if "DEREF n S v \<noteq> None"
      using that deref_mono [of n S v _ "Suc n"] by auto
    show "unify (Suc (Suc n)) u v S = unify (Suc n) u v S"
    proof (cases "\<exists>a. u = Ref a \<and> mem S a \<noteq> Ref a")
      case True
      then obtain a where a: "u = Ref a" "mem S a \<noteq> Ref a" by blast
      have "unify n (mem S a) v S \<noteq> Out_of_fuel" using ne a by simp
      from mono_atD [OF Suc this] show ?thesis using a by (simp del: unify.simps add: unify.simps(2) [of "Suc n"] unify.simps(2) [of n])
    next
      case False
      show ?thesis
      proof (cases "\<exists>f k. u = Sym f k")
        case True
        thus ?thesis by auto
      next
        case other: False
        hence "DEREF n S v \<noteq> None" using ne False other by (cases "DEREF n S v"; cases u) auto
        then obtain x where x: "DEREF n S v = Some x" "DEREF (Suc n) S v = Some x" using d by auto
        have lst: "unify (Suc n) u v S = unify (Suc (Suc n)) u v S" if l: "u = Lst a" "x = Lst b" "a \<noteq> b" for a b
        proof -
          note e = unify_Lst_Lst [OF x(1) [unfolded l] l(3)] unify_Lst_Lst [OF x(2) [unfolded l] l(3)]
          have "unify n (mem S a) (mem S b) S \<noteq> Out_of_fuel" using ne unfolding l e by auto
          note first = mono_atD [OF Suc this]
          show ?thesis
            using ne unfolding l e first
            by (cases "unify n (mem S a) (mem S b) S") (auto simp del: unify.simps intro!: mono_atD [OF Suc, symmetric] split: bool.splits)
        qed
        have str: "unify (Suc n) u v S = unify (Suc (Suc n)) u v S" if l: "u = Str a" "x = Str b" for a b
        proof -
          note e = unify_Str_Str [OF x(1) [unfolded l]] unify_Str_Str [OF x(2) [unfolded l]]
          show ?thesis
            using ne unfolding l e
            by (auto simp del: unify.simps dest: unify_args_mono [OF Suc] split: tword.splits if_splits)
        qed
        have rest: "unify (Suc n) u v S = unify (Suc (Suc n)) u v S"
          if "\<not> (\<exists>a b. u = Lst a \<and> x = Lst b \<and> a \<noteq> b)" "\<not> (\<exists>a b. u = Str a \<and> x = Str b)"
          using that other False
          by (cases u; cases x)
            (simp_all add: unify.simps(2) [of "Suc n"] unify.simps(2) [of n] x del: unify.simps DEREF.simps)
        show ?thesis using lst str rest by metis
      qed
    qed
  qed
qed

lemma unify_mono: "unify n u v S \<noteq> Out_of_fuel \<Longrightarrow> n \<le> m \<Longrightarrow> unify m u v S = unify n u v S"
proof (induction "m - n" arbitrary: m)
  case (Suc k)
  then obtain m' where m': "m = Suc m'" "n \<le> m'" "k = m' - n" by (cases m) auto
  have "unify m' u v S = unify n u v S" using Suc(1) [OF m'(3)] Suc.prems m' by simp
  thus ?case using mono_atD [OF unify_mono_step, of m' u v S] Suc.prems(1) m'(1) by (simp del: unify.simps)
qed simp

lemma unify_args_mono': "unify_args n a b i k S \<noteq> Out_of_fuel \<Longrightarrow> n \<le> m \<Longrightarrow> unify_args m a b i k S = unify_args n a b i k S"
proof (induction "m - n" arbitrary: m)
  case (Suc j)
  then obtain m' where m': "m = Suc m'" "n \<le> m'" "j = m' - n" by (cases m) auto
  have "unify_args m' a b i k S = unify_args n a b i k S" using Suc(1) [OF m'(3)] Suc.prems m' by simp
  thus ?case using unify_args_mono [OF unify_mono_step, of m' a b i k S] Suc.prems(1) m'(1) by simp
qed simp

section \<open>Unifiable terms: unification ends\<close>

definition ends :: "tword \<Rightarrow> tword \<Rightarrow> store \<Rightarrow> bool" where
  "ends u v S \<longleftrightarrow> (\<exists>n. unify n u v S \<noteq> Out_of_fuel)"

text \<open>The situation the induction keeps: a valuation that solves the equation.\<close>

definition solvable :: "store \<Rightarrow> (tword \<Rightarrow> tree) \<Rightarrow> tword \<Rightarrow> tword \<Rightarrow> bool" where
  "solvable S V u v \<longleftrightarrow> wf_store S \<and> refs_end S \<and> sat S V \<and> valid S u \<and> valid S v \<and> room_for S u v \<and> V u = V v"

lemma ends_deref:
  "DEREF m S u = Some x \<Longrightarrow> ends x v S \<Longrightarrow> ends u v S"
proof (induction m arbitrary: u)
  case (Suc m)
  show ?case
  proof (cases "\<exists>a. u = Ref a \<and> mem S a \<noteq> Ref a")
    case True
    then obtain a where a: "u = Ref a" "mem S a \<noteq> Ref a" by blast
    hence "ends (mem S a) v S" using Suc by simp
    then obtain n where "unify n (mem S a) v S \<noteq> Out_of_fuel" by (auto simp: ends_def)
    hence "unify (Suc n) u v S \<noteq> Out_of_fuel" using a by simp
    thus ?thesis unfolding ends_def by blast
  next
    case False
    hence "x = u" using Suc.prems(1) by (auto split: tword.splits)
    thus ?thesis using Suc.prems(2) by simp
  qed
qed simp

text \<open>A finished first unification of a solvable equation succeeds, and the valuation carries over.\<close>

lemma solvable_result:
  assumes s: "solvable S V u v" and r: "unify n u v S \<noteq> Out_of_fuel"
  shows "\<exists>S1 V1. unify n u v S = Done (True, S1) \<and> step_ok S S1 \<and> sat S1 V1 \<and> (\<forall>w. valid S w \<longrightarrow> V1 w = V w)"
proof -
  have "result_ok S [(u, v)] (unify n u v S)"
    using correct_atD [OF unify_correct] s by (simp add: solvable_def)
  moreover have "\<not> unsolvable S [(u, v)]" using s by (auto simp: unsolvable_def solvable_def)
  ultimately obtain S1 where S1: "unify n u v S = Done (True, S1)" "step_ok S S1" "solves S [(u, v)] S1"
    using r by (auto simp: result_ok_def split: run.splits prod.splits if_splits)
  obtain V1 where "sat S1 V1" "\<forall>w. valid S w \<longrightarrow> V1 w = V w"
    using solvesD(3) [OF S1(3), of V] s by (auto simp: solvable_def)
  thus ?thesis using S1 by blast
qed

lemma solvable_cells:
  assumes wf: "wf_store S" "refs_end S" and s: "sat S V" and v: "valid S (Ref x)" "valid S (Ref y)"
    and h: "heap_word S (Ref x)" "heap_word S (Ref y)" and eq: "V (Ref x) = V (Ref y)"
  shows "solvable S V (mem S x) (mem S y)" "V (mem S x) = V (Ref x)"
proof -
  have x: "V (mem S x) = V (Ref x)" and y: "V (mem S y) = V (Ref y)"
    using satD(1) [OF s v(1)] satD(1) [OF s v(2)] by simp_all
  show "V (mem S x) = V (Ref x)" by (rule x)
  show "solvable S V (mem S x) (mem S y)"
    using assms valid_cell [OF wf(1) v(1)] valid_cell [OF wf(1) v(2)] x y by (simp add: solvable_def room_for_def)
qed

definition ends_below :: "nat \<Rightarrow> bool" where
  "ends_below k \<longleftrightarrow> (\<forall>S V u v. solvable S V u v \<longrightarrow> size (V u) < k \<longrightarrow> ends u v S)"

lemma args_end:
  assumes e: "ends_below k"
  shows "\<lbrakk> wf_store S; refs_end S; sat S V; i \<le> arity;
      \<forall>j\<in>{i..arity}. V (Ref (a + j)) = V (Ref (b + j)) \<and> size (V (Ref (a + j))) < k \<and>
        (\<forall>x\<in>{a, b}. valid S (Ref (x + j)) \<and> heap_word S (Ref (x + j))) \<rbrakk>
    \<Longrightarrow> \<exists>n. unify_args n a b i arity S \<noteq> Out_of_fuel"
proof (induction "arity - i" arbitrary: i S V)
  case 0
  have c: "solvable S V (mem S (a + arity)) (mem S (b + arity))" "V (mem S (a + arity)) = V (Ref (a + arity))"
    by (rule solvable_cells; use 0 in auto)+
  moreover have "size (V (mem S (a + arity))) < k" unfolding c(2) using 0 by auto
  ultimately have "ends (mem S (a + arity)) (mem S (b + arity)) S" using e unfolding ends_below_def by blast
  then obtain n where "unify n (mem S (a + arity)) (mem S (b + arity)) S \<noteq> Out_of_fuel" by (auto simp: ends_def)
  hence "unify_args n a b i arity S \<noteq> Out_of_fuel" using 0 by (simp add: unify_args.simps [of n a b _ _ S])
  thus ?case by blast
next
  case (Suc d)
  have i: "i < arity" using Suc(2) by simp
  have c: "solvable S V (mem S (a + i)) (mem S (b + i))" "V (mem S (a + i)) = V (Ref (a + i))"
    by (rule solvable_cells; use Suc.prems i in auto)+
  moreover have "size (V (mem S (a + i))) < k" unfolding c(2) using bspec [OF Suc.prems(5), of i] i by force
  ultimately have "ends (mem S (a + i)) (mem S (b + i)) S" using e unfolding ends_below_def by blast
  then obtain n where n: "unify n (mem S (a + i)) (mem S (b + i)) S \<noteq> Out_of_fuel" by (auto simp: ends_def)
  obtain S1 V1 where S1: "unify n (mem S (a + i)) (mem S (b + i)) S = Done (True, S1)" "step_ok S S1"
    "sat S1 V1" "\<And>w. valid S w \<Longrightarrow> V1 w = V w"
    using solvable_result [OF c(1) n] by blast
  have "\<exists>n. unify_args n a b (i + 1) arity S1 \<noteq> Out_of_fuel"
  proof (rule Suc.hyps(1) [of "i + 1" S1 V1])
    show "\<forall>j\<in>{i + 1..arity}. V1 (Ref (a + j)) = V1 (Ref (b + j)) \<and> size (V1 (Ref (a + j))) < k \<and>
        (\<forall>x\<in>{a, b}. valid S1 (Ref (x + j)) \<and> heap_word S1 (Ref (x + j)))"
    proof
      fix j assume "j \<in> {i + 1..arity}"
      hence "j \<in> {i..arity}" by simp
      note p = bspec [OF Suc.prems(5) this]
      have eq: "V1 (Ref (a + j)) = V (Ref (a + j))" "V1 (Ref (b + j)) = V (Ref (b + j))"
        by (rule S1(4); use p in blast)+
      show "V1 (Ref (a + j)) = V1 (Ref (b + j)) \<and> size (V1 (Ref (a + j))) < k \<and>
        (\<forall>x\<in>{a, b}. valid S1 (Ref (x + j)) \<and> heap_word S1 (Ref (x + j)))"
        unfolding eq using p step_cell [OF S1(2)] by blast
    qed
  qed (use Suc S1 i in \<open>auto simp: step_ok_def\<close>)
  then obtain m where m: "unify_args m a b (i + 1) arity S1 \<noteq> Out_of_fuel" by blast
  have "unify (max n m) (mem S (a + i)) (mem S (b + i)) S = Done (True, S1)"
    using unify_mono [OF n, of "max n m"] S1(1) by simp
  moreover have "unify_args (max n m) a b (i + 1) arity S1 \<noteq> Out_of_fuel"
    using unify_args_mono' [OF m, of "max n m"] m by simp
  ultimately have "unify_args (max n m) a b i arity S \<noteq> Out_of_fuel"
    using i by (simp add: unify_args.simps [of _ a b i arity S])
  thus ?case by blast
qed

lemma args_length: "length (args S a n) = n"
  by (simp add: args_def del: upt_Suc)

lemma size_args: "t \<in> set ts \<Longrightarrow> size t < size (Fun_tree f ts)"
  by (induction ts) auto

lemma ends_values:
  assumes s: "solvable S V u v" and e: "ends_below (size (V u))" and u: "\<forall>a. u = Ref a \<longrightarrow> unbound S a"
  shows "ends u v S"
proof -
  have wf: "wf_store S" "refs_end S" and st: "sat S V" and vu: "valid S u" and vv: "valid S v" and eq: "V u = V v"
    using s by (auto simp: solvable_def)
  obtain k x where x: "DEREF k S v = Some x" using deref_ends [OF wf(2)] by blast
  note d = deref_result [OF wf(1) x vv]
  have xe: "V u = V x" "valid S x" using d eq st by auto
  have more: "DEREF m S v = Some x" if "k \<le> m" for m using deref_mono [OF x that] .
  consider (lists) a b where "u = Lst a" "x = Lst b" "a \<noteq> b" | (structs) a b where "u = Str a" "x = Str b" "a \<noteq> b"
    | (other) "\<not> (\<exists>a b. u = Lst a \<and> x = Lst b \<and> a \<noteq> b)" "\<not> (\<exists>a b. u = Str a \<and> x = Str b \<and> a \<noteq> b)" by blast
  thus ?thesis
  proof cases
    case other
    have "unify (Suc k) u v S \<noteq> Out_of_fuel"
      using other x u vu by (cases u; cases x) (auto simp: unbound_def valid_def)
    thus ?thesis unfolding ends_def by blast
  next
    case lists
    have va: "valid S (Lst a)" and vb: "valid S (Lst b)" using vu xe(2) lists by auto
    have cell: "valid S (Ref y) \<and> heap_word S (Ref y)" if "y \<in> {a, a + 1, b, b + 1}" for y
      using that va vb by (auto simp: valid_def allocated_def heap_word_def dest: spec [of _ "0 :: nat"] spec [of _ "1 :: nat"])
    have eqs: "V (Ref a) = V (Ref b)" "V (Ref (a + 1)) = V (Ref (b + 1))"
      using lists_equal [OF st va vb] xe(1) lists by auto
    have "V u = List_tree (V (Ref a)) (V (Ref (a + 1)))"
      using satD(3) [OF st va] satD(1) [OF st] cell lists by simp
    hence sz: "size (V (Ref a)) < size (V u)" "size (V (Ref (a + 1))) < size (V u)" by simp_all
    have c: "solvable S V (mem S a) (mem S b)" "V (mem S a) = V (Ref a)"
      by (rule solvable_cells; use wf st cell eqs in auto)+
    hence "ends (mem S a) (mem S b) S" using e sz unfolding ends_below_def by simp
    then obtain n where n: "unify n (mem S a) (mem S b) S \<noteq> Out_of_fuel" by (auto simp: ends_def)
    obtain S1 V1 where S1: "unify n (mem S a) (mem S b) S = Done (True, S1)" "step_ok S S1"
      "sat S1 V1" "\<And>w. valid S w \<Longrightarrow> V1 w = V w"
      using solvable_result [OF c(1) n] by blast
    have cell1: "valid S1 (Ref y) \<and> heap_word S1 (Ref y) \<and> V1 (Ref y) = V (Ref y)" if "y \<in> {a + 1, b + 1}" for y
      using step_cell [OF S1(2)] cell S1(4) that by auto
    have "V1 (Ref (a + 1)) = V1 (Ref (b + 1))" using cell1 [of "a + 1"] cell1 [of "b + 1"] eqs(2) by simp
    hence c1: "solvable S1 V1 (mem S1 (a + 1)) (mem S1 (b + 1))" "V1 (mem S1 (a + 1)) = V1 (Ref (a + 1))"
      using solvable_cells [of S1 V1 "a + 1" "b + 1"] S1(2,3) wf cell1 by (simp_all add: step_ok_def)
    have "size (V1 (mem S1 (a + 1))) < size (V u)" using c1(2) cell1 sz by simp
    hence "ends (mem S1 (a + 1)) (mem S1 (b + 1)) S1" using e c1(1) unfolding ends_below_def by blast
    then obtain m where m: "unify m (mem S1 (a + 1)) (mem S1 (b + 1)) S1 \<noteq> Out_of_fuel" by (auto simp: ends_def)
    define M where "M = max k (max n m)"
    have "unify M (mem S a) (mem S b) S = Done (True, S1)" using unify_mono [OF n, of M] S1(1) by (simp add: M_def)
    moreover have "unify M (mem S1 (a + 1)) (mem S1 (b + 1)) S1 \<noteq> Out_of_fuel"
      using unify_mono [OF m, of M] m by (simp add: M_def)
    moreover have "DEREF M S v = Some (Lst b)" using more lists by (simp add: M_def)
    ultimately have "unify (Suc M) u v S \<noteq> Out_of_fuel"
      unfolding lists(1) using unify_Lst_Lst [of M S v b a] lists(3) by simp
    thus ?thesis unfolding ends_def by blast
  next
    case structs
    have va: "valid S (Str a)" and vb: "valid S (Str b)" using vu xe(2) structs by auto
    obtain f ar where ma: "mem S a = Sym f ar" "0 < ar" "V (Str a) = Fun_tree f (map V (args S a ar))"
      using value_Str [OF st va] by blast
    obtain g br where mb: "mem S b = Sym g br" "V (Str b) = Fun_tree g (map V (args S b br))"
      using value_Str [OF st vb] by blast
    have "Fun_tree f (map V (args S a ar)) = Fun_tree g (map V (args S b br))"
      using xe(1) structs ma(3) mb(2) by simp
    hence "g = f" "length (args S b br) = length (args S a ar)" by (auto dest: map_eq_imp_length_eq)
    hence same: "g = f" "br = ar" by (simp_all add: args_length)
    have eqs: "V (Ref (a + j)) = V (Ref (b + j))" if "j \<in> {1..ar}" for j
      using structures_equal [OF st va vb ma(1) mb(1) [unfolded same]] xe(1) structs that
      unfolding arg_eqs_def equal_under_map set_upt atLeastLessThanSuc_atLeastAtMost by simp
    have cells: "\<forall>x\<in>{a, b}. valid S (Ref (x + j)) \<and> heap_word S (Ref (x + j))" if "j \<in> {1..ar}" for j
      using arg_valid [OF va ma(1)] arg_valid [OF vb mb(1) [unfolded same]] that by auto
    have sz: "size (V (Ref (a + j))) < size (V u)" if j: "j \<in> {1..ar}" for j
    proof -
      have "V (Ref (a + j)) = V (mem S (a + j))" using satD(1) [OF st] cells [OF j] by simp
      moreover have "V (mem S (a + j)) \<in> set (map V (args S a ar))"
        using j unfolding args_def set_map set_upt by (intro imageI) auto
      ultimately show ?thesis unfolding structs(1) ma(3) using size_args by metis
    qed
    have "\<exists>n. unify_args n a b 1 ar S \<noteq> Out_of_fuel"
      by (rule args_end [OF e wf st]) (use ma(2) eqs cells sz in auto)
    then obtain n where n: "unify_args n a b 1 ar S \<noteq> Out_of_fuel" by blast
    define M where "M = max k n"
    have "unify_args M a b 1 ar S \<noteq> Out_of_fuel" using unify_args_mono' [OF n, of M] n by (simp add: M_def)
    moreover have "DEREF M S v = Some (Str b)" using more structs by (simp add: M_def)
    ultimately have "unify (Suc M) u v S \<noteq> Out_of_fuel"
      unfolding structs(1) using unify_Str_Str [of M S v b a] structs(3) ma(1) mb(1) same by simp
    thus ?thesis unfolding ends_def by blast
  qed
qed

lemma unify_ends: "solvable S V u v \<Longrightarrow> ends u v S"
proof (induction "size (V u)" arbitrary: S V u v rule: less_induct)
  case less
  hence e: "ends_below (size (V u))" unfolding ends_below_def by blast
  have wf: "wf_store S" "refs_end S" and st: "sat S V" and vu: "valid S u"
    using less.prems by (auto simp: solvable_def)
  obtain k x where x: "DEREF k S u = Some x" using deref_ends [OF wf(2)] by blast
  note d = deref_result [OF wf(1) x vu]
  have vx: "V u = V x" using d st by blast
  have "solvable S V x v" using less.prems d vx by (auto simp: solvable_def room_for_def)
  hence "ends x v S" by (rule ends_values) (use e vx d in \<open>auto simp: unbound_def\<close>)
  thus ?case by (rule ends_deref [OF x])
qed

end
