(* ===== verification/Unify_More.thy ===== *)
theory Unify_More
  imports Unify
begin

text \<open>
  What is built on unification in \<open>emu/unify.c\<close>: the variants for known operands, the test for
  identity, the test for unifiability, which undoes its bindings, and the properties of all of them.
\<close>

section \<open>Variants\<close>

text \<open>\<open>unify_nsv_v\<close>: \<open>op1\<close> is not a variable of the stack.\<close>

definition unify_nsv_v :: "nat \<Rightarrow> nat \<Rightarrow> store \<Rightarrow> store" where
  "unify_nsv_v op1 op2 S =
     (if op1 \<noteq> op2
      then if op1 < op2 then PUSHTRAIL op2 (FOLLOW_assign op2 (Ref op1) S)
           else PUSHTRAIL_h op1 (FOLLOW_assign op1 (Ref op2) S)
      else S)"

definition unify_lst_lst :: "nat \<Rightarrow> nat \<Rightarrow> nat \<Rightarrow> store \<Rightarrow> (bool \<times> store) run" where
  "unify_lst_lst n op1 op2 S =
     (if op1 = op2 then Done (True, S)
      else case unify n (mem S op1) (mem S op2) S of
          Done (True, S) \<Rightarrow> unify n (mem S (op1 + 1)) (mem S (op2 + 1)) S
        | r \<Rightarrow> r)"

definition unify_str_str :: "nat \<Rightarrow> nat \<Rightarrow> nat \<Rightarrow> store \<Rightarrow> (bool \<times> store) run" where
  "unify_str_str n op1 op2 S =
     (if op1 = op2 then Done (True, S)
      else if mem S op1 \<noteq> mem S op2 then Done (False, S)
      else case mem S op1 of
          Sym f arity \<Rightarrow> unify_args n op1 op2 1 arity S
        | _ \<Rightarrow> Done (False, S))"

section \<open>Identity\<close>

function bp_identical :: "nat \<Rightarrow> tword \<Rightarrow> tword \<Rightarrow> store \<Rightarrow> bool option"
  and identical_args :: "nat \<Rightarrow> nat \<Rightarrow> nat \<Rightarrow> nat \<Rightarrow> nat \<Rightarrow> store \<Rightarrow> bool option" where
  "bp_identical 0 op1 op2 S = None"
| "bp_identical (Suc n) op1 op2 S = (case (DEREF n S op1, DEREF n S op2) of
       (Some (Lst a), Some (Lst b)) \<Rightarrow>
         (if a = b then Some True
          else case bp_identical n (mem S a) (mem S b) S of
              Some True \<Rightarrow> bp_identical n (mem S (a + 1)) (mem S (b + 1)) S
            | r \<Rightarrow> r)
     | (Some (Str a), Some (Str b)) \<Rightarrow>
         (if a = b then Some True
          else if mem S a \<noteq> mem S b then Some False
          else case mem S a of
              Sym f arity \<Rightarrow> identical_args n a b 1 arity S
            | _ \<Rightarrow> Some False)
     | (Some x, Some y) \<Rightarrow> Some (x = y)
     | _ \<Rightarrow> None)"
| "identical_args n a b i arity S =
     (if i < arity
      then case bp_identical n (mem S (a + i)) (mem S (b + i)) S of
          Some True \<Rightarrow> identical_args n a b (i + 1) arity S
        | r \<Rightarrow> r
      else bp_identical n (mem S (a + arity)) (mem S (b + arity)) S)"
  by pat_completeness auto
termination
  by (relation "measures [case_sum (\<lambda>(n, op1, op2, S). n) (\<lambda>(n, a, b, i, arity, S). n),
      case_sum (\<lambda>_. 0) (\<lambda>_. 1), case_sum (\<lambda>_. 0) (\<lambda>(n, a, b, i, arity, S). arity - i)]") auto

declare identical_args.simps [simp del]

section \<open>Unifiability\<close>

definition is_UNIFIABLE :: "nat \<Rightarrow> tword \<Rightarrow> tword \<Rightarrow> store \<Rightarrow> (bool \<times> store) run" where
  "is_UNIFIABLE n t1 t2 S = (case (DEREF n S t1, DEREF n S t2) of
       (Some x, Some y) \<Rightarrow>
         (if (\<exists>a. x = Ref a) \<or> (\<exists>b. y = Ref b) then Done (True, S)
          else case unify n x y (S\<lparr>hbreg := heap_top S\<rparr>) of
              Done (res, S1) \<Rightarrow> Done (res, (undo_trailing (length (trail S)) S1)\<lparr>hbreg := hbreg S\<rparr>)
            | r \<Rightarrow> r)
     | _ \<Rightarrow> Out_of_fuel)"

section \<open>Identity, proved\<close>

text \<open>A valuation that keeps the unbound variables apart: it is the term itself, variables and all.\<close>

definition canonical :: "store \<Rightarrow> (tword \<Rightarrow> tree) \<Rightarrow> bool" where
  "canonical S V \<longleftrightarrow> sat S V \<and> (\<forall>a. unbound S a \<longrightarrow> V (Ref a) = Var_tree a)"

definition decides :: "store \<Rightarrow> (nat \<Rightarrow> bool option) \<Rightarrow> bool \<Rightarrow> bool" where
  "decides S f b \<longleftrightarrow> (\<exists>n. \<forall>m\<ge>n. f m = Some b)"

lemma decides_cell:
  assumes wf: "wf_store S" and s: "sat S V" and v: "valid S (Ref x)" "valid S (Ref y)"
    and ih: "\<And>u v. valid S u \<Longrightarrow> valid S v \<Longrightarrow> V u = V (Ref x) \<Longrightarrow> decides S (\<lambda>n. bp_identical n u v S) (V u = V v)"
  shows "decides S (\<lambda>n. bp_identical n (mem S x) (mem S y) S) (V (Ref x) = V (Ref y))"
proof -
  have e: "V (Ref x) = V (mem S x)" "V (Ref y) = V (mem S y)" using satD(1) [OF s] v by auto
  have "decides S (\<lambda>n. bp_identical n (mem S x) (mem S y) S) (V (mem S x) = V (mem S y))"
    by (rule ih) (use valid_cell(1) [OF wf] v e in auto)
  thus ?thesis by (simp only: e)
qed

lemma identical_args_decides:
  assumes wf: "wf_store S" and s: "sat S V"
    and ih: "\<And>j u v. j \<in> {1..k} \<Longrightarrow> valid S u \<Longrightarrow> valid S v \<Longrightarrow> V u = V (Ref (a + j)) \<Longrightarrow>
      decides S (\<lambda>n. bp_identical n u v S) (V u = V v)"
    and v: "\<And>j x. j \<in> {1..k} \<Longrightarrow> x \<in> {a, b} \<Longrightarrow> valid S (Ref (x + j))"
  shows "1 \<le> i \<Longrightarrow> i \<le> k \<Longrightarrow>
    decides S (\<lambda>n. identical_args n a b i k S) (\<forall>j\<in>{i..k}. V (Ref (a + j)) = V (Ref (b + j)))"
proof (induction "k - i" arbitrary: i)
  case 0
  hence "i = k" by simp
  have "decides S (\<lambda>n. bp_identical n (mem S (a + k)) (mem S (b + k)) S) (V (Ref (a + k)) = V (Ref (b + k)))"
    by (rule decides_cell [OF wf s]; use v ih 0 in auto)
  thus ?case using \<open>i = k\<close> by (simp add: decides_def identical_args.simps [of _ a b k k S])
next
  case (Suc d)
  have i: "i < k" "i \<in> {1..k}" using Suc by auto
  have "decides S (\<lambda>n. bp_identical n (mem S (a + i)) (mem S (b + i)) S) (V (Ref (a + i)) = V (Ref (b + i)))"
    by (rule decides_cell [OF wf s]; use v ih i in auto)
  then obtain n1 where n1: "\<And>m. n1 \<le> m \<Longrightarrow> bp_identical m (mem S (a + i)) (mem S (b + i)) S = Some (V (Ref (a + i)) = V (Ref (b + i)))"
    unfolding decides_def by blast
  have "decides S (\<lambda>n. identical_args n a b (i + 1) k S) (\<forall>j\<in>{i + 1..k}. V (Ref (a + j)) = V (Ref (b + j)))"
    by (rule Suc.hyps(1)) (use Suc i in auto)
  then obtain n2 where n2: "\<And>m. n2 \<le> m \<Longrightarrow> identical_args m a b (i + 1) k S = Some (\<forall>j\<in>{i + 1..k}. V (Ref (a + j)) = V (Ref (b + j)))"
    unfolding decides_def by blast
  have split: "{i..k} = insert i {i + 1..k}" using i by auto
  have "identical_args m a b i k S = Some (\<forall>j\<in>{i..k}. V (Ref (a + j)) = V (Ref (b + j)))" if "max n1 n2 \<le> m" for m
    using n1 [of m] n2 [of m] that i unfolding split
    by (cases "V (Ref (a + i)) = V (Ref (b + i))") (simp_all add: identical_args.simps [of m a b i k S])
  thus ?case unfolding decides_def by blast
qed

lemma decides_from:
  assumes "\<And>m. n \<le> m \<Longrightarrow> bp_identical (Suc m) u v S = Some b"
  shows "decides S (\<lambda>n. bp_identical n u v S) b"
  unfolding decides_def
proof (intro exI [of _ "Suc n"] allI impI)
  fix m assume "Suc n \<le> m"
  then obtain k where "m = Suc k" "n \<le> k" by (cases m) auto
  thus "bp_identical m u v S = Some b" using assms by simp
qed

lemma canonical_values:
  assumes c: "canonical S V" and v: "valid S x" "valid S y"
    and root: "\<And>a. x = Ref a \<Longrightarrow> unbound S a" "\<And>a. y = Ref a \<Longrightarrow> unbound S a"
    and other: "\<not> (\<exists>a b. x = Lst a \<and> y = Lst b \<and> a \<noteq> b)" "\<not> (\<exists>a b. x = Str a \<and> y = Str b \<and> a \<noteq> b)"
  shows "V x = V y \<longleftrightarrow> x = y"
proof -
  have s: "sat S V" using c by (simp add: canonical_def)
  have value_of: "(\<exists>a. w = Ref a \<and> V w = Var_tree a) \<or> (\<exists>c. w = Atm c \<and> V w = Atm_tree c) \<or>
      (\<exists>a p q. w = Lst a \<and> V w = List_tree p q) \<or> (\<exists>a f ts. w = Str a \<and> V w = Fun_tree f ts)"
    if "valid S w" "\<And>a. w = Ref a \<Longrightarrow> unbound S a" for w
  proof (cases w)
    case (Ref a)
    thus ?thesis using that(2) c by (simp add: canonical_def)
  next
    case (Atm c)
    thus ?thesis using satD(2) [OF s] by simp
  next
    case (Lst a)
    thus ?thesis using satD(3) [OF s] that(1) by simp
  next
    case (Str a)
    thus ?thesis using value_Str [OF s] that(1) by blast
  qed (use that(1) in \<open>simp_all add: valid_def\<close>)
  note xy = value_of [OF v(1) root(1), simplified] value_of [OF v(2) root(2), simplified]
  show ?thesis
    by (rule xy(1) [THEN disjE]; (elim exE conjE disjE)?; rule xy(2) [THEN disjE]; (elim exE conjE disjE)?; use other in auto)
qed

lemma identical_decides:
  assumes wf: "wf_store S" "refs_end S" and c: "canonical S V"
  shows "valid S u \<Longrightarrow> valid S v \<Longrightarrow> decides S (\<lambda>n. bp_identical n u v S) (V u = V v)"
proof (induction "size (V u)" arbitrary: u v rule: less_induct)
  case less
  have s: "sat S V" using c by (simp add: canonical_def)
  obtain k1 x where e1: "DEREF k1 S u = Some x" using deref_ends [OF wf(2)] by blast
  note dx = deref_result [OF wf(1) e1 less.prems(1)]
  obtain k2 y where e2: "DEREF k2 S v = Some y" using deref_ends [OF wf(2)] by blast
  note dy = deref_result [OF wf(1) e2 less.prems(2)]
  have xv: "V u = V x" "V v = V y" "valid S x" "valid S y" using dx dy s by auto
  define k where "k = max k1 k2"
  have d: "DEREF m S u = Some x" "DEREF m S v = Some y" if "k \<le> m" for m
    using deref_mono [OF e1] deref_mono [OF e2] that by (simp_all add: k_def)
  have ux: "unbound S a" if "x = Ref a" for a using dx that by (simp add: unbound_def)
  have uy: "unbound S a" if "y = Ref a" for a using dy that by (simp add: unbound_def)
  consider (lists) a b where "x = Lst a" "y = Lst b" "a \<noteq> b" | (structs) a b where "x = Str a" "y = Str b" "a \<noteq> b"
    | (other) "\<not> (\<exists>a b. x = Lst a \<and> y = Lst b \<and> a \<noteq> b)" "\<not> (\<exists>a b. x = Str a \<and> y = Str b \<and> a \<noteq> b)" by blast
  thus ?case
  proof cases
    case other
    have "V u = V v \<longleftrightarrow> x = y" using canonical_values [OF c xv(3,4) ux uy other] xv(1,2) by simp
    moreover have "bp_identical (Suc m) u v S = Some (x = y)" if "k \<le> m" for m
      using other by (cases x; cases y) (simp_all add: d [OF that])
    ultimately show ?thesis by (intro decides_from [of k]) simp
  next
    case lists
    have va: "valid S (Lst a)" and vb: "valid S (Lst b)" using xv lists by auto
    have cell: "valid S (Ref z)" if "z \<in> {a, a + 1, b, b + 1}" for z
      using that va vb by (auto simp: valid_def allocated_def dest: spec [of _ "0 :: nat"] spec [of _ "1 :: nat"])
    have "V u = List_tree (V (Ref a)) (V (Ref (a + 1)))"
      using satD(3) [OF s va] satD(1) [OF s] cell lists xv(1) by simp
    hence sz: "size (V (Ref a)) < size (V u)" "size (V (Ref (a + 1))) < size (V u)" by simp_all
    have ih: "decides S (\<lambda>n. bp_identical n p q S) (V p = V q)"
      if "valid S p" "valid S q" "V p = V (Ref a) \<or> V p = V (Ref (a + 1))" for p q
      using less.hyps [of p q] that sz by auto
    have "decides S (\<lambda>n. bp_identical n (mem S a) (mem S b) S) (V (Ref a) = V (Ref b))"
      by (rule decides_cell [OF wf(1) s _ _ ih]) (use cell in auto)
    then obtain n1 where n1: "\<And>m. n1 \<le> m \<Longrightarrow> bp_identical m (mem S a) (mem S b) S = Some (V (Ref a) = V (Ref b))"
      unfolding decides_def by blast
    have "decides S (\<lambda>n. bp_identical n (mem S (a + 1)) (mem S (b + 1)) S) (V (Ref (a + 1)) = V (Ref (b + 1)))"
      by (rule decides_cell [OF wf(1) s _ _ ih]) (use cell in auto)
    then obtain n2 where n2: "\<And>m. n2 \<le> m \<Longrightarrow> bp_identical m (mem S (a + 1)) (mem S (b + 1)) S = Some (V (Ref (a + 1)) = V (Ref (b + 1)))"
      unfolding decides_def by blast
    have eq: "V u = V v \<longleftrightarrow> V (Ref a) = V (Ref b) \<and> V (Ref (a + 1)) = V (Ref (b + 1))"
      using lists_equal [OF s va vb] xv lists by simp
    have "bp_identical (Suc m) u v S = Some (V u = V v)" if m: "max k (max n1 n2) \<le> m" for m
      using d [of m] n1 [of m] n2 [of m] m lists unfolding eq
      by (cases "V (Ref a) = V (Ref b)") simp_all
    thus ?thesis by (rule decides_from)
  next
    case structs
    have va: "valid S (Str a)" and vb: "valid S (Str b)" using xv structs by auto
    obtain f n where ma: "mem S a = Sym f n" "0 < n" "V (Str a) = Fun_tree f (map V (args S a n))"
      using value_Str [OF s va] by blast
    obtain g n' where mb: "mem S b = Sym g n'" "V (Str b) = Fun_tree g (map V (args S b n'))"
      using value_Str [OF s vb] by blast
    show ?thesis
    proof (cases "Sym f n = Sym g n'")
      case False
      have "V u \<noteq> V v"
      proof
        assume "V u = V v"
        hence "f = g" "map V (args S a n) = map V (args S b n')" using xv structs ma(3) mb(2) by auto
        hence "n = n'" using arg_cong [of _ _ length] args_length by (metis length_map)
        thus False using False \<open>f = g\<close> by simp
      qed
      hence "bp_identical (Suc m) u v S = Some (V u = V v)" if "k \<le> m" for m
        using d [OF that] structs False ma(1) mb(1) by simp
      thus ?thesis by (rule decides_from)
    next
      case same: True
      hence mb': "mem S b = Sym f n" using mb(1) by simp
      have cells: "valid S (Ref (z + j))" if "j \<in> {1..n}" "z \<in> {a, b}" for z j
        using arg_valid(1) [OF va ma(1)] arg_valid(1) [OF vb mb'] that by auto
      have sz: "size (V (Ref (a + j))) < size (V u)" if j: "j \<in> {1..n}" for j
      proof -
        have "V (Ref (a + j)) = V (mem S (a + j))" using satD(1) [OF s] cells [OF j] by simp
        moreover have "V (mem S (a + j)) \<in> set (map V (args S a n))"
          using j unfolding args_def set_map set_upt by (intro imageI) auto
        ultimately show ?thesis unfolding xv(1) structs(1) ma(3) using size_args by metis
      qed
      have "decides S (\<lambda>m. identical_args m a b 1 n S) (\<forall>j\<in>{1..n}. V (Ref (a + j)) = V (Ref (b + j)))"
      proof (rule identical_args_decides [OF wf(1) s])
        fix j p q assume "j \<in> {1..n}" "valid S p" "valid S q" "V p = V (Ref (a + j))"
        thus "decides S (\<lambda>n. bp_identical n p q S) (V p = V q)" using less.hyps [of p q] sz [of j] by simp
      qed (use cells ma(2) in auto)
      then obtain n1 where n1: "\<And>m. n1 \<le> m \<Longrightarrow> identical_args m a b 1 n S = Some (\<forall>j\<in>{1..n}. V (Ref (a + j)) = V (Ref (b + j)))"
        unfolding decides_def by blast
      have eq: "V u = V v \<longleftrightarrow> (\<forall>j\<in>{1..n}. V (Ref (a + j)) = V (Ref (b + j)))"
        using structures_equal [OF s va vb ma(1) mb'] xv(1,2) structs
        unfolding arg_eqs_def equal_under_map set_upt by (simp add: atLeastLessThanSuc_atLeastAtMost)
      have "bp_identical (Suc m) u v S = Some (V u = V v)" if "max k n1 \<le> m" for m
        unfolding eq using d [of m] n1 [of m] that structs ma(1) mb' by simp
      thus ?thesis by (rule decides_from)
    qed
  qed
qed

section \<open>Unification of terms on the heap leaves the stack alone\<close>

definition stack_same :: "store \<Rightarrow> (bool \<times> store) run \<Rightarrow> bool" where
  "stack_same S r \<longleftrightarrow> (\<forall>b S' a. r = Done (b, S') \<longrightarrow> local_top S \<le> a \<longrightarrow> mem S' a = mem S a)"

definition local_at :: "nat \<Rightarrow> bool" where
  "local_at n \<longleftrightarrow> (\<forall>S u v. wf_store S \<longrightarrow> valid S u \<longrightarrow> valid S v \<longrightarrow> heap_word S u \<longrightarrow> heap_word S v \<longrightarrow>
     stack_same S (unify n u v S))"

lemma unify_step_ok:
  assumes "wf_store S" "valid S u" "valid S v" "heap_word S u" "heap_word S v" "unify n u v S = Done (b, S')"
  shows "step_ok S S'"
proof -
  have "result_ok S [(u, v)] (unify n u v S)"
    by (rule correct_atD [OF unify_correct]) (use assms in \<open>simp_all add: room_for_def\<close>)
  thus ?thesis using assms(6) by (simp add: result_ok_def)
qed

lemma local_cells:
  assumes l: "local_at n" and wf: "wf_store S" and c: "valid S (Ref x)" "heap_word S (Ref x)" "valid S (Ref y)" "heap_word S (Ref y)"
  shows "stack_same S (unify n (mem S x) (mem S y) S)" "unify n (mem S x) (mem S y) S = Done (b, S') \<Longrightarrow> step_ok S S'"
  using l wf valid_cell [OF wf c(1)] valid_cell [OF wf c(3)] c unify_step_ok [OF wf] unfolding local_at_def by blast+

lemma stack_same_then:
  assumes "stack_same S r" "\<And>S1. r = Done (True, S1) \<Longrightarrow> local_top S1 = local_top S \<and> stack_same S1 (f S1)"
  shows "stack_same S (case r of Done (True, S) \<Rightarrow> f S | r \<Rightarrow> r)"
proof (cases "\<exists>S1. r = Done (True, S1)")
  case True
  then obtain S1 where r: "r = Done (True, S1)" by blast
  have same: "mem S1 a = mem S a" if "local_top S \<le> a" for a using assms(1) that unfolding r stack_same_def by blast
  have "stack_same S (f S1)" unfolding stack_same_def
  proof (intro allI impI)
    fix b S' a assume "f S1 = Done (b, S')" and a: "local_top S \<le> a"
    thus "mem S' a = mem S a" using assms(2) [OF r] same [OF a] unfolding stack_same_def by auto
  qed
  thus ?thesis using r by simp
next
  case False
  thus ?thesis using assms(1) by (auto split: run.splits prod.splits bool.splits)
qed

lemma local_args:
  assumes l: "local_at n"
  shows "\<lbrakk> wf_store S; \<forall>j\<in>{i..k}. \<forall>x\<in>{a, b}. valid S (Ref (x + j)) \<and> heap_word S (Ref (x + j)); i \<le> k \<rbrakk>
    \<Longrightarrow> stack_same S (unify_args n a b i k S)"
proof (induction "k - i" arbitrary: i S)
  case 0
  hence "i = k" by simp
  have "stack_same S (unify n (mem S (a + k)) (mem S (b + k)) S)" by (rule local_cells [OF l]; use 0 in auto)
  thus ?case using \<open>i = k\<close> by (simp add: unify_args.simps [of n a b k k S])
next
  case (Suc d)
  have i: "i < k" using Suc(2) by simp
  have c: "valid S (Ref (x + i))" "heap_word S (Ref (x + i))" if "x \<in> {a, b}" for x using Suc.prems(2) i that by auto
  note lc = local_cells [OF l Suc.prems(1), of "a + i" "b + i"]
  have "local_top S1 = local_top S \<and> stack_same S1 (unify_args n a b (i + 1) k S1)"
    if r: "unify n (mem S (a + i)) (mem S (b + i)) S = Done (True, S1)" for S1
  proof
    have so: "step_ok S S1" using lc(2) [OF _ _ _ _ r] c by simp
    thus "local_top S1 = local_top S" by (simp add: step_ok_def binds_def)
    show "stack_same S1 (unify_args n a b (i + 1) k S1)"
    proof (rule Suc.hyps(1))
      show "\<forall>j\<in>{i + 1..k}. \<forall>x\<in>{a, b}. valid S1 (Ref (x + j)) \<and> heap_word S1 (Ref (x + j))"
        using Suc.prems(2) step_cell [OF so] by auto
    qed (use Suc so i in \<open>auto simp: step_ok_def\<close>)
  qed
  hence "stack_same S (case unify n (mem S (a + i)) (mem S (b + i)) S of
      Done (True, S) \<Rightarrow> unify_args n a b (i + 1) k S | r \<Rightarrow> r)"
    by (intro stack_same_then lc(1)) (use c in auto)
  thus ?case using i by (simp add: unify_args.simps [of n a b i k S])
qed

lemma stack_same_store: "(\<And>a. local_top S \<le> a \<Longrightarrow> mem S' a = mem S a) \<Longrightarrow> stack_same S (Done (b, S'))"
  by (simp add: stack_same_def)

lemma bind_stack_same: "wf_store S \<Longrightarrow> b < heap_top S \<Longrightarrow> stack_same S (Done (True, bind b w S))"
  by (rule stack_same_store) (auto simp: wf_store_def)

lemma unify_local: "local_at n"
proof (induction n)
  case 0
  show ?case by (simp add: local_at_def stack_same_def)
next
  case (Suc n)
  show ?case
    unfolding local_at_def
  proof (intro allI impI)
    fix S u v
    assume wf: "wf_store S" and v: "valid S u" "valid S v" and h: "heap_word S u" "heap_word S v"
    show "stack_same S (unify (Suc n) u v S)"
    proof (cases "\<exists>a. u = Ref a \<and> mem S a \<noteq> Ref a")
      case True
      then obtain a where a: "u = Ref a" "mem S a \<noteq> Ref a" by blast
      have "stack_same S (unify n (mem S a) v S)"
        using Suc wf v h valid_cell [OF wf, of a] a unfolding local_at_def by simp
      thus ?thesis using a by simp
    next
      case bound: False
      show ?thesis
      proof (cases "DEREF n S v")
        case None
        thus ?thesis using bound v(1) by (auto simp: stack_same_def valid_def split: tword.split)
      next
        case (Some x)
        note d = deref_result [OF wf Some v(2)]
        have xb: "b < heap_top S" if "x = Ref b" for b using d h(2) that by (auto simp: heap_word_def)
        have ua: "a < heap_top S" if "u = Ref a" for a using h(1) that by (simp add: heap_word_def)
        have same: "stack_same S (Done (r, S))" for r by (simp add: stack_same_def)
        consider (lists) a b where "u = Lst a" "x = Lst b" "a \<noteq> b" | (structs) a b where "u = Str a" "x = Str b"
          | (vars) a b where "u = Ref a" "x = Ref b"
          | (other) "\<not> (\<exists>a b. u = Lst a \<and> x = Lst b \<and> a \<noteq> b)" "\<not> (\<exists>a b. u = Str a \<and> x = Str b)"
            "\<not> (\<exists>a b. u = Ref a \<and> x = Ref b)" by blast
        thus ?thesis
        proof cases
          case lists
          have va: "valid S (Lst a)" and vb: "valid S (Lst b)" using v d lists by auto
          have cell: "valid S (Ref z) \<and> heap_word S (Ref z)" if "z \<in> {a, a + 1, b, b + 1}" for z
            using that va vb by (auto simp: valid_def allocated_def heap_word_def dest: spec [of _ "0 :: nat"] spec [of _ "1 :: nat"])
          note lc = local_cells [OF Suc wf, of a b]
          have "local_top S1 = local_top S \<and> stack_same S1 (unify n (mem S1 (a + 1)) (mem S1 (b + 1)) S1)"
            if r: "unify n (mem S a) (mem S b) S = Done (True, S1)" for S1
          proof
            have so: "step_ok S S1" using lc(2) [OF _ _ _ _ r] cell by simp
            thus "local_top S1 = local_top S" by (simp add: step_ok_def binds_def)
            show "stack_same S1 (unify n (mem S1 (a + 1)) (mem S1 (b + 1)) S1)"
              by (rule local_cells [OF Suc]) (use so cell step_cell [OF so] in \<open>auto simp: step_ok_def\<close>)
          qed
          hence "stack_same S (case unify n (mem S a) (mem S b) S of
              Done (True, S) \<Rightarrow> unify n (mem S (a + 1)) (mem S (b + 1)) S | r \<Rightarrow> r)"
            by (intro stack_same_then lc(1)) (use cell in auto)
          thus ?thesis unfolding lists(1) unify_Lst_Lst [OF Some [unfolded lists(2)] lists(3)] .
        next
          case structs
          have va: "valid S (Str a)" and vb: "valid S (Str b)" using v d structs by auto
          obtain f k where ma: "mem S a = Sym f k" "0 < k" using va by (auto simp: valid_def split: tword.splits)
          have "stack_same S (unify_args n a b 1 k S)" if "mem S a = mem S b"
            by (rule local_args [OF Suc wf])
              (use arg_valid [OF va ma(1)] arg_valid [OF vb ma(1) [unfolded that]] ma(2) in auto)
          thus ?thesis
            unfolding structs(1) unify_Str_Str [OF Some [unfolded structs(2)]] using same ma(1) by (cases "mem S a = mem S b") auto
        next
          case vars
          have "unify_var_var a b S \<in> {S, bind a (Ref b) S, bind b (Ref a) S}"
            using xb [OF vars(2)] ua [OF vars(1)] by (auto simp: unify_var_var_def)
          hence "stack_same S (Done (True, unify_var_var a b S))"
            using bind_stack_same [OF wf] xb [OF vars(2)] ua [OF vars(1)] same by auto
          thus ?thesis using Some vars bound by simp
        next
          case other
          thus ?thesis using Some bound v(1) same bind_stack_same [OF wf] xb ua d
            by (cases u; cases x) (simp_all add: valid_def)
        qed
      qed
    qed
  qed
qed

section \<open>The test for unifiability\<close>

lemma hbreg_irrelevant:
  "valid (S\<lparr>hbreg := h\<rparr>) = valid S" "sat (S\<lparr>hbreg := h\<rparr>) = sat S" "refs_end (S\<lparr>hbreg := h\<rparr>) = refs_end S"
  "wf_store S \<Longrightarrow> h \<le> heap_top S \<Longrightarrow> wf_store (S\<lparr>hbreg := h\<rparr>)"
proof -
  show v: "valid (S\<lparr>hbreg := h\<rparr>) = valid S"
    by (intro ext) (simp add: valid_def allocated_def split: tword.split)
  show "sat (S\<lparr>hbreg := h\<rparr>) = sat S" unfolding sat_def fun_eq_iff v by (simp add: args_def)
  show "refs_end (S\<lparr>hbreg := h\<rparr>) = refs_end S" by (simp add: refs_end_def)
  show "wf_store S \<Longrightarrow> h \<le> heap_top S \<Longrightarrow> wf_store (S\<lparr>hbreg := h\<rparr>)"
    unfolding wf_store_def v by (simp add: allocated_def heap_word_def)
qed

lemma unifiable_restores:
  assumes wf: "wf_store S" and v: "valid S t1" "valid S t2" and r: "is_UNIFIABLE n t1 t2 S = Done (b, S')"
  shows "(allocated S a \<longrightarrow> mem S' a = mem S a) \<and> trail S' = trail S \<and> hbreg S' = hbreg S \<and>
    (\<not> b \<longrightarrow> unsolvable S [(t1, t2)])"
proof -
  obtain x y where x: "DEREF n S t1 = Some x" and y: "DEREF n S t2 = Some y"
    using r by (auto simp: is_UNIFIABLE_def split: option.splits)
  note dx = deref_result [OF wf x v(1)] and dy = deref_result [OF wf y v(2)]
  show ?thesis
  proof (cases "(\<exists>a. x = Ref a) \<or> (\<exists>b. y = Ref b)")
    case True
    thus ?thesis
      using r x y by (auto simp: is_UNIFIABLE_def)
  next
    case False
    define S0 where "S0 = S\<lparr>hbreg := heap_top S\<rparr>"
    have wf0: "wf_store S0" using hbreg_irrelevant(4) [OF wf] by (simp add: S0_def)
    have v0: "valid S0 x" "valid S0 y" using dx dy by (simp_all add: S0_def hbreg_irrelevant)
    have h0: "heap_word S0 x" "heap_word S0 y" using False by (auto simp: heap_word_def)
    obtain S1 where S1: "unify n x y S0 = Done (b, S1)" and S': "S' = (undo_trailing (length (trail S)) S1)\<lparr>hbreg := hbreg S\<rparr>"
      using r x y False by (auto simp: is_UNIFIABLE_def S0_def split: run.splits)
    have ok: "result_ok S0 [(x, y)] (unify n x y S0)"
      by (rule correct_atD [OF unify_correct wf0 v0]) (simp add: room_for_def h0)
    have "stack_same S0 (unify n x y S0)" using unify_local wf0 v0 h0 unfolding local_at_def by blast
    hence stack: "local_top S \<le> a \<Longrightarrow> mem S1 a = mem S a" using S1 by (simp add: stack_same_def S0_def)
    have b0: "binds S0 S1" using ok S1 by (simp add: result_ok_def step_ok_def)
    have tr: "length (trail S0) = length (trail S)" by (simp add: S0_def)
    have "mem (undo_trailing (length (trail S)) S1) a = mem S a" if al: "allocated S a"
    proof (cases "a < heap_top S")
      case True
      thus ?thesis using undo_restores(1) [OF b0, of a] by (simp add: old_cell_def S0_def)
    next
      case False
      hence la: "local_top S \<le> a" using al by (simp add: allocated_def)
      obtain new where n: "trail S1 = new @ trail S0" "\<forall>(a, w)\<in>set new. w = Ref a \<and> old_cell S0 a \<and> mem S0 a = Ref a"
        using b0 by (auto simp: binds_def)
      have "undo_entries new (mem S1) a = (if (a, Ref a) \<in> set new then Ref a else mem S1 a)"
        by (rule undo_entries_at) (use n(2) in auto)
      moreover have "mem (undo_trailing (length (trail S)) S1) = undo_entries new (mem S1)"
        using n(1) tr by (simp add: undo_trailing_def)
      moreover have "mem S a = Ref a" if "(a, Ref a) \<in> set new" using n(2) that by (auto simp: S0_def)
      ultimately show ?thesis using stack [OF la] by simp
    qed
    moreover have "trail (undo_trailing (length (trail S)) S1) = trail S"
      using undo_restores(2) [OF b0, of "heap_top S + breg S + 1"] by (simp add: S0_def old_cell_def)
    moreover have "unsolvable S [(t1, t2)]" if "\<not> b"
    proof -
      have "unsolvable S0 [(x, y)]" using ok S1 that by (simp add: result_ok_def)
      hence none: "\<not> (sat S V \<and> V x = V y)" for V by (simp add: unsolvable_def S0_def hbreg_irrelevant(2))
      show ?thesis
        unfolding unsolvable_def
      proof
        assume "\<exists>V. sat S V \<and> equal_under V [(t1, t2)]"
        then obtain V where V: "sat S V" "V t1 = V t2" by auto
        moreover have "V t1 = V x" "V t2 = V y" using dx dy V(1) by blast+
        ultimately show False using none by simp
      qed
    qed
    ultimately show ?thesis
      by (simp add: S')
  qed
qed

lemma unifiable_found:
  assumes wf: "wf_store S" "refs_end S" and v: "valid S t1" "valid S t2" and V: "sat S V" "V t1 = V t2"
  shows "\<exists>n S'. is_UNIFIABLE n t1 t2 S = Done (True, S')"
proof -
  obtain k1 x where e1: "DEREF k1 S t1 = Some x" using deref_ends [OF wf(2)] by blast
  note dx = deref_result [OF wf(1) e1 v(1)]
  obtain k2 y where e2: "DEREF k2 S t2 = Some y" using deref_ends [OF wf(2)] by blast
  note dy = deref_result [OF wf(1) e2 v(2)]
  define k where "k = max k1 k2"
  have d: "DEREF m S t1 = Some x" "DEREF m S t2 = Some y" if "k \<le> m" for m
    using deref_mono [OF e1] deref_mono [OF e2] that by (simp_all add: k_def)
  show ?thesis
  proof (cases "(\<exists>a. x = Ref a) \<or> (\<exists>b. y = Ref b)")
    case True
    hence "is_UNIFIABLE k t1 t2 S = Done (True, S)" using d [of k] by (auto simp: is_UNIFIABLE_def)
    thus ?thesis by blast
  next
    case False
    define S0 where "S0 = S\<lparr>hbreg := heap_top S\<rparr>"
    have "V t1 = V x" "V t2 = V y" using dx dy V(1) by blast+
    hence eq: "V x = V y" using V(2) by simp
    have h: "heap_word S0 x" "heap_word S0 y" using False by (auto simp: heap_word_def)
    have v0: "valid S0 x" "valid S0 y" using dx dy by (simp_all add: S0_def hbreg_irrelevant(1))
    have w0: "wf_store S0" "refs_end S0" "sat S0 V"
      using hbreg_irrelevant(4) [OF wf(1)] wf(2) V(1) by (simp_all add: S0_def hbreg_irrelevant(2,3))
    have s: "solvable S0 V x y"
      using eq h v0 w0 by (simp add: solvable_def room_for_def)
    then obtain n where n: "unify n x y S0 \<noteq> Out_of_fuel" using unify_ends [OF s] by (auto simp: ends_def)
    define m where "m = max k n"
    have "unify m x y S0 = unify n x y S0" using unify_mono [OF n, of m] by (simp add: m_def)
    moreover obtain S1 where "unify n x y S0 = Done (True, S1)" using solvable_result [OF s n] by blast
    moreover have "DEREF m S t1 = Some x" "DEREF m S t2 = Some y" using d [of m] by (simp_all add: m_def)
    ultimately have "\<exists>S'. is_UNIFIABLE m t1 t2 S = Done (True, S')"
      using False by (auto simp: is_UNIFIABLE_def S0_def)
    thus ?thesis by blast
  qed
qed

section \<open>Variants, proved\<close>

lemma nsv_v_eq:
  assumes "wf_store S" "a < heap_top S"
  shows "unify_nsv_v a b S = unify_var_var a b S"
proof -
  have "\<not> a > breg S" using assms by (auto simp: wf_store_def)
  moreover have "b < heap_top S" if "b < a" using that assms by simp
  ultimately show ?thesis
    using assms by (auto simp: unify_nsv_v_def unify_var_var_def bind_def PUSHTRAIL_def PUSHTRAIL_h_def FOLLOW_assign_def)
qed

lemma variants_correct:
  assumes wf: "wf_store S"
  shows "valid S (Lst a) \<Longrightarrow> valid S (Lst b) \<Longrightarrow> result_ok S [(Lst a, Lst b)] (unify_lst_lst n a b S)"
    and "valid S (Str a) \<Longrightarrow> valid S (Str b) \<Longrightarrow> result_ok S [(Str a, Str b)] (unify_str_str n a b S)"
  using unify_lists [OF unify_correct wf] unify_structures [OF unify_correct wf]
  by (simp_all add: unify_lst_lst_def unify_str_str_def)

section \<open>Examples\<close>

text \<open>\<open>f(X)\<close> at 0 and \<open>f(7)\<close> at 2, with four cells of the stack free.\<close>

definition example_store :: store where
  "example_store = \<lparr>mem = (\<lambda>a. Ref a)(0 := Sym ''f'' 1, 2 := Sym ''f'' 1, 3 := Atm (Int_atom 7)),
     heap_top = 4, local_top = 8, hbreg = 4, breg = 9, trail = []\<rparr>"

lemma example_valid:
  "valid example_store (Ref a) \<longleftrightarrow> a \<in> {1, 3} \<or> 8 \<le> a" "valid example_store (Atm c)"
  "\<not> valid example_store (Lst a)" "valid example_store (Str a) \<longleftrightarrow> a \<in> {0, 2}"
proof -
  show "valid example_store (Ref a) \<longleftrightarrow> a \<in> {1, 3} \<or> 8 \<le> a"
    by (auto simp: valid_def allocated_def example_store_def)
  show "valid example_store (Atm c)" by (simp add: valid_def)
  have "a = 0 \<or> a = 1 \<or> a = 2 \<or> 2 < a" by auto
  thus "\<not> valid example_store (Lst a)"
  proof (elim disjE)
    assume "a = 1"
    hence "mem example_store (a + 1) = Sym ''f'' 1" by (simp add: example_store_def)
    thus ?thesis unfolding valid_def tword.case by (metis order_refl)
  next
    assume "2 < a"
    thus ?thesis by (simp add: valid_def example_store_def)
  next
    assume "a = 0"
    hence "mem example_store (a + 0) = Sym ''f'' 1" by (simp add: example_store_def)
    thus ?thesis unfolding valid_def tword.case by (metis zero_le)
  next
    assume "a = 2"
    hence "mem example_store (a + 0) = Sym ''f'' 1" by (simp add: example_store_def)
    thus ?thesis unfolding valid_def tword.case by (metis zero_le)
  qed
  show "valid example_store (Str a) \<longleftrightarrow> a \<in> {0, 2}"
    by (auto simp: valid_def example_store_def split: if_splits)
qed

lemma example_wf: "wf_store example_store" "refs_end example_store"
proof -
  have "valid example_store (mem example_store a) \<or> (\<exists>f n. mem example_store a = Sym f n)" if "allocated example_store a" for a
  proof -
    have "mem example_store a \<in> {Sym ''f'' 1, Atm (Int_atom 7), Ref a}" "mem example_store a = Ref a \<longrightarrow> a \<notin> {0, 2, 3}"
      by (simp_all add: example_store_def)
    moreover have "a = 0 \<or> a = 1 \<or> a = 2 \<or> a = 3 \<or> 8 \<le> a" using that by (auto simp: allocated_def example_store_def)
    ultimately show ?thesis by (auto simp: example_valid)
  qed
  moreover have "heap_word example_store (mem example_store a)" if "a < heap_top example_store" for a
    using that by (auto simp: heap_word_def example_store_def)
  moreover have "heap_top example_store \<le> local_top example_store" "hbreg example_store \<le> heap_top example_store"
    "local_top example_store \<le> breg example_store" by (simp_all add: example_store_def)
  ultimately show "wf_store example_store" unfolding wf_store_def by blast
  show "refs_end example_store" by (auto simp: refs_end_def example_store_def)
qed

definition example_value :: "tree \<Rightarrow> tword \<Rightarrow> tree" where
  "example_value x w = (case w of
       Ref a \<Rightarrow> (if a = 1 then x else if a = 3 then Atm_tree (Int_atom 7) else Var_tree a)
     | Atm c \<Rightarrow> Atm_tree c
     | Str a \<Rightarrow> Fun_tree ''f'' [if a = 0 then x else Atm_tree (Int_atom 7)]
     | _ \<Rightarrow> Var_tree 0)"

lemma example_sat: "sat example_store (example_value x)"
proof -
  have "example_value x (Ref a) = example_value x (mem example_store a)" if "valid example_store (Ref a)" for a
    using that unfolding example_valid by (auto simp: example_value_def example_store_def)
  moreover have "example_value x (Str a) = Fun_tree f (map (example_value x) (args example_store a n))"
    if "valid example_store (Str a)" "mem example_store a = Sym f n" for a f n
    using that unfolding example_valid by (auto simp: example_value_def example_store_def args_def)
  ultimately show ?thesis unfolding sat_def using example_valid by (simp add: example_value_def)
qed

text \<open>The two cyclic terms \<open>X = g(X)\<close> at 0 and \<open>Y = g(Y)\<close> at 2, before and after they are bound.\<close>

definition cyclic_store :: "bool \<Rightarrow> store" where
  "cyclic_store bound = \<lparr>mem = (\<lambda>a. Ref a)(0 := Sym ''g'' 1, 1 := (if bound then Str 0 else Ref 1), 2 := Sym ''g'' 1,
       3 := (if bound then Str 2 else Ref 3)),
     heap_top = 4, local_top = 8, hbreg = 0, breg = 9, trail = []\<rparr>"

lemma cyclic_bound:
  "unify 2 (Ref 1) (Str 0) (cyclic_store False) = Done (True, bind 1 (Str 0) (cyclic_store False))"
  "bind 3 (Str 2) (bind 1 (Str 0) (cyclic_store False)) = cyclic_store True"
  by (auto simp: cyclic_store_def numeral_2_eq_2 bind_def PUSHTRAIL_def FOLLOW_assign_def fun_eq_iff)

lemma cyclic_step:
  "unify (Suc (Suc n)) (Str 0) (Str 2) (cyclic_store True) = unify (Suc n) (Str 0) (Str 2) (cyclic_store True)"
proof -
  define S where "S = cyclic_store True"
  have m: "mem S 0 = Sym ''g'' 1" "mem S 2 = Sym ''g'' 1" "mem S (0 + 1) = Str 0" "mem S (2 + 1) = Str 2"
    by (simp_all add: S_def cyclic_store_def)
  have "unify (Suc (Suc n)) (Str 0) (Str 2) S = unify_args (Suc n) 0 2 1 1 S"
    by (subst unify_Str_Str [of _ S "Str 2" 2]) (simp_all only: m DEREF.simps tword.case, simp_all)
  also have "\<dots> = unify (Suc n) (Str 0) (Str 2) S"
    by (subst unify_args.simps) (simp only: m less_irrefl if_False)
  finally show ?thesis unfolding S_def .
qed

lemma cyclic_diverges: "unify n (Str 0) (Str 2) (cyclic_store True) = Out_of_fuel"
proof (induction n)
  case (Suc n)
  thus ?case by (cases n) (simp_all only: cyclic_step, simp)
qed simp

end
