(* ===== verification/Unification.thy ===== *)
theory Unification
  imports Unify_More
begin

text \<open>
  The properties of unification (\<open>emu/unify.c\<close>), each applied to \<open>f(X)\<close> and \<open>f(7)\<close> or to cyclic terms.
\<close>

definition most_general :: "store \<Rightarrow> (tword \<times> tword) list \<Rightarrow> (bool \<times> store) run \<Rightarrow> bool" where
  "most_general S eqs r = (case r of
       Out_of_fuel \<Rightarrow> True
     | Suspended \<Rightarrow> False
     | Done (b, S') \<Rightarrow> (if b then solves S eqs S' else unsolvable S eqs))"

lemma result_most_general: "result_ok S eqs r \<Longrightarrow> most_general S eqs r"
  by (auto simp: result_ok_def most_general_def split: run.splits)

definition undoable :: "store \<Rightarrow> (bool \<times> store) run \<Rightarrow> bool" where
  "undoable S r \<longleftrightarrow> (\<forall>b S'. r = Done (b, S') \<longrightarrow>
     wf_store S' \<and> (refs_end S \<longrightarrow> refs_end S') \<and> trail (undo_trailing (length (trail S)) S') = trail S \<and>
     (\<forall>a. old_cell S a \<longrightarrow> mem (undo_trailing (length (trail S)) S') a = mem S a))"

lemma binds_undo_trail: "binds S S' \<Longrightarrow> trail (undo_trailing (length (trail S)) S') = trail S"
  by (auto simp: binds_def undo_trailing_def)

lemma result_undoable: "result_ok S eqs r \<Longrightarrow> undoable S r"
  using undo_restores binds_undo_trail by (auto simp: undoable_def result_ok_def step_ok_def)

text \<open>
  \<open>C31\<close>: Unification is most general. When it succeeds, the instances of the new store are the
  instances of the old one in which both terms are equal; when it fails, there are none. On stores
  without suspended variables it never enters the code for them. This holds for \<open>unify\<close> and for the
  variants for two lists, two structures and two variables of which the first lies on the heap.
\<close>

theorem unify_most_general:
  assumes "wf_store S" "valid S u" "valid S v" "room_for S u v"
  shows "most_general S [(u, v)] (unify n u v S) \<and>
    (\<forall>a b. u = Lst a \<and> v = Lst b \<longrightarrow> most_general S [(u, v)] (unify_lst_lst n a b S)) \<and>
    (\<forall>a b. u = Str a \<and> v = Str b \<longrightarrow> most_general S [(u, v)] (unify_str_str n a b S)) \<and>
    (\<forall>a b. u = Ref a \<and> v = Ref b \<and> mem S a = u \<and> mem S b = v \<and> a < heap_top S \<longrightarrow>
       solves S [(u, v)] (unify_nsv_v a b S))"
proof (intro conjI allI impI)
  show "most_general S [(u, v)] (unify n u v S)"
    by (rule result_most_general [OF correct_atD [OF unify_correct assms]])
  show "most_general S [(u, v)] (unify_lst_lst n a b S)" if "u = Lst a \<and> v = Lst b" for a b
    using result_most_general [OF variants_correct(1) [OF assms(1)]] assms(2,3) that by simp
  show "most_general S [(u, v)] (unify_str_str n a b S)" if "u = Str a \<and> v = Str b" for a b
    using result_most_general [OF variants_correct(2) [OF assms(1)]] assms(2,3) that by simp
  fix a b assume r: "u = Ref a \<and> v = Ref b \<and> mem S a = u \<and> mem S b = v \<and> a < heap_top S"
  have al: "unbound S a" "unbound S b" using r assms(2,3) by (auto simp: unbound_def valid_def)
  have "a < heap_top S \<and> b < heap_top S \<or> heap_top S < local_top S"
    using assms(4) r by (auto simp: room_for_def heap_word_def)
  thus "solves S [(u, v)] (unify_nsv_v a b S)"
    using nsv_v_eq [OF assms(1)] unify_var_var_step(2) [OF assms(1) al] r by simp
qed

lemma example_room: "room_for example_store u v" "valid example_store (Str 0)" "valid example_store (Str 2)"
  by (simp_all add: example_valid room_for_def) (simp add: example_store_def)

lemma unify_most_general_witness:
  "unify 3 (Str 0) (Str 2) example_store = Done (True, bind 1 (Atm (Int_atom 7)) example_store) \<and>
   most_general example_store [(Str 0, Str 2)] (unify 3 (Str 0) (Str 2) example_store)"
proof
  show "most_general example_store [(Str 0, Str 2)] (unify 3 (Str 0) (Str 2) example_store)"
    using unify_most_general [OF example_wf(1) example_room(2,3,1)] by blast
  show "unify 3 (Str 0) (Str 2) example_store = Done (True, bind 1 (Atm (Int_atom 7)) example_store)"
    by (simp add: example_store_def unify_args.simps numeral_3_eq_3)
qed

text \<open>
  \<open>C32\<close>: Unification of two terms that have a common finite instance returns, and succeeds, once the
  bound on its recursion is large enough. There is no occurs check: \<open>X = g(X)\<close> binds \<open>X\<close> to a cyclic
  term, and the unification of two such terms returns for no bound.
\<close>

theorem unify_terminates:
  assumes "wf_store S" "refs_end S" "valid S u" "valid S v" "room_for S u v" "sat S V" "V u = V v"
  shows "(\<exists>k S'. \<forall>n\<ge>k. unify n u v S = Done (True, S')) \<and>
    unify 2 (Ref 1) (Str 0) (cyclic_store False) = Done (True, bind 1 (Str 0) (cyclic_store False)) \<and>
    bind 3 (Str 2) (bind 1 (Str 0) (cyclic_store False)) = cyclic_store True \<and>
    unify n (Str 0) (Str 2) (cyclic_store True) = Out_of_fuel"
proof (intro conjI cyclic_bound cyclic_diverges)
  have s: "solvable S V u v" using assms by (simp add: solvable_def)
  obtain k where k: "unify k u v S \<noteq> Out_of_fuel" using unify_ends [OF s] unfolding ends_def ..
  then obtain S1 where S1: "unify k u v S = Done (True, S1)" using solvable_result [OF s] by blast
  have "\<forall>n\<ge>k. unify n u v S = Done (True, S1)" using unify_mono [OF k] unfolding S1 by blast
  thus "\<exists>k S'. \<forall>n\<ge>k. unify n u v S = Done (True, S')" by blast
qed

lemma unify_terminates_witness:
  "\<exists>k S'. \<forall>n\<ge>k. unify n (Str 0) (Str 2) example_store = Done (True, S')"
proof -
  have "example_value (Atm_tree (Int_atom 7)) (Str 0) = example_value (Atm_tree (Int_atom 7)) (Str 2)"
    by (simp add: example_value_def)
  thus ?thesis
    using unify_terminates [OF example_wf example_room(2,3,1) example_sat] by blast
qed

text \<open>
  \<open>C33\<close>: Unification, successful or not, leaves a well-formed store whose chains of references end,
  and it trails what it binds: undoing the trail to its old height gives back every cell that is older
  than the choice point, and the old trail.
\<close>

theorem unify_undoable:
  assumes "wf_store S" "valid S u" "valid S v" "room_for S u v"
  shows "undoable S (unify n u v S) \<and>
    (\<forall>a b. u = Lst a \<and> v = Lst b \<longrightarrow> undoable S (unify_lst_lst n a b S)) \<and>
    (\<forall>a b. u = Str a \<and> v = Str b \<longrightarrow> undoable S (unify_str_str n a b S))"
proof (intro conjI allI impI)
  show "undoable S (unify n u v S)"
    by (rule result_undoable [OF correct_atD [OF unify_correct assms]])
  show "undoable S (unify_lst_lst n a b S)" if "u = Lst a \<and> v = Lst b" for a b
    using result_undoable [OF variants_correct(1) [OF assms(1)]] assms(2,3) that by simp
  show "undoable S (unify_str_str n a b S)" if "u = Str a \<and> v = Str b" for a b
    using result_undoable [OF variants_correct(2) [OF assms(1)]] assms(2,3) that by simp
qed

lemma unify_undoable_witness:
  "old_cell example_store 1 \<and> undoable example_store (unify 3 (Str 0) (Str 2) example_store)"
proof
  show "undoable example_store (unify 3 (Str 0) (Str 2) example_store)"
    using unify_undoable [OF example_wf(1) example_room(2,3,1)] by blast
  show "old_cell example_store 1" by (simp add: old_cell_def example_store_def)
qed

text \<open>
  \<open>C34\<close>: \<open>bp_identical\<close> decides the equality of the values of two terms under a valuation that keeps
  the unbound variables apart. \<open>is_UNIFIABLE\<close> answers no only for terms without a common instance,
  answers yes for terms that have a finite one, and leaves every allocated cell, the trail and the
  choice point as they were.
\<close>

theorem identity_and_unifiability:
  assumes "wf_store S" "refs_end S" "valid S u" "valid S v" "canonical S V"
  shows "(\<exists>k. \<forall>n\<ge>k. bp_identical n u v S = Some (V u = V v)) \<and>
    (\<forall>W. sat S W \<and> W u = W v \<longrightarrow> (\<exists>n S'. is_UNIFIABLE n u v S = Done (True, S'))) \<and>
    (\<forall>n b S'. is_UNIFIABLE n u v S = Done (b, S') \<longrightarrow>
       (\<forall>a. allocated S a \<longrightarrow> mem S' a = mem S a) \<and> trail S' = trail S \<and> hbreg S' = hbreg S \<and>
       (\<not> b \<longrightarrow> unsolvable S [(u, v)]))"
proof (intro conjI)
  show "\<exists>k. \<forall>n\<ge>k. bp_identical n u v S = Some (V u = V v)"
    using identical_decides [OF assms(1,2,5,3,4)] by (simp add: decides_def)
  show "\<forall>W. sat S W \<and> W u = W v \<longrightarrow> (\<exists>n S'. is_UNIFIABLE n u v S = Done (True, S'))"
    using unifiable_found [OF assms(1-4)] by blast
  show "\<forall>n b S'. is_UNIFIABLE n u v S = Done (b, S') \<longrightarrow>
      (\<forall>a. allocated S a \<longrightarrow> mem S' a = mem S a) \<and> trail S' = trail S \<and> hbreg S' = hbreg S \<and>
      (\<not> b \<longrightarrow> unsolvable S [(u, v)])"
    using unifiable_restores [OF assms(1,3,4)] by blast
qed

lemma identity_and_unifiability_witness:
  "(\<exists>k. \<forall>n\<ge>k. bp_identical n (Str 0) (Str 2) example_store = Some False) \<and>
   (\<exists>n S'. is_UNIFIABLE n (Str 0) (Str 2) example_store = Done (True, S'))"
proof -
  have c: "canonical example_store (example_value (Var_tree 1))"
    using example_sat unfolding canonical_def by (auto simp: unbound_def allocated_def example_value_def example_store_def)
  have "example_value (Var_tree 1) (Str 0) \<noteq> example_value (Var_tree 1) (Str 2)"
    "example_value (Atm_tree (Int_atom 7)) (Str 0) = example_value (Atm_tree (Int_atom 7)) (Str 2)"
    by (simp_all add: example_value_def)
  thus ?thesis
    using identity_and_unifiability [OF example_wf example_room(2,3) c] example_sat by metis
qed

end
