(* ===== verification/Hash_Chains.thy ===== *)
theory Hash_Chains
  imports Prelude "HOL-Library.Multiset"
begin

text \<open>
  What the hash tables of the engine share (\<open>emu/mic.c\<close>, \<open>emu/loader.c\<close>, \<open>emu/table.c\<close>): the hash codes of
  terms, the numbers of buckets, and tables of chains that grow when they are half full. A chain is a
  list, whose head is the newest entry.
\<close>

section \<open>Hash codes\<close>

text \<open>A symbol record is its address and its arity; an atom or an integer is its word.\<close>

record sym =
  sym_addr :: "64 word"
  arity :: nat

definition HASH_BITS :: "64 word" where "HASH_BITS = 0xfffffff"

definition atm_hash :: "64 word \<Rightarrow> nat" where
  "atm_hash w = unat (drop_bit 2 (w AND HASH_BITS))"

definition ROTL32 :: "32 word \<Rightarrow> nat \<Rightarrow> 32 word" where
  "ROTL32 x r = push_bit r x OR drop_bit (32 - r) x"

definition fmix :: "32 word \<Rightarrow> 32 word" where
  "fmix h = (let h = h XOR drop_bit 16 h;
       h = h * 0x85ebca6b;
       h = h XOR drop_bit 13 h;
       h = h * 0xc2b2ae35
     in h XOR drop_bit 16 h)"

definition MurmurHash3_x86_32_uint32 :: "32 word \<Rightarrow> 32 word \<Rightarrow> 32 word" where
  "MurmurHash3_x86_32_uint32 key seed = (let k1 = ROTL32 (key * 0xcc9e2d51) 15 * 0x1b873593;
       h1 = ROTL32 (seed XOR k1) 13;
       h1 = h1 * 5 + 0xe6546b64
     in fmix (h1 XOR 4))"

text \<open>The hash code of a further argument is mixed in, unless it is 0; \<open>take_bit 28\<close> is the mask
  \<open>HASH_BITS\<close>.\<close>

definition add_hash :: "nat \<Rightarrow> nat \<Rightarrow> nat" where
  "add_hash this_hcode hcode_sum =
     (if this_hcode \<noteq> 0 then unat (MurmurHash3_x86_32_uint32 (of_nat this_hcode) (of_nat hcode_sum)) else hcode_sum)"

definition MULTIPLIER :: nat where "MULTIPLIER = 37"

definition add_car_hash :: "nat \<Rightarrow> nat \<Rightarrow> nat" where
  "add_car_hash this_hcode hcode_sum =
     (if this_hcode \<noteq> 0 then take_bit 28 (this_hcode + hcode_sum * MULTIPLIER + 1) else hcode_sum)"

text \<open>The first hash code is added, the others are mixed in.\<close>

fun args_hash :: "nat \<Rightarrow> nat list \<Rightarrow> nat" where
  "args_hash h0 [] = h0"
| "args_hash h0 (h # hs) = fold add_hash hs (h0 + h)"

section \<open>The number of buckets\<close>

definition odd_divisor :: "nat \<Rightarrow> nat \<Rightarrow> bool" where
  "odd_divisor j t \<longleftrightarrow> (\<exists>i\<in>set [3..<min j 29 + 1]. odd i \<and> t mod i = 0)"

text \<open>The product of the odd primes up to 29; a number that is 1 modulo it has no odd divisor to 29.\<close>

definition sieve :: nat where "sieve = 3234846615"

definition to_next :: "nat \<Rightarrow> nat" where
  "to_next t = nat ((1 - int t) * 1617423308 mod int sieve)"

lemma small_odd_divisor:
  assumes "i \<in> {3..29}" "odd i"
  shows "\<exists>p \<ge> 3. p dvd sieve \<and> p dvd (i::nat)"
proof -
  have "i \<in> set [3,5,7,9,11,13,15,17,19,21,23,25,27,29]"
  proof -
    have "\<forall>i\<in>set [3..<30]. odd i \<longrightarrow> i \<in> set [3,5,7,9,11,13,15,17,19,21,23,25,27,29::nat]" by code_simp
    moreover have "i \<in> set [3..<30]" using assms(1) unfolding set_upt by simp
    ultimately show ?thesis using assms(2) by blast
  qed
  moreover have "\<forall>i\<in>set [3,5,7,9,11,13,15,17,19,21,23,25,27,29::nat]. \<exists>p\<in>set [3,5,7,11,13,17,19,23,29]. p \<ge> 3 \<and> p dvd sieve \<and> p dvd i"
    by (simp add: sieve_def dvd_eq_mod_eq_0)
  ultimately show ?thesis by blast
qed

lemma to_next_less:
  assumes "odd_divisor j t"
  shows "to_next (t + 2) < to_next t"
proof -
  from assms obtain i where d: "i \<in> set [3..<min j 29 + 1]" "odd i \<and> t mod i = 0" unfolding odd_divisor_def ..
  have i: "i \<in> {3..29}" using d(1) unfolding set_upt by (simp, linarith)
  have "odd i" "i dvd t" using d(2) by (simp_all add: mod_0_imp_dvd)
  note i = i this
  obtain p where "p \<ge> 3" "p dvd sieve" "p dvd i" using small_odd_divisor [OF i(1,2)] by blast
  hence p: "p \<ge> 3" "p dvd sieve" "p dvd t" using dvd_trans [OF _ i(3)] by simp_all
  let ?d = "(1 - int t) * 1617423308 mod int sieve"
  have s: "int sieve = 3234846615" by (simp add: sieve_def)
  have "?d \<noteq> 0"
  proof
    assume "?d = 0"
    hence "int sieve dvd (1 - int t) * 1617423308" by presburger
    hence "int sieve dvd 2 * ((1 - int t) * 1617423308)" by (rule dvd_mult)
    moreover have "2 * ((1 - int t) * 1617423308) = (1 - int t) * int sieve + (1 - int t)" unfolding s by simp
    ultimately have "int sieve dvd 1 - int t" by (metis dvd_add_right_iff dvd_triv_right)
    moreover have "int p dvd int sieve" "int p dvd int t" using p by simp_all
    ultimately have "int p dvd 1" by (metis dvd_trans dvd_diff_commute dvd_add_right_iff diff_add_cancel)
    thus False using p(1) by simp
  qed
  have "(1 - int (t + 2)) * 1617423308 = (1 - int t) * 1617423308 - 1 + (- 1) * int sieve" unfolding s by simp
  hence "(1 - int (t + 2)) * 1617423308 mod int sieve = ((1 - int t) * 1617423308 - 1) mod int sieve"
    by (metis mod_mult_self1 mult.commute)
  also have "\<dots> = (?d - 1) mod int sieve" by (simp add: mod_diff_left_eq)
  also have "\<dots> = ?d - 1"
  proof (rule mod_pos_pos_trivial)
    have "0 \<le> ?d" "?d < int sieve" unfolding s by simp_all
    thus "0 \<le> ?d - 1" "?d - 1 < int sieve" using \<open>?d \<noteq> 0\<close> by linarith+
  qed
  finally have "to_next (t + 2) = nat (?d - 1)" by (simp add: to_next_def)
  moreover have "0 \<le> ?d" unfolding s by simp
  ultimately show ?thesis using \<open>?d \<noteq> 0\<close> by (simp add: to_next_def)
qed

function hashsod :: "nat \<Rightarrow> nat \<Rightarrow> nat" where
  "hashsod j temp = (if odd_divisor j temp then hashsod j (temp + 2) else temp)"
  by pat_completeness auto
termination by (relation "measure (\<lambda>(j, t). to_next t)") (use to_next_less in \<open>simp_all del: add_2_eq_Suc'\<close>)

declare hashsod.simps [simp del]

definition bp_hsize :: "nat \<Rightarrow> nat" where
  "bp_hsize numentry = (let temp = numentry + 1;
       temp = (if temp mod 2 = 0 then temp + 1 else temp)
     in hashsod (temp div 2 + 1) temp)"

lemma hashsod_ge: "t \<le> hashsod j t"
  by (induction j t rule: hashsod.induct) (subst hashsod.simps, auto)

lemma bp_hsize_gt: "n < bp_hsize n"
proof -
  define t where "t = (if (n + 1) mod 2 = 0 then n + 1 + 1 else n + 1)"
  have "n < t" by (simp add: t_def)
  also have "t \<le> hashsod (t div 2 + 1) t" by (rule hashsod_ge)
  finally show ?thesis unfolding bp_hsize_def Let_def t_def .
qed

section \<open>Tables of chains\<close>

record 'a htable =
  hsize :: nat
  hcount :: nat
  buckets :: "'a list list"

definition chain :: "nat \<Rightarrow> 'a htable \<Rightarrow> 'a list" where
  "chain hcode t = buckets t ! (hcode mod hsize t)"

definition push_chain :: "nat \<Rightarrow> 'a \<Rightarrow> 'a htable \<Rightarrow> 'a htable" where
  "push_chain hcode x t = t\<lparr>buckets := (buckets t)[hcode mod hsize t := x # chain hcode t]\<rparr>"

text \<open>The loop over the chains of the old table, which moves every entry to the head of its new chain.\<close>

definition move :: "('a \<Rightarrow> nat) \<Rightarrow> nat \<Rightarrow> 'a \<Rightarrow> 'a list list \<Rightarrow> 'a list list" where
  "move h n x new = new[h x mod n := x # new ! (h x mod n)]"

definition rehash :: "('a \<Rightarrow> nat) \<Rightarrow> nat \<Rightarrow> 'a list list \<Rightarrow> 'a list list" where
  "rehash h n old = fold (fold (move h n)) old (replicate n [])"

text \<open>\<open>can_malloc n\<close> says whether \<open>malloc\<close> returns an array of \<open>n\<close> cells.\<close>

definition expand :: "('a \<Rightarrow> nat) \<Rightarrow> (nat \<Rightarrow> bool) \<Rightarrow> 'a htable \<Rightarrow> 'a htable" where
  "expand h can_malloc t = (let n = bp_hsize (3 * hsize t)
     in if can_malloc n then t\<lparr>hsize := n, buckets := rehash h n (buckets t)\<rparr> else t)"

definition chains_ok :: "('a \<Rightarrow> nat) \<Rightarrow> nat \<Rightarrow> 'a list list \<Rightarrow> bool" where
  "chains_ok h n bs \<longleftrightarrow> length bs = n \<and> (\<forall>i<n. \<forall>x\<in>set (bs ! i). h x mod n = i)"

text \<open>Every entry is in the chain of its hash code.\<close>

definition chained :: "('a \<Rightarrow> nat) \<Rightarrow> 'a htable \<Rightarrow> bool" where
  "chained h t \<longleftrightarrow> 0 < hsize t \<and> chains_ok h (hsize t) (buckets t)"

definition content :: "'a htable \<Rightarrow> 'a multiset" where
  "content t = mset (concat (buckets t))"

lemma mset_concat_update:
  "i < length bs \<Longrightarrow> mset (concat (bs[i := x # bs ! i])) = add_mset x (mset (concat bs))"
  by (induction bs arbitrary: i) (auto split: nat.split)

lemma move_ok:
  assumes "chains_ok h n new" "0 < n"
  shows "chains_ok h n (move h n x new)" "mset (concat (move h n x new)) = add_mset x (mset (concat new))"
proof -
  have i: "h x mod n < length new" using assms by (simp add: chains_ok_def)
  thus "mset (concat (move h n x new)) = add_mset x (mset (concat new))"
    unfolding move_def by (rule mset_concat_update)
  show "chains_ok h n (move h n x new)"
    using assms i by (auto simp: chains_ok_def move_def nth_list_update split: if_splits)
qed

lemma fold_move_ok:
  assumes "0 < n"
  shows "chains_ok h n new \<Longrightarrow>
    chains_ok h n (fold (move h n) xs new) \<and> mset (concat (fold (move h n) xs new)) = mset xs + mset (concat new)"
proof (induction xs arbitrary: new)
  case (Cons x xs)
  show ?case using Cons.IH [OF move_ok(1) [OF Cons.prems assms]] move_ok(2) [OF Cons.prems assms] by simp
qed simp

lemma rehash_ok:
  assumes "0 < n"
  shows "chains_ok h n (rehash h n old)" "mset (concat (rehash h n old)) = mset (concat old)"
proof -
  have "chains_ok h n new \<Longrightarrow> chains_ok h n (fold (fold (move h n)) old new) \<and>
      mset (concat (fold (fold (move h n)) old new)) = mset (concat old) + mset (concat new)" for new
  proof (induction old arbitrary: new)
    case (Cons xs old)
    note f = fold_move_ok [OF assms Cons.prems, of xs]
    show ?case using Cons.IH [OF f [THEN conjunct1]] f by simp
  qed simp
  from this [of "replicate n []"]
  show "chains_ok h n (rehash h n old)" "mset (concat (rehash h n old)) = mset (concat old)"
    by (simp_all add: rehash_def chains_ok_def)
qed

lemma expand_ok:
  assumes "chained h t"
  shows "chained h (expand h can_malloc t)" "content (expand h can_malloc t) = content t"
    "hcount (expand h can_malloc t) = hcount t"
proof -
  have "0 < bp_hsize (3 * hsize t)" using bp_hsize_gt [of "3 * hsize t"] by simp
  from rehash_ok [OF this, of h "buckets t"] this assms
  show "chained h (expand h can_malloc t)" "content (expand h can_malloc t) = content t"
    "hcount (expand h can_malloc t) = hcount t"
    by (simp_all add: expand_def Let_def chained_def content_def)
qed

lemma push_chain_ok:
  assumes "chained h t" "h x = hcode"
  shows "chained h (push_chain hcode x t)" "content (push_chain hcode x t) = add_mset x (content t)"
    "hcount (push_chain hcode x t) = hcount t" "hsize (push_chain hcode x t) = hsize t"
proof -
  have c: "chains_ok h (hsize t) (buckets t)" "0 < hsize t" using assms(1) by (simp_all add: chained_def)
  note m = move_ok [OF c, of x, unfolded move_def assms(2)]
  show "chained h (push_chain hcode x t)" "content (push_chain hcode x t) = add_mset x (content t)"
    "hcount (push_chain hcode x t) = hcount t" "hsize (push_chain hcode x t) = hsize t"
    using m c(2) by (simp_all add: push_chain_def chained_def content_def chain_def)
qed

text \<open>An entry is counted, and the table grows when \<open>full\<close>.\<close>

lemma insert_ok:
  assumes "chained h t" "h x = hcode"
  defines "t' \<equiv> (push_chain hcode x t)\<lparr>hcount := hcount (push_chain hcode x t) + 1\<rparr>"
  shows "chained h t'" "content t' = add_mset x (content t)" "hcount t' = hcount t + 1"
    "chained h (if full then expand h can_malloc t' else t')"
    "content (if full then expand h can_malloc t' else t') = add_mset x (content t)"
    "hcount (if full then expand h can_malloc t' else t') = hcount t + 1"
proof -
  note p = push_chain_ok [OF assms(1,2)]
  show t': "chained h t'" "content t' = add_mset x (content t)" "hcount t' = hcount t + 1"
    using p unfolding t'_def chained_def content_def by simp_all
  show "chained h (if full then expand h can_malloc t' else t')"
    "content (if full then expand h can_malloc t' else t') = add_mset x (content t)"
    "hcount (if full then expand h can_malloc t' else t') = hcount t + 1"
    using expand_ok [OF t'(1)] t' by simp_all
qed

lemma in_chain:
  assumes "chained h t"
  shows "x \<in> set (chain (h x) t) \<longleftrightarrow> x \<in># content t"
proof
  have l: "length (buckets t) = hsize t" "0 < hsize t" using assms by (simp_all add: chained_def chains_ok_def)
  { assume "x \<in> set (chain (h x) t)"
    moreover have "chain (h x) t \<in> set (buckets t)" unfolding chain_def using l by (intro nth_mem) simp
    ultimately show "x \<in># content t" by (auto simp: content_def) }
  { assume "x \<in># content t"
    then obtain b where "b \<in> set (buckets t)" "x \<in> set b" by (auto simp: content_def)
    then obtain i where i: "i < hsize t" "x \<in> set (buckets t ! i)" using l(1) by (auto simp: in_set_conv_nth)
    hence "h x mod hsize t = i" using assms unfolding chained_def chains_ok_def by blast
    thus "x \<in> set (chain (h x) t)" using i(2) by (simp add: chain_def) }
qed

lemma chain_content:
  assumes "chained h t" "x \<in> set (chain hcode t)"
  shows "x \<in># content t" "h x mod hsize t = hcode mod hsize t"
proof -
  have l: "length (buckets t) = hsize t" "0 < hsize t" using assms by (simp_all add: chained_def chains_ok_def)
  hence i: "hcode mod hsize t < hsize t" by simp
  thus "h x mod hsize t = hcode mod hsize t" using assms unfolding chained_def chains_ok_def chain_def by blast
  have "chain hcode t \<in> set (buckets t)" unfolding chain_def using l by (intro nth_mem) simp
  thus "x \<in># content t" using assms(2) by (auto simp: content_def)
qed

lemma chained_cong:
  assumes "chained h t" "\<And>x. x \<in># content t \<Longrightarrow> h' x = h x"
  shows "chained h' t"
proof -
  have "h' x = h x" if "x \<in> set (buckets t ! i)" "i < length (buckets t)" for x i
    by (rule assms(2)) (use that nth_mem in \<open>auto simp: content_def\<close>)
  thus ?thesis using assms(1) by (auto simp: chained_def chains_ok_def)
qed


text \<open>Taking an entry out of its chain.\<close>

definition unchain :: "nat \<Rightarrow> 'a \<Rightarrow> 'a htable \<Rightarrow> 'a htable" where
  "unchain hcode x t = t\<lparr>buckets := (buckets t)[hcode mod hsize t := remove1 x (chain hcode t)]\<rparr>"

lemma mset_concat_remove1:
  "i < length bs \<Longrightarrow> x \<in> set (bs ! i) \<Longrightarrow> add_mset x (mset (concat (bs[i := remove1 x (bs ! i)]))) = mset (concat bs)"
  by (induction bs arbitrary: i) (auto split: nat.split)

lemma unchain_ok:
  assumes "chained h t" "x \<in> set (chain (h x) t)"
  shows "chained h (unchain (h x) x t)" "add_mset x (content (unchain (h x) x t)) = content t"
    "hcount (unchain (h x) x t) = hcount t" "hsize (unchain (h x) x t) = hsize t"
proof -
  have c: "length (buckets t) = hsize t" "\<forall>i<hsize t. \<forall>y\<in>set (buckets t ! i). h y mod hsize t = i" "0 < hsize t"
    using assms(1) by (simp_all add: chained_def chains_ok_def)
  have i: "h x mod hsize t < length (buckets t)" using c by simp
  show "add_mset x (content (unchain (h x) x t)) = content t"
    using mset_concat_remove1 [OF i] assms(2) by (simp add: content_def unchain_def chain_def)
  have "h y mod hsize t = j" if "j < hsize t" "y \<in> set ((buckets t)[h x mod hsize t := remove1 x (chain (h x) t)] ! j)" for j y
  proof -
    have "y \<in> set (buckets t ! j)"
    proof (cases "j = h x mod hsize t")
      case True
      hence "y \<in> set (remove1 x (buckets t ! j))" using that(2) i by (simp add: chain_def)
      thus ?thesis by (rule subsetD [OF set_remove1_subset])
    qed (use that(2) in simp)
    thus ?thesis using c(2) that(1) by simp
  qed
  hence all: "\<forall>j<hsize t. \<forall>y\<in>set ((buckets t)[h x mod hsize t := remove1 x (chain (h x) t)] ! j). h y mod hsize t = j" by blast
  have sel: "hsize (unchain (h x) x t) = hsize t"
    "buckets (unchain (h x) x t) = (buckets t)[h x mod hsize t := remove1 x (chain (h x) t)]" by (simp_all add: unchain_def)
  show "chained h (unchain (h x) x t)"
    unfolding chained_def chains_ok_def sel length_list_update by (intro conjI c(3,1) all)
qed (simp_all add: unchain_def)

end
