(* ===== verification/Table_Term.thy ===== *)
theory Table_Term
  imports Hash_Chains
begin

text \<open>
  Terms in the table area (\<open>emu/table.c\<close>), where tabled calls and answers live. A term is copied there
  with its variables numbered; a compound term is a node with its hash code, a flag that says whether
  it is ground, and its arguments. Ground nodes are registered in a hash table, so that equal ground
  terms are one node. The area is a sequence of blocks: an address is the number of a block and an
  offset in it. Reading a cell that holds no node is the error \<open>Bad_access\<close>.
\<close>

section \<open>Words and nodes\<close>

datatype taddr = Addr (in_block: nat) (offset: nat)

datatype tab_word =
    TAtm "64 word"      \<comment> \<open>an atom or an integer\<close>
  | TNum nat            \<comment> \<open>\<open>NumberVar\<close>\<close>
  | TLst taddr
  | TStr taddr

text \<open>The cells behind an address: the flag and the hash code, the symbol of a structure, the arguments.\<close>

record tnode =
  n_ground :: bool
  n_hash :: nat
  n_sym :: "sym option"
  n_args :: "tab_word list"

datatype tab_error =
    Out_of_memory
  | Area_overrun        \<comment> \<open>a record larger than a block\<close>
  | Unchecked_tail      \<comment> \<open>the error of the copy of a tail is not noticed\<close>
  | Bad_access          \<comment> \<open>a cell that is not part of a term\<close>
  | Uninitialised       \<comment> \<open>a cell that has not been written\<close>
  | Output_mode
  | Out_of_fuel

definition tbind :: "('e + 'a) \<Rightarrow> ('a \<Rightarrow> 'e + 'b) \<Rightarrow> 'e + 'b" where
  "tbind r f = (case r of Inl e \<Rightarrow> Inl e | Inr a \<Rightarrow> f a)"

lemma tbind_simps [simp]: "tbind (Inl e) f = Inl e" "tbind (Inr a) f = f a"
  by (simp_all add: tbind_def)

lemma tbind_cong [fundef_cong]: "r = r' \<Longrightarrow> (\<And>a. r' = Inr a \<Longrightarrow> f a = g a) \<Longrightarrow> tbind r f = tbind r' g"
  by (cases r') auto

lemma tbind_Inr: "tbind r f = Inr b \<longleftrightarrow> (\<exists>a. r = Inr a \<and> f a = Inr b)"
  by (cases r) auto

record numbering =
  var_nums :: "nat \<Rightarrow> nat option"
  global_var_num :: nat

record area =
  nodes :: "taddr \<Rightarrow> tnode option"
  block :: nat
  area_top :: nat
  free_blocks :: nat            \<comment> \<open>how often \<open>malloc\<close> still returns a block\<close>
  num_expansions :: nat
  gterms :: "tab_word htable"
  can_malloc :: "nat \<Rightarrow> bool"
  numb :: numbering

definition node_at :: "(taddr \<Rightarrow> tnode option) \<Rightarrow> tab_word \<Rightarrow> tnode option" where
  "node_at N w = (case w of TLst p \<Rightarrow> N p | TStr p \<Rightarrow> N p | _ \<Rightarrow> None)"

section \<open>Comparison\<close>

text \<open>The loop over two argument lists; the comparison of the last arguments is a jump.\<close>

fun same_args :: "('a \<Rightarrow> 'a \<Rightarrow> tab_error + bool) \<Rightarrow> 'a list \<Rightarrow> 'a list \<Rightarrow> tab_error + bool" where
  "same_args f [] [] = Inr True"
| "same_args f (a # as) (b # bs) = tbind (f a b) (\<lambda>r. if r then same_args f as bs else Inr False)"
| "same_args f _ _ = Inl Bad_access"

fun identical_numbered_gterms :: "nat \<Rightarrow> (taddr \<Rightarrow> tnode option) \<Rightarrow> tab_word \<Rightarrow> tab_word \<Rightarrow> tab_error + bool" where
  "identical_numbered_gterms 0 N op1 op2 = Inl Out_of_fuel"
| "identical_numbered_gterms (Suc n) N op1 op2 =
     (if op1 = op2 then Inr True
      else case (op1, op2) of
          (TLst p, TLst q) \<Rightarrow> (case (N p, N q) of
              (Some x, Some y) \<Rightarrow>
                if (n_ground x, n_hash x) \<noteq> (n_ground y, n_hash y) then Inr False
                else same_args (identical_numbered_gterms n N) (n_args x) (n_args y)
            | _ \<Rightarrow> Inl Bad_access)
        | (TStr p, TStr q) \<Rightarrow> (case (N p, N q) of
              (Some x, Some y) \<Rightarrow>
                if n_sym x \<noteq> n_sym y then Inr False
                else if (n_ground x, n_hash x) \<noteq> (n_ground y, n_hash y) then Inr False
                else same_args (identical_numbered_gterms n N) (n_args x) (n_args y)
            | _ \<Rightarrow> Inl Bad_access)
        | _ \<Rightarrow> Inr False)"

text \<open>
  \<open>identicalTabledTerms\<close> does not test that its second operand is a list when the first one is: it
  reads two cells before an atom's or an integer's untagged word, and of a structure it compares the
  hash code and then the element with the symbol, which is a word with the tag of a reference.
\<close>

fun identicalTabledTerms :: "nat \<Rightarrow> (taddr \<Rightarrow> tnode option) \<Rightarrow> tab_word \<Rightarrow> tab_word \<Rightarrow> tab_error + bool" where
  "identicalTabledTerms 0 N t1 t2 = Inl Out_of_fuel"
| "identicalTabledTerms (Suc n) N t1 t2 =
     (if t1 = t2 then Inr True
      else case t1 of
          TAtm _ \<Rightarrow> Inr False
        | TNum _ \<Rightarrow> Inr False
        | TLst p \<Rightarrow> (case t2 of
              TNum _ \<Rightarrow> Inr False
            | TAtm _ \<Rightarrow> Inl Bad_access
            | TLst q \<Rightarrow> (case (N p, N q) of
                  (Some x, Some y) \<Rightarrow>
                    if (n_ground x, n_hash x) \<noteq> (n_ground y, n_hash y) then Inr False
                    else same_args (identicalTabledTerms n N) (n_args x) (n_args y)
                | _ \<Rightarrow> Inl Bad_access)
            | TStr q \<Rightarrow> (case (N p, N q) of
                  (Some x, Some y) \<Rightarrow>
                    if (n_ground x, n_hash x) \<noteq> (n_ground y, n_hash y) then Inr False
                    else (case n_args x of TLst _ # _ \<Rightarrow> Inl Bad_access | _ \<Rightarrow> Inr False)
                | _ \<Rightarrow> Inl Bad_access))
        | TStr p \<Rightarrow> (case t2 of
              TStr q \<Rightarrow> (case (N p, N q) of
                  (Some x, Some y) \<Rightarrow>
                    if n_sym x \<noteq> n_sym y then Inr False
                    else if (n_ground x, n_hash x) \<noteq> (n_ground y, n_hash y) then Inr False
                    else same_args (identicalTabledTerms n N) (n_args x) (n_args y)
                | _ \<Rightarrow> Inl Bad_access)
            | _ \<Rightarrow> Inr False))"

definition hashval_of_numbered_term :: "(taddr \<Rightarrow> tnode option) \<Rightarrow> tab_word \<Rightarrow> nat" where
  "hashval_of_numbered_term N w = (case w of
       TAtm a \<Rightarrow> atm_hash a
     | TNum _ \<Rightarrow> 0
     | _ \<Rightarrow> n_hash (the (node_at N w)))"

definition isGroundNumberedTerm :: "(taddr \<Rightarrow> tnode option) \<Rightarrow> tab_word \<Rightarrow> bool" where
  "isGroundNumberedTerm N w = (case w of
       TAtm _ \<Rightarrow> True
     | TNum _ \<Rightarrow> False
     | _ \<Rightarrow> n_ground (the (node_at N w)))"

section \<open>Registration of ground terms\<close>

fun find_gterm :: "nat \<Rightarrow> (taddr \<Rightarrow> tnode option) \<Rightarrow> tab_word \<Rightarrow> nat \<Rightarrow> tab_word list \<Rightarrow> tab_error + tab_word option" where
  "find_gterm n N w hcode [] = Inr None"
| "find_gterm n N w hcode (x # xs) = (case node_at N x of
       None \<Rightarrow> Inl Bad_access
     | Some y \<Rightarrow>
         if n_ground y \<and> n_hash y = hcode
         then tbind (identical_numbered_gterms n N w x) (\<lambda>same. if same then Inr (Some x) else find_gterm n N w hcode xs)
         else find_gterm n N w hcode xs)"

definition expand_gterms_htable :: "area \<Rightarrow> area" where
  "expand_gterms_htable A = A\<lparr>gterms := expand (\<lambda>w. n_hash (the (node_at (nodes A) w))) (can_malloc A) (gterms A)\<rparr>"

definition register_gterms_htable :: "nat \<Rightarrow> tab_word \<Rightarrow> nat \<Rightarrow> area \<Rightarrow> tab_error + (tab_word \<times> area)" where
  "register_gterms_htable n w hcode A =
     tbind (find_gterm n (nodes A) w hcode (chain hcode (gterms A))) (\<lambda>found. case found of
       Some x \<Rightarrow> Inr (x, A)
     | None \<Rightarrow>
         let g = push_chain hcode w (gterms A);
             A = A\<lparr>gterms := g\<lparr>hcount := hcount g + 1\<rparr>\<rparr>
         in Inr (w, if 2 * hcount (gterms A) > hsize (gterms A) then expand_gterms_htable A else A))"

section \<open>Trees\<close>

datatype ntree = NVar nat | NAtm "64 word" | NLst ntree ntree | NStr sym "ntree list"

definition sym_hash :: "sym \<Rightarrow> nat" where
  "sym_hash f = unat (drop_bit 2 (sym_addr f AND HASH_BITS))"

fun nhash :: "ntree \<Rightarrow> nat" where
  "nhash (NVar i) = 0"
| "nhash (NAtm a) = atm_hash a"
| "nhash (NLst t u) = add_car_hash (nhash t) (nhash u)"
| "nhash (NStr f ts) = take_bit 28 (args_hash (sym_hash f) (map nhash ts))"

fun nground :: "ntree \<Rightarrow> bool" where
  "nground (NVar i) \<longleftrightarrow> False"
| "nground (NAtm a) \<longleftrightarrow> True"
| "nground (NLst t u) \<longleftrightarrow> nground t \<and> nground u"
| "nground (NStr f ts) \<longleftrightarrow> (\<forall>t\<in>set ts. nground t)"

text \<open>The word \<open>w\<close> stands for a tree: its nodes hold the right hash codes and flags, and its ground
  nodes are registered in the multiset \<open>R\<close>.\<close>

fun repr :: "(taddr \<Rightarrow> tnode option) \<Rightarrow> tab_word set \<Rightarrow> tab_word \<Rightarrow> ntree \<Rightarrow> bool" where
  "repr N R w (NVar i) \<longleftrightarrow> w = TNum i"
| "repr N R w (NAtm a) \<longleftrightarrow> w = TAtm a"
| "repr N R w (NLst t u) \<longleftrightarrow> (nground (NLst t u) \<longrightarrow> w \<in> R) \<and>
     (\<exists>p a b. w = TLst p \<and> repr N R a t \<and> repr N R b u \<and>
       N p = Some \<lparr>n_ground = nground (NLst t u), n_hash = nhash (NLst t u), n_sym = None, n_args = [a, b]\<rparr>)"
| "repr N R w (NStr f ts) \<longleftrightarrow> (nground (NStr f ts) \<longrightarrow> w \<in> R) \<and> ts \<noteq> [] \<and> arity f = length ts \<and>
     (\<exists>p ws. w = TStr p \<and> list_all2 (repr N R) ws ts \<and>
       N p = Some \<lparr>n_ground = nground (NStr f ts), n_hash = nhash (NStr f ts), n_sym = Some f, n_args = ws\<rparr>)"

lemma map_le_Some: "N \<subseteq>\<^sub>m N' \<Longrightarrow> N p = Some x \<Longrightarrow> N' p = Some x"
  by (force simp: map_le_def)

lemma repr_LstD:
  assumes "repr N R w (NLst t u)"
  obtains p a b where "w = TLst p" "repr N R a t" "repr N R b u"
    "N p = Some \<lparr>n_ground = nground (NLst t u), n_hash = nhash (NLst t u), n_sym = None, n_args = [a, b]\<rparr>"
    "nground (NLst t u) \<longrightarrow> w \<in> R"
  using assms by (simp only: repr.simps) blast

lemma repr_StrD:
  assumes "repr N R w (NStr f ts)"
  obtains p ws where "w = TStr p" "list_all2 (repr N R) ws ts" "ts \<noteq> []" "arity f = length ts"
    "N p = Some \<lparr>n_ground = nground (NStr f ts), n_hash = nhash (NStr f ts), n_sym = Some f, n_args = ws\<rparr>"
    "nground (NStr f ts) \<longrightarrow> w \<in> R"
  using assms by (simp only: repr.simps) blast

lemma repr_functional: "repr N R w t \<Longrightarrow> repr N R' w u \<Longrightarrow> t = u"
proof (induction t arbitrary: w u)
  case (NLst t1 t2)
  from NLst.prems(1) obtain p a b g h where p: "w = TLst p" "repr N R a t1" "repr N R b t2"
    "N p = Some \<lparr>n_ground = g, n_hash = h, n_sym = None, n_args = [a, b]\<rparr>" by (rule repr_LstD)
  obtain u1 u2 where u: "u = NLst u1 u2" "repr N R' a u1" "repr N R' b u2" using NLst.prems(2) p by (cases u) auto
  show ?case using NLst.IH(1) [OF p(2) u(2)] NLst.IH(2) [OF p(3) u(3)] u(1) by simp
next
  case (NStr f ts)
  from NStr.prems(1) obtain p ws g h where p: "w = TStr p" "list_all2 (repr N R) ws ts"
    "N p = Some \<lparr>n_ground = g, n_hash = h, n_sym = Some f, n_args = ws\<rparr>" by (rule repr_StrD)
  obtain us where u: "u = NStr f us" "list_all2 (repr N R') ws us" using NStr.prems(2) p by (cases u) auto
  have "ts = us"
    using p(2) u(2) NStr.IH unfolding list_all2_conv_all_nth by (metis nth_equalityI nth_mem)
  thus ?case using u(1) by simp
qed (case_tac u; auto)+

lemma repr_mono: "repr N R w t \<Longrightarrow> N \<subseteq>\<^sub>m N' \<Longrightarrow> R \<subseteq> R' \<Longrightarrow> repr N' R' w t"
proof (induction t arbitrary: w)
  case (NLst t1 t2)
  from NLst.prems(1) obtain p a b where p: "w = TLst p" "repr N R a t1" "repr N R b t2"
    "N p = Some \<lparr>n_ground = nground (NLst t1 t2), n_hash = nhash (NLst t1 t2), n_sym = None, n_args = [a, b]\<rparr>"
    "nground (NLst t1 t2) \<longrightarrow> w \<in> R" by (rule repr_LstD)
  note n = map_le_Some [OF NLst.prems(2) p(4)]
  show ?case using n p NLst.IH(1) [OF p(2)] NLst.IH(2) [OF p(3)] NLst.prems(2,3) by (simp only: repr.simps) blast
next
  case (NStr f ts)
  from NStr.prems(1) obtain p ws where p: "w = TStr p" "list_all2 (repr N R) ws ts" "ts \<noteq> []" "arity f = length ts"
    "N p = Some \<lparr>n_ground = nground (NStr f ts), n_hash = nhash (NStr f ts), n_sym = Some f, n_args = ws\<rparr>"
    "nground (NStr f ts) \<longrightarrow> w \<in> R" by (rule repr_StrD)
  note n = map_le_Some [OF NStr.prems(2) p(5)]
  have "list_all2 (repr N' R') ws ts"
    using p(2) NStr.IH NStr.prems(2,3) by (auto simp: list_all2_conv_all_nth)
  thus ?case using n p NStr.prems(3) by (simp only: repr.simps) blast
qed auto

lemma repr_hash: "repr N R w t \<Longrightarrow> hashval_of_numbered_term N w = nhash t"
  by (cases t) (auto simp: hashval_of_numbered_term_def node_at_def)

lemma repr_ground: "repr N R w t \<Longrightarrow> isGroundNumberedTerm N w = nground t"
  by (cases t) (auto simp: isGroundNumberedTerm_def node_at_def)

section \<open>Comparison, proved\<close>

text \<open>The comparison of argument lists fails with an access error when that of a pair does, after equal
  pairs.\<close>

fun clash_list :: "('a \<Rightarrow> 'a \<Rightarrow> bool) \<Rightarrow> 'a list \<Rightarrow> 'a list \<Rightarrow> bool" where
  "clash_list c (t # ts) (u # us) \<longleftrightarrow> c t u \<or> t = u \<and> clash_list c ts us"
| "clash_list c _ _ \<longleftrightarrow> False"

lemma same_args_spec:
  assumes "list_all2 P as ts" "list_all2 P bs us" "length ts = length us"
    and "\<And>a b t u. t \<in> set ts \<Longrightarrow> P a t \<Longrightarrow> P b u \<Longrightarrow> f a b = (if c t u then Inl Bad_access else Inr (t = u))"
  shows "same_args f as bs = (if clash_list c ts us then Inl Bad_access else Inr (ts = us))"
  using assms
proof (induction as arbitrary: bs ts us)
  case (Cons a as)
  from Cons.prems(1) obtain t ts' where t: "ts = t # ts'" "P a t" "list_all2 P as ts'" by (auto simp: list_all2_Cons1)
  obtain u us' where u: "us = u # us'" using t Cons.prems(3) by (cases us) auto
  then obtain b bs' where b: "bs = b # bs'" "P b u" "list_all2 P bs' us'" using Cons.prems(2) by (auto simp: list_all2_Cons2)
  have "same_args f as bs' = (if clash_list c ts' us' then Inl Bad_access else Inr (ts' = us'))"
    using Cons.prems(3,4) t u b by (intro Cons.IH) auto
  moreover have "f a b = (if c t u then Inl Bad_access else Inr (t = u))" using Cons.prems(4) t u b by auto
  ultimately show ?case using t u b by auto
qed auto

lemma clash_list_cong [fundef_cong]:
  "ts = ts' \<Longrightarrow> us = us' \<Longrightarrow> (\<And>t u. t \<in> set ts' \<Longrightarrow> u \<in> set us' \<Longrightarrow> c t u = d t u) \<Longrightarrow>
    clash_list c ts us = clash_list d ts' us'"
proof (induction ts arbitrary: us ts' us')
  case (Cons t ts)
  thus ?case by (cases us) auto
qed simp

lemma clash_list_none: "\<not> clash_list (\<lambda>_ _. False) ts us"
proof (induction ts arbitrary: us)
  case (Cons t ts)
  thus ?case by (cases us) auto
qed simp

lemma repr_kinds:
  assumes "repr N R w t"
  shows "\<And>a. w = TAtm a \<Longrightarrow> t = NAtm a" "\<And>i. w = TNum i \<Longrightarrow> t = NVar i"
    "\<And>p. w = TLst p \<Longrightarrow> \<exists>t1 t2. t = NLst t1 t2" "\<And>p. w = TStr p \<Longrightarrow> \<exists>f ts. t = NStr f ts"
  using assms by (cases t; simp)+

lemma node_equal_hash:
  "t = u \<Longrightarrow> (nground t, nhash t) = (nground u, nhash u)"
  by simp

text \<open>\<open>identical_numbered_gterms\<close> decides the equality of the trees.\<close>

lemma identical_gterms_spec:
  "repr N R a t \<Longrightarrow> repr N R b u \<Longrightarrow> size t < n \<Longrightarrow> identical_numbered_gterms n N a b = Inr (t = u)"
proof (induction n arbitrary: a b t u)
  case (Suc n)
  have sub: "identical_numbered_gterms n N x y = (if False then Inl Bad_access else Inr (t' = u'))"
    if "repr N R x t'" "repr N R y u'" "size t' < size t" for x y t' u'
    using Suc.IH [OF that(1,2)] that(3) Suc.prems(3) by simp
  show ?case
  proof (cases "a = b")
    case True
    thus ?thesis using repr_functional Suc.prems by simp
  next
    case ne: False
    show ?thesis
    proof (cases t)
      case t: (NLst t1 t2)
      from Suc.prems(1)[unfolded t] obtain p a1 a2 where p: "a = TLst p" "repr N R a1 t1" "repr N R a2 t2"
        "N p = Some \<lparr>n_ground = nground t, n_hash = nhash t, n_sym = None, n_args = [a1, a2]\<rparr>" unfolding t by (rule repr_LstD)
      show ?thesis
      proof (cases u)
        case u: (NLst u1 u2)
        from Suc.prems(2)[unfolded u] obtain q b1 b2 where q: "b = TLst q" "repr N R b1 u1" "repr N R b2 u2"
          "N q = Some \<lparr>n_ground = nground u, n_hash = nhash u, n_sym = None, n_args = [b1, b2]\<rparr>" unfolding u by (rule repr_LstD)
        have "same_args (identical_numbered_gterms n N) [a1, a2] [b1, b2] = Inr ([t1, t2] = [u1, u2])"
          using same_args_spec [of "repr N R" "[a1, a2]" "[t1, t2]" "[b1, b2]" "[u1, u2]" "identical_numbered_gterms n N" "\<lambda>_ _. False"]
            p q sub t by (auto simp: clash_list_none)
        thus ?thesis using p q ne t u by auto
      qed (use Suc.prems p ne t in auto)
    next
      case t: (NStr f ts)
      from Suc.prems(1)[unfolded t] obtain p ws where p: "a = TStr p" "list_all2 (repr N R) ws ts" "arity f = length ts"
        "N p = Some \<lparr>n_ground = nground t, n_hash = nhash t, n_sym = Some f, n_args = ws\<rparr>" unfolding t by (rule repr_StrD)
      show ?thesis
      proof (cases u)
        case u: (NStr g us)
        from Suc.prems(2)[unfolded u] obtain q vs where q: "b = TStr q" "list_all2 (repr N R) vs us" "arity g = length us"
          "N q = Some \<lparr>n_ground = nground u, n_hash = nhash u, n_sym = Some g, n_args = vs\<rparr>" unfolding u by (rule repr_StrD)
        have "same_args (identical_numbered_gterms n N) ws vs = Inr (ts = us)" if "f = g"
        proof -
          have "size t' < size t" if "t' \<in> set ts" for t' using that size_list_estimation' [of t' ts "size t'" size] unfolding t by (simp add: less_Suc_eq_le)
          thus ?thesis
            using same_args_spec [of "repr N R" ws ts vs us "identical_numbered_gterms n N" "\<lambda>_ _. False"]
              p q sub that by (auto simp: clash_list_none)
        qed
        thus ?thesis using p q ne t u by auto
      qed (use Suc.prems p ne t in auto)
    qed (use Suc.prems ne in \<open>cases u; auto\<close>)+
  qed
qed simp

text \<open>
  Where \<open>identicalTabledTerms\<close> reads a cell that is not part of a term: a list against an atom or an
  integer, and a list of lists against a structure with the same hash code, once all pairs of
  arguments before have been equal.
\<close>

definition same_header :: "ntree \<Rightarrow> ntree \<Rightarrow> bool" where
  "same_header t u \<longleftrightarrow> nground t = nground u \<and> nhash t = nhash u"

fun clash :: "ntree \<Rightarrow> ntree \<Rightarrow> bool" where
  "clash (NLst t1 t2) (NAtm a) \<longleftrightarrow> True"
| "clash (NLst t1 t2) (NStr f us) \<longleftrightarrow> same_header (NLst t1 t2) (NStr f us) \<and> (\<exists>x y. t1 = NLst x y)"
| "clash (NLst t1 t2) (NLst u1 u2) \<longleftrightarrow> same_header (NLst t1 t2) (NLst u1 u2) \<and> (clash t1 u1 \<or> t1 = u1 \<and> clash t2 u2)"
| "clash (NStr f ts) (NStr g us) \<longleftrightarrow> f = g \<and> same_header (NStr f ts) (NStr g us) \<and> clash_list clash ts us"
| "clash _ _ \<longleftrightarrow> False"

lemma clash_list_irrefl: "(\<And>t. t \<in> set ts \<Longrightarrow> \<not> c t t) \<Longrightarrow> \<not> clash_list c ts ts"
  by (induction ts) auto

lemma clash_irrefl: "\<not> clash t t"
  by (induction t) (simp_all add: clash_list_irrefl)

lemma identical_tabled_spec:
  "repr N R a t \<Longrightarrow> repr N R b u \<Longrightarrow> size t < n \<Longrightarrow>
    identicalTabledTerms n N a b = (if clash t u then Inl Bad_access else Inr (t = u))"
proof (induction n arbitrary: a b t u)
  case (Suc n)
  have sub: "identicalTabledTerms n N x y = (if clash t' u' then Inl Bad_access else Inr (t' = u'))"
    if "repr N R x t'" "repr N R y u'" "size t' < size t" for x y t' u'
    using Suc.IH [OF that(1,2)] that(3) Suc.prems(3) by simp
  show ?case
  proof (cases "a = b")
    case True
    hence "t = u" using repr_functional [OF Suc.prems(1)] Suc.prems(2) by blast
    thus ?thesis using True clash_irrefl by simp
  next
    case ne: False
    show ?thesis
    proof (cases t)
      case t: (NLst t1 t2)
      from Suc.prems(1)[unfolded t] obtain p a1 a2 where p: "a = TLst p" "repr N R a1 t1" "repr N R a2 t2"
        "N p = Some \<lparr>n_ground = nground t, n_hash = nhash t, n_sym = None, n_args = [a1, a2]\<rparr>" unfolding t by (rule repr_LstD)
      show ?thesis
      proof (cases u)
        case u: (NLst u1 u2)
        from Suc.prems(2)[unfolded u] obtain q b1 b2 where q: "b = TLst q" "repr N R b1 u1" "repr N R b2 u2"
          "N q = Some \<lparr>n_ground = nground u, n_hash = nhash u, n_sym = None, n_args = [b1, b2]\<rparr>" unfolding u by (rule repr_LstD)
        have "same_args (identicalTabledTerms n N) [a1, a2] [b1, b2] =
            (if clash_list clash [t1, t2] [u1, u2] then Inl Bad_access else Inr ([t1, t2] = [u1, u2]))"
          by (rule same_args_spec [where P = "repr N R"]) (use p q sub t in auto)
        thus ?thesis using p q ne t u by (auto simp: same_header_def)
      next
        case u: (NStr g us)
        from Suc.prems(2)[unfolded u] obtain q vs where q: "b = TStr q"
          "N q = Some \<lparr>n_ground = nground u, n_hash = nhash u, n_sym = Some g, n_args = vs\<rparr>" unfolding u by (rule repr_StrD)
        have "(case a1 of TLst _ \<Rightarrow> True | _ \<Rightarrow> False) = (\<exists>x y. t1 = NLst x y)"
          using p(2) by (cases t1) auto
        thus ?thesis using p q ne t u by (auto simp: same_header_def split: tab_word.splits)
      qed (use Suc.prems p ne t in auto)
    next
      case t: (NStr f ts)
      from Suc.prems(1)[unfolded t] obtain p ws where p: "a = TStr p" "list_all2 (repr N R) ws ts" "arity f = length ts"
        "N p = Some \<lparr>n_ground = nground t, n_hash = nhash t, n_sym = Some f, n_args = ws\<rparr>" unfolding t by (rule repr_StrD)
      show ?thesis
      proof (cases u)
        case u: (NStr g us)
        from Suc.prems(2)[unfolded u] obtain q vs where q: "b = TStr q" "list_all2 (repr N R) vs us" "arity g = length us"
          "N q = Some \<lparr>n_ground = nground u, n_hash = nhash u, n_sym = Some g, n_args = vs\<rparr>" unfolding u by (rule repr_StrD)
        have "same_args (identicalTabledTerms n N) ws vs = (if clash_list clash ts us then Inl Bad_access else Inr (ts = us))" if "f = g"
        proof (rule same_args_spec [where P = "repr N R"])
          fix x y t' u' assume "t' \<in> set ts" "repr N R x t'" "repr N R y u'"
          moreover from this have "size t' < size t" using size_list_estimation' [of t' ts "size t'" size] unfolding t by (simp add: less_Suc_eq_le)
          ultimately show "identicalTabledTerms n N x y = (if clash t' u' then Inl Bad_access else Inr (t' = u'))" using sub by blast
        qed (use p q that in auto)
        thus ?thesis using p q ne t u by (auto simp: same_header_def)
      qed (use Suc.prems p ne t in auto)
    qed (use Suc.prems ne in \<open>cases u; auto\<close>)+
  qed
qed simp

end
