(* ===== verification/Table_Area.thy ===== *)
theory Table_Area
  imports Table_Term
begin

text \<open>
  Allocation in the table area and the completion of a node (\<open>emu/bapi.h\<close>, \<open>emu/table.c\<close>), with the
  invariant of the area: nodes lie below the top, registered words are ground nodes in the chain of
  their hash code, and no tree is registered twice.
\<close>

section \<open>Allocation\<close>

definition NUMBERED_TERM_BLOCK_SIZE :: nat where "NUMBERED_TERM_BLOCK_SIZE = 1000000"

text \<open>A block has its link in cell 0. A record that does not fit the rest of the current block goes to
  a new one, whatever its size.\<close>

definition ALLOCATE_FROM_NUMBERED_TERM_AREA :: "nat \<Rightarrow> area \<Rightarrow> tab_error + (taddr \<times> area)" where
  "ALLOCATE_FROM_NUMBERED_TERM_AREA sz A =
     (if area_top A + sz \<ge> NUMBERED_TERM_BLOCK_SIZE
      then if free_blocks A = 0 then Inl Out_of_memory
           else if 1 + sz > NUMBERED_TERM_BLOCK_SIZE then Inl Area_overrun
           else Inr (Addr (block A + 1) 1,
                  A\<lparr>block := block A + 1, area_top := 1 + sz, free_blocks := free_blocks A - 1, num_expansions := num_expansions A + 1\<rparr>)
      else Inr (Addr (block A) (area_top A), A\<lparr>area_top := area_top A + sz\<rparr>))"

text \<open>A node follows the two cells for its hash code and its chain.\<close>

definition dest :: "taddr \<Rightarrow> taddr" where
  "dest p = Addr (in_block p) (offset p + 2)"

text \<open>The node \<open>x\<close> of the record at \<open>p\<close> is complete and \<open>w\<close> is its word; a ground node is registered,
  and given up for an equal one.\<close>

definition finish_node :: "nat \<Rightarrow> taddr \<Rightarrow> nat \<Rightarrow> tnode \<Rightarrow> tab_word \<Rightarrow> area \<Rightarrow> tab_error + (tab_word \<times> area)" where
  "finish_node n p sz x w A =
     (let A = A\<lparr>nodes := (nodes A)(dest p := Some x)\<rparr>
      in if \<not> n_ground x then Inr (w, A)
         else tbind (register_gterms_htable n w (n_hash x) A) (\<lambda>(w1, A).
           Inr (w1, if w1 \<noteq> w \<and> block A = in_block p \<and> area_top A = offset p + sz
                    then A\<lparr>nodes := (nodes A)(dest p := None), area_top := offset p\<rparr> else A)))"

section \<open>The invariant\<close>

definition below :: "area \<Rightarrow> taddr \<Rightarrow> bool" where
  "below A p \<longleftrightarrow> in_block p < block A \<or> in_block p = block A \<and> offset p < area_top A"

definition reg :: "area \<Rightarrow> tab_word set" where
  "reg A = set_mset (content (gterms A))"

definition stands_for :: "area \<Rightarrow> tab_word \<Rightarrow> ntree \<Rightarrow> bool" where
  "stands_for A w t \<longleftrightarrow> repr (nodes A) (reg A) w t"

fun compound :: "ntree \<Rightarrow> bool" where
  "compound (NLst t u) \<longleftrightarrow> True"
| "compound (NStr f ts) \<longleftrightarrow> ts \<noteq> [] \<and> arity f = length ts"
| "compound _ \<longleftrightarrow> False"

definition area_ok :: "area \<Rightarrow> bool" where
  "area_ok A \<longleftrightarrow>
     (\<forall>p\<in>dom (nodes A). below A p) \<and>
     chained (\<lambda>w. n_hash (the (node_at (nodes A) w))) (gterms A) \<and>
     (\<forall>w\<in>reg A. \<exists>t. stands_for A w t \<and> nground t \<and> compound t) \<and>
     (\<forall>w\<in>reg A. \<forall>w'\<in>reg A. \<forall>t. stands_for A w t \<longrightarrow> stands_for A w' t \<longrightarrow> w = w')"

text \<open>Two areas in the course of a copy.\<close>

definition grows :: "area \<Rightarrow> area \<Rightarrow> bool" where
  "grows A A' \<longleftrightarrow> nodes A \<subseteq>\<^sub>m nodes A' \<and> reg A \<subseteq> reg A' \<and>
     (\<forall>p\<in>dom (nodes A') - dom (nodes A). \<not> below A p) \<and>
     (block A < block A' \<or> block A = block A' \<and> area_top A \<le> area_top A')"

lemma grows_refl: "grows A A"
  by (simp add: grows_def)

lemma grows_below: "grows A A' \<Longrightarrow> below A p \<Longrightarrow> below A' p"
  by (auto simp: grows_def below_def)

lemma grows_trans: "grows A B \<Longrightarrow> grows B C \<Longrightarrow> grows A C"
proof -
  assume g: "grows A B" "grows B C"
  have "\<not> below A p" if "p \<in> dom (nodes C) - dom (nodes A)" for p
    using that g grows_below [OF g(1), of p] by (cases "p \<in> dom (nodes B)") (auto simp: grows_def)
  moreover have "nodes A \<subseteq>\<^sub>m nodes C" using g map_le_trans unfolding grows_def by blast
  moreover have "block A < block C \<or> block A = block C \<and> area_top A \<le> area_top C" using g unfolding grows_def by linarith
  ultimately show ?thesis using g unfolding grows_def by blast
qed

lemma grows_stands_for: "grows A A' \<Longrightarrow> stands_for A w t \<Longrightarrow> stands_for A' w t"
  unfolding stands_for_def grows_def by (elim conjE) (rule repr_mono)

lemma numb_irrelevant [simp]:
  "area_ok (A\<lparr>numb := m\<rparr>) = area_ok A" "grows (A\<lparr>numb := m\<rparr>) B = grows A B" "grows A (B\<lparr>numb := m\<rparr>) = grows A B"
  "stands_for (A\<lparr>numb := m\<rparr>) = stands_for A" "reg (A\<lparr>numb := m\<rparr>) = reg A"
  by (simp_all add: area_ok_def grows_def stands_for_def[abs_def] reg_def below_def)

lemma allocate_ok:
  assumes "ALLOCATE_FROM_NUMBERED_TERM_AREA sz A = Inr (p, A')" "area_ok A"
  shows "nodes A' = nodes A" "gterms A' = gterms A" "numb A' = numb A" "grows A A'" "area_ok A'"
    "2 < sz \<Longrightarrow> \<not> below A (dest p)" "2 < sz \<Longrightarrow> below A' (dest p)" "block A' = in_block p" "area_top A' = offset p + sz"
    "in_block p = block A \<longrightarrow> offset p = area_top A"
proof -
  show eqs: "nodes A' = nodes A" "gterms A' = gterms A" "numb A' = numb A"
    using assms(1) by (auto simp: ALLOCATE_FROM_NUMBERED_TERM_AREA_def split: if_splits)
  show pos: "2 < sz \<Longrightarrow> \<not> below A (dest p)" "2 < sz \<Longrightarrow> below A' (dest p)" "block A' = in_block p" "area_top A' = offset p + sz"
    "in_block p = block A \<longrightarrow> offset p = area_top A"
    using assms(1) by (auto simp: ALLOCATE_FROM_NUMBERED_TERM_AREA_def below_def dest_def split: if_splits)
  have r: "reg A' = reg A" by (simp add: reg_def eqs)
  show g: "grows A A'"
    using assms(1) by (auto simp: ALLOCATE_FROM_NUMBERED_TERM_AREA_def grows_def reg_def split: if_splits)
  show "area_ok A'"
    using assms(2) grows_below [OF g] unfolding area_ok_def stands_for_def r eqs by blast
qed

lemma allocate_error:
  "ALLOCATE_FROM_NUMBERED_TERM_AREA sz A = Inl e \<Longrightarrow> e \<in> {Out_of_memory, Area_overrun}"
  by (auto simp: ALLOCATE_FROM_NUMBERED_TERM_AREA_def split: if_splits)

section \<open>Nodes of both kinds\<close>

fun kids :: "ntree \<Rightarrow> ntree list" where
  "kids (NLst t u) = [t, u]"
| "kids (NStr f ts) = ts"
| "kids _ = []"

fun head :: "ntree \<Rightarrow> sym option" where
  "head (NStr f ts) = Some f"
| "head _ = None"

fun tag :: "ntree \<Rightarrow> taddr \<Rightarrow> tab_word" where
  "tag (NStr f ts) p = TStr p"
| "tag _ p = TLst p"

definition node_of :: "ntree \<Rightarrow> tab_word list \<Rightarrow> tnode" where
  "node_of t ws = \<lparr>n_ground = nground t, n_hash = nhash t, n_sym = head t, n_args = ws\<rparr>"

lemma repr_compound:
  assumes "compound t"
  shows "repr N R w t \<longleftrightarrow> (nground t \<longrightarrow> w \<in> R) \<and>
    (\<exists>p ws. w = tag t p \<and> list_all2 (repr N R) ws (kids t) \<and> N p = Some (node_of t ws))"
  using assms
proof (cases t)
  case (NLst t1 t2)
  have "(\<exists>p ws. w = TLst p \<and> list_all2 (repr N R) ws [t1, t2] \<and> N p = Some (node_of t ws)) \<longleftrightarrow>
    (\<exists>p a b. w = TLst p \<and> repr N R a t1 \<and> repr N R b t2 \<and> N p = Some (node_of t [a, b]))"
    by (simp add: list_all2_Cons2) blast
  thus ?thesis unfolding NLst by (simp add: node_of_def)
next
  case (NStr f ts)
  thus ?thesis using assms by (auto simp: node_of_def)
qed simp_all

lemma node_at_tag: "node_at N (tag t p) = N p"
  by (cases t) (simp_all add: node_at_def)

lemma node_of_sel [simp]: "n_ground (node_of t ws) = nground t" "n_hash (node_of t ws) = nhash t"
  by (simp_all add: node_of_def)

section \<open>Registration, proved\<close>

lemma find_gterm_spec:
  assumes w: "repr N R w t" "size t < n"
    and xs: "\<forall>x\<in>set xs. \<exists>u. repr N R x u \<and> nground u \<and> compound u"
  shows "\<exists>r. find_gterm n N w (nhash t) xs = Inr r \<and>
    (case r of None \<Rightarrow> \<forall>x\<in>set xs. \<not> (nground t \<and> repr N R x t) | Some x \<Rightarrow> x \<in> set xs \<and> repr N R x t)"
  using xs
proof (induction xs)
  case (Cons x xs)
  then obtain u where u: "repr N R x u" "nground u" "compound u" by auto
  obtain p ws where p: "x = tag u p" "N p = Some (node_of u ws)" using u(1) repr_compound [OF u(3)] by blast
  from Cons obtain r where r: "find_gterm n N w (nhash t) xs = Inr r"
    "case r of None \<Rightarrow> \<forall>x\<in>set xs. \<not> (nground t \<and> repr N R x t) | Some x \<Rightarrow> x \<in> set xs \<and> repr N R x t" by auto
  have id: "identical_numbered_gterms n N w x = Inr (t = u)" by (rule identical_gterms_spec [OF w(1) u(1) w(2)])
  have other: "\<not> repr N R x t" if "t \<noteq> u" using repr_functional [OF u(1)] that by blast
  show ?case
  proof (cases "t = u")
    case True
    thus ?thesis using p u id by (simp add: node_at_tag)
  next
    case False
    hence "find_gterm n N w (nhash t) (x # xs) = Inr r" using p u id r(1) by (simp add: node_at_tag)
    thus ?thesis using r(2) other [OF False] by (cases r) auto
  qed
qed simp

definition with_node :: "area \<Rightarrow> taddr \<Rightarrow> tnode \<Rightarrow> area" where
  "with_node A q x = A\<lparr>nodes := (nodes A)(q := Some x)\<rparr>"

lemma with_node_sel [simp]:
  "nodes (with_node A q x) = (nodes A)(q := Some x)" "gterms (with_node A q x) = gterms A" "reg (with_node A q x) = reg A"
  "numb (with_node A q x) = numb A" "block (with_node A q x) = block A" "area_top (with_node A q x) = area_top A"
  "below (with_node A q x) = below A" "can_malloc (with_node A q x) = can_malloc A"
  by (simp_all add: with_node_def reg_def below_def[abs_def])

lemma with_node_ok:
  assumes ok: "area_ok A" and q: "q \<notin> dom (nodes A)" "below A q"
  shows "area_ok (with_node A q x)" "stands_for A w t \<Longrightarrow> stands_for (with_node A q x) w t"
    "w \<in> reg A \<Longrightarrow> stands_for (with_node A q x) w t \<Longrightarrow> stands_for A w t"
proof -
  have le: "nodes A \<subseteq>\<^sub>m nodes (with_node A q x)" using q(1) by (auto simp: map_le_def)
  show up: "stands_for A w t \<Longrightarrow> stands_for (with_node A q x) w t" for w t
    unfolding stands_for_def with_node_sel(3) by (rule repr_mono [OF _ le subset_refl])
  have r: "\<exists>t. stands_for A w t \<and> nground t \<and> compound t" if "w \<in> reg A" for w using ok that by (simp add: area_ok_def)
  show down: "stands_for A w t" if "w \<in> reg A" "stands_for (with_node A q x) w t" for w t
  proof -
    from r [OF that(1)] obtain u where u: "stands_for A w u" by blast
    have "u = t" using repr_functional up [OF u] that(2) unfolding stands_for_def by blast
    thus ?thesis using u by simp
  qed
  have hash: "n_hash (the (node_at (nodes (with_node A q x)) w)) = n_hash (the (node_at (nodes A) w))" if "w \<in> reg A" for w
  proof -
    from r [OF that] obtain t where t: "stands_for A w t" "compound t" by blast
    then obtain p ws where "w = tag t p" "nodes A p = Some (node_of t ws)" unfolding stands_for_def repr_compound [OF t(2)] by blast
    thus ?thesis using q(1) by (auto simp: node_at_tag)
  qed
  have "chained (\<lambda>w. n_hash (the (node_at (nodes (with_node A q x)) w))) (gterms A)"
    by (rule chained_cong [of "\<lambda>w. n_hash (the (node_at (nodes A) w))"]) (use ok hash in \<open>auto simp: area_ok_def reg_def\<close>)
  thus "area_ok (with_node A q x)"
  proof -
    assume c: "chained (\<lambda>w. n_hash (the (node_at (nodes (with_node A q x)) w))) (gterms A)"
    have "\<forall>p\<in>dom (nodes (with_node A q x)). below A p" using ok q(2) by (simp add: area_ok_def)
    moreover have "\<forall>w\<in>reg A. \<exists>t. stands_for (with_node A q x) w t \<and> nground t \<and> compound t" using r up by blast
    moreover have "\<forall>w\<in>reg A. \<forall>w'\<in>reg A. \<forall>t. stands_for (with_node A q x) w t \<longrightarrow> stands_for (with_node A q x) w' t \<longrightarrow> w = w'"
      using ok down unfolding area_ok_def by blast
    ultimately show ?thesis unfolding area_ok_def with_node_sel(2,3,7) using c by blast
  qed
qed

lemma register_spec:
  assumes ok: "area_ok A" and w: "w = tag t p" "compound t" "nground t" "nodes A p = Some (node_of t ws)"
      "list_all2 (stands_for A) ws (kids t)" and n: "size t < n" and new: "w \<notin> reg A"
  obtains (found) x where "register_gterms_htable n w (nhash t) A = Inr (x, A)" "x \<in> reg A" "stands_for A x t"
  | (new) B where "register_gterms_htable n w (nhash t) A = Inr (w, B)" "area_ok B" "nodes B = nodes A" "reg B = insert w (reg A)"
      "block B = block A" "area_top B = area_top A" "numb B = numb A" "stands_for B w t"
proof -
  let ?N = "nodes A" and ?R = "insert w (reg A)" and ?h = "\<lambda>w. n_hash (the (node_at (nodes A) w))"
  have ch: "chained ?h (gterms A)" using ok by (simp add: area_ok_def)
  have up: "stands_for A x u \<Longrightarrow> repr ?N ?R x u" for x u
    unfolding stands_for_def by (rule repr_mono) auto
  have rw: "repr ?N ?R w t"
    unfolding repr_compound [OF w(2)] using w(1,3,4) list_all2_mono [OF w(5)] up by auto
  have r: "\<exists>u. stands_for A x u \<and> nground u \<and> compound u" if "x \<in> reg A" for x using ok that by (simp add: area_ok_def)
  have down: "repr ?N ?R x u \<Longrightarrow> x \<in> reg A \<Longrightarrow> stands_for A x u" for x u
    using r [of x] up repr_functional [of ?N ?R x u] by blast
  let ?xs = "chain (nhash t) (gterms A)"
  have xs: "x \<in> reg A" if "x \<in> set ?xs" for x using chain_content(1) [OF ch that] by (simp add: reg_def)
  have "\<forall>x\<in>set ?xs. \<exists>u. repr ?N ?R x u \<and> nground u \<and> compound u" using r xs up by blast
  from find_gterm_spec [OF rw n this] obtain f where f: "find_gterm n ?N w (nhash t) ?xs = Inr f"
    "case f of None \<Rightarrow> \<forall>x\<in>set ?xs. \<not> (nground t \<and> repr ?N ?R x t) | Some x \<Rightarrow> x \<in> set ?xs \<and> repr ?N ?R x t" by blast
  show ?thesis
  proof (cases f)
    case (Some x)
    show ?thesis
      by (rule found [of x]) (use f Some xs down in \<open>auto simp: register_gterms_htable_def\<close>)
  next
    case None
    have hw: "?h w = nhash t" using w(1,4) by (simp add: node_at_tag)
    have fresh: "\<not> stands_for A x t" if x: "x \<in> reg A" for x
    proof
      assume s: "stands_for A x t"
      from s obtain q vs where "x = tag t q" "?N q = Some (node_of t vs)" unfolding stands_for_def repr_compound [OF w(2)] by blast
      hence "?h x = nhash t" by (simp add: node_at_tag)
      hence "x \<in> set ?xs" using in_chain [OF ch, of x] x by (simp add: reg_def)
      thus False using f(2) None w(3) up [OF s] by auto
    qed
    define g where "g = (push_chain (nhash t) w (gterms A))\<lparr>hcount := hcount (push_chain (nhash t) w (gterms A)) + 1\<rparr>"
    define g2 where "g2 = (if 2 * hcount g > hsize g then expand ?h (can_malloc A) g else g)"
    have g2: "chained ?h g2" "content g2 = add_mset w (content (gterms A))"
      unfolding g2_def g_def by (rule insert_ok [OF ch hw])+
    define B where "B = A\<lparr>gterms := g2\<rparr>"
    have rB: "reg B = ?R" "nodes B = ?N" by (simp_all add: B_def reg_def g2(2))
    have sB: "stands_for B x u = repr ?N ?R x u" for x u by (simp add: stands_for_def rB)
    have "register_gterms_htable n w (nhash t) A = Inr (w, B)"
      using f(1) None by (simp add: register_gterms_htable_def Let_def B_def g2_def g_def expand_gterms_htable_def)
    moreover have "area_ok B"
    proof -
      have "\<forall>p\<in>dom (nodes B). below B p" using ok by (simp add: area_ok_def B_def below_def)
      moreover have "chained (\<lambda>w. n_hash (the (node_at (nodes B) w))) (gterms B)" using g2(1) by (simp add: B_def)
      moreover have "\<exists>u. stands_for B x u \<and> nground u \<and> compound u" if "x \<in> reg B" for x
        using that r up rw w(2,3) unfolding sB rB(1) by blast
      moreover have "x = y" if "x \<in> reg B" "y \<in> reg B" "stands_for B x u" "stands_for B y u" for x y u
      proof (cases "u = t")
        case True
        thus ?thesis using that fresh down unfolding sB rB(1) by blast
      next
        case False
        hence "x \<noteq> w" "y \<noteq> w" using repr_functional [OF rw] that(3,4) unfolding sB by blast+
        thus ?thesis using that ok down unfolding sB rB(1) area_ok_def by blast
      qed
      ultimately show ?thesis unfolding area_ok_def by blast
    qed
    ultimately show ?thesis
      by (intro new [of B]) (use rw in \<open>simp_all add: sB rB, simp_all add: B_def\<close>)
  qed
qed

section \<open>Giving back the last record\<close>

definition pop :: "taddr \<Rightarrow> area \<Rightarrow> area" where
  "pop p A = A\<lparr>area_top := offset p\<rparr>"

lemma pop_sel [simp]:
  "nodes (pop p A) = nodes A" "reg (pop p A) = reg A" "gterms (pop p A) = gterms A" "numb (pop p A) = numb A"
  "stands_for (pop p A) = stands_for A"
  by (simp_all add: pop_def reg_def stands_for_def[abs_def])

text \<open>A record whose end is the top is the last one, so everything else lies below it.\<close>

lemma pop_ok:
  assumes ok0: "area_ok A0" and al: "ALLOCATE_FROM_NUMBERED_TERM_AREA sz A0 = Inr (p, A1)"
    and g: "grows A1 A" and ok: "area_ok A" and last: "block A = in_block p" "area_top A = offset p + sz"
  shows "area_ok (pop p A)" "grows A0 (pop p A)"
proof -
  note a = allocate_ok [OF al(1) ok0]
  have g0: "grows A0 A" using grows_trans [OF a(4) g] .
  have lower: "below (pop p A) q" if q: "q \<in> dom (nodes A)" for q
  proof (cases "q \<in> dom (nodes A0)")
    case True
    hence "below A0 q" using ok0 by (simp add: area_ok_def)
    thus ?thesis using a(4,8,9,10) last g by (auto simp: below_def pop_def grows_def)
  next
    case False
    hence "\<not> below A1 q" using q g a(1) by (auto simp: grows_def)
    moreover have "below A q" using ok q by (simp add: area_ok_def)
    ultimately show ?thesis using a(8,9) last by (auto simp: below_def pop_def)
  qed
  show "area_ok (pop p A)" using ok lower unfolding area_ok_def pop_sel by blast
  have "block A0 < block (pop p A) \<or> block A0 = block (pop p A) \<and> area_top A0 \<le> area_top (pop p A)"
    using a(4,8,10) last by (auto simp: pop_def grows_def)
  thus "grows A0 (pop p A)" using g0 unfolding grows_def pop_sel by blast
qed

section \<open>Completion of a node, proved\<close>

lemma tag_inj: "tag t p = tag u q \<Longrightarrow> p = q"
  by (cases t; cases u) auto

lemma finish_spec:
  assumes ok0: "area_ok A0" and al: "ALLOCATE_FROM_NUMBERED_TERM_AREA sz A0 = Inr (p, A1)" "2 < sz"
    and g: "grows A1 A" and ok: "area_ok A"
    and t: "compound t" "list_all2 (stands_for A) ws (kids t)" "size t < n"
  obtains w B where "finish_node n p sz (node_of t ws) (tag t (dest p)) A = Inr (w, B)"
    "area_ok B" "grows A0 B" "numb B = numb A" "stands_for B w t"
proof -
  note a = allocate_ok [OF al(1) ok0]
  have g0: "grows A0 A" using grows_trans [OF a(4) g] .
  have d1: "dest p \<notin> dom (nodes A1)" using a(1) a(6) [OF al(2)] ok0 by (auto simp: area_ok_def)
  have d: "dest p \<notin> dom (nodes A)" using g d1 a(7) [OF al(2)] by (auto simp: grows_def)
  have b: "below A (dest p)" using grows_below [OF g a(7) [OF al(2)]] .
  let ?w = "tag t (dest p)" and ?W = "with_node A (dest p) (node_of t ws)"
  note wo = with_node_ok [OF ok d b, where x = "node_of t ws"]
  have new: "?w \<notin> reg A"
  proof
    assume "?w \<in> reg A"
    then obtain u where u: "stands_for A ?w u" "compound u" using ok by (auto simp: area_ok_def)
    then obtain q vs where "?w = tag u q" "nodes A q = Some (node_of u vs)" unfolding stands_for_def repr_compound [OF u(2)] by blast
    thus False using tag_inj [of t "dest p" u q] d by auto
  qed
  have gW: "grows A0 ?W"
  proof -
    have "dest p \<notin> dom (nodes A0)" using d1 a(1) by simp
    thus ?thesis using g0 a(6) [OF al(2)] unfolding grows_def with_node_sel by (auto simp: map_le_def)
  qed
  have ws: "list_all2 (stands_for ?W) ws (kids t)" using list_all2_mono [OF t(2)] wo(2) by blast
  have fin: "finish_node n p sz (node_of t ws) ?w A = (if \<not> nground t then Inr (?w, ?W)
      else tbind (register_gterms_htable n ?w (nhash t) ?W) (\<lambda>(w1, A).
        Inr (w1, if w1 \<noteq> ?w \<and> block A = in_block p \<and> area_top A = offset p + sz
                 then A\<lparr>nodes := (nodes A)(dest p := None), area_top := offset p\<rparr> else A)))"
    by (simp add: finish_node_def with_node_def)
  show ?thesis
  proof (cases "nground t")
    case False
    have "stands_for ?W ?w t"
      unfolding stands_for_def repr_compound [OF t(1)] using False ws by (auto simp: stands_for_def[abs_def])
    thus ?thesis using that [of ?w ?W] fin False wo(1) gW by simp
  next
    case True
    have node: "nodes ?W (dest p) = Some (node_of t ws)" by simp
    have newW: "?w \<notin> reg ?W" using new by simp
    show ?thesis
    proof (rule register_spec [OF wo(1) refl t(1) True node ws t(3) newW])
      fix B assume B: "register_gterms_htable n ?w (nhash t) ?W = Inr (?w, B)" "area_ok B" "nodes B = nodes ?W"
        "reg B = insert ?w (reg ?W)" "block B = block ?W" "area_top B = area_top ?W" "numb B = numb ?W" "stands_for B ?w t"
      have "grows A0 B" using gW unfolding grows_def B(3-6) by auto
      thus ?thesis using that [of ?w B] fin True B by simp
    next
      fix x assume x: "register_gterms_htable n ?w (nhash t) ?W = Inr (x, ?W)" "x \<in> reg ?W" "stands_for ?W x t"
      hence xw: "x \<noteq> ?w" using new by auto
      have xA: "stands_for A x t" by (rule wo(3)) (use x in simp_all)
      show ?thesis
      proof (cases "block A = in_block p \<and> area_top A = offset p + sz")
        case False
        thus ?thesis using that [of x ?W] fin True x(1,3) wo(1) gW xw by auto
      next
        case pop: True
        have "(nodes A)(dest p := None) = nodes A" using d by auto
        hence "finish_node n p sz (node_of t ws) ?w A = Inr (x, pop p A)"
          using fin True x(1) xw pop by (simp add: pop_def with_node_def)
        thus ?thesis using that [of x "pop p A"] pop_ok [OF ok0 al(1) g ok] pop xA by simp
      qed
    qed
  qed
qed

end
