(* ===== verification/Table_Copy.thy ===== *)
theory Table_Copy
  imports Table_Area
begin

text \<open>
  Copying of a term into the table area (\<open>emu/table.c\<close>, \<open>emu/numbervars.c\<close>) and its hash code
  (\<open>emu/mic.c\<close>). A term on the heap is the tree below a word; a free or suspended variable is its
  address, and a subterm that already lies in the table area is its word. The numbers that variables
  are bound to for the time of the copy are a map; the code binds the variables and the trail undoes it.
  The pointers of a list are reversed and restored while it is copied, which a tree does not show.
\<close>

section \<open>Terms and numbers\<close>

datatype hterm = HVar nat | HAtm "64 word" | HLst hterm hterm | HStr sym "hterm list" | HTab tab_word

definition PREPARE_NUMBER_TERM :: "nat \<Rightarrow> numbering \<Rightarrow> numbering" where
  "PREPARE_NUMBER_TERM n m = m\<lparr>global_var_num := n\<rparr>"

definition number_var :: "nat \<Rightarrow> numbering \<Rightarrow> numbering" where
  "number_var a m = (if var_nums m a = None
     then m\<lparr>var_nums := (var_nums m)(a := Some (global_var_num m)), global_var_num := global_var_num m + 1\<rparr> else m)"

fun numberVarTermOpt :: "hterm \<Rightarrow> numbering \<Rightarrow> numbering" where
  "numberVarTermOpt (HVar a) m = number_var a m"
| "numberVarTermOpt (HAtm w) m = m"
| "numberVarTermOpt (HLst x y) m = numberVarTermOpt y (numberVarTermOpt x m)"
| "numberVarTermOpt (HStr f ts) m = fold numberVarTermOpt ts m"
| "numberVarTermOpt (HTab w) m = m"

section \<open>Hash codes\<close>

text \<open>The hash code of a term on the heap, in which a variable counts 0.\<close>

fun bp_hashval :: "(taddr \<Rightarrow> tnode option) \<Rightarrow> hterm \<Rightarrow> nat" where
  "bp_hashval N (HVar a) = 0"
| "bp_hashval N (HAtm w) = atm_hash w"
| "bp_hashval N (HLst x y) = add_car_hash (bp_hashval N x) (bp_hashval N y)"
| "bp_hashval N (HStr f ts) = take_bit 28 (args_hash (sym_hash f) (map (bp_hashval N) ts))"
| "bp_hashval N (HTab w) = hashval_of_numbered_term N w"

section \<open>Copying\<close>

text \<open>
  The result is the word of the copy, its hash code, whether the copy is ground, and the area. In
  a list the variables of an element are numbered before the rest is copied, and the cells are made from
  the last one to the first. When a tail that is a structure cannot be copied the code goes on.
\<close>

fun numberVarCopyToTableArea :: "nat \<Rightarrow> hterm \<Rightarrow> area \<Rightarrow> tab_error + (tab_word \<times> nat \<times> bool \<times> area)"
  and copy_args :: "nat \<Rightarrow> hterm list \<Rightarrow> area \<Rightarrow> tab_error + (tab_word list \<times> nat list \<times> bool \<times> area)" where
  "numberVarCopyToTableArea n (HVar a) A = (let m = number_var a (numb A)
     in Inr (TNum (the (var_nums m a)), 0, False, A\<lparr>numb := m\<rparr>))"
| "numberVarCopyToTableArea n (HAtm w) A = Inr (TAtm w, atm_hash w, True, A)"
| "numberVarCopyToTableArea n (HTab w) A = (case node_at (nodes A) w of
       None \<Rightarrow> Inl Bad_access
     | Some x \<Rightarrow> Inr (w, n_hash x, True, A))"
| "numberVarCopyToTableArea n (HStr f ts) A =
     tbind (ALLOCATE_FROM_NUMBERED_TERM_AREA (arity f + 3) A) (\<lambda>(p, A).
     tbind (copy_args n ts A) (\<lambda>(ws, hs, g, A).
     let h = take_bit 28 (args_hash (sym_hash f) hs)
     in tbind (finish_node n p (arity f + 3) \<lparr>n_ground = g, n_hash = h, n_sym = Some f, n_args = ws\<rparr> (TStr (dest p)) A) (\<lambda>(w, A).
     Inr (w, h, g, A))))"
| "numberVarCopyToTableArea n (HLst car cdr) A =
     (let A = (case car of HAtm _ \<Rightarrow> A | _ \<Rightarrow> A\<lparr>numb := numberVarTermOpt car (numb A)\<rparr>)
      in tbind (case numberVarCopyToTableArea n cdr A of
             Inl Out_of_memory \<Rightarrow> (case cdr of HStr _ _ \<Rightarrow> Inl Unchecked_tail | _ \<Rightarrow> Inl Out_of_memory)
           | r \<Rightarrow> r) (\<lambda>(w2, h2, g2, A).
         tbind (ALLOCATE_FROM_NUMBERED_TERM_AREA 4 A) (\<lambda>(p, A).
         tbind (numberVarCopyToTableArea n car A) (\<lambda>(w1, h1, g1, A).
         let h = add_car_hash h1 h2; g = (g1 \<and> g2)
         in tbind (finish_node n p 4 \<lparr>n_ground = g, n_hash = h, n_sym = None, n_args = [w1, w2]\<rparr> (TLst (dest p)) A) (\<lambda>(w, A).
         Inr (w, h, g, A))))))"
| "copy_args n [] A = Inr ([], [], True, A)"
| "copy_args n (t # ts) A =
     tbind (numberVarCopyToTableArea n t A) (\<lambda>(w, h, g, A).
     tbind (copy_args n ts A) (\<lambda>(ws, hs, gs, A). Inr (w # ws, h # hs, g \<and> gs, A)))"

section \<open>Numbering, proved\<close>

fun hvars :: "hterm \<Rightarrow> nat set" where
  "hvars (HVar a) = {a}"
| "hvars (HAtm w) = {}"
| "hvars (HLst x y) = hvars x \<union> hvars y"
| "hvars (HStr f ts) = (\<Union>t\<in>set ts. hvars t)"
| "hvars (HTab w) = {}"

definition num_le :: "numbering \<Rightarrow> numbering \<Rightarrow> bool" where
  "num_le m m' \<longleftrightarrow> var_nums m \<subseteq>\<^sub>m var_nums m'"

lemma num_le_refl [simp]: "num_le m m"
  by (simp add: num_le_def)

lemma num_le_trans: "num_le a b \<Longrightarrow> num_le b c \<Longrightarrow> num_le a c"
  unfolding num_le_def by (rule map_le_trans)

lemma num_le_dom: "num_le m m' \<Longrightarrow> dom (var_nums m) \<subseteq> dom (var_nums m')"
  unfolding num_le_def by (rule map_le_implies_dom_le)

lemma number_var_le: "num_le m (number_var a m)" "a \<in> dom (var_nums (number_var a m))"
  by (auto simp: number_var_def num_le_def map_le_def)

lemma number_var_same: "a \<in> dom (var_nums m) \<Longrightarrow> number_var a m = m"
  by (auto simp: number_var_def)

lemma number_le: "num_le m (numberVarTermOpt t m) \<and> hvars t \<subseteq> dom (var_nums (numberVarTermOpt t m))"
proof (induction t arbitrary: m)
  case (HVar a)
  thus ?case using number_var_le by simp
next
  case (HLst x y)
  let ?m = "numberVarTermOpt x m"
  note x = HLst.IH(1) [of m] and y = HLst.IH(2) [of ?m]
  have "hvars x \<subseteq> dom (var_nums (numberVarTermOpt y ?m))" using x num_le_dom [of ?m] y by blast
  thus ?case using x y num_le_trans [of m ?m] by simp
next
  case (HStr f ts)
  have "num_le m (fold numberVarTermOpt ts m) \<and> (\<Union>t\<in>set ts. hvars t) \<subseteq> dom (var_nums (fold numberVarTermOpt ts m))"
    using HStr.IH
  proof (induction ts arbitrary: m)
    case (Cons t ts)
    let ?m = "numberVarTermOpt t m"
    have t: "num_le m ?m" "hvars t \<subseteq> dom (var_nums ?m)" using Cons.prems by simp_all
    have r: "num_le ?m (fold numberVarTermOpt ts ?m)" "(\<Union>t\<in>set ts. hvars t) \<subseteq> dom (var_nums (fold numberVarTermOpt ts ?m))"
      using Cons.IH [of ?m] Cons.prems by simp_all
    have "hvars t \<subseteq> dom (var_nums (fold numberVarTermOpt ts ?m))" using t(2) num_le_dom [OF r(1)] by blast
    thus ?case using num_le_trans [OF t(1) r(1)] r(2) by simp
  qed simp
  thus ?case by simp
qed simp_all

lemma number_args_le:
  "num_le m (fold numberVarTermOpt ts m)" "(\<Union>t\<in>set ts. hvars t) \<subseteq> dom (var_nums (fold numberVarTermOpt ts m))"
  using number_le [of m "HStr undefined ts"] by simp_all

lemma number_same: "hvars t \<subseteq> dom (var_nums m) \<Longrightarrow> numberVarTermOpt t m = m"
proof (induction t arbitrary: m)
  case (HStr f ts)
  have "fold numberVarTermOpt ts m = m"
    using HStr by (induction ts) auto
  thus ?case by simp
qed (simp_all add: number_var_same)

text \<open>The tree that a term on the heap stands for under numbers for its variables.\<close>

fun numbered :: "(tab_word \<Rightarrow> ntree \<Rightarrow> bool) \<Rightarrow> (nat \<Rightarrow> nat option) \<Rightarrow> hterm \<Rightarrow> ntree \<Rightarrow> bool" where
  "numbered S v (HVar a) T \<longleftrightarrow> (\<exists>i. v a = Some i \<and> T = NVar i)"
| "numbered S v (HAtm w) T \<longleftrightarrow> T = NAtm w"
| "numbered S v (HLst x y) T \<longleftrightarrow> (\<exists>X Y. T = NLst X Y \<and> numbered S v x X \<and> numbered S v y Y)"
| "numbered S v (HStr f ts) T \<longleftrightarrow> ts \<noteq> [] \<and> arity f = length ts \<and> (\<exists>Ts. T = NStr f Ts \<and> list_all2 (numbered S v) ts Ts)"
| "numbered S v (HTab w) T \<longleftrightarrow> S w T \<and> nground T \<and> compound T"

lemma numbered_mono:
  "numbered S v t T \<Longrightarrow> (\<And>w T. S w T \<Longrightarrow> S' w T) \<Longrightarrow> v \<subseteq>\<^sub>m v' \<Longrightarrow> numbered S' v' t T"
proof (induction t arbitrary: T)
  case (HVar a)
  thus ?case using map_le_Some [of v v' a] by auto
next
  case (HStr f ts)
  thus ?case by (fastforce simp: list_all2_conv_all_nth)
qed auto

lemma numbered_restrict:
  "numbered S v' t T \<Longrightarrow> hvars t \<subseteq> dom v \<Longrightarrow> v \<subseteq>\<^sub>m v' \<Longrightarrow> numbered S v t T"
proof (induction t arbitrary: T)
  case (HVar a)
  thus ?case by (auto simp: map_le_def)
next
  case (HStr f ts)
  then obtain Ts where Ts: "T = NStr f Ts" "list_all2 (numbered S v') ts Ts" "ts \<noteq> []" "arity f = length ts" by auto
  have "numbered S v (ts ! i) (Ts ! i)" if "i < length ts" for i
  proof (rule HStr.IH [OF nth_mem [OF that] _ _ HStr.prems(3)])
    show "numbered S v' (ts ! i) (Ts ! i)" using Ts(2) that by (simp add: list_all2_conv_all_nth)
    show "hvars (ts ! i) \<subseteq> dom v" using HStr.prems(2) nth_mem [OF that] by auto
  qed
  thus ?case using Ts by (auto simp: list_all2_conv_all_nth)
qed auto

section \<open>Copying, proved\<close>

definition memory_error :: "tab_error \<Rightarrow> bool" where
  "memory_error e \<longleftrightarrow> e = Out_of_memory \<or> e = Area_overrun \<or> e = Unchecked_tail"

text \<open>The result of copying \<open>t\<close>, whose tree is \<open>T\<close>, into the area \<open>A\<close>.\<close>

definition copied :: "hterm \<Rightarrow> ntree \<Rightarrow> area \<Rightarrow> tab_error + (tab_word \<times> nat \<times> bool \<times> area) \<Rightarrow> bool" where
  "copied t T A r \<longleftrightarrow> (case r of
       Inl e \<Rightarrow> memory_error e
     | Inr (w, h, g, B) \<Rightarrow> area_ok B \<and> grows A B \<and> numb B = numberVarTermOpt t (numb A) \<and>
         stands_for B w T \<and> h = nhash T \<and> g = nground T)"

definition copied_args :: "hterm list \<Rightarrow> ntree list \<Rightarrow> area \<Rightarrow> tab_error + (tab_word list \<times> nat list \<times> bool \<times> area) \<Rightarrow> bool" where
  "copied_args ts Ts A r \<longleftrightarrow> (case r of
       Inl e \<Rightarrow> memory_error e
     | Inr (ws, hs, g, B) \<Rightarrow> area_ok B \<and> grows A B \<and> numb B = fold numberVarTermOpt ts (numb A) \<and>
         list_all2 (stands_for B) ws Ts \<and> hs = map nhash Ts \<and> g = (\<forall>T\<in>set Ts. nground T))"

definition numbered_in :: "area \<Rightarrow> numbering \<Rightarrow> hterm \<Rightarrow> ntree \<Rightarrow> bool" where
  "numbered_in A m t T \<longleftrightarrow> numbered (stands_for A) (var_nums m) t T"

lemma numbered_in_mono: "numbered_in A m t T \<Longrightarrow> grows A B \<Longrightarrow> num_le m m' \<Longrightarrow> numbered_in B m' t T"
  unfolding numbered_in_def num_le_def using numbered_mono grows_stands_for by blast

lemma numbered_in_restrict:
  "numbered_in A m' t T \<Longrightarrow> hvars t \<subseteq> dom (var_nums m) \<Longrightarrow> num_le m m' \<Longrightarrow> numbered_in A m t T"
  unfolding numbered_in_def num_le_def by (rule numbered_restrict)

lemma numbered_in_numb [simp]: "numbered_in (A\<lparr>numb := m\<rparr>) = numbered_in A"
  by (simp add: numbered_in_def[abs_def])

lemma copy_and_args:
  shows copy_copied: "area_ok A \<Longrightarrow> numbered_in A (numberVarTermOpt t (numb A)) t T \<Longrightarrow> size T < n \<Longrightarrow>
      copied t T A (numberVarCopyToTableArea n t A)"
    and args_copied: "area_ok A \<Longrightarrow> list_all2 (numbered_in A (fold numberVarTermOpt ts (numb A))) ts Ts \<Longrightarrow>
      \<forall>T\<in>set Ts. size T < n \<Longrightarrow> copied_args ts Ts A (copy_args n ts A)"
proof (induction n t A and n ts A arbitrary: T and Ts rule: numberVarCopyToTableArea_copy_args.induct)
  case (1 n a A)
  then obtain i where "var_nums (number_var a (numb A)) a = Some i" "T = NVar i" by (auto simp: numbered_in_def)
  thus ?case using 1(1) by (simp add: copied_def Let_def grows_refl) (simp add: stands_for_def)
next
  case (2 n w A)
  hence "T = NAtm w" by (simp add: numbered_in_def)
  thus ?case using 2(1) by (simp add: copied_def grows_refl) (simp add: stands_for_def)
next
  case (3 n w A)
  hence T: "stands_for A w T" "nground T" "compound T" by (simp_all add: numbered_in_def)
  then obtain p ws where "w = tag T p" "nodes A p = Some (node_of T ws)" unfolding stands_for_def repr_compound [OF T(3)] by blast
  thus ?case using T 3(1) by (simp add: copied_def node_at_tag grows_refl)
next
  case (4 n f ts A)
  then obtain Ts where T: "T = NStr f Ts" "ts \<noteq> []" "arity f = length ts" "list_all2 (numbered_in A (fold numberVarTermOpt ts (numb A))) ts Ts"
    using 4(3) by (auto simp: numbered_in_def[abs_def])
  have len: "length Ts = length ts" using T(4) by (simp add: list_all2_lengthD)
  have c: "compound T" using T len by (cases Ts) auto
  have sz: "\<forall>t\<in>set Ts. size t < n"
    using 4(4) size_list_estimation' [of _ Ts _ size] unfolding T(1) by fastforce
  show ?case
  proof (cases "ALLOCATE_FROM_NUMBERED_TERM_AREA (arity f + 3) A")
    case (Inl e)
    thus ?thesis using allocate_error [OF Inl] by (auto simp: copied_def memory_error_def)
  next
    case (Inr pA)
    obtain p A1 where al: "ALLOCATE_FROM_NUMBERED_TERM_AREA (arity f + 3) A = Inr (p, A1)" using Inr by (cases pA) simp
    note a = allocate_ok [OF al 4(2)]
    have "list_all2 (numbered_in A1 (fold numberVarTermOpt ts (numb A1))) ts Ts"
      using list_all2_mono [OF T(4)] numbered_in_mono [OF _ a(4) num_le_refl] unfolding a(3) by blast
    from 4(1) [OF al refl a(5) this sz]
    have r: "copied_args ts Ts A1 (copy_args n ts A1)" .
    show ?thesis
    proof (cases "copy_args n ts A1")
      case (Inl e)
      thus ?thesis using r al by (simp add: copied_def copied_args_def)
    next
      case (Inr q)
      obtain ws hs g B where q: "copy_args n ts A1 = Inr (ws, hs, g, B)" using Inr by (cases q) simp
      note r = r [unfolded q copied_args_def, simplified]
      have node: "\<lparr>n_ground = g, n_hash = take_bit 28 (args_hash (sym_hash f) hs), n_sym = Some f, n_args = ws\<rparr> = node_of T ws"
        using r by (simp add: node_of_def T(1))
      have k: "list_all2 (stands_for B) ws (kids T)" using r by (simp add: T(1))
      have B: "area_ok B" "grows A1 B" using r by simp_all
      obtain w C where fin: "finish_node n p (arity f + 3) (node_of T ws) (tag T (dest p)) B = Inr (w, C)"
        "area_ok C" "grows A C" "numb C = numb B" "stands_for C w T"
        by (rule finish_spec [OF 4(2) al _ B(2,1) c k 4(4)]) (use T in simp_all)
      thus ?thesis
        using al q r node by (simp add: copied_def T(1) a(3) Let_def)
    qed
  qed
next
  case (5 n car cdr A)
  define A1 where "A1 = A\<lparr>numb := numberVarTermOpt car (numb A)\<rparr>"
  have A1: "(case car of HAtm _ \<Rightarrow> A | _ \<Rightarrow> A\<lparr>numb := numberVarTermOpt car (numb A)\<rparr>) = A1"
    by (cases car) (simp_all add: A1_def)
  let ?m = "numberVarTermOpt cdr (numb A1)"
  have m: "numb A1 = numberVarTermOpt car (numb A)" "numberVarTermOpt (HLst car cdr) (numb A) = ?m" by (simp_all add: A1_def)
  obtain X Y where T: "T = NLst X Y" "numbered_in A ?m car X" "numbered_in A ?m cdr Y"
    using 5(4) unfolding m(2) by (auto simp: numbered_in_def)
  have sz: "size X < n" "size Y < n" using 5(5) T(1) by simp_all
  have ok1: "area_ok A1" "grows A A1" using 5(3) by (simp_all add: A1_def grows_refl)
  have "numbered_in A1 ?m cdr Y" using T(3) by (simp add: A1_def)
  from 5(1) [OF A1 [symmetric] ok1(1) this sz(2)] have r: "copied cdr Y A1 (numberVarCopyToTableArea n cdr A1)" .
  show ?case
  proof (cases "numberVarCopyToTableArea n cdr A1")
    case (Inl e)
    hence e: "memory_error e" using r by (simp add: copied_def)
    show ?thesis
      using e Inl unfolding numberVarCopyToTableArea.simps Let_def A1
      by (cases e; cases cdr) (auto simp: copied_def memory_error_def)
  next
    case (Inr q)
    obtain w2 h2 g2 A2 where q: "numberVarCopyToTableArea n cdr A1 = Inr (w2, h2, g2, A2)" using Inr by (cases q) simp
    note r = r [unfolded q copied_def, simplified]
    have A2: "area_ok A2" "grows A1 A2" "numb A2 = ?m" using r by simp_all
    show ?thesis
    proof (cases "ALLOCATE_FROM_NUMBERED_TERM_AREA 4 A2")
      case (Inl e)
      thus ?thesis
        using allocate_error [OF Inl] Inl q unfolding numberVarCopyToTableArea.simps Let_def A1
        by (auto simp: copied_def memory_error_def)
    next
      case (Inr pA)
      obtain p A3 where al: "ALLOCATE_FROM_NUMBERED_TERM_AREA 4 A2 = Inr (p, A3)" using Inr by (cases pA) simp
      note a = allocate_ok [OF al A2(1)]
      have g3: "grows A A3" using grows_trans [OF grows_trans [OF ok1(2) A2(2)] a(4)] .
      have "hvars car \<subseteq> dom (var_nums ?m)"
        using number_le [of "numb A" car] number_le [of "numb A1" cdr] num_le_dom unfolding m(1) by blast
      hence same: "numberVarTermOpt car (numb A3) = numb A3" using number_same a(3) A2(3) by simp
      have "numbered_in A3 (numberVarTermOpt car (numb A3)) car X"
        using numbered_in_mono [OF T(2) g3 num_le_refl] same a(3) A2(3) by simp
      from 5(2) [OF A1 [symmetric] _ _ _ _ al _ a(5) this sz(1), of "(w2, h2, g2, A2)" w2 "(h2, g2, A2)" h2 "(g2, A2)" g2]
      have s: "copied car X A3 (numberVarCopyToTableArea n car A3)" using q by simp
      show ?thesis
      proof (cases "numberVarCopyToTableArea n car A3")
        case (Inl e)
        thus ?thesis using s q al unfolding numberVarCopyToTableArea.simps Let_def A1 by (simp add: copied_def)
      next
        case (Inr q')
        obtain w1 h1 g1 B where q': "numberVarCopyToTableArea n car A3 = Inr (w1, h1, g1, B)" using Inr by (cases q') simp
        note s = s [unfolded q' copied_def same, simplified]
        have node: "\<lparr>n_ground = (g1 \<and> g2), n_hash = add_car_hash h1 h2, n_sym = None, n_args = [w1, w2]\<rparr> = node_of T [w1, w2]"
          using r s by (simp add: node_of_def T(1))
        have B: "area_ok B" "grows A3 B" using s by simp_all
        have k: "list_all2 (stands_for B) [w1, w2] (kids T)"
          using r s grows_stands_for [OF grows_trans [OF a(4) B(2)]] by (simp add: T(1))
        obtain w C where fin: "finish_node n p 4 (node_of T [w1, w2]) (tag T (dest p)) B = Inr (w, C)"
          "area_ok C" "grows A2 C" "numb C = numb B" "stands_for C w T"
          by (rule finish_spec [OF A2(1) al _ B(2,1) _ k 5(5)]) (simp_all add: T(1))
        have "grows A C" using grows_trans [OF grows_trans [OF ok1(2) A2(2)] fin(3)] .
        thus ?thesis
          using q al q' r s node fin a(3) A2(3) m unfolding numberVarCopyToTableArea.simps Let_def A1
          by (simp add: copied_def T(1))
      qed
    qed
  qed
next
  case (6 n A)
  thus ?case by (simp add: copied_args_def grows_refl)
next
  case (7 n t ts A)
  obtain T Ts' where Ts: "Ts = T # Ts'" "numbered_in A (fold numberVarTermOpt (t # ts) (numb A)) t T"
    "list_all2 (numbered_in A (fold numberVarTermOpt (t # ts) (numb A))) ts Ts'"
    using 7(4) by (auto simp: list_all2_Cons1)
  let ?m = "numberVarTermOpt t (numb A)"
  have n1: "numbered_in A ?m t T"
    by (rule numbered_in_restrict [OF Ts(2)]) (use number_le [of "numb A" t] number_args_le(1) [of ?m ts] in simp_all)
  from 7(1) [OF 7(3) n1] have r: "copied t T A (numberVarCopyToTableArea n t A)" using 7(5) Ts(1) by simp
  show ?case
  proof (cases "numberVarCopyToTableArea n t A")
    case (Inl e)
    thus ?thesis using r by (simp add: copied_def copied_args_def)
  next
    case (Inr q)
    obtain w h g B where q: "numberVarCopyToTableArea n t A = Inr (w, h, g, B)" using Inr by (cases q) simp
    note r = r [unfolded q copied_def, simplified]
    have B: "area_ok B" "grows A B" "numb B = ?m" using r by simp_all
    have n2: "list_all2 (numbered_in B (fold numberVarTermOpt ts (numb B))) ts Ts'"
      using list_all2_mono [OF Ts(3)] numbered_in_mono [OF _ B(2) num_le_refl] unfolding B(3) fold_simps by blast
    have s: "copied_args ts Ts' B (copy_args n ts B)"
      by (rule 7(2) [OF q refl refl refl B(1) n2]) (use 7(5) Ts(1) in simp)
    show ?thesis
    proof (cases "copy_args n ts B")
      case (Inl e)
      thus ?thesis using s q by (simp add: copied_args_def)
    next
      case (Inr q')
      obtain ws hs gs C where q': "copy_args n ts B = Inr (ws, hs, gs, C)" using Inr by (cases q') simp
      note s = s [unfolded q' copied_args_def, simplified]
      have "grows A C" "stands_for C w T" using s r grows_trans [OF B(2)] grows_stands_for by blast+
      thus ?thesis using q q' r s B(3) by (simp add: copied_args_def Ts(1))
    qed
  qed
qed

section \<open>Every term can be copied\<close>

text \<open>A term on the heap: its symbols have their arities, what lies in the table is ground.\<close>

fun heap_term :: "(tab_word \<Rightarrow> ntree \<Rightarrow> bool) \<Rightarrow> hterm \<Rightarrow> bool" where
  "heap_term S (HLst x y) \<longleftrightarrow> heap_term S x \<and> heap_term S y"
| "heap_term S (HStr f ts) \<longleftrightarrow> ts \<noteq> [] \<and> arity f = length ts \<and> (\<forall>t\<in>set ts. heap_term S t)"
| "heap_term S (HTab w) \<longleftrightarrow> (\<exists>T. S w T \<and> nground T \<and> compound T)"
| "heap_term S _ \<longleftrightarrow> True"

lemma numbered_exists: "heap_term S t \<Longrightarrow> hvars t \<subseteq> dom v \<Longrightarrow> \<exists>T. numbered S v t T"
proof (induction t)
  case (HStr f ts)
  have "\<exists>T. numbered S v t T" if "t \<in> set ts" for t using HStr.IH [OF that] HStr.prems that by auto
  hence "\<exists>Ts. list_all2 (numbered S v) ts Ts"
  proof (induction ts)
    case (Cons t ts)
    obtain T where T: "numbered S v t T" using Cons.prems by auto
    obtain Ts where "list_all2 (numbered S v) ts Ts" using Cons by auto
    hence "list_all2 (numbered S v) (t # ts) (T # Ts)" using T by simp
    thus ?case ..
  qed auto
  thus ?case using HStr.prems(1) by auto
next
  case (HLst x y)
  then obtain X Y where "numbered S v x X" "numbered S v y Y" by auto
  hence "numbered S v (HLst x y) (NLst X Y)" by simp
  thus ?case ..
qed auto

lemma numbered_functional:
  assumes "\<And>w T T'. S w T \<Longrightarrow> S w T' \<Longrightarrow> T = T'"
  shows "numbered S v t T \<Longrightarrow> numbered S v t T' \<Longrightarrow> T = T'"
proof (induction t arbitrary: T T')
  case (HStr f ts)
  from HStr.prems obtain Ts Ts' where Ts: "T = NStr f Ts" "list_all2 (numbered S v) ts Ts" "T' = NStr f Ts'" "list_all2 (numbered S v) ts Ts'"
    by (simp only: numbered.simps) blast
  have "Ts = Ts'"
    using Ts(2,4) HStr.IH unfolding list_all2_conv_all_nth by (metis nth_equalityI nth_mem)
  thus ?case using Ts by simp
qed (use assms in auto)

lemma stands_for_functional: "stands_for A w T \<Longrightarrow> stands_for A w T' \<Longrightarrow> T = T'"
  unfolding stands_for_def by (rule repr_functional)

text \<open>Numbers are given in the order of the first occurrence.\<close>

definition numbering_ok :: "numbering \<Rightarrow> bool" where
  "numbering_ok m \<longleftrightarrow> ran (var_nums m) = {..<global_var_num m} \<and> inj_on (var_nums m) (dom (var_nums m))"

lemma number_var_ok: "numbering_ok m \<Longrightarrow> numbering_ok (number_var a m)"
proof (cases "var_nums m a")
  case None
  assume ok: "numbering_ok m"
  have fresh: "var_nums m x \<noteq> Some (global_var_num m)" for x
  proof
    assume "var_nums m x = Some (global_var_num m)"
    hence "global_var_num m \<in> ran (var_nums m)" by (auto simp: ran_def)
    thus False using ok by (simp add: numbering_ok_def)
  qed
  have inj: "inj_on (var_nums m) (dom (var_nums m))" using ok by (simp add: numbering_ok_def)
  have "inj_on ((var_nums m)(a := Some (global_var_num m))) (insert a (dom (var_nums m)))"
  proof (rule inj_onI)
    fix x y
    assume "x \<in> insert a (dom (var_nums m))" "y \<in> insert a (dom (var_nums m))"
      and e: "((var_nums m)(a := Some (global_var_num m))) x = ((var_nums m)(a := Some (global_var_num m))) y"
    thus "x = y" using fresh fresh [symmetric] inj_onD [OF inj] by (cases "x = a"; cases "y = a") auto
  qed
  thus ?thesis using ok None by (auto simp: numbering_ok_def number_var_def)
qed (simp add: number_var_def)

lemma number_ok: "numbering_ok m \<Longrightarrow> numbering_ok (numberVarTermOpt t m)"
proof (induction t arbitrary: m)
  case (HStr f ts)
  thus ?case by (induction ts arbitrary: m) auto
qed (simp_all add: number_var_ok)

end
