(* ===== verification/Table_Unnumber.thy ===== *)
theory Table_Unnumber
  imports Table_Copy
begin

text \<open>
  A term of the table area becomes a term on the heap again (\<open>unnumberVarTabledTerm\<close> in
  \<open>emu/table.c\<close>): ground parts are shared with the table, and every number gets a new variable the
  first time it is met. The slots for these variables lie below the local stack; a number is taken to
  have a slot already if it does not exceed the greatest one met so far.
\<close>

section \<open>The hash code of a term and of its copy\<close>

text \<open>\<open>bp_hashval\<close> of a term is the hash code of its copy, before and after its variables are numbered.\<close>

lemma bp_hashval_numbered: "numbered_in A m t T \<Longrightarrow> bp_hashval (nodes A) t = nhash T"
proof (induction t arbitrary: T)
  case (HStr f ts)
  then obtain Ts where Ts: "T = NStr f Ts" "list_all2 (numbered_in A m) ts Ts" by (auto simp: numbered_in_def[abs_def])
  have "map (bp_hashval (nodes A)) ts = map nhash Ts"
    using Ts(2) HStr.IH by (auto simp: list_all2_conv_all_nth intro!: nth_equalityI)
  thus ?case using Ts(1) by simp
next
  case (HTab w)
  thus ?case using repr_hash by (auto simp: numbered_in_def stands_for_def)
qed (auto simp: numbered_in_def)

section \<open>Unnumbering\<close>

definition HEAP_MARGIN :: int where "HEAP_MARGIN = 125000"

record unnumbering =
  var_slot :: "nat \<Rightarrow> nat option"
  unnumbervar_max :: int
  unnumbervar_ptr :: int
  heap_next :: nat

datatype unnumber_error = Table_error tab_error | Stack_overflow

definition PREPARE_UNNUMBER_TERM :: "int \<Rightarrow> nat \<Rightarrow> unnumbering" where
  "PREPARE_UNNUMBER_TERM ptr heap_top =
     \<lparr>var_slot = (\<lambda>_. None), unnumbervar_max = -1, unnumbervar_ptr = ptr, heap_next = heap_top\<rparr>"

definition unnumbervar_watermark :: "unnumbering \<Rightarrow> int" where
  "unnumbervar_watermark u = unnumbervar_ptr u - max 0 (unnumbervar_max u)"

fun unnumber_args :: "('w \<Rightarrow> unnumbering \<Rightarrow> 'e + (hterm \<times> unnumbering)) \<Rightarrow> 'w list \<Rightarrow> unnumbering \<Rightarrow> 'e + (hterm list \<times> unnumbering)" where
  "unnumber_args f [] u = Inr ([], u)"
| "unnumber_args f (w # ws) u = tbind (f w u) (\<lambda>(t, u). tbind (unnumber_args f ws u) (\<lambda>(ts, u). Inr (t # ts, u)))"

fun unnumberVarTabledTerm :: "nat \<Rightarrow> (taddr \<Rightarrow> tnode option) \<Rightarrow> tab_word \<Rightarrow> unnumbering \<Rightarrow> unnumber_error + (hterm \<times> unnumbering)" where
  "unnumberVarTabledTerm 0 N w u = Inl (Table_error Out_of_fuel)"
| "unnumberVarTabledTerm (Suc n) N w u = (case w of
       TAtm a \<Rightarrow> Inr (HAtm a, u)
     | TNum i \<Rightarrow>
         (if int i > unnumbervar_max u
          then Inr (HVar (heap_next u), u\<lparr>unnumbervar_max := int i, var_slot := (var_slot u)(i := Some (heap_next u)), heap_next := heap_next u + 1\<rparr>)
          else (case var_slot u i of
              Some a \<Rightarrow> Inr (HVar a, u)
            | None \<Rightarrow> Inl (Table_error Uninitialised)))
     | _ \<Rightarrow> (case node_at N w of
           None \<Rightarrow> Inl (Table_error Bad_access)
         | Some x \<Rightarrow>
             if n_ground x then Inr (HTab w, u)
             else (let u = u\<lparr>heap_next := heap_next u + length (n_args x) + (if n_sym x = None then 0 else 1)\<rparr>
                   in if unnumbervar_watermark u - int (heap_next u) \<le> HEAP_MARGIN then Inl Stack_overflow
                      else tbind (unnumber_args (unnumberVarTabledTerm n N) (n_args x) u) (\<lambda>(ts, u).
                        Inr (case n_sym x of Some f \<Rightarrow> HStr f ts | None \<Rightarrow> HLst (ts ! 0) (ts ! 1), u)))))"

section \<open>Numbers in the order of their first occurrence\<close>

text \<open>\<open>fresh_from k T\<close>: the numbers below \<open>k\<close> have occurred, new ones come one by one; the result is the
  first number that has not occurred afterwards.\<close>

fun fresh_from :: "ntree \<Rightarrow> nat \<Rightarrow> nat option" where
  "fresh_from (NVar i) k = (if i < k then Some k else if i = k then Some (k + 1) else None)"
| "fresh_from (NAtm a) k = Some k"
| "fresh_from (NLst t u) k = Option.bind (fresh_from t k) (fresh_from u)"
| "fresh_from (NStr f ts) k = fold (\<lambda>t r. Option.bind r (fresh_from t)) ts (Some k)"

lemma fold_bind_None: "fold (\<lambda>t r. Option.bind r (f t)) ts None = None"
  by (induction ts) auto

lemma ground_fresh: "nground T \<Longrightarrow> fresh_from T k = Some k"
proof (induction T arbitrary: k)
  case (NStr f ts)
  hence "fold (\<lambda>t r. Option.bind r (fresh_from t)) ts (Some k) = Some k"
    by (induction ts) auto
  thus ?case by simp
qed simp_all

text \<open>The slots hold different variables for the numbers below \<open>k\<close>.\<close>

definition slots_ok :: "nat \<Rightarrow> unnumbering \<Rightarrow> bool" where
  "slots_ok k u \<longleftrightarrow> unnumbervar_max u = int k - 1 \<and> dom (var_slot u) = {..<k} \<and> inj_on (var_slot u) {..<k} \<and>
     (\<forall>a\<in>ran (var_slot u). a < heap_next u)"

definition slot_number :: "unnumbering \<Rightarrow> nat \<Rightarrow> nat option" where
  "slot_number u a = (if a \<in> ran (var_slot u) then Some (THE i. var_slot u i = Some a) else None)"

lemma slot_number_eq:
  assumes "slots_ok k u" "var_slot u i = Some a"
  shows "slot_number u a = Some i"
proof -
  have "i' = i" if "var_slot u i' = Some a" for i'
  proof -
    have "i \<in> dom (var_slot u)" "i' \<in> dom (var_slot u)" using that assms(2) by auto
    hence "i < k" "i' < k" using assms(1) by (auto simp: slots_ok_def)
    thus ?thesis using assms that by (auto simp: slots_ok_def inj_on_def)
  qed
  note uniq = this
  have "(THE j. var_slot u j = Some a) = i"
    by (rule the_equality) (rule assms(2), erule uniq)
  moreover have "a \<in> ran (var_slot u)" using assms(2) by (auto simp: ran_def)
  ultimately show ?thesis by (simp add: slot_number_def)
qed

definition slots_le :: "unnumbering \<Rightarrow> unnumbering \<Rightarrow> bool" where
  "slots_le u u' \<longleftrightarrow> var_slot u \<subseteq>\<^sub>m var_slot u' \<and> heap_next u \<le> heap_next u'"

lemma slots_le_refl [simp]: "slots_le u u"
  by (simp add: slots_le_def)

lemma slots_le_trans: "slots_le a b \<Longrightarrow> slots_le b c \<Longrightarrow> slots_le a c"
  unfolding slots_le_def by (elim conjE, rule conjI, rule map_le_trans, assumption+, rule le_trans)

lemma slot_number_le:
  assumes "slots_ok k' u'" "slots_le u u'" "slots_ok k u"
  shows "slot_number u \<subseteq>\<^sub>m slot_number u'"
  unfolding map_le_def
proof
  fix a assume "a \<in> dom (slot_number u)"
  then obtain i where i: "var_slot u i = Some a" by (auto simp: slot_number_def ran_def split: if_splits)
  hence "var_slot u' i = Some a" using assms(2) map_le_Some by (auto simp: slots_le_def)
  thus "slot_number u a = slot_number u' a" using slot_number_eq [OF assms(3) i] slot_number_eq [OF assms(1)] by simp
qed

text \<open>What is on the heap afterwards, read with the numbers of its new variables, is the tree in the
  table.\<close>

definition unnumbered :: "(tab_word \<Rightarrow> ntree \<Rightarrow> bool) \<Rightarrow> ntree \<Rightarrow> nat \<Rightarrow> unnumbering \<Rightarrow> unnumber_error + (hterm \<times> unnumbering) \<Rightarrow> bool" where
  "unnumbered S T k u r \<longleftrightarrow> (case r of
       Inl e \<Rightarrow> e = Stack_overflow
     | Inr (t, u') \<Rightarrow> \<exists>k'. fresh_from T k = Some k' \<and> slots_ok k' u' \<and> slots_le u u' \<and> numbered S (slot_number u') t T)"

definition unnumbered_list :: "(tab_word \<Rightarrow> ntree \<Rightarrow> bool) \<Rightarrow> ntree list \<Rightarrow> nat \<Rightarrow> unnumbering \<Rightarrow> unnumber_error + (hterm list \<times> unnumbering) \<Rightarrow> bool" where
  "unnumbered_list S Ts k u r \<longleftrightarrow> (case r of
       Inl e \<Rightarrow> e = Stack_overflow
     | Inr (ts, u') \<Rightarrow> \<exists>k'. fold (\<lambda>t r. Option.bind r (fresh_from t)) Ts (Some k) = Some k' \<and> slots_ok k' u' \<and> slots_le u u' \<and>
         list_all2 (numbered S (slot_number u')) ts Ts)"

lemma unnumber_args_spec:
  assumes f: "\<And>w T k u. T \<in> set Ts0 \<Longrightarrow> P w T \<Longrightarrow> slots_ok k u \<Longrightarrow> fresh_from T k \<noteq> None \<Longrightarrow> unnumbered S T k u (f w u)"
  shows "set Ts \<subseteq> set Ts0 \<Longrightarrow> list_all2 P ws Ts \<Longrightarrow> slots_ok k u \<Longrightarrow>
    fold (\<lambda>t r. Option.bind r (fresh_from t)) Ts (Some k) \<noteq> None \<Longrightarrow>
    unnumbered_list S Ts k u (unnumber_args f ws u)"
proof (induction Ts arbitrary: ws k u)
  case Nil
  thus ?case by (auto simp: unnumbered_list_def)
next
  case (Cons T Ts)
  obtain w ws' where ws: "ws = w # ws'" "P w T" "list_all2 P ws' Ts" using Cons.prems(2) by (auto simp: list_all2_Cons2)
  obtain k1 where k1: "fresh_from T k = Some k1" "fold (\<lambda>t r. Option.bind r (fresh_from t)) Ts (Some k1) \<noteq> None"
    using Cons.prems(4) fold_bind_None [of fresh_from Ts] by (cases "fresh_from T k") auto
  have r: "unnumbered S T k u (f w u)" using f Cons.prems ws k1 by auto
  show ?case
  proof (cases "f w u")
    case (Inl e)
    thus ?thesis using r ws by (simp add: unnumbered_def unnumbered_list_def)
  next
    case (Inr q)
    obtain t u1 where q: "f w u = Inr (t, u1)" using Inr by (cases q) simp
    have t: "slots_ok k1 u1" "slots_le u u1" "numbered S (slot_number u1) t T" using r k1(1) unfolding q unnumbered_def by auto
    have s: "unnumbered_list S Ts k1 u1 (unnumber_args f ws' u1)" using Cons.IH [OF _ ws(3) t(1) k1(2)] Cons.prems(1) by simp
    show ?thesis
    proof (cases "unnumber_args f ws' u1")
      case (Inl e)
      thus ?thesis using s q ws by (simp add: unnumbered_list_def)
    next
      case (Inr q')
      obtain ts u2 where q': "unnumber_args f ws' u1 = Inr (ts, u2)" using Inr by (cases q') simp
      then obtain k2 where k2: "fold (\<lambda>t r. Option.bind r (fresh_from t)) Ts (Some k1) = Some k2" "slots_ok k2 u2" "slots_le u1 u2"
        "list_all2 (numbered S (slot_number u2)) ts Ts" using s unfolding unnumbered_list_def by auto
      have "numbered S (slot_number u2) t T"
        by (rule numbered_mono [OF t(3) _ slot_number_le [OF k2(2,3) t(1)]])
      thus ?thesis using q q' ws k1(1) k2 slots_le_trans [OF t(2) k2(3)] by (simp add: unnumbered_list_def)
    qed
  qed
qed

lemma unnumber_spec:
  "repr N R w T \<Longrightarrow> size T < n \<Longrightarrow> slots_ok k u \<Longrightarrow> fresh_from T k \<noteq> None \<Longrightarrow>
    unnumbered (repr N R) T k u (unnumberVarTabledTerm n N w u)"
proof (induction n arbitrary: w T k u)
  case (Suc n)
  show ?case
  proof (cases "compound T")
    case False
    show ?thesis
    proof (cases T)
      case (NVar i)
      have w: "w = TNum i" using Suc.prems(1) NVar by simp
      have ik: "i \<le> k" using Suc.prems(4) NVar by (auto split: if_splits)
      have m: "unnumbervar_max u = int k - 1" "dom (var_slot u) = {..<k}" "inj_on (var_slot u) {..<k}" "\<forall>a\<in>ran (var_slot u). a < heap_next u"
        using Suc.prems(3) by (auto simp: slots_ok_def)
      show ?thesis
      proof (cases "i = k")
        case True
        define u' where "u' = u\<lparr>unnumbervar_max := int i, var_slot := (var_slot u)(i := Some (heap_next u)), heap_next := heap_next u + 1\<rparr>"
        have ni: "var_slot u i = None" using m(2) True by (auto simp: dom_def)
        have "\<forall>x<k. var_slot u x \<noteq> Some (heap_next u)" using m(4) by (force simp: ran_def)
        hence "inj_on ((var_slot u)(k := Some (heap_next u))) {..<Suc k}"
        proof (intro inj_onI)
          fix x y
          assume f: "\<forall>x<k. var_slot u x \<noteq> Some (heap_next u)" and xy: "x \<in> {..<Suc k}" "y \<in> {..<Suc k}"
            and e: "((var_slot u)(k := Some (heap_next u))) x = ((var_slot u)(k := Some (heap_next u))) y"
          consider "x = k" "y = k" | "x < k" "y = k" | "x = k" "y < k" | "x < k" "y < k" using xy by force
          thus "x = y"
          proof cases
            case 4
            thus ?thesis using e inj_onD [OF m(3)] by simp
          next
            case 2
            thus ?thesis using e f by simp
          next
            case 3
            hence "var_slot u y = Some (heap_next u)" using e by simp
            thus ?thesis using f 3 by blast
          qed simp
        qed
        moreover have "a < heap_next u + 1" if "a \<in> ran (var_slot u')" for a
          using that m(4) by (auto simp: u'_def ran_def split: if_splits)
        ultimately have ok: "slots_ok (k + 1) u'"
          using m True by (auto simp: slots_ok_def u'_def)
        have le: "slots_le u u'" using ni by (auto simp: slots_le_def u'_def map_le_def)
        have "slot_number u' (heap_next u) = Some i" by (rule slot_number_eq [OF ok]) (simp add: u'_def)
        thus ?thesis using NVar w True ok le m(1) by (simp add: unnumbered_def u'_def)
      next
        case False
        hence "i \<in> dom (var_slot u)" using ik m(2) by simp
        then obtain a where a: "var_slot u i = Some a" by blast
        thus ?thesis using NVar w False ik m(1) slot_number_eq [OF Suc.prems(3) a] Suc.prems(3) by (auto simp: unnumbered_def)
      qed
    next
      case (NAtm a)
      thus ?thesis using Suc.prems by (simp add: unnumbered_def)
    next
      case (NStr f ts)
      thus ?thesis using Suc.prems False by (auto simp: NStr)
    qed (use False in simp)
  next
    case c: True
    obtain p ws where p: "w = tag T p" "list_all2 (repr N R) ws (kids T)" "N p = Some (node_of T ws)"
      using Suc.prems(1) unfolding repr_compound [OF c] by blast
    have na: "node_at N w = Some (node_of T ws)" using p by (simp add: node_at_tag)
    have wc: "\<forall>a. w \<noteq> TAtm a" "\<forall>i. w \<noteq> TNum i" using p(1) by (cases T; simp)+
    show ?thesis
    proof (cases "nground T")
      case True
      have "unnumberVarTabledTerm (Suc n) N w u = Inr (HTab w, u)" using na wc True by (cases w) simp_all
      thus ?thesis using True ground_fresh c Suc.prems(1,3) by (simp add: unnumbered_def)
    next
      case ng: False
      define u0 where "u0 = u\<lparr>heap_next := heap_next u + length ws + (if head T = None then 0 else 1)\<rparr>"
      have u0: "slots_ok k u0" "slots_le u u0"
        using Suc.prems(3) by (auto simp: u0_def slots_ok_def slots_le_def)
      have unf: "unnumberVarTabledTerm (Suc n) N w u = (if unnumbervar_watermark u0 - int (heap_next u0) \<le> HEAP_MARGIN then Inl Stack_overflow
          else tbind (unnumber_args (unnumberVarTabledTerm n N) ws u0) (\<lambda>(ts, u).
            Inr (case head T of Some f \<Rightarrow> HStr f ts | None \<Rightarrow> HLst (ts ! 0) (ts ! 1), u)))"
        using na wc ng by (cases w) (simp_all add: Let_def u0_def node_of_def)
      have fr: "fresh_from T k = fold (\<lambda>t r. Option.bind r (fresh_from t)) (kids T) (Some k)"
        using c by (cases T) auto
      have sz: "size t < n" if "t \<in> set (kids T)" for t
        using that Suc.prems(2) size_list_estimation' [of t "kids T" "size t" size] by (cases T) fastforce+
      have r: "unnumbered_list (repr N R) (kids T) k u0 (unnumber_args (unnumberVarTabledTerm n N) ws u0)"
        by (rule unnumber_args_spec [of "kids T" "repr N R"]) (use Suc.IH sz p(2) u0(1) fr Suc.prems(4) in auto)
      show ?thesis
      proof (cases "unnumber_args (unnumberVarTabledTerm n N) ws u0")
        case (Inl e)
        thus ?thesis using r unf by (simp add: unnumbered_def unnumbered_list_def)
      next
        case (Inr q)
        obtain ts u1 where q: "unnumber_args (unnumberVarTabledTerm n N) ws u0 = Inr (ts, u1)" using Inr by (cases q) simp
        then obtain k' where k': "fresh_from T k = Some k'" "slots_ok k' u1" "slots_le u0 u1" "list_all2 (numbered (repr N R) (slot_number u1)) ts (kids T)"
          using r fr unfolding unnumbered_list_def by auto
        have "numbered (repr N R) (slot_number u1) (case head T of Some f \<Rightarrow> HStr f ts | None \<Rightarrow> HLst (ts ! 0) (ts ! 1)) T"
          using k'(4) c by (cases T) (auto simp: list_all2_Cons2 list_all2_lengthD)
        thus ?thesis using unf q k' slots_le_trans [OF u0(2)] by (auto simp: unnumbered_def)
      qed
    qed
  qed
qed simp


section \<open>Copies are numbered in order\<close>

lemma copy_fresh:
  "numbering_ok m \<Longrightarrow> numbered_in A (numberVarTermOpt t m) t T \<Longrightarrow>
    fresh_from T (global_var_num m) = Some (global_var_num (numberVarTermOpt t m))"
proof (induction t arbitrary: m T)
  case (HVar a)
  have "i < global_var_num m" if "var_nums m a = Some i" for i
  proof -
    have "i \<in> ran (var_nums m)" using that by (auto simp: ran_def)
    thus ?thesis using HVar.prems(1) by (simp add: numbering_ok_def)
  qed
  thus ?case using HVar.prems(2) by (auto simp: numbered_in_def number_var_def split: if_splits)
next
  case (HLst x y)
  let ?m = "numberVarTermOpt x m"
  obtain X Y where T: "T = NLst X Y" "numbered_in A (numberVarTermOpt y ?m) x X" "numbered_in A (numberVarTermOpt y ?m) y Y"
    using HLst.prems(2) by (auto simp: numbered_in_def)
  have "numbered_in A ?m x X"
    by (rule numbered_in_restrict [OF T(2)]) (use number_le [of m x] number_le [of ?m y] in simp_all)
  from HLst.IH(1) [OF HLst.prems(1) this] HLst.IH(2) [OF number_ok [OF HLst.prems(1)] T(3)] T(1) show ?case by simp
next
  case (HStr f ts)
  obtain Ts where T: "T = NStr f Ts" "list_all2 (numbered_in A (fold numberVarTermOpt ts m)) ts Ts"
    using HStr.prems(2) by (auto simp: numbered_in_def[abs_def])
  have "fold (\<lambda>t r. Option.bind r (fresh_from t)) Ts (Some (global_var_num m)) = Some (global_var_num (fold numberVarTermOpt ts m))"
    using T(2) HStr.IH HStr.prems(1)
  proof (induction ts arbitrary: Ts m)
    case (Cons t ts)
    let ?m = "numberVarTermOpt t m"
    obtain T Ts' where Ts: "Ts = T # Ts'" "numbered_in A (fold numberVarTermOpt ts ?m) t T"
      "list_all2 (numbered_in A (fold numberVarTermOpt ts ?m)) ts Ts'" using Cons.prems(1) by (auto simp: list_all2_Cons1)
    have t: "numbered_in A ?m t T"
      by (rule numbered_in_restrict [OF Ts(2)]) (use number_le [of m t] number_args_le(1) [of ?m ts] in simp_all)
    have r: "fold (\<lambda>t r. Option.bind r (fresh_from t)) Ts' (Some (global_var_num ?m)) = Some (global_var_num (fold numberVarTermOpt ts ?m))"
      by (rule Cons.IH [OF Ts(3) _ number_ok [OF Cons.prems(3)]]) (rule Cons.prems(2); simp)
    have "fresh_from T (global_var_num m) = Some (global_var_num ?m)" by (rule Cons.prems(2)) (use t Cons.prems(3) in simp_all)
    thus ?case using Ts(1) r by simp
  qed simp
  thus ?case using T(1) by simp
qed (auto simp: numbered_in_def ground_fresh)

lemma start_ok: "numbering_ok \<lparr>var_nums = Map.empty, global_var_num = 0\<rparr>"
  by (simp add: numbering_ok_def lessThan_0)

lemma slots_start: "slots_ok 0 (PREPARE_UNNUMBER_TERM p h)"
  by (simp add: slots_ok_def PREPARE_UNNUMBER_TERM_def lessThan_0)

end
