(* ===== verification/Subgoal_Table.thy ===== *)
theory Subgoal_Table
  imports Table_Unnumber Terms
begin

text \<open>
  The table of tabled calls (\<open>emu/table.c\<close>, \<open>emu/frame.h\<close>). The record of a call, a subgoal, lies in the
  table area; the table is an array of chains of subgoals. A call is looked up by copying its arguments
  to a new record, which is given up when the chain has a record with the same arguments. \<open>nt_last_arg\<close>
  says that the last argument is not compared; the instruction replaces it by a free variable.
\<close>

section \<open>Subgoals and answers\<close>

record atable =
  order :: "taddr list"          \<comment> \<open>\<open>FIRST\<close>, \<open>NEXT_IN_TABLE\<close>, \<open>LAST\<close>\<close>
  achains :: "taddr htable"      \<comment> \<open>\<open>BUCKET_SIZE\<close>, \<open>COUNT\<close>, \<open>BUCKET_PTR\<close>, \<open>NEXT_IN_CHAIN\<close>\<close>

text \<open>The word \<open>GT_ANSWER_TABLE\<close>; bit 0 marks a single answer.\<close>

datatype answer_word = No_answers | One_answer taddr | Answer_table atable

datatype master = No_master | Complete | Temp_complete | Master nat

record subgoal_entry =
  g_answer_table :: answer_word
  g_state :: "64 word"
  g_top_ar :: master
  g_sym :: sym
  g_scc_elms :: "taddr list"
  g_scc_root :: taddr
  g_args :: "tab_word list"

record tables =
  tarea :: area
  subgoal_table :: "taddr htable"
  subgoals :: "taddr \<Rightarrow> subgoal_entry option"
  answers :: "taddr \<Rightarrow> tab_word list option"

definition GT_RECORD_SIZE :: nat where "GT_RECORD_SIZE = 7"

definition InitializeSubgoalTableEntry :: "taddr \<Rightarrow> sym \<Rightarrow> tab_word list \<Rightarrow> subgoal_entry" where
  "InitializeSubgoalTableEntry p f ws = \<lparr>g_answer_table = No_answers, g_state = 0, g_top_ar = No_master,
     g_sym = f, g_scc_elms = [], g_scc_root = p, g_args = ws\<rparr>"

definition hashval_of_tabled_subgoal :: "(taddr \<Rightarrow> tnode option) \<Rightarrow> (taddr \<Rightarrow> subgoal_entry option) \<Rightarrow> taddr \<Rightarrow> nat" where
  "hashval_of_tabled_subgoal N G p = (case G p of
       None \<Rightarrow> 0
     | Some g \<Rightarrow>
         if arity (g_sym g) = 0 then sym_hash (g_sym g)
         else take_bit 28 (args_hash (sym_hash (g_sym g)) (map (hashval_of_numbered_term N) (g_args g))))"

definition expandSubgoalTable :: "tables \<Rightarrow> tables" where
  "expandSubgoalTable S = S\<lparr>subgoal_table :=
     expand (hashval_of_tabled_subgoal (nodes (tarea S)) (subgoals S)) (can_malloc (tarea S)) (subgoal_table S)\<rparr>"

section \<open>Copying the arguments of a call\<close>

text \<open>A ground argument is replaced on the stack by its copy.\<close>

definition stack_word :: "tab_word \<Rightarrow> hterm" where
  "stack_word w = (case w of TAtm a \<Rightarrow> HAtm a | _ \<Rightarrow> HTab w)"

fun copy_subgoal_args :: "nat \<Rightarrow> hterm list \<Rightarrow> area \<Rightarrow> tab_error + (tab_word list \<times> nat list \<times> hterm list \<times> area)" where
  "copy_subgoal_args n [] A = Inr ([], [], [], A)"
| "copy_subgoal_args n (t # ts) A =
     tbind (numberVarCopyToTableArea n t A) (\<lambda>(w, h, g, A).
     tbind (copy_subgoal_args n ts A) (\<lambda>(ws, hs, ss, A).
       Inr (w # ws, h # hs, (if g then stack_word w else t) # ss, A)))"

definition numberVarCopySubgoalArgsToTableArea ::
    "nat \<Rightarrow> hterm list \<Rightarrow> nat \<Rightarrow> area \<Rightarrow> tab_error + (tab_word list \<times> nat \<times> hterm list \<times> area)" where
  "numberVarCopySubgoalArgsToTableArea n ts hcode0 A =
     tbind (copy_subgoal_args n ts A) (\<lambda>(ws, hs, ss, A).
       Inr (ws, if ts = [] then hcode0 else take_bit 28 (args_hash hcode0 hs), ss, A))"

section \<open>Lookup\<close>

text \<open>
  The comparison of a new record with one of the same symbol. With no arguments the code compares the
  words before them: the word \<open>GT_SYM\<close> of the new record, which has not been written yet, with the one of
  the other record, the address of the symbol. What the unwritten word \<open>uw\<close> happens to be is an argument
  of the lookup. \<open>identicalTabledTerms\<close> follows it when it has the tag of a list.
\<close>

definition same_unwritten :: "64 word \<Rightarrow> sym \<Rightarrow> tab_error + bool" where
  "same_unwritten uw f =
     (if uw = sym_addr f then Inr True
      else if ISLIST uw then Inl Bad_access
      else Inr False)"

definition same_call :: "nat \<Rightarrow> 64 word \<Rightarrow> sym \<Rightarrow> (taddr \<Rightarrow> tnode option) \<Rightarrow> bool \<Rightarrow> tab_word list \<Rightarrow> tab_word list \<Rightarrow> tab_error + bool" where
  "same_call n uw f N nt_last_arg ws vs =
     (if nt_last_arg then same_args (identicalTabledTerms n N) (butlast ws) (butlast vs)
      else if ws = [] then same_unwritten uw f
      else same_args (identicalTabledTerms n N) ws vs)"

fun find_subgoal :: "nat \<Rightarrow> 64 word \<Rightarrow> (taddr \<Rightarrow> tnode option) \<Rightarrow> (taddr \<Rightarrow> subgoal_entry option) \<Rightarrow> sym \<Rightarrow> bool \<Rightarrow> tab_word list \<Rightarrow> taddr list
    \<Rightarrow> tab_error + taddr option" where
  "find_subgoal n uw N G f nt_last_arg ws [] = Inr None"
| "find_subgoal n uw N G f nt_last_arg ws (q # qs) = (case G q of
       None \<Rightarrow> Inl Bad_access
     | Some g \<Rightarrow>
         if g_sym g \<noteq> f then find_subgoal n uw N G f nt_last_arg ws qs
         else tbind (same_call n uw f N nt_last_arg ws (g_args g)) (\<lambda>same.
           if same then Inr (Some q) else find_subgoal n uw N G f nt_last_arg ws qs))"

text \<open>A bit of \<open>mode_bits\<close> says that the argument is an output, for which the call has a free variable.\<close>

definition output_modes_ok :: "32 word \<Rightarrow> tab_word list \<Rightarrow> bool" where
  "output_modes_ok mode_bits ws \<longleftrightarrow>
     (\<forall>i\<in>set [0..<length ws]. bit (scast mode_bits :: 64 word) i \<longrightarrow> (case ws ! i of TNum _ \<Rightarrow> True | _ \<Rightarrow> False))"

definition start_numbering :: "area \<Rightarrow> area" where
  "start_numbering A = A\<lparr>numb := PREPARE_NUMBER_TERM 0 (numb A)\<rparr>"

text \<open>The record at \<open>p\<close> is given up if it is the last one.\<close>

definition give_up :: "taddr \<Rightarrow> nat \<Rightarrow> area \<Rightarrow> area" where
  "give_up p sz A = (if block A = in_block p \<and> area_top A = offset p + sz then pop p A else A)"

text \<open>The trail makes the variables of the call free again.\<close>

definition UNDO_NUMBERING :: "area \<Rightarrow> tables \<Rightarrow> tables" where
  "UNDO_NUMBERING A0 S = S\<lparr>tarea := (tarea S)\<lparr>numb := (numb (tarea S))\<lparr>var_nums := var_nums (numb A0)\<rparr>\<rparr>\<rparr>"

definition register_subgoal :: "nat \<Rightarrow> taddr \<Rightarrow> sym \<Rightarrow> tab_word list \<Rightarrow> tables \<Rightarrow> tables" where
  "register_subgoal hcode p f ws S =
     (let t = push_chain hcode p (subgoal_table S);
          t = t\<lparr>hcount := hcount t + 1\<rparr>;
          S = S\<lparr>subgoals := (subgoals S)(p := Some (InitializeSubgoalTableEntry p f ws)), subgoal_table := t\<rparr>
      in if 2 * hcount t > hsize t then expandSubgoalTable S else S)"

text \<open>The result is the subgoal and the arguments as they are on the stack afterwards.\<close>

definition lookupSubgoalTable :: "nat \<Rightarrow> 64 word \<Rightarrow> hterm list \<Rightarrow> sym \<Rightarrow> 32 word \<Rightarrow> bool \<Rightarrow> tables \<Rightarrow> tab_error + (taddr \<times> hterm list \<times> tables)" where
  "lookupSubgoalTable n uw ts f mode_bits nt_last_arg S =
     (let sz = length ts + GT_RECORD_SIZE
      in tbind (ALLOCATE_FROM_NUMBERED_TERM_AREA sz (start_numbering (tarea S))) (\<lambda>(p, A).
         tbind (numberVarCopySubgoalArgsToTableArea n ts (sym_hash f) A) (\<lambda>(ws, hcode, ss, A).
         if mode_bits \<noteq> 0 \<and> \<not> output_modes_ok mode_bits ws then Inl Output_mode
         else tbind (find_subgoal n uw (nodes A) (subgoals S) f nt_last_arg ws (chain hcode (subgoal_table S))) (\<lambda>found.
           case found of
             Some q \<Rightarrow> Inr (q, ss, UNDO_NUMBERING (tarea S) (S\<lparr>tarea := give_up p sz A\<rparr>))
           | None \<Rightarrow> Inr (p, ss, UNDO_NUMBERING (tarea S) (register_subgoal hcode p f ws (S\<lparr>tarea := A\<rparr>)))))))"


section \<open>The arguments, proved\<close>

text \<open>The copies, and the arguments left on the stack, which still have the same trees.\<close>

definition copied_call :: "hterm list \<Rightarrow> ntree list \<Rightarrow> area \<Rightarrow> tab_error + (tab_word list \<times> nat list \<times> hterm list \<times> area) \<Rightarrow> bool" where
  "copied_call ts Ts A r \<longleftrightarrow> (case r of
       Inl e \<Rightarrow> memory_error e
     | Inr (ws, hs, ss, B) \<Rightarrow> area_ok B \<and> grows A B \<and> numb B = fold numberVarTermOpt ts (numb A) \<and>
         list_all2 (stands_for B) ws Ts \<and> hs = map nhash Ts \<and> list_all2 (numbered_in B (numb B)) ss Ts)"

lemma stack_word_numbered:
  "stands_for A w T \<Longrightarrow> nground T \<Longrightarrow> numbered_in A m (stack_word w) T"
  by (cases T) (auto simp: numbered_in_def stands_for_def stack_word_def)

lemma call_args_copied:
  "area_ok A \<Longrightarrow> list_all2 (numbered_in A (fold numberVarTermOpt ts (numb A))) ts Ts \<Longrightarrow> \<forall>T\<in>set Ts. size T < n \<Longrightarrow>
    copied_call ts Ts A (copy_subgoal_args n ts A)"
proof (induction ts arbitrary: A Ts)
  case Nil
  thus ?case by (simp add: copied_call_def grows_refl)
next
  case (Cons t ts)
  obtain T Ts' where Ts: "Ts = T # Ts'" "numbered_in A (fold numberVarTermOpt (t # ts) (numb A)) t T"
    "list_all2 (numbered_in A (fold numberVarTermOpt (t # ts) (numb A))) ts Ts'"
    using Cons.prems(2) by (auto simp: list_all2_Cons1)
  let ?m = "numberVarTermOpt t (numb A)"
  have n1: "numbered_in A ?m t T"
    by (rule numbered_in_restrict [OF Ts(2)]) (use number_le [of "numb A" t] number_args_le(1) [of ?m ts] in simp_all)
  from copy_copied [OF Cons.prems(1) n1] have r: "copied t T A (numberVarCopyToTableArea n t A)" using Cons.prems(3) Ts(1) by simp
  show ?case
  proof (cases "numberVarCopyToTableArea n t A")
    case (Inl e)
    thus ?thesis using r by (simp add: copied_def copied_call_def)
  next
    case (Inr q)
    obtain w h g B where q: "numberVarCopyToTableArea n t A = Inr (w, h, g, B)" using Inr by (cases q) simp
    note r = r [unfolded q copied_def, simplified]
    have B: "area_ok B" "grows A B" "numb B = ?m" using r by simp_all
    have n2: "list_all2 (numbered_in B (fold numberVarTermOpt ts (numb B))) ts Ts'"
      using list_all2_mono [OF Ts(3)] numbered_in_mono [OF _ B(2) num_le_refl] unfolding B(3) fold_simps by blast
    have s: "copied_call ts Ts' B (copy_subgoal_args n ts B)" by (rule Cons.IH [OF B(1) n2]) (use Cons.prems(3) Ts(1) in simp)
    show ?thesis
    proof (cases "copy_subgoal_args n ts B")
      case (Inl e)
      thus ?thesis using s q by (simp add: copied_call_def)
    next
      case (Inr q')
      obtain ws hs ss C where q': "copy_subgoal_args n ts B = Inr (ws, hs, ss, C)" using Inr by (cases q') simp
      note s = s [unfolded q' copied_call_def, simplified]
      have C: "grows A C" "stands_for C w T" using s r grows_trans [OF B(2)] grows_stands_for by blast+
      have "numbered_in C (numb C) (if g then stack_word w else t) T"
        using C(2) r stack_word_numbered [OF C(2)] numbered_in_mono [OF Ts(2) C(1) num_le_refl] s B(3) by simp
      moreover have m: "numb C = fold numberVarTermOpt (t # ts) (numb A)" using s B(3) by simp
      moreover have "list_all2 (numbered_in C (fold numberVarTermOpt (t # ts) (numb A))) ss Ts'"
        using s unfolding m [symmetric] by blast
      ultimately show ?thesis using q q' C r s by (simp add: copied_call_def Ts(1))
    qed
  qed
qed

section \<open>The invariant\<close>

text \<open>\<open>nt f\<close> says that the last argument of the calls of \<open>f\<close> is not compared.\<close>

definition call_key :: "(sym \<Rightarrow> bool) \<Rightarrow> sym \<Rightarrow> ntree list \<Rightarrow> ntree list" where
  "call_key nt f Ts = (if nt f then butlast Ts else Ts)"

definition call_ok :: "(sym \<Rightarrow> bool) \<Rightarrow> sym \<Rightarrow> ntree list \<Rightarrow> bool" where
  "call_ok nt f Ts \<longleftrightarrow> arity f = length Ts \<and> Ts \<noteq> [] \<and> (nt f \<longrightarrow> (\<exists>i. List.last Ts = NVar i))"

definition is_call :: "(sym \<Rightarrow> bool) \<Rightarrow> area \<Rightarrow> (taddr \<Rightarrow> subgoal_entry option) \<Rightarrow> taddr \<Rightarrow> sym \<Rightarrow> ntree list \<Rightarrow> bool" where
  "is_call nt A G q f Us \<longleftrightarrow> (\<exists>g. G q = Some g \<and> g_sym g = f \<and> list_all2 (stands_for A) (g_args g) Us \<and> call_ok nt f Us)"

definition tables_ok :: "(sym \<Rightarrow> bool) \<Rightarrow> tables \<Rightarrow> bool" where
  "tables_ok nt S \<longleftrightarrow> area_ok (tarea S) \<and>
     chained (hashval_of_tabled_subgoal (nodes (tarea S)) (subgoals S)) (subgoal_table S) \<and>
     set_mset (content (subgoal_table S)) = dom (subgoals S) \<and>
     (\<forall>p\<in>dom (subgoals S). below (tarea S) p \<and> (\<exists>f Us. is_call nt (tarea S) (subgoals S) p f Us)) \<and>
     (\<forall>p q f Us Vs. is_call nt (tarea S) (subgoals S) p f Us \<longrightarrow> is_call nt (tarea S) (subgoals S) q f Vs \<longrightarrow>
        call_key nt f Us = call_key nt f Vs \<longrightarrow> p = q)"

definition call_hash :: "sym \<Rightarrow> ntree list \<Rightarrow> nat" where
  "call_hash f Us = take_bit 28 (args_hash (sym_hash f) (map nhash Us))"

lemma args_hash_snoc: "args_hash h0 (hs @ [0]) = args_hash h0 hs"
  by (cases hs) (simp_all add: add_hash_def)

lemma call_hash_key:
  assumes "call_ok nt f Us" "call_ok nt f Vs" "call_key nt f Us = call_key nt f Vs"
  shows "call_hash f Us = call_hash f Vs"
proof (cases "nt f")
  case True
  have "args_hash h0 (map nhash Us) = args_hash h0 (map nhash (butlast Us))" if "call_ok nt f Us" for Us h0
  proof -
    have "Us = butlast Us @ [List.last Us]" using that by (simp add: call_ok_def)
    hence "map nhash Us = map nhash (butlast Us) @ [nhash (List.last Us)]" by (metis map_append list.simps(8,9))
    moreover have "nhash (List.last Us) = 0" using that True by (auto simp: call_ok_def)
    ultimately show ?thesis by (simp add: args_hash_snoc)
  qed
  from this [OF assms(1)] this [OF assms(2)] show ?thesis using assms(3) True by (simp add: call_hash_def call_key_def)
next
  case False
  thus ?thesis using assms(3) by (simp add: call_key_def)
qed

lemma repr_hashes: "list_all2 (stands_for A) ws Us \<Longrightarrow> map (hashval_of_numbered_term (nodes A)) ws = map nhash Us"
  by (induction rule: list_all2_induct) (auto simp: stands_for_def repr_hash)

lemma subgoal_hash:
  "is_call nt A G q f Us \<Longrightarrow> hashval_of_tabled_subgoal (nodes A) G q = call_hash f Us"
  by (auto simp: is_call_def hashval_of_tabled_subgoal_def call_hash_def call_ok_def repr_hashes)

lemma stands_for_list_functional:
  "list_all2 (stands_for A) ws Ts \<Longrightarrow> list_all2 (stands_for A) ws Us \<Longrightarrow> Ts = Us"
proof (induction ws arbitrary: Ts Us)
  case (Cons w ws)
  thus ?case by (auto simp: list_all2_Cons1 dest: stands_for_functional)
qed simp

lemma is_call_functional: "is_call nt A G q f Us \<Longrightarrow> is_call nt A G q f' Vs \<Longrightarrow> f = f' \<and> Us = Vs"
  using stands_for_list_functional by (auto simp: is_call_def)

lemma grows_stands_for_list: "grows A B \<Longrightarrow> list_all2 (stands_for A) ws Us \<Longrightarrow> list_all2 (stands_for B) ws Us"
  using list_all2_mono grows_stands_for by blast

lemma is_call_grows: "grows A B \<Longrightarrow> is_call nt A G q f Us \<Longrightarrow> is_call nt B G q f Us"
  using grows_stands_for_list by (auto simp: is_call_def)


section \<open>Lookup, proved\<close>

lemma list_all2_butlast: "list_all2 P xs ys \<Longrightarrow> list_all2 P (butlast xs) (butlast ys)"
proof (induction rule: list_all2_induct)
  case (Cons x xs y ys)
  thus ?case using list_all2_lengthD [OF Cons.hyps(2)] by (cases xs; cases ys) auto
qed simp

lemma same_call_spec:
  assumes ws: "list_all2 (stands_for A) ws Ts" "list_all2 (stands_for A) vs Us"
    and ok: "call_ok nt f Ts" "call_ok nt f Us" and n: "\<forall>T\<in>set Ts. size T < n"
  shows "same_call n uw f (nodes A) (nt f) ws vs =
    (if clash_list clash (call_key nt f Ts) (call_key nt f Us) then Inl Bad_access
     else Inr (call_key nt f Ts = call_key nt f Us))"
proof -
  have len: "length Ts = length Us" "Ts \<noteq> []" using ok by (simp_all add: call_ok_def)
  have same: "same_args (identicalTabledTerms n (nodes A)) xs ys =
      (if clash_list clash Xs Ys then Inl Bad_access else Inr (Xs = Ys))"
    if "list_all2 (stands_for A) xs Xs" "list_all2 (stands_for A) ys Ys" "length Xs = length Ys" "set Xs \<subseteq> set Ts" for xs ys Xs Ys
    by (rule same_args_spec [OF that(1-3)]) (use identical_tabled_spec n that(4) in \<open>auto simp: stands_for_def\<close>)
  show ?thesis
  proof (cases "nt f")
    case True
    have "set (butlast Ts) \<subseteq> set Ts" by (auto dest: in_set_butlastD)
    from same [OF list_all2_butlast [OF ws(1)] list_all2_butlast [OF ws(2)] _ this]
    show ?thesis using True len by (simp add: same_call_def call_key_def)
  next
    case False
    thus ?thesis using same [OF ws len(1) subset_refl] len(2) ws(1) by (auto simp: same_call_def call_key_def)
  qed
qed

lemma find_subgoal_spec:
  assumes ws: "list_all2 (stands_for A) ws Ts" "call_ok nt f Ts" and n: "\<forall>T\<in>set Ts. size T < n"
    and xs: "\<forall>q\<in>set xs. \<exists>f Us. is_call nt A G q f Us"
  shows "case find_subgoal n uw (nodes A) G f (nt f) ws xs of
      Inl e \<Rightarrow> e = Bad_access \<and> (\<exists>q\<in>set xs. \<exists>Us. is_call nt A G q f Us \<and> clash_list clash (call_key nt f Ts) (call_key nt f Us))
    | Inr None \<Rightarrow> \<forall>q\<in>set xs. \<forall>Us. is_call nt A G q f Us \<longrightarrow> call_key nt f Us \<noteq> call_key nt f Ts
    | Inr (Some q) \<Rightarrow> q \<in> set xs \<and> (\<exists>Us. is_call nt A G q f Us \<and> call_key nt f Us = call_key nt f Ts)"
  using xs
proof (induction xs)
  case (Cons q qs)
  let ?r = "find_subgoal n uw (nodes A) G f (nt f) ws qs"
  from Cons have IH: "case ?r of
      Inl e \<Rightarrow> e = Bad_access \<and> (\<exists>q\<in>set qs. \<exists>Us. is_call nt A G q f Us \<and> clash_list clash (call_key nt f Ts) (call_key nt f Us))
    | Inr None \<Rightarrow> \<forall>q\<in>set qs. \<forall>Us. is_call nt A G q f Us \<longrightarrow> call_key nt f Us \<noteq> call_key nt f Ts
    | Inr (Some q) \<Rightarrow> q \<in> set qs \<and> (\<exists>Us. is_call nt A G q f Us \<and> call_key nt f Us = call_key nt f Ts)" by simp
  from Cons.prems obtain f' Us where c: "is_call nt A G q f' Us" by auto
  then obtain g where g: "G q = Some g" "g_sym g = f'" "list_all2 (stands_for A) (g_args g) Us" "call_ok nt f' Us"
    by (auto simp: is_call_def)
  have only: "f'' = f' \<and> Vs = Us" if "is_call nt A G q f'' Vs" for f'' Vs using is_call_functional [OF that c] by simp
  show ?case
  proof (cases "f' = f")
    case False
    hence e: "find_subgoal n uw (nodes A) G f (nt f) ws (q # qs) = ?r" using g by simp
    have other: "\<not> is_call nt A G q f Vs" for Vs using only [of f Vs] False by blast
    show ?thesis unfolding e using IH other by (cases ?r) (auto split: option.splits)
  next
    case True
    have s: "same_call n uw f (nodes A) (nt f) ws (g_args g) =
        (if clash_list clash (call_key nt f Ts) (call_key nt f Us) then Inl Bad_access else Inr (call_key nt f Ts = call_key nt f Us))"
      by (rule same_call_spec [OF ws(1) g(3) ws(2) _ n]) (use g(4) True in simp)
    show ?thesis
    proof (cases "clash_list clash (call_key nt f Ts) (call_key nt f Us)")
      case clash: True
      thus ?thesis using s g True c by auto
    next
      case nc: False
      show ?thesis
      proof (cases "call_key nt f Ts = call_key nt f Us")
        case eq: True
        hence "find_subgoal n uw (nodes A) G f (nt f) ws (q # qs) = Inr (Some q)" using s g True nc by simp
        thus ?thesis using c True eq by auto
      next
        case ne: False
        hence e: "find_subgoal n uw (nodes A) G f (nt f) ws (q # qs) = ?r" using s g True nc by simp
        have other: "call_key nt f Vs \<noteq> call_key nt f Ts" if "is_call nt A G q f Vs" for Vs using only [OF that] ne by auto
        show ?thesis unfolding e using IH other by (cases ?r) (auto split: option.splits)
      qed
    qed
  qed
qed simp

lemma give_up_ok:
  assumes "area_ok A0" "ALLOCATE_FROM_NUMBERED_TERM_AREA sz A0 = Inr (p, A1)" "grows A1 A" "area_ok A"
  shows "area_ok (give_up p sz A)" "grows A0 (give_up p sz A)" "nodes (give_up p sz A) = nodes A"
    "numb (give_up p sz A) = numb A" "stands_for (give_up p sz A) = stands_for A"
  using pop_ok [OF assms] assms(4) grows_trans [OF allocate_ok(4) [OF assms(2,1)] assms(3)]
  by (auto simp: give_up_def)

lemma numb_below [simp]: "below (A\<lparr>numb := m\<rparr>) = below A"
  by (simp add: below_def[abs_def])

lemma is_call_numb [simp]: "is_call nt (A\<lparr>numb := m\<rparr>) = is_call nt A"
  by (simp add: is_call_def[abs_def])

lemma UNDO_ok [simp]:
  "tables_ok nt (UNDO_NUMBERING A S) = tables_ok nt S" "subgoals (UNDO_NUMBERING A S) = subgoals S"
  "is_call nt (tarea (UNDO_NUMBERING A S)) = is_call nt (tarea S)" "answers (UNDO_NUMBERING A S) = answers S"
  by (simp_all add: tables_ok_def UNDO_NUMBERING_def)

lemma UNDO_sel:
  "grows B (tarea (UNDO_NUMBERING A S)) = grows B (tarea S)" "numbered_in (tarea (UNDO_NUMBERING A S)) = numbered_in (tarea S)"
  "var_nums (numb (tarea (UNDO_NUMBERING A S))) = var_nums (numb A)"
  by (simp_all add: UNDO_NUMBERING_def)

text \<open>Growing the area under the table.\<close>

lemma tables_ok_grows:
  assumes ok: "tables_ok nt S" and g: "grows (tarea S) B" "area_ok B"
  shows "tables_ok nt (S\<lparr>tarea := B\<rparr>)"
    and "is_call nt B (subgoals S) q f Us \<longleftrightarrow> is_call nt (tarea S) (subgoals S) q f Us"
proof -
  let ?A = "tarea S" and ?G = "subgoals S"
  have all: "below ?A p \<and> (\<exists>f Us. is_call nt ?A ?G p f Us)" if "p \<in> dom ?G" for p using ok that by (simp add: tables_ok_def)
  show same: "is_call nt B ?G q f Us \<longleftrightarrow> is_call nt ?A ?G q f Us" for q f Us
  proof
    assume c: "is_call nt B ?G q f Us"
    hence "q \<in> dom ?G" by (auto simp: is_call_def)
    then obtain f' Vs where v: "is_call nt ?A ?G q f' Vs" using all by blast
    from is_call_functional [OF c is_call_grows [OF g(1) v]] v show "is_call nt ?A ?G q f Us" by simp
  qed (rule is_call_grows [OF g(1)])
  have eq: "is_call nt B ?G = is_call nt ?A ?G" by (intro ext) (rule same)
  have h: "hashval_of_tabled_subgoal (nodes B) ?G p = hashval_of_tabled_subgoal (nodes ?A) ?G p" if p: "p \<in> dom ?G" for p
  proof -
    obtain f Us where "is_call nt ?A ?G p f Us" using all [OF p] by blast
    thus ?thesis using subgoal_hash [of nt B] subgoal_hash [of nt ?A] same by metis
  qed
  have ch: "chained (hashval_of_tabled_subgoal (nodes ?A) ?G) (subgoal_table S)" "set_mset (content (subgoal_table S)) = dom ?G"
    using ok by (simp_all add: tables_ok_def)
  have "chained (hashval_of_tabled_subgoal (nodes B) ?G) (subgoal_table S)"
    by (rule chained_cong [OF ch(1)]) (use ch(2) h in blast)
  thus "tables_ok nt (S\<lparr>tarea := B\<rparr>)"
    using ok g(2) grows_below [OF g(1)] eq unfolding tables_ok_def by simp
qed


definition new_call :: "(sym \<Rightarrow> bool) \<Rightarrow> tables \<Rightarrow> sym \<Rightarrow> ntree list \<Rightarrow> bool" where
  "new_call nt S f Ts \<longleftrightarrow> (\<forall>q Us. is_call nt (tarea S) (subgoals S) q f Us \<longrightarrow> call_key nt f Us \<noteq> call_key nt f Ts)"

lemma register_subgoal_ok:
  assumes ok: "tables_ok nt S" and p: "below (tarea S) p" "p \<notin> dom (subgoals S)"
    and ws: "list_all2 (stands_for (tarea S)) ws Ts" "call_ok nt f Ts" and new: "new_call nt S f Ts"
    and h: "hcode = call_hash f Ts"
  defines "S' \<equiv> register_subgoal hcode p f ws S"
  shows "tables_ok nt S'" "subgoals S' = (subgoals S)(p \<mapsto> InitializeSubgoalTableEntry p f ws)" "tarea S' = tarea S"
    "answers S' = answers S"
proof -
  let ?A = "tarea S" and ?G = "subgoals S" and ?G' = "(subgoals S)(p \<mapsto> InitializeSubgoalTableEntry p f ws)"
  let ?h = "hashval_of_tabled_subgoal (nodes ?A) ?G'"
  have up: "is_call nt ?A ?G' q f' Us \<longleftrightarrow> (if q = p then f' = f \<and> Us = Ts else is_call nt ?A ?G q f' Us)" for q f' Us
  proof (cases "q = p")
    case True
    have "list_all2 (stands_for ?A) ws Us \<longleftrightarrow> Us = Ts" using ws(1) stands_for_list_functional [OF ws(1)] by blast
    thus ?thesis using True ws(2) by (simp add: is_call_def InitializeSubgoalTableEntry_def) blast
  next
    case False
    thus ?thesis by (simp add: is_call_def)
  qed
  have ch: "chained (hashval_of_tabled_subgoal (nodes ?A) ?G) (subgoal_table S)" "set_mset (content (subgoal_table S)) = dom ?G"
    using ok by (simp_all add: tables_ok_def)
  have ch': "chained ?h (subgoal_table S)"
  proof (rule chained_cong [OF ch(1)])
    fix q assume "q \<in># content (subgoal_table S)"
    hence "q \<noteq> p" using ch(2) p(2) by auto
    thus "?h q = hashval_of_tabled_subgoal (nodes ?A) ?G q" by (simp add: hashval_of_tabled_subgoal_def)
  qed
  have "is_call nt ?A ?G' p f Ts" by (simp add: up)
  hence hp: "?h p = hcode" unfolding h by (rule subgoal_hash)
  define t where "t = (push_chain hcode p (subgoal_table S))\<lparr>hcount := hcount (push_chain hcode p (subgoal_table S)) + 1\<rparr>"
  define t2 where "t2 = (if 2 * hcount t > hsize t then expand ?h (can_malloc ?A) t else t)"
  have t2: "chained ?h t2" "content t2 = add_mset p (content (subgoal_table S))"
    unfolding t2_def t_def by (rule insert_ok [OF ch' hp])+
  have S': "S' = S\<lparr>subgoals := ?G', subgoal_table := t2\<rparr>"
    by (simp add: S'_def register_subgoal_def Let_def t2_def t_def expandSubgoalTable_def)
  show "subgoals S' = ?G'" "tarea S' = ?A" "answers S' = answers S" by (simp_all add: S')
  have entries: "below ?A q \<and> (\<exists>f Us. is_call nt ?A ?G' q f Us)" if "q \<in> dom ?G'" for q
  proof (cases "q = p")
    case True
    thus ?thesis using p(1) by (simp add: up)
  next
    case False
    hence "q \<in> dom ?G" using that by auto
    thus ?thesis using ok False unfolding tables_ok_def by (simp add: up)
  qed
  have uniq: "q = r" if "is_call nt ?A ?G' q f' Us" "is_call nt ?A ?G' r f' Vs" "call_key nt f' Us = call_key nt f' Vs" for q r f' Us Vs
    using that new ok unfolding up tables_ok_def new_call_def by (cases "q = p"; cases "r = p") auto
  show "tables_ok nt S'"
    using ok t2 ch(2) entries uniq unfolding tables_ok_def S' by simp
qed


definition outputs_free :: "32 word \<Rightarrow> ntree list \<Rightarrow> bool" where
  "outputs_free mode_bits Ts \<longleftrightarrow> (\<forall>i<length Ts. bit (scast mode_bits :: 64 word) i \<longrightarrow> (\<exists>k. Ts ! i = NVar k))"

lemma output_modes_free:
  assumes "list_all2 (stands_for A) ws Ts"
  shows "output_modes_ok mode_bits ws = outputs_free mode_bits Ts"
proof -
  have l: "length ws = length Ts" using assms by (rule list_all2_lengthD)
  have "(case ws ! i of TNum _ \<Rightarrow> True | _ \<Rightarrow> False) = (\<exists>k. Ts ! i = NVar k)" if "i < length Ts" for i
  proof -
    have "stands_for A (ws ! i) (Ts ! i)" using assms that by (simp add: list_all2_conv_all_nth)
    thus ?thesis by (cases "Ts ! i") (auto simp: stands_for_def)
  qed
  thus ?thesis using l unfolding output_modes_ok_def outputs_free_def set_upt by auto
qed

definition call_numbering :: "tables \<Rightarrow> hterm list \<Rightarrow> numbering" where
  "call_numbering S ts = fold numberVarTermOpt ts (PREPARE_NUMBER_TERM 0 (numb (tarea S)))"

text \<open>What \<open>lookupSubgoalTable\<close> promises.\<close>

definition looked_up :: "(sym \<Rightarrow> bool) \<Rightarrow> tables \<Rightarrow> hterm list \<Rightarrow> sym \<Rightarrow> 32 word \<Rightarrow> ntree list \<Rightarrow> tab_error + (taddr \<times> hterm list \<times> tables) \<Rightarrow> bool" where
  "looked_up nt S ts f mode_bits Ts r \<longleftrightarrow> (case r of
       Inl e \<Rightarrow> memory_error e \<or> e = Output_mode \<and> \<not> outputs_free mode_bits Ts \<or>
         e = Bad_access \<and> (\<exists>q Us. is_call nt (tarea S) (subgoals S) q f Us \<and> clash_list clash (call_key nt f Ts) (call_key nt f Us))
     | Inr (q, ss, S') \<Rightarrow> tables_ok nt S' \<and> grows (tarea S) (tarea S') \<and> answers S' = answers S \<and>
         var_nums (numb (tarea S')) = var_nums (numb (tarea S)) \<and> outputs_free mode_bits Ts \<and>
         list_all2 (numbered_in (tarea S') (call_numbering S ts)) ss Ts \<and>
         (\<exists>Us. is_call nt (tarea S') (subgoals S') q f Us \<and> call_key nt f Us = call_key nt f Ts) \<and>
         (if new_call nt S f Ts
          then q \<notin> dom (subgoals S) \<and> (\<exists>ws. subgoals S' = (subgoals S)(q \<mapsto> InitializeSubgoalTableEntry q f ws))
          else subgoals S' = subgoals S))"

lemma outputs_free_0 [simp]: "outputs_free 0 Ts"
  by (simp add: outputs_free_def)

lemma lookup_spec:
  assumes ok: "tables_ok nt S" and ts: "list_all2 (numbered_in (tarea S) (call_numbering S ts)) ts Ts"
    and f: "call_ok nt f Ts" and n: "\<forall>T\<in>set Ts. size T < n"
  shows "looked_up nt S ts f mode_bits Ts (lookupSubgoalTable n uw ts f mode_bits (nt f) S)"
proof -
  define A0 where "A0 = start_numbering (tarea S)"
  define sz where "sz = length ts + GT_RECORD_SIZE"
  have A0: "area_ok A0" "stands_for A0 = stands_for (tarea S)" "numbered_in A0 = numbered_in (tarea S)" "grows (tarea S) A0" "below A0 = below (tarea S)"
    "numb A0 = PREPARE_NUMBER_TERM 0 (numb (tarea S))"
    using ok by (simp_all add: A0_def start_numbering_def tables_ok_def grows_refl)
  have ok0: "tables_ok nt (S\<lparr>tarea := A0\<rparr>)" using tables_ok_grows(1) [OF ok A0(4,1)] .
  note unfolds = lookupSubgoalTable_def Let_def A0_def [symmetric] sz_def [symmetric] numberVarCopySubgoalArgsToTableArea_def
  have ne: "ts \<noteq> []" using ts f by (auto simp: call_ok_def)
  show ?thesis
  proof (cases "ALLOCATE_FROM_NUMBERED_TERM_AREA sz A0")
    case (Inl e)
    thus ?thesis using allocate_error [OF Inl] by (auto simp: looked_up_def unfolds memory_error_def)
  next
    case (Inr pA)
    obtain p A1 where al: "ALLOCATE_FROM_NUMBERED_TERM_AREA sz A0 = Inr (p, A1)" using Inr by (cases pA) simp
    note a = allocate_ok [OF al A0(1)]
    have m: "fold numberVarTermOpt ts (numb A1) = call_numbering S ts" by (simp add: call_numbering_def a(3) A0(6))
    have "list_all2 (numbered_in A1 (fold numberVarTermOpt ts (numb A1))) ts Ts"
      unfolding m using list_all2_mono [OF ts] numbered_in_mono [OF _ a(4) num_le_refl] unfolding A0(3) by blast
    from call_args_copied [OF a(5) this n] have r: "copied_call ts Ts A1 (copy_subgoal_args n ts A1)" .
    show ?thesis
    proof (cases "copy_subgoal_args n ts A1")
      case (Inl e)
      thus ?thesis using r al by (simp add: looked_up_def unfolds copied_call_def)
    next
      case (Inr q)
      obtain ws hs ss A where q: "copy_subgoal_args n ts A1 = Inr (ws, hs, ss, A)" using Inr by (cases q) simp
      have A: "area_ok A" "grows A1 A" "numb A = call_numbering S ts" "list_all2 (stands_for A) ws Ts" "hs = map nhash Ts"
        using r unfolding q copied_call_def m by simp_all
      have ss: "list_all2 (numbered_in A (call_numbering S ts)) ss Ts"
        using r unfolding q copied_call_def m A(3) [symmetric] by simp
      have g: "grows (tarea S) A" using grows_trans [OF grows_trans [OF A0(4) a(4)] A(2)] .
      note okA = tables_ok_grows(1) [OF ok g A(1)]
      have eq: "is_call nt A (subgoals S) = is_call nt (tarea S) (subgoals S)"
        by (intro ext) (rule tables_ok_grows(2) [OF ok g A(1)])
      let ?h = "take_bit 28 (args_hash (sym_hash f) hs)"
      have h: "?h = call_hash f Ts" by (simp add: call_hash_def A(5))
      let ?ch = "chain ?h (subgoal_table S)" and ?H = "hashval_of_tabled_subgoal (nodes A) (subgoals S)"
      have tab: "chained ?H (subgoal_table S)" "set_mset (content (subgoal_table S)) = dom (subgoals S)"
        using okA by (simp_all add: tables_ok_def)
      have dom: "q \<in> dom (subgoals S)" if "q \<in> set ?ch" for q using chain_content(1) [OF tab(1) that] tab(2) by simp
      have "\<forall>q\<in>set ?ch. \<exists>f Us. is_call nt A (subgoals S) q f Us" using okA dom unfolding tables_ok_def by simp
      note find = find_subgoal_spec [OF A(4) f n this, of uw]
      have res: "lookupSubgoalTable n uw ts f mode_bits (nt f) S =
          (if mode_bits \<noteq> 0 \<and> \<not> outputs_free mode_bits Ts then Inl Output_mode
           else tbind (find_subgoal n uw (nodes A) (subgoals S) f (nt f) ws ?ch) (\<lambda>found. case found of
             Some q \<Rightarrow> Inr (q, ss, UNDO_NUMBERING (tarea S) (S\<lparr>tarea := give_up p sz A\<rparr>))
           | None \<Rightarrow> Inr (p, ss, UNDO_NUMBERING (tarea S) (register_subgoal ?h p f ws (S\<lparr>tarea := A\<rparr>)))))"
        using al q ne by (simp add: unfolds output_modes_free [OF A(4)])
      show ?thesis
      proof (cases "outputs_free mode_bits Ts")
        case False
        hence "mode_bits \<noteq> 0" by auto
        thus ?thesis using res False by (simp add: looked_up_def)
      next
        case free: True
        show ?thesis
        proof (cases "find_subgoal n uw (nodes A) (subgoals S) f (nt f) ws ?ch")
          case (Inl e)
          thus ?thesis using res free find unfolding eq by (auto simp: looked_up_def)
        next
          case (Inr r)
          show ?thesis
          proof (cases r)
            case (Some q)
            then obtain Us where Us: "is_call nt A (subgoals S) q f Us" "call_key nt f Us = call_key nt f Ts"
              using find Inr by auto
            let ?B = "give_up p sz A"
            note B = give_up_ok [OF A0(1) al A(2,1)]
            note gB = grows_trans [OF A0(4) B(2)]
            note okB = tables_ok_grows(1) [OF ok gB B(1)]
            have "is_call nt ?B (subgoals S) q f Us" using tables_ok_grows(2) [OF ok gB B(1)] Us(1) eq by simp
            moreover have "\<not> new_call nt S f Ts" using Us unfolding eq new_call_def by blast
            moreover have "numbered_in ?B = numbered_in A" by (simp add: numbered_in_def[abs_def] B(5))
            ultimately show ?thesis
              using res free Inr Some okB gB ss Us(2) unfolding looked_up_def by (simp add: UNDO_sel) blast
          next
            case None
            let ?SA = "S\<lparr>tarea := A\<rparr>"
            have p0: "\<not> below (tarea S) p" using a(4,8,10) unfolding A0(5) [symmetric] by (auto simp: below_def grows_def)
            have "below A1 p" using a(8,9) by (simp add: below_def sz_def GT_RECORD_SIZE_def)
            hence pA: "below A p" using grows_below [OF A(2)] by simp
            have pn: "p \<notin> dom (subgoals S)" using p0 ok by (auto simp: tables_ok_def)
            have new: "new_call nt S f Ts"
              unfolding new_call_def
            proof (intro allI impI notI)
              fix q Us assume c: "is_call nt (tarea S) (subgoals S) q f Us" "call_key nt f Us = call_key nt f Ts"
              have cA: "is_call nt A (subgoals S) q f Us" using c(1) eq by simp
              have "call_ok nt f Us" using c(1) by (auto simp: is_call_def)
              hence "?H q = ?h" unfolding subgoal_hash [OF cA] h by (rule call_hash_key [OF _ f c(2)])
              moreover have "q \<in># content (subgoal_table S)" using c(1) tab(2) by (auto simp: is_call_def)
              ultimately have "q \<in> set ?ch" using in_chain [OF tab(1), of q] by simp
              thus False using find Inr None cA c(2) by auto
            qed
            hence newA: "new_call nt ?SA f Ts" by (simp add: new_call_def eq)
            have pre: "below (tarea ?SA) p" "p \<notin> dom (subgoals ?SA)" "list_all2 (stands_for (tarea ?SA)) ws Ts"
              using pA pn A(4) by simp_all
            note reg = register_subgoal_ok [OF okA pre f newA h]
            let ?S' = "register_subgoal ?h p f ws ?SA"
            have "is_call nt (tarea ?S') (subgoals ?S') p f Ts"
              using reg(2,3) A(4) f by (simp add: is_call_def InitializeSubgoalTableEntry_def)
            moreover have "numbered_in (tarea ?S') = numbered_in A" by (simp add: reg(3))
            moreover have "lookupSubgoalTable n uw ts f mode_bits (nt f) S = Inr (p, ss, UNDO_NUMBERING (tarea S) ?S')"
              using res free Inr None by simp
            moreover have "grows (tarea S) (tarea ?S')" using g reg(3) by simp
            ultimately show ?thesis
              using reg free new pn ss unfolding looked_up_def by (simp add: UNDO_sel) blast
          qed
        qed
      qed
    qed
  qed
qed

section \<open>Calls without arguments\<close>

text \<open>What the table keeps when calls without arguments are looked up, too.\<close>

definition subgoals_ok :: "tables \<Rightarrow> bool" where
  "subgoals_ok S \<longleftrightarrow> area_ok (tarea S) \<and>
     chained (hashval_of_tabled_subgoal (nodes (tarea S)) (subgoals S)) (subgoal_table S) \<and>
     set_mset (content (subgoal_table S)) = dom (subgoals S) \<and> (\<forall>p\<in>dom (subgoals S). below (tarea S) p)"

lemma tables_ok_subgoals: "tables_ok nt S \<Longrightarrow> subgoals_ok S"
  by (simp add: tables_ok_def subgoals_ok_def)

lemma subgoals_ok_UNDO [simp]: "subgoals_ok (UNDO_NUMBERING A S) = subgoals_ok S"
  by (simp add: subgoals_ok_def UNDO_NUMBERING_def)

lemma subgoals_ok_grows:
  "subgoals_ok S \<Longrightarrow> area_ok B \<Longrightarrow> grows (tarea S) B \<Longrightarrow> nodes B = nodes (tarea S) \<Longrightarrow> subgoals_ok (S\<lparr>tarea := B\<rparr>)"
  using grows_below by (auto simp: subgoals_ok_def)

lemma register_subgoals_ok:
  assumes ok: "subgoals_ok S" and p: "below (tarea S) p" "p \<notin> dom (subgoals S)"
    and h: "hashval_of_tabled_subgoal (nodes (tarea S)) ((subgoals S)(p \<mapsto> InitializeSubgoalTableEntry p f ws)) p = hcode"
  shows "subgoals_ok (register_subgoal hcode p f ws S)"
    "subgoals (register_subgoal hcode p f ws S) = (subgoals S)(p \<mapsto> InitializeSubgoalTableEntry p f ws)"
proof -
  let ?A = "tarea S" and ?G' = "(subgoals S)(p \<mapsto> InitializeSubgoalTableEntry p f ws)"
  let ?h = "hashval_of_tabled_subgoal (nodes ?A) ?G'"
  have ch: "chained ?h (subgoal_table S)"
  proof (rule chained_cong)
    show "chained (hashval_of_tabled_subgoal (nodes ?A) (subgoals S)) (subgoal_table S)" using ok by (simp add: subgoals_ok_def)
    fix q assume "q \<in># content (subgoal_table S)"
    hence "q \<noteq> p" using ok p(2) by (auto simp: subgoals_ok_def)
    thus "?h q = hashval_of_tabled_subgoal (nodes ?A) (subgoals S) q" by (simp add: hashval_of_tabled_subgoal_def)
  qed
  define t where "t = (push_chain hcode p (subgoal_table S))\<lparr>hcount := hcount (push_chain hcode p (subgoal_table S)) + 1\<rparr>"
  define t2 where "t2 = (if 2 * hcount t > hsize t then expand ?h (can_malloc ?A) t else t)"
  have t2: "chained ?h t2" "content t2 = add_mset p (content (subgoal_table S))"
    unfolding t2_def t_def by (rule insert_ok [OF ch h])+
  have S': "register_subgoal hcode p f ws S = S\<lparr>subgoals := ?G', subgoal_table := t2\<rparr>"
    by (simp add: register_subgoal_def Let_def t2_def t_def expandSubgoalTable_def)
  show "subgoals_ok (register_subgoal hcode p f ws S)"
    using ok p(1) t2 unfolding S' subgoals_ok_def by simp
  show "subgoals (register_subgoal hcode p f ws S) = ?G'" by (simp add: S')
qed

definition has_sym :: "tables \<Rightarrow> sym \<Rightarrow> taddr \<Rightarrow> bool" where
  "has_sym S f p \<longleftrightarrow> (\<exists>g. subgoals S p = Some g \<and> g_sym g = f)"

lemma find_subgoal_0:
  assumes "\<forall>q\<in>set xs. subgoals S q \<noteq> None"
  shows "case find_subgoal n uw N (subgoals S) f False [] xs of
      Inl e \<Rightarrow> e = Bad_access \<and> ISLIST uw \<and> uw \<noteq> sym_addr f \<and> (\<exists>q\<in>set xs. has_sym S f q)
    | Inr None \<Rightarrow> (\<exists>q\<in>set xs. has_sym S f q) \<longrightarrow> uw \<noteq> sym_addr f \<and> \<not> ISLIST uw
    | Inr (Some q) \<Rightarrow> q \<in> set xs \<and> has_sym S f q \<and> uw = sym_addr f"
  using assms
proof (induction xs)
  case (Cons q qs)
  then obtain g where g: "subgoals S q = Some g" by auto
  have IH: "case find_subgoal n uw N (subgoals S) f False [] qs of
      Inl e \<Rightarrow> e = Bad_access \<and> ISLIST uw \<and> uw \<noteq> sym_addr f \<and> (\<exists>q\<in>set qs. has_sym S f q)
    | Inr None \<Rightarrow> (\<exists>q\<in>set qs. has_sym S f q) \<longrightarrow> uw \<noteq> sym_addr f \<and> \<not> ISLIST uw
    | Inr (Some q) \<Rightarrow> q \<in> set qs \<and> has_sym S f q \<and> uw = sym_addr f" using Cons by simp
  show ?case
  proof (cases "g_sym g = f \<and> (uw = sym_addr f \<or> ISLIST uw)")
    case True
    thus ?thesis using g by (auto simp: same_call_def same_unwritten_def has_sym_def)
  next
    case False
    hence e: "find_subgoal n uw N (subgoals S) f False [] (q # qs) = find_subgoal n uw N (subgoals S) f False [] qs"
      using g by (auto simp: same_call_def same_unwritten_def)
    have "has_sym S f q \<longrightarrow> uw \<noteq> sym_addr f \<and> \<not> ISLIST uw" using False g by (auto simp: has_sym_def)
    thus ?thesis using IH unfolding e
      by (cases "find_subgoal n uw N (subgoals S) f False [] qs") (auto split: option.splits)
  qed
qed simp

text \<open>A call without arguments is found by accident only.\<close>

definition looked_up_0 :: "tables \<Rightarrow> 64 word \<Rightarrow> sym \<Rightarrow> tab_error + (taddr \<times> hterm list \<times> tables) \<Rightarrow> bool" where
  "looked_up_0 S uw f r \<longleftrightarrow> (case r of
       Inl e \<Rightarrow> memory_error e \<or> e = Bad_access \<and> ISLIST uw \<and> uw \<noteq> sym_addr f \<and> (\<exists>p. has_sym S f p)
     | Inr (q, ss, S') \<Rightarrow> ss = [] \<and> subgoals_ok S' \<and>
         (if uw = sym_addr f \<and> (\<exists>p. has_sym S f p)
          then has_sym S f q \<and> subgoals S' = subgoals S
          else q \<notin> dom (subgoals S) \<and> subgoals S' = (subgoals S)(q \<mapsto> InitializeSubgoalTableEntry q f [])))"

lemma lookup_0_spec:
  assumes ok: "subgoals_ok S" and f: "arity f = 0"
  shows "looked_up_0 S uw f (lookupSubgoalTable n uw [] f mode_bits False S)"
proof -
  define A0 where "A0 = start_numbering (tarea S)"
  have A0: "area_ok A0" "grows (tarea S) A0" "nodes A0 = nodes (tarea S)" "below A0 = below (tarea S)"
    using ok by (simp_all add: A0_def start_numbering_def subgoals_ok_def grows_refl)
  show ?thesis
  proof (cases "ALLOCATE_FROM_NUMBERED_TERM_AREA GT_RECORD_SIZE A0")
    case (Inl e)
    thus ?thesis using allocate_error [OF Inl]
      by (auto simp: looked_up_0_def lookupSubgoalTable_def A0_def [symmetric] memory_error_def)
  next
    case (Inr pA)
    obtain p A where al: "ALLOCATE_FROM_NUMBERED_TERM_AREA GT_RECORD_SIZE A0 = Inr (p, A)" using Inr by (cases pA) simp
    note a = allocate_ok [OF al A0(1)]
    have nA: "nodes A = nodes (tarea S)" using a(1) A0(3) by simp
    have gA: "grows (tarea S) A" by (rule grows_trans [OF A0(2) a(4)])
    let ?N = "nodes A" and ?ch = "chain (sym_hash f) (subgoal_table S)" and ?h = "hashval_of_tabled_subgoal (nodes A) (subgoals S)"
    have res: "lookupSubgoalTable n uw [] f mode_bits False S =
        tbind (find_subgoal n uw ?N (subgoals S) f False [] ?ch) (\<lambda>found. case found of
             Some q \<Rightarrow> Inr (q, [], UNDO_NUMBERING (tarea S) (S\<lparr>tarea := give_up p GT_RECORD_SIZE A\<rparr>))
           | None \<Rightarrow> Inr (p, [], UNDO_NUMBERING (tarea S) (register_subgoal (sym_hash f) p f [] (S\<lparr>tarea := A\<rparr>))))"
      using al by (simp add: lookupSubgoalTable_def A0_def [symmetric] numberVarCopySubgoalArgsToTableArea_def output_modes_ok_def)
    have tab: "chained ?h (subgoal_table S)" "set_mset (content (subgoal_table S)) = dom (subgoals S)"
      using ok nA by (simp_all add: subgoals_ok_def)
    have "subgoals S q \<noteq> None" if "q \<in> set ?ch" for q using chain_content(1) [OF tab(1) that] tab(2) by auto
    note find = find_subgoal_0 [where S = S and xs = ?ch and n = n and uw = uw and N = ?N and f = f, OF ballI [OF this]]
    have inch: "q \<in> set ?ch" if "has_sym S f q" for q
    proof -
      have "?h q = sym_hash f" "q \<in># content (subgoal_table S)"
        using that f tab(2) by (auto simp: has_sym_def hashval_of_tabled_subgoal_def)
      thus ?thesis using in_chain [OF tab(1), of q] by simp
    qed
    show ?thesis
    proof (cases "find_subgoal n uw ?N (subgoals S) f False [] ?ch")
      case (Inl e)
      thus ?thesis using find res by (auto simp: looked_up_0_def)
    next
      case (Inr r)
      show ?thesis
      proof (cases r)
        case (Some q)
        note B = give_up_ok [OF A0(1) al grows_refl a(5)]
        have "subgoals_ok (S\<lparr>tarea := give_up p GT_RECORD_SIZE A\<rparr>)"
          by (rule subgoals_ok_grows [OF ok B(1) grows_trans [OF A0(2) B(2)]]) (simp add: B(3) nA)
        thus ?thesis using find Inr Some res by (auto simp: looked_up_0_def)
      next
        case None
        let ?SA = "S\<lparr>tarea := A\<rparr>"
        have p0: "\<not> below (tarea S) p" using a(4,8,10) unfolding A0(4) [symmetric] by (auto simp: below_def grows_def)
        hence pn: "p \<notin> dom (subgoals S)" using ok by (auto simp: subgoals_ok_def)
        have pA: "below A p" using a(8,9) by (simp add: below_def GT_RECORD_SIZE_def)
        have okA: "subgoals_ok ?SA" by (rule subgoals_ok_grows [OF ok a(5) gA nA])
        have reg: "subgoals_ok (register_subgoal (sym_hash f) p f [] ?SA)"
          "subgoals (register_subgoal (sym_hash f) p f [] ?SA) = (subgoals S)(p \<mapsto> InitializeSubgoalTableEntry p f [])"
          using register_subgoals_ok [OF okA, of p f "[]" "sym_hash f"] pA pn f
          by (simp_all add: hashval_of_tabled_subgoal_def InitializeSubgoalTableEntry_def)
        have "\<not> (uw = sym_addr f \<and> (\<exists>p. has_sym S f p))" using find Inr None inch by auto
        thus ?thesis using res Inr None reg pn by (simp add: looked_up_0_def)
      qed
    qed
  qed
qed

end
