(* ===== verification/Answer_Table.thy ===== *)
theory Answer_Table
  imports Subgoal_Table Term_Order
begin

text \<open>
  The answers of a subgoal (\<open>emu/table.c\<close>, and \<open>table_produce\<close> in \<open>emu/emu_inst.h\<close>). An answer is a record
  in the table area with its arguments. The first answer of a subgoal is kept alone; with the second one
  the subgoal gets an answer table: the answers in a list, and chained by their hash codes. With an
  optimised argument the list goes from the best to the worst answer, and a full table gives up its
  worst one. \<open>tval T\<close> is the term that the comparison sees for a tree; the symbol table is not part of
  the model.
\<close>

section \<open>Answers\<close>

definition ANSWERTABLE_RECORD_SIZE :: nat where "ANSWERTABLE_RECORD_SIZE = 5"
definition InitAnswerTableBucketSize :: nat where "InitAnswerTableBucketSize = 7"
definition SUBGOAL_ANS_REVISED_BIT :: "64 word" where "SUBGOAL_ANS_REVISED_BIT = 1"

definition numberVarCopyAnswerArgsToTableArea :: "nat \<Rightarrow> hterm list \<Rightarrow> area \<Rightarrow> tab_error + (tab_word list \<times> nat \<times> area)" where
  "numberVarCopyAnswerArgsToTableArea n ts A =
     tbind (copy_args n ts A) (\<lambda>(ws, hs, g, A).
       Inr (ws, if ts = [] then 0 else take_bit 28 (args_hash 0 hs), A))"

definition hashval_of_tabled_answer :: "(taddr \<Rightarrow> tnode option) \<Rightarrow> (taddr \<Rightarrow> tab_word list option) \<Rightarrow> nat \<Rightarrow> taddr \<Rightarrow> nat" where
  "hashval_of_tabled_answer N R ar a =
     (if ar = 0 then 0 else take_bit 28 (args_hash 0 (map (hashval_of_numbered_term N) (the (R a)))))"

definition addFirstTableAnswer :: "nat \<Rightarrow> hterm list \<Rightarrow> tables \<Rightarrow> tab_error + (taddr \<times> tables)" where
  "addFirstTableAnswer n ts S =
     tbind (ALLOCATE_FROM_NUMBERED_TERM_AREA (length ts + 2) (tarea S)) (\<lambda>(a, A).
     tbind (numberVarCopyAnswerArgsToTableArea n ts (start_numbering A)) (\<lambda>(ws, hcode, A).
       Inr (a, S\<lparr>tarea := A, answers := (answers S)(a \<mapsto> ws)\<rparr>)))"

definition allocateAnswerTable :: "taddr \<Rightarrow> nat \<Rightarrow> tables \<Rightarrow> tab_error + atable" where
  "allocateAnswerTable first_answer ar S =
     (if \<not> can_malloc (tarea S) ANSWERTABLE_RECORD_SIZE \<or> \<not> can_malloc (tarea S) InitAnswerTableBucketSize then Inl Out_of_memory
      else let index = hashval_of_tabled_answer (nodes (tarea S)) (answers S) ar first_answer mod InitAnswerTableBucketSize
           in Inr \<lparr>order = [first_answer],
                achains = \<lparr>hsize = InitAnswerTableBucketSize, hcount = 1,
                  buckets = (replicate InitAnswerTableBucketSize [])[index := [first_answer]]\<rparr>\<rparr>)"

fun find_answer :: "nat \<Rightarrow> (taddr \<Rightarrow> tnode option) \<Rightarrow> (taddr \<Rightarrow> tab_word list option) \<Rightarrow> tab_word list \<Rightarrow> taddr list \<Rightarrow> tab_error + bool" where
  "find_answer n N R ws [] = Inr False"
| "find_answer n N R ws (a # as) = (case R a of
       None \<Rightarrow> Inl Bad_access
     | Some vs \<Rightarrow> tbind (same_args (identicalTabledTerms n N) ws vs) (\<lambda>same.
         if same then Inr True else find_answer n N R ws as))"

definition expandAnswerTable :: "tables \<Rightarrow> nat \<Rightarrow> atable \<Rightarrow> atable" where
  "expandAnswerTable S ar t = t\<lparr>achains :=
     expand (hashval_of_tabled_answer (nodes (tarea S)) (answers S) ar) (can_malloc (tarea S)) (achains t)\<rparr>"

text \<open>The start of adding an answer: a record with the arguments, and whether the table has them already.\<close>

definition new_answer :: "nat \<Rightarrow> hterm list \<Rightarrow> atable \<Rightarrow> tables \<Rightarrow> tab_error + (taddr \<times> tab_word list \<times> nat \<times> bool \<times> area)" where
  "new_answer n ts t S =
     tbind (ALLOCATE_FROM_NUMBERED_TERM_AREA (length ts + 2) (start_numbering (tarea S))) (\<lambda>(a, A).
     tbind (numberVarCopyAnswerArgsToTableArea n ts A) (\<lambda>(ws, hcode, A).
     tbind (find_answer n (nodes A) (answers S) ws (chain hcode (achains t))) (\<lambda>found.
       Inr (a, ws, hcode, found, A))))"

text \<open>The new entry at the head of its chain, counted.\<close>

definition chain_answer :: "nat \<Rightarrow> taddr \<Rightarrow> atable \<Rightarrow> atable" where
  "chain_answer hcode a t = t\<lparr>achains := (push_chain hcode a (achains t))\<lparr>hcount := hcount (push_chain hcode a (achains t)) + 1\<rparr>\<rparr>"

text \<open>The result says whether the answer is new.\<close>

definition addTableAnswer :: "nat \<Rightarrow> hterm list \<Rightarrow> atable \<Rightarrow> tables \<Rightarrow> tab_error + (bool \<times> atable \<times> tables)" where
  "addTableAnswer n ts t S =
     tbind (new_answer n ts t S) (\<lambda>(a, ws, hcode, found, A).
       if found then Inr (False, t, S\<lparr>tarea := give_up a (length ts + 2) A\<rparr>)
       else let S = S\<lparr>tarea := A, answers := (answers S)(a \<mapsto> ws)\<rparr>;
                t = (chain_answer hcode a t)\<lparr>order := order t @ [a]\<rparr>
            in Inr (True, if 2 * hcount (achains t) > hsize (achains t) then expandAnswerTable S (length ts) t else t, S))"

section \<open>Answers with an optimised argument\<close>

fun tree_list :: "('w \<Rightarrow> tab_error + 'a) \<Rightarrow> 'w list \<Rightarrow> tab_error + 'a list" where
  "tree_list f [] = Inr []"
| "tree_list f (w # ws) = tbind (f w) (\<lambda>t. tbind (tree_list f ws) (\<lambda>ts. Inr (t # ts)))"

fun tree_at :: "nat \<Rightarrow> (taddr \<Rightarrow> tnode option) \<Rightarrow> tab_word \<Rightarrow> tab_error + ntree" where
  "tree_at 0 N w = Inl Out_of_fuel"
| "tree_at (Suc n) N w = (case w of
       TAtm a \<Rightarrow> Inr (NAtm a)
     | TNum i \<Rightarrow> Inr (NVar i)
     | _ \<Rightarrow> (case node_at N w of
           None \<Rightarrow> Inl Bad_access
         | Some x \<Rightarrow> tbind (tree_list (tree_at n N) (n_args x)) (\<lambda>ts.
             Inr (case n_sym x of Some f \<Rightarrow> NStr f ts | None \<Rightarrow> NLst (ts ! 0) (ts ! 1)))))"

definition ans_lt :: "pterm \<Rightarrow> pterm \<Rightarrow> bool" where
  "ans_lt t1 t2 = (case (t1, t2) of (PInt i, PInt j) \<Rightarrow> i < j | _ \<Rightarrow> bp_compare t1 t2 < 0)"

definition ans_gt :: "pterm \<Rightarrow> pterm \<Rightarrow> bool" where
  "ans_gt t1 t2 = (case (t1, t2) of (PInt i, PInt j) \<Rightarrow> i > j | _ \<Rightarrow> bp_compare t1 t2 > 0)"

definition TABLE_ANS_IS_LT :: "(ntree \<Rightarrow> pterm) \<Rightarrow> nat \<Rightarrow> (taddr \<Rightarrow> tnode option) \<Rightarrow> tab_word \<Rightarrow> tab_word \<Rightarrow> tab_error + bool" where
  "TABLE_ANS_IS_LT tval n N t1 t2 =
     tbind (tree_at n N t1) (\<lambda>T1. tbind (tree_at n N t2) (\<lambda>T2. Inr (ans_lt (tval T1) (tval T2))))"

definition TABLE_ANS_IS_GT :: "(ntree \<Rightarrow> pterm) \<Rightarrow> nat \<Rightarrow> (taddr \<Rightarrow> tnode option) \<Rightarrow> tab_word \<Rightarrow> tab_word \<Rightarrow> tab_error + bool" where
  "TABLE_ANS_IS_GT tval n N t1 t2 =
     tbind (tree_at n N t1) (\<lambda>T1. tbind (tree_at n N t2) (\<lambda>T2. Inr (ans_gt (tval T1) (tval T2))))"

text \<open>The answers \<open>ans1\<close> and \<open>ans2\<close> are given by the arguments in their records.\<close>

definition isSmallerTabledAnswer :: "(ntree \<Rightarrow> pterm) \<Rightarrow> nat \<Rightarrow> (taddr \<Rightarrow> tnode option) \<Rightarrow> nat \<Rightarrow> tab_word list \<Rightarrow> tab_word list \<Rightarrow> tab_error + bool" where
  "isSmallerTabledAnswer tval n N opt_arg_index ans1 ans2 = TABLE_ANS_IS_LT tval n N (ans1 ! opt_arg_index) (ans2 ! opt_arg_index)"

definition isBiggerTabledAnswer :: "(ntree \<Rightarrow> pterm) \<Rightarrow> nat \<Rightarrow> (taddr \<Rightarrow> tnode option) \<Rightarrow> nat \<Rightarrow> tab_word list \<Rightarrow> tab_word list \<Rightarrow> tab_error + bool" where
  "isBiggerTabledAnswer tval n N opt_arg_index ans1 ans2 = TABLE_ANS_IS_GT tval n N (ans1 ! opt_arg_index) (ans2 ! opt_arg_index)"

text \<open>
  The loops over the list of answers; \<open>better a b\<close> compares two records. The versions for \<open>min\<close> and
  \<open>max\<close> differ in it only. \<open>insert_scan\<close> starts behind the first answer.
\<close>

fun insert_scan :: "(taddr \<Rightarrow> taddr \<Rightarrow> tab_error + bool) \<Rightarrow> taddr \<Rightarrow> taddr list \<Rightarrow> tab_error + taddr list" where
  "insert_scan better a [] = Inr [a]"
| "insert_scan better a (b # bs) = tbind (better a b) (\<lambda>r.
     if r then Inr (a # b # bs) else tbind (insert_scan better a bs) (\<lambda>cs. Inr (b # cs)))"

fun insertTabledAnswer :: "(taddr \<Rightarrow> taddr \<Rightarrow> tab_error + bool) \<Rightarrow> taddr \<Rightarrow> taddr list \<Rightarrow> tab_error + taddr list" where
  "insertTabledAnswer better a [] = Inl Bad_access"
| "insertTabledAnswer better a (b # bs) = tbind (better a b) (\<lambda>r.
     if r then Inr (a # b # bs) else tbind (insert_scan better a bs) (\<lambda>cs. Inr (b # cs)))"

text \<open>The list up to the last answer, which moves to the front of \<open>resetLastTabledAnswer\<close>'s argument.\<close>

definition resetLastTabledAnswer :: "taddr \<Rightarrow> taddr list \<Rightarrow> taddr list" where
  "resetLastTabledAnswer last_answer bs = last_answer # takeWhile (\<lambda>b. b \<noteq> last_answer) bs"

fun reposition_scan :: "(taddr \<Rightarrow> taddr \<Rightarrow> tab_error + bool) \<Rightarrow> taddr \<Rightarrow> taddr list \<Rightarrow> tab_error + taddr list" where
  "reposition_scan better last_answer [] = Inl Bad_access"
| "reposition_scan better last_answer (b # bs) =
     (if b = last_answer then Inr (b # bs)
      else tbind (better last_answer b) (\<lambda>r.
        if r then Inr (resetLastTabledAnswer last_answer (b # bs))
        else tbind (reposition_scan better last_answer bs) (\<lambda>cs. Inr (b # cs))))"

fun repositionLastTabledAnswer :: "(taddr \<Rightarrow> taddr \<Rightarrow> tab_error + bool) \<Rightarrow> taddr \<Rightarrow> taddr list \<Rightarrow> tab_error + taddr list" where
  "repositionLastTabledAnswer better last_answer [] = Inl Bad_access"
| "repositionLastTabledAnswer better last_answer (b # bs) = tbind (better last_answer b) (\<lambda>r.
     if r then Inr (resetLastTabledAnswer last_answer (b # bs))
     else tbind (reposition_scan better last_answer bs) (\<lambda>cs. Inr (b # cs)))"

definition removeAnswerFromAnswerTable :: "tables \<Rightarrow> nat \<Rightarrow> taddr \<Rightarrow> atable \<Rightarrow> tab_error + atable" where
  "removeAnswerFromAnswerTable S ar a t =
     (let h = hashval_of_tabled_answer (nodes (tarea S)) (answers S) ar a; c = achains t
      in if a \<in> set (chain h c) then Inr (t\<lparr>achains := unchain h a c\<rparr>)
         else Inl Bad_access)"

definition better_answer :: "(ntree \<Rightarrow> pterm) \<Rightarrow> nat \<Rightarrow> nat \<Rightarrow> bool \<Rightarrow> tables \<Rightarrow> taddr \<Rightarrow> taddr \<Rightarrow> tab_error + bool" where
  "better_answer tval n opt_arg_index maximize S a b = (case (answers S a, answers S b) of
       (Some ws, Some vs) \<Rightarrow>
         (if maximize then isBiggerTabledAnswer tval n (nodes (tarea S)) opt_arg_index ws vs
          else isSmallerTabledAnswer tval n (nodes (tarea S)) opt_arg_index ws vs)
     | _ \<Rightarrow> Inl Bad_access)"

definition addTableOptimalAnswer :: "(ntree \<Rightarrow> pterm) \<Rightarrow> nat \<Rightarrow> hterm list \<Rightarrow> atable \<Rightarrow> nat \<Rightarrow> bool \<Rightarrow> nat \<Rightarrow> tables
    \<Rightarrow> tab_error + (bool \<times> atable \<times> tables)" where
  "addTableOptimalAnswer tval n ts t opt_arg_index maximize table_card S =
     tbind (new_answer n ts t S) (\<lambda>(a, ws, hcode, found, A).
       if found then Inr (False, t, S\<lparr>tarea := give_up a (length ts + 2) A\<rparr>)
       else let S' = S\<lparr>tarea := A, answers := (answers S)(a \<mapsto> ws)\<rparr>;
                better = better_answer tval n opt_arg_index maximize
            in if table_card = hcount (achains t)
               then let last_answer = List.last (order t)
                    in tbind (better S' a last_answer) (\<lambda>r.
                       if r
                       then tbind (removeAnswerFromAnswerTable S' (length ts) last_answer t) (\<lambda>t.
                            let t = t\<lparr>achains := push_chain hcode last_answer (achains t)\<rparr>;
                                S = S\<lparr>tarea := give_up a (length ts + 2) A, answers := (answers S)(last_answer \<mapsto> ws)\<rparr>
                            in tbind (repositionLastTabledAnswer (better S) last_answer (order t)) (\<lambda>as.
                               Inr (True, t\<lparr>order := as\<rparr>, S)))
                       else Inr (False, t, S\<lparr>tarea := give_up a (length ts + 2) A\<rparr>))
               else tbind (insertTabledAnswer (better S') a (order t)) (\<lambda>as.
                    let t = (chain_answer hcode a t)\<lparr>order := as\<rparr>
                    in Inr (True, if hcount (achains t) > hsize (achains t) then expandAnswerTable S' (length ts) t else t, S')))"


section \<open>The invariant of an answer table\<close>

definition answer_hash :: "ntree list \<Rightarrow> nat" where
  "answer_hash Ts = (if Ts = [] then 0 else take_bit 28 (args_hash 0 (map nhash Ts)))"

definition is_answer :: "area \<Rightarrow> (taddr \<Rightarrow> tab_word list option) \<Rightarrow> taddr \<Rightarrow> ntree list \<Rightarrow> bool" where
  "is_answer A R a Ts \<longleftrightarrow> (\<exists>ws. R a = Some ws \<and> list_all2 (stands_for A) ws Ts)"

text \<open>The table \<open>t\<close> has the answers \<open>As\<close>, in this order.\<close>

definition table_of :: "area \<Rightarrow> (taddr \<Rightarrow> tab_word list option) \<Rightarrow> nat \<Rightarrow> atable \<Rightarrow> ntree list list \<Rightarrow> bool" where
  "table_of A R ar t As \<longleftrightarrow> list_all2 (is_answer A R) (order t) As \<and> distinct As \<and> (\<forall>Ts\<in>set As. length Ts = ar) \<and>
     chained (hashval_of_tabled_answer (nodes A) R ar) (achains t) \<and>
     content (achains t) = mset (order t) \<and> hcount (achains t) = length (order t) \<and> order t \<noteq> []"

definition answers_ok :: "tables \<Rightarrow> bool" where
  "answers_ok S \<longleftrightarrow> area_ok (tarea S) \<and> (\<forall>a\<in>dom (answers S). below (tarea S) a)"

lemma is_answer_functional: "is_answer A R a Ts \<Longrightarrow> is_answer A R a Us \<Longrightarrow> Ts = Us"
  using stands_for_list_functional by (auto simp: is_answer_def)

lemma is_answer_grows: "grows A B \<Longrightarrow> is_answer A R a Ts \<Longrightarrow> is_answer B R a Ts"
  using grows_stands_for_list by (auto simp: is_answer_def)

lemma answer_hash_eq: "is_answer A R a Ts \<Longrightarrow> length Ts = ar \<Longrightarrow> hashval_of_tabled_answer (nodes A) R ar a = answer_hash Ts"
  by (auto simp: is_answer_def hashval_of_tabled_answer_def answer_hash_def repr_hashes)

lemma list_all2_in_set1: "list_all2 P xs ys \<Longrightarrow> x \<in> set xs \<Longrightarrow> \<exists>y\<in>set ys. P x y"
  by (induction rule: list_all2_induct) auto

lemma list_all2_in_set2: "list_all2 P xs ys \<Longrightarrow> y \<in> set ys \<Longrightarrow> \<exists>x\<in>set xs. P x y"
  by (induction rule: list_all2_induct) auto

lemma list_all2_memE:
  assumes "list_all2 P xs ys" "x \<in> set xs"
  obtains y where "y \<in> set ys" "P x y"
  using assms by (meson list_all2_in_set1)

lemma list_all2_memE':
  assumes "list_all2 P xs ys" "y \<in> set ys"
  obtains x where "x \<in> set xs" "P x y"
  using assms by (meson list_all2_in_set2)

text \<open>The chains only need the hash codes of the answers.\<close>

lemma table_chained:
  assumes as: "list_all2 (is_answer A R) as As" "\<forall>Ts\<in>set As. length Ts = ar"
    and as': "list_all2 (is_answer B R') as As" and c: "set_mset (content c) \<subseteq> set as"
    and ch: "chained (hashval_of_tabled_answer (nodes A) R ar) c"
  shows "chained (hashval_of_tabled_answer (nodes B) R' ar) c"
proof (rule chained_cong [OF ch])
  fix a assume "a \<in># content c"
  then obtain i where i: "i < length as" "a = as ! i" using c by (metis in_set_conv_nth subsetD)
  have "is_answer A R a (As ! i)" "is_answer B R' a (As ! i)" "length (As ! i) = ar"
    using as as' i by (auto simp: list_all2_conv_all_nth)
  thus "hashval_of_tabled_answer (nodes B) R' ar a = hashval_of_tabled_answer (nodes A) R ar a"
    by (simp add: answer_hash_eq)
qed

lemma table_of_mono:
  assumes t: "table_of A R ar t As" and g: "grows A B" "\<And>a. a \<in> set (order t) \<Longrightarrow> R' a = R a"
  shows "table_of B R' ar t As"
proof -
  have "list_all2 (is_answer B R') (order t) As"
  proof (rule list_all2_all_nthI)
    fix i assume i: "i < length (order t)"
    have "is_answer A R (order t ! i) (As ! i)" using t i by (simp add: table_of_def list_all2_conv_all_nth)
    from is_answer_grows [OF g(1) this] show "is_answer B R' (order t ! i) (As ! i)" using g(2) i by (simp add: is_answer_def)
  next
    show "length (order t) = length As" using t list_all2_lengthD unfolding table_of_def by blast
  qed
  moreover from this have "chained (hashval_of_tabled_answer (nodes B) R' ar) (achains t)"
    using t table_chained [of A R "order t" As ar B R' "achains t"] by (simp add: table_of_def)
  ultimately show ?thesis using t by (simp add: table_of_def)
qed

lemma table_distinct:
  assumes "list_all2 (is_answer A R) as As" "distinct As"
  shows "distinct as"
proof (unfold distinct_conv_nth, intro allI impI)
  fix i j assume ij: "i < length as" "j < length as" "i \<noteq> j"
  have l: "length As = length as" using assms(1) by (simp add: list_all2_lengthD)
  have "is_answer A R (as ! i) (As ! i)" "is_answer A R (as ! j) (As ! j)" using assms(1) ij by (simp_all add: list_all2_conv_all_nth)
  moreover have "As ! i \<noteq> As ! j" using assms(2) ij l by (simp add: distinct_conv_nth)
  ultimately show "as ! i \<noteq> as ! j" using is_answer_functional by metis
qed

section \<open>New answers, proved\<close>

lemma answer_args_copied:
  assumes ok: "area_ok A" and ts: "list_all2 (numbered_in A (fold numberVarTermOpt ts (numb A))) ts Ts" and n: "\<forall>T\<in>set Ts. size T < n"
  shows "case numberVarCopyAnswerArgsToTableArea n ts A of
      Inl e \<Rightarrow> memory_error e
    | Inr (ws, hcode, B) \<Rightarrow> area_ok B \<and> grows A B \<and> list_all2 (stands_for B) ws Ts \<and> hcode = answer_hash Ts"
proof (cases "copy_args n ts A")
  case (Inl e)
  thus ?thesis using args_copied [OF assms] by (simp add: numberVarCopyAnswerArgsToTableArea_def copied_args_def)
next
  case (Inr q)
  obtain ws hs g B where q: "copy_args n ts A = Inr (ws, hs, g, B)" using Inr by (cases q) simp
  have "ts = [] \<longleftrightarrow> Ts = []" using ts by auto
  thus ?thesis
    using args_copied [OF assms] q by (auto simp: numberVarCopyAnswerArgsToTableArea_def copied_args_def answer_hash_def)
qed

lemma find_answer_spec:
  assumes ws: "list_all2 (stands_for A) ws Ts" and n: "\<forall>T\<in>set Ts. size T < n"
  shows "list_all2 (is_answer A R) xs As \<Longrightarrow> \<forall>Us\<in>set As. length Us = length Ts \<Longrightarrow>
    case find_answer n (nodes A) R ws xs of
      Inl e \<Rightarrow> e = Bad_access \<and> (\<exists>Us\<in>set As. clash_list clash Ts Us)
    | Inr found \<Rightarrow> found = (Ts \<in> set As)"
proof (induction rule: list_all2_induct)
  case (Cons a as Us As)
  from Cons.hyps(1) obtain vs where vs: "R a = Some vs" "list_all2 (stands_for A) vs Us" by (auto simp: is_answer_def)
  have s: "same_args (identicalTabledTerms n (nodes A)) ws vs = (if clash_list clash Ts Us then Inl Bad_access else Inr (Ts = Us))"
    by (rule same_args_spec [OF ws vs(2)]) (use Cons.prems identical_tabled_spec n in \<open>auto simp: stands_for_def\<close>)
  have IH: "case find_answer n (nodes A) R ws as of
      Inl e \<Rightarrow> e = Bad_access \<and> (\<exists>Us\<in>set As. clash_list clash Ts Us)
    | Inr found \<Rightarrow> found = (Ts \<in> set As)" using Cons by simp
  show ?case
    using vs(1) s IH by (cases "clash_list clash Ts Us"; cases "Ts = Us"; cases "find_answer n (nodes A) R ws as") auto
qed simp


definition answer_numbering :: "tables \<Rightarrow> hterm list \<Rightarrow> numbering" where
  "answer_numbering S ts = fold numberVarTermOpt ts (PREPARE_NUMBER_TERM 0 (numb (tarea S)))"

lemma new_answer_spec:
  assumes ok: "answers_ok S" and t: "table_of (tarea S) (answers S) (length ts) t As"
    and ts: "list_all2 (numbered_in (tarea S) (answer_numbering S ts)) ts Ts" and n: "\<forall>T\<in>set Ts. size T < n"
  obtains (error) e where "new_answer n ts t S = Inl e" "memory_error e \<or> e = Bad_access \<and> (\<exists>Us\<in>set As. clash_list clash Ts Us)"
  | (answer) a ws found A where "new_answer n ts t S = Inr (a, ws, answer_hash Ts, found, A)" "found = (Ts \<in> set As)"
      "area_ok A" "grows (tarea S) A" "list_all2 (stands_for A) ws Ts" "a \<notin> dom (answers S)" "below A a"
      "area_ok (give_up a (length ts + 2) A)" "grows (tarea S) (give_up a (length ts + 2) A)"
      "stands_for (give_up a (length ts + 2) A) = stands_for A" "nodes (give_up a (length ts + 2) A) = nodes A"
proof -
  define A0 where "A0 = start_numbering (tarea S)"
  have A0: "area_ok A0" "numbered_in A0 = numbered_in (tarea S)" "grows (tarea S) A0" "below A0 = below (tarea S)"
    "numb A0 = PREPARE_NUMBER_TERM 0 (numb (tarea S))"
    using ok by (simp_all add: A0_def start_numbering_def answers_ok_def grows_refl)
  have len: "length Ts = length ts" using ts by (simp add: list_all2_lengthD)
  show ?thesis
  proof (cases "ALLOCATE_FROM_NUMBERED_TERM_AREA (length ts + 2) A0")
    case (Inl e)
    show ?thesis
      by (rule error [of e]) (use allocate_error [OF Inl] Inl in \<open>auto simp: new_answer_def A0_def [symmetric] memory_error_def\<close>)
  next
    case (Inr pA)
    obtain a A1 where al: "ALLOCATE_FROM_NUMBERED_TERM_AREA (length ts + 2) A0 = Inr (a, A1)" using Inr by (cases pA) simp
    note aa = allocate_ok [OF al A0(1)]
    have m: "fold numberVarTermOpt ts (numb A1) = answer_numbering S ts" by (simp add: answer_numbering_def aa(3) A0(5))
    have "list_all2 (numbered_in A1 (fold numberVarTermOpt ts (numb A1))) ts Ts"
      unfolding m using list_all2_mono [OF ts] numbered_in_mono [OF _ aa(4) num_le_refl] unfolding A0(2) by blast
    note copy = answer_args_copied [OF aa(5) this n]
    show ?thesis
    proof (cases "numberVarCopyAnswerArgsToTableArea n ts A1")
      case (Inl e)
      show ?thesis by (rule error [of e]) (use copy Inl al in \<open>simp_all add: new_answer_def A0_def [symmetric]\<close>)
    next
      case (Inr q)
      obtain ws h A where q: "numberVarCopyAnswerArgsToTableArea n ts A1 = Inr (ws, h, A)" using Inr by (cases q) simp
      have A: "area_ok A" "grows A1 A" "list_all2 (stands_for A) ws Ts" "h = answer_hash Ts" using copy q by simp_all
      have g: "grows (tarea S) A" using grows_trans [OF grows_trans [OF A0(3) aa(4)] A(2)] .
      note tA = table_of_mono [OF t g refl]
      let ?xs = "chain (answer_hash Ts) (achains t)"
      have tab: "list_all2 (is_answer A (answers S)) (order t) As" "\<forall>Us\<in>set As. length Us = length ts"
        "chained (hashval_of_tabled_answer (nodes A) (answers S) (length ts)) (achains t)" "content (achains t) = mset (order t)"
        using tA by (simp_all add: table_of_def)
      have "\<forall>x\<in>set ?xs. \<exists>Us\<in>set As. is_answer A (answers S) x Us"
        using chain_content(1) [OF tab(3)] tab(4) list_all2_in_set1 [OF tab(1)] by auto
      then obtain f where f: "\<forall>x\<in>set ?xs. f x \<in> set As \<and> is_answer A (answers S) x (f x)" by metis
      have xs: "list_all2 (is_answer A (answers S)) ?xs (map f ?xs)" using f by (simp add: list.rel_map list.rel_refl_strong)
      have mem: "Ts \<in> set (map f ?xs) \<longleftrightarrow> Ts \<in> set As"
      proof
        assume "Ts \<in> set As"
        then obtain x where x: "x \<in> set (order t)" "is_answer A (answers S) x Ts" using list_all2_in_set2 [OF tab(1)] by blast
        have "hashval_of_tabled_answer (nodes A) (answers S) (length ts) x = answer_hash Ts" by (rule answer_hash_eq [OF x(2) len])
        hence "x \<in> set ?xs" using in_chain [OF tab(3), of x] x(1) tab(4) by simp
        moreover from this have "f x = Ts" using f is_answer_functional x(2) by blast
        ultimately show "Ts \<in> set (map f ?xs)" by force
      qed (use f in auto)
      have "\<forall>Us\<in>set (map f ?xs). length Us = length Ts" using f tab(2) len by auto
      note find = find_answer_spec [OF A(3) n xs this]
      show ?thesis
      proof (cases "find_answer n (nodes A) (answers S) ws ?xs")
        case (Inl e)
        show ?thesis
          by (rule error [of e]) (use find Inl al q A(4) f in \<open>auto simp: new_answer_def A0_def [symmetric]\<close>)
      next
        case (Inr found)
        have a0: "\<not> below (tarea S) a" using aa(4,8,10) unfolding A0(4) [symmetric] by (auto simp: below_def grows_def)
        hence an: "a \<notin> dom (answers S)" using ok by (auto simp: answers_ok_def)
        have "below A1 a" using aa(8,9) by (simp add: below_def)
        note bA = grows_below [OF A(2) this]
        note B = give_up_ok [OF A0(1) al A(2,1)]
        show ?thesis
          by (rule answer [OF _ _ A(1) g A(3) an bA B(1) grows_trans [OF A0(3) B(2)] B(5,3)])
            (use al q A(4) Inr find mem in \<open>simp_all add: new_answer_def A0_def [symmetric]\<close>)
      qed
    qed
  qed
qed


text \<open>A new answer \<open>a\<close> at the head of its chain; \<open>as\<close> is the new order.\<close>

lemma chain_answer_ok:
  assumes t: "table_of A R (length Ts) t As" and new: "Ts \<notin> set As" "a \<notin> set (order t)"
    and a: "is_answer B R' a Ts" and g: "grows A B" and R': "\<And>b. b \<in> set (order t) \<Longrightarrow> R' b = R b"
    and as: "list_all2 (is_answer B R') as As'" "mset as = add_mset a (mset (order t))" "mset As' = add_mset Ts (mset As)"
  defines "t' \<equiv> (chain_answer (answer_hash Ts) a t)\<lparr>order := as\<rparr>"
  shows "table_of B R' (length Ts) (if full then t'\<lparr>achains := expand (hashval_of_tabled_answer (nodes B) R' (length Ts)) cm (achains t')\<rparr> else t') As'"
    and "hcount (achains t') = Suc (length As)"
proof -
  let ?h = "hashval_of_tabled_answer (nodes B) R' (length Ts)"
  have tB: "table_of B R' (length Ts) t As" by (rule table_of_mono [OF t g R'])
  have h: "?h a = answer_hash Ts" by (rule answer_hash_eq [OF a refl])
  have ch: "chained ?h (achains t)" using tB by (simp add: table_of_def)
  note ins = insert_ok [OF ch h]
  have a': "achains t' = (push_chain (answer_hash Ts) a (achains t))\<lparr>hcount := hcount (push_chain (answer_hash Ts) a (achains t)) + 1\<rparr>"
    "order t' = as" by (simp_all add: t'_def chain_answer_def)
  have lens: "length (order t) = length As" "length as = Suc (length (order t))" "as \<noteq> []"
    using tB list_all2_lengthD mset_eq_length [OF as(2)[unfolded mset.simps [symmetric]]] by (auto simp: table_of_def)
  show "hcount (achains t') = Suc (length As)" using ins(3) tB lens(1) by (simp add: a' table_of_def)
  have set: "set As' = insert Ts (set As)" using as(3) by (metis set_mset_add_mset_insert set_mset_mset)
  have "distinct As'"
  proof -
    have "mset As' = mset (Ts # As)" using as(3) by simp
    hence "distinct As' = distinct (Ts # As)" by (rule mset_eq_imp_distinct_iff)
    thus ?thesis using tB new(1) by (simp add: table_of_def)
  qed
  moreover have "\<forall>Us\<in>set As'. length Us = length Ts" using tB by (simp add: set table_of_def)
  ultimately show "table_of B R' (length Ts) (if full then t'\<lparr>achains := expand ?h cm (achains t')\<rparr> else t') As'"
    using ins(4-6) [where full = True] ins(1-3) as(1,2) lens tB unfolding a'[symmetric]
    by (simp add: table_of_def a')
qed

text \<open>What adding an answer promises: \<open>As\<close> and \<open>As'\<close> are the answers before and afterwards.\<close>

definition answer_added :: "tables \<Rightarrow> atable \<Rightarrow> ntree list \<Rightarrow> ntree list list \<Rightarrow> ntree list list \<Rightarrow> tab_error + (bool \<times> atable \<times> tables) \<Rightarrow> bool" where
  "answer_added S t Ts As As' r \<longleftrightarrow> (case r of
       Inl e \<Rightarrow> memory_error e \<or> e = Bad_access \<and> (\<exists>Us\<in>set As. clash_list clash Ts Us)
     | Inr (new, t', S') \<Rightarrow> answers_ok S' \<and> table_of (tarea S') (answers S') (length Ts) t' As' \<and> new = (As' \<noteq> As) \<and>
         grows (tarea S) (tarea S') \<and> subgoals S' = subgoals S \<and> subgoal_table S' = subgoal_table S \<and>
         (\<forall>b. b \<in> dom (answers S) - set (order t) \<longrightarrow> answers S' b = answers S b) \<and>
         set (order t') \<subseteq> set (order t) \<union> - dom (answers S))"

lemma order_expand [simp]: "order (expandAnswerTable S ar t) = order t" "order (chain_answer h a t) = order t"
  by (simp_all add: expandAnswerTable_def chain_answer_def)

lemma add_answer_spec:
  assumes ok: "answers_ok S" and t: "table_of (tarea S) (answers S) (length ts) t As"
    and ts: "list_all2 (numbered_in (tarea S) (answer_numbering S ts)) ts Ts" and n: "\<forall>T\<in>set Ts. size T < n"
  shows "answer_added S t Ts As (if Ts \<in> set As then As else As @ [Ts]) (addTableAnswer n ts t S)"
proof (rule new_answer_spec [OF assms])
  fix e assume "new_answer n ts t S = Inl e" "memory_error e \<or> e = Bad_access \<and> (\<exists>Us\<in>set As. clash_list clash Ts Us)"
  thus ?thesis by (simp add: addTableAnswer_def answer_added_def)
next
  fix a ws found A
  let ?B = "give_up a (length ts + 2) A" and ?R = "(answers S)(a \<mapsto> ws)"
  assume r: "new_answer n ts t S = Inr (a, ws, answer_hash Ts, found, A)" "found = (Ts \<in> set As)"
    and A: "area_ok A" "grows (tarea S) A" "list_all2 (stands_for A) ws Ts" "a \<notin> dom (answers S)" "below A a"
    and B: "area_ok ?B" "grows (tarea S) ?B"
  have len: "length ts = length Ts" using ts by (simp add: list_all2_lengthD)
  have ord: "b \<in> dom (answers S)" if "b \<in> set (order t)" for b
    using t list_all2_in_set1 [OF _ that] by (force simp: table_of_def is_answer_def)
  show ?thesis
  proof (cases "Ts \<in> set As")
    case True
    have "below ?B b" if "b \<in> dom (answers S)" for b using ok that grows_below [OF B(2)] by (simp add: answers_ok_def)
    thus ?thesis
      using r True B table_of_mono [OF t B(2) refl] len by (simp add: addTableAnswer_def answer_added_def answers_ok_def)
  next
    case False
    have an: "a \<notin> set (order t)" using A(4) ord by blast
    have R: "?R b = answers S b" if "b \<in> set (order t)" for b using an that by auto
    have ia: "is_answer A ?R a Ts" using A(3) by (simp add: is_answer_def)
    have "list_all2 (is_answer A ?R) (order t) As" using table_of_mono [where R' = ?R, OF t A(2) R] by (simp add: table_of_def)
    hence "list_all2 (is_answer A ?R) (order t @ [a]) (As @ [Ts])" using ia by (intro list_all2_appendI) simp_all
    note add = chain_answer_ok [where R' = ?R, OF t[unfolded len] False an ia A(2) R this]
    have "answers_ok (S\<lparr>tarea := A, answers := ?R\<rparr>)"
      using A ok grows_below [OF A(2)] by (auto simp: answers_ok_def)
    thus ?thesis
      using r(1,2) False add(2) add(1) [where full = True and cm = "can_malloc A"] add(1) [where full = False] A(2,4) len by (auto simp: addTableAnswer_def answer_added_def Let_def expandAnswerTable_def)
  qed
qed

end
