(* ===== verification/Best_First.thy ===== *)
theory Best_First
  imports "HOL-Library.Multiset"
begin

text \<open>
  Lists that are kept from the best to the worst element and cut after \<open>k\<close> elements: the abstract
  view of an answer table with an optimised argument. \<open>better x y\<close> is a strict preference among the
  elements of \<open>ok\<close>.
\<close>

fun insert_best :: "('a \<Rightarrow> 'a \<Rightarrow> bool) \<Rightarrow> 'a \<Rightarrow> 'a list \<Rightarrow> 'a list" where
  "insert_best better x [] = [x]"
| "insert_best better x (y # ys) = (if better x y then x # y # ys else y # insert_best better x ys)"

text \<open>0 stands for no limit.\<close>

definition cut :: "nat \<Rightarrow> 'a list \<Rightarrow> 'a list" where
  "cut k xs = (if k = 0 then xs else take k xs)"

definition keep_best :: "('a \<Rightarrow> 'a \<Rightarrow> bool) \<Rightarrow> nat \<Rightarrow> 'a \<Rightarrow> 'a list \<Rightarrow> 'a list" where
  "keep_best better k x xs = (if x \<in> set xs then xs else cut k (insert_best better x xs))"

text \<open>All different elements of a sequence, from the best to the worst, equal ones in the order of arrival.\<close>

definition ranking :: "('a \<Rightarrow> 'a \<Rightarrow> bool) \<Rightarrow> 'a list \<Rightarrow> 'a list" where
  "ranking better xs = fold (\<lambda>x ys. if x \<in> set ys then ys else insert_best better x ys) xs []"

lemma length_insert_best [simp]: "length (insert_best better x xs) = Suc (length xs)"
  by (induction xs) auto

lemma mset_insert_best [simp]: "mset (insert_best better x xs) = add_mset x (mset xs)"
  by (induction xs) auto

lemma set_insert_best [simp]: "set (insert_best better x xs) = insert x (set xs)"
  by (metis mset_insert_best set_mset_add_mset_insert set_mset_mset)

lemma distinct_insert_best: "distinct (insert_best better x xs) \<longleftrightarrow> x \<notin> set xs \<and> distinct xs"
  by (induction xs) auto

lemma insert_best_end: "\<forall>y\<in>set xs. \<not> better x y \<Longrightarrow> insert_best better x xs = xs @ [x]"
  by (induction xs) auto

lemma insert_best_butlast:
  "xs \<noteq> [] \<Longrightarrow> better x (last xs) \<Longrightarrow> insert_best better x xs = insert_best better x (butlast xs) @ [last xs]"
  by (induction xs) auto

lemma take_insert_best: "take k (insert_best better x (take k xs)) = take k (insert_best better x xs)"
proof (induction xs arbitrary: k)
  case (Cons y ys)
  thus ?case by (cases k) (auto simp: take_Cons')
qed simp

lemma keep_best_length: "k = 0 \<or> length xs \<le> k \<Longrightarrow> k = 0 \<or> length (keep_best better k x xs) \<le> k"
  by (auto simp: keep_best_def cut_def)

lemma keep_best_set: "set (keep_best better k x xs) \<subseteq> insert x (set xs)"
  using set_take_subset [of k "insert_best better x xs"] by (auto simp: keep_best_def cut_def)

locale preference =
  fixes better :: "'a \<Rightarrow> 'a \<Rightarrow> bool" and ok :: "'a \<Rightarrow> bool"
  assumes neg_trans: "ok x \<Longrightarrow> ok y \<Longrightarrow> ok z \<Longrightarrow> \<not> better x y \<Longrightarrow> \<not> better y z \<Longrightarrow> \<not> better x z"
    and asym: "ok x \<Longrightarrow> ok y \<Longrightarrow> better x y \<Longrightarrow> \<not> better y x"
begin

definition best_first :: "'a list \<Rightarrow> bool" where
  "best_first xs \<longleftrightarrow> sorted_wrt (\<lambda>x y. \<not> better y x) xs \<and> (\<forall>x\<in>set xs. ok x)"

lemma insert_best_first:
  assumes "best_first xs" "ok x"
  shows "best_first (insert_best better x xs)"
  using assms
proof (induction xs)
  case (Cons y ys)
  have y: "ok y" "\<forall>z\<in>set ys. ok z \<and> \<not> better z y" "best_first ys" using Cons.prems by (auto simp: best_first_def)
  show ?case
  proof (cases "better x y")
    case True
    have "\<not> better z x" if "z \<in> set ys" for z
    proof
      assume "better z x"
      hence "\<not> better x z" using asym y(2) Cons.prems(2) that by blast
      hence "\<not> better x y" using neg_trans [of x z y] y that Cons.prems(2) by blast
      thus False using True by simp
    qed
    thus ?thesis using True asym [of x y] Cons.prems by (auto simp: best_first_def)
  next
    case False
    thus ?thesis using Cons.IH [OF y(3) Cons.prems(2)] y by (auto simp: best_first_def)
  qed
qed (simp add: best_first_def)

lemma best_first_cut: "best_first xs \<Longrightarrow> best_first (cut k xs)"
  unfolding best_first_def cut_def by (auto intro: sorted_wrt_take dest: in_set_takeD)

lemma keep_best_first: "best_first xs \<Longrightarrow> ok x \<Longrightarrow> best_first (keep_best better k x xs)"
  using best_first_cut [OF insert_best_first] by (simp add: keep_best_def)

text \<open>An element that is not better than the last one is not better than any.\<close>

lemma worst_is_last:
  assumes "best_first xs" "xs \<noteq> []" "ok x" "\<not> better x (last xs)" "y \<in> set xs"
  shows "\<not> better x y"
proof -
  have eq: "xs = butlast xs @ [last xs]" using assms(2) by simp
  hence "best_first (butlast xs @ [last xs])" using assms(1) by metis
  hence b: "\<forall>y\<in>set (butlast xs). ok y \<and> \<not> better (last xs) y" "ok (last xs)" by (auto simp: best_first_def sorted_wrt_append)
  have "y \<in> set (butlast xs) \<or> y = last xs" using assms(5) eq by (metis Un_iff empty_iff insert_iff list.set(1,2) set_append)
  thus ?thesis using b assms(3,4) neg_trans [of x "last xs" y] by blast
qed

text \<open>A full list loses its last element to a better one, and stays as it is otherwise.\<close>

lemma keep_best_full:
  assumes "best_first xs" "xs \<noteq> []" "ok x" "x \<notin> set xs" "length xs = k" "0 < k"
  shows "keep_best better k x xs = (if better x (last xs) then insert_best better x (butlast xs) else xs)"
proof (cases "better x (last xs)")
  case True
  have "length (insert_best better x (butlast xs)) = k" using assms(2,5) by (cases xs) auto
  thus ?thesis using True insert_best_butlast [where better = better, OF assms(2) True] assms(4,6) by (simp add: keep_best_def cut_def)
next
  case False
  have "insert_best better x xs = xs @ [x]"
    by (rule insert_best_end) (use worst_is_last [OF assms(1-3) False] in blast)
  thus ?thesis using False assms(4-6) by (simp add: keep_best_def cut_def)
qed

text \<open>Keeping the best \<open>k\<close> elements one by one keeps the best \<open>k\<close> of all.\<close>

lemma ranking_step:
  "ranking better (xs @ [x]) = (if x \<in> set (ranking better xs) then ranking better xs else insert_best better x (ranking better xs))"
  by (simp add: ranking_def)

lemma ranking_ok: "\<forall>x\<in>set xs. ok x \<Longrightarrow> best_first (ranking better xs) \<and> distinct (ranking better xs) \<and> set (ranking better xs) = set xs"
proof (induction xs rule: rev_induct)
  case Nil
  thus ?case by (simp add: ranking_def best_first_def)
next
  case (snoc x xs)
  thus ?case using insert_best_first by (auto simp: ranking_step distinct_insert_best)
qed

lemma keep_best_ranking:
  assumes ok: "\<forall>y\<in>set (x # xs). ok y"
  shows "keep_best better k x (cut k (ranking better xs)) = cut k (ranking better (xs @ [x]))"
proof (cases "k = 0")
  case True
  thus ?thesis by (simp add: keep_best_def cut_def ranking_step)
next
  case k: False
  let ?r = "ranking better xs"
  have r: "best_first ?r" "distinct ?r" using ranking_ok [of xs] ok by simp_all
  have cut: "cut k ys = take k ys" for ys :: "'a list" using k by (simp add: cut_def)
  show ?thesis
  proof (cases "x \<in> set ?r")
    case False
    hence "x \<notin> set (take k ?r)" by (auto dest: in_set_takeD)
    thus ?thesis using False by (simp add: ranking_step keep_best_def cut take_insert_best)
  next
    case in_r: True
    show ?thesis
    proof (cases "x \<in> set (take k ?r)")
      case True
      thus ?thesis using in_r by (simp add: ranking_step keep_best_def cut)
    next
      case False
      have eq: "?r = take k ?r @ drop k ?r" by simp
      hence d: "x \<in> set (drop k ?r)" using in_r False by (metis Un_iff set_append)
      have "sorted_wrt (\<lambda>x y. \<not> better y x) (take k ?r @ drop k ?r)" using r(1) by (simp add: best_first_def)
      hence "\<forall>y\<in>set (take k ?r). \<not> better x y" using d unfolding sorted_wrt_append by blast
      hence "insert_best better x (take k ?r) = take k ?r @ [x]" by (rule insert_best_end)
      moreover have "length (take k ?r) = k" using d by (cases "length ?r \<le> k") auto
      ultimately show ?thesis using False in_r by (simp add: ranking_step keep_best_def cut)
    qed
  qed
qed

end

section \<open>First come, first kept\<close>

text \<open>Without a preference the first \<open>k\<close> different elements are kept.\<close>

definition keep_first :: "nat \<Rightarrow> 'a \<Rightarrow> 'a list \<Rightarrow> 'a list" where
  "keep_first k x xs = (if x \<in> set xs then xs else cut k (xs @ [x]))"

definition arrivals :: "'a list \<Rightarrow> 'a list" where
  "arrivals xs = rev (remdups (rev xs))"

lemma arrivals_step: "arrivals (xs @ [x]) = (if x \<in> set (arrivals xs) then arrivals xs else arrivals xs @ [x])"
  by (simp add: arrivals_def)

lemma keep_first_arrivals: "keep_first k x (cut k (arrivals xs)) = cut k (arrivals (xs @ [x]))"
proof -
  have "take k ys = ys \<or> length (take k ys) = k" for ys :: "'a list" by auto
  thus ?thesis
    using in_set_takeD [of x k "arrivals xs"] unfolding keep_first_def arrivals_step cut_def
    by (auto simp: min_def split: if_splits)
qed

end
