(* ===== verification/Answer_Best.thy ===== *)
theory Answer_Best
  imports Answer_Table Best_First
begin

text \<open>
  The answer table with an optimised argument, proved to hold the best answers of all that have been
  produced, as many as its limit allows.
\<close>

section \<open>The preference\<close>

definition better_than :: "(ntree \<Rightarrow> pterm) \<Rightarrow> nat \<Rightarrow> bool \<Rightarrow> ntree list \<Rightarrow> ntree list \<Rightarrow> bool" where
  "better_than tval opt_arg_index maximize Ts Us =
     (if maximize then ans_gt (tval (Ts ! opt_arg_index)) (tval (Us ! opt_arg_index))
      else ans_lt (tval (Ts ! opt_arg_index)) (tval (Us ! opt_arg_index)))"

lemma ans_compare: "ans_lt s t \<longleftrightarrow> bp_compare s t < 0" "ans_gt s t \<longleftrightarrow> bp_compare s t > 0"
  by (auto simp: ans_lt_def ans_gt_def BP_COMPARE_VALS_def split: pterm.splits)

interpretation best: preference "better_than tval opt maximize" "\<lambda>Ts. plain bigs arrays (tval (Ts ! opt))" for tval opt maximize bigs arrays
proof
  fix Ts Us Vs
  assume p: "plain bigs arrays (tval (Ts ! opt))" "plain bigs arrays (tval (Us ! opt))" "plain bigs arrays (tval (Vs ! opt))"
  assume n: "\<not> better_than tval opt maximize Ts Us" "\<not> better_than tval opt maximize Us Vs"
  show "\<not> better_than tval opt maximize Ts Vs"
    using n compare_trans [OF p] compare_trans [OF p(3,2,1)] compare_anti [OF p(1,2)] compare_anti [OF p(2,3)] compare_anti [OF p(1,3)]
    by (auto simp: better_than_def ans_compare split: if_splits)
next
  fix Ts Us
  assume p: "plain bigs arrays (tval (Ts ! opt))" "plain bigs arrays (tval (Us ! opt))"
  assume "better_than tval opt maximize Ts Us"
  thus "\<not> better_than tval opt maximize Us Ts"
    using compare_anti [OF p] by (auto simp: better_than_def ans_compare split: if_splits)
qed

section \<open>The comparison of answers\<close>

lemma tree_list_spec:
  "list_all2 P ws Ts \<Longrightarrow> (\<And>w T. T \<in> set Ts \<Longrightarrow> P w T \<Longrightarrow> f w = Inr T) \<Longrightarrow> tree_list f ws = Inr Ts"
proof (induction rule: list_all2_induct)
  case (Cons w ws T Ts)
  have "f w = Inr T" using Cons.prems Cons.hyps(1) by simp
  thus ?case using Cons.IH Cons.prems by simp
qed simp

lemma tree_at_spec: "repr N R w T \<Longrightarrow> size T < n \<Longrightarrow> tree_at n N w = Inr T"
proof (induction n arbitrary: w T)
  case (Suc n)
  show ?case
  proof (cases "compound T")
    case True
    then obtain p ws where p: "w = tag T p" "list_all2 (repr N R) ws (kids T)" "N p = Some (node_of T ws)"
      using Suc.prems(1) unfolding repr_compound [OF True] by blast
    have "size t < n" if "t \<in> set (kids T)" for t
    proof -
      have "size t < size T"
        using that size_list_estimation' [of t "kids T" "size t" size] by (cases T) (auto simp: less_Suc_eq_le)
      thus ?thesis using Suc.prems(2) by simp
    qed
    hence "tree_list (tree_at n N) ws = Inr (kids T)" using tree_list_spec [OF p(2)] Suc.IH by blast
    thus ?thesis using p True by (cases T) (auto simp: node_at_def node_of_def)
  next
    case False
    thus ?thesis using Suc.prems by (cases T) auto
  qed
qed simp

lemma better_answer_spec:
  assumes a: "is_answer (tarea S) (answers S) a Ts" and b: "is_answer (tarea S) (answers S) b Us"
    and o: "opt < length Ts" "opt < length Us" "size (Ts ! opt) < n" "size (Us ! opt) < n"
  shows "better_answer tval n opt maximize S a b = Inr (better_than tval opt maximize Ts Us)"
proof -
  obtain ws vs where w: "answers S a = Some ws" "answers S b = Some vs"
    "list_all2 (stands_for (tarea S)) ws Ts" "list_all2 (stands_for (tarea S)) vs Us" using a b by (auto simp: is_answer_def)
  have "stands_for (tarea S) (ws ! opt) (Ts ! opt)" "stands_for (tarea S) (vs ! opt) (Us ! opt)"
    using w(3,4) o(1,2) by (simp_all add: list_all2_conv_all_nth)
  hence "tree_at n (nodes (tarea S)) (ws ! opt) = Inr (Ts ! opt)" "tree_at n (nodes (tarea S)) (vs ! opt) = Inr (Us ! opt)"
    using tree_at_spec o(3,4) by (simp_all add: stands_for_def)
  thus ?thesis
    using w(1,2) by (simp add: better_answer_def isSmallerTabledAnswer_def isBiggerTabledAnswer_def
      TABLE_ANS_IS_LT_def TABLE_ANS_IS_GT_def better_than_def)
qed

section \<open>The loops over the list\<close>

lemma insert_scan_spec:
  assumes "P a Ts"
  shows "list_all2 P bs As \<Longrightarrow> (\<And>b Us. b \<in> set bs \<Longrightarrow> Us \<in> set As \<Longrightarrow> P b Us \<Longrightarrow> better a b = Inr (btr Ts Us)) \<Longrightarrow>
    \<exists>as. insert_scan better a bs = Inr as \<and> list_all2 P as (insert_best btr Ts As) \<and> mset as = add_mset a (mset bs)"
proof (induction rule: list_all2_induct)
  case (Cons b bs Us As)
  have b: "better a b = Inr (btr Ts Us)" using Cons.prems Cons.hyps(1) by simp
  obtain as where "insert_scan better a bs = Inr as" "list_all2 P as (insert_best btr Ts As)" "mset as = add_mset a (mset bs)"
    using Cons.IH Cons.prems by auto
  thus ?case using b assms Cons.hyps by auto
qed (use assms in simp)

lemma insertTabledAnswer_scan: "bs \<noteq> [] \<Longrightarrow> insertTabledAnswer better a bs = insert_scan better a bs"
  by (cases bs) simp_all

lemma takeWhile_but_last: "a \<notin> set bs \<Longrightarrow> takeWhile (\<lambda>b. b \<noteq> a) (bs @ [a]) = bs"
  by (induction bs) auto

lemma reposition_scan_spec:
  assumes "P a Ts"
  shows "list_all2 P bs As \<Longrightarrow> a \<notin> set bs \<Longrightarrow> (\<And>b Us. b \<in> set bs \<Longrightarrow> Us \<in> set As \<Longrightarrow> P b Us \<Longrightarrow> better a b = Inr (btr Ts Us)) \<Longrightarrow>
    \<exists>as. reposition_scan better a (bs @ [a]) = Inr as \<and> list_all2 P as (insert_best btr Ts As) \<and> mset as = add_mset a (mset bs)"
proof (induction rule: list_all2_induct)
  case (Cons b bs Us As)
  have b: "better a b = Inr (btr Ts Us)" using Cons.prems Cons.hyps(1) by simp
  have tw: "takeWhile (\<lambda>b. b \<noteq> a) (b # bs @ [a]) = b # bs" using Cons.prems(1) takeWhile_but_last by auto
  obtain as where "reposition_scan better a (bs @ [a]) = Inr as" "list_all2 P as (insert_best btr Ts As)" "mset as = add_mset a (mset bs)"
    using Cons.IH Cons.prems by auto
  thus ?case using b assms Cons.hyps Cons.prems(1) tw by (auto simp: resetLastTabledAnswer_def)
qed (use assms in simp)

lemma repositionLast_scan:
  "bs \<noteq> [] \<Longrightarrow> List.hd bs \<noteq> a \<Longrightarrow> repositionLastTabledAnswer better a (bs @ [a]) = reposition_scan better a (bs @ [a])"
  by (cases bs) simp_all


section \<open>Adding an optimal answer, proved\<close>

lemma butlast_snoc_last: "xs \<noteq> [] \<Longrightarrow> butlast xs @ [List.last xs] = xs"
  by simp

text \<open>The worst answer is replaced: its record \<open>l\<close> gets the new arguments and moves to its place.\<close>

lemma replace_answer_ok:
  assumes t: "table_of A R (length Ts) t As" and new: "Ts \<notin> set As" and two: "2 \<le> length As"
    and g: "stands_for B = stands_for A" and l: "l = List.last (order t)" and a: "list_all2 (stands_for B) ws Ts"
    and better: "\<And>b Us. b \<in> set (butlast (order t)) \<Longrightarrow> Us \<in> set (butlast As) \<Longrightarrow> is_answer B R b Us \<Longrightarrow> better l b = Inr (btr Ts Us)"
  defines "h \<equiv> hashval_of_tabled_answer (nodes A) R (length Ts) l"
  obtains as where "repositionLastTabledAnswer better l (order t) = Inr as" "l \<in> set (chain h (achains t))" "set as = set (order t)"
    "table_of B (R(l \<mapsto> ws)) (length Ts) \<lparr>order = as, achains = push_chain (answer_hash Ts) l (unchain h l (achains t))\<rparr> (insert_best btr Ts (butlast As))"
proof -
  let ?R = "R(l \<mapsto> ws)" and ?H = "hashval_of_tabled_answer (nodes A) R (length Ts)" and ?bs = "butlast (order t)"
  have T: "list_all2 (is_answer A R) (order t) As" "distinct As" "\<forall>Us\<in>set As. length Us = length Ts" "chained ?H (achains t)"
    "content (achains t) = mset (order t)" "hcount (achains t) = length (order t)" "order t \<noteq> []" using t by (simp_all add: table_of_def)
  have lens: "length (order t) = length As" using T(1) by (rule list_all2_lengthD)
  have ord: "order t = ?bs @ [l]" using T(7) l by simp
  have "distinct (order t)" using T(1,2) by (rule table_distinct)
  hence "distinct (?bs @ [l])" using ord by metis
  hence l_bs: "l \<notin> set ?bs" "distinct ?bs" by simp_all
  have bs: "list_all2 (is_answer A R) ?bs (butlast As)" using T(1) by (rule list_all2_butlast)
  have isB: "list_all2 (is_answer B R) ?bs (butlast As)" using bs by (simp add: is_answer_def[abs_def] g)
  have upd: "is_answer B ?R b Us = is_answer B R b Us" if "b \<in> set ?bs" for b Us using that l_bs by (auto simp: is_answer_def)
  let ?P = "\<lambda>b Us. is_answer B ?R b Us \<and> (b = l \<or> b \<in> set ?bs)"
  have P: "list_all2 ?P ?bs (butlast As)"
  proof (rule list_all2_all_nthI)
    fix i assume i: "i < length ?bs"
    hence "is_answer B R (?bs ! i) (butlast As ! i)" using isB by (simp add: list_all2_conv_all_nth)
    thus "?P (?bs ! i) (butlast As ! i)" using upd nth_mem [OF i] by blast
  qed (use lens in simp)
  have Pl: "?P l Ts" using a by (simp add: is_answer_def)
  have bet: "better l b = Inr (btr Ts Us)" if "b \<in> set ?bs" "Us \<in> set (butlast As)" "?P b Us" for b Us
    using better [OF that(1,2)] that(3) upd [OF that(1)] by blast
  from reposition_scan_spec [where P = ?P and better = better and btr = btr, OF Pl P l_bs(1) bet] obtain as where
    as: "reposition_scan better l (?bs @ [l]) = Inr as" "list_all2 ?P as (insert_best btr Ts (butlast As))" "mset as = add_mset l (mset ?bs)" by blast
  have ne: "?bs \<noteq> []" using two lens by (cases "order t") auto
  have "List.hd ?bs \<noteq> l" using ne l_bs(1) by (cases ?bs) auto
  from repositionLast_scan [OF ne this] have rep: "repositionLastTabledAnswer better l (order t) = Inr as" using as(1) ord by simp
  have isas: "list_all2 (is_answer B ?R) as (insert_best btr Ts (butlast As))" using list_all2_mono [OF as(2)] by blast
  have "l \<in># content (achains t)" using T(5,7) l by simp
  hence l_ch: "l \<in> set (chain h (achains t))" using in_chain [OF T(4)] unfolding h_def by simp
  note un = unchain_ok [OF T(4) l_ch[unfolded h_def], folded h_def]
  let ?c = "unchain h l (achains t)"
  have cont: "content ?c = mset ?bs"
  proof -
    have "mset (order t) = mset (?bs @ [l])" by (rule arg_cong [OF ord])
    also have "\<dots> = add_mset l (mset ?bs)" by simp
    finally show ?thesis using un(2) T(5) by simp
  qed
  have isBR: "list_all2 (is_answer B ?R) ?bs (butlast As)" using list_all2_mono [OF P] by blast
  have lenb: "\<forall>Us\<in>set (butlast As). length Us = length Ts" using T(3) by (auto dest: in_set_butlastD)
  let ?H' = "hashval_of_tabled_answer (nodes B) ?R (length Ts)"
  have ch: "chained ?H' ?c" by (rule table_chained [OF bs lenb isBR _ un(1)]) (simp add: cont)
  have hl: "?H' l = answer_hash Ts" by (rule answer_hash_eq) (use Pl in simp_all)
  have pc1: "chained ?H' (push_chain (answer_hash Ts) l ?c)" by (rule push_chain_ok(1) [OF ch hl])
  note pc = push_chain_ok(2,3) [OF ch hl]
  have "distinct (insert_best btr Ts (butlast As))"
    using new T(2) by (auto simp: distinct_insert_best distinct_butlast dest: in_set_butlastD)
  moreover have "length as = length (order t)"
  proof -
    have "mset as = mset (l # ?bs)" using as(3) by simp
    hence "length as = length (l # ?bs)" by (rule mset_eq_length)
    thus ?thesis using T(7) by (cases "order t") simp_all
  qed
  ultimately have "table_of B ?R (length Ts) \<lparr>order = as, achains = push_chain (answer_hash Ts) l ?c\<rparr> (insert_best btr Ts (butlast As))"
    using isas pc1 pc as(3) cont lenb un(3) T(6,7) unfolding table_of_def
    by (auto simp del: fun_upd_apply)
  moreover have "set as = set (order t)"
  proof -
    have "set (order t) = set (?bs @ [l])" by (rule arg_cong [OF ord])
    also have "\<dots> = set_mset (mset as)" by (simp add: as(3))
    finally show ?thesis by simp
  qed
  ultimately show ?thesis using that [OF rep l_ch] by blast
qed


lemma list_all2_last: "list_all2 P xs ys \<Longrightarrow> xs \<noteq> [] \<Longrightarrow> P (List.last xs) (List.last ys)"
  by (induction rule: list_all2_induct) auto

lemma optimal_answer_spec:
  assumes ok: "answers_ok S" and t: "table_of (tarea S) (answers S) (length ts) t As"
    and ts: "list_all2 (numbered_in (tarea S) (answer_numbering S ts)) ts Ts" and n: "\<forall>T\<in>set Ts. size T < n"
    and o: "opt < length ts" "\<forall>Us\<in>set As. size (Us ! opt) < n" and card: "table_card \<noteq> 1" "table_card = 0 \<or> length As \<le> table_card"
    and best: "best.best_first tval opt maximize bigs arrays As" and plain: "plain bigs arrays (tval (Ts ! opt))"
  shows "answer_added S t Ts As (keep_best (better_than tval opt maximize) table_card Ts As)
    (addTableOptimalAnswer tval n ts t opt maximize table_card S)"
proof (rule new_answer_spec [OF ok t ts n])
  fix e assume "new_answer n ts t S = Inl e" "memory_error e \<or> e = Bad_access \<and> (\<exists>Us\<in>set As. clash_list clash Ts Us)"
  thus ?thesis by (simp add: addTableOptimalAnswer_def answer_added_def)
next
  fix a ws found A
  let ?B = "give_up a (length ts + 2) A" and ?R = "(answers S)(a \<mapsto> ws)" and ?btr = "better_than tval opt maximize"
  assume r: "new_answer n ts t S = Inr (a, ws, answer_hash Ts, found, A)" "found = (Ts \<in> set As)"
    and A: "area_ok A" "grows (tarea S) A" "list_all2 (stands_for A) ws Ts" "a \<notin> dom (answers S)" "below A a"
    and B: "area_ok ?B" "grows (tarea S) ?B" "stands_for ?B = stands_for A" "nodes ?B = nodes A"
  have len: "length ts = length Ts" using ts by (simp add: list_all2_lengthD)
  have T: "list_all2 (is_answer (tarea S) (answers S)) (order t) As" "\<forall>Us\<in>set As. length Us = length ts" "order t \<noteq> []"
    "hcount (achains t) = length (order t)" "distinct As" using t by (simp_all add: table_of_def)
  have lens: "length (order t) = length As" using T(1) by (rule list_all2_lengthD)
  have ord: "b \<in> dom (answers S)" if "b \<in> set (order t)" for b
    using list_all2_in_set1 [OF T(1) that] by (force simp: is_answer_def)
  have an: "a \<notin> set (order t)" using A(4) ord by blast
  have R: "?R b = answers S b" if "b \<in> set (order t)" for b using an that by auto
  let ?S' = "S\<lparr>tarea := A, answers := ?R\<rparr>"
  have ia: "is_answer A ?R a Ts" using A(3) by (simp add: is_answer_def)
  have tA: "table_of A ?R (length ts) t As" by (rule table_of_mono [OF t A(2) R])
  hence isA: "list_all2 (is_answer A ?R) (order t) As" by (simp add: table_of_def)
  have szT: "size (Ts ! opt) < n" using n o(1) len by simp
  have bet: "better_answer tval n opt maximize ?S' a b = Inr (?btr Ts Us)" if "Us \<in> set As" "is_answer A ?R b Us" for b Us
    by (rule better_answer_spec) (use ia that o T(2) len szT in simp_all)
  have belowB: "below ?B b" if "b \<in> dom (answers S)" for b using ok that grows_below [OF B(2)] by (simp add: answers_ok_def)
  have ok_B: "answers_ok (S\<lparr>tarea := ?B\<rparr>)" using B(1) belowB by (simp add: answers_ok_def)
  have same: "answer_added S t Ts As As (Inr (False, t, S\<lparr>tarea := ?B\<rparr>))"
    using ok_B B(2) table_of_mono [OF t B(2) refl] len by (simp add: answer_added_def)
  show ?thesis
  proof (cases "Ts \<in> set As")
    case True
    thus ?thesis using r same by (simp add: addTableOptimalAnswer_def keep_best_def)
  next
    case new: False
    have As: "As \<noteq> []" using lens T(3) by auto
    show ?thesis
    proof (cases "table_card = length As")
      case full: True
      let ?l = "List.last (order t)"
      have il: "is_answer A ?R ?l (List.last As)" using isA T(3) by (rule list_all2_last)
      have bl: "better_answer tval n opt maximize ?S' a ?l = Inr (?btr Ts (List.last As))" by (rule bet [OF _ il]) (use As in simp)
      have two: "2 \<le> length As" "0 < table_card" using card full As by (cases As; auto simp: Suc_le_eq)+
      note kb = best.keep_best_full [OF best As plain new full [symmetric] two(2)]
      show ?thesis
      proof (cases "?btr Ts (List.last As)")
        case False
        thus ?thesis using r new same full lens T(4) bl kb by (simp add: addTableOptimalAnswer_def Let_def)
      next
        case True
        let ?R2 = "(answers S)(?l \<mapsto> ws)" and ?S2 = "S\<lparr>tarea := ?B, answers := (answers S)(?l \<mapsto> ws)\<rparr>"
        let ?bs = "butlast (order t)"
        have t0: "table_of A (answers S) (length Ts) t As" using table_of_mono [OF t A(2) refl] len by simp
        have lO: "?l \<in> set (order t)" using T(3) by simp
        have "distinct (order t)" using T(1,5) by (rule table_distinct)
        hence "distinct (?bs @ [?l])" using T(3) by simp
        hence l_bs: "?l \<notin> set ?bs" by simp
        have il2: "is_answer ?B ?R2 ?l Ts" using A(3) by (simp add: is_answer_def B(3) del: add_2_eq_Suc')
        have bet2: "better_answer tval n opt maximize ?S2 ?l b = Inr (?btr Ts Us)"
          if "b \<in> set ?bs" "Us \<in> set (butlast As)" "is_answer ?B (answers S) b Us" for b Us
        proof (rule better_answer_spec)
          have "b \<noteq> ?l" using that(1) l_bs by auto
          thus "is_answer (tarea ?S2) (answers ?S2) b Us" using that(3) by (simp add: is_answer_def)
        qed (use il2 in_set_butlastD [OF that(2)] o T(2) len szT in simp_all)
        let ?h = "hashval_of_tabled_answer (nodes A) (answers S) (length Ts) ?l"
        have h: "hashval_of_tabled_answer (nodes A) ?R (length Ts) ?l = ?h"
          using R [OF lO] by (simp add: hashval_of_tabled_answer_def del: fun_upd_apply)
        obtain as where as: "repositionLastTabledAnswer (better_answer tval n opt maximize ?S2) ?l (order t) = Inr as"
          "?l \<in> set (chain ?h (achains t))" "set as = set (order t)"
          "table_of ?B ?R2 (length Ts) \<lparr>order = as, achains = push_chain (answer_hash Ts) ?l (unchain ?h ?l (achains t))\<rparr> (insert_best ?btr Ts (butlast As))"
          by (rule replace_answer_ok [OF t0 new two(1) B(3) refl, of ws "better_answer tval n opt maximize ?S2" ?btr])
            (use A(3) bet2 in \<open>simp_all add: B(3) del: add_2_eq_Suc'\<close>)
        have "addTableOptimalAnswer tval n ts t opt maximize table_card S =
            Inr (True, \<lparr>order = as, achains = push_chain (answer_hash Ts) ?l (unchain ?h ?l (achains t))\<rparr>, ?S2)"
          using r(1) new r(2) full lens T(4) bl True as(1,2) h len
          by (simp add: addTableOptimalAnswer_def Let_def removeAnswerFromAnswerTable_def del: add_2_eq_Suc')
        moreover have "answers_ok ?S2" using B(1) belowB ord [OF lO] by (auto simp: answers_ok_def)
        moreover have "insert_best ?btr Ts (butlast As) \<noteq> As" 
          using new by (metis insertI1 set_insert_best)
        ultimately show ?thesis using as(3,4) kb True B(2) lO by (simp add: answer_added_def del: add_2_eq_Suc')
      qed
    next
      case False
      let ?As' = "insert_best ?btr Ts As"
      have kb: "keep_best ?btr table_card Ts As = ?As'" using new card(2) False by (auto simp: keep_best_def cut_def)
      from insert_scan_spec [where P = "is_answer A ?R" and better = "better_answer tval n opt maximize ?S'" and btr = ?btr, OF ia isA bet]
      obtain as where as: "insert_scan (better_answer tval n opt maximize ?S') a (order t) = Inr as"
        "list_all2 (is_answer A ?R) as ?As'" "mset as = add_mset a (mset (order t))" by blast
      note add = chain_answer_ok [where R' = ?R, OF t[unfolded len] new an ia A(2) R as(2,3) mset_insert_best]
      have "set_mset (mset as) = insert a (set (order t))" unfolding as(3) by simp
      hence set_as: "set as = insert a (set (order t))" by simp
      have "answers_ok ?S'" using A ok grows_below [OF A(2)] by (auto simp: answers_ok_def)
      moreover have "?As' \<noteq> As" using new by (metis insertI1 set_insert_best)
      ultimately show ?thesis
        using r(1,2) new False lens T(3,4) as(1) set_as insertTabledAnswer_scan [OF T(3)] kb A(2,4) len
          add(2) add(1) [where full = True and cm = "can_malloc A"] add(1) [where full = False]
        by (auto simp: addTableOptimalAnswer_def answer_added_def Let_def expandAnswerTable_def)
    qed
  qed
qed

end
