(* ===== verification/Table_Produce.thy ===== *)
theory Table_Produce
  imports Answer_Best
begin

text \<open>
  The instruction \<open>table_produce\<close> (\<open>emu/emu_inst.h\<close>), which adds an answer to its subgoal and backtracks,
  and the invariant of the table of calls together with the answers of all of them.
\<close>

section \<open>The instruction\<close>

text \<open>The operands of \<open>table_mode\<close>: in \<open>OptArg\<close> the number of a minimised argument in the low 16 bits or
  that of a maximised one above them; in \<open>CardNTArg\<close> the limit, and bit 27 for a last argument that is
  not tabled.\<close>

record table_mode =
  CallMode :: "32 word"
  OptArg :: nat
  CardNTArg :: nat

definition opt_of :: "table_mode \<Rightarrow> (nat \<times> bool) option" where
  "opt_of md = (if OptArg md = 0 then None
     else if take_bit 16 (OptArg md) = 0 then Some (drop_bit 16 (OptArg md) - 1, True)
     else Some (OptArg md - 1, False))"

definition table_card :: "table_mode \<Rightarrow> nat" where
  "table_card md = unset_bit 27 (CardNTArg md)"

definition nt_last_arg :: "table_mode \<Rightarrow> bool" where
  "nt_last_arg md \<longleftrightarrow> table_card md \<noteq> CardNTArg md"

text \<open>The arguments of a frame, the last one replaced by the variable at the address \<open>ar_1\<close> if it is not tabled.\<close>

definition frame_args :: "table_mode \<Rightarrow> nat \<Rightarrow> hterm list \<Rightarrow> hterm list" where
  "frame_args md ar_1 ts = (if nt_last_arg md then butlast ts @ [HVar ar_1] else ts)"

definition set_answers :: "taddr \<Rightarrow> answer_word \<Rightarrow> bool \<Rightarrow> tables \<Rightarrow> tables" where
  "set_answers q aw revised S = S\<lparr>subgoals := (subgoals S)(q := map_option
     (\<lambda>g. g\<lparr>g_answer_table := aw, g_state := if revised then g_state g OR SUBGOAL_ANS_REVISED_BIT else g_state g\<rparr>) (subgoals S q))\<rparr>"

text \<open>The answer is added to the table \<open>t\<close> of the subgoal \<open>q\<close>.\<close>

definition produce_in :: "(ntree \<Rightarrow> pterm) \<Rightarrow> nat \<Rightarrow> table_mode \<Rightarrow> hterm list \<Rightarrow> taddr \<Rightarrow> tables \<Rightarrow> atable \<Rightarrow> tab_error + tables" where
  "produce_in tval n md ts q S t =
     tbind (case opt_of md of
         None \<Rightarrow> addTableAnswer n ts t S
       | Some (i, maximize) \<Rightarrow> addTableOptimalAnswer tval n ts t i maximize (table_card md) S)
       (\<lambda>(new, t, S). Inr (set_answers q (Answer_table t) new S))"

text \<open>The argument on the stack is compared with that of the only answer; \<open>hval\<close> is the term that the
  comparison sees for a term on the heap.\<close>

definition better_on_stack :: "(ntree \<Rightarrow> pterm) \<Rightarrow> (hterm \<Rightarrow> pterm) \<Rightarrow> nat \<Rightarrow> (taddr \<Rightarrow> tnode option) \<Rightarrow> bool \<Rightarrow> hterm \<Rightarrow> tab_word \<Rightarrow> tab_error + bool" where
  "better_on_stack tval hval n N maximize op1 op2 =
     tbind (tree_at n N op2) (\<lambda>T2. Inr (if maximize then ans_gt (hval op1) (tval T2) else ans_lt (hval op1) (tval T2)))"

definition produce_second :: "(ntree \<Rightarrow> pterm) \<Rightarrow> (hterm \<Rightarrow> pterm) \<Rightarrow> nat \<Rightarrow> table_mode \<Rightarrow> hterm list \<Rightarrow> taddr \<Rightarrow> tables \<Rightarrow> taddr \<Rightarrow> tab_error + tables" where
  "produce_second tval hval n md ts q S a =
     (let table = tbind (allocateAnswerTable a (length ts) S) (produce_in tval n md ts q S)
      in if table_card md \<noteq> 1 then table
         else (case opt_of md of
           None \<Rightarrow> Inr S
         | Some (i, maximize) \<Rightarrow> (case answers S a of
               None \<Rightarrow> Inl Bad_access
             | Some ws \<Rightarrow> tbind (better_on_stack tval hval n (nodes (tarea S)) maximize (ts ! i) (ws ! i)) (\<lambda>r.
                 if r then tbind (numberVarCopyAnswerArgsToTableArea n ts (start_numbering (tarea S))) (\<lambda>(ws, hcode, A).
                   Inr (set_answers q (One_answer a) True (S\<lparr>tarea := A, answers := (answers S)(a \<mapsto> ws)\<rparr>)))
                 else Inr S))))"

text \<open>\<open>ts\<close> are the arguments of the subgoal's frame. The end is a backtrack, which makes the variables free
  again.\<close>

definition table_produce :: "(ntree \<Rightarrow> pterm) \<Rightarrow> (hterm \<Rightarrow> pterm) \<Rightarrow> nat \<Rightarrow> table_mode \<Rightarrow> nat \<Rightarrow> hterm list \<Rightarrow> taddr \<Rightarrow> tables \<Rightarrow> tab_error + tables" where
  "table_produce tval hval n md ar_1 ts q S = (case subgoals S q of
       None \<Rightarrow> Inl Bad_access
     | Some g \<Rightarrow>
         let ts = frame_args md ar_1 ts
         in tbind (case g_answer_table g of
               No_answers \<Rightarrow> tbind (addFirstTableAnswer n ts S) (\<lambda>(a, S). Inr (set_answers q (One_answer a) True S))
             | One_answer a \<Rightarrow> produce_second tval hval n md ts q S a
             | Answer_table t \<Rightarrow>
                 if OptArg md = 0 \<and> table_card md = hcount (achains t) then Inr S
                 else produce_in tval n md ts q S t)
             (\<lambda>S'. Inr (UNDO_NUMBERING (tarea S) S')))"

section \<open>The answers of a subgoal\<close>

definition answers_of :: "area \<Rightarrow> (taddr \<Rightarrow> tab_word list option) \<Rightarrow> nat \<Rightarrow> nat \<Rightarrow> answer_word \<Rightarrow> ntree list list \<Rightarrow> bool" where
  "answers_of A R ar most aw As \<longleftrightarrow> (case aw of
       No_answers \<Rightarrow> As = []
     | One_answer a \<Rightarrow> (\<exists>Ts. As = [Ts] \<and> is_answer A R a Ts \<and> length Ts = ar)
     | Answer_table t \<Rightarrow> table_of A R ar t As \<and> most \<noteq> 1)"

definition records :: "answer_word \<Rightarrow> taddr set" where
  "records aw = (case aw of No_answers \<Rightarrow> {} | One_answer a \<Rightarrow> {a} | Answer_table t \<Rightarrow> set (order t))"

text \<open>The abstract operation: the first answers are kept, or the best ones.\<close>

definition keep :: "(ntree \<Rightarrow> pterm) \<Rightarrow> table_mode \<Rightarrow> ntree list \<Rightarrow> ntree list list \<Rightarrow> ntree list list" where
  "keep tval md = (case opt_of md of
       None \<Rightarrow> keep_first (table_card md)
     | Some (i, maximize) \<Rightarrow> keep_best (better_than tval i maximize) (table_card md))"

lemma answers_of_mono:
  assumes "answers_of A R ar most aw As" "grows A B" "\<And>a. a \<in> records aw \<Longrightarrow> R' a = R a"
  shows "answers_of B R' ar most aw As"
proof (cases aw)
  case (One_answer a)
  then obtain Ts where Ts: "As = [Ts]" "is_answer A R a Ts" "length Ts = ar" using assms(1) by (auto simp: answers_of_def)
  have "is_answer B R' a Ts"
    using is_answer_grows [OF assms(2) Ts(2)] assms(3) One_answer by (simp add: records_def is_answer_def)
  thus ?thesis using Ts One_answer by (simp add: answers_of_def)
next
  case (Answer_table t)
  thus ?thesis using assms table_of_mono [of A R ar t As B R'] by (simp add: answers_of_def records_def)
qed (use assms in \<open>simp add: answers_of_def\<close>)

lemma records_dom:
  assumes "answers_of A R ar most aw As" "a \<in> records aw"
  shows "a \<in> dom R"
proof (cases aw)
  case (Answer_table t)
  hence "list_all2 (is_answer A R) (order t) As" "a \<in> set (order t)" using assms by (simp_all add: answers_of_def records_def table_of_def)
  from list_all2_in_set1 [OF this] obtain Ts where "is_answer A R a Ts" by blast
  thus ?thesis by (auto simp: is_answer_def)
qed (use assms in \<open>auto simp: answers_of_def records_def is_answer_def\<close>)

text \<open>What an instruction promises for its subgoal, whose answers are \<open>As\<close> before and \<open>As'\<close> afterwards.\<close>

definition produced :: "tables \<Rightarrow> taddr \<Rightarrow> subgoal_entry \<Rightarrow> nat \<Rightarrow> nat \<Rightarrow> ntree list \<Rightarrow> ntree list list \<Rightarrow> ntree list list \<Rightarrow> tab_error + tables \<Rightarrow> bool" where
  "produced S q g ar most Ts As As' r \<longleftrightarrow> (case r of
       Inl e \<Rightarrow> memory_error e \<or> e = Bad_access \<and> (\<exists>Us\<in>set As. clash_list clash Ts Us)
     | Inr S' \<Rightarrow> answers_ok S' \<and> grows (tarea S) (tarea S') \<and> subgoal_table S' = subgoal_table S \<and>
         (\<exists>aw. subgoals S' = (subgoals S)(q \<mapsto> g\<lparr>g_answer_table := aw,
              g_state := if As' \<noteq> As then g_state g OR SUBGOAL_ANS_REVISED_BIT else g_state g\<rparr>) \<and>
            answers_of (tarea S') (answers S') ar most aw As' \<and>
            records aw \<subseteq> records (g_answer_table g) \<union> - dom (answers S)) \<and>
         (\<forall>b\<in>dom (answers S) - records (g_answer_table g). answers S' b = answers S b))"

lemma set_answers_sel [simp]:
  "tarea (set_answers q aw r S) = tarea S" "answers (set_answers q aw r S) = answers S" "subgoal_table (set_answers q aw r S) = subgoal_table S"
  "answers_ok (set_answers q aw r S) = answers_ok S"
  by (simp_all add: set_answers_def answers_ok_def)

lemma set_answers_subgoals:
  "subgoals S q = Some g \<Longrightarrow> subgoals (set_answers q aw r S) = (subgoals S)(q \<mapsto> g\<lparr>g_answer_table := aw,
     g_state := if r then g_state g OR SUBGOAL_ANS_REVISED_BIT else g_state g\<rparr>)"
  by (simp add: set_answers_def)


section \<open>The cases of the instruction, proved\<close>

lemma allocate_table_spec:
  assumes a: "is_answer (tarea S) (answers S) a Us"
  shows "(case allocateAnswerTable a (length Us) S of
      Inl e \<Rightarrow> e = Out_of_memory
    | Inr t \<Rightarrow> order t = [a] \<and> table_of (tarea S) (answers S) (length Us) t [Us])"
proof (cases "can_malloc (tarea S) ANSWERTABLE_RECORD_SIZE \<and> can_malloc (tarea S) InitAnswerTableBucketSize")
  case True
  let ?H = "hashval_of_tabled_answer (nodes (tarea S)) (answers S) (length Us)"
  let ?i = "?H a mod InitAnswerTableBucketSize"
  let ?c = "\<lparr>hsize = InitAnswerTableBucketSize, hcount = 1, buckets = (replicate InitAnswerTableBucketSize [])[?i := [a]]\<rparr>"
  have i: "?i < 7" by (simp add: InitAnswerTableBucketSize_def)
  have "chained ?H ?c"
    using i by (auto simp: chained_def chains_ok_def InitAnswerTableBucketSize_def nth_list_update)
  moreover have "content ?c = {#a#}"
    using mset_concat_update [of ?i "replicate 7 []" a] i by (simp add: content_def InitAnswerTableBucketSize_def)
  ultimately have "table_of (tarea S) (answers S) (length Us) \<lparr>order = [a], achains = ?c\<rparr> [Us]"
    using a by (simp add: table_of_def)
  thus ?thesis using True by (simp add: allocateAnswerTable_def Let_def)
qed (auto simp: allocateAnswerTable_def)

text \<open>What the comparisons of an instruction need.\<close>

definition opt_ok :: "(ntree \<Rightarrow> pterm) \<Rightarrow> bool \<Rightarrow> bool \<Rightarrow> nat \<Rightarrow> table_mode \<Rightarrow> ntree list \<Rightarrow> bool" where
  "opt_ok tval bigs arrays n md Ts \<longleftrightarrow> (case opt_of md of
       None \<Rightarrow> True
     | Some (i, maximize) \<Rightarrow> i < length Ts \<and> nground (Ts ! i) \<and> size (Ts ! i) < n \<and> plain bigs arrays (tval (Ts ! i)))"

definition kept_ok :: "(ntree \<Rightarrow> pterm) \<Rightarrow> bool \<Rightarrow> bool \<Rightarrow> nat \<Rightarrow> table_mode \<Rightarrow> ntree list list \<Rightarrow> bool" where
  "kept_ok tval bigs arrays n md As \<longleftrightarrow> (table_card md = 0 \<or> length As \<le> table_card md) \<and> (case opt_of md of
       None \<Rightarrow> True
     | Some (i, maximize) \<Rightarrow> best.best_first tval i maximize bigs arrays As \<and> (\<forall>Us\<in>set As. size (Us ! i) < n))"

lemma opt_None: "opt_of md = None \<longleftrightarrow> OptArg md = 0"
  by (auto simp: opt_of_def)

lemma produce_in_spec:
  assumes ok: "answers_ok S" and t: "table_of (tarea S) (answers S) (length ts) t As" and most: "table_card md \<noteq> 1"
    and room: "OptArg md = 0 \<longrightarrow> table_card md \<noteq> length As"
    and ts: "list_all2 (numbered_in (tarea S) (answer_numbering S ts)) ts Ts" and n: "\<forall>T\<in>set Ts. size T < n"
    and opt: "opt_ok tval bigs arrays n md Ts" "kept_ok tval bigs arrays n md As"
    and q: "subgoals S q = Some g" "set (order t) = records (g_answer_table g)"
  shows "produced S q g (length ts) (table_card md) Ts As (keep tval md Ts As) (produce_in tval n md ts q S t)"
proof -
  have len: "length ts = length Ts" using ts by (rule list_all2_lengthD)
  define r where "r = (case opt_of md of
      None \<Rightarrow> addTableAnswer n ts t S
    | Some (i, maximize) \<Rightarrow> addTableOptimalAnswer tval n ts t i maximize (table_card md) S)"
  have r: "answer_added S t Ts As (keep tval md Ts As) r"
  proof (cases "opt_of md")
    case None
    have "keep_first (table_card md) Ts As = (if Ts \<in> set As then As else As @ [Ts])"
      using opt(2) room None by (auto simp: keep_first_def cut_def kept_ok_def opt_None)
    thus ?thesis using add_answer_spec [OF ok t ts n] None by (simp add: keep_def r_def)
  next
    case (Some im)
    obtain i mx where o: "im = (i, mx)" by (cases im)
    have i: "i < length ts" "plain bigs arrays (tval (Ts ! i))" "\<forall>Us\<in>set As. size (Us ! i) < n"
      "best.best_first tval i mx bigs arrays As" "table_card md = 0 \<or> length As \<le> table_card md"
      using opt Some o len by (simp_all add: opt_ok_def kept_ok_def)
    show ?thesis
      using optimal_answer_spec [OF ok t ts n i(1,3) most i(5,4,2)] Some o by (simp add: keep_def r_def)
  qed
  have p: "produce_in tval n md ts q S t = tbind r (\<lambda>(new, t, S). Inr (set_answers q (Answer_table t) new S))"
    by (simp add: produce_in_def r_def)
  show ?thesis
  proof (cases r)
    case (Inl e)
    thus ?thesis using r p by (simp add: answer_added_def produced_def)
  next
    case (Inr x)
    obtain new t' S' where x: "r = Inr (new, t', S')" using Inr by (cases x) simp
    note a = r [unfolded x answer_added_def, simplified]
    have "subgoals S' q = Some g" using a q by simp
    from set_answers_subgoals [OF this, of "Answer_table t'" new]
    have "subgoals (set_answers q (Answer_table t') new S') = (subgoals S)(q \<mapsto> g\<lparr>g_answer_table := Answer_table t',
        g_state := if keep tval md Ts As \<noteq> As then g_state g OR SUBGOAL_ANS_REVISED_BIT else g_state g\<rparr>)" using a by simp
    moreover have "answers_of (tarea S') (answers S') (length ts) (table_card md) (Answer_table t') (keep tval md Ts As)"
      using a most len by (simp add: answers_of_def)
    moreover have "records (Answer_table t') \<subseteq> records (g_answer_table g) \<union> - dom (answers S)"
      using a q(2) by (simp add: records_def)
    ultimately show ?thesis
      using p x a q(2) by (auto simp: produced_def)
  qed
qed


lemma is_answer_numb [simp]: "is_answer (A\<lparr>numb := m\<rparr>) = is_answer A"
  by (simp add: is_answer_def[abs_def])

lemma table_of_numb [simp]: "table_of (A\<lparr>numb := m\<rparr>) = table_of A"
  by (simp add: table_of_def[abs_def])

lemma answers_of_numb [simp]: "answers_of (A\<lparr>numb := m\<rparr>) = answers_of A"
  by (simp add: answers_of_def[abs_def] cong: answer_word.case_cong)

lemma produced_UNDO:
  "produced S q g ar most Ts As As' r \<Longrightarrow> produced S q g ar most Ts As As' (tbind r (\<lambda>S'. Inr (UNDO_NUMBERING B S')))"
  by (cases r) (auto simp: produced_def UNDO_NUMBERING_def answers_ok_def)

lemma first_answer_spec:
  assumes ok: "answers_ok S" and ts: "list_all2 (numbered_in (tarea S) (answer_numbering S ts)) ts Ts" and n: "\<forall>T\<in>set Ts. size T < n"
    and q: "subgoals S q = Some g" "g_answer_table g = No_answers"
  shows "produced S q g (length ts) most Ts [] [Ts] (tbind (addFirstTableAnswer n ts S) (\<lambda>(a, S). Inr (set_answers q (One_answer a) True S)))"
proof (cases "ALLOCATE_FROM_NUMBERED_TERM_AREA (length ts + 2) (tarea S)")
  case (Inl e)
  thus ?thesis using allocate_error [OF Inl] by (auto simp: addFirstTableAnswer_def produced_def memory_error_def)
next
  case (Inr pA)
  obtain a A1 where al: "ALLOCATE_FROM_NUMBERED_TERM_AREA (length ts + 2) (tarea S) = Inr (a, A1)" using Inr by (cases pA) simp
  have okA: "area_ok (tarea S)" using ok by (simp add: answers_ok_def)
  note aa = allocate_ok [OF al okA]
  let ?A2 = "start_numbering A1"
  have A2: "area_ok ?A2" "grows (tarea S) ?A2" "below ?A2 = below A1" using aa(4,5) by (simp_all add: start_numbering_def)
  have m: "fold numberVarTermOpt ts (numb ?A2) = answer_numbering S ts" by (simp add: answer_numbering_def start_numbering_def aa(3))
  have "list_all2 (numbered_in ?A2 (fold numberVarTermOpt ts (numb ?A2))) ts Ts"
    unfolding m using list_all2_mono [OF ts] numbered_in_mono [OF _ A2(2) num_le_refl] by blast
  note copy = answer_args_copied [OF A2(1) this n]
  show ?thesis
  proof (cases "numberVarCopyAnswerArgsToTableArea n ts ?A2")
    case (Inl e)
    thus ?thesis using copy al by (simp add: addFirstTableAnswer_def produced_def)
  next
    case (Inr x)
    obtain ws h A where x: "numberVarCopyAnswerArgsToTableArea n ts ?A2 = Inr (ws, h, A)" using Inr by (cases x) simp
    have A: "area_ok A" "grows ?A2 A" "list_all2 (stands_for A) ws Ts" using copy x by simp_all
    have g: "grows (tarea S) A" using grows_trans [OF A2(2) A(2)] .
    have a0: "\<not> below (tarea S) a" using aa(4,8,10) by (auto simp: below_def grows_def)
    hence an: "a \<notin> dom (answers S)" using ok by (auto simp: answers_ok_def)
    have "below A1 a" using aa(8,9) by (simp add: below_def)
    hence bA: "below A a" using grows_below [OF A(2)] A2(3) by simp
    let ?S' = "S\<lparr>tarea := A, answers := (answers S)(a \<mapsto> ws)\<rparr>"
    have "addFirstTableAnswer n ts S = Inr (a, ?S')" using al x by (simp add: addFirstTableAnswer_def)
    moreover have "answers_ok ?S'" using A(1) bA ok grows_below [OF g] by (auto simp: answers_ok_def)
    moreover have "subgoals (set_answers q (One_answer a) True ?S') = (subgoals S)(q \<mapsto> g\<lparr>g_answer_table := One_answer a,
        g_state := g_state g OR SUBGOAL_ANS_REVISED_BIT\<rparr>)"
      using set_answers_subgoals [of ?S' q g "One_answer a" True] q(1) by simp
    moreover have "answers_of A ((answers S)(a \<mapsto> ws)) (length ts) most (One_answer a) [Ts]"
      using A(3) ts by (simp add: answers_of_def is_answer_def list_all2_lengthD)
    ultimately show ?thesis using g an by (auto simp: produced_def records_def q(2))
  qed
qed

lemma second_answer_spec:
  assumes ok: "answers_ok S" and a: "is_answer (tarea S) (answers S) a Us" "length Us = length ts"
    and ts: "list_all2 (numbered_in (tarea S) (answer_numbering S ts)) ts Ts" and n: "\<forall>T\<in>set Ts. size T < n"
    and opt: "opt_ok tval bigs arrays n md Ts" "kept_ok tval bigs arrays n md [Us]"
    and hval: "\<forall>i maximize. opt_of md = Some (i, maximize) \<longrightarrow> hval (ts ! i) = tval (Ts ! i)"
    and q: "subgoals S q = Some g" "g_answer_table g = One_answer a"
  shows "produced S q g (length ts) (table_card md) Ts [Us] (keep tval md Ts [Us]) (produce_second tval hval n md ts q S a)"
proof (cases "table_card md = 1")
  case False
  let ?al = "allocateAnswerTable a (length ts) S"
  have p: "produce_second tval hval n md ts q S a = tbind ?al (produce_in tval n md ts q S)"
    using False by (simp add: produce_second_def)
  note al = allocate_table_spec [OF a(1), unfolded a(2)]
  show ?thesis
  proof (cases ?al)
    case (Inl e)
    thus ?thesis using al p by (simp add: produced_def memory_error_def)
  next
    case (Inr t)
    hence t: "order t = [a]" "table_of (tarea S) (answers S) (length ts) t [Us]" using al by simp_all
    have "produced S q g (length ts) (table_card md) Ts [Us] (keep tval md Ts [Us]) (produce_in tval n md ts q S t)"
      by (rule produce_in_spec [OF ok t(2) False _ ts n opt q(1)]) (use t(1) q(2) False in \<open>simp_all add: records_def\<close>)
    thus ?thesis using p Inr by simp
  qed
next
  case one: True
  have len: "length ts = length Ts" using ts by (rule list_all2_lengthD)
  have aw: "answers_of (tarea S) (answers S) (length ts) (table_card md) (One_answer a) [Us]" using a by (simp add: answers_of_def)
  have rec: "records (g_answer_table g) = {a}" by (simp add: q(2) records_def)
  have sg: "(subgoals S)(q \<mapsto> g\<lparr>g_answer_table := One_answer a, g_state := g_state g\<rparr>) = subgoals S"
    using q by (cases g) (auto simp: fun_eq_iff)
  have same: "produced S q g (length ts) (table_card md) Ts [Us] [Us] (Inr S)"
  proof -
    have "subgoals S = (subgoals S)(q \<mapsto> g\<lparr>g_answer_table := One_answer a, g_state := if [Us] \<noteq> [Us] then g_state g OR SUBGOAL_ANS_REVISED_BIT else g_state g\<rparr>)"
      using sg by simp
    moreover have "records (One_answer a) \<subseteq> records (g_answer_table g) \<union> - dom (answers S)" using rec by (simp add: records_def [of "One_answer a"])
    ultimately show ?thesis unfolding produced_def sum.case using ok aw grows_refl by blast
  qed
  show ?thesis
  proof (cases "opt_of md")
    case None
    have "keep tval md Ts [Us] = [Us]" using None one by (simp add: keep_def keep_first_def cut_def)
    thus ?thesis using same None one by (simp add: produce_second_def)
  next
    case (Some im)
    obtain i mx where o: "opt_of md = Some (i, mx)" using Some by (cases im) simp
    let ?btr = "better_than tval i mx"
    have i: "i < length ts" "plain bigs arrays (tval (Ts ! i))" "plain bigs arrays (tval (Us ! i))" "size (Us ! i) < n"
      using opt o len by (auto simp: opt_ok_def kept_ok_def best.best_first_def)
    obtain vs where vs: "answers S a = Some vs" "list_all2 (stands_for (tarea S)) vs Us" using a(1) by (auto simp: is_answer_def)
    have "stands_for (tarea S) (vs ! i) (Us ! i)" using vs(2) i(1) a(2) by (simp add: list_all2_conv_all_nth)
    hence "tree_at n (nodes (tarea S)) (vs ! i) = Inr (Us ! i)" using tree_at_spec i(4) by (simp add: stands_for_def)
    hence b: "better_on_stack tval hval n (nodes (tarea S)) mx (ts ! i) (vs ! i) = Inr (?btr Ts Us)"
      using hval o by (simp add: better_on_stack_def better_than_def)
    have irr: "\<not> ?btr Ts Ts" using best.asym [of bigs arrays tval Ts i Ts mx] i(2) by blast
    have kb: "keep tval md Ts [Us] = (if ?btr Ts Us then [Ts] else [Us])"
      using o one irr by (auto simp: keep_def keep_best_def cut_def)
    show ?thesis
    proof (cases "?btr Ts Us")
      case False
      thus ?thesis using same o one vs(1) b kb by (simp add: produce_second_def)
    next
      case True
      hence ne: "Ts \<noteq> Us" using irr by auto
      let ?A0 = "start_numbering (tarea S)"
      have A0: "area_ok ?A0" "grows (tarea S) ?A0" using ok by (simp_all add: start_numbering_def answers_ok_def grows_refl)
      have m: "fold numberVarTermOpt ts (numb ?A0) = answer_numbering S ts" by (simp add: answer_numbering_def start_numbering_def)
      have "list_all2 (numbered_in ?A0 (fold numberVarTermOpt ts (numb ?A0))) ts Ts"
        unfolding m using list_all2_mono [OF ts] numbered_in_mono [OF _ A0(2) num_le_refl] by blast
      note copy = answer_args_copied [OF A0(1) this n]
      show ?thesis
      proof (cases "numberVarCopyAnswerArgsToTableArea n ts ?A0")
        case (Inl e)
        thus ?thesis using copy o one vs(1) b True by (simp add: produce_second_def produced_def)
      next
        case (Inr x)
        obtain ws h A where x: "numberVarCopyAnswerArgsToTableArea n ts ?A0 = Inr (ws, h, A)" using Inr by (cases x) simp
        have A: "area_ok A" "grows ?A0 A" "list_all2 (stands_for A) ws Ts" using copy x by simp_all
        have g: "grows (tarea S) A" using grows_trans [OF A0(2) A(2)] .
        let ?S' = "S\<lparr>tarea := A, answers := (answers S)(a \<mapsto> ws)\<rparr>"
        have "produce_second tval hval n md ts q S a = Inr (set_answers q (One_answer a) True ?S')"
          using o one vs(1) b True x by (simp add: produce_second_def)
        moreover have "answers_ok ?S'" using A(1) ok vs(1) grows_below [OF g] by (auto simp: answers_ok_def)
        moreover have "subgoals (set_answers q (One_answer a) True ?S') = (subgoals S)(q \<mapsto> g\<lparr>g_answer_table := One_answer a,
            g_state := g_state g OR SUBGOAL_ANS_REVISED_BIT\<rparr>)"
          using set_answers_subgoals [of ?S' q g "One_answer a" True] q(1) by simp
        moreover have "answers_of A ((answers S)(a \<mapsto> ws)) (length ts) (table_card md) (One_answer a) [Ts]"
          using A(3) len by (simp add: answers_of_def is_answer_def)
        ultimately show ?thesis using g rec kb True ne by (auto simp: produced_def records_def)
      qed
    qed
  qed
qed


section \<open>The instruction, proved\<close>

lemma table_produce_spec:
  assumes ok: "answers_ok S" and q: "subgoals S q = Some g"
    and as: "answers_of (tarea S) (answers S) (arity (g_sym g)) (table_card md) (g_answer_table g) As"
    and ts: "list_all2 (numbered_in (tarea S) (answer_numbering S (frame_args md ar_1 ts))) (frame_args md ar_1 ts) Ts"
    and len: "length Ts = arity (g_sym g)" and n: "\<forall>T\<in>set Ts. size T < n"
    and opt: "opt_ok tval bigs arrays n md Ts" "kept_ok tval bigs arrays n md As"
    and hval: "\<forall>i maximize. opt_of md = Some (i, maximize) \<longrightarrow> hval (frame_args md ar_1 ts ! i) = tval (Ts ! i)"
  shows "produced S q g (arity (g_sym g)) (table_card md) Ts As (keep tval md Ts As) (table_produce tval hval n md ar_1 ts q S)"
proof -
  let ?ts = "frame_args md ar_1 ts"
  have l: "length ?ts = length Ts" using ts by (rule list_all2_lengthD)
  note unf = table_produce_def q option.case Let_def
  show ?thesis
    unfolding unf
  proof (rule produced_UNDO, cases "g_answer_table g")
    case No_answers
    hence As: "As = []" using as by (simp add: answers_of_def)
    have "keep tval md Ts [] = [Ts]" by (auto simp: keep_def keep_first_def keep_best_def cut_def split: option.splits)
    thus "produced S q g (arity (g_sym g)) (table_card md) Ts As (keep tval md Ts As)
        (case g_answer_table g of
           No_answers \<Rightarrow> tbind (addFirstTableAnswer n ?ts S) (\<lambda>(a, S). Inr (set_answers q (One_answer a) True S))
         | One_answer a \<Rightarrow> produce_second tval hval n md ?ts q S a
         | Answer_table t \<Rightarrow> if OptArg md = 0 \<and> table_card md = hcount (achains t) then Inr S else produce_in tval n md ?ts q S t)"
      using first_answer_spec [OF ok ts n q No_answers] As No_answers l len by simp
  next
    case (One_answer a)
    then obtain Us where Us: "As = [Us]" "is_answer (tarea S) (answers S) a Us" "length Us = length ?ts"
      using as l len by (auto simp: answers_of_def)
    show "produced S q g (arity (g_sym g)) (table_card md) Ts As (keep tval md Ts As)
        (case g_answer_table g of
           No_answers \<Rightarrow> tbind (addFirstTableAnswer n ?ts S) (\<lambda>(a, S). Inr (set_answers q (One_answer a) True S))
         | One_answer a \<Rightarrow> produce_second tval hval n md ?ts q S a
         | Answer_table t \<Rightarrow> if OptArg md = 0 \<and> table_card md = hcount (achains t) then Inr S else produce_in tval n md ?ts q S t)"
      using second_answer_spec [OF ok Us(2,3) ts n opt(1) _ hval q One_answer] opt(2) Us(1) One_answer l len by simp
  next
    case (Answer_table t)
    hence t: "table_of (tarea S) (answers S) (length ?ts) t As" "table_card md \<noteq> 1" using as l len by (simp_all add: answers_of_def)
    have cnt: "hcount (achains t) = length As" using t(1) list_all2_lengthD unfolding table_of_def by metis
    have rec: "set (order t) = records (g_answer_table g)" by (simp add: Answer_table records_def)
    have "produced S q g (length ?ts) (table_card md) Ts As (keep tval md Ts As)
        (if OptArg md = 0 \<and> table_card md = hcount (achains t) then Inr S else produce_in tval n md ?ts q S t)"
    proof (cases "OptArg md = 0 \<and> table_card md = length As")
      case False
      have "OptArg md = 0 \<longrightarrow> table_card md \<noteq> length As" using False by blast
      from produce_in_spec [OF ok t this ts n opt q rec] show ?thesis using False unfolding cnt by (simp only: if_False)
    next
      case True
      hence kp: "keep tval md Ts As = As"
        using t(1) unfolding keep_def keep_first_def cut_def by (auto simp: opt_of_def table_of_def)
      have "subgoals S = (subgoals S)(q \<mapsto> g\<lparr>g_answer_table := Answer_table t, g_state := if As \<noteq> As then g_state g OR SUBGOAL_ANS_REVISED_BIT else g_state g\<rparr>)"
        using q Answer_table by (cases g) (auto simp: fun_eq_iff)
      moreover have "answers_of (tarea S) (answers S) (length ?ts) (table_card md) (Answer_table t) As" using t by (simp add: answers_of_def)
      moreover have "records (Answer_table t) \<subseteq> records (g_answer_table g) \<union> - dom (answers S)" by (simp add: Answer_table)
      ultimately show ?thesis
        unfolding kp produced_def using True cnt ok grows_refl by auto
    qed
    thus "produced S q g (arity (g_sym g)) (table_card md) Ts As (keep tval md Ts As)
        (case g_answer_table g of
           No_answers \<Rightarrow> tbind (addFirstTableAnswer n ?ts S) (\<lambda>(a, S). Inr (set_answers q (One_answer a) True S))
         | One_answer a \<Rightarrow> produce_second tval hval n md ?ts q S a
         | Answer_table t \<Rightarrow> if OptArg md = 0 \<and> table_card md = hcount (achains t) then Inr S else produce_in tval n md ?ts q S t)"
      using Answer_table l len by simp
  qed
qed

end
