(* ===== verification/Table_Engine.thy ===== *)
theory Table_Engine
  imports Table_Produce Terms
begin

text \<open>
  The instruction \<open>table_allocate\<close> (\<open>emu/emu_inst.h\<close>), with which a tabled call starts, the initial state
  (\<open>init_table_area\<close> in \<open>emu/table.c\<close>), and the states that calls and answers lead to.
\<close>

section \<open>The instruction\<close>

definition SUBGOAL_LOOPING_BIT :: "64 word" where "SUBGOAL_LOOPING_BIT = 0x8"
definition SUBGOAL_EVALUATED_BIT :: "64 word" where "SUBGOAL_EVALUATED_BIT = 0x4"
definition SUBGOAL_ITERATION_BIT :: "64 word" where "SUBGOAL_ITERATION_BIT = 0x2"

definition SUBGOAL_EVALUATED :: "subgoal_entry \<Rightarrow> bool" where
  "SUBGOAL_EVALUATED g \<longleftrightarrow> g_state g AND SUBGOAL_EVALUATED_BIT \<noteq> 0"

definition SET_SUBGOAL_LOOPING :: "subgoal_entry \<Rightarrow> subgoal_entry" where
  "SET_SUBGOAL_LOOPING g = (if g_state g AND SUBGOAL_LOOPING_BIT \<noteq> 0 then g
     else g\<lparr>g_state := g_state g OR SUBGOAL_LOOPING_BIT\<rparr>)"

datatype continuation = Consume_answers | Try_clauses | Consume_fail

text \<open>
  What the frame \<open>ar\<close> of a call does with its subgoal. \<open>plan\<close> is the resource limit of a call of the
  planner's predicate; the subgoal has the greatest limit it has been called with as its last argument.
\<close>

definition with_limit :: "64 word \<Rightarrow> subgoal_entry \<Rightarrow> subgoal_entry" where
  "with_limit limit g = g\<lparr>g_args := butlast (g_args g) @ [TAtm limit]\<rparr>"

definition check_plan_resource_limit :: "nat \<Rightarrow> 64 word \<Rightarrow> taddr \<Rightarrow> subgoal_entry \<Rightarrow> tab_error + (continuation \<times> subgoal_entry)" where
  "check_plan_resource_limit ar limit q g = (case List.last (g_args g) of
       TAtm old_limit \<Rightarrow>
         if INTVAL old_limit <s INTVAL limit
         then Inr (Try_clauses, (with_limit limit g)\<lparr>g_top_ar := Master ar, g_scc_elms := [], g_scc_root := q, g_state := 0\<rparr>)
         else Inr (Consume_fail, g)
     | _ \<Rightarrow> Inl Bad_access)"

definition start_subgoal :: "nat \<Rightarrow> (64 word) option \<Rightarrow> taddr \<Rightarrow> subgoal_entry \<Rightarrow> tab_error + (continuation \<times> subgoal_entry)" where
  "start_subgoal ar plan q g = (case g_top_ar g of
       Complete \<Rightarrow> (case plan of
           Some limit \<Rightarrow> check_plan_resource_limit ar limit q g
         | None \<Rightarrow> Inr (Consume_answers, g))
     | No_master \<Rightarrow>
         (let g = (case plan of Some limit \<Rightarrow> with_limit limit g | None \<Rightarrow> g)
          in Inr (Try_clauses, g\<lparr>g_top_ar := Master ar, g_state := 0\<rparr>))
     | Temp_complete \<Rightarrow> (case plan of
           Some limit \<Rightarrow> check_plan_resource_limit ar limit q g
         | None \<Rightarrow>
             if SUBGOAL_EVALUATED g then Inr (Consume_answers, g)
             else Inr (Try_clauses, g\<lparr>g_top_ar := Master ar, g_state := SUBGOAL_ITERATION_BIT OR SUBGOAL_LOOPING_BIT\<rparr>))
     | Master _ \<Rightarrow> Inr (Consume_answers, SET_SUBGOAL_LOOPING g))"

text \<open>The arguments of the frame afterwards: the last one is as before if it is not tabled.\<close>

definition restored_args :: "table_mode \<Rightarrow> hterm list \<Rightarrow> hterm list \<Rightarrow> hterm list" where
  "restored_args md ts ss = (if nt_last_arg md then butlast ss @ [List.last ts] else ss)"

definition table_allocate :: "nat \<Rightarrow> 64 word \<Rightarrow> table_mode \<Rightarrow> nat \<Rightarrow> nat \<Rightarrow> (64 word) option \<Rightarrow> hterm list \<Rightarrow> sym \<Rightarrow> tables
    \<Rightarrow> tab_error + (taddr \<times> continuation \<times> hterm list \<times> tables)" where
  "table_allocate n uw md ar ar_1 plan ts f S =
     tbind (lookupSubgoalTable n uw (frame_args md ar_1 ts) f (CallMode md) (nt_last_arg md) S) (\<lambda>(q, ss, S).
     case subgoals S q of
       None \<Rightarrow> Inl Bad_access
     | Some g \<Rightarrow> tbind (start_subgoal ar plan q g) (\<lambda>(c, g).
         Inr (q, c, restored_args md ts ss, S\<lparr>subgoals := (subgoals S)(q \<mapsto> g)\<rparr>)))"

section \<open>The initial state\<close>

definition empty_htable :: "nat \<Rightarrow> 'a htable" where
  "empty_htable sz = \<lparr>hsize = sz, hcount = 0, buckets = replicate sz []\<rparr>"

definition subgoalTableBucketSize :: nat where "subgoalTableBucketSize = 7919"

definition init_table_area :: "nat \<Rightarrow> (nat \<Rightarrow> bool) \<Rightarrow> (nat \<Rightarrow> nat option) \<Rightarrow> tables" where
  "init_table_area blocks malloc_ok nums =
     \<lparr>tarea = \<lparr>nodes = Map.empty, block = 0, area_top = 1, free_blocks = blocks, num_expansions = 1,
          gterms = empty_htable 7919, can_malloc = malloc_ok, numb = \<lparr>var_nums = nums, global_var_num = 0\<rparr>\<rparr>,
      subgoal_table = empty_htable subgoalTableBucketSize, subgoals = Map.empty, answers = Map.empty\<rparr>"

section \<open>Calls and answers\<close>

text \<open>
  A state and, for every subgoal, the answers that have been produced for it. \<open>md f\<close> has the modes of the
  predicate \<open>f\<close>, none of which is the planner's; \<open>n\<close> bounds the sizes of the terms.
\<close>

type_synonym history = "taddr \<Rightarrow> ntree list list"

inductive engine_step :: "(ntree \<Rightarrow> pterm) \<Rightarrow> bool \<Rightarrow> bool \<Rightarrow> nat \<Rightarrow> (sym \<Rightarrow> table_mode) \<Rightarrow> tables \<times> history \<Rightarrow> tables \<times> history \<Rightarrow> bool"
  for tval bigs arrays n md where
  allocate: "list_all2 (numbered_in (tarea S) (call_numbering S (frame_args (md f) ar_1 ts))) (frame_args (md f) ar_1 ts) Ts \<Longrightarrow>
     call_ok (\<lambda>f. nt_last_arg (md f)) f Ts \<Longrightarrow> \<forall>T\<in>set Ts. size T < n \<Longrightarrow>
     table_allocate n uw (md f) ar ar_1 None ts f S = Inr (q, c, ss, S') \<Longrightarrow>
     engine_step tval bigs arrays n md (S, H) (S', H)"
| produce: "subgoals S q = Some g \<Longrightarrow> f = g_sym g \<Longrightarrow>
     list_all2 (numbered_in (tarea S) (answer_numbering S (frame_args (md f) ar_1 ts))) (frame_args (md f) ar_1 ts) Ts \<Longrightarrow>
     length Ts = arity f \<Longrightarrow> \<forall>T\<in>set Ts. size T < n \<Longrightarrow> opt_ok tval bigs arrays n (md f) Ts \<Longrightarrow>
     \<forall>i maximize. opt_of (md f) = Some (i, maximize) \<longrightarrow> hval (frame_args (md f) ar_1 ts ! i) = tval (Ts ! i) \<Longrightarrow>
     table_produce tval hval n (md f) ar_1 ts q S = Inr S' \<Longrightarrow>
     engine_step tval bigs arrays n md (S, H) (S', H(q := H q @ [Ts]))"


section \<open>The invariant\<close>

definition kept :: "(ntree \<Rightarrow> pterm) \<Rightarrow> table_mode \<Rightarrow> ntree list list \<Rightarrow> ntree list list" where
  "kept tval md xs = cut (table_card md) (case opt_of md of
       None \<Rightarrow> arrivals xs
     | Some (i, maximize) \<Rightarrow> ranking (better_than tval i maximize) xs)"

definition history_ok :: "(ntree \<Rightarrow> pterm) \<Rightarrow> bool \<Rightarrow> bool \<Rightarrow> nat \<Rightarrow> table_mode \<Rightarrow> ntree list list \<Rightarrow> bool" where
  "history_ok tval bigs arrays n md xs \<longleftrightarrow> (\<forall>Ts\<in>set xs. opt_ok tval bigs arrays n md Ts)"

lemma set_cut: "set (cut k xs) \<subseteq> set xs"
  by (auto simp: cut_def dest: in_set_takeD)

lemma keep_kept:
  assumes "history_ok tval bigs arrays n md (xs @ [Ts])"
  shows "keep tval md Ts (kept tval md xs) = kept tval md (xs @ [Ts])"
proof (cases "opt_of md")
  case None
  thus ?thesis by (simp add: keep_def kept_def keep_first_arrivals)
next
  case (Some im)
  obtain i mx where o: "im = (i, mx)" by (cases im)
  have "\<forall>Us\<in>set (Ts # xs). plain bigs arrays (tval (Us ! i))" using assms Some o by (auto simp: history_ok_def opt_ok_def)
  from best.keep_best_ranking [OF this, of mx "table_card md"] show ?thesis using Some o by (simp add: keep_def kept_def)
qed

lemma kept_kept_ok:
  assumes "history_ok tval bigs arrays n md xs"
  shows "kept_ok tval bigs arrays n md (kept tval md xs)"
proof (cases "opt_of md")
  case None
  thus ?thesis by (simp add: kept_ok_def kept_def cut_def)
next
  case (Some im)
  obtain i mx where o: "im = (i, mx)" by (cases im)
  have h: "\<forall>Us\<in>set xs. plain bigs arrays (tval (Us ! i))" "\<forall>Us\<in>set xs. size (Us ! i) < n"
    using assms Some o by (auto simp: history_ok_def opt_ok_def)
  note r = best.ranking_ok [OF h(1), of mx]
  have "best.best_first tval i mx bigs arrays (kept tval md xs)"
    using best.best_first_cut [OF r [THEN conjunct1]] Some o by (simp add: kept_def)
  moreover have "size (Us ! i) < n" if "Us \<in> set (kept tval md xs)" for Us
  proof -
    have "Us \<in> set xs" using that set_cut r Some o unfolding kept_def by fastforce
    thus ?thesis using h(2) by blast
  qed
  ultimately show ?thesis using Some o by (auto simp: kept_ok_def kept_def cut_def)
qed

definition engine_ok :: "(ntree \<Rightarrow> pterm) \<Rightarrow> bool \<Rightarrow> bool \<Rightarrow> nat \<Rightarrow> (sym \<Rightarrow> table_mode) \<Rightarrow> tables \<times> history \<Rightarrow> bool" where
  "engine_ok tval bigs arrays n md SH \<longleftrightarrow> (case SH of (S, H) \<Rightarrow>
     tables_ok (\<lambda>f. nt_last_arg (md f)) S \<and> answers_ok S \<and>
     (\<forall>q g. subgoals S q = Some g \<longrightarrow>
        answers_of (tarea S) (answers S) (arity (g_sym g)) (table_card (md (g_sym g))) (g_answer_table g) (kept tval (md (g_sym g)) (H q)) \<and>
        history_ok tval bigs arrays n (md (g_sym g)) (H q)) \<and>
     (\<forall>q g p h. subgoals S q = Some g \<longrightarrow> subgoals S p = Some h \<longrightarrow> q \<noteq> p \<longrightarrow> records (g_answer_table g) \<inter> records (g_answer_table h) = {}) \<and>
     (\<forall>q. q \<notin> dom (subgoals S) \<longrightarrow> H q = []))"

lemma empty_chained: "0 < k \<Longrightarrow> chained h (empty_htable k)" "content (empty_htable k) = {#}"
  by (simp_all add: chained_def chains_ok_def empty_htable_def content_def concat_replicate_trivial)

lemma init_ok: "engine_ok tval bigs arrays n md (init_table_area blocks malloc_ok nums, \<lambda>_. [])"
  by (simp add: engine_ok_def tables_ok_def answers_ok_def area_ok_def init_table_area_def reg_def empty_chained
    subgoalTableBucketSize_def is_call_def)

text \<open>Changing what is not part of a call.\<close>

lemma same_calls:
  assumes "\<And>q. map_option (\<lambda>g. (g_sym g, g_args g)) (G' q) = map_option (\<lambda>g. (g_sym g, g_args g)) (G q)"
  shows "is_call nt A G' = is_call nt A G" "dom G' = dom G" "hashval_of_tabled_subgoal N G' = hashval_of_tabled_subgoal N G"
proof -
  have e: "(G' q = None) = (G q = None)" "\<And>g g'. G' q = Some g' \<Longrightarrow> G q = Some g \<Longrightarrow> g_sym g' = g_sym g \<and> g_args g' = g_args g" for q
    using assms [of q] by (auto simp: option.map_sel dest: arg_cong [where f = "\<lambda>x. x = None"])
  show "dom G' = dom G" using e(1) by (simp add: dom_def)
  have q: "\<exists>g'. G' q = Some g' \<and> g_sym g' = g_sym g \<and> g_args g' = g_args g" if "G q = Some g" for q g
    using e(1) [of q] e(2) [of q _ g] that by (cases "G' q") auto
  have q': "\<exists>g. G q = Some g \<and> g_sym g' = g_sym g \<and> g_args g' = g_args g" if "G' q = Some g'" for q g'
    using e(1) [of q] e(2) [of q g'] that by (cases "G q") auto
  show "is_call nt A G' = is_call nt A G"
  proof (intro ext)
    fix p f Us
    show "is_call nt A G' p f Us = is_call nt A G p f Us"
      unfolding is_call_def using q [of p] q' [of p] by metis
  qed
  show "hashval_of_tabled_subgoal N G' = hashval_of_tabled_subgoal N G"
  proof
    fix p
    show "hashval_of_tabled_subgoal N G' p = hashval_of_tabled_subgoal N G p"
    proof (cases "G p")
      case None
      thus ?thesis using e(1) [of p] by (simp add: hashval_of_tabled_subgoal_def)
    next
      case (Some g)
      then obtain g' where "G' p = Some g'" "g_sym g' = g_sym g" "g_args g' = g_args g" using q by blast
      thus ?thesis using Some by (simp add: hashval_of_tabled_subgoal_def)
    qed
  qed
qed

lemma tables_ok_same_calls:
  assumes "tables_ok nt S" "\<And>q. map_option (\<lambda>g. (g_sym g, g_args g)) (G' q) = map_option (\<lambda>g. (g_sym g, g_args g)) (subgoals S q)"
  shows "tables_ok nt (S\<lparr>subgoals := G'\<rparr>)"
  using assms(1) by (simp add: tables_ok_def same_calls [OF assms(2)])


lemma tables_ok_after:
  assumes ok: "tables_ok nt S" and g: "grows (tarea S) (tarea S')" "area_ok (tarea S')"
    and same: "subgoal_table S' = subgoal_table S"
      "\<And>q. map_option (\<lambda>g. (g_sym g, g_args g)) (subgoals S' q) = map_option (\<lambda>g. (g_sym g, g_args g)) (subgoals S q)"
  shows "tables_ok nt S'"
proof -
  have "tables_ok nt ((S\<lparr>tarea := tarea S'\<rparr>)\<lparr>subgoals := subgoals S'\<rparr>)"
    by (rule tables_ok_same_calls [OF tables_ok_grows(1) [OF ok g]]) (use same(2) in simp)
  thus ?thesis by (simp add: tables_ok_def same(1))
qed

lemma start_subgoal_fields:
  "start_subgoal ar None q g = Inr (c, g') \<Longrightarrow> g_sym g' = g_sym g \<and> g_args g' = g_args g \<and> g_answer_table g' = g_answer_table g"
  by (auto simp: start_subgoal_def SET_SUBGOAL_LOOPING_def split: master.splits if_splits)

lemma produce_preserves:
  assumes ok: "engine_ok tval bigs arrays n md (S, H)" and q: "subgoals S q = Some g" and f: "f = g_sym g"
    and hist: "opt_ok tval bigs arrays n (md f) Ts"
    and r: "produced S q g (arity f) (table_card (md f)) Ts (kept tval (md f) (H q)) (keep tval (md f) Ts (kept tval (md f) (H q))) (Inr S')"
  shows "engine_ok tval bigs arrays n md (S', H(q := H q @ [Ts]))"
proof -
  have inv: "answers_of (tarea S) (answers S) (arity (g_sym h)) (table_card (md (g_sym h))) (g_answer_table h) (kept tval (md (g_sym h)) (H p)) \<and>
      history_ok tval bigs arrays n (md (g_sym h)) (H p)" if "subgoals S p = Some h" for p h using ok that by (simp add: engine_ok_def)
  have h: "history_ok tval bigs arrays n (md f) (H q @ [Ts])" using inv [OF q] hist f by (simp add: history_ok_def)
  have keep: "keep tval (md f) Ts (kept tval (md f) (H q)) = kept tval (md f) (H q @ [Ts])" by (rule keep_kept [OF h])
  obtain aw b where S': "answers_ok S'" "grows (tarea S) (tarea S')" "subgoal_table S' = subgoal_table S"
    "subgoals S' = (subgoals S)(q \<mapsto> g\<lparr>g_answer_table := aw, g_state := b\<rparr>)"
    "answers_of (tarea S') (answers S') (arity f) (table_card (md f)) aw (kept tval (md f) (H q @ [Ts]))"
    "records aw \<subseteq> records (g_answer_table g) \<union> - dom (answers S)"
    "\<forall>b\<in>dom (answers S) - records (g_answer_table g). answers S' b = answers S b"
    using r unfolding produced_def keep sum.case by blast
  have "tables_ok (\<lambda>f. nt_last_arg (md f)) S'"
    by (rule tables_ok_after [OF _ S'(2) _ S'(3)]) (use ok S'(1) q in \<open>auto simp: engine_ok_def answers_ok_def S'(4)\<close>)
  moreover have disj: "records (g_answer_table h) \<inter> records (g_answer_table k) = {}"
    if "subgoals S p = Some h" "subgoals S p' = Some k" "p \<noteq> p'" for p h p' k using ok that unfolding engine_ok_def by auto
  have dom: "a \<in> dom (answers S)" if "subgoals S p = Some h" "a \<in> records (g_answer_table h)" for p h a
    using records_dom [OF inv [OF that(1), THEN conjunct1] that(2)] .
  have new_disj: "records aw \<inter> records (g_answer_table h) = {}" if h: "subgoals S p = Some h" "p \<noteq> q" for p h
    using S'(6) dom [OF h(1)] disj [OF q h(1) h(2) [symmetric]] by blast
  have "answers_of (tarea S') (answers S') (arity (g_sym h)) (table_card (md (g_sym h))) (g_answer_table h) (kept tval (md (g_sym h)) ((H(q := H q @ [Ts])) p)) \<and>
      history_ok tval bigs arrays n (md (g_sym h)) ((H(q := H q @ [Ts])) p)" if p: "subgoals S' p = Some h" for p h
  proof (cases "p = q")
    case True
    hence "h = g\<lparr>g_answer_table := aw, g_state := b\<rparr>" using p S'(4) by simp
    thus ?thesis using True S'(5) f \<open>history_ok tval bigs arrays n (md f) (H q @ [Ts])\<close> by simp
  next
    case False
    hence h: "subgoals S p = Some h" using p S'(4) by simp
    have "answers S' a = answers S a" if "a \<in> records (g_answer_table h)" for a
      using S'(7) dom [OF h that] disj [OF q h False [symmetric]] that by blast
    from answers_of_mono [OF inv [OF h, THEN conjunct1] S'(2) this] show ?thesis using inv [OF h] False by simp
  qed
  moreover have "records (g_answer_table h) \<inter> records (g_answer_table k) = {}"
    if hk: "subgoals S' p = Some h" "subgoals S' p' = Some k" "p \<noteq> p'" for p h p' k
  proof -
    consider "p = q" "p' \<noteq> q" | "p \<noteq> q" "p' = q" | "p \<noteq> q" "p' \<noteq> q" using hk(3) by auto
    thus ?thesis
    proof cases
      case 1
      hence "g_answer_table h = aw" "subgoals S p' = Some k" using hk S'(4) by auto
      thus ?thesis using new_disj [of p' k] 1 by simp
    next
      case 2
      hence "g_answer_table k = aw" "subgoals S p = Some h" using hk S'(4) by auto
      thus ?thesis using new_disj [of p h] 2 by (simp add: Int_commute)
    next
      case 3
      thus ?thesis using hk S'(4) disj [of p h p' k] by simp
    qed
  qed
  moreover have "\<forall>p. p \<notin> dom (subgoals S') \<longrightarrow> (H(q := H q @ [Ts])) p = []"
    using ok unfolding S'(4) engine_ok_def by auto
  ultimately show ?thesis using S'(1) unfolding engine_ok_def prod.case by blast
qed

lemma allocate_preserves:
  assumes ok: "engine_ok tval bigs arrays n md (S, H)" and f: "call_ok (\<lambda>f. nt_last_arg (md f)) f Ts"
    and r: "looked_up (\<lambda>f. nt_last_arg (md f)) S ts f mode Ts (Inr (q, ss, S1))"
    and g: "subgoals S1 q = Some g" "start_subgoal ar None q g = Inr (c, g')"
  shows "engine_ok tval bigs arrays n md (S1\<lparr>subgoals := (subgoals S1)(q \<mapsto> g')\<rparr>, H)"
proof -
  let ?nt = "\<lambda>f. nt_last_arg (md f)" and ?S' = "S1\<lparr>subgoals := (subgoals S1)(q \<mapsto> g')\<rparr>"
  note fields = start_subgoal_fields [OF g(2)]
  have S1: "tables_ok ?nt S1" "grows (tarea S) (tarea S1)" "answers S1 = answers S"
    using r unfolding looked_up_def sum.case prod.case by blast+
  have same: "\<And>p. map_option (\<lambda>g. (g_sym g, g_args g)) ((subgoals ?S') p) = map_option (\<lambda>g. (g_sym g, g_args g)) (subgoals S1 p)"
    using g(1) fields by simp
  have tab: "tables_ok ?nt ?S'" by (rule tables_ok_same_calls [OF S1(1)]) (use same in simp)
  have aok: "answers_ok ?S'" using ok S1 grows_below [OF S1(2)] by (auto simp: engine_ok_def answers_ok_def tables_ok_def)
  have old: "(q \<notin> dom (subgoals S) \<and> (\<exists>ws. subgoals S1 = (subgoals S)(q \<mapsto> InitializeSubgoalTableEntry q f ws))) \<or> subgoals S1 = subgoals S"
    using r unfolding looked_up_def sum.case prod.case by (meson)
  have entry: "(\<exists>h0. subgoals S p = Some h0 \<and> g_sym h = g_sym h0 \<and> g_answer_table h = g_answer_table h0) \<or>
      (p \<notin> dom (subgoals S) \<and> g_answer_table h = No_answers)" if "subgoals ?S' p = Some h" for p h
    using old that fields g(1) by (cases "p = q") (auto simp: InitializeSubgoalTableEntry_def)
  have H0: "p \<notin> dom (subgoals S) \<Longrightarrow> H p = []" for p using ok by (simp add: engine_ok_def)
  have inv: "answers_of (tarea S) (answers S) (arity (g_sym h)) (table_card (md (g_sym h))) (g_answer_table h) (kept tval (md (g_sym h)) (H p)) \<and>
      history_ok tval bigs arrays n (md (g_sym h)) (H p)" if "subgoals S p = Some h" for p h using ok that by (simp add: engine_ok_def)
  have kept0: "kept tval m [] = []" for m
    by (auto simp: kept_def cut_def arrivals_def ranking_def split: option.splits)
  have "answers_of (tarea ?S') (answers ?S') (arity (g_sym h)) (table_card (md (g_sym h))) (g_answer_table h) (kept tval (md (g_sym h)) (H p)) \<and>
      history_ok tval bigs arrays n (md (g_sym h)) (H p)" if "subgoals ?S' p = Some h" for p h
    using entry [OF that]
  proof
    assume "p \<notin> dom (subgoals S) \<and> g_answer_table h = No_answers"
    thus ?thesis using H0 [of p] by (simp add: answers_of_def kept0 history_ok_def)
  next
    assume "\<exists>h0. subgoals S p = Some h0 \<and> g_sym h = g_sym h0 \<and> g_answer_table h = g_answer_table h0"
    then obtain h0 where h0: "subgoals S p = Some h0" "g_sym h = g_sym h0" "g_answer_table h = g_answer_table h0" by blast
    from answers_of_mono [OF inv [OF h0(1), THEN conjunct1] S1(2) refl] show ?thesis using inv [OF h0(1)] h0 S1(3) by simp
  qed
  moreover have "records (g_answer_table h) \<inter> records (g_answer_table k) = {}"
    if hk: "subgoals ?S' p = Some h" "subgoals ?S' p' = Some k" "p \<noteq> p'" for p h p' k
  proof -
    have none: "records No_answers = {}" by (simp add: records_def)
    have d: "records (g_answer_table a) \<inter> records (g_answer_table b) = {}" if "subgoals S p = Some a" "subgoals S p' = Some b" for a b
      using ok that hk(3) unfolding engine_ok_def by auto
    show ?thesis using entry [OF hk(1)] entry [OF hk(2)] none d by (elim disjE exE conjE) simp_all
  qed
  moreover have "H p = []" if "p \<notin> dom (subgoals ?S')" for p
  proof -
    have "p \<notin> dom (subgoals S1)" using that by auto
    moreover have "dom (subgoals S) \<subseteq> dom (subgoals S1)" using old by (elim disjE conjE exE) (simp_all add: subset_insertI)
    ultimately have "p \<notin> dom (subgoals S)" by blast
    thus ?thesis by (rule H0)
  qed
  ultimately show ?thesis using tab aok unfolding engine_ok_def prod.case by blast
qed

lemma engine_step_ok:
  assumes "engine_step tval bigs arrays n md SH SH'" "engine_ok tval bigs arrays n md SH"
  shows "engine_ok tval bigs arrays n md SH'"
  using assms
proof (cases rule: engine_step.cases)
  case (allocate S f ar_1 ts Ts uw ar q c ss S' H)
  have tab: "tables_ok (\<lambda>f. nt_last_arg (md f)) S" using assms(2) allocate(1) by (simp add: engine_ok_def)
  from allocate(6) obtain ss' S1 g g' where l: "lookupSubgoalTable n uw (frame_args (md f) ar_1 ts) f (CallMode (md f)) (nt_last_arg (md f)) S = Inr (q, ss', S1)"
    "subgoals S1 q = Some g" "start_subgoal ar None q g = Inr (c, g')" "S' = S1\<lparr>subgoals := (subgoals S1)(q \<mapsto> g')\<rparr>"
    by (auto simp: table_allocate_def tbind_Inr split: option.splits)
  from lookup_spec [OF tab allocate(3,4,5), of "CallMode (md f)" uw] l(1)
  have "looked_up (\<lambda>f. nt_last_arg (md f)) S (frame_args (md f) ar_1 ts) f (CallMode (md f)) Ts (Inr (q, ss', S1))" by simp
  from allocate_preserves [OF _ allocate(4) this l(2,3)] assms(2) allocate(1,2) l(4) show ?thesis by simp
next
  case (produce S q g f ar_1 ts Ts hval S' H)
  have e: "engine_ok tval bigs arrays n md (S, H)" using assms(2) produce(1) by simp
  hence ok: "answers_ok S" and inv: "answers_of (tarea S) (answers S) (arity f) (table_card (md f)) (g_answer_table g) (kept tval (md f) (H q))"
    "history_ok tval bigs arrays n (md f) (H q)" using produce(3,4) by (auto simp: engine_ok_def)
  have "produced S q g (arity f) (table_card (md f)) Ts (kept tval (md f) (H q)) (keep tval (md f) Ts (kept tval (md f) (H q)))
      (table_produce tval hval n (md f) ar_1 ts q S)"
    using table_produce_spec [OF ok produce(3) inv(1)[unfolded produce(4)] produce(5-8)[unfolded produce(4)]
      kept_kept_ok [OF inv(2)[unfolded produce(4)]] produce(9)[unfolded produce(4)]] unfolding produce(4) .
  from produce_preserves [OF e produce(3,4,8) this[unfolded produce(10)]] show ?thesis using produce(2) by simp
qed

end
