(* ===== verification/Tabling.thy ===== *)
theory Tabling
  imports Table_Engine
begin

text \<open>
  The properties of tabling: copies of terms, their comparison, the table of calls, the tables of answers,
  the states that calls and answers lead to, and two cases in which the table of calls fails.
\<close>

section \<open>An example\<close>

text \<open>A predicate with one argument, called with an atom in the initial state.\<close>

definition example_pred :: sym where "example_pred = \<lparr>sym_addr = 8, arity = 1\<rparr>"
definition example_mode :: table_mode where "example_mode = \<lparr>CallMode = 0, OptArg = 0, CardNTArg = 0\<rparr>"
definition example_start :: tables where "example_start = init_table_area 0 (\<lambda>_. True) Map.empty"

lemma example_ok:
  "tables_ok nt example_start" "answers_ok example_start" "area_ok (tarea example_start)"
  by (simp_all add: example_start_def tables_ok_def answers_ok_def area_ok_def init_table_area_def reg_def empty_chained
    subgoalTableBucketSize_def is_call_def)

section \<open>Terms in the table area\<close>

text \<open>
  \<open>C35\<close>: A term copied into the table area, however large, is there as the tree it stands for with its
  variables numbered in the order of their occurrence, unless memory runs out; its hash code is the
  one \<open>bp_hashval\<close> computes without a copy, and a ground compound term that the table holds already is not
  copied again. Copying it back gives the same tree with new variables, all different, for the numbers.
\<close>

theorem tabled_copy_roundtrip:
  assumes "area_ok A" "numb A = \<lparr>var_nums = Map.empty, global_var_num = 0\<rparr>" "heap_term (stands_for A) t"
  shows "\<exists>T. numbered_in A (numberVarTermOpt t (numb A)) t T \<and>
    (\<forall>n>size T. copied t T A (numberVarCopyToTableArea n t A) \<and>
       (\<forall>w h g B. numberVarCopyToTableArea n t A = Inr (w, h, g, B) \<longrightarrow>
          h = bp_hashval (nodes A) t \<and>
          (\<forall>w'. stands_for A w' T \<and> nground T \<and> compound T \<longrightarrow> w = w') \<and>
          unnumbered (repr (nodes B) (reg B)) T 0 (PREPARE_UNNUMBER_TERM ptr heap)
            (unnumberVarTabledTerm n (nodes B) w (PREPARE_UNNUMBER_TERM ptr heap))))"
proof -
  let ?m = "numberVarTermOpt t (numb A)"
  have "\<exists>T. numbered (stands_for A) (var_nums ?m) t T"
    by (rule numbered_exists [OF assms(3)]) (use number_le in blast)
  then obtain T where T: "numbered_in A ?m t T" unfolding numbered_in_def by blast
  have fresh: "fresh_from T 0 \<noteq> None"
    using copy_fresh [OF _ T] assms(2) start_ok by simp
  show ?thesis
  proof (intro exI [of _ T] conjI allI impI T)
    fix n assume n: "size T < n"
    note c = copy_copied [OF assms(1) T n]
    show "copied t T A (numberVarCopyToTableArea n t A)" by (rule c)
    fix w h g B assume "numberVarCopyToTableArea n t A = Inr (w, h, g, B)"
    hence B: "area_ok B" "grows A B" "stands_for B w T" "h = nhash T" using c by (simp_all add: copied_def)
    show "h = bp_hashval (nodes A) t" using B(4) bp_hashval_numbered [OF T] by simp
    show "unnumbered (repr (nodes B) (reg B)) T 0 (PREPARE_UNNUMBER_TERM ptr heap)
        (unnumberVarTabledTerm n (nodes B) w (PREPARE_UNNUMBER_TERM ptr heap))"
      by (rule unnumber_spec [OF B(3)[unfolded stands_for_def] n slots_start fresh])
    fix w' assume w': "stands_for A w' T \<and> nground T \<and> compound T"
    have "stands_for B w' T" using grows_stands_for [OF B(2)] w' by blast
    moreover have "x \<in> reg B" if "stands_for B x T" for x
      using that w' repr_compound unfolding stands_for_def by blast
    ultimately show "w = w'" using B(1,3) unfolding area_ok_def by blast
  qed
qed

lemma tabled_copy_roundtrip_witness:
  "\<exists>T. numbered_in (tarea example_start) (numberVarTermOpt (HLst (HVar 5) (HVar 5)) (numb (tarea example_start))) (HLst (HVar 5) (HVar 5)) T \<and>
     T = NLst (NVar 0) (NVar 0) \<and>
     copied (HLst (HVar 5) (HVar 5)) T (tarea example_start) (numberVarCopyToTableArea 9 (HLst (HVar 5) (HVar 5)) (tarea example_start))"
proof -
  let ?A = "tarea example_start" and ?t = "HLst (HVar 5) (HVar 5)"
  have h: "numb ?A = \<lparr>var_nums = Map.empty, global_var_num = 0\<rparr>" "heap_term (stands_for ?A) ?t"
    by (simp_all add: example_start_def init_table_area_def)
  from tabled_copy_roundtrip [OF example_ok(3) h] obtain T where T: "numbered_in ?A (numberVarTermOpt ?t (numb ?A)) ?t T"
    "\<forall>n>size T. copied ?t T ?A (numberVarCopyToTableArea n ?t ?A)"
    by metis
  hence "T = NLst (NVar 0) (NVar 0)"
    by (simp add: numbered_in_def number_var_def example_start_def init_table_area_def)
  thus ?thesis using T by auto
qed

text \<open>
  \<open>C36\<close>: The comparison of two words of the table area decides the equality of their trees. The one for
  ground terms always does; the one for tabled terms reads outside a term exactly when it meets a list
  and an atom or an integer, or a list that begins with a list and a structure with the same hash code.
\<close>

theorem tabled_terms_identical:
  assumes "stands_for A a t" "stands_for A b u" "size t < n"
  shows "identical_numbered_gterms n (nodes A) a b = Inr (t = u) \<and>
    identicalTabledTerms n (nodes A) a b = (if clash t u then Inl Bad_access else Inr (t = u)) \<and>
    clash (NLst x y) (NAtm c) \<and> \<not> clash t t"
  using assms identical_gterms_spec identical_tabled_spec clash_irrefl unfolding stands_for_def by simp

lemma tabled_terms_identical_witness:
  "identicalTabledTerms 9 (nodes (tarea example_start)) (TNum 0) (TNum 1) = Inr False"
  using tabled_terms_identical [of "tarea example_start" "TNum 0" "NVar 0" "TNum 1" "NVar 1" 9 "NVar 0" "NVar 0" 0]
  by (simp add: stands_for_def)


section \<open>Calls\<close>

text \<open>
  \<open>C37\<close>: Looking up a tabled call with at least one argument, in a table of such calls whose last arguments, where
  they are not tabled, are still free variables (planner calls that have not been tried). In a table without two variants of a call the result is the subgoal
  with the same arguments, up to the names of variables (and to the last argument where that is not
  tabled), and a new subgoal is entered exactly when there was none; the table keeps its properties when
  it grows, the arguments left on the stack are the same terms, and the variables are free again. It is
  an error when memory runs out, when an output argument is not free, or when the comparison with a
  subgoal of the same predicate reads outside a term.
\<close>

theorem tabled_call_lookup:
  assumes "tables_ok nt S" "list_all2 (numbered_in (tarea S) (call_numbering S ts)) ts Ts" "call_ok nt f Ts"
    "\<forall>T\<in>set Ts. size T < n"
  shows "looked_up nt S ts f mode_bits Ts (lookupSubgoalTable n uw ts f mode_bits (nt f) S)"
  by (rule lookup_spec [OF assms])

lemma example_args:
  "list_all2 (numbered_in A m) [HAtm 5] [NAtm 5]" "call_ok (\<lambda>_. False) example_pred [NAtm 5]" "\<forall>T\<in>set [NAtm 5]. size T < 9"
  by (simp_all add: numbered_in_def call_ok_def example_pred_def)

lemma example_lookup:
  "\<exists>S'. lookupSubgoalTable 9 0 [HAtm 5] example_pred 0 False example_start = Inr (Addr 0 1, [HAtm 5], S') \<and>
     subgoals S' = [Addr 0 1 \<mapsto> InitializeSubgoalTableEntry (Addr 0 1) example_pred [TAtm 5]]"
  by (simp add: lookupSubgoalTable_def Let_def example_start_def init_table_area_def start_numbering_def GT_RECORD_SIZE_def
    ALLOCATE_FROM_NUMBERED_TERM_AREA_def NUMBERED_TERM_BLOCK_SIZE_def numberVarCopySubgoalArgsToTableArea_def stack_word_def
    chain_def subgoalTableBucketSize_def empty_htable_def UNDO_NUMBERING_def register_subgoal_def push_chain_def)

lemma tabled_call_lookup_witness:
  "(\<exists>S'. lookupSubgoalTable 9 0 [HAtm 5] example_pred 0 False example_start = Inr (Addr 0 1, [HAtm 5], S')) \<and>
   looked_up (\<lambda>_. False) example_start [HAtm 5] example_pred 0 [NAtm 5] (lookupSubgoalTable 9 0 [HAtm 5] example_pred 0 False example_start)"
  using example_lookup tabled_call_lookup [OF example_ok(1) example_args] by metis

section \<open>Answers\<close>

text \<open>
  \<open>C38\<close>: \<open>table_produce\<close> refines an operation on the list of the answers of its subgoal. Without an optimised
  argument, a new answer is appended unless the limit is reached; with one, it is inserted behind the
  answers that are at least as good, and the list is cut at the limit. An answer that is there already
  changes nothing. The subgoal is marked as revised exactly when the list has changed, and no other
  subgoal or answer is touched. It is an error when memory runs out, or when the comparison with
  an answer of the subgoal reads outside a term.
\<close>

theorem table_produce_refines:
  assumes "answers_ok S" "subgoals S q = Some g"
    and "answers_of (tarea S) (answers S) (arity (g_sym g)) (table_card md) (g_answer_table g) As"
    and "list_all2 (numbered_in (tarea S) (answer_numbering S (frame_args md ar_1 ts))) (frame_args md ar_1 ts) Ts"
    and "length Ts = arity (g_sym g)" "\<forall>T\<in>set Ts. size T < n"
    and "opt_ok tval bigs arrays n md Ts" "kept_ok tval bigs arrays n md As"
    and "\<forall>i maximize. opt_of md = Some (i, maximize) \<longrightarrow> hval (frame_args md ar_1 ts ! i) = tval (Ts ! i)"
  shows "produced S q g (arity (g_sym g)) (table_card md) Ts As (keep tval md Ts As) (table_produce tval hval n md ar_1 ts q S)"
  by (rule table_produce_spec [OF assms])

definition example_called :: tables where
  "example_called = example_start\<lparr>subgoals := [Addr 0 1 \<mapsto> InitializeSubgoalTableEntry (Addr 0 1) example_pred [TAtm 5]]\<rparr>"

lemma example_modes:
  "opt_of example_mode = None" "table_card example_mode = 0" "nt_last_arg example_mode = False" "frame_args example_mode a ts = ts"
  by (simp_all add: opt_of_def table_card_def nt_last_arg_def frame_args_def example_mode_def)

lemma table_produce_refines_witness:
  "produced example_called (Addr 0 1) (InitializeSubgoalTableEntry (Addr 0 1) example_pred [TAtm 5]) 1 0 [NAtm 5] [] [[NAtm 5]]
     (table_produce (\<lambda>_. nil_sym) (\<lambda>_. nil_sym) 9 example_mode 0 [HAtm 5] (Addr 0 1) example_called)"
proof -
  have "answers_ok example_called" using example_ok(2) by (simp add: example_called_def answers_ok_def)
  moreover have "keep (\<lambda>_. nil_sym) example_mode [NAtm 5] [] = [[NAtm 5]]"
    by (simp add: keep_def example_modes keep_first_def cut_def)
  ultimately show ?thesis
    using table_produce_refines [of example_called "Addr 0 1" "InitializeSubgoalTableEntry (Addr 0 1) example_pred [TAtm 5]"
        example_mode "[]" 0 "[HAtm 5]" "[NAtm 5]" 9 "\<lambda>_. nil_sym" False False "\<lambda>_. nil_sym"]
    by (simp add: example_modes example_called_def answers_of_def InitializeSubgoalTableEntry_def example_pred_def
      numbered_in_def opt_ok_def kept_ok_def)
qed

section \<open>States\<close>

text \<open>
  \<open>C39\<close>: In every state that \<open>table_allocate\<close> and \<open>table_produce\<close> lead to from the initial one, no two
  subgoals are variants, every subgoal is a call of a predicate with its arity, and its answers are,
  of all that have been produced for it: with an optimised argument the best different ones, from the
  best to the worst, as many as the limit allows; otherwise the first different ones. The calls have arguments and
  are none of a planner, and the values of an optimised argument are among those on which the order is total.
\<close>

theorem tabling_invariant:
  assumes "(engine_step tval bigs arrays n md)\<^sup>*\<^sup>* (init_table_area blocks malloc_ok nums, \<lambda>_. []) (S, H)"
  shows "(\<forall>p q f Us Vs. is_call (\<lambda>f. nt_last_arg (md f)) (tarea S) (subgoals S) p f Us \<and>
        is_call (\<lambda>f. nt_last_arg (md f)) (tarea S) (subgoals S) q f Vs \<and>
        call_key (\<lambda>f. nt_last_arg (md f)) f Us = call_key (\<lambda>f. nt_last_arg (md f)) f Vs \<longrightarrow> p = q) \<and>
    (\<forall>q g. subgoals S q = Some g \<longrightarrow>
        (\<exists>Us. is_call (\<lambda>f. nt_last_arg (md f)) (tarea S) (subgoals S) q (g_sym g) Us) \<and>
        answers_of (tarea S) (answers S) (arity (g_sym g)) (table_card (md (g_sym g))) (g_answer_table g)
          (kept tval (md (g_sym g)) (H q)))"
proof -
  have "engine_ok tval bigs arrays n md (S, H)"
    using assms by (induction rule: rtranclp_induct) (auto intro: init_ok engine_step_ok)
  hence e: "tables_ok (\<lambda>f. nt_last_arg (md f)) S"
    "\<forall>q g. subgoals S q = Some g \<longrightarrow> answers_of (tarea S) (answers S) (arity (g_sym g)) (table_card (md (g_sym g)))
      (g_answer_table g) (kept tval (md (g_sym g)) (H q))" by (simp_all add: engine_ok_def)
  show ?thesis
  proof (intro conjI allI impI)
    fix q g assume q: "subgoals S q = Some g"
    hence "q \<in> dom (subgoals S)" by blast
    then obtain f Us where c: "is_call (\<lambda>f. nt_last_arg (md f)) (tarea S) (subgoals S) q f Us" using e(1) unfolding tables_ok_def by blast
    hence "f = g_sym g" using q by (simp add: is_call_def)
    thus "\<exists>Us. is_call (\<lambda>f. nt_last_arg (md f)) (tarea S) (subgoals S) q (g_sym g) Us" using c by blast
  qed (use e in \<open>simp_all add: tables_ok_def\<close>, blast)
qed

lemma example_run:
  "\<exists>S1 S2 g. table_allocate 9 0 example_mode 100 0 None [HAtm 5] example_pred example_start = Inr (Addr 0 1, Try_clauses, [HAtm 5], S1) \<and>
     subgoals S1 (Addr 0 1) = Some g \<and> g_sym g = example_pred \<and>
     table_produce (\<lambda>_. nil_sym) (\<lambda>_. nil_sym) 9 example_mode 0 [HAtm 5] (Addr 0 1) S1 = Inr S2 \<and> subgoals S2 (Addr 0 1) \<noteq> None"
  by (simp add: table_allocate_def example_modes lookupSubgoalTable_def Let_def example_start_def init_table_area_def start_numbering_def GT_RECORD_SIZE_def
    ALLOCATE_FROM_NUMBERED_TERM_AREA_def NUMBERED_TERM_BLOCK_SIZE_def numberVarCopySubgoalArgsToTableArea_def stack_word_def
    chain_def subgoalTableBucketSize_def empty_htable_def UNDO_NUMBERING_def register_subgoal_def push_chain_def
    start_subgoal_def InitializeSubgoalTableEntry_def example_mode_def restored_args_def nt_last_arg_def table_card_def frame_args_def
    table_produce_def addFirstTableAnswer_def numberVarCopyAnswerArgsToTableArea_def set_answers_def PREPARE_NUMBER_TERM_def)

lemma tabling_invariant_witness:
  "\<exists>S H g. (engine_step (\<lambda>_. nil_sym) False False 9 (\<lambda>_. example_mode))\<^sup>*\<^sup>* (example_start, \<lambda>_. []) (S, H) \<and>
     subgoals S (Addr 0 1) = Some g \<and> H (Addr 0 1) = [[NAtm 5]] \<and>
     answers_of (tarea S) (answers S) (arity (g_sym g)) 0 (g_answer_table g) [[NAtm 5]]"
proof -
  let ?step = "engine_step (\<lambda>_. nil_sym) False False 9 (\<lambda>_. example_mode)" and ?H = "(\<lambda>_. [])(Addr 0 1 := [[NAtm 5]])"
  obtain S1 S2 g where r: "table_allocate 9 0 example_mode 100 0 None [HAtm 5] example_pred example_start = Inr (Addr 0 1, Try_clauses, [HAtm 5], S1)"
    "subgoals S1 (Addr 0 1) = Some g" "g_sym g = example_pred"
    "table_produce (\<lambda>_. nil_sym) (\<lambda>_. nil_sym) 9 example_mode 0 [HAtm 5] (Addr 0 1) S1 = Inr S2" "subgoals S2 (Addr 0 1) \<noteq> None"
    using example_run by blast
  have "?step (example_start, \<lambda>_. []) (S1, \<lambda>_. [])"
    by (rule engine_step.allocate [OF _ _ _ r(1), of "[NAtm 5]"]) (simp_all add: example_modes example_pred_def numbered_in_def call_ok_def)
  moreover have "?step (S1, \<lambda>_. []) (S2, (\<lambda>_. [])(Addr 0 1 := (\<lambda>_. []) (Addr 0 1) @ [[NAtm 5]]))"
    by (rule engine_step.produce [OF r(2) refl _ _ _ _ _ r(4)[folded r(3)]])
      (simp_all add: r(3) example_modes example_pred_def numbered_in_def opt_ok_def)
  ultimately have run: "?step\<^sup>*\<^sup>* (example_start, \<lambda>_. []) (S2, ?H)"
    by (simp add: converse_rtranclp_into_rtranclp)
  obtain g2 where g2: "subgoals S2 (Addr 0 1) = Some g2" using r(5) by blast
  have "kept (\<lambda>_. nil_sym) example_mode [[NAtm 5]] = [[NAtm 5]]" by (simp add: kept_def example_modes cut_def arrivals_def)
  hence "answers_of (tarea S2) (answers S2) (arity (g_sym g2)) 0 (g_answer_table g2) [[NAtm 5]]"
    using tabling_invariant [OF run[unfolded example_start_def], THEN conjunct2, rule_format, OF g2] by (simp add: example_modes)
  thus ?thesis using run g2 by fastforce
qed


section \<open>Calls that are lost\<close>

text \<open>
  The planner's predicate is called with a state and a resource limit, which is not compared; its
  subgoal has the limit as its last argument once it has been tried.
\<close>

definition planner_call :: "tables \<Rightarrow> tab_error + (taddr \<times> hterm list \<times> tables)" where
  "planner_call = lookupSubgoalTable 9 0 [HAtm 5, HVar 1] \<lparr>sym_addr = 8, arity = 2\<rparr> 0 True"

definition planner_start :: tables where
  "planner_start = example_start\<lparr>subgoal_table := empty_htable 1\<rparr>"

definition planner_try :: "taddr \<Rightarrow> tables \<Rightarrow> tables" where
  "planner_try q S = (case start_subgoal 100 (Some (MAKE_INT 3)) q (the (subgoals S q)) of
       Inr (c, g) \<Rightarrow> S\<lparr>subgoals := (subgoals S)(q \<mapsto> g)\<rparr>
     | Inl e \<Rightarrow> S)"

lemma bp_hsize_3: "bp_hsize 3 = 5"
  by (simp add: bp_hsize_def hashsod.simps odd_divisor_def)

lemma bp_hsize_15: "bp_hsize 15 = 17"
proof -
  have "\<forall>i\<in>set [3..<10]. odd i \<longrightarrow> 17 mod i \<noteq> (0 :: nat)" by code_simp
  moreover have "min 9 29 + 1 = (10 :: nat)" by simp
  ultimately have "\<not> odd_divisor 9 17" unfolding odd_divisor_def by metis
  thus ?thesis by (simp add: bp_hsize_def hashsod.simps)
qed


lemma example_hashes:
  "sym_hash \<lparr>sym_addr = 8, arity = k\<rparr> = 2" "atm_hash 5 = 1" "atm_hash (MAKE_INT 3) = 3" "add_hash 0 h = h"
  "take_bit 28 (add_hash 3 3) mod 17 = (11 :: nat)"
  by (simp_all add: sym_hash_def atm_hash_def HASH_BITS_def MAKE_INT_def INT_TAG_def take_bit_eq_mod add_hash_def
    MurmurHash3_x86_32_uint32_def ROTL32_def fmix_def Let_def)

lemma example_buckets: "replicate 5 [] = [[], [], [], [], []]" "replicate 1 [] = [[]]"
  "replicate 17 [] = [[], [], [], [], [], [], [], [], [], [], [], [], [], [], [], [], []]"
  by (simp_all add: numeral_eq_Suc)

lemmas example_simps = lookupSubgoalTable_def Let_def example_start_def init_table_area_def start_numbering_def GT_RECORD_SIZE_def
  ALLOCATE_FROM_NUMBERED_TERM_AREA_def NUMBERED_TERM_BLOCK_SIZE_def numberVarCopySubgoalArgsToTableArea_def stack_word_def
  chain_def empty_htable_def UNDO_NUMBERING_def register_subgoal_def push_chain_def InitializeSubgoalTableEntry_def
  PREPARE_NUMBER_TERM_def number_var_def hashval_of_tabled_subgoal_def hashval_of_numbered_term_def example_hashes

lemma example_same: "identicalTabledTerms 9 N a a = Inr True"
  by (simp add: numeral_eq_Suc)

lemma planner_calls:
  "\<exists>q ss S1 S2 q2 ss2 S3. planner_call planner_start = Inr (q, ss, S1) \<and>
     planner_call (planner_try q S1) = Inr (q, ss, S2) \<and>
     planner_call (expandSubgoalTable (planner_try q S1)) = Inr (q2, ss2, S3) \<and> q2 \<noteq> q"
  by (simp add: example_simps planner_call_def planner_start_def planner_try_def 
    start_subgoal_def with_limit_def expandSubgoalTable_def expand_def rehash_def move_def
    bp_hsize_3 bp_hsize_15 example_buckets same_call_def give_up_def pop_def example_same)

text \<open>
  \<open>C40\<close>: A call without arguments. The lookup does not compare it with the subgoals of the same predicate,
  but the address of the predicate's symbol with a word of the new record that has not been written.
  So the subgoal is found again exactly when that word happens to be the address; otherwise each call
  enters a subgoal of its own, except that a word with the tag of a list makes the code read cells that
  belong to no term once there is a subgoal of the predicate. For every table whose chains are right.
\<close>

theorem calls_without_arguments:
  assumes "subgoals_ok S" "arity f = 0"
  shows "looked_up_0 S uw f (lookupSubgoalTable n uw [] f mode_bits False S)"
  by (rule lookup_0_spec [OF assms])

lemma calls_without_arguments_witness:
  "\<exists>q S1 q2 S2. lookupSubgoalTable 9 0 [] \<lparr>sym_addr = 8, arity = 0\<rparr> 0 False example_start = Inr (q, [], S1) \<and>
     lookupSubgoalTable 9 0 [] \<lparr>sym_addr = 8, arity = 0\<rparr> 0 False S1 = Inr (q2, [], S2) \<and>
     q2 \<noteq> q \<and> subgoals S2 q \<noteq> None \<and> subgoals S2 q2 \<noteq> None"
proof -
  let ?f = "\<lparr>sym_addr = 8, arity = 0\<rparr>"
  obtain q S1 q2 S2 where r: "lookupSubgoalTable 9 0 [] ?f 0 False example_start = Inr (q, [], S1)"
    "lookupSubgoalTable 9 0 [] ?f 0 False S1 = Inr (q2, [], S2)"
    by (simp add: example_simps subgoalTableBucketSize_def same_call_def same_unwritten_def ISLIST_def LST_def)
  note step = calls_without_arguments [of _ ?f 0 9 0, unfolded looked_up_0_def, simplified]
  show ?thesis
    using r step [OF tables_ok_subgoals [OF example_ok(1)]] step [of S1] by (auto simp: r)
qed

end
