(* ===== verification/Variants.thy ===== *)
theory Variants
  imports Tabling
begin

text \<open>
  Terms up to the names of their variables (\<open>emu/table.c\<close>, \<open>emu/unify.c\<close>): the test whether two terms are
  variants, the test whether one is an instance of the other, and the lookup of a tabled call without
  copying it. All of them number the variables of one or both terms and compare. Suspended
  variables, which the comparison refuses, are not part of these terms.
\<close>

section \<open>Reading a term\<close>

text \<open>What a word is after \<open>DEREF\<close>, with the numbers \<open>v\<close> of variables: a number, an atom or an integer, a free variable, or
  a list or structure with its symbol and its arguments.\<close>

datatype hview = V_num nat | V_atm "64 word" | V_free nat | V_cmp "sym option" "hterm list" | V_bad

fun view :: "(taddr \<Rightarrow> tnode option) \<Rightarrow> (nat \<Rightarrow> nat option) \<Rightarrow> hterm \<Rightarrow> hview" where
  "view N v (HVar a) = (case v a of Some i \<Rightarrow> V_num i | None \<Rightarrow> V_free a)"
| "view N v (HAtm w) = V_atm w"
| "view N v (HLst x y) = V_cmp None [x, y]"
| "view N v (HStr f ts) = V_cmp (Some f) ts"
| "view N v (HTab w) = (case w of
       TAtm a \<Rightarrow> V_atm a
     | TNum i \<Rightarrow> V_num i
     | _ \<Rightarrow> (case node_at N w of Some x \<Rightarrow> V_cmp (n_sym x) (map stack_word (n_args x)) | None \<Rightarrow> V_bad))"

text \<open>The loop over two argument lists, with a state; it stops at the first difference.\<close>

fun match_args :: "('a \<Rightarrow> 'a \<Rightarrow> 's \<Rightarrow> tab_error + (bool \<times> 's)) \<Rightarrow> 'a list \<Rightarrow> 'a list \<Rightarrow> 's \<Rightarrow> tab_error + (bool \<times> 's)" where
  "match_args f [] [] s = Inr (True, s)"
| "match_args f (a # as) (b # bs) s = tbind (f a b s) (\<lambda>(r, s). if r then match_args f as bs s else Inr (False, s))"
| "match_args f _ _ s = Inl Bad_access"

section \<open>Comparison and variants\<close>

text \<open>A free variable of the first term gets the next number. (The code skips two identical words; that
  has no effect where variables are numbered.)\<close>

fun unifyNumberedTerms :: "nat \<Rightarrow> (taddr \<Rightarrow> tnode option) \<Rightarrow> hterm \<Rightarrow> hterm \<Rightarrow> numbering \<Rightarrow> tab_error + (bool \<times> numbering)" where
  "unifyNumberedTerms 0 N t1 t2 m = Inl Out_of_fuel"
| "unifyNumberedTerms (Suc n) N t1 t2 m = (case view N (var_nums m) t1 of
       V_free a \<Rightarrow> Inr (view N (var_nums m) t2 = V_num (global_var_num m), number_var a m)
     | V_atm a \<Rightarrow> Inr (view N (var_nums m) t2 = V_atm a, m)
     | V_num i \<Rightarrow> Inr (view N (var_nums m) t2 = V_num i, m)
     | V_cmp f ts \<Rightarrow> (case view N (var_nums m) t2 of
           V_cmp g us \<Rightarrow> if f = g then match_args (unifyNumberedTerms n N) ts us m else Inr (False, m)
         | V_bad \<Rightarrow> Inl Bad_access
         | _ \<Rightarrow> Inr (False, m))
     | V_bad \<Rightarrow> Inl Bad_access)"

definition b_VARIANT_cc :: "nat \<Rightarrow> (taddr \<Rightarrow> tnode option) \<Rightarrow> hterm \<Rightarrow> hterm \<Rightarrow> numbering \<Rightarrow> tab_error + (bool \<times> numbering)" where
  "b_VARIANT_cc n N op1 op2 m = (case (op1, op2) of
       (HAtm a, _) \<Rightarrow> Inr (op2 = HAtm a, m)
     | (_, HAtm b) \<Rightarrow> Inr (False, m)
     | _ \<Rightarrow>
         let m1 = numberVarTermOpt op1 (PREPARE_NUMBER_TERM 0 m);
             m2 = numberVarTermOpt op2 (PREPARE_NUMBER_TERM 0 m1)
         in tbind (unifyNumberedTerms n N op1 op2 m2) (\<lambda>(r, m3). Inr (r, m3\<lparr>var_nums := var_nums m\<rparr>)))"

section \<open>Instances\<close>

text \<open>A variable of the first term that is not numbered is bound to a part of the second one; \<open>b\<close> has
  these bindings.\<close>

definition view_bound :: "(taddr \<Rightarrow> tnode option) \<Rightarrow> (nat \<Rightarrow> nat option) \<Rightarrow> (nat \<Rightarrow> hterm option) \<Rightarrow> hterm \<Rightarrow> hview" where
  "view_bound N v b t = (case view N v t of
       V_free a \<Rightarrow> (case b a of Some t' \<Rightarrow> view N v t' | None \<Rightarrow> V_free a)
     | x \<Rightarrow> x)"

fun term_subsume_numberedterm :: "nat \<Rightarrow> (taddr \<Rightarrow> tnode option) \<Rightarrow> (nat \<Rightarrow> nat option) \<Rightarrow> hterm \<Rightarrow> hterm \<Rightarrow> (nat \<Rightarrow> hterm option)
    \<Rightarrow> tab_error + (bool \<times> (nat \<Rightarrow> hterm option))" where
  "term_subsume_numberedterm 0 N v t1 t2 b = Inl Out_of_fuel"
| "term_subsume_numberedterm (Suc n) N v t1 t2 b = (case view_bound N v b t1 of
       V_free a \<Rightarrow> Inr (True, b(a \<mapsto> t2))
     | V_atm a \<Rightarrow> Inr (view N v t2 = V_atm a, b)
     | V_num i \<Rightarrow> Inr (view N v t2 = V_num i, b)
     | V_cmp f ts \<Rightarrow> (case view N v t2 of
           V_cmp g us \<Rightarrow> if f = g then match_args (term_subsume_numberedterm n N v) ts us b else Inr (False, b)
         | V_bad \<Rightarrow> Inl Bad_access
         | _ \<Rightarrow> Inr (False, b))
     | V_bad \<Rightarrow> Inl Bad_access)"

definition term_subsume_term :: "nat \<Rightarrow> (taddr \<Rightarrow> tnode option) \<Rightarrow> hterm \<Rightarrow> hterm \<Rightarrow> numbering \<Rightarrow> tab_error + (bool \<times> numbering)" where
  "term_subsume_term n N op1 op2 m =
     (let m' = numberVarTermOpt op2 (PREPARE_NUMBER_TERM 0 m)
      in tbind (term_subsume_numberedterm n N (var_nums m') op1 op2 Map.empty) (\<lambda>(r, b). Inr (r, m'\<lparr>var_nums := var_nums m\<rparr>)))"

section \<open>Lookup without copying\<close>

fun find_call :: "nat \<Rightarrow> (taddr \<Rightarrow> tnode option) \<Rightarrow> (taddr \<Rightarrow> subgoal_entry option) \<Rightarrow> sym \<Rightarrow> hterm list \<Rightarrow> taddr list \<Rightarrow> numbering
    \<Rightarrow> tab_error + taddr option" where
  "find_call n N G f ts [] m = Inr None"
| "find_call n N G f ts (q # qs) m = (case G q of
       None \<Rightarrow> Inl Bad_access
     | Some g \<Rightarrow>
         if g_sym g \<noteq> f then find_call n N G f ts qs m
         else tbind (match_args (unifyNumberedTerms n N) ts (map stack_word (g_args g)) m) (\<lambda>(same, m).
           if same then Inr (Some q) else find_call n N G f ts qs m))"

text \<open>The variables are numbered argument by argument, each of which is hashed at once.\<close>

fun number_and_hash :: "(taddr \<Rightarrow> tnode option) \<Rightarrow> hterm list \<Rightarrow> numbering \<Rightarrow> nat list \<times> numbering" where
  "number_and_hash N [] m = ([], m)"
| "number_and_hash N (t # ts) m = (let (hs, m') = number_and_hash N ts (numberVarTermOpt t m) in (bp_hashval N t # hs, m'))"

definition lookupSubgoalTableNoCopy :: "nat \<Rightarrow> hterm list \<Rightarrow> sym \<Rightarrow> tables \<Rightarrow> tab_error + taddr option" where
  "lookupSubgoalTableNoCopy n ts f S =
     (let (hs, m) = number_and_hash (nodes (tarea S)) ts (PREPARE_NUMBER_TERM 0 (numb (tarea S)));
          hcode = (if ts = [] then sym_hash f else take_bit 28 (args_hash (sym_hash f) hs))
      in find_call n (nodes (tarea S)) (subgoals S) f ts (chain hcode (subgoal_table S)) m)"

section \<open>Trees, and substitutions for variables\<close>

text \<open>The tree below a word of the second term, all of whose variables are numbered.\<close>

fun is_tree :: "(taddr \<Rightarrow> tnode option) \<Rightarrow> (nat \<Rightarrow> nat option) \<Rightarrow> hterm \<Rightarrow> ntree \<Rightarrow> bool" where
  "is_tree N v t (NVar i) \<longleftrightarrow> view N v t = V_num i"
| "is_tree N v t (NAtm a) \<longleftrightarrow> view N v t = V_atm a"
| "is_tree N v t (NLst X Y) \<longleftrightarrow> (\<exists>x y. view N v t = V_cmp None [x, y] \<and> is_tree N v x X \<and> is_tree N v y Y)"
| "is_tree N v t (NStr f Ts) \<longleftrightarrow> Ts \<noteq> [] \<and> arity f = length Ts \<and> (\<exists>ts. view N v t = V_cmp (Some f) ts \<and> list_all2 (is_tree N v) ts Ts)"

text \<open>The tree \<open>T\<close> is the term \<open>t\<close> with the trees \<open>\<sigma>\<close> for its variables.\<close>

fun inst :: "(tab_word \<Rightarrow> ntree \<Rightarrow> bool) \<Rightarrow> (nat \<Rightarrow> ntree) \<Rightarrow> hterm \<Rightarrow> ntree \<Rightarrow> bool" where
  "inst S \<sigma> (HVar a) T \<longleftrightarrow> T = \<sigma> a"
| "inst S \<sigma> (HAtm w) T \<longleftrightarrow> T = NAtm w"
| "inst S \<sigma> (HLst x y) T \<longleftrightarrow> (\<exists>X Y. T = NLst X Y \<and> inst S \<sigma> x X \<and> inst S \<sigma> y Y)"
| "inst S \<sigma> (HStr f ts) T \<longleftrightarrow> ts \<noteq> [] \<and> arity f = length ts \<and> (\<exists>Ts. T = NStr f Ts \<and> list_all2 (inst S \<sigma>) ts Ts)"
| "inst S \<sigma> (HTab w) T \<longleftrightarrow> S w T \<and> nground T \<and> compound T"

lemma is_tree_compound:
  "compound T \<Longrightarrow> is_tree N v t T \<longleftrightarrow> (\<exists>ts. view N v t = V_cmp (head T) ts \<and> list_all2 (is_tree N v) ts (kids T))"
  by (cases T) (auto simp: list_all2_Cons2)

lemma is_tree_kinds:
  assumes "is_tree N v t T"
  shows "view N v t = V_num i \<longleftrightarrow> T = NVar i" "view N v t = V_atm a \<longleftrightarrow> T = NAtm a" "view N v t \<noteq> V_bad" "view N v t \<noteq> V_free b"
    "view N v t = V_cmp f ts \<longrightarrow> compound T \<and> head T = f \<and> list_all2 (is_tree N v) ts (kids T)"
proof -
  show "view N v t = V_cmp f ts \<longrightarrow> compound T \<and> head T = f \<and> list_all2 (is_tree N v) ts (kids T)"
    using assms by (cases T) (auto simp: list_all2_Cons2)
qed (use assms in \<open>cases T; auto\<close>)+

lemma compound_eq: "compound T \<Longrightarrow> compound T' \<Longrightarrow> T = T' \<longleftrightarrow> head T = head T' \<and> kids T = kids T'"
  by (cases T; cases T') auto

lemma repr_is_tree: "repr N R w T \<Longrightarrow> is_tree N v (stack_word w) T"
proof (induction T arbitrary: w)
  case (NLst X Y)
  then obtain p a b where "w = TLst p" "repr N R a X" "repr N R b Y"
    "N p = Some \<lparr>n_ground = nground (NLst X Y), n_hash = nhash (NLst X Y), n_sym = None, n_args = [a, b]\<rparr>" using repr_LstD by metis
  thus ?case using NLst.IH by (simp add: stack_word_def node_at_def)
next
  case (NStr f Ts)
  from NStr.prems obtain p ws where "w = TStr p" "list_all2 (repr N R) ws Ts" "Ts \<noteq> []" "arity f = length Ts"
    "N p = Some \<lparr>n_ground = nground (NStr f Ts), n_hash = nhash (NStr f Ts), n_sym = Some f, n_args = ws\<rparr>" by (rule repr_StrD)
  thus ?case using NStr.IH by (auto simp: stack_word_def node_at_def list_all2_conv_all_nth)
qed (simp_all add: stack_word_def)

lemma numbered_is_tree:
  assumes "numbered (repr N R) v t T"
  shows "is_tree N v t T"
  using assms
proof (induction t arbitrary: T)
  case (HStr f ts)
  thus ?case by (auto simp: list_all2_conv_all_nth)
next
  case (HTab w)
  hence "is_tree N v (stack_word w) T" "compound T" "repr N R w T" using repr_is_tree by auto
  thus ?case by (cases T) (auto simp: stack_word_def)
qed auto

lemma numbered_inst: "numbered S v t T \<Longrightarrow> \<forall>a i. v a = Some i \<longrightarrow> \<sigma> a = NVar i \<Longrightarrow> inst S \<sigma> t T"
  by (induction t arbitrary: T) (auto simp: list_all2_conv_all_nth)

lemma inst_functional:
  assumes "\<And>w T T'. S w T \<Longrightarrow> S w T' \<Longrightarrow> T = T'"
  shows "inst S \<sigma> t T \<Longrightarrow> inst S \<sigma> t T' \<Longrightarrow> T = T'"
proof (induction t arbitrary: T T')
  case (HStr f ts)
  from HStr.prems obtain Ts Ts' where Ts: "T = NStr f Ts" "list_all2 (inst S \<sigma>) ts Ts" "T' = NStr f Ts'" "list_all2 (inst S \<sigma>) ts Ts'"
    by (simp only: inst.simps) blast
  have "Ts = Ts'"
    using Ts(2,4) HStr.IH unfolding list_all2_conv_all_nth by (metis nth_equalityI nth_mem)
  thus ?case using Ts by simp
qed (use assms in auto)

text \<open>Every term that is not a variable is an atom, an integer, or compound with arguments.\<close>

lemma stack_word_tree:
  assumes "repr N R w T" "nground T"
  shows "heap_term (repr N R) (stack_word w)" "inst (repr N R) \<sigma> (stack_word w) T" "numberVarTermOpt (stack_word w) m = m" "hvars (stack_word w) = {}"
proof -
  have "stack_word w = HTab w \<and> compound T \<or> (\<exists>a. w = TAtm a \<and> T = NAtm a)"
    using assms by (cases T) (auto simp: stack_word_def)
  thus "heap_term (repr N R) (stack_word w)" "inst (repr N R) \<sigma> (stack_word w) T" "numberVarTermOpt (stack_word w) m = m" "hvars (stack_word w) = {}"
    using assms by (auto simp: stack_word_def)
qed

lemma fold_id: "\<forall>x\<in>set xs. \<forall>s. f x s = s \<Longrightarrow> fold f xs s = s"
  by (induction xs) auto

lemma term_cases:
  assumes "heap_term (repr N R) t"
  obtains (var) a where "t = HVar a"
    | (atm) a where "t = HAtm a"
    | (cmp) f ts where "\<And>v. view N v t = V_cmp f ts" "\<forall>t\<in>set ts. heap_term (repr N R) t"
        "\<And>\<sigma> T. inst (repr N R) \<sigma> t T \<longleftrightarrow> compound T \<and> head T = f \<and> list_all2 (inst (repr N R) \<sigma>) ts (kids T)"
        "\<And>m. numberVarTermOpt t m = fold numberVarTermOpt ts m" "hvars t = (\<Union>t\<in>set ts. hvars t)" "\<nexists>a. t = HVar a"
proof (cases t)
  case (HLst x y)
  show thesis
  proof (rule cmp [of None "[x, y]"])
    show "inst (repr N R) \<sigma> t T \<longleftrightarrow> compound T \<and> head T = None \<and> list_all2 (inst (repr N R) \<sigma>) [x, y] (kids T)" for \<sigma> T
      unfolding HLst by (cases T) auto
  qed (use assms HLst in auto)
next
  case (HStr f ts)
  show thesis
  proof (rule cmp [of "Some f" ts])
    show "inst (repr N R) \<sigma> t T \<longleftrightarrow> compound T \<and> head T = Some f \<and> list_all2 (inst (repr N R) \<sigma>) ts (kids T)" for \<sigma> T
      unfolding HStr using assms HStr by (cases T) (auto simp: list_all2_lengthD)
  qed (use assms HStr in auto)
next
  case (HTab w)
  then obtain T0 where T0: "repr N R w T0" "nground T0" "compound T0" using assms by auto
  then obtain p ws where p: "w = tag T0 p" "list_all2 (repr N R) ws (kids T0)" "N p = Some (node_of T0 ws)"
    unfolding repr_compound [OF T0(3)] by blast
  have g: "\<forall>X\<in>set (kids T0). nground X" using T0(2) by (cases T0) auto
  have kid: "\<exists>X\<in>set (kids T0). repr N R u X" if "u \<in> set ws" for u
    using p(2) that by (metis in_set_conv_nth list_all2_conv_all_nth)
  show thesis
  proof (rule cmp [of "head T0" "map stack_word ws"])
    show "view N v t = V_cmp (head T0) (map stack_word ws)" for v
      using p unfolding HTab by (cases T0) (simp_all add: node_at_def node_of_def)
    show "\<forall>t\<in>set (map stack_word ws). heap_term (repr N R) t"
      using kid stack_word_tree(1) g by fastforce
    have "fold numberVarTermOpt (map stack_word ws) m = m" for m
      by (rule fold_id) (use kid stack_word_tree(3) g in fastforce)
    thus "numberVarTermOpt t m = fold numberVarTermOpt (map stack_word ws) m" for m by (simp add: HTab)
    show "hvars t = (\<Union>t\<in>set (map stack_word ws). hvars t)"
      using kid stack_word_tree(4) g unfolding HTab by fastforce
    show "inst (repr N R) \<sigma> t T \<longleftrightarrow> compound T \<and> head T = head T0 \<and> list_all2 (inst (repr N R) \<sigma>) (map stack_word ws) (kids T)" for \<sigma> T
    proof -
      have k: "list_all2 (inst (repr N R) \<sigma>) (map stack_word ws) (kids T0)"
        using p(2) g stack_word_tree(2) by (auto simp: list_all2_conv_all_nth)
      have "Xs = kids T0" if "list_all2 (inst (repr N R) \<sigma>) (map stack_word ws) Xs" for Xs
        using that k inst_functional [of "repr N R" \<sigma>] repr_functional unfolding list_all2_conv_all_nth
        by (metis (no_types, lifting) nth_equalityI)
      hence "list_all2 (inst (repr N R) \<sigma>) (map stack_word ws) Xs \<longleftrightarrow> Xs = kids T0" for Xs using k by blast
      moreover have "inst (repr N R) \<sigma> t T \<longleftrightarrow> T = T0" unfolding HTab inst.simps using T0 repr_functional [OF T0(1), of R T] by blast
      moreover have "T = T0 \<longleftrightarrow> compound T \<and> head T = head T0 \<and> kids T = kids T0" using compound_eq [OF _ T0(3), of T] T0(3) by blast
      ultimately show ?thesis by simp
    qed
  qed (simp add: HTab)
next
  case (HVar a)
  thus thesis by (rule var)
next
  case (HAtm a)
  thus thesis by (rule atm)
qed


section \<open>Comparison, proved\<close>

lemma numbered_iff_inst:
  "numbered S v t T \<longleftrightarrow> hvars t \<subseteq> dom v \<and> inst S (\<lambda>a. NVar (the (v a))) t T"
proof (induction t arbitrary: T)
  case (HStr f ts)
  have "list_all2 (numbered S v) ts Ts \<longleftrightarrow> (\<Union>t\<in>set ts. hvars t) \<subseteq> dom v \<and> list_all2 (inst S (\<lambda>a. NVar (the (v a)))) ts Ts" for Ts
    using HStr.IH
  proof (induction ts arbitrary: Ts)
    case (Cons t ts)
    thus ?case by (cases Ts) auto
  qed simp
  thus ?case by auto
qed auto

lemma numbered_heap_term: "numbered S v t T \<Longrightarrow> heap_term S t"
proof (induction t arbitrary: T)
  case (HStr f ts)
  then obtain Ts where Ts: "list_all2 (numbered S v) ts Ts" "ts \<noteq> []" "arity f = length ts" by auto
  have "heap_term S t" if "t \<in> set ts" for t
    using that Ts(1) HStr.IH by (metis in_set_conv_nth list_all2_conv_all_nth)
  thus ?case using Ts by simp
qed auto

lemma is_tree_mono: "is_tree N v t T \<Longrightarrow> v \<subseteq>\<^sub>m v' \<Longrightarrow> is_tree N v' t T"
proof (induction T arbitrary: t)
  case (NVar i)
  thus ?case using map_le_Some [of v v'] by (cases t) (auto split: option.splits tab_word.splits)
next
  case (NAtm a)
  thus ?case by (cases t) (auto split: option.splits tab_word.splits)
next
  case (NLst X Y)
  then obtain x y where "view N v t = V_cmp None [x, y]" "is_tree N v x X" "is_tree N v y Y" by auto
  moreover from this have "view N v' t = V_cmp None [x, y]" by (cases t) (auto split: option.splits tab_word.splits)
  ultimately show ?case using NLst by auto
next
  case (NStr f Ts)
  then obtain ts where ts: "view N v t = V_cmp (Some f) ts" "list_all2 (is_tree N v) ts Ts" "Ts \<noteq> []" "arity f = length Ts" by auto
  moreover from ts have "view N v' t = V_cmp (Some f) ts" by (cases t) (auto split: option.splits tab_word.splits)
  moreover have "list_all2 (is_tree N v') ts Ts" using ts(2) NStr.IH NStr.prems(2) by (auto simp: list_all2_conv_all_nth)
  ultimately show ?case by auto
qed

lemma compound_length: "compound T \<Longrightarrow> compound U \<Longrightarrow> head T = head U \<Longrightarrow> length (kids T) = length (kids U)"
  by (cases T; cases U) auto

lemma kids_size: "compound T \<Longrightarrow> X \<in> set (kids T) \<Longrightarrow> size X < size T"
  using size_list_estimation' [of X "kids T" "size X" size] by (cases T) fastforce+

lemma match_numbered:
  assumes "\<And>t u X Y m. X \<in> set Xs0 \<Longrightarrow> numbered S (var_nums (numberVarTermOpt t m)) t X \<Longrightarrow> is_tree N (var_nums m) u Y \<Longrightarrow>
      \<exists>m'. f t u m = Inr (X = Y, m') \<and> (X = Y \<or> hvars t \<subseteq> dom (var_nums m) \<longrightarrow> m' = numberVarTermOpt t m)"
  shows "set Xs \<subseteq> set Xs0 \<Longrightarrow> length Xs = length Ys \<Longrightarrow> list_all2 (numbered S (var_nums (fold numberVarTermOpt ts m))) ts Xs \<Longrightarrow>
    list_all2 (is_tree N (var_nums m)) us Ys \<Longrightarrow>
    \<exists>m'. match_args f ts us m = Inr (Xs = Ys, m') \<and>
      (Xs = Ys \<or> (\<Union>t\<in>set ts. hvars t) \<subseteq> dom (var_nums m) \<longrightarrow> m' = fold numberVarTermOpt ts m)"
proof (induction ts arbitrary: us Xs Ys m)
  case (Cons t ts)
  obtain X Xs' where X: "Xs = X # Xs'" "numbered S (var_nums (fold numberVarTermOpt (t # ts) m)) t X"
    "list_all2 (numbered S (var_nums (fold numberVarTermOpt (t # ts) m))) ts Xs'" using Cons.prems(3) by (auto simp: list_all2_Cons1)
  obtain Y Ys' where Y: "Ys = Y # Ys'" using Cons.prems(2) X(1) by (cases Ys) auto
  obtain u us' where u: "us = u # us'" "is_tree N (var_nums m) u Y" "list_all2 (is_tree N (var_nums m)) us' Ys'"
    using Cons.prems(4) Y by (auto simp: list_all2_Cons2)
  let ?m = "numberVarTermOpt t m"
  have "numbered S (var_nums ?m) t X"
    by (rule numbered_restrict [OF X(2)]) (use number_le [of m t] number_args_le(1) [of ?m ts] in \<open>simp_all add: num_le_def\<close>)
  with assms [of X t m u Y] Cons.prems(1) X(1) u(2)
  obtain m' where m': "f t u m = Inr (X = Y, m')" "X = Y \<or> hvars t \<subseteq> dom (var_nums m) \<longrightarrow> m' = ?m" by auto
  show ?case
  proof (cases "X = Y")
    case True
    have "var_nums m \<subseteq>\<^sub>m var_nums ?m" using number_le [of m t] by (simp add: num_le_def)
    hence us: "list_all2 (is_tree N (var_nums ?m)) us' Ys'" using list_all2_mono [OF u(3)] is_tree_mono by blast
    obtain m'' where m'': "match_args f ts us' ?m = Inr (Xs' = Ys', m'')"
        "Xs' = Ys' \<or> (\<Union>t\<in>set ts. hvars t) \<subseteq> dom (var_nums ?m) \<longrightarrow> m'' = fold numberVarTermOpt ts ?m"
      using Cons.IH [OF _ _ _ us, of Xs'] Cons.prems(1,2) X Y by auto
    have "m'' = fold numberVarTermOpt (t # ts) m" if c: "Xs = Ys \<or> (\<Union>t\<in>set (t # ts). hvars t) \<subseteq> dom (var_nums m)"
    proof -
      have "Xs' = Ys' \<or> (\<Union>t\<in>set ts. hvars t) \<subseteq> dom (var_nums ?m)"
        using c number_same [of t m] X(1) Y True by auto
      thus ?thesis using m''(2) by simp
    qed
    moreover have "match_args f (t # ts) us m = Inr (Xs = Ys, m'')" using m' m''(1) True X(1) Y u(1) by simp
    ultimately show ?thesis by blast
  next
    case False
    have "?m = m \<and> fold numberVarTermOpt ts m = m" if "(\<Union>t\<in>set (t # ts). hvars t) \<subseteq> dom (var_nums m)"
      using that number_same [of "HStr undefined ts" m] number_same [of t m] by simp
    thus ?thesis using m' False X(1) Y u(1) by auto
  qed
qed auto

lemma unify_numbered_spec:
  "numbered (repr N R) (var_nums (numberVarTermOpt t1 m)) t1 T1 \<Longrightarrow> is_tree N (var_nums m) t2 T2 \<Longrightarrow> size T1 < n \<Longrightarrow>
    \<exists>m'. unifyNumberedTerms n N t1 t2 m = Inr (T1 = T2, m') \<and>
      (T1 = T2 \<or> hvars t1 \<subseteq> dom (var_nums m) \<longrightarrow> m' = numberVarTermOpt t1 m)"
proof (induction n arbitrary: t1 t2 T1 T2 m)
  case (Suc n)
  note k = is_tree_kinds [OF Suc.prems(2)]
  from numbered_heap_term [OF Suc.prems(1)] show ?case
  proof (cases rule: term_cases)
    case (var a)
    thus ?thesis using Suc.prems(1) k(1) by (cases "var_nums m a") (auto simp: number_var_def)
  next
    case (atm a)
    thus ?thesis using Suc.prems(1) k(2) by auto
  next
    case (cmp f ts)
    have T1: "compound T1" "head T1 = f" and n: "list_all2 (numbered (repr N R) (var_nums (fold numberVarTermOpt ts m))) ts (kids T1)"
      using Suc.prems(1) cmp(3) [of _ T1] cmp(4) [of m] cmp(5) by (simp_all add: numbered_iff_inst list_all2_conv_all_nth UN_subset_iff)
    show ?thesis
    proof (cases "\<exists>us. view N (var_nums m) t2 = V_cmp f us")
      case True
      then obtain us where us: "view N (var_nums m) t2 = V_cmp f us" by blast
      hence T2: "compound T2" "head T2 = f" "list_all2 (is_tree N (var_nums m)) us (kids T2)" using k(5) by blast+
      have "\<exists>m'. match_args (unifyNumberedTerms n N) ts us m = Inr (kids T1 = kids T2, m') \<and>
          (kids T1 = kids T2 \<or> (\<Union>t\<in>set ts. hvars t) \<subseteq> dom (var_nums m) \<longrightarrow> m' = fold numberVarTermOpt ts m)"
      proof (rule match_numbered [where Xs = "kids T1" and ?Xs0.0 = "kids T1" and S = "repr N R"])
        fix t u X Y m
        assume "X \<in> set (kids T1)" "numbered (repr N R) (var_nums (numberVarTermOpt t m)) t X" "is_tree N (var_nums m) u Y"
        thus "\<exists>m'. unifyNumberedTerms n N t u m = Inr (X = Y, m') \<and> (X = Y \<or> hvars t \<subseteq> dom (var_nums m) \<longrightarrow> m' = numberVarTermOpt t m)"
          using Suc.IH [of t m X u Y] kids_size [OF T1(1), of X] Suc.prems(3) by simp
      qed (use n T1 T2 compound_length [of T1 T2] in simp_all)
      thus ?thesis using cmp(1,4,5) us compound_eq [OF T1(1) T2(1)] T1(2) T2(2) by auto
    next
      case False
      hence "T1 \<noteq> T2" using is_tree_compound [of T2 N "var_nums m" t2] Suc.prems(2) T1 by auto
      moreover have "unifyNumberedTerms (Suc n) N t1 t2 m = Inr (False, m)"
        using cmp(1) False k(3,4) by (auto split: hview.split)
      ultimately show ?thesis using number_same by fastforce
    qed
  qed
qed simp


section \<open>Renaming\<close>

fun nvars :: "ntree \<Rightarrow> nat set" where
  "nvars (NVar i) = {i}"
| "nvars (NAtm a) = {}"
| "nvars (NLst X Y) = nvars X \<union> nvars Y"
| "nvars (NStr f Ts) = (\<Union>T\<in>set Ts. nvars T)"

fun rename :: "(nat \<Rightarrow> nat) \<Rightarrow> ntree \<Rightarrow> ntree" where
  "rename \<rho> (NVar i) = NVar (\<rho> i)"
| "rename \<rho> (NAtm a) = NAtm a"
| "rename \<rho> (NLst X Y) = NLst (rename \<rho> X) (rename \<rho> Y)"
| "rename \<rho> (NStr f Ts) = NStr f (map (rename \<rho>) Ts)"

definition variants :: "ntree \<Rightarrow> ntree \<Rightarrow> bool" where
  "variants T U \<longleftrightarrow> (\<exists>\<rho>. inj_on \<rho> (nvars T) \<and> U = rename \<rho> T)"

text \<open>The tree of a term whose variables are named by their addresses.\<close>

definition tree_of :: "area \<Rightarrow> hterm \<Rightarrow> ntree \<Rightarrow> bool" where
  "tree_of A t T \<longleftrightarrow> numbered (stands_for A) Some t T"

lemma rename_rename: "rename \<rho> (rename \<rho>' T) = rename (\<rho> \<circ> \<rho>') T"
  by (induction T) simp_all

lemma rename_cong: "\<forall>i\<in>nvars T. \<rho> i = \<rho>' i \<Longrightarrow> rename \<rho> T = rename \<rho>' T"
  by (induction T) simp_all

lemma rename_id: "\<forall>i\<in>nvars T. \<rho> i = i \<Longrightarrow> rename \<rho> T = T"
  by (induction T) (simp_all add: map_idI)

lemma nvars_rename: "nvars (rename \<rho> T) = \<rho> ` nvars T"
  by (induction T) auto

lemma nground_nvars: "nground T \<longleftrightarrow> nvars T = {}"
  by (induction T) auto

lemma nvars_numbered: "numbered S Some t T \<Longrightarrow> nvars T = hvars t"
proof (induction t arbitrary: T)
  case (HStr f ts)
  then obtain Ts where Ts: "T = NStr f Ts" "list_all2 (numbered S Some) ts Ts" by auto
  have "\<forall>i<length ts. nvars (Ts ! i) = hvars (ts ! i)" using Ts(2) HStr.IH by (simp add: list_all2_conv_all_nth)
  hence "map nvars Ts = map hvars ts" using Ts(2) by (auto simp: list_all2_conv_all_nth intro!: nth_equalityI)
  hence "nvars ` set Ts = hvars ` set ts" by (metis list.set_map)
  thus ?case using Ts(1) by simp
qed (auto simp: nground_nvars)

lemma numbered_rename:
  "numbered S Some t T \<Longrightarrow> hvars t \<subseteq> dom v \<Longrightarrow> numbered S v t (rename (\<lambda>a. the (v a)) T)"
proof (induction t arbitrary: T)
  case (HStr f ts)
  then obtain Ts where Ts: "T = NStr f Ts" "list_all2 (numbered S Some) ts Ts" "ts \<noteq> []" "arity f = length ts" by auto
  have "list_all2 (numbered S v) ts (map (rename (\<lambda>a. the (v a))) Ts)"
    using Ts(2) HStr.IH HStr.prems(2) by (auto simp: list_all2_conv_all_nth UN_subset_iff)
  thus ?case using Ts by simp
next
  case (HTab w)
  thus ?case using rename_id [of T] by (simp add: nground_nvars)
qed auto

text \<open>Two renamings of a tree that number its variables in the order of their occurrence agree.\<close>

lemma canonical_step:
  "fresh_from T k = Some j \<Longrightarrow> fresh_from (rename \<rho> T) k = Some j' \<Longrightarrow> \<forall>i<k. \<rho> i = i \<Longrightarrow> inj_on \<rho> ({..<k} \<union> nvars T) \<Longrightarrow>
    j' = j \<and> (\<forall>i<j. \<rho> i = i) \<and> nvars T \<subseteq> {..<j} \<and> {..<j} \<subseteq> {..<k} \<union> nvars T \<and> k \<le> j"
proof (induction T arbitrary: k j j')
  case (NVar i)
  show ?case
  proof (cases "i < k")
    case True
    thus ?thesis using NVar by auto
  next
    case False
    hence i: "i = k" "j = k + 1" using NVar.prems(1) by (auto split: if_splits)
    have "\<not> \<rho> k < k"
    proof
      assume l: "\<rho> k < k"
      hence "\<rho> (\<rho> k) = \<rho> k" using NVar.prems(3) by simp
      moreover have "\<rho> k \<in> {..<k} \<union> nvars (NVar i)" "k \<in> {..<k} \<union> nvars (NVar i)" using l i by simp_all
      ultimately have "\<rho> k = k" using inj_onD [OF NVar.prems(4)] by blast
      thus False using l by simp
    qed
    hence "\<rho> k = k" "j' = k + 1" using NVar.prems(2) i by (auto split: if_splits)
    thus ?thesis using i NVar.prems(3) by (auto simp: less_Suc_eq)
  qed
next
  case (NAtm a)
  thus ?case by auto
next
  case (NLst X Y)
  obtain j1 where j1: "fresh_from X k = Some j1" "fresh_from Y j1 = Some j" using NLst.prems(1) by (auto simp: bind_eq_Some_conv)
  obtain l1 where l1: "fresh_from (rename \<rho> X) k = Some l1" "fresh_from (rename \<rho> Y) l1 = Some j'"
    using NLst.prems(2) by (auto simp: bind_eq_Some_conv)
  have x: "l1 = j1" "\<forall>i<j1. \<rho> i = i" "nvars X \<subseteq> {..<j1}" "{..<j1} \<subseteq> {..<k} \<union> nvars X" "k \<le> j1"
    using NLst.IH(1) [OF j1(1) l1(1) NLst.prems(3)] inj_on_subset [OF NLst.prems(4), of "{..<k} \<union> nvars X"] by auto
  have "inj_on \<rho> ({..<j1} \<union> nvars Y)" by (rule inj_on_subset [OF NLst.prems(4)]) (use x(4) in auto)
  note y = NLst.IH(2) [OF j1(2) l1(2)[unfolded x(1)] x(2) this]
  have y4: "{..<j} \<subseteq> {..<j1} \<union> nvars Y" and le: "j1 \<le> j" using y by blast+
  have "nvars X \<subseteq> {..<j}" by (rule subset_trans [OF x(3)]) (use le in simp)
  moreover have "{..<j} \<subseteq> {..<k} \<union> (nvars X \<union> nvars Y)" using y4 x(4) by blast
  ultimately show ?case using y le x(5) by simp
next
  case (NStr f Ts)
  have "fold (\<lambda>t r. Option.bind r (fresh_from t)) Ts (Some k) = Some j \<Longrightarrow>
    fold (\<lambda>t r. Option.bind r (fresh_from t)) (map (rename \<rho>) Ts) (Some k) = Some j' \<Longrightarrow>
    \<forall>i<k. \<rho> i = i \<Longrightarrow> inj_on \<rho> ({..<k} \<union> (\<Union>T\<in>set Ts. nvars T)) \<Longrightarrow>
    j' = j \<and> (\<forall>i<j. \<rho> i = i) \<and> (\<Union>T\<in>set Ts. nvars T) \<subseteq> {..<j} \<and> {..<j} \<subseteq> {..<k} \<union> (\<Union>T\<in>set Ts. nvars T) \<and> k \<le> j"
    using NStr.IH
  proof (induction Ts arbitrary: k)
    case Nil
    thus ?case by auto
  next
    case (Cons T Ts)
    obtain j1 where j1: "fresh_from T k = Some j1" "fold (\<lambda>t r. Option.bind r (fresh_from t)) Ts (Some j1) = Some j"
      using Cons.prems(1) fold_bind_None [of fresh_from Ts] by (cases "fresh_from T k") auto
    obtain l1 where l1: "fresh_from (rename \<rho> T) k = Some l1"
      "fold (\<lambda>t r. Option.bind r (fresh_from t)) (map (rename \<rho>) Ts) (Some l1) = Some j'"
      using Cons.prems(2) fold_bind_None [of fresh_from "map (rename \<rho>) Ts"] by (cases "fresh_from (rename \<rho> T) k") auto
    have x: "l1 = j1" "\<forall>i<j1. \<rho> i = i" "nvars T \<subseteq> {..<j1}" "{..<j1} \<subseteq> {..<k} \<union> nvars T" "k \<le> j1"
      using Cons.prems(5) [OF _ j1(1) l1(1) Cons.prems(3)] inj_on_subset [OF Cons.prems(4), of "{..<k} \<union> nvars T"] by auto
    have inj: "inj_on \<rho> ({..<j1} \<union> (\<Union>T\<in>set Ts. nvars T))" by (rule inj_on_subset [OF Cons.prems(4)]) (use x(4) in auto)
    have y: "j' = j \<and> (\<forall>i<j. \<rho> i = i) \<and> (\<Union>T\<in>set Ts. nvars T) \<subseteq> {..<j} \<and> {..<j} \<subseteq> {..<j1} \<union> (\<Union>T\<in>set Ts. nvars T) \<and> j1 \<le> j"
      by (rule Cons.IH [OF j1(2) l1(2)[unfolded x(1)] x(2) inj]) (rule Cons.prems(5); simp)
    have y4: "{..<j} \<subseteq> {..<j1} \<union> (\<Union>T\<in>set Ts. nvars T)" and le: "j1 \<le> j" using y by blast+
    have "nvars T \<subseteq> {..<j}" by (rule subset_trans [OF x(3)]) (use le in simp)
    moreover have "{..<j} \<subseteq> {..<k} \<union> (nvars T \<union> (\<Union>T\<in>set Ts. nvars T))" using y4 x(4) by blast
    ultimately show ?case using y le x(5) by simp
  qed
  thus ?case using NStr.prems by simp
qed

lemma canonical_unique:
  assumes "fresh_from T 0 \<noteq> None" "fresh_from (rename \<rho> T) 0 \<noteq> None" "inj_on \<rho> (nvars T)"
  shows "rename \<rho> T = T"
proof -
  obtain j j' where j: "fresh_from T 0 = Some j" "fresh_from (rename \<rho> T) 0 = Some j'" using assms by blast
  have "(\<forall>i<j. \<rho> i = i) \<and> nvars T \<subseteq> {..<j}" using canonical_step [OF j] assms(3) by simp
  thus ?thesis by (intro rename_id) auto
qed

lemma variants_numbered:
  assumes "inj_on \<rho> (nvars T)" "inj_on \<rho>' (nvars U)"
    and "fresh_from (rename \<rho> T) 0 \<noteq> None" "fresh_from (rename \<rho>' U) 0 \<noteq> None"
  shows "rename \<rho> T = rename \<rho>' U \<longleftrightarrow> variants T U"
proof
  assume eq: "rename \<rho> T = rename \<rho>' U"
  let ?\<tau> = "inv_into (nvars U) \<rho>' \<circ> \<rho>"
  have img: "\<rho> ` nvars T = \<rho>' ` nvars U" using eq by (metis nvars_rename)
  have "rename ?\<tau> T = rename (inv_into (nvars U) \<rho>' \<circ> \<rho>') U"
    using eq by (metis rename_rename)
  also have "\<dots> = U" by (rule rename_id) (use assms(2) in simp)
  finally have "U = rename ?\<tau> T" ..
  moreover have "inj_on ?\<tau> (nvars T)"
    by (rule comp_inj_on [OF assms(1)]) (simp add: img inj_on_inv_into)
  ultimately show "variants T U" unfolding variants_def by blast
next
  assume "variants T U"
  then obtain \<tau> where t: "inj_on \<tau> (nvars T)" "U = rename \<tau> T" unfolding variants_def by blast
  let ?\<phi> = "\<rho>' \<circ> \<tau> \<circ> inv_into (nvars T) \<rho>"
  have "rename ?\<phi> (rename \<rho> T) = rename (\<rho>' \<circ> \<tau> \<circ> (inv_into (nvars T) \<rho> \<circ> \<rho>)) T" by (simp add: rename_rename comp_assoc)
  also have "\<dots> = rename (\<rho>' \<circ> \<tau>) T" by (rule rename_cong) (use assms(1) in simp)
  also have "\<dots> = rename \<rho>' U" using t(2) by (simp add: rename_rename)
  finally have e: "rename ?\<phi> (rename \<rho> T) = rename \<rho>' U" .
  have "inj_on ?\<phi> (nvars (rename \<rho> T))"
  proof (rule comp_inj_on)
    show "inj_on (inv_into (nvars T) \<rho>) (nvars (rename \<rho> T))" by (simp add: nvars_rename inj_on_inv_into)
    have "inv_into (nvars T) \<rho> ` nvars (rename \<rho> T) = nvars T" using assms(1) by (simp add: nvars_rename)
    thus "inj_on (\<rho>' \<circ> \<tau>) (inv_into (nvars T) \<rho> ` nvars (rename \<rho> T))"
      using comp_inj_on [OF t(1), of \<rho>'] assms(2) t(2) by (simp add: nvars_rename)
  qed
  from canonical_unique [OF assms(3) _ this] show "rename \<rho> T = rename \<rho>' U" using e assms(4) by simp
qed

section \<open>The test for variants, proved\<close>

lemma number_cong:
  "\<forall>a\<in>X. var_nums m a = var_nums m' a \<Longrightarrow> global_var_num m = global_var_num m' \<Longrightarrow> hvars t \<subseteq> X \<Longrightarrow>
    (\<forall>a\<in>X. var_nums (numberVarTermOpt t m) a = var_nums (numberVarTermOpt t m') a) \<and>
    global_var_num (numberVarTermOpt t m) = global_var_num (numberVarTermOpt t m')"
proof (induction t arbitrary: m m')
  case (HVar a)
  thus ?case by (auto simp: number_var_def)
next
  case (HLst x y)
  show ?case using HLst.IH(1) [OF HLst.prems(1,2)] HLst.IH(2) [of "numberVarTermOpt x m" "numberVarTermOpt x m'"] HLst.prems(3) by simp
next
  case (HStr f ts)
  have "(\<forall>a\<in>X. var_nums (fold numberVarTermOpt ts m) a = var_nums (fold numberVarTermOpt ts m') a) \<and>
    global_var_num (fold numberVarTermOpt ts m) = global_var_num (fold numberVarTermOpt ts m')"
    using HStr.IH HStr.prems
  proof (induction ts arbitrary: m m')
    case (Cons t ts)
    thus ?case using Cons.prems(1) [of t m m'] by simp
  qed simp
  thus ?case by simp
qed auto

definition fresh_start :: numbering where
  "fresh_start = \<lparr>var_nums = Map.empty, global_var_num = 0\<rparr>"

lemma canonical_tree:
  assumes "tree_of A t T"
  shows "inj_on (\<lambda>a. the (var_nums (numberVarTermOpt t fresh_start) a)) (nvars T)"
    "fresh_from (rename (\<lambda>a. the (var_nums (numberVarTermOpt t fresh_start) a)) T) 0 \<noteq> None"
proof -
  let ?m = "numberVarTermOpt t fresh_start"
  have vars: "nvars T = hvars t" "hvars t \<subseteq> dom (var_nums ?m)"
    using nvars_numbered assms number_le [of fresh_start t] unfolding tree_of_def by auto
  have "numbering_ok ?m" using number_ok start_ok by (simp add: fresh_start_def)
  hence i: "inj_on (var_nums ?m) (hvars t)" using inj_on_subset vars(2) unfolding numbering_ok_def by blast
  show "inj_on (\<lambda>a. the (var_nums ?m a)) (nvars T)"
  proof (rule inj_onI)
    fix a b assume ab: "a \<in> nvars T" "b \<in> nvars T" and e: "the (var_nums ?m a) = the (var_nums ?m b)"
    have "var_nums ?m a \<noteq> None" "var_nums ?m b \<noteq> None" using ab vars by auto
    hence "var_nums ?m a = var_nums ?m b" using e by auto
    thus "a = b" using i ab vars(1) by (auto dest: inj_onD)
  qed
  have "numbered_in A ?m t (rename (\<lambda>a. the (var_nums ?m a)) T)"
    unfolding numbered_in_def by (rule numbered_rename) (use assms vars(2) in \<open>simp_all add: tree_of_def\<close>)
  thus "fresh_from (rename (\<lambda>a. the (var_nums ?m a)) T) 0 \<noteq> None"
    using copy_fresh [of fresh_start A t] start_ok by (simp add: fresh_start_def)
qed


lemma size_rename: "size (rename \<rho> T) = size T"
proof (induction T)
  case (NStr f Ts)
  thus ?case by (induction Ts) auto
qed simp_all

lemma number_old: "a \<notin> hvars t \<Longrightarrow> var_nums (numberVarTermOpt t m) a = var_nums m a"
proof (induction t arbitrary: m)
  case (HStr f ts)
  thus ?case by (induction ts arbitrary: m) auto
qed (auto simp: number_var_def)

lemma variant_numbers:
  "\<nexists>a. t1 = HAtm a \<Longrightarrow> \<nexists>b. t2 = HAtm b \<Longrightarrow> b_VARIANT_cc n N t1 t2 m =
    tbind (unifyNumberedTerms n N t1 t2 (numberVarTermOpt t2 (PREPARE_NUMBER_TERM 0 (numberVarTermOpt t1 (PREPARE_NUMBER_TERM 0 m)))))
      (\<lambda>(r, m3). Inr (r, m3\<lparr>var_nums := var_nums m\<rparr>))"
  by (cases t1; cases t2) (simp_all add: b_VARIANT_cc_def Let_def)

lemma variant_spec:
  assumes "tree_of A t1 T1" "tree_of A t2 T2" "hvars t1 \<inter> hvars t2 = {}" "var_nums m = Map.empty" "size T1 < n"
  shows "\<exists>m'. b_VARIANT_cc n (nodes A) t1 t2 m = Inr (variants T1 T2, m') \<and> var_nums m' = var_nums m"
proof -
  have heap: "heap_term (stands_for A) t1" "heap_term (stands_for A) t2"
    using assms(1,2) numbered_heap_term unfolding tree_of_def by blast+
  have vars: "nvars T1 = hvars t1" "nvars T2 = hvars t2" using assms(1,2) nvars_numbered unfolding tree_of_def by blast+
  show ?thesis
  proof (cases "(\<exists>a. t1 = HAtm a) \<or> (\<exists>b. t2 = HAtm b)")
    case True
    have "variants T1 T2 \<longleftrightarrow> t1 = t2"
    proof -
      consider a where "t1 = HAtm a" | b where "t2 = HAtm b" using True by blast
      thus ?thesis
      proof cases
        case 1
        hence "T1 = NAtm a" using assms(1) by (simp add: tree_of_def)
        moreover have "T2 = NAtm a \<longleftrightarrow> t2 = HAtm a" using assms(2) by (cases t2) (auto simp: tree_of_def)
        ultimately show ?thesis using 1 by (auto simp: variants_def)
      next
        case 2
        hence "T2 = NAtm b" using assms(2) by (simp add: tree_of_def)
        moreover have "T1 = NAtm b \<longleftrightarrow> t1 = HAtm b" using assms(1) by (cases t1) (auto simp: tree_of_def)
        moreover have "NAtm b = rename \<rho> T1 \<longleftrightarrow> T1 = NAtm b" for \<rho> by (cases T1) auto
        ultimately have "variants T1 T2 \<longleftrightarrow> T1 = NAtm b" by (auto simp: variants_def)
        thus ?thesis using 2 \<open>T1 = NAtm b \<longleftrightarrow> t1 = HAtm b\<close> by simp
      qed
    qed
    thus ?thesis using True by (auto simp: b_VARIANT_cc_def split: hterm.split)
  next
    case False
    define m1 where "m1 = numberVarTermOpt t1 (PREPARE_NUMBER_TERM 0 m)"
    define m2 where "m2 = numberVarTermOpt t2 (PREPARE_NUMBER_TERM 0 m1)"
    let ?c1 = "numberVarTermOpt t1 fresh_start" and ?c2 = "numberVarTermOpt t2 fresh_start"
    have start: "PREPARE_NUMBER_TERM 0 m = fresh_start" using assms(4) by (cases m) (simp add: PREPARE_NUMBER_TERM_def fresh_start_def)
    have m1: "m1 = ?c1" by (simp add: m1_def start)
    have only: "var_nums m1 a = None" if "a \<in> hvars t2" for a
      using number_old [of a t1 fresh_start] that assms(3) unfolding m1 by (auto simp: fresh_start_def)
    have m2: "\<forall>a\<in>hvars t2. var_nums m2 a = var_nums ?c2 a"
      using number_cong [of "hvars t2" "PREPARE_NUMBER_TERM 0 m1" fresh_start t2] only
      by (simp add: m2_def PREPARE_NUMBER_TERM_def fresh_start_def)
    have le: "num_le m1 m2" using number_le [of "PREPARE_NUMBER_TERM 0 m1" t2] by (simp add: m2_def num_le_def PREPARE_NUMBER_TERM_def)
    have d: "hvars t1 \<subseteq> dom (var_nums m1)" "hvars t1 \<subseteq> dom (var_nums m2)" "hvars t2 \<subseteq> dom (var_nums m2)"
    proof -
      show d: "hvars t1 \<subseteq> dom (var_nums m1)" using number_le [of fresh_start t1] by (simp add: m1)
      show "hvars t1 \<subseteq> dom (var_nums m2)" using d num_le_dom [OF le] by blast
      show "hvars t2 \<subseteq> dom (var_nums m2)" using number_le [of "PREPARE_NUMBER_TERM 0 m1" t2] by (simp add: m2_def)
    qed
    have e1: "rename (\<lambda>a. the (var_nums m2 a)) T1 = rename (\<lambda>a. the (var_nums ?c1 a)) T1"
    proof (rule rename_cong, rule ballI)
      fix a assume "a \<in> nvars T1"
      hence "a \<in> dom (var_nums ?c1)" using d(1) unfolding vars m1 by blast
      thus "the (var_nums m2 a) = the (var_nums ?c1 a)" using le unfolding m1 num_le_def map_le_def by metis
    qed
    have e2: "rename (\<lambda>a. the (var_nums m2 a)) T2 = rename (\<lambda>a. the (var_nums ?c2 a)) T2"
      by (rule rename_cong) (use m2 vars in simp)
    let ?U1 = "rename (\<lambda>a. the (var_nums m2 a)) T1" and ?U2 = "rename (\<lambda>a. the (var_nums m2 a)) T2"
    have n: "numbered (stands_for A) (var_nums m2) t1 ?U1" "numbered (stands_for A) (var_nums m2) t2 ?U2"
      by (rule numbered_rename; use assms(1,2) d in \<open>simp add: tree_of_def\<close>)+
    have "size ?U1 < n" using assms(5) by (simp add: size_rename)
    from unify_numbered_spec [OF _ numbered_is_tree this, of "nodes A" "reg A" t1 m2 "reg A" t2 ?U2]
    obtain m3 where m3: "unifyNumberedTerms n (nodes A) t1 t2 m2 = Inr (?U1 = ?U2, m3)"
      using n number_same [OF d(2)] by (auto simp: stands_for_def[abs_def])
    have "?U1 = ?U2 \<longleftrightarrow> variants T1 T2"
      unfolding e1 e2 by (rule variants_numbered) (use canonical_tree assms(1,2) in blast)+
    thus ?thesis
      using False m3 by (simp add: variant_numbers m1_def [symmetric] m2_def [symmetric])
  qed
qed


section \<open>The test for instances, proved\<close>

text \<open>The substitutions that agree with the numbers \<open>v\<close> and the bindings \<open>b\<close>.\<close>

definition agrees :: "(tab_word \<Rightarrow> ntree \<Rightarrow> bool) \<Rightarrow> (nat \<Rightarrow> nat option) \<Rightarrow> (nat \<Rightarrow> hterm option) \<Rightarrow> (nat \<Rightarrow> ntree) \<Rightarrow> bool" where
  "agrees S v b \<sigma> \<longleftrightarrow> (\<forall>a i. v a = Some i \<longrightarrow> \<sigma> a = NVar i) \<and> (\<forall>a t. v a = None \<and> b a = Some t \<longrightarrow> numbered S v t (\<sigma> a))"

definition binds_ok :: "(tab_word \<Rightarrow> ntree \<Rightarrow> bool) \<Rightarrow> (nat \<Rightarrow> nat option) \<Rightarrow> (nat \<Rightarrow> hterm option) \<Rightarrow> bool" where
  "binds_ok S v b \<longleftrightarrow> (\<forall>a t. b a = Some t \<longrightarrow> (\<exists>T. numbered S v t T))"

text \<open>The result: the bindings describe exactly the substitutions with which the instance is \<open>T\<close>.\<close>

definition subsumed :: "(tab_word \<Rightarrow> ntree \<Rightarrow> bool) \<Rightarrow> (nat \<Rightarrow> nat option) \<Rightarrow> (nat \<Rightarrow> hterm option) \<Rightarrow> ((nat \<Rightarrow> ntree) \<Rightarrow> bool)
    \<Rightarrow> tab_error + (bool \<times> (nat \<Rightarrow> hterm option)) \<Rightarrow> bool" where
  "subsumed S v b P res \<longleftrightarrow> (\<exists>r b'. res = Inr (r, b') \<and> binds_ok S v b' \<and>
     (\<forall>\<sigma>. (r \<and> agrees S v b' \<sigma>) = (agrees S v b \<sigma> \<and> P \<sigma>)))"

lemma subsumed_same:
  assumes "binds_ok S v b" "\<And>\<sigma>. agrees S v b \<sigma> \<Longrightarrow> P \<sigma> = r"
  shows "subsumed S v b P (Inr (r, b))"
  using assms by (auto simp: subsumed_def)

lemma match_subsumed:
  assumes f: "\<And>t u U b. U \<in> set Us0 \<Longrightarrow> heap_term S t \<Longrightarrow> numbered S v u U \<Longrightarrow> binds_ok S v b \<Longrightarrow>
      subsumed S v b (\<lambda>\<sigma>. inst S \<sigma> t U) (f t u b)"
  shows "set Us \<subseteq> set Us0 \<Longrightarrow> length ts = length Us \<Longrightarrow> \<forall>t\<in>set ts. heap_term S t \<Longrightarrow> list_all2 (numbered S v) us Us \<Longrightarrow> binds_ok S v b \<Longrightarrow>
    subsumed S v b (\<lambda>\<sigma>. list_all2 (inst S \<sigma>) ts Us) (match_args f ts us b)"
proof (induction ts arbitrary: us Us b)
  case Nil
  thus ?case by (auto intro: subsumed_same)
next
  case (Cons t ts)
  obtain U Us' where U: "Us = U # Us'" using Cons.prems(2) by (cases Us) auto
  obtain u us' where u: "us = u # us'" "numbered S v u U" "list_all2 (numbered S v) us' Us'"
    using Cons.prems(4) U by (auto simp: list_all2_Cons2)
  have "subsumed S v b (\<lambda>\<sigma>. inst S \<sigma> t U) (f t u b)" using f Cons.prems(1,3,5) U u by auto
  then obtain r b' where r: "f t u b = Inr (r, b')" "binds_ok S v b'"
    "\<And>\<sigma>. (r \<and> agrees S v b' \<sigma>) = (agrees S v b \<sigma> \<and> inst S \<sigma> t U)" unfolding subsumed_def by blast
  show ?case
  proof (cases r)
    case True
    have "subsumed S v b' (\<lambda>\<sigma>. list_all2 (inst S \<sigma>) ts Us') (match_args f ts us' b')"
      by (rule Cons.IH [OF _ _ _ u(3) r(2)]) (use Cons.prems U in simp_all)
    then obtain q b2 where q: "match_args f ts us' b' = Inr (q, b2)" "binds_ok S v b2"
      "\<And>\<sigma>. (q \<and> agrees S v b2 \<sigma>) = (agrees S v b' \<sigma> \<and> list_all2 (inst S \<sigma>) ts Us')" unfolding subsumed_def by blast
    have "match_args f (t # ts) us b = Inr (q, b2)" using r(1) q(1) u(1) True by simp
    moreover have "(q \<and> agrees S v b2 \<sigma>) = (agrees S v b \<sigma> \<and> list_all2 (inst S \<sigma>) (t # ts) Us)" for \<sigma>
      using q(3) r(3) True U by auto
    ultimately show ?thesis using q(2) unfolding subsumed_def by blast
  next
    case False
    have "match_args f (t # ts) us b = Inr (False, b')" using r(1) u(1) False by simp
    thus ?thesis using r False U unfolding subsumed_def by auto
  qed
qed

lemma cmp_length:
  assumes "heap_term (repr N R) t" "\<And>v. view N v t = V_cmp f ts" "compound T" "f = head T"
  shows "length ts = length (kids T)"
proof -
  obtain T0 where "numbered (repr N R) (\<lambda>_. Some 0) t T0" using numbered_exists [OF assms(1), of "\<lambda>_. Some 0"] by auto
  from is_tree_kinds(5) [OF numbered_is_tree [OF this]] assms(2)
  have T0: "compound T0 \<and> head T0 = f \<and> list_all2 (is_tree N (\<lambda>_. Some 0)) ts (kids T0)" by blast
  thus ?thesis using compound_length [of T0 T] assms(3,4) by (auto dest: list_all2_lengthD)
qed

lemma numbered_repr_functional: "numbered (repr N R) v t T \<Longrightarrow> numbered (repr N R) v t T' \<Longrightarrow> T = T'"
  by (rule numbered_functional [of "repr N R"]) (rule repr_functional)

lemma inst_repr_functional: "inst (repr N R) \<sigma> t T \<Longrightarrow> inst (repr N R) \<sigma> t T' \<Longrightarrow> T = T'"
  by (rule inst_functional [of "repr N R"]) (rule repr_functional)

lemma subsume_spec:
  "heap_term (repr N R) t1 \<Longrightarrow> numbered (repr N R) v t2 T2 \<Longrightarrow> binds_ok (repr N R) v b \<Longrightarrow> size T2 < n \<Longrightarrow>
    subsumed (repr N R) v b (\<lambda>\<sigma>. inst (repr N R) \<sigma> t1 T2) (term_subsume_numberedterm n N v t1 t2 b)"
proof (induction n arbitrary: t1 t2 T2 b)
  case (Suc n)
  note tree = numbered_is_tree [OF Suc.prems(2)]
  note k = is_tree_kinds [OF tree]
  text \<open>A term that is not a variable, or one that a variable is bound to.\<close>
  have main: "subsumed (repr N R) v b (\<lambda>\<sigma>. inst (repr N R) \<sigma> t T2) (term_subsume_numberedterm (Suc n) N v t1 t2 b)"
    if t: "heap_term (repr N R) t" "\<nexists>a. t = HVar a" "view_bound N v b t1 = view N v t" for t
    using t(1)
  proof (cases rule: term_cases)
    case (atm a)
    thus ?thesis using t(3) k(2) Suc.prems(3) by (auto intro: subsumed_same)
  next
    case (cmp f ts)
    show ?thesis
    proof (cases "compound T2 \<and> head T2 = f \<and> length ts = length (kids T2)")
      case True
      obtain us where us: "view N v t2 = V_cmp f us" "list_all2 (numbered (repr N R) v) us (kids T2)"
        using numbered_heap_term [OF Suc.prems(2)]
      proof (cases rule: term_cases)
        case (cmp g us)
        hence "compound T2 \<and> head T2 = g \<and> list_all2 (numbered (repr N R) v) us (kids T2)"
          using Suc.prems(2) by (simp add: numbered_iff_inst list_all2_conv_all_nth UN_subset_iff)
        thus thesis using that cmp(1) True by blast
      qed (use Suc.prems(2) True in auto)
      have "subsumed (repr N R) v b (\<lambda>\<sigma>. list_all2 (inst (repr N R) \<sigma>) ts (kids T2)) (match_args (term_subsume_numberedterm n N v) ts us b)"
      proof (rule match_subsumed [OF _ subset_refl _ cmp(2) us(2) Suc.prems(3)])
        fix t u U b
        assume "U \<in> set (kids T2)" "heap_term (repr N R) t" "numbered (repr N R) v u U" "binds_ok (repr N R) v b"
        thus "subsumed (repr N R) v b (\<lambda>\<sigma>. inst (repr N R) \<sigma> t U) (term_subsume_numberedterm n N v t u b)"
          using Suc.IH kids_size [of T2 U] True Suc.prems(4) by simp
      qed (use True in simp)
      moreover have "term_subsume_numberedterm (Suc n) N v t1 t2 b = match_args (term_subsume_numberedterm n N v) ts us b"
        using t(3) cmp(1) us(1) by simp
      ultimately show ?thesis using True unfolding cmp(3) by simp
    next
      case False
      have no: "\<not> inst (repr N R) \<sigma> t T2" for \<sigma> using False unfolding cmp(3) by (auto dest: list_all2_lengthD)
      have "term_subsume_numberedterm (Suc n) N v t1 t2 b = Inr (False, b)"
      proof (cases "view N v t2")
        case (V_cmp g us)
        hence "compound T2" "head T2 = g" using k(5) by blast+
        moreover have "compound T2 \<Longrightarrow> f = head T2 \<Longrightarrow> length ts = length (kids T2)"
          using cmp_length [OF t(1) cmp(1)] by blast
        ultimately have "f \<noteq> g" using False by blast
        thus ?thesis using t(3) cmp(1) V_cmp by simp
      qed (use t(3) cmp(1) k(3,4) in simp_all)
      thus ?thesis using no Suc.prems(3) by (auto intro: subsumed_same)
    qed
  qed (use t(2) in blast)
  show ?case
  proof (cases "\<exists>a. t1 = HVar a")
    case False
    hence "view_bound N v b t1 = view N v t1" using Suc.prems(1) by (cases t1) (auto simp: view_bound_def split: hview.split tab_word.splits option.splits)
    thus ?thesis using main Suc.prems(1) False by blast
  next
    case True
    then obtain a where a: "t1 = HVar a" by blast
    show ?thesis
    proof (cases "v a")
      case (Some i)
      have "term_subsume_numberedterm (Suc n) N v t1 t2 b = Inr (view N v t2 = V_num i, b)"
        using a Some by (simp add: view_bound_def)
      moreover have "(T2 = NVar i) = (view N v t2 = V_num i)" using k(1) by simp
      ultimately show ?thesis using Some a Suc.prems(3) subsumed_same [of "repr N R" v b] by (simp add: agrees_def)
    next
      case v: None
      show ?thesis
      proof (cases "b a")
        case None
        have "term_subsume_numberedterm (Suc n) N v t1 t2 b = Inr (True, b(a \<mapsto> t2))" using a v None by (simp add: view_bound_def)
        moreover have "binds_ok (repr N R) v (b(a \<mapsto> t2))" using Suc.prems(2,3) by (auto simp: binds_ok_def)
        moreover have "agrees (repr N R) v (b(a \<mapsto> t2)) \<sigma> \<longleftrightarrow> agrees (repr N R) v b \<sigma> \<and> inst (repr N R) \<sigma> t1 T2" for \<sigma>
        proof -
          have "numbered (repr N R) v t2 (\<sigma> a) \<longleftrightarrow> T2 = \<sigma> a"
            using Suc.prems(2) numbered_repr_functional by metis
          thus ?thesis using a v None by (auto simp: agrees_def)
        qed
        ultimately show ?thesis unfolding subsumed_def by auto
      next
        case (Some t')
        then obtain T' where T': "numbered (repr N R) v t' T'" using Suc.prems(3) unfolding binds_ok_def by blast
        have vb: "view_bound N v b t1 = view N v t'" using a v Some by (simp add: view_bound_def)
        have eq: "\<sigma> a = T'" if "agrees (repr N R) v b \<sigma>" for \<sigma>
          using that v Some T' numbered_repr_functional unfolding agrees_def by metis
        have i: "inst (repr N R) \<sigma> t1 T2 \<longleftrightarrow> inst (repr N R) \<sigma> t' T2" if "agrees (repr N R) v b \<sigma>" for \<sigma>
        proof -
          have "inst (repr N R) \<sigma> t' T'" by (rule numbered_inst [OF T']) (use that in \<open>simp add: agrees_def\<close>)
          thus ?thesis using inst_repr_functional eq [OF that] a by auto
        qed
        have "subsumed (repr N R) v b (\<lambda>\<sigma>. inst (repr N R) \<sigma> t' T2) (term_subsume_numberedterm (Suc n) N v t1 t2 b)"
        proof (cases "\<exists>c. t' = HVar c")
          case True
          then obtain c i where c: "t' = HVar c" "v c = Some i" using T' by auto
          have "term_subsume_numberedterm (Suc n) N v t1 t2 b = Inr (view N v t2 = V_num i, b)" using vb c by simp
          moreover have "(T2 = NVar i) = (view N v t2 = V_num i)" using k(1) by simp
          ultimately show ?thesis using c Suc.prems(3) subsumed_same [of "repr N R" v b] by (simp add: agrees_def)
        next
          case False
          show ?thesis by (rule main [OF numbered_heap_term [OF T'] False vb])
        qed
        thus ?thesis using i unfolding subsumed_def by blast
      qed
    qed
  qed
qed simp


lemma instance_spec:
  assumes "heap_term (stands_for A) t1" "numbered_in A (numberVarTermOpt t2 (PREPARE_NUMBER_TERM 0 m)) t2 T2" "size T2 < n"
  shows "\<exists>m'. term_subsume_term n (nodes A) t1 t2 m =
      Inr (\<exists>\<sigma>. (\<forall>a i. var_nums (numberVarTermOpt t2 (PREPARE_NUMBER_TERM 0 m)) a = Some i \<longrightarrow> \<sigma> a = NVar i) \<and> inst (stands_for A) \<sigma> t1 T2, m') \<and>
    var_nums m' = var_nums m"
proof -
  let ?v = "var_nums (numberVarTermOpt t2 (PREPARE_NUMBER_TERM 0 m))"
  have "subsumed (stands_for A) ?v Map.empty (\<lambda>\<sigma>. inst (stands_for A) \<sigma> t1 T2) (term_subsume_numberedterm n (nodes A) ?v t1 t2 Map.empty)"
    using subsume_spec [of "nodes A" "reg A" t1 ?v t2 T2 Map.empty n] assms
    by (simp add: stands_for_def[abs_def] numbered_in_def binds_ok_def)
  then obtain r b where r: "term_subsume_numberedterm n (nodes A) ?v t1 t2 Map.empty = Inr (r, b)" "binds_ok (stands_for A) ?v b"
    "\<And>\<sigma>. (r \<and> agrees (stands_for A) ?v b \<sigma>) = (agrees (stands_for A) ?v Map.empty \<sigma> \<and> inst (stands_for A) \<sigma> t1 T2)"
    unfolding subsumed_def by blast
  define \<tau> where "\<tau> a = (SOME T. numbered (stands_for A) ?v (the (b a)) T)" for a
  have \<tau>: "numbered (stands_for A) ?v t (\<tau> a)" if "b a = Some t" for a t
    using someI_ex [of "numbered (stands_for A) ?v t"] that r(2) by (simp add: \<tau>_def binds_ok_def)
  have "agrees (stands_for A) ?v b (\<lambda>a. case ?v a of Some i \<Rightarrow> NVar i | None \<Rightarrow> \<tau> a)" using \<tau> by (auto simp: agrees_def)
  hence "r \<longleftrightarrow> (\<exists>\<sigma>. agrees (stands_for A) ?v Map.empty \<sigma> \<and> inst (stands_for A) \<sigma> t1 T2)" using r(3) by metis
  thus ?thesis using r(1) by (simp add: term_subsume_term_def Let_def agrees_def)
qed

section \<open>The lookup without copying, proved\<close>

lemma number_and_hash_eq: "number_and_hash N ts m = (map (bp_hashval N) ts, fold numberVarTermOpt ts m)"
  by (induction ts arbitrary: m) simp_all

lemma numbered_vars: "list_all2 (numbered_in A m) ts Ts \<Longrightarrow> (\<Union>t\<in>set ts. hvars t) \<subseteq> dom (var_nums m)"
  by (induction rule: list_all2_induct) (simp_all add: numbered_in_def numbered_iff_inst)

lemma find_call_spec:
  assumes "list_all2 (numbered_in A m) ts Ts" "arity f = length Ts" "\<forall>T\<in>set Ts. size T < n"
    and "\<forall>q\<in>set qs. \<exists>f Us. is_call nt A G q f Us"
  shows "\<exists>r. find_call n (nodes A) G f ts qs m = Inr r \<and>
    (case r of None \<Rightarrow> \<forall>q\<in>set qs. \<not> is_call nt A G q f Ts | Some q \<Rightarrow> q \<in> set qs \<and> is_call nt A G q f Ts)"
  using assms(4)
proof (induction qs)
  case (Cons q qs)
  from Cons obtain r where r: "find_call n (nodes A) G f ts qs m = Inr r"
    "case r of None \<Rightarrow> \<forall>q\<in>set qs. \<not> is_call nt A G q f Ts | Some q \<Rightarrow> q \<in> set qs \<and> is_call nt A G q f Ts" by auto
  from Cons.prems obtain f' Us where c: "is_call nt A G q f' Us" by auto
  then obtain g where g: "G q = Some g" "g_sym g = f'" "list_all2 (stands_for A) (g_args g) Us" "call_ok nt f' Us"
    by (auto simp: is_call_def)
  show ?case
  proof (cases "f' = f")
    case False
    hence "\<not> is_call nt A G q f Ts" using is_call_functional [OF c] by blast
    thus ?thesis using r g False by (auto split: option.splits)
  next
    case True
    have d: "(\<Union>t\<in>set ts. hvars t) \<subseteq> dom (var_nums m)"
      using numbered_vars [OF assms(1)] .
    have same: "fold numberVarTermOpt ts m = m" using number_same [of "HStr undefined ts" m] d by simp
    have "\<exists>m'. match_args (unifyNumberedTerms n (nodes A)) ts (map stack_word (g_args g)) m = Inr (Ts = Us, m') \<and>
        (Ts = Us \<or> (\<Union>t\<in>set ts. hvars t) \<subseteq> dom (var_nums m) \<longrightarrow> m' = fold numberVarTermOpt ts m)"
    proof (rule match_numbered [where ?Xs0.0 = Ts and S = "stands_for A" and N = "nodes A"])
      fix t u X Y m
      assume "X \<in> set Ts" "numbered (stands_for A) (var_nums (numberVarTermOpt t m)) t X" "is_tree (nodes A) (var_nums m) u Y"
      thus "\<exists>m'. unifyNumberedTerms n (nodes A) t u m = Inr (X = Y, m') \<and> (X = Y \<or> hvars t \<subseteq> dom (var_nums m) \<longrightarrow> m' = numberVarTermOpt t m)"
        using unify_numbered_spec [of "nodes A" "reg A" t m X u Y n] assms(3) by (simp add: stands_for_def[abs_def])
    next
      show "list_all2 (is_tree (nodes A) (var_nums m)) (map stack_word (g_args g)) Us"
        using g(3) repr_is_tree by (auto simp: list_all2_conv_all_nth stands_for_def)
      show "list_all2 (numbered (stands_for A) (var_nums (fold numberVarTermOpt ts m))) ts Ts"
        using assms(1) same by (simp add: numbered_in_def[abs_def])
      show "length Ts = length Us" using assms(2) g(4) True by (simp add: call_ok_def)
    qed simp
    hence m: "match_args (unifyNumberedTerms n (nodes A)) ts (map stack_word (g_args g)) m = Inr (Ts = Us, m)" using d same by auto
    show ?thesis
    proof (cases "Ts = Us")
      case True
      thus ?thesis using g m c \<open>f' = f\<close> by auto
    next
      case False
      hence "\<not> is_call nt A G q f Ts" using is_call_functional [OF c] by blast
      thus ?thesis using r g m False \<open>f' = f\<close> by (auto split: option.splits)
    qed
  qed
qed simp

lemma lookup_no_copy_spec:
  assumes ok: "tables_ok nt S" and ts: "list_all2 (numbered_in (tarea S) (call_numbering S ts)) ts Ts"
    and f: "arity f = length Ts" "ts \<noteq> []" and n: "\<forall>T\<in>set Ts. size T < n"
  shows "\<exists>r. lookupSubgoalTableNoCopy n ts f S = Inr r \<and> (\<forall>q. r = Some q \<longleftrightarrow> is_call nt (tarea S) (subgoals S) q f Ts)"
proof -
  let ?A = "tarea S" and ?G = "subgoals S" and ?m = "call_numbering S ts"
  let ?ch = "chain (call_hash f Ts) (subgoal_table S)" and ?H = "hashval_of_tabled_subgoal (nodes ?A) ?G"
  have "map (bp_hashval (nodes ?A)) ts = map nhash Ts"
    using ts bp_hashval_numbered by (auto simp: list_all2_conv_all_nth intro!: nth_equalityI)
  hence e: "lookupSubgoalTableNoCopy n ts f S = find_call n (nodes ?A) ?G f ts ?ch ?m"
    using f(2) by (simp add: lookupSubgoalTableNoCopy_def number_and_hash_eq call_hash_def call_numbering_def)
  have tab: "chained ?H (subgoal_table S)" "set_mset (content (subgoal_table S)) = dom ?G"
    "\<forall>p\<in>dom ?G. \<exists>f Us. is_call nt ?A ?G p f Us"
    "\<forall>p q f Us Vs. is_call nt ?A ?G p f Us \<longrightarrow> is_call nt ?A ?G q f Vs \<longrightarrow> call_key nt f Us = call_key nt f Vs \<longrightarrow> p = q"
    using ok by (simp_all add: tables_ok_def)
  have sub: "set ?ch \<subseteq> dom ?G" using chain_content [OF tab(1)] tab(2) by blast
  have there: "q \<in> set ?ch" if "is_call nt ?A ?G q f Ts" for q
  proof -
    have "q \<in># content (subgoal_table S)" using that tab(2) by (auto simp: is_call_def)
    thus ?thesis using in_chain [OF tab(1)] subgoal_hash [OF that] by metis
  qed
  obtain r where r: "find_call n (nodes ?A) ?G f ts ?ch ?m = Inr r"
    "case r of None \<Rightarrow> \<forall>q\<in>set ?ch. \<not> is_call nt ?A ?G q f Ts | Some q \<Rightarrow> q \<in> set ?ch \<and> is_call nt ?A ?G q f Ts"
    using find_call_spec [OF ts f(1) n, of ?ch nt ?G] tab(3) sub by blast
  have "r = Some q \<longleftrightarrow> is_call nt ?A ?G q f Ts" for q
    using r(2) there tab(4) by (cases r) auto
  thus ?thesis using e r(1) by auto
qed


section \<open>What the tests decide\<close>

text \<open>
  The test for variants decides whether two terms without common variables are equal up to a
  renaming of variables, and leaves the variables free; for terms with common variables it can be
  wrong: \<open>f(X,Y,Y)\<close> and \<open>f(Z,Y,W)\<close> pass it.
\<close>

lemma variant_test:
  assumes "tree_of A t1 T1" "tree_of A t2 T2" "hvars t1 \<inter> hvars t2 = {}" "var_nums m = Map.empty" "size T1 < n"
  shows "(\<exists>m'. b_VARIANT_cc n (nodes A) t1 t2 m = Inr (variants T1 T2, m') \<and> var_nums m' = var_nums m) \<and>
    (\<exists>m'. b_VARIANT_cc 9 (nodes A) (HStr \<lparr>sym_addr = 8, arity = 3\<rparr> [HVar 1, HVar 2, HVar 2])
        (HStr \<lparr>sym_addr = 8, arity = 3\<rparr> [HVar 3, HVar 2, HVar 4]) m = Inr (True, m')) \<and>
    \<not> variants (NStr \<lparr>sym_addr = 8, arity = 3\<rparr> [NVar 1, NVar 2, NVar 2]) (NStr \<lparr>sym_addr = 8, arity = 3\<rparr> [NVar 3, NVar 2, NVar 4])"
proof (intro conjI)
  show "\<exists>m'. b_VARIANT_cc n (nodes A) t1 t2 m = Inr (variants T1 T2, m') \<and> var_nums m' = var_nums m"
    by (rule variant_spec [OF assms])
  show "\<exists>m'. b_VARIANT_cc 9 (nodes A) (HStr \<lparr>sym_addr = 8, arity = 3\<rparr> [HVar 1, HVar 2, HVar 2])
        (HStr \<lparr>sym_addr = 8, arity = 3\<rparr> [HVar 3, HVar 2, HVar 4]) m = Inr (True, m')"
    using assms(4) by (simp add: b_VARIANT_cc_def Let_def number_var_def PREPARE_NUMBER_TERM_def numeral_eq_Suc)
  show "\<not> variants (NStr \<lparr>sym_addr = 8, arity = 3\<rparr> [NVar 1, NVar 2, NVar 2]) (NStr \<lparr>sym_addr = 8, arity = 3\<rparr> [NVar 3, NVar 2, NVar 4])"
    by (auto simp: variants_def)
qed

lemma variant_test_witness:
  "\<exists>m'. b_VARIANT_cc 9 (nodes (tarea example_start)) (HLst (HVar 1) (HVar 1)) (HLst (HVar 2) (HVar 3)) fresh_start = Inr (False, m')"
proof -
  have "tree_of (tarea example_start) (HLst (HVar 1) (HVar 1)) (NLst (NVar 1) (NVar 1))"
    "tree_of (tarea example_start) (HLst (HVar 2) (HVar 3)) (NLst (NVar 2) (NVar 3))" by (simp_all add: tree_of_def)
  moreover have "\<not> variants (NLst (NVar 1) (NVar 1)) (NLst (NVar 2) (NVar 3))" by (auto simp: variants_def)
  ultimately show ?thesis
    using variant_test [of "tarea example_start" "HLst (HVar 1) (HVar 1)" "NLst (NVar 1) (NVar 1)" "HLst (HVar 2) (HVar 3)" "NLst (NVar 2) (NVar 3)" fresh_start 9]
    by (auto simp: fresh_start_def)
qed

text \<open>
  \<open>term_subsume_term\<close> decides whether there are trees for the variables of the first term with
  which it becomes the second one, where the variables of the second term stand for themselves.
\<close>

lemma instance_test:
  assumes "heap_term (stands_for A) t1" "numbered_in A (numberVarTermOpt t2 (PREPARE_NUMBER_TERM 0 m)) t2 T2" "size T2 < n"
  shows "\<exists>m'. term_subsume_term n (nodes A) t1 t2 m =
      Inr (\<exists>\<sigma>. (\<forall>a i. var_nums (numberVarTermOpt t2 (PREPARE_NUMBER_TERM 0 m)) a = Some i \<longrightarrow> \<sigma> a = NVar i) \<and> inst (stands_for A) \<sigma> t1 T2, m') \<and>
    var_nums m' = var_nums m"
  by (rule instance_spec [OF assms])

lemma instance_test_witness:
  "\<exists>m'. term_subsume_term 9 (nodes (tarea example_start)) (HLst (HVar 1) (HVar 2)) (HLst (HVar 3) (HAtm 5)) fresh_start = Inr (True, m')"
proof -
  let ?A = "tarea example_start" and ?m = "numberVarTermOpt (HLst (HVar 3) (HAtm 5)) (PREPARE_NUMBER_TERM 0 fresh_start)"
  have n: "var_nums ?m = [3 \<mapsto> 0]" by (simp add: fresh_start_def PREPARE_NUMBER_TERM_def number_var_def)
  hence "numbered_in ?A ?m (HLst (HVar 3) (HAtm 5)) (NLst (NVar 0) (NAtm 5))" by (simp add: numbered_in_def)
  from instance_test [OF _ this, of "HLst (HVar 1) (HVar 2)" 9]
  obtain m' where "term_subsume_term 9 (nodes ?A) (HLst (HVar 1) (HVar 2)) (HLst (HVar 3) (HAtm 5)) fresh_start =
      Inr (\<exists>\<sigma>. (\<forall>a i. var_nums ?m a = Some i \<longrightarrow> \<sigma> a = NVar i) \<and> inst (stands_for ?A) \<sigma> (HLst (HVar 1) (HVar 2)) (NLst (NVar 0) (NAtm 5)), m')"
    by auto
  moreover have "\<exists>\<sigma>. (\<forall>a i. var_nums ?m a = Some i \<longrightarrow> \<sigma> a = NVar i) \<and> inst (stands_for ?A) \<sigma> (HLst (HVar 1) (HVar 2)) (NLst (NVar 0) (NAtm 5))"
    by (rule exI [of _ "\<lambda>a. if a = 2 then NAtm 5 else NVar 0"]) (simp del: numberVarTermOpt.simps add: n)
  ultimately show ?thesis by auto
qed

text \<open>
  The lookup without copying returns the subgoal of a call with the same arguments up to the names
  of variables if there is one, also where the lookup of the instruction \<open>table_allocate\<close>, whose
  comparison reads outside a term, fails.
\<close>

lemma lookup_without_copying:
  assumes "tables_ok nt S" "list_all2 (numbered_in (tarea S) (call_numbering S ts)) ts Ts"
    "arity f = length Ts" "ts \<noteq> []" "\<forall>T\<in>set Ts. size T < n"
  shows "\<exists>r. lookupSubgoalTableNoCopy n ts f S = Inr r \<and> (\<forall>q. r = Some q \<longleftrightarrow> is_call nt (tarea S) (subgoals S) q f Ts)"
  by (rule lookup_no_copy_spec [OF assms])

lemma lookup_without_copying_witness:
  "lookupSubgoalTableNoCopy 9 [HAtm 5] example_pred example_start = Inr None"
proof -
  obtain r where r: "lookupSubgoalTableNoCopy 9 [HAtm 5] example_pred example_start = Inr r"
    "\<forall>q. r = Some q \<longleftrightarrow> is_call (\<lambda>_. False) (tarea example_start) (subgoals example_start) q example_pred [NAtm 5]"
    using lookup_without_copying [OF example_ok(1) example_args(1) _ _ example_args(3), of example_pred] by (auto simp: example_pred_def)
  moreover have "subgoals example_start = Map.empty" by (simp add: example_start_def init_table_area_def)
  ultimately have "r = None" by (cases r) (auto simp: is_call_def)
  thus ?thesis using r(1) by simp
qed

end
