(* ===== verification/Table_Maps.thy ===== *)
theory Table_Maps
  imports Variants
begin

text \<open>
  Maps kept in the table area (\<open>emu/table.c\<close>): up to 97 of them, each a table of chains of pairs. Keys and values
  are copied into the table area; a key is compared up to the names of all its variables, and the
  value is copied back for every reading.
\<close>

section \<open>Maps\<close>

definition NUM_PICAT_TABLE_MAPS :: nat where "NUM_PICAT_TABLE_MAPS = 97"
definition KEY_VAL_PAIR_size :: nat where "KEY_VAL_PAIR_size = 24"
definition MAP_RECORD_size :: nat where "MAP_RECORD_size = 24"

record map_record =
  map_id :: tab_word
  map_chains :: "taddr htable"

text \<open>A slot has a map and its identifier, or nothing; \<open>pairs\<close> are the records of keys and values.\<close>

record map_state =
  marea :: area
  picat_table_maps :: "nat \<Rightarrow> map_record option"
  pairs :: "taddr \<Rightarrow> (tab_word \<times> tab_word) option"

definition init_picat_table_maps :: "area \<Rightarrow> map_state" where
  "init_picat_table_maps A = \<lparr>marea = A, picat_table_maps = (\<lambda>_. None), pairs = Map.empty\<rparr>"

datatype map_error =
    Map_table tab_error
  | Map_unnumber unnumber_error
  | Nonvariable_expected
  | Ground_expected
  | Table_maps_overflow
  | No_map              \<comment> \<open>a slot without a map\<close>

definition in_map :: "tab_error + 'a \<Rightarrow> map_error + 'a" where
  "in_map r = (case r of Inl e \<Rightarrow> Inl (Map_table e) | Inr a \<Rightarrow> Inr a)"

lemma in_map_simps [simp]: "in_map (Inl e) = Inl (Map_table e)" "in_map (Inr a) = Inr a"
  by (simp_all add: in_map_def)

fun ISFREE :: "hterm \<Rightarrow> bool" where
  "ISFREE (HVar a) \<longleftrightarrow> True"
| "ISFREE _ \<longleftrightarrow> False"

text \<open>The first operand is a term of the table area.\<close>

fun key_identical :: "nat \<Rightarrow> (taddr \<Rightarrow> tnode option) \<Rightarrow> hterm \<Rightarrow> hterm \<Rightarrow> tab_error + bool" where
  "key_identical 0 N op1 op2 = Inl Out_of_fuel"
| "key_identical (Suc n) N op1 op2 = (case view N Map.empty op1 of
       V_free a \<Rightarrow> Inr (case view N Map.empty op2 of V_free b \<Rightarrow> True | _ \<Rightarrow> False)
     | V_num i \<Rightarrow> Inr (case view N Map.empty op2 of V_free b \<Rightarrow> True | V_num j \<Rightarrow> True | _ \<Rightarrow> False)
     | V_atm a \<Rightarrow> Inr (view N Map.empty op2 = V_atm a)
     | V_cmp f ts \<Rightarrow> (case view N Map.empty op2 of
           V_cmp g us \<Rightarrow> if f = g then same_args (key_identical n N) ts us else Inr False
         | V_bad \<Rightarrow> Inl Bad_access
         | _ \<Rightarrow> Inr False)
     | V_bad \<Rightarrow> Inl Bad_access)"

fun find_pair :: "nat \<Rightarrow> (taddr \<Rightarrow> tnode option) \<Rightarrow> (taddr \<Rightarrow> (tab_word \<times> tab_word) option) \<Rightarrow> hterm \<Rightarrow> taddr list \<Rightarrow> tab_error + taddr option" where
  "find_pair n N P key [] = Inr None"
| "find_pair n N P key (p # ps) = (case P p of
       None \<Rightarrow> Inl Bad_access
     | Some (k, v) \<Rightarrow> tbind (if stack_word k = key then Inr True else key_identical n N (stack_word k) key) (\<lambda>same.
         if same then Inr (Some p) else find_pair n N P key ps))"

definition key_hash :: "(taddr \<Rightarrow> tnode option) \<Rightarrow> (taddr \<Rightarrow> (tab_word \<times> tab_word) option) \<Rightarrow> taddr \<Rightarrow> nat" where
  "key_hash N P p = (case P p of Some (k, v) \<Rightarrow> hashval_of_numbered_term N k | None \<Rightarrow> 0)"

definition expand_picat_table_map :: "area \<Rightarrow> (taddr \<Rightarrow> (tab_word \<times> tab_word) option) \<Rightarrow> taddr htable \<Rightarrow> taddr htable" where
  "expand_picat_table_map A P = expand (key_hash (nodes A) P) (can_malloc A)"

text \<open>The trail makes the variables free again.\<close>

definition free_vars :: "area \<Rightarrow> area \<Rightarrow> area" where
  "free_vars A0 A = A\<lparr>numb := (numb A)\<lparr>var_nums := var_nums (numb A0)\<rparr>\<rparr>"

definition put_pair :: "nat \<Rightarrow> tab_word \<Rightarrow> tab_word \<Rightarrow> nat \<Rightarrow> nat \<Rightarrow> map_record \<Rightarrow> area \<Rightarrow> map_state \<Rightarrow> tab_error + map_state" where
  "put_pair n key_cp val_cp hcode map_num mr A S =
     tbind (find_pair n (nodes A) (pairs S) (stack_word key_cp) (chain hcode (map_chains mr))) (\<lambda>found. case found of
         Some p \<Rightarrow> Inr (S\<lparr>marea := free_vars (marea S) A, pairs := (pairs S)(p \<mapsto> (fst (the (pairs S p)), val_cp))\<rparr>)
       | None \<Rightarrow> tbind (ALLOCATE_FROM_NUMBERED_TERM_AREA KEY_VAL_PAIR_size A) (\<lambda>(p, A).
           let P = (pairs S)(p \<mapsto> (key_cp, val_cp));
               c = push_chain hcode p (map_chains mr);
               c = c\<lparr>hcount := hcount c + 1\<rparr>;
               c = (if 2 * hcount c > hsize c then expand_picat_table_map A P c else c)
           in Inr (S\<lparr>marea := free_vars (marea S) A, pairs := P,
                picat_table_maps := (picat_table_maps S)(map_num \<mapsto> mr\<lparr>map_chains := c\<rparr>)\<rparr>)))"

definition b_PICAT_TABLE_MAP_PUT_ccc :: "nat \<Rightarrow> nat \<Rightarrow> hterm \<Rightarrow> hterm \<Rightarrow> map_state \<Rightarrow> map_error + map_state" where
  "b_PICAT_TABLE_MAP_PUT_ccc n map_num key val S =
     (if ISFREE key then Inl Nonvariable_expected
      else case picat_table_maps S map_num of
        None \<Rightarrow> Inl No_map
      | Some mr \<Rightarrow> in_map
          (tbind (numberVarCopyToTableArea n key (start_numbering (marea S))) (\<lambda>(key_cp, hcode, g, A).
           tbind (numberVarCopyToTableArea n val A) (\<lambda>(val_cp, dummy_hcode, dummy_g, A).
             put_pair n key_cp val_cp hcode map_num mr A S))))"

text \<open>The result is the copy of the value, which the caller unifies with a term.\<close>

definition b_PICAT_TABLE_MAP_GET_ccf :: "nat \<Rightarrow> nat \<Rightarrow> hterm \<Rightarrow> int \<Rightarrow> nat \<Rightarrow> map_state \<Rightarrow> map_error + (hterm \<times> unnumbering) option" where
  "b_PICAT_TABLE_MAP_GET_ccf n map_num key stack_top heap_next0 S =
     (if ISFREE key then Inl Nonvariable_expected
      else case picat_table_maps S map_num of
        None \<Rightarrow> Inl No_map
      | Some mr \<Rightarrow>
          let N = nodes (marea S)
          in tbind (in_map (find_pair n N (pairs S) key (chain (bp_hashval N key) (map_chains mr)))) (\<lambda>found. case found of
              None \<Rightarrow> Inr None
            | Some p \<Rightarrow> (case unnumberVarTabledTerm n N (snd (the (pairs S p))) (PREPARE_UNNUMBER_TERM stack_top heap_next0) of
                Inl e \<Rightarrow> Inl (Map_unnumber e)
              | Inr r \<Rightarrow> Inr (Some r))))"



section \<open>Finding the map of an identifier\<close>

text \<open>The slots from \<open>slot_i0\<close> on, each of them once.\<close>

definition slots_from :: "nat \<Rightarrow> nat list" where
  "slots_from slot_i0 = map (\<lambda>d. (slot_i0 + d) mod NUM_PICAT_TABLE_MAPS) [0..<NUM_PICAT_TABLE_MAPS]"

fun probe :: "(nat \<Rightarrow> map_record option) \<Rightarrow> tab_word \<Rightarrow> nat list \<Rightarrow> map_error + nat" where
  "probe M w [] = Inl Table_maps_overflow"
| "probe M w (i # is) = (case M i of
       None \<Rightarrow> Inr i
     | Some mr \<Rightarrow> if map_id mr = w then Inr i else probe M w is)"

definition b_GET_PICAT_TABLE_MAP_cf :: "nat \<Rightarrow> hterm \<Rightarrow> map_state \<Rightarrow> map_error + (nat \<times> map_state)" where
  "b_GET_PICAT_TABLE_MAP_cf n id_term S =
     tbind (in_map (numberVarCopyToTableArea n id_term (start_numbering (marea S)))) (\<lambda>(map_id_cp, hcode, ground, A).
     if \<not> ground then Inl Ground_expected
     else tbind (probe (picat_table_maps S) map_id_cp (slots_from (hcode mod NUM_PICAT_TABLE_MAPS))) (\<lambda>slot_i.
       if picat_table_maps S slot_i \<noteq> None then Inr (slot_i, S\<lparr>marea := A\<rparr>)
       else tbind (in_map (ALLOCATE_FROM_NUMBERED_TERM_AREA MAP_RECORD_size A)) (\<lambda>(p, A).
         if \<not> can_malloc A 7 then Inl (Map_table Bad_access)
         else Inr (slot_i, S\<lparr>marea := A, picat_table_maps := (picat_table_maps S)(slot_i \<mapsto> \<lparr>map_id = map_id_cp, map_chains = empty_htable 7\<rparr>)\<rparr>))))"

section \<open>Keys up to the names of variables\<close>

definition shape :: "ntree \<Rightarrow> ntree" where
  "shape T = rename (\<lambda>_. 0) T"

lemma shape_simps [simp]:
  "shape (NVar i) = NVar 0" "shape (NAtm a) = NAtm a" "shape (NLst X Y) = NLst (shape X) (shape Y)" "shape (NStr f Ts) = NStr f (map shape Ts)"
  by (simp_all add: shape_def[abs_def])










section \<open>The invariant\<close>

definition is_pair :: "area \<Rightarrow> (taddr \<Rightarrow> (tab_word \<times> tab_word) option) \<Rightarrow> taddr \<Rightarrow> ntree \<Rightarrow> ntree \<Rightarrow> bool" where
  "is_pair A P p K V \<longleftrightarrow> (\<exists>k v. P p = Some (k, v) \<and> stands_for A k K \<and> stands_for A v V)"

text \<open>Every pair is in the chain of its key, once, and no two keys are equal up to the names of variables.\<close>

definition map_ok :: "area \<Rightarrow> (taddr \<Rightarrow> (tab_word \<times> tab_word) option) \<Rightarrow> taddr htable \<Rightarrow> bool" where
  "map_ok A P c \<longleftrightarrow> chained (key_hash (nodes A) P) c \<and> hcount c = size (content c) \<and>
     (\<forall>p. count (content c) p \<le> 1) \<and>
     (\<forall>p\<in>set_mset (content c). below A p \<and> (\<exists>K V. is_pair A P p K V)) \<and>
     (\<forall>p\<in>set_mset (content c). \<forall>q\<in>set_mset (content c). \<forall>K K' V V'.
        is_pair A P p K V \<longrightarrow> is_pair A P q K' V' \<longrightarrow> shape K = shape K' \<longrightarrow> p = q)"

text \<open>Before the slot of a map, in the order of probing, all slots are taken.\<close>

definition slots_ok_maps :: "area \<Rightarrow> (nat \<Rightarrow> map_record option) \<Rightarrow> bool" where
  "slots_ok_maps A M \<longleftrightarrow>
     (\<forall>i mr. M i = Some mr \<longrightarrow> (\<exists>T. stands_for A (map_id mr) T \<and> nground T \<and>
        (\<exists>d<NUM_PICAT_TABLE_MAPS. i = (nhash T + d) mod NUM_PICAT_TABLE_MAPS \<and>
          (\<forall>e<d. M ((nhash T + e) mod NUM_PICAT_TABLE_MAPS) \<noteq> None)))) \<and>
     (\<forall>i j mr mr'. M i = Some mr \<longrightarrow> M j = Some mr' \<longrightarrow> map_id mr = map_id mr' \<longrightarrow> i = j)"

definition maps_ok :: "map_state \<Rightarrow> bool" where
  "maps_ok S \<longleftrightarrow> area_ok (marea S) \<and>
     (\<forall>j mr. picat_table_maps S j = Some mr \<longrightarrow> map_ok (marea S) (pairs S) (map_chains mr)) \<and>
     (\<forall>i j mr mr' p. picat_table_maps S i = Some mr \<longrightarrow> picat_table_maps S j = Some mr' \<longrightarrow>
        p \<in># content (map_chains mr) \<longrightarrow> p \<in># content (map_chains mr') \<longrightarrow> i = j) \<and>
     slots_ok_maps (marea S) (picat_table_maps S)"

text \<open>The map in a slot has the value \<open>V\<close> for the key \<open>k\<close>, a tree without the names of variables.\<close>

definition entry :: "map_state \<Rightarrow> nat \<Rightarrow> ntree \<Rightarrow> ntree \<Rightarrow> bool" where
  "entry S j k V \<longleftrightarrow> (\<exists>mr p K. picat_table_maps S j = Some mr \<and> p \<in># content (map_chains mr) \<and>
     is_pair (marea S) (pairs S) p K V \<and> shape K = k)"

lemma is_pair_functional: "is_pair A P p K V \<Longrightarrow> is_pair A P p K' V' \<Longrightarrow> K = K' \<and> V = V'"
  using stands_for_functional by (auto simp: is_pair_def)

lemma is_pair_grows: "grows A B \<Longrightarrow> is_pair A P p K V \<Longrightarrow> is_pair B P p K V"
  using grows_stands_for by (fastforce simp: is_pair_def)

lemma is_pair_grown: "grows A B \<Longrightarrow> \<exists>K V. is_pair A P p K V \<Longrightarrow> is_pair B P p K V \<longleftrightarrow> is_pair A P p K V"
  using is_pair_grows is_pair_functional by metis

lemma pair_hash: "is_pair A P p K V \<Longrightarrow> key_hash (nodes A) P p = nhash K"
  using repr_hash by (auto simp: is_pair_def key_hash_def stands_for_def)

lemma map_ok_grows:
  assumes "map_ok A P c" "grows A B"
  shows "map_ok B P c"
proof -
  have v: "\<exists>K V. is_pair A P p K V" "below A p" if "p \<in># content c" for p using that assms(1) by (auto simp: map_ok_def)
  have "chained (key_hash (nodes B) P) c"
  proof (rule chained_cong [of "key_hash (nodes A) P"])
    fix p assume "p \<in># content c"
    then obtain K V where "is_pair A P p K V" using v by blast
    thus "key_hash (nodes B) P p = key_hash (nodes A) P p" using pair_hash pair_hash [OF is_pair_grows [OF assms(2)]] by metis
  qed (use assms(1) in \<open>simp add: map_ok_def\<close>)
  moreover have "is_pair B P p K V \<longleftrightarrow> is_pair A P p K V" if "p \<in># content c" for p K V
    by (rule is_pair_grown [OF assms(2) v(1) [OF that]])
  ultimately show ?thesis
    using assms(1) grows_below [OF assms(2)] unfolding map_ok_def by (metis (no_types, lifting))
qed

lemma slots_grows: "slots_ok_maps A M \<Longrightarrow> grows A B \<Longrightarrow> slots_ok_maps B M"
  unfolding slots_ok_maps_def using grows_stands_for by blast

lemma maps_grow:
  assumes "maps_ok S" "grows (marea S) B" "area_ok B"
  shows "maps_ok (S\<lparr>marea := B\<rparr>)" "entry (S\<lparr>marea := B\<rparr>) j k V \<longleftrightarrow> entry S j k V"
proof -
  show "maps_ok (S\<lparr>marea := B\<rparr>)"
    using assms(1,3) map_ok_grows [OF _ assms(2)] slots_grows [OF _ assms(2)] by (auto simp: maps_ok_def)
  have "is_pair B (pairs S) p K V \<longleftrightarrow> is_pair (marea S) (pairs S) p K V"
    if "picat_table_maps S j = Some mr" "p \<in># content (map_chains mr)" for mr p K
    by (rule is_pair_grown [OF assms(2)]) (use that assms(1) in \<open>auto simp: maps_ok_def map_ok_def\<close>)
  thus "entry (S\<lparr>marea := B\<rparr>) j k V \<longleftrightarrow> entry S j k V" unfolding entry_def by simp blast
qed

lemma free_vars_simps [simp]:
  "area_ok (free_vars A0 A) = area_ok A" "grows B (free_vars A0 A) = grows B A" "grows (free_vars A0 A) B = grows A B"
  "stands_for (free_vars A0 A) = stands_for A" "nodes (free_vars A0 A) = nodes A" "below (free_vars A0 A) = below A"
  by (simp_all add: free_vars_def)





section \<open>Storing, proved\<close>










section \<open>Reading, proved\<close>



text \<open>Of a key there is one value.\<close>

lemma entry_functional:
  assumes ok: "maps_ok S" and e: "entry S j k V" "entry S j k W"
  shows "V = W"
proof -
  obtain mr p K where p: "picat_table_maps S j = Some mr" "p \<in># content (map_chains mr)" "is_pair (marea S) (pairs S) p K V" "shape K = k"
    using e(1) by (auto simp: entry_def)
  obtain q L where q: "q \<in># content (map_chains mr)" "is_pair (marea S) (pairs S) q L W" "shape L = k"
    using e(2) p(1) by (auto simp: entry_def)
  have "map_ok (marea S) (pairs S) (map_chains mr)" using ok p(1) by (simp add: maps_ok_def)
  hence "p = q" using p q unfolding map_ok_def by blast
  thus ?thesis using is_pair_functional p(3) q(2) by blast
qed

section \<open>Identifiers of maps, proved\<close>

lemma ground_word_unique:
  assumes "area_ok B" "stands_for B w T" "stands_for B w' T" "nground T"
  shows "w = w'"
proof (cases "compound T")
  case True
  hence "x \<in> reg B" if "stands_for B x T" for x
    using that assms(4) repr_compound unfolding stands_for_def by blast
  thus ?thesis using assms(1-3) unfolding area_ok_def by blast
next
  case False
  thus ?thesis using assms(2-4) by (cases T) (auto simp: stands_for_def)
qed

definition other_id :: "(nat \<Rightarrow> map_record option) \<Rightarrow> tab_word \<Rightarrow> nat \<Rightarrow> bool" where
  "other_id M w i \<longleftrightarrow> (\<exists>mr. M i = Some mr \<and> map_id mr \<noteq> w)"

lemma probe_spec:
  "case probe M w is of
      Inl e \<Rightarrow> e = Table_maps_overflow \<and> (\<forall>i\<in>set is. other_id M w i)
    | Inr i \<Rightarrow> (\<exists>d<length is. is ! d = i \<and> (\<forall>e<d. other_id M w (is ! e))) \<and> \<not> other_id M w i"
proof (induction "is")
  case (Cons i js)
  show ?case
  proof (cases "other_id M w i")
    case False
    hence "probe M w (i # js) = Inr i" by (auto simp: other_id_def split: option.splits)
    thus ?thesis using False by (auto intro!: exI [of _ 0])
  next
    case True
    hence p: "probe M w (i # js) = probe M w js" by (auto simp: other_id_def)
    show ?thesis
    proof (cases "probe M w js")
      case (Inl e)
      thus ?thesis using Cons p True by simp
    next
      case (Inr j)
      then obtain d where d: "d < length js" "js ! d = j" "\<forall>e<d. other_id M w (js ! e)" "\<not> other_id M w j" using Cons by auto
      have "Suc d < length (i # js) \<and> (i # js) ! Suc d = j \<and> (\<forall>e<Suc d. other_id M w ((i # js) ! e))"
        using d True by (simp add: nth_Cons split: nat.split)
      thus ?thesis using p Inr d(4) by auto
    qed
  qed
qed simp

lemma slots_from_nth:
  "length (slots_from (h mod NUM_PICAT_TABLE_MAPS)) = NUM_PICAT_TABLE_MAPS"
  "d < NUM_PICAT_TABLE_MAPS \<Longrightarrow> slots_from (h mod NUM_PICAT_TABLE_MAPS) ! d = (h + d) mod NUM_PICAT_TABLE_MAPS"
  by (simp_all add: slots_from_def mod_add_left_eq)

lemma all_slots:
  assumes "i < NUM_PICAT_TABLE_MAPS"
  shows "i \<in> set (slots_from (h mod NUM_PICAT_TABLE_MAPS))"
proof -
  define d where "d = (NUM_PICAT_TABLE_MAPS - h mod NUM_PICAT_TABLE_MAPS + i) mod NUM_PICAT_TABLE_MAPS"
  have d: "d < NUM_PICAT_TABLE_MAPS" by (simp add: d_def NUM_PICAT_TABLE_MAPS_def)
  have "q * 97 + r + (97 - r + i) = i + (q + 1) * 97" if "r < 97" for q r :: nat using that by simp
  from this [of "h mod 97" "h div 97"] have "(h + (97 - h mod 97 + i)) mod 97 = i mod 97"
    by (simp only: div_mult_mod_eq mod_mult_self1 mod_less_divisor zero_less_numeral)
  hence "(h + d) mod NUM_PICAT_TABLE_MAPS = i" using assms unfolding d_def mod_add_right_eq by (simp add: NUM_PICAT_TABLE_MAPS_def)
  hence "slots_from (h mod NUM_PICAT_TABLE_MAPS) ! d = i" using slots_from_nth(2) [OF d] by simp
  thus ?thesis using nth_mem [of d "slots_from (h mod NUM_PICAT_TABLE_MAPS)"] slots_from_nth(1) d by simp
qed

definition has_id :: "map_state \<Rightarrow> nat \<Rightarrow> ntree \<Rightarrow> bool" where
  "has_id S i T \<longleftrightarrow> (\<exists>mr. picat_table_maps S i = Some mr \<and> stands_for (marea S) (map_id mr) T)"

text \<open>The slot of an identifier: every identifier has one map at most, and a new one is empty.\<close>

definition map_found :: "map_state \<Rightarrow> ntree \<Rightarrow> map_error + (nat \<times> map_state) \<Rightarrow> bool" where
  "map_found S T r \<longleftrightarrow> (case r of
       Inl e \<Rightarrow> e = Ground_expected \<and> \<not> nground T \<or> e = Table_maps_overflow \<and> (\<forall>i<NUM_PICAT_TABLE_MAPS. picat_table_maps S i \<noteq> None \<and> \<not> has_id S i T) \<or>
         (\<exists>e'. e = Map_table e' \<and> (memory_error e' \<or> e' = Bad_access))
     | Inr (i, S') \<Rightarrow> nground T \<and> maps_ok S' \<and> i < NUM_PICAT_TABLE_MAPS \<and>
         (\<forall>j U. has_id S' j U \<longleftrightarrow> has_id S j U \<or> j = i \<and> U = T) \<and> (\<forall>j. has_id S' j T \<longrightarrow> j = i) \<and>
         (\<forall>j k V. entry S' j k V \<longleftrightarrow> entry S j k V))"

lemma has_id_grows:
  assumes "maps_ok S" "grows (marea S) B"
  shows "has_id (S\<lparr>marea := B\<rparr>) i T \<longleftrightarrow> has_id S i T"
proof -
  have "stands_for B (map_id mr) T \<longleftrightarrow> stands_for (marea S) (map_id mr) T" if mr: "picat_table_maps S i = Some mr" for mr
  proof
    obtain U where U: "stands_for (marea S) (map_id mr) U" using assms(1) mr unfolding maps_ok_def slots_ok_maps_def by blast
    assume "stands_for B (map_id mr) T"
    hence "T = U" using stands_for_functional grows_stands_for [OF assms(2) U] by blast
    thus "stands_for (marea S) (map_id mr) T" using U by simp
  qed (rule grows_stands_for [OF assms(2)])
  thus ?thesis by (auto simp: has_id_def)
qed

lemma id_slot:
  assumes ok: "maps_ok S" and T: "stands_for (marea S) w T" "nground T" and j: "has_id S j T"
  shows "\<exists>mr d. picat_table_maps S j = Some mr \<and> map_id mr = w \<and> d < NUM_PICAT_TABLE_MAPS \<and>
    j = slots_from (nhash T mod NUM_PICAT_TABLE_MAPS) ! d \<and>
    (\<forall>e<d. picat_table_maps S (slots_from (nhash T mod NUM_PICAT_TABLE_MAPS) ! e) \<noteq> None)"
proof -
  obtain mr where mr: "picat_table_maps S j = Some mr" "stands_for (marea S) (map_id mr) T" using j by (auto simp: has_id_def)
  have "area_ok (marea S)" using ok by (simp add: maps_ok_def)
  hence w: "map_id mr = w" using ground_word_unique mr(2) T by blast
  obtain U d where U: "stands_for (marea S) (map_id mr) U" "d < NUM_PICAT_TABLE_MAPS" "j = (nhash U + d) mod NUM_PICAT_TABLE_MAPS"
    "\<forall>e<d. picat_table_maps S ((nhash U + e) mod NUM_PICAT_TABLE_MAPS) \<noteq> None"
    using ok mr(1) unfolding maps_ok_def slots_ok_maps_def by blast
  have "U = T" using stands_for_functional [OF U(1) mr(2)] .
  thus ?thesis using mr(1) w U slots_from_nth(2) by (intro exI [of _ mr] exI [of _ d]) simp
qed

lemma new_map_ok:
  assumes ok: "maps_ok S" and T: "stands_for (marea S) w T" "nground T"
    and d: "d < NUM_PICAT_TABLE_MAPS" "i = slots_from (nhash T mod NUM_PICAT_TABLE_MAPS) ! d" "picat_table_maps S i = None"
      "\<forall>e<d. other_id (picat_table_maps S) w (slots_from (nhash T mod NUM_PICAT_TABLE_MAPS) ! e)"
  defines "S' \<equiv> S\<lparr>picat_table_maps := (picat_table_maps S)(i \<mapsto> \<lparr>map_id = w, map_chains = empty_htable 7\<rparr>)\<rparr>"
  shows "maps_ok S'" "\<not> has_id S j T" "entry S' j k V \<longleftrightarrow> entry S j k V"
    "has_id S' j U \<longleftrightarrow> has_id S j U \<or> j = i \<and> U = T"
proof -
  let ?M = "picat_table_maps S" and ?s = "slots_from (nhash T mod NUM_PICAT_TABLE_MAPS)"
  show new: "\<not> has_id S j T" for j
  proof
    assume "has_id S j T"
    from id_slot [OF ok T this] obtain mr d' where d': "?M j = Some mr" "map_id mr = w" "d' < NUM_PICAT_TABLE_MAPS" "j = ?s ! d'"
      "\<forall>e<d'. ?M (?s ! e) \<noteq> None" by blast
    consider "d' < d" | "d' = d" | "d < d'" by linarith
    thus False
    proof cases
      case 1
      thus ?thesis using d(4) d' by (auto simp: other_id_def)
    next
      case 2
      thus ?thesis using d(2,3) d'(1,4) by simp
    next
      case 3
      thus ?thesis using d(2,3) d'(5) by blast
    qed
  qed
  have S': "picat_table_maps S' = ?M(i \<mapsto> \<lparr>map_id = w, map_chains = empty_htable 7\<rparr>)" "marea S' = marea S" "pairs S' = pairs S"
    by (simp_all add: S'_def)
  have empty: "content (empty_htable 7 :: taddr htable) = {#}" "chained (key_hash N P) (empty_htable 7)" for N P by (simp_all add: empty_chained)
  show ent: "entry S' j k V \<longleftrightarrow> entry S j k V" unfolding entry_def S' using d(3) empty(1) by (cases "j = i") auto
  show "has_id S' j U \<longleftrightarrow> has_id S j U \<or> j = i \<and> U = T"
    unfolding has_id_def S' using d(3) T(1) stands_for_functional by (cases "j = i") auto
  have e: "map_ok (marea S) (pairs S) (empty_htable 7)" using empty by (simp add: map_ok_def empty_htable_def)
  have ids: "map_id mr \<noteq> w" if "?M j = Some mr" for j mr
    using new [of j] that T(1) by (auto simp: has_id_def)
  have "slots_ok_maps (marea S) (picat_table_maps S')"
    unfolding slots_ok_maps_def S'
  proof (intro conjI allI impI)
    fix j mr assume j: "(?M(i \<mapsto> \<lparr>map_id = w, map_chains = empty_htable 7\<rparr>)) j = Some mr"
    show "\<exists>T. stands_for (marea S) (map_id mr) T \<and> nground T \<and> (\<exists>d<NUM_PICAT_TABLE_MAPS. j = (nhash T + d) mod NUM_PICAT_TABLE_MAPS \<and>
      (\<forall>e<d. (?M(i \<mapsto> \<lparr>map_id = w, map_chains = empty_htable 7\<rparr>)) ((nhash T + e) mod NUM_PICAT_TABLE_MAPS) \<noteq> None))"
    proof (cases "j = i")
      case True
      have "?M ((nhash T + e) mod NUM_PICAT_TABLE_MAPS) \<noteq> None" if "e < d" for e
        using d(4) that d(1) slots_from_nth(2) [of e "nhash T"] by (auto simp: other_id_def)
      thus ?thesis using True j T d(1,2) slots_from_nth(2) [OF d(1)] by (intro exI [of _ T]) auto
    next
      case False
      hence "?M j = Some mr" using j by simp
      then obtain U d' where U: "stands_for (marea S) (map_id mr) U" "nground U" "d' < NUM_PICAT_TABLE_MAPS" "j = (nhash U + d') mod NUM_PICAT_TABLE_MAPS"
        "\<forall>e<d'. ?M ((nhash U + e) mod NUM_PICAT_TABLE_MAPS) \<noteq> None" using ok unfolding maps_ok_def slots_ok_maps_def by metis
      thus ?thesis by (intro exI [of _ U]) auto
    qed
  next
    fix j j' m1 m2
    assume "(?M(i \<mapsto> \<lparr>map_id = w, map_chains = empty_htable 7\<rparr>)) j = Some m1"
      "(?M(i \<mapsto> \<lparr>map_id = w, map_chains = empty_htable 7\<rparr>)) j' = Some m2" "map_id m1 = map_id m2"
    moreover have "x = x'" if "?M x = Some m" "?M x' = Some m'" "map_id m = map_id m'" for x x' m m'
      using ok that unfolding maps_ok_def slots_ok_maps_def by blast
    ultimately show "j = j'" by (cases "j = i"; cases "j' = i") (auto dest: ids)
  qed
  moreover have "map_ok (marea S) (pairs S) (map_chains mr)" if "picat_table_maps S' j = Some mr" for j mr
    using that e ok unfolding maps_ok_def S' by (cases "j = i") auto
  moreover have "j = j'" if "picat_table_maps S' j = Some m1" "picat_table_maps S' j' = Some m2"
    "p \<in># content (map_chains m1)" "p \<in># content (map_chains m2)" for j j' m1 m2 p
  proof -
    have "j \<noteq> i" "j' \<noteq> i" using that empty(1) by (auto simp: S')
    hence "?M j = Some m1" "?M j' = Some m2" using that(1,2) by (simp_all add: S')
    thus ?thesis using ok that(3,4) unfolding maps_ok_def by blast
  qed
  ultimately show "maps_ok S'" using ok unfolding maps_ok_def S' by blast
qed

lemma get_map_spec:
  assumes ok: "maps_ok S"
    and T: "numbered_in (marea S) (numberVarTermOpt id_term (PREPARE_NUMBER_TERM 0 (numb (marea S)))) id_term T" "size T < n"
  shows "map_found S T (b_GET_PICAT_TABLE_MAP_cf n id_term S)"
proof -
  let ?A0 = "start_numbering (marea S)"
  have A0: "area_ok ?A0" "grows (marea S) ?A0" "numbered_in ?A0 = numbered_in (marea S)" "numb ?A0 = PREPARE_NUMBER_TERM 0 (numb (marea S))"
    using ok by (simp_all add: start_numbering_def maps_ok_def grows_refl)
  have c: "copied id_term T ?A0 (numberVarCopyToTableArea n id_term ?A0)"
    by (rule copy_copied [OF A0(1)]) (use T A0(3,4) in simp_all)
  show ?thesis
  proof (cases "numberVarCopyToTableArea n id_term ?A0")
    case (Inl e)
    thus ?thesis using c by (simp add: b_GET_PICAT_TABLE_MAP_cf_def map_found_def copied_def)
  next
    case (Inr q)
    obtain w h g A where q: "numberVarCopyToTableArea n id_term ?A0 = Inr (w, h, g, A)" using Inr by (cases q) simp
    have A: "area_ok A" "grows (marea S) A" "stands_for A w T" "h = nhash T" "g = nground T"
      using c [unfolded q copied_def] grows_trans [OF A0(2)] by auto
    let ?SA = "S\<lparr>marea := A\<rparr>" and ?M = "picat_table_maps S" and ?s = "slots_from (nhash T mod NUM_PICAT_TABLE_MAPS)"
    have okA: "maps_ok ?SA" and entA: "entry ?SA j k V \<longleftrightarrow> entry S j k V" for j k V using maps_grow [OF ok A(2,1)] by blast+
    have idA: "has_id ?SA j U \<longleftrightarrow> has_id S j U" for j U by (rule has_id_grows [OF ok A(2)])
    show ?thesis
    proof (cases "nground T")
      case False
      thus ?thesis using q A(5) by (simp add: b_GET_PICAT_TABLE_MAP_cf_def map_found_def)
    next
      case g: True
      have res: "b_GET_PICAT_TABLE_MAP_cf n id_term S = tbind (probe ?M w ?s) (\<lambda>slot_i.
         if ?M slot_i \<noteq> None then Inr (slot_i, ?SA)
         else tbind (in_map (ALLOCATE_FROM_NUMBERED_TERM_AREA MAP_RECORD_size A)) (\<lambda>(p, A).
           if \<not> can_malloc A 7 then Inl (Map_table Bad_access)
           else Inr (slot_i, S\<lparr>marea := A, picat_table_maps := ?M(slot_i \<mapsto> \<lparr>map_id = w, map_chains = empty_htable 7\<rparr>)\<rparr>)))"
        using q A(4,5) g by (simp add: b_GET_PICAT_TABLE_MAP_cf_def)
      have slot: "\<exists>mr d. ?M j = Some mr \<and> map_id mr = w \<and> d < NUM_PICAT_TABLE_MAPS \<and> j = ?s ! d \<and> (\<forall>e<d. ?M (?s ! e) \<noteq> None)"
        if "has_id S j T" for j
        using id_slot [OF okA _ g] A(3) that idA by simp
      show ?thesis
      proof (cases "probe ?M w ?s")
        case (Inl e)
        hence e: "e = Table_maps_overflow" "\<forall>i\<in>set ?s. other_id ?M w i" using probe_spec [of ?s ?M w] by auto
        have "?M i \<noteq> None \<and> \<not> has_id S i T" if "i < NUM_PICAT_TABLE_MAPS" for i
          using e(2) that all_slots [OF that, of "nhash T"] slot [of i] by (force simp: other_id_def)
        thus ?thesis using res Inl e(1) by (simp add: map_found_def)
      next
        case (Inr i)
        then obtain d where d: "d < NUM_PICAT_TABLE_MAPS" "?s ! d = i" "\<forall>e<d. other_id ?M w (?s ! e)" "\<not> other_id ?M w i"
          using probe_spec [of ?s ?M w] slots_from_nth(1) by auto
        have iN: "i < NUM_PICAT_TABLE_MAPS" using d(2) slots_from_nth(2) [OF d(1), of "nhash T"] by (simp add: NUM_PICAT_TABLE_MAPS_def)
        show ?thesis
        proof (cases "?M i")
          case (Some mr)
          hence "map_id mr = w" using d(4) by (auto simp: other_id_def)
          hence hi: "has_id ?SA i U \<longleftrightarrow> stands_for A w U" for U using Some by (simp add: has_id_def)
          have "j = i" if "has_id ?SA j T" for j
            using slot [of j] that idA Some \<open>map_id mr = w\<close> ok unfolding maps_ok_def slots_ok_maps_def by metis
          moreover have "has_id ?SA j U \<longleftrightarrow> has_id S j U \<or> j = i \<and> U = T" for j U
            using idA hi A(3) by blast
          ultimately show ?thesis using res Inr Some okA entA g iN by (simp add: map_found_def)
        next
          case None
          show ?thesis
          proof (cases "ALLOCATE_FROM_NUMBERED_TERM_AREA MAP_RECORD_size A")
            case (Inl e)
            thus ?thesis using res Inr None allocate_error [OF Inl] by (auto simp: map_found_def memory_error_def)
          next
            case al: (Inr pB)
            obtain p B where al: "ALLOCATE_FROM_NUMBERED_TERM_AREA MAP_RECORD_size A = Inr (p, B)" using al by (cases pB) simp
            note a = allocate_ok [OF al A(1)]
            have gB: "grows (marea S) B" by (rule grows_trans [OF A(2) a(4)])
            let ?SB = "S\<lparr>marea := B\<rparr>"
            have okB: "maps_ok ?SB" and entB: "entry ?SB j k V \<longleftrightarrow> entry S j k V" for j k V using maps_grow [OF ok gB a(5)] by blast+
            have idB: "has_id ?SB j U \<longleftrightarrow> has_id S j U" for j U by (rule has_id_grows [OF ok gB])
            have wB: "stands_for (marea ?SB) w T" using grows_stands_for [OF a(4) A(3)] by simp
            note new = new_map_ok [OF okB wB g d(1) d(2) [symmetric], simplified, OF None d(3)]
            show ?thesis
            proof (cases "can_malloc B 7")
              case False
              thus ?thesis using res Inr None al by (simp add: map_found_def)
            next
              case True
              thus ?thesis using res Inr None al new entB idB g iN by (auto simp: map_found_def)
            qed
          qed
        qed
      qed
    qed
  qed
qed

section \<open>Size and clearing\<close>




section \<open>Maps\<close>


text \<open>An example: one map, whose identifier is an atom.\<close>

definition example_maps :: map_state where
  "example_maps = (init_picat_table_maps (tarea example_start))
     \<lparr>picat_table_maps := [1 \<mapsto> \<lparr>map_id = TAtm 5, map_chains = empty_htable 7\<rparr>]\<rparr>"



lemmas map_simps = b_PICAT_TABLE_MAP_PUT_ccc_def b_PICAT_TABLE_MAP_GET_ccf_def example_maps_def init_picat_table_maps_def put_pair_def
  KEY_VAL_PAIR_size_def free_vars_def example_simps



text \<open>The numbers of the key's variables are given first: a value in which they follow a new variable is
  read with a variable that has never been made.\<close>

lemma map_value_lost:
  "\<exists>S'. b_PICAT_TABLE_MAP_PUT_ccc (Suc (Suc 0)) 1 (HLst (HVar 1) (HAtm 5)) (HLst (HVar 2) (HVar 1)) example_maps = Inr S' \<and>
     b_PICAT_TABLE_MAP_GET_ccf (Suc (Suc 0)) 1 (HLst (HVar 3) (HAtm 5)) 1000000 0 S' = Inl (Map_unnumber (Table_error Uninitialised))"
  by (simp add: map_simps finish_node_def node_at_def PREPARE_UNNUMBER_TERM_def dest_def add_car_hash_def unnumbervar_watermark_def HEAP_MARGIN_def)

end
