(* ===== verification/Spec2Isabelle.thy ===== *)
theory Spec2Isabelle
  imports Bigint_Write Terms Eval Finite_Domains Term_Sort Unification Table_Maps
begin

text \<open>
  A model of the arithmetic, finite-domain, ordering, unification and tabling core of the Picat engine
  (\<open>emu/\<close>), for 64-bit builds compiled with \<open>PICAT\<close>.

  \<^bold>\<open>The program.\<close> The engine is an abstract machine in C: a heap of tagged words that grows upwards, a
  local stack that grows downwards, a trail from which bindings are undone on backtracking, and a
  queue of the events that suspended goals wait for. A word is a reference, an integer, an atom, a
  list, a structure or a suspended variable. Compiled clauses call the built-ins modelled here
  directly; a built-in returns \<open>BP_TRUE\<close>, \<open>BP_FALSE\<close> or \<open>BP_ERROR\<close>.

  \<^bold>\<open>Theories and what they model.\<close>
  \<^item> \<open>Prelude\<close>: loops and C integers that all the components share.
  \<^item> Big integers, \<open>emu/bigint.c\<close>. \<open>Ubig\<close>: magnitudes as arrays of base \<open>2^28\<close> digits (addition,
    subtraction, multiplication, division, comparison). \<open>Ubig_Bits\<close>: bitwise operations and shifts of
    magnitudes, with the locales \<open>bit_operator\<close> and \<open>digit_routine\<close>. \<open>Bigint\<close>, \<open>Bigint_Bits\<close>,
    \<open>Bigint_Div\<close>: the signed operations. \<open>Bigint_Write\<close>: decimal output.
  \<^item> Words and floats, \<open>emu/term.h\<close> and \<open>emu/float1.c\<close>. \<open>Terms\<close>: tags, integers in words, floats as
    structures of three integers.
  \<^item> Arithmetic, \<open>emu/arith.c\<close>. \<open>Double\<close>: the C type \<open>double\<close> with its rounding. \<open>Arith\<close>: the operations
    once their operands are numbers. \<open>Arith_Exact\<close>, \<open>Arith_More\<close>, \<open>Arith_Round\<close>: what they compute;
    the locale \<open>exact_op\<close> is what a fold needs of them. \<open>Eval\<close>: \<open>eval_arith\<close> and \<open>c_MUL_MOD_cccf\<close>.
  \<^item> Finite domains, \<open>emu/domain.c\<close>, \<open>emu/clpfd.h\<close>, \<open>emu/clpfd.c\<close>, \<open>emu/clpfd_libs.c\<close>,
    \<open>emu/event.h\<close>. \<open>Bitvec\<close>: bit vectors. \<open>Trigger\<close>: the block of a domain variable, the trail and the
    event queue. \<open>Domain\<close>: exclusion of values and intervals, regions. \<open>Domain_Sets\<close>,
    \<open>Domain_Region\<close>: the sets of values they leave. \<open>Domain_Rel\<close>: inclusion, disjointness and the
    built-ins that read a domain. \<open>Backtrack\<close>: undoing. \<open>Domain_Prop\<close>: intersection, lists of values
    and the propagators of binary equations, clients of the locale \<open>excluder\<close>. \<open>Finite_Domains\<close>: the
    properties.
  \<^item> Order and sorting, \<open>emu/mic.c\<close>. \<open>Qsort\<close>: the iterative quicksort, with the locale
    \<open>comparator\<close>. \<open>Term_Order\<close>: \<open>bp_compare\<close>. \<open>Term_Sort\<close>: the sorting built-ins.
  \<^item> Unification, \<open>emu/unify.c\<close>. \<open>Store\<close>: heap, stack, trail and the trees that words denote.
    \<open>Unify\<close>, \<open>Unify_More\<close>: unification, identity and the test for unifiability. \<open>Unification\<close>: the
    properties.
  \<^item> Tabling, \<open>emu/table.c\<close> with \<open>emu/frame.h\<close>, parts of \<open>emu/mic.c\<close>, \<open>emu/loader.c\<close>, \<open>emu/bapi.h\<close>,
    \<open>emu/numbervars.c\<close> and two instructions of \<open>emu/emu_inst.h\<close>. \<open>Hash_Chains\<close>: hash codes and tables
    of chains that grow. \<open>Table_Term\<close>, \<open>Table_Area\<close>: terms in the table area, their comparison, and the
    registration of ground terms. \<open>Table_Copy\<close>, \<open>Table_Unnumber\<close>: copying in and out. \<open>Subgoal_Table\<close>:
    \<open>lookupSubgoalTable\<close>. \<open>Answer_Table\<close>: adding answers. \<open>Best_First\<close>: lists that keep the best, with the
    locale \<open>preference\<close>; \<open>Answer_Best\<close> interprets it on the order of answers. \<open>Table_Produce\<close>,
    \<open>Table_Engine\<close>: \<open>table_produce\<close> and \<open>table_allocate\<close>, and the states they lead to. \<open>Tabling\<close>: the
    properties.
  \<^item> Terms of the table area up to the names of variables, the rest of \<open>emu/table.c\<close> that needs no frame,
    with \<open>unifyNumberedTerms\<close> and \<open>key_identical\<close> of \<open>emu/unify.c\<close>. \<open>Variants\<close>: the test for variants, the
    test for instances, and the lookup of a call without copying it. \<open>Table_Maps\<close>: the maps kept in the
    table area, from finding the map of an identifier to storing, reading, counting and clearing.

  \<^bold>\<open>How the model corresponds to the code.\<close> Definitions have the names of the C functions and macros. A
  function that fills an array or changes the machine takes the old array or state and returns the
  new one. An exception of the engine, \<open>quit\<close> for a full area, and an access that C leaves undefined
  are error values, so they are branches of the model; that a routine stays inside its arrays is part
  of what is proved (the multiplication of magnitudes, for example, returns no result if it accesses a digit
  outside its arrays). Where an array is filled from the stack, its old contents do not matter and are 0.
  A word that the code reads without having written it is an argument (\<open>uw\<close> of the lookup).

  \<^bold>\<open>What the lemmas show.\<close> Arithmetic: each operation computes its mathematical value in canonical form,
  at every size, with the exceptions the code has stated exactly; the evaluator refines a reference
  semantics of integer expressions, and its \<open>^\<close> differs from the documented one. Doubles: rounding operations are exact, with the edges of the range.
  Domains: every operation refines the removal of a set of values, keeps the variable consistent and is
  undone by the trail; propagators lose no solution. Sorting: a sorted permutation whenever the area
  suffices, and where the order is not total. Unification: most general, undoable, and it returns for
  terms with a common finite instance. Tabling: copies stand for the same terms, calls are found up to
  the names of variables while the tables grow, and in every reachable state a subgoal has the first or
  the best of its answers; a call without arguments is found by accident only, and a planner call can be
  lost when the table grows. The test for variants and the test for instances decide what they are for
  (the former on terms without common variables), and a map of the table area is a finite map.

  \<^bold>\<open>Bounds and fuel.\<close> The loops of \<open>gcd_loop\<close> and \<open>write_blocks\<close> are partial functions in \<open>option\<close>; that they
  return is proved for every well-formed argument. \<open>DEREF\<close>, \<open>unify\<close> and \<open>bp_identical\<close> have a bound on
  their steps because cyclic terms exist: the value for a cyclic pair is \<open>Out_of_fuel\<close> for every bound,
  and for terms with a common finite instance some bound suffices and every larger one gives the same
  result. The functions on terms of the table area, which are finite trees, have a bound \<open>n\<close> on their
  depth; the theorems hold for every \<open>n\<close> above the sizes of the terms, so the bound is no restriction.
  All other recursions have a measure.

  \<^bold>\<open>Assumptions.\<close> An operation on two domain variables is given two different ones. Products and sums
  of the propagators' integers stay in 64 bits, and counters of loops over domain values in 32 bits (a
  finding says where the code does not make sure). A sort area has fewer than \<open>2^31\<close> cells. Where the
  code compares two words as pointers and stops early, the model compares the terms, which agrees save
  for terms that contain a NaN. Stores on which unification is proved hold no suspended variables.
  A symbol is its address and its arity; the terms that the comparison of answers sees, which needs the
  table of symbols, are an argument \<open>tval\<close>. An address of the table area is a block and an offset in it.
  The functions of the C library on doubles, the random numbers and the clock are arguments, and so is
  the success of \<open>malloc\<close>.

  \<^bold>\<open>Not modelled.\<close> The instruction interpreter (\<open>emu_inst.h\<close>, \<open>toam.c\<close>, \<open>inst.h\<close>) except for the two
  instructions above, because its meaning is that of the compiled program; of tabling, the completion
  of recursive subgoals, which depends on the frames of the interpreter, and the lists of keys and values of a map;
  the loader, the tokenizer and the file system interface; garbage collection; the dynamic database; constraints over more than two variables; the interfaces to
  SAT, LP and Java; the vendored solvers and libraries in subdirectories; and the compiled library code
  in \<open>picat_bc.h\<close>. The manifest lists the parts with the reason for each.
\<close>

end
